(* ===== verification/Ring_Prelude.thy ===== *)
theory Ring_Prelude
  imports "HOL-Library.Word"
begin

text \<open>
  Shared material of the development: the machine integer types, the fixed
  vocabulary for faults, the arithmetic of monotonic wrapping cursors (the
  distance between two cursors, the masked slot index) and the window of a
  ring buffer between two cursors.

  All cursors of the crate are 64-bit words: \<open>u64\<close> in the gating and lossy
  rings, and \<open>usize\<close> (64 bits on the modelled targets) in the SPSC engine.
  They are kept as words, so that \<open>wrapping_add\<close> and \<open>wrapping_sub\<close> are the
  word operations and wrap-around is part of every theorem.
\<close>

unbundle bit_operations_syntax

type_synonym u8 = "8 word"
type_synonym u32 = "32 word"
type_synonym u64 = "64 word"
type_synonym usize = "64 word"

text \<open>
  What a Rust function does instead of returning: an \<open>assert!\<close>/\<open>expect\<close>
  panic, or an access the \<open>unsafe\<close> blocks must rule out (reading a slot whose
  contents are not initialised or were moved out, or an access past the end of
  the buffer).
\<close>

datatype fault = Panic | UninitRead | OutOfBounds

named_theorems ring_defs \<open>definitions of the ring operations, for unfolding\<close>
named_theorems cursor_arith \<open>rewriting of distances between wrapping cursors\<close>

text \<open>
  \<open>compare_exchange expected new\<close> on an atomic word: whether it succeeded and
  the word afterwards.
\<close>

definition compare_exchange :: "u64 \<Rightarrow> u64 \<Rightarrow> u64 \<Rightarrow> bool \<times> u64" where
  "compare_exchange expected new cur =
     (if cur = expected then (True, new) else (False, cur))"

text \<open>Rust's saturating operations on \<open>u64\<close>.\<close>

definition saturating_add :: "u64 \<Rightarrow> u64 \<Rightarrow> u64" where
  "saturating_add a b = (if a + b < a then - 1 else a + b)"

definition saturating_sub :: "u64 \<Rightarrow> u64 \<Rightarrow> u64" where
  "saturating_sub a b = (if a < b then 0 else a - b)"

section \<open>Distances between wrapping cursors\<close>

text \<open>
  \<open>cdist a b\<close> is how far cursor \<open>b\<close> is ahead of cursor \<open>a\<close>, as the code
  computes it: \<open>b.wrapping_sub(a)\<close>.
\<close>

definition cdist :: "u64 \<Rightarrow> u64 \<Rightarrow> nat" where
  "cdist a b = unat (b - a)"

text \<open>The number of cursor values, kept folded so that \<open>2 ^ 64\<close> is not evaluated.\<close>

definition word_span :: nat where
  "word_span = 2 ^ 64"

lemma unat_less_span [simp]: "unat (x :: u64) < word_span"
  using unsigned_less [of x] by (simp add: word_span_def)

lemma unat_add_span:
  "unat (x :: u64) + unat y < word_span \<Longrightarrow> unat (x + y) = unat x + unat y"
  using unat_add_lem [of x y] by (simp add: word_span_def)

lemma unat_of_nat_span:
  "n < word_span \<Longrightarrow> unat (of_nat n :: u64) = n"
  by (simp add: word_span_def unat_of_nat)

lemma unat_numeral_span:
  "(numeral k :: nat) < word_span \<Longrightarrow> unat (numeral k :: u64) = numeral k"
  using unat_of_nat_span [of "numeral k"] by simp

lemma cdist_self [simp]: "cdist a a = 0"
  by (simp add: cdist_def)

lemma cdist_eq_0_iff [simp]: "cdist a b = 0 \<longleftrightarrow> a = b"
  unfolding cdist_def by (metis eq_iff_diff_eq_0 unat_eq_0)

lemma cdist_less_span [simp]: "cdist a b < word_span"
  by (simp add: cdist_def)

lemma cdist_0: "cdist 0 x = unat x"
  by (simp add: cdist_def)

text \<open>Rebasing: if \<open>b\<close> lies between \<open>a\<close> and \<open>c\<close>, distances subtract.\<close>

lemma cdist_rebase:
  assumes "cdist a b \<le> cdist a c"
  shows "cdist b c = cdist a c - cdist a b"
proof -
  have le: "b - a \<le> c - a"
    using assms by (simp add: cdist_def word_le_nat_alt)
  have "c - b = (c - a) - (b - a)" by simp
  then have "unat (c - b) = unat ((c - a) - (b - a))" by (rule arg_cong)
  also have "\<dots> = unat (c - a) - unat (b - a)"
    using le by (rule unat_sub)
  finally show ?thesis by (simp only: cdist_def)
qed

lemma cdist_chain:
  "cdist a b \<le> cdist a c \<Longrightarrow> cdist a b + cdist b c = cdist a c"
  using cdist_rebase [of a b c] by linarith

lemma cdist_mono_left:
  assumes bc: "cdist a b \<le> cdist a c" and cd: "cdist a c \<le> cdist a d"
  shows "cdist b c \<le> cdist b d"
  using cdist_rebase [OF bc] cdist_rebase [OF le_trans [OF bc cd]] cd by linarith

lemma cdist_mono_right:
  assumes bc: "cdist a b \<le> cdist a c" and cd: "cdist a c \<le> cdist a d"
  shows "cdist c d \<le> cdist b d"
  using cdist_rebase [OF cd] cdist_rebase [OF le_trans [OF bc cd]] bc by linarith

lemma cdist_add:
  assumes "cdist a b + unat n < word_span"
  shows "cdist a (b + n) = cdist a b + unat n"
proof -
  have "b + n - a = (b - a) + n" by simp
  then have "unat (b + n - a) = unat ((b - a) + n)" by (rule arg_cong)
  also have "\<dots> = unat (b - a) + unat n"
    using assms unfolding cdist_def by (rule unat_add_span)
  finally show ?thesis by (simp only: cdist_def)
qed

lemma cdist_add_of_nat:
  assumes "cdist a b + n < word_span"
  shows "cdist a (b + of_nat n) = cdist a b + n"
proof -
  have "n < word_span" using assms by linarith
  then have "unat (of_nat n :: u64) = n" by (rule unat_of_nat_span)
  then show ?thesis using cdist_add [of a b "of_nat n"] assms by simp
qed

lemma cdist_Suc:
  assumes "cdist a b < c" and "c < word_span"
  shows "cdist a (b + 1) = Suc (cdist a b)"
  using cdist_add_of_nat [of a b 1] assms by simp

lemma cdist_self_add [simp]: "cdist a (a + n) = unat n"
  by (simp add: cdist_def)

lemma cdist_advance:
  assumes "unat n \<le> cdist a b"
  shows "cdist (a + n) b = cdist a b - unat n"
  using cdist_rebase [of a "a + n" b] assms by simp

lemma cdist_advance_1:
  assumes "a \<noteq> b"
  shows "cdist (a + 1) b = cdist a b - 1"
proof -
  have "0 < cdist a b" using assms by (simp add: zero_less_iff_neq_zero)
  then show ?thesis using cdist_advance [of 1 a b] by simp
qed

lemma add_cdist [simp]: "a + of_nat (cdist a b) = b"
  by (simp add: cdist_def)

lemma cdist_sub [simp]: "cdist (b - n) b = unat n"
  by (simp add: cdist_def)

section \<open>Masked slot indices\<close>

text \<open>
  \<open>mask\<close> is \<open>capacity - 1\<close> for a power-of-two capacity. \<open>valid_mask\<close> is
  executable; \<open>slot_ix m c\<close> is the code's \<open>(cursor & mask) as usize\<close>.
\<close>

definition valid_mask :: "u64 \<Rightarrow> bool" where
  "valid_mask m \<longleftrightarrow> (\<exists>k<64. m = mask k)"

definition slot_ix :: "u64 \<Rightarrow> u64 \<Rightarrow> nat" where
  "slot_ix m c = unat (c AND m)"

definition capacity_of :: "u64 \<Rightarrow> nat" where
  "capacity_of m = unat (m + 1)"

lemma valid_maskI: "k < 64 \<Longrightarrow> m = mask k \<Longrightarrow> valid_mask m"
  by (auto simp: valid_mask_def)

lemma valid_maskE:
  assumes "valid_mask m"
  obtains k where "k < 64" and "m = mask k" and "capacity_of m = 2 ^ k"
proof -
  from assms obtain k where k: "k < 64" "m = mask k"
    by (auto simp: valid_mask_def)
  have "m + 1 = 2 ^ k"
    using k by (simp add: mask_eq_decr_exp)
  moreover have "unat (2 ^ k :: u64) = 2 ^ k"
  proof -
    have "(2::nat) ^ k < word_span"
      unfolding word_span_def using k by (intro power_strict_increasing) simp_all
    then have "unat (of_nat (2 ^ k) :: u64) = 2 ^ k" by (rule unat_of_nat_span)
    then show ?thesis by simp
  qed
  ultimately have "capacity_of m = 2 ^ k"
    by (simp add: capacity_of_def)
  with k show ?thesis by (rule that)
qed

lemma capacity_pos: "valid_mask m \<Longrightarrow> 0 < capacity_of m"
  by (auto elim!: valid_maskE)

lemma capacity_less:
  assumes "valid_mask m"
  shows "capacity_of m < word_span"
proof -
  from assms obtain k where "k < 64" "capacity_of m = 2 ^ k"
    by (rule valid_maskE)
  then show ?thesis
    using power_strict_increasing [of k 64 "2::nat"] by (simp add: word_span_def)
qed

lemma capacity_dvd:
  assumes "valid_mask m"
  shows "capacity_of m dvd word_span"
proof -
  from assms obtain k where "k < 64" "capacity_of m = 2 ^ k"
    by (rule valid_maskE)
  then show ?thesis
    unfolding word_span_def by (simp only: le_imp_power_dvd less_imp_le)
qed

lemma capacity_half:
  assumes "valid_mask m"
  shows "capacity_of m \<le> 2 ^ 63"
proof -
  from assms obtain k where "k < 64" "capacity_of m = 2 ^ k"
    by (rule valid_maskE)
  then show ?thesis
    using power_increasing [of k 63 "2::nat"] by simp
qed

lemma unat_mask_eq: "valid_mask m \<Longrightarrow> unat m = capacity_of m - 1"
proof (erule valid_maskE)
  fix k assume k: "k < 64" "m = mask k" "capacity_of m = 2 ^ k"
  have "m + 1 \<noteq> 0"
    using k by (auto simp: capacity_of_def unat_eq_0)
  then have "unat (m + 1) = Suc (unat m)"
    by (metis add.commute unatSuc)
  then show ?thesis by (simp add: capacity_of_def)
qed

lemma slot_ix_mod:
  assumes "valid_mask m"
  shows "slot_ix m c = unat c mod capacity_of m"
  using assms
proof (rule valid_maskE)
  fix k assume k: "k < 64" "m = mask k" "capacity_of m = 2 ^ k"
  have "unat (c AND mask k) = unat (take_bit k c)"
    by (simp only: take_bit_eq_mask)
  also have "\<dots> = take_bit k (unat c)"
    by (rule unsigned_take_bit_eq)
  also have "\<dots> = unat c mod 2 ^ k"
    by (rule take_bit_eq_mod)
  finally have "unat (c AND mask k) = unat c mod 2 ^ k" .
  with k show ?thesis by (simp add: slot_ix_def)
qed

lemma slot_ix_less: "valid_mask m \<Longrightarrow> slot_ix m c < capacity_of m"
  by (simp add: slot_ix_mod capacity_pos)

lemma slot_ix_add:
  assumes "valid_mask m"
  shows "slot_ix m (c + of_nat i) = (unat c + i) mod capacity_of m"
proof -
  have "unat (c + of_nat i) = (unat c + i) mod word_span"
    by (simp add: word_span_def unat_word_ariths unat_of_nat mod_add_right_eq)
  then show ?thesis
    using assms by (simp add: slot_ix_mod mod_mod_cancel capacity_dvd)
qed

lemma mod_add_inject_nat:
  fixes a i j n :: nat
  assumes "i < n" and "j < n" and eq: "(a + i) mod n = (a + j) mod n"
  shows "i = j"
  using assms
proof (induction i j rule: linorder_wlog)
  case (le i j)
  have "n dvd (a + j) - (a + i)"
    using le by (metis mod_eq_dvd_iff_nat nat_add_left_cancel_le)
  then have "n dvd j - i" by simp
  moreover have "j - i < n" using le by simp
  ultimately have "j - i = 0" using nat_dvd_not_less by blast
  with le show ?case by simp
next
  case (sym i j)
  then show ?case by simp
qed

lemma slot_ix_inject:
  assumes "valid_mask m" and "i < capacity_of m" and "j < capacity_of m"
  shows "slot_ix m (c + of_nat i) = slot_ix m (c + of_nat j) \<longleftrightarrow> i = j"
  using mod_add_inject_nat [OF assms(2,3), of "unat c"] assms(1)
  by (auto simp: slot_ix_add)

lemma slot_ix_wrap:
  assumes "valid_mask m"
  shows "slot_ix m (c + of_nat (capacity_of m)) = slot_ix m c"
  using assms slot_ix_add [OF assms, of c "capacity_of m"]
  by (simp add: slot_ix_mod)

section \<open>The window of a ring buffer\<close>

text \<open>
  \<open>window m buf rd n\<close> lists the \<open>n\<close> slots that cursors \<open>rd, rd + 1, \<dots>\<close>
  designate. Writing a slot outside the window leaves it alone, writing the next
  slot appends to it, and releasing the first slot drops its head.
\<close>

definition window :: "u64 \<Rightarrow> 'b list \<Rightarrow> u64 \<Rightarrow> nat \<Rightarrow> 'b list" where
  "window m buf rd n = map (\<lambda>i. buf ! slot_ix m (rd + of_nat i)) [0..<n]"

lemma length_window [simp]: "length (window m buf rd n) = n"
  by (simp add: window_def)

lemma window_0 [simp]: "window m buf rd 0 = []"
  by (simp add: window_def)

lemma window_nth: "i < n \<Longrightarrow> window m buf rd n ! i = buf ! slot_ix m (rd + of_nat i)"
  by (simp add: window_def)

lemma window_Suc: "window m buf rd (Suc n) = buf ! slot_ix m rd # window m buf (rd + 1) n"
  by (auto simp: window_def upt_conv_Cons map_Suc_upt [symmetric] algebra_simps
      simp del: upt_Suc)

lemma window_snoc:
  "window m buf rd (Suc n) = window m buf rd n @ [buf ! slot_ix m (rd + of_nat n)]"
  by (simp add: window_def)

lemma window_write_outside:
  assumes "valid_mask m" and "n \<le> i" and "i < capacity_of m"
  shows "window m (buf[slot_ix m (rd + of_nat i) := v]) rd n = window m buf rd n"
proof (rule nth_equalityI)
  fix j assume "j < length (window m (buf[slot_ix m (rd + of_nat i) := v]) rd n)"
  then have j: "j < n" by simp
  then have "slot_ix m (rd + of_nat j) \<noteq> slot_ix m (rd + of_nat i)"
    using assms by (simp add: slot_ix_inject)
  with j show "window m (buf[slot_ix m (rd + of_nat i) := v]) rd n ! j = window m buf rd n ! j"
    by (simp add: window_nth)
qed simp

lemma window_write:
  assumes "valid_mask m" and "length buf = capacity_of m" and "n < capacity_of m"
  shows "window m (buf[slot_ix m (rd + of_nat n) := v]) rd (Suc n) = window m buf rd n @ [v]"
proof -
  have "slot_ix m (rd + of_nat n) < length buf"
    using assms slot_ix_less by simp
  then show ?thesis
    using assms by (simp add: window_snoc window_write_outside)
qed

lemma window_release:
  assumes m: "valid_mask m" and n: "n < capacity_of m"
  shows "window m (buf[slot_ix m rd := v]) (rd + 1) n = window m buf (rd + 1) n"
proof (rule nth_equalityI)
  fix i assume "i < length (window m (buf[slot_ix m rd := v]) (rd + 1) n)"
  then have i: "i < n" by simp
  then have "slot_ix m (rd + of_nat (Suc i)) \<noteq> slot_ix m (rd + of_nat 0)"
    using m n by (subst slot_ix_inject) auto
  then show "window m (buf[slot_ix m rd := v]) (rd + 1) n ! i = window m buf (rd + 1) n ! i"
    using i by (simp add: window_nth add.assoc)
qed simp

lemma window_cong:
  assumes "\<And>i. i < n \<Longrightarrow> buf ! slot_ix m (rd + of_nat i) = buf' ! slot_ix m (rd + of_nat i)"
  shows "window m buf rd n = window m buf' rd n"
  using assms by (simp add: window_def)

end
