(* ===== verification/Lease.thy ===== *)
theory Lease
  imports Ring_Prelude
begin

text \<open>
  Role leases of a shared-memory ring (\<open>src/src/shm.rs\<close>): the two lease words
  and the generation word of the mapped header, the claim of a free role, the
  forced takeover and the guarded release. A heap ring has no lease; its anchor
  owns the ring unconditionally. \<open>lease_token()\<close> is a random nonzero word and
  so a parameter here.
\<close>

datatype role = RoleProducer | RoleConsumer

record region =
  producer_lease :: u64
  consumer_lease :: u64
  generation :: u64

fun lease_word :: "role \<Rightarrow> region \<Rightarrow> u64" where
  "lease_word RoleProducer r = producer_lease r"
| "lease_word RoleConsumer r = consumer_lease r"

fun set_lease_word :: "role \<Rightarrow> u64 \<Rightarrow> region \<Rightarrow> region" where
  "set_lease_word RoleProducer t r = r\<lparr>producer_lease := t\<rparr>"
| "set_lease_word RoleConsumer t r = r\<lparr>consumer_lease := t\<rparr>"

text \<open>\<open>AnchorKind\<close>: what keeps the ring alive, with the shm anchor's role, token and process.\<close>

datatype anchor = Heap | Shm role u64 int

fun owns_lease :: "region \<Rightarrow> role \<Rightarrow> u64 \<Rightarrow> bool" where
  "owns_lease r ro token = (lease_word ro r = token)"

fun owns_ring :: "region \<Rightarrow> anchor \<Rightarrow> bool" where
  "owns_ring r Heap = True"
| "owns_ring r (Shm ro token owner_pid) = owns_lease r ro token"

fun teardown_allowed :: "int \<Rightarrow> region \<Rightarrow> anchor \<Rightarrow> bool" where
  "teardown_allowed getpid r Heap = True"
| "teardown_allowed getpid r (Shm ro token owner_pid) =
     (getpid = owner_pid \<and> owns_lease r ro token)"

text \<open>\<open>Drop for ShmAnchor\<close>: the guarded release of the lease.\<close>

fun anchor_drop :: "int \<Rightarrow> region \<Rightarrow> anchor \<Rightarrow> region" where
  "anchor_drop getpid r Heap = r"
| "anchor_drop getpid r (Shm ro token owner_pid) =
     (if getpid \<noteq> owner_pid then r
      else set_lease_word ro (snd (compare_exchange token 0 (lease_word ro r))) r)"

datatype claim_error = AddrInUse

text \<open>
  \<open>claim_lease\<close>: the compare-exchange on the free lease, then the re-read of
  the generation. \<open>race\<close> is what other processes do to the header between the
  two; the roll-back is itself conditional on still holding the token.
\<close>

definition claim_lease ::
  "u64 \<Rightarrow> role \<Rightarrow> u64 \<Rightarrow> (region \<Rightarrow> region) \<Rightarrow> region \<Rightarrow> (claim_error + u64) \<times> region" where
  "claim_lease token ro gen race r =
     (case compare_exchange 0 token (lease_word ro r) of
        (True, w) \<Rightarrow>
          (let r1 = race (set_lease_word ro w r)
           in if generation r1 \<noteq> gen
              then (Inl AddrInUse,
                    set_lease_word ro (snd (compare_exchange token 0 (lease_word ro r1))) r1)
              else (Inr token, r1))
      | (False, w) \<Rightarrow> (Inl AddrInUse, r))"

definition force_claim_lease :: "u64 \<Rightarrow> role \<Rightarrow> region \<Rightarrow> u64 \<times> region" where
  "force_claim_lease token ro r = (token, set_lease_word ro token r)"

lemmas lease_defs = claim_lease_def force_claim_lease_def compare_exchange_def Let_def

lemma lease_word_set [simp]:
  "lease_word ro (set_lease_word ro t r) = t"
  "ro \<noteq> ro' \<Longrightarrow> lease_word ro (set_lease_word ro' t r) = lease_word ro r"
  by (cases ro; cases ro'; simp)+

lemma generation_set [simp]: "generation (set_lease_word ro t r) = generation r"
  by (cases ro) simp_all

lemma set_lease_word_same [simp]: "set_lease_word ro (lease_word ro r) r = r"
  by (cases ro) simp_all

text \<open>
  Whatever races with a claim: the claim is its undisturbed compare-exchange,
  then the race, and when the generation moved the guarded release of the token
  just taken.
\<close>

lemma claim_lease_split:
  "claim_lease t ro gen race r =
     (case claim_lease t ro (generation r) (\<lambda>r. r) r of
        (Inl e, r1) \<Rightarrow> (Inl e, r1)
      | (Inr t', r1) \<Rightarrow>
          (if generation (race r1) = gen then (Inr t', race r1)
           else (Inl AddrInUse, anchor_drop pid (race r1) (Shm ro t pid))))"
  by (simp add: lease_defs)

section \<open>Claims, takeovers and releases over many handles\<close>

text \<open>
  The lease word of one role and every handle that ever held it. A handle is a
  token and the process that built it; \<open>forked\<close> copies carry the token in
  another process. A \<open>claim\<close> step is the compare-exchange of \<open>claim_lease\<close> and the
  look at the generation with nobody in between. A claim others race with is the
  \<open>claim\<close> step, their steps, and then nothing more or a \<open>drop\<close> step of the new
  handle: the roll-back is the guarded release (\<open>claim_lease_split\<close>).
\<close>

record lease_sys =
  ls_region :: region
  ls_live :: "(u64 \<times> int) list"

inductive lease_step :: "role \<Rightarrow> bool \<Rightarrow> lease_sys \<Rightarrow> lease_sys \<Rightarrow> bool" for ro forced where
  claim: "claim_lease t ro (generation (ls_region s)) (\<lambda>r. r) (ls_region s) = (Inr t, r') \<Longrightarrow>
     t \<noteq> 0 \<Longrightarrow> t \<notin> fst ` set (ls_live s) \<Longrightarrow>
     lease_step ro forced s (s\<lparr>ls_region := r', ls_live := (t, pid) # ls_live s\<rparr>)"
| claim_busy: "claim_lease t ro g (\<lambda>r. r) (ls_region s) = (Inl e, r') \<Longrightarrow>
     t \<noteq> 0 \<Longrightarrow> t \<notin> fst ` set (ls_live s) \<Longrightarrow>
     lease_step ro forced s (s\<lparr>ls_region := r'\<rparr>)"
| force: "forced \<Longrightarrow> force_claim_lease t ro (ls_region s) = (t, r') \<Longrightarrow>
     t \<noteq> 0 \<Longrightarrow> t \<notin> fst ` set (ls_live s) \<Longrightarrow>
     lease_step ro forced s (s\<lparr>ls_region := r', ls_live := (t, pid) # ls_live s\<rparr>)"
| drop: "(t, pid) \<in> set (ls_live s) \<Longrightarrow>
     lease_step ro forced s
       (s\<lparr>ls_region := anchor_drop pid (ls_region s) (Shm ro t pid),
          ls_live := filter (\<lambda>h. h \<noteq> (t, pid)) (ls_live s)\<rparr>)"
| drop_forked: "(t, pid) \<in> set (ls_live s) \<Longrightarrow> pid' \<noteq> pid \<Longrightarrow>
     lease_step ro forced s
       (s\<lparr>ls_region := anchor_drop pid' (ls_region s) (Shm ro t pid)\<rparr>)"

inductive_cases lease_stepE: "lease_step ro forced s s'"

inductive lease_reach :: "role \<Rightarrow> bool \<Rightarrow> lease_sys \<Rightarrow> bool" for ro forced where
  start: "lease_reach ro forced \<lparr>ls_region = \<lparr>producer_lease = 0, consumer_lease = 0,
            generation = g\<rparr>, ls_live = []\<rparr>"
| step: "lease_reach ro forced s \<Longrightarrow> lease_step ro forced s s' \<Longrightarrow> lease_reach ro forced s'"

text \<open>
  Without a forced takeover the live handles of a role are exactly the holder of
  its lease: at most one, and none when the lease is free.
\<close>

definition lease_exclusive :: "role \<Rightarrow> lease_sys \<Rightarrow> bool" where
  "lease_exclusive ro s \<longleftrightarrow>
     (case ls_live s of
        [] \<Rightarrow> lease_word ro (ls_region s) = 0
      | [(t, pid)] \<Rightarrow> lease_word ro (ls_region s) = t \<and> t \<noteq> 0
      | _ \<Rightarrow> False)"

lemma lease_step_exclusive:
  assumes "lease_step ro False s s'" and "lease_exclusive ro s"
  shows "lease_exclusive ro s'"
  using assms
  by (induction rule: lease_step.cases)
    (auto simp: lease_exclusive_def lease_defs split: list.splits if_splits)

text \<open>
  With takeovers, a superseded handle never disturbs the lease of the current
  holder: neither the release of the zombie nor of a forked copy writes it.
\<close>

lemma anchor_drop_zombie:
  assumes "lease_word ro r \<noteq> t"
  shows "anchor_drop pid r (Shm ro t owner) = r"
  using assms by (simp add: compare_exchange_def)

lemma anchor_drop_forked: "pid \<noteq> owner \<Longrightarrow> anchor_drop pid r (Shm ro t owner) = r"
  by simp

lemma anchor_drop_owner:
  "lease_word ro r = t \<Longrightarrow> lease_word ro (anchor_drop pid r (Shm ro t pid)) = 0"
  by (simp add: compare_exchange_def)

lemma claim_lease_rollback:
  assumes "claim_lease t ro gen race r = (Inl e, r')"
    and "lease_word ro r = 0"
  shows "lease_word ro r' \<noteq> t \<or> t = 0"
  using assms by (auto simp: lease_defs split: if_splits)


text \<open>With takeovers: distinct tokens, and a held lease belongs to a live handle.\<close>

definition lease_owned :: "role \<Rightarrow> lease_sys \<Rightarrow> bool" where
  "lease_owned ro s \<longleftrightarrow> distinct (map fst (ls_live s)) \<and> 0 \<notin> fst ` set (ls_live s)
     \<and> (lease_word ro (ls_region s) = 0 \<or> lease_word ro (ls_region s) \<in> fst ` set (ls_live s))"

lemma lease_step_owned:
  assumes "lease_step ro forced s s'" and "lease_owned ro s"
  shows "lease_owned ro s'"
  using assms(1)
proof cases
  case (claim t r' pid)
  then have "lease_word ro r' = t" by (auto simp: lease_defs split: if_splits)
  then show ?thesis using assms(2) claim by (simp add: lease_owned_def)
next
  case (claim_busy t g e r')
  then have "lease_word ro r' = lease_word ro (ls_region s) \<or> lease_word ro r' = 0"
    by (auto simp: lease_defs split: if_splits)
  then show ?thesis using assms(2) claim_busy(1)
    unfolding lease_owned_def by (elim disjE) simp_all
next
  case (force t r' pid)
  then have "lease_word ro r' = t" by (auto simp: lease_defs)
  then show ?thesis using assms(2) force by (simp add: lease_owned_def)
next
  case (drop t pid)
  have w: "lease_word ro (ls_region s')
      = (if lease_word ro (ls_region s) = t then 0 else lease_word ro (ls_region s))"
    using drop by (simp add: compare_exchange_def)
  show ?thesis
    using assms(2) unfolding lease_owned_def w
    by (auto simp: drop distinct_map_filter)
next
  case (drop_forked t pid pid')
  then show ?thesis using assms(2) by (simp add: lease_owned_def)
qed

text \<open>How a step may move a held lease: it stays, it is taken over, or its holder gives it up.\<close>

definition lease_handover :: "role \<Rightarrow> bool \<Rightarrow> lease_sys \<Rightarrow> lease_sys \<Rightarrow> bool" where
  "lease_handover ro forced s s' \<longleftrightarrow>
     lease_word ro (ls_region s') = lease_word ro (ls_region s)
     \<or> forced \<and> (\<exists>pid. ls_live s' = (lease_word ro (ls_region s'), pid) # ls_live s)
     \<or> lease_word ro (ls_region s') = 0
        \<and> (\<exists>pid. (lease_word ro (ls_region s), pid) \<in> set (ls_live s)
             \<and> ls_live s' = filter (\<lambda>h. h \<noteq> (lease_word ro (ls_region s), pid)) (ls_live s))"

lemma lease_step_handover:
  assumes "lease_step ro forced s s'" and held: "lease_word ro (ls_region s) \<noteq> 0"
  shows "lease_handover ro forced s s'"
  using assms(1)
proof cases
  case (claim t r' pid)
  then show ?thesis using held by (auto simp: lease_defs split: if_splits)
next
  case (claim_busy t g e r')
  then show ?thesis using held by (auto simp: lease_handover_def lease_defs split: if_splits)
next
  case (force t r' pid)
  then have "lease_word ro r' = t" by (auto simp: lease_defs)
  then show ?thesis using force by (auto simp: lease_handover_def)
next
  case (drop t pid)
  show ?thesis
  proof (cases "lease_word ro (ls_region s) = t")
    case True
    then show ?thesis using drop by (auto simp: lease_handover_def compare_exchange_def)
  next
    case False
    then show ?thesis using drop by (simp add: lease_handover_def compare_exchange_def)
  qed
next
  case (drop_forked t pid pid')
  then show ?thesis by (simp add: lease_handover_def)
qed

text \<open>A drop writes only the lease word of its role, and only when it ends the holder's own process's hold.\<close>

lemma anchor_drop_exact:
  "lease_word ro (anchor_drop pid' r (Shm ro t pid))
     = (if pid' = pid \<and> lease_word ro r = t then 0 else lease_word ro r)"
  "ro' \<noteq> ro \<Longrightarrow> lease_word ro' (anchor_drop pid' r (Shm ro t pid)) = lease_word ro' r"
  "generation (anchor_drop pid' r (Shm ro t pid)) = generation r"
  by (simp_all add: compare_exchange_def)

text \<open>
  (C6) In every reachable state of a role's lease, under claims, forced
  takeovers, drops and drops of forked copies, a held lease is owned by exactly
  one live handle; without takeovers there is no other live handle at all, and
  none when the lease is free. A held lease is moved by nothing but a forced
  takeover, which makes the new handle its owner, or the drop of the very handle
  that owns it: whatever other live handle is dropped, a superseded one late, or
  a copy in a forked process, the lease word, the other role's lease and the
  generation stay as they are.
\<close>

theorem lease_single_holder:
  assumes "lease_reach ro forced s"
  shows "(lease_word ro (ls_region s) \<noteq> 0 \<longrightarrow>
            (\<exists>!h. h \<in> set (ls_live s) \<and> owns_lease (ls_region s) ro (fst h)))
     \<and> (\<not> forced \<longrightarrow> lease_exclusive ro s)
     \<and> (\<forall>s'. lease_step ro forced s s' \<and> lease_word ro (ls_region s) \<noteq> 0 \<longrightarrow> lease_handover ro forced s s')
     \<and> (\<forall>(t, pid)\<in>set (ls_live s). \<forall>pid'.
          (let r' = anchor_drop pid' (ls_region s) (Shm ro t pid) in
           (if pid' = pid \<and> lease_word ro (ls_region s) = t then lease_word ro r' = 0 else r' = ls_region s)
           \<and> (\<forall>ro'. ro' \<noteq> ro \<longrightarrow> lease_word ro' r' = lease_word ro' (ls_region s))
           \<and> generation r' = generation (ls_region s)))"
proof -
  have "lease_owned ro s \<and> (\<not> forced \<longrightarrow> lease_exclusive ro s)"
    using assms
  proof induction
    case (start g)
    then show ?case by (cases ro) (simp_all add: lease_owned_def lease_exclusive_def)
  next
    case (step s s')
    then show ?case using lease_step_owned lease_step_exclusive by metis
  qed
  then have owned: "lease_owned ro s" and excl: "\<not> forced \<longrightarrow> lease_exclusive ro s" by auto
  have one: "\<exists>!h. h \<in> set (ls_live s) \<and> owns_lease (ls_region s) ro (fst h)"
    if held: "lease_word ro (ls_region s) \<noteq> 0"
  proof -
    obtain h where h: "h \<in> set (ls_live s)" "fst h = lease_word ro (ls_region s)"
      using owned held unfolding lease_owned_def by (metis imageE)
    moreover have "inj_on fst (set (ls_live s))"
      using owned by (simp add: lease_owned_def distinct_map)
    ultimately show ?thesis by (intro ex1I [of _ h]) (auto dest: inj_onD)
  qed
  have "\<forall>s'. lease_step ro forced s s' \<and> lease_word ro (ls_region s) \<noteq> 0 \<longrightarrow> lease_handover ro forced s s'"
    using lease_step_handover by blast
  then show ?thesis
    using one excl
    by (auto simp: Let_def anchor_drop_exact anchor_drop_zombie anchor_drop_forked
        simp del: anchor_drop.simps)
qed

lemma lease_single_holder_witness:
  "\<exists>s. lease_reach RoleConsumer True s \<and> length (ls_live s) = 2
     \<and> (\<exists>!h. h \<in> set (ls_live s) \<and> owns_lease (ls_region s) RoleConsumer (fst h))
     \<and> anchor_drop 1 (ls_region s) (Shm RoleConsumer 5 1) = ls_region s"
proof -
  define s0 s1 s2 where s0: "s0 = \<lparr>ls_region = \<lparr>producer_lease = 0, consumer_lease = 0,
            generation = 3\<rparr>, ls_live = ([] :: (u64 \<times> int) list)\<rparr>"
    and s1: "s1 = s0\<lparr>ls_region := set_lease_word RoleConsumer 5 (ls_region s0), ls_live := [(5, 1)]\<rparr>"
    and s2: "s2 = s1\<lparr>ls_region := set_lease_word RoleConsumer 6 (ls_region s1),
            ls_live := [(6, 2), (5, 1)]\<rparr>"
  have "lease_reach RoleConsumer True s0" unfolding s0 by (rule lease_reach.start)
  moreover have "lease_step RoleConsumer True s0 s1"
    using lease_step.claim [of 5 RoleConsumer s0 "ls_region s1" True 1]
    by (simp add: s0 s1 lease_defs)
  moreover have "lease_step RoleConsumer True s1 s2"
    using lease_step.force [of True 6 RoleConsumer s1 "ls_region s2" 2]
    by (simp add: s0 s1 s2 lease_defs)
  ultimately have r: "lease_reach RoleConsumer True s2" by (blast intro: lease_reach.step)
  moreover have "lease_word RoleConsumer (ls_region s2) \<noteq> 0" "length (ls_live s2) = 2"
    "(5, 1) \<in> set (ls_live s2)" "lease_word RoleConsumer (ls_region s2) \<noteq> 5"
    by (simp_all add: s0 s1 s2)
  ultimately show ?thesis using lease_single_holder [OF r]
    by (intro exI [of _ s2]) (auto simp: Let_def simp del: anchor_drop.simps dest!: bspec)
qed

end
