(* ===== verification/Cursor.thy ===== *)
theory Cursor
  imports Lease
begin

text \<open>
  The SPSC cursor engine (\<open>src/src/cursor.rs\<close>): the shared state of a ring,
  the producer and consumer cores with their private cursors and caches, the
  reload-once checks, the wait loops and the adaptive publish.

  A core reaches the shared state through cached pointers; here the shared
  state is an argument and a result of every operation. The wait strategies
  are represented by how often each was notified.
\<close>

section \<open>State\<close>

record 'b shared =
  buffer :: "'b list"
  sh_mask :: usize
  sh_write_cursor :: usize
  sh_read_cursor :: usize
  sh_starving :: usize
  sh_region :: region
  sh_producer_notified :: nat
  sh_consumer_notified :: nat

record producer_core =
  p_mask :: usize
  p_write_cursor :: usize
  p_read_cursor_cache :: usize
  p_raised_starving :: bool
  p_anchor :: anchor

record consumer_core =
  c_mask :: usize
  c_read_cursor :: usize
  c_published :: usize
  c_write_cursor_cache :: usize
  c_anchor :: anchor

section \<open>Capacity policy and the occupancy predicates\<close>

definition publish_batch :: "usize \<Rightarrow> usize \<Rightarrow> usize" where
  "publish_batch capacity max_batch =
     (let batch = capacity div 8
      in if batch = 0 then 1 else if batch > max_batch then max_batch else batch)"

text \<open>
  \<open>usize::checked_next_power_of_two\<close>: the least power of two not below \<open>n\<close>,
  \<open>None\<close> when it does not fit. The fuel is the number of doublings left.
\<close>

fun next_pow2 :: "nat \<Rightarrow> nat \<Rightarrow> nat \<Rightarrow> nat option" where
  "next_pow2 fuel p n =
     (if n \<le> p then Some p
      else (case fuel of 0 \<Rightarrow> None | Suc f \<Rightarrow> next_pow2 f (2 * p) n))"

definition checked_next_power_of_two :: "usize \<Rightarrow> usize option" where
  "checked_next_power_of_two n = map_option of_nat (next_pow2 63 1 (unat n))"

definition round_capacity :: "usize \<Rightarrow> usize \<Rightarrow> fault + usize" where
  "round_capacity min_capacity floor_cap =
     (if min_capacity = 0 then Inl Panic
      else (case checked_next_power_of_two min_capacity of
              None \<Rightarrow> Inl Panic
            | Some c \<Rightarrow> Inr (max c floor_cap)))"

definition lacks_space :: "usize \<Rightarrow> usize \<Rightarrow> usize \<Rightarrow> usize \<Rightarrow> bool" where
  "lacks_space write needed read capacity \<longleftrightarrow> write + needed - read > capacity"

definition no_item :: "usize \<Rightarrow> usize \<Rightarrow> bool" where
  "no_item write read \<longleftrightarrow> write - read = 0"

section \<open>Construction\<close>

definition no_region :: region where
  "no_region = \<lparr>producer_lease = 0, consumer_lease = 0, generation = 0\<rparr>"

definition channel ::
  "usize \<Rightarrow> nat \<Rightarrow> (unit \<Rightarrow> 'b) \<Rightarrow> 'b shared \<times> producer_core \<times> consumer_core" where
  "channel capacity slots make_slot =
     (\<lparr>buffer = map (\<lambda>_. make_slot ()) [0..<slots], sh_mask = capacity - 1,
       sh_write_cursor = 0, sh_read_cursor = 0, sh_starving = 0, sh_region = no_region,
       sh_producer_notified = 0, sh_consumer_notified = 0\<rparr>,
      \<lparr>p_mask = capacity - 1, p_write_cursor = 0, p_read_cursor_cache = 0,
       p_raised_starving = False, p_anchor = Heap\<rparr>,
      \<lparr>c_mask = capacity - 1, c_read_cursor = 0, c_published = 0,
       c_write_cursor_cache = 0, c_anchor = Heap\<rparr>)"

definition producer_core_from_raw ::
  "usize \<Rightarrow> anchor \<Rightarrow> 'b shared \<Rightarrow> producer_core \<times> 'b shared" where
  "producer_core_from_raw capacity anch sh =
     (\<lparr>p_mask = capacity - 1, p_write_cursor = sh_write_cursor sh,
       p_read_cursor_cache = sh_read_cursor sh, p_raised_starving = False, p_anchor = anch\<rparr>,
      sh\<lparr>sh_starving := 0\<rparr>)"

definition consumer_core_from_raw :: "usize \<Rightarrow> anchor \<Rightarrow> 'b shared \<Rightarrow> consumer_core" where
  "consumer_core_from_raw capacity anch sh =
     \<lparr>c_mask = capacity - 1, c_read_cursor = sh_read_cursor sh,
      c_published = sh_read_cursor sh, c_write_cursor_cache = sh_write_cursor sh,
      c_anchor = anch\<rparr>"

section \<open>The producer core\<close>

definition p_capacity :: "producer_core \<Rightarrow> usize" where
  "p_capacity p = p_mask p + 1"

definition p_slot :: "producer_core \<Rightarrow> nat" where
  "p_slot p = slot_ix (p_mask p) (p_write_cursor p)"

definition has_space ::
  "usize \<Rightarrow> 'b shared \<Rightarrow> producer_core \<Rightarrow> bool \<times> 'b shared \<times> producer_core" where
  "has_space needed sh p =
     (let capacity = p_mask p + 1
      in if lacks_space (p_write_cursor p) needed (p_read_cursor_cache p) capacity
         then (let p1 = p\<lparr>p_read_cursor_cache := sh_read_cursor sh\<rparr>
               in if lacks_space (p_write_cursor p1) needed (p_read_cursor_cache p1) capacity
                  then (False,
                        (if sh_starving sh = 0 then sh\<lparr>sh_starving := 1\<rparr> else sh),
                        p1\<lparr>p_raised_starving := True\<rparr>)
                  else (True, sh, p1))
         else if p_raised_starving p
              then (True, sh\<lparr>sh_starving := 0\<rparr>, p\<lparr>p_raised_starving := False\<rparr>)
              else (True, sh, p))"

text \<open>
  \<open>wait_for_space\<close> polls until the check passes. What the rest of the program
  does to the shared state during each \<open>wait\<close> is the list \<open>env\<close>; \<open>None\<close> is
  "still blocked when the list ends".
\<close>

fun wait_for_space ::
  "usize \<Rightarrow> ('b shared \<Rightarrow> 'b shared) list \<Rightarrow> 'b shared \<Rightarrow> producer_core
     \<Rightarrow> ('b shared \<times> producer_core \<times> ('b shared \<Rightarrow> 'b shared) list) option" where
  "wait_for_space needed env sh p =
     (case has_space needed sh p of
        (True, sh', p') \<Rightarrow> Some (sh', p', env)
      | (False, sh', p') \<Rightarrow>
          (case env of [] \<Rightarrow> None | e # es \<Rightarrow> wait_for_space needed es (e sh') p'))"

definition publish :: "usize \<Rightarrow> 'b shared \<Rightarrow> producer_core \<Rightarrow> 'b shared \<times> producer_core" where
  "publish amount sh p =
     (let w = p_write_cursor p + amount
      in (sh\<lparr>sh_write_cursor := w, sh_consumer_notified := Suc (sh_consumer_notified sh)\<rparr>,
          p\<lparr>p_write_cursor := w\<rparr>))"

definition occupancy :: "'b shared \<Rightarrow> producer_core \<Rightarrow> usize" where
  "occupancy sh p = sh_write_cursor sh - sh_read_cursor sh"

definition is_full_view :: "'b shared \<Rightarrow> producer_core \<Rightarrow> bool" where
  "is_full_view sh p \<longleftrightarrow> sh_write_cursor sh - sh_read_cursor sh > p_mask p"

section \<open>The consumer core\<close>

definition c_capacity :: "consumer_core \<Rightarrow> usize" where
  "c_capacity c = c_mask c + 1"

definition c_slot :: "consumer_core \<Rightarrow> nat" where
  "c_slot c = slot_ix (c_mask c) (c_read_cursor c)"

definition refresh :: "'b shared \<Rightarrow> consumer_core \<Rightarrow> usize \<times> consumer_core" where
  "refresh sh c = (sh_write_cursor sh, c\<lparr>c_write_cursor_cache := sh_write_cursor sh\<rparr>)"

definition has_item :: "'b shared \<Rightarrow> consumer_core \<Rightarrow> bool \<times> consumer_core" where
  "has_item sh c =
     (if no_item (c_write_cursor_cache c) (c_read_cursor c)
      then (let c1 = snd (refresh sh c)
            in if no_item (c_write_cursor_cache c1) (c_read_cursor c1) then (False, c1)
               else (True, c1))
      else (True, c))"

fun wait_for_item ::
  "('b shared \<Rightarrow> 'b shared) list \<Rightarrow> 'b shared \<Rightarrow> consumer_core
     \<Rightarrow> ('b shared \<times> consumer_core \<times> ('b shared \<Rightarrow> 'b shared) list) option" where
  "wait_for_item env sh c =
     (case has_item sh c of
        (True, c') \<Rightarrow> Some (sh, c', env)
      | (False, c') \<Rightarrow>
          (case env of [] \<Rightarrow> None | e # es \<Rightarrow> wait_for_item es (e sh) c'))"

definition flush :: "'b shared \<Rightarrow> consumer_core \<Rightarrow> 'b shared \<times> consumer_core" where
  "flush sh c =
     (if \<not> owns_ring (sh_region sh) (c_anchor c)
      then (sh, c\<lparr>c_published := c_read_cursor c\<rparr>)
      else (sh\<lparr>sh_read_cursor := c_read_cursor c,
               sh_producer_notified := Suc (sh_producer_notified sh)\<rparr>,
            c\<lparr>c_published := c_read_cursor c\<rparr>))"

definition advance ::
  "usize \<Rightarrow> usize \<Rightarrow> bool \<Rightarrow> 'b shared \<Rightarrow> consumer_core \<Rightarrow> 'b shared \<times> consumer_core" where
  "advance amount batch publish_now sh c =
     (let c1 = c\<lparr>c_read_cursor := c_read_cursor c + amount\<rparr>
      in if publish_now \<or> c_read_cursor c1 = c_write_cursor_cache c1
            \<or> c_read_cursor c1 - c_published c1 \<ge> batch
         then flush sh c1 else (sh, c1))"

definition producer_starving :: "'b shared \<Rightarrow> bool" where
  "producer_starving sh \<longleftrightarrow> sh_starving sh \<noteq> 0"

definition flush_pending :: "'b shared \<Rightarrow> consumer_core \<Rightarrow> 'b shared \<times> consumer_core" where
  "flush_pending sh c = (if c_read_cursor c \<noteq> c_published c then flush sh c else (sh, c))"

definition available :: "'b shared \<Rightarrow> consumer_core \<Rightarrow> usize" where
  "available sh c = sh_write_cursor sh - c_read_cursor c"

definition occupied_relaxed :: "'b shared \<Rightarrow> consumer_core \<Rightarrow> usize" where
  "occupied_relaxed sh c = sh_write_cursor sh - c_read_cursor c"

text \<open>\<open>Drop for ConsumerCore\<close> in process \<open>getpid\<close>, then its anchor's drop.\<close>

definition consumer_core_drop :: "int \<Rightarrow> 'b shared \<Rightarrow> consumer_core \<Rightarrow> 'b shared" where
  "consumer_core_drop getpid sh c =
     (let sh1 = (if teardown_allowed getpid (sh_region sh) (c_anchor c)
                 then fst (flush_pending sh c) else sh)
      in sh1\<lparr>sh_region := anchor_drop getpid (sh_region sh1) (c_anchor c)\<rparr>)"

definition producer_core_drop :: "int \<Rightarrow> 'b shared \<Rightarrow> producer_core \<Rightarrow> 'b shared" where
  "producer_core_drop getpid sh p =
     sh\<lparr>sh_region := anchor_drop getpid (sh_region sh) (p_anchor p)\<rparr>"

declare wait_for_space.simps [simp del] wait_for_item.simps [simp del] next_pow2.simps [simp del]

section \<open>Facts about the policies\<close>

lemmas engine_defs =
  has_space_def publish_def has_item_def refresh_def advance_def flush_def flush_pending_def

lemma publish_batch_bounds:
  assumes "0 < max_batch"
  shows "0 < publish_batch capacity max_batch" and "publish_batch capacity max_batch \<le> max_batch"
proof -
  have "1 \<le> max_batch" using assms by (simp add: word_le_nat_alt word_less_nat_alt)
  then show "publish_batch capacity max_batch \<le> max_batch"
    by (simp add: publish_batch_def Let_def not_less)
  show "0 < publish_batch capacity max_batch"
    using assms by (simp add: publish_batch_def Let_def word_neq_0_conv)
qed

lemma publish_batch_le_capacity:
  assumes "0 < capacity" and "0 < max_batch"
  shows "publish_batch capacity max_batch \<le> capacity"
proof -
  have "capacity div 8 \<le> capacity"
    by (simp add: word_le_nat_alt unat_div)
  moreover have "1 \<le> capacity" using assms by (simp add: word_le_nat_alt word_less_nat_alt)
  ultimately show ?thesis
    by (auto simp: publish_batch_def Let_def)
qed

lemma next_pow2_spec:
  assumes "next_pow2 f p n = Some c"
  shows "n \<le> c \<and> (\<exists>k\<le>f. c = p * 2 ^ k \<and> (k = 0 \<or> p * 2 ^ (k - 1) < n))"
  using assms
proof (induction f p n rule: next_pow2.induct)
  case (1 f p n)
  show ?case
  proof (cases "n \<le> p")
    case True
    then show ?thesis using "1.prems" by (auto simp: next_pow2.simps [of f p n])
  next
    case False
    then obtain g where g: "f = Suc g" "next_pow2 g (2 * p) n = Some c"
      using "1.prems" by (auto simp: next_pow2.simps [of f p n] split: nat.splits)
    then obtain k where k: "n \<le> c" "k \<le> g" "c = 2 * p * 2 ^ k"
        "k = 0 \<or> 2 * p * 2 ^ (k - 1) < n"
      using "1.IH" False by blast
    have "p * 2 ^ k < n"
      using k False by (cases k) auto
    then show ?thesis
      using g k by (auto intro!: exI [of _ "Suc k"])
  qed
qed

lemma next_pow2_total:
  assumes "n \<le> p * 2 ^ f"
  shows "\<exists>c. next_pow2 f p n = Some c"
  using assms
proof (induction f p n rule: next_pow2.induct)
  case (1 f p n)
  show ?case
  proof (cases "n \<le> p")
    case False
    then obtain g where g: "f = Suc g" using "1.prems" by (cases f) auto
    then have "n \<le> 2 * p * 2 ^ g" using "1.prems" by simp
    then show ?thesis using "1.IH" [OF False g] g False
      by (auto simp: next_pow2.simps [of "Suc g" p n])
  qed (simp add: next_pow2.simps [of f p n])
qed


text \<open>
  \<open>round_capacity\<close> panics exactly on zero and above \<open>2 ^ 63\<close>; otherwise the
  result is the least power of two not below the request (for a power-of-two
  floor at most that, the floor).
\<close>

lemma round_capacity_cases:
  "round_capacity n floor_cap =
     (if n = 0 \<or> unat n > 2 ^ 63 then Inl Panic
      else Inr (max (of_nat (the (next_pow2 63 1 (unat n)))) floor_cap))"
proof (cases "unat n > 2 ^ 63")
  case True
  have "next_pow2 63 1 (unat n) = None"
  proof (rule ccontr)
    assume "next_pow2 63 1 (unat n) \<noteq> None"
    then obtain c where "next_pow2 63 1 (unat n) = Some c" by blast
    from next_pow2_spec [OF this] obtain k where "unat n \<le> 2 ^ k" "k \<le> 63"
      by auto
    then have "unat n \<le> 2 ^ 63"
      using power_increasing [of k 63 "2::nat"] by (meson le_trans one_le_numeral)
    with True show False by simp
  qed
  with True show ?thesis
    by (simp add: round_capacity_def checked_next_power_of_two_def)
next
  case False
  then obtain c where "next_pow2 63 1 (unat n) = Some c"
    using next_pow2_total [of "unat n" 1 63] by auto
  with False show ?thesis
    by (auto simp: round_capacity_def checked_next_power_of_two_def)
qed

lemma round_capacity_pow2:
  assumes "round_capacity n floor_cap = Inr c" and "floor_cap = 2 ^ j" and "j < 64"
  shows "valid_mask (c - 1)" and "floor_cap \<le> c" and "n \<le> c"
proof -
  obtain a where a: "next_pow2 63 1 (unat n) = Some a" and c: "c = max (of_nat a) floor_cap"
    using assms(1)
    by (auto simp: round_capacity_def checked_next_power_of_two_def split: if_splits option.splits)
  obtain k where k: "k \<le> 63" "a = 2 ^ k" "unat n \<le> a"
    using next_pow2_spec [OF a] by auto
  have pow: "c = 2 ^ k \<or> c = 2 ^ j"
    using c k assms(2) by (auto simp: max_def)
  have "\<exists>i<64. c = 2 ^ i"
    using pow k(1) assms(3) by (auto intro: exI [of _ k] exI [of _ j])
  then obtain i where "i < 64" "c = 2 ^ i" by blast
  then show "valid_mask (c - 1)"
    by (auto simp: valid_mask_def mask_eq_decr_exp)
  show "floor_cap \<le> c" using c by simp
  have "a < word_span"
    using k power_strict_increasing [of k 64 "2::nat"] by (simp add: word_span_def)
  then have "n \<le> of_nat a"
    using k by (simp add: word_le_nat_alt unat_of_nat_span del: of_nat_power)
  then show "n \<le> c" using c by (simp add: le_max_iff_disj)
qed

section \<open>The cursor invariant\<close>

text \<open>
  Seen from the oldest cursor in the system, the producer's cached copy of the
  read cursor, the cursors are in order and within one capacity:
  cache \<open>\<le>\<close> published read cursor \<open>\<le>\<close> private read cursor \<open>\<le>\<close> the consumer's
  cached write cursor \<open>\<le>\<close> write cursor. The order is by wrapped distance, so it
  survives the wrap of the cursors.
\<close>

definition cursors_ok :: "'b shared \<Rightarrow> producer_core \<Rightarrow> consumer_core \<Rightarrow> bool" where
  "cursors_ok sh p c \<longleftrightarrow>
     (let b = p_read_cursor_cache p in
      valid_mask (sh_mask sh) \<and> p_mask p = sh_mask sh \<and> c_mask c = sh_mask sh
      \<and> p_write_cursor p = sh_write_cursor sh
      \<and> c_published c = sh_read_cursor sh
      \<and> owns_ring (sh_region sh) (c_anchor c)
      \<and> cdist b (sh_read_cursor sh) \<le> cdist b (c_read_cursor c)
      \<and> cdist b (c_read_cursor c) \<le> cdist b (c_write_cursor_cache c)
      \<and> cdist b (c_write_cursor_cache c) \<le> cdist b (sh_write_cursor sh)
      \<and> cdist b (sh_write_cursor sh) \<le> capacity_of (sh_mask sh))"

text \<open>Units readable, and units the producer cannot see as free.\<close>

definition queued :: "'b shared \<Rightarrow> consumer_core \<Rightarrow> nat" where
  "queued sh c = cdist (c_read_cursor c) (sh_write_cursor sh)"

definition deferred :: "'b shared \<Rightarrow> consumer_core \<Rightarrow> nat" where
  "deferred sh c = cdist (sh_read_cursor sh) (c_read_cursor c)"

lemmas cursors_unfold = cursors_ok_def Let_def

lemma cursors_ok_valid: "cursors_ok sh p c \<Longrightarrow> valid_mask (sh_mask sh)"
  by (simp add: cursors_unfold)

lemma cursors_ok_masks: "cursors_ok sh p c \<Longrightarrow> p_mask p = sh_mask sh \<and> c_mask c = sh_mask sh"
  by (simp add: cursors_unfold)

lemma cursors_ok_write: "cursors_ok sh p c \<Longrightarrow> p_write_cursor p = sh_write_cursor sh"
  by (simp add: cursors_unfold)

lemma queued_deferred:
  assumes "cursors_ok sh p c"
  shows "cdist (sh_read_cursor sh) (sh_write_cursor sh) = deferred sh c + queued sh c"
    and "deferred sh c + queued sh c \<le> capacity_of (sh_mask sh)"
proof -
  let ?b = "p_read_cursor_cache p"
  have 1: "cdist ?b (sh_read_cursor sh) \<le> cdist ?b (c_read_cursor c)"
    and 2: "cdist ?b (c_read_cursor c) \<le> cdist ?b (sh_write_cursor sh)"
    and 3: "cdist ?b (sh_write_cursor sh) \<le> capacity_of (sh_mask sh)"
    using assms by (auto simp: cursors_unfold)
  show eq: "cdist (sh_read_cursor sh) (sh_write_cursor sh) = deferred sh c + queued sh c"
    using cdist_rebase [OF 1] cdist_rebase [OF 2] cdist_rebase [OF le_trans [OF 1 2]] 1 2
    unfolding deferred_def queued_def by linarith
  show "deferred sh c + queued sh c \<le> capacity_of (sh_mask sh)"
    unfolding eq [symmetric] using cdist_rebase [OF le_trans [OF 1 2]] 3 by linarith
qed

lemma queued_le: "cursors_ok sh p c \<Longrightarrow> queued sh c \<le> capacity_of (sh_mask sh)"
  using queued_deferred(2) by fastforce

lemma queued_cached:
  assumes "cursors_ok sh p c"
  shows "cdist (c_read_cursor c) (c_write_cursor_cache c) \<le> queued sh c"
  using assms unfolding queued_def cursors_unfold by (blast intro: cdist_mono_left)

lemma cursors_ok_channel:
  assumes "valid_mask (capacity - 1)" and "channel capacity n f = (sh, p, c)"
  shows "cursors_ok sh p c"
  using assms by (auto simp: channel_def cursors_unfold)

lemma lacks_space_cdist:
  assumes "cdist read write + unat needed < word_span"
  shows "lacks_space write needed read capacity \<longleftrightarrow> unat capacity < cdist read write + unat needed"
proof -
  have "write + needed - read = (write - read) + needed" by simp
  then have "unat (write + needed - read) = unat ((write - read) + needed)" by (rule arg_cong)
  also have "\<dots> = cdist read write + unat needed"
    using assms unfolding cdist_def by (rule unat_add_span)
  finally have "unat (write + needed - read) = cdist read write + unat needed" .
  then show ?thesis by (simp add: lacks_space_def word_less_nat_alt)
qed

lemma no_item_iff [simp]: "no_item w r \<longleftrightarrow> w = r"
  by (simp add: no_item_def)

text \<open>
  The space check. \<open>needed\<close> is below the capacity for every request the rings
  make, which keeps the occupancy plus the request from wrapping.
\<close>

definition request_ok :: "u64 \<Rightarrow> usize \<Rightarrow> bool" where
  "request_ok m needed \<longleftrightarrow> capacity_of m + unat needed < word_span"

lemma request_ok_less:
  assumes "valid_mask m" and "unat needed \<le> capacity_of m" and "capacity_of m < 2 ^ 63 \<or> unat needed < 2 ^ 63"
  shows "request_ok m needed"
  using assms capacity_half [OF assms(1)] by (auto simp: request_ok_def word_span_def)


lemma has_space_masks:
  assumes "has_space needed sh p = (b, sh', p')"
  shows "p_mask p' = p_mask p" "p_write_cursor p' = p_write_cursor p" "p_anchor p' = p_anchor p"
    "buffer sh' = buffer sh" "sh_mask sh' = sh_mask sh"
    "sh_write_cursor sh' = sh_write_cursor sh" "sh_read_cursor sh' = sh_read_cursor sh"
    "sh_region sh' = sh_region sh"
  using assms by (auto simp: has_space_def Let_def split: if_splits)

lemma has_space_ok:
  assumes ok: "cursors_ok sh p c" and "has_space needed sh p = (b, sh', p')"
  shows "cursors_ok sh' p' c"
proof -
  have "p_read_cursor_cache p' = p_read_cursor_cache p
      \<or> p_read_cursor_cache p' = sh_read_cursor sh"
    using assms(2) by (auto simp: has_space_def Let_def split: if_splits)
  then show ?thesis
  proof
    assume "p_read_cursor_cache p' = p_read_cursor_cache p"
    then show ?thesis using ok has_space_masks [OF assms(2)] by (simp add: cursors_unfold)
  next
    assume cache: "p_read_cursor_cache p' = sh_read_cursor sh"
    let ?b = "p_read_cursor_cache p"
    have o: "cdist ?b (sh_read_cursor sh) \<le> cdist ?b (c_read_cursor c)"
      "cdist ?b (c_read_cursor c) \<le> cdist ?b (c_write_cursor_cache c)"
      "cdist ?b (c_write_cursor_cache c) \<le> cdist ?b (sh_write_cursor sh)"
      "cdist ?b (sh_write_cursor sh) \<le> capacity_of (sh_mask sh)"
      using ok by (auto simp: cursors_unfold)
    have r: "cdist (sh_read_cursor sh) (c_read_cursor c)
          = cdist ?b (c_read_cursor c) - cdist ?b (sh_read_cursor sh)"
      "cdist (sh_read_cursor sh) (c_write_cursor_cache c)
          = cdist ?b (c_write_cursor_cache c) - cdist ?b (sh_read_cursor sh)"
      "cdist (sh_read_cursor sh) (sh_write_cursor sh)
          = cdist ?b (sh_write_cursor sh) - cdist ?b (sh_read_cursor sh)"
      using o by (auto intro!: cdist_rebase)
    show ?thesis
      using ok o has_space_masks [OF assms(2)] unfolding cursors_unfold cache
      by (simp add: r) linarith
  qed
qed

lemma capacity_of_eq [simp]: "unat (m + 1) = capacity_of m"
  by (simp add: capacity_of_def)

text \<open>
  A passed check leaves room seen from the producer's cache, a failed one means
  that even the freshest published cursor leaves none.
\<close>

lemma has_space_True:
  assumes ok: "cursors_ok sh p c" and req: "request_ok (sh_mask sh) needed"
    and res: "has_space needed sh p = (True, sh', p')"
  shows "cdist (p_read_cursor_cache p') (sh_write_cursor sh') + unat needed
           \<le> capacity_of (sh_mask sh)"
proof -
  note m = has_space_masks [OF res]
  have ok': "cursors_ok sh' p' c" by (rule has_space_ok [OF ok res])
  then have "cdist (p_read_cursor_cache p') (sh_write_cursor sh') \<le> capacity_of (sh_mask sh)"
    using m by (simp add: cursors_unfold)
  then have lt: "cdist (p_read_cursor_cache p') (sh_write_cursor sh') + unat needed < word_span"
    using req by (simp add: request_ok_def)
  have "\<not> lacks_space (p_write_cursor p) needed (p_read_cursor_cache p') (p_mask p + 1)"
    using res by (auto simp: has_space_def Let_def split: if_splits)
  moreover have "p_write_cursor p = sh_write_cursor sh'" "p_mask p = sh_mask sh"
    using ok m by (auto simp: cursors_unfold)
  ultimately show ?thesis
    using lacks_space_cdist [OF lt, of "sh_mask sh + 1"] by simp
qed

lemma has_space_False:
  assumes ok: "cursors_ok sh p c" and req: "request_ok (sh_mask sh) needed"
    and res: "has_space needed sh p = (False, sh', p')"
  shows "capacity_of (sh_mask sh) < cdist (sh_read_cursor sh) (sh_write_cursor sh) + unat needed"
proof -
  have "cdist (sh_read_cursor sh) (sh_write_cursor sh) \<le> capacity_of (sh_mask sh)"
    using queued_deferred [OF ok] by simp
  then have lt: "cdist (sh_read_cursor sh) (sh_write_cursor sh) + unat needed < word_span"
    using req by (simp add: request_ok_def)
  have "lacks_space (p_write_cursor p) needed (sh_read_cursor sh) (p_mask p + 1)"
    using res by (auto simp: has_space_def Let_def split: if_splits)
  then show ?thesis
    using lacks_space_cdist [OF lt, of "sh_mask sh + 1"] ok by (simp add: cursors_unfold)
qed

lemma has_space_starving:
  assumes "has_space needed sh p = (False, sh', p')"
  shows "sh_starving sh' \<noteq> 0 \<and> p_raised_starving p'"
  using assms by (auto simp: has_space_def Let_def split: if_splits)

lemma publish_ok:
  assumes ok: "cursors_ok sh p c"
    and room: "cdist (p_read_cursor_cache p) (sh_write_cursor sh) + unat amount
                 \<le> capacity_of (sh_mask sh)"
    and res: "publish amount sh p = (sh', p')"
  shows "cursors_ok sh' p' c"
    and "queued sh' c = queued sh c + unat amount"
    and "sh_write_cursor sh' = sh_write_cursor sh + amount"
proof -
  let ?b = "p_read_cursor_cache p"
  have v: "valid_mask (sh_mask sh)" using ok by (rule cursors_ok_valid)
  have lt: "cdist ?b (sh_write_cursor sh) + unat amount < word_span"
    using room capacity_less [OF v] by simp
  have adv: "cdist ?b (sh_write_cursor sh + amount) = cdist ?b (sh_write_cursor sh) + unat amount"
    by (rule cdist_add [OF lt])
  have w: "p_write_cursor p = sh_write_cursor sh" using ok by (rule cursors_ok_write)
  show sh': "sh_write_cursor sh' = sh_write_cursor sh + amount"
    using res w by (auto simp: publish_def Let_def)
  show "cursors_ok sh' p' c"
    using ok res room adv w by (auto simp: publish_def cursors_unfold)
  have o: "cdist ?b (c_read_cursor c) \<le> cdist ?b (sh_write_cursor sh)"
    using ok by (simp add: cursors_unfold)
  then have o': "cdist ?b (c_read_cursor c) \<le> cdist ?b (sh_write_cursor sh + amount)"
    using adv by simp
  show "queued sh' c = queued sh c + unat amount"
    unfolding queued_def sh' cdist_rebase [OF o] cdist_rebase [OF o'] adv using o by simp
qed


lemma has_item_iff:
  assumes ok: "cursors_ok sh p c" and res: "has_item sh c = (b, c')"
  shows "b \<longleftrightarrow> 0 < queued sh c"
    and "cursors_ok sh p c'"
    and "c_read_cursor c' = c_read_cursor c" and "c_mask c' = c_mask c"
    and "c_anchor c' = c_anchor c" and "c_published c' = c_published c"
    and "b \<Longrightarrow> c_write_cursor_cache c' \<noteq> c_read_cursor c"
    and "c_write_cursor_cache c' = c_write_cursor_cache c
         \<or> c_write_cursor_cache c = c_read_cursor c"
proof -
  let ?b = "p_read_cursor_cache p"
  have le: "cdist (c_read_cursor c) (c_write_cursor_cache c)
      \<le> cdist (c_read_cursor c) (sh_write_cursor sh)"
    using queued_cached [OF ok] by (simp add: queued_def)
  show "b \<longleftrightarrow> 0 < queued sh c"
    using res le
    by (auto simp: has_item_def refresh_def Let_def queued_def zero_less_iff_neq_zero
        split: if_splits)
  show "c_read_cursor c' = c_read_cursor c" "c_mask c' = c_mask c"
    "c_anchor c' = c_anchor c" "c_published c' = c_published c"
    "c_write_cursor_cache c' = c_write_cursor_cache c
         \<or> c_write_cursor_cache c = c_read_cursor c"
    "b \<Longrightarrow> c_write_cursor_cache c' \<noteq> c_read_cursor c"
    using res by (auto simp: has_item_def refresh_def Let_def split: if_splits)
  show "cursors_ok sh p c'"
    using ok res le_trans
    by (auto simp: has_item_def refresh_def cursors_unfold split: if_splits)
qed

lemma refresh_ok:
  assumes "cursors_ok sh p c" and "refresh sh c = (w, c')"
  shows "cursors_ok sh p c'" and "w = sh_write_cursor sh"
    and "c' = c\<lparr>c_write_cursor_cache := sh_write_cursor sh\<rparr>"
  using assms le_trans by (auto simp: refresh_def cursors_unfold)

text \<open>Publishing the private read cursor, unconditionally and after an advance.\<close>

lemma flush_ok:
  assumes ok: "cursors_ok sh p c" and res: "flush sh c = (sh', c')"
  shows "cursors_ok sh' p c'" and "deferred sh' c' = 0"
    and "sh' = sh\<lparr>sh_read_cursor := c_read_cursor c,
                   sh_producer_notified := Suc (sh_producer_notified sh)\<rparr>"
    and "c' = c\<lparr>c_published := c_read_cursor c\<rparr>"
  using ok res by (auto simp: flush_def cursors_unfold deferred_def)

lemma flush_pending_ok:
  assumes ok: "cursors_ok sh p c" and res: "flush_pending sh c = (sh', c')"
  shows "cursors_ok sh' p c'" and "deferred sh' c' = 0"
    and "c_read_cursor c' = c_read_cursor c"
    and "buffer sh' = buffer sh" and "sh_write_cursor sh' = sh_write_cursor sh"
    and "sh_read_cursor sh' = c_read_cursor c" and "sh_region sh' = sh_region sh"
    and "sh_mask sh' = sh_mask sh" and "sh_starving sh' = sh_starving sh"
  using ok res
  by (auto simp: flush_pending_def flush_def cursors_unfold deferred_def split: if_splits)

lemma advance_cursor_ok:
  assumes ok: "cursors_ok sh p c"
    and avail: "unat amount \<le> cdist (c_read_cursor c) (c_write_cursor_cache c)"
  shows "cursors_ok sh p (c\<lparr>c_read_cursor := c_read_cursor c + amount\<rparr>)"
    and "queued sh (c\<lparr>c_read_cursor := c_read_cursor c + amount\<rparr>) = queued sh c - unat amount"
    and "deferred sh (c\<lparr>c_read_cursor := c_read_cursor c + amount\<rparr>)
           = deferred sh c + unat amount"
proof -
  let ?b = "p_read_cursor_cache p"
  have o: "cdist ?b (sh_read_cursor sh) \<le> cdist ?b (c_read_cursor c)"
    "cdist ?b (c_read_cursor c) \<le> cdist ?b (c_write_cursor_cache c)"
    "cdist ?b (c_write_cursor_cache c) \<le> cdist ?b (sh_write_cursor sh)"
    "cdist ?b (sh_write_cursor sh) \<le> capacity_of (sh_mask sh)"
    using ok by (auto simp: cursors_unfold)
  have a: "unat amount \<le> cdist ?b (c_write_cursor_cache c) - cdist ?b (c_read_cursor c)"
    using avail cdist_rebase [OF o(2)] by simp
  have lt: "cdist ?b (c_read_cursor c) + unat amount < word_span"
    using a o capacity_less [OF cursors_ok_valid [OF ok]] by linarith
  have adv: "cdist ?b (c_read_cursor c + amount) = cdist ?b (c_read_cursor c) + unat amount"
    by (rule cdist_add [OF lt])
  show "cursors_ok sh p (c\<lparr>c_read_cursor := c_read_cursor c + amount\<rparr>)"
    using ok o a adv by (auto simp: cursors_unfold)
  have "unat amount \<le> cdist (c_read_cursor c) (sh_write_cursor sh)"
    using avail queued_cached [OF ok] by (simp add: queued_def)
  then show "queued sh (c\<lparr>c_read_cursor := c_read_cursor c + amount\<rparr>) = queued sh c - unat amount"
    by (simp add: queued_def cdist_advance)
  have o1: "cdist ?b (sh_read_cursor sh) \<le> cdist ?b (c_read_cursor c + amount)"
    using o(1) adv by simp
  show "deferred sh (c\<lparr>c_read_cursor := c_read_cursor c + amount\<rparr>)
           = deferred sh c + unat amount"
    using cdist_rebase [OF o1] cdist_rebase [OF o(1)] o(1) adv by (simp add: deferred_def)
qed

lemma advance_frame:
  assumes "advance amount batch now sh c = (sh', c')"
  shows "buffer sh' = buffer sh" "sh_write_cursor sh' = sh_write_cursor sh"
    "sh_mask sh' = sh_mask sh" "c_mask c' = c_mask c" "c_anchor c' = c_anchor c"
    "c_write_cursor_cache c' = c_write_cursor_cache c" "sh_region sh' = sh_region sh"
    "c_read_cursor c' = c_read_cursor c + amount" "sh_starving sh' = sh_starving sh"
  using assms by (auto simp: advance_def flush_def Let_def split: if_splits)

text \<open>
  The adaptive publish: after an advance the deferral is below the batch, and
  it is zero when the consumer caught up with its view or had to publish now.
\<close>

lemma advance_ok:
  assumes ok: "cursors_ok sh p c"
    and avail: "unat amount \<le> cdist (c_read_cursor c) (c_write_cursor_cache c)"
    and res: "advance amount batch now sh c = (sh', c')"
  shows "cursors_ok sh' p c'"
    and "queued sh' c' = queued sh c - unat amount"
    and "deferred sh' c' < unat batch \<or> deferred sh' c' = 0"
    and "now \<Longrightarrow> deferred sh' c' = 0"
    and "c_read_cursor c' = c_write_cursor_cache c' \<Longrightarrow> deferred sh' c' = 0"
proof -
  let ?c1 = "c\<lparr>c_read_cursor := c_read_cursor c + amount\<rparr>"
  note c1 = advance_cursor_ok [OF ok avail]
  let ?fl = "now \<or> c_read_cursor ?c1 = c_write_cursor_cache ?c1
      \<or> c_read_cursor ?c1 - c_published ?c1 \<ge> batch"
  have r: "(sh', c') = (if ?fl then flush sh ?c1 else (sh, ?c1))"
    using res by (simp add: advance_def Let_def)
  show "cursors_ok sh' p c'"
    using r c1(1) flush_ok(1) [OF c1(1)] by (auto split: if_splits)
  show "queued sh' c' = queued sh c - unat amount"
  proof (cases ?fl)
    case True
    then have "flush sh ?c1 = (sh', c')" using r by simp
    then show ?thesis using flush_ok(3,4) [OF c1(1)] c1(2) by (simp add: queued_def)
  next
    case False
    then show ?thesis using r c1(2) by simp
  qed
  have f0: "?fl \<Longrightarrow> deferred sh' c' = 0"
    using r flush_ok(2) [OF c1(1)] by (auto split: if_splits)
  show "now \<Longrightarrow> deferred sh' c' = 0" using f0 by simp
  show "c_read_cursor c' = c_write_cursor_cache c' \<Longrightarrow> deferred sh' c' = 0"
    using f0 advance_frame [OF res] by simp
  show "deferred sh' c' < unat batch \<or> deferred sh' c' = 0"
  proof (cases ?fl)
    case False
    then have "sh' = sh" "c' = ?c1" using r by auto
    moreover have "c_published ?c1 = sh_read_cursor sh"
      using ok by (simp add: cursors_unfold)
    ultimately show ?thesis
      using False by (simp add: deferred_def cdist_def word_less_nat_alt not_le)
  qed (use f0 in simp)
qed

text \<open>A superseded consumer publishes nothing, whatever path it takes.\<close>

lemma flush_zombie:
  assumes "\<not> owns_ring (sh_region sh) (c_anchor c)"
  shows "fst (flush sh c) = sh" and "fst (flush_pending sh c) = sh"
    and "fst (advance amount batch now sh c) = sh"
  using assms by (auto simp: flush_def flush_pending_def advance_def Let_def)

lemma consumer_core_drop_zombie:
  assumes "\<not> owns_ring (sh_region sh) (c_anchor c)"
  shows "consumer_core_drop pid sh c = sh"
  using assms
  by (cases "c_anchor c") (auto simp: consumer_core_drop_def compare_exchange_def Let_def)

text \<open>The wait loops return in the first poll that finds the condition.\<close>

lemma wait_for_space_ready:
  "has_space needed sh p = (True, sh', p') \<Longrightarrow>
   wait_for_space needed env sh p = Some (sh', p', env)"
  by (simp add: wait_for_space.simps [of needed env sh p])

lemma wait_for_space_blocked:
  "has_space needed sh p = (False, sh', p') \<Longrightarrow>
   wait_for_space needed (e # es) sh p = wait_for_space needed es (e sh') p'"
  by (simp add: wait_for_space.simps [of needed "e # es" sh p])

lemma wait_for_item_ready:
  "has_item sh c = (True, c') \<Longrightarrow> wait_for_item env sh c = Some (sh, c', env)"
  by (simp add: wait_for_item.simps [of env sh c])

lemma wait_for_item_blocked:
  "has_item sh c = (False, c') \<Longrightarrow> wait_for_item (e # es) sh c = wait_for_item es (e sh) c'"
  by (simp add: wait_for_item.simps [of "e # es" sh c])


text \<open>The cursors do not depend on the slots.\<close>

lemma cursors_ok_buffer [simp]:
  "cursors_ok (sh\<lparr>buffer := b\<rparr>) p c = cursors_ok sh p c"
  "queued (sh\<lparr>buffer := b\<rparr>) c = queued sh c"
  "deferred (sh\<lparr>buffer := b\<rparr>) c = deferred sh c"
  by (simp_all add: cursors_unfold queued_def deferred_def)

lemma read_plus_queued [simp]: "c_read_cursor c + of_nat (queued sh c) = sh_write_cursor sh"
  by (simp add: queued_def)

lemma publish_frame:
  assumes "publish amount sh p = (sh', p')"
  shows "buffer sh' = buffer sh" "sh_mask sh' = sh_mask sh"
    "sh_read_cursor sh' = sh_read_cursor sh" "p_mask p' = p_mask p"
    "sh_region sh' = sh_region sh" "p_read_cursor_cache p' = p_read_cursor_cache p"
    "p_anchor p' = p_anchor p" "sh_starving sh' = sh_starving sh"
    "sh_consumer_notified sh' = Suc (sh_consumer_notified sh)"
  using assms by (auto simp: publish_def Let_def)

end
