(* ===== verification/Fifo_Interface.thy ===== *)
theory Fifo_Interface
  imports Ring_Prelude
begin

text \<open>
  The contract a bounded FIFO ring promises to its client, as a locale: a
  fallible enqueue, a fallible dequeue, an invariant and the list of values in
  flight. What a client sees over a whole run of operations is proved once here
  and instantiated by each ring on its own operations.
\<close>

datatype 'v fifo_op = Enq 'v | Deq

text \<open>
  A run of operations: the values whose enqueue was accepted, the values
  dequeued, and the final state.
\<close>

fun fifo_run ::
  "('v \<Rightarrow> 's \<Rightarrow> bool \<times> 's) \<Rightarrow> ('s \<Rightarrow> 'v option \<times> 's) \<Rightarrow> 'v fifo_op list \<Rightarrow> 's
     \<Rightarrow> 'v list \<times> 'v list \<times> 's" where
  "fifo_run enq deq [] s = ([], [], s)"
| "fifo_run enq deq (Enq v # ops) s =
     (case enq v s of (ok, s1) \<Rightarrow>
        (case fifo_run enq deq ops s1 of (ins, outs, s2) \<Rightarrow>
           (if ok then v # ins else ins, outs, s2)))"
| "fifo_run enq deq (Deq # ops) s =
     (case deq s of (r, s1) \<Rightarrow>
        (case fifo_run enq deq ops s1 of (ins, outs, s2) \<Rightarrow>
           (ins, (case r of None \<Rightarrow> outs | Some v \<Rightarrow> v # outs), s2)))"

fun op_legal :: "('v \<Rightarrow> bool) \<Rightarrow> 'v fifo_op \<Rightarrow> bool" where
  "op_legal ok (Enq v) = ok v"
| "op_legal ok Deq = True"

locale bounded_fifo =
  fixes inv :: "'s \<Rightarrow> bool"
    and contents :: "'s \<Rightarrow> 'v list"
    and legal :: "'s \<Rightarrow> 'v \<Rightarrow> bool"
    and enq :: "'v \<Rightarrow> 's \<Rightarrow> bool \<times> 's"
    and deq :: "'s \<Rightarrow> 'v option \<times> 's"
  assumes inv_enq: "inv s \<Longrightarrow> legal s v \<Longrightarrow> inv (snd (enq v s))"
    and inv_deq: "inv s \<Longrightarrow> inv (snd (deq s))"
    and legal_enq: "legal (snd (enq v s)) = legal s"
    and legal_deq: "legal (snd (deq s)) = legal s"
    and contents_enq: "inv s \<Longrightarrow> legal s v \<Longrightarrow>
      contents (snd (enq v s)) = (if fst (enq v s) then contents s @ [v] else contents s)"
    and fst_deq: "inv s \<Longrightarrow>
      fst (deq s) = (if contents s = [] then None else Some (hd (contents s)))"
    and contents_deq: "inv s \<Longrightarrow> contents (snd (deq s)) = tl (contents s)"
    and enq_empty: "inv s \<Longrightarrow> legal s v \<Longrightarrow> contents s = [] \<Longrightarrow> fst (enq v s)"
begin

lemma run_inv:
  assumes "inv s" and "\<forall>x\<in>set ops. op_legal (legal s) x"
    and "fifo_run enq deq ops s = (ins, outs, s')"
  shows "inv s'"
  using assms
proof (induction ops arbitrary: s ins outs)
  case (Cons x ops)
  show ?case
  proof (cases x)
    case (Enq v)
    obtain ins1 outs1 where run: "fifo_run enq deq ops (snd (enq v s)) = (ins1, outs1, s')"
      using Cons.prems(3) Enq by (auto split: prod.splits)
    show ?thesis
      by (rule Cons.IH [OF _ _ run])
        (use Cons.prems Enq in \<open>auto simp: legal_enq inv_enq\<close>)
  next
    case Deq
    obtain ins1 outs1 where run: "fifo_run enq deq ops (snd (deq s)) = (ins1, outs1, s')"
      using Cons.prems(3) Deq by (auto split: prod.splits)
    show ?thesis
      by (rule Cons.IH [OF _ _ run])
        (use Cons.prems Deq in \<open>auto simp: legal_deq inv_deq\<close>)
  qed
qed simp

text \<open>Nothing lost, duplicated or reordered: what went in is what came out and what is left.\<close>

lemma run_history:
  assumes "inv s" and "\<forall>x\<in>set ops. op_legal (legal s) x"
    and "fifo_run enq deq ops s = (ins, outs, s')"
  shows "contents s @ ins = outs @ contents s'"
  using assms
proof (induction ops arbitrary: s ins outs)
  case (Cons x ops)
  show ?case
  proof (cases x)
    case (Enq v)
    obtain ins1 outs1 where run: "fifo_run enq deq ops (snd (enq v s)) = (ins1, outs1, s')"
      and ins: "ins = (if fst (enq v s) then v # ins1 else ins1)" and outs: "outs = outs1"
      using Cons.prems(3) Enq by (auto split: prod.splits)
    have "contents (snd (enq v s)) @ ins1 = outs1 @ contents s'"
      by (rule Cons.IH [OF _ _ run])
        (use Cons.prems Enq in \<open>auto simp: legal_enq inv_enq\<close>)
    moreover have "inv s" "legal s v" using Cons.prems Enq by auto
    ultimately show ?thesis
      by (auto simp: contents_enq ins outs split: if_splits)
  next
    case Deq
    obtain ins1 outs1 where run: "fifo_run enq deq ops (snd (deq s)) = (ins1, outs1, s')"
      and ins: "ins = ins1"
      and outs: "outs = (case fst (deq s) of None \<Rightarrow> outs1 | Some v \<Rightarrow> v # outs1)"
      using Cons.prems(3) Deq by (auto split: prod.splits)
    have "contents (snd (deq s)) @ ins1 = outs1 @ contents s'"
      by (rule Cons.IH [OF _ _ run])
        (use Cons.prems Deq in \<open>auto simp: legal_deq inv_deq\<close>)
    then show ?thesis
      using Cons.prems(1)
      by (cases "contents s") (auto simp: contents_deq fst_deq ins outs)
  qed
qed simp

lemma run_append:
  "fifo_run enq deq (xs @ ys) s =
     (case fifo_run enq deq xs s of (i1, o1, s1) \<Rightarrow>
        (case fifo_run enq deq ys s1 of (i2, o2, s2) \<Rightarrow> (i1 @ i2, o1 @ o2, s2)))"
proof (induction xs arbitrary: s)
  case (Cons x xs)
  then show ?case
    by (cases x) (auto split: prod.splits option.splits)
qed simp

text \<open>Draining delivers everything in order, and then dequeues find nothing.\<close>

lemma run_drain:
  assumes "inv s" and "length (contents s) \<le> n"
  shows "\<exists>s'. fifo_run enq deq (replicate n Deq) s = ([], contents s, s')
            \<and> inv s' \<and> contents s' = []"
  using assms
proof (induction n arbitrary: s)
  case 0
  then show ?case by simp
next
  case (Suc n)
  have "inv (snd (deq s))" and "length (contents (snd (deq s))) \<le> n"
    using Suc.prems by (auto simp: inv_deq contents_deq)
  then obtain s' where s': "fifo_run enq deq (replicate n Deq) (snd (deq s))
      = ([], contents (snd (deq s)), s')" "inv s'" "contents s' = []"
    using Suc.IH by blast
  then show ?case
    using Suc.prems(1) fst_deq [OF Suc.prems(1)]
    by (cases "contents s") (auto simp: contents_deq split: prod.splits)
qed

lemma enq_after_drain:
  assumes "inv s" and "legal s v" and "length (contents s) \<le> n"
    and "fifo_run enq deq (replicate n Deq) s = (ins, outs, s')"
    and "legal s' = legal s"
  shows "fst (enq v s')"
  using run_drain [OF assms(1,3)] assms(2,4,5) enq_empty by auto

end

end
