(* ===== verification/Spsc.thy ===== *)
theory Spsc
  imports Cursor Fifo_Interface
begin

text \<open>
  The fixed-size SPSC ring (\<open>src/src/spsc.rs\<close>) over the cursor engine: slots
  are \<open>'a option\<close>, \<open>None\<close> for storage that is uninitialised or moved out.
  Reading such a slot is the fault \<open>UninitRead\<close>; the refinement shows that no
  reachable state does. The abstract contents of a ring are the values in the
  window between the two private cursors.
\<close>

section \<open>Operations\<close>

definition MAX_PUBLISH_BATCH :: usize where
  "MAX_PUBLISH_BATCH = 64"

record 'a spsc =
  ring_sh :: "'a option shared"
  ring_p :: producer_core
  ring_c :: consumer_core

definition spsc_new :: "usize \<Rightarrow> fault + 'a spsc" where
  "spsc_new min_capacity =
     (case round_capacity min_capacity 1 of
        Inl f \<Rightarrow> Inl f
      | Inr capacity \<Rightarrow>
          (case channel capacity (unat capacity) (\<lambda>_. None) of
             (sh, p, c) \<Rightarrow> Inr \<lparr>ring_sh = sh, ring_p = p, ring_c = c\<rparr>))"

subsection \<open>The producer\<close>

definition spsc_write ::
  "'a \<Rightarrow> 'a option shared \<Rightarrow> producer_core \<Rightarrow> 'a option shared \<times> producer_core" where
  "spsc_write value sh p =
     publish 1 (sh\<lparr>buffer := (buffer sh)[p_slot p := Some value]\<rparr>) p"

definition spsc_push ::
  "('a option shared \<Rightarrow> 'a option shared) list \<Rightarrow> 'a \<Rightarrow> 'a option shared \<Rightarrow> producer_core
     \<Rightarrow> ('a option shared \<times> producer_core) option" where
  "spsc_push env value sh p =
     (case wait_for_space 1 env sh p of
        None \<Rightarrow> None
      | Some (sh', p', env') \<Rightarrow> Some (spsc_write value sh' p'))"

definition spsc_try_push ::
  "'a \<Rightarrow> 'a option shared \<Rightarrow> producer_core
     \<Rightarrow> ('a + unit) \<times> 'a option shared \<times> producer_core" where
  "spsc_try_push value sh p =
     (case has_space 1 sh p of
        (False, sh', p') \<Rightarrow> (Inl value, sh', p')
      | (True, sh', p') \<Rightarrow> (Inr (), spsc_write value sh' p'))"

text \<open>
  A claimed slot borrows the producer and holds no state of its own: claiming
  is the space check, and dropping it uncommitted changes nothing.
\<close>

definition spsc_claim ::
  "('a option shared \<Rightarrow> 'a option shared) list \<Rightarrow> 'a option shared \<Rightarrow> producer_core
     \<Rightarrow> ('a option shared \<times> producer_core) option" where
  "spsc_claim env sh p =
     (case wait_for_space 1 env sh p of
        None \<Rightarrow> None | Some (sh', p', env') \<Rightarrow> Some (sh', p'))"

definition spsc_try_claim ::
  "'a option shared \<Rightarrow> producer_core \<Rightarrow> bool \<times> 'a option shared \<times> producer_core" where
  "spsc_try_claim sh p = has_space 1 sh p"

definition slot_uninit_write ::
  "'a \<Rightarrow> 'a option shared \<Rightarrow> producer_core \<Rightarrow> 'a option shared" where
  "slot_uninit_write value sh p = sh\<lparr>buffer := (buffer sh)[p_slot p := Some value]\<rparr>"

definition slot_commit ::
  "'a \<Rightarrow> 'a option shared \<Rightarrow> producer_core \<Rightarrow> 'a option shared \<times> producer_core" where
  "slot_commit value sh p = spsc_write value sh p"

definition slot_commit_init ::
  "'a option shared \<Rightarrow> producer_core \<Rightarrow> 'a option shared \<times> producer_core" where
  "slot_commit_init sh p = publish 1 sh p"

definition spsc_producer_len :: "'a option shared \<Rightarrow> producer_core \<Rightarrow> usize" where
  "spsc_producer_len sh p = occupancy sh p"

definition spsc_producer_is_empty :: "'a option shared \<Rightarrow> producer_core \<Rightarrow> bool" where
  "spsc_producer_is_empty sh p \<longleftrightarrow> occupancy sh p = 0"

definition spsc_producer_is_full :: "'a option shared \<Rightarrow> producer_core \<Rightarrow> bool" where
  "spsc_producer_is_full sh p \<longleftrightarrow> is_full_view sh p"

subsection \<open>The consumer\<close>

definition spsc_advance_one ::
  "'a option shared \<Rightarrow> consumer_core \<Rightarrow> 'a option shared \<times> consumer_core" where
  "spsc_advance_one sh c =
     (let capacity = c_capacity c;
          was_full = c_write_cursor_cache c - c_read_cursor c > capacity - 1
      in advance 1 (publish_batch capacity MAX_PUBLISH_BATCH) was_full sh c)"

definition spsc_read ::
  "'a option shared \<Rightarrow> consumer_core \<Rightarrow> fault + 'a \<times> 'a option shared \<times> consumer_core" where
  "spsc_read sh c =
     (case buffer sh ! c_slot c of
        None \<Rightarrow> Inl UninitRead
      | Some value \<Rightarrow>
          Inr (value, spsc_advance_one (sh\<lparr>buffer := (buffer sh)[c_slot c := None]\<rparr>) c))"

definition spsc_pop ::
  "('a option shared \<Rightarrow> 'a option shared) list \<Rightarrow> 'a option shared \<Rightarrow> consumer_core
     \<Rightarrow> (fault + 'a \<times> 'a option shared \<times> consumer_core) option" where
  "spsc_pop env sh c =
     (case wait_for_item env sh c of
        None \<Rightarrow> None
      | Some (sh', c', env') \<Rightarrow> Some (spsc_read sh' c'))"

definition spsc_try_pop ::
  "'a option shared \<Rightarrow> consumer_core
     \<Rightarrow> fault + 'a option \<times> 'a option shared \<times> consumer_core" where
  "spsc_try_pop sh c =
     (case has_item sh c of
        (False, c') \<Rightarrow> Inr (None, sh, c')
      | (True, c') \<Rightarrow>
          (case spsc_read sh c' of
             Inl f \<Rightarrow> Inl f
           | Inr (v, sh'', c'') \<Rightarrow> Inr (Some v, sh'', c'')))"

text \<open>
  The read guard: taking it is the item check, dereferencing reads the slot in
  place, and its drop destroys the element and then advances. The advance runs
  in an unwind of the element's destructor too, so a panicking destructor
  leaves the same state; \<open>mem::forget\<close> leaves the state of the check.
\<close>

definition spsc_pop_ref ::
  "('a option shared \<Rightarrow> 'a option shared) list \<Rightarrow> 'a option shared \<Rightarrow> consumer_core
     \<Rightarrow> ('a option shared \<times> consumer_core) option" where
  "spsc_pop_ref env sh c =
     (case wait_for_item env sh c of
        None \<Rightarrow> None | Some (sh', c', env') \<Rightarrow> Some (sh', c'))"

definition spsc_try_pop_ref ::
  "'a option shared \<Rightarrow> consumer_core \<Rightarrow> bool \<times> consumer_core" where
  "spsc_try_pop_ref sh c = has_item sh c"

definition popref_deref :: "'a option shared \<Rightarrow> consumer_core \<Rightarrow> fault + 'a" where
  "popref_deref sh c =
     (case buffer sh ! c_slot c of None \<Rightarrow> Inl UninitRead | Some v \<Rightarrow> Inr v)"

definition popref_deref_mut ::
  "('a \<Rightarrow> 'a) \<Rightarrow> 'a option shared \<Rightarrow> consumer_core \<Rightarrow> fault + 'a option shared" where
  "popref_deref_mut f sh c =
     (case buffer sh ! c_slot c of
        None \<Rightarrow> Inl UninitRead
      | Some v \<Rightarrow> Inr (sh\<lparr>buffer := (buffer sh)[c_slot c := Some (f v)]\<rparr>))"

definition popref_drop ::
  "'a option shared \<Rightarrow> consumer_core \<Rightarrow> fault + 'a \<times> 'a option shared \<times> consumer_core" where
  "popref_drop sh c =
     (case buffer sh ! c_slot c of
        None \<Rightarrow> Inl UninitRead
      | Some v \<Rightarrow> Inr (v, spsc_advance_one (sh\<lparr>buffer := (buffer sh)[c_slot c := None]\<rparr>) c))"

definition spsc_consumer_len :: "'a option shared \<Rightarrow> consumer_core \<Rightarrow> usize" where
  "spsc_consumer_len sh c = available sh c"

definition spsc_consumer_is_empty :: "'a option shared \<Rightarrow> consumer_core \<Rightarrow> bool" where
  "spsc_consumer_is_empty sh c \<longleftrightarrow> available sh c = 0"

definition spsc_consumer_is_full :: "'a option shared \<Rightarrow> consumer_core \<Rightarrow> bool" where
  "spsc_consumer_is_full sh c \<longleftrightarrow> occupied_relaxed sh c > c_mask c"

subsection \<open>Teardown\<close>

text \<open>\<open>Drop for Shared\<close>: destroy the values still queued, from the published read cursor on.\<close>

function drop_range ::
  "'a option list \<Rightarrow> usize \<Rightarrow> usize \<Rightarrow> usize \<Rightarrow> fault + 'a list" where
  "drop_range buf m head tail =
     (if head = tail then Inr []
      else (case buf ! slot_ix m head of
              None \<Rightarrow> Inl UninitRead
            | Some v \<Rightarrow>
                (case drop_range buf m (head + 1) tail of
                   Inl f \<Rightarrow> Inl f | Inr vs \<Rightarrow> Inr (v # vs))))"
  by pat_completeness auto
termination
proof (relation "measure (\<lambda>(buf, m, head, tail). cdist head tail)", goal_cases)
  case (2 buf m head tail)
  then have "0 < cdist head tail" by (simp add: zero_less_iff_neq_zero)
  then show ?case using 2 by (simp add: cdist_advance_1)
qed simp

declare drop_range.simps [simp del]

definition shared_drop :: "'a option shared \<Rightarrow> fault + 'a list" where
  "shared_drop sh = drop_range (buffer sh) (sh_mask sh) (sh_read_cursor sh) (sh_write_cursor sh)"

text \<open>Both handles of a heap ring drop, then the shared state.\<close>

definition spsc_teardown :: "int \<Rightarrow> 'a spsc \<Rightarrow> fault + 'a list" where
  "spsc_teardown pid r =
     shared_drop (producer_core_drop pid (consumer_core_drop pid (ring_sh r) (ring_c r)) (ring_p r))"

subsection \<open>The operations on a whole ring\<close>

definition spsc_enq :: "'a \<Rightarrow> 'a spsc \<Rightarrow> bool \<times> 'a spsc" where
  "spsc_enq v r =
     (case spsc_try_push v (ring_sh r) (ring_p r) of
        (res, sh, p) \<Rightarrow> (res = Inr (), r\<lparr>ring_sh := sh, ring_p := p\<rparr>))"

definition spsc_deq :: "'a spsc \<Rightarrow> 'a option \<times> 'a spsc" where
  "spsc_deq r =
     (case spsc_try_pop (ring_sh r) (ring_c r) of
        Inl f \<Rightarrow> (None, r)
      | Inr (v, sh, c) \<Rightarrow> (v, r\<lparr>ring_sh := sh, ring_c := c\<rparr>))"

section \<open>Invariant and abstraction\<close>

definition spsc_batch :: "'a spsc \<Rightarrow> nat" where
  "spsc_batch r = unat (publish_batch (sh_mask (ring_sh r) + 1) MAX_PUBLISH_BATCH)"

definition spsc_ok :: "'a spsc \<Rightarrow> bool" where
  "spsc_ok r \<longleftrightarrow>
     (let sh = ring_sh r; c = ring_c r in
      cursors_ok sh (ring_p r) c
      \<and> length (buffer sh) = capacity_of (sh_mask sh)
      \<and> None \<notin> set (window (sh_mask sh) (buffer sh) (c_read_cursor c) (queued sh c))
      \<and> (c_read_cursor c = c_write_cursor_cache c \<longrightarrow> deferred sh c = 0)
      \<and> deferred sh c < spsc_batch r)"

definition spsc_contents :: "'a spsc \<Rightarrow> 'a list" where
  "spsc_contents r =
     map the (window (sh_mask (ring_sh r)) (buffer (ring_sh r)) (c_read_cursor (ring_c r))
                (queued (ring_sh r) (ring_c r)))"

definition spsc_capacity :: "'a spsc \<Rightarrow> nat" where
  "spsc_capacity r = capacity_of (sh_mask (ring_sh r))"

lemma length_contents [simp]: "length (spsc_contents r) = queued (ring_sh r) (ring_c r)"
  by (simp add: spsc_contents_def)

lemma spsc_okD:
  assumes "spsc_ok r"
  shows "cursors_ok (ring_sh r) (ring_p r) (ring_c r)"
    and "length (buffer (ring_sh r)) = capacity_of (sh_mask (ring_sh r))"
    and "None \<notin> set (window (sh_mask (ring_sh r)) (buffer (ring_sh r))
           (c_read_cursor (ring_c r)) (queued (ring_sh r) (ring_c r)))"
    and "valid_mask (sh_mask (ring_sh r))"
    and "deferred (ring_sh r) (ring_c r) < spsc_batch r"
  using assms cursors_ok_valid by (auto simp: spsc_ok_def Let_def)

lemma spsc_batch_pos: "0 < unat (publish_batch cap MAX_PUBLISH_BATCH)"
  using publish_batch_bounds(1) [of MAX_PUBLISH_BATCH cap]
  by (simp add: MAX_PUBLISH_BATCH_def word_less_nat_alt)

lemma request_ok_1: "valid_mask m \<Longrightarrow> request_ok m 1"
  using capacity_half [of m] by (simp add: request_ok_def word_span_def)


section \<open>Construction\<close>

lemma spsc_new_ok:
  assumes "spsc_new n = Inr r"
  shows "spsc_ok r" and "spsc_contents r = []" and "unat n \<le> spsc_capacity r"
    and "c_anchor (ring_c r) = Heap"
proof -
  obtain cap sh p c where cap: "round_capacity n 1 = Inr cap"
    and ch: "channel cap (unat cap) (\<lambda>_. None) = (sh, p, c)"
    and r: "r = \<lparr>ring_sh = sh, ring_p = p, ring_c = c\<rparr>"
    using assms by (auto simp: spsc_new_def split: sum.splits prod.splits)
  have v: "valid_mask (cap - 1)" and le: "n \<le> cap"
    using round_capacity_pow2 [OF cap, of 0] by auto
  have cof: "capacity_of (cap - 1) = unat cap" by (simp add: capacity_of_def)
  have sh: "sh_mask sh = cap - 1" "buffer sh = map (\<lambda>_. None) [0..<unat cap]"
    "queued sh c = 0" "deferred sh c = 0" "c_anchor c = Heap"
    using ch by (auto simp: channel_def queued_def deferred_def)
  show "spsc_ok r"
    using cursors_ok_channel [OF v ch] spsc_batch_pos
    by (simp add: spsc_ok_def Let_def r sh cof spsc_batch_def)
  show "spsc_contents r = []" by (simp add: spsc_contents_def r sh)
  show "unat n \<le> spsc_capacity r"
    using le by (simp add: spsc_capacity_def r sh cof word_le_nat_alt)
  show "c_anchor (ring_c r) = Heap" by (simp add: r sh)
qed

section \<open>The producer's operations\<close>

lemma spsc_has_space_ok:
  assumes ok: "spsc_ok r" and res: "has_space n (ring_sh r) (ring_p r) = (b, sh', p')"
  shows "spsc_ok (r\<lparr>ring_sh := sh', ring_p := p'\<rparr>)"
    and "spsc_contents (r\<lparr>ring_sh := sh', ring_p := p'\<rparr>) = spsc_contents r"
proof -
  note f = has_space_masks [OF res]
  have q: "queued sh' (ring_c r) = queued (ring_sh r) (ring_c r)"
    "deferred sh' (ring_c r) = deferred (ring_sh r) (ring_c r)"
    using f by (simp_all add: queued_def deferred_def)
  show "spsc_ok (r\<lparr>ring_sh := sh', ring_p := p'\<rparr>)"
    using ok has_space_ok [OF spsc_okD(1) [OF ok] res] f q
    by (simp add: spsc_ok_def Let_def spsc_batch_def)
  show "spsc_contents (r\<lparr>ring_sh := sh', ring_p := p'\<rparr>) = spsc_contents r"
    using f q by (simp add: spsc_contents_def)
qed

lemma spsc_write_ok:
  assumes ok: "spsc_ok r"
    and room: "cdist (p_read_cursor_cache (ring_p r)) (sh_write_cursor (ring_sh r)) + 1
                 \<le> capacity_of (sh_mask (ring_sh r))"
    and res: "spsc_write v (ring_sh r) (ring_p r) = (sh', p')"
  shows "spsc_ok (r\<lparr>ring_sh := sh', ring_p := p'\<rparr>)"
    and "spsc_contents (r\<lparr>ring_sh := sh', ring_p := p'\<rparr>) = spsc_contents r @ [v]"
proof -
  define sh p c where defs: "sh = ring_sh r" "p = ring_p r" "c = ring_c r"
  define sh1 where sh1: "sh1 = sh\<lparr>buffer := (buffer sh)[p_slot p := Some v]\<rparr>"
  note okD = spsc_okD [OF ok, folded defs]
  have pub: "publish 1 sh1 p = (sh', p')"
    using res by (simp add: spsc_write_def sh1 defs)
  have ok1: "cursors_ok sh1 p c" using okD(1) by (simp add: sh1)
  have room1: "cdist (p_read_cursor_cache p) (sh_write_cursor sh1) + unat (1::usize)
      \<le> capacity_of (sh_mask sh1)"
    using room by (simp add: sh1 defs)
  note P = publish_ok [OF ok1 room1 pub]
  note F = publish_frame [OF pub]
  have slot: "p_slot p = slot_ix (sh_mask sh) (c_read_cursor c + of_nat (queued sh c))"
    using okD(1) by (simp add: p_slot_def cursors_ok_masks cursors_ok_write)
  have q: "queued sh' c = Suc (queued sh c)" using P(2) by (simp add: sh1)
  have d: "deferred sh' c = deferred sh c" using F by (simp add: deferred_def sh1)
  have lt: "queued sh c < capacity_of (sh_mask sh)"
    using queued_le [OF P(1)] q F by (simp add: sh1)
  have m: "sh_mask sh' = sh_mask sh" "buffer sh' = (buffer sh)[p_slot p := Some v]"
    using F by (simp_all add: sh1)
  have win: "window (sh_mask sh) (buffer sh') (c_read_cursor c) (queued sh' c)
      = window (sh_mask sh) (buffer sh) (c_read_cursor c) (queued sh c) @ [Some v]"
    unfolding q m slot by (rule window_write [OF okD(4) okD(2) lt])
  show "spsc_ok (r\<lparr>ring_sh := sh', ring_p := p'\<rparr>)"
    using ok P(1) d m okD win
    by (simp add: spsc_ok_def Let_def spsc_batch_def flip: defs)
  show "spsc_contents (r\<lparr>ring_sh := sh', ring_p := p'\<rparr>) = spsc_contents r @ [v]"
    using win by (simp add: spsc_contents_def m flip: defs)
qed

text \<open>\<open>try_push\<close> on both branches.\<close>

lemma spsc_enq_cases:
  assumes ok: "spsc_ok r"
  obtains (full) sh' p' where
      "has_space 1 (ring_sh r) (ring_p r) = (False, sh', p')"
      "spsc_enq v r = (False, r\<lparr>ring_sh := sh', ring_p := p'\<rparr>)"
      "spsc_try_push v (ring_sh r) (ring_p r) = (Inl v, sh', p')"
      "spsc_ok (snd (spsc_enq v r))" "spsc_contents (snd (spsc_enq v r)) = spsc_contents r"
  | (space) sh' p' where
      "spsc_try_push v (ring_sh r) (ring_p r) = (Inr (), sh', p')"
      "spsc_enq v r = (True, r\<lparr>ring_sh := sh', ring_p := p'\<rparr>)"
      "spsc_ok (snd (spsc_enq v r))" "spsc_contents (snd (spsc_enq v r)) = spsc_contents r @ [v]"
proof -
  obtain b sh1 p1 where hs: "has_space 1 (ring_sh r) (ring_p r) = (b, sh1, p1)"
    by (metis prod_cases3)
  note H = spsc_has_space_ok [OF ok hs]
  show ?thesis
  proof (cases b)
    case False
    then have e: "spsc_try_push v (ring_sh r) (ring_p r) = (Inl v, sh1, p1)"
      using hs by (simp add: spsc_try_push_def)
    show ?thesis
      by (rule full [of sh1 p1]) (use False hs e H in \<open>simp_all add: spsc_enq_def\<close>)
  next
    case True
    define r1 where r1: "r1 = r\<lparr>ring_sh := sh1, ring_p := p1\<rparr>"
    obtain sh2 p2 where w: "spsc_write v sh1 p1 = (sh2, p2)" by (cases "spsc_write v sh1 p1")
    then have e: "spsc_try_push v (ring_sh r) (ring_p r) = (Inr (), sh2, p2)"
      using hs True by (simp add: spsc_try_push_def)
    have "cdist (p_read_cursor_cache p1) (sh_write_cursor sh1) + unat (1::usize)
        \<le> capacity_of (sh_mask (ring_sh r))"
      using has_space_True [OF spsc_okD(1) [OF ok] request_ok_1 [OF spsc_okD(4) [OF ok]]] hs True
      by simp
    then have room: "cdist (p_read_cursor_cache (ring_p r1)) (sh_write_cursor (ring_sh r1)) + 1
        \<le> capacity_of (sh_mask (ring_sh r1))"
      using has_space_masks [OF hs] by (simp add: r1)
    have ok1: "spsc_ok r1" using H by (simp add: r1)
    have w1: "spsc_write v (ring_sh r1) (ring_p r1) = (sh2, p2)" using w by (simp add: r1)
    note W = spsc_write_ok [OF ok1 room w1]
    show ?thesis
      by (rule space [of sh2 p2]) (use e W H in \<open>simp_all add: spsc_enq_def r1\<close>)
  qed
qed

text \<open>A push is refused only when the unread and the not yet published units fill the ring.\<close>

lemma spsc_enq_full:
  assumes ok: "spsc_ok r" and "\<not> fst (spsc_enq v r)"
  shows "deferred (ring_sh r) (ring_c r) + length (spsc_contents r) = spsc_capacity r"
  using ok
proof (cases rule: spsc_enq_cases [of r v])
  case (full sh' p')
  have "capacity_of (sh_mask (ring_sh r))
      < cdist (sh_read_cursor (ring_sh r)) (sh_write_cursor (ring_sh r)) + unat (1::usize)"
    by (rule has_space_False [OF spsc_okD(1) [OF ok] request_ok_1 [OF spsc_okD(4) [OF ok]] full(1)])
  then show ?thesis
    using queued_deferred [OF spsc_okD(1) [OF ok]] by (simp add: spsc_capacity_def)
next
  case (space sh' p')
  then show ?thesis using assms(2) by simp
qed


section \<open>The consumer's operations\<close>

lemma spsc_has_item_ok:
  assumes ok: "spsc_ok r" and res: "has_item (ring_sh r) (ring_c r) = (b, c')"
  shows "spsc_ok (r\<lparr>ring_c := c'\<rparr>)"
    and "spsc_contents (r\<lparr>ring_c := c'\<rparr>) = spsc_contents r"
    and "b \<longleftrightarrow> spsc_contents r \<noteq> []"
    and "b \<Longrightarrow> c_write_cursor_cache c' \<noteq> c_read_cursor c'"
proof -
  note H = has_item_iff [OF spsc_okD(1) [OF ok] res]
  have q: "queued (ring_sh r) c' = queued (ring_sh r) (ring_c r)"
    "deferred (ring_sh r) c' = deferred (ring_sh r) (ring_c r)"
    by (simp_all add: queued_def deferred_def H)
  have caught: "c_read_cursor c' = c_write_cursor_cache c' \<longrightarrow> deferred (ring_sh r) c' = 0"
    using ok H(3,8) q by (auto simp: spsc_ok_def Let_def)
  show "spsc_ok (r\<lparr>ring_c := c'\<rparr>)"
    using ok H caught q by (simp add: spsc_ok_def Let_def spsc_batch_def)
  show "spsc_contents (r\<lparr>ring_c := c'\<rparr>) = spsc_contents r"
    by (simp add: spsc_contents_def q H)
  show "b \<longleftrightarrow> spsc_contents r \<noteq> []"
    using H(1) length_contents [of r] by (metis length_greater_0_conv)
  show "b \<Longrightarrow> c_write_cursor_cache c' \<noteq> c_read_cursor c'"
    using H by simp
qed

lemma spsc_front:
  assumes ok: "spsc_ok r" and ne: "c_write_cursor_cache (ring_c r) \<noteq> c_read_cursor (ring_c r)"
  shows "buffer (ring_sh r) ! c_slot (ring_c r) = Some (hd (spsc_contents r))"
    and "0 < queued (ring_sh r) (ring_c r)" and "spsc_contents r \<noteq> []"
proof -
  have "0 < cdist (c_read_cursor (ring_c r)) (c_write_cursor_cache (ring_c r))"
    using ne by (simp add: zero_less_iff_neq_zero)
  then show q: "0 < queued (ring_sh r) (ring_c r)"
    using queued_cached [OF spsc_okD(1) [OF ok]] by simp
  then show "spsc_contents r \<noteq> []" using length_contents [of r] by (metis less_irrefl list.size(3))
  obtain n where n: "queued (ring_sh r) (ring_c r) = Suc n" using q gr0_conv_Suc by blast
  have slot: "c_slot (ring_c r) = slot_ix (sh_mask (ring_sh r)) (c_read_cursor (ring_c r) + of_nat 0)"
    using cursors_ok_masks [OF spsc_okD(1) [OF ok]] by (simp add: c_slot_def)
  have "buffer (ring_sh r) ! c_slot (ring_c r) \<noteq> None"
    using spsc_okD(3) [OF ok] by (auto simp: n window_Suc slot simp flip: not_None_eq)
  moreover have "spsc_contents r
      = the (buffer (ring_sh r) ! c_slot (ring_c r))
        # map the (window (sh_mask (ring_sh r)) (buffer (ring_sh r)) (c_read_cursor (ring_c r) + 1) n)"
    by (simp add: spsc_contents_def n window_Suc slot)
  ultimately show "buffer (ring_sh r) ! c_slot (ring_c r) = Some (hd (spsc_contents r))"
    by auto
qed

text \<open>Emptying the front slot and advancing: the common tail of \<open>pop\<close> and of a guard's drop.\<close>

lemma spsc_release_ok:
  assumes ok: "spsc_ok r"
    and ne: "c_write_cursor_cache (ring_c r) \<noteq> c_read_cursor (ring_c r)"
    and res: "spsc_advance_one ((ring_sh r)\<lparr>buffer := (buffer (ring_sh r))[c_slot (ring_c r) := None]\<rparr>)
                (ring_c r) = (sh', c')"
  shows "spsc_ok (r\<lparr>ring_sh := sh', ring_c := c'\<rparr>)"
    and "spsc_contents (r\<lparr>ring_sh := sh', ring_c := c'\<rparr>) = tl (spsc_contents r)"
proof -
  define sh p c where defs: "sh = ring_sh r" "p = ring_p r" "c = ring_c r"
  define sh1 where sh1: "sh1 = sh\<lparr>buffer := (buffer sh)[c_slot c := None]\<rparr>"
  note okD = spsc_okD [OF ok, folded defs]
  define now where "now = (c_write_cursor_cache c - c_read_cursor c > c_capacity c - 1)"
  define batch where "batch = publish_batch (c_capacity c) MAX_PUBLISH_BATCH"
  have adv: "advance 1 batch now sh1 c = (sh', c')"
    using res by (simp add: spsc_advance_one_def Let_def sh1 defs now_def batch_def)
  have ok1: "cursors_ok sh1 p c" using okD(1) by (simp add: sh1)
  have "0 < cdist (c_read_cursor c) (c_write_cursor_cache c)"
    using ne by (simp add: zero_less_iff_neq_zero defs)
  then have av: "unat (1::usize) \<le> cdist (c_read_cursor c) (c_write_cursor_cache c)" by simp
  note A = advance_ok [OF ok1 av adv]
  note F = advance_frame [OF adv]
  have q: "0 < queued sh c" using spsc_front(2) [OF ok ne] by (simp add: defs)
  have slot: "c_slot c = slot_ix (sh_mask sh) (c_read_cursor c)"
    using okD(1) by (simp add: c_slot_def cursors_ok_masks)
  have q': "queued sh' c' = queued sh c - 1" using A(2) by (simp add: sh1)
  have b: "unat batch = spsc_batch r"
    using okD(1) by (simp add: batch_def spsc_batch_def c_capacity_def cursors_ok_masks flip: defs)
  have "0 < spsc_batch r" by (simp add: spsc_batch_def spsc_batch_pos)
  then have d: "deferred sh' c' < spsc_batch r" using A(3) b by auto
  have m: "sh_mask sh' = sh_mask sh" "buffer sh' = (buffer sh)[c_slot c := None]"
    "c_read_cursor c' = c_read_cursor c + 1"
    using F by (simp_all add: sh1)
  obtain n where n: "queued sh c = Suc n" using q gr0_conv_Suc by blast
  then have cap: "n < capacity_of (sh_mask sh)"
    using queued_le [OF okD(1)] by simp
  have win: "window (sh_mask sh) (buffer sh') (c_read_cursor c') (queued sh' c')
      = tl (window (sh_mask sh) (buffer sh) (c_read_cursor c) (queued sh c))"
    unfolding m slot q' n window_Suc using window_release [OF okD(4) cap] by simp
  have sub: "set (tl (window (sh_mask sh) (buffer sh) (c_read_cursor c) (queued sh c)))
      \<subseteq> set (window (sh_mask sh) (buffer sh) (c_read_cursor c) (queued sh c))"
    by (simp add: list.set_sel(2) n subsetI window_Suc)
  show "spsc_ok (r\<lparr>ring_sh := sh', ring_c := c'\<rparr>)"
    using ok A(1,5) d m okD(2,3) win sub
    by (auto simp: spsc_ok_def Let_def spsc_batch_def simp flip: defs)
  show "spsc_contents (r\<lparr>ring_sh := sh', ring_c := c'\<rparr>) = tl (spsc_contents r)"
    using win m by (simp add: spsc_contents_def map_tl flip: defs)
qed

lemma spsc_read_ok:
  assumes ok: "spsc_ok r"
    and ne: "c_write_cursor_cache (ring_c r) \<noteq> c_read_cursor (ring_c r)"
  shows "\<exists>sh' c'. spsc_read (ring_sh r) (ring_c r) = Inr (hd (spsc_contents r), sh', c')
           \<and> spsc_ok (r\<lparr>ring_sh := sh', ring_c := c'\<rparr>)
           \<and> spsc_contents (r\<lparr>ring_sh := sh', ring_c := c'\<rparr>) = tl (spsc_contents r)"
proof -
  obtain sh' c' where res: "spsc_advance_one
      ((ring_sh r)\<lparr>buffer := (buffer (ring_sh r))[c_slot (ring_c r) := None]\<rparr>) (ring_c r) = (sh', c')"
    by (metis surj_pair)
  show ?thesis
    using spsc_release_ok [OF ok ne res] spsc_front(1) [OF ok ne] res
    by (simp add: spsc_read_def)
qed

lemma popref_drop_eq_read: "popref_drop sh c = spsc_read sh c"
  by (simp add: popref_drop_def spsc_read_def)

text \<open>\<open>try_pop\<close> on both branches; it never touches an uninitialised slot.\<close>

lemma spsc_deq_cases:
  assumes ok: "spsc_ok r"
  obtains (empty) c' where "spsc_contents r = []"
      "spsc_try_pop (ring_sh r) (ring_c r) = Inr (None, ring_sh r, c')"
      "spsc_deq r = (None, r\<lparr>ring_c := c'\<rparr>)"
      "spsc_ok (snd (spsc_deq r))" "spsc_contents (snd (spsc_deq r)) = []"
  | (item) sh' c' where "spsc_contents r \<noteq> []"
      "spsc_try_pop (ring_sh r) (ring_c r) = Inr (Some (hd (spsc_contents r)), sh', c')"
      "spsc_deq r = (Some (hd (spsc_contents r)), r\<lparr>ring_sh := sh', ring_c := c'\<rparr>)"
      "spsc_ok (snd (spsc_deq r))" "spsc_contents (snd (spsc_deq r)) = tl (spsc_contents r)"
proof -
  obtain b c1 where hi: "has_item (ring_sh r) (ring_c r) = (b, c1)" by (metis surj_pair)
  note H = spsc_has_item_ok [OF ok hi]
  show ?thesis
  proof (cases b)
    case False
    then have "spsc_contents r = []"
      "spsc_try_pop (ring_sh r) (ring_c r) = Inr (None, ring_sh r, c1)"
      using H(3) hi by (simp_all add: spsc_try_pop_def)
    then show ?thesis
      using H by (intro empty [of c1]) (simp_all add: spsc_deq_def)
  next
    case True
    define r1 where r1: "r1 = r\<lparr>ring_c := c1\<rparr>"
    have ne: "c_write_cursor_cache (ring_c r1) \<noteq> c_read_cursor (ring_c r1)"
      using H(4) True by (simp add: r1)
    have ok1: "spsc_ok r1" using H(1) by (simp add: r1)
    obtain sh' c' where R: "spsc_read (ring_sh r1) (ring_c r1) = Inr (hd (spsc_contents r1), sh', c')"
      "spsc_ok (r1\<lparr>ring_sh := sh', ring_c := c'\<rparr>)"
      "spsc_contents (r1\<lparr>ring_sh := sh', ring_c := c'\<rparr>) = tl (spsc_contents r1)"
      using spsc_read_ok [OF ok1 ne] by blast
    have e: "spsc_try_pop (ring_sh r) (ring_c r) = Inr (Some (hd (spsc_contents r)), sh', c')"
      using hi True R(1) H(2) by (simp add: spsc_try_pop_def r1)
    show ?thesis
      by (rule item [of sh' c']) (use True H R e in \<open>simp_all add: spsc_deq_def r1\<close>)
  qed
qed

section \<open>The ring is a bounded FIFO\<close>

lemma spsc_empty_accepts:
  assumes ok: "spsc_ok r" and "spsc_contents r = []"
  shows "fst (spsc_enq v r)"
proof (rule ccontr)
  assume full: "\<not> fst (spsc_enq v r)"
  have q: "queued (ring_sh r) (ring_c r) = 0" using assms(2) length_contents [of r] by simp
  have "cdist (c_read_cursor (ring_c r)) (c_write_cursor_cache (ring_c r)) = 0"
    using queued_cached [OF spsc_okD(1) [OF ok]] q by simp
  then have "deferred (ring_sh r) (ring_c r) = 0"
    using ok by (simp add: spsc_ok_def Let_def)
  then show False
    using spsc_enq_full [OF ok full] q capacity_pos [OF spsc_okD(4) [OF ok]]
    by (simp add: spsc_capacity_def)
qed

interpretation spsc_fifo: bounded_fifo spsc_ok spsc_contents "\<lambda>_ _. True" spsc_enq spsc_deq
proof unfold_locales
  fix r :: "'a spsc" and v :: 'a
  assume ok: "spsc_ok r"
  show "spsc_ok (snd (spsc_enq v r))"
    by (rule spsc_enq_cases [OF ok, of v])
  show "spsc_ok (snd (spsc_deq r))"
    by (rule spsc_deq_cases [OF ok])
  show "spsc_contents (snd (spsc_enq v r))
      = (if fst (spsc_enq v r) then spsc_contents r @ [v] else spsc_contents r)"
    by (rule spsc_enq_cases [OF ok, of v]) simp_all
  show "fst (spsc_deq r) = (if spsc_contents r = [] then None else Some (hd (spsc_contents r)))"
    by (rule spsc_deq_cases [OF ok]) simp_all
  show "spsc_contents (snd (spsc_deq r)) = tl (spsc_contents r)"
    by (rule spsc_deq_cases [OF ok]) simp_all
  show "spsc_contents r = [] \<Longrightarrow> fst (spsc_enq v r)"
    by (rule spsc_empty_accepts [OF ok])
qed simp_all


section \<open>Teardown\<close>

lemma drop_range_window:
  assumes "None \<notin> set (window m buf head (cdist head tail))"
  shows "drop_range buf m head tail = Inr (map the (window m buf head (cdist head tail)))"
  using assms
proof (induction buf m head tail rule: drop_range.induct)
  case (1 buf m head tail)
  show ?case
  proof (cases "head = tail")
    case True
    then show ?thesis by (simp add: drop_range.simps [of buf m tail tail])
  next
    case False
    then have n: "cdist head tail = Suc (cdist (head + 1) tail)"
      by (simp add: cdist_advance_1 zero_less_iff_neq_zero)
    then have w: "window m buf head (cdist head tail)
        = buf ! slot_ix m head # window m buf (head + 1) (cdist (head + 1) tail)"
      by (simp add: window_Suc)
    then obtain v where v: "buf ! slot_ix m head = Some v"
      using "1.prems" by (cases "buf ! slot_ix m head") auto
    have "drop_range buf m (head + 1) tail
        = Inr (map the (window m buf (head + 1) (cdist (head + 1) tail)))"
      by (rule "1.IH" [OF False v]) (use "1.prems" w in auto)
    then show ?thesis
      using False v by (simp add: drop_range.simps [of buf m head tail] w)
  qed
qed

lemma spsc_teardown_contents:
  assumes ok: "spsc_ok r" and heap: "c_anchor (ring_c r) = Heap"
  shows "spsc_teardown pid r = Inr (spsc_contents r)"
proof -
  define sh c where defs: "sh = ring_sh r" "c = ring_c r"
  note okD = spsc_okD [OF ok, folded defs]
  obtain sh1 c1 where fl: "flush_pending sh c = (sh1, c1)" by (metis surj_pair)
  note F = flush_pending_ok [OF okD(1) fl]
  have drop: "consumer_core_drop pid sh c = sh1"
    using heap fl by (simp add: consumer_core_drop_def Let_def defs)
  have "None \<notin> set (window (sh_mask sh) (buffer sh) (c_read_cursor c) (queued sh c))"
    by (rule okD(3))
  then have "drop_range (buffer sh1) (sh_mask sh1) (sh_read_cursor sh1) (sh_write_cursor sh1)
      = Inr (spsc_contents r)"
    using drop_range_window [of "sh_mask sh" "buffer sh" "c_read_cursor c" "sh_write_cursor sh"] F
    by (simp add: spsc_contents_def queued_def flip: defs)
  then show ?thesis
    using drop by (simp add: spsc_teardown_def shared_drop_def producer_core_drop_def flip: defs)
qed

lemma spsc_enq_anchor: "c_anchor (ring_c (snd (spsc_enq v r))) = c_anchor (ring_c r)"
  by (simp add: spsc_enq_def split: prod.splits)

lemma spsc_deq_anchor: "c_anchor (ring_c (snd (spsc_deq r))) = c_anchor (ring_c r)"
  by (auto simp: spsc_deq_def spsc_try_pop_def has_item_def refresh_def spsc_read_def
      spsc_advance_one_def advance_def flush_def Let_def
      split: prod.splits sum.splits option.splits bool.splits if_splits)

lemma fifo_run_anchor:
  "fifo_run spsc_enq spsc_deq ops r = (ins, outs, r')
     \<Longrightarrow> c_anchor (ring_c r') = c_anchor (ring_c r)"
proof (induction ops arbitrary: r ins outs)
  case (Cons x ops)
  show ?case
  proof (cases x)
    case (Enq v)
    then show ?thesis
      using Cons spsc_enq_anchor [of v r] by (fastforce split: prod.splits)
  next
    case Deq
    then show ?thesis
      using Cons spsc_deq_anchor [of r] by (fastforce split: prod.splits)
  qed
qed simp

lemma deferred_lt_capacity: "spsc_ok r \<Longrightarrow> deferred (ring_sh r) (ring_c r) \<le> spsc_capacity r"
  using queued_deferred(2) [OF spsc_okD(1)] by (fastforce simp: spsc_capacity_def)


section \<open>Every operation of the two handles\<close>

text \<open>
  One public call on a handle, guards included. \<open>ClaimAbandon v\<close> writes \<open>v\<close>
  into the claimed slot and drops the claim; \<open>PopRefMap f\<close> mutates the element
  through the guard before dropping it; \<open>PopRefForget\<close> forgets the guard. The
  event says what the call reported to its caller.
\<close>

datatype 'a spsc_op =
    TryPush 'a | ClaimCommit 'a | ClaimInit 'a | ClaimAbandon 'a
  | TryPop | PopRefDrop | PopRefMap "'a \<Rightarrow> 'a" | PopRefForget

datatype 'a spsc_event = Accepted 'a | Refused | Delivered 'a | Seen 'a | Nothing

fun spsc_claimed ::
  "('a option shared \<Rightarrow> producer_core \<Rightarrow> 'a option shared \<times> producer_core)
     \<Rightarrow> 'a spsc_event \<Rightarrow> 'a spsc \<Rightarrow> 'a spsc_event \<times> 'a spsc" where
  "spsc_claimed use ev r =
     (case spsc_try_claim (ring_sh r) (ring_p r) of
        (False, sh, p) \<Rightarrow> (Refused, r\<lparr>ring_sh := sh, ring_p := p\<rparr>)
      | (True, sh, p) \<Rightarrow>
          (case use sh p of (sh', p') \<Rightarrow> (ev, r\<lparr>ring_sh := sh', ring_p := p'\<rparr>)))"

fun spsc_guarded ::
  "('a option shared \<Rightarrow> consumer_core \<Rightarrow> fault + 'a spsc_event \<times> 'a option shared \<times> consumer_core)
     \<Rightarrow> 'a spsc \<Rightarrow> fault + 'a spsc_event \<times> 'a spsc" where
  "spsc_guarded use r =
     (case spsc_try_pop_ref (ring_sh r) (ring_c r) of
        (False, c) \<Rightarrow> Inr (Nothing, r\<lparr>ring_c := c\<rparr>)
      | (True, c) \<Rightarrow>
          (case use (ring_sh r) c of
             Inl f \<Rightarrow> Inl f
           | Inr (ev, sh', c') \<Rightarrow> Inr (ev, r\<lparr>ring_sh := sh', ring_c := c'\<rparr>)))"

fun spsc_exec :: "'a spsc_op \<Rightarrow> 'a spsc \<Rightarrow> fault + 'a spsc_event \<times> 'a spsc" where
  "spsc_exec (TryPush v) r =
     (case spsc_try_push v (ring_sh r) (ring_p r) of
        (Inl _, sh, p) \<Rightarrow> Inr (Refused, r\<lparr>ring_sh := sh, ring_p := p\<rparr>)
      | (Inr _, sh, p) \<Rightarrow> Inr (Accepted v, r\<lparr>ring_sh := sh, ring_p := p\<rparr>))"
| "spsc_exec (ClaimCommit v) r = Inr (spsc_claimed (slot_commit v) (Accepted v) r)"
| "spsc_exec (ClaimInit v) r =
     Inr (spsc_claimed (\<lambda>sh p. slot_commit_init (slot_uninit_write v sh p) p) (Accepted v) r)"
| "spsc_exec (ClaimAbandon v) r =
     Inr (spsc_claimed (\<lambda>sh p. (slot_uninit_write v sh p, p)) Nothing r)"
| "spsc_exec TryPop r =
     (case spsc_try_pop (ring_sh r) (ring_c r) of
        Inl f \<Rightarrow> Inl f
      | Inr (None, sh, c) \<Rightarrow> Inr (Nothing, r\<lparr>ring_sh := sh, ring_c := c\<rparr>)
      | Inr (Some v, sh, c) \<Rightarrow> Inr (Delivered v, r\<lparr>ring_sh := sh, ring_c := c\<rparr>))"
| "spsc_exec PopRefDrop r =
     spsc_guarded (\<lambda>sh c. case popref_drop sh c of
        Inl f \<Rightarrow> Inl f | Inr (v, sh', c') \<Rightarrow> Inr (Delivered v, sh', c')) r"
| "spsc_exec (PopRefMap g) r =
     spsc_guarded (\<lambda>sh c. case popref_deref_mut g sh c of
        Inl f \<Rightarrow> Inl f
      | Inr sh1 \<Rightarrow> (case popref_drop sh1 c of
          Inl f \<Rightarrow> Inl f | Inr (v, sh', c') \<Rightarrow> Inr (Delivered v, sh', c'))) r"
| "spsc_exec PopRefForget r =
     spsc_guarded (\<lambda>sh c. case popref_deref sh c of
        Inl f \<Rightarrow> Inl f | Inr v \<Rightarrow> Inr (Seen v, sh, c)) r"

text \<open>What a call means on the abstract queue.\<close>

fun spsc_spec :: "'a spsc_op \<Rightarrow> 'a spsc_event \<Rightarrow> 'a list \<Rightarrow> 'a list \<Rightarrow> bool" where
  "spsc_spec (PopRefMap g) ev q q' \<longleftrightarrow>
     (case q of [] \<Rightarrow> ev = Nothing \<and> q' = [] | x # xs \<Rightarrow> ev = Delivered (g x) \<and> q' = xs)"
| "spsc_spec PopRefForget ev q q' \<longleftrightarrow>
     q' = q \<and> ev = (case q of [] \<Rightarrow> Nothing | x # xs \<Rightarrow> Seen x)"
| "spsc_spec (TryPush v) ev q q' \<longleftrightarrow> ev = Accepted v \<and> q' = q @ [v] \<or> ev = Refused \<and> q' = q"
| "spsc_spec (ClaimCommit v) ev q q' \<longleftrightarrow> ev = Accepted v \<and> q' = q @ [v] \<or> ev = Refused \<and> q' = q"
| "spsc_spec (ClaimInit v) ev q q' \<longleftrightarrow> ev = Accepted v \<and> q' = q @ [v] \<or> ev = Refused \<and> q' = q"
| "spsc_spec (ClaimAbandon v) ev q q' \<longleftrightarrow> (ev = Nothing \<or> ev = Refused) \<and> q' = q"
| "spsc_spec _ ev q q' \<longleftrightarrow>
     (case q of [] \<Rightarrow> ev = Nothing \<and> q' = [] | x # xs \<Rightarrow> ev = Delivered x \<and> q' = xs)"

text \<open>Rewriting the front element in place, through the guard.\<close>

lemma spsc_set_front:
  assumes ok: "spsc_ok r"
    and ne: "c_write_cursor_cache (ring_c r) \<noteq> c_read_cursor (ring_c r)"
    and r': "r' = r\<lparr>ring_sh := (ring_sh r)\<lparr>buffer := (buffer (ring_sh r))[c_slot (ring_c r) := Some x]\<rparr>\<rparr>"
  shows "spsc_ok r'" and "spsc_contents r' = x # tl (spsc_contents r)"
proof -
  define sh c where defs: "sh = ring_sh r" "c = ring_c r"
  note okD = spsc_okD [OF ok, folded defs]
  obtain n where n: "queued sh c = Suc n"
    using spsc_front(2) [OF ok ne] gr0_conv_Suc unfolding defs by blast
  then have cap: "n < capacity_of (sh_mask sh)" using queued_le [OF okD(1)] by simp
  have slot: "c_slot c = slot_ix (sh_mask sh) (c_read_cursor c)"
    using okD(1) by (simp add: c_slot_def cursors_ok_masks)
  have len: "c_slot c < length (buffer sh)"
    using okD(2,4) by (simp add: slot slot_ix_less)
  have win: "window (sh_mask sh) ((buffer sh)[c_slot c := Some x]) (c_read_cursor c) (queued sh c)
      = Some x # tl (window (sh_mask sh) (buffer sh) (c_read_cursor c) (queued sh c))"
    using window_release [OF okD(4) cap, of "buffer sh" "c_read_cursor c" "Some x"] len
    by (simp add: n window_Suc slot)
  show "spsc_ok r'"
    using ok okD(3) win
    by (auto simp: spsc_ok_def Let_def spsc_batch_def r' n window_Suc simp flip: defs)
  show "spsc_contents r' = x # tl (spsc_contents r)"
    using win by (simp add: spsc_contents_def r' map_tl flip: defs)
qed


text \<open>A passed space check, and what may then be done with the reserved slot.\<close>

lemma spsc_space_room:
  assumes ok: "spsc_ok r" and hs: "has_space 1 (ring_sh r) (ring_p r) = (True, sh, p)"
  defines "r1 \<equiv> r\<lparr>ring_sh := sh, ring_p := p\<rparr>"
  shows "spsc_ok r1" and "spsc_contents r1 = spsc_contents r"
    and "cdist (p_read_cursor_cache (ring_p r1)) (sh_write_cursor (ring_sh r1)) + 1
           \<le> capacity_of (sh_mask (ring_sh r1))"
proof -
  show "spsc_ok r1" "spsc_contents r1 = spsc_contents r"
    using spsc_has_space_ok [OF ok hs] by (simp_all add: r1_def)
  show "cdist (p_read_cursor_cache (ring_p r1)) (sh_write_cursor (ring_sh r1)) + 1
           \<le> capacity_of (sh_mask (ring_sh r1))"
    using has_space_True [OF spsc_okD(1) [OF ok] request_ok_1 [OF spsc_okD(4) [OF ok]] hs]
      has_space_masks [OF hs]
    by (simp add: r1_def)
qed

lemma spsc_room_queued:
  assumes ok: "spsc_ok r"
    and room: "cdist (p_read_cursor_cache (ring_p r)) (sh_write_cursor (ring_sh r)) + 1
                 \<le> capacity_of (sh_mask (ring_sh r))"
  shows "queued (ring_sh r) (ring_c r) < capacity_of (sh_mask (ring_sh r))"
proof -
  let ?b = "p_read_cursor_cache (ring_p r)"
  have "cdist ?b (c_read_cursor (ring_c r)) \<le> cdist ?b (sh_write_cursor (ring_sh r))"
    using spsc_okD(1) [OF ok] by (simp add: cursors_unfold)
  then show ?thesis
    using cdist_rebase [of ?b "c_read_cursor (ring_c r)" "sh_write_cursor (ring_sh r)"] room
    by (simp add: queued_def)
qed

lemma spsc_abandon_ok:
  assumes ok: "spsc_ok r"
    and room: "cdist (p_read_cursor_cache (ring_p r)) (sh_write_cursor (ring_sh r)) + 1
                 \<le> capacity_of (sh_mask (ring_sh r))"
    and r': "r' = r\<lparr>ring_sh := slot_uninit_write v (ring_sh r) (ring_p r)\<rparr>"
  shows "spsc_ok r'" and "spsc_contents r' = spsc_contents r"
proof -
  define sh c where defs: "sh = ring_sh r" "c = ring_c r"
  note okD = spsc_okD [OF ok, folded defs]
  have lt: "queued sh c < capacity_of (sh_mask sh)"
    using spsc_room_queued [OF ok room] by (simp add: defs)
  have slot: "p_slot (ring_p r) = slot_ix (sh_mask sh) (c_read_cursor c + of_nat (queued sh c))"
    using okD(1) by (simp add: p_slot_def cursors_ok_masks cursors_ok_write defs)
  have win: "window (sh_mask sh) ((buffer sh)[p_slot (ring_p r) := Some v]) (c_read_cursor c) (queued sh c)
      = window (sh_mask sh) (buffer sh) (c_read_cursor c) (queued sh c)"
    unfolding slot by (rule window_write_outside [OF okD(4) le_refl lt])
  show "spsc_ok r'" and "spsc_contents r' = spsc_contents r"
    using ok win
    by (simp_all add: spsc_ok_def spsc_contents_def Let_def spsc_batch_def r' slot_uninit_write_def
        flip: defs)
qed

lemma spsc_commit_init_eq: "slot_commit_init (slot_uninit_write v sh p) p = spsc_write v sh p"
  by (simp add: slot_commit_init_def slot_uninit_write_def spsc_write_def)

lemma spsc_claimed_ok:
  assumes ok: "spsc_ok r"
    and step: "\<And>r1 sh' p'. spsc_ok r1 \<Longrightarrow> spsc_contents r1 = spsc_contents r \<Longrightarrow>
        cdist (p_read_cursor_cache (ring_p r1)) (sh_write_cursor (ring_sh r1)) + 1
          \<le> capacity_of (sh_mask (ring_sh r1)) \<Longrightarrow>
        use (ring_sh r1) (ring_p r1) = (sh', p') \<Longrightarrow>
        spsc_ok (r1\<lparr>ring_sh := sh', ring_p := p'\<rparr>)
        \<and> spsc_contents (r1\<lparr>ring_sh := sh', ring_p := p'\<rparr>) = q'"
    and res: "spsc_claimed use ev r = (e, r')"
  shows "spsc_ok r' \<and> (e = ev \<and> spsc_contents r' = q'
            \<or> e = Refused \<and> spsc_contents r' = spsc_contents r)"
proof -
  obtain b sh p where hs: "has_space 1 (ring_sh r) (ring_p r) = (b, sh, p)"
    by (metis prod_cases3)
  show ?thesis
  proof (cases b)
    case True
    obtain sh' p' where u: "use sh p = (sh', p')" by (metis surj_pair)
    have "r' = r\<lparr>ring_sh := sh', ring_p := p'\<rparr>" "e = ev"
      using res hs True u by (simp_all add: spsc_try_claim_def)
    have hs': "has_space 1 (ring_sh r) (ring_p r) = (True, sh, p)" using hs True by simp
    show ?thesis
      using step [OF spsc_space_room [OF ok hs'], of sh' p'] u \<open>r' = _\<close> \<open>e = ev\<close> by simp
  next
    case False
    then show ?thesis
      using res hs spsc_has_space_ok [OF ok hs] by (auto simp: spsc_try_claim_def)
  qed
qed

lemma spsc_guarded_ok:
  assumes ok: "spsc_ok r"
    and step: "\<And>r1. spsc_ok r1 \<Longrightarrow> spsc_contents r1 = spsc_contents r \<Longrightarrow>
        c_write_cursor_cache (ring_c r1) \<noteq> c_read_cursor (ring_c r1) \<Longrightarrow>
        \<exists>ev sh' c'. use (ring_sh r1) (ring_c r1) = Inr (ev, sh', c')
          \<and> spsc_ok (r1\<lparr>ring_sh := sh', ring_c := c'\<rparr>)
          \<and> P ev (spsc_contents (r1\<lparr>ring_sh := sh', ring_c := c'\<rparr>))"
  shows "\<exists>ev r'. spsc_guarded use r = Inr (ev, r') \<and> spsc_ok r'
     \<and> (if spsc_contents r = [] then ev = Nothing \<and> spsc_contents r' = []
        else P ev (spsc_contents r'))"
proof -
  obtain b c where hi: "has_item (ring_sh r) (ring_c r) = (b, c)" by (metis surj_pair)
  note H = spsc_has_item_ok [OF ok hi]
  show ?thesis
  proof (cases b)
    case True
    then obtain ev sh' c' where "use (ring_sh r) c = Inr (ev, sh', c')"
      "spsc_ok (r\<lparr>ring_sh := sh', ring_c := c'\<rparr>)"
      "P ev (spsc_contents (r\<lparr>ring_sh := sh', ring_c := c'\<rparr>))"
      using step [of "r\<lparr>ring_c := c\<rparr>"] H by auto
    then show ?thesis using True H(3) hi by (simp add: spsc_try_pop_ref_def)
  next
    case False
    then show ?thesis using H hi by (simp add: spsc_try_pop_ref_def)
  qed
qed


lemma spsc_exec_claims:
  assumes ok: "spsc_ok r" and op: "op = ClaimCommit v \<or> op = ClaimInit v \<or> op = ClaimAbandon v"
  shows "\<exists>ev r'. spsc_exec op r = Inr (ev, r') \<and> spsc_ok r'
           \<and> spsc_spec op ev (spsc_contents r) (spsc_contents r')"
proof -
  have w: "spsc_ok (r1\<lparr>ring_sh := sh', ring_p := p'\<rparr>)
        \<and> spsc_contents (r1\<lparr>ring_sh := sh', ring_p := p'\<rparr>) = spsc_contents r @ [v]"
    if "spsc_ok r1" "spsc_contents r1 = spsc_contents r"
      "cdist (p_read_cursor_cache (ring_p r1)) (sh_write_cursor (ring_sh r1)) + 1
          \<le> capacity_of (sh_mask (ring_sh r1))"
      "spsc_write v (ring_sh r1) (ring_p r1) = (sh', p')" for r1 sh' p'
    using spsc_write_ok [OF that(1,3,4)] that(2) by simp
  have a: "spsc_ok (r1\<lparr>ring_sh := sh', ring_p := p'\<rparr>)
        \<and> spsc_contents (r1\<lparr>ring_sh := sh', ring_p := p'\<rparr>) = spsc_contents r"
    if "spsc_ok r1" "spsc_contents r1 = spsc_contents r"
      "cdist (p_read_cursor_cache (ring_p r1)) (sh_write_cursor (ring_sh r1)) + 1
          \<le> capacity_of (sh_mask (ring_sh r1))"
      "(slot_uninit_write v (ring_sh r1) (ring_p r1), ring_p r1) = (sh', p')" for r1 sh' p'
  proof -
    have "sh' = slot_uninit_write v (ring_sh r1) (ring_p r1)" "p' = ring_p r1"
      using that(4) by auto
    then show ?thesis
      using spsc_abandon_ok [OF that(1,3) refl, of v] that(2) by simp
  qed
  have com: "spsc_ok r' \<and> spsc_spec (ClaimCommit v) ev (spsc_contents r) (spsc_contents r')"
    if "spsc_claimed (spsc_write v) (Accepted v) r = (ev, r')" for ev r'
    using spsc_claimed_ok [where use = "spsc_write v" and q' = "spsc_contents r @ [v]", OF ok w that]
    unfolding spsc_spec.simps by blast
  have aba: "spsc_ok r' \<and> spsc_spec (ClaimAbandon v) ev (spsc_contents r) (spsc_contents r')"
    if "spsc_claimed (\<lambda>sh p. (slot_uninit_write v sh p, p)) Nothing r = (ev, r')" for ev r'
    using spsc_claimed_ok [where use = "\<lambda>sh p. (slot_uninit_write v sh p, p)"
        and q' = "spsc_contents r", OF ok a that]
    unfolding spsc_spec.simps by blast
  have eq: "slot_commit v = spsc_write v"
    "(\<lambda>sh p. slot_commit_init (slot_uninit_write v sh p) p) = spsc_write v"
    by (simp_all add: fun_eq_iff slot_commit_def spsc_commit_init_eq)
  obtain ev1 r1 where e1: "spsc_claimed (spsc_write v) (Accepted v) r = (ev1, r1)"
    by (rule prod.exhaust)
  obtain ev2 r2 where e2: "spsc_claimed (\<lambda>sh p. (slot_uninit_write v sh p, p)) Nothing r = (ev2, r2)"
    by (rule prod.exhaust)
  show ?thesis
    using op
  proof (elim disjE)
    assume "op = ClaimCommit v"
    then show ?thesis using com [OF e1] e1 by (simp add: eq del: spsc_claimed.simps)
  next
    assume "op = ClaimInit v"
    then show ?thesis using com [OF e1] e1 by (simp add: eq del: spsc_claimed.simps)
  next
    assume "op = ClaimAbandon v"
    then show ?thesis using aba [OF e2] e2 by (simp add: eq del: spsc_claimed.simps)
  qed
qed

lemma spsc_exec_guards:
  assumes ok: "spsc_ok r"
    and op: "op = PopRefDrop \<or> op = PopRefMap g \<or> op = PopRefForget"
  shows "\<exists>ev r'. spsc_exec op r = Inr (ev, r') \<and> spsc_ok r'
           \<and> spsc_spec op ev (spsc_contents r) (spsc_contents r')"
proof -
  let ?use = "\<lambda>sh c. case op of
        PopRefDrop \<Rightarrow> (case popref_drop sh c of
          Inl f \<Rightarrow> Inl f | Inr (v, sh', c') \<Rightarrow> Inr (Delivered v, sh', c'))
      | PopRefForget \<Rightarrow> (case popref_deref sh c of Inl f \<Rightarrow> Inl f | Inr v \<Rightarrow> Inr (Seen v, sh, c))
      | _ \<Rightarrow> (case popref_deref_mut g sh c of Inl f \<Rightarrow> Inl f
          | Inr sh1 \<Rightarrow> (case popref_drop sh1 c of
              Inl f \<Rightarrow> Inl f | Inr (v, sh', c') \<Rightarrow> Inr (Delivered v, sh', c')))"
  have step: "\<exists>ev sh' c'. ?use (ring_sh r1) (ring_c r1) = Inr (ev, sh', c')
          \<and> spsc_ok (r1\<lparr>ring_sh := sh', ring_c := c'\<rparr>)
          \<and> spsc_spec op ev (spsc_contents r) (spsc_contents (r1\<lparr>ring_sh := sh', ring_c := c'\<rparr>))"
    if ok1: "spsc_ok r1" and c1: "spsc_contents r1 = spsc_contents r"
      and ne: "c_write_cursor_cache (ring_c r1) \<noteq> c_read_cursor (ring_c r1)" for r1
  proof -
    note front = spsc_front [OF ok1 ne]
    obtain x xs where q: "spsc_contents r = x # xs"
      using front(3) c1 by (metis neq_Nil_conv)
    have x: "buffer (ring_sh r1) ! c_slot (ring_c r1) = Some x" using front(1) c1 q by simp
    consider "op = PopRefDrop" | "op = PopRefMap g" | "op = PopRefForget" using op by blast
    then show ?thesis
    proof cases
      case 1
      then show ?thesis
        using spsc_read_ok [OF ok1 ne] c1 q by (auto simp: popref_drop_eq_read)
    next
      case 2
      define r2 where r2: "r2 = r1\<lparr>ring_sh := (ring_sh r1)\<lparr>buffer
          := (buffer (ring_sh r1))[c_slot (ring_c r1) := Some (g x)]\<rparr>\<rparr>"
      note S = spsc_set_front [OF ok1 ne r2]
      have ne2: "c_write_cursor_cache (ring_c r2) \<noteq> c_read_cursor (ring_c r2)"
        using ne by (simp add: r2)
      have mut: "popref_deref_mut g (ring_sh r1) (ring_c r1) = Inr (ring_sh r2)"
        using x by (simp add: popref_deref_mut_def r2)
      obtain sh' c' where "popref_drop (ring_sh r2) (ring_c r2) = Inr (g x, sh', c')"
        "spsc_ok (r2\<lparr>ring_sh := sh', ring_c := c'\<rparr>)"
        "spsc_contents (r2\<lparr>ring_sh := sh', ring_c := c'\<rparr>) = xs"
        using spsc_read_ok [OF S(1) ne2] S(2) c1 q by (auto simp: popref_drop_eq_read)
      then show ?thesis using 2 mut q by (simp add: r2)
    next
      case 3
      then show ?thesis using x q c1 ok1 by (simp add: popref_deref_def)
    qed
  qed
  have exec: "spsc_exec op r = spsc_guarded ?use r"
    using op by (auto simp del: spsc_guarded.simps)
  show ?thesis
    using spsc_guarded_ok [where P = "\<lambda>ev q'. spsc_spec op ev (spsc_contents r) q'"
        and use = ?use, OF ok step] op
    unfolding exec by (fastforce split: if_splits list.splits simp del: spsc_guarded.simps)
qed

lemma spsc_exec_ok:
  assumes ok: "spsc_ok r"
  shows "\<exists>ev r'. spsc_exec op r = Inr (ev, r') \<and> spsc_ok r'
           \<and> spsc_spec op ev (spsc_contents r) (spsc_contents r')"
proof (cases op)
  case (TryPush v)
  show ?thesis
    using TryPush by (cases rule: spsc_enq_cases [OF ok, of v]) auto
next
  case TryPop
  show ?thesis
    using TryPop by (cases rule: spsc_deq_cases [OF ok]) (auto split: list.splits)
qed (use spsc_exec_claims [OF ok] spsc_exec_guards [OF ok] in blast)+

end
