(* ===== verification/Spsc_Properties.thy ===== *)
theory Spsc_Properties
  imports Spsc
begin

text \<open>
  What the SPSC ring guarantees, over whole runs of its handles: the history of
  a run, teardown, the refinement of every call, the refusal bound, the two
  occupancy views, the release of a blocked producer, the attach path and the
  containment of a superseded consumer.
\<close>

section \<open>Runs of calls\<close>

fun spsc_exec_all :: "'a spsc_op list \<Rightarrow> 'a spsc \<Rightarrow> fault + 'a spsc_event list \<times> 'a spsc" where
  "spsc_exec_all [] r = Inr ([], r)"
| "spsc_exec_all (op # ops) r =
     (case spsc_exec op r of
        Inl f \<Rightarrow> Inl f
      | Inr (ev, r1) \<Rightarrow>
          (case spsc_exec_all ops r1 of Inl f \<Rightarrow> Inl f | Inr (evs, r2) \<Rightarrow> Inr (ev # evs, r2)))"

inductive spsc_spec_run ::
  "'a spsc_op list \<Rightarrow> 'a spsc_event list \<Rightarrow> 'a list \<Rightarrow> 'a list \<Rightarrow> bool" where
  none: "spsc_spec_run [] [] q q"
| some: "spsc_spec op ev q q1 \<Longrightarrow> spsc_spec_run ops evs q1 q2 \<Longrightarrow>
     spsc_spec_run (op # ops) (ev # evs) q q2"

inductive_simps spsc_spec_run_simps [simp]:
  "spsc_spec_run [] evs q q'" "spsc_spec_run (op # ops) evs q q'"

lemma spsc_exec_all_ok:
  assumes "spsc_ok r"
  shows "\<exists>evs r'. spsc_exec_all ops r = Inr (evs, r') \<and> spsc_ok r'
           \<and> spsc_spec_run ops evs (spsc_contents r) (spsc_contents r')"
  using assms
proof (induction ops arbitrary: r)
  case (Cons op ops)
  obtain ev r1 where 1: "spsc_exec op r = Inr (ev, r1)" "spsc_ok r1"
    "spsc_spec op ev (spsc_contents r) (spsc_contents r1)"
    using spsc_exec_ok [OF Cons.prems] by blast
  obtain evs r2 where 2: "spsc_exec_all ops r1 = Inr (evs, r2)" "spsc_ok r2"
    "spsc_spec_run ops evs (spsc_contents r1) (spsc_contents r2)"
    using Cons.IH [OF 1(2)] by blast
  show ?case using 1 2 by (auto simp del: spsc_exec.simps spsc_spec.simps)
qed simp

lemma spsc_len_capacity: "spsc_ok r \<Longrightarrow> length (spsc_contents r) \<le> spsc_capacity r"
  using queued_le [OF spsc_okD(1)] by (simp add: spsc_capacity_def)

section \<open>Properties\<close>

text \<open>
  (C1) Over any run of \<open>try_push\<close> and \<open>try_pop\<close> from a new ring, the accepted
  values are, in order, the delivered ones followed by the ones still queued:
  nothing is lost, duplicated or reordered, and at most the capacity is queued.
\<close>

theorem spsc_history:
  assumes new: "spsc_new n = Inr r" and run: "fifo_run spsc_enq spsc_deq ops r = (ins, outs, r')"
  shows "ins = outs @ spsc_contents r' \<and> length (spsc_contents r') \<le> spsc_capacity r'"
proof -
  note N = spsc_new_ok [OF new]
  have leg: "\<forall>x\<in>set ops. op_legal (\<lambda>_. True) x" by (metis op_legal.elims(3))
  have "spsc_ok r'" by (rule spsc_fifo.run_inv [OF N(1) leg run])
  then show ?thesis
    using spsc_fifo.run_history [OF N(1) leg run] N(2) spsc_len_capacity by auto
qed

definition ring2 :: "nat spsc" where
  "ring2 = projr (spsc_new 2)"

lemma ring2_new: "spsc_new 2 = Inr ring2"
proof -
  have "\<not> isl (spsc_new 2 :: fault + nat spsc)" by code_simp
  then show ?thesis by (simp add: ring2_def)
qed

definition sample_ops :: "nat fifo_op list" where
  "sample_ops = [Enq 7, Enq 8, Enq 9, Deq, Enq 10, Deq]"

definition sample_ring :: "nat spsc" where
  "sample_ring = snd (snd (fifo_run spsc_enq spsc_deq sample_ops ring2))"

lemma sample_run: "fifo_run spsc_enq spsc_deq sample_ops ring2 = ([7, 8, 10], [7, 8], sample_ring)"
  by code_simp

lemma spsc_history_witness: "[7, 8, 10] = [7, 8] @ spsc_contents sample_ring"
  using spsc_history [OF ring2_new sample_run] by simp


text \<open>
  (C3) Teardown destroys exactly the values that were accepted and never
  delivered, each once, in order, and never touches an empty slot; in
  particular the progress a consumer had deferred is published first.
\<close>

theorem spsc_teardown_exact:
  assumes new: "spsc_new n = Inr r" and run: "fifo_run spsc_enq spsc_deq ops r = (ins, outs, r')"
  shows "\<exists>dropped. spsc_teardown pid r' = Inr dropped \<and> ins = outs @ dropped"
proof -
  note N = spsc_new_ok [OF new]
  have leg: "\<forall>x\<in>set ops. op_legal (\<lambda>_. True) x" by (metis op_legal.elims(3))
  have "spsc_ok r'" by (rule spsc_fifo.run_inv [OF N(1) leg run])
  then have "spsc_teardown pid r' = Inr (spsc_contents r')"
    using spsc_teardown_contents fifo_run_anchor [OF run] N(4) by simp
  then show ?thesis
    using spsc_fifo.run_history [OF N(1) leg run] N(2) by simp
qed

lemma spsc_teardown_exact_witness:
  "\<exists>dropped. spsc_teardown 1 sample_ring = Inr dropped \<and> [7, 8, 10] = [7, 8] @ dropped"
  by (rule spsc_teardown_exact [OF ring2_new sample_run])

text \<open>
  (C2) Any sequence of calls on the two handles (pushes, claims committed by
  value, in place or abandoned, pops, read guards dropped, mutated or
  forgotten) refines the abstract queue call by call, and no call ever reads a
  slot that holds no value. A forgotten guard leaves its element queued.
\<close>

theorem spsc_calls_refine:
  assumes "spsc_new n = Inr r"
  shows "\<exists>evs r'. spsc_exec_all ops r = Inr (evs, r')
           \<and> spsc_spec_run ops evs [] (spsc_contents r')"
  using spsc_exec_all_ok [OF spsc_new_ok(1) [OF assms], of ops] spsc_new_ok(2) [OF assms] by auto

definition sample_calls :: "nat spsc_op list" where
  "sample_calls = [TryPush 3, ClaimAbandon 4, ClaimInit 5, PopRefForget, PopRefMap Suc, TryPop]"

lemma spsc_calls_refine_witness:
  "\<exists>evs r'. spsc_exec_all sample_calls ring2 = Inr (evs, r')
     \<and> spsc_spec_run sample_calls evs [] (spsc_contents r')"
  by (rule spsc_calls_refine [OF ring2_new])

text \<open>
  A push is refused only when fewer than one publish batch of slots is
  free (at least capacity minus batch plus one values are queued); the refused
  value is handed back and the queue is unchanged. With \<open>batch\<close> free slots a
  push always succeeds.
\<close>

theorem spsc_push_refusal:
  assumes ok: "spsc_ok r" and res: "spsc_try_push v (ring_sh r) (ring_p r) = (Inl w, sh', p')"
  shows "w = v \<and> spsc_contents (r\<lparr>ring_sh := sh', ring_p := p'\<rparr>) = spsc_contents r
     \<and> spsc_capacity r < length (spsc_contents r) + spsc_batch r"
  using ok
proof (cases rule: spsc_enq_cases [of r v])
  case (full sh1 p1)
  have "deferred (ring_sh r) (ring_c r) + length (spsc_contents r) = spsc_capacity r"
    using spsc_enq_full [OF ok, of v] full(2) by simp
  then show ?thesis
    using full res spsc_okD(5) [OF ok] by auto
next
  case (space sh1 p1)
  then show ?thesis using res by simp
qed

definition full_ring :: "nat spsc" where
  "full_ring = snd (snd (fifo_run spsc_enq spsc_deq [Enq 1, Enq 2] ring2))"

lemma full_ring_ok: "spsc_ok full_ring" and full_ring_contents: "spsc_contents full_ring = [1, 2]"
proof -
  have leg: "\<forall>x\<in>set [Enq 1, Enq (2::nat)]. op_legal (\<lambda>_. True) x" by simp
  have run: "fifo_run spsc_enq spsc_deq [Enq 1, Enq 2] ring2 = ([1, 2], [], full_ring)"
    by code_simp
  note N = spsc_new_ok [OF ring2_new]
  show "spsc_ok full_ring" by (rule spsc_fifo.run_inv [OF N(1) leg run])
  show "spsc_contents full_ring = [1, 2]"
    using spsc_fifo.run_history [OF N(1) leg run] N(2) by simp
qed

lemma spsc_push_refusal_witness:
  "\<exists>sh' p'. spsc_try_push 9 (ring_sh full_ring) (ring_p full_ring) = (Inl 9, sh', p')
     \<and> spsc_capacity full_ring < length (spsc_contents full_ring) + spsc_batch full_ring"
proof -
  obtain w sh' p' where res: "spsc_try_push 9 (ring_sh full_ring) (ring_p full_ring) = (w, sh', p')"
    by (rule prod_cases3)
  have "fst (spsc_try_push 9 (ring_sh full_ring) (ring_p full_ring)) = Inl 9" by code_simp
  then have "w = Inl 9" using res by simp
  then show ?thesis using spsc_push_refusal [OF full_ring_ok] res by blast
qed

text \<open>
  The occupancy views. The consumer's count is exact; the producer's is
  exact plus the progress the consumer has consumed and not yet published, so it
  never under-counts and over-counts by less than one batch; neither exceeds the
  capacity. A truly full ring is reported full by both sides, and the consumer
  reports full and empty only when they hold.
\<close>

theorem spsc_occupancy_views:
  assumes ok: "spsc_ok r"
  shows "unat (spsc_consumer_len (ring_sh r) (ring_c r)) = length (spsc_contents r)
     \<and> length (spsc_contents r) \<le> unat (spsc_producer_len (ring_sh r) (ring_p r))
     \<and> unat (spsc_producer_len (ring_sh r) (ring_p r)) < length (spsc_contents r) + spsc_batch r
     \<and> unat (spsc_producer_len (ring_sh r) (ring_p r)) \<le> spsc_capacity r
     \<and> (spsc_consumer_is_empty (ring_sh r) (ring_c r) \<longleftrightarrow> spsc_contents r = [])
     \<and> (spsc_consumer_is_full (ring_sh r) (ring_c r) \<longleftrightarrow> length (spsc_contents r) = spsc_capacity r)
     \<and> (length (spsc_contents r) = spsc_capacity r \<longrightarrow>
          spsc_producer_is_full (ring_sh r) (ring_p r))
     \<and> (spsc_producer_is_empty (ring_sh r) (ring_p r) \<longrightarrow> spsc_contents r = [])"
proof -
  define sh p c where defs: "sh = ring_sh r" "p = ring_p r" "c = ring_c r"
  note okD = spsc_okD [OF ok, folded defs]
  note Q = queued_deferred [OF okD(1)]
  have m: "unat (sh_mask sh) = capacity_of (sh_mask sh) - 1" "0 < capacity_of (sh_mask sh)"
    using unat_mask_eq capacity_pos okD(4) by auto
  have q: "queued sh c = unat (sh_write_cursor sh - c_read_cursor c)"
    by (simp add: queued_def cdist_def)
  have pl: "unat (spsc_producer_len sh p) = deferred sh c + queued sh c"
    using Q by (simp add: spsc_producer_len_def occupancy_def cdist_def)
  have masks: "p_mask p = sh_mask sh" "c_mask c = sh_mask sh"
    using cursors_ok_masks [OF okD(1)] by auto
  have len: "length (spsc_contents r) = queued sh c" by (simp add: defs)
  have cap: "spsc_capacity r = capacity_of (sh_mask sh)" by (simp add: spsc_capacity_def defs)
  have fullc: "spsc_consumer_is_full sh c \<longleftrightarrow> queued sh c = capacity_of (sh_mask sh)"
    using m Q masks by (auto simp: spsc_consumer_is_full_def occupied_relaxed_def
        word_less_nat_alt q)
  have fullp: "spsc_producer_is_full sh p \<longleftrightarrow> deferred sh c + queued sh c = capacity_of (sh_mask sh)"
    using m Q masks pl by (auto simp: spsc_producer_is_full_def is_full_view_def
        spsc_producer_len_def occupancy_def word_less_nat_alt)
  have emptyc: "spsc_consumer_is_empty sh c \<longleftrightarrow> queued sh c = 0"
    by (simp add: spsc_consumer_is_empty_def available_def q unat_eq_0)
  have emptyp: "spsc_producer_is_empty sh p \<longleftrightarrow> deferred sh c + queued sh c = 0"
    using pl unat_eq_0 [of "occupancy sh p"]
    by (auto simp: spsc_producer_is_empty_def spsc_producer_len_def)
  have lc: "unat (spsc_consumer_len sh c) = queued sh c"
    by (simp add: spsc_consumer_len_def available_def q)
  have nil: "spsc_contents r = [] \<longleftrightarrow> queued sh c = 0" using len by (metis length_0_conv)
  have b: "deferred sh c < spsc_batch r" "deferred sh c + queued sh c \<le> capacity_of (sh_mask sh)"
    using okD(5) Q(2) by auto
  show ?thesis
    unfolding nil len cap defs(1-3) [symmetric] fullc fullp emptyc emptyp pl lc using b by auto
qed

lemma spsc_occupancy_views_witness:
  "unat (spsc_consumer_len (ring_sh full_ring) (ring_c full_ring)) = 2
     \<and> spsc_producer_is_full (ring_sh full_ring) (ring_p full_ring)"
proof -
  have "length (spsc_contents full_ring) = spsc_capacity full_ring" by code_simp
  then show ?thesis
    using spsc_occupancy_views [OF full_ring_ok] full_ring_contents by simp
qed


text \<open>A failed space check is stable: polling again changes nothing.\<close>

lemma has_space_poll_again:
  "has_space n sh p = (False, sh', p') \<Longrightarrow> has_space n sh' p' = (False, sh', p')"
  by (auto simp: has_space_def Let_def split: if_splits)

lemma wait_for_space_stutter:
  "has_space n sh p = (False, sh', p') \<Longrightarrow>
   wait_for_space n (replicate k (\<lambda>sh. sh) @ e # es) sh p = wait_for_space n es (e sh') p'"
proof (induction k arbitrary: sh p)
  case (Suc k)
  then show ?case
    using Suc.IH [OF has_space_poll_again [OF Suc.prems]]
    by (simp add: wait_for_space_blocked [OF Suc.prems])
qed (simp add: wait_for_space_blocked)

lemma spsc_deq_frame:
  "ring_p (snd (spsc_deq r)) = ring_p r"
  "sh_write_cursor (ring_sh (snd (spsc_deq r))) = sh_write_cursor (ring_sh r)"
  "sh_mask (ring_sh (snd (spsc_deq r))) = sh_mask (ring_sh r)"
  by (auto simp: spsc_deq_def spsc_try_pop_def has_item_def refresh_def spsc_read_def
      spsc_advance_one_def advance_def flush_def Let_def
      split: prod.splits sum.splits option.splits bool.splits if_splits)

lemma spsc_deq_ring_p:
  "spsc_deq (r\<lparr>ring_p := p\<rparr>) = (fst (spsc_deq r), (snd (spsc_deq r))\<lparr>ring_p := p\<rparr>)"
  by (auto simp: spsc_deq_def split: prod.splits sum.splits)

lemma fifo_run_deqs_ring_p:
  "fifo_run spsc_enq spsc_deq (replicate n Deq) r = (ins, outs, r') \<Longrightarrow>
   fifo_run spsc_enq spsc_deq (replicate n Deq) (r\<lparr>ring_p := p\<rparr>) = (ins, outs, r'\<lparr>ring_p := p\<rparr>)"
proof (induction n arbitrary: r ins outs)
  case (Suc n)
  obtain ins1 outs1 where run: "fifo_run spsc_enq spsc_deq (replicate n Deq) (snd (spsc_deq r))
      = (ins1, outs1, r')"
    using Suc.prems by (auto split: prod.splits)
  show ?case
    using Suc.IH [OF run] Suc.prems run by (auto simp: spsc_deq_ring_p split: prod.splits)
qed simp

lemma fifo_run_deqs_frame:
  "fifo_run spsc_enq spsc_deq (replicate n Deq) r = (ins, outs, r')
     \<Longrightarrow> ring_p r' = ring_p r \<and> sh_mask (ring_sh r') = sh_mask (ring_sh r)
       \<and> sh_write_cursor (ring_sh r') = sh_write_cursor (ring_sh r)"
proof (induction n arbitrary: r ins outs)
  case (Suc n)
  obtain ins1 outs1 where "fifo_run spsc_enq spsc_deq (replicate n Deq) (snd (spsc_deq r))
      = (ins1, outs1, r')"
    using Suc.prems by (auto split: prod.splits)
  from Suc.IH [OF this] show ?case by (simp add: spsc_deq_frame)
qed simp

lemma spsc_write_effect:
  assumes ok: "cursors_ok sh p c" and len: "length (buffer sh) = capacity_of (sh_mask sh)"
  shows "\<exists>sh' p'. spsc_write v sh p = (sh', p') \<and> sh_write_cursor sh' = sh_write_cursor sh + 1
     \<and> buffer sh' ! slot_ix (sh_mask sh) (sh_write_cursor sh) = Some v"
  using slot_ix_less [OF cursors_ok_valid [OF ok]] cursors_ok_write [OF ok] cursors_ok_masks [OF ok] len
  by (simp add: spsc_write_def publish_def Let_def p_slot_def)

text \<open>The consumer emptying the ring while the producer waits, as an action on the shared state.\<close>

definition drain_all :: "'a spsc \<Rightarrow> 'a option shared \<Rightarrow> 'a option shared" where
  "drain_all r sh =
     ring_sh (snd (snd (fifo_run spsc_enq spsc_deq
       (replicate (spsc_capacity r) Deq) (r\<lparr>ring_sh := sh\<rparr>))))"

text \<open>
  (C4) A blocking \<open>push\<close> returns: however many polls find the ring full, the
  first poll after the consumer has drained it succeeds and publishes the value.
  A deferred read cursor cannot strand the producer.
\<close>

theorem spsc_push_released:
  assumes ok: "spsc_ok r"
  shows "\<exists>sh' p'. spsc_push (replicate k (\<lambda>sh. sh) @ [drain_all r]) v (ring_sh r) (ring_p r)
           = Some (sh', p')
         \<and> sh_write_cursor sh' = sh_write_cursor (ring_sh r) + 1
         \<and> buffer sh' ! slot_ix (sh_mask (ring_sh r)) (sh_write_cursor (ring_sh r)) = Some v"
proof -
  obtain b sh1 p1 where hs: "has_space 1 (ring_sh r) (ring_p r) = (b, sh1, p1)"
    by (rule prod_cases3)
  define r1 where r1: "r1 = r\<lparr>ring_sh := sh1, ring_p := p1\<rparr>"
  have ok1: "spsc_ok r1" and c1: "spsc_contents r1 = spsc_contents r"
    using spsc_has_space_ok [OF ok hs] by (simp_all add: r1)
  note M = has_space_masks [OF hs]
  show ?thesis
  proof (cases b)
    case True
    then have "has_space 1 (ring_sh r) (ring_p r) = (True, sh1, p1)" using hs by simp
    from wait_for_space_ready [OF this] show ?thesis
      using spsc_write_effect [OF spsc_okD(1,2) [OF ok1], of v] M
      by (auto simp: spsc_push_def r1)
  next
    case False
    have blocked: "has_space 1 (ring_sh r) (ring_p r) = (False, sh1, p1)" using hs False by simp
    have "length (spsc_contents r1) \<le> spsc_capacity r"
      using spsc_len_capacity [OF ok] c1 by simp
    then obtain r2 where run: "fifo_run spsc_enq spsc_deq (replicate (spsc_capacity r) Deq) r1
        = ([], spsc_contents r1, r2)" and ok2: "spsc_ok r2" and e2: "spsc_contents r2 = []"
      using spsc_fifo.run_drain [OF ok1] by blast
    note F = fifo_run_deqs_frame [OF run]
    have dr: "drain_all r sh1 = ring_sh r2"
      using fifo_run_deqs_ring_p [OF run, of "ring_p r"] by (simp add: drain_all_def r1)
    obtain sh3 p3 where hs2: "has_space 1 (ring_sh r2) p1 = (True, sh3, p3)"
      by (cases rule: spsc_enq_cases [OF ok2, of v])
        (use spsc_empty_accepts [OF ok2 e2, of v] F in
          \<open>auto simp: spsc_try_push_def r1 split: prod.splits bool.splits\<close>)
    have ok3: "spsc_ok (r2\<lparr>ring_sh := sh3, ring_p := p3\<rparr>)"
      using spsc_has_space_ok(1) [OF ok2, of 1 True sh3 p3] hs2 F by (simp add: r1)
    have "wait_for_space 1 (replicate k (\<lambda>sh. sh) @ [drain_all r]) (ring_sh r) (ring_p r)
        = Some (sh3, p3, [])"
      unfolding wait_for_space_stutter [OF blocked] dr by (rule wait_for_space_ready [OF hs2])
    then show ?thesis
      using spsc_write_effect [OF spsc_okD(1,2) [OF ok3], of v] M F has_space_masks [OF hs2]
      by (simp add: spsc_push_def r1)
  qed
qed


lemma spsc_push_released_witness:
  "\<exists>sh' p'. spsc_push (replicate 3 (\<lambda>sh. sh) @ [drain_all full_ring]) 9
       (ring_sh full_ring) (ring_p full_ring) = Some (sh', p') \<and> sh_write_cursor sh' = 3"
proof -
  have "sh_write_cursor (ring_sh full_ring) = 2" by code_simp
  then show ?thesis using spsc_push_released [OF full_ring_ok, of 3 9] by auto
qed

text \<open>
  Attaching to a live ring: the two cores built from the shared words of a
  region at rest (published cursors within one capacity, all slots between them
  written) form a sound ring whose contents are exactly the slots between the
  published cursors, wherever the cursors stand, the wrap included. Elements
  the predecessor consumed but had not published are delivered again.
\<close>

theorem spsc_attach:
  assumes m: "valid_mask (sh_mask sh)" and len: "length (buffer sh) = capacity_of (sh_mask sh)"
    and fits: "sh_write_cursor sh - sh_read_cursor sh \<le> sh_mask sh + 1"
    and full: "None \<notin> set (window (sh_mask sh) (buffer sh) (sh_read_cursor sh)
                          (unat (sh_write_cursor sh - sh_read_cursor sh)))"
    and lease: "owns_ring (sh_region sh) ac"
    and p: "producer_core_from_raw (sh_mask sh + 1) ap sh = (p, sh')"
    and c: "consumer_core_from_raw (sh_mask sh + 1) ac sh' = c"
  defines "r \<equiv> \<lparr>ring_sh = sh', ring_p = p, ring_c = c\<rparr>"
  shows "spsc_ok r \<and> length (spsc_contents r) = unat (sh_write_cursor sh - sh_read_cursor sh)
     \<and> map Some (spsc_contents r) = window (sh_mask sh) (buffer sh) (sh_read_cursor sh)
         (length (spsc_contents r))"
proof -
  let ?n = "cdist (sh_read_cursor sh) (sh_write_cursor sh)"
  have n: "unat (sh_write_cursor sh - sh_read_cursor sh) = ?n" by (simp add: cdist_def)
  have le: "?n \<le> capacity_of (sh_mask sh)"
    using fits by (simp add: cdist_def word_le_nat_alt)
  have r: "ring_sh r = sh\<lparr>sh_starving := 0\<rparr>"
    "ring_p r = \<lparr>p_mask = sh_mask sh, p_write_cursor = sh_write_cursor sh,
       p_read_cursor_cache = sh_read_cursor sh, p_raised_starving = False, p_anchor = ap\<rparr>"
    "ring_c r = \<lparr>c_mask = sh_mask sh, c_read_cursor = sh_read_cursor sh,
       c_published = sh_read_cursor sh, c_write_cursor_cache = sh_write_cursor sh, c_anchor = ac\<rparr>"
    using p c by (auto simp: r_def producer_core_from_raw_def consumer_core_from_raw_def)
  have q: "queued (ring_sh r) (ring_c r) = ?n" "deferred (ring_sh r) (ring_c r) = 0"
    by (simp_all add: r queued_def deferred_def)
  have cu: "cursors_ok (ring_sh r) (ring_p r) (ring_c r)"
    using m le lease by (simp add: cursors_unfold r)
  have ok: "spsc_ok r"
    unfolding spsc_ok_def Let_def q
    using cu len full spsc_batch_pos by (simp add: spsc_batch_def n r)
  moreover have "map Some (spsc_contents r) = window (sh_mask sh) (buffer sh) (sh_read_cursor sh) ?n"
    unfolding spsc_contents_def q 
  proof (simp add: r n, intro map_idI)
    fix x assume "x \<in> set (window (sh_mask sh) (buffer sh) (sh_read_cursor sh) ?n)"
    then have "x \<noteq> None" using full n by metis
    then show "(Some \<circ> the) x = x" by simp
  qed
  ultimately show ?thesis by (simp add: n q)
qed

definition wrapped_region :: "nat option shared" where
  "wrapped_region = \<lparr>buffer = [Some 6, None, None, Some 5], sh_mask = 3, sh_write_cursor = 1,
     sh_read_cursor = - 1, sh_starving = 1, sh_region = no_region,
     sh_producer_notified = 0, sh_consumer_notified = 0\<rparr>"

lemma spsc_attach_witness:
  "\<exists>r. spsc_ok r \<and> map Some (spsc_contents r) = [Some (5 :: nat), Some 6]"
proof -
  have m: "valid_mask (sh_mask wrapped_region)"
    by (rule valid_maskI [of 2]) (simp_all add: wrapped_region_def mask_eq_decr_exp)
  have 1: "length (buffer wrapped_region) = capacity_of (sh_mask wrapped_region)" by code_simp
  have 2: "sh_write_cursor wrapped_region - sh_read_cursor wrapped_region
      \<le> sh_mask wrapped_region + 1" by code_simp
  have 3: "None \<notin> set (window (sh_mask wrapped_region) (buffer wrapped_region)
      (sh_read_cursor wrapped_region)
      (unat (sh_write_cursor wrapped_region - sh_read_cursor wrapped_region)))"
    by code_simp
  have 4: "owns_ring (sh_region wrapped_region) Heap" by simp
  have 5: "unat (sh_write_cursor wrapped_region - sh_read_cursor wrapped_region) = 2" by code_simp
  have 6: "window (sh_mask wrapped_region) (buffer wrapped_region)
      (sh_read_cursor wrapped_region) 2 = [Some 5, Some 6]" by code_simp
  obtain p sh' where raw: "producer_core_from_raw (sh_mask wrapped_region + 1) Heap wrapped_region
      = (p, sh')"
    by (rule prod.exhaust)
  show ?thesis using spsc_attach [OF m 1 2 3 4 raw refl] 5 6 by auto
qed

text \<open>
  (C5) A consumer whose lease was taken over is contained: neither releasing a
  slot (every consuming call ends in that), nor a flush, nor its drop in any
  process changes the shared cursors, the flag, the leases or the buffer.
\<close>

theorem spsc_zombie_contained:
  assumes "\<not> owns_ring (sh_region sh) (c_anchor c)"
  shows "fst (spsc_advance_one sh c) = sh \<and> fst (flush_pending sh c) = sh
     \<and> consumer_core_drop getpid sh c = sh"
  using flush_zombie [OF assms] consumer_core_drop_zombie [OF assms]
  by (simp add: spsc_advance_one_def Let_def)

lemma spsc_zombie_contained_witness:
  "fst (spsc_advance_one wrapped_region
     \<lparr>c_mask = 3, c_read_cursor = 7, c_published = 5, c_write_cursor_cache = 8,
      c_anchor = Shm RoleConsumer 77 1\<rparr>) = wrapped_region"
proof -
  have "\<not> owns_ring (sh_region wrapped_region) (c_anchor
     \<lparr>c_mask = 3, c_read_cursor = 7, c_published = 5, c_write_cursor_cache = 8,
      c_anchor = Shm RoleConsumer 77 1\<rparr>)" by code_simp
  then show ?thesis using spsc_zombie_contained by blast
qed

text \<open>
  Construction: \<open>new\<close> panics exactly on a zero capacity and above
  \<open>2 ^ 63\<close>; otherwise the ring has the least power of two not below the request
  as its capacity, is empty and satisfies the invariant.
\<close>

theorem spsc_new_spec:
  "(case (spsc_new n :: fault + 'a spsc) of
      Inl f \<Rightarrow> f = Panic \<and> (n = 0 \<or> unat n > 2 ^ 63)
    | Inr r \<Rightarrow> n \<noteq> 0 \<and> unat n \<le> 2 ^ 63 \<and> spsc_ok r \<and> spsc_contents r = []
        \<and> (\<exists>k. spsc_capacity r = 2 ^ k \<and> unat n \<le> 2 ^ k
             \<and> (\<forall>j. unat n \<le> 2 ^ j \<longrightarrow> k \<le> j)))"
proof (cases "n = 0 \<or> unat n > 2 ^ 63")
  case True
  then show ?thesis by (auto simp: spsc_new_def round_capacity_cases)
next
  case False
  obtain r :: "'a spsc" where new: "spsc_new n = Inr r"
    using False by (auto simp: spsc_new_def round_capacity_cases channel_def)
  obtain c where c: "next_pow2 63 1 (unat n) = Some c"
    using next_pow2_total [of "unat n" 1 63] False by auto
  obtain k where k: "k \<le> 63" "c = 2 ^ k" "k = 0 \<or> 2 ^ (k - 1) < unat n" "unat n \<le> c"
    using next_pow2_spec [OF c] by auto
  have lt: "c < word_span"
    using k power_strict_increasing [of k 64 "2::nat"] by (simp add: word_span_def)
  have u: "unat (of_nat c :: usize) = 2 ^ k" using unat_of_nat_span [OF lt] k by simp
  have "1 \<le> (of_nat c :: usize)" using u by (simp add: word_le_nat_alt del: k(2))
  then have "spsc_capacity r = 2 ^ k"
    using new False c u
    by (auto simp: spsc_new_def round_capacity_cases max_def spsc_capacity_def channel_def
        simp del: capacity_of_eq simp flip: capacity_of_eq split: prod.splits)
  moreover have "k \<le> j" if "unat n \<le> 2 ^ j" for j
  proof (rule ccontr)
    assume "\<not> k \<le> j"
    then have "(2::nat) ^ j \<le> 2 ^ (k - 1)" by (intro power_increasing) auto
    moreover have "k \<noteq> 0" using \<open>\<not> k \<le> j\<close> by simp
    ultimately have "2 ^ (k - 1) < unat n" "(2::nat) ^ j \<le> 2 ^ (k - 1)" using k(3) by blast+
    then show False using that by (meson leD le_trans)
  qed
  ultimately show ?thesis
    using new False spsc_new_ok(1,2) [OF new] k by auto
qed

lemma spsc_new_spec_witness: "spsc_capacity (projr (spsc_new 5 :: fault + nat spsc)) = 8"
proof -
  have new: "\<exists>r. (spsc_new 5 :: fault + nat spsc) = Inr r"
    by (simp add: spsc_new_def round_capacity_cases channel_def)
  then obtain r where r: "(spsc_new 5 :: fault + nat spsc) = Inr r" by blast
  then obtain k where k: "spsc_capacity r = 2 ^ k" "5 \<le> (2::nat) ^ k"
    "\<And>j. 5 \<le> (2::nat) ^ j \<Longrightarrow> k \<le> j"
    using spsc_new_spec [where n = 5 and 'a = nat] by auto
  have "k \<le> 3" using k(3) [of 3] by simp
  then have "k = 0 \<or> k = 1 \<or> k = 2 \<or> k = 3" by linarith
  then show ?thesis using k r by auto
qed

end
