(* ===== verification/Framing.thy ===== *)
theory Framing
  imports Ring_Prelude
begin

text \<open>
  The frame format of the byte rings (\<open>src/src/spsc_bytes.rs\<close>): a 4-byte
  little-endian length header, the payload, the record rounded up to 4 bytes,
  and padding records (header \<open>u32::MAX\<close>) that run to the end of the buffer.

  The abstract side is the byte stream between two cursors together with the
  offset at which it starts: \<open>framed\<close> says that a stream is a sequence of whole
  records carrying given messages, \<open>parse\<close> reads the messages off.
\<close>

section \<open>Sizes\<close>

definition HEADER :: usize where "HEADER = 4"
definition ALIGN :: usize where "ALIGN = 4"
definition MIN_CAPACITY :: usize where "MIN_CAPACITY = 8"
definition PADDING :: u32 where "PADDING = - 1"

definition align_up :: "usize \<Rightarrow> usize" where
  "align_up n = (n + (ALIGN - 1)) AND NOT (ALIGN - 1)"

definition record_len :: "usize \<Rightarrow> usize" where
  "record_len len = align_up (HEADER + len)"

definition max_message_len :: "usize \<Rightarrow> usize" where
  "max_message_len capacity =
     (let cap = capacity div 2 - HEADER;
          header_space = ucast (PADDING - 1)
      in if cap < header_space then cap else header_space)"

text \<open>The number of ring bytes of a record, on naturals.\<close>

definition rlen :: "nat \<Rightarrow> nat" where
  "rlen n = (n + 7) div 4 * 4"

lemma unat_and_not_mask:
  fixes x :: u64
  shows "unat (x AND NOT (mask k)) = unat x div 2 ^ k * 2 ^ k"
proof -
  have "x AND NOT (mask k) = push_bit k (drop_bit k x)"
    by (rule bit_word_eqI) (auto simp: bit_simps)
  then have "unat (x AND NOT (mask k)) = take_bit 64 (push_bit k (drop_bit k (unat x)))"
    using take_bit_nat_eq_self [of "unat x" 64] unat_less_span [of x, unfolded word_span_def]
    by (simp only: unsigned_push_bit_eq unsigned_drop_bit_eq) simp
  then have "unat (x AND NOT (mask k)) = take_bit 64 (unat x div 2 ^ k * 2 ^ k)"
    by (simp only: push_bit_eq_mult drop_bit_eq_div)
  also have "\<dots> = unat x div 2 ^ k * 2 ^ k"
  proof (rule take_bit_nat_eq_self)
    have "unat x div 2 ^ k * 2 ^ k \<le> unat x" by (rule div_times_less_eq_dividend)
    also have "unat x < 2 ^ 64" using unat_less_span [of x] by (simp add: word_span_def)
    finally show "unat x div 2 ^ k * 2 ^ k < 2 ^ 64" .
  qed
  finally show ?thesis .
qed

lemma unat_record_len:
  assumes "unat len + 7 < word_span"
  shows "unat (record_len len) = rlen (unat len)"
proof -
  have a: "ALIGN - 1 = mask 2" by (simp add: ALIGN_def mask_eq_decr_exp)
  have "unat (7 :: usize) = 7" by (rule unat_numeral_span) (simp add: word_span_def)
  then have "unat (7 + len) = unat len + 7"
    using unat_add_span [of 7 len] assms by (simp add: add.commute)
  moreover have "HEADER + len + mask 2 = 7 + len"
    by (simp add: HEADER_def mask_eq_decr_exp)
  ultimately show ?thesis
    by (simp only: record_len_def align_up_def a unat_and_not_mask rlen_def) simp
qed

lemma rlen_bounds: "n + 4 \<le> rlen n" "rlen n \<le> n + 7" "rlen n mod 4 = 0" "4 \<le> rlen n"
  unfolding rlen_def by presburger+

text \<open>A legal message: its record takes at most half the ring.\<close>

lemma max_message_len_nat:
  assumes "8 \<le> unat capacity"
  shows "unat (max_message_len capacity) = min (unat capacity div 2 - 4) (2 ^ 32 - 2)"
proof -
  have "(ucast (PADDING - 1) :: usize) = 4294967294" by (simp add: PADDING_def)
  moreover have "unat (4294967294 :: usize) = 4294967294"
    by (rule unat_numeral_span) (simp add: word_span_def)
  ultimately have h: "unat (ucast (PADDING - 1) :: usize) = 2 ^ 32 - 2" by simp
  have "unat (capacity div 2) = unat capacity div 2" by (simp add: unat_div)
  moreover have "HEADER \<le> capacity div 2"
    using assms by (simp add: word_le_nat_alt HEADER_def unat_div)
  ultimately have c: "unat (capacity div 2 - HEADER) = unat capacity div 2 - 4"
    by (simp add: unat_sub HEADER_def)
  show ?thesis
    by (simp add: max_message_len_def Let_def word_less_nat_alt c h min_def)
qed


section \<open>Bytes in memory\<close>

definition bytes_of_u32 :: "u32 \<Rightarrow> u8 list" where
  "bytes_of_u32 w = [ucast w, ucast (drop_bit 8 w), ucast (drop_bit 16 w), ucast (drop_bit 24 w)]"

definition u32_of_bytes :: "u8 list \<Rightarrow> u32" where
  "u32_of_bytes bs = ucast (bs ! 0) OR push_bit 8 (ucast (bs ! 1))
     OR push_bit 16 (ucast (bs ! 2)) OR push_bit 24 (ucast (bs ! 3))"

lemma length_bytes_of_u32 [simp]: "length (bytes_of_u32 w) = 4"
  by (simp add: bytes_of_u32_def)

lemma u32_of_bytes_of [simp]: "u32_of_bytes (bytes_of_u32 w) = w"
proof (rule bit_word_eqI)
  fix n assume "n < LENGTH(32)"
  then have "n < 8 \<or> n - 8 < 8 \<and> 8 \<le> n \<or> n - 16 < 8 \<and> 16 \<le> n \<or> n - 24 < 8 \<and> 24 \<le> n" by auto
  then show "bit (u32_of_bytes (bytes_of_u32 w)) n = bit w n"
    by (auto simp: u32_of_bytes_def bytes_of_u32_def bit_simps)
qed

text \<open>
  Contiguous raw accesses at a buffer offset; one that leaves the buffer is the
  fault \<open>OutOfBounds\<close>.
\<close>

definition read_bytes :: "nat \<Rightarrow> nat \<Rightarrow> u8 list \<Rightarrow> u8 list" where
  "read_bytes pos n buf = take n (drop pos buf)"

definition write_bytes :: "nat \<Rightarrow> u8 list \<Rightarrow> u8 list \<Rightarrow> u8 list" where
  "write_bytes pos bs buf = take pos buf @ bs @ drop (pos + length bs) buf"

definition read_header :: "nat \<Rightarrow> u8 list \<Rightarrow> fault + u32" where
  "read_header pos buf =
     (if pos + 4 \<le> length buf then Inr (u32_of_bytes (read_bytes pos 4 buf)) else Inl OutOfBounds)"

text \<open>
  \<open>decode_record\<close>: the cursor at the record header, the payload length and the
  payload offset. The \<open>debug_assert\<close> on a padding that follows a padding is the
  branch \<open>Inl Panic\<close>; a payload outside the buffer is \<open>Inl OutOfBounds\<close>.
\<close>

definition payload_at :: "u8 list \<Rightarrow> usize \<Rightarrow> nat \<Rightarrow> u32 \<Rightarrow> fault + usize \<times> usize \<times> nat" where
  "payload_at buf cur pos header =
     (if pos + 4 + unat header \<le> length buf then Inr (cur, ucast header, pos + 4)
      else Inl OutOfBounds)"

definition decode_record :: "u8 list \<Rightarrow> usize \<Rightarrow> usize \<Rightarrow> fault + usize \<times> usize \<times> nat" where
  "decode_record buf m cur =
     (let pos = cur AND m
      in case read_header (unat pos) buf of
           Inl f \<Rightarrow> Inl f
         | Inr header \<Rightarrow>
             (if header = PADDING
              then (case read_header 0 buf of
                      Inl f \<Rightarrow> Inl f
                    | Inr header' \<Rightarrow>
                        (if header' = PADDING then Inl Panic
                         else payload_at buf (cur + ((m + 1) - pos)) 0 header'))
              else payload_at buf cur (unat pos) header))"

lemma length_write_bytes:
  "pos + length bs \<le> length buf \<Longrightarrow> length (write_bytes pos bs buf) = length buf"
  by (simp add: write_bytes_def)

lemma read_write_bytes:
  "pos + length bs \<le> length buf \<Longrightarrow> read_bytes pos (length bs) (write_bytes pos bs buf) = bs"
  by (simp add: read_bytes_def write_bytes_def)

lemma nth_write_bytes:
  assumes "pos + length bs \<le> length buf" and "i < length buf"
  shows "write_bytes pos bs buf ! i
    = (if pos \<le> i \<and> i < pos + length bs then bs ! (i - pos) else buf ! i)"
  using assms by (auto simp: write_bytes_def nth_append not_less)

section \<open>The window of a byte ring\<close>

lemma drop_window: "drop k (window m buf rd n) = window m buf (rd + of_nat k) (n - k)"
  by (rule nth_equalityI) (auto simp: window_nth add.assoc)

lemma take_window: "k \<le> n \<Longrightarrow> take k (window m buf rd n) = window m buf rd k"
  by (rule nth_equalityI) (auto simp: window_nth)

lemma window_append:
  "window m buf rd (a + b) = window m buf rd a @ window m buf (rd + of_nat a) b"
  using append_take_drop_id [of a "window m buf rd (a + b)"]
  by (simp add: drop_window take_window)

lemma slot_ix_shift:
  assumes "valid_mask m" and "slot_ix m c + i < capacity_of m"
  shows "slot_ix m (c + of_nat i) = slot_ix m c + i"
proof -
  have "(unat c mod capacity_of m + i) mod capacity_of m = (unat c + i) mod capacity_of m"
    by (rule mod_add_left_eq)
  then show ?thesis
    unfolding slot_ix_add [OF assms(1)] using assms by (simp add: slot_ix_mod)
qed

lemma slot_ix_step:
  "valid_mask m \<Longrightarrow> slot_ix m (c + of_nat i) = (slot_ix m c + i) mod capacity_of m"
  unfolding slot_ix_add by (simp add: slot_ix_mod mod_add_left_eq)

lemma slot_ix_to_end:
  assumes "valid_mask m"
  shows "slot_ix m (c + of_nat (capacity_of m - slot_ix m c)) = 0"
proof -
  have "(unat c mod capacity_of m + (capacity_of m - slot_ix m c)) mod capacity_of m
      = (unat c + (capacity_of m - slot_ix m c)) mod capacity_of m"
    by (rule mod_add_left_eq)
  moreover have "unat c mod capacity_of m + (capacity_of m - slot_ix m c) = capacity_of m"
    using assms slot_ix_less [OF assms, of c] by (simp add: slot_ix_mod)
  ultimately show ?thesis unfolding slot_ix_add [OF assms] by simp
qed

text \<open>A stretch of the window that does not cross the end is contiguous in memory.\<close>

lemma window_contiguous:
  assumes "valid_mask m" and "length buf = capacity_of m" and "slot_ix m c + n \<le> capacity_of m"
  shows "window m buf c n = read_bytes (slot_ix m c) n buf"
  using assms by (intro nth_equalityI) (auto simp: window_nth read_bytes_def slot_ix_shift)

text \<open>Stores: the stretch written, and every stretch of the window disjoint from it.\<close>

definition store :: "nat \<Rightarrow> u8 list \<Rightarrow> u8 list \<Rightarrow> fault + u8 list" where
  "store pos bs buf =
     (if pos + length bs \<le> length buf then Inr (write_bytes pos bs buf) else Inl OutOfBounds)"

lemma window_write_other:
  assumes m: "valid_mask m" and len: "length buf = capacity_of m"
    and room: "n + length bs \<le> capacity_of m"
    and contig: "slot_ix m (rd + of_nat n) + length bs \<le> capacity_of m"
    and a: "a + j \<le> capacity_of m" and dis: "a + j \<le> n \<or> n + length bs \<le> a"
  shows "window m (write_bytes (slot_ix m (rd + of_nat n)) bs buf) (rd + of_nat a) j
    = window m buf (rd + of_nat a) j"
proof (rule window_cong)
  let ?pos = "slot_ix m (rd + of_nat n)"
  fix i assume i: "i < j"
  have "slot_ix m (rd + of_nat (a + i)) \<noteq> ?pos + k" if "k < length bs" for k
  proof
    assume "slot_ix m (rd + of_nat (a + i)) = ?pos + k"
    moreover have "slot_ix m (rd + of_nat (n + k)) = ?pos + k"
      using slot_ix_shift [OF m, of "rd + of_nat n" k] contig that by (simp add: add.assoc)
    ultimately have "a + i = n + k"
      using slot_ix_inject [OF m, of "a + i" "n + k" rd] room a that i by simp
    then show False using dis i that by linarith
  qed
  then have out: "\<not> (?pos \<le> slot_ix m (rd + of_nat (a + i))
      \<and> slot_ix m (rd + of_nat (a + i)) < ?pos + length bs)"
    by (metis add_less_cancel_left le_Suc_ex)
  have b: "?pos + length bs \<le> length buf" "slot_ix m (rd + of_nat (a + i)) < length buf"
    using contig len slot_ix_less [OF m] by auto
  have e: "rd + of_nat a + of_nat i = rd + of_nat (a + i)" by (simp add: add.assoc)
  show "write_bytes ?pos bs buf ! slot_ix m (rd + of_nat a + of_nat i)
      = buf ! slot_ix m (rd + of_nat a + of_nat i)"
    unfolding e nth_write_bytes [OF b] using out by (rule if_not_P)
qed

lemma store_window:
  assumes m: "valid_mask m" and len: "length buf = capacity_of m"
    and room: "n + length bs \<le> capacity_of m"
    and pos: "pos = slot_ix m (rd + of_nat n)" and contig: "pos + length bs \<le> capacity_of m"
  obtains buf' where "store pos bs buf = Inr buf'" and "length buf' = capacity_of m"
    and "window m buf' (rd + of_nat n) (length bs) = bs"
    and "\<forall>a j. a + j \<le> capacity_of m \<longrightarrow> a + j \<le> n \<or> n + length bs \<le> a \<longrightarrow>
           window m buf' (rd + of_nat a) j = window m buf (rd + of_nat a) j"
proof
  have l: "pos + length bs \<le> length buf" using contig len by simp
  then show "store pos bs buf = Inr (write_bytes pos bs buf)" by (simp add: store_def)
  show len': "length (write_bytes pos bs buf) = capacity_of m"
    using length_write_bytes [OF l] len by simp
  show "window m (write_bytes pos bs buf) (rd + of_nat n) (length bs) = bs"
    using window_contiguous [OF m len', of "rd + of_nat n" "length bs"] contig read_write_bytes [OF l]
    by (simp add: pos)
  show "\<forall>a j. a + j \<le> capacity_of m \<longrightarrow> a + j \<le> n \<or> n + length bs \<le> a \<longrightarrow>
      window m (write_bytes pos bs buf) (rd + of_nat a) j = window m buf (rd + of_nat a) j"
    using window_write_other [OF m len room] contig by (auto simp: pos)
qed

section \<open>Framed streams\<close>

text \<open>
  \<open>record_bytes x slack\<close> is the record of message \<open>x\<close>, \<open>slack\<close> its unspecified
  rounding bytes. A padding record is a header and unspecified bytes up to the
  end of the buffer, and a record follows it at offset zero.
\<close>

definition fits_header :: "u8 list \<Rightarrow> bool" where
  "fits_header x \<longleftrightarrow> length x < 2 ^ 32 - 1"

definition record_bytes :: "u8 list \<Rightarrow> u8 list \<Rightarrow> u8 list" where
  "record_bytes x slack = bytes_of_u32 (of_nat (length x)) @ x @ slack"

lemma length_record_bytes:
  "4 + length x + length slack = rlen (length x) \<Longrightarrow>
   length (record_bytes x slack) = rlen (length x)"
  by (simp add: record_bytes_def)

inductive framed :: "nat \<Rightarrow> nat \<Rightarrow> u8 list \<Rightarrow> u8 list list \<Rightarrow> bool" for cap where
  nil: "framed cap pos [] []"
| plain: "fits_header x \<Longrightarrow> 4 + length x + length slack = rlen (length x) \<Longrightarrow>
     pos + rlen (length x) \<le> cap \<Longrightarrow> framed cap ((pos + rlen (length x)) mod cap) s xs \<Longrightarrow>
     framed cap pos (record_bytes x slack @ s) (x # xs)"
| padded: "0 < pos \<Longrightarrow> 4 + length junk = cap - pos \<Longrightarrow>
     fits_header x \<Longrightarrow> 4 + length x + length slack = rlen (length x) \<Longrightarrow>
     rlen (length x) \<le> cap \<Longrightarrow> framed cap (rlen (length x) mod cap) s xs \<Longrightarrow>
     framed cap pos (bytes_of_u32 PADDING @ junk @ record_bytes x slack @ s) (x # xs)"

inductive_cases framed_NilE: "framed cap pos s []"
inductive_cases framed_ConsE [consumes 1, case_names plain padded]: "framed cap pos s (x # xs)"

function parse :: "nat \<Rightarrow> nat \<Rightarrow> u8 list \<Rightarrow> u8 list list" where
  "parse cap pos s =
     (if length s < 4 then []
      else if u32_of_bytes (take 4 s) = PADDING \<and> pos < cap then parse cap 0 (drop (cap - pos) s)
      else (let len = unat (u32_of_bytes (take 4 s))
            in take len (drop 4 s) # parse cap ((pos + rlen len) mod cap) (drop (rlen len) s)))"
  by pat_completeness auto
termination
proof (relation "measure (\<lambda>(cap, pos, s). length s)", goal_cases)
  case (3 cap pos s x)
  then show ?case using rlen_bounds(4) [of x] by simp
qed auto

declare parse.simps [simp del]

lemma fits_header_unat:
  assumes "fits_header x"
  shows "unat (of_nat (length x) :: u32) = length x" and "of_nat (length x) \<noteq> PADDING"
    and "unat (ucast (of_nat (length x) :: u32) :: usize) = length x"
proof -
  have lt: "length x < 2 ^ 32" using assms by (simp add: fits_header_def)
  then show u: "unat (of_nat (length x) :: u32) = length x"
    by (simp add: unat_of_nat)
  show "of_nat (length x) \<noteq> PADDING"
  proof
    assume "of_nat (length x) = PADDING"
    then have "length x = unat PADDING" using u by simp
    moreover have "unat PADDING = 2 ^ 32 - 1"
      by (simp add: PADDING_def unsigned_minus_1_eq_mask mask_eq_exp_minus_1)
    ultimately show False using assms by (simp add: fits_header_def)
  qed
  show "unat (ucast (of_nat (length x) :: u32) :: usize) = length x"
    using u lt take_bit_nat_eq_self [of "length x" 64] by (simp add: unsigned_ucast_eq)
qed

lemma framed_parse:
  assumes "framed cap pos s xs"
  shows "parse cap pos s = xs"
  using assms
proof induction
  case (nil pos)
  then show ?case by (simp add: parse.simps [of cap pos "[]"])
next
  case (plain x slack pos s xs)
  then show ?case
    using fits_header_unat [OF plain(1)]
    by (simp add: parse.simps [of cap pos "_ @ _"] record_bytes_def Let_def drop_append
        flip: plain(2))
next
  case (padded pos junk x slack s xs)
  have "parse cap pos (bytes_of_u32 PADDING @ junk @ record_bytes x slack @ s)
      = parse cap 0 (record_bytes x slack @ s)"
  proof -
    have "pos < cap" using padded(2) by simp
    then show ?thesis by (simp add: parse.simps [of cap pos "_ @ _"] flip: padded(2))
  qed
  also have "\<dots> = x # xs"
    using fits_header_unat [OF padded(3)] padded.IH
    by (simp add: parse.simps [of cap 0 "_ @ _"] record_bytes_def Let_def drop_append
        flip: padded(4))
  finally show ?case .
qed

lemma framed_append:
  assumes "framed cap pos s xs" and "framed cap ((pos + length s) mod cap) t ys"
    and "0 < cap" and "pos < cap"
  shows "framed cap pos (s @ t) (xs @ ys)"
  using assms
proof (induction arbitrary: t ys)
  case (nil pos)
  then show ?case by simp
next
  case (plain x slack pos s xs)
  have "framed cap ((pos + rlen (length x)) mod cap) (s @ t) (xs @ ys)"
    using plain.IH [of t ys] plain.prems
    by (simp add: length_record_bytes [OF plain(2)] mod_add_left_eq add.assoc)
  then show ?case using framed.plain [OF plain(1,2,3)] by simp
next
  case (padded pos junk x slack s xs)
  have "pos + length (bytes_of_u32 PADDING @ junk @ record_bytes x slack @ s)
      = cap + (rlen (length x) + length s)"
    using padded(2) padded.prems by (simp add: length_record_bytes [OF padded(4)])
  then have "(pos + length (bytes_of_u32 PADDING @ junk @ record_bytes x slack @ s)) mod cap
      = (rlen (length x) mod cap + length s) mod cap"
    by (simp only: mod_add_self1 mod_add_left_eq)
  then have "framed cap (rlen (length x) mod cap) (s @ t) (xs @ ys)"
    using padded.IH [of t ys] padded.prems by simp
  then show ?case using framed.padded [OF padded(1-5)] by simp
qed

lemma framed_empty_iff: "framed cap pos s xs \<Longrightarrow> s = [] \<longleftrightarrow> xs = []"
  by (induction rule: framed.induct) (auto simp: record_bytes_def bytes_of_u32_def)


section \<open>Decoding a framed window\<close>

lemma ucast_length: "fits_header x \<Longrightarrow> (ucast (of_nat (length x) :: u32) :: usize) = of_nat (length x)"
proof -
  assume "fits_header x"
  from fits_header_unat(3) [OF this] show ?thesis
    by (metis (mono_tags) of_nat_unat ucast_id)
qed

lemma record_at:
  assumes m: "valid_mask m" and len: "length buf = capacity_of m" and fits: "fits_header x"
    and slack: "4 + length x + length slack = rlen (length x)"
    and room: "slot_ix m c + rlen (length x) \<le> capacity_of m"
    and win: "window m buf c (rlen (length x)) = record_bytes x slack"
  shows "read_header (slot_ix m c) buf = Inr (of_nat (length x))"
    and "payload_at buf c (slot_ix m c) (of_nat (length x))
           = Inr (c, of_nat (length x), slot_ix m c + 4)"
    and "read_bytes (slot_ix m c + 4) (length x) buf = x"
proof -
  let ?p = "slot_ix m c"
  have raw: "take (rlen (length x)) (drop ?p buf) = record_bytes x slack"
    using window_contiguous [OF m len room] win by (simp add: read_bytes_def)
  have b: "?p + 4 + length x \<le> length buf" using room slack len by simp
  have "take 4 (take (rlen (length x)) (drop ?p buf)) = bytes_of_u32 (of_nat (length x))"
    unfolding raw by (simp add: record_bytes_def)
  then have "take 4 (drop ?p buf) = bytes_of_u32 (of_nat (length x))"
    using rlen_bounds(4) [of "length x"] by (simp add: min_def)
  then show "read_header ?p buf = Inr (of_nat (length x))"
    using b by (simp add: read_header_def read_bytes_def)
  show "payload_at buf c ?p (of_nat (length x)) = Inr (c, of_nat (length x), ?p + 4)"
    using b fits_header_unat [OF fits] by (simp add: payload_at_def ucast_length [OF fits])
  have "take (length x) (drop 4 (take (rlen (length x)) (drop ?p buf))) = x"
    unfolding raw by (simp add: record_bytes_def)
  then show "read_bytes (?p + 4) (length x) buf = x"
    using slack by (simp add: read_bytes_def drop_take add.commute flip: slack)
qed

lemma framed_decode:
  assumes m: "valid_mask m" and len: "length buf = capacity_of m" and n: "n \<le> capacity_of m"
    and fr: "framed (capacity_of m) (slot_ix m c) (window m buf c n) (x # xs)"
  obtains d where "decode_record buf m c = Inr (c + of_nat d, of_nat (length x),
        slot_ix m (c + of_nat d) + 4)"
    and "d + rlen (length x) \<le> n" and "fits_header x"
    and "read_bytes (slot_ix m (c + of_nat d) + 4) (length x) buf = x"
    and "slot_ix m (c + of_nat d) + rlen (length x) \<le> capacity_of m"
    and "framed (capacity_of m) (slot_ix m (c + of_nat d)) (window m buf (c + of_nat d) (n - d)) (x # xs)"
    and "framed (capacity_of m) (slot_ix m (c + of_nat (d + rlen (length x))))
           (window m buf (c + of_nat (d + rlen (length x))) (n - (d + rlen (length x)))) xs"
    and "d = 0 \<or> 0 < slot_ix m c \<and> d = capacity_of m - slot_ix m c"
  using fr
proof (cases rule: framed_ConsE)
  case (plain slack s)
  let ?r = "rlen (length x)"
  have l: "length (record_bytes x slack) = ?r" by (rule length_record_bytes [OF plain(3)])
  have rn: "?r \<le> n" using arg_cong [OF plain(1), of length] l by simp
  have win: "window m buf c ?r = record_bytes x slack"
    using arg_cong [OF plain(1), of "take ?r"] l by (simp add: take_window [OF rn])
  note R = record_at [OF m len plain(2,3,4) win]
  have "decode_record buf m c = Inr (c, of_nat (length x), slot_ix m c + 4)"
    using R(1,2) fits_header_unat(2) [OF plain(2)]
    by (simp add: decode_record_def Let_def flip: slot_ix_def)
  moreover have "s = window m buf (c + of_nat ?r) (n - ?r)"
    using arg_cong [OF plain(1), of "drop ?r"] l by (simp add: drop_window)
  moreover have "slot_ix m (c + of_nat ?r) = (slot_ix m c + ?r) mod capacity_of m"
    by (rule slot_ix_step [OF m])
  ultimately show ?thesis
    using that [of 0] R(3) rn plain fr by simp
next
  case (padded junk slack s)
  let ?r = "rlen (length x)" and ?d = "capacity_of m - slot_ix m c"
  have l: "length (record_bytes x slack) = ?r" by (rule length_record_bytes [OF padded(5)])
  have n_eq: "n = ?d + ?r + length s" using arg_cong [OF padded(1), of length] l padded(3) by simp
  have z: "slot_ix m (c + of_nat ?d) = 0" by (rule slot_ix_to_end [OF m])
  have w1: "window m buf c 4 = bytes_of_u32 PADDING"
    using arg_cong [OF padded(1), of "take 4"] padded(3) n_eq by (simp add: take_window)
  have rest: "window m buf (c + of_nat ?d) (n - ?d) = record_bytes x slack @ s"
    using arg_cong [OF padded(1), of "drop ?d"] by (simp add: drop_window flip: padded(3))
  have w2: "window m buf (c + of_nat ?d) ?r = record_bytes x slack"
    using arg_cong [OF rest, of "take ?r"] l n_eq by (simp add: take_window)
  have hd: "read_header (slot_ix m c) buf = Inr PADDING"
  proof -
    have e: "slot_ix m c + 4 \<le> capacity_of m" using padded(3) by simp
    have "read_bytes (slot_ix m c) 4 buf = bytes_of_u32 PADDING"
      using window_contiguous [OF m len e] w1 by simp
    then show ?thesis using e len by (simp add: read_header_def)
  qed
  note R = record_at [OF m len padded(4,5) _ w2, unfolded z]
  have r: "?r \<le> capacity_of m" using padded(6) .
  have "(m + 1) - (c AND m) = of_nat ?d"
    using slot_ix_less [OF m, of c] by (simp add: capacity_of_def slot_ix_def of_nat_diff)
  then have dec: "decode_record buf m c = Inr (c + of_nat ?d, of_nat (length x), 4)"
    using hd R(1,2) r fits_header_unat(2) [OF padded(4)]
    by (simp add: decode_record_def Let_def payload_at_def flip: slot_ix_def)
  have s: "s = window m buf (c + of_nat (?d + ?r)) (n - (?d + ?r))"
    using arg_cong [OF rest, of "drop ?r"] l by (simp add: drop_window add.assoc)
  have sl: "slot_ix m (c + of_nat (?d + ?r)) = ?r mod capacity_of m"
  proof -
    have "slot_ix m ((c + of_nat ?d) + of_nat ?r) = (slot_ix m (c + of_nat ?d) + ?r) mod capacity_of m"
      by (rule slot_ix_step [OF m])
    then show ?thesis by (simp add: z add.assoc)
  qed
  have "framed (capacity_of m) 0 (record_bytes x slack @ s) (x # xs)"
    by (rule framed.plain) (use padded(4-7) in simp_all)
  then have whole: "framed (capacity_of m) (slot_ix m (c + of_nat ?d))
      (window m buf (c + of_nat ?d) (n - ?d)) (x # xs)"
    unfolding z rest .
  have after: "framed (capacity_of m) (slot_ix m (c + of_nat (?d + ?r)))
      (window m buf (c + of_nat (?d + ?r)) (n - (?d + ?r))) xs"
    unfolding sl s [symmetric] by (rule padded(7))
  show ?thesis
  proof (rule that [of ?d])
    show "decode_record buf m c
        = Inr (c + of_nat ?d, of_nat (length x), slot_ix m (c + of_nat ?d) + 4)"
      unfolding z dec by simp
    show "read_bytes (slot_ix m (c + of_nat ?d) + 4) (length x) buf = x"
      unfolding z using R(3) r by simp
    show "slot_ix m (c + of_nat ?d) + ?r \<le> capacity_of m"
      unfolding z using r by simp
    show "?d + ?r \<le> n" using n_eq by simp
  qed (fact padded(4) whole after | simp add: padded(2))+
qed


section \<open>Alignment\<close>

lemma capacity_dvd_8:
  assumes "valid_mask m" and "8 \<le> capacity_of m"
  shows "8 dvd capacity_of m"
proof -
  obtain k where k: "k < 64" "capacity_of m = 2 ^ k" using assms(1) by (rule valid_maskE)
  have "3 \<le> k"
  proof (rule ccontr)
    assume "\<not> 3 \<le> k"
    then have "(2::nat) ^ k \<le> 2 ^ 2" by (intro power_increasing) auto
    then show False using assms(2) k(2) by simp
  qed
  then have "(2::nat) ^ 3 dvd 2 ^ k" by (rule le_imp_power_dvd)
  then show ?thesis using k(2) by simp
qed

lemma framed_length_aligned:
  "framed cap pos s xs \<Longrightarrow> 4 dvd cap \<Longrightarrow> 4 dvd pos \<Longrightarrow> 4 dvd length s"
proof (induction rule: framed.induct)
  case (plain x slack pos s xs)
  have r: "4 dvd rlen (length x)" using rlen_bounds(3) by (simp add: mod_eq_0_iff_dvd)
  then have "4 dvd length s" using plain by (simp add: dvd_mod)
  then show ?case using r by (simp add: length_record_bytes [OF plain(2)])
next
  case (padded pos junk x slack s xs)
  have r: "4 dvd rlen (length x)" using rlen_bounds(3) by (simp add: mod_eq_0_iff_dvd)
  then have "4 dvd length s" using padded by (simp add: dvd_mod)
  moreover have "4 dvd 4 + length junk" unfolding padded(2) using padded.prems by (rule dvd_diff_nat)
  ultimately show ?case using r by (simp add: length_record_bytes [OF padded(4)])
qed simp

lemma window_part:
  assumes "window m buf' rd n = window m buf rd n" and "a + j \<le> n"
  shows "window m buf' (rd + of_nat a) j = window m buf (rd + of_nat a) j"
proof -
  have "take j (drop a (window m buf' rd n)) = take j (drop a (window m buf rd n))"
    using assms(1) by simp
  then show ?thesis using assms(2) by (simp add: drop_window take_window)
qed

end
