(* ===== verification/Spsc_Bytes.thy ===== *)
theory Spsc_Bytes
  imports Cursor Framing Fifo_Interface
begin

text \<open>
  The variable-size SPSC byte ring (\<open>src/src/spsc_bytes.rs\<close>): the cursor engine
  at byte granularity with the frame format of \<open>Framing\<close>. The word buffer is the
  list of its bytes. A message whose length exceeds the limit is the panic of
  \<open>frame\<close>; an access outside the buffer is the fault \<open>OutOfBounds\<close>, which no
  reachable state produces.
\<close>

section \<open>Operations\<close>

definition MAX_PUBLISH_BATCH_BYTES :: usize where
  "MAX_PUBLISH_BATCH_BYTES = 4096"

record bytes_ring =
  bg_sh :: "u8 shared"
  bg_p :: producer_core
  bg_c :: consumer_core

definition bytes_new :: "usize \<Rightarrow> fault + bytes_ring" where
  "bytes_new min_capacity =
     (case round_capacity min_capacity MIN_CAPACITY of
        Inl f \<Rightarrow> Inl f
      | Inr capacity \<Rightarrow>
          (case channel capacity (8 * unat (capacity div 8)) (\<lambda>_. 0) of
             (sh, p, c) \<Rightarrow> Inr \<lparr>bg_sh = sh, bg_p = p, bg_c = c\<rparr>))"

subsection \<open>The producer\<close>

definition frame :: "usize \<Rightarrow> producer_core \<Rightarrow> fault + usize \<times> usize" where
  "frame len p =
     (let capacity = p_capacity p
      in if len \<le> max_message_len capacity
         then (let record = record_len len;
                   to_end = capacity - (p_write_cursor p AND p_mask p)
               in Inr (if record \<le> to_end then (0, record) else (to_end, to_end + record)))
         else Inl Panic)"

definition write_frame ::
  "usize \<Rightarrow> usize \<Rightarrow> u8 list option \<Rightarrow> u8 shared \<Rightarrow> producer_core
     \<Rightarrow> fault + u8 shared \<times> producer_core" where
  "write_frame pad len src sh p =
     (let m = p_mask p; cur0 = p_write_cursor p
      in case (if pad > 0 then store (slot_ix m cur0) (bytes_of_u32 PADDING) (buffer sh)
               else Inr (buffer sh)) of
           Inl f \<Rightarrow> Inl f
         | Inr buf1 \<Rightarrow>
             (let cur = (if pad > 0 then cur0 + pad else cur0);
                  pos = slot_ix m cur
              in case store pos (bytes_of_u32 (ucast len)) buf1 of
                   Inl f \<Rightarrow> Inl f
                 | Inr buf2 \<Rightarrow>
                     (case (case src of None \<Rightarrow> Inr buf2 | Some bs \<Rightarrow> store (pos + 4) bs buf2) of
                        Inl f \<Rightarrow> Inl f
                      | Inr buf3 \<Rightarrow> Inr (publish (pad + record_len len) (sh\<lparr>buffer := buf3\<rparr>) p))))"

definition bytes_push ::
  "(u8 shared \<Rightarrow> u8 shared) list \<Rightarrow> u8 list \<Rightarrow> u8 shared \<Rightarrow> producer_core
     \<Rightarrow> (fault + u8 shared \<times> producer_core) option" where
  "bytes_push env msg sh p =
     (case frame (of_nat (length msg)) p of
        Inl f \<Rightarrow> Some (Inl f)
      | Inr (pad, need) \<Rightarrow>
          (case wait_for_space need env sh p of
             None \<Rightarrow> None
           | Some (sh', p', env') \<Rightarrow>
               Some (write_frame pad (of_nat (length msg)) (Some msg) sh' p')))"

definition bytes_try_push ::
  "u8 list \<Rightarrow> u8 shared \<Rightarrow> producer_core \<Rightarrow> fault + bool \<times> u8 shared \<times> producer_core" where
  "bytes_try_push msg sh p =
     (case frame (of_nat (length msg)) p of
        Inl f \<Rightarrow> Inl f
      | Inr (pad, need) \<Rightarrow>
          (case has_space need sh p of
             (False, sh', p') \<Rightarrow> Inr (False, sh', p')
           | (True, sh', p') \<Rightarrow>
               (case write_frame pad (of_nat (length msg)) (Some msg) sh' p' of
                  Inl f \<Rightarrow> Inl f
                | Inr (sh'', p'') \<Rightarrow> Inr (True, sh'', p''))))"

text \<open>A claimed slot caches the payload position, the padding and the length.\<close>

record write_slot =
  ws_payload :: nat
  ws_pad :: usize
  ws_len :: usize

definition payload_ptr :: "usize \<Rightarrow> producer_core \<Rightarrow> nat" where
  "payload_ptr pad p = slot_ix (p_mask p) (p_write_cursor p + pad) + 4"

definition bytes_claim ::
  "(u8 shared \<Rightarrow> u8 shared) list \<Rightarrow> usize \<Rightarrow> u8 shared \<Rightarrow> producer_core
     \<Rightarrow> (fault + write_slot \<times> u8 shared \<times> producer_core) option" where
  "bytes_claim env len sh p =
     (case frame len p of
        Inl f \<Rightarrow> Some (Inl f)
      | Inr (pad, need) \<Rightarrow>
          (case wait_for_space need env sh p of
             None \<Rightarrow> None
           | Some (sh', p', env') \<Rightarrow>
               Some (Inr (\<lparr>ws_payload = payload_ptr pad p', ws_pad = pad, ws_len = len\<rparr>, sh', p'))))"

definition bytes_try_claim ::
  "usize \<Rightarrow> u8 shared \<Rightarrow> producer_core
     \<Rightarrow> fault + write_slot option \<times> u8 shared \<times> producer_core" where
  "bytes_try_claim len sh p =
     (case frame len p of
        Inl f \<Rightarrow> Inl f
      | Inr (pad, need) \<Rightarrow>
          (case has_space need sh p of
             (False, sh', p') \<Rightarrow> Inr (None, sh', p')
           | (True, sh', p') \<Rightarrow>
               Inr (Some \<lparr>ws_payload = payload_ptr pad p', ws_pad = pad, ws_len = len\<rparr>, sh', p')))"

definition slot_deref :: "write_slot \<Rightarrow> u8 shared \<Rightarrow> u8 list" where
  "slot_deref ws sh = read_bytes (ws_payload ws) (unat (ws_len ws)) (buffer sh)"

text \<open>Serialising through \<open>deref_mut\<close>: the payload slice is overwritten by \<open>f\<close> of it.\<close>

definition slot_deref_mut ::
  "(u8 list \<Rightarrow> u8 list) \<Rightarrow> write_slot \<Rightarrow> u8 shared \<Rightarrow> fault + u8 shared" where
  "slot_deref_mut f ws sh =
     (case store (ws_payload ws) (f (slot_deref ws sh)) (buffer sh) of
        Inl e \<Rightarrow> Inl e | Inr b \<Rightarrow> Inr (sh\<lparr>buffer := b\<rparr>))"

definition bytes_commit ::
  "write_slot \<Rightarrow> u8 shared \<Rightarrow> producer_core \<Rightarrow> fault + u8 shared \<times> producer_core" where
  "bytes_commit ws sh p = write_frame (ws_pad ws) (ws_len ws) None sh p"

definition bytes_producer_is_empty :: "u8 shared \<Rightarrow> producer_core \<Rightarrow> bool" where
  "bytes_producer_is_empty sh p \<longleftrightarrow> occupancy sh p = 0"

definition bytes_max_message_len :: "producer_core \<Rightarrow> usize" where
  "bytes_max_message_len p = max_message_len (p_capacity p)"

subsection \<open>The consumer\<close>

record msg_guard =
  msg_payload :: nat
  msg_len :: usize

definition next_msg :: "u8 shared \<Rightarrow> consumer_core \<Rightarrow> fault + msg_guard \<times> consumer_core" where
  "next_msg sh c =
     (case decode_record (buffer sh) (c_mask c) (c_read_cursor c) of
        Inl f \<Rightarrow> Inl f
      | Inr (cur, len, payload) \<Rightarrow>
          Inr (\<lparr>msg_payload = payload, msg_len = len\<rparr>, c\<lparr>c_read_cursor := cur\<rparr>))"

definition bytes_pop ::
  "(u8 shared \<Rightarrow> u8 shared) list \<Rightarrow> u8 shared \<Rightarrow> consumer_core
     \<Rightarrow> (fault + msg_guard \<times> consumer_core \<times> u8 shared) option" where
  "bytes_pop env sh c =
     (case wait_for_item env sh c of
        None \<Rightarrow> None
      | Some (sh', c', env') \<Rightarrow>
          Some (case next_msg sh' c' of Inl f \<Rightarrow> Inl f | Inr (g, c'') \<Rightarrow> Inr (g, c'', sh')))"

definition bytes_try_pop ::
  "u8 shared \<Rightarrow> consumer_core \<Rightarrow> fault + msg_guard option \<times> consumer_core" where
  "bytes_try_pop sh c =
     (case has_item sh c of
        (False, c') \<Rightarrow> Inr (None, c')
      | (True, c') \<Rightarrow>
          (case next_msg sh c' of Inl f \<Rightarrow> Inl f | Inr (g, c'') \<Rightarrow> Inr (Some g, c'')))"

definition msg_deref :: "msg_guard \<Rightarrow> u8 shared \<Rightarrow> u8 list" where
  "msg_deref g sh = read_bytes (msg_payload g) (unat (msg_len g)) (buffer sh)"

definition msg_drop :: "msg_guard \<Rightarrow> u8 shared \<Rightarrow> consumer_core \<Rightarrow> u8 shared \<times> consumer_core" where
  "msg_drop g sh c =
     (let capacity = c_capacity c; starving = producer_starving sh
      in advance (record_len (msg_len g)) (publish_batch capacity MAX_PUBLISH_BATCH_BYTES)
           starving sh c)"

text \<open>
  The loop of \<open>drain\<close>: the payloads handed to the callback and the read cursor.
  \<open>unwinds n\<close> says that the callback panics on its \<open>n\<close>th call; the cursor has
  moved past the record by then. \<open>None\<close> is "out of fuel".
\<close>

fun drain_loop ::
  "nat \<Rightarrow> (nat \<Rightarrow> bool) \<Rightarrow> nat \<Rightarrow> u8 list \<Rightarrow> usize \<Rightarrow> usize \<Rightarrow> usize
     \<Rightarrow> (fault + u8 list list \<times> usize) option" where
  "drain_loop fuel unwinds count buf m end_cur rd =
     (if end_cur - rd = 0 then Some (Inr ([], rd))
      else (case fuel of
              0 \<Rightarrow> None
            | Suc k \<Rightarrow>
                (case decode_record buf m rd of
                   Inl f \<Rightarrow> Some (Inl f)
                 | Inr (cur, len, payload) \<Rightarrow>
                     (let rd' = cur + record_len len;
                          x = read_bytes payload (unat len) buf
                      in if unwinds count then Some (Inr ([x], rd'))
                         else (case drain_loop k unwinds (Suc count) buf m end_cur rd' of
                                 Some (Inr (xs, rd'')) \<Rightarrow> Some (Inr (x # xs, rd''))
                               | other \<Rightarrow> other)))))"

declare drain_loop.simps [simp del]

definition bytes_drain ::
  "nat \<Rightarrow> (nat \<Rightarrow> bool) \<Rightarrow> u8 shared \<Rightarrow> consumer_core
     \<Rightarrow> (fault + u8 list list \<times> u8 shared \<times> consumer_core) option" where
  "bytes_drain fuel unwinds sh c =
     (case refresh sh c of
        (end_cur, c1) \<Rightarrow>
          (if end_cur - c_read_cursor c1 = 0 then Some (Inr ([], sh, c1))
           else (case drain_loop fuel unwinds 0 (buffer sh) (c_mask c1) end_cur (c_read_cursor c1) of
                   None \<Rightarrow> None
                 | Some (Inl f) \<Rightarrow> Some (Inl f)
                 | Some (Inr (xs, rd)) \<Rightarrow>
                     (case flush_pending sh (c1\<lparr>c_read_cursor := rd\<rparr>) of
                        (sh', c') \<Rightarrow> Some (Inr (xs, sh', c'))))))"

definition bytes_consumer_is_empty :: "u8 shared \<Rightarrow> consumer_core \<Rightarrow> bool" where
  "bytes_consumer_is_empty sh c \<longleftrightarrow> available sh c = 0"

subsection \<open>The operations on a whole ring\<close>

definition bytes_enq :: "u8 list \<Rightarrow> bytes_ring \<Rightarrow> bool \<times> bytes_ring" where
  "bytes_enq v r =
     (case bytes_try_push v (bg_sh r) (bg_p r) of
        Inl f \<Rightarrow> (False, r)
      | Inr (b, sh, p) \<Rightarrow> (b, r\<lparr>bg_sh := sh, bg_p := p\<rparr>))"

text \<open>\<open>try_pop\<close>, the payload read through the guard, and the guard's drop.\<close>

definition bytes_deq :: "bytes_ring \<Rightarrow> u8 list option \<times> bytes_ring" where
  "bytes_deq r =
     (case bytes_try_pop (bg_sh r) (bg_c r) of
        Inl f \<Rightarrow> (None, r)
      | Inr (None, c) \<Rightarrow> (None, r\<lparr>bg_c := c\<rparr>)
      | Inr (Some g, c) \<Rightarrow>
          (case msg_drop g (bg_sh r) c of
             (sh', c') \<Rightarrow> (Some (msg_deref g (bg_sh r)), r\<lparr>bg_sh := sh', bg_c := c'\<rparr>)))"

section \<open>Invariant and abstraction\<close>

text \<open>
  The stream between the read cursor and the write cursor is framed in two
  pieces: up to the write cursor the consumer last saw, and from there on.
\<close>

definition bytes_seen :: "bytes_ring \<Rightarrow> u8 list list" where
  "bytes_seen r =
     (let m = sh_mask (bg_sh r); rd = c_read_cursor (bg_c r); wc = c_write_cursor_cache (bg_c r)
      in parse (capacity_of m) (slot_ix m rd) (window m (buffer (bg_sh r)) rd (cdist rd wc)))"

definition bytes_unseen :: "bytes_ring \<Rightarrow> u8 list list" where
  "bytes_unseen r =
     (let m = sh_mask (bg_sh r); wc = c_write_cursor_cache (bg_c r)
      in parse (capacity_of m) (slot_ix m wc)
           (window m (buffer (bg_sh r)) wc (cdist wc (sh_write_cursor (bg_sh r)))))"

definition bytes_contents :: "bytes_ring \<Rightarrow> u8 list list" where
  "bytes_contents r = bytes_seen r @ bytes_unseen r"

definition bytes_frames_ok :: "u8 shared \<Rightarrow> consumer_core \<Rightarrow> u8 list list \<Rightarrow> u8 list list \<Rightarrow> bool" where
  "bytes_frames_ok sh c xs ys \<longleftrightarrow>
     (let m = sh_mask sh; rd = c_read_cursor c; wc = c_write_cursor_cache c
      in length (buffer sh) = capacity_of m \<and> 8 \<le> capacity_of m \<and> slot_ix m rd mod 4 = 0
         \<and> framed (capacity_of m) (slot_ix m rd) (window m (buffer sh) rd (cdist rd wc)) xs
         \<and> framed (capacity_of m) (slot_ix m wc)
             (window m (buffer sh) wc (cdist wc (sh_write_cursor sh))) ys)"

definition bytes_ok :: "bytes_ring \<Rightarrow> bool" where
  "bytes_ok r \<longleftrightarrow>
     cursors_ok (bg_sh r) (bg_p r) (bg_c r)
     \<and> bytes_frames_ok (bg_sh r) (bg_c r) (bytes_seen r) (bytes_unseen r)
     \<and> (c_read_cursor (bg_c r) = c_write_cursor_cache (bg_c r) \<longrightarrow> deferred (bg_sh r) (bg_c r) = 0)"

definition bytes_capacity :: "bytes_ring \<Rightarrow> nat" where
  "bytes_capacity r = capacity_of (sh_mask (bg_sh r))"

definition bytes_legal :: "bytes_ring \<Rightarrow> u8 list \<Rightarrow> bool" where
  "bytes_legal r x \<longleftrightarrow> length x \<le> unat (max_message_len (sh_mask (bg_sh r) + 1))"


section \<open>Writing a record\<close>

lemma framed_one:
  assumes m: "valid_mask m" and fits: "fits_header x"
    and pad: "P = 0 \<or> 0 < slot_ix m w \<and> P = capacity_of m - slot_ix m w \<and> 4 \<le> P"
    and padhd: "P > 0 \<Longrightarrow> window m buf w 4 = bytes_of_u32 PADDING"
    and room: "slot_ix m (w + of_nat P) + rlen (length x) \<le> capacity_of m"
    and hd: "window m buf (w + of_nat P) 4 = bytes_of_u32 (of_nat (length x))"
    and pl: "window m buf (w + of_nat (P + 4)) (length x) = x"
  shows "framed (capacity_of m) (slot_ix m w) (window m buf w (P + rlen (length x))) [x]"
proof -
  define slack where "slack = window m buf (w + of_nat (P + 4 + length x)) (rlen (length x) - 4 - length x)"
  have l: "4 + length x + length slack = rlen (length x)"
    using rlen_bounds(1) [of "length x"] by (simp add: slack_def)
  have l': "4 + (length x + length slack) = rlen (length x)" using l by simp
  have "window m buf (w + of_nat P) (4 + (length x + length slack)) = record_bytes x slack"
    using hd pl unfolding window_append by (simp add: record_bytes_def slack_def add.assoc)
  then have rec: "window m buf (w + of_nat P) (rlen (length x)) = record_bytes x slack"
    unfolding l' .
  have tail: "framed (capacity_of m) q [] []" for q by (rule framed.nil)
  show ?thesis
  proof (cases "P = 0")
    case True
    then show ?thesis
      using framed.plain [OF fits l _ tail, of "slot_ix m w"] rec room by simp
  next
    case False
    define junk where "junk = window m buf (w + of_nat 4) (P - 4)"
    have P: "4 \<le> P" "0 < slot_ix m w" "P = capacity_of m - slot_ix m w"
      using pad False by auto
    have j: "4 + length junk = capacity_of m - slot_ix m w"
      using P(1) unfolding P(3) [symmetric] by (simp add: junk_def)
    have e: "4 + (P - 4) = P" using P(1) by simp
    have padwin: "window m buf w P = bytes_of_u32 PADDING @ junk"
      using padhd False window_append [of m buf w 4 "P - 4", unfolded e] by (simp add: junk_def)
    have z: "slot_ix m (w + of_nat P) = 0" unfolding P(3) by (rule slot_ix_to_end [OF m])
    have r: "rlen (length x) \<le> capacity_of m" using room z by simp
    have "window m buf w (P + rlen (length x))
        = bytes_of_u32 PADDING @ junk @ record_bytes x slack @ []"
      unfolding window_append padwin rec by simp
    then show ?thesis using framed.padded [OF P(2) j fits l r tail] by (simp only:)
  qed
qed

lemma write_frame_ok:
  assumes m: "valid_mask m" and pm: "p_mask p = m" and len: "length (buffer sh) = capacity_of m"
    and w: "p_write_cursor p = rd + of_nat n" and fits: "fits_header x"
    and pad: "unat pad = 0 \<or> 0 < slot_ix m (p_write_cursor p)
        \<and> unat pad = capacity_of m - slot_ix m (p_write_cursor p) \<and> 4 \<le> unat pad"
    and fit: "n + unat pad + rlen (length x) \<le> capacity_of m"
    and room: "slot_ix m (p_write_cursor p + pad) + rlen (length x) \<le> capacity_of m"
    and src: "src = Some x \<or> src = None
        \<and> read_bytes (slot_ix m (p_write_cursor p + pad) + 4) (length x) (buffer sh) = x"
  obtains buf' where
    "write_frame pad (of_nat (length x)) src sh p
       = Inr (publish (pad + record_len (of_nat (length x))) (sh\<lparr>buffer := buf'\<rparr>) p)"
    and "length buf' = capacity_of m"
    and "window m buf' rd n = window m (buffer sh) rd n"
    and "framed (capacity_of m) (slot_ix m (p_write_cursor p))
           (window m buf' (p_write_cursor p) (unat pad + rlen (length x))) [x]"
proof -
  let ?P = "unat pad" and ?cap = "capacity_of m"
  have c2: "p_write_cursor p + pad = rd + of_nat (n + ?P)" by (simp add: w add.assoc)
  have r4: "4 + length x \<le> rlen (length x)" using rlen_bounds(1) [of "length x"] by simp
  have hlen: "ucast (of_nat (length x) :: usize) = (of_nat (length x) :: u32)"
    using fits take_bit_nat_eq_self [of "length x" 64]
    by (simp add: unsigned_of_nat fits_header_def)
  obtain buf1 where b1: "(if pad > 0 then store (slot_ix m (p_write_cursor p)) (bytes_of_u32 PADDING)
      (buffer sh) else Inr (buffer sh)) = Inr buf1" "length buf1 = ?cap"
    "?P > 0 \<Longrightarrow> window m buf1 (p_write_cursor p) 4 = bytes_of_u32 PADDING"
    "\<forall>a j. a + j \<le> ?cap \<longrightarrow> a + j \<le> n \<or> n + ?P \<le> a \<longrightarrow>
       window m buf1 (rd + of_nat a) j = window m (buffer sh) (rd + of_nat a) j"
  proof (cases "pad = 0")
    case True
    then show ?thesis using that [of "buffer sh"] len by simp
  next
    case False
    then have P: "0 < ?P" "4 \<le> ?P" "?P = ?cap - slot_ix m (p_write_cursor p)"
      using pad by (auto simp: unat_eq_0)
    have 1: "n + length (bytes_of_u32 PADDING) \<le> ?cap"
      and 2: "slot_ix m (p_write_cursor p) + length (bytes_of_u32 PADDING) \<le> ?cap"
      using P fit by auto
    obtain buf1 where b: "store (slot_ix m (p_write_cursor p)) (bytes_of_u32 PADDING) (buffer sh)
        = Inr buf1" "length buf1 = ?cap"
      "window m buf1 (rd + of_nat n) (length (bytes_of_u32 PADDING)) = bytes_of_u32 PADDING"
      "\<forall>a j. a + j \<le> ?cap \<longrightarrow> a + j \<le> n \<or> n + length (bytes_of_u32 PADDING) \<le> a \<longrightarrow>
         window m buf1 (rd + of_nat a) j = window m (buffer sh) (rd + of_nat a) j"
      by (rule store_window [OF m len 1 arg_cong [OF w] 2])
    show ?thesis
    proof (rule that [OF _ b(2)])
      show "(if pad > 0 then store (slot_ix m (p_write_cursor p)) (bytes_of_u32 PADDING) (buffer sh)
          else Inr (buffer sh)) = Inr buf1"
        using b(1) False by (simp add: word_neq_0_conv)
      show "window m buf1 (p_write_cursor p) 4 = bytes_of_u32 PADDING"
        using b(3) by (simp add: w)
      show "\<forall>a j. a + j \<le> ?cap \<longrightarrow> a + j \<le> n \<or> n + ?P \<le> a \<longrightarrow>
          window m buf1 (rd + of_nat a) j = window m (buffer sh) (rd + of_nat a) j"
        using b(4) P(2) by fastforce
    qed
  qed
  have 1: "n + ?P + length (bytes_of_u32 (of_nat (length x))) \<le> ?cap"
    and 2: "slot_ix m (p_write_cursor p + pad) + length (bytes_of_u32 (of_nat (length x))) \<le> ?cap"
    using fit room r4 by auto
  obtain buf2 where b2: "store (slot_ix m (p_write_cursor p + pad))
      (bytes_of_u32 (of_nat (length x))) buf1 = Inr buf2" "length buf2 = ?cap"
    "window m buf2 (rd + of_nat (n + ?P)) 4 = bytes_of_u32 (of_nat (length x))"
    "\<forall>a j. a + j \<le> ?cap \<longrightarrow> a + j \<le> n + ?P \<or> n + ?P + 4 \<le> a \<longrightarrow>
       window m buf2 (rd + of_nat a) j = window m buf1 (rd + of_nat a) j"
    by (rule store_window [OF m b1(2) 1 arg_cong [OF c2] 2]) simp
  have payload: "\<exists>buf3. (case src of None \<Rightarrow> Inr buf2
        | Some bs \<Rightarrow> store (slot_ix m (p_write_cursor p + pad) + 4) bs buf2) = Inr buf3
      \<and> length buf3 = ?cap \<and> window m buf3 (rd + of_nat (n + ?P + 4)) (length x) = x
      \<and> (\<forall>a j. a + j \<le> n + ?P + 4 \<longrightarrow>
           window m buf3 (rd + of_nat a) j = window m buf2 (rd + of_nat a) j)"
  proof (cases "x = []")
    case True
    then show ?thesis
      using src room r4 b2(2) by (auto simp: store_def write_bytes_def)
  next
    case False
    then have lt: "slot_ix m (p_write_cursor p + pad) + 4 < ?cap"
      using room r4 by (cases x) auto
    have at: "slot_ix m (p_write_cursor p + pad) + 4 = slot_ix m (rd + of_nat (n + ?P + 4))"
      using slot_ix_shift [OF m, of "p_write_cursor p + pad" 4] lt by (simp add: c2 add.assoc)
    have 1: "n + ?P + 4 + length x \<le> ?cap"
      and 2: "slot_ix m (p_write_cursor p + pad) + 4 + length x \<le> ?cap"
      using fit room r4 by auto
    from src show ?thesis
    proof (elim disjE conjE)
      assume some: "src = Some x"
      obtain buf3 where b: "store (slot_ix m (p_write_cursor p + pad) + 4) x buf2 = Inr buf3"
        "length buf3 = ?cap" "window m buf3 (rd + of_nat (n + ?P + 4)) (length x) = x"
        "\<forall>a j. a + j \<le> ?cap \<longrightarrow> a + j \<le> n + ?P + 4 \<or> n + ?P + 4 + length x \<le> a \<longrightarrow>
           window m buf3 (rd + of_nat a) j = window m buf2 (rd + of_nat a) j"
        by (rule store_window [OF m b2(2) 1 at 2])
      have "\<forall>a j. a + j \<le> n + ?P + 4 \<longrightarrow>
          window m buf3 (rd + of_nat a) j = window m buf2 (rd + of_nat a) j"
        using b(4) 1 by (meson add_leD1 le_trans)
      then show ?thesis unfolding some option.case using b(1-3) by blast
    next
      assume none: "src = None"
        and rd: "read_bytes (slot_ix m (p_write_cursor p + pad) + 4) (length x) (buffer sh) = x"
      have "window m (buffer sh) (rd + of_nat (n + ?P + 4)) (length x) = x"
        using window_contiguous [OF m len, of "rd + of_nat (n + ?P + 4)" "length x"] 2 rd at by simp
      then have "window m buf2 (rd + of_nat (n + ?P + 4)) (length x) = x"
        using b1(4) [rule_format, of "n + ?P + 4" "length x"]
          b2(4) [rule_format, of "n + ?P + 4" "length x"] 1 by simp
      then show ?thesis using none b2(2) by simp
    qed
  qed
  then obtain buf3 where b3: "(case src of None \<Rightarrow> Inr buf2
        | Some bs \<Rightarrow> store (slot_ix m (p_write_cursor p + pad) + 4) bs buf2) = Inr buf3"
    "length buf3 = ?cap" "window m buf3 (rd + of_nat (n + ?P + 4)) (length x) = x"
    "\<forall>a j. a + j \<le> n + ?P + 4 \<longrightarrow> window m buf3 (rd + of_nat a) j = window m buf2 (rd + of_nat a) j"
    by blast
  show ?thesis
  proof
    have "(if pad > 0 then p_write_cursor p + pad else p_write_cursor p) = p_write_cursor p + pad"
      by (simp flip: word_neq_0_conv)
    then show "write_frame pad (of_nat (length x)) src sh p
        = Inr (publish (pad + record_len (of_nat (length x))) (sh\<lparr>buffer := buf3\<rparr>) p)"
      unfolding write_frame_def Let_def pm b1(1) sum.case hlen b2(1) b3(1)
      by (simp only: sum.case b2(1) b3(1))
    show "length buf3 = ?cap" by (rule b3(2))
    show "window m buf3 rd n = window m (buffer sh) rd n"
      using b1(4) [rule_format, of 0 n] b2(4) [rule_format, of 0 n] b3(4) [rule_format, of 0 n] fit
      by simp
    show "framed ?cap (slot_ix m (p_write_cursor p))
        (window m buf3 (p_write_cursor p) (?P + rlen (length x))) [x]"
    proof (rule framed_one [OF m fits pad])
      show "window m buf3 (p_write_cursor p) 4 = bytes_of_u32 PADDING" if "?P > 0"
        using b1(3) [OF that] b2(4) [rule_format, of n 4] b3(4) [rule_format, of n 4] pad fit that
        by (simp add: w)
      show "slot_ix m (p_write_cursor p + of_nat ?P) + rlen (length x) \<le> ?cap"
        using room by simp
      have pc: "p_write_cursor p + of_nat ?P = rd + of_nat (n + ?P)" using c2 by simp
      show "window m buf3 (p_write_cursor p + of_nat ?P) 4 = bytes_of_u32 (of_nat (length x))"
        unfolding pc using b2(3) b3(4) [rule_format, of "n + ?P" 4] by simp
      have "p_write_cursor p + of_nat (?P + 4) = rd + of_nat (n + ?P + 4)" by (simp add: w add.assoc)
      from arg_cong [OF this, of "\<lambda>a. window m buf3 a (length x)"]
      show "window m buf3 (p_write_cursor p + of_nat (?P + 4)) (length x) = x"
        using b3(3) by (rule trans)
    qed
  qed
qed


section \<open>Framing a message at the write cursor\<close>

lemma frame_cong:
  "p_mask p' = p_mask p \<Longrightarrow> p_write_cursor p' = p_write_cursor p \<Longrightarrow> frame len p' = frame len p"
  by (simp only: frame_def p_capacity_def)

text \<open>
  Padding plus record is less than the ring, so every legal message fits an
  empty ring wherever the cursors stand.
\<close>

lemma frame_ok:
  assumes m: "valid_mask m" and pm: "p_mask p = m" and cap: "8 \<le> capacity_of m"
    and al: "4 dvd slot_ix m (p_write_cursor p)"
    and len: "unat len \<le> unat (max_message_len (m + 1))"
  obtains pad need where "frame len p = Inr (pad, need)" and "need = pad + record_len len"
    and "unat need = unat pad + rlen (unat len)" and "unat (record_len len) = rlen (unat len)"
    and "unat need < capacity_of m"
    and "unat pad = 0 \<or> 0 < slot_ix m (p_write_cursor p)
        \<and> unat pad = capacity_of m - slot_ix m (p_write_cursor p) \<and> 4 \<le> unat pad"
    and "slot_ix m (p_write_cursor p + pad) + rlen (unat len) \<le> capacity_of m"
    and "unat len < 2 ^ 32 - 1"
proof -
  let ?cap = "capacity_of m" and ?s = "slot_ix m (p_write_cursor p)"
  have c8: "8 dvd ?cap" by (rule capacity_dvd_8 [OF m cap])
  have half: "?cap \<le> 2 ^ 63" by (rule capacity_half [OF m])
  have l: "unat len \<le> ?cap div 2 - 4" "unat len \<le> 2 ^ 32 - 2"
    using len max_message_len_nat [of "m + 1"] cap by auto
  have "4 dvd ?cap div 2" using c8 by presburger
  then have r: "rlen (unat len) \<le> ?cap div 2" "4 \<le> rlen (unat len)" "4 dvd rlen (unat len)"
    using l(1) cap unfolding rlen_def by presburger+
  have "unat len + 7 < word_span" using l(2) by (simp add: word_span_def)
  then have rl: "unat (record_len len) = rlen (unat len)" by (rule unat_record_len)
  have slt: "?s < ?cap" by (rule slot_ix_less [OF m])
  define to_end where "to_end = p_capacity p - (p_write_cursor p AND p_mask p)"
  have "p_write_cursor p AND m \<le> m + 1"
    using slt by (simp add: word_le_nat_alt slot_ix_def)
  then have te: "unat to_end = ?cap - ?s"
    by (simp add: to_end_def p_capacity_def pm unat_sub slot_ix_def)
  have te4: "4 \<le> ?cap - ?s" "4 dvd ?cap - ?s"
  proof -
    show d: "4 dvd ?cap - ?s" using c8 al by presburger
    show "4 \<le> ?cap - ?s" using d slt by (simp add: dvd_imp_le)
  qed
  have le: "len \<le> max_message_len (p_capacity p)"
    using len by (simp add: word_le_nat_alt p_capacity_def pm)
  show ?thesis
  proof (cases "record_len len \<le> to_end")
    case True
    have "frame len p = Inr (0, record_len len)"
      using le True by (simp add: frame_def Let_def to_end_def)
    then show ?thesis
      using that [of 0 "record_len len"] True rl r te slt cap l(2)
      by (simp add: word_le_nat_alt)
  next
    case False
    have lt: "?cap - ?s < rlen (unat len)" using False te rl by (simp add: word_le_nat_alt)
    have "unat to_end + unat (record_len len) < word_span"
      using te rl r half by (simp add: word_span_def)
    then have sum: "unat (to_end + record_len len) = ?cap - ?s + rlen (unat len)"
      using unat_add_span te rl by simp
    have pos: "0 < ?s" using lt r(1) by (cases "?s = 0") auto
    have z: "slot_ix m (p_write_cursor p + to_end) = 0"
    proof -
      have "to_end = of_nat (?cap - ?s)" using te by (metis of_nat_unat ucast_id)
      then show ?thesis using slot_ix_to_end [OF m] by simp
    qed
    have "?cap - ?s + rlen (unat len) < ?cap"
    proof -
      have "?cap - ?s + 4 \<le> rlen (unat len)"
        using lt te4(2) r(3) by presburger
      then show ?thesis using r(1) slt by linarith
    qed
    moreover have "frame len p = Inr (to_end, to_end + record_len len)"
      using le False by (simp add: frame_def Let_def to_end_def)
    ultimately show ?thesis
      using that [of to_end "to_end + record_len len"] te sum rl z pos te4 r l(2) by simp
  qed
qed


section \<open>Invariant lemmas\<close>

lemma bytes_okI:
  assumes "cursors_ok (bg_sh r) (bg_p r) (bg_c r)"
    and "bytes_frames_ok (bg_sh r) (bg_c r) xs ys"
    and "c_read_cursor (bg_c r) = c_write_cursor_cache (bg_c r) \<longrightarrow> deferred (bg_sh r) (bg_c r) = 0"
  shows "bytes_ok r" and "bytes_seen r = xs" and "bytes_unseen r = ys"
  using assms framed_parse
  by (auto simp: bytes_ok_def bytes_frames_ok_def bytes_seen_def bytes_unseen_def Let_def)

lemma bytes_okD:
  assumes "bytes_ok r"
  shows "cursors_ok (bg_sh r) (bg_p r) (bg_c r)"
    and "bytes_frames_ok (bg_sh r) (bg_c r) (bytes_seen r) (bytes_unseen r)"
    and "c_read_cursor (bg_c r) = c_write_cursor_cache (bg_c r) \<Longrightarrow> deferred (bg_sh r) (bg_c r) = 0"
    and "valid_mask (sh_mask (bg_sh r))"
  using assms cursors_ok_valid by (auto simp: bytes_ok_def)

lemma cached_split:
  assumes "cursors_ok sh p c"
  shows "cdist (c_read_cursor c) (c_write_cursor_cache c)
      + cdist (c_write_cursor_cache c) (sh_write_cursor sh) = queued sh c"
  using cdist_chain [of "c_read_cursor c" "c_write_cursor_cache c" "sh_write_cursor sh"]
    queued_cached [OF assms] by (simp add: queued_def)

lemma cache_offset:
  "c_write_cursor_cache c
     = c_read_cursor c + of_nat (cdist (c_read_cursor c) (c_write_cursor_cache c))"
  by simp

text \<open>Everything queued, as one framed stream, and the alignment of the cursors.\<close>

lemma bytes_frames_whole:
  assumes cu: "cursors_ok sh p c" and fr: "bytes_frames_ok sh c xs ys"
  shows "framed (capacity_of (sh_mask sh)) (slot_ix (sh_mask sh) (c_read_cursor c))
           (window (sh_mask sh) (buffer sh) (c_read_cursor c) (queued sh c)) (xs @ ys)"
    and "4 dvd slot_ix (sh_mask sh) (c_write_cursor_cache c)"
    and "4 dvd slot_ix (sh_mask sh) (sh_write_cursor sh)"
    and "slot_ix (sh_mask sh) (c_write_cursor_cache c)
           = (slot_ix (sh_mask sh) (c_read_cursor c)
               + cdist (c_read_cursor c) (c_write_cursor_cache c)) mod capacity_of (sh_mask sh)"
proof -
  let ?m = "sh_mask sh" and ?rd = "c_read_cursor c" and ?wc = "c_write_cursor_cache c"
  let ?cap = "capacity_of ?m"
  have m: "valid_mask ?m" by (rule cursors_ok_valid [OF cu])
  have f: "8 \<le> ?cap" "4 dvd slot_ix ?m ?rd"
    "framed ?cap (slot_ix ?m ?rd) (window ?m (buffer sh) ?rd (cdist ?rd ?wc)) xs"
    "framed ?cap (slot_ix ?m ?wc) (window ?m (buffer sh) ?wc (cdist ?wc (sh_write_cursor sh))) ys"
    using fr by (auto simp: bytes_frames_ok_def Let_def)
  have c4: "4 dvd ?cap" using capacity_dvd_8 [OF m f(1)] by presburger
  show s: "slot_ix ?m ?wc = (slot_ix ?m ?rd + cdist ?rd ?wc) mod ?cap"
    using slot_ix_step [OF m, of ?rd "cdist ?rd ?wc"] by simp
  have "4 dvd cdist ?rd ?wc" using framed_length_aligned [OF f(3) c4 f(2)] by simp
  then show a: "4 dvd slot_ix ?m ?wc" unfolding s using f(2) c4 by (simp add: dvd_mod)
  have "4 dvd cdist ?wc (sh_write_cursor sh)" using framed_length_aligned [OF f(4) c4 a] by simp
  then show "4 dvd slot_ix ?m (sh_write_cursor sh)"
    using slot_ix_step [OF m, of ?wc "cdist ?wc (sh_write_cursor sh)"] a c4
    by (simp add: dvd_mod)
  have "framed ?cap (slot_ix ?m ?rd) (window ?m (buffer sh) ?rd (cdist ?rd ?wc)
      @ window ?m (buffer sh) ?wc (cdist ?wc (sh_write_cursor sh))) (xs @ ys)"
    using framed_append [OF f(3) _ capacity_pos [OF m] slot_ix_less [OF m]] f(4) s by simp
  then show "framed ?cap (slot_ix ?m ?rd) (window ?m (buffer sh) ?rd (queued sh c)) (xs @ ys)"
    unfolding cached_split [OF cu, symmetric] window_append by simp
qed

lemma bytes_contents_nil_iff:
  assumes "bytes_ok r"
  shows "bytes_contents r = [] \<longleftrightarrow> queued (bg_sh r) (bg_c r) = 0"
    and "bytes_seen r = [] \<longleftrightarrow> c_write_cursor_cache (bg_c r) = c_read_cursor (bg_c r)"
proof -
  have "length w = 0 \<longleftrightarrow> w = []" for w :: "u8 list" by simp
  then show "bytes_contents r = [] \<longleftrightarrow> queued (bg_sh r) (bg_c r) = 0"
    using framed_empty_iff [OF bytes_frames_whole(1) [OF bytes_okD(1,2) [OF assms]]]
    unfolding bytes_contents_def by (metis length_window)
  have "framed (capacity_of (sh_mask (bg_sh r))) (slot_ix (sh_mask (bg_sh r)) (c_read_cursor (bg_c r)))
      (window (sh_mask (bg_sh r)) (buffer (bg_sh r)) (c_read_cursor (bg_c r))
         (cdist (c_read_cursor (bg_c r)) (c_write_cursor_cache (bg_c r)))) (bytes_seen r)"
    using bytes_okD(2) [OF assms] by (simp add: bytes_frames_ok_def Let_def)
  from framed_empty_iff [OF this]
  show "bytes_seen r = [] \<longleftrightarrow> c_write_cursor_cache (bg_c r) = c_read_cursor (bg_c r)"
    by (metis cdist_eq_0_iff length_window length_0_conv)
qed

section \<open>The producer's operations\<close>

lemma bytes_has_space_ok:
  assumes ok: "bytes_ok r" and res: "has_space n (bg_sh r) (bg_p r) = (b, sh', p')"
  shows "bytes_ok (r\<lparr>bg_sh := sh', bg_p := p'\<rparr>)"
    and "bytes_seen (r\<lparr>bg_sh := sh', bg_p := p'\<rparr>) = bytes_seen r"
    and "bytes_unseen (r\<lparr>bg_sh := sh', bg_p := p'\<rparr>) = bytes_unseen r"
proof -
  note f = has_space_masks [OF res]
  have q: "deferred sh' (bg_c r) = deferred (bg_sh r) (bg_c r)"
    using f by (simp add: deferred_def)
  have "bytes_frames_ok sh' (bg_c r) (bytes_seen r) (bytes_unseen r)"
    using bytes_okD(2) [OF ok] f by (simp add: bytes_frames_ok_def)
  then show "bytes_ok (r\<lparr>bg_sh := sh', bg_p := p'\<rparr>)"
    "bytes_seen (r\<lparr>bg_sh := sh', bg_p := p'\<rparr>) = bytes_seen r"
    "bytes_unseen (r\<lparr>bg_sh := sh', bg_p := p'\<rparr>) = bytes_unseen r"
    using bytes_okI [of "r\<lparr>bg_sh := sh', bg_p := p'\<rparr>" "bytes_seen r" "bytes_unseen r"]
      has_space_ok [OF bytes_okD(1) [OF ok] res] bytes_okD(3) [OF ok] q by auto
qed

text \<open>What a passed space check for a framed message reserves.\<close>

lemma bytes_reserved:
  assumes ok: "bytes_ok r" and legal: "bytes_legal r x" and small: "length x < word_span"
    and fr: "frame (of_nat (length x)) (bg_p r) = Inr (pad, need)"
    and room: "cdist (p_read_cursor_cache (bg_p r)) (sh_write_cursor (bg_sh r)) + unat need
                 \<le> capacity_of (sh_mask (bg_sh r))"
  shows "need = pad + record_len (of_nat (length x))" and "unat need = unat pad + rlen (length x)"
    and "unat pad = 0 \<or> 0 < slot_ix (sh_mask (bg_sh r)) (p_write_cursor (bg_p r))
        \<and> unat pad = capacity_of (sh_mask (bg_sh r))
             - slot_ix (sh_mask (bg_sh r)) (p_write_cursor (bg_p r)) \<and> 4 \<le> unat pad"
    and "slot_ix (sh_mask (bg_sh r)) (p_write_cursor (bg_p r) + pad) + rlen (length x)
           \<le> capacity_of (sh_mask (bg_sh r))"
    and "fits_header x"
    and "queued (bg_sh r) (bg_c r) + unat pad + rlen (length x) \<le> capacity_of (sh_mask (bg_sh r))"
proof -
  define sh p c where defs: "sh = bg_sh r" "p = bg_p r" "c = bg_c r"
  note okD = bytes_okD [OF ok, folded defs]
  let ?m = "sh_mask sh" and ?b = "p_read_cursor_cache p"
  have w: "p_write_cursor p = sh_write_cursor sh" by (rule cursors_ok_write [OF okD(1)])
  have pm: "p_mask p = ?m" using cursors_ok_masks [OF okD(1)] by simp
  have cap: "8 \<le> capacity_of ?m" using okD(2) by (simp add: bytes_frames_ok_def Let_def)
  have al: "4 dvd slot_ix ?m (p_write_cursor p)"
    unfolding w by (rule bytes_frames_whole(3) [OF okD(1,2)])
  have ul: "unat (of_nat (length x) :: usize) = length x" by (rule unat_of_nat_span [OF small])
  have lg: "unat (of_nat (length x) :: usize) \<le> unat (max_message_len (?m + 1))"
    using legal ul by (simp add: bytes_legal_def defs)
  obtain F: "need = pad + record_len (of_nat (length x))" "unat need = unat pad + rlen (length x)"
    "unat pad = 0 \<or> 0 < slot_ix ?m (p_write_cursor p)
        \<and> unat pad = capacity_of ?m - slot_ix ?m (p_write_cursor p) \<and> 4 \<le> unat pad"
    "slot_ix ?m (p_write_cursor p + pad) + rlen (length x) \<le> capacity_of ?m" "fits_header x"
    using frame_ok [OF okD(4) pm cap al lg] fr[folded defs] ul
    unfolding fits_header_def by (metis Pair_inject sum.inject(2))
  have o: "cdist ?b (c_read_cursor c) \<le> cdist ?b (sh_write_cursor sh)"
    using okD(1) by (simp add: cursors_unfold)
  have "queued sh c + unat pad + rlen (length x) \<le> capacity_of ?m"
    using room F(2) cdist_rebase [OF o] by (simp add: queued_def flip: defs)
  with F show "need = pad + record_len (of_nat (length x))"
    "unat need = unat pad + rlen (length x)"
    "unat pad = 0 \<or> 0 < slot_ix (sh_mask (bg_sh r)) (p_write_cursor (bg_p r))
        \<and> unat pad = capacity_of (sh_mask (bg_sh r))
             - slot_ix (sh_mask (bg_sh r)) (p_write_cursor (bg_p r)) \<and> 4 \<le> unat pad"
    "slot_ix (sh_mask (bg_sh r)) (p_write_cursor (bg_p r) + pad) + rlen (length x)
       \<le> capacity_of (sh_mask (bg_sh r))"
    "fits_header x"
    "queued (bg_sh r) (bg_c r) + unat pad + rlen (length x) \<le> capacity_of (sh_mask (bg_sh r))"
    by (simp_all only: defs)
qed

lemma bytes_write_ok:
  assumes ok: "bytes_ok r" and legal: "bytes_legal r x" and small: "length x < word_span"
    and fr: "frame (of_nat (length x)) (bg_p r) = Inr (pad, need)"
    and room: "cdist (p_read_cursor_cache (bg_p r)) (sh_write_cursor (bg_sh r)) + unat need
                 \<le> capacity_of (sh_mask (bg_sh r))"
    and src: "src = Some x \<or> src = None
        \<and> read_bytes (payload_ptr pad (bg_p r)) (length x) (buffer (bg_sh r)) = x"
  obtains sh' p' where "write_frame pad (of_nat (length x)) src (bg_sh r) (bg_p r) = Inr (sh', p')"
    and "bytes_ok (r\<lparr>bg_sh := sh', bg_p := p'\<rparr>)"
    and "bytes_seen (r\<lparr>bg_sh := sh', bg_p := p'\<rparr>) = bytes_seen r"
    and "bytes_unseen (r\<lparr>bg_sh := sh', bg_p := p'\<rparr>) = bytes_unseen r @ [x]"
    and "sh_mask sh' = sh_mask (bg_sh r)"
proof -
  define sh p c where defs: "sh = bg_sh r" "p = bg_p r" "c = bg_c r"
  note okD = bytes_okD [OF ok, folded defs]
  let ?m = "sh_mask sh" and ?rd = "c_read_cursor c" and ?wc = "c_write_cursor_cache c"
  let ?cap = "capacity_of ?m" and ?b = "p_read_cursor_cache p" and ?n = "queued sh c"
  have m: "valid_mask ?m" by (rule okD(4))
  have F: "length (buffer sh) = ?cap" "8 \<le> ?cap" "slot_ix ?m ?rd mod 4 = 0"
    "framed ?cap (slot_ix ?m ?rd) (window ?m (buffer sh) ?rd (cdist ?rd ?wc)) (bytes_seen r)"
    "framed ?cap (slot_ix ?m ?wc) (window ?m (buffer sh) ?wc (cdist ?wc (sh_write_cursor sh)))
       (bytes_unseen r)"
    using okD(2) by (auto simp: bytes_frames_ok_def Let_def)
  have w: "p_write_cursor p = sh_write_cursor sh" by (rule cursors_ok_write [OF okD(1)])
  have pm: "p_mask p = ?m" using cursors_ok_masks [OF okD(1)] by simp
  note fr' = bytes_reserved [OF ok legal small fr room, folded defs]
  note fit = fr'(6)
  have wn: "p_write_cursor p = ?rd + of_nat ?n" by (simp add: w)
  obtain buf' where W: "write_frame pad (of_nat (length x)) src sh p
      = Inr (publish need (sh\<lparr>buffer := buf'\<rparr>) p)" "length buf' = ?cap"
    "window ?m buf' ?rd ?n = window ?m (buffer sh) ?rd ?n"
    "framed ?cap (slot_ix ?m (p_write_cursor p))
       (window ?m buf' (p_write_cursor p) (unat need)) [x]"
    using write_frame_ok [OF m pm F(1) wn fr'(5,3) fit fr'(4), of src] src fr'(1,2)
    by (metis defs(1,2) payload_ptr_def pm)
  define sh1 where sh1: "sh1 = sh\<lparr>buffer := buf'\<rparr>"
  obtain sh' p' where pub: "publish need sh1 p = (sh', p')" by (rule prod.exhaust)
  have ok1: "cursors_ok sh1 p c" using okD(1) by (simp add: sh1)
  have room1: "cdist ?b (sh_write_cursor sh1) + unat need \<le> capacity_of (sh_mask sh1)"
    using room by (simp add: sh1 defs)
  note P = publish_ok [OF ok1 room1 pub]
  note PF = publish_frame [OF pub]
  have m': "sh_mask sh' = ?m" "buffer sh' = buf'" "sh_write_cursor sh' = sh_write_cursor sh + need"
    using PF P(3) by (simp_all add: sh1)
  have k: "cdist ?rd ?wc + cdist ?wc (sh_write_cursor sh) = ?n" by (rule cached_split [OF okD(1)])
  have w1: "window ?m buf' ?rd (cdist ?rd ?wc) = window ?m (buffer sh) ?rd (cdist ?rd ?wc)"
    using window_part [OF W(3), of 0 "cdist ?rd ?wc"] k by simp
  have w2: "window ?m buf' ?wc (cdist ?wc (sh_write_cursor sh))
      = window ?m (buffer sh) ?wc (cdist ?wc (sh_write_cursor sh))"
    using window_part [OF W(3), of "cdist ?rd ?wc" "cdist ?wc (sh_write_cursor sh)"] k by simp
  have lt: "cdist ?wc (sh_write_cursor sh) + unat need < word_span"
    using fit k fr'(2) capacity_less [OF m] by linarith
  have new: "framed ?cap (slot_ix ?m ?wc)
      (window ?m buf' ?wc (cdist ?wc (sh_write_cursor sh + need))) (bytes_unseen r @ [x])"
  proof -
    have "slot_ix ?m (sh_write_cursor sh)
        = (slot_ix ?m ?wc + cdist ?wc (sh_write_cursor sh)) mod ?cap"
      using slot_ix_step [OF m, of ?wc "cdist ?wc (sh_write_cursor sh)"] by simp
    then show ?thesis
      unfolding cdist_add [OF lt] window_append w2
      using framed_append [OF F(5) _ capacity_pos [OF m] slot_ix_less [OF m]] W(4) w by simp
  qed
  have fr2: "bytes_frames_ok sh' c (bytes_seen r) (bytes_unseen r @ [x])"
    using F W(2) new w1 by (simp add: bytes_frames_ok_def Let_def m')
  have d: "deferred sh' c = deferred sh c" using PF by (simp add: deferred_def sh1)
  have "bytes_ok (r\<lparr>bg_sh := sh', bg_p := p'\<rparr>)"
    "bytes_seen (r\<lparr>bg_sh := sh', bg_p := p'\<rparr>) = bytes_seen r"
    "bytes_unseen (r\<lparr>bg_sh := sh', bg_p := p'\<rparr>) = bytes_unseen r @ [x]"
    using bytes_okI [of "r\<lparr>bg_sh := sh', bg_p := p'\<rparr>"] P(1) fr2 d okD(3) by (auto simp flip: defs)
  then show ?thesis
    using that [of sh' p'] W(1) pub m' by (simp add: sh1 flip: defs)
qed


lemma bytes_legal_small: "bytes_ok r \<Longrightarrow> bytes_legal r x \<Longrightarrow> length x < word_span"
  unfolding bytes_legal_def by (meson le_less_trans unat_less_span)

lemma bytes_frame_ok:
  assumes ok: "bytes_ok r" and len: "unat len \<le> unat (max_message_len (sh_mask (bg_sh r) + 1))"
  obtains pad need where "frame len (bg_p r) = Inr (pad, need)"
    and "unat need < bytes_capacity r" and "request_ok (sh_mask (bg_sh r)) need"
    and "unat need = unat pad + rlen (unat len)"
proof -
  note okD = bytes_okD [OF ok]
  have cap: "8 \<le> capacity_of (sh_mask (bg_sh r))"
    using okD(2) by (simp add: bytes_frames_ok_def Let_def)
  have al: "4 dvd slot_ix (sh_mask (bg_sh r)) (p_write_cursor (bg_p r))"
    using bytes_frames_whole(3) [OF okD(1,2)] cursors_ok_write [OF okD(1)] by simp
  obtain pad need where F: "frame len (bg_p r) = Inr (pad, need)"
    "unat need < capacity_of (sh_mask (bg_sh r))" "unat need = unat pad + rlen (unat len)"
    by (rule frame_ok [OF okD(4) _ cap al len]) (use cursors_ok_masks [OF okD(1)] in auto)
  have "request_ok (sh_mask (bg_sh r)) need"
    using F(2) capacity_half [OF okD(4)] by (simp add: request_ok_def word_span_def)
  then show ?thesis using that [of pad need] F by (simp add: bytes_capacity_def)
qed

text \<open>\<open>try_push\<close> of a legal message on both branches.\<close>

lemma bytes_enq_cases:
  assumes ok: "bytes_ok r" and legal: "bytes_legal r x"
  obtains (full) sh' p' need where
      "bytes_try_push x (bg_sh r) (bg_p r) = Inr (False, sh', p')"
      "bytes_enq x r = (False, r\<lparr>bg_sh := sh', bg_p := p'\<rparr>)"
      "bytes_ok (snd (bytes_enq x r))" "bytes_contents (snd (bytes_enq x r)) = bytes_contents r"
      "sh_mask sh' = sh_mask (bg_sh r)"
      "bytes_capacity r < deferred (bg_sh r) (bg_c r) + queued (bg_sh r) (bg_c r) + need"
      "need < bytes_capacity r"
      "\<exists>pad. frame (of_nat (length x)) (bg_p r) = Inr (pad, of_nat need)"
  | (space) sh' p' where
      "bytes_try_push x (bg_sh r) (bg_p r) = Inr (True, sh', p')"
      "bytes_enq x r = (True, r\<lparr>bg_sh := sh', bg_p := p'\<rparr>)"
      "bytes_ok (snd (bytes_enq x r))"
      "bytes_contents (snd (bytes_enq x r)) = bytes_contents r @ [x]"
      "sh_mask sh' = sh_mask (bg_sh r)"
proof -
  note okD = bytes_okD [OF ok]
  have small: "length x < word_span" by (rule bytes_legal_small [OF ok legal])
  have ul: "unat (of_nat (length x) :: usize) = length x" by (rule unat_of_nat_span [OF small])
  have lg: "unat (of_nat (length x) :: usize) \<le> unat (max_message_len (sh_mask (bg_sh r) + 1))"
    using legal ul by (simp add: bytes_legal_def)
  obtain pad need where F: "frame (of_nat (length x)) (bg_p r) = Inr (pad, need)"
    "unat need < bytes_capacity r" "request_ok (sh_mask (bg_sh r)) need"
    by (rule bytes_frame_ok [OF ok lg]) simp
  obtain b sh1 p1 where hs: "has_space need (bg_sh r) (bg_p r) = (b, sh1, p1)"
    by (rule prod_cases3)
  note H = bytes_has_space_ok [OF ok hs]
  note M = has_space_masks [OF hs]
  show ?thesis
  proof (cases b)
    case False
    have hs': "has_space need (bg_sh r) (bg_p r) = (False, sh1, p1)" using hs False by simp
    have e: "bytes_try_push x (bg_sh r) (bg_p r) = Inr (False, sh1, p1)"
      using hs' F(1) by (simp add: bytes_try_push_def)
    have "capacity_of (sh_mask (bg_sh r))
        < cdist (sh_read_cursor (bg_sh r)) (sh_write_cursor (bg_sh r)) + unat need"
      by (rule has_space_False [OF okD(1) F(3) hs'])
    then have "bytes_capacity r < deferred (bg_sh r) (bg_c r) + queued (bg_sh r) (bg_c r) + unat need"
      using queued_deferred [OF okD(1)] by (simp add: bytes_capacity_def)
    then show ?thesis
      using full [of sh1 p1 "unat need"] e H F M
      by (simp add: bytes_enq_def bytes_contents_def)
  next
    case True
    define r1 where r1: "r1 = r\<lparr>bg_sh := sh1, bg_p := p1\<rparr>"
    have hs': "has_space need (bg_sh r) (bg_p r) = (True, sh1, p1)" using hs True by simp
    have ok1: "bytes_ok r1" using H by (simp add: r1)
    have legal1: "bytes_legal r1 x" using legal M by (simp add: bytes_legal_def r1)
    have fr1: "frame (of_nat (length x)) (bg_p r1) = Inr (pad, need)"
      using F(1) frame_cong [OF M(1,2), of "of_nat (length x)"] by (simp add: r1)
    have room: "cdist (p_read_cursor_cache (bg_p r1)) (sh_write_cursor (bg_sh r1)) + unat need
        \<le> capacity_of (sh_mask (bg_sh r1))"
      using has_space_True [OF okD(1) F(3) hs'] M by (simp add: r1)
    obtain sh' p' where W: "write_frame pad (of_nat (length x)) (Some x) (bg_sh r1) (bg_p r1)
        = Inr (sh', p')" "bytes_ok (r1\<lparr>bg_sh := sh', bg_p := p'\<rparr>)"
      "bytes_seen (r1\<lparr>bg_sh := sh', bg_p := p'\<rparr>) = bytes_seen r1"
      "bytes_unseen (r1\<lparr>bg_sh := sh', bg_p := p'\<rparr>) = bytes_unseen r1 @ [x]"
      "sh_mask sh' = sh_mask (bg_sh r1)"
      by (rule bytes_write_ok [OF ok1 legal1 small fr1 room, of "Some x"]) simp
    have e: "bytes_try_push x (bg_sh r) (bg_p r) = Inr (True, sh', p')"
      using hs' F(1) W(1) by (simp add: bytes_try_push_def r1)
    then show ?thesis
      using space [of sh' p'] W H M by (simp add: bytes_enq_def bytes_contents_def r1)
  qed
qed

section \<open>The consumer's operations\<close>

lemma bytes_refresh_ok:
  assumes ok: "bytes_ok r" and res: "refresh (bg_sh r) (bg_c r) = (w, c')"
  shows "bytes_ok (r\<lparr>bg_c := c'\<rparr>)" and "bytes_seen (r\<lparr>bg_c := c'\<rparr>) = bytes_contents r"
    and "bytes_unseen (r\<lparr>bg_c := c'\<rparr>) = []"
proof -
  note okD = bytes_okD [OF ok]
  note R = refresh_ok [OF okD(1) res]
  have "framed n p [] []" for n p by (rule framed.nil)
  moreover have "length (buffer (bg_sh r)) = capacity_of (sh_mask (bg_sh r))"
    "8 \<le> capacity_of (sh_mask (bg_sh r))" "slot_ix (sh_mask (bg_sh r)) (c_read_cursor (bg_c r)) mod 4 = 0"
    using okD(2) by (simp_all add: bytes_frames_ok_def Let_def)
  ultimately have fr: "bytes_frames_ok (bg_sh r) c' (bytes_contents r) []"
    using bytes_frames_whole(1) [OF okD(1,2)]
    by (simp add: bytes_frames_ok_def Let_def R(3) bytes_contents_def queued_def)
  have "c_read_cursor (bg_c r) = c_write_cursor_cache (bg_c r)"
    if "c_read_cursor (bg_c r) = sh_write_cursor (bg_sh r)"
    using queued_cached [OF okD(1)] that by (simp add: queued_def)
  then have "c_read_cursor c' = c_write_cursor_cache c' \<longrightarrow> deferred (bg_sh r) c' = 0"
    using okD(3) R(3) by (auto simp: deferred_def)
  then show "bytes_ok (r\<lparr>bg_c := c'\<rparr>)" "bytes_seen (r\<lparr>bg_c := c'\<rparr>) = bytes_contents r"
    "bytes_unseen (r\<lparr>bg_c := c'\<rparr>) = []"
    using bytes_okI [of "r\<lparr>bg_c := c'\<rparr>" "bytes_contents r" "[]"] R(1) fr by auto
qed

lemma bytes_has_item_ok:
  assumes ok: "bytes_ok r" and res: "has_item (bg_sh r) (bg_c r) = (b, c')"
  shows "bytes_ok (r\<lparr>bg_c := c'\<rparr>)" and "bytes_contents (r\<lparr>bg_c := c'\<rparr>) = bytes_contents r"
    and "b \<longleftrightarrow> bytes_contents r \<noteq> []" and "b \<Longrightarrow> bytes_seen (r\<lparr>bg_c := c'\<rparr>) \<noteq> []"
proof -
  note H = has_item_iff [OF bytes_okD(1) [OF ok] res]
  have "c' = bg_c r \<or> refresh (bg_sh r) (bg_c r) = (sh_write_cursor (bg_sh r), c')"
    using res by (auto simp: has_item_def refresh_def Let_def split: if_splits)
  then show ok': "bytes_ok (r\<lparr>bg_c := c'\<rparr>)"
    and "bytes_contents (r\<lparr>bg_c := c'\<rparr>) = bytes_contents r"
    using ok bytes_refresh_ok [OF ok] by (auto simp: bytes_contents_def)
  show "b \<longleftrightarrow> bytes_contents r \<noteq> []"
    using H(1) bytes_contents_nil_iff(1) [OF ok] by simp
  show "b \<Longrightarrow> bytes_seen (r\<lparr>bg_c := c'\<rparr>) \<noteq> []"
    using H(3,7) bytes_contents_nil_iff(2) [OF ok'] by simp
qed


text \<open>
  Consuming one message: decoding it (a padding record is skipped), reading the
  payload through the guard, and the guard's drop.
\<close>

lemma skip_cursor_ok:
  assumes "cursors_ok sh p c" and "d \<le> cdist (c_read_cursor c) (c_write_cursor_cache c)"
  shows "cursors_ok sh p (c\<lparr>c_read_cursor := c_read_cursor c + of_nat d\<rparr>)"
    and "unat (of_nat d :: usize) = d"
proof -
  have "d < word_span" using assms(2) cdist_less_span le_less_trans by blast
  then show u: "unat (of_nat d :: usize) = d" by (rule unat_of_nat_span)
  show "cursors_ok sh p (c\<lparr>c_read_cursor := c_read_cursor c + of_nat d\<rparr>)"
    using advance_cursor_ok(1) [OF assms(1), of "of_nat d"] assms(2) u by simp
qed

lemma bytes_next_msg_ok:
  assumes ok: "bytes_ok r" and seen: "bytes_seen r = x # xs"
  obtains g c' where "next_msg (bg_sh r) (bg_c r) = Inr (g, c')"
    and "msg_deref g (bg_sh r) = x" and "msg_len g = of_nat (length x)"
    and "bytes_ok (r\<lparr>bg_c := c'\<rparr>)" and "bytes_seen (r\<lparr>bg_c := c'\<rparr>) = x # xs"
    and "bytes_unseen (r\<lparr>bg_c := c'\<rparr>) = bytes_unseen r"
    and "fits_header x"
    and "\<exists>d. d + rlen (length x) \<le> cdist (c_read_cursor (bg_c r)) (c_write_cursor_cache (bg_c r))
           \<and> c' = (bg_c r)\<lparr>c_read_cursor := c_read_cursor (bg_c r) + of_nat d\<rparr>"
    and "rlen (length x) \<le> cdist (c_read_cursor c') (c_write_cursor_cache c')"
    and "4 dvd slot_ix (sh_mask (bg_sh r)) (c_read_cursor c' + of_nat (rlen (length x)))"
    and "framed (capacity_of (sh_mask (bg_sh r)))
           (slot_ix (sh_mask (bg_sh r)) (c_read_cursor c' + of_nat (rlen (length x))))
           (window (sh_mask (bg_sh r)) (buffer (bg_sh r)) (c_read_cursor c' + of_nat (rlen (length x)))
              (cdist (c_read_cursor c') (c_write_cursor_cache c') - rlen (length x))) xs"
proof -
  define sh p c where defs: "sh = bg_sh r" "p = bg_p r" "c = bg_c r"
  note okD = bytes_okD [OF ok, folded defs]
  let ?m = "sh_mask sh" and ?rd = "c_read_cursor c" and ?wc = "c_write_cursor_cache c"
  let ?cap = "capacity_of ?m" and ?n = "cdist ?rd ?wc" and ?r = "rlen (length x)"
  have m: "valid_mask ?m" by (rule okD(4))
  have F: "length (buffer sh) = ?cap" "8 \<le> ?cap" "4 dvd slot_ix ?m ?rd"
    "framed ?cap (slot_ix ?m ?rd) (window ?m (buffer sh) ?rd ?n) (x # xs)"
    "framed ?cap (slot_ix ?m ?wc) (window ?m (buffer sh) ?wc (cdist ?wc (sh_write_cursor sh)))
       (bytes_unseen r)"
    using okD(2) by (auto simp: bytes_frames_ok_def Let_def seen)
  have n: "?n \<le> ?cap" using queued_cached [OF okD(1)] queued_le [OF okD(1)] by simp
  obtain d where D: "decode_record (buffer sh) ?m ?rd
      = Inr (?rd + of_nat d, of_nat (length x), slot_ix ?m (?rd + of_nat d) + 4)"
    "d + ?r \<le> ?n" "fits_header x"
    "read_bytes (slot_ix ?m (?rd + of_nat d) + 4) (length x) (buffer sh) = x"
    "framed ?cap (slot_ix ?m (?rd + of_nat d)) (window ?m (buffer sh) (?rd + of_nat d) (?n - d)) (x # xs)"
    "framed ?cap (slot_ix ?m (?rd + of_nat (d + ?r)))
       (window ?m (buffer sh) (?rd + of_nat (d + ?r)) (?n - (d + ?r))) xs"
    "d = 0 \<or> 0 < slot_ix ?m ?rd \<and> d = ?cap - slot_ix ?m ?rd"
    by (rule framed_decode [OF m F(1) n F(4)])
  define c' where c': "c' = c\<lparr>c_read_cursor := ?rd + of_nat d\<rparr>"
  define g where g: "g = \<lparr>msg_payload = slot_ix ?m (?rd + of_nat d) + 4, msg_len = of_nat (length x)\<rparr>"
  have dn: "d \<le> ?n" using D(2) by simp
  note S = skip_cursor_ok [OF okD(1) dn, folded c']
  have cd: "cdist (?rd + of_nat d) ?wc = ?n - d" using cdist_advance [of "of_nat d" ?rd ?wc] S(2) dn by simp
  have al: "4 dvd slot_ix ?m (?rd + of_nat d)"
    using D(7) F(3) slot_ix_to_end [OF m, of ?rd] by auto
  have c4: "4 dvd ?cap" using capacity_dvd_8 [OF m F(2)] by presburger
  have r4: "4 dvd ?r" using rlen_bounds(3) by (simp add: mod_eq_0_iff_dvd)
  have nxt: "?rd + of_nat (d + ?r) = c_read_cursor c' + of_nat ?r" by (simp add: c' add.assoc)
  have al': "4 dvd slot_ix ?m (c_read_cursor c' + of_nat ?r)"
    using al c4 r4 slot_ix_step [OF m, of "?rd + of_nat d" ?r] by (simp add: c' dvd_mod)
  have fr: "bytes_frames_ok sh c' (x # xs) (bytes_unseen r)"
    using F D(5) al cd by (simp add: bytes_frames_ok_def Let_def c' mod_eq_0_iff_dvd)
  have ne: "c_read_cursor c' \<noteq> c_write_cursor_cache c'"
  proof -
    have "0 < cdist (c_read_cursor c') (c_write_cursor_cache c')"
      using cd D(2) rlen_bounds(4) [of "length x"] by (simp add: c')
    then show ?thesis by auto
  qed
  have inv: "bytes_ok (r\<lparr>bg_c := c'\<rparr>)" "bytes_seen (r\<lparr>bg_c := c'\<rparr>) = x # xs"
    "bytes_unseen (r\<lparr>bg_c := c'\<rparr>) = bytes_unseen r"
    using bytes_okI [of "r\<lparr>bg_c := c'\<rparr>" "x # xs" "bytes_unseen r"] S(1) fr ne
    by (auto simp flip: defs)
  have nm: "next_msg (bg_sh r) (bg_c r) = Inr (g, c')"
    using D(1) cursors_ok_masks [OF okD(1)] by (simp add: next_msg_def g c' flip: defs)
  have ul: "unat (of_nat (length x) :: usize) = length x"
    using fits_header_unat(3) [OF D(3)] ucast_length [OF D(3)] by simp
  have rest: "window ?m (buffer sh) (c_read_cursor c' + of_nat ?r)
      (cdist (c_read_cursor c') (c_write_cursor_cache c') - ?r)
      = window ?m (buffer sh) (?rd + of_nat (d + ?r)) (?n - (d + ?r))"
    unfolding nxt using cd by (simp add: c')
  have tail: "framed ?cap (slot_ix ?m (c_read_cursor c' + of_nat ?r))
      (window ?m (buffer sh) (c_read_cursor c' + of_nat ?r)
        (cdist (c_read_cursor c') (c_write_cursor_cache c') - ?r)) xs"
    unfolding rest using D(6) unfolding nxt .
  have deref: "msg_deref g (bg_sh r) = x" using D(4) ul by (simp add: msg_deref_def g flip: defs)
  have mlen: "msg_len g = of_nat (length x)" by (simp add: g)
  have avail: "?r \<le> cdist (c_read_cursor c') (c_write_cursor_cache c')"
    using cd D(2) by (simp add: c')
  have dist: "\<exists>d. d + ?r \<le> ?n \<and> c' = c\<lparr>c_read_cursor := ?rd + of_nat d\<rparr>" using D(2) c' by blast
  show ?thesis
    by (rule that [OF nm deref mlen inv D(3) dist [unfolded defs] avail al' [unfolded defs] tail [unfolded defs]])
qed


lemma bytes_release_ok:
  assumes ok: "bytes_ok r" and fits: "fits_header x" and ln: "msg_len g = of_nat (length x)"
    and seen: "bytes_seen r = x # xs"
    and avail: "rlen (length x) \<le> cdist (c_read_cursor (bg_c r)) (c_write_cursor_cache (bg_c r))"
    and al: "4 dvd slot_ix (sh_mask (bg_sh r)) (c_read_cursor (bg_c r) + of_nat (rlen (length x)))"
    and fr: "framed (capacity_of (sh_mask (bg_sh r)))
           (slot_ix (sh_mask (bg_sh r)) (c_read_cursor (bg_c r) + of_nat (rlen (length x))))
           (window (sh_mask (bg_sh r)) (buffer (bg_sh r))
              (c_read_cursor (bg_c r) + of_nat (rlen (length x)))
              (cdist (c_read_cursor (bg_c r)) (c_write_cursor_cache (bg_c r)) - rlen (length x))) xs"
    and res: "msg_drop g (bg_sh r) (bg_c r) = (sh', c')"
  shows "bytes_ok (r\<lparr>bg_sh := sh', bg_c := c'\<rparr>)"
    and "bytes_seen (r\<lparr>bg_sh := sh', bg_c := c'\<rparr>) = xs"
    and "bytes_unseen (r\<lparr>bg_sh := sh', bg_c := c'\<rparr>) = bytes_unseen r"
    and "deferred sh' c' < unat (publish_batch (sh_mask (bg_sh r) + 1) MAX_PUBLISH_BATCH_BYTES)"
    and "producer_starving (bg_sh r) \<Longrightarrow> deferred sh' c' = 0"
    and "sh_mask sh' = sh_mask (bg_sh r)"
proof -
  define sh p c where defs: "sh = bg_sh r" "p = bg_p r" "c = bg_c r"
  note okD = bytes_okD [OF ok, folded defs]
  define batch where "batch = publish_batch (c_capacity c) MAX_PUBLISH_BATCH_BYTES"
  have ul: "unat (of_nat (length x) :: usize) = length x"
    using fits_header_unat(3) [OF fits] ucast_length [OF fits] by simp
  have "length x + 7 < word_span" using fits by (simp add: fits_header_def word_span_def)
  then have rl: "unat (record_len (msg_len g)) = rlen (length x)"
    using unat_record_len [of "msg_len g"] by (simp add: ln ul)
  have rw: "record_len (msg_len g) = of_nat (rlen (length x))"
    using rl by (metis of_nat_unat ucast_id)
  have adv: "advance (record_len (msg_len g)) batch (producer_starving sh) sh c = (sh', c')"
    using res by (simp add: msg_drop_def Let_def batch_def defs)
  have av: "unat (record_len (msg_len g)) \<le> cdist (c_read_cursor c) (c_write_cursor_cache c)"
    using avail rl by (simp add: defs)
  note A = advance_ok [OF okD(1) av adv]
  note G = advance_frame [OF adv]
  have cd: "cdist (c_read_cursor c') (c_write_cursor_cache c')
      = cdist (c_read_cursor c) (c_write_cursor_cache c) - rlen (length x)"
    using cdist_advance [OF av] G rl by simp
  have "bytes_frames_ok sh' c' xs (bytes_unseen r)"
    using okD(2) fr al cd G rw by (simp add: bytes_frames_ok_def Let_def mod_eq_0_iff_dvd flip: defs)
  then show "bytes_ok (r\<lparr>bg_sh := sh', bg_c := c'\<rparr>)"
    "bytes_seen (r\<lparr>bg_sh := sh', bg_c := c'\<rparr>) = xs"
    "bytes_unseen (r\<lparr>bg_sh := sh', bg_c := c'\<rparr>) = bytes_unseen r"
    using bytes_okI [of "r\<lparr>bg_sh := sh', bg_c := c'\<rparr>" xs "bytes_unseen r"] A(1,5)
    by (auto simp flip: defs)
  have b: "batch = publish_batch (sh_mask (bg_sh r) + 1) MAX_PUBLISH_BATCH_BYTES"
    using cursors_ok_masks [OF okD(1)] by (simp add: batch_def c_capacity_def flip: defs)
  have "0 < unat batch"
    using publish_batch_bounds(1) [of MAX_PUBLISH_BATCH_BYTES "c_capacity c"]
    by (simp add: batch_def MAX_PUBLISH_BATCH_BYTES_def word_less_nat_alt)
  then show "deferred sh' c' < unat (publish_batch (sh_mask (bg_sh r) + 1) MAX_PUBLISH_BATCH_BYTES)"
    using A(3) unfolding b by auto
  show "producer_starving (bg_sh r) \<Longrightarrow> deferred sh' c' = 0" using A(4) by (simp add: defs)
  show "sh_mask sh' = sh_mask (bg_sh r)" using G by (simp add: defs)
qed

text \<open>\<open>try_pop\<close>, reading the payload and dropping the guard, on both branches.\<close>

lemma bytes_deq_cases:
  assumes ok: "bytes_ok r"
  obtains (empty) c' where "bytes_contents r = []"
      "bytes_try_pop (bg_sh r) (bg_c r) = Inr (None, c')"
      "bytes_deq r = (None, r\<lparr>bg_c := c'\<rparr>)"
      "bytes_ok (snd (bytes_deq r))" "bytes_contents (snd (bytes_deq r)) = []"
  | (item) g c' sh2 c2 where "bytes_contents r \<noteq> []"
      "bytes_try_pop (bg_sh r) (bg_c r) = Inr (Some g, c')"
      "msg_deref g (bg_sh r) = hd (bytes_contents r)"
      "bytes_ok (r\<lparr>bg_c := c'\<rparr>)" "bytes_contents (r\<lparr>bg_c := c'\<rparr>) = bytes_contents r"
      "msg_drop g (bg_sh r) c' = (sh2, c2)"
      "bytes_deq r = (Some (hd (bytes_contents r)), r\<lparr>bg_sh := sh2, bg_c := c2\<rparr>)"
      "bytes_ok (snd (bytes_deq r))" "bytes_contents (snd (bytes_deq r)) = tl (bytes_contents r)"
      "deferred sh2 c2 < unat (publish_batch (sh_mask (bg_sh r) + 1) MAX_PUBLISH_BATCH_BYTES)"
      "producer_starving (bg_sh r) \<Longrightarrow> deferred sh2 c2 = 0"
      "sh_mask sh2 = sh_mask (bg_sh r)"
proof -
  obtain b c1 where hi: "has_item (bg_sh r) (bg_c r) = (b, c1)" by (rule prod.exhaust)
  note H = bytes_has_item_ok [OF ok hi]
  show ?thesis
  proof (cases b)
    case False
    then have "bytes_contents r = []" "bytes_try_pop (bg_sh r) (bg_c r) = Inr (None, c1)"
      using H(3) hi by (simp_all add: bytes_try_pop_def)
    then show ?thesis using empty [of c1] H by (simp add: bytes_deq_def)
  next
    case True
    define r1 where r1: "r1 = r\<lparr>bg_c := c1\<rparr>"
    have ok1: "bytes_ok r1" and cont: "bytes_contents r1 = bytes_contents r"
      using H by (simp_all add: r1)
    obtain x xs where seen: "bytes_seen r1 = x # xs"
      using H(4) True by (cases "bytes_seen r1") (simp_all add: r1)
    obtain g c' where N: "next_msg (bg_sh r1) (bg_c r1) = Inr (g, c')"
      "msg_deref g (bg_sh r1) = x" "msg_len g = of_nat (length x)"
      "bytes_ok (r1\<lparr>bg_c := c'\<rparr>)" "bytes_seen (r1\<lparr>bg_c := c'\<rparr>) = x # xs"
      "bytes_unseen (r1\<lparr>bg_c := c'\<rparr>) = bytes_unseen r1" "fits_header x"
      "\<exists>d. d + rlen (length x) \<le> cdist (c_read_cursor (bg_c r1)) (c_write_cursor_cache (bg_c r1))
        \<and> c' = (bg_c r1)\<lparr>c_read_cursor := c_read_cursor (bg_c r1) + of_nat d\<rparr>"
      "rlen (length x) \<le> cdist (c_read_cursor c') (c_write_cursor_cache c')"
      "4 dvd slot_ix (sh_mask (bg_sh r1)) (c_read_cursor c' + of_nat (rlen (length x)))"
      "framed (capacity_of (sh_mask (bg_sh r1)))
           (slot_ix (sh_mask (bg_sh r1)) (c_read_cursor c' + of_nat (rlen (length x))))
           (window (sh_mask (bg_sh r1)) (buffer (bg_sh r1)) (c_read_cursor c' + of_nat (rlen (length x)))
              (cdist (c_read_cursor c') (c_write_cursor_cache c') - rlen (length x))) xs"
      by (rule bytes_next_msg_ok [OF ok1 seen])
    define r2 where r2: "r2 = r1\<lparr>bg_c := c'\<rparr>"
    obtain sh2 c2 where D: "msg_drop g (bg_sh r2) (bg_c r2) = (sh2, c2)" by (rule prod.exhaust)
    note R = bytes_release_ok [of r2, OF _ N(7,3) _ _ _ _ D]
    have ok2: "bytes_ok r2" "bytes_seen r2 = x # xs" "bytes_unseen r2 = bytes_unseen r1"
      using N by (simp_all add: r2)
    have tp: "bytes_try_pop (bg_sh r) (bg_c r) = Inr (Some g, c')"
      using hi True N(1) by (simp add: bytes_try_pop_def r1)
    have c0: "bytes_contents r = x # xs @ bytes_unseen r1"
      using cont seen by (simp add: bytes_contents_def)
    have e: "r2\<lparr>bg_sh := sh2, bg_c := c2\<rparr> = r\<lparr>bg_sh := sh2, bg_c := c2\<rparr>"
      by (simp add: r2 r1)
    have fin: "bytes_ok (r2\<lparr>bg_sh := sh2, bg_c := c2\<rparr>)"
      "bytes_seen (r2\<lparr>bg_sh := sh2, bg_c := c2\<rparr>) = xs"
      "bytes_unseen (r2\<lparr>bg_sh := sh2, bg_c := c2\<rparr>) = bytes_unseen r2"
      "deferred sh2 c2 < unat (publish_batch (sh_mask (bg_sh r2) + 1) MAX_PUBLISH_BATCH_BYTES)"
      "producer_starving (bg_sh r2) \<Longrightarrow> deferred sh2 c2 = 0" "sh_mask sh2 = sh_mask (bg_sh r2)"
      using R [OF ok2(1,2)] N(9-11) by (simp_all add: r2)
    have sh: "bg_sh r2 = bg_sh r" "bg_c r2 = c'" "bg_sh r1 = bg_sh r" by (simp_all add: r2 r1)
    have deq: "bytes_deq r = (Some x, r\<lparr>bg_sh := sh2, bg_c := c2\<rparr>)"
      using tp D N(2) by (simp add: bytes_deq_def sh)
    show ?thesis
      by (rule item [of g c' sh2 c2])
        (use fin c0 deq tp D N(2,4-6) e ok2 in \<open>simp_all add: sh r1 bytes_contents_def\<close>)
  qed
qed


section \<open>The byte ring is a bounded FIFO of messages\<close>

lemma bytes_empty_caught_up:
  assumes ok: "bytes_ok r" and e: "bytes_contents r = []"
  shows "queued (bg_sh r) (bg_c r) = 0" and "deferred (bg_sh r) (bg_c r) = 0"
proof -
  show q: "queued (bg_sh r) (bg_c r) = 0" using bytes_contents_nil_iff(1) [OF ok] e by simp
  have "cdist (c_read_cursor (bg_c r)) (c_write_cursor_cache (bg_c r)) = 0"
    using queued_cached [OF bytes_okD(1) [OF ok]] q by simp
  then show "deferred (bg_sh r) (bg_c r) = 0" using bytes_okD(3) [OF ok] by simp
qed

lemma bytes_empty_accepts:
  assumes ok: "bytes_ok r" and legal: "bytes_legal r x" and e: "bytes_contents r = []"
  shows "fst (bytes_enq x r)"
  using bytes_empty_caught_up [OF ok e]
  by (cases rule: bytes_enq_cases [OF ok legal]) auto

lemma bytes_enq_mask: "sh_mask (bg_sh (snd (bytes_enq x r))) = sh_mask (bg_sh r)"
  using has_space_masks(5)
  by (fastforce simp: bytes_enq_def bytes_try_push_def write_frame_def publish_def Let_def
      split: prod.splits sum.splits bool.splits option.splits if_splits)

lemma bytes_deq_mask: "sh_mask (bg_sh (snd (bytes_deq r))) = sh_mask (bg_sh r)"
  by (auto simp: bytes_deq_def msg_drop_def advance_def flush_def Let_def
      split: prod.splits sum.splits bool.splits option.splits if_splits)

interpretation bytes_fifo: bounded_fifo bytes_ok bytes_contents bytes_legal bytes_enq bytes_deq
proof unfold_locales
  fix r :: bytes_ring and v :: "u8 list"
  assume ok: "bytes_ok r" and legal: "bytes_legal r v"
  show "bytes_ok (snd (bytes_enq v r))"
    by (rule bytes_enq_cases [OF ok legal])
  show "bytes_contents (snd (bytes_enq v r))
      = (if fst (bytes_enq v r) then bytes_contents r @ [v] else bytes_contents r)"
    by (rule bytes_enq_cases [OF ok legal]) simp_all
  show "bytes_contents r = [] \<Longrightarrow> fst (bytes_enq v r)"
    by (rule bytes_empty_accepts [OF ok legal])
next
  fix r :: bytes_ring
  assume ok: "bytes_ok r"
  show "bytes_ok (snd (bytes_deq r))" by (rule bytes_deq_cases [OF ok])
  show "fst (bytes_deq r) = (if bytes_contents r = [] then None else Some (hd (bytes_contents r)))"
    by (rule bytes_deq_cases [OF ok]) simp_all
  show "bytes_contents (snd (bytes_deq r)) = tl (bytes_contents r)"
    by (rule bytes_deq_cases [OF ok]) simp_all
next
  fix r :: bytes_ring and v :: "u8 list"
  show "bytes_legal (snd (bytes_enq v r)) = bytes_legal r"
    by (simp add: fun_eq_iff bytes_legal_def bytes_enq_mask)
  show "bytes_legal (snd (bytes_deq r)) = bytes_legal r"
    by (simp add: fun_eq_iff bytes_legal_def bytes_deq_mask)
qed

section \<open>Construction\<close>

lemma bytes_new_ok:
  assumes "bytes_new n = Inr r"
  shows "bytes_ok r" and "bytes_contents r = []" and "unat n \<le> bytes_capacity r"
    and "8 \<le> bytes_capacity r"
proof -
  obtain cap sh p c where cap: "round_capacity n MIN_CAPACITY = Inr cap"
    and ch: "channel cap (8 * unat (cap div 8)) (\<lambda>_. 0) = (sh, p, c)"
    and r: "r = \<lparr>bg_sh = sh, bg_p = p, bg_c = c\<rparr>"
    using assms by (auto simp: bytes_new_def split: sum.splits prod.splits)
  have P: "valid_mask (cap - 1)" "MIN_CAPACITY \<le> cap" "n \<le> cap"
    using round_capacity_pow2 [OF cap, of 3] by (auto simp: MIN_CAPACITY_def)
  have cof: "capacity_of (cap - 1) = unat cap" by (simp add: capacity_of_def)
  have u8: "unat (8 :: usize) = 8" by (rule unat_numeral_span) (simp add: word_span_def)
  have c8: "8 \<le> unat cap" using P(2) u8 by (simp add: MIN_CAPACITY_def word_le_nat_alt)
  have "8 dvd unat cap" using capacity_dvd_8 [OF P(1)] c8 cof by simp
  then have len: "8 * unat (cap div 8) = unat cap" using u8 by (simp add: unat_div)
  have sh: "sh_mask sh = cap - 1" "length (buffer sh) = unat cap" "deferred sh c = 0"
    "c_read_cursor c = 0" "c_write_cursor_cache c = 0" "sh_write_cursor sh = 0"
    using ch len by (auto simp: channel_def deferred_def)
  have nil: "framed k q [] []" for k q by (rule framed.nil)
  have fr: "bytes_frames_ok sh c [] []"
    using sh c8 nil by (simp add: bytes_frames_ok_def Let_def cof slot_ix_def)
  have cu: "cursors_ok sh p c" by (rule cursors_ok_channel [OF P(1) ch])
  show "bytes_ok r" "bytes_contents r = []"
    using bytes_okI [of r "[]" "[]"] cu fr sh by (auto simp: r bytes_contents_def)
  show "unat n \<le> bytes_capacity r" "8 \<le> bytes_capacity r"
    using P(3) c8 by (simp_all add: bytes_capacity_def r sh cof word_le_nat_alt)
qed

section \<open>Draining\<close>

lemma drain_loop_ok:
  assumes m: "valid_mask m" and len: "length buf = capacity_of m"
    and n: "cdist rd e \<le> capacity_of m" and al: "4 dvd slot_ix m rd" and cap8: "8 dvd capacity_of m"
    and fr: "framed (capacity_of m) (slot_ix m rd) (window m buf rd (cdist rd e)) xs"
    and fuel: "length xs \<le> fuel"
  shows "\<exists>ys zs k. drain_loop fuel unwinds count buf m e rd = Some (Inr (ys, rd + of_nat k))
     \<and> xs = ys @ zs \<and> k \<le> cdist rd e \<and> 4 dvd slot_ix m (rd + of_nat k)
     \<and> framed (capacity_of m) (slot_ix m (rd + of_nat k))
         (window m buf (rd + of_nat k) (cdist rd e - k)) zs
     \<and> ((\<forall>i<length xs. \<not> unwinds (count + i)) \<longrightarrow> zs = [])
     \<and> (xs \<noteq> [] \<longrightarrow> ys \<noteq> [])
     \<and> ys = take (Suc (length (takeWhile (\<lambda>i. \<not> unwinds i) [count..<count + length xs]))) xs"
  using n al fr fuel
proof (induction xs arbitrary: fuel count rd)
  case Nil
  then have "cdist rd e = 0"
    using framed_empty_iff [OF Nil.prems(3)] by (metis length_window length_0_conv)
  then have e: "rd = e" by simp
  have s: "drain_loop fuel unwinds count buf m e e = Some (Inr ([], e + of_nat 0))"
    by (simp add: drain_loop.simps [of fuel])
  show ?case
    unfolding e
    by (rule exI [of _ "[]"], rule exI [of _ "[]"], rule exI [of _ 0])
      (use s Nil.prems(2) e in \<open>simp add: framed.nil\<close>)
next
  case (Cons x xs)
  obtain fuel' where fl: "fuel = Suc fuel'" "length xs \<le> fuel'"
    using Cons.prems(4) by (cases fuel) auto
  have "cdist rd e \<noteq> 0"
    using framed_empty_iff [OF Cons.prems(3)] by (intro notI) (simp del: cdist_eq_0_iff)
  then have ne: "e - rd \<noteq> 0" by auto
  let ?r = "rlen (length x)"
  obtain d where D: "decode_record buf m rd
      = Inr (rd + of_nat d, of_nat (length x), slot_ix m (rd + of_nat d) + 4)"
    "d + ?r \<le> cdist rd e" "fits_header x"
    "read_bytes (slot_ix m (rd + of_nat d) + 4) (length x) buf = x"
    "framed (capacity_of m) (slot_ix m (rd + of_nat (d + ?r)))
       (window m buf (rd + of_nat (d + ?r)) (cdist rd e - (d + ?r))) xs"
    "d = 0 \<or> 0 < slot_ix m rd \<and> d = capacity_of m - slot_ix m rd"
    by (rule framed_decode [OF m len Cons.prems(1,3)])
  have ul: "unat (of_nat (length x) :: usize) = length x"
    using fits_header_unat(3) [OF D(3)] ucast_length [OF D(3)] by simp
  have "unat (record_len (of_nat (length x))) = ?r"
    using unat_record_len [of "of_nat (length x)"] D(3)
    by (simp add: ul fits_header_def word_span_def)
  then have rw: "record_len (of_nat (length x)) = of_nat ?r"
    by (metis of_nat_unat ucast_id)
  define rd' where rd': "rd' = rd + of_nat (d + ?r)"
  have step: "rd + of_nat d + record_len (of_nat (length x)) = rd'"
    by (simp add: rd' rw add.assoc)
  have lt: "d + ?r < word_span" using D(2) cdist_less_span le_less_trans by blast
  have cd: "cdist rd' e = cdist rd e - (d + ?r)"
    using cdist_advance [of "of_nat (d + ?r)" rd e] D(2) unat_of_nat_span [OF lt]
    by (simp add: rd' del: of_nat_add)
  have a0: "4 dvd slot_ix m (rd + of_nat d)"
    using D(6) Cons.prems(2) slot_ix_to_end [OF m, of rd] by auto
  have "4 dvd (slot_ix m (rd + of_nat d) + ?r) mod capacity_of m"
  proof -
    have "4 dvd capacity_of m" using cap8 by presburger
    then show ?thesis
      using a0 rlen_bounds(3) [of "length x"] by (simp add: dvd_mod mod_eq_0_iff_dvd)
  qed
  then have al': "4 dvd slot_ix m rd'"
    using slot_ix_step [OF m, of "rd + of_nat d" ?r] by (simp add: rd' add.assoc)
  have unfold: "drain_loop fuel unwinds count buf m e rd
      = (if unwinds count then Some (Inr ([x], rd'))
         else (case drain_loop fuel' unwinds (Suc count) buf m e rd' of
                 Some (Inr (xs, rd'')) \<Rightarrow> Some (Inr (x # xs, rd''))
               | other \<Rightarrow> other))"
    using ne D(1,4) step by (simp add: drain_loop.simps [of "Suc fuel'"] fl Let_def ul
        split: option.split sum.split)
  show ?case
  proof (cases "unwinds count")
    case True
    show ?thesis
      by (rule exI [of _ "[x]"], rule exI [of _ xs], rule exI [of _ "d + ?r"])
        (use True unfold D(2,5) al' rd' in \<open>auto simp: upt_conv_Cons\<close>)
  next
    case False
    have n': "cdist rd' e \<le> capacity_of m" using cd Cons.prems(1) by simp
    have fr': "framed (capacity_of m) (slot_ix m rd') (window m buf rd' (cdist rd' e)) xs"
      using D(5) cd by (simp add: rd')
    obtain ys zs k where I: "drain_loop fuel' unwinds (Suc count) buf m e rd'
        = Some (Inr (ys, rd' + of_nat k))" "xs = ys @ zs" "k \<le> cdist rd' e"
      "4 dvd slot_ix m (rd' + of_nat k)"
      "framed (capacity_of m) (slot_ix m (rd' + of_nat k))
         (window m buf (rd' + of_nat k) (cdist rd' e - k)) zs"
      "(\<forall>i<length xs. \<not> unwinds (Suc count + i)) \<longrightarrow> zs = []"
      "ys = take (Suc (length (takeWhile (\<lambda>i. \<not> unwinds i) [Suc count..<Suc count + length xs]))) xs"
      using Cons.IH [OF n' al' fr' fl(2), of "Suc count"] by blast
    have nx: "rd' + of_nat k = rd + of_nat (d + ?r + k)" by (simp add: rd' add.assoc)
    have rem: "cdist rd' e - k = cdist rd e - (d + ?r + k)" using cd by simp
    have all: "zs = []" if "\<forall>i<length (x # xs). \<not> unwinds (count + i)"
      using I(6) that by (auto dest: spec [of _ "Suc _"])
    have cut: "x # ys = take (Suc (length (takeWhile (\<lambda>i. \<not> unwinds i)
        [count..<count + length (x # xs)]))) (x # xs)"
    proof -
      have "[count..<count + length (x # xs)] = count # [Suc count..<Suc count + length xs]"
        by (simp add: upt_conv_Cons del: upt_Suc)
      then show ?thesis using False I(7) by simp
    qed
    have loop: "drain_loop fuel unwinds count buf m e rd = Some (Inr (x # ys, rd + of_nat (d + ?r + k)))"
      unfolding unfold using False I(1) nx by simp
    have k': "d + ?r + k \<le> cdist rd e" using I(3) cd D(2) by linarith
    have tail: "framed (capacity_of m) (slot_ix m (rd + of_nat (d + ?r + k)))
        (window m buf (rd + of_nat (d + ?r + k)) (cdist rd e - (d + ?r + k))) zs"
      using I(5) unfolding nx rem .
    have "4 dvd slot_ix m (rd + of_nat (d + ?r + k))" using I(4) unfolding nx .
    moreover have "x # xs = (x # ys) @ zs" using I(2) by simp
    ultimately show ?thesis using loop k' tail all cut by blast
  qed
qed

text \<open>\<open>drain\<close>: every queued message, or those up to the callback's panic, and one publish.\<close>

lemma bytes_drain_ok:
  assumes ok: "bytes_ok r" and fuel: "length (bytes_contents r) \<le> fuel"
  obtains ys sh' c' where "bytes_drain fuel unwinds (bg_sh r) (bg_c r) = Some (Inr (ys, sh', c'))"
    and "bytes_ok (r\<lparr>bg_sh := sh', bg_c := c'\<rparr>)"
    and "bytes_contents r = ys @ bytes_contents (r\<lparr>bg_sh := sh', bg_c := c'\<rparr>)"
    and "bytes_contents r \<noteq> [] \<Longrightarrow> ys \<noteq> [] \<and> deferred sh' c' = 0"
    and "(\<forall>i<length (bytes_contents r). \<not> unwinds i) \<Longrightarrow>
           bytes_contents (r\<lparr>bg_sh := sh', bg_c := c'\<rparr>) = []"
    and "ys = take (Suc (length (takeWhile (\<lambda>i. \<not> unwinds i) [0..<length (bytes_contents r)])))
           (bytes_contents r)"
proof -
  obtain w c1 where rf: "refresh (bg_sh r) (bg_c r) = (w, c1)" by (rule prod.exhaust)
  note R = bytes_refresh_ok [OF ok rf]
  define r1 where r1: "r1 = r\<lparr>bg_c := c1\<rparr>"
  have ok1: "bytes_ok r1" and seen: "bytes_seen r1 = bytes_contents r" and un: "bytes_unseen r1 = []"
    using R by (simp_all add: r1)
  note okD = bytes_okD [OF ok1]
  let ?sh = "bg_sh r" and ?m = "sh_mask (bg_sh r)" and ?rd = "c_read_cursor c1"
  have w: "w = sh_write_cursor ?sh" "c_write_cursor_cache c1 = w"
    using refresh_ok [OF bytes_okD(1) [OF ok] rf] by simp_all
  have cont1: "bytes_contents r1 = bytes_contents r" using seen un by (simp add: bytes_contents_def)
  have cm: "c_mask c1 = ?m" using cursors_ok_masks [OF okD(1)] by (simp add: r1)
  show ?thesis
  proof (cases "w - ?rd = 0")
    case True
    then have "w = ?rd" by simp
    then have "bytes_contents r = []"
      using bytes_contents_nil_iff(2) [OF ok1] seen w by (simp add: r1)
    moreover have "bytes_drain fuel unwinds ?sh (bg_c r) = Some (Inr ([], ?sh, c1))"
      using rf True by (simp add: bytes_drain_def)
    moreover have "r\<lparr>bg_sh := ?sh, bg_c := c1\<rparr> = r1" by (simp add: r1)
    ultimately show ?thesis using that [of "[]" ?sh c1] ok1 cont1 by simp
  next
    case False
    have F: "length (buffer ?sh) = capacity_of ?m" "8 \<le> capacity_of ?m" "4 dvd slot_ix ?m ?rd"
      "framed (capacity_of ?m) (slot_ix ?m ?rd) (window ?m (buffer ?sh) ?rd (cdist ?rd w))
         (bytes_contents r)"
      using okD(2) seen w by (auto simp: bytes_frames_ok_def Let_def r1 mod_eq_0_iff_dvd)
    have m: "valid_mask ?m" using okD(4) by (simp add: r1)
    have n: "cdist ?rd w \<le> capacity_of ?m"
      using queued_le [OF okD(1)] by (simp add: queued_def r1 w(1))
    obtain ys zs k where L: "drain_loop fuel unwinds 0 (buffer ?sh) ?m w ?rd
        = Some (Inr (ys, ?rd + of_nat k))" "bytes_contents r = ys @ zs" "k \<le> cdist ?rd w"
      "4 dvd slot_ix ?m (?rd + of_nat k)"
      "framed (capacity_of ?m) (slot_ix ?m (?rd + of_nat k))
         (window ?m (buffer ?sh) (?rd + of_nat k) (cdist ?rd w - k)) zs"
      "(\<forall>i<length (bytes_contents r). \<not> unwinds (0 + i)) \<longrightarrow> zs = []"
      "bytes_contents r \<noteq> [] \<longrightarrow> ys \<noteq> []"
      "ys = take (Suc (length (takeWhile (\<lambda>i. \<not> unwinds i)
         [0..<0 + length (bytes_contents r)]))) (bytes_contents r)"
      using drain_loop_ok [OF m F(1) n F(3) capacity_dvd_8 [OF m F(2)] F(4) fuel, of unwinds 0] by blast
    define c2 where c2: "c2 = c1\<lparr>c_read_cursor := ?rd + of_nat k\<rparr>"
    have kn: "k \<le> cdist (c_read_cursor c1) (c_write_cursor_cache c1)" using L(3) w(2) by simp
    have cu1: "cursors_ok ?sh (bg_p r) c1" using okD(1) by (simp add: r1)
    note S = skip_cursor_ok [OF cu1 kn, folded c2]
    obtain sh' c' where fl: "flush_pending ?sh c2 = (sh', c')" by (rule prod.exhaust)
    note P = flush_pending_ok [OF S(1) fl]
    have cw: "c_write_cursor_cache c' = w"
      using fl w(2) by (auto simp: flush_pending_def flush_def c2 split: if_splits)
    have cd: "cdist (?rd + of_nat k) w = cdist ?rd w - k"
      using cdist_advance [of "of_nat k" ?rd w] L(3) S(2) by simp
    have fr: "bytes_frames_ok sh' c' zs []"
    proof -
      have rd': "c_read_cursor c' = ?rd + of_nat k" using P(3) by (simp add: c2)
      have "slot_ix ?m (?rd + of_nat k) mod 4 = 0" using L(4) by (simp add: mod_eq_0_iff_dvd)
      then show ?thesis
        unfolding bytes_frames_ok_def Let_def P(4,5,8) cw rd' cd w(1) [symmetric]
        using F(1,2) L(5) by (simp add: framed.nil)
    qed
    have inv: "bytes_ok (r\<lparr>bg_sh := sh', bg_c := c'\<rparr>)"
      "bytes_seen (r\<lparr>bg_sh := sh', bg_c := c'\<rparr>) = zs"
      "bytes_unseen (r\<lparr>bg_sh := sh', bg_c := c'\<rparr>) = []"
      using bytes_okI [of "r\<lparr>bg_sh := sh', bg_c := c'\<rparr>" zs "[]"] P(1,2) fr by auto
    have run: "bytes_drain fuel unwinds ?sh (bg_c r) = Some (Inr (ys, sh', c'))"
      using rf False L(1) fl by (simp add: bytes_drain_def cm c2)
    have cont: "bytes_contents (r\<lparr>bg_sh := sh', bg_c := c'\<rparr>) = zs"
      using inv by (simp add: bytes_contents_def)
    show ?thesis
    proof (rule that [OF run inv(1)], unfold cont)
      show "bytes_contents r = ys @ zs" by (rule L(2))
      show "bytes_contents r \<noteq> [] \<Longrightarrow> ys \<noteq> [] \<and> deferred sh' c' = 0" using L(7) P(2) by blast
      show "\<forall>i<length (bytes_contents r). \<not> unwinds i \<Longrightarrow> zs = []"
        using L(6) unfolding add_0 by blast
      show "ys = take (Suc (length (takeWhile (\<lambda>i. \<not> unwinds i) [0..<length (bytes_contents r)])))
          (bytes_contents r)"
        using L(8) unfolding add_0 .
    qed
  qed
qed


text \<open>Filling the claimed slice disturbs no queued message.\<close>

lemma bytes_fill_ok:
  assumes ok: "bytes_ok r" and legal: "bytes_legal r x" and small: "length x < word_span"
    and fr: "frame (of_nat (length x)) (bg_p r) = Inr (pad, need)"
    and room: "cdist (p_read_cursor_cache (bg_p r)) (sh_write_cursor (bg_sh r)) + unat need
                 \<le> capacity_of (sh_mask (bg_sh r))"
  obtains buf' where "store (payload_ptr pad (bg_p r)) x (buffer (bg_sh r)) = Inr buf'"
    and "read_bytes (payload_ptr pad (bg_p r)) (length x) buf' = x"
    and "bytes_ok (r\<lparr>bg_sh := (bg_sh r)\<lparr>buffer := buf'\<rparr>\<rparr>)"
    and "bytes_contents (r\<lparr>bg_sh := (bg_sh r)\<lparr>buffer := buf'\<rparr>\<rparr>) = bytes_contents r"
proof -
  define sh p c where defs: "sh = bg_sh r" "p = bg_p r" "c = bg_c r"
  note okD = bytes_okD [OF ok, folded defs]
  note R = bytes_reserved [OF ok legal small fr room, folded defs]
  let ?m = "sh_mask sh" and ?rd = "c_read_cursor c" and ?n = "queued sh c" and ?P = "unat pad"
  let ?pos = "payload_ptr pad p" and ?cap = "capacity_of ?m"
  have m: "valid_mask ?m" by (rule okD(4))
  have len: "length (buffer sh) = ?cap" using okD(2) by (simp add: bytes_frames_ok_def Let_def)
  have pos: "?pos = slot_ix ?m (p_write_cursor p + pad) + 4"
    using cursors_ok_masks [OF okD(1)] by (simp add: payload_ptr_def)
  have r4: "4 + length x \<le> rlen (length x)" using rlen_bounds(1) [of "length x"] by simp
  have b: "?pos + length x \<le> length (buffer sh)" using R(4) r4 len pos by linarith
  have w: "window ?m (write_bytes ?pos x (buffer sh)) ?rd ?n = window ?m (buffer sh) ?rd ?n"
  proof (cases "x = []")
    case True
    then show ?thesis by (simp add: write_bytes_def)
  next
    case False
    then have lt: "slot_ix ?m (p_write_cursor p + pad) + 4 < ?cap" using R(4) r4 by (cases x) auto
    have e: "p_write_cursor p + pad + of_nat 4 = ?rd + of_nat (?n + ?P + 4)"
      using cursors_ok_write [OF okD(1)] by (simp add: add.assoc [symmetric])
    have at: "?pos = slot_ix ?m (?rd + of_nat (?n + ?P + 4))"
      unfolding pos e [symmetric] using slot_ix_shift [OF m lt] by simp
    have f: "?n + ?P + 4 + length x \<le> ?cap" using R(6) r4 by linarith
    have room': "slot_ix ?m (?rd + of_nat (?n + ?P + 4)) + length x \<le> ?cap"
      unfolding at [symmetric] using b len by simp
    have "0 + ?n \<le> ?cap" "0 + ?n \<le> ?n + ?P + 4" using R(6) by simp_all
    from window_write_other [OF m len f room' this(1) disjI1 [OF this(2)]] show ?thesis
      unfolding at [symmetric] by simp
  qed
  have fr2: "bytes_frames_ok (sh\<lparr>buffer := write_bytes ?pos x (buffer sh)\<rparr>) c
      (bytes_seen r) (bytes_unseen r)"
  proof -
    have k: "cdist ?rd (c_write_cursor_cache c)
        + cdist (c_write_cursor_cache c) (sh_write_cursor sh) = ?n" by (rule cached_split [OF okD(1)])
    have 1: "window ?m (write_bytes ?pos x (buffer sh)) ?rd (cdist ?rd (c_write_cursor_cache c))
        = window ?m (buffer sh) ?rd (cdist ?rd (c_write_cursor_cache c))"
      using window_part [OF w, of 0 "cdist ?rd (c_write_cursor_cache c)"] k by simp
    have 2: "window ?m (write_bytes ?pos x (buffer sh)) (c_write_cursor_cache c)
          (cdist (c_write_cursor_cache c) (sh_write_cursor sh))
        = window ?m (buffer sh) (c_write_cursor_cache c)
          (cdist (c_write_cursor_cache c) (sh_write_cursor sh))"
      using window_part [OF w, of "cdist ?rd (c_write_cursor_cache c)"
          "cdist (c_write_cursor_cache c) (sh_write_cursor sh)"] k by simp
    show ?thesis
      using okD(2) length_write_bytes [OF b] 1 2 by (simp add: bytes_frames_ok_def Let_def)
  qed
  have "bytes_ok (r\<lparr>bg_sh := sh\<lparr>buffer := write_bytes ?pos x (buffer sh)\<rparr>\<rparr>)"
    "bytes_seen (r\<lparr>bg_sh := sh\<lparr>buffer := write_bytes ?pos x (buffer sh)\<rparr>\<rparr>) = bytes_seen r"
    "bytes_unseen (r\<lparr>bg_sh := sh\<lparr>buffer := write_bytes ?pos x (buffer sh)\<rparr>\<rparr>) = bytes_unseen r"
    using bytes_okI [of "r\<lparr>bg_sh := sh\<lparr>buffer := write_bytes ?pos x (buffer sh)\<rparr>\<rparr>"] okD(1,3) fr2
    by (auto simp flip: defs)
  then show ?thesis
    using that [of "write_bytes ?pos x (buffer sh)"] b read_write_bytes [OF b]
    by (simp add: store_def bytes_contents_def flip: defs)
qed

end
