(* ===== verification/Spsc_Bytes_Properties.thy ===== *)
theory Spsc_Bytes_Properties
  imports Spsc_Bytes
begin

text \<open>
  What the SPSC byte ring guarantees: the history of a run, the two outcomes of
  a push and its one panic, that a legal message always fits eventually, the
  zero-copy claim and read guards, and the batch drain.
\<close>

definition bytes8 :: bytes_ring where
  "bytes8 = projr (bytes_new 16)"

lemma bytes8_new: "bytes_new 16 = Inr bytes8"
proof -
  have "\<not> isl (bytes_new 16)" by code_simp
  then show ?thesis by (simp add: bytes8_def)
qed

definition sample_msgs :: "u8 list fifo_op list" where
  "sample_msgs = [Enq [1, 2], Deq, Enq [3, 4, 5], Enq [], Deq, Enq [6], Enq [7]]"

definition sample_bytes :: bytes_ring where
  "sample_bytes = snd (snd (fifo_run bytes_enq bytes_deq sample_msgs bytes8))"

lemma sample_bytes_run:
  "fifo_run bytes_enq bytes_deq sample_msgs bytes8
     = ([[1, 2], [3, 4, 5], [], [6]], [[1, 2], [3, 4, 5]], sample_bytes)"
  by code_simp

lemma sample_msgs_legal: "\<forall>x\<in>set sample_msgs. op_legal (bytes_legal bytes8) x"
proof -
  have "list_all (op_legal (bytes_legal bytes8)) sample_msgs" by code_simp
  then show ?thesis by (simp add: list_all_iff)
qed

text \<open>
  (C7) Over any run of \<open>try_push\<close> and \<open>try_pop\<close> of legal messages on a new ring,
  the accepted messages are, byte for byte and in order, the delivered ones
  followed by the queued ones, across wrap padding and reused buffer space.
\<close>

theorem bytes_history:
  assumes new: "bytes_new n = Inr r" and legal: "\<forall>x\<in>set ops. op_legal (bytes_legal r) x"
    and run: "fifo_run bytes_enq bytes_deq ops r = (ins, outs, r')"
  shows "ins = outs @ bytes_contents r'"
  using bytes_fifo.run_history [OF bytes_new_ok(1) [OF new] legal run] bytes_new_ok(2) [OF new]
  by simp

lemma bytes_history_witness:
  "[[1, 2], [3, 4, 5], [], [6]] = [[1, 2], [3, 4, 5]] @ bytes_contents sample_bytes"
  by (rule bytes_history [OF bytes8_new sample_msgs_legal sample_bytes_run])

lemma sample_bytes_ok: "bytes_ok sample_bytes" and sample_bytes_contents:
  "bytes_contents sample_bytes = [[], [6]]"
proof -
  note N = bytes_new_ok [OF bytes8_new]
  show "bytes_ok sample_bytes"
    by (rule bytes_fifo.run_inv [OF N(1) sample_msgs_legal sample_bytes_run])
  show "bytes_contents sample_bytes = [[], [6]]"
    using bytes_fifo.run_history [OF N(1) sample_msgs_legal sample_bytes_run] N(2) by simp
qed

text \<open>
  The three outcomes of \<open>try_push\<close> (a slice is shorter than \<open>2 ^ 64\<close>): it
  panics exactly on a message longer than \<open>max_message_len\<close>; otherwise it
  appends the message, or refuses it and changes no message, and then padding
  and record do not fit the space seen free (queued bytes plus consumed and
  unpublished ones). It never touches memory outside the buffer.
\<close>

theorem bytes_try_push_outcomes:
  assumes ok: "bytes_ok r" and slice: "length x < word_span"
  shows "case bytes_try_push x (bg_sh r) (bg_p r) of
      Inl f \<Rightarrow> f = Panic \<and> unat (bytes_max_message_len (bg_p r)) < length x
    | Inr (b, sh', p') \<Rightarrow>
        length x \<le> unat (bytes_max_message_len (bg_p r))
        \<and> bytes_ok (r\<lparr>bg_sh := sh', bg_p := p'\<rparr>)
        \<and> (if b then bytes_contents (r\<lparr>bg_sh := sh', bg_p := p'\<rparr>) = bytes_contents r @ [x]
           else bytes_contents (r\<lparr>bg_sh := sh', bg_p := p'\<rparr>) = bytes_contents r
             \<and> (\<exists>pad need. frame (of_nat (length x)) (bg_p r) = Inr (pad, need)
                  \<and> bytes_capacity r < deferred (bg_sh r) (bg_c r) + queued (bg_sh r) (bg_c r)
                      + unat need))"
proof -
  have pm: "p_mask (bg_p r) = sh_mask (bg_sh r)"
    using cursors_ok_masks [OF bytes_okD(1) [OF ok]] by simp
  have leg: "bytes_legal r x \<longleftrightarrow> length x \<le> unat (bytes_max_message_len (bg_p r))"
    by (simp add: bytes_legal_def bytes_max_message_len_def p_capacity_def pm)
  show ?thesis
  proof (cases "bytes_legal r x")
    case False
    then have "\<not> of_nat (length x) \<le> max_message_len (p_capacity (bg_p r))"
      using leg unat_of_nat_span [OF slice] by (simp add: word_le_nat_alt bytes_max_message_len_def)
    then show ?thesis
      using False leg by (simp add: bytes_try_push_def frame_def Let_def)
  next
    case True
    from ok True show ?thesis
    proof (cases rule: bytes_enq_cases)
      case (full sh' p' need)
      obtain pad where "frame (of_nat (length x)) (bg_p r) = Inr (pad, of_nat need)"
        using full(8) by blast
      moreover have "unat (of_nat need :: usize) = need"
        using full(7) capacity_less [OF bytes_okD(4) [OF ok]] unat_of_nat_span
        by (simp add: bytes_capacity_def)
      ultimately show ?thesis using full True leg by auto
    next
      case (space sh' p')
      then show ?thesis using True leg by simp
    qed
  qed
qed

lemma bytes_try_push_outcomes_witness:
  "bytes_try_push [1, 2, 3, 4, 5] (bg_sh sample_bytes) (bg_p sample_bytes) = Inl Panic"
proof -
  have "length [1, 2, 3, 4, 5 :: u8] < word_span" by (simp add: word_span_def)
  moreover have "unat (bytes_max_message_len (bg_p sample_bytes)) = 4" by code_simp
  ultimately show ?thesis
    using bytes_try_push_outcomes [OF sample_bytes_ok, of "[1, 2, 3, 4, 5]"]
    by (auto split: sum.splits)
qed

text \<open>
  (C8) No message is undeliverable: wherever the cursors stand, padding plus
  record of a legal message are less than the ring, and a ring without messages
  accepts it. (A message of up to \<open>capacity / 2 - 4\<close> bytes is legal.)
\<close>

theorem bytes_legal_fits:
  assumes ok: "bytes_ok r" and legal: "length x \<le> unat (bytes_max_message_len (bg_p r))"
  shows "(\<exists>pad need. frame (of_nat (length x)) (bg_p r) = Inr (pad, need)
            \<and> unat need < bytes_capacity r)
    \<and> (bytes_contents r = [] \<longrightarrow>
         (\<exists>sh' p'. bytes_try_push x (bg_sh r) (bg_p r) = Inr (True, sh', p')))
    \<and> unat (bytes_max_message_len (bg_p r)) = min (bytes_capacity r div 2 - 4) (2 ^ 32 - 2)"
proof (intro conjI impI)
  have pm: "p_mask (bg_p r) = sh_mask (bg_sh r)"
    using cursors_ok_masks [OF bytes_okD(1) [OF ok]] by simp
  have leg: "bytes_legal r x"
    using legal by (simp add: bytes_legal_def bytes_max_message_len_def p_capacity_def pm)
  have u: "unat (of_nat (length x) :: usize) = length x"
    by (rule unat_of_nat_span [OF bytes_legal_small [OF ok leg]])
  have le: "unat (of_nat (length x) :: usize) \<le> unat (max_message_len (sh_mask (bg_sh r) + 1))"
    using leg by (simp add: u bytes_legal_def)
  show "\<exists>pad need. frame (of_nat (length x)) (bg_p r) = Inr (pad, need)
      \<and> unat need < bytes_capacity r"
    by (rule bytes_frame_ok [OF ok le]) blast
  show "\<exists>sh' p'. bytes_try_push x (bg_sh r) (bg_p r) = Inr (True, sh', p')"
    if "bytes_contents r = []"
    by (cases rule: bytes_enq_cases [OF ok leg])
      (use bytes_empty_accepts [OF ok leg that] in auto)
  have "8 \<le> unat (sh_mask (bg_sh r) + 1)"
    using bytes_okD(2) [OF ok] by (simp add: bytes_frames_ok_def Let_def)
  then show "unat (bytes_max_message_len (bg_p r)) = min (bytes_capacity r div 2 - 4) (2 ^ 32 - 2)"
    using max_message_len_nat by (simp add: bytes_max_message_len_def p_capacity_def pm bytes_capacity_def)
qed

lemma bytes_legal_fits_witness:
  "\<exists>pad need. frame 3 (bg_p sample_bytes) = Inr (pad, need) \<and> unat need < 16"
proof -
  have "unat (bytes_max_message_len (bg_p sample_bytes)) = 4" "bytes_capacity sample_bytes = 16"
    by code_simp+
  then show ?thesis using bytes_legal_fits [OF sample_bytes_ok, of "[1, 2, 3]"] by auto
qed


text \<open>
  The zero-copy write path: a claim of \<open>length x\<close> bytes that succeeds leaves
  the queue alone until commit; serialising \<open>x\<close> into the claimed slice stays
  inside the buffer and disturbs no queued message; committing appends exactly
  \<open>x\<close>. Dropping the slot instead leaves the queue as it was.
\<close>

theorem bytes_claim_commit:
  assumes ok: "bytes_ok r" and legal: "length x \<le> unat (bytes_max_message_len (bg_p r))"
    and cl: "bytes_try_claim (of_nat (length x)) (bg_sh r) (bg_p r) = Inr (Some ws, sh1, p1)"
  shows "\<exists>sh2 sh3 p3. slot_deref_mut (\<lambda>_. x) ws sh1 = Inr sh2
           \<and> slot_deref ws sh2 = x
           \<and> bytes_commit ws sh2 p1 = Inr (sh3, p3)
           \<and> bytes_ok (r\<lparr>bg_sh := sh3, bg_p := p3\<rparr>)
           \<and> bytes_contents (r\<lparr>bg_sh := sh3, bg_p := p3\<rparr>) = bytes_contents r @ [x]
           \<and> bytes_ok (r\<lparr>bg_sh := sh2, bg_p := p1\<rparr>)
           \<and> bytes_contents (r\<lparr>bg_sh := sh2, bg_p := p1\<rparr>) = bytes_contents r"
proof -
  have pm: "p_mask (bg_p r) = sh_mask (bg_sh r)"
    using cursors_ok_masks [OF bytes_okD(1) [OF ok]] by simp
  have leg: "bytes_legal r x"
    using legal by (simp add: bytes_legal_def bytes_max_message_len_def p_capacity_def pm)
  have small: "length x < word_span" by (rule bytes_legal_small [OF ok leg])
  have u: "unat (of_nat (length x) :: usize) = length x" by (rule unat_of_nat_span [OF small])
  have le: "unat (of_nat (length x) :: usize) \<le> unat (max_message_len (sh_mask (bg_sh r) + 1))"
    using leg by (simp add: u bytes_legal_def)
  obtain pad need where F: "frame (of_nat (length x)) (bg_p r) = Inr (pad, need)"
    "request_ok (sh_mask (bg_sh r)) need"
    by (rule bytes_frame_ok [OF ok le])
  have hs: "has_space need (bg_sh r) (bg_p r) = (True, sh1, p1)"
    and ws: "ws = \<lparr>ws_payload = payload_ptr pad p1, ws_pad = pad, ws_len = of_nat (length x)\<rparr>"
    using cl F(1) by (auto simp: bytes_try_claim_def split: prod.splits bool.splits)
  note M = has_space_masks [OF hs]
  define r1 where r1: "r1 = r\<lparr>bg_sh := sh1, bg_p := p1\<rparr>"
  have ok1: "bytes_ok r1" "bytes_contents r1 = bytes_contents r"
    using bytes_has_space_ok [OF ok hs] by (simp_all add: r1 bytes_contents_def)
  have leg1: "bytes_legal r1 x" using leg M by (simp add: bytes_legal_def r1)
  have fr1: "frame (of_nat (length x)) (bg_p r1) = Inr (pad, need)"
    using F(1) frame_cong [OF M(1,2)] by (simp add: r1)
  have room: "cdist (p_read_cursor_cache (bg_p r1)) (sh_write_cursor (bg_sh r1)) + unat need
      \<le> capacity_of (sh_mask (bg_sh r1))"
    using has_space_True [OF bytes_okD(1) [OF ok] F(2) hs] M by (simp add: r1)
  obtain buf' where B: "store (payload_ptr pad (bg_p r1)) x (buffer (bg_sh r1)) = Inr buf'"
    "read_bytes (payload_ptr pad (bg_p r1)) (length x) buf' = x"
    "bytes_ok (r1\<lparr>bg_sh := (bg_sh r1)\<lparr>buffer := buf'\<rparr>\<rparr>)"
    "bytes_contents (r1\<lparr>bg_sh := (bg_sh r1)\<lparr>buffer := buf'\<rparr>\<rparr>) = bytes_contents r1"
    by (rule bytes_fill_ok [OF ok1(1) leg1 small fr1 room])
  define sh2 where sh2: "sh2 = sh1\<lparr>buffer := buf'\<rparr>"
  define r2 where r2: "r2 = r1\<lparr>bg_sh := (bg_sh r1)\<lparr>buffer := buf'\<rparr>\<rparr>"
  have e2: "bg_sh r2 = sh2" "bg_p r2 = p1" by (simp_all add: r2 r1 sh2)
  have leg2: "bytes_legal r2 x" using leg1 by (simp add: bytes_legal_def r2)
  have fr2: "frame (of_nat (length x)) (bg_p r2) = Inr (pad, need)" using fr1 by (simp add: r2)
  have room2: "cdist (p_read_cursor_cache (bg_p r2)) (sh_write_cursor (bg_sh r2)) + unat need
      \<le> capacity_of (sh_mask (bg_sh r2))"
    using room by (simp add: r2)
  have src: "None = Some x \<or> None = None
      \<and> read_bytes (payload_ptr pad (bg_p r2)) (length x) (buffer (bg_sh r2)) = x"
    using B(2) by (simp add: r2)
  have ok2: "bytes_ok r2" using B(3) by (simp add: r2)
  obtain sh3 p3 where W: "write_frame pad (of_nat (length x)) None (bg_sh r2) (bg_p r2) = Inr (sh3, p3)"
    "bytes_ok (r2\<lparr>bg_sh := sh3, bg_p := p3\<rparr>)"
    "bytes_seen (r2\<lparr>bg_sh := sh3, bg_p := p3\<rparr>) = bytes_seen r2"
    "bytes_unseen (r2\<lparr>bg_sh := sh3, bg_p := p3\<rparr>) = bytes_unseen r2 @ [x]"
    by (rule bytes_write_ok [OF ok2 leg2 small fr2 room2 src])
  have fill: "slot_deref_mut (\<lambda>_. x) ws sh1 = Inr sh2" "slot_deref ws sh2 = x"
    using B(1,2) u by (simp_all add: slot_deref_mut_def slot_deref_def ws r1 sh2)
  have comm: "bytes_commit ws sh2 p1 = Inr (sh3, p3)"
    using W(1) by (simp add: bytes_commit_def ws e2)
  have "bytes_contents (r2\<lparr>bg_sh := sh3, bg_p := p3\<rparr>) = bytes_contents r @ [x]"
    using W(3,4) B(4) ok1(2) by (simp add: bytes_contents_def r2)
  moreover have "r2\<lparr>bg_sh := sh3, bg_p := p3\<rparr> = r\<lparr>bg_sh := sh3, bg_p := p3\<rparr>"
    by (simp add: r2 r1)
  moreover have "r1\<lparr>bg_sh := (bg_sh r1)\<lparr>buffer := buf'\<rparr>\<rparr> = r\<lparr>bg_sh := sh2, bg_p := p1\<rparr>"
    by (simp add: r1 sh2)
  ultimately show ?thesis using fill comm W(2) B(3,4) ok1(2) by metis
qed

lemma bytes_claim_commit_witness:
  "\<exists>ws sh1 p1 sh2. bytes_try_claim 2 (bg_sh bytes8) (bg_p bytes8) = Inr (Some ws, sh1, p1)
     \<and> slot_deref_mut (\<lambda>_. [8, 9]) ws sh1 = Inr sh2"
proof -
  have "(case bytes_try_claim 2 (bg_sh bytes8) (bg_p bytes8) of
      Inr (Some ws, sh1, p1) \<Rightarrow> True | _ \<Rightarrow> False)" by code_simp
  then obtain ws sh1 p1 where cl: "bytes_try_claim 2 (bg_sh bytes8) (bg_p bytes8) = Inr (Some ws, sh1, p1)"
    by (auto split: sum.splits prod.splits option.splits)
  have l: "length [8, 9 :: u8] \<le> unat (bytes_max_message_len (bg_p bytes8))" by code_simp
  show ?thesis
    using bytes_claim_commit [OF bytes_new_ok(1) [OF bytes8_new] l] cl by auto
qed

text \<open>
  The read guard: when a message is queued, \<open>try_pop\<close> returns a guard on the
  oldest one; forgetting the guard leaves every message queued (it is delivered
  again), dropping it removes exactly that message and leaves less than one
  publish batch unpublished, nothing when the producer has signalled
  starvation. With no message queued there is no guard.
\<close>

theorem bytes_pop_guard:
  assumes ok: "bytes_ok r"
  shows "case bytes_contents r of
      [] \<Rightarrow> (\<exists>c'. bytes_try_pop (bg_sh r) (bg_c r) = Inr (None, c'))
    | x # xs \<Rightarrow>
        (\<exists>g c' sh2 c2. bytes_try_pop (bg_sh r) (bg_c r) = Inr (Some g, c')
          \<and> msg_deref g (bg_sh r) = x
          \<and> bytes_ok (r\<lparr>bg_c := c'\<rparr>) \<and> bytes_contents (r\<lparr>bg_c := c'\<rparr>) = x # xs
          \<and> msg_drop g (bg_sh r) c' = (sh2, c2)
          \<and> bytes_ok (r\<lparr>bg_sh := sh2, bg_c := c2\<rparr>)
          \<and> bytes_contents (r\<lparr>bg_sh := sh2, bg_c := c2\<rparr>) = xs
          \<and> deferred sh2 c2 < unat (publish_batch (sh_mask (bg_sh r) + 1) MAX_PUBLISH_BATCH_BYTES)
          \<and> (producer_starving (bg_sh r) \<longrightarrow> deferred sh2 c2 = 0))"
  using ok
proof (cases rule: bytes_deq_cases)
  case (empty c')
  then show ?thesis by simp
next
  case (item g c' sh2 c2)
  obtain x xs where "bytes_contents r = x # xs" using item(1) by (cases "bytes_contents r") auto
  then show ?thesis using item by auto
qed

lemma bytes_pop_guard_witness:
  "\<exists>g c'. bytes_try_pop (bg_sh sample_bytes) (bg_c sample_bytes) = Inr (Some g, c')
     \<and> msg_deref g (bg_sh sample_bytes) = []"
  using bytes_pop_guard [OF sample_bytes_ok] by (auto simp: sample_bytes_contents)

text \<open>
  (C9) \<open>drain\<close> returns (fuel equal to the number of queued messages is enough for
  its loop), delivers the queued messages in order, each once, and publishes
  all progress. It stops at the first callback that panics (\<open>unwinds i\<close>: the
  callback on the \<open>i\<close>-th message panics): exactly the messages up to and
  including that one are consumed and the rest stay queued; if none panics the
  ring is empty afterwards.
\<close>

theorem bytes_drain_all:
  assumes ok: "bytes_ok r"
  shows "\<exists>ys sh' c'. bytes_drain (length (bytes_contents r)) unwinds (bg_sh r) (bg_c r)
            = Some (Inr (ys, sh', c'))
     \<and> bytes_ok (r\<lparr>bg_sh := sh', bg_c := c'\<rparr>)
     \<and> bytes_contents r = ys @ bytes_contents (r\<lparr>bg_sh := sh', bg_c := c'\<rparr>)
     \<and> (bytes_contents r \<noteq> [] \<longrightarrow> ys \<noteq> [] \<and> deferred sh' c' = 0)
     \<and> ys = take (Suc (length (takeWhile (\<lambda>i. \<not> unwinds i) [0..<length (bytes_contents r)])))
           (bytes_contents r)
     \<and> ((\<forall>i<length (bytes_contents r). \<not> unwinds i) \<longrightarrow> ys = bytes_contents r)"
  by (rule bytes_drain_ok [OF ok le_refl, of unwinds]) (metis append_Nil2)

lemma bytes_drain_all_witness:
  "(\<exists>sh' c'. bytes_drain 2 (\<lambda>_. False) (bg_sh sample_bytes) (bg_c sample_bytes)
       = Some (Inr ([[], [6]], sh', c')))
   \<and> (\<exists>sh' c'. bytes_drain 2 (\<lambda>i. i = 0) (bg_sh sample_bytes) (bg_c sample_bytes)
       = Some (Inr ([[]], sh', c')) \<and> bytes_contents (sample_bytes\<lparr>bg_sh := sh', bg_c := c'\<rparr>) = [[6]])"
  using bytes_drain_all [OF sample_bytes_ok, of "\<lambda>_. False"]
    bytes_drain_all [OF sample_bytes_ok, of "\<lambda>i. i = 0"]
  by (auto simp: sample_bytes_contents numeral_2_eq_2 upt_conv_Cons)

end
