(* ===== verification/Registry.thy ===== *)
theory Registry
  imports Cursor
begin

text \<open>
  The gating-registry engine (\<open>src/src/registry.rs\<close>): the chunk list of consumer
  cursor slots with its activity bitmap, claim and subscribe, and the gate-miss
  rescan of the producer. A walk over the registry is an interface: the locale
  \<open>gate_walk\<close> states what \<open>rescan_gate\<close> needs of it, and the chunk walk of the
  heap rings is shown to provide it.
\<close>

section \<open>Chunks\<close>

definition DETACHED :: u64 where "DETACHED = - 1"
definition CHUNK_SLOTS :: nat where "CHUNK_SLOTS = 64"
definition MAX_PUBLISH_BATCH_ELEMS :: u64 where "MAX_PUBLISH_BATCH_ELEMS = 64"

definition publish_batch_elems :: "u64 \<Rightarrow> u64" where
  "publish_batch_elems capacity = publish_batch capacity MAX_PUBLISH_BATCH_ELEMS"

definition gate_lacks_space :: "u64 \<Rightarrow> u64 \<Rightarrow> u64 \<Rightarrow> u64 \<Rightarrow> bool" where
  "gate_lacks_space write needed read capacity \<longleftrightarrow> write + needed - read > capacity"

definition guard_sentinel :: "u64 \<Rightarrow> u64" where
  "guard_sentinel cursor = (if cursor = DETACHED then cursor - 1 else cursor)"

record chunk =
  ch_bitmap :: u64
  ch_slots :: "u64 list"

definition chunk_new :: chunk where
  "chunk_new = \<lparr>ch_bitmap = 0, ch_slots = replicate CHUNK_SLOTS DETACHED\<rparr>"

definition deactivate :: "nat \<Rightarrow> chunk \<Rightarrow> chunk" where
  "deactivate slot_idx ch = ch\<lparr>ch_bitmap := ch_bitmap ch AND NOT (push_bit slot_idx 1)\<rparr>"

text \<open>
  The set bits of a bitmap in ascending order: the order in which the loops
  take \<open>trailing_zeros\<close> and clear the lowest bit.
\<close>

definition set_bits_of :: "u64 \<Rightarrow> nat list" where
  "set_bits_of b = filter (\<lambda>i. bit b i) [0..<CHUNK_SLOTS]"

definition active_count :: "chunk list \<Rightarrow> nat" where
  "active_count registry = sum_list (map (\<lambda>ch. length (set_bits_of (ch_bitmap ch))) registry)"

section \<open>Claim and subscribe\<close>

fun claim_scan :: "nat list \<Rightarrow> u64 \<Rightarrow> u64 list \<Rightarrow> (nat \<times> u64 list) option" where
  "claim_scan [] join_cursor slots = None"
| "claim_scan (idx # free) join_cursor slots =
     (case compare_exchange DETACHED (guard_sentinel join_cursor) (slots ! idx) of
        (True, w) \<Rightarrow> Some (idx, slots[idx := w])
      | (False, w) \<Rightarrow> claim_scan free join_cursor slots)"

definition claim_chunk :: "u64 \<Rightarrow> chunk \<Rightarrow> (nat \<times> chunk) option" where
  "claim_chunk join_cursor ch =
     (case claim_scan (set_bits_of (NOT (ch_bitmap ch))) join_cursor (ch_slots ch) of
        None \<Rightarrow> None
      | Some (idx, slots) \<Rightarrow> Some (idx, ch\<lparr>ch_slots := slots\<rparr>))"

text \<open>
  The walk over the chunk list; past its end a fresh chunk is appended and
  searched (its first slot is always free).
\<close>

fun claim_registry_slot :: "u64 \<Rightarrow> chunk list \<Rightarrow> (nat \<times> nat) \<times> chunk list" where
  "claim_registry_slot join_cursor [] =
     (case claim_chunk join_cursor chunk_new of
        None \<Rightarrow> ((0, 0), [chunk_new])
      | Some (idx, ch) \<Rightarrow> ((0, idx), [ch]))"
| "claim_registry_slot join_cursor (ch # chunks) =
     (case claim_chunk join_cursor ch of
        Some (idx, ch') \<Rightarrow> ((0, idx), ch' # chunks)
      | None \<Rightarrow>
          (case claim_registry_slot join_cursor chunks of
             ((ci, idx), chunks') \<Rightarrow> ((Suc ci, idx), ch # chunks')))"

record joined_slot =
  js_chunk :: nat
  js_slot :: nat
  js_joined :: u64
  js_published :: u64

text \<open>
  \<open>subscribe_slot\<close>: the two loads of the producer's cursor are \<open>provisional\<close>
  (in the claim) and \<open>joined\<close> (after the bitmap bit is set and the fence).
\<close>

definition subscribe_slot :: "u64 \<Rightarrow> u64 \<Rightarrow> chunk list \<Rightarrow> joined_slot \<times> chunk list" where
  "subscribe_slot provisional joined registry =
     (case claim_registry_slot provisional registry of
        ((ci, idx), reg1) \<Rightarrow>
          (let ch1 = (reg1 ! ci)\<lparr>ch_bitmap := ch_bitmap (reg1 ! ci) OR push_bit idx 1\<rparr>;
               published = guard_sentinel joined;
               ch2 = ch1\<lparr>ch_slots := (ch_slots ch1)[idx := published]\<rparr>
           in (\<lparr>js_chunk = ci, js_slot = idx, js_joined = joined, js_published = published\<rparr>,
               reg1[ci := ch2])))"

section \<open>The rescan\<close>

text \<open>One slot of the walk: the cache row, whether any slot is active, and the maximal lag.\<close>

definition scan_slot ::
  "u64 \<Rightarrow> u64 \<Rightarrow> u64 \<Rightarrow> u64 list \<Rightarrow> nat \<Rightarrow> u64 list \<times> bool \<times> u64 \<Rightarrow> u64 list \<times> bool \<times> u64" where
  "scan_slot next_seq needed capacity slots idx acc =
     (case acc of
        (row, any_active, max_lag) \<Rightarrow>
          (let cursor = row ! idx
           in if gate_lacks_space next_seq needed cursor capacity
              then (let fresh = slots ! idx
                    in if fresh = DETACHED then acc
                       else (row[idx := fresh], True, max max_lag (next_seq - fresh)))
              else (row, True, max max_lag (next_seq - cursor))))"

fun scan_slots ::
  "u64 \<Rightarrow> u64 \<Rightarrow> u64 \<Rightarrow> u64 list \<Rightarrow> nat list \<Rightarrow> u64 list \<times> bool \<times> u64 \<Rightarrow> u64 list \<times> bool \<times> u64" where
  "scan_slots next_seq needed capacity slots [] acc = acc"
| "scan_slots next_seq needed capacity slots (idx # bits) acc =
     scan_slots next_seq needed capacity slots bits
       (scan_slot next_seq needed capacity slots idx acc)"

text \<open>The walk over the chunks, with one cache row per chunk, seeded when first needed.\<close>

fun scan_chunk_registry ::
  "chunk list \<Rightarrow> u64 list list \<Rightarrow> u64 \<Rightarrow> u64 \<Rightarrow> u64 \<Rightarrow> bool \<times> u64
     \<Rightarrow> (bool \<times> u64) \<times> u64 list list" where
  "scan_chunk_registry [] cached next_seq needed capacity acc = (acc, cached)"
| "scan_chunk_registry (ch # chunks) cached next_seq needed capacity (any_active, max_lag) =
     (let row = (case cached of
                   [] \<Rightarrow> replicate CHUNK_SLOTS (next_seq - capacity)
                 | row # rows \<Rightarrow> row)
      in case scan_slots next_seq needed capacity (ch_slots ch) (set_bits_of (ch_bitmap ch))
                (row, any_active, max_lag) of
           (row', any', lag') \<Rightarrow>
             (case scan_chunk_registry chunks (tl cached) next_seq needed capacity (any', lag') of
                (res, rows') \<Rightarrow> (res, row' # rows')))"

text \<open>\<open>rescan_gate\<close>: the new cached minimum and whether \<open>needed\<close> units are free.\<close>

definition rescan_gate :: "u64 \<Rightarrow> u64 \<Rightarrow> u64 \<Rightarrow> bool \<times> u64 \<Rightarrow> bool \<times> u64" where
  "rescan_gate next_seq needed capacity walked =
     (case walked of
        (any_active, max_lag) \<Rightarrow>
          (let cached_min = (if any_active then next_seq - max_lag else next_seq - 1)
           in (\<not> gate_lacks_space next_seq needed cached_min capacity, cached_min)))"

section \<open>What a walk must provide\<close>

text \<open>
  \<open>cursors r\<close> are the words of the active slots; \<open>cache_ok r ca next capacity\<close> is
  the invariant of the producer's cache. A walk reports a lag no smaller than
  that of any active slot, and exactly the lag of one when that lag gates.
\<close>

locale gate_walk =
  fixes walk :: "'r \<Rightarrow> 'c \<Rightarrow> u64 \<Rightarrow> u64 \<Rightarrow> u64 \<Rightarrow> (bool \<times> u64) \<times> 'c"
    and cursors :: "'r \<Rightarrow> u64 set"
    and cache_ok :: "'r \<Rightarrow> 'c \<Rightarrow> u64 \<Rightarrow> u64 \<Rightarrow> bool"
  assumes walk_sound: "cache_ok r ca nx cap \<Longrightarrow> 0 < needed \<Longrightarrow> needed \<le> cap \<Longrightarrow>
      walk r ca nx needed cap = ((any_active, lag), ca') \<Longrightarrow> s \<in> cursors r \<Longrightarrow>
      any_active \<and> cdist s nx \<le> unat lag"
    and walk_exact: "cache_ok r ca nx cap \<Longrightarrow> 0 < needed \<Longrightarrow> needed \<le> cap \<Longrightarrow>
      walk r ca nx needed cap = ((any_active, lag), ca') \<Longrightarrow> any_active \<Longrightarrow>
      unat cap < unat lag + unat needed \<Longrightarrow> \<exists>s\<in>cursors r. cdist s nx = unat lag"
    and walk_small: "cache_ok r ca nx cap \<Longrightarrow> 0 < needed \<Longrightarrow> needed \<le> cap \<Longrightarrow>
      walk r ca nx needed cap = ((any_active, lag), ca') \<Longrightarrow>
      unat lag + unat cap < word_span \<and> Suc (unat cap) < word_span"
    and walk_cache: "cache_ok r ca nx cap \<Longrightarrow> 0 < needed \<Longrightarrow> needed \<le> cap \<Longrightarrow>
      walk r ca nx needed cap = (res, ca') \<Longrightarrow> cache_ok r ca' nx cap"
begin

text \<open>The recomputed minimum is behind every active cursor.\<close>

lemma gate_lower_bound:
  assumes "cache_ok r ca nx cap" and "0 < needed" and "needed \<le> cap"
    and "walk r ca nx needed cap = (res, ca')" and "rescan_gate nx needed cap res = (ok, m)"
    and "s \<in> cursors r"
  shows "cdist s nx \<le> cdist m nx"
proof -
  obtain any_active lag where res: "res = (any_active, lag)" by (rule prod.exhaust)
  have "any_active \<and> cdist s nx \<le> unat lag"
    using walk_sound [OF assms(1-3)] assms(4,6) res by blast
  then show ?thesis
    using assms(5) res by (auto simp: rescan_gate_def Let_def)
qed

text \<open>An open gate leaves the space behind every active cursor.\<close>

lemma gate_open:
  assumes ca: "cache_ok r ca nx cap" and n: "0 < needed" "needed \<le> cap"
    and w: "walk r ca nx needed cap = (res, ca')" and g: "rescan_gate nx needed cap res = (True, m)"
  shows "cdist m nx + unat needed \<le> unat cap"
    and "s \<in> cursors r \<Longrightarrow> cdist s nx + unat needed \<le> unat cap"
proof -
  obtain any_active lag where res: "res = (any_active, lag)" by (rule prod.exhaust)
  have small: "unat lag + unat cap < word_span" "Suc (unat cap) < word_span"
    using walk_small [OF ca n] w res by blast+
  have le: "unat needed \<le> unat cap" using n(2) by (simp add: word_le_nat_alt)
  have m: "m = (if any_active then nx - lag else nx - 1)"
    and ns: "\<not> lacks_space nx needed m cap"
    using g res by (auto simp: rescan_gate_def Let_def gate_lacks_space_def lacks_space_def)
  have lt: "cdist m nx + unat needed < word_span"
  proof (cases any_active)
    case False
    have "cdist m nx = 1" using m False by simp
    then show ?thesis using small(2) le by simp
  qed (use m small le in simp)
  show b: "cdist m nx + unat needed \<le> unat cap"
    using ns lacks_space_cdist [OF lt] by simp
  show "cdist s nx + unat needed \<le> unat cap" if "s \<in> cursors r"
    using gate_lower_bound [OF ca n w g that] b by simp
qed

text \<open>A closed gate is closed by an active cursor; with no active cursor it opens.\<close>

lemma gate_closed:
  assumes ca: "cache_ok r ca nx cap" and n: "0 < needed" "needed < cap"
    and w: "walk r ca nx needed cap = (res, ca')" and g: "rescan_gate nx needed cap res = (False, m)"
  shows "\<exists>s\<in>cursors r. cdist s nx = cdist m nx \<and> unat cap < cdist s nx + unat needed"
proof -
  obtain any_active lag where res: "res = (any_active, lag)" by (rule prod.exhaust)
  have n': "needed \<le> cap" using n(2) by simp
  have small: "unat lag + unat cap < word_span" "Suc (unat cap) < word_span"
    using walk_small [OF ca n(1) n'] w res by blast+
  have lt: "unat needed < unat cap" using n(2) by (simp add: word_less_nat_alt)
  have m: "m = (if any_active then nx - lag else nx - 1)" and ls: "lacks_space nx needed m cap"
    using g res by (auto simp: rescan_gate_def Let_def gate_lacks_space_def lacks_space_def)
  have sp: "cdist m nx + unat needed < word_span"
    using m small lt by (cases any_active) simp_all
  have big: "unat cap < cdist m nx + unat needed" using ls lacks_space_cdist [OF sp] by simp
  have any: any_active
  proof (rule ccontr)
    assume "\<not> any_active"
    then show False using m big lt by simp
  qed
  then have "cdist m nx = unat lag" using m by simp
  then show ?thesis
    using walk_exact [OF ca n(1) n' _ any, of lag ca'] w res big by auto
qed

text \<open>So the gate opens exactly when no active cursor is in the way.\<close>

lemma gate_exact:
  assumes ca: "cache_ok r ca nx cap" and n: "0 < needed" "needed < cap"
    and near: "\<And>s. s \<in> cursors r \<Longrightarrow> cdist s nx + unat cap < word_span"
    and w: "walk r ca nx needed cap = (res, ca')"
  shows "fst (rescan_gate nx needed cap res) \<longleftrightarrow>
    (\<forall>s\<in>cursors r. \<not> gate_lacks_space nx needed s cap)"
proof -
  have n': "needed \<le> cap" using n(2) by simp
  obtain ok m where g: "rescan_gate nx needed cap res = (ok, m)" by (rule prod.exhaust)
  have lacks: "gate_lacks_space nx needed s cap \<longleftrightarrow> unat cap < cdist s nx + unat needed"
    if "s \<in> cursors r" for s
  proof -
    have "unat needed \<le> unat cap" using n' by (simp add: word_le_nat_alt)
    then have "cdist s nx + unat needed < word_span" using near [OF that] by simp
    then show ?thesis
      using lacks_space_cdist [of s nx needed cap] by (simp add: gate_lacks_space_def lacks_space_def)
  qed
  show ?thesis
  proof (cases ok)
    case True
    then have "rescan_gate nx needed cap res = (True, m)" using g by simp
    then show ?thesis using gate_open(2) [OF ca n(1) n' w] True g lacks by fastforce
  next
    case False
    then have "rescan_gate nx needed cap res = (False, m)" using g by simp
    then show ?thesis using gate_closed [OF ca n w] False g lacks by fastforce
  qed
qed

end


section \<open>The chunk walk provides it\<close>

definition chunk_cursors :: "chunk \<Rightarrow> u64 set" where
  "chunk_cursors ch =
     set (filter (\<lambda>w. w \<noteq> DETACHED) (map (\<lambda>i. ch_slots ch ! i) (set_bits_of (ch_bitmap ch))))"

definition registry_cursors :: "chunk list \<Rightarrow> u64 set" where
  "registry_cursors registry = \<Union> (chunk_cursors ` set registry)"

text \<open>A cache row: no entry far enough behind to wrap, none ahead of its slot's cursor.\<close>

definition row_ok :: "u64 \<Rightarrow> u64 \<Rightarrow> chunk \<Rightarrow> u64 list \<Rightarrow> bool" where
  "row_ok nx cap ch row \<longleftrightarrow> length row = CHUNK_SLOTS
     \<and> (\<forall>i<CHUNK_SLOTS. cdist (row ! i) nx + unat cap < word_span)
     \<and> (\<forall>i\<in>set (set_bits_of (ch_bitmap ch)). ch_slots ch ! i \<noteq> DETACHED \<longrightarrow>
          cdist (ch_slots ch ! i) nx \<le> cdist (row ! i) nx)"

fun rows_ok :: "u64 \<Rightarrow> u64 \<Rightarrow> chunk list \<Rightarrow> u64 list list \<Rightarrow> bool" where
  "rows_ok nx cap (ch # chunks) (row # rows) \<longleftrightarrow> row_ok nx cap ch row \<and> rows_ok nx cap chunks rows"
| "rows_ok nx cap _ _ \<longleftrightarrow> True"

definition cache_ok :: "chunk list \<Rightarrow> u64 list list \<Rightarrow> u64 \<Rightarrow> u64 \<Rightarrow> bool" where
  "cache_ok registry cached nx cap \<longleftrightarrow> rows_ok nx cap registry cached
     \<and> unat cap + unat cap < word_span
     \<and> (\<forall>s\<in>registry_cursors registry. cdist s nx + unat cap < word_span)"

lemma set_set_bits_of: "i \<in> set (set_bits_of b) \<longleftrightarrow> i < CHUNK_SLOTS \<and> bit b i"
  by (auto simp: set_bits_of_def)

lemma distinct_set_bits_of [simp]: "distinct (set_bits_of b)"
  by (simp add: set_bits_of_def)

lemma gate_lacks_iff:
  "cdist v nx + unat needed < word_span \<Longrightarrow>
   gate_lacks_space nx needed v cap \<longleftrightarrow> unat cap < cdist v nx + unat needed"
  using lacks_space_cdist [of v nx needed cap] by (simp add: gate_lacks_space_def lacks_space_def)

text \<open>What has to hold of a cache entry before its slot is visited.\<close>

definition entry_ready :: "u64 \<Rightarrow> u64 \<Rightarrow> u64 \<Rightarrow> u64 \<Rightarrow> u64 \<Rightarrow> bool" where
  "entry_ready nx needed cap s v \<longleftrightarrow> s \<noteq> DETACHED \<longrightarrow>
     cdist s nx + unat cap < word_span
     \<and> (cdist s nx \<le> cdist v nx \<or> unat cap < cdist v nx + unat needed)"

definition scan_result ::
  "u64 \<Rightarrow> u64 \<Rightarrow> u64 \<Rightarrow> u64 set \<Rightarrow> bool \<times> u64 \<Rightarrow> bool \<times> u64 \<Rightarrow> bool" where
  "scan_result nx needed cap ss acc res \<longleftrightarrow>
     (case acc of (any0, lag0) \<Rightarrow> case res of (any1, lag1) \<Rightarrow>
        lag0 \<le> lag1 \<and> (any0 \<longrightarrow> any1) \<and> unat lag1 + unat cap < word_span
        \<and> (\<forall>s\<in>ss. any1 \<and> cdist s nx \<le> unat lag1)
        \<and> (unat cap < unat lag1 + unat needed \<longrightarrow>
             lag1 = lag0 \<or> (\<exists>s\<in>ss. cdist s nx = unat lag1)))"

lemma scan_result_refl: "unat lag + unat cap < word_span \<Longrightarrow>
    scan_result nx needed cap {} (a, lag) (a, lag)"
  by (simp add: scan_result_def)

lemma scan_result_trans:
  assumes "scan_result nx needed cap A x y" and "scan_result nx needed cap B y z"
  shows "scan_result nx needed cap (A \<union> B) x z"
proof -
  obtain a0 l0 a1 l1 a2 l2 where e: "x = (a0, l0)" "y = (a1, l1)" "z = (a2, l2)"
    by (metis surj_pair)
  have l: "unat l0 \<le> unat l1" "unat l1 \<le> unat l2"
    using assms by (simp_all add: e scan_result_def word_le_nat_alt)
  have 1: "\<forall>s\<in>A. a2 \<and> cdist s nx \<le> unat l2"
    using assms l by (auto simp: e scan_result_def intro: le_trans)
  have 2: "l2 = l0 \<or> (\<exists>s\<in>A \<union> B. cdist s nx = unat l2)" if "unat cap < unat l2 + unat needed"
  proof (cases "l2 = l1")
    case True
    then show ?thesis using assms(1) that by (auto simp: e scan_result_def)
  next
    case False
    then show ?thesis using assms(2) that by (auto simp: e scan_result_def)
  qed
  show ?thesis using assms 1 2 by (auto simp: e scan_result_def)
qed

lemma scan_slot_ok:
  assumes sc: "scan_slot nx needed cap slots i (row, a, lag) = (row', a', lag')"
    and i: "i < length row" and small: "unat lag + unat cap < word_span"
    and v: "cdist (row ! i) nx + unat cap < word_span" and n: "needed \<le> cap"
    and ready: "entry_ready nx needed cap (slots ! i) (row ! i)"
  shows "scan_result nx needed cap ({slots ! i} - {DETACHED}) (a, lag) (a', lag')"
    and "length row' = length row" and "\<forall>j. j \<noteq> i \<longrightarrow> row' ! j = row ! j"
    and "cdist (row' ! i) nx + unat cap < word_span"
    and "slots ! i \<noteq> DETACHED \<longrightarrow> cdist (slots ! i) nx \<le> cdist (row' ! i) nx"
proof -
  have le: "unat needed \<le> unat cap" using n by (simp add: word_le_nat_alt)
  then have sp: "cdist (row ! i) nx + unat needed < word_span" using v by simp
  note L = gate_lacks_iff [OF sp, of cap]
  have mx: "unat (max x y) = max (unat x) (unat y)" for x y :: u64
    by (simp add: max_def word_le_nat_alt)
  have cd: "unat (nx - c) = cdist c nx" for c by (simp add: cdist_def)
  consider (gone) "gate_lacks_space nx needed (row ! i) cap" "slots ! i = DETACHED"
    | (fresh) "gate_lacks_space nx needed (row ! i) cap" "slots ! i \<noteq> DETACHED"
    | (cached) "\<not> gate_lacks_space nx needed (row ! i) cap" by blast
  then have "scan_result nx needed cap ({slots ! i} - {DETACHED}) (a, lag) (a', lag')
      \<and> length row' = length row \<and> (\<forall>j. j \<noteq> i \<longrightarrow> row' ! j = row ! j)
      \<and> cdist (row' ! i) nx + unat cap < word_span
      \<and> (slots ! i \<noteq> DETACHED \<longrightarrow> cdist (slots ! i) nx \<le> cdist (row' ! i) nx)"
  proof cases
    case gone
    then have "row' = row" "a' = a" "lag' = lag" using sc by (simp_all add: scan_slot_def Let_def)
    then show ?thesis using gone small v by (simp add: scan_result_refl)
  next
    case fresh
    then have e: "row' = row[i := slots ! i]" "a'" "lag' = max lag (nx - slots ! i)"
      using sc by (auto simp: scan_slot_def Let_def)
    have b: "cdist (slots ! i) nx + unat cap < word_span"
      using ready fresh by (simp add: entry_ready_def)
    have "scan_result nx needed cap {slots ! i} (a, lag) (a', lag')"
      using small b e by (auto simp: scan_result_def mx cd max_def word_le_nat_alt)
    then show ?thesis using fresh e i b by simp
  next
    case cached
    then have e: "row' = row" "a'" "lag' = max lag (nx - row ! i)"
      using sc by (auto simp: scan_slot_def Let_def)
    have fits: "cdist (row ! i) nx + unat needed \<le> unat cap" using cached L by simp
    have b: "slots ! i \<noteq> DETACHED \<longrightarrow> cdist (slots ! i) nx \<le> cdist (row ! i) nx"
      using ready fits by (auto simp: entry_ready_def)
    have "scan_result nx needed cap ({slots ! i} - {DETACHED}) (a, lag) (a', lag')"
      using small v e b fits by (auto simp: scan_result_def mx cd max_def word_le_nat_alt)
    then show ?thesis using e b v by simp
  qed
  then show "scan_result nx needed cap ({slots ! i} - {DETACHED}) (a, lag) (a', lag')"
    and "length row' = length row" and "\<forall>j. j \<noteq> i \<longrightarrow> row' ! j = row ! j"
    and "cdist (row' ! i) nx + unat cap < word_span"
    and "slots ! i \<noteq> DETACHED \<longrightarrow> cdist (slots ! i) nx \<le> cdist (row' ! i) nx"
    by simp_all
qed

lemma scan_slots_ok:
  assumes "scan_slots nx needed cap slots bits (row, a, lag) = (row', a', lag')"
    and "distinct bits" and "\<forall>i\<in>set bits. i < length row" and "unat lag + unat cap < word_span"
    and "\<forall>i<length row. cdist (row ! i) nx + unat cap < word_span" and "needed \<le> cap"
    and "\<forall>i\<in>set bits. entry_ready nx needed cap (slots ! i) (row ! i)"
  shows "scan_result nx needed cap ((\<lambda>i. slots ! i) ` set bits - {DETACHED}) (a, lag) (a', lag')
     \<and> length row' = length row
     \<and> (\<forall>i<length row. cdist (row' ! i) nx + unat cap < word_span)
     \<and> (\<forall>i\<in>set bits. slots ! i \<noteq> DETACHED \<longrightarrow> cdist (slots ! i) nx \<le> cdist (row' ! i) nx)
     \<and> (\<forall>j. j \<notin> set bits \<longrightarrow> row' ! j = row ! j)"
  using assms
proof (induction bits arbitrary: row a lag)
  case Nil
  then show ?case by (simp add: scan_result_refl)
next
  case (Cons i bits)
  obtain row1 a1 lag1 where s1: "scan_slot nx needed cap slots i (row, a, lag) = (row1, a1, lag1)"
    by (metis prod_cases3)
  have i: "i < length row" using Cons.prems by simp
  note S = scan_slot_ok [OF s1 i Cons.prems(4) _ Cons.prems(6)]
  have S': "scan_result nx needed cap ({slots ! i} - {DETACHED}) (a, lag) (a1, lag1)"
    "length row1 = length row" "\<forall>j. j \<noteq> i \<longrightarrow> row1 ! j = row ! j"
    "cdist (row1 ! i) nx + unat cap < word_span"
    "slots ! i \<noteq> DETACHED \<longrightarrow> cdist (slots ! i) nx \<le> cdist (row1 ! i) nx"
    using S Cons.prems(5,7) i by simp_all
  have rest: "scan_slots nx needed cap slots bits (row1, a1, lag1) = (row', a', lag')"
    using Cons.prems(1) s1 by simp
  have small1: "unat lag1 + unat cap < word_span" using S'(1) by (simp add: scan_result_def)
  have b1: "\<forall>j<length row1. cdist (row1 ! j) nx + unat cap < word_span"
    using S'(2,3,4) Cons.prems(5) by metis
  have r1: "\<forall>j\<in>set bits. entry_ready nx needed cap (slots ! j) (row1 ! j)"
    using Cons.prems(2,7) S'(3) by (metis distinct.simps(2) list.set_intros(2))
  note IH = Cons.IH [OF rest _ _ small1 b1 Cons.prems(6) r1]
  have IH': "scan_result nx needed cap ((\<lambda>i. slots ! i) ` set bits - {DETACHED}) (a1, lag1) (a', lag')"
    "length row' = length row1"
    "\<forall>i<length row1. cdist (row' ! i) nx + unat cap < word_span"
    "\<forall>i\<in>set bits. slots ! i \<noteq> DETACHED \<longrightarrow> cdist (slots ! i) nx \<le> cdist (row' ! i) nx"
    "\<forall>j. j \<notin> set bits \<longrightarrow> row' ! j = row1 ! j"
    using IH Cons.prems(2,3) S'(2) by auto
  have "scan_result nx needed cap
      (({slots ! i} - {DETACHED}) \<union> ((\<lambda>i. slots ! i) ` set bits - {DETACHED})) (a, lag) (a', lag')"
    by (rule scan_result_trans [OF S'(1) IH'(1)])
  moreover have "({slots ! i} - {DETACHED}) \<union> ((\<lambda>i. slots ! i) ` set bits - {DETACHED})
      = (\<lambda>i. slots ! i) ` set (i # bits) - {DETACHED}" by auto
  ultimately have "scan_result nx needed cap ((\<lambda>i. slots ! i) ` set (i # bits) - {DETACHED})
      (a, lag) (a', lag')" by simp
  moreover have "row' ! i = row1 ! i" using IH'(5) Cons.prems(2) by simp
  ultimately show ?case using IH' S' by auto
qed


lemma chunk_cursors_image:
  "chunk_cursors ch = (\<lambda>i. ch_slots ch ! i) ` set (set_bits_of (ch_bitmap ch)) - {DETACHED}"
  by (auto simp: chunk_cursors_def)

lemma registry_cursors_Cons:
  "registry_cursors (ch # chunks) = chunk_cursors ch \<union> registry_cursors chunks"
  by (simp add: registry_cursors_def)

lemma scan_chunk_registry_ok:
  assumes "scan_chunk_registry registry cached nx needed cap (a, lag) = ((a', lag'), cached')"
    and "rows_ok nx cap registry cached" and "unat cap + unat cap < word_span"
    and "\<forall>s\<in>registry_cursors registry. cdist s nx + unat cap < word_span"
    and "0 < needed" and "needed \<le> cap" and "unat lag + unat cap < word_span"
  shows "scan_result nx needed cap (registry_cursors registry) (a, lag) (a', lag')
     \<and> rows_ok nx cap registry cached'"
  using assms
proof (induction registry arbitrary: cached a lag cached')
  case Nil
  then show ?case by (simp add: scan_result_refl registry_cursors_def)
next
  case (Cons ch chunks)
  define row where "row = (case cached of [] \<Rightarrow> replicate CHUNK_SLOTS (nx - cap) | row # rows \<Rightarrow> row)"
  let ?bits = "set_bits_of (ch_bitmap ch)"
  obtain row' a1 lag1 where sl: "scan_slots nx needed cap (ch_slots ch) ?bits (row, a, lag)
      = (row', a1, lag1)"
    by (metis prod_cases3)
  obtain res rows' where sc: "scan_chunk_registry chunks (tl cached) nx needed cap (a1, lag1)
      = (res, rows')"
    by (rule prod.exhaust)
  have out: "res = (a', lag')" "cached' = row' # rows'"
    using Cons.prems(1) sl sc by (simp_all add: row_def Let_def)
  have pos: "0 < unat needed" using Cons.prems(5) by (simp add: word_less_nat_alt)
  have len: "length row = CHUNK_SLOTS"
    and bnd: "\<forall>i<CHUNK_SLOTS. cdist (row ! i) nx + unat cap < word_span"
    and rdy: "\<forall>i\<in>set ?bits. entry_ready nx needed cap (ch_slots ch ! i) (row ! i)"
  proof -
    have act: "cdist (ch_slots ch ! i) nx + unat cap < word_span"
      if "i \<in> set ?bits" "ch_slots ch ! i \<noteq> DETACHED" for i
      using Cons.prems(4) that by (auto simp: registry_cursors_Cons chunk_cursors_image)
    have "length row = CHUNK_SLOTS \<and> (\<forall>i<CHUNK_SLOTS. cdist (row ! i) nx + unat cap < word_span)
      \<and> (\<forall>i\<in>set ?bits. entry_ready nx needed cap (ch_slots ch ! i) (row ! i))"
    proof (cases cached)
      case Nil
      then have r: "row = replicate CHUNK_SLOTS (nx - cap)" by (simp add: row_def)
      show ?thesis
        using Cons.prems(3) act pos by (auto simp: r entry_ready_def set_set_bits_of)
    next
      case (Cons r rs)
      then have "row_ok nx cap ch row" using Cons.prems(2) by (simp add: row_def)
      then show ?thesis using act by (auto simp: row_ok_def entry_ready_def)
    qed
    then show "length row = CHUNK_SLOTS" "\<forall>i<CHUNK_SLOTS. cdist (row ! i) nx + unat cap < word_span"
      "\<forall>i\<in>set ?bits. entry_ready nx needed cap (ch_slots ch ! i) (row ! i)" by auto
  qed
  have "\<forall>i\<in>set ?bits. i < length row" using len by (simp add: set_set_bits_of)
  note S = scan_slots_ok [OF sl distinct_set_bits_of this Cons.prems(7) _ Cons.prems(6) rdy, unfolded len]
  have S': "scan_result nx needed cap (chunk_cursors ch) (a, lag) (a1, lag1)"
    "length row' = CHUNK_SLOTS" "\<forall>i<CHUNK_SLOTS. cdist (row' ! i) nx + unat cap < word_span"
    "\<forall>i\<in>set ?bits. ch_slots ch ! i \<noteq> DETACHED \<longrightarrow> cdist (ch_slots ch ! i) nx \<le> cdist (row' ! i) nx"
    using S bnd by (simp_all add: chunk_cursors_image)
  have r1: "rows_ok nx cap chunks (tl cached)"
    using Cons.prems(2) by (cases cached; cases chunks) simp_all
  have c1: "\<forall>s\<in>registry_cursors chunks. cdist s nx + unat cap < word_span"
    using Cons.prems(4) by (simp add: registry_cursors_Cons)
  have l1: "unat lag1 + unat cap < word_span" using S'(1) by (simp add: scan_result_def)
  have IH: "scan_result nx needed cap (registry_cursors chunks) (a1, lag1) (a', lag')"
    "rows_ok nx cap chunks rows'"
    using Cons.IH [OF sc [unfolded out(1)] r1 Cons.prems(3) c1 Cons.prems(5,6) l1] by auto
  show ?case
    using scan_result_trans [OF S'(1) IH(1)] S'(2-4) IH(2)
    by (simp add: registry_cursors_Cons out(2) row_ok_def)
qed

lemma doubled_capacity:
  fixes cap needed :: u64
  assumes "0 < needed" and "needed \<le> cap" and "unat cap + unat cap < word_span"
  shows "Suc (unat cap) < word_span"
proof -
  have "1 \<le> unat cap" using assms(1,2) by (simp add: word_le_nat_alt word_less_nat_alt)
  then show ?thesis using assms(3) by linarith
qed

definition heap_walk ::
  "chunk list \<Rightarrow> u64 list list \<Rightarrow> u64 \<Rightarrow> u64 \<Rightarrow> u64 \<Rightarrow> (bool \<times> u64) \<times> u64 list list" where
  "heap_walk registry cached nx needed cap =
     scan_chunk_registry registry cached nx needed cap (False, 0)"

lemma heap_walk_ok:
  assumes ca: "cache_ok r ca nx cap" and n: "0 < needed" "needed \<le> cap"
    and w: "heap_walk r ca nx needed cap = ((any_active, lag), ca')"
  shows "scan_result nx needed cap (registry_cursors r) (False, 0) (any_active, lag)"
    and "cache_ok r ca' nx cap"
proof -
  have "unat cap < word_span" by simp
  then have "scan_result nx needed cap (registry_cursors r) (False, 0) (any_active, lag)
      \<and> rows_ok nx cap r ca'"
    using scan_chunk_registry_ok [OF w[unfolded heap_walk_def]] ca n by (simp add: cache_ok_def)
  then show "scan_result nx needed cap (registry_cursors r) (False, 0) (any_active, lag)"
    and "cache_ok r ca' nx cap"
    using ca by (simp_all add: cache_ok_def)
qed

interpretation heap_gate: gate_walk heap_walk registry_cursors cache_ok
proof unfold_locales
  fix r ca nx cap needed any_active lag ca' s
  assume a: "cache_ok r ca nx cap" "0 < needed" "needed \<le> cap"
    "heap_walk r ca nx needed cap = ((any_active, lag), ca')"
  note W = heap_walk_ok [OF a]
  show "s \<in> registry_cursors r \<Longrightarrow> any_active \<and> cdist s nx \<le> unat lag"
    using W(1) by (simp add: scan_result_def)
  show "unat lag + unat cap < word_span \<and> Suc (unat cap) < word_span"
    using W(1) a doubled_capacity by (simp add: scan_result_def cache_ok_def)
  show "\<exists>s\<in>registry_cursors r. cdist s nx = unat lag"
    if "any_active" "unat cap < unat lag + unat needed"
    using W(1) that a(3) by (auto simp: scan_result_def word_le_nat_alt)
next
  fix r ca nx cap needed res ca'
  assume a: "cache_ok r ca nx cap" "0 < needed" "needed \<le> cap"
    "heap_walk r ca nx needed cap = (res, ca')"
  then show "cache_ok r ca' nx cap" using heap_walk_ok(2) by (metis surj_pair)
qed

end
