(* ===== verification/Gate.thy ===== *)
theory Gate
  imports Registry
begin

text \<open>
  The gating engine as the multi-consumer rings use it: the words every gating
  ring shares, the producer's private cursor and gate caches, a consumer's
  private cursors, and the operations on them (\<open>src/src/spmc.rs\<close>, over
  \<open>src/src/registry.rs\<close>). A ring extends the three records with its payload.
  The consumers attached to a ring form a finite family indexed by the order
  of their subscriptions.
\<close>

section \<open>State\<close>

record gate_shared =
  gs_mask :: u64
  gs_write_cursor :: u64
  gs_closed :: u64
  gs_registry :: "chunk list"
  gs_producer_notified :: nat
  gs_consumer_notified :: nat

record gate_producer =
  gp_mask :: u64
  gp_next_seq :: u64
  gp_cached_min :: u64
  gp_cached_cursors :: "u64 list list"

record gate_consumer =
  gc_mask :: u64
  gc_chunk :: nat
  gc_slot :: nat
  gc_read_cursor :: u64
  gc_published :: u64
  gc_write_cache :: u64

datatype subscribe_error = Closed_err | Full_err

section \<open>Registry slots by coordinates\<close>

definition slot_word :: "chunk list \<Rightarrow> nat \<Rightarrow> nat \<Rightarrow> u64" where
  "slot_word registry ci i = ch_slots (registry ! ci) ! i"

definition slot_active :: "chunk list \<Rightarrow> nat \<Rightarrow> nat \<Rightarrow> bool" where
  "slot_active registry ci i \<longleftrightarrow> bit (ch_bitmap (registry ! ci)) i"

text \<open>The store through a handle's cached pointer to its cursor word.\<close>

definition store_slot :: "nat \<Rightarrow> nat \<Rightarrow> u64 \<Rightarrow> chunk list \<Rightarrow> chunk list" where
  "store_slot ci i w registry =
     registry[ci := (registry ! ci)\<lparr>ch_slots := (ch_slots (registry ! ci))[i := w]\<rparr>]"

definition deactivate_slot :: "nat \<Rightarrow> nat \<Rightarrow> chunk list \<Rightarrow> chunk list" where
  "deactivate_slot ci i registry = registry[ci := deactivate i (registry ! ci)]"

section \<open>The producer\<close>

definition gate_rescan ::
  "u64 \<Rightarrow> 's gate_shared_scheme \<Rightarrow> 'p gate_producer_scheme \<Rightarrow> bool \<times> 'p gate_producer_scheme" where
  "gate_rescan needed sh p =
     (let capacity = gp_mask p + 1
      in case heap_walk (gs_registry sh) (gp_cached_cursors p) (gp_next_seq p) needed capacity of
           (walked, cached) \<Rightarrow>
             (case rescan_gate (gp_next_seq p) needed capacity walked of
                (ok, m) \<Rightarrow> (ok, p\<lparr>gp_cached_min := m, gp_cached_cursors := cached\<rparr>)))"

definition gate_has_space ::
  "u64 \<Rightarrow> 's gate_shared_scheme \<Rightarrow> 'p gate_producer_scheme \<Rightarrow> bool \<times> 'p gate_producer_scheme" where
  "gate_has_space needed sh p =
     (if \<not> gate_lacks_space (gp_next_seq p) needed (gp_cached_min p) (gp_mask p + 1)
      then (True, p) else gate_rescan needed sh p)"

text \<open>
  Waiting: the strategy polls the full rescan. What other threads do to the
  shared state between two polls is the list \<open>env\<close>; \<open>None\<close> is "still blocked
  when the list ends".
\<close>

fun gate_poll_rescan ::
  "u64 \<Rightarrow> ('s gate_shared_scheme \<Rightarrow> 's gate_shared_scheme) list \<Rightarrow> 's gate_shared_scheme
     \<Rightarrow> 'p gate_producer_scheme
     \<Rightarrow> ('s gate_shared_scheme \<times> 'p gate_producer_scheme
           \<times> ('s gate_shared_scheme \<Rightarrow> 's gate_shared_scheme) list) option" where
  "gate_poll_rescan needed env sh p =
     (case gate_rescan needed sh p of
        (True, p') \<Rightarrow> Some (sh, p', env)
      | (False, p') \<Rightarrow>
          (case env of [] \<Rightarrow> None | e # es \<Rightarrow> gate_poll_rescan needed es (e sh) p'))"

declare gate_poll_rescan.simps [simp del]

partial_function (option) gate_space_loop ::
  "u64 \<Rightarrow> ('s gate_shared_scheme \<Rightarrow> 's gate_shared_scheme) list \<Rightarrow> 's gate_shared_scheme
     \<Rightarrow> 'p gate_producer_scheme
     \<Rightarrow> ('s gate_shared_scheme \<times> 'p gate_producer_scheme
           \<times> ('s gate_shared_scheme \<Rightarrow> 's gate_shared_scheme) list) option" where
  "gate_space_loop needed env sh p =
     (case gate_has_space needed sh p of
        (free, p') \<Rightarrow>
          if free then Some (sh, p', env)
          else (case gate_poll_rescan needed env sh p' of
                  None \<Rightarrow> None
                | Some (sh1, p1, env1) \<Rightarrow> gate_space_loop needed env1 sh1 p1))"

definition gate_wait_for_space ::
  "u64 \<Rightarrow> ('s gate_shared_scheme \<Rightarrow> 's gate_shared_scheme) list \<Rightarrow> 's gate_shared_scheme
     \<Rightarrow> 'p gate_producer_scheme
     \<Rightarrow> ('s gate_shared_scheme \<times> 'p gate_producer_scheme
           \<times> ('s gate_shared_scheme \<Rightarrow> 's gate_shared_scheme) list) option" where
  "gate_wait_for_space needed env sh p =
     (case gate_has_space needed sh p of
        (True, p') \<Rightarrow> Some (sh, p', env)
      | (False, p') \<Rightarrow> gate_space_loop needed env sh p')"

definition gate_publish ::
  "u64 \<Rightarrow> 's gate_shared_scheme \<Rightarrow> 'p gate_producer_scheme
     \<Rightarrow> 's gate_shared_scheme \<times> 'p gate_producer_scheme" where
  "gate_publish amount sh p =
     (let next_seq = gp_next_seq p + amount
      in (sh\<lparr>gs_write_cursor := next_seq, gs_consumer_notified := Suc (gs_consumer_notified sh)\<rparr>,
          p\<lparr>gp_next_seq := next_seq\<rparr>))"

definition gate_len :: "'p gate_producer_scheme \<Rightarrow> u64" where
  "gate_len p = gp_next_seq p - gp_cached_min p"

definition gate_is_full :: "'p gate_producer_scheme \<Rightarrow> bool" where
  "gate_is_full p \<longleftrightarrow> gate_lacks_space (gp_next_seq p) 1 (gp_cached_min p) (gp_mask p + 1)"

definition gate_consumer_count :: "'s gate_shared_scheme \<Rightarrow> nat" where
  "gate_consumer_count sh = active_count (gs_registry sh)"

text \<open>\<open>Drop for Producer\<close>: flag, then notify.\<close>

definition gate_producer_drop :: "'s gate_shared_scheme \<Rightarrow> 's gate_shared_scheme" where
  "gate_producer_drop sh =
     sh\<lparr>gs_closed := 1, gs_consumer_notified := Suc (gs_consumer_notified sh)\<rparr>"

section \<open>The consumers\<close>

definition gate_available_cached :: "'c gate_consumer_scheme \<Rightarrow> u64" where
  "gate_available_cached c = gc_write_cache c - gc_read_cursor c"

definition gate_refresh ::
  "'s gate_shared_scheme \<Rightarrow> 'c gate_consumer_scheme \<Rightarrow> u64 \<times> 'c gate_consumer_scheme" where
  "gate_refresh sh c = (gs_write_cursor sh, c\<lparr>gc_write_cache := gs_write_cursor sh\<rparr>)"

definition gate_has_item ::
  "'s gate_shared_scheme \<Rightarrow> 'c gate_consumer_scheme \<Rightarrow> bool \<times> 'c gate_consumer_scheme" where
  "gate_has_item sh c =
     (if gate_available_cached c = 0
      then (let c1 = snd (gate_refresh sh c)
            in if gate_available_cached c1 = 0 then (False, c1) else (True, c1))
      else (True, c))"

text \<open>The close check: \<open>True\<close> is \<open>Err(Closed)\<close>.\<close>

definition gate_check_closed ::
  "'s gate_shared_scheme \<Rightarrow> 'c gate_consumer_scheme \<Rightarrow> bool \<times> 'c gate_consumer_scheme" where
  "gate_check_closed sh c =
     (if gs_closed sh \<noteq> 0
      then (let c1 = snd (gate_refresh sh c) in (gate_available_cached c1 = 0, c1))
      else (False, c))"

text \<open>
  The wait for an item: \<open>Inl\<close> is \<open>Err(Closed)\<close>. The parked predicate only
  reads; each element of \<open>env\<close> is what happened during one wait.
\<close>

fun gate_wait_for_item ::
  "('s gate_shared_scheme \<Rightarrow> 's gate_shared_scheme) list \<Rightarrow> 's gate_shared_scheme
     \<Rightarrow> 'c gate_consumer_scheme
     \<Rightarrow> (bool \<times> 's gate_shared_scheme \<times> 'c gate_consumer_scheme) option" where
  "gate_wait_for_item env sh c =
     (case gate_has_item sh c of
        (True, c1) \<Rightarrow> Some (True, sh, c1)
      | (False, c1) \<Rightarrow>
          (case gate_check_closed sh c1 of
             (True, c2) \<Rightarrow> Some (False, sh, c2)
           | (False, c2) \<Rightarrow>
               if gate_available_cached c2 \<noteq> 0 then Some (True, sh, c2)
               else (case env of [] \<Rightarrow> None | e # es \<Rightarrow> gate_wait_for_item es (e sh) c2)))"

declare gate_wait_for_item.simps [simp del]

definition gate_flush ::
  "'s gate_shared_scheme \<Rightarrow> 'c gate_consumer_scheme
     \<Rightarrow> 's gate_shared_scheme \<times> 'c gate_consumer_scheme" where
  "gate_flush sh c =
     (sh\<lparr>gs_registry := store_slot (gc_chunk c) (gc_slot c) (guard_sentinel (gc_read_cursor c))
                           (gs_registry sh),
         gs_producer_notified := Suc (gs_producer_notified sh)\<rparr>,
      c\<lparr>gc_published := gc_read_cursor c\<rparr>)"

definition gate_flush_pending ::
  "'s gate_shared_scheme \<Rightarrow> 'c gate_consumer_scheme
     \<Rightarrow> 's gate_shared_scheme \<times> 'c gate_consumer_scheme" where
  "gate_flush_pending sh c =
     (if gc_read_cursor c \<noteq> gc_published c then gate_flush sh c else (sh, c))"

definition gate_advance_one ::
  "'s gate_shared_scheme \<Rightarrow> 'c gate_consumer_scheme
     \<Rightarrow> 's gate_shared_scheme \<times> 'c gate_consumer_scheme" where
  "gate_advance_one sh c =
     (let capacity = gc_mask c + 1;
          was_full = gc_write_cache c - gc_read_cursor c > capacity - 1;
          c1 = c\<lparr>gc_read_cursor := gc_read_cursor c + 1\<rparr>
      in if was_full \<or> gc_read_cursor c1 = gc_write_cache c1
            \<or> gc_read_cursor c1 - gc_published c1 \<ge> publish_batch_elems capacity
         then gate_flush sh c1 else (sh, c1))"

definition gate_available :: "'s gate_shared_scheme \<Rightarrow> 'c gate_consumer_scheme \<Rightarrow> u64" where
  "gate_available sh c = gs_write_cursor sh - gc_read_cursor c"

text \<open>\<open>subscribe_from\<close>: refused on a closed ring, otherwise the claim choreography.\<close>

definition gate_subscribe ::
  "'s gate_shared_scheme \<Rightarrow> (subscribe_error + gate_consumer) \<times> 's gate_shared_scheme" where
  "gate_subscribe sh =
     (if gs_closed sh \<noteq> 0 then (Inl Closed_err, sh)
      else (case subscribe_slot (gs_write_cursor sh) (gs_write_cursor sh) (gs_registry sh) of
              (js, registry) \<Rightarrow>
                (Inr \<lparr>gc_mask = gs_mask sh, gc_chunk = js_chunk js, gc_slot = js_slot js,
                      gc_read_cursor = js_joined js, gc_published = js_published js,
                      gc_write_cache = js_joined js\<rparr>,
                 sh\<lparr>gs_registry := registry\<rparr>)))"

text \<open>\<open>Drop for Consumer\<close>: publish, store the sentinel, clear the bit, wake the producer.\<close>

definition gate_detach ::
  "'s gate_shared_scheme \<Rightarrow> 'c gate_consumer_scheme \<Rightarrow> 's gate_shared_scheme" where
  "gate_detach sh c =
     sh\<lparr>gs_registry := deactivate_slot (gc_chunk c) (gc_slot c) (gs_registry sh),
        gs_producer_notified := Suc (gs_producer_notified sh)\<rparr>"

definition gate_consumer_drop ::
  "'s gate_shared_scheme \<Rightarrow> 'c gate_consumer_scheme \<Rightarrow> 's gate_shared_scheme" where
  "gate_consumer_drop sh c =
     (case gate_flush_pending sh c of
        (sh1, c1) \<Rightarrow>
          gate_detach (sh1\<lparr>gs_registry := store_slot (gc_chunk c1) (gc_slot c1) DETACHED
                                            (gs_registry sh1)\<rparr>) c1)"

end
