(* ===== verification/Gate_Invariant.thy ===== *)
theory Gate_Invariant
  imports Gate
begin

text \<open>
  The invariant of a gating ring (cursor order, the gate, the producer's caches,
  the ownership of registry slots) and its preservation by every operation of
  the engine, over any family of attached consumers. The multi-consumer rings
  share it.
\<close>

section \<open>Slots\<close>

definition registry_wf :: "chunk list \<Rightarrow> bool" where
  "registry_wf registry \<longleftrightarrow> (\<forall>ch\<in>set registry. length (ch_slots ch) = CHUNK_SLOTS)"

definition occupied :: "chunk list \<Rightarrow> nat \<Rightarrow> nat \<Rightarrow> bool" where
  "occupied registry ci i \<longleftrightarrow> ci < length registry \<and> i < CHUNK_SLOTS
     \<and> (slot_active registry ci i \<or> slot_word registry ci i \<noteq> DETACHED)"

lemma registry_wf_nth: "registry_wf reg \<Longrightarrow> ci < length reg \<Longrightarrow> length (ch_slots (reg ! ci)) = CHUNK_SLOTS"
  by (simp add: registry_wf_def)

lemma registry_wf_update:
  "registry_wf reg \<Longrightarrow> length (ch_slots ch) = CHUNK_SLOTS \<Longrightarrow> registry_wf (reg[ci := ch])"
  by (auto simp: registry_wf_def dest: set_update_subset_insert [THEN subsetD])

lemma store_slot_wf: "registry_wf reg \<Longrightarrow> ci < length reg \<Longrightarrow> registry_wf (store_slot ci i w reg)"
  unfolding store_slot_def by (rule registry_wf_update) (simp_all add: registry_wf_nth)

lemma length_store_slot [simp]: "length (store_slot ci i w reg) = length reg"
  by (simp add: store_slot_def)

lemma slot_active_store [simp]: "slot_active (store_slot ci i w reg) cj j = slot_active reg cj j"
  by (cases "ci < length reg") (auto simp: slot_active_def store_slot_def nth_list_update list_update_beyond)

lemma slot_word_store:
  assumes "registry_wf reg" and "ci < length reg" and "i < CHUNK_SLOTS"
  shows "slot_word (store_slot ci i w reg) cj j = (if cj = ci \<and> j = i then w else slot_word reg cj j)"
  using assms by (auto simp: slot_word_def store_slot_def nth_list_update registry_wf_nth)

lemma length_deactivate_slot [simp]: "length (deactivate_slot ci i reg) = length reg"
  by (simp add: deactivate_slot_def)

lemma deactivate_slot_wf: "registry_wf reg \<Longrightarrow> ci < length reg \<Longrightarrow> registry_wf (deactivate_slot ci i reg)"
  unfolding deactivate_slot_def by (rule registry_wf_update) (simp_all add: deactivate_def registry_wf_nth)

lemma slot_word_deactivate [simp]: "slot_word (deactivate_slot ci i reg) cj j = slot_word reg cj j"
  by (cases "ci < length reg") (auto simp: slot_word_def deactivate_slot_def deactivate_def nth_list_update list_update_beyond)

lemma bit_push_1: "i < 64 \<Longrightarrow> bit (2 ^ i :: u64) j \<longleftrightarrow> j = i"
  by (auto simp: bit_exp_iff possible_bit_word)

lemma slot_active_deactivate:
  assumes "ci < length reg" and "i < CHUNK_SLOTS" and "j < CHUNK_SLOTS"
  shows "slot_active (deactivate_slot ci i reg) cj j \<longleftrightarrow> slot_active reg cj j \<and> \<not> (cj = ci \<and> j = i)"
  using assms
  by (auto simp: slot_active_def deactivate_slot_def deactivate_def nth_list_update CHUNK_SLOTS_def
      bit_and_iff bit_not_iff bit_push_1 possible_bit_word)

section \<open>Claiming\<close>

lemma claim_scan_Some:
  assumes "claim_scan free jc slots = Some (i, slots')"
  shows "i \<in> set free \<and> slots ! i = DETACHED \<and> slots' = slots[i := guard_sentinel jc]"
  using assms
  by (induction free) (auto simp: compare_exchange_def split: if_splits)

lemma claim_chunk_Some:
  assumes "claim_chunk jc ch = Some (i, ch')"
  shows "i < CHUNK_SLOTS \<and> \<not> bit (ch_bitmap ch) i \<and> ch_slots ch ! i = DETACHED
    \<and> ch' = ch\<lparr>ch_slots := (ch_slots ch)[i := guard_sentinel jc]\<rparr>"
proof -
  obtain slots' where s: "claim_scan (set_bits_of (NOT (ch_bitmap ch))) jc (ch_slots ch) = Some (i, slots')"
    and ch': "ch' = ch\<lparr>ch_slots := slots'\<rparr>"
    using assms by (auto simp: claim_chunk_def split: option.splits)
  have "i \<in> set (set_bits_of (NOT (ch_bitmap ch)))" "ch_slots ch ! i = DETACHED"
    "slots' = (ch_slots ch)[i := guard_sentinel jc]"
    using claim_scan_Some [OF s] by auto
  then show ?thesis
    using ch' by (auto simp: set_set_bits_of bit_not_iff)
qed

lemma claim_chunk_new: "claim_chunk jc chunk_new \<noteq> None"
proof -
  have "set_bits_of (NOT (0 :: u64)) = 0 # map Suc [0..<63]"
    by (simp add: set_bits_of_def CHUNK_SLOTS_def map_Suc_upt upt_conv_Cons filter_id_conv del: upt_Suc)
  then show ?thesis
    by (simp add: claim_chunk_def chunk_new_def compare_exchange_def CHUNK_SLOTS_def)
qed

text \<open>
  A claim takes one free slot, of the registry or of one appended chunk, and
  changes nothing else.
\<close>

lemma claim_registry_slot_spec:
  assumes "claim_registry_slot jc reg = ((ci, i), reg')"
  shows "\<exists>reg0. (reg0 = reg \<or> reg0 = reg @ [chunk_new]) \<and> ci < length reg0 \<and> i < CHUNK_SLOTS
    \<and> \<not> bit (ch_bitmap (reg0 ! ci)) i \<and> ch_slots (reg0 ! ci) ! i = DETACHED
    \<and> reg' = store_slot ci i (guard_sentinel jc) reg0"
  using assms
proof (induction reg arbitrary: ci reg')
  case Nil
  obtain j ch where ch: "claim_chunk jc chunk_new = Some (j, ch)"
    using claim_chunk_new by fastforce
  then have "ci = 0" "i = j" "reg' = [ch]" using Nil by simp_all
  then show ?case
    using claim_chunk_Some [OF ch] by (auto simp: store_slot_def)
next
  case (Cons ch reg)
  show ?case
  proof (cases "claim_chunk jc ch")
    case None
    then obtain cj reg1 where r: "claim_registry_slot jc reg = ((cj, i), reg1)"
      and e: "ci = Suc cj" "reg' = ch # reg1"
      using Cons.prems by (auto split: prod.splits)
    obtain reg0 where R: "reg0 = reg \<or> reg0 = reg @ [chunk_new]" "cj < length reg0" "i < CHUNK_SLOTS"
      "\<not> bit (ch_bitmap (reg0 ! cj)) i" "ch_slots (reg0 ! cj) ! i = DETACHED"
      "reg1 = store_slot cj i (guard_sentinel jc) reg0"
      using Cons.IH [OF r] by blast
    have "ch # reg0 = ch # reg \<or> ch # reg0 = (ch # reg) @ [chunk_new]" using R(1) by auto
    moreover have "reg' = store_slot ci i (guard_sentinel jc) (ch # reg0)"
      using e R(6) by (simp add: store_slot_def)
    ultimately show ?thesis
      using R(2-5) e by (intro exI [of _ "ch # reg0"]) simp
  next
    case (Some a)
    obtain j ch' where a: "a = (j, ch')" by (rule prod.exhaust)
    then have "ci = 0" "i = j" "reg' = ch' # reg" using Cons.prems Some by simp_all
    then show ?thesis
      using claim_chunk_Some [OF Some [unfolded a]]
      by (intro exI [of _ "ch # reg"]) (simp add: store_slot_def)
  qed
qed

text \<open>Subscribing occupies one slot that was free, with the guarded join cursor in it.\<close>

lemma subscribe_slot_spec:
  assumes s: "subscribe_slot provisional joined reg = (js, reg')" and wf: "registry_wf reg"
    and ci: "ci = js_chunk js" and i: "i = js_slot js"
  shows "js_joined js = joined" and "js_published js = guard_sentinel joined"
    and "registry_wf reg'" and "ci < length reg'" and "length reg \<le> length reg'"
    and "i < CHUNK_SLOTS" and "\<not> occupied reg ci i"
    and "slot_active reg' ci i" and "slot_word reg' ci i = guard_sentinel joined"
    and "\<And>cj j. cj < length reg \<Longrightarrow> j < CHUNK_SLOTS \<Longrightarrow> (cj, j) \<noteq> (ci, i) \<Longrightarrow>
       slot_word reg' cj j = slot_word reg cj j \<and> slot_active reg' cj j = slot_active reg cj j"
    and "\<And>cj j. length reg \<le> cj \<Longrightarrow> (cj, j) \<noteq> (ci, i) \<Longrightarrow> \<not> occupied reg' cj j"
proof -
  obtain c k reg1 where cl: "claim_registry_slot provisional reg = ((c, k), reg1)"
    by (metis surj_pair)
  obtain reg0 where R: "reg0 = reg \<or> reg0 = reg @ [chunk_new]" "c < length reg0" "k < CHUNK_SLOTS"
    "\<not> bit (ch_bitmap (reg0 ! c)) k" "ch_slots (reg0 ! c) ! k = DETACHED"
    "reg1 = store_slot c k (guard_sentinel provisional) reg0"
    using claim_registry_slot_spec [OF cl] by blast
  have wf0: "registry_wf reg0"
    using R(1) wf by (auto simp: registry_wf_def chunk_new_def)
  have new: "ch_bitmap chunk_new = 0" "j < CHUNK_SLOTS \<Longrightarrow> ch_slots chunk_new ! j = DETACHED" for j
    by (simp_all add: chunk_new_def)
  define ch where "ch = reg0 ! c"
  have len: "length (ch_slots ch) = CHUNK_SLOTS"
    using wf0 R(2) by (simp add: ch_def registry_wf_nth)
  have js: "js = \<lparr>js_chunk = c, js_slot = k, js_joined = joined, js_published = guard_sentinel joined\<rparr>"
    and reg': "reg' = reg0[c := ch\<lparr>ch_bitmap := ch_bitmap ch OR push_bit k 1,
                                 ch_slots := (ch_slots ch)[k := guard_sentinel joined]\<rparr>]"
    using s cl R(2) by (auto simp: subscribe_slot_def Let_def R(6) store_slot_def ch_def)
  have e: "ci = c" "i = k" using ci i js by simp_all
  have k64: "k < 64" using R(3) by (simp add: CHUNK_SLOTS_def)
  have other: "slot_word reg' cj j = slot_word reg0 cj j \<and> slot_active reg' cj j = slot_active reg0 cj j"
    if "(cj, j) \<noteq> (c, k)" for cj j
    using that R(2) k64
    by (auto simp: reg' slot_word_def slot_active_def nth_list_update ch_def bit_or_iff bit_push_1)
  have old: "slot_word reg0 cj j = slot_word reg cj j \<and> slot_active reg0 cj j = slot_active reg cj j"
    if "cj < length reg" for cj j
    using R(1) that by (auto simp: slot_word_def slot_active_def nth_append)
  show "js_joined js = joined" "js_published js = guard_sentinel joined" by (simp_all add: js)
  show "registry_wf reg'" unfolding reg' using wf0 len by (simp add: registry_wf_update)
  show "ci < length reg'" "length reg \<le> length reg'" "i < CHUNK_SLOTS" using R(1,2,3) by (auto simp: reg' e)
  show "\<not> occupied reg ci i"
    using R(4,5) old by (auto simp: occupied_def e slot_word_def slot_active_def)
  show "slot_active reg' ci i" "slot_word reg' ci i = guard_sentinel joined"
    using R(2,3) len k64
    by (simp_all add: reg' e slot_active_def slot_word_def bit_or_iff bit_push_1)
  show "slot_word reg' cj j = slot_word reg cj j \<and> slot_active reg' cj j = slot_active reg cj j"
    if "cj < length reg" "j < CHUNK_SLOTS" "(cj, j) \<noteq> (ci, i)" for cj j
    using other old that by (simp add: e)
  show "\<not> occupied reg' cj j" if "length reg \<le> cj" "(cj, j) \<noteq> (ci, i)" for cj j
  proof
    assume oc: "occupied reg' cj j"
    then have cj: "cj = length reg" "reg0 = reg @ [chunk_new]" "j < CHUNK_SLOTS"
      using R(1) that(1) by (auto simp: occupied_def reg')
    have "\<not> slot_active reg0 cj j \<and> slot_word reg0 cj j = DETACHED"
      using cj new by (simp add: slot_word_def slot_active_def)
    then show False using oc other [of cj j] that(2) by (simp add: occupied_def e)
  qed
qed

section \<open>The invariant\<close>

text \<open>
  The cursors of one attached consumer, oldest first: the word the gate sees,
  the private read cursor, the cached write cursor, the write cursor. Neither
  the gate nor the cache entry of its slot is ahead of its published cursor.
\<close>

definition consumer_ok ::
  "'s gate_shared_scheme \<Rightarrow> 'p gate_producer_scheme \<Rightarrow> 'c gate_consumer_scheme \<Rightarrow> bool" where
  "consumer_ok sh p c \<longleftrightarrow>
     gc_mask c = gs_mask sh \<and> gc_chunk c < length (gs_registry sh) \<and> gc_slot c < CHUNK_SLOTS
     \<and> slot_active (gs_registry sh) (gc_chunk c) (gc_slot c)
     \<and> slot_word (gs_registry sh) (gc_chunk c) (gc_slot c) = gc_published c
     \<and> unat (gc_published c) \<le> unat (gc_read_cursor c)
     \<and> unat (gc_read_cursor c) \<le> unat (gc_write_cache c)
     \<and> unat (gc_write_cache c) \<le> unat (gp_next_seq p)
     \<and> unat (gp_next_seq p) - unat (gc_published c) \<le> cdist (gp_cached_min p) (gp_next_seq p)
     \<and> (gc_chunk c < length (gp_cached_cursors p) \<longrightarrow>
          unat (gp_next_seq p) - unat (gc_published c)
            \<le> cdist (gp_cached_cursors p ! gc_chunk c ! gc_slot c) (gp_next_seq p))"

text \<open>
  The producer: its cursor is the published one, the gate is at most one lap
  behind it, and the cursor is far enough from the end of its range that no
  cached cursor can wrap.
\<close>

definition gate_producer_ok :: "'s gate_shared_scheme \<Rightarrow> 'p gate_producer_scheme \<Rightarrow> bool" where
  "gate_producer_ok sh p \<longleftrightarrow>
     valid_mask (gs_mask sh) \<and> gp_mask p = gs_mask sh \<and> 2 \<le> capacity_of (gs_mask sh)
     \<and> gp_next_seq p = gs_write_cursor sh
     \<and> unat (gp_next_seq p) + 2 * capacity_of (gs_mask sh) < word_span
     \<and> cdist (gp_cached_min p) (gp_next_seq p) \<le> capacity_of (gs_mask sh)
     \<and> (\<forall>row\<in>set (gp_cached_cursors p). length row = CHUNK_SLOTS
          \<and> (\<forall>v\<in>set row. cdist v (gp_next_seq p)
                 \<le> unat (gp_next_seq p) + capacity_of (gs_mask sh)))"

definition owners_ok :: "chunk list \<Rightarrow> (nat \<Rightarrow> 'c gate_consumer_scheme option) \<Rightarrow> bool" where
  "owners_ok registry cs \<longleftrightarrow> registry_wf registry
     \<and> (\<forall>i j c d. cs i = Some c \<longrightarrow> cs j = Some d \<longrightarrow>
          gc_chunk c = gc_chunk d \<longrightarrow> gc_slot c = gc_slot d \<longrightarrow> i = j)
     \<and> (\<forall>ci i. occupied registry ci i \<longrightarrow>
          (\<exists>k c. cs k = Some c \<and> gc_chunk c = ci \<and> gc_slot c = i))"

definition gate_ok ::
  "'s gate_shared_scheme \<Rightarrow> 'p gate_producer_scheme \<Rightarrow> (nat \<Rightarrow> 'c gate_consumer_scheme option) \<Rightarrow> bool" where
  "gate_ok sh p cs \<longleftrightarrow> gate_producer_ok sh p \<and> owners_ok (gs_registry sh) cs
     \<and> (\<forall>k c. cs k = Some c \<longrightarrow> consumer_ok sh p c)"

lemma gate_okI:
  assumes "gate_producer_ok sh p" and "owners_ok (gs_registry sh) cs"
    and "\<And>k c. cs k = Some c \<Longrightarrow> consumer_ok sh p c"
  shows "gate_ok sh p cs"
  using assms by (simp add: gate_ok_def)

lemma gate_okD:
  assumes "gate_ok sh p cs"
  shows "gate_producer_ok sh p" and "owners_ok (gs_registry sh) cs"
    and "cs k = Some c \<Longrightarrow> consumer_ok sh p c"
  using assms by (auto simp: gate_ok_def)

lemma owners_okD:
  assumes "owners_ok reg cs"
  shows "registry_wf reg"
    and "\<lbrakk>cs i = Some c; cs j = Some d; gc_chunk c = gc_chunk d; gc_slot c = gc_slot d\<rbrakk> \<Longrightarrow> i = j"
    and "occupied reg ci n \<Longrightarrow> \<exists>k c. cs k = Some c \<and> gc_chunk c = ci \<and> gc_slot c = n"
  using assms unfolding owners_ok_def by blast+

lemma gate_ok_cong:
  assumes "gate_ok sh p cs" and "gs_mask sh' = gs_mask sh" and "gs_write_cursor sh' = gs_write_cursor sh"
    and "gs_registry sh' = gs_registry sh"
    and "gp_mask p' = gp_mask p" and "gp_next_seq p' = gp_next_seq p"
    and "gp_cached_min p' = gp_cached_min p" and "gp_cached_cursors p' = gp_cached_cursors p"
  shows "gate_ok sh' p' cs"
  using assms by (auto simp: gate_ok_def gate_producer_ok_def consumer_ok_def)

text \<open>Distances between cursors that have not wrapped.\<close>

lemma cdist_unat: "unat a \<le> unat b \<Longrightarrow> cdist a b = unat b - unat a"
  unfolding cdist_def by (rule unat_sub) (simp only: word_le_nat_alt)

lemma mask_capacity: "unat (m + 1) = capacity_of m"
  by (rule capacity_of_def [symmetric])

lemma not_DETACHED: "Suc (unat x) < word_span \<Longrightarrow> x \<noteq> DETACHED"
proof
  assume "Suc (unat x) < word_span" and "x = DETACHED"
  moreover have "unat (- 1 :: u64) = word_span - 1"
    unfolding word_span_def unsigned_minus_1_eq_mask mask_eq_exp_minus_1 by simp
  ultimately show False by (simp add: DETACHED_def)
qed

lemma guard_sentinel_id: "Suc (unat x) < word_span \<Longrightarrow> guard_sentinel x = x"
  using not_DETACHED by (simp add: guard_sentinel_def)

lemma producer_okD:
  assumes "gate_producer_ok sh p"
  shows "valid_mask (gs_mask sh)" and "gp_mask p = gs_mask sh" and "2 \<le> capacity_of (gs_mask sh)"
    and "gs_write_cursor sh = gp_next_seq p"
    and "unat (gp_next_seq p) + 2 * capacity_of (gs_mask sh) < word_span"
    and "cdist (gp_cached_min p) (gp_next_seq p) \<le> capacity_of (gs_mask sh)"
    and "\<forall>row\<in>set (gp_cached_cursors p). length row = CHUNK_SLOTS
          \<and> (\<forall>v\<in>set row. cdist v (gp_next_seq p)
                 \<le> unat (gp_next_seq p) + capacity_of (gs_mask sh))"
  using assms unfolding gate_producer_ok_def by (blast intro: sym)+

lemma consumer_okD:
  assumes "consumer_ok sh p c"
  shows "gc_mask c = gs_mask sh" and "gc_chunk c < length (gs_registry sh)" and "gc_slot c < CHUNK_SLOTS"
    and "slot_active (gs_registry sh) (gc_chunk c) (gc_slot c)"
    and "slot_word (gs_registry sh) (gc_chunk c) (gc_slot c) = gc_published c"
    and "unat (gc_published c) \<le> unat (gc_read_cursor c)"
    and "unat (gc_read_cursor c) \<le> unat (gc_write_cache c)"
    and "unat (gc_write_cache c) \<le> unat (gp_next_seq p)"
    and "unat (gp_next_seq p) - unat (gc_published c) \<le> cdist (gp_cached_min p) (gp_next_seq p)"
  using assms unfolding consumer_ok_def by blast+

section \<open>The producer's operations\<close>

text \<open>Every value of the cache after a walk was there before, is the seed, or is an active cursor.\<close>

lemma scan_slots_values:
  assumes "scan_slots nx needed cap slots bits (row, a, lag) = (row', res)"
    and "\<forall>v\<in>set row. P v" and "\<forall>i\<in>set bits. slots ! i \<noteq> DETACHED \<longrightarrow> P (slots ! i)"
  shows "length row' = length row \<and> (\<forall>v\<in>set row'. P v)"
  using assms
proof (induction bits arbitrary: row a lag)
  case (Cons i bits)
  obtain row1 a1 lag1 where s: "scan_slot nx needed cap slots i (row, a, lag) = (row1, a1, lag1)"
    by (metis prod_cases3)
  have "row1 = row \<or> slots ! i \<noteq> DETACHED \<and> row1 = row[i := slots ! i]"
    using s by (auto simp: scan_slot_def Let_def split: if_splits)
  then have "length row1 = length row \<and> (\<forall>v\<in>set row1. P v)"
    using Cons.prems(2,3) by (auto dest: set_update_subset_insert [THEN subsetD])
  then show ?case
    using Cons.IH [of row1 a1 lag1] Cons.prems s by simp
qed simp

lemma scan_chunk_registry_values:
  assumes "scan_chunk_registry registry cached nx needed cap acc = (res, cached')"
    and "\<forall>row\<in>set cached. length row = CHUNK_SLOTS \<and> (\<forall>v\<in>set row. P v)" and "P (nx - cap)"
    and "\<forall>w\<in>registry_cursors registry. P w"
  shows "\<forall>row\<in>set cached'. length row = CHUNK_SLOTS \<and> (\<forall>v\<in>set row. P v)"
  using assms
proof (induction registry arbitrary: cached acc cached' res)
  case (Cons ch chunks)
  obtain any_active lag where acc: "acc = (any_active, lag)" by (rule prod.exhaust)
  define row where "row = (case cached of [] \<Rightarrow> replicate CHUNK_SLOTS (nx - cap) | row # rows \<Rightarrow> row)"
  let ?bits = "set_bits_of (ch_bitmap ch)"
  obtain row' a1 lag1 where sl: "scan_slots nx needed cap (ch_slots ch) ?bits (row, any_active, lag)
      = (row', a1, lag1)"
    by (metis prod_cases3)
  obtain res1 rows' where sc: "scan_chunk_registry chunks (tl cached) nx needed cap (a1, lag1)
      = (res1, rows')"
    by (rule prod.exhaust)
  have c': "cached' = row' # rows'" using Cons.prems(1) sl sc by (simp add: acc row_def Let_def)
  have r: "length row = CHUNK_SLOTS \<and> (\<forall>v\<in>set row. P v)"
    using Cons.prems(2,3) by (cases cached) (simp_all add: row_def)
  have act: "\<forall>i\<in>set ?bits. ch_slots ch ! i \<noteq> DETACHED \<longrightarrow> P (ch_slots ch ! i)"
    using Cons.prems(4) by (auto simp: registry_cursors_Cons chunk_cursors_image)
  have "length row' = length row \<and> (\<forall>v\<in>set row'. P v)"
    using scan_slots_values [OF sl _ act] r by blast
  moreover have "\<forall>row\<in>set rows'. length row = CHUNK_SLOTS \<and> (\<forall>v\<in>set row. P v)"
    using Cons.IH [OF sc _ Cons.prems(3)] Cons.prems(2,4)
    by (cases cached) (simp_all add: registry_cursors_Cons)
  ultimately show ?case using r c' by simp
qed simp

lemma rows_ok_iff:
  "rows_ok nx cap registry cached \<longleftrightarrow>
     (\<forall>ci. ci < length registry \<longrightarrow> ci < length cached \<longrightarrow> row_ok nx cap (registry ! ci) (cached ! ci))"
proof (induction registry arbitrary: cached)
  case (Cons ch chunks)
  show ?case
    by (cases cached) (auto simp: Cons.IH nth_Cons split: nat.splits)
qed simp

lemma registry_cursors_iff:
  "w \<in> registry_cursors reg \<longleftrightarrow>
     (\<exists>ci i. ci < length reg \<and> i < CHUNK_SLOTS \<and> slot_active reg ci i \<and> slot_word reg ci i = w \<and> w \<noteq> DETACHED)"
proof -
  have 1: "w \<in> registry_cursors reg \<longleftrightarrow> (\<exists>ci<length reg. w \<in> chunk_cursors (reg ! ci))"
    unfolding registry_cursors_def by (auto simp: in_set_conv_nth) (metis nth_mem)
  have 2: "w \<in> chunk_cursors ch \<longleftrightarrow>
      (\<exists>i<CHUNK_SLOTS. bit (ch_bitmap ch) i \<and> ch_slots ch ! i = w \<and> w \<noteq> DETACHED)" for ch
    by (auto simp: chunk_cursors_image set_set_bits_of)
  show ?thesis unfolding 1 2 slot_active_def slot_word_def by blast
qed

text \<open>The active cursors are those of the attached consumers.\<close>

lemma gate_cursors_published:
  assumes ok: "gate_ok sh p cs"
  shows "w \<in> registry_cursors (gs_registry sh) \<longleftrightarrow> (\<exists>k c. cs k = Some c \<and> gc_published c = w)"
proof
  assume "w \<in> registry_cursors (gs_registry sh)"
  then obtain ci i where ci: "ci < length (gs_registry sh)" "i < CHUNK_SLOTS"
    "slot_active (gs_registry sh) ci i" "slot_word (gs_registry sh) ci i = w"
    unfolding registry_cursors_iff by blast
  then have "occupied (gs_registry sh) ci i" by (simp add: occupied_def)
  then obtain k c where c: "cs k = Some c" "gc_chunk c = ci" "gc_slot c = i"
    using owners_okD(3) [OF gate_okD(2) [OF ok]] by blast
  then have "gc_published c = w" using consumer_okD(5) [OF gate_okD(3) [OF ok c(1)]] ci(4) by simp
  with c(1) show "\<exists>k c. cs k = Some c \<and> gc_published c = w" by blast
next
  assume "\<exists>k c. cs k = Some c \<and> gc_published c = w"
  then obtain k c where c: "cs k = Some c" "gc_published c = w" by blast
  note C = consumer_okD [OF gate_okD(3) [OF ok c(1)]]
  note P = producer_okD [OF gate_okD(1) [OF ok]]
  have "unat w \<le> unat (gp_next_seq p)" using C(6-8) unfolding c(2) [symmetric] by linarith
  then have "w \<noteq> DETACHED" using P(3,5) by (intro not_DETACHED) linarith
  then show "w \<in> registry_cursors (gs_registry sh)"
    unfolding registry_cursors_iff using C(2-5) c(2) by blast
qed

lemma gate_lag_published:
  assumes ok: "gate_ok sh p cs" and c: "cs k = Some c"
  shows "cdist (gc_published c) (gp_next_seq p) = unat (gp_next_seq p) - unat (gc_published c)"
  using consumer_okD(6-8) [OF gate_okD(3) [OF ok c]] by (intro cdist_unat) linarith

lemma gate_cache_ok:
  assumes ok: "gate_ok sh p cs"
  shows "cache_ok (gs_registry sh) (gp_cached_cursors p) (gp_next_seq p) (gp_mask p + 1)"
proof -
  let ?nx = "gp_next_seq p" and ?reg = "gs_registry sh" and ?ca = "gp_cached_cursors p"
  note P = producer_okD [OF gate_okD(1) [OF ok]]
  have cap: "unat (gp_mask p + 1) = capacity_of (gs_mask sh)" using P(2) mask_capacity by simp
  have small: "cdist s ?nx + unat (gp_mask p + 1) < word_span" if s: "s \<in> registry_cursors ?reg" for s
  proof -
    obtain k c where c: "cs k = Some c" "gc_published c = s"
      using gate_cursors_published [OF ok] s by blast
    show ?thesis
      using gate_lag_published [OF ok c(1)] P(5) cap unfolding c(2) [symmetric] by linarith
  qed
  have row: "row_ok ?nx (gp_mask p + 1) (?reg ! ci) (?ca ! ci)"
    if ci: "ci < length ?reg" "ci < length ?ca" for ci
  proof -
    have r: "length (?ca ! ci) = CHUNK_SLOTS"
      "\<forall>v\<in>set (?ca ! ci). cdist v ?nx \<le> unat ?nx + capacity_of (gs_mask sh)"
      using gate_okD(1) [OF ok] ci(2) unfolding gate_producer_ok_def by (meson nth_mem)+
    have "cdist (?ca ! ci ! i) ?nx + unat (gp_mask p + 1) < word_span" if "i < CHUNK_SLOTS" for i
    proof -
      have "cdist (?ca ! ci ! i) ?nx \<le> unat ?nx + capacity_of (gs_mask sh)" using r that by simp
      then show ?thesis using P(5) cap by linarith
    qed
    moreover have "cdist (ch_slots (?reg ! ci) ! i) ?nx \<le> cdist (?ca ! ci ! i) ?nx"
      if i: "i \<in> set (set_bits_of (ch_bitmap (?reg ! ci)))" "ch_slots (?reg ! ci) ! i \<noteq> DETACHED" for i
    proof -
      have "occupied ?reg ci i"
        using i ci(1) by (simp add: occupied_def slot_active_def set_set_bits_of)
      then obtain k c where c: "cs k = Some c" "gc_chunk c = ci" "gc_slot c = i"
        using owners_okD(3) [OF gate_okD(2) [OF ok]] by blast
      have "consumer_ok sh p c" by (rule gate_okD(3) [OF ok c(1)])
      then have "unat ?nx - unat (gc_published c) \<le> cdist (?ca ! ci ! i) ?nx"
        and "ch_slots (?reg ! ci) ! i = gc_published c"
        using c ci(2) by (auto simp: consumer_ok_def slot_word_def)
      then show ?thesis using gate_lag_published [OF ok c(1)] by simp
    qed
    ultimately show ?thesis using r(1) by (simp add: row_ok_def)
  qed
  show ?thesis
    unfolding cache_ok_def rows_ok_iff using small row P(5) cap by auto
qed

text \<open>
  A rescan keeps the invariant. When it finds space, the space is behind the
  gate; when it does not, some attached consumer's published cursor is in the way.
\<close>

lemma gate_rescan_ok:
  assumes ok: "gate_ok sh p cs" and n: "0 < needed" "unat needed < capacity_of (gs_mask sh)"
    and r: "gate_rescan needed sh p = (free, p')"
  shows "gate_ok sh p' cs" and "gp_next_seq p' = gp_next_seq p" and "gp_mask p' = gp_mask p"
    and "free \<Longrightarrow> cdist (gp_cached_min p') (gp_next_seq p) + unat needed \<le> capacity_of (gs_mask sh)"
    and "\<not> free \<Longrightarrow> \<exists>k c. cs k = Some c
           \<and> capacity_of (gs_mask sh) < unat (gp_next_seq p) - unat (gc_published c) + unat needed"
    and "gate_producer.more p' = gate_producer.more p"
proof -
  let ?nx = "gp_next_seq p" and ?reg = "gs_registry sh" and ?cap = "gp_mask p + 1"
  note P = producer_okD [OF gate_okD(1) [OF ok]]
  have cap: "unat ?cap = capacity_of (gs_mask sh)" using P(2) mask_capacity by simp
  have n': "needed < ?cap" "needed \<le> ?cap"
    using n(2) cap by (simp_all add: word_less_nat_alt word_le_nat_alt)
  note CA = gate_cache_ok [OF ok]
  obtain walked ca' where w: "heap_walk ?reg (gp_cached_cursors p) ?nx needed ?cap = (walked, ca')"
    by (rule prod.exhaust)
  obtain free' m where g: "rescan_gate ?nx needed ?cap walked = (free', m)" by (rule prod.exhaust)
  have p': "p' = p\<lparr>gp_cached_min := m, gp_cached_cursors := ca'\<rparr>" and f: "free' = free"
    using r w g by (simp_all add: gate_rescan_def Let_def)
  have lag: "cdist s ?nx \<le> cdist m ?nx" if "s \<in> registry_cursors ?reg" for s
    by (rule heap_gate.gate_lower_bound [OF CA n(1) n'(2) w g that])
  have free: "cdist m ?nx + unat needed \<le> capacity_of (gs_mask sh)" if free
    using heap_gate.gate_open(1) [OF CA n(1) n'(2) w] g f that cap by simp
  have shut: "\<exists>k c. cs k = Some c \<and> cdist m ?nx = unat ?nx - unat (gc_published c)
      \<and> capacity_of (gs_mask sh) < unat ?nx - unat (gc_published c) + unat needed" if "\<not> free"
  proof -
    have "rescan_gate ?nx needed ?cap walked = (False, m)" using g f that by simp
    then obtain s where s: "s \<in> registry_cursors ?reg" "cdist s ?nx = cdist m ?nx"
      "unat ?cap < cdist s ?nx + unat needed"
      using heap_gate.gate_closed [OF CA n(1) n'(1) w] by blast
    obtain k c where c: "cs k = Some c" "gc_published c = s"
      using gate_cursors_published [OF ok] s(1) by blast
    have L: "cdist m ?nx = unat ?nx - unat (gc_published c)"
      using s(2) gate_lag_published [OF ok c(1)] unfolding c(2) [symmetric] by simp
    have "capacity_of (gs_mask sh) < unat ?nx - unat (gc_published c) + unat needed"
      using s(2,3) cap L by linarith
    with c(1) L show ?thesis by blast
  qed
  have m: "cdist m ?nx \<le> capacity_of (gs_mask sh)"
  proof (cases free)
    case False
    then obtain k c where c: "cs k = Some c" "cdist m ?nx = unat ?nx - unat (gc_published c)"
      using shut by blast
    show ?thesis using c(2) consumer_okD(9) [OF gate_okD(3) [OF ok c(1)]] P(6) by linarith
  qed (use free in linarith)
  let ?small = "\<lambda>v. cdist v ?nx \<le> unat ?nx + capacity_of (gs_mask sh)"
  have rows: "\<forall>row\<in>set ca'. length row = CHUNK_SLOTS \<and> (\<forall>v\<in>set row. ?small v)"
  proof (rule scan_chunk_registry_values [OF w [unfolded heap_walk_def]])
    show "\<forall>row\<in>set (gp_cached_cursors p). length row = CHUNK_SLOTS \<and> (\<forall>v\<in>set row. ?small v)"
      by (rule P(7))
    show "?small (?nx - ?cap)" using cap by simp
    show "\<forall>v\<in>registry_cursors ?reg. ?small v"
      using gate_cursors_published [OF ok] gate_lag_published [OF ok] by force
  qed
  have ca': "cache_ok ?reg ca' ?nx ?cap" by (rule heap_gate.walk_cache [OF CA n(1) n'(2) w])
  have cons: "consumer_ok sh p' c" if c: "cs k = Some c" for k c
  proof -
    have C: "consumer_ok sh p c" by (rule gate_okD(3) [OF ok c])
    note L = gate_lag_published [OF ok c]
    have s: "gc_published c \<in> registry_cursors ?reg" using gate_cursors_published [OF ok] c by blast
    have "unat ?nx - unat (gc_published c) \<le> cdist (ca' ! gc_chunk c ! gc_slot c) ?nx"
      if "gc_chunk c < length ca'"
    proof -
      have "row_ok ?nx ?cap (?reg ! gc_chunk c) (ca' ! gc_chunk c)"
        using ca' consumer_okD(2) [OF C] that by (simp add: cache_ok_def rows_ok_iff)
      moreover have "gc_slot c \<in> set (set_bits_of (ch_bitmap (?reg ! gc_chunk c)))"
        using consumer_okD(3,4) [OF C] by (simp add: set_set_bits_of slot_active_def)
      moreover have "ch_slots (?reg ! gc_chunk c) ! gc_slot c = gc_published c"
        using consumer_okD(5) [OF C] by (simp add: slot_word_def)
      moreover have "gc_published c \<noteq> DETACHED" using s by (auto simp: registry_cursors_iff)
      ultimately have "cdist (gc_published c) ?nx \<le> cdist (ca' ! gc_chunk c ! gc_slot c) ?nx"
        unfolding row_ok_def by (metis (no_types, lifting))
      then show ?thesis using L by simp
    qed
    then show ?thesis using C lag [OF s] L by (simp add: consumer_ok_def p')
  qed
  show "gate_ok sh p' cs"
  proof (rule gate_okI [OF _ gate_okD(2) [OF ok] cons])
    show "gate_producer_ok sh p'"
      using P(1-5) m rows by (simp add: gate_producer_ok_def p')
  qed
  show "gp_next_seq p' = ?nx" "gp_mask p' = gp_mask p"
    "gate_producer.more p' = gate_producer.more p" by (simp_all add: p')
  show "free \<Longrightarrow> cdist (gp_cached_min p') ?nx + unat needed \<le> capacity_of (gs_mask sh)"
    using free by (simp add: p')
  show "\<not> free \<Longrightarrow> \<exists>k c. cs k = Some c
      \<and> capacity_of (gs_mask sh) < unat ?nx - unat (gc_published c) + unat needed"
    using shut by blast
qed

lemma gate_has_space_ok:
  assumes ok: "gate_ok sh p cs" and n: "0 < needed" "unat needed < capacity_of (gs_mask sh)"
    and r: "gate_has_space needed sh p = (free, p')"
  shows "gate_ok sh p' cs" and "gp_next_seq p' = gp_next_seq p" and "gp_mask p' = gp_mask p"
    and "free \<Longrightarrow> cdist (gp_cached_min p') (gp_next_seq p) + unat needed \<le> capacity_of (gs_mask sh)"
    and "\<not> free \<Longrightarrow> \<exists>k c. cs k = Some c
           \<and> capacity_of (gs_mask sh) < unat (gp_next_seq p) - unat (gc_published c) + unat needed"
    and "gate_producer.more p' = gate_producer.more p"
proof -
  note P = producer_okD [OF gate_okD(1) [OF ok]]
  have sp: "cdist (gp_cached_min p) (gp_next_seq p) + unat needed < word_span"
    using P(5,6) n(2) by linarith
  have fit: "cdist (gp_cached_min p) (gp_next_seq p) + unat needed \<le> capacity_of (gs_mask sh)"
    if "\<not> gate_lacks_space (gp_next_seq p) needed (gp_cached_min p) (gp_mask p + 1)"
    using that gate_lacks_iff [OF sp] P(2) mask_capacity [of "gs_mask sh"] by simp
  note R = gate_rescan_ok [OF ok n]
  let ?L = "gate_lacks_space (gp_next_seq p) needed (gp_cached_min p) (gp_mask p + 1)"
  have c: "\<not> ?L \<and> free \<and> p' = p \<or> ?L \<and> gate_rescan needed sh p = (free, p')"
    using r by (auto simp: gate_has_space_def split: if_splits)
  show "gate_ok sh p' cs" using c ok R(1) by blast
  show "gp_next_seq p' = gp_next_seq p" using c R(2) by blast
  show "gp_mask p' = gp_mask p" using c R(3) by blast
  show "gate_producer.more p' = gate_producer.more p" using c R(6) by blast
  show "cdist (gp_cached_min p') (gp_next_seq p) + unat needed \<le> capacity_of (gs_mask sh)" if free
    using c fit R(4) that by blast
  show "\<exists>k c. cs k = Some c
      \<and> capacity_of (gs_mask sh) < unat (gp_next_seq p) - unat (gc_published c) + unat needed"
    if "\<not> free" using c R(5) that by blast
qed

text \<open>With no consumer attached the producer never has to wait.\<close>

lemma gate_no_consumers_space:
  assumes "gate_ok sh p cs" and "0 < needed" "unat needed < capacity_of (gs_mask sh)"
    and "\<And>k. cs k = None" and "gate_has_space needed sh p = (free, p')"
  shows free
  using gate_has_space_ok(5) [OF assms(1-3,5)] assms(4) by auto

text \<open>Publishing into space the gate has granted.\<close>

lemma gate_publish_ok:
  assumes ok: "gate_ok sh p cs"
    and fit: "cdist (gp_cached_min p) (gp_next_seq p) + unat n \<le> capacity_of (gs_mask sh)"
    and span: "unat (gp_next_seq p) + unat n + 2 * capacity_of (gs_mask sh) < word_span"
    and pb: "gate_publish n sh p = (sh', p')"
  shows "gate_ok sh' p' cs" and "unat (gp_next_seq p') = unat (gp_next_seq p) + unat n"
proof -
  let ?nx = "gp_next_seq p"
  have sh': "sh' = sh\<lparr>gs_write_cursor := ?nx + n, gs_consumer_notified := Suc (gs_consumer_notified sh)\<rparr>"
    and p': "p' = p\<lparr>gp_next_seq := ?nx + n\<rparr>"
    using pb by (simp_all add: gate_publish_def Let_def)
  note P = producer_okD [OF gate_okD(1) [OF ok]]
  have nx: "unat (?nx + n) = unat ?nx + unat n" using span by (intro unat_add_span) linarith
  have grow: "cdist v (?nx + n) = cdist v ?nx + unat n"
    if "cdist v ?nx \<le> unat ?nx + capacity_of (gs_mask sh)" for v
    using that span P(3) by (intro cdist_add) linarith
  have rows: "\<forall>row\<in>set (gp_cached_cursors p). length row = CHUNK_SLOTS
      \<and> (\<forall>v\<in>set row. cdist v ?nx \<le> unat ?nx + capacity_of (gs_mask sh))"
    by (rule P(7))
  have m: "cdist (gp_cached_min p) (?nx + n) = cdist (gp_cached_min p) ?nx + unat n"
    using P(6) by (intro grow) simp
  have "\<forall>row\<in>set (gp_cached_cursors p). length row = CHUNK_SLOTS
      \<and> (\<forall>v\<in>set row. cdist v (?nx + n) \<le> unat (?nx + n) + capacity_of (gs_mask sh))"
    using rows grow nx by auto
  then have prod: "gate_producer_ok sh' p'"
    using P(1-3) fit span m nx by (simp add: gate_producer_ok_def sh' p')
  show "gate_ok sh' p' cs"
  proof (rule gate_okI [OF prod])
    show "owners_ok (gs_registry sh') cs" using gate_okD(2) [OF ok] by (simp add: sh')
    fix k c assume c: "cs k = Some c"
    have C: "consumer_ok sh p c" by (rule gate_okD(3) [OF ok c])
    have "cdist (gp_cached_cursors p ! gc_chunk c ! gc_slot c) (?nx + n)
        = cdist (gp_cached_cursors p ! gc_chunk c ! gc_slot c) ?nx + unat n"
      if "gc_chunk c < length (gp_cached_cursors p)"
      using rows that consumer_okD(3) [OF C] by (intro grow) (metis nth_mem)
    then show "consumer_ok sh' p' c" using C m nx by (auto simp: consumer_ok_def sh' p')
  qed
  show "unat (gp_next_seq p') = unat ?nx + unat n" using nx by (simp add: p')
qed

section \<open>The consumers' operations\<close>

text \<open>
  What any operation of one consumer does: it may move its cursors forward up
  to the write cursor, and store its published cursor into its own slot.
\<close>

definition gate_cstep ::
  "'s gate_shared_scheme \<Rightarrow> 'c gate_consumer_scheme \<Rightarrow> 's gate_shared_scheme
     \<Rightarrow> 'c gate_consumer_scheme \<Rightarrow> bool" where
  "gate_cstep sh c sh' c' \<longleftrightarrow>
     gs_mask sh' = gs_mask sh \<and> gs_write_cursor sh' = gs_write_cursor sh \<and> gs_closed sh' = gs_closed sh
     \<and> gate_shared.more sh' = gate_shared.more sh
     \<and> gs_registry sh' = store_slot (gc_chunk c) (gc_slot c) (gc_published c') (gs_registry sh)
     \<and> gc_mask c' = gc_mask c \<and> gc_chunk c' = gc_chunk c \<and> gc_slot c' = gc_slot c
     \<and> gate_consumer.more c' = gate_consumer.more c
     \<and> unat (gc_published c) \<le> unat (gc_published c')
     \<and> unat (gc_published c') \<le> unat (gc_read_cursor c')
     \<and> unat (gc_read_cursor c) \<le> unat (gc_read_cursor c')
     \<and> unat (gc_read_cursor c') \<le> unat (gc_write_cache c')
     \<and> unat (gc_write_cache c') \<le> unat (gs_write_cursor sh)"

lemma store_slot_same: "slot_word reg ci i = w \<Longrightarrow> store_slot ci i w reg = reg"
  by (auto simp: store_slot_def slot_word_def)

lemma store_slot_twice [simp]: "store_slot ci i w (store_slot ci i v reg) = store_slot ci i w reg"
  by (cases "ci < length reg") (simp_all add: store_slot_def list_update_beyond)

lemma gate_cstep_refl:
  assumes "gate_ok sh p cs" and "cs k = Some c"
  shows "gate_cstep sh c sh c"
  using consumer_okD [OF gate_okD(3) [OF assms]] producer_okD(4) [OF gate_okD(1) [OF assms(1)]]
  by (simp add: gate_cstep_def store_slot_same)

lemma gate_cstep_trans:
  "gate_cstep sh c sh1 c1 \<Longrightarrow> gate_cstep sh1 c1 sh2 c2 \<Longrightarrow> gate_cstep sh c sh2 c2"
  by (auto simp: gate_cstep_def intro: le_trans)

lemma gate_cstep_ok:
  assumes ok: "gate_ok sh p cs" and c: "cs k = Some c" and st: "gate_cstep sh c sh' c'"
  shows "gate_ok sh' p (cs(k \<mapsto> c'))"
proof -
  have C: "consumer_ok sh p c" by (rule gate_okD(3) [OF ok c])
  note C' = consumer_okD [OF C] and P = producer_okD [OF gate_okD(1) [OF ok]]
    and O = owners_okD [OF gate_okD(2) [OF ok]]
  have S: "gs_mask sh' = gs_mask sh" "gs_write_cursor sh' = gs_write_cursor sh"
    "gs_registry sh' = store_slot (gc_chunk c) (gc_slot c) (gc_published c') (gs_registry sh)"
    "gc_mask c' = gc_mask c" "gc_chunk c' = gc_chunk c" "gc_slot c' = gc_slot c"
    using st by (simp_all add: gate_cstep_def)
  have L: "unat (gc_published c) \<le> unat (gc_published c')"
    "unat (gc_published c') \<le> unat (gc_read_cursor c')"
    "unat (gc_read_cursor c') \<le> unat (gc_write_cache c')"
    "unat (gc_write_cache c') \<le> unat (gp_next_seq p)"
    using st P(4) by (simp_all add: gate_cstep_def)
  note W = slot_word_store [OF O(1) C'(2,3)]
  have occ: "occupied (gs_registry sh') ci i \<Longrightarrow> occupied (gs_registry sh) ci i" for ci i
    using C'(2-4) by (auto simp: occupied_def S(3) W split: if_splits)
  show ?thesis
  proof (rule gate_okI)
    show "gate_producer_ok sh' p" using P by (simp add: gate_producer_ok_def S)
    show "owners_ok (gs_registry sh') (cs(k \<mapsto> c'))"
      unfolding owners_ok_def
    proof (intro conjI allI impI)
      show "registry_wf (gs_registry sh')" using O(1) C'(2) by (simp add: S(3) store_slot_wf)
      show "i = j" if "(cs(k \<mapsto> c')) i = Some a" "(cs(k \<mapsto> c')) j = Some b"
        "gc_chunk a = gc_chunk b" "gc_slot a = gc_slot b" for i j a b
        using that O(2) c S(5,6) by (auto split: if_splits)
      show "\<exists>j a. (cs(k \<mapsto> c')) j = Some a \<and> gc_chunk a = ci \<and> gc_slot a = i"
        if "occupied (gs_registry sh') ci i" for ci i
        using O(3) [OF occ [OF that]] c S(5,6) by (metis fun_upd_other fun_upd_same option.inject)
    qed
    fix j a assume a: "(cs(k \<mapsto> c')) j = Some a"
    show "consumer_ok sh' p a"
    proof (cases "j = k")
      case True
      then have "a = c'" using a by simp
      moreover have "unat (gp_next_seq p) - unat (gc_published c') \<le> unat (gp_next_seq p) - unat (gc_published c)"
        using L(1) by simp
      ultimately show ?thesis
        using C L S W C'(2,3) by (auto simp: consumer_ok_def intro: le_trans)
    next
      case False
      then have a': "cs j = Some a" using a by simp
      then have "\<not> (gc_chunk a = gc_chunk c \<and> gc_slot a = gc_slot c)" using O(2) c False by blast
      then show ?thesis
        using gate_okD(3) [OF ok a'] by (auto simp: consumer_ok_def S W)
    qed
  qed
qed

lemma gate_refresh_step:
  assumes "gate_ok sh p cs" and "cs k = Some c"
  shows "gate_cstep sh c sh (c\<lparr>gc_write_cache := gs_write_cursor sh\<rparr>)"
proof -
  note C = consumer_okD [OF gate_okD(3) [OF assms]]
  have "unat (gc_read_cursor c) \<le> unat (gs_write_cursor sh)"
    using C(7,8) producer_okD(4) [OF gate_okD(1) [OF assms(1)]] by simp
  then show ?thesis using C by (simp add: gate_cstep_def store_slot_same)
qed

lemma word_diff_0: "(a :: u64) - b = 0 \<longleftrightarrow> a = b"
  by simp

lemma gate_has_item_spec:
  assumes ok: "gate_ok sh p cs" and c: "cs k = Some c" and h: "gate_has_item sh c = (b, c')"
  shows "gate_cstep sh c sh c'" and "gc_read_cursor c' = gc_read_cursor c"
    and "gc_published c' = gc_published c"
    and "b \<longleftrightarrow> gc_read_cursor c \<noteq> gs_write_cursor sh"
    and "b \<Longrightarrow> unat (gc_read_cursor c') < unat (gc_write_cache c')"
    and "\<not> b \<Longrightarrow> gc_write_cache c' = gc_read_cursor c'"
proof -
  note C = consumer_okD [OF gate_okD(3) [OF ok c]] and P4 = producer_okD(4) [OF gate_okD(1) [OF ok]]
  have le: "unat (gc_read_cursor c) \<le> unat (gc_write_cache c)"
    "unat (gc_write_cache c) \<le> unat (gs_write_cursor sh)"
    using C(7,8) P4 by simp_all
  have lt: "unat a < unat b" if "unat a \<le> unat b" "a \<noteq> b" for a b :: u64
    using that by (metis le_neq_implies_less word_unat_eq_iff)
  consider (cached) "gc_write_cache c \<noteq> gc_read_cursor c" "b" "c' = c"
    | (fresh) "gc_write_cache c = gc_read_cursor c" "gs_write_cursor sh \<noteq> gc_read_cursor c" "b"
        "c' = c\<lparr>gc_write_cache := gs_write_cursor sh\<rparr>"
    | (none) "gc_write_cache c = gc_read_cursor c" "gs_write_cursor sh = gc_read_cursor c" "\<not> b"
        "c' = c\<lparr>gc_write_cache := gs_write_cursor sh\<rparr>"
    using h by (auto simp: gate_has_item_def gate_available_cached_def gate_refresh_def Let_def
        split: if_splits)
  then have "gate_cstep sh c sh c' \<and> gc_read_cursor c' = gc_read_cursor c
      \<and> gc_published c' = gc_published c
      \<and> (b \<longleftrightarrow> gc_read_cursor c \<noteq> gs_write_cursor sh)
      \<and> (b \<longrightarrow> unat (gc_read_cursor c') < unat (gc_write_cache c'))
      \<and> (\<not> b \<longrightarrow> gc_write_cache c' = gc_read_cursor c')"
  proof cases
    case cached
    have "unat (gc_read_cursor c) < unat (gc_write_cache c)" using lt le(1) cached(1) by metis
    moreover from this le(2) have "gc_read_cursor c \<noteq> gs_write_cursor sh" by auto
    ultimately show ?thesis using cached gate_cstep_refl [OF ok c] by simp
  next
    case fresh
    have "unat (gc_read_cursor c) < unat (gs_write_cursor sh)" using lt le fresh(1,2) by metis
    then show ?thesis using fresh gate_refresh_step [OF ok c] by auto
  next
    case none
    then show ?thesis using gate_refresh_step [OF ok c] by simp
  qed
  then show "gate_cstep sh c sh c'" "gc_read_cursor c' = gc_read_cursor c"
    "gc_published c' = gc_published c"
    "b \<longleftrightarrow> gc_read_cursor c \<noteq> gs_write_cursor sh"
    "b \<Longrightarrow> unat (gc_read_cursor c') < unat (gc_write_cache c')"
    "\<not> b \<Longrightarrow> gc_write_cache c' = gc_read_cursor c'" by blast+
qed

lemma gate_check_closed_spec:
  assumes ok: "gate_ok sh p cs" and c: "cs k = Some c" and h: "gate_check_closed sh c = (b, c')"
  shows "gate_cstep sh c sh c'" and "gc_read_cursor c' = gc_read_cursor c"
    and "b \<longleftrightarrow> gs_closed sh \<noteq> 0 \<and> gc_read_cursor c = gs_write_cursor sh"
    and "gs_closed sh = 0 \<Longrightarrow> c' = c"
    and "gs_closed sh \<noteq> 0 \<Longrightarrow> gc_write_cache c' = gs_write_cursor sh"
  using h gate_refresh_step [OF ok c] gate_cstep_refl [OF ok c]
  by (auto simp: gate_check_closed_def gate_refresh_def gate_available_cached_def Let_def
      split: if_splits)

lemma gate_flush_step:
  assumes ok: "gate_ok sh p cs" and c: "cs k = Some c" and st: "gate_cstep sh c sh1 c1"
    and f: "gate_flush sh1 c1 = (sh', c')"
  shows "gate_cstep sh c sh' c'" and "gc_read_cursor c' = gc_read_cursor c1"
    and "gc_published c' = gc_read_cursor c1" and "gc_write_cache c' = gc_write_cache c1"
proof -
  note P = producer_okD [OF gate_okD(1) [OF ok]]
  have "unat (gc_read_cursor c1) \<le> unat (gp_next_seq p)"
    using st P(4) by (simp add: gate_cstep_def)
  then have g: "guard_sentinel (gc_read_cursor c1) = gc_read_cursor c1"
    using P(3,5) by (intro guard_sentinel_id) linarith
  have sh': "sh' = sh1\<lparr>gs_registry := store_slot (gc_chunk c1) (gc_slot c1) (gc_read_cursor c1) (gs_registry sh1),
      gs_producer_notified := Suc (gs_producer_notified sh1)\<rparr>"
    and c': "c' = c1\<lparr>gc_published := gc_read_cursor c1\<rparr>"
    using f g by (simp_all add: gate_flush_def)
  show "gate_cstep sh c sh' c'" using st by (auto simp: gate_cstep_def sh' c')
  show "gc_read_cursor c' = gc_read_cursor c1" "gc_published c' = gc_read_cursor c1"
    "gc_write_cache c' = gc_write_cache c1" by (simp_all add: c')
qed

lemma gate_flush_pending_step:
  assumes ok: "gate_ok sh p cs" and c: "cs k = Some c" and st: "gate_cstep sh c sh1 c1"
    and f: "gate_flush_pending sh1 c1 = (sh', c')"
  shows "gate_cstep sh c sh' c'" and "gc_read_cursor c' = gc_read_cursor c1"
    and "gc_published c' = gc_read_cursor c1" and "gc_write_cache c' = gc_write_cache c1"
  using f st gate_flush_step [OF ok c st] by (auto simp: gate_flush_pending_def split: if_splits)

text \<open>Moving the read cursor over \<open>n\<close> units that are known to be published.\<close>

lemma gate_read_step:
  assumes ok: "gate_ok sh p cs" and c: "cs k = Some c" and st: "gate_cstep sh c sh1 c1"
    and n: "unat (gc_read_cursor c1) + unat n \<le> unat (gc_write_cache c1)"
  shows "gate_cstep sh c sh1 (c1\<lparr>gc_read_cursor := gc_read_cursor c1 + n\<rparr>)"
    and "unat (gc_read_cursor c1 + n) = unat (gc_read_cursor c1) + unat n"
proof -
  have "unat (gc_write_cache c1) < word_span" by simp
  then show u: "unat (gc_read_cursor c1 + n) = unat (gc_read_cursor c1) + unat n"
    using n by (intro unat_add_span) linarith
  show "gate_cstep sh c sh1 (c1\<lparr>gc_read_cursor := gc_read_cursor c1 + n\<rparr>)"
    using st n u by (auto simp: gate_cstep_def)
qed

lemma gate_advance_one_step:
  assumes ok: "gate_ok sh p cs" and c: "cs k = Some c" and st: "gate_cstep sh c sh1 c1"
    and n: "unat (gc_read_cursor c1) < unat (gc_write_cache c1)"
    and a: "gate_advance_one sh1 c1 = (sh', c')"
  shows "gate_cstep sh c sh' c'" and "unat (gc_read_cursor c') = Suc (unat (gc_read_cursor c1))"
    and "gc_write_cache c' = gc_write_cache c1"
    and "gc_published c' = gc_read_cursor c'
         \<or> gc_read_cursor c' - gc_published c' < publish_batch_elems (gc_mask c1 + 1)
           \<and> gc_read_cursor c' \<noteq> gc_write_cache c'"
proof -
  let ?c1 = "c1\<lparr>gc_read_cursor := gc_read_cursor c1 + 1\<rparr>"
  have R: "gate_cstep sh c sh1 ?c1" "unat (gc_read_cursor c1 + 1) = Suc (unat (gc_read_cursor c1))"
    using gate_read_step [OF ok c st, of 1] n by simp_all
  note F = gate_flush_step [OF ok c R(1)]
  consider "gate_flush sh1 ?c1 = (sh', c')"
    | "(sh', c') = (sh1, ?c1)" "gc_read_cursor ?c1 - gc_published ?c1 < publish_batch_elems (gc_mask c1 + 1)"
      "gc_read_cursor ?c1 \<noteq> gc_write_cache ?c1"
    using a unfolding gate_advance_one_def Let_def by (metis not_le)
  then have "gate_cstep sh c sh' c' \<and> gc_read_cursor c' = gc_read_cursor c1 + 1
      \<and> gc_write_cache c' = gc_write_cache c1
      \<and> (gc_published c' = gc_read_cursor c'
         \<or> gc_read_cursor c' - gc_published c' < publish_batch_elems (gc_mask c1 + 1)
           \<and> gc_read_cursor c' \<noteq> gc_write_cache c')"
  proof cases
    case 1
    then show ?thesis using F [OF 1] by simp
  next
    case 2
    then show ?thesis using R(1) by simp
  qed
  note A = this
  show "gate_cstep sh c sh' c'" "gc_write_cache c' = gc_write_cache c1"
    "gc_published c' = gc_read_cursor c'
         \<or> gc_read_cursor c' - gc_published c' < publish_batch_elems (gc_mask c1 + 1)
           \<and> gc_read_cursor c' \<noteq> gc_write_cache c'"
    using A by blast+
  show "unat (gc_read_cursor c') = Suc (unat (gc_read_cursor c1))" using A R(2) by metis
qed

section \<open>Joining and leaving\<close>

lemma gate_subscribe_ok:
  assumes ok: "gate_ok sh p cs" and k: "cs k = None" and s: "gate_subscribe sh = (Inr c, sh')"
  shows "gate_ok sh' p (cs(k \<mapsto> c))"
    and "gc_read_cursor c = gs_write_cursor sh" and "gc_published c = gs_write_cursor sh"
    and "gc_write_cache c = gs_write_cursor sh" and "gs_closed sh = 0"
    and "gs_mask sh' = gs_mask sh" "gs_write_cursor sh' = gs_write_cursor sh" "gs_closed sh' = gs_closed sh"
    and "gate_shared.more sh' = gate_shared.more sh"
proof -
  let ?wc = "gs_write_cursor sh" and ?reg = "gs_registry sh"
  note P = producer_okD [OF gate_okD(1) [OF ok]] and O = owners_okD [OF gate_okD(2) [OF ok]]
  have opn: "gs_closed sh = 0" using s by (auto simp: gate_subscribe_def split: if_splits)
  obtain js reg' where js: "subscribe_slot ?wc ?wc ?reg = (js, reg')" by (rule prod.exhaust)
  have c: "c = \<lparr>gc_mask = gs_mask sh, gc_chunk = js_chunk js, gc_slot = js_slot js,
      gc_read_cursor = js_joined js, gc_published = js_published js, gc_write_cache = js_joined js\<rparr>"
    and sh': "sh' = sh\<lparr>gs_registry := reg'\<rparr>"
    using s js opn by (simp_all add: gate_subscribe_def)
  have "guard_sentinel ?wc = ?wc" unfolding P(4) using P(3,5) by (intro guard_sentinel_id) linarith
  note S = subscribe_slot_spec [OF js O(1) refl refl, unfolded this]
  have f: "gc_read_cursor c = ?wc" "gc_published c = ?wc" "gc_write_cache c = ?wc"
    "gc_chunk c = js_chunk js" "gc_slot c = js_slot js" "gc_mask c = gs_mask sh"
    using S(1,2) by (simp_all add: c)
  then show "gc_read_cursor c = ?wc" "gc_published c = ?wc" "gc_write_cache c = ?wc" by simp_all
  show "gs_closed sh = 0" by (rule opn)
  show "gs_mask sh' = gs_mask sh" "gs_write_cursor sh' = gs_write_cursor sh" "gs_closed sh' = gs_closed sh"
    "gate_shared.more sh' = gate_shared.more sh" by (simp_all add: sh')
  have old: "slot_word reg' cj j = slot_word ?reg cj j \<and> slot_active reg' cj j = slot_active ?reg cj j
      \<and> (cj, j) \<noteq> (js_chunk js, js_slot js)" if "occupied ?reg cj j" for cj j
  proof -
    have "(cj, j) \<noteq> (js_chunk js, js_slot js)" using S(7) that by auto
    then show ?thesis using S(10) that unfolding occupied_def by blast
  qed
  have owned: "occupied ?reg (gc_chunk a) (gc_slot a)" if "cs j = Some a" for j a
    using consumer_okD(2-4) [OF gate_okD(3) [OF ok that]] by (simp add: occupied_def)
  show "gate_ok sh' p (cs(k \<mapsto> c))"
  proof (rule gate_okI)
    show "gate_producer_ok sh' p" using P by (simp add: gate_producer_ok_def sh')
    show "owners_ok (gs_registry sh') (cs(k \<mapsto> c))"
      unfolding owners_ok_def
    proof (intro conjI allI impI)
      show "registry_wf (gs_registry sh')" using S(3) by (simp add: sh')
      show "i = j" if e: "(cs(k \<mapsto> c)) i = Some a" "(cs(k \<mapsto> c)) j = Some b"
        "gc_chunk a = gc_chunk b" "gc_slot a = gc_slot b" for i j a b
      proof -
        have no: False if "cs m = Some d" "gc_chunk d = gc_chunk c" "gc_slot d = gc_slot c" for m d
        proof -
          have "(gc_chunk d, gc_slot d) \<noteq> (js_chunk js, js_slot js)"
            using old [OF owned [OF that(1)]] by blast
          then show False unfolding that(2,3) f(4,5) by simp
        qed
        have i: "i = k \<and> a = c \<or> cs i = Some a" and j: "j = k \<and> b = c \<or> cs j = Some b"
          using e(1,2) unfolding fun_upd_apply by (metis option.inject)+
        then consider "i = k" "j = k" | "i = k" "a = c" "cs j = Some b" | "j = k" "b = c" "cs i = Some a"
          | "cs i = Some a" "cs j = Some b" by blast
        then show ?thesis
        proof cases
          case 2
          then show ?thesis using no [of j b] e(3,4) by simp
        next
          case 3
          then show ?thesis using no [of i a] e(3,4) by simp
        qed (use O(2) e(3,4) in blast)+
      qed
      show "\<exists>m a. (cs(k \<mapsto> c)) m = Some a \<and> gc_chunk a = cj \<and> gc_slot a = j"
        if oc: "occupied (gs_registry sh') cj j" for cj j
      proof (cases "(cj, j) = (js_chunk js, js_slot js)")
        case True
        then show ?thesis using f(4,5) by (intro exI [of _ k] exI [of _ c]) simp
      next
        case False
        have oc': "occupied reg' cj j" using oc by (simp add: sh')
        then have lt: "cj < length ?reg" using S(11) False by (meson not_le)
        then have "occupied ?reg cj j" using oc' S(10) False by (auto simp: occupied_def)
        then obtain m a where "cs m = Some a" "gc_chunk a = cj" "gc_slot a = j" using O(3) by blast
        moreover have "m \<noteq> k" using k calculation(1) by auto
        ultimately show ?thesis by (intro exI [of _ m] exI [of _ a]) simp
      qed
    qed
    fix j a assume a: "(cs(k \<mapsto> c)) j = Some a"
    show "consumer_ok sh' p a"
    proof (cases "j = k")
      case True
      then have "a = c" using a by simp
      then show ?thesis using f S(4,6,8,9) P(4) by (simp add: consumer_ok_def sh')
    next
      case False
      then have a': "cs j = Some a" using a by simp
      show ?thesis
        using gate_okD(3) [OF ok a'] old [OF owned [OF a']] S(5) by (auto simp: consumer_ok_def sh')
    qed
  qed
qed

lemma gate_subscribe_closed: "gate_subscribe sh = (Inl e, sh') \<longleftrightarrow> gs_closed sh \<noteq> 0 \<and> e = Closed_err \<and> sh' = sh"
  by (auto simp: gate_subscribe_def split: prod.splits)

lemma gate_consumer_drop_ok:
  assumes ok: "gate_ok sh p cs" and c: "cs k = Some c"
  shows "gate_ok (gate_consumer_drop sh c) p (cs(k := None))"
    and "gs_mask (gate_consumer_drop sh c) = gs_mask sh"
    and "gs_write_cursor (gate_consumer_drop sh c) = gs_write_cursor sh"
    and "gs_closed (gate_consumer_drop sh c) = gs_closed sh"
    and "gate_shared.more (gate_consumer_drop sh c) = gate_shared.more sh"
proof -
  obtain sh1 c1 where f: "gate_flush_pending sh c = (sh1, c1)" by (rule prod.exhaust)
  have st: "gate_cstep sh c sh1 c1"
    by (rule gate_flush_pending_step(1) [OF ok c gate_cstep_refl [OF ok c] f])
  note ok1 = gate_cstep_ok [OF ok c st]
  have c1: "(cs(k \<mapsto> c1)) k = Some c1" by simp
  note C = consumer_okD [OF gate_okD(3) [OF ok1 c1]] and P = producer_okD [OF gate_okD(1) [OF ok1]]
    and O = owners_okD [OF gate_okD(2) [OF ok1]]
  let ?reg = "deactivate_slot (gc_chunk c1) (gc_slot c1)
      (store_slot (gc_chunk c1) (gc_slot c1) DETACHED (gs_registry sh1))"
  have d: "gate_consumer_drop sh c = sh1\<lparr>gs_registry := ?reg, gs_producer_notified := Suc (gs_producer_notified sh1)\<rparr>"
    by (simp add: gate_consumer_drop_def f gate_detach_def)
  show "gs_mask (gate_consumer_drop sh c) = gs_mask sh"
    "gs_write_cursor (gate_consumer_drop sh c) = gs_write_cursor sh"
    "gs_closed (gate_consumer_drop sh c) = gs_closed sh"
    "gate_shared.more (gate_consumer_drop sh c) = gate_shared.more sh"
    using st by (simp_all add: d gate_cstep_def)
  note W = slot_word_store [OF O(1) C(2,3)]
  have A: "slot_active ?reg cj j \<longleftrightarrow> slot_active (gs_registry sh1) cj j \<and> \<not> (cj = gc_chunk c1 \<and> j = gc_slot c1)"
    if "j < CHUNK_SLOTS" for cj j
    using slot_active_deactivate [of "gc_chunk c1" "store_slot (gc_chunk c1) (gc_slot c1) DETACHED (gs_registry sh1)"
        "gc_slot c1" j cj] C(2,3) that by simp
  have oc: "occupied (gs_registry sh1) cj j \<and> (cj, j) \<noteq> (gc_chunk c1, gc_slot c1)"
    if "occupied ?reg cj j" for cj j
    using that A [of j cj] by (auto simp: occupied_def W split: if_splits)
  show "gate_ok (gate_consumer_drop sh c) p (cs(k := None))"
  proof (rule gate_okI)
    show "gate_producer_ok (gate_consumer_drop sh c) p" using P by (simp add: gate_producer_ok_def d)
    show "owners_ok (gs_registry (gate_consumer_drop sh c)) (cs(k := None))"
      unfolding owners_ok_def
    proof (intro conjI allI impI)
      show "registry_wf (gs_registry (gate_consumer_drop sh c))"
        using O(1) C(2) by (simp add: d deactivate_slot_wf store_slot_wf)
      show "i = j" if e: "(cs(k := None)) i = Some a" "(cs(k := None)) j = Some b"
        "gc_chunk a = gc_chunk b" "gc_slot a = gc_slot b" for i j a b
        using e owners_okD(2) [OF gate_okD(2) [OF ok]] by (metis fun_upd_other fun_upd_same option.distinct(1))
      show "\<exists>m a. (cs(k := None)) m = Some a \<and> gc_chunk a = cj \<and> gc_slot a = j"
        if "occupied (gs_registry (gate_consumer_drop sh c)) cj j" for cj j
      proof -
        have o: "occupied (gs_registry sh1) cj j" "(cj, j) \<noteq> (gc_chunk c1, gc_slot c1)"
          using that oc by (auto simp: d)
        obtain m a where m: "(cs(k \<mapsto> c1)) m = Some a" "gc_chunk a = cj" "gc_slot a = j"
          using O(3) [OF o(1)] by blast
        then have "m \<noteq> k" using o(2) by auto
        with m show ?thesis by (intro exI [of _ m] exI [of _ a]) simp
      qed
    qed
    fix j a assume a: "(cs(k := None)) j = Some a"
    then have jk: "j \<noteq> k" and a1: "(cs(k \<mapsto> c1)) j = Some a" by (auto split: if_splits)
    have ne: "\<not> (gc_chunk a = gc_chunk c1 \<and> gc_slot a = gc_slot c1)"
      using O(2) [OF a1 c1] jk by blast
    have C1: "consumer_ok sh1 p a" by (rule gate_okD(3) [OF ok1 a1])
    then show "consumer_ok (gate_consumer_drop sh c) p a"
      using ne A [OF consumer_okD(3) [OF C1]] by (auto simp: consumer_ok_def d W)
  qed
qed

section \<open>The fresh state\<close>

lemma occupied_empty: "\<not> occupied [chunk_new] ci i"
  by (auto simp: occupied_def slot_active_def slot_word_def chunk_new_def)

lemma gate_ok_fresh:
  assumes "valid_mask (gs_mask sh)" and "2 \<le> capacity_of (gs_mask sh)"
    and "2 * capacity_of (gs_mask sh) < word_span"
    and "gs_write_cursor sh = 0" and "gs_registry sh = [chunk_new]"
    and "gp_mask p = gs_mask sh" and "gp_next_seq p = 0" and "gp_cached_min p = 0"
    and "gp_cached_cursors p = []"
  shows "gate_ok sh p Map.empty"
  using assms occupied_empty
  by (auto simp: gate_ok_def gate_producer_ok_def owners_ok_def registry_wf_def chunk_new_def)

end
