(* ===== verification/Gate_Properties.thy ===== *)
theory Gate_Properties
  imports Gate_Invariant
begin

text \<open>
  What the gating registry guarantees by itself: the selective rescan decides
  like a full one, a subscription takes a free slot and disturbs no other, the
  consumer count is exact, and a blocked producer is released by the poll after
  its last obstacle goes.
\<close>

section \<open>The full scan\<close>

text \<open>
  The reference: no cache, every active slot is read and compared.
\<close>

definition full_scan_open :: "chunk list \<Rightarrow> u64 \<Rightarrow> u64 \<Rightarrow> u64 \<Rightarrow> bool" where
  "full_scan_open registry nx needed capacity =
     list_all (\<lambda>ch. list_all (\<lambda>i. ch_slots ch ! i = DETACHED
                   \<or> \<not> gate_lacks_space nx needed (ch_slots ch ! i) capacity)
                 (set_bits_of (ch_bitmap ch))) registry"

lemma full_scan_open_iff:
  "full_scan_open registry nx needed capacity \<longleftrightarrow>
     (\<forall>s\<in>registry_cursors registry. \<not> gate_lacks_space nx needed s capacity)"
  by (auto simp: full_scan_open_def list_all_iff registry_cursors_def chunk_cursors_image)

text \<open>
  (C12) The selective refresh is equivalent to a full scan. A rescan that reloads
  only the slots whose cached cursor still gates opens the gate exactly when
  reading every active slot would, whatever sound cache it starts from; and it
  leaves a sound cache.
\<close>

theorem rescan_equivalent:
  assumes ca: "cache_ok registry cached nx cap" and n: "0 < needed" "needed < cap"
  shows "(case heap_walk registry cached nx needed cap of
            (walked, cached') \<Rightarrow>
              (fst (rescan_gate nx needed cap walked) \<longleftrightarrow> full_scan_open registry nx needed cap)
              \<and> cache_ok registry cached' nx cap)"
proof -
  have n': "needed \<le> cap" using n(2) by simp
  obtain walked cached' where w: "heap_walk registry cached nx needed cap = (walked, cached')"
    by (rule prod.exhaust)
  have near: "\<And>s. s \<in> registry_cursors registry \<Longrightarrow> cdist s nx + unat cap < word_span"
    using ca by (simp add: cache_ok_def)
  show ?thesis
    using heap_gate.gate_exact [OF ca n near w] heap_gate.walk_cache [OF ca n(1) n' w]
    by (simp add: w full_scan_open_iff)
qed

definition sample_registry :: "chunk list" where
  "sample_registry = snd (subscribe_slot 5 5 (snd (subscribe_slot 3 3 [chunk_new])))"

theorem rescan_equivalent_witness:
  "fst (rescan_gate 6 1 4 (fst (heap_walk sample_registry [] 6 1 4))) = full_scan_open sample_registry 6 1 4"
proof -
  have "registry_cursors sample_registry = {3, 5}" by code_simp
  then have ca: "cache_ok sample_registry [] 6 4"
    by (simp add: cache_ok_def cdist_def word_span_def)
  have n: "(0 :: u64) < 1" "(1 :: u64) < 4" by simp_all
  show ?thesis using rescan_equivalent [OF ca n] by (simp split: prod.splits)
qed

section \<open>Subscriptions\<close>

text \<open>
  Subscribing occupies exactly one slot, which was free: its bitmap bit was
  clear and it held the sentinel. It leaves every other slot and bit as they
  were, appends a chunk only with all its other slots free, stores the join
  cursor (never the sentinel) and hands the joiner coordinates inside the registry.
\<close>

theorem subscribe_takes_free_slot:
  assumes s: "subscribe_slot provisional joined registry = (js, registry')"
    and wf: "registry_wf registry"
  shows "registry_wf registry'
    \<and> \<not> occupied registry (js_chunk js) (js_slot js)
    \<and> slot_active registry' (js_chunk js) (js_slot js)
    \<and> slot_word registry' (js_chunk js) (js_slot js) \<noteq> DETACHED
    \<and> (joined \<noteq> DETACHED \<longrightarrow> slot_word registry' (js_chunk js) (js_slot js) = joined)
    \<and> (\<forall>ci i. occupied registry' ci i \<longleftrightarrow>
          occupied registry ci i \<or> ci = js_chunk js \<and> i = js_slot js)
    \<and> (\<forall>ci i. occupied registry ci i \<longrightarrow>
          slot_word registry' ci i = slot_word registry ci i
          \<and> slot_active registry' ci i = slot_active registry ci i)"
proof -
  note S = subscribe_slot_spec [OF s wf refl refl]
  have nd: "guard_sentinel joined \<noteq> DETACHED" by (simp add: guard_sentinel_def)
  have old: "slot_word registry' ci i = slot_word registry ci i
      \<and> slot_active registry' ci i = slot_active registry ci i" if "occupied registry ci i" for ci i
  proof -
    have "(ci, i) \<noteq> (js_chunk js, js_slot js)" using that S(7) by auto
    then show ?thesis using S(10) that by (simp add: occupied_def)
  qed
  have oc: "occupied registry' ci i \<longleftrightarrow> occupied registry ci i \<or> ci = js_chunk js \<and> i = js_slot js" for ci i
  proof (cases "(ci, i) = (js_chunk js, js_slot js)")
    case True
    then show ?thesis using S(4,6,8) by (simp add: occupied_def)
  next
    case False
    have "occupied registry' ci i \<longleftrightarrow> occupied registry ci i"
    proof (cases "ci < length registry")
      case True
      then show ?thesis using S(5) S(10) [OF True _ False] by (auto simp: occupied_def)
    next
      case False': False
      then have "\<not> occupied registry' ci i" using S(11) False by (simp add: not_less)
      then show ?thesis using False' by (simp add: occupied_def)
    qed
    then show ?thesis using False by auto
  qed
  show ?thesis
    using S(3,7,8,9) nd old oc by (simp add: guard_sentinel_def)
qed

theorem subscribe_takes_free_slot_witness:
  "\<not> occupied [chunk_new] 0 0 \<and> slot_word (snd (subscribe_slot 3 4 [chunk_new])) 0 0 = 4"
proof -
  have wf: "registry_wf [chunk_new]" by code_simp
  have js: "js_chunk (fst (subscribe_slot 3 4 [chunk_new])) = 0" "js_slot (fst (subscribe_slot 3 4 [chunk_new])) = 0"
    by code_simp+
  have "(4 :: u64) \<noteq> DETACHED" by (simp add: DETACHED_def)
  then show ?thesis
    using subscribe_takes_free_slot [OF surjective_pairing wf, of 3 4] unfolding js by simp
qed

section \<open>The consumer count\<close>

text \<open>
  \<open>consumer_count\<close> is exact: it is the number of attached consumers, after
  any subscriptions and departures.
\<close>

theorem consumer_count_exact:
  assumes ok: "gate_ok sh p cs"
  shows "gate_consumer_count sh = card (dom cs)"
proof -
  let ?reg = "gs_registry sh"
  let ?B = "\<lambda>ci. set (set_bits_of (ch_bitmap (?reg ! ci)))"
  let ?A = "SIGMA ci : {..<length ?reg}. ?B ci"
  have len: "length (set_bits_of b) = card (set (set_bits_of b))" for b
    by (simp add: distinct_card)
  have count: "gate_consumer_count sh = card ?A"
    by (simp add: gate_consumer_count_def active_count_def sum_list_sum_nth len atLeast0LessThan)
  define f where "f k = (gc_chunk (the (cs k)), gc_slot (the (cs k)))" for k
  have inj: "inj_on f (dom cs)"
    using owners_okD(2) [OF gate_okD(2) [OF ok]] by (auto simp: inj_on_def f_def)
  have "f ` dom cs = ?A"
  proof (intro equalityI subsetI)
    fix x assume "x \<in> f ` dom cs"
    then obtain k c where c: "cs k = Some c" "x = (gc_chunk c, gc_slot c)" by (auto simp: f_def)
    then show "x \<in> ?A"
      using consumer_okD(2-4) [OF gate_okD(3) [OF ok c(1)]] by (simp add: set_set_bits_of slot_active_def)
  next
    fix x assume x: "x \<in> ?A"
    obtain ci i where ci: "x = (ci, i)" by (rule prod.exhaust)
    have "occupied ?reg ci i"
      using x by (simp add: ci occupied_def set_set_bits_of slot_active_def)
    then obtain k c where "cs k = Some c" "gc_chunk c = ci" "gc_slot c = i"
      using owners_okD(3) [OF gate_okD(2) [OF ok]] by blast
    then show "x \<in> f ` dom cs" by (force simp: ci f_def)
  qed
  then show ?thesis using count card_image [OF inj] by simp
qed

text \<open>A ring of capacity 4 at cursor 0 with two consumers attached.\<close>

definition demo_sh0 :: gate_shared where
  "demo_sh0 = \<lparr>gs_mask = 3, gs_write_cursor = 0, gs_closed = 0, gs_registry = [chunk_new],
     gs_producer_notified = 0, gs_consumer_notified = 0\<rparr>"

definition demo_p :: gate_producer where
  "demo_p = \<lparr>gp_mask = 3, gp_next_seq = 0, gp_cached_min = 0, gp_cached_cursors = []\<rparr>"

definition demo_c1 :: gate_consumer where "demo_c1 = projr (fst (gate_subscribe demo_sh0))"
definition demo_sh1 :: gate_shared where "demo_sh1 = snd (gate_subscribe demo_sh0)"
definition demo_c2 :: gate_consumer where "demo_c2 = projr (fst (gate_subscribe demo_sh1))"
definition demo_sh2 :: gate_shared where "demo_sh2 = snd (gate_subscribe demo_sh1)"

lemma demo_ok1: "gate_ok demo_sh1 demo_p (Map.empty(0 \<mapsto> demo_c1))"
proof -
  have "valid_mask (3 :: u64)" by (rule valid_maskI [of 2]) (simp_all add: mask_numeral)
  then have 0: "gate_ok demo_sh0 demo_p (Map.empty :: nat \<Rightarrow> gate_consumer option)"
    by (intro gate_ok_fresh) (simp_all add: demo_sh0_def demo_p_def capacity_of_def word_span_def)
  have "fst (gate_subscribe demo_sh0) = Inr demo_c1" by code_simp
  then have "gate_subscribe demo_sh0 = (Inr demo_c1, demo_sh1)" by (simp add: demo_sh1_def prod_eq_iff)
  from gate_subscribe_ok(1) [OF 0 _ this, of 0] show ?thesis by simp
qed

lemma demo_ok2: "gate_ok demo_sh2 demo_p (Map.empty(0 \<mapsto> demo_c1, 1 \<mapsto> demo_c2))"
proof -
  have "fst (gate_subscribe demo_sh1) = Inr demo_c2" by code_simp
  then have "gate_subscribe demo_sh1 = (Inr demo_c2, demo_sh2)" by (simp add: demo_sh2_def prod_eq_iff)
  from gate_subscribe_ok(1) [OF demo_ok1 _ this, of 1] show ?thesis by simp
qed

theorem consumer_count_exact_witness: "gate_consumer_count demo_sh2 = 2"
  using consumer_count_exact [OF demo_ok2] by simp

section \<open>Blocked and released\<close>

definition gate_blocked :: "'p gate_producer_scheme \<Rightarrow> nat \<Rightarrow> nat \<Rightarrow> (nat \<Rightarrow> 'c gate_consumer_scheme option) \<Rightarrow> bool" where
  "gate_blocked p cap needed cs \<longleftrightarrow>
     (\<exists>k c. cs k = Some c \<and> cap < unat (gp_next_seq p) - unat (gc_published c) + needed)"

lemma gate_open_unblocked:
  assumes ok: "gate_ok sh p' cs" and nx: "gp_next_seq p' = gp_next_seq p"
    and fit: "cdist (gp_cached_min p') (gp_next_seq p) + needed \<le> cap"
  shows "\<not> gate_blocked p cap needed cs"
proof
  assume "gate_blocked p cap needed cs"
  then obtain k c where c: "cs k = Some c" "cap < unat (gp_next_seq p) - unat (gc_published c) + needed"
    unfolding gate_blocked_def by blast
  then show False using consumer_okD(9) [OF gate_okD(3) [OF ok c(1)]] nx fit by simp
qed

lemma gate_rescan_iff:
  assumes ok: "gate_ok sh p cs" and n: "0 < needed" "unat needed < capacity_of (gs_mask sh)"
    and r: "gate_rescan needed sh p = (free, p')"
  shows "free \<longleftrightarrow> \<not> gate_blocked p (capacity_of (gs_mask sh)) (unat needed) cs"
  using gate_rescan_ok [OF ok n r] gate_open_unblocked [of sh p' cs p] unfolding gate_blocked_def by blast

lemma gate_has_space_iff:
  assumes ok: "gate_ok sh p cs" and n: "0 < needed" "unat needed < capacity_of (gs_mask sh)"
    and r: "gate_has_space needed sh p = (free, p')"
  shows "free \<longleftrightarrow> \<not> gate_blocked p (capacity_of (gs_mask sh)) (unat needed) cs"
  using gate_has_space_ok [OF ok n r] gate_open_unblocked [of sh p' cs p] unfolding gate_blocked_def by blast

lemma gate_blocked_next: "gp_next_seq p' = gp_next_seq p \<Longrightarrow> gate_blocked p' cap needed cs = gate_blocked p cap needed cs"
  by (simp add: gate_blocked_def)

lemma gate_poll_released:
  fixes p :: "'p gate_producer_scheme"
  assumes ok: "gate_ok sh p cs" and n: "0 < needed" "unat needed < capacity_of (gs_mask sh)"
    and bl: "gate_blocked p (capacity_of (gs_mask sh)) (unat needed) cs"
    and e: "\<And>q :: 'p gate_producer_scheme. gate_ok sh q cs \<Longrightarrow> gate_ok (e sh) q cs'"
    and m: "gs_mask (e sh) = gs_mask sh"
    and un: "\<not> gate_blocked p (capacity_of (gs_mask sh)) (unat needed) cs'"
  shows "\<exists>p'. gate_poll_rescan needed (replicate j (\<lambda>s. s) @ e # es) sh p = Some (e sh, p', es)
    \<and> gate_ok (e sh) p' cs' \<and> gp_next_seq p' = gp_next_seq p
    \<and> cdist (gp_cached_min p') (gp_next_seq p) + unat needed \<le> capacity_of (gs_mask sh)"
  using ok bl un
proof (induction j arbitrary: p)
  case 0
  obtain free p1 where r: "gate_rescan needed sh p = (free, p1)" by (rule prod.exhaust)
  note R = gate_rescan_ok [OF 0(1) n r]
  have nf: "\<not> free" using gate_rescan_iff [OF 0(1) n r] 0(2) by simp
  have ok1: "gate_ok (e sh) p1 cs'" by (rule e [OF R(1)])
  have n1: "unat needed < capacity_of (gs_mask (e sh))" using n(2) m by simp
  obtain free2 p2 where r2: "gate_rescan needed (e sh) p1 = (free2, p2)" by (rule prod.exhaust)
  note R2 = gate_rescan_ok [OF ok1 n(1) n1 r2]
  have f2: free2 using gate_rescan_iff [OF ok1 n(1) n1 r2] 0(3) m by (simp add: gate_blocked_next [OF R(2)])
  have "gate_poll_rescan needed (e # es) sh p = Some (e sh, p2, es)"
    using r nf r2 f2 by (simp add: gate_poll_rescan.simps [of needed "e # es"] gate_poll_rescan.simps [of needed es])
  then show ?case using R2(1,2,4) R(2) f2 m by simp
next
  case (Suc j)
  obtain free p1 where r: "gate_rescan needed sh p = (free, p1)" by (rule prod.exhaust)
  note R = gate_rescan_ok [OF Suc.prems(1) n r]
  have nf: "\<not> free" using gate_rescan_iff [OF Suc.prems(1) n r] Suc.prems(2) by simp
  have step: "gate_poll_rescan needed (replicate (Suc j) (\<lambda>s. s) @ e # es) sh p
      = gate_poll_rescan needed (replicate j (\<lambda>s. s) @ e # es) sh p1"
    using r nf by (simp add: gate_poll_rescan.simps [of needed "(\<lambda>s. s) # _"])
  show ?case
    unfolding step using Suc.IH [OF R(1)] Suc.prems(2,3) R(2) by (simp add: gate_blocked_next [OF R(2)])
qed

text \<open>
  (C14) A blocked producer is released. However often it polled in vain, it
  returns at the first poll after a step of the rest of the program that leaves
  no attached consumer in the way (they consumed, left, or both), with the space
  it asked for behind every attached consumer; a producer nobody gates returns
  at once.
\<close>

theorem gate_wait_released:
  fixes p :: "'p gate_producer_scheme"
  assumes ok: "gate_ok sh p cs" and n: "0 < needed" "unat needed < capacity_of (gs_mask sh)"
    and e: "\<And>q :: 'p gate_producer_scheme. gate_ok sh q cs \<Longrightarrow> gate_ok (e sh) q cs'"
    and m: "gs_mask (e sh) = gs_mask sh"
    and un: "\<not> gate_blocked p (capacity_of (gs_mask sh)) (unat needed) cs'"
  shows "\<exists>p'. gate_wait_for_space needed (replicate j (\<lambda>s. s) @ e # es) sh p
      = (if gate_blocked p (capacity_of (gs_mask sh)) (unat needed) cs
         then Some (e sh, p', es) else Some (sh, p', replicate j (\<lambda>s. s) @ e # es))
    \<and> cdist (gp_cached_min p') (gp_next_seq p) + unat needed \<le> capacity_of (gs_mask sh)
    \<and> gate_ok (if gate_blocked p (capacity_of (gs_mask sh)) (unat needed) cs then e sh else sh) p'
        (if gate_blocked p (capacity_of (gs_mask sh)) (unat needed) cs then cs' else cs)"
proof -
  let ?env = "replicate j (\<lambda>s. s) @ e # es" and ?B = "\<lambda>p. gate_blocked p (capacity_of (gs_mask sh)) (unat needed)"
  obtain free p1 where h: "gate_has_space needed sh p = (free, p1)" by (rule prod.exhaust)
  note H = gate_has_space_ok [OF ok n h]
  show ?thesis
  proof (cases "?B p cs")
    case False
    then have f: free using gate_has_space_iff [OF ok n h] by simp
    then have "gate_wait_for_space needed ?env sh p = Some (sh, p1, ?env)"
      using h by (simp add: gate_wait_for_space_def)
    then show ?thesis using False H(1,4) f by auto
  next
    case True
    then have nf: "\<not> free" using gate_has_space_iff [OF ok n h] by simp
    have bl1: "?B p1 cs" and un1: "\<not> ?B p1 cs'" using True un by (simp_all add: gate_blocked_next [OF H(2)])
    obtain free2 p2 where h2: "gate_has_space needed sh p1 = (free2, p2)" by (rule prod.exhaust)
    note H2 = gate_has_space_ok [OF H(1) n h2]
    have nf2: "\<not> free2" using gate_has_space_iff [OF H(1) n h2] bl1 by simp
    have bl2: "?B p2 cs" and un2: "\<not> ?B p2 cs'" using bl1 un1 by (simp_all add: gate_blocked_next [OF H2(2)])
    obtain p3 where P: "gate_poll_rescan needed ?env sh p2 = Some (e sh, p3, es)"
      "gate_ok (e sh) p3 cs'" "gp_next_seq p3 = gp_next_seq p2"
      "cdist (gp_cached_min p3) (gp_next_seq p2) + unat needed \<le> capacity_of (gs_mask sh)"
      using gate_poll_released [where e = e, OF H2(1) n bl2 e m un2] by blast
    have n3: "unat needed < capacity_of (gs_mask (e sh))" using n(2) m by simp
    obtain free4 p4 where h4: "gate_has_space needed (e sh) p3 = (free4, p4)" by (rule prod.exhaust)
    note H4 = gate_has_space_ok [OF P(2) n(1) n3 h4]
    have f4: free4
      using gate_has_space_iff [OF P(2) n(1) n3 h4] un2 m by (simp add: gate_blocked_next [OF P(3)])
    have "gate_space_loop needed es (e sh) p3 = Some (e sh, p4, es)"
      using h4 f4 by (simp add: gate_space_loop.simps)
    then have "gate_space_loop needed ?env sh p1 = Some (e sh, p4, es)"
      using h2 nf2 P(1) by (simp add: gate_space_loop.simps [of needed ?env])
    then have "gate_wait_for_space needed ?env sh p = Some (e sh, p4, es)"
      using h nf by (simp add: gate_wait_for_space_def)
    then show ?thesis using True H4(1,4) f4 m P(3) H2(2) H(2) by auto
  qed
qed

text \<open>Four messages published to one consumer that read none: the fifth has to wait for it to leave.\<close>

definition demo_full_sh :: gate_shared where "demo_full_sh = fst (gate_publish 4 demo_sh1 demo_p)"
definition demo_full_p :: gate_producer where "demo_full_p = snd (gate_publish 4 demo_sh1 demo_p)"

theorem gate_wait_released_witness:
  "\<exists>p'. gate_wait_for_space 1 (replicate 3 (\<lambda>s. s) @ [\<lambda>s. gate_consumer_drop s demo_c1]) demo_full_sh demo_full_p
     = Some (gate_consumer_drop demo_full_sh demo_c1, p', [])"
proof -
  let ?cs = "Map.empty(0 \<mapsto> demo_c1) :: nat \<Rightarrow> gate_consumer option"
  have m: "gs_mask demo_sh1 = 3" "gp_next_seq demo_p = 0" "gp_cached_min demo_p = 0" "capacity_of 3 = 4"
    by code_simp+
  have ok: "gate_ok demo_full_sh demo_full_p ?cs"
    by (rule gate_publish_ok(1) [OF demo_ok1, of 4])
      (simp_all add: m demo_full_sh_def demo_full_p_def word_span_def)
  have mf: "gs_mask demo_full_sh = 3" "gp_next_seq demo_full_p = 4" "gc_published demo_c1 = 0" by code_simp+
  have n: "(0 :: u64) < 1" "unat (1 :: u64) < capacity_of (gs_mask demo_full_sh)" by (simp_all add: mf m)
  have e: "gate_ok (gate_consumer_drop demo_full_sh demo_c1) q (?cs(0 := None))"
    if "gate_ok demo_full_sh q ?cs" for q :: gate_producer
    by (rule gate_consumer_drop_ok(1) [OF that]) simp
  have em: "gs_mask (gate_consumer_drop demo_full_sh demo_c1) = gs_mask demo_full_sh"
    by (rule gate_consumer_drop_ok(2) [OF ok]) simp
  have bl: "gate_blocked demo_full_p (capacity_of (gs_mask demo_full_sh)) (unat (1 :: u64)) ?cs"
    by (simp add: gate_blocked_def mf m)
  have un: "\<not> gate_blocked demo_full_p (capacity_of (gs_mask demo_full_sh)) (unat (1 :: u64)) (?cs(0 := None))"
    by (simp add: gate_blocked_def)
  show ?thesis
    using gate_wait_released [where e = "\<lambda>s. gate_consumer_drop s demo_c1" and j = 3 and es = "[]", OF ok n e em un] bl
    by auto
qed

end
