(* ===== verification/Multicast_Interface.thy ===== *)
theory Multicast_Interface
  imports Ring_Prelude
begin

text \<open>
  The contract of a lossless multicast ring, as a locale: a machine whose steps
  report what they did, and for every attached consumer the messages it has not
  received yet. Each ring instantiates it on its own operations; what a consumer
  sees over a whole run is proved here once.
\<close>

datatype 'v mc_event =
    Published 'v
  | Joined nat
  | Received nat "'v list"
  | Empty nat
  | Closed_seen nat
  | Left nat
  | Shut
  | Quiet

text \<open>The abstract machine: what an event does to the undelivered messages.\<close>

fun mc_spec ::
  "'v mc_event \<Rightarrow> (nat \<Rightarrow> 'v list option) \<Rightarrow> (nat \<Rightarrow> 'v list option) \<Rightarrow> bool" where
  "mc_spec (Published v) q q' \<longleftrightarrow> q' = (\<lambda>k. map_option (\<lambda>xs. xs @ [v]) (q k))"
| "mc_spec (Joined k) q q' \<longleftrightarrow> q k = None \<and> q' = q(k \<mapsto> [])"
| "mc_spec (Received k xs) q q' \<longleftrightarrow> (\<exists>rest. q k = Some (xs @ rest) \<and> q' = q(k \<mapsto> rest))"
| "mc_spec (Empty k) q q' \<longleftrightarrow> q k = Some [] \<and> q' = q"
| "mc_spec (Closed_seen k) q q' \<longleftrightarrow> q k = Some [] \<and> q' = q"
| "mc_spec (Left k) q q' \<longleftrightarrow> q k \<noteq> None \<and> q' = q(k := None)"
| "mc_spec Shut q q' \<longleftrightarrow> q' = q"
| "mc_spec Quiet q q' \<longleftrightarrow> q' = q"

fun mc_published :: "'v mc_event list \<Rightarrow> 'v list" where
  "mc_published [] = []"
| "mc_published (Published v # evs) = v # mc_published evs"
| "mc_published (_ # evs) = mc_published evs"

fun mc_received :: "nat \<Rightarrow> 'v mc_event list \<Rightarrow> 'v list" where
  "mc_received k [] = []"
| "mc_received k (Received j xs # evs) = (if j = k then xs @ mc_received k evs else mc_received k evs)"
| "mc_received k (_ # evs) = mc_received k evs"

text \<open>What consumer \<open>k\<close> was attached for: the published messages up to its departure.\<close>

fun mc_audible :: "nat \<Rightarrow> 'v mc_event list \<Rightarrow> 'v list" where
  "mc_audible k [] = []"
| "mc_audible k (Published v # evs) = v # mc_audible k evs"
| "mc_audible k (Left j # evs) = (if j = k then [] else mc_audible k evs)"
| "mc_audible k (_ # evs) = mc_audible k evs"

fun mc_run ::
  "('o \<Rightarrow> 's \<Rightarrow> fault + 'v mc_event \<times> 's) \<Rightarrow> 'o list \<Rightarrow> 's \<Rightarrow> fault + 'v mc_event list \<times> 's" where
  "mc_run step [] s = Inr ([], s)"
| "mc_run step (x # ops) s =
     (case step x s of
        Inl f \<Rightarrow> Inl f
      | Inr (ev, s1) \<Rightarrow>
          (case mc_run step ops s1 of Inl f \<Rightarrow> Inl f | Inr (evs, s2) \<Rightarrow> Inr (ev # evs, s2)))"

text \<open>\<open>inv n s\<close>: the state is sound and \<open>n\<close> more operations stay within the range of the cursors.\<close>

locale multicast =
  fixes inv :: "nat \<Rightarrow> 's \<Rightarrow> bool"
    and pending :: "'s \<Rightarrow> nat \<Rightarrow> 'v list option"
    and step :: "'o \<Rightarrow> 's \<Rightarrow> fault + 'v mc_event \<times> 's"
  assumes step_ok: "inv (Suc n) s \<Longrightarrow>
      \<exists>ev s'. step x s = Inr (ev, s') \<and> inv n s' \<and> mc_spec ev (pending s) (pending s')"
begin

lemma run_total:
  assumes "inv n s" and "length ops \<le> n"
  shows "\<exists>evs s'. mc_run step ops s = Inr (evs, s') \<and> inv (n - length ops) s'"
  using assms
proof (induction ops arbitrary: n s)
  case (Cons x ops)
  obtain m where m: "n = Suc m" using Cons.prems(2) by (cases n) auto
  obtain ev s1 where 1: "step x s = Inr (ev, s1)" "inv m s1"
    using step_ok [OF Cons.prems(1) [unfolded m]] by blast
  obtain evs s2 where "mc_run step ops s1 = Inr (evs, s2)" "inv (m - length ops) s2"
    using Cons.IH [OF 1(2)] Cons.prems(2) m by auto
  then show ?case using 1 m by simp
qed simp

text \<open>
  A consumer receives, in order and without a gap, what it had pending and what
  is published while it is attached; what it has not received is pending.
\<close>

lemma run_received:
  assumes "inv n s" and "length ops \<le> n" and "mc_run step ops s = Inr (evs, s')"
    and "pending s k = Some q" and "Joined k \<notin> set evs"
  shows "\<exists>rest. q @ mc_audible k evs = mc_received k evs @ rest
    \<and> (\<forall>q'. pending s' k = Some q' \<longrightarrow> rest = q')"
  using assms
proof (induction ops arbitrary: n s q evs)
  case (Cons x ops)
  obtain m where m: "n = Suc m" using Cons.prems(2) by (cases n) auto
  obtain ev s1 where 1: "step x s = Inr (ev, s1)" "inv m s1" "mc_spec ev (pending s) (pending s1)"
    using step_ok [OF Cons.prems(1) [unfolded m]] by blast
  obtain evs1 where run: "mc_run step ops s1 = Inr (evs1, s')" and evs: "evs = ev # evs1"
    using Cons.prems(3) 1(1) by (auto split: sum.splits)
  have IH: "\<exists>rest. q1 @ mc_audible k evs1 = mc_received k evs1 @ rest
      \<and> (\<forall>q'. pending s' k = Some q' \<longrightarrow> rest = q')" if "pending s1 k = Some q1" for q1
    using Cons.IH [OF 1(2) _ run that] Cons.prems(2,5) m evs by simp
  have gone: "mc_received k evs1 = [] \<and> (\<forall>q'. pending s' k \<noteq> Some q')" if "pending s1 k = None"
    using that run 1(2) Cons.prems(2,5)
    unfolding evs m
  proof (induction ops arbitrary: m s1 evs1)
    case (Cons y ops)
    obtain m1 where m1: "m = Suc m1" using Cons.prems(4) by (cases m) auto
    obtain e s2 where 2: "step y s1 = Inr (e, s2)" "inv m1 s2" "mc_spec e (pending s1) (pending s2)"
      using step_ok [OF Cons.prems(3) [unfolded m1]] by blast
    obtain evs2 where run2: "mc_run step ops s2 = Inr (evs2, s')" and evs2: "evs1 = e # evs2"
      using Cons.prems(2) 2(1) by (auto split: sum.splits)
    have "pending s2 k = None" using 2(3) Cons.prems(1,5) by (cases e) (auto simp: evs2)
    then have "mc_received k evs2 = [] \<and> (\<forall>q'. pending s' k \<noteq> Some q')"
      using Cons.IH [of s2 evs2 m1] run2 2(2) Cons.prems(4,5) m1 evs2 by simp
    moreover have "mc_received k evs1 = mc_received k evs2"
      using 2(3) Cons.prems(1) by (cases e) (auto simp: evs2)
    ultimately show ?case by simp
  qed simp
  show ?case
  proof (cases ev)
    case (Left j)
    then show ?thesis
      using 1(3) Cons.prems(4) IH [of q] gone by (cases "j = k") (auto simp: evs)
  qed (use 1(3) Cons.prems(4,5) IH in \<open>auto simp: evs\<close>)
qed simp

text \<open>From a consumer's subscription on.\<close>

lemma run_joined:
  assumes "inv n s" and "length ops \<le> n" and "mc_run step ops s = Inr (evs, s')"
    and "evs = evs1 @ Joined k # evs2" and "Joined k \<notin> set evs2"
  shows "\<exists>rest. mc_audible k evs2 = mc_received k evs2 @ rest
    \<and> (\<forall>q'. pending s' k = Some q' \<longrightarrow> rest = q')"
  using assms
proof (induction ops arbitrary: n s evs evs1)
  case (Cons x ops)
  obtain m where m: "n = Suc m" using Cons.prems(2) by (cases n) auto
  obtain ev s1 where 1: "step x s = Inr (ev, s1)" "inv m s1" "mc_spec ev (pending s) (pending s1)"
    using step_ok [OF Cons.prems(1) [unfolded m]] by blast
  obtain evs' where run: "mc_run step ops s1 = Inr (evs', s')" and evs: "evs = ev # evs'"
    using Cons.prems(3) 1(1) by (auto split: sum.splits)
  have le: "length ops \<le> m" using Cons.prems(2) m by simp
  show ?case
  proof (cases evs1)
    case Nil
    then have "ev = Joined k" "evs' = evs2" using Cons.prems(4) evs by simp_all
    then show ?thesis
      using run_received [OF 1(2) le run, of k "[]"] 1(3) Cons.prems(5) by simp
  next
    case (Cons e es)
    then show ?thesis using Cons.IH [OF 1(2) le run, of es] Cons.prems(4,5) evs by simp
  qed
qed simp

end

text \<open>
  Rings number their consumers in the order of the subscriptions, so that no two
  subscriptions of a run share a number.
\<close>

locale numbered_multicast = multicast inv pending step
  for inv :: "nat \<Rightarrow> 's \<Rightarrow> bool" and pending :: "'s \<Rightarrow> nat \<Rightarrow> 'v list option"
    and step :: "'o \<Rightarrow> 's \<Rightarrow> fault + 'v mc_event \<times> 's" +
  fixes next_id :: "'s \<Rightarrow> nat"
  assumes step_id: "inv (Suc n) s \<Longrightarrow> step x s = Inr (ev, s') \<Longrightarrow>
      (\<forall>k. ev = Joined k \<longrightarrow> k = next_id s)
      \<and> next_id s' = (case ev of Joined k \<Rightarrow> Suc k | _ \<Rightarrow> next_id s)"
begin

lemma run_fresh:
  assumes "inv n s" and "length ops \<le> n" and "mc_run step ops s = Inr (evs, s')"
  shows "(\<forall>k. Joined k \<in> set evs \<longrightarrow> next_id s \<le> k)
    \<and> (\<forall>evs1 k evs2. evs = evs1 @ Joined k # evs2 \<longrightarrow> Joined k \<notin> set evs2)"
  using assms
proof (induction ops arbitrary: n s evs)
  case (Cons x ops)
  obtain m where m: "n = Suc m" using Cons.prems(2) by (cases n) auto
  obtain ev s1 where 1: "step x s = Inr (ev, s1)" "inv m s1"
    using step_ok [OF Cons.prems(1) [unfolded m]] by blast
  note I = step_id [OF Cons.prems(1) [unfolded m] 1(1)]
  obtain evs' where run: "mc_run step ops s1 = Inr (evs', s')" and evs: "evs = ev # evs'"
    using Cons.prems(3) 1(1) by (auto split: sum.splits)
  have "length ops \<le> m" using Cons.prems(2) m by simp
  note IH = Cons.IH [OF 1(2) this run]
  have le: "next_id s \<le> next_id s1" using I by (cases ev) auto
  have jk: "next_id s \<le> k" if "Joined k \<in> set evs" for k
    using that evs I IH le by (metis order_refl le_trans set_ConsD)
  have "Joined k \<notin> set evs2" if e: "evs = evs1 @ Joined k # evs2" for evs1 k evs2
  proof (cases evs1)
    case Nil
    then have "ev = Joined k" "evs' = evs2" using e evs by simp_all
    then have "next_id s1 = Suc k" "\<forall>l. Joined l \<in> set evs2 \<longrightarrow> next_id s1 \<le> l" using I IH by simp_all
    then show ?thesis by auto
  next
    case (Cons a es)
    then have "evs' = es @ Joined k # evs2" using e evs by simp
    then show ?thesis using IH by blast
  qed
  then show ?case using jk by blast
qed simp

text \<open>Lossless multicast: what a run delivers, to the consumers there are and to those that join.\<close>

lemma run_everyone:
  assumes "inv n s" and "length ops \<le> n"
  shows "\<exists>evs s'. mc_run step ops s = Inr (evs, s')
    \<and> (\<forall>k q. k < next_id s \<longrightarrow> pending s k = Some q \<longrightarrow>
          (\<exists>rest. q @ mc_audible k evs = mc_received k evs @ rest
             \<and> (\<forall>q'. pending s' k = Some q' \<longrightarrow> rest = q')))
    \<and> (\<forall>evs1 k evs2. evs = evs1 @ Joined k # evs2 \<longrightarrow>
          (\<exists>rest. mc_audible k evs2 = mc_received k evs2 @ rest
             \<and> (\<forall>q'. pending s' k = Some q' \<longrightarrow> rest = q')))"
proof -
  obtain evs s' where run: "mc_run step ops s = Inr (evs, s')" using run_total [OF assms] by blast
  note F = run_fresh [OF assms run]
  have old: "\<exists>rest. q @ mc_audible k evs = mc_received k evs @ rest \<and> (\<forall>q'. pending s' k = Some q' \<longrightarrow> rest = q')"
    if "k < next_id s" "pending s k = Some q" for k q
  proof -
    have "Joined k \<notin> set evs" using F that(1) by fastforce
    then show ?thesis by (rule run_received [OF assms run that(2)])
  qed
  have new: "\<exists>rest. mc_audible k evs2 = mc_received k evs2 @ rest \<and> (\<forall>q'. pending s' k = Some q' \<longrightarrow> rest = q')"
    if e: "evs = evs1 @ Joined k # evs2" for evs1 k evs2
  proof -
    have "Joined k \<notin> set evs2" using F e by blast
    then show ?thesis by (rule run_joined [OF assms run e])
  qed
  show ?thesis using run old new by blast
qed

end

end
