(* ===== verification/Spmc.thy ===== *)
theory Spmc
  imports Gate_Invariant Multicast_Interface Spsc Framing
begin

text \<open>
  The gating multi-consumer ring (\<open>src/src/spmc.rs\<close>): slots of type
  \<open>'a option\<close> (\<open>None\<close> for storage that holds no value), the overwrite
  watermark, and the handles' operations over the gating engine. Reading or
  dropping a slot that holds no value is the fault \<open>UninitRead\<close>.

  Two callbacks of the element type appear as arguments: \<open>nd\<close> is
  \<open>needs_drop::<T>()\<close>, and the destructor or \<open>Clone\<close> of a value may panic.
\<close>

section \<open>State\<close>

record 'a spmc_shared = gate_shared +
  sp_buffer :: "'a option list"
  sp_dropped_through :: u64

record spmc_producer = gate_producer +
  sp_dropped_local :: u64

text \<open>A ring: the shared state, the producer's private state, the attached consumers by id.\<close>

record 'a spmc =
  sr_sh :: "'a spmc_shared"
  sr_p :: spmc_producer
  sr_cs :: "nat \<Rightarrow> gate_consumer option"
  sr_next :: nat

datatype 'a push_result = Pushed | Push_refused 'a | Push_unwound

datatype 'a pop_result = Popped 'a | Pop_empty | Pop_closed | Pop_unwound

definition spmc_new :: "usize \<Rightarrow> fault + 'a spmc" where
  "spmc_new min_capacity =
     (case round_capacity min_capacity 2 of
        Inl f \<Rightarrow> Inl f
      | Inr capacity \<Rightarrow>
          (let sh = \<lparr>gs_mask = capacity - 1, gs_write_cursor = 0, gs_closed = 0,
                     gs_registry = [chunk_new], gs_producer_notified = 0, gs_consumer_notified = 0,
                     sp_buffer = replicate (unat capacity) None, sp_dropped_through = 0\<rparr>
           in case gate_subscribe sh of
                (Inl e, sh1) \<Rightarrow> Inl Panic
              | (Inr c, sh1) \<Rightarrow>
                  Inr \<lparr>sr_sh = sh1,
                       sr_p = \<lparr>gp_mask = capacity - 1, gp_next_seq = 0, gp_cached_min = 0,
                               gp_cached_cursors = [], sp_dropped_local = 0\<rparr>,
                       sr_cs = Map.empty(0 \<mapsto> c), sr_next = 1\<rparr>))"

section \<open>The producer\<close>

definition sp_slot :: "spmc_producer \<Rightarrow> nat" where
  "sp_slot p = slot_ix (gp_mask p) (gp_next_seq p)"

text \<open>The watermark moves, in both copies, before the occupant is dropped.\<close>

definition drop_overwritten ::
  "'a spmc_shared \<Rightarrow> spmc_producer \<Rightarrow> fault + 'a \<times> 'a spmc_shared \<times> spmc_producer" where
  "drop_overwritten sh p =
     (let capacity = gp_mask p + 1;
          old = gp_next_seq p - capacity;
          mark = old + 1;
          sh1 = sh\<lparr>sp_dropped_through := mark\<rparr>;
          p1 = p\<lparr>sp_dropped_local := mark\<rparr>
      in case sp_buffer sh1 ! sp_slot p1 of
           None \<Rightarrow> Inl UninitRead
         | Some v \<Rightarrow> Inr (v, sh1\<lparr>sp_buffer := (sp_buffer sh1)[sp_slot p1 := None]\<rparr>, p1))"

text \<open>\<open>prepare_slot\<close> returns the values dropped; it unwinds if their destructor panics.\<close>

definition prepare_slot ::
  "bool \<Rightarrow> ('a \<Rightarrow> bool) \<Rightarrow> 'a spmc_shared \<Rightarrow> spmc_producer
     \<Rightarrow> fault + 'a list \<times> bool \<times> 'a spmc_shared \<times> spmc_producer" where
  "prepare_slot nd drop_panics sh p =
     (if nd \<and> gp_next_seq p - sp_dropped_local p > gp_mask p
      then (case drop_overwritten sh p of
              Inl f \<Rightarrow> Inl f
            | Inr (v, sh1, p1) \<Rightarrow> Inr ([v], drop_panics v, sh1, p1))
      else Inr ([], False, sh, p))"

definition spmc_uninit_write :: "'a \<Rightarrow> 'a spmc_shared \<Rightarrow> spmc_producer \<Rightarrow> 'a spmc_shared" where
  "spmc_uninit_write v sh p = sh\<lparr>sp_buffer := (sp_buffer sh)[sp_slot p := Some v]\<rparr>"

definition spmc_write :: "'a \<Rightarrow> 'a spmc_shared \<Rightarrow> spmc_producer \<Rightarrow> 'a spmc_shared \<times> spmc_producer" where
  "spmc_write v sh p = gate_publish 1 (sh\<lparr>sp_buffer := (sp_buffer sh)[sp_slot p := Some v]\<rparr>) p"

definition spmc_try_push ::
  "bool \<Rightarrow> ('a \<Rightarrow> bool) \<Rightarrow> 'a \<Rightarrow> 'a spmc_shared \<Rightarrow> spmc_producer
     \<Rightarrow> fault + 'a push_result \<times> 'a list \<times> 'a spmc_shared \<times> spmc_producer" where
  "spmc_try_push nd drop_panics v sh p =
     (case gate_has_space 1 sh p of
        (False, p1) \<Rightarrow> Inr (Push_refused v, [], sh, p1)
      | (True, p1) \<Rightarrow>
          (case prepare_slot nd drop_panics sh p1 of
             Inl f \<Rightarrow> Inl f
           | Inr (ds, True, sh2, p2) \<Rightarrow> Inr (Push_unwound, ds, sh2, p2)
           | Inr (ds, False, sh2, p2) \<Rightarrow> Inr (Pushed, ds, spmc_write v sh2 p2)))"

text \<open>The blocking form; \<open>None\<close> is "still blocked".\<close>

definition spmc_push ::
  "bool \<Rightarrow> ('a \<Rightarrow> bool) \<Rightarrow> ('a spmc_shared \<Rightarrow> 'a spmc_shared) list \<Rightarrow> 'a \<Rightarrow> 'a spmc_shared \<Rightarrow> spmc_producer
     \<Rightarrow> (fault + 'a push_result \<times> 'a list \<times> 'a spmc_shared \<times> spmc_producer) option" where
  "spmc_push nd drop_panics env v sh p =
     (case gate_wait_for_space 1 env sh p of
        None \<Rightarrow> None
      | Some (sh1, p1, env1) \<Rightarrow>
          Some (case prepare_slot nd drop_panics sh1 p1 of
                  Inl f \<Rightarrow> Inl f
                | Inr (ds, True, sh2, p2) \<Rightarrow> Inr (Push_unwound, ds, sh2, p2)
                | Inr (ds, False, sh2, p2) \<Rightarrow> Inr (Pushed, ds, spmc_write v sh2 p2)))"

text \<open>
  \<open>try_claim\<close>: \<open>Pushed\<close> stands for a claimed slot (the claim borrows the
  producer and has no state of its own), \<open>Push_refused ()\<close> for \<open>None\<close>.
\<close>

definition spmc_try_claim ::
  "bool \<Rightarrow> ('a \<Rightarrow> bool) \<Rightarrow> 'a spmc_shared \<Rightarrow> spmc_producer
     \<Rightarrow> fault + unit push_result \<times> 'a list \<times> 'a spmc_shared \<times> spmc_producer" where
  "spmc_try_claim nd drop_panics sh p =
     (case gate_has_space 1 sh p of
        (False, p1) \<Rightarrow> Inr (Push_refused (), [], sh, p1)
      | (True, p1) \<Rightarrow>
          (case prepare_slot nd drop_panics sh p1 of
             Inl f \<Rightarrow> Inl f
           | Inr (ds, unwound, sh2, p2) \<Rightarrow>
               Inr (if unwound then Push_unwound else Pushed, ds, sh2, p2)))"

definition spmc_claim ::
  "bool \<Rightarrow> ('a \<Rightarrow> bool) \<Rightarrow> ('a spmc_shared \<Rightarrow> 'a spmc_shared) list \<Rightarrow> 'a spmc_shared \<Rightarrow> spmc_producer
     \<Rightarrow> (fault + unit push_result \<times> 'a list \<times> 'a spmc_shared \<times> spmc_producer) option" where
  "spmc_claim nd drop_panics env sh p =
     (case gate_wait_for_space 1 env sh p of
        None \<Rightarrow> None
      | Some (sh1, p1, env1) \<Rightarrow>
          Some (case prepare_slot nd drop_panics sh1 p1 of
                  Inl f \<Rightarrow> Inl f
                | Inr (ds, unwound, sh2, p2) \<Rightarrow>
                    Inr (if unwound then Push_unwound else Pushed, ds, sh2, p2)))"

definition spmc_commit :: "'a \<Rightarrow> 'a spmc_shared \<Rightarrow> spmc_producer \<Rightarrow> 'a spmc_shared \<times> spmc_producer" where
  "spmc_commit v sh p = spmc_write v sh p"

definition spmc_commit_init :: "'a spmc_shared \<Rightarrow> spmc_producer \<Rightarrow> 'a spmc_shared \<times> spmc_producer" where
  "spmc_commit_init sh p = gate_publish 1 sh p"

section \<open>The consumers\<close>

definition sp_read_slot :: "gate_consumer \<Rightarrow> nat" where
  "sp_read_slot c = slot_ix (gc_mask c) (gc_read_cursor c)"

text \<open>\<open>read\<close> clones, then advances: a panicking clone leaves everything as it was.\<close>

definition spmc_read ::
  "('a \<Rightarrow> bool) \<Rightarrow> 'a spmc_shared \<Rightarrow> gate_consumer
     \<Rightarrow> fault + 'a pop_result \<times> 'a spmc_shared \<times> gate_consumer" where
  "spmc_read clone_panics sh c =
     (case sp_buffer sh ! sp_read_slot c of
        None \<Rightarrow> Inl UninitRead
      | Some v \<Rightarrow> if clone_panics v then Inr (Pop_unwound, sh, c)
                  else Inr (Popped v, gate_advance_one sh c))"

text \<open>
  \<open>between\<close> is what other threads do between the failed space check and the
  check of the closed flag, which runs only when the consumer would block.
\<close>

definition spmc_try_pop ::
  "('a \<Rightarrow> bool) \<Rightarrow> ('a spmc_shared \<Rightarrow> 'a spmc_shared) \<Rightarrow> 'a spmc_shared \<Rightarrow> gate_consumer
     \<Rightarrow> fault + 'a pop_result \<times> 'a spmc_shared \<times> gate_consumer" where
  "spmc_try_pop clone_panics between sh c =
     (case gate_has_item sh c of
        (True, c1) \<Rightarrow> spmc_read clone_panics sh c1
      | (False, c1) \<Rightarrow>
          (let sh1 = between sh
           in case gate_check_closed sh1 c1 of
                (True, c2) \<Rightarrow> Inr (Pop_closed, sh1, c2)
              | (False, c2) \<Rightarrow> if gate_available_cached c2 \<noteq> 0 then spmc_read clone_panics sh1 c2
                               else Inr (Pop_empty, sh1, c2)))"

definition spmc_pop ::
  "('a \<Rightarrow> bool) \<Rightarrow> ('a spmc_shared \<Rightarrow> 'a spmc_shared) list \<Rightarrow> 'a spmc_shared \<Rightarrow> gate_consumer
     \<Rightarrow> (fault + 'a pop_result \<times> 'a spmc_shared \<times> gate_consumer) option" where
  "spmc_pop clone_panics env sh c =
     (case gate_wait_for_item env sh c of
        None \<Rightarrow> None
      | Some (False, sh1, c1) \<Rightarrow> Some (Inr (Pop_closed, sh1, c1))
      | Some (True, sh1, c1) \<Rightarrow> Some (spmc_read clone_panics sh1 c1))"

text \<open>
  \<open>try_pop_ref\<close>: \<open>Popped ()\<close> is a guard over the slot at the read cursor (it
  borrows the consumer), dereferenced by \<open>spmc_deref\<close>, dropped by advancing.
\<close>

definition spmc_try_pop_ref ::
  "'a spmc_shared \<Rightarrow> gate_consumer \<Rightarrow> unit pop_result \<times> gate_consumer" where
  "spmc_try_pop_ref sh c =
     (case gate_has_item sh c of
        (True, c1) \<Rightarrow> (Popped (), c1)
      | (False, c1) \<Rightarrow>
          (case gate_check_closed sh c1 of
             (True, c2) \<Rightarrow> (Pop_closed, c2)
           | (False, c2) \<Rightarrow> if gate_available_cached c2 \<noteq> 0 then (Popped (), c2)
                            else (Pop_empty, c2)))"

definition spmc_pop_ref ::
  "('a spmc_shared \<Rightarrow> 'a spmc_shared) list \<Rightarrow> 'a spmc_shared \<Rightarrow> gate_consumer
     \<Rightarrow> (unit pop_result \<times> 'a spmc_shared \<times> gate_consumer) option" where
  "spmc_pop_ref env sh c =
     map_option (\<lambda>(b, sh1, c1). (if b then Popped () else Pop_closed, sh1, c1))
       (gate_wait_for_item env sh c)"

definition spmc_deref :: "'a spmc_shared \<Rightarrow> gate_consumer \<Rightarrow> fault + 'a" where
  "spmc_deref sh c =
     (case sp_buffer sh ! sp_read_slot c of None \<Rightarrow> Inl UninitRead | Some v \<Rightarrow> Inr v)"

definition spmc_popref_drop ::
  "'a spmc_shared \<Rightarrow> gate_consumer \<Rightarrow> 'a spmc_shared \<times> gate_consumer" where
  "spmc_popref_drop sh c = gate_advance_one sh c"

text \<open>
  \<open>drain\<close>: the values handed to the callback; the cursor moves over each before
  the call, and the progress is published on exit, also when the callback
  panics (on a value with \<open>unwinds\<close>).
\<close>

fun spmc_drain_loop ::
  "nat \<Rightarrow> ('a \<Rightarrow> bool) \<Rightarrow> 'a option list \<Rightarrow> gate_consumer \<Rightarrow> fault + 'a list \<times> gate_consumer" where
  "spmc_drain_loop 0 unwinds buf c = Inr ([], c)"
| "spmc_drain_loop (Suc count) unwinds buf c =
     (let i = sp_read_slot c;
          c1 = c\<lparr>gc_read_cursor := gc_read_cursor c + 1\<rparr>
      in case buf ! i of
           None \<Rightarrow> Inl UninitRead
         | Some v \<Rightarrow>
             if unwinds v then Inr ([v], c1)
             else (case spmc_drain_loop count unwinds buf c1 of
                     Inl f \<Rightarrow> Inl f
                   | Inr (vs, c2) \<Rightarrow> Inr (v # vs, c2)))"

definition spmc_drain ::
  "('a \<Rightarrow> bool) \<Rightarrow> 'a spmc_shared \<Rightarrow> gate_consumer \<Rightarrow> fault + 'a list \<times> 'a spmc_shared \<times> gate_consumer" where
  "spmc_drain unwinds sh c =
     (case gate_refresh sh c of
        (end_cur, c1) \<Rightarrow>
          (let available = end_cur - gc_read_cursor c1
           in if available = 0 then Inr ([], sh, c1)
              else (let count = min available (publish_batch_elems (gc_mask c1 + 1))
                    in case spmc_drain_loop (unat count) unwinds (sp_buffer sh) c1 of
                         Inl f \<Rightarrow> Inl f
                       | Inr (vs, c2) \<Rightarrow> Inr (vs, gate_flush_pending sh c2))))"

section \<open>Teardown\<close>

definition spmc_shared_drop :: "bool \<Rightarrow> 'a spmc_shared \<Rightarrow> fault + 'a list" where
  "spmc_shared_drop nd sh =
     (if nd then drop_range (sp_buffer sh) (gs_mask sh) (sp_dropped_through sh) (gs_write_cursor sh)
      else Inr [])"

section \<open>The invariant\<close>

text \<open>
  Where the live values start: the overwrite watermark for types with a
  destructor, otherwise one lap behind the write cursor.
\<close>

definition live_from :: "bool \<Rightarrow> 'a spmc_shared \<Rightarrow> u64" where
  "live_from nd sh =
     (if nd then sp_dropped_through sh
      else of_nat (unat (gs_write_cursor sh) - capacity_of (gs_mask sh)))"

definition stretch :: "'a spmc_shared \<Rightarrow> u64 \<Rightarrow> 'a option list" where
  "stretch sh a = window (gs_mask sh) (sp_buffer sh) a (cdist a (gs_write_cursor sh))"

definition spmc_live :: "bool \<Rightarrow> 'a spmc_shared \<Rightarrow> 'a list" where
  "spmc_live nd sh = map the (stretch sh (live_from nd sh))"

definition spmc_pending :: "'a spmc_shared \<Rightarrow> gate_consumer \<Rightarrow> 'a list" where
  "spmc_pending sh c = map the (stretch sh (gc_read_cursor c))"

definition spmc_sound ::
  "bool \<Rightarrow> 'a spmc_shared \<Rightarrow> spmc_producer \<Rightarrow> (nat \<Rightarrow> gate_consumer option) \<Rightarrow> bool" where
  "spmc_sound nd sh p cs \<longleftrightarrow> gate_ok sh p cs
     \<and> length (sp_buffer sh) = capacity_of (gs_mask sh)
     \<and> (nd \<longrightarrow> sp_dropped_local p = sp_dropped_through sh)
     \<and> unat (live_from nd sh) \<le> unat (gs_write_cursor sh)
     \<and> unat (gs_write_cursor sh) - unat (live_from nd sh) \<le> capacity_of (gs_mask sh)
     \<and> (\<forall>k c. cs k = Some c \<longrightarrow> unat (live_from nd sh) \<le> unat (gc_published c))
     \<and> None \<notin> set (stretch sh (live_from nd sh))"

lemma spmc_soundD:
  assumes "spmc_sound nd sh p cs"
  shows "gate_ok sh p cs" and "length (sp_buffer sh) = capacity_of (gs_mask sh)"
    and "nd \<Longrightarrow> sp_dropped_local p = sp_dropped_through sh"
    and "unat (live_from nd sh) \<le> unat (gs_write_cursor sh)"
    and "unat (gs_write_cursor sh) - unat (live_from nd sh) \<le> capacity_of (gs_mask sh)"
    and "cs k = Some c \<Longrightarrow> unat (live_from nd sh) \<le> unat (gc_published c)"
    and "None \<notin> set (stretch sh (live_from nd sh))"
  using assms unfolding spmc_sound_def by blast+

lemma stretch_suffix:
  assumes "unat a \<le> unat b" and "unat b \<le> unat (gs_write_cursor sh)"
  shows "stretch sh b = drop (unat b - unat a) (stretch sh a)"
proof -
  have "cdist b (gs_write_cursor sh) = cdist a (gs_write_cursor sh) - (unat b - unat a)"
    using assms by (simp add: cdist_unat)
  moreover have "a + of_nat (unat b - unat a) = b"
    using assms(1) by (metis add_cdist cdist_unat)
  moreover have "unat b - unat a \<le> cdist a (gs_write_cursor sh)"
    using assms by (simp add: cdist_unat)
  ultimately show ?thesis by (simp add: stretch_def drop_window)
qed

lemma stretch_full:
  assumes "spmc_sound nd sh p cs" and "unat (live_from nd sh) \<le> unat a"
    and "unat a \<le> unat (gs_write_cursor sh)"
  shows "None \<notin> set (stretch sh a)"
  using stretch_suffix [OF assms(2,3)] spmc_soundD(7) [OF assms(1)] set_drop_subset by fastforce

text \<open>The cursors of an attached consumer, in order, from the start of the live values.\<close>

lemma consumer_order:
  assumes ok: "spmc_sound nd sh p cs" and c: "cs k = Some c"
  shows "unat (live_from nd sh) \<le> unat (gc_published c)"
    and "unat (gc_published c) \<le> unat (gc_read_cursor c)"
    and "unat (gc_read_cursor c) \<le> unat (gc_write_cache c)"
    and "unat (gc_write_cache c) \<le> unat (gs_write_cursor sh)"
    and "unat (live_from nd sh) \<le> unat (gc_read_cursor c)"
    and "unat (gc_read_cursor c) \<le> unat (gs_write_cursor sh)"
    and "None \<notin> set (stretch sh (gc_read_cursor c))"
proof -
  note g = spmc_soundD(1) [OF ok]
  note C = consumer_okD [OF gate_okD(3) [OF g c]] and P = producer_okD(4) [OF gate_okD(1) [OF g]]
  show 1: "unat (live_from nd sh) \<le> unat (gc_published c)" by (rule spmc_soundD(6) [OF ok c])
  show 2: "unat (gc_published c) \<le> unat (gc_read_cursor c)" by (rule C(6))
  show 3: "unat (gc_read_cursor c) \<le> unat (gc_write_cache c)" by (rule C(7))
  show 4: "unat (gc_write_cache c) \<le> unat (gs_write_cursor sh)" unfolding P by (rule C(8))
  show 5: "unat (live_from nd sh) \<le> unat (gc_read_cursor c)" using 1 2 by linarith
  show 6: "unat (gc_read_cursor c) \<le> unat (gs_write_cursor sh)" using 3 4 by linarith
  show "None \<notin> set (stretch sh (gc_read_cursor c))" by (rule stretch_full [OF ok 5 6])
qed

text \<open>The slot at the read cursor of a consumer with something to read.\<close>

lemma stretch_unfold:
  assumes "a \<noteq> gs_write_cursor sh"
  shows "stretch sh a = sp_buffer sh ! slot_ix (gs_mask sh) a # stretch sh (a + 1)"
proof -
  have "cdist a (gs_write_cursor sh) = Suc (cdist (a + 1) (gs_write_cursor sh))"
    using cdist_advance_1 [OF assms] assms by (simp add: zero_less_iff_neq_zero)
  then show ?thesis by (simp add: stretch_def window_Suc)
qed

section \<open>The producer's steps\<close>

lemma spmc_has_space_ok:
  assumes ok: "spmc_sound nd sh p cs" and h: "gate_has_space 1 sh p = (free, p')"
  shows "spmc_sound nd sh p' cs" and "gp_next_seq p' = gp_next_seq p" and "gp_mask p' = gp_mask p"
    and "free \<Longrightarrow> Suc (cdist (gp_cached_min p') (gp_next_seq p)) \<le> capacity_of (gs_mask sh)"
    and "\<not> free \<Longrightarrow> \<exists>k c. cs k = Some c
           \<and> capacity_of (gs_mask sh) \<le> unat (gp_next_seq p) - unat (gc_published c)"
proof -
  note g = spmc_soundD(1) [OF ok]
  have n: "0 < (1 :: u64)" "unat (1 :: u64) < capacity_of (gs_mask sh)"
    using producer_okD(3) [OF gate_okD(1) [OF g]] by simp_all
  note H = gate_has_space_ok [OF g n h]
  have "sp_dropped_local p' = sp_dropped_local p"
    using H(6) by (metis spmc_producer.select_convs(1) spmc_producer.surjective gate_producer.select_convs(5)) 
  then show "spmc_sound nd sh p' cs" using ok H(1) by (simp add: spmc_sound_def)
  show "gp_next_seq p' = gp_next_seq p" "gp_mask p' = gp_mask p" by (rule H(2), rule H(3))
  show "free \<Longrightarrow> Suc (cdist (gp_cached_min p') (gp_next_seq p)) \<le> capacity_of (gs_mask sh)"
    using H(4) by simp
  show "\<not> free \<Longrightarrow> \<exists>k c. cs k = Some c
      \<and> capacity_of (gs_mask sh) \<le> unat (gp_next_seq p) - unat (gc_published c)"
    using H(5) by fastforce
qed

text \<open>Seen from an attached consumer, space past the gate is a whole free lap.\<close>

lemma gate_room:
  assumes ok: "spmc_sound nd sh p cs" and c: "cs k = Some c"
    and fit: "Suc (cdist (gp_cached_min p) (gp_next_seq p)) \<le> capacity_of (gs_mask sh)"
  shows "Suc (unat (gs_write_cursor sh) - unat (gc_published c)) \<le> capacity_of (gs_mask sh)"
  using consumer_okD(9) [OF gate_okD(3) [OF spmc_soundD(1) [OF ok] c]] fit
    producer_okD(4) [OF gate_okD(1) [OF spmc_soundD(1) [OF ok]]]
  by simp

lemma prepare_slot_ok:
  assumes ok: "spmc_sound nd sh p cs"
    and fit: "Suc (cdist (gp_cached_min p) (gp_next_seq p)) \<le> capacity_of (gs_mask sh)"
  shows "\<exists>ds unwound sh' p'. prepare_slot nd dp sh p = Inr (ds, unwound, sh', p')
    \<and> (unwound \<longleftrightarrow> (\<exists>v\<in>set ds. dp v))
    \<and> spmc_sound nd sh' p' cs
    \<and> (nd \<longrightarrow> spmc_live nd sh = ds @ spmc_live nd sh') \<and> (\<not> nd \<longrightarrow> ds = [])
    \<and> (\<forall>k c. cs k = Some c \<longrightarrow> spmc_pending sh' c = spmc_pending sh c)
    \<and> (nd \<longrightarrow> Suc (unat (gs_write_cursor sh) - unat (live_from nd sh')) \<le> capacity_of (gs_mask sh))
    \<and> gp_cached_min p' = gp_cached_min p \<and> gp_next_seq p' = gp_next_seq p
    \<and> gs_mask sh' = gs_mask sh \<and> gs_write_cursor sh' = gs_write_cursor sh \<and> gs_closed sh' = gs_closed sh"
proof -
  note g = spmc_soundD(1) [OF ok]
  note P = producer_okD [OF gate_okD(1) [OF g]]
  let ?w = "gs_write_cursor sh" and ?cap = "capacity_of (gs_mask sh)"
  have lo: "cdist (live_from nd sh) ?w = unat ?w - unat (live_from nd sh)"
    by (rule cdist_unat [OF spmc_soundD(4) [OF ok]])
  show ?thesis
  proof (cases "nd \<and> gp_next_seq p - sp_dropped_local p > gp_mask p")
    case False
    have "Suc (unat ?w - unat (live_from nd sh)) \<le> ?cap" if nd
    proof -
      have "gp_next_seq p - sp_dropped_local p \<le> gp_mask p" using False that by (simp add: not_less)
      then have "cdist (sp_dropped_through sh) ?w \<le> unat (gs_mask sh)"
        using spmc_soundD(3) [OF ok that] P(2,4) by (simp add: cdist_def word_le_nat_alt)
      then show ?thesis
        using lo that unat_mask_eq [OF P(1)] capacity_pos [OF P(1)] by (simp add: live_from_def)
    qed
    then show ?thesis using False ok by (auto simp: prepare_slot_def)
  next
    case True
    then have nd: nd by simp
    let ?d = "sp_dropped_through sh"
    have d: "live_from nd sh = ?d" using nd by (simp add: live_from_def)
    have "unat (gs_mask sh) < cdist ?d ?w"
      using True spmc_soundD(3) [OF ok nd] P(2,4) by (simp add: cdist_def word_less_nat_alt)
    then have full: "unat ?w - unat ?d = ?cap" "cdist ?d ?w = ?cap"
      using lo spmc_soundD(5) [OF ok] unat_mask_eq [OF P(1)] capacity_pos [OF P(1)] d by auto
    define mark where "mark = gp_next_seq p - (gp_mask p + 1) + 1"
    have capw: "of_nat ?cap = gs_mask sh + 1" unfolding capacity_of_def by (simp only: of_nat_unat ucast_id)
    have dcap: "?d + (gs_mask sh + 1) = ?w" using add_cdist [of ?d ?w] full(2) capw by simp
    then have mark: "mark = ?d + 1"
    proof -
      have "gp_next_seq p = ?d + (gs_mask sh + 1)" using dcap P(4) by simp
      then show ?thesis unfolding mark_def P(2) by (metis add_diff_cancel_right')
    qed
    have slot: "slot_ix (gs_mask sh) ?w = slot_ix (gs_mask sh) ?d"
      using slot_ix_wrap [OF P(1), of ?d] capw dcap by simp
    have wlt: "unat ?d < unat ?w" using full(1) capacity_pos [OF P(1)] by linarith
    have ne: "?d \<noteq> ?w" using wlt by auto
    have um: "unat mark = Suc (unat ?d)"
    proof -
      have "unat (1 :: u64) = 1" by simp
      then have "unat ?d + unat (1 :: u64) < word_span" using wlt unat_less_span [of ?w] by linarith
      then have "unat (?d + 1) = unat ?d + unat (1 :: u64)" by (rule unat_add_span)
      then show ?thesis by (simp add: mark)
    qed
    have st: "stretch sh ?d = sp_buffer sh ! slot_ix (gs_mask sh) ?d # stretch sh mark"
      unfolding mark by (rule stretch_unfold [OF ne])
    then obtain v where v: "sp_buffer sh ! slot_ix (gs_mask sh) ?d = Some v"
      using spmc_soundD(7) [OF ok] d by (metis list.set_intros(1) option.exhaust)
    define sh' where "sh' = sh\<lparr>sp_dropped_through := mark,
        sp_buffer := (sp_buffer sh)[slot_ix (gs_mask sh) ?d := None]\<rparr>"
    define p' where "p' = p\<lparr>sp_dropped_local := mark\<rparr>"
    have ps: "prepare_slot nd dp sh p = Inr ([v], dp v, sh', p')"
      using True v slot
      by (simp add: prepare_slot_def drop_overwritten_def Let_def sp_slot_def P(2,4) sh'_def p'_def mark_def)
    have rel: "stretch sh' a = stretch sh a" if a: "unat mark \<le> unat a" "unat a \<le> unat ?w" for a
    proof -
      have "cdist mark ?w = ?cap - 1" using cdist_unat [of mark ?w] um full(1) wlt by simp
      then have "cdist mark ?w < ?cap" using capacity_pos [OF P(1)] by simp
      then have "stretch sh' mark = stretch sh mark"
        using window_release [OF P(1), of "cdist mark ?w" "sp_buffer sh" ?d None]
        by (simp add: stretch_def sh'_def mark)
      then show ?thesis using stretch_suffix [OF a(1), of sh] stretch_suffix [OF a(1), of sh'] a(2)
        by (simp add: sh'_def)
    qed
    have lf: "live_from nd sh' = mark" using nd by (simp add: live_from_def sh'_def)
    have ple: "unat mark \<le> unat (gc_published c)" if c: "cs k = Some c" for k c
      using gate_room [OF ok c fit] full(1) um consumer_order(1) [OF ok c] d by linarith
    have g': "gate_ok sh' p' cs"
      by (rule gate_ok_cong [OF g]) (simp_all add: sh'_def p'_def)
    have sm: "stretch sh' mark = stretch sh mark" using um wlt by (intro rel) simp_all
    have snd: "spmc_sound nd sh' p' cs"
      unfolding spmc_sound_def lf sm
      using g' ple um wlt full(1) spmc_soundD(2,7) [OF ok] st d
      by (auto simp: sh'_def p'_def)
    have live: "spmc_live nd sh = [v] @ spmc_live nd sh'"
      using st v by (simp add: spmc_live_def d lf sm)
    have pend: "spmc_pending sh' c = spmc_pending sh c" if c: "cs k = Some c" for k c
    proof -
      have "unat mark \<le> unat (gc_read_cursor c)"
        using ple [OF c] consumer_order(2) [OF ok c] by linarith
      then show ?thesis using rel consumer_order(6) [OF ok c] by (simp add: spmc_pending_def)
    qed
    have room: "Suc (unat ?w - unat (live_from nd sh')) \<le> ?cap" using lf um full(1) wlt by simp
    show ?thesis
      using ps snd live pend room nd by (simp add: p'_def) (simp add: sh'_def)
  qed
qed

text \<open>Writing the slot at the write cursor and publishing it.\<close>

lemma spmc_write_ok:
  assumes ok: "spmc_sound nd sh p cs"
    and fit: "Suc (cdist (gp_cached_min p) (gp_next_seq p)) \<le> capacity_of (gs_mask sh)"
    and room: "nd \<Longrightarrow> Suc (unat (gs_write_cursor sh) - unat (live_from nd sh)) \<le> capacity_of (gs_mask sh)"
    and span: "Suc (unat (gs_write_cursor sh)) + 2 * capacity_of (gs_mask sh) < word_span"
    and w: "spmc_write v sh p = (sh', p')"
  shows "spmc_sound nd sh' p' cs" and "nd \<Longrightarrow> spmc_live nd sh' = spmc_live nd sh @ [v]"
    and "cs k = Some c \<Longrightarrow> spmc_pending sh' c = spmc_pending sh c @ [v]"
    and "unat (gs_write_cursor sh') = Suc (unat (gs_write_cursor sh))"
    and "gs_mask sh' = gs_mask sh" and "gs_closed sh' = gs_closed sh"
proof -
  note g = spmc_soundD(1) [OF ok]
  note P = producer_okD [OF gate_okD(1) [OF g]]
  let ?w = "gs_write_cursor sh" and ?cap = "capacity_of (gs_mask sh)"
  let ?sh1 = "sh\<lparr>sp_buffer := (sp_buffer sh)[sp_slot p := Some v]\<rparr>"
  have pb: "gate_publish 1 ?sh1 p = (sh', p')" using w by (simp add: spmc_write_def)
  have sh': "gs_mask sh' = gs_mask sh" "gs_write_cursor sh' = ?w + 1" "gs_closed sh' = gs_closed sh"
    "sp_buffer sh' = (sp_buffer sh)[slot_ix (gs_mask sh) ?w := Some v]"
    "sp_dropped_through sh' = sp_dropped_through sh" "sp_dropped_local p' = sp_dropped_local p"
    using pb P(2,4) by (auto simp: gate_publish_def Let_def sp_slot_def)
  have g1: "gate_ok ?sh1 p cs" by (rule gate_ok_cong [OF g]) simp_all
  have "gate_ok sh' p' cs"
    by (rule gate_publish_ok(1) [OF g1 _ _ pb]) (use fit span P(4) in simp_all)
  note g' = this
  have w1: "unat (?w + 1) = Suc (unat ?w)"
    using span unat_add_span [of ?w 1] by simp
  have ext: "stretch sh' a = stretch sh a @ [Some v]"
    if a: "unat a \<le> unat ?w" "Suc (unat ?w - unat a) \<le> ?cap" for a
  proof -
    have "cdist a (?w + 1) = Suc (cdist a ?w)" using a(1) w1 by (simp add: cdist_unat)
    moreover have "cdist a ?w < ?cap" using a by (simp add: cdist_unat)
    ultimately show ?thesis
      using window_write [OF P(1) spmc_soundD(2) [OF ok], of "cdist a ?w" a "Some v"] sh'
      by (simp add: stretch_def)
  qed
  have pub: "unat (gc_published c) \<le> unat ?w" "Suc (unat ?w - unat (gc_published c)) \<le> ?cap"
    if c: "cs k = Some c" for k c
    using consumer_order(2,6) [OF ok c] gate_room [OF ok c fit] by simp_all
  show pend: "spmc_pending sh' c = spmc_pending sh c @ [v]" if c: "cs k = Some c" for k c
  proof -
    have "Suc (unat ?w - unat (gc_read_cursor c)) \<le> ?cap"
      using pub [OF c] consumer_order(2) [OF ok c] by linarith
    then show ?thesis using ext consumer_order(6) [OF ok c] by (simp add: spmc_pending_def)
  qed
  show wc: "unat (gs_write_cursor sh') = Suc (unat ?w)" using sh' w1 by simp
  show "gs_mask sh' = gs_mask sh" "gs_closed sh' = gs_closed sh" by (rule sh', rule sh')
  have new: "live_from nd sh' = (if nd then live_from nd sh else of_nat (Suc (unat ?w) - ?cap))"
    using wc sh' by (simp add: live_from_def)
  have ul: "unat (of_nat (Suc (unat ?w) - ?cap) :: u64) = Suc (unat ?w) - ?cap"
    using span by (intro unat_of_nat_span) simp
  have lo: "unat (live_from nd sh) \<le> unat (live_from nd sh')"
    "Suc (unat ?w) - unat (live_from nd sh') \<le> ?cap" "unat (live_from nd sh') \<le> unat ?w"
    "\<And>k c. cs k = Some c \<Longrightarrow> unat (live_from nd sh') \<le> unat (gc_published c)"
  proof -
    have ul0: "unat (of_nat (unat ?w - ?cap) :: u64) = unat ?w - ?cap"
      using span by (intro unat_of_nat_span) simp
    show "unat (live_from nd sh) \<le> unat (live_from nd sh')"
    proof (cases nd)
      case False
      then show ?thesis unfolding new using ul ul0 by (simp add: live_from_def)
    next
      case True
      then show ?thesis unfolding new by simp
    qed
    show "Suc (unat ?w) - unat (live_from nd sh') \<le> ?cap"
      unfolding new using ul room spmc_soundD(4) [OF ok] by (cases nd) (simp_all add: Suc_diff_le)
    show "unat (live_from nd sh') \<le> unat ?w"
      unfolding new using ul spmc_soundD(4) [OF ok] capacity_pos [OF P(1)] by (cases nd) simp_all
    show "unat (live_from nd sh') \<le> unat (gc_published c)" if c: "cs k = Some c" for k c
      unfolding new using ul pub [OF c] spmc_soundD(6) [OF ok c] by (cases nd) simp_all
  qed
  have live: "stretch sh' (live_from nd sh') = stretch sh (live_from nd sh') @ [Some v]"
    using lo(2,3) by (intro ext) simp_all
  show "spmc_live nd sh' = spmc_live nd sh @ [v]" if nd
  proof -
    have "live_from nd sh' = live_from nd sh" unfolding new using that by simp
    then show ?thesis using live by (simp add: spmc_live_def)
  qed
  show "spmc_sound nd sh' p' cs"
    unfolding spmc_sound_def
  proof (intro conjI allI impI)
    show "gate_ok sh' p' cs" by (rule g')
    show "length (sp_buffer sh') = capacity_of (gs_mask sh')" using spmc_soundD(2) [OF ok] sh' by simp
    show "nd \<Longrightarrow> sp_dropped_local p' = sp_dropped_through sh'" using spmc_soundD(3) [OF ok] sh' by simp
    show "unat (live_from nd sh') \<le> unat (gs_write_cursor sh')" using lo(3) wc by simp
    show "unat (gs_write_cursor sh') - unat (live_from nd sh') \<le> capacity_of (gs_mask sh')"
      using lo(2) wc sh' by simp
    show "unat (live_from nd sh') \<le> unat (gc_published c)" if "cs k = Some c" for k c
      by (rule lo(4) [OF that])
    show "None \<notin> set (stretch sh' (live_from nd sh'))"
      using stretch_full [OF ok lo(1,3)] live by simp
  qed
qed

section \<open>The consumers' steps\<close>

lemma more_buffer:
  assumes "gate_shared.more sh' = gate_shared.more (sh :: 'a spmc_shared)"
  shows "sp_buffer sh' = sp_buffer sh" and "sp_dropped_through sh' = sp_dropped_through sh"
  using assms by (cases sh; cases sh'; simp)+

lemma gate_cstep_stretch:
  assumes "gate_cstep sh c sh' c'"
  shows "stretch sh' a = stretch sh a" and "live_from nd sh' = live_from nd sh"
    and "spmc_live nd sh' = spmc_live nd sh" and "spmc_pending sh' d = spmc_pending sh d"
proof -
  have e: "gs_mask sh' = gs_mask sh" "gs_write_cursor sh' = gs_write_cursor sh"
    "sp_buffer sh' = sp_buffer sh" "sp_dropped_through sh' = sp_dropped_through sh"
    using assms more_buffer [of sh' sh] by (simp_all add: gate_cstep_def)
  then show 1: "stretch sh' a = stretch sh a" for a by (simp add: stretch_def)
  show 2: "live_from nd sh' = live_from nd sh" using e by (simp add: live_from_def)
  show "spmc_live nd sh' = spmc_live nd sh" "spmc_pending sh' d = spmc_pending sh d"
    by (simp_all add: spmc_live_def spmc_pending_def 1 2)
qed

lemma spmc_cstep_ok:
  assumes ok: "spmc_sound nd sh p cs" and c: "cs k = Some c" and st: "gate_cstep sh c sh' c'"
  shows "spmc_sound nd sh' p (cs(k \<mapsto> c'))"
proof -
  have e: "gs_mask sh' = gs_mask sh" "gs_write_cursor sh' = gs_write_cursor sh"
    "sp_buffer sh' = sp_buffer sh" "sp_dropped_through sh' = sp_dropped_through sh"
    "unat (gc_published c) \<le> unat (gc_published c')"
    using st more_buffer [of sh' sh] by (simp_all add: gate_cstep_def)
  note S = gate_cstep_stretch [OF st]
  show ?thesis
    using ok gate_cstep_ok [OF spmc_soundD(1) [OF ok] c st] spmc_soundD(6) [OF ok c] e(5)
    by (auto simp: spmc_sound_def S e(1-4))
qed

lemma pending_Nil: "spmc_pending sh c = [] \<longleftrightarrow> gc_read_cursor c = gs_write_cursor sh"
  by (simp add: spmc_pending_def stretch_def window_def)

text \<open>The head of what is pending, at the read cursor.\<close>

lemma pending_unfold:
  assumes ok: "spmc_sound nd sh p cs" and c: "cs k = Some c" and ne: "gc_read_cursor c \<noteq> gs_write_cursor sh"
  shows "\<exists>v. sp_buffer sh ! sp_read_slot c = Some v
    \<and> spmc_pending sh c = v # spmc_pending sh (c\<lparr>gc_read_cursor := gc_read_cursor c + 1\<rparr>)"
proof -
  have m: "gc_mask c = gs_mask sh"
    by (rule consumer_okD(1) [OF gate_okD(3) [OF spmc_soundD(1) [OF ok] c]])
  have st: "stretch sh (gc_read_cursor c) = sp_buffer sh ! sp_read_slot c # stretch sh (gc_read_cursor c + 1)"
    using stretch_unfold [OF ne] m by (simp add: sp_read_slot_def)
  then obtain v where "sp_buffer sh ! sp_read_slot c = Some v"
    using consumer_order(7) [OF ok c] by (metis list.set_intros(1) option.exhaust)
  then show ?thesis using st by (simp add: spmc_pending_def)
qed

lemma spmc_read_ok:
  assumes ok: "spmc_sound nd sh p cs" and c: "cs k = Some c" and st: "gate_cstep sh c sh1 c1"
    and rd: "gc_read_cursor c1 = gc_read_cursor c"
    and lt: "unat (gc_read_cursor c1) < unat (gc_write_cache c1)"
  shows "\<exists>v rest. spmc_pending sh c = v # rest
    \<and> (if cp v then spmc_read cp sh1 c1 = Inr (Pop_unwound, sh1, c1)
       else \<exists>sh' c'. spmc_read cp sh1 c1 = Inr (Popped v, sh', c') \<and> gate_cstep sh c sh' c'
              \<and> spmc_pending sh' c' = rest
              \<and> (gc_published c' = gc_read_cursor c'
                 \<or> gc_read_cursor c' - gc_published c' < publish_batch_elems (gc_mask c + 1)))"
proof -
  note g = spmc_soundD(1) [OF ok]
  have e: "gs_write_cursor sh1 = gs_write_cursor sh" "gc_mask c1 = gc_mask c"
    "unat (gc_write_cache c1) \<le> unat (gs_write_cursor sh)" "sp_buffer sh1 = sp_buffer sh"
    using st more_buffer [of sh1 sh] by (simp_all add: gate_cstep_def)
  have ne: "gc_read_cursor c \<noteq> gs_write_cursor sh" using lt e(3) rd by auto
  obtain v where v: "sp_buffer sh ! sp_read_slot c = Some v"
    "spmc_pending sh c = v # spmc_pending sh (c\<lparr>gc_read_cursor := gc_read_cursor c + 1\<rparr>)"
    using pending_unfold [OF ok c ne] by blast
  have slot: "sp_buffer sh1 ! sp_read_slot c1 = Some v" using v(1) e rd by (simp add: sp_read_slot_def)
  obtain sh' c' where a: "gate_advance_one sh1 c1 = (sh', c')" by (rule prod.exhaust)
  note A = gate_advance_one_step [OF g c st lt a]
  have "unat (gc_read_cursor c + 1) = Suc (unat (gc_read_cursor c))"
  proof -
    have "unat (1 :: u64) = 1" by simp
    then have "unat (gc_read_cursor c) + unat (1 :: u64) < word_span"
      using lt unat_less_span [of "gc_write_cache c1"] unfolding rd by linarith
    from unat_add_span [OF this] show ?thesis by simp
  qed
  then have "gc_read_cursor c' = gc_read_cursor c + 1" using A(2) rd by (metis word_unat_eq_iff)
  then have "spmc_pending sh' c' = spmc_pending sh (c\<lparr>gc_read_cursor := gc_read_cursor c + 1\<rparr>)"
    using gate_cstep_stretch(4) [OF A(1)] by (simp add: spmc_pending_def gate_cstep_stretch(1) [OF A(1)])
  moreover have "cp v \<Longrightarrow> spmc_read cp sh1 c1 = Inr (Pop_unwound, sh1, c1)"
    "\<not> cp v \<Longrightarrow> spmc_read cp sh1 c1 = Inr (Popped v, sh', c')"
    using slot a by (simp_all add: spmc_read_def)
  ultimately show ?thesis using v(2) A(1,4) e(2) by auto
qed

text \<open>What \<open>try_pop\<close> reports, and what it leaves pending.\<close>

fun pop_spec :: "bool \<Rightarrow> ('a \<Rightarrow> bool) \<Rightarrow> 'a pop_result \<Rightarrow> 'a list \<Rightarrow> 'a list \<Rightarrow> bool" where
  "pop_spec closed cp (Popped v) q q' \<longleftrightarrow> q = v # q' \<and> \<not> cp v"
| "pop_spec closed cp Pop_empty q q' \<longleftrightarrow> q = [] \<and> q' = [] \<and> \<not> closed"
| "pop_spec closed cp Pop_closed q q' \<longleftrightarrow> q = [] \<and> q' = [] \<and> closed"
| "pop_spec closed cp Pop_unwound q q' \<longleftrightarrow> q' = q \<and> q \<noteq> [] \<and> cp (hd q)"

lemma spmc_try_pop_ok:
  assumes ok: "spmc_sound nd sh p cs" and c: "cs k = Some c"
  shows "\<exists>res sh' c'. spmc_try_pop cp (\<lambda>s. s) sh c = Inr (res, sh', c') \<and> gate_cstep sh c sh' c'
    \<and> pop_spec (gs_closed sh \<noteq> 0) cp res (spmc_pending sh c) (spmc_pending sh' c')"
proof -
  note g = spmc_soundD(1) [OF ok]
  obtain b c1 where h: "gate_has_item sh c = (b, c1)" by (rule prod.exhaust)
  note H = gate_has_item_spec [OF g c h]
  show ?thesis
  proof (cases b)
    case True
    obtain v rest where R: "spmc_pending sh c = v # rest"
      "if cp v then spmc_read cp sh c1 = Inr (Pop_unwound, sh, c1)
       else \<exists>sh' c'. spmc_read cp sh c1 = Inr (Popped v, sh', c') \<and> gate_cstep sh c sh' c'
              \<and> spmc_pending sh' c' = rest
              \<and> (gc_published c' = gc_read_cursor c'
                 \<or> gc_read_cursor c' - gc_published c' < publish_batch_elems (gc_mask c + 1))"
      using spmc_read_ok [OF ok c H(1,2) H(5) [OF True], of cp] by blast
    have p1: "spmc_pending sh c1 = spmc_pending sh c" using H(2) by (simp add: spmc_pending_def)
    show ?thesis
      using R h True H(1) p1 by (cases "cp v") (auto simp: spmc_try_pop_def Let_def)
  next
    case False
    have c1: "(cs(k \<mapsto> c1)) k = Some c1" by simp
    note g1 = gate_cstep_ok [OF g c H(1)]
    obtain cl c2 where cc: "gate_check_closed sh c1 = (cl, c2)" by (rule prod.exhaust)
    note C = gate_check_closed_spec [OF g1 c1 cc]
    have rd: "gc_read_cursor c = gs_write_cursor sh" using H(4) False by simp
    have q: "spmc_pending sh c = []" "spmc_pending sh c2 = []"
      using rd C(2) H(2) by (simp_all add: pending_Nil)
    have st: "gate_cstep sh c sh c2" by (rule gate_cstep_trans [OF H(1) C(1)])
    have cl: "cl \<longleftrightarrow> gs_closed sh \<noteq> 0" using C(3) H(2) rd by simp
    have "gate_available_cached c2 = 0" if "\<not> cl"
      using C(4) H(6) [OF False] that cl by (simp add: gate_available_cached_def)
    then show ?thesis
      using h False cc q st cl by (cases cl) (auto simp: spmc_try_pop_def Let_def)
  qed
qed

text \<open>The loop of \<open>drain\<close>.\<close>

lemma spmc_drain_loop_ok:
  assumes "None \<notin> set (stretch sh (gc_read_cursor c))" and "gc_mask c = gs_mask sh"
    and "count \<le> length (spmc_pending sh c)"
  shows "\<exists>vs c'. spmc_drain_loop count unwinds (sp_buffer sh) c = Inr (vs, c')
    \<and> length vs \<le> count \<and> c' = c\<lparr>gc_read_cursor := gc_read_cursor c + of_nat (length vs)\<rparr>
    \<and> spmc_pending sh c = vs @ spmc_pending sh c'
    \<and> ((\<forall>v\<in>set (take count (spmc_pending sh c)). \<not> unwinds v) \<longrightarrow> length vs = count)
    \<and> (0 < count \<longrightarrow> vs \<noteq> [])"
  using assms
proof (induction count arbitrary: c)
  case (Suc count)
  let ?c1 = "c\<lparr>gc_read_cursor := gc_read_cursor c + 1\<rparr>"
  have "spmc_pending sh c \<noteq> []" using Suc.prems(3) by auto
  then have ne: "gc_read_cursor c \<noteq> gs_write_cursor sh" by (simp add: pending_Nil)
  have st: "stretch sh (gc_read_cursor c) = sp_buffer sh ! sp_read_slot c # stretch sh (gc_read_cursor c + 1)"
    using stretch_unfold [OF ne] Suc.prems(2) by (simp add: sp_read_slot_def)
  then obtain v where v: "sp_buffer sh ! sp_read_slot c = Some v"
    using Suc.prems(1) by (metis list.set_intros(1) option.exhaust)
  have q: "spmc_pending sh c = v # spmc_pending sh ?c1" using st v by (simp add: spmc_pending_def)
  show ?case
  proof (cases "unwinds v")
    case True
    then show ?thesis using v q by (simp add: Let_def)
  next
    case False
    have "\<exists>vs c'. spmc_drain_loop count unwinds (sp_buffer sh) ?c1 = Inr (vs, c')
      \<and> length vs \<le> count \<and> c' = ?c1\<lparr>gc_read_cursor := gc_read_cursor ?c1 + of_nat (length vs)\<rparr>
      \<and> spmc_pending sh ?c1 = vs @ spmc_pending sh c'
      \<and> ((\<forall>v\<in>set (take count (spmc_pending sh ?c1)). \<not> unwinds v) \<longrightarrow> length vs = count)
      \<and> (0 < count \<longrightarrow> vs \<noteq> [])"
      by (rule Suc.IH) (use Suc.prems st q in simp_all)
    then obtain vs c' where L: "spmc_drain_loop count unwinds (sp_buffer sh) ?c1 = Inr (vs, c')"
      "length vs \<le> count" "c' = ?c1\<lparr>gc_read_cursor := gc_read_cursor ?c1 + of_nat (length vs)\<rparr>"
      "spmc_pending sh ?c1 = vs @ spmc_pending sh c'"
      "(\<forall>v\<in>set (take count (spmc_pending sh ?c1)). \<not> unwinds v) \<longrightarrow> length vs = count" by blast
    have "spmc_drain_loop (Suc count) unwinds (sp_buffer sh) c = Inr (v # vs, c')"
      using v False L(1) by (simp add: Let_def)
    moreover have "c' = c\<lparr>gc_read_cursor := gc_read_cursor c + of_nat (length (v # vs))\<rparr>"
      using L(3) by (simp add: ac_simps)
    moreover have "spmc_pending sh c = (v # vs) @ spmc_pending sh c'" using q L(4) by simp
    moreover have "length (v # vs) \<le> Suc count" using L(2) by simp
    moreover have "(\<forall>x\<in>set (take (Suc count) (spmc_pending sh c)). \<not> unwinds x) \<longrightarrow> length (v # vs) = Suc count"
      using L(5) q by simp
    ultimately show ?thesis by blast
  qed
qed simp

lemma length_pending:
  "spmc_sound nd sh p cs \<Longrightarrow> cs k = Some c \<Longrightarrow>
     length (spmc_pending sh c) = unat (gs_write_cursor sh) - unat (gc_read_cursor c)"
  using consumer_order(6) by (fastforce simp: spmc_pending_def stretch_def cdist_unat)

lemma spmc_drain_ok:
  assumes ok: "spmc_sound nd sh p cs" and c: "cs k = Some c"
  shows "\<exists>vs sh' c'. spmc_drain unwinds sh c = Inr (vs, sh', c') \<and> gate_cstep sh c sh' c'
    \<and> spmc_pending sh c = vs @ spmc_pending sh' c'
    \<and> length vs \<le> unat (publish_batch_elems (gc_mask c + 1))
    \<and> (spmc_pending sh c \<noteq> [] \<longrightarrow> vs \<noteq> [] \<and> gc_published c' = gc_read_cursor c')
    \<and> ((\<forall>v\<in>set (spmc_pending sh c). \<not> unwinds v) \<longrightarrow>
         length vs = min (length (spmc_pending sh c)) (unat (publish_batch_elems (gc_mask c + 1))))"
proof -
  note g = spmc_soundD(1) [OF ok]
  let ?w = "gs_write_cursor sh" and ?b = "publish_batch_elems (gc_mask c + 1)"
  define c1 where "c1 = c\<lparr>gc_write_cache := ?w\<rparr>"
  have st1: "gate_cstep sh c sh c1" unfolding c1_def by (rule gate_refresh_step [OF g c])
  have rd1: "gc_read_cursor c1 = gc_read_cursor c" "gc_mask c1 = gc_mask c" by (simp_all add: c1_def)
  have p1: "spmc_pending sh c1 = spmc_pending sh c" by (simp add: spmc_pending_def rd1)
  have av: "unat (?w - gc_read_cursor c) = length (spmc_pending sh c)"
    using length_pending [OF ok c] cdist_unat [OF consumer_order(6) [OF ok c]] by (simp add: cdist_def)
  show ?thesis
  proof (cases "?w - gc_read_cursor c = 0")
    case True
    then have q: "spmc_pending sh c = []" by (simp add: pending_Nil)
    have "spmc_drain unwinds sh c = Inr ([], sh, c1)"
      using True by (simp add: spmc_drain_def gate_refresh_def c1_def)
    then show ?thesis using st1 p1 q by simp
  next
    case False
    let ?count = "min (?w - gc_read_cursor c) ?b"
    have uc: "unat ?count = min (length (spmc_pending sh c)) (unat ?b)"
      using av by (simp add: min_def word_le_nat_alt)
    have mk: "gc_mask c1 = gs_mask sh"
      using consumer_okD(1) [OF gate_okD(3) [OF g c]] rd1 by simp
    have full: "None \<notin> set (stretch sh (gc_read_cursor c1))"
      using consumer_order(7) [OF ok c] rd1 by simp
    have le: "unat ?count \<le> length (spmc_pending sh c1)" using uc p1 by simp
    obtain vs c2 where L: "spmc_drain_loop (unat ?count) unwinds (sp_buffer sh) c1 = Inr (vs, c2)"
      "length vs \<le> unat ?count" "c2 = c1\<lparr>gc_read_cursor := gc_read_cursor c1 + of_nat (length vs)\<rparr>"
      "spmc_pending sh c1 = vs @ spmc_pending sh c2"
      "(\<forall>v\<in>set (take (unat ?count) (spmc_pending sh c1)). \<not> unwinds v) \<longrightarrow> length vs = unat ?count"
      "0 < unat ?count \<longrightarrow> vs \<noteq> []"
      using spmc_drain_loop_ok [OF full mk le, of unwinds] by (elim exE conjE) (rule that)
    obtain sh' c' where f: "gate_flush_pending sh c2 = (sh', c')" by (rule prod.exhaust)
    have lv: "length vs \<le> length (spmc_pending sh c)" using L(2) uc by simp
    have ul: "unat (of_nat (length vs) :: u64) = length vs"
      using lv length_pending [OF ok c] unat_less_span [of ?w] by (intro unat_of_nat_span) linarith
    have st2: "gate_cstep sh c sh c2"
      unfolding L(3)
      by (rule gate_read_step(1) [OF g c st1])
        (use lv ul length_pending [OF ok c] consumer_order(6) [OF ok c] in \<open>simp add: c1_def\<close>)
    note F = gate_flush_pending_step [OF g c st2 f]
    have q': "spmc_pending sh' c' = spmc_pending sh c2"
      using F(2) by (simp add: spmc_pending_def gate_cstep_stretch(1) [OF F(1)])
    have dr: "spmc_drain unwinds sh c = Inr (vs, sh', c')"
      using False L(1) f by (simp add: spmc_drain_def gate_refresh_def Let_def rd1 flip: c1_def)
    have "0 < publish_batch_elems (gc_mask c + 1)"
      unfolding publish_batch_elems_def by (rule publish_batch_bounds) (simp add: MAX_PUBLISH_BATCH_ELEMS_def)
    then have "0 < unat ?b" by (simp add: word_less_nat_alt)
    then have pos: "spmc_pending sh c \<noteq> [] \<longrightarrow> 0 < unat ?count" using uc by simp
    have all: "(\<forall>v\<in>set (spmc_pending sh c). \<not> unwinds v) \<longrightarrow> length vs = unat ?count"
      using L(5) p1 set_take_subset by fastforce
    have "spmc_pending sh c = vs @ spmc_pending sh' c'" using L(4) p1 q' by simp
    moreover have "length vs \<le> unat ?b" using L(2) uc by simp
    moreover have "spmc_pending sh c \<noteq> [] \<longrightarrow> vs \<noteq> [] \<and> gc_published c' = gc_read_cursor c'"
      using pos L(6) F(2,3) by simp
    ultimately show ?thesis using dr F(1) all unfolding uc by blast
  qed
qed

section \<open>Joining and leaving\<close>

lemma spmc_subscribe_ok:
  assumes ok: "spmc_sound nd sh p cs" and k: "cs k = None" and s: "gate_subscribe sh = (Inr c, sh')"
  shows "spmc_sound nd sh' p (cs(k \<mapsto> c))" and "spmc_live nd sh' = spmc_live nd sh"
    and "spmc_pending sh' d = spmc_pending sh d" and "spmc_pending sh' c = []"
proof -
  note g = spmc_soundD(1) [OF ok]
  note S = gate_subscribe_ok [OF g k s]
  have e: "sp_buffer sh' = sp_buffer sh" "sp_dropped_through sh' = sp_dropped_through sh"
    using more_buffer [OF S(9)] by simp_all
  have st: "stretch sh' a = stretch sh a" for a by (simp add: stretch_def S(6,7) e)
  have lf: "live_from nd sh' = live_from nd sh" by (simp add: live_from_def S(6,7) e)
  show "spmc_live nd sh' = spmc_live nd sh" "spmc_pending sh' d = spmc_pending sh d"
    by (simp_all add: spmc_live_def spmc_pending_def st lf)
  show "spmc_pending sh' c = []" using S(2,7) by (simp add: pending_Nil)
  show "spmc_sound nd sh' p (cs(k \<mapsto> c))"
    using ok S(1,3) spmc_soundD(4) [OF ok]
    by (auto simp: spmc_sound_def st lf S(6,7) e)
qed

lemma spmc_leave_ok:
  assumes ok: "spmc_sound nd sh p cs" and c: "cs k = Some c"
  defines "sh' \<equiv> gate_consumer_drop sh c"
  shows "spmc_sound nd sh' p (cs(k := None))" and "spmc_live nd sh' = spmc_live nd sh"
    and "spmc_pending sh' d = spmc_pending sh d" and "gs_mask sh' = gs_mask sh"
    and "gs_write_cursor sh' = gs_write_cursor sh" and "gs_closed sh' = gs_closed sh"
proof -
  note S = gate_consumer_drop_ok [OF spmc_soundD(1) [OF ok] c, folded sh'_def]
  have e: "sp_buffer sh' = sp_buffer sh" "sp_dropped_through sh' = sp_dropped_through sh"
    using more_buffer [OF S(5)] by simp_all
  have st: "stretch sh' a = stretch sh a" for a by (simp add: stretch_def S(2,3) e)
  have lf: "live_from nd sh' = live_from nd sh" by (simp add: live_from_def S(2,3) e)
  show "spmc_live nd sh' = spmc_live nd sh" "spmc_pending sh' d = spmc_pending sh d"
    by (simp_all add: spmc_live_def spmc_pending_def st lf)
  show "spmc_sound nd sh' p (cs(k := None))"
    using ok S(1) by (auto simp: spmc_sound_def st lf S(2,3) e split: if_splits)
  show "gs_mask sh' = gs_mask sh" "gs_write_cursor sh' = gs_write_cursor sh" "gs_closed sh' = gs_closed sh"
    by (rule S(2), rule S(3), rule S(4))
qed

text \<open>
  With other threads at work between the checks: \<open>Err(Closed)\<close> is reported only
  when the producer is gone and everything published has been received; a final
  message published just before the close is still delivered.
\<close>

lemma spmc_try_pop_race:
  assumes ok: "spmc_sound nd sh p cs" and c: "cs k = Some c"
    and h: "gate_has_item sh c = (False, c1)"
    and ok1: "spmc_sound nd (between sh) p1 cs1" and c1: "cs1 k = Some c1"
  shows "\<exists>res sh' c'. spmc_try_pop cp between sh c = Inr (res, sh', c')
    \<and> gate_cstep (between sh) c1 sh' c'
    \<and> (res = Pop_closed \<longleftrightarrow> gs_closed (between sh) \<noteq> 0 \<and> spmc_pending (between sh) c1 = [])
    \<and> (gs_closed (between sh) \<noteq> 0 \<and> spmc_pending (between sh) c1 \<noteq> [] \<longrightarrow>
         pop_spec True cp res (spmc_pending (between sh) c1) (spmc_pending sh' c'))"
proof -
  let ?s = "between sh"
  note g1 = spmc_soundD(1) [OF ok1]
  obtain cl c2 where cc: "gate_check_closed ?s c1 = (cl, c2)" by (rule prod.exhaust)
  note C = gate_check_closed_spec [OF g1 c1 cc]
  have q0: "spmc_pending ?s c1 = [] \<longleftrightarrow> gc_read_cursor c1 = gs_write_cursor ?s" by (rule pending_Nil)
  show ?thesis
  proof (cases "gs_closed ?s \<noteq> 0 \<and> gc_read_cursor c1 \<noteq> gs_write_cursor ?s")
    case True
    have cache: "gc_write_cache c2 = gs_write_cursor ?s" using C(5) True by blast
    have lt: "unat (gc_read_cursor c2) < unat (gc_write_cache c2)"
      using consumer_order(6) [OF ok1 c1] True C(2) cache
      by (metis le_neq_implies_less word_unat_eq_iff)
    obtain v rest where R: "spmc_pending ?s c1 = v # rest"
      "if cp v then spmc_read cp ?s c2 = Inr (Pop_unwound, ?s, c2)
       else \<exists>sh' c'. spmc_read cp ?s c2 = Inr (Popped v, sh', c') \<and> gate_cstep ?s c1 sh' c'
              \<and> spmc_pending sh' c' = rest
              \<and> (gc_published c' = gc_read_cursor c'
                 \<or> gc_read_cursor c' - gc_published c' < publish_batch_elems (gc_mask c1 + 1))"
      using spmc_read_ok [OF ok1 c1 C(1,2) lt, of cp] by blast
    have av: "gate_available_cached c2 \<noteq> 0" using lt by (auto simp: gate_available_cached_def)
    have "\<not> cl" using C(3) True by blast
    then have tp: "spmc_try_pop cp between sh c = spmc_read cp ?s c2"
      using h cc av by (simp add: spmc_try_pop_def Let_def)
    have p2: "spmc_pending ?s c2 = spmc_pending ?s c1" using C(2) by (simp add: spmc_pending_def)
    show ?thesis
    proof (cases "cp v")
      case True
      then show ?thesis using tp R C(1) p2 by simp
    next
      case False
      then obtain sh' c' where "spmc_read cp ?s c2 = Inr (Popped v, sh', c')"
        "gate_cstep ?s c1 sh' c'" "spmc_pending sh' c' = rest" using R(2) by auto
      then show ?thesis using tp R(1) False by simp
    qed
  next
    case False
    show ?thesis
    proof (cases cl)
      case True
      then have "spmc_try_pop cp between sh c = Inr (Pop_closed, ?s, c2)"
        using h cc by (simp add: spmc_try_pop_def Let_def)
      then show ?thesis using C(1,3) True q0 by simp
    next
      case False': False
      have op: "gs_closed ?s = 0" using False False' C(3) by blast
      then have "c2 = c1" by (rule C(4))
      moreover have "gate_available_cached c1 = 0"
        using gate_has_item_spec(6) [OF spmc_soundD(1) [OF ok] c h] by (simp add: gate_available_cached_def)
      ultimately have "spmc_try_pop cp between sh c = Inr (Pop_empty, ?s, c1)"
        using h cc False' by (simp add: spmc_try_pop_def Let_def)
      then show ?thesis using gate_cstep_refl [OF g1 c1] op by simp
    qed
  qed
qed

text \<open>Scribbling on the claimed slot before committing or abandoning it.\<close>

lemma uninit_write_ok:
  assumes ok: "spmc_sound nd sh p cs"
    and fit: "Suc (cdist (gp_cached_min p) (gp_next_seq p)) \<le> capacity_of (gs_mask sh)"
    and room: "nd \<Longrightarrow> Suc (unat (gs_write_cursor sh) - unat (live_from nd sh)) \<le> capacity_of (gs_mask sh)"
    and sh'_def: "sh' = spmc_uninit_write x sh p"
  shows "spmc_sound nd sh' p cs" and "nd \<Longrightarrow> spmc_live nd sh' = spmc_live nd sh"
    and "cs k = Some c \<Longrightarrow> spmc_pending sh' c = spmc_pending sh c"
proof -
  note g = spmc_soundD(1) [OF ok]
  note P = producer_okD [OF gate_okD(1) [OF g]]
  let ?w = "gs_write_cursor sh" and ?cap = "capacity_of (gs_mask sh)"
  have e: "sh' = sh\<lparr>sp_buffer := (sp_buffer sh)[slot_ix (gs_mask sh) ?w := Some x]\<rparr>"
    by (simp add: sh'_def spmc_uninit_write_def sp_slot_def P(2,4))
  have same: "stretch sh' a = stretch sh a" if a: "unat a \<le> unat ?w" "Suc (unat ?w - unat a) \<le> ?cap" for a
    using window_write_outside [OF P(1) order_refl, of "cdist a ?w" "sp_buffer sh" a "Some x"] a
    by (simp add: stretch_def e cdist_unat)
  have sub: "set (stretch sh' a) \<subseteq> insert (Some x) (set (stretch sh a))" for a
  proof
    fix y assume "y \<in> set (stretch sh' a)"
    then obtain i where i: "i < cdist a ?w" "y = sp_buffer sh' ! slot_ix (gs_mask sh) (a + of_nat i)"
      by (auto simp: stretch_def window_def e)
    have "y = Some x \<or> y = sp_buffer sh ! slot_ix (gs_mask sh) (a + of_nat i)"
      using i(2) spmc_soundD(2) [OF ok] slot_ix_less [OF P(1)] by (simp add: e nth_list_update)
    then show "y \<in> insert (Some x) (set (stretch sh a))"
      using i(1) by (auto simp: stretch_def window_def)
  qed
  have lf: "live_from nd sh' = live_from nd sh" by (simp add: live_from_def e)
  have full: "None \<notin> set (stretch sh' (live_from nd sh))"
    using sub spmc_soundD(7) [OF ok] by blast
  show "spmc_sound nd sh' p cs"
    unfolding spmc_sound_def
  proof (intro conjI allI impI)
    show "gate_ok sh' p cs" by (rule gate_ok_cong [OF g]) (simp_all add: e)
    show "None \<notin> set (stretch sh' (live_from nd sh'))" using full lf by simp
    show "unat (live_from nd sh') \<le> unat (gc_published c)" if "cs k = Some c" for k c
      unfolding lf by (rule spmc_soundD(6) [OF ok that])
  qed (use spmc_soundD(2-5) [OF ok] lf in \<open>simp_all add: e\<close>)
  show "spmc_live nd sh' = spmc_live nd sh" if nd
    using same [OF spmc_soundD(4) [OF ok] room [OF that]] lf by (simp add: spmc_live_def)
  show "spmc_pending sh' c = spmc_pending sh c" if c: "cs k = Some c"
  proof -
    have "Suc (unat ?w - unat (gc_read_cursor c)) \<le> ?cap"
      using gate_room [OF ok c fit] consumer_order(2) [OF ok c] by linarith
    then show ?thesis using same consumer_order(6) [OF ok c] by (simp add: spmc_pending_def)
  qed
qed

end
