(* ===== verification/Spmc_Properties.thy ===== *)
theory Spmc_Properties
  imports Spmc
begin

text \<open>
  Whole runs of a gating multi-consumer ring: any sequence of calls on the
  producer, on the consumers by id, and of subscriptions, departures and the
  close, as an instance of the multicast contract; and what the ring guarantees.
\<close>

section \<open>Runs\<close>

datatype 'a claim_use = Use_commit 'a | Use_init 'a | Use_abandon

datatype 'a spmc_op =
    Op_push 'a
  | Op_claim "'a option" "'a claim_use"
  | Op_subscribe
  | Op_pop nat
  | Op_ref nat bool
  | Op_drain nat "'a \<Rightarrow> bool"
  | Op_leave nat
  | Op_close

text \<open>
  What is done with a claimed slot, possibly after writing something into it:
  commit a value, initialise it in place and commit, or drop the claim.
\<close>

fun spmc_use ::
  "'a claim_use \<Rightarrow> 'a spmc_shared \<Rightarrow> spmc_producer \<Rightarrow> 'a mc_event \<times> 'a spmc_shared \<times> spmc_producer" where
  "spmc_use (Use_commit v) sh p = (Published v, spmc_commit v sh p)"
| "spmc_use (Use_init v) sh p = (Published v, spmc_commit_init (spmc_uninit_write v sh p) p)"
| "spmc_use Use_abandon sh p = (Quiet, sh, p)"

text \<open>
  One call on a ring; the second component of the state collects the values
  that overwriting has dropped. A call on a handle that no longer exists is
  \<open>Quiet\<close>.
\<close>

fun spmc_exec ::
  "bool \<Rightarrow> ('a \<Rightarrow> bool) \<Rightarrow> ('a \<Rightarrow> bool) \<Rightarrow> 'a spmc_op \<Rightarrow> 'a spmc \<times> 'a list
     \<Rightarrow> fault + 'a mc_event \<times> ('a spmc \<times> 'a list)" where
  "spmc_exec nd dp cp (Op_push v) (r, log) =
     (if gs_closed (sr_sh r) \<noteq> 0 then Inr (Quiet, r, log)
      else (case spmc_try_push nd dp v (sr_sh r) (sr_p r) of
              Inl f \<Rightarrow> Inl f
            | Inr (res, ds, sh, p) \<Rightarrow>
                Inr (if res = Pushed then Published v else Quiet, r\<lparr>sr_sh := sh, sr_p := p\<rparr>, log @ ds)))"
| "spmc_exec nd dp cp (Op_claim w use) (r, log) =
     (if gs_closed (sr_sh r) \<noteq> 0 then Inr (Quiet, r, log)
      else (case spmc_try_claim nd dp (sr_sh r) (sr_p r) of
              Inl f \<Rightarrow> Inl f
            | Inr (res, ds, sh, p) \<Rightarrow>
                (case (if res = Pushed
                       then spmc_use use (case w of None \<Rightarrow> sh | Some x \<Rightarrow> spmc_uninit_write x sh p) p
                       else (Quiet, sh, p)) of
                   (ev, sh1, p1) \<Rightarrow> Inr (ev, r\<lparr>sr_sh := sh1, sr_p := p1\<rparr>, log @ ds))))"
| "spmc_exec nd dp cp Op_subscribe (r, log) =
     (case gate_subscribe (sr_sh r) of
        (Inl e, sh) \<Rightarrow> Inr (Quiet, r, log)
      | (Inr c, sh) \<Rightarrow>
          Inr (Joined (sr_next r),
               r\<lparr>sr_sh := sh, sr_cs := (sr_cs r)(sr_next r \<mapsto> c), sr_next := Suc (sr_next r)\<rparr>, log))"
| "spmc_exec nd dp cp (Op_pop k) (r, log) =
     (case sr_cs r k of
        None \<Rightarrow> Inr (Quiet, r, log)
      | Some c \<Rightarrow>
          (case spmc_try_pop cp (\<lambda>s. s) (sr_sh r) c of
             Inl f \<Rightarrow> Inl f
           | Inr (res, sh, c') \<Rightarrow>
               Inr (case res of Popped v \<Rightarrow> Received k [v] | Pop_empty \<Rightarrow> Empty k
                              | Pop_closed \<Rightarrow> Closed_seen k | Pop_unwound \<Rightarrow> Quiet,
                    r\<lparr>sr_sh := sh, sr_cs := (sr_cs r)(k \<mapsto> c')\<rparr>, log)))"
| "spmc_exec nd dp cp (Op_ref k keep) (r, log) =
     (case sr_cs r k of
        None \<Rightarrow> Inr (Quiet, r, log)
      | Some c \<Rightarrow>
          (case spmc_try_pop_ref (sr_sh r) c of
             (res, c1) \<Rightarrow>
               (case res of
                  Popped _ \<Rightarrow>
                    (case spmc_deref (sr_sh r) c1 of
                       Inl f \<Rightarrow> Inl f
                     | Inr v \<Rightarrow>
                         (if keep then Inr (Quiet, r\<lparr>sr_cs := (sr_cs r)(k \<mapsto> c1)\<rparr>, log)
                          else (case spmc_popref_drop (sr_sh r) c1 of
                                  (sh, c') \<Rightarrow>
                                    Inr (Received k [v],
                                         r\<lparr>sr_sh := sh, sr_cs := (sr_cs r)(k \<mapsto> c')\<rparr>, log))))
                | Pop_closed \<Rightarrow> Inr (Closed_seen k, r\<lparr>sr_cs := (sr_cs r)(k \<mapsto> c1)\<rparr>, log)
                | _ \<Rightarrow> Inr (Empty k, r\<lparr>sr_cs := (sr_cs r)(k \<mapsto> c1)\<rparr>, log))))"
| "spmc_exec nd dp cp (Op_drain k unwinds) (r, log) =
     (case sr_cs r k of
        None \<Rightarrow> Inr (Quiet, r, log)
      | Some c \<Rightarrow>
          (case spmc_drain unwinds (sr_sh r) c of
             Inl f \<Rightarrow> Inl f
           | Inr (vs, sh, c') \<Rightarrow>
               Inr (Received k vs, r\<lparr>sr_sh := sh, sr_cs := (sr_cs r)(k \<mapsto> c')\<rparr>, log)))"
| "spmc_exec nd dp cp (Op_leave k) (r, log) =
     (case sr_cs r k of
        None \<Rightarrow> Inr (Quiet, r, log)
      | Some c \<Rightarrow>
          Inr (Left k, r\<lparr>sr_sh := gate_consumer_drop (sr_sh r) c, sr_cs := (sr_cs r)(k := None)\<rparr>, log))"
| "spmc_exec nd dp cp Op_close (r, log) =
     Inr (Shut, r\<lparr>sr_sh := gate_producer_drop (sr_sh r)\<rparr>, log)"

definition spmc_ok :: "bool \<Rightarrow> 'a spmc \<Rightarrow> bool" where
  "spmc_ok nd r \<longleftrightarrow> spmc_sound nd (sr_sh r) (sr_p r) (sr_cs r)
     \<and> (\<forall>k. sr_next r \<le> k \<longrightarrow> sr_cs r k = None)"

definition spmc_queues :: "'a spmc \<Rightarrow> nat \<Rightarrow> 'a list option" where
  "spmc_queues r k = map_option (spmc_pending (sr_sh r)) (sr_cs r k)"

text \<open>The state is sound and \<open>n\<close> more messages stay within the range of the cursors.\<close>

definition spmc_inv :: "bool \<Rightarrow> nat \<Rightarrow> 'a spmc \<times> 'a list \<Rightarrow> bool" where
  "spmc_inv nd n s \<longleftrightarrow> spmc_ok nd (fst s)
     \<and> unat (gs_write_cursor (sr_sh (fst s))) + n + 2 * capacity_of (gs_mask (sr_sh (fst s))) < word_span"

text \<open>What each call does: to the queues, to the live values, to the drop log.\<close>

definition exec_spec ::
  "bool \<Rightarrow> nat \<Rightarrow> 'a mc_event \<Rightarrow> 'a spmc \<times> 'a list \<Rightarrow> 'a spmc \<times> 'a list \<Rightarrow> bool" where
  "exec_spec nd n ev s s' \<longleftrightarrow> spmc_inv nd n s'
     \<and> mc_spec ev (spmc_queues (fst s)) (spmc_queues (fst s'))
     \<and> gs_mask (sr_sh (fst s')) = gs_mask (sr_sh (fst s))
     \<and> (nd \<longrightarrow> snd s' @ spmc_live nd (sr_sh (fst s'))
                = snd s @ spmc_live nd (sr_sh (fst s)) @ mc_published [ev])
     \<and> (\<not> nd \<longrightarrow> snd s' = snd s)
     \<and> (\<forall>k. ev = Joined k \<longrightarrow> k = sr_next (fst s))
     \<and> sr_next (fst s') = (case ev of Joined k \<Rightarrow> Suc k | _ \<Rightarrow> sr_next (fst s))"

lemma queues_same:
  assumes "\<And>k c. cs k = Some c \<Longrightarrow> spmc_pending sh' c = spmc_pending sh c"
  shows "spmc_queues (r\<lparr>sr_sh := sh', sr_p := p', sr_cs := cs\<rparr>) = (\<lambda>k. map_option (spmc_pending sh) (cs k))"
proof
  fix k show "spmc_queues (r\<lparr>sr_sh := sh', sr_p := p', sr_cs := cs\<rparr>) k = map_option (spmc_pending sh) (cs k)"
    using assms by (cases "cs k") (simp_all add: spmc_queues_def)
qed

text \<open>The producer's calls.\<close>

lemma exec_quiet:
  "spmc_inv nd (Suc n) (r, log) \<Longrightarrow> exec_spec nd n Quiet (r, log) (r, log)"
  by (simp add: exec_spec_def spmc_inv_def)

lemma exec_prepared:
  assumes inv: "spmc_inv nd (Suc n) (r, log)" and h: "gate_has_space 1 (sr_sh r) (sr_p r) = (True, p1)"
  shows "\<exists>ds unwound sh2 p2. prepare_slot nd dp (sr_sh r) p1 = Inr (ds, unwound, sh2, p2)
    \<and> exec_spec nd n Quiet (r, log) (r\<lparr>sr_sh := sh2, sr_p := p2\<rparr>, log @ ds)
    \<and> spmc_sound nd sh2 p2 (sr_cs r)
    \<and> (\<forall>x. spmc_sound nd (spmc_uninit_write x sh2 p2) p2 (sr_cs r)
          \<and> exec_spec nd n Quiet (r, log) (r\<lparr>sr_sh := spmc_uninit_write x sh2 p2, sr_p := p2\<rparr>, log @ ds)
          \<and> (\<forall>v. exec_spec nd n (Published v) (r, log)
                (r\<lparr>sr_sh := fst (spmc_write v (spmc_uninit_write x sh2 p2) p2),
                   sr_p := snd (spmc_write v (spmc_uninit_write x sh2 p2) p2)\<rparr>, log @ ds)))
    \<and> (\<forall>v. exec_spec nd n (Published v) (r, log)
          (r\<lparr>sr_sh := fst (spmc_write v sh2 p2), sr_p := snd (spmc_write v sh2 p2)\<rparr>, log @ ds))"
proof -
  let ?sh = "sr_sh r" and ?cs = "sr_cs r"
  have ok: "spmc_sound nd ?sh (sr_p r) ?cs" and nx: "\<forall>k. sr_next r \<le> k \<longrightarrow> ?cs k = None"
    and sp: "unat (gs_write_cursor ?sh) + Suc n + 2 * capacity_of (gs_mask ?sh) < word_span"
    using inv by (simp_all add: spmc_inv_def spmc_ok_def)
  note H = spmc_has_space_ok [OF ok h]
  have fit: "Suc (cdist (gp_cached_min p1) (gp_next_seq p1)) \<le> capacity_of (gs_mask ?sh)"
    using H(2,4) by simp
  obtain ds unwound sh2 p2 where D: "prepare_slot nd dp ?sh p1 = Inr (ds, unwound, sh2, p2)"
    "spmc_sound nd sh2 p2 ?cs" "nd \<longrightarrow> spmc_live nd ?sh = ds @ spmc_live nd sh2"
    "\<forall>k c. ?cs k = Some c \<longrightarrow> spmc_pending sh2 c = spmc_pending ?sh c"
    "nd \<longrightarrow> Suc (unat (gs_write_cursor ?sh) - unat (live_from nd sh2)) \<le> capacity_of (gs_mask ?sh)"
    "\<not> nd \<longrightarrow> ds = []"
    "gp_cached_min p2 = gp_cached_min p1" "gp_next_seq p2 = gp_next_seq p1"
    "gs_mask sh2 = gs_mask ?sh" "gs_write_cursor sh2 = gs_write_cursor ?sh" "gs_closed sh2 = gs_closed ?sh"
    using prepare_slot_ok [OF H(1) fit, of dp] by blast
  have fit2: "Suc (cdist (gp_cached_min p2) (gp_next_seq p2)) \<le> capacity_of (gs_mask sh2)"
    using fit D(7-9) by simp
  have room2: "Suc (unat (gs_write_cursor sh2) - unat (live_from nd sh2)) \<le> capacity_of (gs_mask sh2)" if nd
    using D(5,9,10) that by simp
  have old: "spmc_queues r = (\<lambda>k. map_option (spmc_pending ?sh) (?cs k))" by (simp add: spmc_queues_def fun_eq_iff)
  have quiet: "exec_spec nd n Quiet (r, log) (r\<lparr>sr_sh := sh3, sr_p := p2\<rparr>, log @ ds)"
    if s3: "spmc_sound nd sh3 p2 ?cs" "nd \<longrightarrow> spmc_live nd sh3 = spmc_live nd sh2"
      "\<forall>k c. ?cs k = Some c \<longrightarrow> spmc_pending sh3 c = spmc_pending ?sh c"
      "gs_mask sh3 = gs_mask ?sh" "gs_write_cursor sh3 = gs_write_cursor ?sh" "gs_closed sh3 = gs_closed ?sh" for sh3
  proof -
    have "spmc_queues (r\<lparr>sr_sh := sh3, sr_p := p2\<rparr>) = spmc_queues r"
      using queues_same [where cs = ?cs and sh' = sh3 and sh = ?sh and r = r and p' = p2] s3(3) old by simp
    then show ?thesis
      using s3 nx sp D(3,6) by (auto simp: exec_spec_def spmc_inv_def spmc_ok_def)
  qed
  have pub: "exec_spec nd n (Published v) (r, log)
      (r\<lparr>sr_sh := fst (spmc_write v sh3 p2), sr_p := snd (spmc_write v sh3 p2)\<rparr>, log @ ds)"
    if s3: "spmc_sound nd sh3 p2 ?cs" "nd \<longrightarrow> spmc_live nd sh3 = spmc_live nd sh2"
      "\<forall>k c. ?cs k = Some c \<longrightarrow> spmc_pending sh3 c = spmc_pending ?sh c"
      "gs_mask sh3 = gs_mask ?sh" "gs_write_cursor sh3 = gs_write_cursor ?sh" "gs_closed sh3 = gs_closed ?sh"
      "live_from nd sh3 = live_from nd sh2" for sh3 v
  proof -
    obtain sh' p' where w: "spmc_write v sh3 p2 = (sh', p')" by (rule prod.exhaust)
    have fit3: "Suc (cdist (gp_cached_min p2) (gp_next_seq p2)) \<le> capacity_of (gs_mask sh3)"
      using fit2 s3(4) D(9) by simp
    have room3: "Suc (unat (gs_write_cursor sh3) - unat (live_from nd sh3)) \<le> capacity_of (gs_mask sh3)" if nd
      using room2 [OF that] s3(4,5,7) D(9,10) by simp
    have span3: "Suc (unat (gs_write_cursor sh3)) + 2 * capacity_of (gs_mask sh3) < word_span"
      using sp s3(4,5) by simp
    note W = spmc_write_ok [OF s3(1) fit3 room3 span3 w]
    have q: "spmc_queues (r\<lparr>sr_sh := sh', sr_p := p'\<rparr>) k = map_option (\<lambda>xs. xs @ [v]) (spmc_queues r k)" for k
      using W(3) s3(3) by (cases "?cs k") (auto simp: spmc_queues_def)
    show ?thesis
      using W(1,2,4-6) s3(2,4-6) q sp nx D(3,6) unfolding w
      by (auto simp: exec_spec_def spmc_inv_def spmc_ok_def fun_eq_iff)
  qed
  have U: "spmc_sound nd (spmc_uninit_write x sh2 p2) p2 ?cs"
    "nd \<longrightarrow> spmc_live nd (spmc_uninit_write x sh2 p2) = spmc_live nd sh2"
    "\<forall>k c. ?cs k = Some c \<longrightarrow> spmc_pending (spmc_uninit_write x sh2 p2) c = spmc_pending ?sh c"
    "gs_mask (spmc_uninit_write x sh2 p2) = gs_mask ?sh"
    "gs_write_cursor (spmc_uninit_write x sh2 p2) = gs_write_cursor ?sh"
    "gs_closed (spmc_uninit_write x sh2 p2) = gs_closed ?sh"
    "live_from nd (spmc_uninit_write x sh2 p2) = live_from nd sh2" for x
    using uninit_write_ok [where x = x, OF D(2) fit2 room2 refl] D(4,9-11)
    by (simp_all add: spmc_uninit_write_def live_from_def)
  have d2: "nd \<longrightarrow> spmc_live nd sh2 = spmc_live nd sh2" by simp
  show ?thesis
    using D(1,2) quiet [OF D(2) d2 D(4,9-11)] pub [OF D(2) d2 D(4,9-11) refl]
      U(1) quiet [OF U(1-6)] pub [OF U(1-7)] by blast
qed

text \<open>The consumers' calls.\<close>

lemma exec_consumer:
  assumes inv: "spmc_inv nd (Suc n) (r, log)" and c: "sr_cs r k = Some c"
    and st: "gate_cstep (sr_sh r) c sh' c'"
    and q: "spmc_pending (sr_sh r) c = vs @ spmc_pending sh' c'"
  shows "exec_spec nd n (Received k vs) (r, log) (r\<lparr>sr_sh := sh', sr_cs := (sr_cs r)(k \<mapsto> c')\<rparr>, log)"
    and "vs = [] \<Longrightarrow> exec_spec nd n Quiet (r, log) (r\<lparr>sr_sh := sh', sr_cs := (sr_cs r)(k \<mapsto> c')\<rparr>, log)"
    and "spmc_pending (sr_sh r) c = [] \<Longrightarrow> ev \<in> {Empty k, Closed_seen k} \<Longrightarrow>
      exec_spec nd n ev (r, log) (r\<lparr>sr_sh := sh', sr_cs := (sr_cs r)(k \<mapsto> c')\<rparr>, log)"
proof -
  let ?r' = "r\<lparr>sr_sh := sh', sr_cs := (sr_cs r)(k \<mapsto> c')\<rparr>"
  have ok: "spmc_sound nd (sr_sh r) (sr_p r) (sr_cs r)" and nx: "\<forall>k. sr_next r \<le> k \<longrightarrow> sr_cs r k = None"
    and sp: "unat (gs_write_cursor (sr_sh r)) + Suc n + 2 * capacity_of (gs_mask (sr_sh r)) < word_span"
    using inv by (simp_all add: spmc_inv_def spmc_ok_def)
  have S: "spmc_sound nd sh' (sr_p r) ((sr_cs r)(k \<mapsto> c'))" by (rule spmc_cstep_ok [OF ok c st])
  have e: "gs_mask sh' = gs_mask (sr_sh r)" "gs_write_cursor sh' = gs_write_cursor (sr_sh r)"
    "gs_closed sh' = gs_closed (sr_sh r)"
    using st by (simp_all add: gate_cstep_def)
  have k: "k < sr_next r" using nx c by (metis not_le option.distinct(1))
  have i: "spmc_inv nd n (?r', log)"
    using S e nx k sp by (auto simp: spmc_inv_def spmc_ok_def)
  have qs: "spmc_queues ?r' = (spmc_queues r)(k \<mapsto> spmc_pending sh' c')"
  proof -
    have "spmc_pending sh' = spmc_pending (sr_sh r)" using gate_cstep_stretch(4) [OF st] by (rule ext)
    then show ?thesis by (intro ext) (simp add: spmc_queues_def)
  qed
  have l: "spmc_live b sh' = spmc_live b (sr_sh r)" for b by (rule gate_cstep_stretch(3) [OF st])
  have qk: "spmc_queues r k = Some (vs @ spmc_pending sh' c')" using c q by (simp add: spmc_queues_def)
  have base: "exec_spec nd n ev (r, log) (?r', log)"
    if "mc_spec ev (spmc_queues r) (spmc_queues ?r')" "mc_published [ev] = []" "\<forall>k. ev \<noteq> Joined k" for ev
    using i l e that by (cases ev) (simp_all add: exec_spec_def)
  show "exec_spec nd n (Received k vs) (r, log) (?r', log)"
    by (rule base) (use qk qs in simp_all)
  have same: "spmc_queues ?r' = spmc_queues r" if "vs = []"
    using qk qs that by (simp add: fun_upd_idem)
  show "exec_spec nd n Quiet (r, log) (?r', log)" if "vs = []"
    by (rule base) (use same that in simp_all)
  show "exec_spec nd n ev (r, log) (?r', log)"
    if "spmc_pending (sr_sh r) c = []" "ev \<in> {Empty k, Closed_seen k}"
    by (rule base) (use same that qk q in auto)
qed

lemma spmc_try_pop_ref_ok:
  assumes ok: "spmc_sound nd sh p cs" and c: "cs k = Some c"
  shows "\<exists>res c'. spmc_try_pop_ref sh c = (res, c') \<and> gate_cstep sh c sh c'
    \<and> gc_read_cursor c' = gc_read_cursor c
    \<and> (case res of
         Popped _ \<Rightarrow> unat (gc_read_cursor c') < unat (gc_write_cache c') \<and> spmc_pending sh c \<noteq> []
       | Pop_empty \<Rightarrow> spmc_pending sh c = [] \<and> gs_closed sh = 0
       | Pop_closed \<Rightarrow> spmc_pending sh c = [] \<and> gs_closed sh \<noteq> 0
       | Pop_unwound \<Rightarrow> False)"
proof -
  note g = spmc_soundD(1) [OF ok]
  obtain b c1 where h: "gate_has_item sh c = (b, c1)" by (rule prod.exhaust)
  note H = gate_has_item_spec [OF g c h]
  show ?thesis
  proof (cases b)
    case True
    have "spmc_pending sh c \<noteq> []" using H(4) True by (simp add: pending_Nil)
    then show ?thesis using h True H(1,2) H(5) [OF True] by (simp add: spmc_try_pop_ref_def)
  next
    case False
    have c1: "(cs(k \<mapsto> c1)) k = Some c1" by simp
    note g1 = gate_cstep_ok [OF g c H(1)]
    obtain cl c2 where cc: "gate_check_closed sh c1 = (cl, c2)" by (rule prod.exhaust)
    note C = gate_check_closed_spec [OF g1 c1 cc]
    have rd: "gc_read_cursor c = gs_write_cursor sh" using H(4) False by simp
    then have q: "spmc_pending sh c = []" by (simp add: pending_Nil)
    have st: "gate_cstep sh c sh c2" by (rule gate_cstep_trans [OF H(1) C(1)])
    have cl: "cl \<longleftrightarrow> gs_closed sh \<noteq> 0" using C(3) H(2) rd by simp
    have "gate_available_cached c2 = 0" if "\<not> cl"
      using C(4) H(6) [OF False] that cl by (simp add: gate_available_cached_def)
    then show ?thesis
      using h False cc q st cl C(2) H(2) by (cases cl) (auto simp: spmc_try_pop_ref_def)
  qed
qed

lemma spmc_deref_ok:
  assumes ok: "spmc_sound nd sh p cs" and c: "cs k = Some c" and st: "gate_cstep sh c sh c1"
    and rd: "gc_read_cursor c1 = gc_read_cursor c"
    and lt: "unat (gc_read_cursor c1) < unat (gc_write_cache c1)"
  shows "\<exists>v sh' c'. spmc_deref sh c1 = Inr v \<and> spmc_popref_drop sh c1 = (sh', c')
    \<and> gate_cstep sh c sh' c' \<and> spmc_pending sh c = v # spmc_pending sh' c'"
proof -
  obtain v rest where R: "spmc_pending sh c = v # rest"
    "\<exists>sh' c'. spmc_read (\<lambda>_. False) sh c1 = Inr (Popped v, sh', c') \<and> gate_cstep sh c sh' c'
       \<and> spmc_pending sh' c' = rest"
    using spmc_read_ok [OF ok c st rd lt, of "\<lambda>_. False"] by auto
  then show ?thesis
    by (auto simp: spmc_read_def spmc_deref_def spmc_popref_drop_def split: option.splits)
qed

text \<open>Every call satisfies its specification and none faults.\<close>

lemma spmc_exec_ok:
  assumes inv: "spmc_inv nd (Suc n) s"
  shows "\<exists>ev s'. spmc_exec nd dp cp x s = Inr (ev, s') \<and> exec_spec nd n ev s s'"
proof -
  obtain r log where s: "s = (r, log)" by (rule prod.exhaust)
  note inv = inv [unfolded s]
  let ?sh = "sr_sh r" and ?cs = "sr_cs r"
  have ok: "spmc_sound nd ?sh (sr_p r) ?cs" and nx: "\<forall>k. sr_next r \<le> k \<longrightarrow> ?cs k = None"
    and sp: "unat (gs_write_cursor ?sh) + Suc n + 2 * capacity_of (gs_mask ?sh) < word_span"
    using inv by (simp_all add: spmc_inv_def spmc_ok_def)
  note quiet = exec_quiet [OF inv]
  obtain free p1 where h: "gate_has_space 1 ?sh (sr_p r) = (free, p1)" by (rule prod.exhaust)
  have refused: "exec_spec nd n Quiet (r, log) (r\<lparr>sr_sh := ?sh, sr_p := p1\<rparr>, log)"
  proof -
    have "spmc_sound nd ?sh p1 ?cs" by (rule spmc_has_space_ok(1) [OF ok h])
    moreover have "spmc_queues (r\<lparr>sr_p := p1\<rparr>) = spmc_queues r" by (simp add: spmc_queues_def fun_eq_iff)
    ultimately show ?thesis using nx sp by (simp add: exec_spec_def spmc_inv_def spmc_ok_def)
  qed
  show ?thesis
    unfolding s
  proof (cases x)
    case (Op_push v)
    consider "gs_closed ?sh \<noteq> 0" | "gs_closed ?sh = 0" "\<not> free" | "gs_closed ?sh = 0" free by blast
    then show "\<exists>ev s'. spmc_exec nd dp cp x (r, log) = Inr (ev, s') \<and> exec_spec nd n ev (r, log) s'"
    proof cases
      case 1
      then show ?thesis using quiet Op_push by simp
    next
      case 2
      then show ?thesis using refused h Op_push by (simp add: spmc_try_push_def)
    next
      case 3
      have h': "gate_has_space 1 ?sh (sr_p r) = (True, p1)" using h 3 by simp
      obtain ds unwound sh2 p2 where P: "prepare_slot nd dp ?sh p1 = Inr (ds, unwound, sh2, p2)"
        "exec_spec nd n Quiet (r, log) (r\<lparr>sr_sh := sh2, sr_p := p2\<rparr>, log @ ds)"
        "\<forall>v. exec_spec nd n (Published v) (r, log)
          (r\<lparr>sr_sh := fst (spmc_write v sh2 p2), sr_p := snd (spmc_write v sh2 p2)\<rparr>, log @ ds)"
        using exec_prepared [OF inv h', of dp] by blast
      obtain sh3 p3 where w: "spmc_write v sh2 p2 = (sh3, p3)" by (rule prod.exhaust)
      show ?thesis
        using 3 h' P(1,2) P(3) [rule_format, of v] w Op_push
        by (cases unwound) (simp_all add: spmc_try_push_def)
    qed
  next
    case (Op_claim w use)
    consider "gs_closed ?sh \<noteq> 0" | "gs_closed ?sh = 0" "\<not> free" | "gs_closed ?sh = 0" free by blast
    then show "\<exists>ev s'. spmc_exec nd dp cp x (r, log) = Inr (ev, s') \<and> exec_spec nd n ev (r, log) s'"
    proof cases
      case 1
      then show ?thesis using quiet Op_claim by simp
    next
      case 2
      then show ?thesis using refused h Op_claim by (simp add: spmc_try_claim_def)
    next
      case 3
      have h': "gate_has_space 1 ?sh (sr_p r) = (True, p1)" using h 3 by simp
      obtain ds unwound sh2 p2 where P: "prepare_slot nd dp ?sh p1 = Inr (ds, unwound, sh2, p2)"
        "exec_spec nd n Quiet (r, log) (r\<lparr>sr_sh := sh2, sr_p := p2\<rparr>, log @ ds)"
        "\<forall>x. spmc_sound nd (spmc_uninit_write x sh2 p2) p2 ?cs
          \<and> exec_spec nd n Quiet (r, log) (r\<lparr>sr_sh := spmc_uninit_write x sh2 p2, sr_p := p2\<rparr>, log @ ds)
          \<and> (\<forall>v. exec_spec nd n (Published v) (r, log)
                (r\<lparr>sr_sh := fst (spmc_write v (spmc_uninit_write x sh2 p2) p2),
                   sr_p := snd (spmc_write v (spmc_uninit_write x sh2 p2) p2)\<rparr>, log @ ds))"
        "\<forall>v. exec_spec nd n (Published v) (r, log)
          (r\<lparr>sr_sh := fst (spmc_write v sh2 p2), sr_p := snd (spmc_write v sh2 p2)\<rparr>, log @ ds)"
        using exec_prepared [OF inv h', of dp] by blast
      define sh3 where "sh3 = (case w of None \<Rightarrow> sh2 | Some x \<Rightarrow> spmc_uninit_write x sh2 p2)"
      have Q: "exec_spec nd n Quiet (r, log) (r\<lparr>sr_sh := sh3, sr_p := p2\<rparr>, log @ ds)"
        using P(2,3) by (cases w) (simp_all add: sh3_def)
      have W: "exec_spec nd n (Published v) (r, log)
          (r\<lparr>sr_sh := fst (spmc_write v sh3 p2), sr_p := snd (spmc_write v sh3 p2)\<rparr>, log @ ds)" for v
        using P(3,4) by (cases w) (simp_all add: sh3_def)
      have init: "spmc_commit_init (spmc_uninit_write v sh3 p2) p2 = spmc_write v sh3 p2" for v
        by (simp add: spmc_commit_init_def spmc_uninit_write_def spmc_write_def)
      show ?thesis
      proof (cases unwound)
        case True
        then show ?thesis using 3 h' P(1,2) Op_claim by (simp add: spmc_try_claim_def)
      next
        case False
        have "\<exists>ev sh4 p4. spmc_use use sh3 p2 = (ev, sh4, p4)
            \<and> exec_spec nd n ev (r, log) (r\<lparr>sr_sh := sh4, sr_p := p4\<rparr>, log @ ds)"
        proof (cases use)
          case (Use_commit v)
          obtain sh4 p4 where "spmc_write v sh3 p2 = (sh4, p4)" by (rule prod.exhaust)
          then show ?thesis using W [of v] Use_commit by (simp add: spmc_commit_def)
        next
          case (Use_init v)
          obtain sh4 p4 where "spmc_write v sh3 p2 = (sh4, p4)" by (rule prod.exhaust)
          then show ?thesis using W [of v] Use_init init by simp
        next
          case Use_abandon
          then show ?thesis using Q by simp
        qed
        then show ?thesis
          using 3 h' P(1) False Op_claim by (auto simp: spmc_try_claim_def sh3_def)
      qed
    qed
  next
    case Op_subscribe
    obtain res sh' where g: "gate_subscribe ?sh = (res, sh')" by (rule prod.exhaust)
    show "\<exists>ev s'. spmc_exec nd dp cp x (r, log) = Inr (ev, s') \<and> exec_spec nd n ev (r, log) s'"
    proof (cases res)
      case (Inl e)
      then show ?thesis using g quiet Op_subscribe by simp
    next
      case (Inr c)
      have k: "?cs (sr_next r) = None" using nx by simp
      note S = spmc_subscribe_ok [OF ok k g [unfolded Inr]]
      note G = gate_subscribe_ok(6-8) [OF spmc_soundD(1) [OF ok] k g [unfolded Inr]]
      let ?r' = "r\<lparr>sr_sh := sh', sr_cs := ?cs(sr_next r \<mapsto> c), sr_next := Suc (sr_next r)\<rparr>"
      have q: "spmc_queues ?r' = (spmc_queues r)(sr_next r \<mapsto> [])"
      proof -
        have "spmc_pending sh' = spmc_pending ?sh" using S(3) by (rule ext)
        then show ?thesis using S(4) by (intro ext) (simp add: spmc_queues_def)
      qed
      have "exec_spec nd n (Joined (sr_next r)) (r, log) (?r', log)"
        using S(1,2) G q nx sp k
        by (auto simp: exec_spec_def spmc_inv_def spmc_ok_def spmc_queues_def)
      then show ?thesis using g Inr Op_subscribe by simp
    qed
  next
    case (Op_pop k)
    show "\<exists>ev s'. spmc_exec nd dp cp x (r, log) = Inr (ev, s') \<and> exec_spec nd n ev (r, log) s'"
    proof (cases "?cs k")
      case None
      then show ?thesis using quiet Op_pop by simp
    next
      case (Some c)
      obtain res sh' c' where T: "spmc_try_pop cp (\<lambda>s. s) ?sh c = Inr (res, sh', c')"
        "gate_cstep ?sh c sh' c'"
        "pop_spec (gs_closed ?sh \<noteq> 0) cp res (spmc_pending ?sh c) (spmc_pending sh' c')"
        using spmc_try_pop_ok [OF ok Some, of cp] by blast
      note E = exec_consumer [OF inv Some T(2)]
      show ?thesis
      proof (cases res)
        case (Popped v)
        then show ?thesis using E(1) [of "[v]"] T Some Op_pop by simp
      next
        case Pop_unwound
        then show ?thesis using E(2) [of "[]"] T Some Op_pop by simp
      next
        case Pop_empty
        then show ?thesis using E(3) [of "[]" "Empty k"] T Some Op_pop by simp
      next
        case Pop_closed
        then show ?thesis using E(3) [of "[]" "Closed_seen k"] T Some Op_pop by simp
      qed
    qed
  next
    case (Op_ref k keep)
    show "\<exists>ev s'. spmc_exec nd dp cp x (r, log) = Inr (ev, s') \<and> exec_spec nd n ev (r, log) s'"
    proof (cases "?cs k")
      case None
      then show ?thesis using quiet Op_ref by simp
    next
      case (Some c)
      obtain res c1 where T: "spmc_try_pop_ref ?sh c = (res, c1)" "gate_cstep ?sh c ?sh c1"
        "gc_read_cursor c1 = gc_read_cursor c"
        "case res of
           Popped _ \<Rightarrow> unat (gc_read_cursor c1) < unat (gc_write_cache c1) \<and> spmc_pending ?sh c \<noteq> []
         | Pop_empty \<Rightarrow> spmc_pending ?sh c = [] \<and> gs_closed ?sh = 0
         | Pop_closed \<Rightarrow> spmc_pending ?sh c = [] \<and> gs_closed ?sh \<noteq> 0
         | Pop_unwound \<Rightarrow> False"
        using spmc_try_pop_ref_ok [OF ok Some] by blast
      have p1: "spmc_pending ?sh c = [] @ spmc_pending ?sh c1" using T(3) by (simp add: spmc_pending_def)
      note E = exec_consumer [OF inv Some T(2) p1]
      have upd: "r\<lparr>sr_sh := ?sh, sr_cs := ?cs(k \<mapsto> c1)\<rparr> = r\<lparr>sr_cs := ?cs(k \<mapsto> c1)\<rparr>" by simp
      show ?thesis
      proof (cases res)
        case (Popped u)
        obtain v sh' c' where D: "spmc_deref ?sh c1 = Inr v" "spmc_popref_drop ?sh c1 = (sh', c')"
          "gate_cstep ?sh c sh' c'" "spmc_pending ?sh c = v # spmc_pending sh' c'"
          using spmc_deref_ok [OF ok Some T(2,3)] T(4) Popped by auto
        have "exec_spec nd n (Received k [v]) (r, log) (r\<lparr>sr_sh := sh', sr_cs := ?cs(k \<mapsto> c')\<rparr>, log)"
          by (rule exec_consumer(1) [OF inv Some D(3)]) (simp add: D(4))
        then show ?thesis using T(1) D(1,2) Popped E(2) upd Some Op_ref by (cases keep) simp_all
      next
        case Pop_empty
        then show ?thesis using T(1,4) E(3) [of "Empty k"] upd Some Op_ref by simp
      next
        case Pop_closed
        then show ?thesis using T(1,4) E(3) [of "Closed_seen k"] upd Some Op_ref by simp
      qed (use T(4) in simp)
    qed
  next
    case (Op_drain k unwinds)
    show "\<exists>ev s'. spmc_exec nd dp cp x (r, log) = Inr (ev, s') \<and> exec_spec nd n ev (r, log) s'"
    proof (cases "?cs k")
      case None
      then show ?thesis using quiet Op_drain by simp
    next
      case (Some c)
      obtain vs sh' c' where T: "spmc_drain unwinds ?sh c = Inr (vs, sh', c')" "gate_cstep ?sh c sh' c'"
        "spmc_pending ?sh c = vs @ spmc_pending sh' c'"
        using spmc_drain_ok [OF ok Some, of unwinds] by blast
      then show ?thesis using exec_consumer(1) [OF inv Some T(2,3)] Some Op_drain by simp
    qed
  next
    case (Op_leave k)
    show "\<exists>ev s'. spmc_exec nd dp cp x (r, log) = Inr (ev, s') \<and> exec_spec nd n ev (r, log) s'"
    proof (cases "?cs k")
      case None
      then show ?thesis using quiet Op_leave by simp
    next
      case (Some c)
      note L = spmc_leave_ok [OF ok Some]
      let ?r' = "r\<lparr>sr_sh := gate_consumer_drop ?sh c, sr_cs := ?cs(k := None)\<rparr>"
      have q: "spmc_queues ?r' = (spmc_queues r)(k := None)"
      proof -
        have "spmc_pending (gate_consumer_drop ?sh c) = spmc_pending ?sh" using L(3) by (rule ext)
        then show ?thesis by (intro ext) (simp add: spmc_queues_def)
      qed
      have "spmc_queues r k \<noteq> None" using Some by (simp add: spmc_queues_def)
      then have "exec_spec nd n (Left k) (r, log) (?r', log)"
        using L(1,2,4-6) q nx sp by (auto simp: exec_spec_def spmc_inv_def spmc_ok_def)
      then show ?thesis using Some Op_leave by simp
    qed
  next
    case Op_close
    let ?sh' = "gate_producer_drop ?sh"
    have e: "gs_mask ?sh' = gs_mask ?sh" "gs_write_cursor ?sh' = gs_write_cursor ?sh"
      "gs_registry ?sh' = gs_registry ?sh" "sp_buffer ?sh' = sp_buffer ?sh"
      "sp_dropped_through ?sh' = sp_dropped_through ?sh"
      by (simp_all add: gate_producer_drop_def)
    have st: "stretch ?sh' a = stretch ?sh a" for a by (simp add: stretch_def e)
    have lf: "live_from b ?sh' = live_from b ?sh" for b by (simp add: live_from_def e)
    have g: "gate_ok ?sh' (sr_p r) ?cs"
      by (rule gate_ok_cong [OF spmc_soundD(1) [OF ok]]) (simp_all add: e)
    have "spmc_sound nd ?sh' (sr_p r) ?cs"
      using ok g unfolding spmc_sound_def st lf e by blast
    moreover have "spmc_queues (r\<lparr>sr_sh := ?sh'\<rparr>) = spmc_queues r"
      by (simp add: spmc_queues_def fun_eq_iff spmc_pending_def [abs_def] st)
    ultimately have "exec_spec nd n Shut (r, log) (r\<lparr>sr_sh := ?sh'\<rparr>, log)"
      using nx sp by (simp add: exec_spec_def spmc_inv_def spmc_ok_def e spmc_live_def st lf)
    then show "\<exists>ev s'. spmc_exec nd dp cp x (r, log) = Inr (ev, s') \<and> exec_spec nd n ev (r, log) s'"
      using Op_close by simp
  qed
qed

interpretation spmc_mc: multicast "spmc_inv nd" "\<lambda>s. spmc_queues (fst s)" "spmc_exec nd dp cp"
proof unfold_locales
  fix n and s :: "'a spmc \<times> 'a list" and x assume "spmc_inv nd (Suc n) s"
  then show "\<exists>ev s'. spmc_exec nd dp cp x s = Inr (ev, s') \<and> spmc_inv nd n s'
      \<and> mc_spec ev (spmc_queues (fst s)) (spmc_queues (fst s'))"
    using spmc_exec_ok unfolding exec_spec_def by blast
qed

section \<open>Run facts\<close>

lemma mc_published_Cons: "mc_published (ev # evs) = mc_published [ev] @ mc_published evs"
  by (cases ev) simp_all

lemma spmc_run_facts:
  assumes "spmc_inv nd n s" and "length ops \<le> n" and "mc_run (spmc_exec nd dp cp) ops s = Inr (evs, s')"
  shows "spmc_ok nd (fst s')
    \<and> (nd \<longrightarrow> snd s' @ spmc_live nd (sr_sh (fst s')) = snd s @ spmc_live nd (sr_sh (fst s)) @ mc_published evs)
    \<and> (\<not> nd \<longrightarrow> snd s' = snd s)
    \<and> (\<forall>k. Joined k \<in> set evs \<longrightarrow> sr_next (fst s) \<le> k)
    \<and> (\<forall>evs1 k evs2. evs = evs1 @ Joined k # evs2 \<longrightarrow> Joined k \<notin> set evs2)"
  using assms
proof (induction ops arbitrary: n s evs)
  case Nil
  then show ?case by (simp add: spmc_inv_def)
next
  case (Cons x ops)
  obtain m where m: "n = Suc m" using Cons.prems(2) by (cases n) auto
  obtain ev s1 where 1: "spmc_exec nd dp cp x s = Inr (ev, s1)" "exec_spec nd m ev s s1"
    using spmc_exec_ok [OF Cons.prems(1) [unfolded m]] by blast
  obtain evs' where run: "mc_run (spmc_exec nd dp cp) ops s1 = Inr (evs', s')" and evs: "evs = ev # evs'"
    using Cons.prems(3) 1(1) by (auto split: sum.splits)
  have i1: "spmc_inv nd m s1" and j: "\<forall>k. ev = Joined k \<longrightarrow> k = sr_next (fst s)"
    and nxt: "sr_next (fst s1) = (case ev of Joined k \<Rightarrow> Suc k | _ \<Rightarrow> sr_next (fst s))"
    and lv: "nd \<longrightarrow> snd s1 @ spmc_live nd (sr_sh (fst s1)) = snd s @ spmc_live nd (sr_sh (fst s)) @ mc_published [ev]"
    and nl: "\<not> nd \<longrightarrow> snd s1 = snd s"
    using 1(2) unfolding exec_spec_def by blast+
  have "length ops \<le> m" using Cons.prems(2) m by simp
  note IH = Cons.IH [OF i1 this run]
  have le: "sr_next (fst s) \<le> sr_next (fst s1)" using nxt j by (cases ev) auto
  have jk: "sr_next (fst s) \<le> k" if "Joined k \<in> set evs" for k
    using that evs j IH le by (metis order_refl le_trans set_ConsD)
  have fresh: "Joined k \<notin> set evs2" if e: "evs = evs1 @ Joined k # evs2" for evs1 k evs2
  proof (cases evs1)
    case Nil
    then have "ev = Joined k" "evs' = evs2" using e evs by simp_all
    then have "sr_next (fst s1) = Suc k" "\<forall>l. Joined l \<in> set evs2 \<longrightarrow> sr_next (fst s1) \<le> l"
      using nxt IH by simp_all
    then show ?thesis by auto
  next
    case (Cons a es)
    then have "evs' = es @ Joined k # evs2" using e evs by simp
    then show ?thesis using IH by blast
  qed
  have acc: "nd \<longrightarrow> snd s' @ spmc_live nd (sr_sh (fst s')) = snd s @ spmc_live nd (sr_sh (fst s)) @ mc_published evs"
    using IH lv unfolding evs mc_published_Cons [of ev evs'] by (metis append.assoc)
  show ?case using IH acc nl jk fresh by metis
qed

text \<open>A new ring: empty, with consumer 0 attached.\<close>

lemma spmc_new_ok:
  assumes new: "spmc_new n = Inr r" and n: "m + 2 * capacity_of (gs_mask (sr_sh r)) < word_span"
  shows "spmc_inv nd m (r, [])" and "spmc_queues r = [0 \<mapsto> []]" and "spmc_live nd (sr_sh r) = []"
    and "gs_write_cursor (sr_sh r) = 0" and "gs_closed (sr_sh r) = 0" and "sr_next r = 1"
    and "2 \<le> capacity_of (gs_mask (sr_sh r))" and "unat n \<le> capacity_of (gs_mask (sr_sh r))"
proof -
  obtain capacity where rc: "round_capacity n 2 = Inr capacity"
    using new by (auto simp: spmc_new_def split: sum.splits)
  have "(2 :: usize) = 2 ^ 1" "(1 :: nat) < 64" by simp_all
  note R = round_capacity_pow2 [OF rc this]
  have cap: "capacity_of (capacity - 1) = unat capacity" by (simp add: capacity_of_def)
  have two: "2 \<le> unat capacity" using R(2) by (simp add: word_le_nat_alt)
  define sh where "sh = \<lparr>gs_mask = capacity - 1, gs_write_cursor = 0, gs_closed = 0,
      gs_registry = [chunk_new], gs_producer_notified = 0, gs_consumer_notified = 0,
      sp_buffer = replicate (unat capacity) (None :: 'a option), sp_dropped_through = 0\<rparr>"
  define p where "p = \<lparr>gp_mask = capacity - 1, gp_next_seq = 0, gp_cached_min = 0,
      gp_cached_cursors = [], sp_dropped_local = 0\<rparr>"
  obtain res sh1 where g: "gate_subscribe sh = (res, sh1)" by (rule prod.exhaust)
  obtain c where c: "res = Inr c" using g by (auto simp: gate_subscribe_def sh_def split: prod.splits)
  have r: "r = \<lparr>sr_sh = sh1, sr_p = p, sr_cs = Map.empty(0 \<mapsto> c), sr_next = 1\<rparr>"
    using new rc g c by (simp add: spmc_new_def sh_def p_def Let_def)
  have mk: "gs_mask sh1 = capacity - 1"
    using g c by (auto simp: gate_subscribe_def sh_def split: prod.splits)
  have small: "m + 2 * unat capacity < word_span" using n mk cap by (simp add: r)
  have g0: "gate_ok sh p Map.empty"
    using R(1) two small cap by (intro gate_ok_fresh) (simp_all add: sh_def p_def)
  have st: "stretch sh (live_from nd sh) = []" for nd
    by (simp add: stretch_def live_from_def sh_def)
  have s0: "spmc_sound nd sh p Map.empty"
    using g0 st cap by (simp add: spmc_sound_def live_from_def) (simp add: sh_def p_def)
  note S = spmc_subscribe_ok [where k = 0, OF s0 _ g [unfolded c], simplified]
  note G = gate_subscribe_ok [where k = 0, OF g0 _ g [unfolded c], simplified]
  have w: "gs_write_cursor sh1 = 0" using G by (simp add: sh_def)
  show "spmc_inv nd m (r, [])"
    using S(1) small mk cap w by (simp add: spmc_inv_def spmc_ok_def r)
  show "spmc_queues r = [0 \<mapsto> []]" using S(4) by (auto simp: spmc_queues_def r fun_eq_iff)
  show "spmc_live nd (sr_sh r) = []" using S(2) st by (simp add: r spmc_live_def)
  show "gs_write_cursor (sr_sh r) = 0" "sr_next r = 1" using w by (simp_all add: r)
  show "gs_closed (sr_sh r) = 0" using G by (simp add: sh_def r)
  show "2 \<le> capacity_of (gs_mask (sr_sh r))" "unat n \<le> capacity_of (gs_mask (sr_sh r))"
    using two R(3) mk cap by (simp_all add: r word_le_nat_alt)
qed

section \<open>Properties\<close>

text \<open>
  (C10) Lossless multicast. In any run of calls on a new ring no call faults, and
  every consumer, the first one and each one that subscribes, receives, in order
  and without a gap or a repetition, exactly the messages published while it is
  attached; what it has not received is what its handle still has pending. This
  holds with panicking destructors and clones, abandoned claims, forgotten
  guards, departures and the close anywhere in the run.
\<close>

theorem spmc_multicast:
  assumes new: "spmc_new n = Inr r0"
    and short: "length ops + 2 * capacity_of (gs_mask (sr_sh r0)) < 2 ^ 64"
  shows "\<exists>evs r log. mc_run (spmc_exec nd dp cp) ops (r0, []) = Inr (evs, r, log)
    \<and> (\<exists>rest. mc_audible 0 evs = mc_received 0 evs @ rest
          \<and> (\<forall>q. spmc_queues r 0 = Some q \<longrightarrow> rest = q))
    \<and> (\<forall>evs1 k evs2. evs = evs1 @ Joined k # evs2 \<longrightarrow>
          (\<exists>rest. mc_audible k evs2 = mc_received k evs2 @ rest
             \<and> (\<forall>q. spmc_queues r k = Some q \<longrightarrow> rest = q)))"
proof -
  note N = spmc_new_ok [OF new short [folded word_span_def]]
  obtain evs s where run: "mc_run (spmc_exec nd dp cp) ops (r0, []) = Inr (evs, s)"
    using spmc_mc.run_total [OF N(1) order_refl] by blast
  obtain r log where s: "s = (r, log)" by (rule prod.exhaust)
  note F = spmc_run_facts [OF N(1) order_refl run]
  have "Joined 0 \<notin> set evs" using F N(6) by fastforce
  then have "\<exists>rest. mc_audible 0 evs = mc_received 0 evs @ rest \<and> (\<forall>q. spmc_queues r 0 = Some q \<longrightarrow> rest = q)"
    using spmc_mc.run_received [OF N(1) order_refl run, of 0 "[]"] N(2) s by simp
  moreover have "\<exists>rest. mc_audible k evs2 = mc_received k evs2 @ rest \<and> (\<forall>q. spmc_queues r k = Some q \<longrightarrow> rest = q)"
    if e: "evs = evs1 @ Joined k # evs2" for evs1 k evs2
  proof -
    have "Joined k \<notin> set evs2" using F e by blast
    then show ?thesis using spmc_mc.run_joined [OF N(1) order_refl run e] s by simp
  qed
  ultimately show ?thesis using run s by blast
qed

definition spmc2 :: "nat spmc" where
  "spmc2 = projr (spmc_new 2)"

definition spmc_demo :: "nat spmc_op list" where
  "spmc_demo = [Op_push 1, Op_subscribe, Op_push 2, Op_push 3, Op_pop 0, Op_ref 1 False, Op_claim (Some 9) (Use_init 3),
     Op_pop 1, Op_drain 0 (\<lambda>_. False), Op_close, Op_pop 1, Op_pop 0]"

lemma spmc2_new: "spmc_new 2 = Inr spmc2"
proof -
  have "\<not> isl (spmc_new 2 :: fault + nat spmc)" by code_simp
  then show ?thesis unfolding spmc2_def by (rule sum.collapse(2) [symmetric])
qed

lemma spmc2_capacity: "capacity_of (gs_mask (sr_sh spmc2)) = 2"
  by code_simp

theorem spmc_multicast_witness:
  "\<exists>evs r log. mc_run (spmc_exec True (\<lambda>_. False) (\<lambda>_. False)) spmc_demo (spmc2, []) = Inr (evs, r, log)
    \<and> (\<exists>rest. mc_audible 0 evs = mc_received 0 evs @ rest
          \<and> (\<forall>q. spmc_queues r 0 = Some q \<longrightarrow> rest = q))
    \<and> (\<forall>evs1 k evs2. evs = evs1 @ Joined k # evs2 \<longrightarrow>
          (\<exists>rest. mc_audible k evs2 = mc_received k evs2 @ rest
             \<and> (\<forall>q. spmc_queues r k = Some q \<longrightarrow> rest = q)))"
proof (rule spmc_multicast [OF spmc2_new])
  show "length spmc_demo + 2 * capacity_of (gs_mask (sr_sh spmc2)) < 2 ^ 64"
    unfolding spmc2_capacity by (simp add: spmc_demo_def)
qed

lemma spmc_reach:
  assumes new: "spmc_new n = Inr r0"
    and short: "length ops + 2 * capacity_of (gs_mask (sr_sh r0)) < 2 ^ 64"
    and run: "mc_run (spmc_exec nd dp cp) ops (r0, []) = Inr (evs, r, log)"
  shows "spmc_sound nd (sr_sh r) (sr_p r) (sr_cs r)"
    and "nd \<Longrightarrow> log @ spmc_live nd (sr_sh r) = mc_published evs" and "\<not> nd \<Longrightarrow> log = []"
  using spmc_run_facts [OF spmc_new_ok(1) [OF new short [folded word_span_def]] order_refl run]
    spmc_new_ok(3) [OF new short [folded word_span_def]]
  by (simp_all add: spmc_ok_def)

text \<open>
  (C11) Exactly-once destruction. Whatever the run, the values dropped by
  overwriting followed by the values dropped when the shared state goes are the
  published values, each once and in order; a type without a destructor has
  nothing dropped. A destructor that panics and a claim that is abandoned do not
  change this.
\<close>

theorem spmc_drops_exact:
  assumes new: "spmc_new n = Inr r0"
    and short: "length ops + 2 * capacity_of (gs_mask (sr_sh r0)) < 2 ^ 64"
    and run: "mc_run (spmc_exec nd dp cp) ops (r0, []) = Inr (evs, r, log)"
  shows "\<exists>torn. spmc_shared_drop nd (sr_sh r) = Inr torn
    \<and> log @ torn = (if nd then mc_published evs else [])"
proof (cases nd)
  case True
  note R = spmc_reach [OF assms]
  have "None \<notin> set (stretch (sr_sh r) (sp_dropped_through (sr_sh r)))"
    using spmc_soundD(7) [OF R(1)] True by (simp add: live_from_def)
  then have "spmc_shared_drop nd (sr_sh r) = Inr (spmc_live nd (sr_sh r))"
    using drop_range_window True
    by (simp add: spmc_shared_drop_def spmc_live_def live_from_def stretch_def)
  then show ?thesis using R(2) True by simp
next
  case False
  then show ?thesis using spmc_reach(3) [OF assms] by (simp add: spmc_shared_drop_def)
qed

text \<open>
  The consumer a call is made on. While a guard (\<open>PopRef\<close>) of a consumer is
  alive the consumer is mutably borrowed, so every call that can happen is one
  that is not on it.
\<close>

fun spmc_callee :: "'a spmc_op \<Rightarrow> nat option" where
  "spmc_callee (Op_pop k) = Some k"
| "spmc_callee (Op_ref k keep) = Some k"
| "spmc_callee (Op_drain k unwinds) = Some k"
| "spmc_callee (Op_leave k) = Some k"
| "spmc_callee _ = None"

fun event_of :: "'a mc_event \<Rightarrow> nat option" where
  "event_of (Received k xs) = Some k"
| "event_of (Empty k) = Some k"
| "event_of (Closed_seen k) = Some k"
| "event_of (Left k) = Some k"
| "event_of _ = None"

lemma spmc_use_event: "event_of (fst (spmc_use use sh p)) = None" "fst (spmc_use use sh p) \<noteq> Joined k"
  by (cases use; simp)+

text \<open>A call that is not on consumer \<open>k\<close> leaves its handle alone and reports nothing about it.\<close>

lemma spmc_exec_others:
  assumes run: "spmc_exec nd dp cp x (r, log) = Inr (ev, r', log')" and x: "spmc_callee x \<noteq> Some k"
    and k: "k \<noteq> sr_next r"
  shows "sr_cs r' k = sr_cs r k \<and> event_of ev \<noteq> Some k \<and> ev \<noteq> Joined k"
proof (cases x)
  case (Op_push v)
  then show ?thesis using run by (auto split: if_splits sum.splits prod.splits)
next
  case (Op_claim w use)
  show ?thesis
  proof (cases "gs_closed (sr_sh r) \<noteq> 0")
    case True
    then show ?thesis using run Op_claim by simp
  next
    case False
    then obtain res ds sh p where t: "spmc_try_claim nd dp (sr_sh r) (sr_p r) = Inr (res, ds, sh, p)"
      using run Op_claim by (auto split: sum.splits)
    let ?u = "if res = Pushed then spmc_use use (case w of None \<Rightarrow> sh | Some y \<Rightarrow> spmc_uninit_write y sh p) p
      else (Quiet, sh, p)"
    obtain e sh1 p1 where u: "?u = (e, sh1, p1)" by (rule prod_cases3)
    have "ev = e" "r' = r\<lparr>sr_sh := sh1, sr_p := p1\<rparr>"
      using run Op_claim False t u by simp_all
    moreover have "event_of e = None" "e \<noteq> Joined k"
      using spmc_use_event [of use "case w of None \<Rightarrow> sh | Some y \<Rightarrow> spmc_uninit_write y sh p" p] u
      by (auto split: if_splits)
    ultimately show ?thesis by simp
  qed
next
  case Op_subscribe
  then show ?thesis using run k by (auto split: sum.splits prod.splits)
next
  case (Op_pop j)
  then show ?thesis using run x
    by (auto split: option.splits sum.splits prod.splits pop_result.splits)
next
  case (Op_ref j keep)
  then show ?thesis using run x
    by (auto split: option.splits sum.splits prod.splits pop_result.splits if_splits)
next
  case (Op_drain j unwinds)
  then show ?thesis using run x by (auto split: option.splits sum.splits prod.splits)
next
  case (Op_leave j)
  then show ?thesis using run x by (auto split: option.splits)
next
  case Op_close
  then show ?thesis using run by auto
qed

lemma mc_spec_others:
  assumes "mc_spec ev q q'" and "event_of ev \<noteq> Some k" and "ev \<noteq> Joined k" and "q k = Some xs"
  shows "\<exists>new. q' k = Some (xs @ new)"
  using assms by (cases ev) auto

lemma spmc_run_others:
  assumes "spmc_inv nd n s" and "length ops \<le> n" and "mc_run (spmc_exec nd dp cp) ops s = Inr (evs, s')"
    and "\<forall>x\<in>set ops. spmc_callee x \<noteq> Some k" and "sr_cs (fst s) k = Some c"
  shows "spmc_ok nd (fst s') \<and> sr_cs (fst s') k = Some c
    \<and> (\<exists>new. spmc_pending (sr_sh (fst s')) c = spmc_pending (sr_sh (fst s)) c @ new)"
  using assms
proof (induction ops arbitrary: n s evs)
  case Nil
  then show ?case by (simp add: spmc_inv_def)
next
  case (Cons x ops)
  obtain m where m: "n = Suc m" using Cons.prems(2) by (cases n) auto
  obtain ev s1 where 1: "spmc_exec nd dp cp x s = Inr (ev, s1)" "exec_spec nd m ev s s1"
    using spmc_exec_ok [OF Cons.prems(1) [unfolded m]] by blast
  obtain evs' where run: "mc_run (spmc_exec nd dp cp) ops s1 = Inr (evs', s')"
    using Cons.prems(3) 1(1) by (auto split: sum.splits)
  obtain r log r1 log1 where s: "s = (r, log)" "s1 = (r1, log1)" by (metis surj_pair)
  have i1: "spmc_inv nd m s1" and q: "mc_spec ev (spmc_queues r) (spmc_queues r1)"
    using 1(2) by (simp_all add: exec_spec_def s)
  have "k \<noteq> sr_next r"
    using Cons.prems(1,5) by (auto simp: spmc_inv_def spmc_ok_def s)
  then have o1: "sr_cs r1 k = sr_cs r k" "event_of ev \<noteq> Some k" "ev \<noteq> Joined k"
    using spmc_exec_others [OF 1(1) [unfolded s]] Cons.prems(4) by auto
  have c1: "sr_cs (fst s1) k = Some c" using o1(1) Cons.prems(5) s by simp
  have "spmc_queues r k = Some (spmc_pending (sr_sh r) c)" "spmc_queues r1 k = Some (spmc_pending (sr_sh r1) c)"
    using Cons.prems(5) c1 s by (simp_all add: spmc_queues_def)
  then obtain new where p1: "spmc_pending (sr_sh r1) c = spmc_pending (sr_sh r) c @ new"
    using mc_spec_others [OF q o1(2,3)] by auto
  have "length ops \<le> m" "\<forall>x\<in>set ops. spmc_callee x \<noteq> Some k" using Cons.prems(2,4) m by simp_all
  then show ?case using Cons.IH [OF i1 _ run _ c1] p1 s by auto
qed

lemma spmc_deref_pending:
  assumes s: "spmc_sound nd sh p cs" and c: "cs k = Some c" and q: "spmc_pending sh c = v # vs"
  shows "spmc_deref sh c = Inr v"
proof -
  have "gc_read_cursor c \<noteq> gs_write_cursor sh" using q pending_Nil [of sh c] by auto
  then show ?thesis using pending_unfold [OF s c] q by (auto simp: spmc_deref_def)
qed

text \<open>
  (C13) Borrow stability. While a consumer holds on to a message (a guard is
  alive, or the message is simply not released yet), every run of calls that
  are not on that consumer leaves the message in its slot with its value: pushes
  and refusals, claims that are filled, committed or abandoned, overwrites whose
  destructor panics, what other consumers receive, subscriptions, departures
  and the close. No call of the run fails, the consumer's handle is untouched,
  its guard dereferences to the same value before and after, and what is pending
  for it only grows at the end. A claim that is written to and abandoned leaves
  the state of a claim still open, so this covers the states between a claim and
  its commit.
\<close>

theorem spmc_borrow_stable:
  assumes ok: "spmc_ok nd r" and c: "sr_cs r k = Some c" and q: "spmc_pending (sr_sh r) c = v # rest"
    and others: "\<forall>x\<in>set ops. spmc_callee x \<noteq> Some k"
    and span: "unat (gs_write_cursor (sr_sh r)) + length ops + 2 * capacity_of (gs_mask (sr_sh r)) < 2 ^ 64"
  shows "\<exists>evs r' log'. mc_run (spmc_exec nd dp cp) ops (r, log) = Inr (evs, r', log')
    \<and> spmc_ok nd r' \<and> sr_cs r' k = Some c
    \<and> spmc_deref (sr_sh r) c = Inr v \<and> spmc_deref (sr_sh r') c = Inr v
    \<and> (\<exists>new. spmc_pending (sr_sh r') c = v # rest @ new)"
proof -
  have inv: "spmc_inv nd (length ops) (r, log)" using ok span by (simp add: spmc_inv_def word_span_def)
  obtain evs r' log' where run: "mc_run (spmc_exec nd dp cp) ops (r, log) = Inr (evs, r', log')"
    using spmc_mc.run_total [OF inv order_refl, of dp cp] by (metis surj_pair)
  obtain new where O: "spmc_ok nd r'" "sr_cs r' k = Some c" "spmc_pending (sr_sh r') c = v # rest @ new"
    using spmc_run_others [OF inv order_refl run others] c q by auto
  have "spmc_deref (sr_sh r) c = Inr v" "spmc_deref (sr_sh r') c = Inr v"
    using spmc_deref_pending [where cs = "sr_cs r" and c = c, OF _ c q]
      spmc_deref_pending [where cs = "sr_cs r'" and c = c, OF _ O(2,3)] ok O(1)
    unfolding spmc_ok_def by blast+
  then show ?thesis using run O by blast
qed

text \<open>
  Backpressure is exact. A push is refused only when some attached
  consumer's published cursor is a full capacity behind, so a ring nobody is
  attached to never refuses, and a refusal hands the value back and leaves the
  shared state alone.
\<close>

theorem spmc_push_refused:
  assumes ok: "spmc_sound nd sh p cs" and push: "spmc_try_push nd dp x sh p = Inr (res, ds, sh', p')"
    and ref: "res = Push_refused y"
  shows "y = x \<and> ds = [] \<and> sh' = sh \<and> spmc_sound nd sh' p' cs
    \<and> (\<exists>k c. cs k = Some c \<and> unat (gs_write_cursor sh) - unat (gc_published c) = capacity_of (gs_mask sh))"
proof -
  obtain free p1 where h: "gate_has_space 1 sh p = (free, p1)" by (rule prod.exhaust)
  note H = spmc_has_space_ok [OF ok h]
  have nf: "\<not> free"
    using push ref h by (auto simp: spmc_try_push_def split: sum.splits prod.splits bool.splits)
  then have e: "y = x" "ds = []" "sh' = sh" "p' = p1"
    using push ref h by (simp_all add: spmc_try_push_def)
  have P4: "gs_write_cursor sh = gp_next_seq p" by (rule producer_okD(4) [OF gate_okD(1) [OF spmc_soundD(1) [OF ok]]])
  obtain k c where c: "cs k = Some c" "capacity_of (gs_mask sh) \<le> unat (gp_next_seq p) - unat (gc_published c)"
    using H(5) nf by blast
  have "unat (gp_next_seq p) - unat (gc_published c) \<le> capacity_of (gs_mask sh)"
    using spmc_soundD(5) [OF ok] consumer_order(1) [OF ok c(1)] P4 by simp
  then show ?thesis using e H(1) c P4 by auto
qed

text \<open>
  The producer's view of the occupancy never under-counts: it covers what
  any attached consumer still has to read, is at most the capacity, reports a
  gated ring as full, and reports empty only when nobody has anything to read.
\<close>

theorem spmc_len_covers:
  assumes ok: "spmc_sound nd sh p cs" and c: "cs k = Some c"
  shows "length (spmc_pending sh c) \<le> unat (gate_len p) \<and> unat (gate_len p) \<le> capacity_of (gs_mask sh)
    \<and> length (spmc_pending sh c) = unat (gate_available sh c)
    \<and> (gate_len p = 0 \<longrightarrow> spmc_pending sh c = [])
    \<and> (unat (gs_write_cursor sh) - unat (gc_published c) = capacity_of (gs_mask sh) \<longrightarrow> gate_is_full p)"
proof -
  note g = spmc_soundD(1) [OF ok]
  note P = producer_okD [OF gate_okD(1) [OF g]] and C = consumer_okD [OF gate_okD(3) [OF g c]]
  have len: "unat (gate_len p) = cdist (gp_cached_min p) (gp_next_seq p)"
    by (simp add: gate_len_def cdist_def)
  have l: "length (spmc_pending sh c) = unat (gs_write_cursor sh) - unat (gc_read_cursor c)"
    by (rule length_pending [OF ok c])
  have 1: "length (spmc_pending sh c) \<le> unat (gate_len p)"
    using l len C(6,9) P(4) by simp
  have 2: "unat (gate_len p) \<le> capacity_of (gs_mask sh)" using P(6) len by simp
  have 3: "length (spmc_pending sh c) = unat (gate_available sh c)"
    using l cdist_unat [OF consumer_order(6) [OF ok c]] by (simp add: gate_available_def cdist_def)
  have 5: "gate_is_full p"
    if "unat (gs_write_cursor sh) - unat (gc_published c) = capacity_of (gs_mask sh)"
  proof -
    have "capacity_of (gs_mask sh) \<le> cdist (gp_cached_min p) (gp_next_seq p)" using C(9) that P(4) by simp
    moreover have "cdist (gp_cached_min p) (gp_next_seq p) + unat (1 :: u64) < word_span"
      using P(3,5,6) by simp
    ultimately show ?thesis
      using gate_lacks_iff [of "gp_cached_min p" "gp_next_seq p" 1 "gp_mask p + 1"] P(2)
        mask_capacity [of "gs_mask sh"]
      by (simp add: gate_is_full_def)
  qed
  show ?thesis using 1 2 3 5 by auto
qed

text \<open>
  (C15) \<open>Closed\<close> is never early. Between a consumer's failed check for a message
  and its check of the closed flag, other threads may do anything: the consumer
  reports \<open>Closed\<close> exactly when the producer is gone and nothing is left for it,
  and a last message published just before the close is delivered (or left in
  place by a panicking clone).
\<close>

theorem spmc_closed_drained:
  assumes "spmc_sound nd sh p cs" and "cs k = Some c" and "gate_has_item sh c = (False, c1)"
    and "spmc_sound nd (between sh) p1 cs1" and "cs1 k = Some c1"
  shows "\<exists>res sh' c'. spmc_try_pop cp between sh c = Inr (res, sh', c')
    \<and> (res = Pop_closed \<longleftrightarrow> gs_closed (between sh) \<noteq> 0 \<and> spmc_pending (between sh) c1 = [])
    \<and> (gs_closed (between sh) \<noteq> 0 \<and> spmc_pending (between sh) c1 \<noteq> [] \<longrightarrow>
         pop_spec True cp res (spmc_pending (between sh) c1) (spmc_pending sh' c'))"
  using spmc_try_pop_race [where between = between, OF assms, of cp] by blast

text \<open>
  \<open>drain\<close> hands the callback the oldest pending messages in order, at most
  one publish batch; without a panic exactly the smaller of the batch and what
  is pending; and when it had anything to deliver it returns, also by unwinding,
  with its progress published.
\<close>

theorem spmc_drain_batch:
  assumes "spmc_sound nd sh p cs" and "cs k = Some c"
  shows "\<exists>vs sh' c'. spmc_drain unwinds sh c = Inr (vs, sh', c')
    \<and> spmc_sound nd sh' p (cs(k \<mapsto> c'))
    \<and> spmc_pending sh c = vs @ spmc_pending sh' c'
    \<and> length vs \<le> unat (publish_batch_elems (gc_mask c + 1))
    \<and> (spmc_pending sh c \<noteq> [] \<longrightarrow> vs \<noteq> []
         \<and> slot_word (gs_registry sh') (gc_chunk c) (gc_slot c) = gc_read_cursor c')
    \<and> ((\<forall>v\<in>set (spmc_pending sh c). \<not> unwinds v) \<longrightarrow>
         length vs = min (length (spmc_pending sh c)) (unat (publish_batch_elems (gc_mask c + 1))))"
proof -
  obtain vs sh' c' where D: "spmc_drain unwinds sh c = Inr (vs, sh', c')" "gate_cstep sh c sh' c'"
    "spmc_pending sh c = vs @ spmc_pending sh' c'"
    "length vs \<le> unat (publish_batch_elems (gc_mask c + 1))"
    "spmc_pending sh c \<noteq> [] \<longrightarrow> vs \<noteq> [] \<and> gc_published c' = gc_read_cursor c'"
    "(\<forall>v\<in>set (spmc_pending sh c). \<not> unwinds v) \<longrightarrow>
         length vs = min (length (spmc_pending sh c)) (unat (publish_batch_elems (gc_mask c + 1)))"
    using spmc_drain_ok [OF assms, of unwinds] by blast
  have S: "spmc_sound nd sh' p (cs(k \<mapsto> c'))" by (rule spmc_cstep_ok [OF assms D(2)])
  have k: "(cs(k \<mapsto> c')) k = Some c'" by simp
  have "slot_word (gs_registry sh') (gc_chunk c') (gc_slot c') = gc_published c'"
    by (rule consumer_okD(5) [OF gate_okD(3) [OF spmc_soundD(1) [OF S] k]])
  moreover have "gc_chunk c' = gc_chunk c" "gc_slot c' = gc_slot c" using D(2) by (simp_all add: gate_cstep_def)
  ultimately have w: "slot_word (gs_registry sh') (gc_chunk c) (gc_slot c) = gc_published c'" by simp
  have 5: "spmc_pending sh c \<noteq> [] \<longrightarrow> vs \<noteq> []
      \<and> slot_word (gs_registry sh') (gc_chunk c) (gc_slot c) = gc_read_cursor c'"
    using D(5) w by simp
  show ?thesis using D(1) S D(3,4) 5 D(6) by blast
qed

section \<open>Witness states\<close>

definition spmc_state :: "nat spmc_op list \<Rightarrow> nat spmc" where
  "spmc_state ops = fst (snd (projr (mc_run (spmc_exec True (\<lambda>_. False) (\<lambda>_. False)) ops (spmc2, []))))"

lemma spmc_state_ok:
  assumes "length ops < 100"
  shows "spmc_ok True (spmc_state ops)"
proof -
  have s: "length ops + 2 * capacity_of (gs_mask (sr_sh spmc2)) < 2 ^ 64"
    unfolding spmc2_capacity using assms by simp
  note inv = spmc_new_ok(1) [OF spmc2_new s [folded word_span_def]]
  obtain evs r log where r: "mc_run (spmc_exec True (\<lambda>_. False) (\<lambda>_. False)) ops (spmc2, []) = Inr (evs, r, log)"
    using spmc_mc.run_total [OF inv order_refl] by (metis surj_pair)
  show ?thesis using spmc_run_facts [OF inv order_refl r] by (simp add: spmc_state_def r)
qed

lemma spmc_state_sound:
  assumes "length ops < 100"
  shows "spmc_sound True (sr_sh (spmc_state ops)) (sr_p (spmc_state ops)) (sr_cs (spmc_state ops))"
  using spmc_state_ok [OF assms] by (simp add: spmc_ok_def)

lemma Inr_collapse4: "\<not> isl x \<Longrightarrow> x = Inr (fst (projr x), fst (snd (projr x)), fst (snd (snd (projr x))), snd (snd (snd (projr x))))"
  by (cases x) simp_all

text \<open>A ring of two slots: one consumed message, one pending.\<close>

definition st_busy :: "nat spmc" where
  "st_busy = spmc_state [Op_push 1, Op_pop 0, Op_push 2]"

definition st_full :: "nat spmc" where
  "st_full = spmc_state [Op_push 1, Op_push 2]"

lemma st_sound:
  "spmc_sound True (sr_sh st_busy) (sr_p st_busy) (sr_cs st_busy)"
  "spmc_sound True (sr_sh st_full) (sr_p st_full) (sr_cs st_full)"
  unfolding st_busy_def st_full_def by (rule spmc_state_sound, simp)+

lemma st_ok: "spmc_ok True st_busy"
  unfolding st_busy_def by (rule spmc_state_ok) simp

definition c_busy :: gate_consumer where "c_busy = the (sr_cs st_busy 0)"
definition c_full :: gate_consumer where "c_full = the (sr_cs st_full 0)"

lemma st_consumers: "sr_cs st_busy 0 = Some c_busy" "sr_cs st_full 0 = Some c_full"
  by code_simp+

theorem spmc_drops_exact_witness:
  "\<exists>evs r log torn. mc_run (spmc_exec True (\<lambda>_. False) (\<lambda>_. False)) spmc_demo (spmc2, []) = Inr (evs, r, log)
    \<and> spmc_shared_drop True (sr_sh r) = Inr torn \<and> log @ torn = mc_published evs"
proof -
  have s: "length spmc_demo + 2 * capacity_of (gs_mask (sr_sh spmc2)) < 2 ^ 64"
    unfolding spmc2_capacity by (simp add: spmc_demo_def)
  obtain evs r log where r: "mc_run (spmc_exec True (\<lambda>_. False) (\<lambda>_. False)) spmc_demo (spmc2, []) = Inr (evs, r, log)"
    using spmc_mc.run_total [OF spmc_new_ok(1) [OF spmc2_new s [folded word_span_def]] order_refl]
    by (metis surj_pair)
  then show ?thesis using spmc_drops_exact [OF spmc2_new s r] by auto
qed

definition borrow_demo :: "nat spmc_op list" where
  "borrow_demo = [Op_push 3, Op_push 4, Op_subscribe, Op_claim (Some 9) (Use_commit 5), Op_pop 1, Op_leave 1, Op_close]"

text \<open>Consumer 0 holds 2 while 3 overwrites the message it released and 4 and 5 are refused.\<close>

theorem spmc_borrow_stable_witness:
  "\<exists>evs r' log'. mc_run (spmc_exec True (\<lambda>_. False) (\<lambda>_. False)) borrow_demo (st_busy, []) = Inr (evs, r', log')
    \<and> log' = [1] \<and> spmc_deref (sr_sh r') c_busy = Inr 2"
proof -
  let ?t = "mc_run (spmc_exec True (\<lambda>_. False) (\<lambda>_. False)) borrow_demo (st_busy, [])"
  have q: "spmc_pending (sr_sh st_busy) c_busy = 2 # []" by code_simp
  have w: "unat (gs_write_cursor (sr_sh st_busy)) = 2" "capacity_of (gs_mask (sr_sh st_busy)) = 2" by code_simp+
  have s: "unat (gs_write_cursor (sr_sh st_busy)) + length borrow_demo
      + 2 * capacity_of (gs_mask (sr_sh st_busy)) < 2 ^ 64"
    unfolding w by (simp add: borrow_demo_def)
  have o: "\<forall>x\<in>set borrow_demo. spmc_callee x \<noteq> Some 0" by (simp add: borrow_demo_def)
  have "snd (snd (projr ?t)) = [1]" by code_simp
  then show ?thesis
    using spmc_borrow_stable [OF st_ok st_consumers(1) q o s, of "\<lambda>_. False" "\<lambda>_. False" "[]"]
    by (metis snd_conv sum.sel(2))
qed

theorem spmc_push_refused_witness:
  "\<exists>k c. sr_cs st_full k = Some c
     \<and> unat (gs_write_cursor (sr_sh st_full)) - unat (gc_published c) = capacity_of (gs_mask (sr_sh st_full))"
proof -
  let ?t = "spmc_try_push True (\<lambda>_. False) 3 (sr_sh st_full) (sr_p st_full)"
  have "\<not> isl ?t" by code_simp
  note t = Inr_collapse4 [OF this]
  have "fst (projr ?t) = Push_refused 3" by code_simp
  then show ?thesis using spmc_push_refused [OF st_sound(2) t] by blast
qed

theorem spmc_len_covers_witness:
  "length (spmc_pending (sr_sh st_full) c_full) = 2 \<and> 2 \<le> unat (gate_len (sr_p st_full)) \<and> gate_is_full (sr_p st_full)"
proof -
  have "length (spmc_pending (sr_sh st_full) c_full) = 2" by code_simp
  moreover have "unat (gs_write_cursor (sr_sh st_full)) - unat (gc_published c_full) = capacity_of (gs_mask (sr_sh st_full))"
    by code_simp
  ultimately show ?thesis using spmc_len_covers [OF st_sound(2) st_consumers(2)] by simp
qed

theorem spmc_drain_batch_witness:
  "\<exists>vs sh' c'. spmc_drain (\<lambda>_. False) (sr_sh st_full) c_full = Inr (vs, sh', c') \<and> vs = [1]
     \<and> spmc_pending sh' c' = [2]"
proof -
  obtain vs sh' c' where D: "spmc_drain (\<lambda>_. False) (sr_sh st_full) c_full = Inr (vs, sh', c')"
    "spmc_pending (sr_sh st_full) c_full = vs @ spmc_pending sh' c'"
    "length vs = min (length (spmc_pending (sr_sh st_full) c_full)) (unat (publish_batch_elems (gc_mask c_full + 1)))"
    using spmc_drain_batch [OF st_sound(2) st_consumers(2), of "\<lambda>_. False"] by blast
  have e: "spmc_pending (sr_sh st_full) c_full = [1, 2]" "unat (publish_batch_elems (gc_mask c_full + 1)) = 1"
    by code_simp+
  have "length vs = 1" unfolding D(3) e by simp
  moreover have "[1, 2] = vs @ spmc_pending sh' c'" using D(2) unfolding e by simp
  ultimately have "vs = [1]" "spmc_pending sh' c' = [2]" by (cases vs; simp)+
  then show ?thesis using D(1) by blast
qed

text \<open>The race: the consumer found nothing, then the producer pushed 5 and closed.\<close>

definition st_idle :: "nat spmc" where "st_idle = spmc_state []"
definition c_idle :: gate_consumer where "c_idle = the (sr_cs st_idle 0)"
definition st_raced :: "nat spmc" where "st_raced = spmc_state [Op_push 5, Op_close]"

theorem spmc_closed_drained_witness:
  "\<exists>sh' c'. spmc_try_pop (\<lambda>_. False) (\<lambda>_. sr_sh st_raced) (sr_sh st_idle) c_idle = Inr (Popped 5, sh', c')"
proof -
  have 1: "sr_cs st_idle 0 = Some c_idle" by code_simp
  have 2: "gate_has_item (sr_sh st_idle) c_idle = (False, c_idle)" by code_simp
  have 3: "sr_cs st_raced 0 = Some c_idle" by code_simp
  have s: "spmc_sound True (sr_sh st_idle) (sr_p st_idle) (sr_cs st_idle)"
    "spmc_sound True (sr_sh st_raced) (sr_p st_raced) (sr_cs st_raced)"
    unfolding st_idle_def st_raced_def by (rule spmc_state_sound, simp)+
  have cl: "gs_closed (sr_sh st_raced) = 1" "spmc_pending (sr_sh st_raced) c_idle = [5]" by code_simp+
  obtain res sh' c' where R: "spmc_try_pop (\<lambda>_. False) (\<lambda>_. sr_sh st_raced) (sr_sh st_idle) c_idle = Inr (res, sh', c')"
    "pop_spec True (\<lambda>_. False) res [5] (spmc_pending sh' c')"
    using spmc_closed_drained [where between = "\<lambda>_. sr_sh st_raced", OF s(1) 1 2 s(2) 3, of "\<lambda>_. False"] cl by auto
  then show ?thesis by (cases res) auto
qed

end
