(* ===== verification/Atomic_Copy.thy ===== *)
theory Atomic_Copy
  imports Ring_Prelude
begin

text \<open>
  The racing payload copies (\<open>src/src/atomic_copy.rs\<close>). A copy into the ring is
  the sequence of atomic stores it issues, each an offset and the bytes stored
  there; a copy out of the ring takes \<open>seen\<close>, whose \<open>k\<close>-th element is the memory
  at the time of the copy's \<open>k\<close>-th atomic load, so that a concurrent writer may
  run between any two loads.
\<close>

section \<open>Stores and loads\<close>

definition put :: "nat \<Rightarrow> 'b list \<Rightarrow> 'b list \<Rightarrow> 'b list" where
  "put off bs mem = take off mem @ bs @ drop (off + length bs) mem"

definition get :: "nat \<Rightarrow> nat \<Rightarrow> 'b list \<Rightarrow> 'b list" where
  "get off n mem = take n (drop off mem)"

fun put_all :: "(nat \<times> 'b list) list \<Rightarrow> 'b list \<Rightarrow> 'b list" where
  "put_all [] mem = mem"
| "put_all ((off, bs) # sts) mem = put_all sts (put off bs mem)"

lemma length_put: "off + length bs \<le> length mem \<Longrightarrow> length (put off bs mem) = length mem"
  by (simp add: put_def)

lemma length_get: "off + n \<le> length mem \<Longrightarrow> length (get off n mem) = n"
  by (simp add: get_def)

lemma put_all_append: "put_all (a @ b) mem = put_all b (put_all a mem)"
  by (induction a mem rule: put_all.induct) simp_all

text \<open>Stores that cover the memory from \<open>base\<close> on without a gap, in ascending order.\<close>

fun tiling :: "nat \<Rightarrow> (nat \<times> 'b list) list \<Rightarrow> bool" where
  "tiling base [] = True"
| "tiling base ((off, bs) # sts) \<longleftrightarrow> off = base \<and> tiling (base + length bs) sts"

lemma put_all_tiling:
  assumes "tiling base sts" and "base + length (concat (map snd sts)) \<le> length mem"
  shows "put_all sts mem = put base (concat (map snd sts)) mem"
  using assms
proof (induction sts arbitrary: base mem)
  case Nil
  then show ?case by (simp add: put_def)
next
  case (Cons st sts)
  obtain off bs where st: "st = (off, bs)" by (cases st)
  then have off: "off = base" and t: "tiling (base + length bs) sts" using Cons.prems(1) by auto
  have len: "base + length bs + length (concat (map snd sts)) \<le> length mem"
    using Cons.prems(2) st by simp
  then have "put_all sts (put base bs mem)
      = put (base + length bs) (concat (map snd sts)) (put base bs mem)"
    using Cons.IH [OF t] by (simp add: length_put)
  also have "\<dots> = put base (bs @ concat (map snd sts)) mem"
    using len by (simp add: put_def ac_simps)
  finally show ?case using st off by simp
qed

section \<open>Word-wise copies (element rings)\<close>

text \<open>The two loops of \<open>copy_in_words\<close>: whole machine words, then the tail bytes.\<close>

function in_bytes :: "'b list \<Rightarrow> nat \<Rightarrow> (nat \<times> 'b list) list" where
  "in_bytes src off =
     (if off < length src then (off, get off 1 src) # in_bytes src (off + 1) else [])"
  by auto
termination by (relation "measure (\<lambda>(src, off). length src - off)") auto

function in_words :: "'b list \<Rightarrow> nat \<Rightarrow> (nat \<times> 'b list) list" where
  "in_words src off =
     (if off + 8 \<le> length src then (off, get off 8 src) # in_words src (off + 8)
      else in_bytes src off)"
  by auto
termination by (relation "measure (\<lambda>(src, off). length src - off)") auto

definition copy_in_words :: "'b list \<Rightarrow> (nat \<times> 'b list) list" where
  "copy_in_words src = in_words src 0"

text \<open>The loops of \<open>copy_out_words\<close>, with the number of loads issued before.\<close>

function out_bytes :: "(nat \<Rightarrow> 'b list) \<Rightarrow> nat \<Rightarrow> nat \<Rightarrow> nat \<Rightarrow> 'b list \<times> nat" where
  "out_bytes seen len k off =
     (if off < len
      then (case out_bytes seen len (Suc k) (off + 1) of
              (rest, n) \<Rightarrow> (get off 1 (seen k) @ rest, n))
      else ([], k))"
  by auto
termination by (relation "measure (\<lambda>(seen, len, k, off). len - off)") auto

function out_words :: "(nat \<Rightarrow> 'b list) \<Rightarrow> nat \<Rightarrow> nat \<Rightarrow> nat \<Rightarrow> 'b list \<times> nat" where
  "out_words seen len k off =
     (if off + 8 \<le> len
      then (case out_words seen len (Suc k) (off + 8) of
              (rest, n) \<Rightarrow> (get off 8 (seen k) @ rest, n))
      else out_bytes seen len k off)"
  by auto
termination by (relation "measure (\<lambda>(seen, len, k, off). len - off)") auto

definition copy_out_words :: "(nat \<Rightarrow> 'b list) \<Rightarrow> nat \<Rightarrow> 'b list \<times> nat" where
  "copy_out_words seen len = out_words seen len 0 0"

section \<open>Four-byte-lane copies (byte rings)\<close>

text \<open>The last lane is padded with zero bytes.\<close>

function in_lanes :: "u8 list \<Rightarrow> nat \<Rightarrow> (nat \<times> u8 list) list" where
  "in_lanes src off =
     (if off + 4 \<le> length src then (off, get off 4 src) # in_lanes src (off + 4)
      else if off < length src
      then [(off, put 0 (get off (length src - off) src) (replicate 4 0))]
      else [])"
  by auto
termination by (relation "measure (\<lambda>(src, off). length src - off)") auto

definition copy_in_lanes :: "u8 list \<Rightarrow> (nat \<times> u8 list) list" where
  "copy_in_lanes src = in_lanes src 0"

function out_lanes :: "(nat \<Rightarrow> 'b list) \<Rightarrow> nat \<Rightarrow> nat \<Rightarrow> nat \<Rightarrow> 'b list \<times> nat" where
  "out_lanes seen len k off =
     (if off + 4 \<le> len
      then (case out_lanes seen len (Suc k) (off + 4) of
              (rest, n) \<Rightarrow> (get off 4 (seen k) @ rest, n))
      else if off < len
      then (take (len - off) (get off 4 (seen k)), Suc k)
      else ([], k))"
  by auto
termination by (relation "measure (\<lambda>(seen, len, k, off). len - off)") auto

definition copy_out_lanes :: "(nat \<Rightarrow> 'b list) \<Rightarrow> nat \<Rightarrow> 'b list \<times> nat" where
  "copy_out_lanes seen len = out_lanes seen len 0 0"

declare in_bytes.simps [simp del] in_words.simps [simp del] out_bytes.simps [simp del]
  out_words.simps [simp del] in_lanes.simps [simp del] out_lanes.simps [simp del]

section \<open>The copies in\<close>

lemma in_bytes_tiling:
  "tiling off (in_bytes src off) \<and> concat (map snd (in_bytes src off)) = drop off src"
proof (induction src off rule: in_bytes.induct)
  case (1 src off)
  show ?case
  proof (cases "off < length src")
    case True
    have "drop off src = get off 1 src @ drop (off + 1) src"
      using True by (simp add: get_def take_Suc_conv_app_nth Cons_nth_drop_Suc)
    then show ?thesis
      using 1 [OF True] True in_bytes.simps [of src off] by (simp add: length_get)
  qed (simp add: in_bytes.simps)
qed

lemma in_words_tiling:
  "tiling off (in_words src off) \<and> concat (map snd (in_words src off)) = drop off src"
proof (induction src off rule: in_words.induct)
  case (1 src off)
  show ?case
  proof (cases "off + 8 \<le> length src")
    case True
    have "drop off src = get off 8 src @ drop (off + 8) src"
      by (metis append_take_drop_id drop_drop get_def add.commute)
    then show ?thesis
      using 1 [OF True] True in_words.simps [of src off] by (simp add: length_get)
  next
    case False
    then show ?thesis using in_words.simps [of src off] in_bytes_tiling [of off src] by simp
  qed
qed

lemma copy_in_words_tiling:
  "tiling 0 (copy_in_words src)" "concat (map snd (copy_in_words src)) = src"
  using in_words_tiling [of 0 src] by (simp_all add: copy_in_words_def)

lemma put_all_copy_in_words:
  assumes "length src = length mem"
  shows "put_all (copy_in_words src) mem = src"
  using assms put_all_tiling [OF copy_in_words_tiling(1), of src mem]
  by (simp add: copy_in_words_tiling(2) put_def)

lemma tiling_bounds:
  assumes "tiling base sts" and "(off, bs) \<in> set sts"
  shows "base \<le> off \<and> off + length bs \<le> base + length (concat (map snd sts))"
  using assms
proof (induction sts arbitrary: base)
  case (Cons st sts)
  obtain o' b' where st: "st = (o', b')" by (cases st)
  show ?case
  proof (cases "(off, bs) = st")
    case True
    then show ?thesis using Cons.prems(1) st by simp
  next
    case False
    then have "(off, bs) \<in> set sts" using Cons.prems(2) by auto
    then show ?thesis using Cons.IH [of "base + length b'"] Cons.prems(1) st by auto
  qed
qed simp

lemma copy_in_words_bounds:
  "(off, bs) \<in> set (copy_in_words src) \<Longrightarrow> off + length bs \<le> length src"
  using tiling_bounds [OF copy_in_words_tiling(1)] by (fastforce simp: copy_in_words_tiling(2))

section \<open>The copies out of a quiet memory\<close>

lemma out_bytes_count: "snd (out_bytes seen len k off) = k + (len - off)"
proof (induction seen len k off rule: out_bytes.induct)
  case (1 seen len k off)
  then show ?case
    using out_bytes.simps [of seen len k off] by (auto split: prod.splits)
qed

lemma out_words_count:
  "snd (out_words seen len k off) = k + ((len - off) div 8 + (len - off) mod 8)"
proof (induction seen len k off rule: out_words.induct)
  case (1 seen len k off)
  show ?case
  proof (cases "off + 8 \<le> len")
    case True
    then have le: "8 \<le> len - off" by simp
    have "(len - off) div 8 = Suc ((len - (off + 8)) div 8)"
      and "(len - off) mod 8 = (len - (off + 8)) mod 8"
      unfolding diff_diff_left [symmetric] using le by (rule le_div_geq [rotated], simp)
        (rule le_mod_geq [OF le])
    then show ?thesis
      using 1 [OF True] True out_words.simps [of seen len k off]
      by (auto split: prod.splits)
  next
    case False
    then show ?thesis
      using out_words.simps [of seen len k off] out_bytes_count [of seen len k off] by simp
  qed
qed

definition word_loads :: "nat \<Rightarrow> nat" where
  "word_loads len = len div 8 + len mod 8"

lemma copy_out_words_count: "snd (copy_out_words seen len) = word_loads len"
  by (simp add: copy_out_words_def out_words_count word_loads_def)

lemma out_bytes_quiet:
  assumes "\<And>j. k \<le> j \<Longrightarrow> j < k + (len - off) \<Longrightarrow> seen j = mem" and "len = length mem"
  shows "fst (out_bytes seen len k off) = drop off mem"
  using assms
proof (induction seen len k off rule: out_bytes.induct)
  case (1 seen len k off)
  show ?case
  proof (cases "off < len")
    case True
    have "fst (out_bytes seen len (Suc k) (off + 1)) = drop (off + 1) mem"
      by (rule 1(1) [OF True]) (use 1(2,3) True in auto)
    moreover have "seen k = mem" by (rule 1(2)) (use True in auto)
    moreover have "drop off mem = get off 1 mem @ drop (off + 1) mem"
      using True 1(3) by (simp add: get_def take_Suc_conv_app_nth Cons_nth_drop_Suc)
    ultimately show ?thesis
      using True out_bytes.simps [of seen len k off] by (auto split: prod.splits)
  next
    case False
    then show ?thesis using out_bytes.simps [of seen len k off] 1(3) by simp
  qed
qed

lemma out_words_quiet:
  assumes "\<And>j. k \<le> j \<Longrightarrow> j < snd (out_words seen len k off) \<Longrightarrow> seen j = mem"
    and "len = length mem"
  shows "fst (out_words seen len k off) = drop off mem"
  using assms
proof (induction seen len k off rule: out_words.induct)
  case (1 seen len k off)
  show ?case
  proof (cases "off + 8 \<le> len")
    case True
    have eq: "out_words seen len k off
        = (get off 8 (seen k) @ fst (out_words seen len (Suc k) (off + 8)),
           snd (out_words seen len (Suc k) (off + 8)))"
      using True out_words.simps [of seen len k off] by (auto split: prod.splits)
    have "fst (out_words seen len (Suc k) (off + 8)) = drop (off + 8) mem"
      by (rule 1(1) [OF True]) (use 1(2,3) eq in auto)
    moreover have "seen k = mem"
      by (rule 1(2)) (use eq out_words_count [of seen len "Suc k" "off + 8"] in auto)
    moreover have "drop off mem = get off 8 mem @ drop (off + 8) mem"
      by (metis append_take_drop_id drop_drop get_def add.commute)
    ultimately show ?thesis using eq by simp
  next
    case False
    then have "out_words seen len k off = out_bytes seen len k off"
      using out_words.simps [of seen len k off] by simp
    then show ?thesis
      using out_bytes_quiet [of k len off seen mem] 1(2,3) by (simp add: out_bytes_count)
  qed
qed

lemma copy_out_words_quiet:
  assumes "\<And>j. j < word_loads len \<Longrightarrow> seen j = mem" and "len = length mem"
  shows "copy_out_words seen len = (mem, word_loads len)"
proof -
  have "fst (copy_out_words seen len) = mem"
    using out_words_quiet [of 0 seen len 0 mem] assms
    by (simp add: copy_out_words_def out_words_count word_loads_def)
  then show ?thesis by (simp add: prod_eq_iff copy_out_words_count)
qed

end
