(* ===== verification/Seqlock.thy ===== *)
theory Seqlock
  imports Atomic_Copy
begin

text \<open>
  The per-slot seqlock of the lossy read paths (\<open>src/src/seqlock.rs\<close>). A slot is
  its generation word and its payload bytes, \<open>None\<close> where \<open>MaybeUninit\<close> memory
  was never written. The reader takes \<open>seen\<close>: the slot at the time of each of its
  atomic loads.
\<close>

record seq_slot =
  sl_seq :: u64
  sl_data :: "u8 option list"

text \<open>
  The first load is the generation, then the payload words, then the generation
  again; the result carries the number of loads. The \<open>debug_assert!\<close> is the
  \<open>Panic\<close> branch; loading a byte nobody wrote is \<open>UninitRead\<close>.
\<close>

definition read_valid ::
  "nat \<Rightarrow> (nat \<Rightarrow> seq_slot) \<Rightarrow> u64 \<Rightarrow> fault + u8 list option \<times> nat" where
  "read_valid esize seen expected =
     (let v1 = sl_seq (seen 0)
      in if v1 < expected then Inl Panic
         else if v1 = expected then
           (case copy_out_words (\<lambda>k. sl_data (seen (Suc k))) esize of
              (out, n) \<Rightarrow>
                if None \<in> set out then Inl UninitRead
                else (let v2 = sl_seq (seen (Suc n))
                      in if v2 = v1 then Inr (Some (map the out), n + 2) else Inr (None, n + 2)))
         else Inr (None, 1))"

section \<open>Generations\<close>

text \<open>Sequence numbers below \<open>2 ^ 62\<close> have generations that do not wrap.\<close>

definition seq_span :: nat where
  "seq_span = 2 ^ 62"

lemma seq_span_word: "2 * seq_span + seq_span < word_span"
  by (simp add: seq_span_def word_span_def)

lemma generation_unat:
  assumes "unat (x :: u64) < seq_span"
  shows "unat (2 * x) = 2 * unat x" and "unat (2 * x + 1) = 2 * unat x + 1"
    and "unat (2 * x + 2) = 2 * unat x + 2"
proof -
  have span: "2 * unat x + 2 < word_span"
    using assms seq_span_word by (simp add: seq_span_def)
  have "unat (x + x) = unat x + unat x" by (rule unat_add_span) (use span in linarith)
  then show 0: "unat (2 * x) = 2 * unat x" by (metis mult_2)
  show "unat (2 * x + 1) = 2 * unat x + 1"
    using unat_add_span [of "2 * x" 1] span 0 by (simp only: unsigned_1)
  have "unat (2 :: u64) = 2" by simp
  then show "unat (2 * x + 2) = 2 * unat x + 2"
    using unat_add_span [of "2 * x" 2] span 0 by (simp only:)
qed

section \<open>The reads\<close>

lemma bytes_of_published: "None \<notin> set (map Some v)" "map the (map Some v) = v"
  by (auto simp: o_def)

lemma get_elements: "x \<in> set (get off n mem) \<Longrightarrow> x \<in> set mem"
  by (auto simp: get_def dest: in_set_takeD in_set_dropD)

lemma out_bytes_elements:
  "x \<in> set (fst (out_bytes seen len k off)) \<Longrightarrow>
     \<exists>j. k \<le> j \<and> j < snd (out_bytes seen len k off) \<and> x \<in> set (seen j)"
proof (induction seen len k off rule: out_bytes.induct)
  case (1 seen len k off)
  show ?case
  proof (cases "off < len")
    case True
    have eq: "out_bytes seen len k off
        = (get off 1 (seen k) @ fst (out_bytes seen len (Suc k) (off + 1)),
           snd (out_bytes seen len (Suc k) (off + 1)))"
      using True out_bytes.simps [of seen len k off] by (auto split: prod.splits)
    have "k < snd (out_bytes seen len (Suc k) (off + 1))"
      using out_bytes_count [of seen len "Suc k" "off + 1"] by linarith
    then show ?thesis
      using 1 True eq get_elements [of x off 1 "seen k"] by (fastforce dest: Suc_leD)
  next
    case False
    then show ?thesis using 1(2) out_bytes.simps [of seen len k off] by simp
  qed
qed

lemma out_words_elements:
  "x \<in> set (fst (out_words seen len k off)) \<Longrightarrow>
     \<exists>j. k \<le> j \<and> j < snd (out_words seen len k off) \<and> x \<in> set (seen j)"
proof (induction seen len k off rule: out_words.induct)
  case (1 seen len k off)
  show ?case
  proof (cases "off + 8 \<le> len")
    case True
    have eq: "out_words seen len k off
        = (get off 8 (seen k) @ fst (out_words seen len (Suc k) (off + 8)),
           snd (out_words seen len (Suc k) (off + 8)))"
      using True out_words.simps [of seen len k off] by (auto split: prod.splits)
    have "k < snd (out_words seen len (Suc k) (off + 8))"
      using out_words_count [of seen len "Suc k" "off + 8"] by linarith
    then show ?thesis
      using 1 True eq get_elements [of x off 8 "seen k"] by (fastforce dest: Suc_leD)
  next
    case False
    then show ?thesis
      using 1(2) out_words.simps [of seen len k off] out_bytes_elements [of x seen len k off] by simp
  qed
qed

lemma copy_out_words_initialised:
  assumes "\<And>j. j < word_loads len \<Longrightarrow> None \<notin> set (seen j)"
  shows "None \<notin> set (fst (copy_out_words seen len))"
  using assms out_words_elements [of None seen len 0 0]
  by (auto simp: copy_out_words_def out_words_count word_loads_def)

text \<open>
  Under a writer whose generations only grow and which holds message \<open>v\<close> in the
  slot while its generation is \<open>expected\<close>, the read returns exactly \<open>v\<close> or
  rejects the copy.
\<close>

lemma read_valid_untorn:
  assumes start: "expected \<le> sl_seq (seen 0)"
    and mono: "\<And>j. sl_seq (seen j) \<le> sl_seq (seen (Suc j))"
    and exact: "\<And>j. sl_seq (seen j) = expected \<Longrightarrow> sl_data (seen j) = map Some v"
    and init: "\<And>j. expected \<le> sl_seq (seen j) \<Longrightarrow> None \<notin> set (sl_data (seen j))"
    and size: "length v = esize"
  shows "read_valid esize seen expected =
    (if sl_seq (seen 0) = expected
     then Inr (if sl_seq (seen (Suc (word_loads esize))) = expected then Some v else None,
               word_loads esize + 2)
     else Inr (None, 1))"
proof (cases "sl_seq (seen 0) = expected")
  case False
  then show ?thesis using start by (simp add: read_valid_def Let_def)
next
  case True
  define n where "n = word_loads esize"
  define out where "out = copy_out_words (\<lambda>k. sl_data (seen (Suc k))) esize"
  have le: "sl_seq (seen i) \<le> sl_seq (seen j)" if "i \<le> j" for i j
    using that by (rule lift_Suc_mono_le [of "\<lambda>j. sl_seq (seen j)", OF mono])
  have above: "expected \<le> sl_seq (seen j)" for j
    using le [of 0 j] True by simp
  have count: "snd out = n" by (simp add: out_def n_def copy_out_words_count)
  have none: "None \<notin> set (fst out)"
    unfolding out_def by (rule copy_out_words_initialised) (use init above in blast)
  have eq: "read_valid esize seen expected =
      Inr (if sl_seq (seen (Suc n)) = expected then Some (map the (fst out)) else None, n + 2)"
    using True none count
    by (simp add: read_valid_def out_def [symmetric] split_beta)
  have "fst out = map Some v" if last: "sl_seq (seen (Suc n)) = expected"
  proof -
    have "sl_data (seen (Suc j)) = map Some v" if "j < n" for j
    proof (rule exact)
      have "sl_seq (seen (Suc j)) \<le> expected" using le [of "Suc j" "Suc n"] that last by simp
      then show "sl_seq (seen (Suc j)) = expected" using above [of "Suc j"] by (rule antisym)
    qed
    then have "copy_out_words (\<lambda>k. sl_data (seen (Suc k))) esize = (map Some v, word_loads esize)"
      by (intro copy_out_words_quiet) (simp_all add: n_def size)
    then show ?thesis by (simp only: out_def fst_conv)
  qed
  then have "map the (fst out) = v" if "sl_seq (seen (Suc n)) = expected"
    using that bytes_of_published(2) by metis
  then show ?thesis unfolding eq n_def [symmetric] using True by (cases "sl_seq (seen (Suc n)) = expected") simp_all
qed

end
