(* ===== verification/Broadcast.thy ===== *)
theory Broadcast
  imports Seqlock Cursor
begin

text \<open>
  The lossy broadcast ring (\<open>src/src/broadcast.rs\<close>): construction, the producer
  as the atomic stores each call issues, and the consumer as a pure reader.

  The shared memory changes only by the producer's stores. A consumer operation
  takes \<open>seen\<close>, the shared memory at the time of each of the consumer's atomic
  loads, and the number \<open>n\<close> of loads it has issued; it returns that number
  increased. The producer may run between any two loads, also in the middle of a
  push.
\<close>

section \<open>State\<close>

record bcast_shared =
  bs_slots :: "seq_slot list"
  bs_mask :: u64
  bs_slack :: u64
  bs_tail :: u64
  bs_closed :: u64

record bcast_producer =
  bp_mask :: u64
  bp_slack :: u64
  bp_next_seq :: u64
  bp_tail_batch :: u64
  bp_unpublished :: u64

record bcast_consumer =
  bc_mask :: u64
  bc_slack :: u64
  bc_pos :: u64
  bc_tail_cache :: u64

datatype pop_error = Lagged u64 | Bc_closed

section \<open>Capacity and slack policy\<close>

definition bc_round_capacity :: "usize \<Rightarrow> fault + usize" where
  "bc_round_capacity min_capacity = round_capacity min_capacity 1"

definition default_slack :: "u64 \<Rightarrow> u64" where
  "default_slack capacity =
     (if capacity = 1 then 0
      else (let slack = capacity div 8 in if slack = 0 then 1 else slack))"

definition reposition_target :: "u64 \<Rightarrow> u64 \<Rightarrow> u64 \<Rightarrow> u64" where
  "reposition_target tail capacity slack = saturating_sub (saturating_add tail slack) capacity"

section \<open>Construction and subscription\<close>

definition bc_subscribe_from :: "bcast_shared \<Rightarrow> bcast_consumer" where
  "bc_subscribe_from sh =
     (let pos = bs_tail sh
      in \<lparr>bc_mask = bs_mask sh, bc_slack = bs_slack sh, bc_pos = pos, bc_tail_cache = pos\<rparr>)"

text \<open>\<open>esize\<close> is \<open>size_of::<T>()\<close>.\<close>

definition bc_build ::
  "nat \<Rightarrow> usize \<Rightarrow> usize \<Rightarrow> fault + bcast_shared \<times> bcast_producer \<times> bcast_consumer" where
  "bc_build esize capacity slack =
     (if esize = 0 then Inl Panic
      else (let sh = \<lparr>bs_slots = replicate (unat capacity) \<lparr>sl_seq = 0, sl_data = replicate esize None\<rparr>,
                      bs_mask = capacity - 1, bs_slack = slack, bs_tail = 0, bs_closed = 0\<rparr>
            in Inr (sh,
                    \<lparr>bp_mask = bs_mask sh, bp_slack = bs_slack sh, bp_next_seq = 0,
                     bp_tail_batch = 1, bp_unpublished = 0\<rparr>,
                    bc_subscribe_from sh)))"

definition bc_with_wait_strategies ::
  "nat \<Rightarrow> usize \<Rightarrow> fault + bcast_shared \<times> bcast_producer \<times> bcast_consumer" where
  "bc_with_wait_strategies esize min_capacity =
     (case bc_round_capacity min_capacity of
        Inl f \<Rightarrow> Inl f
      | Inr capacity \<Rightarrow> bc_build esize capacity (default_slack capacity))"

definition bc_with_slack ::
  "nat \<Rightarrow> usize \<Rightarrow> usize \<Rightarrow> fault + bcast_shared \<times> bcast_producer \<times> bcast_consumer" where
  "bc_with_slack esize min_capacity slack =
     (case bc_round_capacity min_capacity of
        Inl f \<Rightarrow> Inl f
      | Inr capacity \<Rightarrow> if slack < capacity then bc_build esize capacity slack else Inl Panic)"

section \<open>The producer\<close>

text \<open>The producer's atomic stores, in program order, and their effect on the shared memory.\<close>

datatype bc_store = St_seq nat u64 | St_data nat nat "u8 list" | St_tail u64 | St_closed u64

fun bc_apply :: "bc_store \<Rightarrow> bcast_shared \<Rightarrow> bcast_shared" where
  "bc_apply (St_seq i v) sh = sh\<lparr>bs_slots := (bs_slots sh)[i := (bs_slots sh ! i)\<lparr>sl_seq := v\<rparr>]\<rparr>"
| "bc_apply (St_data i off bs) sh =
     sh\<lparr>bs_slots := (bs_slots sh)[i := (bs_slots sh ! i)
          \<lparr>sl_data := put off (map Some bs) (sl_data (bs_slots sh ! i))\<rparr>]\<rparr>"
| "bc_apply (St_tail v) sh = sh\<lparr>bs_tail := v\<rparr>"
| "bc_apply (St_closed v) sh = sh\<lparr>bs_closed := v\<rparr>"

definition bc_publish_tail :: "bcast_producer \<Rightarrow> bc_store list \<times> bcast_producer" where
  "bc_publish_tail p = ([St_tail (bp_next_seq p)], p\<lparr>bp_unpublished := 0\<rparr>)"

definition bc_flush :: "bcast_producer \<Rightarrow> bc_store list \<times> bcast_producer" where
  "bc_flush p = (if bp_unpublished p > 0 then bc_publish_tail p else ([], p))"

definition bc_set_tail_batch ::
  "u64 \<Rightarrow> bcast_producer \<Rightarrow> u64 \<times> bc_store list \<times> bcast_producer" where
  "bc_set_tail_batch request p =
     (let max_batch = max (min ((bp_mask p + 1) div 8) (bp_slack p)) 1;
          batch = max 1 (min request max_batch);
          p1 = p\<lparr>bp_tail_batch := batch\<rparr>
      in (batch, if bp_unpublished p1 \<ge> batch then bc_publish_tail p1 else ([], p1)))"

definition bp_slot :: "bcast_producer \<Rightarrow> u64 \<Rightarrow> nat" where
  "bp_slot p s = slot_ix (bp_mask p) s"

text \<open>\<open>write_payload\<close> of \<open>src/src/atomic_copy.rs\<close>, into slot \<open>i\<close>.\<close>

definition write_payload :: "nat \<Rightarrow> u8 list \<Rightarrow> bc_store list" where
  "write_payload i v = map (\<lambda>(off, bs). St_data i off bs) (copy_in_words v)"

definition bc_push :: "u8 list \<Rightarrow> bcast_producer \<Rightarrow> bc_store list \<times> bcast_producer" where
  "bc_push v p =
     (let s = bp_next_seq p;
          i = bp_slot p s;
          writes = St_seq i (2 * s + 1) # write_payload i v @ [St_seq i (2 * s + 2)];
          p1 = p\<lparr>bp_next_seq := s + 1, bp_unpublished := bp_unpublished p + 1\<rparr>
      in if bp_unpublished p1 \<ge> bp_tail_batch p1
         then (case bc_publish_tail p1 of (sts, p2) \<Rightarrow> (writes @ sts, p2))
         else (writes, p1))"

text \<open>The heap ring's teardown: \<open>teardown_allowed\<close> is true.\<close>

definition bc_producer_drop :: "bcast_producer \<Rightarrow> bc_store list" where
  "bc_producer_drop p = fst (bc_flush p) @ [St_closed 1]"

definition bc_producer_tail :: "bcast_producer \<Rightarrow> u64" where
  "bc_producer_tail p = bp_next_seq p"

section \<open>The consumer\<close>

definition bc_available :: "bcast_consumer \<Rightarrow> bool" where
  "bc_available c \<longleftrightarrow> bc_tail_cache c > bc_pos c"

definition bc_refresh ::
  "(nat \<Rightarrow> bcast_shared) \<Rightarrow> nat \<Rightarrow> bcast_consumer \<Rightarrow> u64 \<times> nat \<times> bcast_consumer" where
  "bc_refresh seen n c = (bs_tail (seen n), Suc n, c\<lparr>bc_tail_cache := bs_tail (seen n)\<rparr>)"

definition bc_has_item ::
  "(nat \<Rightarrow> bcast_shared) \<Rightarrow> nat \<Rightarrow> bcast_consumer \<Rightarrow> bool \<times> nat \<times> bcast_consumer" where
  "bc_has_item seen n c =
     (if \<not> bc_available c
      then (case bc_refresh seen n c of (_, n1, c1) \<Rightarrow> (bc_available c1, n1, c1))
      else (True, n, c))"

text \<open>\<open>True\<close> is \<open>Err(Closed)\<close>.\<close>

definition bc_check_closed ::
  "(nat \<Rightarrow> bcast_shared) \<Rightarrow> nat \<Rightarrow> bcast_consumer \<Rightarrow> bool \<times> nat \<times> bcast_consumer" where
  "bc_check_closed seen n c =
     (if bs_closed (seen n) \<noteq> 0
      then (case bc_refresh seen (Suc n) c of (_, n1, c1) \<Rightarrow> (bc_tail_cache c1 \<le> bc_pos c1, n1, c1))
      else (False, Suc n, c))"

text \<open>
  The wait loop. \<open>wait n\<close> is how many loads the consumer has issued once its
  \<open>SelfTimed\<close> strategy, entered after \<open>n\<close> loads, comes back.
\<close>

partial_function (option) bc_wait_for_item ::
  "(nat \<Rightarrow> nat) \<Rightarrow> (nat \<Rightarrow> bcast_shared) \<Rightarrow> nat \<Rightarrow> bcast_consumer
     \<Rightarrow> (bool \<times> nat \<times> bcast_consumer) option" where
  "bc_wait_for_item wait seen n c =
     (case bc_has_item seen n c of (item, n1, c1) \<Rightarrow>
        if item then Some (True, n1, c1)
        else (case bc_check_closed seen n1 c1 of (closed, n2, c2) \<Rightarrow>
          if closed then Some (False, n2, c2)
          else if bc_available c2 then Some (True, n2, c2)
          else bc_wait_for_item wait seen (wait n2) c2))"

definition bc_reposition ::
  "(nat \<Rightarrow> bcast_shared) \<Rightarrow> nat \<Rightarrow> bcast_consumer \<Rightarrow> u64 \<times> nat \<times> bcast_consumer" where
  "bc_reposition seen n c =
     (case bc_refresh seen n c of (tail, n1, c1) \<Rightarrow>
        (let new_pos = max (reposition_target tail (bc_mask c1 + 1) (bc_slack c1)) (bc_pos c1);
             missed = new_pos - bc_pos c1
         in (missed, n1, c1\<lparr>bc_pos := new_pos\<rparr>)))"

definition bc_slot :: "bcast_consumer \<Rightarrow> u64 \<Rightarrow> nat" where
  "bc_slot c s = slot_ix (bc_mask c) s"

definition bc_read_slot ::
  "nat \<Rightarrow> (nat \<Rightarrow> bcast_shared) \<Rightarrow> nat \<Rightarrow> bcast_consumer
     \<Rightarrow> fault + (pop_error + u8 list) \<times> nat \<times> bcast_consumer" where
  "bc_read_slot esize seen n c =
     (let s = bc_pos c
      in case read_valid esize (\<lambda>k. bs_slots (seen (n + k)) ! bc_slot c s) (2 * s + 2) of
           Inl f \<Rightarrow> Inl f
         | Inr (Some v, loads) \<Rightarrow> Inr (Inr v, n + loads, c\<lparr>bc_pos := s + 1\<rparr>)
         | Inr (None, loads) \<Rightarrow>
             (case bc_reposition seen (n + loads) c of
                (missed, n1, c1) \<Rightarrow> Inr (Inl (Lagged missed), n1, c1)))"

definition bc_try_pop ::
  "nat \<Rightarrow> (nat \<Rightarrow> bcast_shared) \<Rightarrow> nat \<Rightarrow> bcast_consumer
     \<Rightarrow> fault + (pop_error + u8 list option) \<times> nat \<times> bcast_consumer" where
  "bc_try_pop esize seen n c =
     (case bc_has_item seen n c of (item, n1, c1) \<Rightarrow>
        if item
        then map_sum id (\<lambda>(r, n2, c2). (map_sum id Some r, n2, c2)) (bc_read_slot esize seen n1 c1)
        else (case bc_check_closed seen n1 c1 of (closed, n2, c2) \<Rightarrow>
          if closed then Inr (Inl Bc_closed, n2, c2)
          else if bc_available c2
          then map_sum id (\<lambda>(r, n3, c3). (map_sum id Some r, n3, c3)) (bc_read_slot esize seen n2 c2)
          else Inr (Inr None, n2, c2)))"

definition bc_pop ::
  "nat \<Rightarrow> (nat \<Rightarrow> nat) \<Rightarrow> (nat \<Rightarrow> bcast_shared) \<Rightarrow> nat \<Rightarrow> bcast_consumer
     \<Rightarrow> (fault + (pop_error + u8 list) \<times> nat \<times> bcast_consumer) option" where
  "bc_pop esize wait seen n c =
     map_option (\<lambda>(item, n1, c1).
         if item then bc_read_slot esize seen n1 c1 else Inr (Inl Bc_closed, n1, c1))
       (bc_wait_for_item wait seen n c)"

definition bc_skip_to_latest ::
  "(nat \<Rightarrow> bcast_shared) \<Rightarrow> nat \<Rightarrow> bcast_consumer \<Rightarrow> u64 \<times> nat \<times> bcast_consumer" where
  "bc_skip_to_latest seen n c =
     (case bc_refresh seen n c of (tail, n1, c1) \<Rightarrow>
        (saturating_sub tail (bc_pos c1), n1, c1\<lparr>bc_pos := max (bc_pos c1) tail\<rparr>))"

definition bc_lag :: "(nat \<Rightarrow> bcast_shared) \<Rightarrow> nat \<Rightarrow> bcast_consumer \<Rightarrow> u64 \<times> nat" where
  "bc_lag seen n c = (saturating_sub (bs_tail (seen n)) (bc_pos c), Suc n)"

text \<open>\<open>subscribe\<close> of either handle loads the tail once.\<close>

definition bc_subscribe :: "(nat \<Rightarrow> bcast_shared) \<Rightarrow> nat \<Rightarrow> bcast_consumer \<times> nat" where
  "bc_subscribe seen n = (bc_subscribe_from (seen n), Suc n)"

section \<open>Whole calls of the producer\<close>

datatype bc_call = Call_push "u8 list" | Call_flush | Call_batch u64 | Call_drop

text \<open>The stores of a run of calls; the producer is gone after its drop.\<close>

fun bc_program :: "bc_call list \<Rightarrow> bcast_producer \<Rightarrow> bc_store list" where
  "bc_program [] p = []"
| "bc_program (Call_push v # calls) p =
     (case bc_push v p of (sts, p1) \<Rightarrow> sts @ bc_program calls p1)"
| "bc_program (Call_flush # calls) p =
     (case bc_flush p of (sts, p1) \<Rightarrow> sts @ bc_program calls p1)"
| "bc_program (Call_batch b # calls) p =
     (case bc_set_tail_batch b p of (_, sts, p1) \<Rightarrow> sts @ bc_program calls p1)"
| "bc_program (Call_drop # calls) p = bc_producer_drop p"

fun bc_pushed :: "bc_call list \<Rightarrow> u8 list list" where
  "bc_pushed [] = []"
| "bc_pushed (Call_push v # calls) = v # bc_pushed calls"
| "bc_pushed (Call_drop # calls) = []"
| "bc_pushed (_ # calls) = bc_pushed calls"

text \<open>The shared memory after the first \<open>t\<close> stores of a program.\<close>

definition bc_memory :: "bcast_shared \<Rightarrow> bc_store list \<Rightarrow> nat \<Rightarrow> bcast_shared" where
  "bc_memory sh sts t = fold bc_apply (take t sts) sh"

end
