(* ===== verification/Lossy_History.thy ===== *)
theory Lossy_History
  imports Broadcast "HOL-Library.Sublist"
begin

text \<open>
  The contract between the producer of a lossy ring and its readers, as a
  locale over histories: \<open>mem r t\<close> is the shared memory of run \<open>r\<close> after its
  first \<open>t\<close> atomic stores. The laws are what the producer's seqlock protocol
  promises at every instant; every fact about the consumer's operations is
  proved here once, for any interleaving of the consumer's loads with the
  producer's stores, and serves each ring whose readers are broadcast's.
\<close>

section \<open>The abstract reader\<close>

text \<open>What a reader's call reports.\<close>

datatype 'v lossy_event = Got 'v | Missed nat | Skipped nat | Nothing | Ended

text \<open>
  \<open>replay ms pos evs\<close> follows the reports of a reader at position \<open>pos\<close> of the
  stream \<open>ms\<close>; \<open>None\<close> when a report is false of it.
\<close>

fun replay :: "'v list \<Rightarrow> nat \<Rightarrow> 'v lossy_event list \<Rightarrow> nat option" where
  "replay ms pos [] = Some pos"
| "replay ms pos (Got v # evs) =
     (if pos < length ms \<and> ms ! pos = v then replay ms (Suc pos) evs else None)"
| "replay ms pos (Missed m # evs) =
     (if pos + m \<le> length ms then replay ms (pos + m) evs else None)"
| "replay ms pos (Skipped m # evs) =
     (if pos + m \<le> length ms then replay ms (pos + m) evs else None)"
| "replay ms pos (Nothing # evs) = replay ms pos evs"
| "replay ms pos (Ended # evs) = (if pos = length ms then replay ms pos evs else None)"

fun got :: "'v lossy_event list \<Rightarrow> 'v list" where
  "got [] = []"
| "got (Got v # evs) = v # got evs"
| "got (_ # evs) = got evs"

fun lost :: "'v lossy_event list \<Rightarrow> nat" where
  "lost [] = 0"
| "lost (Missed m # evs) = m + lost evs"
| "lost (Skipped m # evs) = m + lost evs"
| "lost (_ # evs) = lost evs"

lemma replay_account: "replay ms pos evs = Some pos' \<Longrightarrow> pos' = pos + length (got evs) + lost evs"
  by (induction ms pos evs rule: replay.induct) (auto split: if_splits)

lemma replay_subseq: "replay ms pos evs = Some pos' \<Longrightarrow> subseq (got evs) (drop pos ms)"
proof (induction ms pos evs rule: replay.induct)
  case (2 ms pos v evs)
  then have "pos < length ms" "ms ! pos = v" "subseq (got evs) (drop (Suc pos) ms)"
    by (auto split: if_splits)
  then show ?case using Cons_nth_drop_Suc [of pos ms] by (metis got.simps(2) subseq_Cons2)
next
  case (3 ms pos m evs)
  then have "subseq (got evs) (drop m (drop pos ms))"
    by (auto split: if_splits simp: add.commute)
  then show ?case by (metis got.simps(3) list_emb_append2 append_take_drop_id)
next
  case (4 ms pos m evs)
  then have "subseq (got evs) (drop m (drop pos ms))"
    by (auto split: if_splits simp: add.commute)
  then show ?case by (metis got.simps(4) list_emb_append2 append_take_drop_id)
qed (auto split: if_splits)

lemma replay_lossless:
  "replay ms pos evs = Some pos' \<Longrightarrow> lost evs = 0 \<Longrightarrow> got evs = take (pos' - pos) (drop pos ms)"
proof (induction ms pos evs rule: replay.induct)
  case (2 ms pos v evs)
  then have 1: "pos < length ms" "ms ! pos = v" "replay ms (Suc pos) evs = Some pos'"
    by (auto split: if_splits)
  then have "pos' = Suc (pos + length (got evs))"
    using replay_account [OF 1(3)] 2(3) by simp
  then have "pos' - pos = Suc (pos' - Suc pos)" by linarith
  then show ?case
    using 1 2(1) [OF _ 1(3)] 2(3) Cons_nth_drop_Suc [of pos ms, symmetric] by simp
qed (auto split: if_splits)

section \<open>The calls of a reader\<close>

datatype lossy_op = Op_try_pop | Op_skip | Op_lag

fun lossy_exec ::
  "nat \<Rightarrow> (nat \<Rightarrow> bcast_shared) \<Rightarrow> lossy_op \<Rightarrow> nat \<Rightarrow> bcast_consumer
     \<Rightarrow> fault + u8 list lossy_event \<times> nat \<times> bcast_consumer" where
  "lossy_exec esize seen Op_try_pop n c =
     map_sum id (\<lambda>(r, n1, c1).
        ((case r of
            Inl (Lagged m) \<Rightarrow> Missed (unat m)
          | Inl Bc_closed \<Rightarrow> Ended
          | Inr None \<Rightarrow> Nothing
          | Inr (Some v) \<Rightarrow> Got v), n1, c1))
       (bc_try_pop esize seen n c)"
| "lossy_exec esize seen Op_skip n c =
     (case bc_skip_to_latest seen n c of (m, n1, c1) \<Rightarrow> Inr (Skipped (unat m), n1, c1))"
| "lossy_exec esize seen Op_lag n c = (case bc_lag seen n c of (_, n1) \<Rightarrow> Inr (Nothing, n1, c))"

fun lossy_run ::
  "nat \<Rightarrow> (nat \<Rightarrow> bcast_shared) \<Rightarrow> lossy_op list \<Rightarrow> nat \<Rightarrow> bcast_consumer
     \<Rightarrow> fault + u8 list lossy_event list \<times> nat \<times> bcast_consumer" where
  "lossy_run esize seen [] n c = Inr ([], n, c)"
| "lossy_run esize seen (x # ops) n c =
     (case lossy_exec esize seen x n c of
        Inl f \<Rightarrow> Inl f
      | Inr (ev, n1, c1) \<Rightarrow>
          map_sum id (\<lambda>(evs, n2, c2). (ev # evs, n2, c2)) (lossy_run esize seen ops n1 c1))"

section \<open>Arithmetic of the reposition\<close>

lemma saturating_sub_unat: "unat (saturating_sub a b) = unat a - unat b"
proof (cases "a < b")
  case True
  then show ?thesis by (simp add: saturating_sub_def word_less_nat_alt)
next
  case False
  then have "b \<le> a" by simp
  then show ?thesis using False by (simp add: saturating_sub_def unat_sub)
qed

lemma saturating_add_unat:
  assumes "unat a + unat b < word_span"
  shows "unat (saturating_add a b) = unat a + unat b"
  using unat_add_span [OF assms] unfolding saturating_add_def word_less_nat_alt by simp

lemma unat_max: "unat (max a b :: u64) = max (unat a) (unat b)"
  by (simp add: max_def word_le_nat_alt)

lemma unat_min: "unat (min a b :: u64) = min (unat a) (unat b)"
  by (simp add: min_def word_le_nat_alt)

lemma reposition_target_unat:
  assumes "unat tail < seq_span" and "valid_mask m" and "unat slack < capacity_of m"
  shows "unat (reposition_target tail (m + 1) slack) = unat tail + unat slack - capacity_of m"
proof -
  have "(2 :: nat) ^ 63 = 2 * seq_span" by (simp add: seq_span_def)
  then have "unat tail + unat slack < word_span"
    using assms(1,3) capacity_half [OF assms(2)] seq_span_word by linarith
  then show ?thesis
    unfolding reposition_target_def saturating_sub_unat
    by (simp only: saturating_add_unat capacity_of_def [symmetric])
qed

section \<open>The contract\<close>

locale lossy_history =
  fixes ok :: "'r \<Rightarrow> bool"
    and mk :: "'r \<Rightarrow> u64"
    and slk :: "'r \<Rightarrow> u64"
    and esz :: "'r \<Rightarrow> nat"
    and msgs :: "'r \<Rightarrow> u8 list list"
    and mem :: "'r \<Rightarrow> nat \<Rightarrow> bcast_shared"
    and begun :: "'r \<Rightarrow> nat \<Rightarrow> nat"
  assumes mask: "ok r \<Longrightarrow> valid_mask (mk r)"
    and slack: "ok r \<Longrightarrow> unat (slk r) < capacity_of (mk r)"
    and few: "ok r \<Longrightarrow> length (msgs r) < seq_span"
    and sizes: "ok r \<Longrightarrow> v \<in> set (msgs r) \<Longrightarrow> length v = esz r"
    and tail_mono: "ok r \<Longrightarrow> t \<le> t' \<Longrightarrow> bs_tail (mem r t) \<le> bs_tail (mem r t')"
    and tail_begun: "ok r \<Longrightarrow> unat (bs_tail (mem r t)) \<le> begun r t"
    and begun_le: "ok r \<Longrightarrow> begun r t \<le> length (msgs r)"
    and debt: "ok r \<Longrightarrow> begun r t \<le> unat (bs_tail (mem r t)) + max 1 (unat (slk r))"
    and gen_mono: "ok r \<Longrightarrow> t \<le> t' \<Longrightarrow>
      sl_seq (bs_slots (mem r t) ! slot_ix (mk r) x) \<le> sl_seq (bs_slots (mem r t') ! slot_ix (mk r) x)"
    and gen_exact: "ok r \<Longrightarrow> unat x < length (msgs r) \<Longrightarrow>
      sl_seq (bs_slots (mem r t) ! slot_ix (mk r) x) = 2 * x + 2 \<Longrightarrow>
      sl_data (bs_slots (mem r t) ! slot_ix (mk r) x) = map Some (msgs r ! unat x)"
    and gen_init: "ok r \<Longrightarrow> unat x < length (msgs r) \<Longrightarrow>
      2 * x + 2 \<le> sl_seq (bs_slots (mem r t) ! slot_ix (mk r) x) \<Longrightarrow>
      None \<notin> set (sl_data (bs_slots (mem r t) ! slot_ix (mk r) x))"
    and gen_published: "ok r \<Longrightarrow> x < bs_tail (mem r t) \<Longrightarrow>
      2 * x + 2 \<le> sl_seq (bs_slots (mem r t) ! slot_ix (mk r) x)"
    and gen_kept: "ok r \<Longrightarrow> x < bs_tail (mem r t) \<Longrightarrow> begun r t \<le> unat x + capacity_of (mk r) \<Longrightarrow>
      sl_seq (bs_slots (mem r t) ! slot_ix (mk r) x) = 2 * x + 2"
    and closed_final: "ok r \<Longrightarrow> bs_closed (mem r t) \<noteq> 0 \<Longrightarrow> unat (bs_tail (mem r t)) = length (msgs r)"
begin

text \<open>A reader whose next load comes at time \<open>t\<close> or later.\<close>

definition reader_ok where
  "reader_ok r t c \<longleftrightarrow> bc_mask c = mk r \<and> bc_slack c = slk r
     \<and> bc_pos c \<le> bs_tail (mem r t) \<and> bc_tail_cache c \<le> bs_tail (mem r t)"

text \<open>\<open>clk k\<close> is when the reader's \<open>k\<close>-th load happens.\<close>

definition seen_at where
  "seen_at r clk k = mem r (clk k)"

lemma tail_le: "ok r \<Longrightarrow> unat (bs_tail (mem r t)) \<le> length (msgs r)"
  using tail_begun [of r t] begun_le [of r t] by linarith

lemma tail_few: "ok r \<Longrightarrow> unat (bs_tail (mem r t)) < seq_span"
  using tail_le [of r t] few [of r] by linarith

lemma reader_ok_later: "ok r \<Longrightarrow> reader_ok r t c \<Longrightarrow> t \<le> t' \<Longrightarrow> reader_ok r t' c"
  using tail_mono [of r t t'] unfolding reader_ok_def by fastforce

lemma subscribe_ok:
  assumes "ok r" and "bs_mask (mem r t) = mk r" and "bs_slack (mem r t) = slk r"
  shows "reader_ok r t (bc_subscribe_from (mem r t))"
  using assms by (simp add: reader_ok_def bc_subscribe_from_def Let_def)

lemma reader_refresh_ok:
  assumes "ok r" and "mono clk" and "reader_ok r (clk n) c"
    and "bc_refresh (seen_at r clk) n c = (tv, n1, c1)"
  shows "n1 = Suc n" and "tv = bs_tail (mem r (clk n))" and "bc_tail_cache c1 = tv"
    and "bc_pos c1 = bc_pos c" and "reader_ok r (clk n1) c1"
    and "bc_mask c1 = bc_mask c" and "bc_slack c1 = bc_slack c"
proof -
  have eq: "tv = bs_tail (mem r (clk n))" "n1 = Suc n"
    "c1 = c\<lparr>bc_tail_cache := bs_tail (mem r (clk n))\<rparr>"
    using assms(4) by (auto simp: bc_refresh_def seen_at_def)
  have "reader_ok r (clk n) c1" using assms(3) by (simp add: reader_ok_def eq)
  moreover have "clk n \<le> clk (Suc n)" using assms(2) by (simp add: monoD)
  ultimately show "reader_ok r (clk n1) c1"
    using reader_ok_later [OF assms(1)] eq by blast
qed (use assms(4) in \<open>auto simp: bc_refresh_def seen_at_def\<close>)

lemma has_item_ok:
  assumes "ok r" and "mono clk" and "reader_ok r (clk n) c"
    and "bc_has_item (seen_at r clk) n c = (b, n1, c1)"
  shows "reader_ok r (clk n1) c1" and "bc_pos c1 = bc_pos c" and "b = bc_available c1"
    and "n \<le> n1"
    and "b \<or> n1 = Suc n \<and> bc_pos c = bs_tail (mem r (clk n))"
proof -
  consider (cached) "bc_available c" | (fresh) "\<not> bc_available c" by blast
  then have all: "reader_ok r (clk n1) c1 \<and> bc_pos c1 = bc_pos c \<and> b = bc_available c1 \<and> n \<le> n1
    \<and> (b \<or> n1 = Suc n \<and> bc_pos c = bs_tail (mem r (clk n)))"
  proof cases
    case cached
    then show ?thesis using assms(3,4) by (simp add: bc_has_item_def)
  next
    case fresh
    obtain tv n2 c2 where ref: "bc_refresh (seen_at r clk) n c = (tv, n2, c2)"
      by (metis prod_cases3)
    note R = reader_refresh_ok [OF assms(1-3) ref]
    have eq: "b = bc_available c2" "n1 = n2" "c1 = c2"
      using assms(4) fresh ref by (auto simp: bc_has_item_def)
    have "bc_pos c \<le> tv" using assms(3) R(2) by (simp add: reader_ok_def)
    then have "b \<or> bc_pos c = tv" using R(3,4) eq(1) by (auto simp: bc_available_def)
    then show ?thesis using R eq by auto
  qed
  then show "reader_ok r (clk n1) c1" "bc_pos c1 = bc_pos c" "b = bc_available c1" "n \<le> n1"
    "b \<or> n1 = Suc n \<and> bc_pos c = bs_tail (mem r (clk n))" by blast+
qed

lemma check_closed_ok:
  assumes "ok r" and "mono clk" and "reader_ok r (clk n) c"
    and "bc_check_closed (seen_at r clk) n c = (b, n1, c1)"
  shows "reader_ok r (clk n1) c1" and "bc_pos c1 = bc_pos c" and "n < n1"
    and "b \<Longrightarrow> unat (bc_pos c) = length (msgs r)"
    and "bs_closed (mem r (clk n)) \<noteq> 0 \<Longrightarrow> b \<or> bc_available c1"
proof -
  consider (closed) "bs_closed (mem r (clk n)) \<noteq> 0" | (still_open) "bs_closed (mem r (clk n)) = 0"
    by blast
  then have all: "reader_ok r (clk n1) c1 \<and> bc_pos c1 = bc_pos c \<and> n < n1
    \<and> (b \<longrightarrow> unat (bc_pos c) = length (msgs r))
    \<and> (bs_closed (mem r (clk n)) \<noteq> 0 \<longrightarrow> b \<or> bc_available c1)"
  proof cases
    case still_open
    then show ?thesis
      using assms(3,4) reader_ok_later [OF assms(1,3) monoD [OF assms(2), of n "Suc n"]]
      by (auto simp: bc_check_closed_def seen_at_def)
  next
    case closed
    have later: "reader_ok r (clk (Suc n)) c"
      using reader_ok_later [OF assms(1,3) monoD [OF assms(2), of n "Suc n"]] by simp
    obtain tv n2 c2 where ref: "bc_refresh (seen_at r clk) (Suc n) c = (tv, n2, c2)"
      by (metis prod_cases3)
    note R = reader_refresh_ok [OF assms(1,2) later ref]
    have eq: "b \<longleftrightarrow> bc_tail_cache c2 \<le> bc_pos c2" "n1 = n2" "c1 = c2"
      using assms(4) closed ref by (auto simp: bc_check_closed_def seen_at_def)
    have "unat (bs_tail (mem r (clk n))) = length (msgs r)"
      using closed_final [OF assms(1) closed] .
    moreover have "bs_tail (mem r (clk n)) \<le> bs_tail (mem r (clk (Suc n)))"
      using tail_mono [OF assms(1)] monoD [OF assms(2), of n "Suc n"] by simp
    ultimately have full: "unat tv = length (msgs r)"
      using tail_le [OF assms(1), of "clk (Suc n)"] R(2) by (simp add: word_le_nat_alt)
    have "bc_pos c \<le> tv" using later R(2) by (simp add: reader_ok_def)
    then have "b \<longrightarrow> bc_pos c = tv" using eq(1) R(3,4) by simp
    then show ?thesis using R eq full by (auto simp: bc_available_def)
  qed
  then show "reader_ok r (clk n1) c1" "bc_pos c1 = bc_pos c" "n < n1"
    "b \<Longrightarrow> unat (bc_pos c) = length (msgs r)"
    "bs_closed (mem r (clk n)) \<noteq> 0 \<Longrightarrow> b \<or> bc_available c1" by blast+
qed


lemma reposition_ok:
  assumes "ok r" and "mono clk" and "reader_ok r (clk n) c"
    and "bc_reposition (seen_at r clk) n c = (m, n1, c1)"
  shows "n1 = Suc n" and "reader_ok r (clk n1) c1"
    and "unat (bc_pos c1) = unat (bc_pos c) + unat m"
    and "unat (bc_pos c1)
      = max (unat (bs_tail (mem r (clk n))) + unat (slk r) - capacity_of (mk r)) (unat (bc_pos c))"
proof -
  obtain tv n2 c2 where ref: "bc_refresh (seen_at r clk) n c = (tv, n2, c2)"
    by (metis prod_cases3)
  note R = reader_refresh_ok [OF assms(1-3) ref]
  define p where "p = max (reposition_target tv (bc_mask c2 + 1) (bc_slack c2)) (bc_pos c2)"
  have eq: "m = p - bc_pos c2" "n1 = n2" "c1 = c2\<lparr>bc_pos := p\<rparr>"
    using assms(4) ref by (auto simp: bc_reposition_def p_def Let_def)
  have geo: "bc_mask c2 = mk r" "bc_slack c2 = slk r" using R(5) by (simp_all add: reader_ok_def)
  have tgt: "unat (reposition_target tv (bc_mask c2 + 1) (bc_slack c2))
      = unat tv + unat (slk r) - capacity_of (mk r)"
    unfolding geo using reposition_target_unat tail_few [OF assms(1)] mask [OF assms(1)]
      slack [OF assms(1)] R(2) by blast
  have p: "unat p = max (unat tv + unat (slk r) - capacity_of (mk r)) (unat (bc_pos c))"
    unfolding p_def unat_max tgt R(4) ..
  have "bc_pos c \<le> p" unfolding p_def R(4) by simp
  then have m: "unat m = unat p - unat (bc_pos c)" using eq(1) R(4) by (simp add: unat_sub)
  have "unat (bc_pos c) \<le> unat tv"
    using assms(3) R(2) by (simp add: reader_ok_def word_le_nat_alt)
  then have "unat p \<le> unat tv" using p slack [OF assms(1)] by simp
  then have "p \<le> bs_tail (mem r (clk n))" using R(2) by (simp add: word_le_nat_alt)
  also have "\<dots> \<le> bs_tail (mem r (clk n1))"
    using tail_mono [OF assms(1)] monoD [OF assms(2), of n n1] eq(2) R(1) by simp
  finally show "reader_ok r (clk n1) c1" using R(5) eq by (simp add: reader_ok_def)
  show "n1 = Suc n" using R(1) eq(2) by simp
  show "unat (bc_pos c1) = unat (bc_pos c) + unat m"
    using m \<open>bc_pos c \<le> p\<close> eq(3) by (simp add: word_le_nat_alt)
  show "unat (bc_pos c1)
      = max (unat (bs_tail (mem r (clk n))) + unat (slk r) - capacity_of (mk r)) (unat (bc_pos c))"
    using p eq(3) R(2) by simp
qed

text \<open>What the reader gets for its position, at its \<open>k\<close>-th load.\<close>

definition slot_seen where
  "slot_seen r clk n x k = bs_slots (seen_at r clk (n + k)) ! slot_ix (mk r) x"

lemma read_valid_here:
  assumes "ok r" and "mono clk" and "x < bs_tail (mem r (clk n))"
  obtains (accepted)
      "read_valid (esz r) (slot_seen r clk n x) (2 * x + 2)
        = Inr (Some (msgs r ! unat x), word_loads (esz r) + 2)"
  | (rejected) loads where
      "read_valid (esz r) (slot_seen r clk n x) (2 * x + 2) = Inr (None, loads)"
      and "1 \<le> loads" and "unat x + capacity_of (mk r) < begun r (clk (n + loads - 1))"
proof -
  have x: "x < bs_tail (mem r (clk (n + k)))" for k
    using assms(3) tail_mono [OF assms(1)] monoD [OF assms(2), of n "n + k"]
    by (meson le_add1 order_less_le_trans)
  have len: "unat x < length (msgs r)"
    using assms(3) tail_le [OF assms(1), of "clk n"] by (simp add: word_less_nat_alt)
  have late: "unat x + capacity_of (mk r) < begun r (clk (n + k))"
    if "sl_seq (slot_seen r clk n x k) \<noteq> 2 * x + 2" for k
    using that gen_kept [OF assms(1) x [of k]]
    by (force simp: slot_seen_def seen_at_def not_le)
  have rv: "read_valid (esz r) (slot_seen r clk n x) (2 * x + 2) =
    (if sl_seq (slot_seen r clk n x 0) = 2 * x + 2
     then Inr (if sl_seq (slot_seen r clk n x (Suc (word_loads (esz r)))) = 2 * x + 2
               then Some (msgs r ! unat x) else None, word_loads (esz r) + 2)
     else Inr (None, 1))"
  proof (rule read_valid_untorn)
    show "2 * x + 2 \<le> sl_seq (slot_seen r clk n x 0)"
      using gen_published [OF assms(1) x [of 0]] by (simp add: slot_seen_def seen_at_def)
    show "sl_seq (slot_seen r clk n x j) \<le> sl_seq (slot_seen r clk n x (Suc j))" for j
      using gen_mono [OF assms(1), of "clk (n + j)" "clk (n + Suc j)" x]
        monoD [OF assms(2), of "n + j" "n + Suc j"]
      by (simp add: slot_seen_def seen_at_def)
    show "sl_data (slot_seen r clk n x j) = map Some (msgs r ! unat x)"
      if "sl_seq (slot_seen r clk n x j) = 2 * x + 2" for j
      using gen_exact [OF assms(1) len] that by (simp add: slot_seen_def seen_at_def)
    show "None \<notin> set (sl_data (slot_seen r clk n x j))"
      if "2 * x + 2 \<le> sl_seq (slot_seen r clk n x j)" for j
      using gen_init [OF assms(1) len] that by (simp add: slot_seen_def seen_at_def)
    show "length (msgs r ! unat x) = esz r"
      using sizes [OF assms(1)] len by simp
  qed
  show ?thesis
  proof (cases "sl_seq (slot_seen r clk n x 0) = 2 * x + 2")
    case False
    then have "read_valid (esz r) (slot_seen r clk n x) (2 * x + 2) = Inr (None, 1)"
      using rv by simp
    then show ?thesis by (rule rejected) (use late [OF False] in simp_all)
  next
    case True
    note start = True
    show ?thesis
    proof (cases "sl_seq (slot_seen r clk n x (Suc (word_loads (esz r)))) = 2 * x + 2")
      case True
      then show ?thesis by (intro accepted) (use rv start in simp)
    next
      case False
      then have "read_valid (esz r) (slot_seen r clk n x) (2 * x + 2)
          = Inr (None, word_loads (esz r) + 2)" using rv start by simp
      then show ?thesis by (rule rejected) (use late [OF False] in simp_all)
    qed
  qed
qed

lemma read_slot_ok:
  assumes "ok r" and "mono clk" and "reader_ok r (clk n) c" and "bc_available c"
  obtains (accepted) n1 c1 where
      "bc_read_slot (esz r) (seen_at r clk) n c = Inr (Inr (msgs r ! unat (bc_pos c)), n1, c1)"
      and "n < n1" and "reader_ok r (clk n1) c1"
      and "unat (bc_pos c) < length (msgs r)" and "unat (bc_pos c1) = Suc (unat (bc_pos c))"
  | (lagged) m n1 c1 where
      "bc_read_slot (esz r) (seen_at r clk) n c = Inr (Inl (Lagged m), n1, c1)"
      and "n + 2 \<le> n1" and "reader_ok r (clk n1) c1"
      and "unat (bc_pos c1) = unat (bc_pos c) + unat m"
      and "unat (bc_pos c) + capacity_of (mk r) < begun r (clk (n1 - 2))"
      and "unat (bc_pos c1) = max (unat (bs_tail (mem r (clk (n1 - 1)))) + unat (slk r)
             - capacity_of (mk r)) (unat (bc_pos c))"
proof -
  define x where "x = bc_pos c"
  have "bc_tail_cache c \<le> bs_tail (mem r (clk n))" and mk: "bc_mask c = mk r"
    using assms(3) by (simp_all add: reader_ok_def)
  then have x: "x < bs_tail (mem r (clk n))"
    using assms(4) by (auto simp: bc_available_def x_def)
  have slot: "(\<lambda>k. bs_slots (seen_at r clk (n + k)) ! bc_slot c x) = slot_seen r clk n x"
    by (rule ext) (simp add: slot_seen_def bc_slot_def mk)
  show ?thesis
  proof (rule read_valid_here [OF assms(1,2) x])
    assume rv: "read_valid (esz r) (slot_seen r clk n x) (2 * x + 2)
      = Inr (Some (msgs r ! unat x), word_loads (esz r) + 2)"
    define n1 where "n1 = n + (word_loads (esz r) + 2)"
    have read: "bc_read_slot (esz r) (seen_at r clk) n c
        = Inr (Inr (msgs r ! unat x), n1, c\<lparr>bc_pos := x + 1\<rparr>)"
      using rv slot by (simp add: bc_read_slot_def x_def [symmetric] n1_def)
    have suc: "unat (x + 1) = Suc (unat x)"
      using x tail_few [OF assms(1), of "clk n"] seq_span_word unat_add_span [of x 1]
      by (simp add: word_less_nat_alt)
    then have le: "x + 1 \<le> bs_tail (mem r (clk n))"
      using x by (simp add: word_le_nat_alt word_less_nat_alt)
    have "reader_ok r (clk n) (c\<lparr>bc_pos := x + 1\<rparr>)"
      using assms(3) le by (simp add: reader_ok_def)
    then have "reader_ok r (clk n1) (c\<lparr>bc_pos := x + 1\<rparr>)"
      using reader_ok_later [OF assms(1)] monoD [OF assms(2), of n n1] by (simp add: n1_def)
    then show ?thesis
      using accepted [OF read [unfolded x_def]] suc x tail_le [OF assms(1), of "clk n"]
      by (simp add: n1_def x_def word_less_nat_alt)
  next
    fix loads
    assume rv: "read_valid (esz r) (slot_seen r clk n x) (2 * x + 2) = Inr (None, loads)"
      and loads: "1 \<le> loads" and late: "unat x + capacity_of (mk r) < begun r (clk (n + loads - 1))"
    obtain m n1 c1 where rep: "bc_reposition (seen_at r clk) (n + loads) c = (m, n1, c1)"
      by (metis prod_cases3)
    have later: "reader_ok r (clk (n + loads)) c"
      using reader_ok_later [OF assms(1,3)] monoD [OF assms(2), of n "n + loads"] by simp
    note R = reposition_ok [OF assms(1,2) later rep]
    have read: "bc_read_slot (esz r) (seen_at r clk) n c = Inr (Inl (Lagged m), n1, c1)"
      using rv slot rep by (simp add: bc_read_slot_def x_def [symmetric])
    show ?thesis
    proof (rule lagged [OF read])
      show "n + 2 \<le> n1" using R(1) loads by linarith
      have i: "n1 - 2 = n + loads - 1" "n1 - 1 = n + loads" using R(1) by simp_all
      show "unat (bc_pos c) + capacity_of (mk r) < begun r (clk (n1 - 2))"
        using late unfolding i x_def .
      show "unat (bc_pos c1) = max (unat (bs_tail (mem r (clk (n1 - 1)))) + unat (slk r)
             - capacity_of (mk r)) (unat (bc_pos c))"
        using R(4) unfolding i .
    qed (use R in auto)
  qed
qed

lemma try_pop_ok:
  assumes "ok r" and "mono clk" and "reader_ok r (clk n) c"
  obtains (accepted) n1 c1 where
      "bc_try_pop (esz r) (seen_at r clk) n c = Inr (Inr (Some (msgs r ! unat (bc_pos c))), n1, c1)"
      and "n < n1" and "reader_ok r (clk n1) c1"
      and "unat (bc_pos c) < length (msgs r)" and "unat (bc_pos c1) = Suc (unat (bc_pos c))"
  | (lagged) m n1 c1 where
      "bc_try_pop (esz r) (seen_at r clk) n c = Inr (Inl (Lagged m), n1, c1)"
      and "n + 2 \<le> n1" and "reader_ok r (clk n1) c1"
      and "unat (bc_pos c1) = unat (bc_pos c) + unat m"
      and "unat (bc_pos c) + capacity_of (mk r) < begun r (clk (n1 - 2))"
      and "unat (bc_pos c1) = max (unat (bs_tail (mem r (clk (n1 - 1)))) + unat (slk r)
             - capacity_of (mk r)) (unat (bc_pos c))"
  | (idle) n1 c1 where
      "bc_try_pop (esz r) (seen_at r clk) n c = Inr (Inr None, n1, c1)"
      and "n < n1" and "reader_ok r (clk n1) c1" and "bc_pos c1 = bc_pos c"
      and "bc_pos c = bs_tail (mem r (clk n))" and "bs_closed (mem r (clk (Suc n))) = 0"
  | (ended) n1 c1 where
      "bc_try_pop (esz r) (seen_at r clk) n c = Inr (Inl Bc_closed, n1, c1)"
      and "n < n1" and "reader_ok r (clk n1) c1" and "bc_pos c1 = bc_pos c"
      and "unat (bc_pos c) = length (msgs r)"
proof -
  obtain b n1 c1 where item: "bc_has_item (seen_at r clk) n c = (b, n1, c1)" by (metis prod_cases3)
  note H = has_item_ok [OF assms item]
  show ?thesis
  proof (cases b)
    case True
    then have av: "bc_available c1" using H(3) by simp
    show ?thesis
    proof (rule read_slot_ok [OF assms(1,2) H(1) av])
      fix n2 c2
      assume "bc_read_slot (esz r) (seen_at r clk) n1 c1
          = Inr (Inr (msgs r ! unat (bc_pos c1)), n2, c2)" and *: "n1 < n2" "reader_ok r (clk n2) c2"
        "unat (bc_pos c1) < length (msgs r)" "unat (bc_pos c2) = Suc (unat (bc_pos c1))"
      then have "bc_try_pop (esz r) (seen_at r clk) n c
          = Inr (Inr (Some (msgs r ! unat (bc_pos c))), n2, c2)"
        using item True H(2) by (simp add: bc_try_pop_def)
      then show ?thesis by (rule accepted) (use * H(2,4) in auto)
    next
      fix m n2 c2
      assume "bc_read_slot (esz r) (seen_at r clk) n1 c1 = Inr (Inl (Lagged m), n2, c2)"
        and *: "n1 + 2 \<le> n2" "reader_ok r (clk n2) c2"
          "unat (bc_pos c2) = unat (bc_pos c1) + unat m"
          "unat (bc_pos c1) + capacity_of (mk r) < begun r (clk (n2 - 2))"
          "unat (bc_pos c2) = max (unat (bs_tail (mem r (clk (n2 - 1)))) + unat (slk r)
             - capacity_of (mk r)) (unat (bc_pos c1))"
      then have "bc_try_pop (esz r) (seen_at r clk) n c = Inr (Inl (Lagged m), n2, c2)"
        using item True by (simp add: bc_try_pop_def)
      then show ?thesis by (rule lagged) (use * H(2,4) in auto)
    qed
  next
    case False
    note empty = this
    obtain b2 n2 c2 where chk: "bc_check_closed (seen_at r clk) n1 c1 = (b2, n2, c2)"
      by (metis prod_cases3)
    note C = check_closed_ok [OF assms(1,2) H(1) chk]
    have pos: "bc_pos c2 = bc_pos c" using C(2) H(2) by simp
    show ?thesis
    proof (cases b2)
      case True
      then have "bc_try_pop (esz r) (seen_at r clk) n c = Inr (Inl Bc_closed, n2, c2)"
        using item chk empty by (simp add: bc_try_pop_def)
      then show ?thesis by (rule ended) (use C H(2,4) True in auto)
    next
      case False
      note still_open = this
      show ?thesis
      proof (cases "bc_available c2")
        case av: True
        show ?thesis
        proof (rule read_slot_ok [OF assms(1,2) C(1) av])
          fix n3 c3
          assume "bc_read_slot (esz r) (seen_at r clk) n2 c2
              = Inr (Inr (msgs r ! unat (bc_pos c2)), n3, c3)"
            and *: "n2 < n3" "reader_ok r (clk n3) c3"
              "unat (bc_pos c2) < length (msgs r)" "unat (bc_pos c3) = Suc (unat (bc_pos c2))"
          then have "bc_try_pop (esz r) (seen_at r clk) n c
              = Inr (Inr (Some (msgs r ! unat (bc_pos c))), n3, c3)"
            using item chk empty still_open av pos by (simp add: bc_try_pop_def)
          then show ?thesis by (rule accepted) (use * H(4) C(3) pos in auto)
        next
          fix m n3 c3
          assume "bc_read_slot (esz r) (seen_at r clk) n2 c2 = Inr (Inl (Lagged m), n3, c3)"
            and *: "n2 + 2 \<le> n3" "reader_ok r (clk n3) c3"
              "unat (bc_pos c3) = unat (bc_pos c2) + unat m"
              "unat (bc_pos c2) + capacity_of (mk r) < begun r (clk (n3 - 2))"
              "unat (bc_pos c3) = max (unat (bs_tail (mem r (clk (n3 - 1)))) + unat (slk r)
                 - capacity_of (mk r)) (unat (bc_pos c2))"
          then have "bc_try_pop (esz r) (seen_at r clk) n c = Inr (Inl (Lagged m), n3, c3)"
            using item chk empty still_open av by (simp add: bc_try_pop_def)
          then show ?thesis by (rule lagged) (use * H(4) C(3) pos in auto)
        qed
      next
        case False
        note unavailable = False
        then have "bc_try_pop (esz r) (seen_at r clk) n c = Inr (Inr None, n2, c2)"
          using item chk empty still_open by (simp add: bc_try_pop_def)
        then show ?thesis by (rule idle) (use H(4,5) C pos empty still_open unavailable in auto)
      qed
    qed
  qed
qed

lemma exec_ok:
  assumes "ok r" and "mono clk" and "reader_ok r (clk n) c"
  shows "\<exists>ev n1 c1. lossy_exec (esz r) (seen_at r clk) x n c = Inr (ev, n1, c1) \<and> n < n1
    \<and> reader_ok r (clk n1) c1 \<and> replay (msgs r) (unat (bc_pos c)) [ev] = Some (unat (bc_pos c1))"
proof (cases x)
  case Op_try_pop
  have le: "unat (bc_pos c1) \<le> length (msgs r)" if "reader_ok r t c1" for c1 t
    using that tail_le [OF assms(1), of t] by (simp add: reader_ok_def word_le_nat_alt)
  show ?thesis
  proof (rule try_pop_ok [OF assms])
    fix m n1 c1
    assume "bc_try_pop (esz r) (seen_at r clk) n c = Inr (Inl (Lagged m), n1, c1)"
      and "n + 2 \<le> n1" and r: "reader_ok r (clk n1) c1"
      and "unat (bc_pos c1) = unat (bc_pos c) + unat m"
    then show ?thesis using le [OF r] Op_try_pop by simp
  qed (use Op_try_pop in auto)
next
  case Op_skip
  obtain tv n1 c1 where ref: "bc_refresh (seen_at r clk) n c = (tv, n1, c1)" by (metis prod_cases3)
  note R = reader_refresh_ok [OF assms ref]
  define p where "p = max (bc_pos c1) tv"
  have "bc_pos c \<le> tv" using assms(3) R(2) by (simp add: reader_ok_def)
  then have p: "p = tv" "unat p = unat (bc_pos c) + unat (saturating_sub tv (bc_pos c1))"
    using R(4) by (simp_all add: p_def saturating_sub_unat word_le_nat_alt)
  have tv: "tv \<le> bs_tail (mem r (clk n1))"
    using R(1,2) tail_mono [OF assms(1)] monoD [OF assms(2), of n n1] by simp
  have "reader_ok r (clk n1) (c1\<lparr>bc_pos := p\<rparr>)"
    using R(5) tv p(1) by (simp add: reader_ok_def)
  moreover have "unat p \<le> length (msgs r)" using p(1) R(2) tail_le [OF assms(1), of "clk n"] by simp
  ultimately show ?thesis
    using Op_skip ref p(2) R(1) by (simp add: bc_skip_to_latest_def p_def [symmetric])
next
  case Op_lag
  have "reader_ok r (clk (Suc n)) c"
    using reader_ok_later [OF assms(1,3)] monoD [OF assms(2), of n "Suc n"] by simp
  then show ?thesis using Op_lag by (simp add: bc_lag_def)
qed

lemma replay_step:
  "replay ms p [ev] = Some p1 \<Longrightarrow> replay ms p (ev # evs) = replay ms p1 evs"
  by (cases ev) (auto split: if_splits)

text \<open>No run of calls faults, and its reports are true of the stream of messages.\<close>

lemma run_ok:
  assumes "ok r" and "mono clk" and "reader_ok r (clk n) c"
  shows "\<exists>evs n1 c1. lossy_run (esz r) (seen_at r clk) ops n c = Inr (evs, n1, c1) \<and> n \<le> n1
    \<and> reader_ok r (clk n1) c1 \<and> replay (msgs r) (unat (bc_pos c)) evs = Some (unat (bc_pos c1))"
  using assms(3)
proof (induction ops arbitrary: n c)
  case (Cons x ops)
  obtain ev n1 c1 where 1: "lossy_exec (esz r) (seen_at r clk) x n c = Inr (ev, n1, c1)" "n < n1"
    "reader_ok r (clk n1) c1" "replay (msgs r) (unat (bc_pos c)) [ev] = Some (unat (bc_pos c1))"
    using exec_ok [OF assms(1,2) Cons.prems] by blast
  obtain evs n2 c2 where 2: "lossy_run (esz r) (seen_at r clk) ops n1 c1 = Inr (evs, n2, c2)"
    "n1 \<le> n2" "reader_ok r (clk n2) c2"
    "replay (msgs r) (unat (bc_pos c1)) evs = Some (unat (bc_pos c2))"
    using Cons.IH [OF 1(3)] by blast
  have "lossy_run (esz r) (seen_at r clk) (x # ops) n c = Inr (ev # evs, n2, c2)"
    using 1(1) 2(1) by simp
  moreover have "replay (msgs r) (unat (bc_pos c)) (ev # evs) = Some (unat (bc_pos c2))"
    using replay_step [OF 1(4)] 2(4) by simp
  ultimately show ?case using 1(2) 2(2,3) by fastforce
qed simp

text \<open>
  After a lag the next call delivers, unless the producer has begun more than
  \<open>slack\<close> messages beyond the tail the reposition saw.
\<close>

lemma headroom:
  assumes "ok r" and "mono clk" and "reader_ok r (clk n) c"
    and lag: "bc_try_pop (esz r) (seen_at r clk) n c = Inr (Inl (Lagged m), n1, c1)"
    and again: "bc_try_pop (esz r) (seen_at r clk) n1 c1 = Inr (Inl (Lagged m'), n2, c2)"
  shows "unat (bs_tail (mem r (clk (n1 - 1)))) + unat (slk r) < begun r (clk (n2 - 2))"
proof -
  have 1: "reader_ok r (clk n1) c1" "unat (bs_tail (mem r (clk (n1 - 1)))) + unat (slk r)
      \<le> unat (bc_pos c1) + capacity_of (mk r)"
    by (rule try_pop_ok [OF assms(1-3)]; use lag in simp)+
  have "unat (bc_pos c1) + capacity_of (mk r) < begun r (clk (n2 - 2))"
    by (rule try_pop_ok [OF assms(1,2) 1(1)]; use again in simp)
  then show ?thesis using 1(2) by linarith
qed

lemma lag_lands_behind:
  assumes "ok r" and "mono clk" and "reader_ok r (clk n) c"
    and lag: "bc_try_pop (esz r) (seen_at r clk) n c = Inr (Inl (Lagged m), n1, c1)"
  shows "unat (bc_pos c1) < unat (bs_tail (mem r (clk (n1 - 1))))"
proof -
  have 1: "unat (bc_pos c1) = max (unat (bs_tail (mem r (clk (n1 - 1)))) + unat (slk r)
       - capacity_of (mk r)) (unat (bc_pos c))"
    "unat (bc_pos c) + capacity_of (mk r) < begun r (clk (n1 - 2))"
    by (rule try_pop_ok [OF assms(1-3)]; use lag in simp)+
  have "unat (bs_tail (mem r (clk (n1 - 2)))) \<le> unat (bs_tail (mem r (clk (n1 - 1))))"
    using tail_mono [OF assms(1) monoD [OF assms(2), of "n1 - 2" "n1 - 1"]]
    by (simp add: word_le_nat_alt)
  then show ?thesis
    using 1 debt [OF assms(1), of "clk (n1 - 2)"] slack [OF assms(1)] capacity_pos [OF mask [OF assms(1)]]
    by linarith
qed

text \<open>On an idle producer a ring with slack never lags twice in a row.\<close>

lemma no_livelock:
  assumes "ok r" and "mono clk" and "reader_ok r (clk n) c" and "0 < slk r"
    and lag: "bc_try_pop (esz r) (seen_at r clk) n c = Inr (Inl (Lagged m), n1, c1)"
    and quiet: "\<And>k. n1 - 1 \<le> k \<Longrightarrow> clk k = clk (n1 - 1)"
  shows "bc_try_pop (esz r) (seen_at r clk) n1 c1 \<noteq> Inr (Inl (Lagged m'), n2, c2)"
proof
  assume again: "bc_try_pop (esz r) (seen_at r clk) n1 c1 = Inr (Inl (Lagged m'), n2, c2)"
  have 1: "reader_ok r (clk n1) c1" by (rule try_pop_ok [OF assms(1-3)]; use lag in simp)
  have "n1 + 2 \<le> n2" by (rule try_pop_ok [OF assms(1,2) 1]; use again in simp)
  then have "clk (n2 - 2) = clk (n1 - 1)" by (intro quiet) linarith
  moreover have "0 < unat (slk r)" using assms(4) by (simp add: word_less_nat_alt)
  ultimately show False
    using headroom [OF assms(1-3) lag again] debt [OF assms(1), of "clk (n1 - 1)"] by simp
qed

text \<open>
  \<open>pop\<close> returns once the reader has seen a message beyond its position, or the
  close, from some load on.
\<close>

lemma wait_ok:
  assumes "ok r" and "mono clk" and "reader_ok r (clk n) c" and "\<And>k. k \<le> wait k"
    and "\<And>k. n + d \<le> k \<Longrightarrow> bs_tail (mem r (clk k)) \<noteq> bc_pos c \<or> bs_closed (mem r (clk k)) \<noteq> 0"
  shows "\<exists>b n1 c1. bc_wait_for_item wait (seen_at r clk) n c = Some (b, n1, c1)
    \<and> n \<le> n1 \<and> reader_ok r (clk n1) c1 \<and> bc_pos c1 = bc_pos c
    \<and> (if b then bc_available c1 else unat (bc_pos c) = length (msgs r))"
  using assms(3,5)
proof (induction d arbitrary: n c rule: less_induct)
  case (less d)
  obtain b n1 c1 where item: "bc_has_item (seen_at r clk) n c = (b, n1, c1)" by (metis prod_cases3)
  note H = has_item_ok [OF assms(1,2) less.prems(1) item]
  obtain b2 n2 c2 where chk: "bc_check_closed (seen_at r clk) n1 c1 = (b2, n2, c2)"
    by (metis prod_cases3)
  note C = check_closed_ok [OF assms(1,2) H(1) chk]
  have step: "bc_wait_for_item wait (seen_at r clk) n c =
      (if b then Some (True, n1, c1) else if b2 then Some (False, n2, c2)
       else if bc_available c2 then Some (True, n2, c2)
       else bc_wait_for_item wait (seen_at r clk) (wait n2) c2)"
    using item chk by (subst bc_wait_for_item.simps) simp
  consider (item) b | (ended) "\<not> b" b2 | (late) "\<not> b" "\<not> b2" "bc_available c2"
    | (again) "\<not> b" "\<not> b2" "\<not> bc_available c2" by blast
  then show ?case
  proof cases
    case item
    then show ?thesis using step H by auto
  next
    case ended
    then show ?thesis using step H C by auto
  next
    case late
    then show ?thesis using step H C by auto
  next
    case again
    then have n1: "n1 = Suc n" and t: "bc_pos c = bs_tail (mem r (clk n))" using H(5) by blast+
    have nc: "bs_closed (mem r (clk n1)) = 0" using C(5) again by blast
    have d: "d \<noteq> 0"
    proof
      assume "d = 0"
      then have all: "bs_tail (mem r (clk k)) \<noteq> bc_pos c \<or> bs_closed (mem r (clk k)) \<noteq> 0"
        if "n \<le> k" for k using less.prems(2) that by simp
      then have "unat (bs_tail (mem r (clk n))) = length (msgs r)"
        using t closed_final [OF assms(1)] all [OF order_refl] by simp
      then have "bs_tail (mem r (clk n1)) \<le> bs_tail (mem r (clk n))"
        using tail_le [OF assms(1), of "clk n1"] by (simp add: word_le_nat_alt)
      then have "bs_tail (mem r (clk n1)) = bc_pos c"
        using t tail_mono [OF assms(1) monoD [OF assms(2), of n n1]] n1 by simp
      then show False using all [of n1] n1 nc by simp
    qed
    have r2: "reader_ok r (clk (wait n2)) c2"
      using reader_ok_later [OF assms(1) C(1)] monoD [OF assms(2)] assms(4) by blast
    have far: "n + d \<le> wait n2 + (d - 1)"
      using assms(4) [of n2] C(3) n1 d by linarith
    have "\<exists>b n3 c3. bc_wait_for_item wait (seen_at r clk) (wait n2) c2 = Some (b, n3, c3)
      \<and> wait n2 \<le> n3 \<and> reader_ok r (clk n3) c3 \<and> bc_pos c3 = bc_pos c2
      \<and> (if b then bc_available c3 else unat (bc_pos c2) = length (msgs r))"
      by (rule less.IH [of "d - 1"]) (use d r2 far less.prems(2) C(2) H(2) in auto)
    then obtain b3 n3 c3 where rest: "bc_wait_for_item wait (seen_at r clk) (wait n2) c2
        = Some (b3, n3, c3)" "wait n2 \<le> n3" "reader_ok r (clk n3) c3" "bc_pos c3 = bc_pos c2"
      "if b3 then bc_available c3 else unat (bc_pos c2) = length (msgs r)" by blast
    have "bc_wait_for_item wait (seen_at r clk) n c = Some (b3, n3, c3)"
      using step again rest(1) by simp
    moreover have "n \<le> n3" using rest(2) assms(4) [of n2] C(3) n1 by linarith
    ultimately show ?thesis using rest(3-5) C(2) H(2) by auto
  qed
qed

lemma pop_ok:
  assumes "ok r" and "mono clk" and "reader_ok r (clk n) c" and "\<And>k. k \<le> wait k"
    and "\<And>k. n + d \<le> k \<Longrightarrow> bs_tail (mem r (clk k)) \<noteq> bc_pos c \<or> bs_closed (mem r (clk k)) \<noteq> 0"
  shows "\<exists>res n1 c1. bc_pop (esz r) wait (seen_at r clk) n c = Some (Inr (res, n1, c1))
    \<and> reader_ok r (clk n1) c1
    \<and> (case res of
         Inr v \<Rightarrow> unat (bc_pos c) < length (msgs r) \<and> v = msgs r ! unat (bc_pos c)
           \<and> unat (bc_pos c1) = Suc (unat (bc_pos c))
       | Inl (Lagged m) \<Rightarrow> unat (bc_pos c1) = unat (bc_pos c) + unat m
       | Inl Bc_closed \<Rightarrow> bc_pos c1 = bc_pos c \<and> unat (bc_pos c) = length (msgs r))"
proof -
  obtain b n1 c1 where w: "bc_wait_for_item wait (seen_at r clk) n c = Some (b, n1, c1)"
    "reader_ok r (clk n1) c1" "bc_pos c1 = bc_pos c"
    "if b then bc_available c1 else unat (bc_pos c) = length (msgs r)"
    using wait_ok [OF assms] by blast
  show ?thesis
  proof (cases b)
    case True
    then have av: "bc_available c1" using w(4) by simp
    have pop: "bc_pop (esz r) wait (seen_at r clk) n c = Some (bc_read_slot (esz r) (seen_at r clk) n1 c1)"
      using w(1) True by (simp add: bc_pop_def)
    show ?thesis
      by (rule read_slot_ok [OF assms(1,2) w(2) av]) (use pop w(3) in auto)
  next
    case False
    then show ?thesis using w by (auto simp: bc_pop_def)
  qed
qed

end

end
