(* ===== verification/Broadcast_Trace.thy ===== *)
theory Broadcast_Trace
  imports Lossy_History
begin

text \<open>
  The producer's side of the lossy contract: what holds of the shared memory of
  a broadcast ring after every single atomic store of every run of producer
  calls.
\<close>

section \<open>Sequence numbers and slots\<close>

lemma slot_ix_nat: "valid_mask m \<Longrightarrow> slot_ix m x = unat x mod capacity_of m"
  by (rule slot_ix_mod)

lemma same_slot_apart:
  assumes "valid_mask m" and "slot_ix m x = slot_ix m y" and "unat x < unat y"
  shows "unat x + capacity_of m \<le> unat y"
proof -
  have "unat x mod capacity_of m = unat y mod capacity_of m"
    using assms(1,2) by (simp add: slot_ix_mod)
  then have "capacity_of m dvd unat y - unat x"
    using mod_eq_dvd_iff_nat [of "unat x" "unat y" "capacity_of m"] assms(3) by fastforce
  then show ?thesis using assms(3) dvd_imp_le [of "capacity_of m" "unat y - unat x"] by linarith
qed

lemma same_slot_same:
  assumes "valid_mask m" and "slot_ix m x = slot_ix m y"
    and "unat x < unat y + capacity_of m" and "unat y < unat x + capacity_of m"
  shows "x = y"
  using same_slot_apart [OF assms(1,2)] same_slot_apart [OF assms(1) assms(2) [symmetric]] assms(3,4)
  by (metis linorder_not_less linorder_neqE_nat word_unat_eq_iff)

text \<open>The latest sequence number below \<open>n\<close> that maps to a given slot.\<close>

lemma latest_in_slot:
  assumes "valid_mask m" and "n < seq_span" and "i < capacity_of m" and "i < n"
  obtains y where "unat y < n" and "n \<le> unat y + capacity_of m" and "slot_ix m y = i"
proof -
  define c where "c = capacity_of m"
  define k where "k = (n - 1 - i) div c"
  define s where "s = i + k * c"
  have c: "0 < c" using capacity_pos [OF assms(1)] by (simp add: c_def)
  have le: "k * c \<le> n - 1 - i" by (simp add: k_def)
  have "n - 1 - i < k * c + c"
    using div_mult_mod_eq [of "n - 1 - i" c] mod_less_divisor [OF c, of "n - 1 - i"]
    unfolding k_def by linarith
  then have "s < n" "n \<le> s + c" using le assms(4) by (simp_all add: s_def)
  moreover have "unat (of_nat s :: u64) = s"
    using \<open>s < n\<close> assms(2) seq_span_word by (intro unat_of_nat_span) linarith
  moreover have "s mod c = i" using assms(3) by (simp add: s_def c_def)
  ultimately show ?thesis
    using that [of "of_nat s"] assms(1) by (simp add: slot_ix_mod c_def)
qed

section \<open>The ring between two stores\<close>

text \<open>
  \<open>ring_at m sl e ms n w sh\<close>: of the messages \<open>ms\<close>, \<open>n\<close> are written, and the
  write of the next one has begun when \<open>w\<close>.
\<close>

definition ring_at ::
  "u64 \<Rightarrow> u64 \<Rightarrow> nat \<Rightarrow> u8 list list \<Rightarrow> nat \<Rightarrow> bool \<Rightarrow> bcast_shared \<Rightarrow> bool" where
  "ring_at m sl e ms n w sh \<longleftrightarrow> bs_mask sh = m \<and> bs_slack sh = sl
     \<and> length (bs_slots sh) = capacity_of m
     \<and> (\<forall>i<capacity_of m. length (sl_data (bs_slots sh ! i)) = e)
     \<and> n + of_bool w \<le> length ms
     \<and> unat (bs_tail sh) \<le> n \<and> n + of_bool w \<le> unat (bs_tail sh) + max 1 (unat sl)
     \<and> (bs_closed sh \<noteq> 0 \<longrightarrow> unat (bs_tail sh) = length ms)
     \<and> (\<forall>x. unat x < n \<longrightarrow> n + of_bool w \<le> unat x + capacity_of m \<longrightarrow>
          bs_slots sh ! slot_ix m x = \<lparr>sl_seq = 2 * x + 2, sl_data = map Some (ms ! unat x)\<rparr>)
     \<and> (w \<longrightarrow> sl_seq (bs_slots sh ! slot_ix m (of_nat n)) = 2 * of_nat n + 1
            \<and> (capacity_of m \<le> n \<longrightarrow> None \<notin> set (sl_data (bs_slots sh ! slot_ix m (of_nat n)))))
     \<and> (\<forall>i<capacity_of m. n + of_bool w \<le> i \<longrightarrow> sl_seq (bs_slots sh ! i) = 0)"

lemma ring_atD:
  assumes "ring_at m sl e ms n w sh"
  shows "bs_mask sh = m" and "bs_slack sh = sl" and "length (bs_slots sh) = capacity_of m"
    and "i < capacity_of m \<Longrightarrow> length (sl_data (bs_slots sh ! i)) = e"
    and "n + of_bool w \<le> length ms"
    and "unat (bs_tail sh) \<le> n" and "n + of_bool w \<le> unat (bs_tail sh) + max 1 (unat sl)"
    and "bs_closed sh \<noteq> 0 \<Longrightarrow> unat (bs_tail sh) = length ms"
    and "unat x < n \<Longrightarrow> n + of_bool w \<le> unat x + capacity_of m \<Longrightarrow>
          bs_slots sh ! slot_ix m x = \<lparr>sl_seq = 2 * x + 2, sl_data = map Some (ms ! unat x)\<rparr>"
    and "w \<Longrightarrow> sl_seq (bs_slots sh ! slot_ix m (of_nat n)) = 2 * of_nat n + 1"
    and "w \<Longrightarrow> capacity_of m \<le> n \<Longrightarrow> None \<notin> set (sl_data (bs_slots sh ! slot_ix m (of_nat n)))"
    and "i < capacity_of m \<Longrightarrow> n + of_bool w \<le> i \<Longrightarrow> sl_seq (bs_slots sh ! i) = 0"
  using assms unfolding ring_at_def by blast+

text \<open>What a slot can hold.\<close>

lemma slot_cases:
  assumes ring: "ring_at m sl e ms n w sh" and m: "valid_mask m" and few: "length ms < seq_span"
  obtains (fresh) "sl_seq (bs_slots sh ! slot_ix m x) = 0" and "n + of_bool w \<le> unat x"
  | (message) y where "slot_ix m y = slot_ix m x" and "unat y < n"
      and "n + of_bool w \<le> unat y + capacity_of m"
      and "bs_slots sh ! slot_ix m x = \<lparr>sl_seq = 2 * y + 2, sl_data = map Some (ms ! unat y)\<rparr>"
  | (writing) w and "slot_ix m (of_nat n) = slot_ix m x"
      and "sl_seq (bs_slots sh ! slot_ix m x) = 2 * of_nat n + 1"
proof -
  define i where "i = slot_ix m x"
  have i: "i < capacity_of m" "i \<le> unat x"
    using slot_ix_less [OF m] m by (simp_all add: i_def slot_ix_mod)
  show ?thesis
  proof (cases "n + of_bool w \<le> i")
    case True
    then show ?thesis using fresh ring_atD(12) [OF ring i(1)] i(2) by (simp add: i_def)
  next
    case False
    then obtain y where y: "unat y < n + of_bool w" "n + of_bool w \<le> unat y + capacity_of m"
      "slot_ix m y = i"
      using latest_in_slot [OF m _ i(1), of "n + of_bool w"] ring_atD(5) [OF ring] few by auto
    show ?thesis
    proof (cases "unat y < n")
      case True
      then show ?thesis
        using message [of y] y(2) ring_atD(9) [OF ring True y(2)] y(3) unfolding i_def by argo
    next
      case False
      have "w" using False y(1) by (cases w) simp_all
      moreover have "unat y = n" using False y(1) \<open>w\<close> by simp
      ultimately have "w" "unat y = n" .
      then have "y = of_nat n" by (metis of_nat_unat ucast_id)
      then show ?thesis using writing \<open>w\<close> y(3) ring_atD(10) [OF ring] by (simp add: i_def)
    qed
  qed
qed

lemma seq_unat: "n < seq_span \<Longrightarrow> unat (of_nat n :: u64) = n"
  using seq_span_word by (intro unat_of_nat_span) linarith

lemma writing_unat: "n < seq_span \<Longrightarrow> unat (2 * of_nat n + 1 :: u64) = 2 * n + 1"
  using generation_unat(2) [of "of_nat n"] seq_unat [of n] by simp

lemma written_unat: "unat x < seq_span \<Longrightarrow> unat (2 * x + 2 :: u64) = 2 * unat x + 2"
  by (rule generation_unat(3))

text \<open>The laws of the contract, at one instant.\<close>

lemma instant_exact:
  assumes ring: "ring_at m sl e ms n w sh" and m: "valid_mask m" and few: "length ms < seq_span"
    and x: "unat x < length ms" and seq: "sl_seq (bs_slots sh ! slot_ix m x) = 2 * x + 2"
  shows "sl_data (bs_slots sh ! slot_ix m x) = map Some (ms ! unat x)"
proof -
  have n: "n \<le> length ms" using ring_atD(5) [OF ring] by simp
  have q: "unat (sl_seq (bs_slots sh ! slot_ix m x)) = 2 * unat x + 2"
    using seq written_unat [of x] x few by simp
  show ?thesis
  proof (rule slot_cases [OF ring m few, of x])
    fix y assume y: "unat y < n"
      "bs_slots sh ! slot_ix m x = \<lparr>sl_seq = 2 * y + 2, sl_data = map Some (ms ! unat y)\<rparr>"
    have "unat (2 * y + 2) = 2 * unat y + 2" using written_unat y(1) n few by simp
    then have "unat y = unat x" using q y(2) by simp
    then show ?thesis using y(2) by simp
  next
    assume "w" "sl_seq (bs_slots sh ! slot_ix m x) = 2 * of_nat n + 1"
    then have "2 * n + 1 = 2 * unat x + 2" using q writing_unat [of n] n few by simp
    then have False by presburger
    then show ?thesis ..
  qed (use q in simp)
qed

lemma instant_init:
  assumes ring: "ring_at m sl e ms n w sh" and m: "valid_mask m" and few: "length ms < seq_span"
    and x: "unat x < length ms" and seq: "2 * x + 2 \<le> sl_seq (bs_slots sh ! slot_ix m x)"
  shows "None \<notin> set (sl_data (bs_slots sh ! slot_ix m x))"
proof -
  have n: "n \<le> length ms" using ring_atD(5) [OF ring] by simp
  have q: "2 * unat x + 2 \<le> unat (sl_seq (bs_slots sh ! slot_ix m x))"
    using seq written_unat [of x] x few by (simp add: word_le_nat_alt)
  show ?thesis
  proof (rule slot_cases [OF ring m few, of x])
    assume w: "w" and s: "slot_ix m (of_nat n) = slot_ix m x"
      and "sl_seq (bs_slots sh ! slot_ix m x) = 2 * of_nat n + 1"
    then have "unat x < n" using q writing_unat [of n] n few by simp
    then have "capacity_of m \<le> n"
      using same_slot_apart [OF m s [symmetric]] seq_unat [of n] n few by simp
    then show ?thesis using ring_atD(11) [OF ring w] s by simp
  qed (use q in auto)
qed

lemma instant_published:
  assumes ring: "ring_at m sl e ms n w sh" and m: "valid_mask m" and few: "length ms < seq_span"
    and x: "x < bs_tail sh"
  shows "2 * x + 2 \<le> sl_seq (bs_slots sh ! slot_ix m x)"
proof -
  have n: "n \<le> length ms" using ring_atD(5) [OF ring] by simp
  have xn: "unat x < n" using x ring_atD(6) [OF ring] by (simp add: word_less_nat_alt)
  have q: "unat (2 * x + 2) = 2 * unat x + 2" using written_unat [of x] xn n few by simp
  show ?thesis
  proof (rule slot_cases [OF ring m few, of x])
    fix y assume y: "slot_ix m y = slot_ix m x" "unat y < n" "n + of_bool w \<le> unat y + capacity_of m"
      "bs_slots sh ! slot_ix m x = \<lparr>sl_seq = 2 * y + 2, sl_data = map Some (ms ! unat y)\<rparr>"
    have "unat x \<le> unat y" using same_slot_apart [OF m y(1)] y(3) xn by linarith
    then have "2 * unat x + 2 \<le> unat (2 * y + 2)" using written_unat [of y] y(2) n few by simp
    then show ?thesis using q y(4) by (simp add: word_le_nat_alt)
  next
    assume "sl_seq (bs_slots sh ! slot_ix m x) = 2 * of_nat n + 1"
    then show ?thesis using writing_unat [of n] n few xn q by (simp add: word_le_nat_alt)
  qed (use xn in simp)
qed

lemma instant_kept:
  assumes ring: "ring_at m sl e ms n w sh" and x: "x < bs_tail sh"
    and "n + of_bool w \<le> unat x + capacity_of m"
  shows "sl_seq (bs_slots sh ! slot_ix m x) = 2 * x + 2"
  using ring_atD(9) [OF ring _ assms(3)] ring_atD(6) [OF ring] x by (simp add: word_less_nat_alt)

section \<open>The single stores\<close>

lemma write_slot:
  assumes m: "valid_mask m" and n: "n < seq_span"
  shows "slot_ix m (of_nat n) < capacity_of m" and "slot_ix m (of_nat n) \<le> n"
    and "unat x < n \<Longrightarrow> n < unat x + capacity_of m \<Longrightarrow> slot_ix m x \<noteq> slot_ix m (of_nat n)"
proof -
  show "slot_ix m (of_nat n) < capacity_of m" by (rule slot_ix_less [OF m])
  show "slot_ix m (of_nat n) \<le> n" unfolding slot_ix_mod [OF m] seq_unat [OF n] by simp
  show "slot_ix m x \<noteq> slot_ix m (of_nat n)" if "unat x < n" "n < unat x + capacity_of m"
    using same_slot_apart [OF m, of x "of_nat n"] that unfolding seq_unat [OF n] by fastforce
qed

lemma ring_open:
  assumes ring: "ring_at m sl e ms n False sh" and m: "valid_mask m" and few: "length ms < seq_span"
    and n: "n < length ms" and debt: "n < unat (bs_tail sh) + max 1 (unat sl)"
  shows "ring_at m sl e ms n True (bc_apply (St_seq (slot_ix m (of_nat n)) (2 * of_nat n + 1)) sh)"
    (is "ring_at m sl e ms n True ?sh")
proof -
  define i where "i = slot_ix m (of_nat n :: u64)"
  have un: "unat (of_nat n :: u64) = n" using n few by (intro seq_unat) linarith
  have i: "i < length (bs_slots sh)" "i < capacity_of m" "i \<le> n"
    using write_slot(1,2) [OF m, of n] ring_atD(3) [OF ring] n few by (simp_all add: i_def)
  have at: "bs_slots ?sh ! j = (if j = i then (bs_slots sh ! i)\<lparr>sl_seq := 2 * of_nat n + 1\<rparr>
      else bs_slots sh ! j)" for j
    using i(1) by (simp add: i_def nth_list_update)
  have other: "slot_ix m x \<noteq> i" if "unat x < n" "n < unat x + capacity_of m" for x
    unfolding i_def by (rule write_slot(3) [OF m]) (use that n few in simp_all)
  have init: "None \<notin> set (sl_data (bs_slots sh ! i))" if "capacity_of m \<le> n"
  proof -
    have c: "0 < capacity_of m" using capacity_pos [OF m] .
    define y :: u64 where "y = of_nat (n - capacity_of m)"
    have y: "unat y = n - capacity_of m" unfolding y_def using n few by (intro seq_unat) linarith
    have "slot_ix m y = i"
      unfolding i_def slot_ix_mod [OF m] y un using that by (simp add: le_mod_geq)
    then show ?thesis using ring_atD(9) [OF ring, of y] y that c by auto
  qed
  have closed: "bs_closed sh = 0"
    using ring_atD(8) [OF ring] ring_atD(6) [OF ring] n by fastforce
  show ?thesis
    unfolding ring_at_def
  proof (intro conjI allI impI)
    fix x :: u64 assume x: "unat x < n" "n + of_bool True \<le> unat x + capacity_of m"
    then have "slot_ix m x \<noteq> i" by (intro other) simp_all
    then show "bs_slots ?sh ! slot_ix m x
        = \<lparr>sl_seq = 2 * x + 2, sl_data = map Some (ms ! unat x)\<rparr>"
      using x ring_atD(9) [OF ring, of x] by (simp only: at if_False) simp
  next
    show "sl_seq (bs_slots ?sh ! slot_ix m (of_nat n)) = 2 * of_nat n + 1"
      by (simp add: i_def [symmetric] i(1))
    show "None \<notin> set (sl_data (bs_slots ?sh ! slot_ix m (of_nat n)))" if "capacity_of m \<le> n"
      using init [OF that] by (simp add: i_def [symmetric] i(1))
  next
    fix j assume j: "j < capacity_of m" "n + of_bool True \<le> j"
    then have "j \<noteq> i" using i by auto
    then show "sl_seq (bs_slots ?sh ! j) = 0"
      using j ring_atD(12) [OF ring, of j] by (simp only: at if_False) simp
  next
    fix j assume j: "j < capacity_of m"
    show "length (sl_data (bs_slots ?sh ! j)) = e"
      using ring_atD(4) [OF ring j] ring_atD(4) [OF ring i(2)] by (simp only: at) (auto split: if_splits)
  qed (use ring_atD(1-8) [OF ring] n debt closed in simp_all)
qed

lemma ring_data:
  assumes ring: "ring_at m sl e ms n True sh" and m: "valid_mask m" and few: "length ms < seq_span"
    and fits: "off + length bs \<le> e"
  shows "ring_at m sl e ms n True (bc_apply (St_data (slot_ix m (of_nat n)) off bs) sh)"
    (is "ring_at m sl e ms n True ?sh")
proof -
  define i where "i = slot_ix m (of_nat n :: u64)"
  have n: "n < length ms" using ring_atD(5) [OF ring] by simp
  have un: "unat (of_nat n :: u64) = n" using n few by (intro seq_unat) linarith
  have i: "i < length (bs_slots sh)" "i < capacity_of m" "i \<le> n"
    using write_slot(1,2) [OF m, of n] ring_atD(3) [OF ring] n few by (simp_all add: i_def)
  define d where "d = put off (map Some bs) (sl_data (bs_slots sh ! i))"
  have at: "bs_slots ?sh ! j = (if j = i then (bs_slots sh ! i)\<lparr>sl_data := d\<rparr> else bs_slots sh ! j)" for j
    using i(1) by (simp add: i_def d_def nth_list_update)
  have other: "slot_ix m x \<noteq> i" if "unat x < n" "n < unat x + capacity_of m" for x
    unfolding i_def by (rule write_slot(3) [OF m]) (use that n few in simp_all)
  have len: "length d = e"
    using ring_atD(4) [OF ring i(2)] fits by (simp add: d_def length_put)
  have init: "None \<notin> set d" if "None \<notin> set (sl_data (bs_slots sh ! i))"
    using that by (auto simp: d_def put_def dest: in_set_takeD in_set_dropD)
  show ?thesis
    unfolding ring_at_def
  proof (intro conjI allI impI)
    fix x :: u64 assume x: "unat x < n" "n + of_bool True \<le> unat x + capacity_of m"
    then have "slot_ix m x \<noteq> i" by (intro other) simp_all
    then show "bs_slots ?sh ! slot_ix m x
        = \<lparr>sl_seq = 2 * x + 2, sl_data = map Some (ms ! unat x)\<rparr>"
      using x ring_atD(9) [OF ring, of x] by (simp add: i_def [symmetric])
  next
    show "sl_seq (bs_slots ?sh ! slot_ix m (of_nat n)) = 2 * of_nat n + 1"
      using ring_atD(10) [OF ring] by (simp add: i_def [symmetric] i(1))
    show "None \<notin> set (sl_data (bs_slots ?sh ! slot_ix m (of_nat n)))" if "capacity_of m \<le> n"
      using init ring_atD(11) [OF ring _ that] by (simp add: i_def [symmetric] i(1) d_def)
  next
    fix j assume j: "j < capacity_of m" "n + of_bool True \<le> j"
    then have "j \<noteq> i" using i by auto
    then show "sl_seq (bs_slots ?sh ! j) = 0"
      using j ring_atD(12) [OF ring, of j] by (simp add: i_def [symmetric])
  next
    fix j assume j: "j < capacity_of m"
    show "length (sl_data (bs_slots ?sh ! j)) = e"
      using ring_atD(4) [OF ring j] len by (simp only: at) (auto split: if_splits)
  qed (use ring_atD(1-8) [OF ring] in simp_all)
qed

lemma ring_close:
  assumes ring: "ring_at m sl e ms n True sh" and m: "valid_mask m" and few: "length ms < seq_span"
    and full: "sl_data (bs_slots sh ! slot_ix m (of_nat n)) = map Some (ms ! n)"
  shows "ring_at m sl e ms (Suc n) False
    (bc_apply (St_seq (slot_ix m (of_nat n)) (2 * of_nat n + 2)) sh)"
    (is "ring_at m sl e ms (Suc n) False ?sh")
proof -
  define i where "i = slot_ix m (of_nat n :: u64)"
  have n: "n < length ms" using ring_atD(5) [OF ring] by simp
  have un: "unat (of_nat n :: u64) = n" using n few by (intro seq_unat) linarith
  have i: "i < length (bs_slots sh)" "i < capacity_of m" "i \<le> n"
    using write_slot(1,2) [OF m, of n] ring_atD(3) [OF ring] n few by (simp_all add: i_def)
  have at: "bs_slots ?sh ! j = (if j = i then (bs_slots sh ! i)\<lparr>sl_seq := 2 * of_nat n + 2\<rparr>
      else bs_slots sh ! j)" for j
    using i(1) by (simp add: i_def nth_list_update)
  have other: "slot_ix m x \<noteq> i" if "unat x < n" "n < unat x + capacity_of m" for x
    unfolding i_def by (rule write_slot(3) [OF m]) (use that n few in simp_all)
  show ?thesis
    unfolding ring_at_def
  proof (intro conjI allI impI)
    fix x :: u64 assume x: "unat x < Suc n" "Suc n + of_bool False \<le> unat x + capacity_of m"
    show "bs_slots ?sh ! slot_ix m x
        = \<lparr>sl_seq = 2 * x + 2, sl_data = map Some (ms ! unat x)\<rparr>"
    proof (cases "unat x = n")
      case True
      then have xn: "x = of_nat n" by (metis of_nat_unat ucast_id)
      show ?thesis
        using full unfolding xn un by (simp add: i_def [symmetric] i(1))
    next
      case False
      then have "slot_ix m x \<noteq> i" using x by (intro other) simp_all
      then show ?thesis
        using x False ring_atD(9) [OF ring, of x] by (simp only: at if_False) simp
    qed
  next
    fix j assume j: "j < capacity_of m" "Suc n + of_bool False \<le> j"
    then have "j \<noteq> i" using i by auto
    then show "sl_seq (bs_slots ?sh ! j) = 0"
      using j ring_atD(12) [OF ring, of j] by (simp only: at if_False) simp
  next
    fix j assume j: "j < capacity_of m"
    show "length (sl_data (bs_slots ?sh ! j)) = e"
      using ring_atD(4) [OF ring j] ring_atD(4) [OF ring i(2)] by (simp only: at) (auto split: if_splits)
  qed (use ring_atD(1-8) [OF ring] in auto)
qed

lemma ring_tail:
  assumes ring: "ring_at m sl e ms n False sh" and few: "length ms < seq_span"
  shows "ring_at m sl e ms n False (bc_apply (St_tail (of_nat n)) sh)"
proof -
  have un: "unat (of_nat n :: u64) = n" using ring_atD(5) [OF ring] few by (intro seq_unat) simp
  have "bs_closed sh \<noteq> 0 \<Longrightarrow> n = length ms"
    using ring_atD(5,6,8) [OF ring] by fastforce
  then show ?thesis using ring un unfolding ring_at_def by auto
qed

lemma ring_shut:
  assumes "ring_at m sl e ms n False sh" and "unat (bs_tail sh) = length ms"
  shows "ring_at m sl e ms n False (bc_apply (St_closed 1) sh)"
  using assms unfolding ring_at_def by simp

section \<open>Runs of stores\<close>

text \<open>How a store moves the number of written messages and the write in progress.\<close>

fun bc_phase :: "bc_store \<Rightarrow> nat \<times> bool \<Rightarrow> nat \<times> bool" where
  "bc_phase (St_seq i v) (n, w) = (if odd v then (n, True) else (Suc n, False))"
| "bc_phase _ nw = nw"

definition gens_grow :: "bcast_shared \<Rightarrow> bcast_shared \<Rightarrow> bool" where
  "gens_grow sh sh' \<longleftrightarrow>
     (\<forall>i<length (bs_slots sh). sl_seq (bs_slots sh ! i) \<le> sl_seq (bs_slots sh' ! i))
     \<and> bs_tail sh \<le> bs_tail sh'"

fun bc_trace ::
  "u64 \<Rightarrow> u64 \<Rightarrow> nat \<Rightarrow> u8 list list \<Rightarrow> nat \<times> bool \<Rightarrow> bcast_shared \<Rightarrow> bc_store list \<Rightarrow> bool" where
  "bc_trace m sl e ms nw sh [] \<longleftrightarrow> ring_at m sl e ms (fst nw) (snd nw) sh"
| "bc_trace m sl e ms nw sh (st # sts) \<longleftrightarrow>
     ring_at m sl e ms (fst nw) (snd nw) sh \<and> gens_grow sh (bc_apply st sh)
     \<and> bc_trace m sl e ms (bc_phase st nw) (bc_apply st sh) sts"

lemma trace_now: "bc_trace m sl e ms nw sh sts \<Longrightarrow> ring_at m sl e ms (fst nw) (snd nw) sh"
  by (cases sts) simp_all

lemma trace_at:
  assumes "bc_trace m sl e ms nw sh sts"
  shows "case fold bc_phase (take t sts) nw of (n, w) \<Rightarrow> ring_at m sl e ms n w (bc_memory sh sts t)"
  using assms
proof (induction sts arbitrary: nw sh t)
  case (Cons st sts)
  then show ?case using trace_now [OF Cons.prems]
    by (cases t) (simp_all add: bc_memory_def split_beta)
qed (simp add: bc_memory_def split_beta)

lemma gens_grow_refl: "gens_grow sh sh"
  by (simp add: gens_grow_def)

lemma trace_grow_step:
  assumes "bc_trace m sl e ms nw sh sts"
  shows "gens_grow (bc_memory sh sts t) (bc_memory sh sts (Suc t))"
  using assms
proof (induction sts arbitrary: nw sh t)
  case (Cons st sts)
  show ?case
  proof (cases t)
    case 0
    then show ?thesis using Cons.prems by (simp add: bc_memory_def)
  next
    case (Suc t')
    then show ?thesis using Cons.IH [of "bc_phase st nw" "bc_apply st sh" t'] Cons.prems
      by (simp add: bc_memory_def)
  qed
qed (simp add: bc_memory_def gens_grow_refl)

lemma trace_grow:
  assumes tr: "bc_trace m sl e ms nw sh sts" and "t \<le> t'" and i: "i < capacity_of m"
  shows "bs_tail (bc_memory sh sts t) \<le> bs_tail (bc_memory sh sts t')
    \<and> sl_seq (bs_slots (bc_memory sh sts t) ! i) \<le> sl_seq (bs_slots (bc_memory sh sts t') ! i)"
  using assms(2)
proof (induction rule: dec_induct)
  case (step k)
  obtain n w where "ring_at m sl e ms n w (bc_memory sh sts k)"
    using trace_at [OF tr, of k] by (auto split: prod.splits)
  then have "i < length (bs_slots (bc_memory sh sts k))" using i ring_atD(3) by simp
  then show ?case
    using step.IH trace_grow_step [OF tr, of k] unfolding gens_grow_def by (meson order_trans)
qed simp

subsection \<open>Pushes\<close>

text \<open>The payload stores keep the write in progress; what follows them sees all of them.\<close>

lemma trace_data:
  assumes m: "valid_mask m" and few: "length ms < seq_span"
    and ring: "ring_at m sl e ms n True sh"
    and fits: "\<And>off bs. (off, bs) \<in> set ds \<Longrightarrow> off + length bs \<le> e"
    and rest: "\<And>sh'. ring_at m sl e ms n True sh' \<Longrightarrow>
      sl_data (bs_slots sh' ! slot_ix m (of_nat n))
        = put_all (map (\<lambda>(off, bs). (off, map Some bs)) ds) (sl_data (bs_slots sh ! slot_ix m (of_nat n))) \<Longrightarrow>
      bs_tail sh' = bs_tail sh \<Longrightarrow> bs_closed sh' = bs_closed sh \<Longrightarrow>
      bc_trace m sl e ms (n, True) sh' sts"
  shows "bc_trace m sl e ms (n, True) sh
    (map (\<lambda>(off, bs). St_data (slot_ix m (of_nat n)) off bs) ds @ sts)"
  using ring fits rest
proof (induction ds arbitrary: sh)
  case Nil
  then show ?case by simp
next
  case (Cons d ds)
  define i where "i = slot_ix m (of_nat n :: u64)"
  obtain off bs where d: "d = (off, bs)" by (cases d)
  define sh1 where "sh1 = bc_apply (St_data i off bs) sh"
  have i: "i < length (bs_slots sh)"
    using slot_ix_less [OF m] ring_atD(3) [OF Cons.prems(1)] by (simp add: i_def)
  have fit: "off + length bs \<le> e" using Cons.prems(2) d by simp
  have ring1: "ring_at m sl e ms n True sh1"
    using ring_data [OF Cons.prems(1) m few fit] by (simp add: sh1_def i_def)
  have "gens_grow sh sh1"
    unfolding gens_grow_def sh1_def using i by (auto simp: nth_list_update)
  moreover have "bc_trace m sl e ms (n, True) sh1 (map (\<lambda>(off, bs). St_data i off bs) ds @ sts)"
    unfolding i_def
  proof (rule Cons.IH [OF ring1])
    show "off' + length bs' \<le> e" if "(off', bs') \<in> set ds" for off' bs'
      using Cons.prems(2) that by simp
    fix sh'
    assume 1: "ring_at m sl e ms n True sh'"
      and 2: "sl_data (bs_slots sh' ! slot_ix m (of_nat n))
        = put_all (map (\<lambda>(off, bs). (off, map Some bs)) ds) (sl_data (bs_slots sh1 ! slot_ix m (of_nat n)))"
      and 3: "bs_tail sh' = bs_tail sh1" "bs_closed sh' = bs_closed sh1"
    have "sl_data (bs_slots sh1 ! i) = put off (map Some bs) (sl_data (bs_slots sh ! i))"
      using i by (simp add: sh1_def)
    then show "bc_trace m sl e ms (n, True) sh' sts"
      by (intro Cons.prems(3)) (use 1 2 3 d i_def in \<open>simp_all add: sh1_def\<close>)
  qed
  ultimately show ?case using Cons.prems(1) d by (simp add: sh1_def i_def)
qed

lemma put_all_some:
  "put_all (map (\<lambda>(off, bs). (off, map Some bs)) ds) (map Some mem) = map Some (put_all ds mem)"
  by (induction ds mem rule: put_all.induct) (simp_all add: put_def take_map drop_map)

lemma put_all_copy_in_some:
  fixes v :: "u8 list"
  assumes "length v = length mem"
  shows "put_all (map (\<lambda>(off, bs). (off, map Some bs)) (copy_in_words v)) mem = map Some v"
proof -
  define ds where "ds = map (\<lambda>(off, bs). (off, map Some bs)) (copy_in_words v)"
  have t: "tiling base (map (\<lambda>(off, bs). (off, map Some bs)) sts) = tiling base sts" for base and sts :: "(nat \<times> u8 list) list"
    by (induction base sts rule: tiling.induct) simp_all
  have c: "concat (map snd (map (\<lambda>(off, bs). (off, map Some bs)) sts)) = map Some (concat (map snd sts))"
    for sts :: "(nat \<times> u8 list) list"
    by (induction sts) auto
  have "tiling 0 ds" unfolding ds_def t by (rule copy_in_words_tiling(1))
  moreover have "concat (map snd ds) = map Some v"
    unfolding ds_def c copy_in_words_tiling(2) by (rule refl)
  ultimately have "put_all ds mem = put 0 (map Some v) mem"
    using put_all_tiling [of 0 ds mem] assms by simp
  then show ?thesis using assms by (simp add: ds_def put_def)
qed

subsection \<open>Calls\<close>

text \<open>The producer's private state between two calls.\<close>

definition producer_at :: "u64 \<Rightarrow> u64 \<Rightarrow> nat \<Rightarrow> bcast_shared \<Rightarrow> bcast_producer \<Rightarrow> bool" where
  "producer_at m sl n sh p \<longleftrightarrow> bp_mask p = m \<and> bp_slack p = sl \<and> bp_next_seq p = of_nat n
     \<and> 1 \<le> unat (bp_tail_batch p) \<and> unat (bp_tail_batch p) \<le> max 1 (unat sl)
     \<and> unat (bp_unpublished p) + unat (bs_tail sh) = n
     \<and> unat (bp_unpublished p) < unat (bp_tail_batch p)"

lemma trace_publish:
  assumes ring: "ring_at m sl e ms n False sh" and few: "length ms < seq_span"
    and rest: "bc_trace m sl e ms (n, False) (bc_apply (St_tail (of_nat n)) sh) sts"
  shows "bc_trace m sl e ms (n, False) sh (St_tail (of_nat n) # sts)"
proof -
  have "unat (of_nat n :: u64) = n" using ring_atD(5) [OF ring] few by (intro seq_unat) simp
  then have "gens_grow sh (bc_apply (St_tail (of_nat n)) sh)"
    using ring_atD(6) [OF ring] by (simp add: gens_grow_def word_le_nat_alt)
  then show ?thesis using ring rest by simp
qed

lemma opened:
  assumes ring: "ring_at m sl e ms n False sh" and m: "valid_mask m" and few: "length ms < seq_span"
    and n: "n < length ms"
  shows "gens_grow sh (bc_apply (St_seq (slot_ix m (of_nat n)) (2 * of_nat n + 1)) sh)"
proof -
  have q: "unat (2 * of_nat n + 1 :: u64) = 2 * n + 1" using n few by (intro writing_unat) linarith
  have "sl_seq (bs_slots sh ! slot_ix m (of_nat n)) \<le> 2 * of_nat n + 1"
  proof (rule slot_cases [OF ring m few, of "of_nat n"])
    fix y assume y: "unat y < n"
      "bs_slots sh ! slot_ix m (of_nat n) = \<lparr>sl_seq = 2 * y + 2, sl_data = map Some (ms ! unat y)\<rparr>"
    then have "unat (2 * y + 2) = 2 * unat y + 2" using n few by (intro written_unat) linarith
    then show ?thesis using y q by (simp add: word_le_nat_alt)
  qed simp_all
  then show ?thesis using slot_ix_less [OF m] ring_atD(3) [OF ring]
    by (auto simp: gens_grow_def nth_list_update)
qed

lemma trace_push:
  assumes ring: "ring_at m sl e ms n False sh" and m: "valid_mask m" and few: "length ms < seq_span"
    and n: "n < length ms" and size: "length (ms ! n) = e"
    and debt: "n < unat (bs_tail sh) + max 1 (unat sl)"
    and rest: "\<And>sh'. ring_at m sl e ms (Suc n) False sh' \<Longrightarrow>
      bs_tail sh' = bs_tail sh \<Longrightarrow> bs_closed sh' = bs_closed sh \<Longrightarrow>
      bc_trace m sl e ms (Suc n, False) sh' sts"
  shows "bc_trace m sl e ms (n, False) sh
    (St_seq (slot_ix m (of_nat n)) (2 * of_nat n + 1)
      # write_payload (slot_ix m (of_nat n)) (ms ! n)
      @ St_seq (slot_ix m (of_nat n)) (2 * of_nat n + 2) # sts)"
proof -
  define i where "i = slot_ix m (of_nat n :: u64)"
  define sh1 where "sh1 = bc_apply (St_seq i (2 * of_nat n + 1)) sh"
  have nn: "n < seq_span" using n few by linarith
  have i: "i < length (bs_slots sh)" "i < capacity_of m"
    using write_slot(1) [OF m nn] ring_atD(3) [OF ring] by (simp_all add: i_def)
  have ring1: "ring_at m sl e ms n True sh1"
    using ring_open [OF ring m few n debt] by (simp add: sh1_def i_def)
  have odd: "odd (2 * of_nat n + 1 :: u64)" "even (2 * of_nat n + 2 :: u64)" by simp_all
  have "bc_trace m sl e ms (n, True) sh1
      (map (\<lambda>(off, bs). St_data (slot_ix m (of_nat n)) off bs) (copy_in_words (ms ! n))
        @ (St_seq i (2 * of_nat n + 2) # sts))"
  proof (rule trace_data [OF m few ring1])
    show "off + length bs \<le> e" if "(off, bs) \<in> set (copy_in_words (ms ! n))" for off bs
      using copy_in_words_bounds [OF that] size by simp
    fix sh2
    assume ring2: "ring_at m sl e ms n True sh2"
      and data: "sl_data (bs_slots sh2 ! slot_ix m (of_nat n))
        = put_all (map (\<lambda>(off, bs). (off, map Some bs)) (copy_in_words (ms ! n)))
            (sl_data (bs_slots sh1 ! slot_ix m (of_nat n)))"
      and same: "bs_tail sh2 = bs_tail sh1" "bs_closed sh2 = bs_closed sh1"
    have "sl_data (bs_slots sh2 ! slot_ix m (of_nat n)) = map Some (ms ! n)"
      unfolding data using ring_atD(4) [OF ring1 i(2)] size
      by (intro put_all_copy_in_some) (simp add: i_def)
    then have ring3: "ring_at m sl e ms (Suc n) False (bc_apply (St_seq i (2 * of_nat n + 2)) sh2)"
      using ring_close [OF ring2 m few] by (simp add: i_def)
    have "unat (2 * of_nat n + 1 :: u64) = 2 * n + 1" "unat (2 * of_nat n + 2 :: u64) = 2 * n + 2"
      using writing_unat [OF nn] written_unat [of "of_nat n"] seq_unat [OF nn] nn by simp_all
    then have "gens_grow sh2 (bc_apply (St_seq i (2 * of_nat n + 2)) sh2)"
      using ring_atD(10) [OF ring2] ring_atD(3) [OF ring2] i(2)
      by (auto simp: gens_grow_def nth_list_update i_def word_le_nat_alt)
    moreover have "bc_trace m sl e ms (Suc n, False) (bc_apply (St_seq i (2 * of_nat n + 2)) sh2) sts"
      by (rule rest [OF ring3]) (use same in \<open>simp_all add: sh1_def\<close>)
    ultimately show "bc_trace m sl e ms (n, True) sh2 (St_seq i (2 * of_nat n + 2) # sts)"
      using ring2 odd(2) by simp
  qed
  then show ?thesis
    using ring opened [OF ring m few n] odd(1)
    by (simp add: sh1_def i_def write_payload_def)
qed

theorem program_trace:
  assumes m: "valid_mask m" and few: "length ms < seq_span"
    and sizes: "\<And>v. v \<in> set ms \<Longrightarrow> length v = e"
    and ring: "ring_at m sl e ms n False sh" and p: "producer_at m sl n sh p"
    and still_open: "bs_closed sh = 0" and todo: "drop n ms = bc_pushed calls"
  shows "bc_trace m sl e ms (n, False) sh (bc_program calls p)"
  using ring p still_open todo
proof (induction calls arbitrary: n sh p)
  case Nil
  then show ?case by simp
next
  case (Cons call calls)
  note ring = Cons.prems(1) and p = Cons.prems(2) and op = Cons.prems(3) and todo = Cons.prems(4)
  have P: "bp_mask p = m" "bp_slack p = sl" "bp_next_seq p = of_nat n" "1 \<le> unat (bp_tail_batch p)"
    "unat (bp_tail_batch p) \<le> max 1 (unat sl)" "unat (bp_unpublished p) + unat (bs_tail sh) = n"
    "unat (bp_unpublished p) < unat (bp_tail_batch p)"
    using p unfolding producer_at_def by blast+
  have nle: "n \<le> length ms" using ring_atD(5) [OF ring] by simp
  have un: "unat (of_nat n :: u64) = n" using nle few by (intro seq_unat) linarith
  have published: "bc_trace m sl e ms (n, False) sh (St_tail (of_nat n) # bc_program calls q)"
    if "producer_at m sl n (bc_apply (St_tail (of_nat n)) sh) q" and "drop n ms = bc_pushed calls" for q
    by (intro trace_publish [OF ring few] Cons.IH ring_tail [OF ring few]) (use that op in simp_all)
  show ?case
  proof (cases call)
    case (Call_push v)
    have v: "drop n ms = v # bc_pushed calls" using todo Call_push by simp
    then have n: "n < length ms" by (metis drop_all list.discI not_le)
    have nth: "ms ! n = v" "drop (Suc n) ms = bc_pushed calls"
      using v Cons_nth_drop_Suc [OF n] by simp_all
    define p1 where "p1 = p\<lparr>bp_next_seq := of_nat n + 1, bp_unpublished := bp_unpublished p + 1\<rparr>"
    have up: "unat (bp_unpublished p + 1) = Suc (unat (bp_unpublished p))"
      using P(6) nle few seq_span_word unat_add_span [of "bp_unpublished p" 1] by simp
    have next_seq: "of_nat n + 1 = (of_nat (Suc n) :: u64)" by simp
    have debt: "n < unat (bs_tail sh) + max 1 (unat sl)" using P(5-7) by linarith
    have "bc_trace m sl e ms (n, False) sh
        (St_seq (slot_ix m (of_nat n)) (2 * of_nat n + 1)
          # write_payload (slot_ix m (of_nat n)) (ms ! n)
          @ St_seq (slot_ix m (of_nat n)) (2 * of_nat n + 2) # sts)"
      if "\<And>sh'. ring_at m sl e ms (Suc n) False sh' \<Longrightarrow> bs_tail sh' = bs_tail sh \<Longrightarrow>
        bs_closed sh' = 0 \<Longrightarrow> bc_trace m sl e ms (Suc n, False) sh' sts" for sts
      by (rule trace_push [OF ring m few n _ debt]) (use sizes n that op in simp_all)
    note push = this
    show ?thesis
    proof (cases "bp_unpublished p1 \<ge> bp_tail_batch p1")
      case True
      have eq: "bc_program (call # calls) p = St_seq (slot_ix m (of_nat n)) (2 * of_nat n + 1)
          # write_payload (slot_ix m (of_nat n)) v
          @ St_seq (slot_ix m (of_nat n)) (2 * of_nat n + 2)
          # St_tail (of_nat (Suc n)) # bc_program calls (p1\<lparr>bp_unpublished := 0\<rparr>)"
        using True Call_push P(1,3) unfolding p1_def
        by (simp add: bc_push_def bp_slot_def bc_publish_tail_def Let_def)
      show ?thesis unfolding eq nth(1) [symmetric]
      proof (rule push)
        fix sh' assume r: "ring_at m sl e ms (Suc n) False sh'" "bs_tail sh' = bs_tail sh" "bs_closed sh' = 0"
        show "bc_trace m sl e ms (Suc n, False) sh'
            (St_tail (of_nat (Suc n)) # bc_program calls (p1\<lparr>bp_unpublished := 0\<rparr>))"
        proof (intro trace_publish [OF r(1) few] Cons.IH ring_tail [OF r(1) few])
          have "unat (of_nat (Suc n) :: u64) = Suc n" using n few by (intro seq_unat) linarith
          then show "producer_at m sl (Suc n) (bc_apply (St_tail (of_nat (Suc n))) sh')
              (p1\<lparr>bp_unpublished := 0\<rparr>)"
            using P next_seq unfolding producer_at_def p1_def by simp
        qed (use r nth in simp_all)
      qed
    next
      case False
      have eq: "bc_program (call # calls) p = St_seq (slot_ix m (of_nat n)) (2 * of_nat n + 1)
          # write_payload (slot_ix m (of_nat n)) v
          @ St_seq (slot_ix m (of_nat n)) (2 * of_nat n + 2) # bc_program calls p1"
        using False Call_push P(1,3) unfolding p1_def
        by (simp add: bc_push_def bp_slot_def Let_def)
      show ?thesis unfolding eq nth(1) [symmetric]
      proof (rule push)
        fix sh' assume r: "ring_at m sl e ms (Suc n) False sh'" "bs_tail sh' = bs_tail sh" "bs_closed sh' = 0"
        have "producer_at m sl (Suc n) sh' p1"
          using P False r(2) up unfolding producer_at_def p1_def by (simp add: word_le_nat_alt)
        then show "bc_trace m sl e ms (Suc n, False) sh' (bc_program calls p1)"
          by (intro Cons.IH) (use r nth in simp_all)
      qed
    qed
  next
    case Call_flush
    have t: "drop n ms = bc_pushed calls" using todo Call_flush by simp
    show ?thesis
    proof (cases "bp_unpublished p > 0")
      case True
      have "producer_at m sl n (bc_apply (St_tail (of_nat n)) sh) (p\<lparr>bp_unpublished := 0\<rparr>)"
        using P un unfolding producer_at_def by simp
      then show ?thesis
        using published [OF _ t] True Call_flush P(3) by (simp add: bc_flush_def bc_publish_tail_def)
    next
      case False
      then show ?thesis using Cons.IH [OF ring p op t] Call_flush by (simp add: bc_flush_def)
    qed
  next
    case (Call_batch b)
    have t: "drop n ms = bc_pushed calls" using todo Call_batch by simp
    define mx where "mx = max (min ((m + 1) div 8) sl) 1"
    define batch where "batch = max 1 (min b mx)"
    have one: "unat (1 :: u64) = 1" by simp
    have "unat mx \<le> max 1 (unat sl)" unfolding mx_def unat_max unat_min one by simp
    then have batch: "1 \<le> unat batch" "unat batch \<le> max 1 (unat sl)"
      unfolding batch_def unat_max unat_min one by simp_all
    have set: "bc_set_tail_batch b p = (batch, if batch \<le> bp_unpublished p
        then bc_publish_tail (p\<lparr>bp_tail_batch := batch\<rparr>) else ([], p\<lparr>bp_tail_batch := batch\<rparr>))"
      unfolding bc_set_tail_batch_def Let_def P(1,2) mx_def [symmetric] batch_def [symmetric] by simp
    show ?thesis
    proof (cases "bp_unpublished p \<ge> batch")
      case True
      have "producer_at m sl n (bc_apply (St_tail (of_nat n)) sh)
          (p\<lparr>bp_tail_batch := batch, bp_unpublished := 0\<rparr>)"
        using P un batch unfolding producer_at_def by simp
      then have "bc_trace m sl e ms (n, False) sh
          (St_tail (of_nat n) # bc_program calls (p\<lparr>bp_tail_batch := batch, bp_unpublished := 0\<rparr>))"
        by (rule published [OF _ t])
      moreover have "bc_program (call # calls) p
          = St_tail (of_nat n) # bc_program calls (p\<lparr>bp_tail_batch := batch, bp_unpublished := 0\<rparr>)"
        using True Call_batch P(3) by (simp add: set bc_publish_tail_def)
      ultimately show ?thesis by simp
    next
      case False
      have "producer_at m sl n sh (p\<lparr>bp_tail_batch := batch\<rparr>)"
        using P False batch unfolding producer_at_def by (simp add: word_le_nat_alt)
      then have "bc_trace m sl e ms (n, False) sh (bc_program calls (p\<lparr>bp_tail_batch := batch\<rparr>))"
        by (intro Cons.IH [OF ring _ op t])
      moreover have "bc_program (call # calls) p = bc_program calls (p\<lparr>bp_tail_batch := batch\<rparr>)"
        using False Call_batch by (simp add: set)
      ultimately show ?thesis by simp
    qed
  next
    case Call_drop
    have n: "n = length ms" using todo Call_drop nle by simp
    have shut: "bc_trace m sl e ms (n, False) sh' [St_closed 1]"
      if "ring_at m sl e ms n False sh'" "unat (bs_tail sh') = n" for sh'
      using that ring_shut [OF that(1)] n by (simp add: gens_grow_def)
    show ?thesis
    proof (cases "bp_unpublished p > 0")
      case True
      have "bc_trace m sl e ms (n, False) sh (St_tail (of_nat n) # [St_closed 1])"
        by (intro trace_publish [OF ring few] shut ring_tail [OF ring few]) (use un in simp)
      then show ?thesis
        using True Call_drop P(3) by (simp add: bc_producer_drop_def bc_flush_def bc_publish_tail_def)
    next
      case False
      then have "unat (bs_tail sh) = n" using P(6) by (simp add: word_less_nat_alt)
      then show ?thesis
        using False Call_drop shut [OF ring] by (simp add: bc_producer_drop_def bc_flush_def)
    qed
  qed
qed

end
