(* ===== verification/Broadcast_Properties.thy ===== *)
theory Broadcast_Properties
  imports Broadcast_Trace
begin

text \<open>
  The properties of the lossy broadcast ring: the contract of
  \<open>Lossy_History\<close> holds of every run of producer calls on a new ring, and with
  it every fact about the readers.
\<close>

section \<open>Runs of a new ring\<close>

record bcast_run =
  br_mask :: u64
  br_slack :: u64
  br_esize :: nat
  br_calls :: "bc_call list"

definition br_ok :: "bcast_run \<Rightarrow> bool" where
  "br_ok r \<longleftrightarrow> valid_mask (br_mask r) \<and> br_slack r < br_mask r + 1 \<and> 0 < br_esize r
     \<and> length (bc_pushed (br_calls r)) < seq_span
     \<and> (\<forall>v\<in>set (bc_pushed (br_calls r)). length v = br_esize r)"

definition br_handles :: "bcast_run \<Rightarrow> bcast_shared \<times> bcast_producer \<times> bcast_consumer" where
  "br_handles r = projr (bc_build (br_esize r) (br_mask r + 1) (br_slack r))"

definition br_stores :: "bcast_run \<Rightarrow> bc_store list" where
  "br_stores r = bc_program (br_calls r) (fst (snd (br_handles r)))"

definition br_messages :: "bcast_run \<Rightarrow> u8 list list" where
  "br_messages r = bc_pushed (br_calls r)"

definition br_memory :: "bcast_run \<Rightarrow> nat \<Rightarrow> bcast_shared" where
  "br_memory r t = bc_memory (fst (br_handles r)) (br_stores r) t"

text \<open>How many messages the producer has begun to write after \<open>t\<close> stores.\<close>

definition br_begun :: "bcast_run \<Rightarrow> nat \<Rightarrow> nat" where
  "br_begun r t = (case fold bc_phase (take t (br_stores r)) (0, False) of (n, w) \<Rightarrow> n + of_bool w)"

lemma slack_less: "br_ok r \<Longrightarrow> unat (br_slack r) < capacity_of (br_mask r)"
  unfolding br_ok_def capacity_of_def word_less_nat_alt by blast

lemma br_trace:
  assumes "br_ok r"
  shows "bc_trace (br_mask r) (br_slack r) (br_esize r) (br_messages r) (0, False)
    (fst (br_handles r)) (br_stores r)"
proof -
  define sh where "sh = fst (br_handles r)"
  define p where "p = fst (snd (br_handles r))"
  have e: "br_esize r \<noteq> 0" using assms by (simp add: br_ok_def)
  have sh: "sh = \<lparr>bs_slots = replicate (capacity_of (br_mask r)) \<lparr>sl_seq = 0, sl_data = replicate (br_esize r) None\<rparr>,
      bs_mask = br_mask r, bs_slack = br_slack r, bs_tail = 0, bs_closed = 0\<rparr>"
    and p: "p = \<lparr>bp_mask = br_mask r, bp_slack = br_slack r, bp_next_seq = 0, bp_tail_batch = 1,
      bp_unpublished = 0\<rparr>"
    unfolding sh_def p_def br_handles_def bc_build_def Let_def if_not_P [OF e] add_diff_cancel_right'
      capacity_of_def by (simp_all only: sum.sel fst_conv snd_conv bcast_shared.simps)
  have "ring_at (br_mask r) (br_slack r) (br_esize r) (br_messages r) 0 False sh"
    unfolding ring_at_def sh by simp
  moreover have "producer_at (br_mask r) (br_slack r) 0 sh p"
    unfolding producer_at_def sh p by simp
  moreover have "bs_closed sh = 0" unfolding sh by simp
  moreover have "valid_mask (br_mask r)" "length (br_messages r) < seq_span"
    "\<And>v. v \<in> set (br_messages r) \<Longrightarrow> length v = br_esize r"
    using assms by (auto simp: br_ok_def br_messages_def)
  ultimately have "bc_trace (br_mask r) (br_slack r) (br_esize r) (br_messages r) (0, False) sh
      (bc_program (br_calls r) p)"
    by (intro program_trace) (simp_all add: br_messages_def)
  then show ?thesis by (simp only: br_stores_def sh_def p_def)
qed

lemma br_instant:
  assumes "br_ok r"
  obtains n w where "ring_at (br_mask r) (br_slack r) (br_esize r) (br_messages r) n w (br_memory r t)"
    and "br_begun r t = n + of_bool w"
proof -
  obtain n w where nw: "fold bc_phase (take t (br_stores r)) (0, False) = (n, w)" by fastforce
  then have "ring_at (br_mask r) (br_slack r) (br_esize r) (br_messages r) n w (br_memory r t)"
    using trace_at [OF br_trace [OF assms], of t] by (simp add: br_memory_def)
  then show ?thesis using nw that by (simp add: br_begun_def)
qed

lemma br_okD:
  assumes "br_ok r"
  shows "valid_mask (br_mask r)" and "length (br_messages r) < seq_span"
    and "v \<in> set (br_messages r) \<Longrightarrow> length v = br_esize r"
  using assms by (auto simp: br_ok_def br_messages_def)

lemma br_grow:
  assumes "br_ok r" and "t \<le> t'" and "i < capacity_of (br_mask r)"
  shows "bs_tail (br_memory r t) \<le> bs_tail (br_memory r t')
    \<and> sl_seq (bs_slots (br_memory r t) ! i) \<le> sl_seq (bs_slots (br_memory r t') ! i)"
  unfolding br_memory_def by (rule trace_grow [OF br_trace [OF assms(1)] assms(2,3)])

interpretation bcast: lossy_history br_ok br_mask br_slack br_esize br_messages br_memory br_begun
proof
  fix r t assume ok: "br_ok r"
  obtain n w where ring: "ring_at (br_mask r) (br_slack r) (br_esize r) (br_messages r) n w (br_memory r t)"
    and nw: "br_begun r t = n + of_bool w" using br_instant [OF ok] by blast
  note D = br_okD [OF ok]
  show "unat (bs_tail (br_memory r t)) \<le> br_begun r t" using ring_atD(6) [OF ring] nw by simp
  show "br_begun r t \<le> length (br_messages r)" using ring_atD(5) [OF ring] nw by simp
  show "br_begun r t \<le> unat (bs_tail (br_memory r t)) + max 1 (unat (br_slack r))"
    using ring_atD(7) [OF ring] nw by simp
  show "bs_closed (br_memory r t) \<noteq> 0 \<Longrightarrow> unat (bs_tail (br_memory r t)) = length (br_messages r)"
    by (rule ring_atD(8) [OF ring])
  fix x
  show "unat x < length (br_messages r) \<Longrightarrow>
      sl_seq (bs_slots (br_memory r t) ! slot_ix (br_mask r) x) = 2 * x + 2 \<Longrightarrow>
      sl_data (bs_slots (br_memory r t) ! slot_ix (br_mask r) x) = map Some (br_messages r ! unat x)"
    by (rule instant_exact [OF ring D(1,2)])
  show "unat x < length (br_messages r) \<Longrightarrow>
      2 * x + 2 \<le> sl_seq (bs_slots (br_memory r t) ! slot_ix (br_mask r) x) \<Longrightarrow>
      None \<notin> set (sl_data (bs_slots (br_memory r t) ! slot_ix (br_mask r) x))"
    by (rule instant_init [OF ring D(1,2)])
  show "x < bs_tail (br_memory r t) \<Longrightarrow>
      2 * x + 2 \<le> sl_seq (bs_slots (br_memory r t) ! slot_ix (br_mask r) x)"
    by (rule instant_published [OF ring D(1,2)])
  show "x < bs_tail (br_memory r t) \<Longrightarrow> br_begun r t \<le> unat x + capacity_of (br_mask r) \<Longrightarrow>
      sl_seq (bs_slots (br_memory r t) ! slot_ix (br_mask r) x) = 2 * x + 2"
    unfolding nw by (rule instant_kept [OF ring])
qed (use br_okD slack_less br_grow [OF _ _ slot_ix_less] br_grow [OF _ _ capacity_pos] in blast)+

text \<open>A reader whose next load is its \<open>n\<close>-th, at time \<open>clk n\<close>.\<close>

definition br_reader :: "bcast_run \<Rightarrow> (nat \<Rightarrow> nat) \<Rightarrow> nat \<Rightarrow> bcast_consumer \<Rightarrow> bool" where
  "br_reader r clk n c \<longleftrightarrow> bc_mask c = br_mask r \<and> bc_slack c = br_slack r
     \<and> bc_pos c \<le> bs_tail (br_memory r (clk n)) \<and> bc_tail_cache c \<le> bs_tail (br_memory r (clk n))"

lemma br_reader_eq: "br_reader r clk n c = bcast.reader_ok r (clk n) c"
  by (simp add: br_reader_def bcast.reader_ok_def)

lemma seen_eq: "(\<lambda>k. br_memory r (clk k)) = bcast.seen_at r clk"
  by (rule ext) (simp add: bcast.seen_at_def)

lemma br_subscribed:
  assumes ok: "br_ok r" and "mono clk" and "t \<le> clk n"
  shows "bcast.reader_ok r (clk n) (bc_subscribe_from (br_memory r t))"
proof -
  obtain n w where "ring_at (br_mask r) (br_slack r) (br_esize r) (br_messages r) n w (br_memory r t)"
    using br_instant [OF ok] by blast
  then have "bcast.reader_ok r t (bc_subscribe_from (br_memory r t))"
    by (intro bcast.subscribe_ok [OF ok]) (simp_all add: ring_atD)
  then show ?thesis using bcast.reader_ok_later [OF ok] assms(3) by blast
qed

section \<open>The properties\<close>

text \<open>
  The runs of the witnesses: four pushes into a ring of two slots, and pushes
  under a tail batch.
\<close>

definition bw_run :: bcast_run where
  "bw_run = \<lparr>br_mask = 1, br_slack = 1, br_esize = 1,
     br_calls = [Call_push [10], Call_push [20], Call_push [30], Call_push [40], Call_drop]\<rparr>"

definition bw_batch :: bcast_run where
  "bw_batch = \<lparr>br_mask = 31, br_slack = 4, br_esize = 2,
     br_calls = [Call_batch 3, Call_push [1, 2], Call_push [3, 4]]\<rparr>"

definition bw_clk :: "nat \<Rightarrow> nat" where
  "bw_clk k = 3 * k"

definition bw_reader :: "u64 \<Rightarrow> bcast_consumer" where
  "bw_reader pos = \<lparr>bc_mask = 1, bc_slack = 1, bc_pos = pos, bc_tail_cache = pos\<rparr>"

lemma bw_ok: "br_ok bw_run" "br_ok bw_batch"
  by (simp_all add: br_ok_def bw_run_def bw_batch_def seq_span_def valid_maskI [of 1]
      valid_maskI [of 5] mask_eq_decr_exp)

lemma bw_mono: "mono bw_clk" "mono (\<lambda>k. 8 + 3 * k :: nat)" "mono (\<lambda>k :: nat. 17 :: nat)"
  by (simp_all add: mono_def bw_clk_def)

lemma bw_esize: "br_esize bw_run = 1" "br_mask bw_run = 1" "br_slack bw_run = 1"
  by (simp_all add: bw_run_def)

lemma memory_end: "length sts \<le> t \<Longrightarrow> bc_memory sh sts t = bc_memory sh sts (length sts)"
  by (simp add: bc_memory_def)

text \<open>
  (C16) Exact accounting of a lossy reader. Whatever the producer calls and wherever the
  reader's loads fall among its stores: no call of the reader faults, every
  message it gets is the one of its position, every count of lost or skipped
  messages moves the position by exactly that count, the end is reported only
  at the end, and what it got is a subsequence of what was pushed after it
  subscribed, gap-free when nothing was reported lost.
\<close>

theorem broadcast_accounting:
  assumes "br_ok r" and "mono clk" and "t \<le> clk 0"
  defines "c \<equiv> bc_subscribe_from (br_memory r t)"
  shows "\<exists>evs n c1. lossy_run (br_esize r) (\<lambda>k. br_memory r (clk k)) ops 0 c = Inr (evs, n, c1)
    \<and> br_reader r clk n c1
    \<and> replay (br_messages r) (unat (bc_pos c)) evs = Some (unat (bc_pos c1))
    \<and> unat (bc_pos c1) = unat (bc_pos c) + length (got evs) + lost evs
    \<and> subseq (got evs) (drop (unat (bc_pos c)) (br_messages r))
    \<and> (lost evs = 0 \<longrightarrow> got evs = take (length (got evs)) (drop (unat (bc_pos c)) (br_messages r)))"
proof -
  have c: "bcast.reader_ok r (clk 0) c" unfolding c_def by (rule br_subscribed [OF assms(1-3)])
  obtain evs n c1 where run: "lossy_run (br_esize r) (bcast.seen_at r clk) ops 0 c = Inr (evs, n, c1)"
    "bcast.reader_ok r (clk n) c1"
    "replay (br_messages r) (unat (bc_pos c)) evs = Some (unat (bc_pos c1))"
    using bcast.run_ok [OF assms(1,2) c] by blast
  note account = replay_account [OF run(3)]
  have "lost evs = 0 \<Longrightarrow> got evs = take (length (got evs)) (drop (unat (bc_pos c)) (br_messages r))"
    using replay_lossless [OF run(3)] account by simp
  then show ?thesis
    unfolding seen_eq [of r clk] br_reader_eq
    by (intro exI conjI) (rule run account replay_subseq [OF run(3)] impI | assumption)+
qed

theorem broadcast_accounting_witness:
  "\<exists>n c1. lossy_run 1 (\<lambda>k. br_memory bw_run (bw_clk k))
        [Op_try_pop, Op_try_pop, Op_try_pop, Op_lag, Op_try_pop, Op_try_pop] 0 (bw_reader 0)
      = Inr ([Nothing, Missed 2, Got [30], Nothing, Got [40], Ended], n, c1)
    \<and> unat (bc_pos c1) = 4"
proof -
  have sub: "bc_subscribe_from (br_memory bw_run 0) = bw_reader 0" by code_simp
  obtain evs n c1 where run: "lossy_run 1 (\<lambda>k. br_memory bw_run (bw_clk k))
        [Op_try_pop, Op_try_pop, Op_try_pop, Op_lag, Op_try_pop, Op_try_pop] 0 (bw_reader 0)
      = Inr (evs, n, c1)"
    and pos: "unat (bc_pos c1) = unat (bc_pos (bw_reader 0)) + length (got evs) + lost evs"
    using broadcast_accounting [OF bw_ok(1) bw_mono(1) le0,
        of "[Op_try_pop, Op_try_pop, Op_try_pop, Op_lag, Op_try_pop, Op_try_pop]"]
    unfolding sub bw_esize by (elim exE conjE) (rule that)
  have "map_sum id fst (lossy_run 1 (\<lambda>k. br_memory bw_run (bw_clk k))
        [Op_try_pop, Op_try_pop, Op_try_pop, Op_lag, Op_try_pop, Op_try_pop] 0 (bw_reader 0))
      = Inr [Nothing, Missed 2, Got [30], Nothing, Got [40], Ended]" by code_simp
  then have "evs = [Nothing, Missed 2, Got [30], Nothing, Got [40], Ended]"
    unfolding run by (simp only: map_sum.simps fst_conv sum.inject)
  then show ?thesis using run pos by (simp add: bw_reader_def)
qed

text \<open>
  (C17) Never torn. The seqlock read of a published message, with the producer
  storing between any two of its loads, faults in no debug assertion and reads
  no uninitialised byte: it returns exactly that message, or rejects the copy
  because the producer had begun the message one lap later.
\<close>

theorem broadcast_never_torn:
  assumes "br_ok r" and "mono clk" and "x < bs_tail (br_memory r (clk 0))"
  shows "read_valid (br_esize r) (\<lambda>k. bs_slots (br_memory r (clk k)) ! slot_ix (br_mask r) x) (2 * x + 2)
      = Inr (Some (br_messages r ! unat x), word_loads (br_esize r) + 2)
    \<or> (\<exists>loads. read_valid (br_esize r)
          (\<lambda>k. bs_slots (br_memory r (clk k)) ! slot_ix (br_mask r) x) (2 * x + 2) = Inr (None, loads)
        \<and> unat x + capacity_of (br_mask r) < br_begun r (clk (loads - 1)))"
proof -
  have slot: "(\<lambda>k. bs_slots (br_memory r (clk k)) ! slot_ix (br_mask r) x) = bcast.slot_seen r clk 0 x"
    by (rule ext) (simp add: bcast.slot_seen_def bcast.seen_at_def)
  show ?thesis
    unfolding slot by (rule bcast.read_valid_here [OF assms(1,2), of x 0]) (use assms(3) in auto)
qed

theorem broadcast_never_torn_witness:
  "1 < bs_tail (br_memory bw_run 8)
    \<and> read_valid 1 (\<lambda>k. bs_slots (br_memory bw_run (8 + 3 * k)) ! slot_ix 1 1) (2 * 1 + 2) = Inr (None, 3)
    \<and> 1 + capacity_of 1 < br_begun bw_run 14"
proof -
  have tail: "1 < bs_tail (br_memory bw_run 8)" by code_simp
  have rejected: "read_valid 1 (\<lambda>k. bs_slots (br_memory bw_run (8 + 3 * k)) ! slot_ix 1 1) (2 * 1 + 2)
      = Inr (None, 3)" by code_simp
  show ?thesis
    using broadcast_never_torn [OF bw_ok(1) bw_mono(2), of 1] tail rejected
    unfolding bw_esize by simp
qed

text \<open>
  (C19) Closed is exact. A reader is told \<open>Closed\<close> only when it stands behind the
  last message ever pushed, also when the close raced with its checks; and a
  reader there is told so by every call after the close.
\<close>

theorem broadcast_closed_exact:
  assumes "br_ok r" and "mono clk" and "br_reader r clk n c"
  shows "((\<exists>n1 c1. bc_try_pop (br_esize r) (\<lambda>k. br_memory r (clk k)) n c = Inr (Inl Bc_closed, n1, c1))
        \<longrightarrow> unat (bc_pos c) = length (br_messages r))
    \<and> (unat (bc_pos c) = length (br_messages r) \<and> bs_closed (br_memory r (clk (Suc n))) \<noteq> 0 \<longrightarrow>
      (\<exists>n1 c1. bc_try_pop (br_esize r) (\<lambda>k. br_memory r (clk k)) n c = Inr (Inl Bc_closed, n1, c1)))"
proof -
  have c: "bcast.reader_ok r (clk n) c" using assms(3) by (simp only: br_reader_eq)
  note cases = bcast.try_pop_ok [OF assms(1,2) c]
  have end_only: "unat (bc_pos c) = length (br_messages r)"
    if "bc_try_pop (br_esize r) (bcast.seen_at r clk) n c = Inr (Inl Bc_closed, n1, c1)" for n1 c1
    by (rule cases) (use that in auto)
  have "\<exists>n1 c1. bc_try_pop (br_esize r) (bcast.seen_at r clk) n c = Inr (Inl Bc_closed, n1, c1)"
    if last: "unat (bc_pos c) = length (br_messages r)" "bs_closed (br_memory r (clk (Suc n))) \<noteq> 0"
  proof (rule cases)
    fix m n1 c1
    assume "unat (bc_pos c) + capacity_of (br_mask r) < br_begun r (clk (n1 - 2))"
    then show ?thesis using bcast.begun_le [OF assms(1), of "clk (n1 - 2)"] last(1) by linarith
  qed (use last in auto)
  then show ?thesis unfolding seen_eq [of r clk] using end_only by blast
qed

theorem broadcast_closed_exact_witness:
  "\<exists>n1 c1. bc_try_pop 1 (\<lambda>k. br_memory bw_run (bw_clk k)) 6 (bw_reader 4) = Inr (Inl Bc_closed, n1, c1)"
proof -
  have reader: "br_reader bw_run bw_clk 6 (bw_reader 4)" by code_simp
  have "unat (bc_pos (bw_reader 4)) = length (br_messages bw_run)"
    "bs_closed (br_memory bw_run (bw_clk (Suc 6))) \<noteq> 0" by code_simp+
  then show ?thesis
    using broadcast_closed_exact [OF bw_ok(1) bw_mono(1) reader] unfolding bw_esize by blast
qed

text \<open>
  The publication debt under a tail batch: the stores of a run do not change when
  the slack is lowered to a bound on the batches it asks for, so that bound
  replaces the slack in the law on begun and published messages.
\<close>

lemma apply_slack: "bc_apply st (sh\<lparr>bs_slack := x\<rparr>) = (bc_apply st sh)\<lparr>bs_slack := x\<rparr>"
  by (cases st) simp_all

lemma memory_slack: "bc_memory (sh\<lparr>bs_slack := x\<rparr>) sts t = (bc_memory sh sts t)\<lparr>bs_slack := x\<rparr>"
proof -
  have "fold bc_apply ss (sh\<lparr>bs_slack := x\<rparr>) = (fold bc_apply ss sh)\<lparr>bs_slack := x\<rparr>" for ss
    by (induction ss arbitrary: sh) (simp_all add: apply_slack)
  then show ?thesis by (simp add: bc_memory_def)
qed

lemma publish_slack:
  "bc_publish_tail (p\<lparr>bp_slack := x\<rparr>) = (case bc_publish_tail p of (sts, q) \<Rightarrow> (sts, q\<lparr>bp_slack := x\<rparr>))"
  by (simp add: bc_publish_tail_def)

lemma push_slack:
  "bc_push v (p\<lparr>bp_slack := x\<rparr>) = (case bc_push v p of (sts, q) \<Rightarrow> (sts, q\<lparr>bp_slack := x\<rparr>))"
  by (simp add: bc_push_def bp_slot_def Let_def bc_publish_tail_def)

lemma flush_slack:
  "bc_flush (p\<lparr>bp_slack := x\<rparr>) = (case bc_flush p of (sts, q) \<Rightarrow> (sts, q\<lparr>bp_slack := x\<rparr>))"
  by (simp add: bc_flush_def publish_slack)

lemma clamp_slack:
  "n \<le> x \<Longrightarrow> x \<le> y \<Longrightarrow> max 1 (min n (max (min c x) 1)) = (max 1 (min n (max (min c y) 1)) :: u64)"
  by (auto simp: min_def max_def)

lemma batch_slack:
  assumes "n \<le> x" and "x \<le> bp_slack p"
  shows "bc_set_tail_batch n (p\<lparr>bp_slack := x\<rparr>)
    = (case bc_set_tail_batch n p of (b, sts, q) \<Rightarrow> (b, sts, q\<lparr>bp_slack := x\<rparr>))"
proof -
  define b where "b = max 1 (min n (max (min ((bp_mask p + 1) div 8) (bp_slack p)) 1))"
  have apply_batch: "bc_set_tail_batch n q = (b, if b \<le> bp_unpublished q then bc_publish_tail (q\<lparr>bp_tail_batch := b\<rparr>)
      else ([], q\<lparr>bp_tail_batch := b\<rparr>))"
    if "max 1 (min n (max (min ((bp_mask q + 1) div 8) (bp_slack q)) 1)) = b" for q :: bcast_producer
    unfolding bc_set_tail_batch_def Let_def that by simp
  have swap: "p\<lparr>bp_slack := x, bp_tail_batch := b\<rparr> = (p\<lparr>bp_tail_batch := b\<rparr>)\<lparr>bp_slack := x\<rparr>" by simp
  have sel: "bp_mask (p\<lparr>bp_slack := x\<rparr>) = bp_mask p" "bp_slack (p\<lparr>bp_slack := x\<rparr>) = x"
    "bp_unpublished (p\<lparr>bp_slack := x\<rparr>) = bp_unpublished p" by simp_all
  have 1: "bc_set_tail_batch n (p\<lparr>bp_slack := x\<rparr>) = (b, if b \<le> bp_unpublished p
      then bc_publish_tail ((p\<lparr>bp_tail_batch := b\<rparr>)\<lparr>bp_slack := x\<rparr>) else ([], (p\<lparr>bp_tail_batch := b\<rparr>)\<lparr>bp_slack := x\<rparr>))"
    by (subst apply_batch) (simp_all only: sel clamp_slack [OF assms] b_def [symmetric] swap)
  show ?thesis
    unfolding 1 apply_batch [of p, OF b_def [symmetric]] publish_slack by (simp split: prod.split)
qed

lemma slack_kept:
  "bc_push v p = (sts, q) \<Longrightarrow> bp_slack q = bp_slack p"
  "bc_flush p = (sts, q) \<Longrightarrow> bp_slack q = bp_slack p"
  "bc_set_tail_batch n p = (b, sts, q) \<Longrightarrow> bp_slack q = bp_slack p"
  by (auto simp: bc_push_def bc_flush_def bc_set_tail_batch_def bc_publish_tail_def Let_def split: if_splits)

lemma program_slack:
  assumes "\<forall>n. Call_batch n \<in> set calls \<longrightarrow> n \<le> x" and "x \<le> bp_slack p"
  shows "bc_program calls (p\<lparr>bp_slack := x\<rparr>) = bc_program calls p"
  using assms
proof (induction calls p rule: bc_program.induct)
  case (1 p)
  then show ?case by simp
next
  case (2 v calls p)
  obtain sts q where q: "bc_push v p = (sts, q)" by (rule prod.exhaust)
  then show ?case using "2.IH" [OF q [symmetric]] "2.prems" slack_kept(1) [OF q] by (simp add: push_slack)
next
  case (3 calls p)
  obtain sts q where q: "bc_flush p = (sts, q)" by (rule prod.exhaust)
  then show ?case using "3.IH" [OF q [symmetric]] "3.prems" slack_kept(2) [OF q] by (simp add: flush_slack)
next
  case (4 n calls p)
  obtain b sts q where q: "bc_set_tail_batch n p = (b, sts, q)" by (rule prod_cases3)
  have "n \<le> x" using "4.prems"(1) by simp
  then show ?case
    using "4.IH" [OF q [symmetric] refl] "4.prems" slack_kept(3) [OF q] q by (simp add: batch_slack)
next
  case (5 calls p)
  then show ?case by (simp add: bc_producer_drop_def flush_slack split: prod.split)
qed

lemma br_handles_slack:
  assumes "br_ok r"
  shows "fst (br_handles (r\<lparr>br_slack := x\<rparr>)) = (fst (br_handles r))\<lparr>bs_slack := x\<rparr>"
    and "fst (snd (br_handles (r\<lparr>br_slack := x\<rparr>))) = (fst (snd (br_handles r)))\<lparr>bp_slack := x\<rparr>"
    and "bp_slack (fst (snd (br_handles r))) = br_slack r"
  using assms by (simp_all add: br_handles_def bc_build_def Let_def br_ok_def)

lemma batch_debt:
  assumes ok: "br_ok r" and b: "0 < b" and calls: "\<forall>n. Call_batch n \<in> set (br_calls r) \<longrightarrow> unat n \<le> b"
  shows "br_begun r t \<le> unat (bs_tail (br_memory r t)) + b"
proof (cases "b \<le> unat (br_slack r)")
  case False
  then have "max 1 (unat (br_slack r)) \<le> b" using b by simp
  then show ?thesis using bcast.debt [OF ok, of t] by linarith
next
  case True
  define x :: u64 where "x = of_nat b"
  have "b < word_span" using True unat_less_span [of "br_slack r"] by linarith
  then have ub: "unat x = b" by (simp add: x_def unat_of_nat_span)
  have le: "x \<le> br_slack r" using True ub by (simp add: word_le_nat_alt)
  let ?r = "r\<lparr>br_slack := x\<rparr>"
  have "br_ok ?r" using ok le by (auto simp: br_ok_def intro: le_less_trans)
  moreover have sts: "br_stores ?r = br_stores r"
    using program_slack [of "br_calls r" x "fst (snd (br_handles r))"] calls le
    by (simp add: br_stores_def br_handles_slack [OF ok] word_le_nat_alt ub)
  then have "br_begun ?r t = br_begun r t" "bs_tail (br_memory ?r t) = bs_tail (br_memory r t)"
    by (simp_all add: br_begun_def br_memory_def memory_slack br_handles_slack [OF ok])
  ultimately show ?thesis using bcast.debt [of ?r t] b by (simp add: ub)
qed

text \<open>
  (C18) The slack keeps a lapped reader from lagging again. Take two calls in a row that
  lag, and the messages the producer has begun at the last load of the first
  call (the tail its reposition is computed from) and when the second call loads
  the generation that shows it lapped. If the tail batch is never asked to be
  more than \<open>b\<close> (1 without batching), more than \<open>slack - b\<close> messages, that is at
  least \<open>slack - (b - 1)\<close>, are begun in between; without batching at least \<open>slack\<close>.
  Counted from the published tail the reposition saw it is more than \<open>slack\<close> with
  any batch. So with a positive slack and an idle producer, whatever tail batch
  it uses, the call after a lag delivers a message.
\<close>

theorem broadcast_headroom:
  assumes "br_ok r" and "mono clk" and "br_reader r clk n c"
    and "bc_try_pop (br_esize r) (\<lambda>k. br_memory r (clk k)) n c = Inr (Inl (Lagged m), n1, c1)"
  shows "(\<forall>m' n2 c2. bc_try_pop (br_esize r) (\<lambda>k. br_memory r (clk k)) n1 c1 = Inr (Inl (Lagged m'), n2, c2)
        \<longrightarrow> unat (bs_tail (br_memory r (clk (n1 - 1)))) + unat (br_slack r) < br_begun r (clk (n2 - 2))
          \<and> (\<forall>b. 0 < b \<and> (\<forall>x. Call_batch x \<in> set (br_calls r) \<longrightarrow> unat x \<le> b) \<longrightarrow>
               br_begun r (clk (n1 - 1)) + unat (br_slack r) < br_begun r (clk (n2 - 2)) + b)
          \<and> ((\<forall>x. Call_batch x \<notin> set (br_calls r)) \<longrightarrow>
               br_begun r (clk (n1 - 1)) + unat (br_slack r) \<le> br_begun r (clk (n2 - 2))))
    \<and> (0 < br_slack r \<and> (\<forall>k\<ge>n1 - 1. clk k = clk (n1 - 1)) \<longrightarrow>
        (\<exists>n2 c2. bc_try_pop (br_esize r) (\<lambda>k. br_memory r (clk k)) n1 c1
          = Inr (Inr (Some (br_messages r ! unat (bc_pos c1))), n2, c2)))"
proof -
  have c: "bcast.reader_ok r (clk n) c" using assms(3) by (simp only: br_reader_eq)
  note lag = assms(4) [unfolded seen_eq [of r clk]]
  have c1: "bcast.reader_ok r (clk n1) c1"
    by (rule bcast.try_pop_ok [OF assms(1,2) c]) (use lag in auto)
  note behind = bcast.lag_lands_behind [OF assms(1,2) c lag]
  have "\<exists>n2 c2. bc_try_pop (br_esize r) (bcast.seen_at r clk) n1 c1
      = Inr (Inr (Some (br_messages r ! unat (bc_pos c1))), n2, c2)"
    if pos: "0 < br_slack r" and quiet: "\<forall>k\<ge>n1 - 1. clk k = clk (n1 - 1)"
  proof (rule bcast.try_pop_ok [OF assms(1,2) c1])
    fix m n2 c2
    assume "bc_try_pop (br_esize r) (bcast.seen_at r clk) n1 c1 = Inr (Inl (Lagged m), n2, c2)"
    then show ?thesis using bcast.no_livelock [OF assms(1,2) c pos lag] quiet by blast
  next
    assume "bc_pos c1 = bs_tail (br_memory r (clk n1))"
    moreover have "clk n1 = clk (n1 - 1)" using quiet diff_le_self by blast
    ultimately show ?thesis using behind by simp
  next
    assume "unat (bc_pos c1) = length (br_messages r)"
    then show ?thesis using behind bcast.tail_le [OF assms(1), of "clk (n1 - 1)"] by simp
  qed blast
  moreover have "unat (bs_tail (br_memory r (clk (n1 - 1)))) + unat (br_slack r) < br_begun r (clk (n2 - 2))
      \<and> (\<forall>b. 0 < b \<and> (\<forall>x. Call_batch x \<in> set (br_calls r) \<longrightarrow> unat x \<le> b) \<longrightarrow>
           br_begun r (clk (n1 - 1)) + unat (br_slack r) < br_begun r (clk (n2 - 2)) + b)
      \<and> ((\<forall>x. Call_batch x \<notin> set (br_calls r)) \<longrightarrow>
           br_begun r (clk (n1 - 1)) + unat (br_slack r) \<le> br_begun r (clk (n2 - 2)))"
    if again: "bc_try_pop (br_esize r) (bcast.seen_at r clk) n1 c1 = Inr (Inl (Lagged m'), n2, c2)" for m' n2 c2
  proof -
    note T = bcast.headroom [OF assms(1,2) c lag again]
    have B: "br_begun r (clk (n1 - 1)) + unat (br_slack r) < br_begun r (clk (n2 - 2)) + b"
      if "0 < b" "\<forall>x. Call_batch x \<in> set (br_calls r) \<longrightarrow> unat x \<le> b" for b
      using T batch_debt [OF assms(1) that, of "clk (n1 - 1)"] by linarith
    have "br_begun r (clk (n1 - 1)) + unat (br_slack r) \<le> br_begun r (clk (n2 - 2))"
      if "\<forall>x. Call_batch x \<notin> set (br_calls r)"
      using B [of 1] that by simp
    then show ?thesis using T B by blast
  qed
  ultimately show ?thesis unfolding seen_eq [of r clk] by blast
qed

text \<open>
  The witness has the two halves: a reader that lags while the producer is idle
  and is then served, and one that lags, loses the \<open>slack\<close> of one message to
  the next push and lags again.
\<close>

definition bw_clk2 :: "nat \<Rightarrow> nat" where
  "bw_clk2 k = (if k < 3 then 9 else 17)"

theorem broadcast_headroom_witness:
  "(\<exists>n1 c1 n2 c2. bc_try_pop 1 (\<lambda>k. br_memory bw_run 17) 0 (bw_reader 0) = Inr (Inl (Lagged 3), n1, c1)
      \<and> bc_try_pop 1 (\<lambda>k. br_memory bw_run 17) n1 c1
        = Inr (Inr (Some (br_messages bw_run ! unat (bc_pos c1))), n2, c2))
    \<and> (\<exists>c1 m n2 c2. bc_try_pop 1 (\<lambda>k. br_memory bw_run (bw_clk2 k)) 0 (bw_reader 0) = Inr (Inl (Lagged 1), 3, c1)
      \<and> bc_try_pop 1 (\<lambda>k. br_memory bw_run (bw_clk2 k)) 3 c1 = Inr (Inl (Lagged m), n2, c2)
      \<and> br_begun bw_run 9 = 3 \<and> 3 + 1 \<le> br_begun bw_run (bw_clk2 (n2 - 2)))"
proof
  have reader: "br_reader bw_run (\<lambda>k. 17) 0 (bw_reader 0)" by code_simp
  have "(case bc_try_pop 1 (\<lambda>k. br_memory bw_run 17) 0 (bw_reader 0) of
      Inr (r, _) \<Rightarrow> r = Inl (Lagged 3) | Inl _ \<Rightarrow> False)" by code_simp
  then obtain n1 c1 where lag: "bc_try_pop 1 (\<lambda>k. br_memory bw_run 17) 0 (bw_reader 0)
      = Inr (Inl (Lagged 3), n1, c1)" by (auto split: sum.splits)
  have "(0 :: u64) < 1" by simp
  then show "\<exists>n1 c1 n2 c2. bc_try_pop 1 (\<lambda>k. br_memory bw_run 17) 0 (bw_reader 0) = Inr (Inl (Lagged 3), n1, c1)
      \<and> bc_try_pop 1 (\<lambda>k. br_memory bw_run 17) n1 c1
        = Inr (Inr (Some (br_messages bw_run ! unat (bc_pos c1))), n2, c2)"
    using broadcast_headroom [OF bw_ok(1) bw_mono(3) reader, unfolded bw_esize, OF lag] lag by blast
next
  let ?pop = "bc_try_pop 1 (\<lambda>k. br_memory bw_run (bw_clk2 k))"
  have mono: "mono bw_clk2" by (simp add: mono_def bw_clk2_def)
  have reader: "br_reader bw_run bw_clk2 0 (bw_reader 0)" by code_simp
  define c1 where "c1 = snd (snd (projr (?pop 0 (bw_reader 0))))"
  have "(case ?pop 0 (bw_reader 0) of Inr (r, n, c) \<Rightarrow> r = Inl (Lagged 1) \<and> n = 3 | Inl _ \<Rightarrow> False)"
    by code_simp
  then have lag: "?pop 0 (bw_reader 0) = Inr (Inl (Lagged 1), 3, c1)"
    by (auto simp: c1_def split: sum.splits)
  have "(case ?pop 3 c1 of Inr (e, _) \<Rightarrow> e = Inl (Lagged 2) | Inl _ \<Rightarrow> False)"
    unfolding c1_def by code_simp
  then obtain n2 c2 where again: "?pop 3 c1 = Inr (Inl (Lagged 2), n2, c2)"
    by (auto split: sum.splits)
  have "take 9 (br_stores bw_run) = [St_seq 0 1, St_data 0 0 [10], St_seq 0 2, St_tail 1,
      St_seq 1 3, St_data 1 0 [20], St_seq 1 4, St_tail 2, St_seq 0 5]" by code_simp
  then have e: "br_begun bw_run 9 = 3" "bw_clk2 (3 - 1) = 9" "unat (1 :: u64) = 1"
    by (simp_all add: br_begun_def bw_clk2_def)
  have "\<forall>x. Call_batch x \<notin> set (br_calls bw_run)" by (simp add: bw_run_def)
  then have "3 + 1 \<le> br_begun bw_run (bw_clk2 (n2 - 2))"
    using broadcast_headroom [OF bw_ok(1) mono reader, unfolded bw_esize, OF lag] again e by (metis)
  then show "\<exists>c1 m n2 c2. ?pop 0 (bw_reader 0) = Inr (Inl (Lagged 1), 3, c1)
      \<and> ?pop 3 c1 = Inr (Inl (Lagged m), n2, c2)
      \<and> br_begun bw_run 9 = 3 \<and> 3 + 1 \<le> br_begun bw_run (bw_clk2 (n2 - 2))"
    using lag again e(1) by blast
qed

text \<open>
  (C20) \<open>pop\<close> returns, with any wait strategy, once from some load on the reader sees
  a message beyond its position or the close; and what it returns is the message
  of its position, an exact loss, or the end of the stream.
\<close>

theorem broadcast_pop_returns:
  assumes "br_ok r" and "mono clk" and "br_reader r clk n c" and "\<And>k. k \<le> wait k"
    and "\<And>k. n + d \<le> k \<Longrightarrow>
      bs_tail (br_memory r (clk k)) \<noteq> bc_pos c \<or> bs_closed (br_memory r (clk k)) \<noteq> 0"
  shows "\<exists>res n1 c1. bc_pop (br_esize r) wait (\<lambda>k. br_memory r (clk k)) n c = Some (Inr (res, n1, c1))
    \<and> (case res of
         Inr v \<Rightarrow> unat (bc_pos c) < length (br_messages r) \<and> v = br_messages r ! unat (bc_pos c)
           \<and> unat (bc_pos c1) = Suc (unat (bc_pos c))
       | Inl (Lagged m) \<Rightarrow> unat (bc_pos c1) = unat (bc_pos c) + unat m
       | Inl Bc_closed \<Rightarrow> bc_pos c1 = bc_pos c \<and> unat (bc_pos c) = length (br_messages r))"
  unfolding seen_eq [of r clk]
  using bcast.pop_ok [OF assms(1,2) assms(3) [unfolded br_reader_eq] assms(4,5)] by blast

theorem broadcast_pop_returns_witness:
  "\<exists>res n1 c1. bc_pop 1 Suc (\<lambda>k. br_memory bw_run (bw_clk k)) 0 (bw_reader 0) = Some (Inr (res, n1, c1))"
proof -
  have reader: "br_reader bw_run bw_clk 0 (bw_reader 0)" by code_simp
  have len: "length (br_stores bw_run) = 17" by code_simp
  have final: "bs_tail (br_memory bw_run 17) \<noteq> bc_pos (bw_reader 0)" by code_simp
  have "bs_tail (br_memory bw_run (bw_clk k)) \<noteq> bc_pos (bw_reader 0)" if "0 + 6 \<le> k" for k
  proof -
    have "br_memory bw_run (bw_clk k) = br_memory bw_run 17"
      using memory_end [of "br_stores bw_run" "bw_clk k"] len that by (simp add: br_memory_def bw_clk_def)
    then show ?thesis using final by simp
  qed
  then show ?thesis
    using broadcast_pop_returns [OF bw_ok(1) bw_mono(1) reader, of Suc 6] unfolding bw_esize by auto
qed

text \<open>
  (C21) Well-formedness. After every single atomic store of every run the ring keeps its
  geometry: capacity, slack, the number of slots, the size of each payload; and
  the tail is covered by published slots whose payload bytes are all
  initialised.
\<close>

theorem broadcast_well_formed:
  assumes "br_ok r"
  shows "bs_mask (br_memory r t) = br_mask r \<and> bs_slack (br_memory r t) = br_slack r
    \<and> length (bs_slots (br_memory r t)) = capacity_of (br_mask r)
    \<and> (\<forall>i<capacity_of (br_mask r). length (sl_data (bs_slots (br_memory r t) ! i)) = br_esize r)
    \<and> (\<forall>x<bs_tail (br_memory r t). 2 * x + 2 \<le> sl_seq (bs_slots (br_memory r t) ! slot_ix (br_mask r) x)
        \<and> None \<notin> set (sl_data (bs_slots (br_memory r t) ! slot_ix (br_mask r) x)))"
proof -
  obtain n w where ring: "ring_at (br_mask r) (br_slack r) (br_esize r) (br_messages r) n w (br_memory r t)"
    using br_instant [OF assms] by blast
  have init: "2 * x + 2 \<le> sl_seq (bs_slots (br_memory r t) ! slot_ix (br_mask r) x)
      \<and> None \<notin> set (sl_data (bs_slots (br_memory r t) ! slot_ix (br_mask r) x))"
    if "x < bs_tail (br_memory r t)" for x
  proof -
    note gen = bcast.gen_published [OF assms that]
    have "unat x < length (br_messages r)"
      using that bcast.tail_le [OF assms, of t] by (simp add: word_less_nat_alt)
    then show ?thesis using gen bcast.gen_init [OF assms _ gen] by blast
  qed
  show ?thesis using ring_atD(1-4) [OF ring] init by blast
qed

theorem broadcast_well_formed_witness:
  "length (bs_slots (br_memory bw_run 9)) = 2 \<and> length (sl_data (bs_slots (br_memory bw_run 9) ! 1)) = 1"
proof -
  have "capacity_of 1 = 2" by code_simp
  then show ?thesis using broadcast_well_formed [OF bw_ok(1), of 9] unfolding bw_esize by simp
qed

text \<open>
  The tail batch. \<open>set_tail_batch\<close> applies the request clamped to
  \<open>[1, min (capacity / 8, slack)]\<close>, and at every instant at most \<open>max 1 slack\<close>
  messages are begun beyond the published tail.
\<close>

theorem broadcast_batch_bound:
  assumes "br_ok r" and "bp_mask p = br_mask r" and "bp_slack p = br_slack r"
  shows "unat (fst (bc_set_tail_batch b p))
      = max 1 (min (unat b) (max 1 (min (capacity_of (br_mask r) div 8) (unat (br_slack r)))))
    \<and> br_begun r t \<le> unat (bs_tail (br_memory r t)) + max 1 (unat (br_slack r))"
proof -
  have "unat (8 :: u64) = 8" "unat (1 :: u64) = 1" by simp_all
  then have "unat (fst (bc_set_tail_batch b p))
      = max 1 (min (unat b) (max 1 (min (capacity_of (br_mask r) div 8) (unat (br_slack r)))))"
    unfolding bc_set_tail_batch_def Let_def fst_conv assms(2,3) unat_max unat_min unat_div
      capacity_of_def by (simp only: max.commute [of _ 1])
  then show ?thesis using bcast.debt [OF assms(1)] by blast
qed

theorem broadcast_batch_bound_witness:
  "unat (fst (bc_set_tail_batch 9 (fst (snd (br_handles bw_batch))))) = 4
    \<and> br_begun bw_batch 7 \<le> unat (bs_tail (br_memory bw_batch 7)) + 4"
proof -
  have p: "bp_mask (fst (snd (br_handles bw_batch))) = br_mask bw_batch"
    "bp_slack (fst (snd (br_handles bw_batch))) = br_slack bw_batch" by code_simp+
  have c: "capacity_of (br_mask bw_batch) = 32" "unat (br_slack bw_batch) = 4" by code_simp+
  show ?thesis using broadcast_batch_bound [OF bw_ok(2) p, of 9 7] unfolding c by simp
qed

end
