(* ===== verification/Spmc_Bytes.thy ===== *)
theory Spmc_Bytes
  imports Gate_Properties Spmc Spsc_Bytes
begin

text \<open>
  The gating multi-consumer byte ring (\<open>src/src/spmc_bytes.rs\<close>): the gating
  engine of \<open>Gate\<close> at byte granularity, with the frame format of \<open>Framing\<close>, the
  starving word that carries the span of a blocked push, and the lag-filtered
  release. The consumer-side checks, the flush and the membership operations are
  the ones of the gating engine, which the source repeats for the byte cursors.

  Each consumer sees the ring as a single-consumer byte ring; that view carries
  the facts about frames over from \<open>Spsc_Bytes\<close>.
\<close>

section \<open>State\<close>

record spmcb_shared = gate_shared +
  sbs_buffer :: "u8 list"
  sbs_starving :: u64

record spmcb_producer = gate_producer +
  sbp_raised_starving :: bool

record spmcb =
  sb_sh :: spmcb_shared
  sb_p :: spmcb_producer
  sb_cs :: "nat \<Rightarrow> gate_consumer option"
  sb_next :: nat

definition publish_batch_bytes :: "u64 \<Rightarrow> u64" where
  "publish_batch_bytes capacity = publish_batch capacity MAX_PUBLISH_BATCH_BYTES"

definition max_record_span :: "usize \<Rightarrow> usize" where
  "max_record_span capacity = 2 * record_len (max_message_len capacity) - ALIGN"

definition sb_subscribe ::
  "spmcb_shared \<Rightarrow> (subscribe_error + gate_consumer) \<times> spmcb_shared" where
  "sb_subscribe sh = gate_subscribe sh"

definition sb_new :: "usize \<Rightarrow> fault + spmcb" where
  "sb_new min_capacity =
     (case round_capacity min_capacity MIN_CAPACITY of
        Inl f \<Rightarrow> Inl f
      | Inr capacity \<Rightarrow>
          (let sh = \<lparr>gs_mask = capacity - 1, gs_write_cursor = 0, gs_closed = 0,
                     gs_registry = [chunk_new], gs_producer_notified = 0, gs_consumer_notified = 0,
                     sbs_buffer = replicate (8 * unat (capacity div 8)) 0, sbs_starving = 0\<rparr>
           in case sb_subscribe sh of
                (Inl e, sh1) \<Rightarrow> Inl Panic
              | (Inr c, sh1) \<Rightarrow>
                  Inr \<lparr>sb_sh = sh1,
                       sb_p = \<lparr>gp_mask = capacity - 1, gp_next_seq = 0, gp_cached_min = 0,
                               gp_cached_cursors = [], sbp_raised_starving = False\<rparr>,
                       sb_cs = Map.empty(0 \<mapsto> c), sb_next = 1\<rparr>))"

section \<open>The producer\<close>

text \<open>
  The space check. A refusal publishes the span of the blocked push; the debug
  assertion on that span is the panic.
\<close>

definition sb_has_space ::
  "u64 \<Rightarrow> spmcb_shared \<Rightarrow> spmcb_producer \<Rightarrow> fault + bool \<times> spmcb_shared \<times> spmcb_producer" where
  "sb_has_space needed sh p =
     (if gate_lacks_space (gp_next_seq p) needed (gp_cached_min p) (gp_mask p + 1)
      then (case gate_rescan needed sh p of
              (True, p1) \<Rightarrow> Inr (True, sh, p1)
            | (False, p1) \<Rightarrow>
                (if needed \<le> max_record_span (gp_mask p1 + 1)
                 then Inr (False,
                           (if sbs_starving sh \<noteq> needed then sh\<lparr>sbs_starving := needed\<rparr> else sh),
                           p1\<lparr>sbp_raised_starving := True\<rparr>)
                 else Inl Panic))
      else if sbp_raised_starving p
           then Inr (True, sh\<lparr>sbs_starving := 0\<rparr>, p\<lparr>sbp_raised_starving := False\<rparr>)
           else Inr (True, sh, p))"

partial_function (option) sb_space_loop ::
  "u64 \<Rightarrow> (spmcb_shared \<Rightarrow> spmcb_shared) list \<Rightarrow> spmcb_shared \<Rightarrow> spmcb_producer
     \<Rightarrow> (fault + spmcb_shared \<times> spmcb_producer) option" where
  "sb_space_loop needed env sh p =
     (case sb_has_space needed sh p of
        Inl f \<Rightarrow> Some (Inl f)
      | Inr (free, sh', p') \<Rightarrow>
          if free then Some (Inr (sh', p'))
          else (case gate_poll_rescan needed env sh' p' of
                  None \<Rightarrow> None
                | Some (sh1, p1, env1) \<Rightarrow> sb_space_loop needed env1 sh1 p1))"

definition sb_wait_for_space ::
  "u64 \<Rightarrow> (spmcb_shared \<Rightarrow> spmcb_shared) list \<Rightarrow> spmcb_shared \<Rightarrow> spmcb_producer
     \<Rightarrow> (fault + spmcb_shared \<times> spmcb_producer) option" where
  "sb_wait_for_space needed env sh p =
     (case sb_has_space needed sh p of
        Inl f \<Rightarrow> Some (Inl f)
      | Inr (True, sh', p') \<Rightarrow> Some (Inr (sh', p'))
      | Inr (False, sh', p') \<Rightarrow> sb_space_loop needed env sh' p')"

definition sb_frame :: "usize \<Rightarrow> 'p gate_producer_scheme \<Rightarrow> fault + u64 \<times> u64" where
  "sb_frame len p =
     (let capacity = gp_mask p + 1
      in if len \<le> max_message_len capacity
         then (let record = record_len len;
                   to_end = capacity - (gp_next_seq p AND gp_mask p)
               in Inr (if record \<le> to_end then (0, record) else (to_end, to_end + record)))
         else Inl Panic)"

definition sb_payload_ptr :: "u64 \<Rightarrow> 'p gate_producer_scheme \<Rightarrow> nat" where
  "sb_payload_ptr pad p = slot_ix (gp_mask p) (gp_next_seq p + pad) + 4"

definition sb_write_frame ::
  "u64 \<Rightarrow> usize \<Rightarrow> u8 list option \<Rightarrow> spmcb_shared \<Rightarrow> spmcb_producer
     \<Rightarrow> fault + spmcb_shared \<times> spmcb_producer" where
  "sb_write_frame pad len src sh p =
     (let m = gp_mask p; cur0 = gp_next_seq p
      in case (if pad > 0 then store (slot_ix m cur0) (bytes_of_u32 PADDING) (sbs_buffer sh)
               else Inr (sbs_buffer sh)) of
           Inl f \<Rightarrow> Inl f
         | Inr buf1 \<Rightarrow>
             (let cur = (if pad > 0 then cur0 + pad else cur0);
                  pos = slot_ix m cur
              in case store pos (bytes_of_u32 (ucast len)) buf1 of
                   Inl f \<Rightarrow> Inl f
                 | Inr buf2 \<Rightarrow>
                     (case (case src of None \<Rightarrow> Inr buf2 | Some bs \<Rightarrow> store (pos + 4) bs buf2) of
                        Inl f \<Rightarrow> Inl f
                      | Inr buf3 \<Rightarrow>
                          Inr (gate_publish (pad + record_len len) (sh\<lparr>sbs_buffer := buf3\<rparr>) p))))"

definition sb_try_push ::
  "u8 list \<Rightarrow> spmcb_shared \<Rightarrow> spmcb_producer \<Rightarrow> fault + bool \<times> spmcb_shared \<times> spmcb_producer" where
  "sb_try_push msg sh p =
     (case sb_frame (of_nat (length msg)) p of
        Inl f \<Rightarrow> Inl f
      | Inr (pad, need) \<Rightarrow>
          (case sb_has_space need sh p of
             Inl f \<Rightarrow> Inl f
           | Inr (False, sh', p') \<Rightarrow> Inr (False, sh', p')
           | Inr (True, sh', p') \<Rightarrow>
               (case sb_write_frame pad (of_nat (length msg)) (Some msg) sh' p' of
                  Inl f \<Rightarrow> Inl f
                | Inr (sh'', p'') \<Rightarrow> Inr (True, sh'', p''))))"

definition sb_push ::
  "(spmcb_shared \<Rightarrow> spmcb_shared) list \<Rightarrow> u8 list \<Rightarrow> spmcb_shared \<Rightarrow> spmcb_producer
     \<Rightarrow> (fault + spmcb_shared \<times> spmcb_producer) option" where
  "sb_push env msg sh p =
     (case sb_frame (of_nat (length msg)) p of
        Inl f \<Rightarrow> Some (Inl f)
      | Inr (pad, need) \<Rightarrow>
          (case sb_wait_for_space need env sh p of
             None \<Rightarrow> None
           | Some (Inl f) \<Rightarrow> Some (Inl f)
           | Some (Inr (sh', p')) \<Rightarrow>
               Some (sb_write_frame pad (of_nat (length msg)) (Some msg) sh' p')))"

definition sb_try_claim ::
  "usize \<Rightarrow> spmcb_shared \<Rightarrow> spmcb_producer
     \<Rightarrow> fault + write_slot option \<times> spmcb_shared \<times> spmcb_producer" where
  "sb_try_claim len sh p =
     (case sb_frame len p of
        Inl f \<Rightarrow> Inl f
      | Inr (pad, need) \<Rightarrow>
          (case sb_has_space need sh p of
             Inl f \<Rightarrow> Inl f
           | Inr (False, sh', p') \<Rightarrow> Inr (None, sh', p')
           | Inr (True, sh', p') \<Rightarrow>
               Inr (Some \<lparr>ws_payload = sb_payload_ptr pad p', ws_pad = pad, ws_len = len\<rparr>, sh', p')))"

definition sb_claim ::
  "(spmcb_shared \<Rightarrow> spmcb_shared) list \<Rightarrow> usize \<Rightarrow> spmcb_shared \<Rightarrow> spmcb_producer
     \<Rightarrow> (fault + write_slot \<times> spmcb_shared \<times> spmcb_producer) option" where
  "sb_claim env len sh p =
     (case sb_frame len p of
        Inl f \<Rightarrow> Some (Inl f)
      | Inr (pad, need) \<Rightarrow>
          (case sb_wait_for_space need env sh p of
             None \<Rightarrow> None
           | Some (Inl f) \<Rightarrow> Some (Inl f)
           | Some (Inr (sh', p')) \<Rightarrow>
               Some (Inr (\<lparr>ws_payload = sb_payload_ptr pad p', ws_pad = pad, ws_len = len\<rparr>, sh', p'))))"

definition sb_slot_deref :: "write_slot \<Rightarrow> spmcb_shared \<Rightarrow> u8 list" where
  "sb_slot_deref ws sh = read_bytes (ws_payload ws) (unat (ws_len ws)) (sbs_buffer sh)"

definition sb_slot_deref_mut ::
  "(u8 list \<Rightarrow> u8 list) \<Rightarrow> write_slot \<Rightarrow> spmcb_shared \<Rightarrow> fault + spmcb_shared" where
  "sb_slot_deref_mut f ws sh =
     (case store (ws_payload ws) (f (sb_slot_deref ws sh)) (sbs_buffer sh) of
        Inl e \<Rightarrow> Inl e | Inr b \<Rightarrow> Inr (sh\<lparr>sbs_buffer := b\<rparr>))"

definition sb_commit ::
  "write_slot \<Rightarrow> spmcb_shared \<Rightarrow> spmcb_producer \<Rightarrow> fault + spmcb_shared \<times> spmcb_producer" where
  "sb_commit ws sh p = sb_write_frame (ws_pad ws) (ws_len ws) None sh p"

definition sb_producer_is_empty :: "spmcb_producer \<Rightarrow> bool" where
  "sb_producer_is_empty p \<longleftrightarrow> gp_next_seq p - gp_cached_min p = 0"

definition sb_producer_drop :: "spmcb_shared \<Rightarrow> spmcb_shared" where
  "sb_producer_drop sh = gate_producer_drop sh"

section \<open>The consumers\<close>

definition sb_next_msg :: "spmcb_shared \<Rightarrow> gate_consumer \<Rightarrow> fault + msg_guard \<times> gate_consumer" where
  "sb_next_msg sh c =
     (case decode_record (sbs_buffer sh) (gc_mask c) (gc_read_cursor c) of
        Inl f \<Rightarrow> Inl f
      | Inr (cur, len, payload) \<Rightarrow>
          Inr (\<lparr>msg_payload = payload, msg_len = len\<rparr>, c\<lparr>gc_read_cursor := cur\<rparr>))"

text \<open>\<open>between\<close>: what other threads do between the space check and the close check.\<close>

definition sb_try_pop ::
  "(spmcb_shared \<Rightarrow> spmcb_shared) \<Rightarrow> spmcb_shared \<Rightarrow> gate_consumer
     \<Rightarrow> fault + msg_guard pop_result \<times> spmcb_shared \<times> gate_consumer" where
  "sb_try_pop between sh c =
     (case gate_has_item sh c of
        (True, c1) \<Rightarrow> map_sum id (\<lambda>(g, c2). (Popped g, sh, c2)) (sb_next_msg sh c1)
      | (False, c1) \<Rightarrow>
          (let sh1 = between sh
           in case gate_check_closed sh1 c1 of
                (True, c2) \<Rightarrow> Inr (Pop_closed, sh1, c2)
              | (False, c2) \<Rightarrow>
                  if gate_available_cached c2 \<noteq> 0
                  then map_sum id (\<lambda>(g, c3). (Popped g, sh1, c3)) (sb_next_msg sh1 c2)
                  else Inr (Pop_empty, sh1, c2)))"

definition sb_pop ::
  "(spmcb_shared \<Rightarrow> spmcb_shared) list \<Rightarrow> spmcb_shared \<Rightarrow> gate_consumer
     \<Rightarrow> (fault + msg_guard pop_result \<times> spmcb_shared \<times> gate_consumer) option" where
  "sb_pop env sh c =
     (case gate_wait_for_item env sh c of
        None \<Rightarrow> None
      | Some (False, sh1, c1) \<Rightarrow> Some (Inr (Pop_closed, sh1, c1))
      | Some (True, sh1, c1) \<Rightarrow>
          Some (map_sum id (\<lambda>(g, c2). (Popped g, sh1, c2)) (sb_next_msg sh1 c1)))"

definition sb_msg_deref :: "msg_guard \<Rightarrow> spmcb_shared \<Rightarrow> u8 list" where
  "sb_msg_deref g sh = read_bytes (msg_payload g) (unat (msg_len g)) (sbs_buffer sh)"

text \<open>The adaptive publish with the lag-filtered starving release.\<close>

definition sb_advance ::
  "u64 \<Rightarrow> spmcb_shared \<Rightarrow> gate_consumer \<Rightarrow> spmcb_shared \<times> gate_consumer" where
  "sb_advance amount sh c =
     (let capacity = gc_mask c + 1;
          span = sbs_starving sh;
          publish_now = (span \<noteq> 0 \<and> gc_write_cache c - gc_published c \<ge> capacity - span);
          c1 = c\<lparr>gc_read_cursor := gc_read_cursor c + amount\<rparr>
      in if publish_now \<or> gc_read_cursor c1 = gc_write_cache c1
            \<or> gc_read_cursor c1 - gc_published c1 \<ge> publish_batch_bytes capacity
         then gate_flush sh c1 else (sh, c1))"

definition sb_msg_drop :: "msg_guard \<Rightarrow> spmcb_shared \<Rightarrow> gate_consumer \<Rightarrow> spmcb_shared \<times> gate_consumer" where
  "sb_msg_drop g sh c = sb_advance (record_len (msg_len g)) sh c"

text \<open>
  \<open>drain\<close>: at most a batch of bytes per call. \<open>unwinds n\<close> says that the callback
  panics on its \<open>n\<close>th call; \<open>None\<close> is "out of fuel".
\<close>

fun sb_drain_loop ::
  "nat \<Rightarrow> (nat \<Rightarrow> bool) \<Rightarrow> nat \<Rightarrow> u8 list \<Rightarrow> u64 \<Rightarrow> u64 \<Rightarrow> u64 \<Rightarrow> u64 \<Rightarrow> u64
     \<Rightarrow> (fault + u8 list list \<times> u64) option" where
  "sb_drain_loop fuel unwinds count buf m batch start end_cur rd =
     (if \<not> (end_cur - rd \<noteq> 0 \<and> rd - start < batch) then Some (Inr ([], rd))
      else (case fuel of
              0 \<Rightarrow> None
            | Suc k \<Rightarrow>
                (case decode_record buf m rd of
                   Inl f \<Rightarrow> Some (Inl f)
                 | Inr (cur, len, payload) \<Rightarrow>
                     (let rd' = cur + record_len len;
                          x = read_bytes payload (unat len) buf
                      in if unwinds count then Some (Inr ([x], rd'))
                         else (case sb_drain_loop k unwinds (Suc count) buf m batch start end_cur rd' of
                                 Some (Inr (xs, rd'')) \<Rightarrow> Some (Inr (x # xs, rd''))
                               | other \<Rightarrow> other)))))"

declare sb_drain_loop.simps [simp del]

definition sb_drain ::
  "nat \<Rightarrow> (nat \<Rightarrow> bool) \<Rightarrow> spmcb_shared \<Rightarrow> gate_consumer
     \<Rightarrow> (fault + u8 list list \<times> spmcb_shared \<times> gate_consumer) option" where
  "sb_drain fuel unwinds sh c =
     (case gate_refresh sh c of
        (end_cur, c1) \<Rightarrow>
          (if end_cur - gc_read_cursor c1 = 0 then Some (Inr ([], sh, c1))
           else (case sb_drain_loop fuel unwinds 0 (sbs_buffer sh) (gc_mask c1)
                        (publish_batch_bytes (gc_mask c1 + 1)) (gc_read_cursor c1) end_cur
                        (gc_read_cursor c1) of
                   None \<Rightarrow> None
                 | Some (Inl f) \<Rightarrow> Some (Inl f)
                 | Some (Inr (xs, rd)) \<Rightarrow>
                     (case gate_flush_pending sh (c1\<lparr>gc_read_cursor := rd\<rparr>) of
                        (sh', c') \<Rightarrow> Some (Inr (xs, sh', c'))))))"

definition sb_consumer_is_empty :: "spmcb_shared \<Rightarrow> gate_consumer \<Rightarrow> bool" where
  "sb_consumer_is_empty sh c \<longleftrightarrow> gs_write_cursor sh - gc_read_cursor c = 0"

definition sb_consumer_drop :: "spmcb_shared \<Rightarrow> gate_consumer \<Rightarrow> spmcb_shared" where
  "sb_consumer_drop sh c = gate_consumer_drop sh c"

end
