(* ===== verification/Spmc_Bytes_Invariant.thy ===== *)
theory Spmc_Bytes_Invariant
  imports Spmc_Bytes
begin

text \<open>
  The invariant of the gating byte ring. What a consumer sees of the ring is a
  single-consumer byte ring (\<open>sb_view\<close>), whose invariant and frame facts are
  those of \<open>Spsc_Bytes\<close>; every operation of the gating ring acts on each view
  like the corresponding operation there.
\<close>

section \<open>Views\<close>

definition sb_view_sh :: "spmcb_shared \<Rightarrow> u64 \<Rightarrow> u8 shared" where
  "sb_view_sh sh published =
     \<lparr>buffer = sbs_buffer sh, sh_mask = gs_mask sh, sh_write_cursor = gs_write_cursor sh,
      sh_read_cursor = published, sh_starving = 0, sh_region = no_region,
      sh_producer_notified = 0, sh_consumer_notified = 0\<rparr>"

definition sb_view_p :: "spmcb_shared \<Rightarrow> u64 \<Rightarrow> producer_core" where
  "sb_view_p sh published =
     \<lparr>p_mask = gs_mask sh, p_write_cursor = gs_write_cursor sh, p_read_cursor_cache = published,
      p_raised_starving = False, p_anchor = Heap\<rparr>"

definition sb_view_c :: "gate_consumer \<Rightarrow> consumer_core" where
  "sb_view_c c =
     \<lparr>c_mask = gc_mask c, c_read_cursor = gc_read_cursor c, c_published = gc_published c,
      c_write_cursor_cache = gc_write_cache c, c_anchor = Heap\<rparr>"

definition sb_view :: "spmcb_shared \<Rightarrow> gate_consumer \<Rightarrow> bytes_ring" where
  "sb_view sh c =
     \<lparr>bg_sh = sb_view_sh sh (gc_published c), bg_p = sb_view_p sh (gc_published c), bg_c = sb_view_c c\<rparr>"

definition sb_pending :: "spmcb_shared \<Rightarrow> gate_consumer \<Rightarrow> u8 list list" where
  "sb_pending sh c = bytes_contents (sb_view sh c)"

definition sb_sound ::
  "spmcb_shared \<Rightarrow> spmcb_producer \<Rightarrow> (nat \<Rightarrow> gate_consumer option) \<Rightarrow> bool" where
  "sb_sound sh p cs \<longleftrightarrow> gate_ok sh p cs
     \<and> length (sbs_buffer sh) = capacity_of (gs_mask sh) \<and> 8 \<le> capacity_of (gs_mask sh)
     \<and> 4 dvd slot_ix (gs_mask sh) (gs_write_cursor sh)
     \<and> (sbs_starving sh \<noteq> 0 \<longrightarrow> sbp_raised_starving p)
     \<and> sbs_starving sh \<le> max_record_span (gs_mask sh + 1)
     \<and> (\<forall>k c. cs k = Some c \<longrightarrow> bytes_ok (sb_view sh c))"

lemma sb_soundI:
  assumes "gate_ok sh p cs" and "length (sbs_buffer sh) = capacity_of (gs_mask sh)"
    and "8 \<le> capacity_of (gs_mask sh)" and "4 dvd slot_ix (gs_mask sh) (gs_write_cursor sh)"
    and "sbs_starving sh \<noteq> 0 \<longrightarrow> sbp_raised_starving p"
    and "sbs_starving sh \<le> max_record_span (gs_mask sh + 1)"
    and "\<And>k c. cs k = Some c \<Longrightarrow> bytes_ok (sb_view sh c)"
  shows "sb_sound sh p cs"
  using assms unfolding sb_sound_def by blast

lemma sb_soundD:
  assumes "sb_sound sh p cs"
  shows "gate_ok sh p cs" and "length (sbs_buffer sh) = capacity_of (gs_mask sh)"
    and "8 \<le> capacity_of (gs_mask sh)" and "4 dvd slot_ix (gs_mask sh) (gs_write_cursor sh)"
    and "sbs_starving sh \<noteq> 0 \<longrightarrow> sbp_raised_starving p"
    and "sbs_starving sh \<le> max_record_span (gs_mask sh + 1)"
    and "cs k = Some c \<Longrightarrow> bytes_ok (sb_view sh c)"
    and "valid_mask (gs_mask sh)" and "gp_mask p = gs_mask sh" and "gs_write_cursor sh = gp_next_seq p"
  using assms producer_okD [OF gate_okD(1), of sh p cs] unfolding sb_sound_def by blast+

lemma sb_view_simps [simp]:
  "buffer (sb_view_sh sh w) = sbs_buffer sh" "sh_mask (sb_view_sh sh w) = gs_mask sh"
  "sh_write_cursor (sb_view_sh sh w) = gs_write_cursor sh" "sh_read_cursor (sb_view_sh sh w) = w"
  "sh_region (sb_view_sh sh w) = no_region"
  "p_mask (sb_view_p sh w) = gs_mask sh" "p_write_cursor (sb_view_p sh w) = gs_write_cursor sh"
  "p_read_cursor_cache (sb_view_p sh w) = w"
  "c_mask (sb_view_c c) = gc_mask c" "c_read_cursor (sb_view_c c) = gc_read_cursor c"
  "c_published (sb_view_c c) = gc_published c" "c_write_cursor_cache (sb_view_c c) = gc_write_cache c"
  "c_anchor (sb_view_c c) = Heap"
  "bg_sh (sb_view sh c) = sb_view_sh sh (gc_published c)"
  "bg_p (sb_view sh c) = sb_view_p sh (gc_published c)" "bg_c (sb_view sh c) = sb_view_c c"
  by (simp_all add: sb_view_sh_def sb_view_p_def sb_view_c_def sb_view_def)

text \<open>A view only depends on the mask, the write cursor, the bytes and the consumer.\<close>

lemma sb_view_cong:
  "\<lbrakk>gs_mask sh' = gs_mask sh; gs_write_cursor sh' = gs_write_cursor sh; sbs_buffer sh' = sbs_buffer sh\<rbrakk>
     \<Longrightarrow> sb_view sh' c = sb_view sh c"
  by (simp add: sb_view_def sb_view_sh_def sb_view_p_def)

lemma sb_view_step:
  assumes "gs_mask sh' = gs_mask sh" and "gs_write_cursor sh' = gs_write_cursor sh"
    and "sbs_buffer sh' = sbs_buffer sh" and "gc_published c' = gc_published c"
  shows "sb_view sh' c' = (sb_view sh c)\<lparr>bg_c := sb_view_c c'\<rparr>"
  using assms by (simp add: sb_view_def sb_view_sh_def sb_view_p_def)

text \<open>The facts about a ring of \<open>Spsc_Bytes\<close> depend on its cursors and bytes.\<close>

lemma bytes_ring_cong:
  assumes "buffer (bg_sh r') = buffer (bg_sh r)" and "sh_mask (bg_sh r') = sh_mask (bg_sh r)"
    and "sh_write_cursor (bg_sh r') = sh_write_cursor (bg_sh r)"
    and "sh_read_cursor (bg_sh r') = sh_read_cursor (bg_sh r)" and "sh_region (bg_sh r') = sh_region (bg_sh r)"
    and "p_mask (bg_p r') = p_mask (bg_p r)" and "p_write_cursor (bg_p r') = p_write_cursor (bg_p r)"
    and "p_read_cursor_cache (bg_p r') = p_read_cursor_cache (bg_p r)" and "bg_c r' = bg_c r"
  shows "bytes_ok r' = bytes_ok r" and "bytes_seen r' = bytes_seen r" and "bytes_unseen r' = bytes_unseen r"
    and "bytes_contents r' = bytes_contents r"
proof -
  show s: "bytes_seen r' = bytes_seen r" and u: "bytes_unseen r' = bytes_unseen r"
    using assms by (simp_all add: bytes_seen_def bytes_unseen_def Let_def)
  then show "bytes_contents r' = bytes_contents r" by (simp add: bytes_contents_def)
  show "bytes_ok r' = bytes_ok r"
    unfolding bytes_ok_def s u
    by (simp add: assms bytes_frames_ok_def cursors_ok_def deferred_def Let_def)
qed

lemma sb_view_cursors_ok:
  assumes ok: "gate_ok sh p cs" and c: "cs k = Some c"
  shows "cursors_ok (sb_view_sh sh (gc_published c)) (sb_view_p sh (gc_published c)) (sb_view_c c)"
proof -
  note C = consumer_okD [OF gate_okD(3) [OF ok c]] and P = producer_okD [OF gate_okD(1) [OF ok]]
  have le: "unat (gc_published c) \<le> unat (gc_read_cursor c)"
    "unat (gc_read_cursor c) \<le> unat (gc_write_cache c)"
    "unat (gc_write_cache c) \<le> unat (gs_write_cursor sh)"
    using C(6-8) P(4) by simp_all
  have "unat (gs_write_cursor sh) - unat (gc_published c) \<le> capacity_of (gs_mask sh)"
    using C(9) P(4,6) by simp
  then show ?thesis
    using le C(1) P(1) by (simp add: cursors_ok_def Let_def cdist_unat diff_le_mono)
qed

section \<open>Spans\<close>

lemma rlen_mono: "a \<le> b \<Longrightarrow> rlen a \<le> rlen b"
  by (simp add: rlen_def div_le_mono)

lemma max_record_span_nat:
  assumes m: "valid_mask m" and c8: "8 \<le> capacity_of m"
  shows "unat (max_record_span (m + 1)) = 2 * rlen (unat (max_message_len (m + 1))) - 4"
    and "unat (max_record_span (m + 1)) + 4 \<le> capacity_of m"
proof -
  let ?c = "capacity_of m" and ?l = "unat (max_message_len (m + 1))"
  have l: "?l = min (?c div 2 - 4) (2 ^ 32 - 2)"
    using max_message_len_nat [of "m + 1"] c8 by (simp add: mask_capacity)
  have r: "rlen ?l \<le> ?l + 7" "4 \<le> rlen ?l" using rlen_bounds by blast+
  have l32: "?l \<le> 2 ^ 32" using l by simp
  have sp: "2 * (2 ^ 32 + 7) < word_span" by (simp add: word_span_def)
  have "?l + 7 < word_span" using l32 by (simp add: word_span_def)
  then have u: "unat (record_len (max_message_len (m + 1))) = rlen ?l" by (rule unat_record_len)
  have small: "2 * rlen ?l < word_span" using r(1) l32 by (simp add: word_span_def)
  have "unat (record_len (max_message_len (m + 1)) + record_len (max_message_len (m + 1))) = 2 * rlen ?l"
    using unat_add_span [of "record_len (max_message_len (m + 1))" "record_len (max_message_len (m + 1))"] u small
    by simp
  then have d: "unat (2 * record_len (max_message_len (m + 1))) = 2 * rlen ?l" by (simp only: mult_2)
  have a: "unat ALIGN = 4" by (simp add: ALIGN_def)
  have "ALIGN \<le> 2 * record_len (max_message_len (m + 1))"
    unfolding word_le_nat_alt a d using r(2) by linarith
  then show e: "unat (max_record_span (m + 1)) = 2 * rlen ?l - 4"
    unfolding max_record_span_def using a d by (simp add: unat_sub)
  obtain q where q: "?c = 8 * q" using capacity_dvd_8 [OF m c8] by (elim dvdE)
  have "rlen ?l \<le> rlen (?c div 2 - 4)" by (rule rlen_mono) (simp add: l)
  moreover have "rlen (?c div 2 - 4) = ?c div 2" using q c8 by (simp add: rlen_def)
  ultimately show "unat (max_record_span (m + 1)) + 4 \<le> ?c" using e r(2) q by linarith
qed

lemma sb_frame_view:
  "gp_mask p = gs_mask sh \<Longrightarrow> gp_next_seq p = gs_write_cursor sh \<Longrightarrow>
   sb_frame len p = frame len (sb_view_p sh w)"
  by (simp add: sb_frame_def frame_def p_capacity_def Let_def)

lemma sb_frame_ok:
  assumes ok: "sb_sound sh p cs" and len: "unat len \<le> unat (max_message_len (gs_mask sh + 1))"
  obtains pad need where "sb_frame len p = Inr (pad, need)" and "need = pad + record_len len"
    and "unat need = unat pad + rlen (unat len)" and "unat (record_len len) = rlen (unat len)"
    and "0 < need" and "unat need < capacity_of (gs_mask sh)"
    and "need \<le> max_record_span (gs_mask sh + 1)"
    and "unat pad = 0 \<or> 0 < slot_ix (gs_mask sh) (gs_write_cursor sh)
        \<and> unat pad = capacity_of (gs_mask sh) - slot_ix (gs_mask sh) (gs_write_cursor sh) \<and> 4 \<le> unat pad"
    and "slot_ix (gs_mask sh) (gs_write_cursor sh + pad) + rlen (unat len) \<le> capacity_of (gs_mask sh)"
    and "unat len < 2 ^ 32 - 1" and "4 dvd unat need"
proof -
  note S = sb_soundD [OF ok]
  let ?m = "gs_mask sh" and ?w = "gs_write_cursor sh"
  have pm: "p_mask (sb_view_p sh 0) = ?m" by simp
  have al: "4 dvd slot_ix ?m (p_write_cursor (sb_view_p sh 0))" using S(4) by simp
  obtain pad need where F: "frame len (sb_view_p sh 0) = Inr (pad, need)" "need = pad + record_len len"
    "unat need = unat pad + rlen (unat len)" "unat (record_len len) = rlen (unat len)"
    "unat need < capacity_of ?m"
    "unat pad = 0 \<or> 0 < slot_ix ?m ?w \<and> unat pad = capacity_of ?m - slot_ix ?m ?w \<and> 4 \<le> unat pad"
    "slot_ix ?m (?w + pad) + rlen (unat len) \<le> capacity_of ?m" "unat len < 2 ^ 32 - 1"
    by (rule frame_ok [OF S(8) pm S(3) al len]) simp
  have fr: "sb_frame len p = Inr (pad, need)"
    using F(1) sb_frame_view [of p sh len 0] S(9,10) by simp
  have r4: "4 \<le> rlen (unat len)" and rd: "4 dvd rlen (unat len)"
    using rlen_bounds(3,4) by (simp_all add: mod_eq_0_iff_dvd)
  have c4: "4 dvd capacity_of ?m" using capacity_dvd_8 [OF S(8,3)] by presburger
  have pd: "4 dvd unat pad" using F(6) S(4) c4 by (auto intro: dvd_diff_nat)
  have pos: "0 < need" using F(3) r4 by (simp add: word_less_nat_alt)
  have small: "unat pad + 4 \<le> rlen (unat len) \<or> unat pad = 0"
  proof (cases "pad = 0")
    case False
    then have "\<not> record_len len \<le> pad"
      using fr by (auto simp: sb_frame_def Let_def split: if_splits)
    then have "unat pad < rlen (unat len)" using F(4) by (simp add: word_le_nat_alt)
    then show ?thesis using pd rd by presburger
  qed simp
  have "rlen (unat len) \<le> rlen (unat (max_message_len (?m + 1)))" by (rule rlen_mono [OF len])
  then have "unat need \<le> unat (max_record_span (?m + 1))"
    using small F(3) r4 max_record_span_nat(1) [OF S(8,3)] by linarith
  then have sp: "need \<le> max_record_span (?m + 1)" by (simp add: word_le_nat_alt)
  have nd: "4 dvd unat need" using F(3) pd rd by simp
  show ?thesis by (rule that [OF fr F(2-4) pos F(5) sp F(6-8) nd])
qed

section \<open>The producer\<close>

lemma sb_sound_words:
  assumes ok: "sb_sound sh p cs" and g: "gate_ok sh p' cs"
    and st: "s \<noteq> 0 \<longrightarrow> b" and sp: "s \<le> max_record_span (gs_mask sh + 1)"
  shows "sb_sound (sh\<lparr>sbs_starving := s\<rparr>) (p'\<lparr>sbp_raised_starving := b\<rparr>) cs"
proof (rule sb_soundI)
  show "gate_ok (sh\<lparr>sbs_starving := s\<rparr>) (p'\<lparr>sbp_raised_starving := b\<rparr>) cs"
    by (rule gate_ok_cong [OF g]) simp_all
  fix k c assume "cs k = Some c"
  moreover have "sb_view (sh\<lparr>sbs_starving := s\<rparr>) c = sb_view sh c" by (rule sb_view_cong) simp_all
  ultimately show "bytes_ok (sb_view (sh\<lparr>sbs_starving := s\<rparr>) c)" using sb_soundD(7) [OF ok] by metis
qed (use sb_soundD [OF ok] st sp in simp_all)

lemma sb_has_space_ok:
  assumes ok: "sb_sound sh p cs" and n: "0 < needed" "unat needed < capacity_of (gs_mask sh)"
    and sp: "needed \<le> max_record_span (gs_mask sh + 1)"
  obtains free s p' where "sb_has_space needed sh p = Inr (free, sh\<lparr>sbs_starving := s\<rparr>, p')"
    and "sb_sound (sh\<lparr>sbs_starving := s\<rparr>) p' cs"
    and "gp_next_seq p' = gp_next_seq p" and "gp_mask p' = gp_mask p"
    and "free \<longleftrightarrow> \<not> gate_blocked p (capacity_of (gs_mask sh)) (unat needed) cs"
    and "free \<Longrightarrow> cdist (gp_cached_min p') (gp_next_seq p) + unat needed \<le> capacity_of (gs_mask sh)"
    and "\<not> free \<Longrightarrow> s = needed" and "s = needed \<or> s = 0 \<or> s = sbs_starving sh"
proof -
  note S = sb_soundD [OF ok]
  show ?thesis
  proof (cases "gate_lacks_space (gp_next_seq p) needed (gp_cached_min p) (gp_mask p + 1)")
    case False
    then have h: "gate_has_space needed sh p = (True, p)" by (simp add: gate_has_space_def)
    note H = gate_has_space_ok [OF S(1) n h]
    have nb: "\<not> gate_blocked p (capacity_of (gs_mask sh)) (unat needed) cs"
      using gate_has_space_iff [OF S(1) n h] by simp
    show ?thesis
    proof (cases "sbp_raised_starving p")
      case True
      have "sb_has_space needed sh p = Inr (True, sh\<lparr>sbs_starving := 0\<rparr>, p\<lparr>sbp_raised_starving := False\<rparr>)"
        using False True by (simp add: sb_has_space_def)
      moreover have "sb_sound (sh\<lparr>sbs_starving := 0\<rparr>) (p\<lparr>sbp_raised_starving := False\<rparr>) cs"
        by (rule sb_sound_words [OF ok S(1)]) simp_all
      ultimately show ?thesis using that [of True 0 "p\<lparr>sbp_raised_starving := False\<rparr>"] nb H(4) by simp
    next
      case r: False
      have "sb_has_space needed sh p = Inr (True, sh\<lparr>sbs_starving := sbs_starving sh\<rparr>, p)"
        using False r by (simp add: sb_has_space_def)
      then show ?thesis using that [of True "sbs_starving sh" p] ok nb H(4) by simp
    qed
  next
    case True
    obtain free p1 where r: "gate_rescan needed sh p = (free, p1)" by (rule prod.exhaust)
    note R = gate_rescan_ok [OF S(1) n r]
    have bl: "free \<longleftrightarrow> \<not> gate_blocked p (capacity_of (gs_mask sh)) (unat needed) cs"
      by (rule gate_rescan_iff [OF S(1) n r])
    have same: "sbp_raised_starving p1 = sbp_raised_starving p"
      using R(6) by (cases p1, cases p) simp
    have m1: "gp_mask p1 = gs_mask sh" using R(3) S(9) by simp
    show ?thesis
    proof (cases free)
      case f: True
      have "sb_has_space needed sh p = Inr (True, sh\<lparr>sbs_starving := sbs_starving sh\<rparr>, p1)"
        using True r f by (simp add: sb_has_space_def)
      moreover have "sb_sound (sh\<lparr>sbs_starving := sbs_starving sh\<rparr>)
          (p1\<lparr>sbp_raised_starving := sbp_raised_starving p1\<rparr>) cs"
        by (rule sb_sound_words [OF ok R(1)]) (use S(5,6) same in simp_all)
      ultimately show ?thesis using that [of True "sbs_starving sh" p1] R(2-4) bl f by simp
    next
      case f: False
      have "sb_has_space needed sh p
          = Inr (False, sh\<lparr>sbs_starving := needed\<rparr>, p1\<lparr>sbp_raised_starving := True\<rparr>)"
        using True r f m1 sp by (auto simp: sb_has_space_def)
      moreover have "sb_sound (sh\<lparr>sbs_starving := needed\<rparr>) (p1\<lparr>sbp_raised_starving := True\<rparr>) cs"
        by (rule sb_sound_words [OF ok R(1)]) (use sp in simp_all)
      ultimately show ?thesis
        using that [of False needed "p1\<lparr>sbp_raised_starving := True\<rparr>"] R(2,3) bl f by simp
    qed
  qed
qed

text \<open>Writing a record acts on every view as in the single-consumer ring.\<close>

lemma sb_write_frame_view:
  assumes "gp_mask p = gs_mask sh" and "gp_next_seq p = gs_write_cursor sh"
    and "write_frame pad len src (sb_view_sh sh w) (sb_view_p sh w') = Inr (s', q')"
  shows "sb_write_frame pad len src sh p
      = Inr (gate_publish (pad + record_len len) (sh\<lparr>sbs_buffer := buffer s'\<rparr>) p)"
    and "sh_mask s' = gs_mask sh \<and> sh_write_cursor s' = gs_write_cursor sh + (pad + record_len len)
           \<and> sh_read_cursor s' = w \<and> sh_region s' = no_region"
    and "q' = (sb_view_p sh w')\<lparr>p_write_cursor := gs_write_cursor sh + (pad + record_len len)\<rparr>"
  using assms
  by (auto simp: sb_write_frame_def write_frame_def publish_def Let_def sb_view_sh_def
      split: sum.splits option.splits if_splits)

lemma sb_write_ok:
  assumes ok: "sb_sound sh p cs" and legal: "length x \<le> unat (max_message_len (gs_mask sh + 1))"
    and fr: "sb_frame (of_nat (length x)) p = Inr (pad, need)"
    and fit: "cdist (gp_cached_min p) (gp_next_seq p) + unat need \<le> capacity_of (gs_mask sh)"
    and span: "unat (gp_next_seq p) + unat need + 2 * capacity_of (gs_mask sh) < word_span"
    and src: "src = Some x \<or> src = None
        \<and> read_bytes (sb_payload_ptr pad p) (length x) (sbs_buffer sh) = x"
  obtains sh' p' where "sb_write_frame pad (of_nat (length x)) src sh p = Inr (sh', p')"
    and "sb_sound sh' p' cs"
    and "\<And>k c. cs k = Some c \<Longrightarrow> sb_pending sh' c = sb_pending sh c @ [x]"
    and "gs_mask sh' = gs_mask sh" and "gs_closed sh' = gs_closed sh"
    and "unat (gs_write_cursor sh') = unat (gs_write_cursor sh) + unat need"
    and "sbs_starving sh' = sbs_starving sh" and "gp_next_seq p' = gs_write_cursor sh'"
proof -
  note S = sb_soundD [OF ok]
  let ?m = "gs_mask sh" and ?w = "gs_write_cursor sh" and ?len = "of_nat (length x) :: usize"
  have "unat (max_message_len (?m + 1)) < word_span" by simp
  then have ul: "unat ?len = length x"
    using legal unat_of_nat_span le_less_trans by blast
  have leg: "unat ?len \<le> unat (max_message_len (?m + 1))" using ul legal by simp
  obtain pad0 need0 where F: "sb_frame ?len p = Inr (pad0, need0)" "need0 = pad0 + record_len ?len"
    "unat need0 = unat pad0 + rlen (unat ?len)" "unat (record_len ?len) = rlen (unat ?len)"
    "0 < need0" "unat need0 < capacity_of ?m" "need0 \<le> max_record_span (?m + 1)"
    "unat pad0 = 0 \<or> 0 < slot_ix ?m ?w \<and> unat pad0 = capacity_of ?m - slot_ix ?m ?w \<and> 4 \<le> unat pad0"
    "slot_ix ?m (?w + pad0) + rlen (unat ?len) \<le> capacity_of ?m" "unat ?len < 2 ^ 32 - 1"
    "4 dvd unat need0"
    by (rule sb_frame_ok [OF ok leg])
  have e: "pad0 = pad" "need0 = need" using F(1) fr by simp_all
  have fits: "fits_header x" using F(10) ul by (simp add: fits_header_def)
  have pt: "payload_ptr pad (sb_view_p sh w) = sb_payload_ptr pad p" for w
    using S(9,10) by (simp add: payload_ptr_def sb_payload_ptr_def)
  have pn: "unat pad = 0 \<or> 0 < slot_ix ?m (p_write_cursor (sb_view_p sh ?w))
      \<and> unat pad = capacity_of ?m - slot_ix ?m (p_write_cursor (sb_view_p sh ?w)) \<and> 4 \<le> unat pad"
    using F(8) e by simp
  have w0: "p_write_cursor (sb_view_p sh ?w) = ?w + of_nat 0" by simp
  have fit0: "0 + unat pad + rlen (length x) \<le> capacity_of ?m" using F(3,6) e ul by simp
  have room0: "slot_ix ?m (p_write_cursor (sb_view_p sh ?w) + pad) + rlen (length x) \<le> capacity_of ?m"
    using F(9) e ul by simp
  have src0: "src = Some x \<or> src = None \<and>
      read_bytes (slot_ix ?m (p_write_cursor (sb_view_p sh ?w) + pad) + 4) (length x) (buffer (sb_view_sh sh ?w)) = x"
    using src S(9,10) by (auto simp: sb_payload_ptr_def)
  have len0: "length (buffer (sb_view_sh sh ?w)) = capacity_of ?m" using S(2) by simp
  have pm: "p_mask (sb_view_p sh ?w) = ?m" by simp
  obtain buf' where W: "write_frame pad ?len src (sb_view_sh sh ?w) (sb_view_p sh ?w)
      = Inr (publish (pad + record_len ?len) ((sb_view_sh sh ?w)\<lparr>buffer := buf'\<rparr>) (sb_view_p sh ?w))"
    "length buf' = capacity_of ?m"
    by (rule write_frame_ok [OF S(8) pm len0 w0 fits pn fit0 room0 src0])
  obtain s0 q0 where pb: "publish (pad + record_len ?len) ((sb_view_sh sh ?w)\<lparr>buffer := buf'\<rparr>) (sb_view_p sh ?w)
      = (s0, q0)" by (rule prod.exhaust)
  have b0: "buffer s0 = buf'" using publish_frame(1) [OF pb] by simp
  obtain sh' p' where G: "gate_publish need (sh\<lparr>sbs_buffer := buf'\<rparr>) p = (sh', p')" by (rule prod.exhaust)
  have run: "sb_write_frame pad ?len src sh p = Inr (sh', p')"
    using sb_write_frame_view(1) [OF S(9) S(10) [symmetric] W(1) [unfolded pb]] b0 F(2) e G by simp
  have sh': "sh' = sh\<lparr>sbs_buffer := buf', gs_write_cursor := ?w + need,
      gs_consumer_notified := Suc (gs_consumer_notified sh)\<rparr>" and p': "p' = p\<lparr>gp_next_seq := ?w + need\<rparr>"
    using G S(10) by (simp_all add: gate_publish_def Let_def)
  have gb: "gate_ok (sh\<lparr>sbs_buffer := buf'\<rparr>) p cs" by (rule gate_ok_cong [OF S(1)]) simp_all
  have G': "gate_ok sh' p' cs" "unat (gp_next_seq p') = unat (gp_next_seq p) + unat need"
    using gate_publish_ok [OF gb _ _ G] fit span by simp_all
  have al: "4 dvd slot_ix ?m (?w + need)"
  proof -
    have "slot_ix ?m (?w + need) = (slot_ix ?m ?w + unat need) mod capacity_of ?m"
      using slot_ix_step [OF S(8), of ?w "unat need"] by simp
    moreover have "4 dvd capacity_of ?m" using capacity_dvd_8 [OF S(8,3)] by presburger
    ultimately show ?thesis using S(4) F(11) e by (simp add: dvd_mod)
  qed
  have view: "bytes_ok (sb_view sh' c) \<and> sb_pending sh' c = sb_pending sh c @ [x]" if c: "cs k = Some c" for k c
  proof -
    let ?r = "sb_view sh c" and ?pub = "gc_published c"
    have okr: "bytes_ok ?r" by (rule S(7) [OF c])
    have lag: "cdist ?pub ?w + unat need \<le> capacity_of ?m"
      using consumer_okD(9) [OF gate_okD(3) [OF S(1) c]] gate_lag_published [OF S(1) c] fit S(10) by simp
    have legr: "bytes_legal ?r x" using legal by (simp add: bytes_legal_def)
    have frr: "frame ?len (bg_p ?r) = Inr (pad, need)"
      using fr sb_frame_view [OF S(9) S(10) [symmetric]] by simp
    have roomr: "cdist (p_read_cursor_cache (bg_p ?r)) (sh_write_cursor (bg_sh ?r)) + unat need
        \<le> capacity_of (sh_mask (bg_sh ?r))" using lag by simp
    have srcr: "src = Some x \<or> src = None \<and> read_bytes (payload_ptr pad (bg_p ?r)) (length x) (buffer (bg_sh ?r)) = x"
      using src pt [of ?pub] by simp
    obtain s' q' where B: "write_frame pad ?len src (bg_sh ?r) (bg_p ?r) = Inr (s', q')"
      "bytes_ok (?r\<lparr>bg_sh := s', bg_p := q'\<rparr>)"
      "bytes_seen (?r\<lparr>bg_sh := s', bg_p := q'\<rparr>) = bytes_seen ?r"
      "bytes_unseen (?r\<lparr>bg_sh := s', bg_p := q'\<rparr>) = bytes_unseen ?r @ [x]"
      using bytes_write_ok [OF okr legr bytes_legal_small [OF okr legr] frr roomr srcr] by metis
    have B1: "write_frame pad ?len src (sb_view_sh sh ?pub) (sb_view_p sh ?pub) = Inr (s', q')" using B(1) by simp
    note V = sb_write_frame_view [OF S(9) S(10) [symmetric] B1]
    have bs: "buffer s' = buf'"
    proof -
      obtain sh2 p2 where g2: "gate_publish (pad + record_len ?len) (sh\<lparr>sbs_buffer := buffer s'\<rparr>) p = (sh2, p2)"
        by (rule prod.exhaust)
      then have "sh2 = sh'" using V(1) run by simp
      moreover have "sbs_buffer sh2 = buffer s'" using g2 by (auto simp: gate_publish_def Let_def)
      ultimately show ?thesis using sh' by simp
    qed
    have ne: "pad + record_len ?len = need" using F(2) e by simp
    note C = bytes_ring_cong [of "sb_view sh' c" "?r\<lparr>bg_sh := s', bg_p := q'\<rparr>"]
    have eqs: "bytes_ok (sb_view sh' c)" "bytes_contents (sb_view sh' c) = bytes_contents (?r\<lparr>bg_sh := s', bg_p := q'\<rparr>)"
      using C(1,4) V(2,3) bs ne B(2) by (simp_all add: sh')
    then show ?thesis using B(3,4) by (simp add: sb_pending_def bytes_contents_def)
  qed
  have "sb_sound sh' p' cs"
  proof (rule sb_soundI [OF G'(1)])
    show "length (sbs_buffer sh') = capacity_of (gs_mask sh')" using W(2) by (simp add: sh')
  qed (use S(3,5,6) al view in \<open>simp_all add: sh' p'\<close>)
  moreover have "unat (gs_write_cursor sh') = unat ?w + unat need" using G'(2) S(10) by (simp add: p' sh')
  ultimately show ?thesis using that [OF run] view by (simp add: sh' p')
qed

section \<open>The consumers\<close>

lemma more_sbs:
  fixes sh sh' :: spmcb_shared
  assumes "gate_shared.more sh' = gate_shared.more sh"
  shows "sbs_buffer sh' = sbs_buffer sh" and "sbs_starving sh' = sbs_starving sh"
  using assms by (cases sh, cases sh', simp)+

lemma gate_cstep_words:
  fixes sh sh' :: spmcb_shared
  assumes "gate_cstep sh c sh' c'"
  shows "gs_mask sh' = gs_mask sh" and "gs_write_cursor sh' = gs_write_cursor sh"
    and "gs_closed sh' = gs_closed sh" and "sbs_buffer sh' = sbs_buffer sh"
    and "sbs_starving sh' = sbs_starving sh" and "sb_view sh' d = sb_view sh d"
proof -
  show e: "gs_mask sh' = gs_mask sh" "gs_write_cursor sh' = gs_write_cursor sh"
    "gs_closed sh' = gs_closed sh" "sbs_buffer sh' = sbs_buffer sh" "sbs_starving sh' = sbs_starving sh"
    using assms more_sbs [of sh' sh] by (simp_all add: gate_cstep_def)
  show "sb_view sh' d = sb_view sh d" by (rule sb_view_cong [OF e(1,2,4)])
qed

lemma sb_cstep_ok:
  assumes ok: "sb_sound sh p cs" and c: "cs k = Some c" and st: "gate_cstep sh c sh' c'"
    and v: "bytes_ok (sb_view sh c')"
  shows "sb_sound sh' p (cs(k \<mapsto> c'))"
proof -
  note S = sb_soundD [OF ok] and e = gate_cstep_words [OF st]
  show ?thesis
  proof (rule sb_soundI [OF gate_cstep_ok [OF S(1) c st]])
    fix j d assume "(cs(k \<mapsto> c')) j = Some d"
    then show "bytes_ok (sb_view sh' d)" using v S(7) unfolding e(6) by (cases "j = k") auto
  qed (use S(2-6) e in simp_all)
qed

lemma sb_view_here:
  "gc_published c' = gc_published c \<Longrightarrow> sb_view sh c' = (sb_view sh c)\<lparr>bg_c := sb_view_c c'\<rparr>"
  by (rule sb_view_step) simp_all

lemma sb_has_item_ok:
  assumes ok: "sb_sound sh p cs" and c: "cs k = Some c" and h: "gate_has_item sh c = (b, c1)"
  shows "gate_cstep sh c sh c1" and "bytes_ok (sb_view sh c1)" and "sb_pending sh c1 = sb_pending sh c"
    and "b \<longleftrightarrow> sb_pending sh c \<noteq> []" and "b \<Longrightarrow> bytes_seen (sb_view sh c1) \<noteq> []"
    and "gc_published c1 = gc_published c"
proof -
  note S = sb_soundD [OF ok]
  note G = gate_has_item_spec [OF S(1) c h]
  show "gate_cstep sh c sh c1" "gc_published c1 = gc_published c" by (rule G(1), rule G(3))
  have v: "sb_view sh c1 = (sb_view sh c)\<lparr>bg_c := sb_view_c c1\<rparr>" by (rule sb_view_here [OF G(3)])
  have c1: "c1 = (if gc_write_cache c = gc_read_cursor c then c\<lparr>gc_write_cache := gs_write_cursor sh\<rparr> else c)"
    and b: "b \<longleftrightarrow> gc_write_cache c \<noteq> gc_read_cursor c \<or> gs_write_cursor sh \<noteq> gc_read_cursor c"
    using h by (simp_all add: gate_has_item_def gate_refresh_def gate_available_cached_def word_diff_0 Let_def
        split: if_splits)
  have "has_item (bg_sh (sb_view sh c)) (bg_c (sb_view sh c)) = (b, sb_view_c c1)"
    unfolding c1 b
    by (simp add: has_item_def refresh_def Let_def sb_view_c_def)
  note B = bytes_has_item_ok [OF S(7) [OF c] this, folded v]
  show "bytes_ok (sb_view sh c1)" "sb_pending sh c1 = sb_pending sh c" "b \<longleftrightarrow> sb_pending sh c \<noteq> []"
    "b \<Longrightarrow> bytes_seen (sb_view sh c1) \<noteq> []"
    using B by (simp_all add: sb_pending_def)
qed

lemma sb_refresh_ok:
  assumes v: "bytes_ok (sb_view sh c)"
  shows "bytes_ok (sb_view sh (c\<lparr>gc_write_cache := gs_write_cursor sh\<rparr>))"
    and "bytes_seen (sb_view sh (c\<lparr>gc_write_cache := gs_write_cursor sh\<rparr>)) = sb_pending sh c"
    and "bytes_unseen (sb_view sh (c\<lparr>gc_write_cache := gs_write_cursor sh\<rparr>)) = []"
proof -
  let ?c = "c\<lparr>gc_write_cache := gs_write_cursor sh\<rparr>"
  have e: "sb_view sh ?c = (sb_view sh c)\<lparr>bg_c := sb_view_c ?c\<rparr>" by (rule sb_view_here) simp
  have "refresh (bg_sh (sb_view sh c)) (bg_c (sb_view sh c)) = (gs_write_cursor sh, sb_view_c ?c)"
    by (simp add: refresh_def sb_view_c_def)
  note B = bytes_refresh_ok [OF v this, folded e]
  show "bytes_ok (sb_view sh ?c)" "bytes_seen (sb_view sh ?c) = sb_pending sh c" "bytes_unseen (sb_view sh ?c) = []"
    using B by (simp_all add: sb_pending_def)
qed

lemma sb_check_closed_ok:
  assumes ok: "sb_sound sh p cs" and c: "cs k = Some c" and h: "gate_check_closed sh c = (b, c1)"
  shows "gate_cstep sh c sh c1" and "bytes_ok (sb_view sh c1)" and "sb_pending sh c1 = sb_pending sh c"
    and "b \<Longrightarrow> gs_closed sh \<noteq> 0 \<and> sb_pending sh c = []"
    and "\<not> b \<Longrightarrow> gs_closed sh = 0 \<and> c1 = c \<or> sb_pending sh c \<noteq> []
           \<and> gate_available_cached c1 \<noteq> 0 \<and> bytes_seen (sb_view sh c1) \<noteq> []"
proof -
  note S = sb_soundD [OF ok]
  note G = gate_check_closed_spec [OF S(1) c h]
  let ?c = "c\<lparr>gc_write_cache := gs_write_cursor sh\<rparr>"
  show "gate_cstep sh c sh c1" by (rule G(1))
  note R = sb_refresh_ok [OF S(7) [OF c]]
  have Rp: "sb_pending sh ?c = sb_pending sh c" using R by (simp add: sb_pending_def bytes_contents_def)
  have nil: "sb_pending sh c = [] \<longleftrightarrow> gs_write_cursor sh = gc_read_cursor c"
    using bytes_contents_nil_iff(1) [OF S(7) [OF c]] by (auto simp: sb_pending_def queued_def)
  have c1: "c1 = (if gs_closed sh \<noteq> 0 then ?c else c)"
    and b: "b \<longleftrightarrow> gs_closed sh \<noteq> 0 \<and> gs_write_cursor sh = gc_read_cursor c"
    using h by (auto simp: gate_check_closed_def gate_refresh_def gate_available_cached_def Let_def word_diff_0
        split: if_splits)
  show "bytes_ok (sb_view sh c1)" "sb_pending sh c1 = sb_pending sh c"
    using R(1) Rp S(7) [OF c] by (simp_all add: c1)
  show "b \<Longrightarrow> gs_closed sh \<noteq> 0 \<and> sb_pending sh c = []" using b nil by simp
  show "gs_closed sh = 0 \<and> c1 = c \<or> sb_pending sh c \<noteq> [] \<and> gate_available_cached c1 \<noteq> 0
      \<and> bytes_seen (sb_view sh c1) \<noteq> []" if "\<not> b"
  proof (cases "gs_closed sh = 0")
    case False
    then have ne: "gs_write_cursor sh \<noteq> gc_read_cursor c" using that b by simp
    then have "sb_pending sh c \<noteq> []" using nil by simp
    then show ?thesis using False ne R(2) by (simp add: c1 gate_available_cached_def word_diff_0)
  qed (simp add: c1)
qed

text \<open>The release: on the view it is the release of the single-consumer ring.\<close>

lemma sb_advance_view:
  assumes a: "sb_advance n sh c = (sh', c')"
  defines "now \<equiv> sbs_starving sh \<noteq> 0
      \<and> gc_write_cache c - gc_published c \<ge> gc_mask c + 1 - sbs_starving sh"
  shows "\<exists>s q. advance n (publish_batch_bytes (gc_mask c + 1)) now s0 (sb_view_c c) = (s, q)
      \<and> (owns_ring (sh_region s0) Heap \<longrightarrow> sh_read_cursor s0 = gc_published c \<longrightarrow>
          q = sb_view_c c' \<and> sh_read_cursor s = gc_published c')"
    and "gc_write_cache c' = gc_write_cache c" and "gc_read_cursor c' = gc_read_cursor c + n"
    and "now \<Longrightarrow> gc_published c' = gc_read_cursor c'"
    and "gc_published c' = gc_read_cursor c' \<or> gc_published c' = gc_published c \<and> sh' = sh"
proof -
  note d = a [unfolded sb_advance_def Let_def, folded now_def]
  show "\<exists>s q. advance n (publish_batch_bytes (gc_mask c + 1)) now s0 (sb_view_c c) = (s, q)
      \<and> (owns_ring (sh_region s0) Heap \<longrightarrow> sh_read_cursor s0 = gc_published c \<longrightarrow>
          q = sb_view_c c' \<and> sh_read_cursor s = gc_published c')"
    using d by (auto simp: advance_def flush_def gate_flush_def Let_def sb_view_c_def split: if_splits)
  show "gc_write_cache c' = gc_write_cache c" "gc_read_cursor c' = gc_read_cursor c + n"
    "now \<Longrightarrow> gc_published c' = gc_read_cursor c'"
    "gc_published c' = gc_read_cursor c' \<or> gc_published c' = gc_published c \<and> sh' = sh"
    using d by (auto simp: gate_flush_def split: if_splits)
qed

lemma bytes_ok_fresh_cache:
  assumes ok: "bytes_ok r"
    and e: "buffer (bg_sh r') = buffer (bg_sh r)" "sh_mask (bg_sh r') = sh_mask (bg_sh r)"
    "sh_write_cursor (bg_sh r') = sh_write_cursor (bg_sh r)"
    "sh_read_cursor (bg_sh r') = sh_read_cursor (bg_sh r)" "sh_region (bg_sh r') = sh_region (bg_sh r)"
    "p_mask (bg_p r') = p_mask (bg_p r)" "p_write_cursor (bg_p r') = p_write_cursor (bg_p r)"
    "p_read_cursor_cache (bg_p r') = sh_read_cursor (bg_sh r)" "bg_c r' = bg_c r"
  shows "bytes_ok r'" and "bytes_seen r' = bytes_seen r" and "bytes_unseen r' = bytes_unseen r"
proof -
  note D = bytes_okD [OF ok]
  show s: "bytes_seen r' = bytes_seen r" and u: "bytes_unseen r' = bytes_unseen r"
    using e by (simp_all add: bytes_seen_def bytes_unseen_def Let_def)
  let ?b = "p_read_cursor_cache (bg_p r)" and ?r = "sh_read_cursor (bg_sh r)" and ?rd = "c_read_cursor (bg_c r)"
    and ?wc = "c_write_cursor_cache (bg_c r)" and ?w = "sh_write_cursor (bg_sh r)"
  have o: "cdist ?b ?r \<le> cdist ?b ?rd" "cdist ?b ?rd \<le> cdist ?b ?wc" "cdist ?b ?wc \<le> cdist ?b ?w"
    "cdist ?b ?w \<le> capacity_of (sh_mask (bg_sh r))"
    using D(1) by (simp_all add: cursors_ok_def Let_def)
  have "cdist ?r ?rd \<le> cdist ?r ?wc" "cdist ?r ?wc \<le> cdist ?r ?w" "cdist ?r ?w \<le> cdist ?b ?w"
    using cdist_mono_left [OF o(1,2)] cdist_mono_left [OF le_trans [OF o(1,2)] o(3)]
      cdist_rebase [of ?b ?r ?w] o by linarith+
  then have "cursors_ok (bg_sh r') (bg_p r') (bg_c r')"
    using D(1) e o(4) by (simp add: cursors_ok_def Let_def)
  then show "bytes_ok r'"
    using D(2,3) unfolding bytes_ok_def s u by (simp add: e bytes_frames_ok_def deferred_def Let_def)
qed

text \<open>
  The next message of a consumer that has seen one: the guard reads it, moving
  only past padding, and dropping the guard releases it.
\<close>

lemma sb_take_ok:
  assumes ok: "sb_sound sh p cs" and c: "cs k = Some c" and st: "gate_cstep sh c sh c1"
    and v: "bytes_ok (sb_view sh c1)" and seen: "bytes_seen (sb_view sh c1) \<noteq> []"
  obtains x rest g c2 where "sb_next_msg sh c1 = Inr (g, c2)" and "sb_msg_deref g sh = x"
    and "sb_pending sh c1 = x # rest" and "gate_cstep sh c sh c2" and "bytes_ok (sb_view sh c2)"
    and "sb_pending sh c2 = sb_pending sh c1"
    and "gc_write_cache c2 = gc_write_cache c1" and "gc_published c2 = gc_published c1"
    and "\<And>sh' c3. sb_msg_drop g sh c2 = (sh', c3) \<Longrightarrow>
       gate_cstep sh c sh' c3 \<and> bytes_ok (sb_view sh c3) \<and> sb_pending sh c3 = rest"
proof -
  note S = sb_soundD [OF ok]
  let ?m = "gs_mask sh" and ?v = "sb_view sh c1"
  obtain x xs where xs: "bytes_seen ?v = x # xs" using seen by (cases "bytes_seen ?v") auto
  let ?l = "rlen (length x)"
  obtain g q where N: "next_msg (bg_sh ?v) (bg_c ?v) = Inr (g, q)"
    "msg_deref g (bg_sh ?v) = x" "msg_len g = of_nat (length x)"
    "bytes_ok (?v\<lparr>bg_c := q\<rparr>)" "bytes_seen (?v\<lparr>bg_c := q\<rparr>) = x # xs"
    "bytes_unseen (?v\<lparr>bg_c := q\<rparr>) = bytes_unseen ?v" "fits_header x"
    "\<exists>d. d + ?l \<le> cdist (c_read_cursor (bg_c ?v)) (c_write_cursor_cache (bg_c ?v))
        \<and> q = (bg_c ?v)\<lparr>c_read_cursor := c_read_cursor (bg_c ?v) + of_nat d\<rparr>"
    "?l \<le> cdist (c_read_cursor q) (c_write_cursor_cache q)"
    "4 dvd slot_ix (sh_mask (bg_sh ?v)) (c_read_cursor q + of_nat ?l)"
    "framed (capacity_of (sh_mask (bg_sh ?v))) (slot_ix (sh_mask (bg_sh ?v)) (c_read_cursor q + of_nat ?l))
       (window (sh_mask (bg_sh ?v)) (buffer (bg_sh ?v)) (c_read_cursor q + of_nat ?l)
          (cdist (c_read_cursor q) (c_write_cursor_cache q) - ?l)) xs"
    by (rule bytes_next_msg_ok [OF v xs])
  obtain d where d: "d + ?l \<le> cdist (gc_read_cursor c1) (gc_write_cache c1)"
    "q = (sb_view_c c1)\<lparr>c_read_cursor := gc_read_cursor c1 + of_nat d\<rparr>" using N(8) by auto
  define c2 where c2: "c2 = c1\<lparr>gc_read_cursor := gc_read_cursor c1 + of_nat d\<rparr>"
  have q: "q = sb_view_c c2" using d(2) by (simp add: c2 sb_view_c_def)
  have v2: "sb_view sh c2 = ?v\<lparr>bg_c := q\<rparr>" unfolding q by (rule sb_view_here) (simp add: c2)
  have nx: "sb_next_msg sh c1 = Inr (g, c2)"
    using N(1) q by (auto simp: sb_next_msg_def next_msg_def c2 sb_view_c_def split: sum.splits)
  have dr: "sb_msg_deref g sh = x" using N(2) by (simp add: sb_msg_deref_def msg_deref_def)
  have le1: "unat (gc_read_cursor c1) \<le> unat (gc_write_cache c1)" using st by (simp add: gate_cstep_def)
  have dn: "d < word_span" using d(1) cdist_less_span [of "gc_read_cursor c1"] by (meson add_leE le_less_trans)
  have ud: "unat (of_nat d :: u64) = d" by (rule unat_of_nat_span [OF dn])
  have "unat (gc_read_cursor c1) + unat (of_nat d :: u64) \<le> unat (gc_write_cache c1)"
    using d(1) le1 unfolding ud cdist_unat [OF le1] by linarith
  note R = gate_read_step [OF S(1) c st this, folded c2]
  have le2: "unat (gc_read_cursor c2) \<le> unat (gc_write_cache c2)" using R(1) by (simp add: gate_cstep_def)
  have b2: "bytes_ok (sb_view sh c2)" "bytes_seen (sb_view sh c2) = x # xs"
    "bytes_unseen (sb_view sh c2) = bytes_unseen ?v"
    using N(4-6) unfolding v2 by simp_all
  have pend1: "sb_pending sh c1 = x # (xs @ bytes_unseen ?v)" by (simp add: sb_pending_def bytes_contents_def xs)
  have pend2: "sb_pending sh c2 = sb_pending sh c1" using b2 by (simp add: xs sb_pending_def bytes_contents_def)
  have "unat (of_nat (length x) :: usize) = length x"
    using fits_header_unat(3) [OF N(7)] ucast_length [OF N(7)] by simp
  then have rl: "unat (record_len (msg_len g)) = ?l"
    using unat_record_len [of "msg_len g"] N(3,7) by (simp add: fits_header_def word_span_def)
  have rw: "record_len (msg_len g) = of_nat ?l" using rl by (metis of_nat_unat ucast_id)
  have avail: "unat (gc_read_cursor c2) + unat (record_len (msg_len g)) \<le> unat (gc_write_cache c2)"
    using N(9) le2 unfolding q rl by (simp add: cdist_unat)
  have drop: "gate_cstep sh c sh' c3 \<and> bytes_ok (sb_view sh c3) \<and> sb_pending sh c3 = xs @ bytes_unseen ?v"
    if D: "sb_msg_drop g sh c2 = (sh', c3)" for sh' c3
  proof -
    note D' = D [unfolded sb_msg_drop_def]
    define now where "now \<longleftrightarrow> sbs_starving sh \<noteq> 0
      \<and> gc_write_cache c2 - gc_published c2 \<ge> gc_mask c2 + 1 - sbs_starving sh"
    define s0 where "s0 = (sb_view_sh sh (gc_published c2))\<lparr>sh_starving := (if now then 1 else 0)\<rparr>"
    define r where "r = (sb_view sh c2)\<lparr>bg_sh := s0\<rparr>"
    note rc = bytes_ring_cong [of r "sb_view sh c2"]
    have r2: "bytes_ok r" "bytes_seen r = x # xs" "bytes_unseen r = bytes_unseen ?v"
      using rc(1-3) b2 by (simp_all add: r_def s0_def)
    note A = sb_advance_view [OF D', folded now_def]
    obtain s qa where E: "advance (record_len (msg_len g)) (publish_batch_bytes (gc_mask c2 + 1)) now s0 (sb_view_c c2)
        = (s, qa)" "qa = sb_view_c c3" "sh_read_cursor s = gc_published c3"
      using A(1) [of s0] by (auto simp: s0_def)
    have ps: "producer_starving s0 = now" by (simp add: producer_starving_def s0_def)
    have bgs: "bg_sh r = s0" "bg_c r = sb_view_c c2" by (simp_all add: r_def)
    have md: "msg_drop g (bg_sh r) (bg_c r) = (s, qa)"
      using E(1) by (simp add: msg_drop_def bgs ps c_capacity_def publish_batch_bytes_def)
    have pre: "?l \<le> cdist (c_read_cursor (bg_c r)) (c_write_cursor_cache (bg_c r))"
      "4 dvd slot_ix (sh_mask (bg_sh r)) (c_read_cursor (bg_c r) + of_nat ?l)"
      "framed (capacity_of (sh_mask (bg_sh r))) (slot_ix (sh_mask (bg_sh r)) (c_read_cursor (bg_c r) + of_nat ?l))
         (window (sh_mask (bg_sh r)) (buffer (bg_sh r)) (c_read_cursor (bg_c r) + of_nat ?l)
            (cdist (c_read_cursor (bg_c r)) (c_write_cursor_cache (bg_c r)) - ?l)) xs"
      using N(9-11) by (simp_all add: bgs q s0_def)
    note F = bytes_release_ok [OF r2(1) N(7,3) r2(2) pre md]
    note AF = advance_frame [OF E(1)]
    have v3: "bytes_ok (sb_view sh c3)" "bytes_seen (sb_view sh c3) = xs"
      "bytes_unseen (sb_view sh c3) = bytes_unseen ?v"
      using bytes_ok_fresh_cache [OF F(1), of "sb_view sh c3"] F(2,3) r2(3) AF E(2,3)
      by (simp_all add: r_def s0_def)
    have cs3: "gate_cstep sh c sh' c3"
    proof -
      note G = gate_read_step [OF S(1) c R(1) avail]
      obtain sh4 c4 where f: "gate_flush sh (c2\<lparr>gc_read_cursor := gc_read_cursor c2 + record_len (msg_len g)\<rparr>) = (sh4, c4)"
        by (rule prod.exhaust)
      have "(sh', c3) = (sh4, c4) \<or> (sh', c3) = (sh, c2\<lparr>gc_read_cursor := gc_read_cursor c2 + record_len (msg_len g)\<rparr>)"
        using D' f by (simp add: sb_advance_def Let_def split: if_splits)
      then show ?thesis using G(1) gate_flush_step(1) [OF S(1) c G(1) f] by auto
    qed
    show ?thesis using cs3 v3 by (simp add: sb_pending_def bytes_contents_def)
  qed
  show ?thesis
    by (rule that [OF nx dr pend1 R(1) b2(1) pend2 _ _ drop]) (simp_all add: c2)
qed

section \<open>Drain\<close>

text \<open>One round of the loop: the record at the read cursor and where the cursor goes.\<close>

lemma drain_step:
  assumes m: "valid_mask m" and len: "length buf = capacity_of m"
    and n: "cdist rd e \<le> capacity_of m" and al: "4 dvd slot_ix m rd" and cap8: "8 dvd capacity_of m"
    and fr: "framed (capacity_of m) (slot_ix m rd) (window m buf rd (cdist rd e)) (x # xs)"
  obtains cur ln pl j where "decode_record buf m rd = Inr (cur, ln, pl)"
    and "read_bytes pl (unat ln) buf = x" and "cur + record_len ln = rd + of_nat j"
    and "0 < j" and "j \<le> cdist rd e" and "cdist (rd + of_nat j) e = cdist rd e - j"
    and "4 dvd slot_ix m (rd + of_nat j)"
    and "framed (capacity_of m) (slot_ix m (rd + of_nat j))
           (window m buf (rd + of_nat j) (cdist (rd + of_nat j) e)) xs"
proof -
  let ?r = "rlen (length x)"
  obtain d where D: "decode_record buf m rd
      = Inr (rd + of_nat d, of_nat (length x), slot_ix m (rd + of_nat d) + 4)"
    "d + ?r \<le> cdist rd e" "fits_header x"
    "read_bytes (slot_ix m (rd + of_nat d) + 4) (length x) buf = x"
    "framed (capacity_of m) (slot_ix m (rd + of_nat (d + ?r)))
       (window m buf (rd + of_nat (d + ?r)) (cdist rd e - (d + ?r))) xs"
    "d = 0 \<or> 0 < slot_ix m rd \<and> d = capacity_of m - slot_ix m rd"
    by (rule framed_decode [OF m len n fr])
  have ul: "unat (of_nat (length x) :: usize) = length x"
    using fits_header_unat(3) [OF D(3)] ucast_length [OF D(3)] by simp
  have "unat (record_len (of_nat (length x))) = ?r"
    using unat_record_len [of "of_nat (length x)"] D(3) by (simp add: ul fits_header_def word_span_def)
  then have rw: "record_len (of_nat (length x)) = of_nat ?r" by (metis of_nat_unat ucast_id)
  have step: "rd + of_nat d + record_len (of_nat (length x)) = rd + of_nat (d + ?r)"
    by (simp add: rw add.assoc)
  have lt: "d + ?r < word_span" using D(2) cdist_less_span le_less_trans by blast
  have cd: "cdist (rd + of_nat (d + ?r)) e = cdist rd e - (d + ?r)"
    using cdist_advance [of "of_nat (d + ?r)" rd e] D(2) unat_of_nat_span [OF lt] by (simp del: of_nat_add)
  have a0: "4 dvd slot_ix m (rd + of_nat d)" using D(6) al slot_ix_to_end [OF m, of rd] by auto
  have "4 dvd (slot_ix m (rd + of_nat d) + ?r) mod capacity_of m"
  proof -
    have "4 dvd capacity_of m" using cap8 by presburger
    then show ?thesis using a0 rlen_bounds(3) [of "length x"] by (simp add: dvd_mod mod_eq_0_iff_dvd)
  qed
  then have al': "4 dvd slot_ix m (rd + of_nat (d + ?r))"
    using slot_ix_step [OF m, of "rd + of_nat d" ?r] by (simp add: add.assoc)
  have pos: "0 < d + ?r" using rlen_bounds(4) [of "length x"] by simp
  have rb: "read_bytes (slot_ix m (rd + of_nat d) + 4) (unat (of_nat (length x) :: usize)) buf = x"
    using D(4) ul by simp
  show ?thesis by (rule that [OF D(1) rb step pos D(2) cd al']) (use D(5) cd in simp)
qed

lemma sb_drain_loop_ok:
  assumes m: "valid_mask m" and len: "length buf = capacity_of m"
    and n: "cdist rd e \<le> capacity_of m" and al: "4 dvd slot_ix m rd" and cap8: "8 dvd capacity_of m"
    and fr: "framed (capacity_of m) (slot_ix m rd) (window m buf rd (cdist rd e)) xs"
    and fuel: "length xs \<le> fuel"
  shows "\<exists>ys zs k. sb_drain_loop fuel unwinds count buf m batch start e rd = Some (Inr (ys, rd + of_nat k))
     \<and> xs = ys @ zs \<and> k \<le> cdist rd e \<and> 4 dvd slot_ix m (rd + of_nat k)
     \<and> framed (capacity_of m) (slot_ix m (rd + of_nat k))
         (window m buf (rd + of_nat k) (cdist rd e - k)) zs
     \<and> ((\<forall>i<length xs. \<not> unwinds (count + i)) \<longrightarrow> zs = [] \<or> batch \<le> rd + of_nat k - start)
     \<and> (xs \<noteq> [] \<and> rd - start < batch \<longrightarrow> ys \<noteq> [])"
  using n al fr fuel
proof (induction xs arbitrary: fuel count rd)
  case Nil
  then have "cdist rd e = 0"
    using framed_empty_iff [OF Nil.prems(3)] by (metis length_window length_0_conv)
  then have e: "rd = e" by simp
  have s: "sb_drain_loop fuel unwinds count buf m batch start e e = Some (Inr ([], e + of_nat 0))"
    by (simp add: sb_drain_loop.simps [of fuel])
  show ?case
    unfolding e
    by (rule exI [of _ "[]"], rule exI [of _ "[]"], rule exI [of _ 0])
      (use s Nil.prems(2) e in \<open>simp add: framed.nil\<close>)
next
  case (Cons x xs)
  obtain fuel' where fl: "fuel = Suc fuel'" "length xs \<le> fuel'"
    using Cons.prems(4) by (cases fuel) auto
  have "cdist rd e \<noteq> 0"
    using framed_empty_iff [OF Cons.prems(3)] by (intro notI) (simp del: cdist_eq_0_iff)
  then have ne: "e - rd \<noteq> 0" by auto
  show ?case
  proof (cases "rd - start < batch")
    case False
    have s: "sb_drain_loop fuel unwinds count buf m batch start e rd = Some (Inr ([], rd + of_nat 0))"
      using False by (simp add: sb_drain_loop.simps [of fuel])
    have ge: "batch \<le> rd - start" using False by (simp only: not_less)
    show ?thesis
      by (rule exI [of _ "[]"], rule exI [of _ "x # xs"], rule exI [of _ 0])
        (use s Cons.prems(2,3) False ge in simp)
  next
    case inb: True
    obtain cur ln pl j where D: "decode_record buf m rd = Inr (cur, ln, pl)"
      "read_bytes pl (unat ln) buf = x" "cur + record_len ln = rd + of_nat j" "0 < j" "j \<le> cdist rd e"
      "cdist (rd + of_nat j) e = cdist rd e - j" "4 dvd slot_ix m (rd + of_nat j)"
      "framed (capacity_of m) (slot_ix m (rd + of_nat j)) (window m buf (rd + of_nat j) (cdist (rd + of_nat j) e)) xs"
      by (rule drain_step [OF m len Cons.prems(1,2) cap8 Cons.prems(3)])
    define rd' where rd': "rd' = rd + of_nat j"
    note D' = D [folded rd']
    have unfold: "sb_drain_loop fuel unwinds count buf m batch start e rd
        = (if unwinds count then Some (Inr ([x], rd'))
           else (case sb_drain_loop fuel' unwinds (Suc count) buf m batch start e rd' of
                   Some (Inr (xs, rd'')) \<Rightarrow> Some (Inr (x # xs, rd''))
                 | other \<Rightarrow> other))"
      using ne inb D'(1-3) by (simp add: sb_drain_loop.simps [of "Suc fuel'"] fl Let_def
          split: option.split sum.split)
    show ?thesis
    proof (cases "unwinds count")
      case True
      show ?thesis
        by (rule exI [of _ "[x]"], rule exI [of _ xs], rule exI [of _ j])
          (use True unfold D'(5-8) rd' in auto)
    next
      case False
      have n': "cdist rd' e \<le> capacity_of m" using D'(6) Cons.prems(1) by simp
      obtain ys zs k where I: "sb_drain_loop fuel' unwinds (Suc count) buf m batch start e rd'
          = Some (Inr (ys, rd' + of_nat k))" "xs = ys @ zs" "k \<le> cdist rd' e"
        "4 dvd slot_ix m (rd' + of_nat k)"
        "framed (capacity_of m) (slot_ix m (rd' + of_nat k))
           (window m buf (rd' + of_nat k) (cdist rd' e - k)) zs"
        "(\<forall>i<length xs. \<not> unwinds (Suc count + i)) \<longrightarrow> zs = [] \<or> batch \<le> rd' + of_nat k - start"
        using Cons.IH [OF n' D'(7,8) fl(2), of "Suc count"] by blast
      have nx: "rd' + of_nat k = rd + of_nat (j + k)" by (simp add: rd' add.assoc)
      have rem: "cdist rd' e - k = cdist rd e - (j + k)" using D'(6) by simp
      have all: "zs = [] \<or> batch \<le> rd + of_nat (j + k) - start"
        if a: "\<forall>i<length (x # xs). \<not> unwinds (count + i)"
      proof -
        have "\<forall>i<length xs. \<not> unwinds (Suc count + i)" using a by (auto dest: spec [of _ "Suc _"])
        then show ?thesis using I(6) unfolding nx by blast
      qed
      have loop: "sb_drain_loop fuel unwinds count buf m batch start e rd = Some (Inr (x # ys, rd + of_nat (j + k)))"
        unfolding unfold using False I(1) nx by simp
      have k': "j + k \<le> cdist rd e" using I(3) D'(5,6) by linarith
      have tail: "framed (capacity_of m) (slot_ix m (rd + of_nat (j + k)))
          (window m buf (rd + of_nat (j + k)) (cdist rd e - (j + k))) zs"
        using I(5) unfolding nx rem .
      have "4 dvd slot_ix m (rd + of_nat (j + k))" using I(4) unfolding nx .
      moreover have "x # xs = (x # ys) @ zs" using I(2) by simp
      ultimately show ?thesis using loop k' tail all by blast
    qed
  qed
qed

lemma framed_count: "framed cap pos s xs \<Longrightarrow> 4 * length xs \<le> length s"
proof (induction rule: framed.induct)
  case (plain x slack pos s xs)
  then show ?case using rlen_bounds(4) [of "length x"] by (simp add: length_record_bytes)
next
  case (padded pos junk x slack s xs)
  then show ?case using rlen_bounds(4) [of "length x"] by (simp add: length_record_bytes)
qed simp

text \<open>
  A drain delivers a prefix of what is pending and publishes its progress; the
  number of buffer bytes is enough fuel.
\<close>

lemma sb_drain_ok:
  assumes ok: "sb_sound sh p cs" and c: "cs k = Some c" and fuel: "length (sbs_buffer sh) \<le> fuel"
  obtains ys sh' c' where "sb_drain fuel unwinds sh c = Some (Inr (ys, sh', c'))"
    and "gate_cstep sh c sh' c'" and "bytes_ok (sb_view sh c')"
    and "sb_pending sh c = ys @ sb_pending sh c'"
    and "sb_pending sh c \<noteq> [] \<Longrightarrow> ys \<noteq> [] \<and> gc_published c' = gc_read_cursor c'"
    and "(\<forall>i<length (sb_pending sh c). \<not> unwinds i) \<Longrightarrow>
           sb_pending sh c' = [] \<or> publish_batch_bytes (gs_mask sh + 1) \<le> gc_read_cursor c' - gc_read_cursor c"
proof -
  note S = sb_soundD [OF ok]
  let ?m = "gs_mask sh" and ?w = "gs_write_cursor sh" and ?rd = "gc_read_cursor c"
  let ?c1 = "c\<lparr>gc_write_cache := ?w\<rparr>" and ?xs = "sb_pending sh c"
  let ?batch = "publish_batch_bytes (?m + 1)"
  note st1 = gate_refresh_step [OF S(1) c]
  note R = sb_refresh_ok [OF S(7) [OF c]]
  have R2: "sb_pending sh ?c1 = ?xs" using R by (simp add: sb_pending_def bytes_contents_def)
  have cm: "gc_mask c = ?m" by (rule consumer_okD(1) [OF gate_okD(3) [OF S(1) c]])
  have nil: "?xs = [] \<longleftrightarrow> ?w = ?rd"
    using bytes_contents_nil_iff(1) [OF S(7) [OF c]] by (auto simp: sb_pending_def queued_def)
  show ?thesis
  proof (cases "?w - ?rd = 0")
    case True
    then have e: "?xs = []" using nil by (simp add: word_diff_0)
    have "sb_drain fuel unwinds sh c = Some (Inr ([], sh, ?c1))"
      using True by (simp add: sb_drain_def gate_refresh_def)
    then show ?thesis using that [of "[]" sh ?c1] st1 R(1) R2 e by simp
  next
    case False
    note okD = bytes_okD [OF R(1)]
    have F: "4 dvd slot_ix ?m ?rd"
      "framed (capacity_of ?m) (slot_ix ?m ?rd) (window ?m (sbs_buffer sh) ?rd (cdist ?rd ?w)) ?xs"
      using okD(2) R(2) by (auto simp: bytes_frames_ok_def Let_def mod_eq_0_iff_dvd)
    have n: "cdist ?rd ?w \<le> capacity_of ?m" using queued_le [OF okD(1)] by (simp add: queued_def)
    have fl: "length ?xs \<le> fuel" using framed_count [OF F(2)] n S(2) fuel by simp
    obtain ys zs j where L: "sb_drain_loop fuel unwinds 0 (sbs_buffer sh) ?m ?batch ?rd ?w ?rd
        = Some (Inr (ys, ?rd + of_nat j))" "?xs = ys @ zs" "j \<le> cdist ?rd ?w"
      "4 dvd slot_ix ?m (?rd + of_nat j)"
      "framed (capacity_of ?m) (slot_ix ?m (?rd + of_nat j))
         (window ?m (sbs_buffer sh) (?rd + of_nat j) (cdist ?rd ?w - j)) zs"
      "(\<forall>i<length ?xs. \<not> unwinds (0 + i)) \<longrightarrow> zs = [] \<or> ?batch \<le> ?rd + of_nat j - ?rd"
      "?xs \<noteq> [] \<and> ?rd - ?rd < ?batch \<longrightarrow> ys \<noteq> []"
      using sb_drain_loop_ok [OF S(8,2) n F(1) capacity_dvd_8 [OF S(8,3)] F(2) fl, of unwinds 0 ?batch ?rd] by blast
    have bpos: "0 < ?batch" using publish_batch_bounds(1) [of MAX_PUBLISH_BATCH_BYTES]
      by (simp add: publish_batch_bytes_def MAX_PUBLISH_BATCH_BYTES_def)
    have le: "unat ?rd \<le> unat ?w" using st1 by (simp add: gate_cstep_def)
    have jn: "j < word_span" using L(3) cdist_less_span le_less_trans by blast
    have uj: "unat (of_nat j :: u64) = j" by (rule unat_of_nat_span [OF jn])
    have "unat (gc_read_cursor ?c1) + unat (of_nat j :: u64) \<le> unat (gc_write_cache ?c1)"
      using L(3) le unfolding uj cdist_unat [OF le] by simp
    note RS = gate_read_step [OF S(1) c st1 this]
    define c2 where "c2 = ?c1\<lparr>gc_read_cursor := gc_read_cursor ?c1 + of_nat j\<rparr>"
    obtain sh' c' where f: "gate_flush_pending sh c2 = (sh', c')" by (rule prod.exhaust)
    note FP = gate_flush_pending_step [OF S(1) c RS(1) [folded c2_def] f]
    have run: "sb_drain fuel unwinds sh c = Some (Inr (ys, sh', c'))"
      using False L(1) f by (simp add: sb_drain_def gate_refresh_def cm c2_def)
    have rd': "gc_read_cursor c' = ?rd + of_nat j" "gc_write_cache c' = ?w" using FP(2,4) by (simp_all add: c2_def)
    have cd: "cdist (?rd + of_nat j) ?w = cdist ?rd ?w - j"
      using cdist_advance [of "of_nat j" ?rd ?w] L(3) uj by simp
    have inv: "bytes_ok (sb_view sh c')" "sb_pending sh c' = zs"
    proof -
      have ok': "gate_ok sh' p (cs(k \<mapsto> c'))" by (rule gate_cstep_ok [OF S(1) c FP(1)])
      have eq: "sb_view sh' c' = sb_view sh c'" by (rule gate_cstep_words(6) [OF FP(1)])
      have "cursors_ok (bg_sh (sb_view sh c')) (bg_p (sb_view sh c')) (bg_c (sb_view sh c'))"
        using sb_view_cursors_ok [OF ok', of k c'] unfolding eq [symmetric] by simp
      moreover have "bytes_frames_ok (bg_sh (sb_view sh c')) (bg_c (sb_view sh c')) zs []"
        using L(4,5) S(2,3) cd rd' by (simp add: bytes_frames_ok_def Let_def mod_eq_0_iff_dvd framed.nil)
      moreover have "deferred (bg_sh (sb_view sh c')) (bg_c (sb_view sh c')) = 0"
        using FP(3) rd'(1) by (simp add: deferred_def c2_def)
      ultimately show "bytes_ok (sb_view sh c')" "sb_pending sh c' = zs"
        using bytes_okI [of "sb_view sh c'" zs "[]"] by (simp_all add: sb_pending_def bytes_contents_def)
    qed
    show ?thesis
    proof (rule that [OF run FP(1) inv(1)], unfold inv(2))
      show "?xs = ys @ zs" by (rule L(2))
      show "?xs \<noteq> [] \<Longrightarrow> ys \<noteq> [] \<and> gc_published c' = gc_read_cursor c'" using L(7) bpos FP(2,3) by simp
      show "\<forall>i<length ?xs. \<not> unwinds i \<Longrightarrow> zs = [] \<or> ?batch \<le> gc_read_cursor c' - ?rd"
        using L(6) unfolding add_0 rd' by blast
    qed
  qed
qed

section \<open>The pop\<close>

definition sb_pop_spec ::
  "spmcb_shared \<Rightarrow> gate_consumer \<Rightarrow> gate_consumer \<Rightarrow> msg_guard pop_result \<Rightarrow> bool" where
  "sb_pop_spec sh c c1 res \<longleftrightarrow>
     (case res of
        Popped g \<Rightarrow> (\<exists>x rest. sb_pending sh c = x # rest \<and> sb_msg_deref g sh = x
          \<and> (\<forall>sh' c2. sb_msg_drop g sh c1 = (sh', c2) \<longrightarrow>
               gate_cstep sh c sh' c2 \<and> bytes_ok (sb_view sh c2) \<and> sb_pending sh c2 = rest))
      | Pop_empty \<Rightarrow> sb_pending sh c = [] \<and> gs_closed sh = 0
      | Pop_closed \<Rightarrow> sb_pending sh c = [] \<and> gs_closed sh \<noteq> 0
      | Pop_unwound \<Rightarrow> False)"

lemma sb_pop_taken:
  assumes ok: "sb_sound sh p cs" and c: "cs k = Some c" and st: "gate_cstep sh c sh c1"
    and v: "bytes_ok (sb_view sh c1)" and seen: "bytes_seen (sb_view sh c1) \<noteq> []"
    and pend: "sb_pending sh c1 = sb_pending sh c"
  shows "\<exists>g c2. sb_next_msg sh c1 = Inr (g, c2) \<and> gate_cstep sh c sh c2 \<and> bytes_ok (sb_view sh c2)
    \<and> sb_pending sh c2 = sb_pending sh c \<and> sb_pop_spec sh c c2 (Popped g)"
proof -
  obtain x rest g c2 where T: "sb_next_msg sh c1 = Inr (g, c2)" "sb_msg_deref g sh = x"
    "sb_pending sh c1 = x # rest" "gate_cstep sh c sh c2" "bytes_ok (sb_view sh c2)"
    "sb_pending sh c2 = sb_pending sh c1" "gc_write_cache c2 = gc_write_cache c1" "gc_published c2 = gc_published c1"
    "\<And>sh' c3. sb_msg_drop g sh c2 = (sh', c3) \<Longrightarrow>
       gate_cstep sh c sh' c3 \<and> bytes_ok (sb_view sh c3) \<and> sb_pending sh c3 = rest"
    by (rule sb_take_ok [OF ok c st v seen]) blast
  have "sb_pop_spec sh c c2 (Popped g)" using T(2,3,9) pend by (simp add: sb_pop_spec_def)
  then show ?thesis using T(1,4-6) pend by (metis (no_types))
qed

lemma sb_try_pop_ok:
  assumes ok: "sb_sound sh p cs" and c: "cs k = Some c"
  obtains res c1 where "sb_try_pop (\<lambda>s. s) sh c = Inr (res, sh, c1)" and "gate_cstep sh c sh c1"
    and "bytes_ok (sb_view sh c1)" and "sb_pending sh c1 = sb_pending sh c" and "sb_pop_spec sh c c1 res"
proof -
  obtain b c1 where h: "gate_has_item sh c = (b, c1)" by (rule prod.exhaust)
  note H = sb_has_item_ok [OF ok c h]
  show ?thesis
  proof (cases b)
    case True
    obtain g c2 where T: "sb_next_msg sh c1 = Inr (g, c2)" "gate_cstep sh c sh c2" "bytes_ok (sb_view sh c2)"
      "sb_pending sh c2 = sb_pending sh c" "sb_pop_spec sh c c2 (Popped g)"
      using sb_pop_taken [OF ok c H(1,2) H(5) [OF True] H(3)] by blast
    have "sb_try_pop (\<lambda>s. s) sh c = Inr (Popped g, sh, c2)" using h True T(1) by (simp add: sb_try_pop_def)
    then show ?thesis using that T(2-5) by blast
  next
    case False
    have nil: "sb_pending sh c = []" using H(4) False by simp
    have ok1: "sb_sound sh p (cs(k \<mapsto> c1))" by (rule sb_cstep_ok [OF ok c H(1,2)])
    have k1: "(cs(k \<mapsto> c1)) k = Some c1" by simp
    obtain b2 c2 where h2: "gate_check_closed sh c1 = (b2, c2)" by (rule prod.exhaust)
    note K = sb_check_closed_ok [OF ok1 k1 h2]
    have st: "gate_cstep sh c sh c2" by (rule gate_cstep_trans [OF H(1) K(1)])
    have pend: "sb_pending sh c2 = sb_pending sh c" using K(3) H(3) by simp
    show ?thesis
    proof (cases b2)
      case True
      have "sb_try_pop (\<lambda>s. s) sh c = Inr (Pop_closed, sh, c2)" using h False h2 True by (simp add: sb_try_pop_def)
      moreover have "sb_pop_spec sh c c2 Pop_closed" using K(4) True nil by (simp add: sb_pop_spec_def)
      ultimately show ?thesis using that st K(2) pend by blast
    next
      case f: False
      have a: "gs_closed sh = 0" "c2 = c1" using K(5) f nil H(3) by auto
      have "gate_available_cached c1 = 0"
        using h False by (auto simp: gate_has_item_def Let_def split: if_splits)
      then have "sb_try_pop (\<lambda>s. s) sh c = Inr (Pop_empty, sh, c2)"
        using h False h2 f a by (simp add: sb_try_pop_def)
      moreover have "sb_pop_spec sh c c2 Pop_empty" using a nil by (simp add: sb_pop_spec_def)
      ultimately show ?thesis using that st K(2) pend by blast
    qed
  qed
qed

section \<open>Claimed slots\<close>

lemma sb_fill_ok:
  assumes ok: "sb_sound sh p cs" and legal: "length x \<le> unat (max_message_len (gs_mask sh + 1))"
    and fr: "sb_frame (of_nat (length x)) p = Inr (pad, need)"
    and fit: "cdist (gp_cached_min p) (gp_next_seq p) + unat need \<le> capacity_of (gs_mask sh)"
  obtains buf' where "store (sb_payload_ptr pad p) x (sbs_buffer sh) = Inr buf'"
    and "read_bytes (sb_payload_ptr pad p) (length x) buf' = x"
    and "sb_sound (sh\<lparr>sbs_buffer := buf'\<rparr>) p cs"
    and "\<And>k c. cs k = Some c \<Longrightarrow> sb_pending (sh\<lparr>sbs_buffer := buf'\<rparr>) c = sb_pending sh c"
proof -
  note S = sb_soundD [OF ok]
  let ?m = "gs_mask sh" and ?w = "gs_write_cursor sh" and ?len = "of_nat (length x) :: usize"
  have "unat (max_message_len (?m + 1)) < word_span" by simp
  then have ul: "unat ?len = length x" using legal unat_of_nat_span le_less_trans by blast
  have leg: "unat ?len \<le> unat (max_message_len (?m + 1))" using ul legal by simp
  have room: "slot_ix ?m (?w + pad) + rlen (length x) \<le> capacity_of ?m"
  proof -
    obtain pad0 need0 where F: "sb_frame ?len p = Inr (pad0, need0)"
      "slot_ix ?m (?w + pad0) + rlen (unat ?len) \<le> capacity_of ?m"
      using sb_frame_ok [OF ok leg] by metis
    then show ?thesis using fr ul by simp
  qed
  have pp: "sb_payload_ptr pad p = slot_ix ?m (?w + pad) + 4" using S(9,10) by (simp add: sb_payload_ptr_def)
  have bound: "sb_payload_ptr pad p + length x \<le> length (sbs_buffer sh)"
    using room rlen_bounds(1) [of "length x"] S(2) pp by simp
  define buf' where "buf' = write_bytes (sb_payload_ptr pad p) x (sbs_buffer sh)"
  have st: "store (sb_payload_ptr pad p) x (sbs_buffer sh) = Inr buf'" using bound by (simp add: store_def buf'_def)
  let ?sh = "sh\<lparr>sbs_buffer := buf'\<rparr>"
  have view: "bytes_ok (sb_view ?sh c) \<and> sb_pending ?sh c = sb_pending sh c" if c: "cs k = Some c" for k c
  proof -
    let ?r = "sb_view sh c" and ?pub = "gc_published c"
    have okr: "bytes_ok ?r" by (rule S(7) [OF c])
    have lag: "cdist ?pub ?w + unat need \<le> capacity_of ?m"
      using consumer_okD(9) [OF gate_okD(3) [OF S(1) c]] gate_lag_published [OF S(1) c] fit S(10) by simp
    have legr: "bytes_legal ?r x" using legal by (simp add: bytes_legal_def)
    have frr: "frame ?len (bg_p ?r) = Inr (pad, need)"
      using fr sb_frame_view [OF S(9) S(10) [symmetric]] by simp
    have roomr: "cdist (p_read_cursor_cache (bg_p ?r)) (sh_write_cursor (bg_sh ?r)) + unat need
        \<le> capacity_of (sh_mask (bg_sh ?r))" using lag by simp
    have ptr: "payload_ptr pad (bg_p ?r) = sb_payload_ptr pad p"
      using S(9,10) by (simp add: payload_ptr_def sb_payload_ptr_def)
    have "?r\<lparr>bg_sh := (bg_sh ?r)\<lparr>buffer := buf'\<rparr>\<rparr> = sb_view ?sh c"
      by (simp add: sb_view_def sb_view_sh_def sb_view_p_def)
    then show ?thesis
      using bytes_fill_ok [OF okr legr bytes_legal_small [OF okr legr] frr roomr] st
      unfolding ptr sb_pending_def by (metis sb_view_simps(1,14) sum.inject(2))
  qed
  have "sb_sound ?sh p cs"
  proof (rule sb_soundI)
    show "gate_ok ?sh p cs" by (rule gate_ok_cong [OF S(1)]) simp_all
    show "length (sbs_buffer ?sh) = capacity_of (gs_mask ?sh)"
      using S(2) length_write_bytes [OF bound] by (simp add: buf'_def)
  qed (use S(3-6) view in simp_all)
  moreover have "read_bytes (sb_payload_ptr pad p) (length x) buf' = x"
    using read_write_bytes [OF bound] by (simp add: buf'_def)
  ultimately show ?thesis using that [OF st] view by blast
qed

section \<open>Membership, the close, a new ring\<close>

lemma sb_subscribe_ok:
  assumes ok: "sb_sound sh p cs" and k: "cs k = None" and s: "sb_subscribe sh = (Inr c, sh')"
  shows "sb_sound sh' p (cs(k \<mapsto> c))" and "sb_pending sh' d = sb_pending sh d" and "sb_pending sh' c = []"
    and "gs_mask sh' = gs_mask sh" "gs_write_cursor sh' = gs_write_cursor sh" "gs_closed sh' = gs_closed sh"
proof -
  note S = sb_soundD [OF ok]
  note G = gate_subscribe_ok [OF S(1) k s [unfolded sb_subscribe_def]]
  note e = more_sbs [OF G(9)]
  have vw: "sb_view sh' d = sb_view sh d" for d by (rule sb_view_cong) (rule G(6), rule G(7), rule e(1))
  show "sb_pending sh' d = sb_pending sh d" by (simp add: sb_pending_def vw)
  show "gs_mask sh' = gs_mask sh" "gs_write_cursor sh' = gs_write_cursor sh" "gs_closed sh' = gs_closed sh"
    by (rule G(6), rule G(7), rule G(8))
  have "cursors_ok (bg_sh (sb_view sh c)) (bg_p (sb_view sh c)) (bg_c (sb_view sh c))"
    using sb_view_cursors_ok [OF G(1), of k c] by (simp add: vw [symmetric])
  moreover have "bytes_frames_ok (bg_sh (sb_view sh c)) (bg_c (sb_view sh c)) [] []"
    using S(2-4) G(2,4) by (simp add: bytes_frames_ok_def Let_def mod_eq_0_iff_dvd framed.nil)
  ultimately have v: "bytes_ok (sb_view sh c)" "sb_pending sh c = []"
    using bytes_okI [of "sb_view sh c" "[]" "[]"] G(2,3)
    by (simp_all add: sb_pending_def bytes_contents_def deferred_def)
  show "sb_pending sh' c = []" using v(2) by (simp add: sb_pending_def vw)
  show "sb_sound sh' p (cs(k \<mapsto> c))"
  proof (rule sb_soundI [OF G(1)])
    fix j d assume "(cs(k \<mapsto> c)) j = Some d"
    then show "bytes_ok (sb_view sh' d)" using v(1) S(7) unfolding vw by (cases "j = k") auto
  qed (use S(2-6) G(6,7) e in simp_all)
qed

lemma sb_leave_ok:
  assumes ok: "sb_sound sh p cs" and c: "cs k = Some c"
  defines "sh' \<equiv> sb_consumer_drop sh c"
  shows "sb_sound sh' p (cs(k := None))" and "sb_pending sh' d = sb_pending sh d"
    and "gs_mask sh' = gs_mask sh" "gs_write_cursor sh' = gs_write_cursor sh" "gs_closed sh' = gs_closed sh"
proof -
  note S = sb_soundD [OF ok]
  note G = gate_consumer_drop_ok [OF S(1) c, folded sb_consumer_drop_def, folded sh'_def]
  note e = more_sbs [OF G(5)]
  have vw: "sb_view sh' d = sb_view sh d" for d by (rule sb_view_cong) (rule G(2), rule G(3), rule e(1))
  show "sb_pending sh' d = sb_pending sh d" by (simp add: sb_pending_def vw)
  show "gs_mask sh' = gs_mask sh" "gs_write_cursor sh' = gs_write_cursor sh" "gs_closed sh' = gs_closed sh"
    by (rule G(2), rule G(3), rule G(4))
  show "sb_sound sh' p (cs(k := None))"
  proof (rule sb_soundI [OF G(1)])
    fix j d assume "(cs(k := None)) j = Some d"
    then show "bytes_ok (sb_view sh' d)" using S(7) unfolding vw by (cases "j = k") auto
  qed (use S(2-6) G(2,3) e in simp_all)
qed

lemma sb_close_ok:
  assumes ok: "sb_sound sh p cs"
  shows "sb_sound (sb_producer_drop sh) p cs" and "sb_pending (sb_producer_drop sh) d = sb_pending sh d"
    and "gs_mask (sb_producer_drop sh) = gs_mask sh"
    and "gs_write_cursor (sb_producer_drop sh) = gs_write_cursor sh"
proof -
  note S = sb_soundD [OF ok]
  let ?sh = "sb_producer_drop sh"
  have e: "gs_mask ?sh = gs_mask sh" "gs_write_cursor ?sh = gs_write_cursor sh"
    "gs_registry ?sh = gs_registry sh" "sbs_buffer ?sh = sbs_buffer sh" "sbs_starving ?sh = sbs_starving sh"
    by (simp_all add: sb_producer_drop_def gate_producer_drop_def)
  show "gs_mask ?sh = gs_mask sh" "gs_write_cursor ?sh = gs_write_cursor sh" by (rule e(1), rule e(2))
  have vw: "sb_view ?sh d = sb_view sh d" for d by (rule sb_view_cong [OF e(1,2,4)])
  show "sb_pending ?sh d = sb_pending sh d" by (simp add: sb_pending_def vw)
  show "sb_sound ?sh p cs"
  proof (rule sb_soundI)
    show "gate_ok ?sh p cs" by (rule gate_ok_cong [OF S(1)]) (simp_all add: e)
    fix j d assume "cs j = Some d"
    then show "bytes_ok (sb_view ?sh d)" using S(7) unfolding vw by blast
  qed (use S(2-6) e in simp_all)
qed

end
