(* ===== verification/Spmc_Bytes_Properties.thy ===== *)
theory Spmc_Bytes_Properties
  imports Spmc_Bytes_Invariant
begin

text \<open>
  Whole runs of a gating multi-consumer byte ring, as an instance of the
  multicast contract, and what the ring guarantees: lossless multicast of byte
  messages, the outcomes of a push, and the starving release.
\<close>

section \<open>Runs\<close>

datatype spmcb_op =
    Sb_push "u8 list"
  | Sb_claim "u8 list" bool
  | Sb_subscribe
  | Sb_pop nat bool
  | Sb_drain nat "nat \<Rightarrow> bool"
  | Sb_leave nat
  | Sb_close

definition sb_legal :: "spmcb \<Rightarrow> u8 list \<Rightarrow> bool" where
  "sb_legal r x \<longleftrightarrow> length x \<le> unat (max_message_len (gs_mask (sb_sh r) + 1))"

text \<open>
  One call on a ring. A call on a handle that no longer exists is \<open>Quiet\<close>, and so
  is a message over the limit, which panics before anything changes. A claimed
  slot is filled through \<open>deref_mut\<close> and then committed or abandoned; a guard is
  read and then dropped or forgotten. A drain that runs out of fuel counts as a
  fault; the number of bytes of the buffer is enough (\<open>sb_drain_ok\<close>).
\<close>

fun sb_exec :: "spmcb_op \<Rightarrow> spmcb \<Rightarrow> fault + u8 list mc_event \<times> spmcb" where
  "sb_exec (Sb_push x) r =
     (if gs_closed (sb_sh r) \<noteq> 0 \<or> \<not> sb_legal r x then Inr (Quiet, r)
      else (case sb_try_push x (sb_sh r) (sb_p r) of
              Inl f \<Rightarrow> Inl f
            | Inr (b, sh, p) \<Rightarrow>
                Inr (if b then Published x else Quiet, r\<lparr>sb_sh := sh, sb_p := p\<rparr>)))"
| "sb_exec (Sb_claim x keep) r =
     (if gs_closed (sb_sh r) \<noteq> 0 \<or> \<not> sb_legal r x then Inr (Quiet, r)
      else (case sb_try_claim (of_nat (length x)) (sb_sh r) (sb_p r) of
              Inl f \<Rightarrow> Inl f
            | Inr (None, sh, p) \<Rightarrow> Inr (Quiet, r\<lparr>sb_sh := sh, sb_p := p\<rparr>)
            | Inr (Some ws, sh, p) \<Rightarrow>
                (case sb_slot_deref_mut (\<lambda>_. x) ws sh of
                   Inl f \<Rightarrow> Inl f
                 | Inr sh1 \<Rightarrow>
                     (if keep
                      then (case sb_commit ws sh1 p of
                              Inl f \<Rightarrow> Inl f
                            | Inr (sh2, p2) \<Rightarrow> Inr (Published x, r\<lparr>sb_sh := sh2, sb_p := p2\<rparr>))
                      else Inr (Quiet, r\<lparr>sb_sh := sh1, sb_p := p\<rparr>)))))"
| "sb_exec Sb_subscribe r =
     (case sb_subscribe (sb_sh r) of
        (Inl e, sh) \<Rightarrow> Inr (Quiet, r)
      | (Inr c, sh) \<Rightarrow>
          Inr (Joined (sb_next r),
               r\<lparr>sb_sh := sh, sb_cs := (sb_cs r)(sb_next r \<mapsto> c), sb_next := Suc (sb_next r)\<rparr>))"
| "sb_exec (Sb_pop k keep) r =
     (case sb_cs r k of
        None \<Rightarrow> Inr (Quiet, r)
      | Some c \<Rightarrow>
          (case sb_try_pop (\<lambda>s. s) (sb_sh r) c of
             Inl f \<Rightarrow> Inl f
           | Inr (res, sh, c1) \<Rightarrow>
               (case res of
                  Popped g \<Rightarrow>
                    (if keep then Inr (Quiet, r\<lparr>sb_sh := sh, sb_cs := (sb_cs r)(k \<mapsto> c1)\<rparr>)
                     else (case sb_msg_drop g sh c1 of
                             (sh2, c2) \<Rightarrow>
                               Inr (Received k [sb_msg_deref g sh],
                                    r\<lparr>sb_sh := sh2, sb_cs := (sb_cs r)(k \<mapsto> c2)\<rparr>)))
                | Pop_closed \<Rightarrow> Inr (Closed_seen k, r\<lparr>sb_sh := sh, sb_cs := (sb_cs r)(k \<mapsto> c1)\<rparr>)
                | _ \<Rightarrow> Inr (Empty k, r\<lparr>sb_sh := sh, sb_cs := (sb_cs r)(k \<mapsto> c1)\<rparr>))))"
| "sb_exec (Sb_drain k unwinds) r =
     (case sb_cs r k of
        None \<Rightarrow> Inr (Quiet, r)
      | Some c \<Rightarrow>
          (case sb_drain (length (sbs_buffer (sb_sh r))) unwinds (sb_sh r) c of
             None \<Rightarrow> Inl Panic
           | Some (Inl f) \<Rightarrow> Inl f
           | Some (Inr (xs, sh, c')) \<Rightarrow>
               Inr (Received k xs, r\<lparr>sb_sh := sh, sb_cs := (sb_cs r)(k \<mapsto> c')\<rparr>)))"
| "sb_exec (Sb_leave k) r =
     (case sb_cs r k of
        None \<Rightarrow> Inr (Quiet, r)
      | Some c \<Rightarrow>
          Inr (Left k, r\<lparr>sb_sh := sb_consumer_drop (sb_sh r) c, sb_cs := (sb_cs r)(k := None)\<rparr>))"
| "sb_exec Sb_close r = Inr (Shut, r\<lparr>sb_sh := sb_producer_drop (sb_sh r)\<rparr>)"

definition sb_queues :: "spmcb \<Rightarrow> nat \<Rightarrow> u8 list list option" where
  "sb_queues r k = map_option (sb_pending (sb_sh r)) (sb_cs r k)"

text \<open>The state is sound and \<open>n\<close> more messages stay within the range of the cursors.\<close>

definition sb_inv :: "nat \<Rightarrow> spmcb \<Rightarrow> bool" where
  "sb_inv n r \<longleftrightarrow> sb_sound (sb_sh r) (sb_p r) (sb_cs r) \<and> (\<forall>k. sb_next r \<le> k \<longrightarrow> sb_cs r k = None)
     \<and> unat (gs_write_cursor (sb_sh r)) + (n + 2) * capacity_of (gs_mask (sb_sh r)) < word_span"

definition sb_exec_spec :: "nat \<Rightarrow> u8 list mc_event \<Rightarrow> spmcb \<Rightarrow> spmcb \<Rightarrow> bool" where
  "sb_exec_spec n ev r r' \<longleftrightarrow> sb_inv n r' \<and> mc_spec ev (sb_queues r) (sb_queues r')
     \<and> gs_mask (sb_sh r') = gs_mask (sb_sh r)
     \<and> (\<forall>k. ev = Joined k \<longrightarrow> k = sb_next r)
     \<and> sb_next r' = (case ev of Joined k \<Rightarrow> Suc k | _ \<Rightarrow> sb_next r)"

lemma sb_exec_quiet: "sb_inv (Suc n) r \<Longrightarrow> sb_exec_spec n Quiet r r"
  by (simp add: sb_exec_spec_def sb_inv_def)

text \<open>A step of the producer that leaves every consumer's queue as it is, and one that publishes.\<close>

lemma sb_exec_same:
  assumes inv: "sb_inv (Suc n) r" and ok: "sb_sound sh' p' (sb_cs r)"
    and q: "\<And>k c. sb_cs r k = Some c \<Longrightarrow> sb_pending sh' c = sb_pending (sb_sh r) c"
    and e: "gs_mask sh' = gs_mask (sb_sh r)" "gs_write_cursor sh' = gs_write_cursor (sb_sh r)"
    and ev: "ev = Quiet \<or> ev = Shut"
  shows "sb_exec_spec n ev r (r\<lparr>sb_sh := sh', sb_p := p'\<rparr>)"
proof -
  have "sb_queues (r\<lparr>sb_sh := sh', sb_p := p'\<rparr>) k = sb_queues r k" for k
    using q by (cases "sb_cs r k") (simp_all add: sb_queues_def)
  then have "sb_queues (r\<lparr>sb_sh := sh', sb_p := p'\<rparr>) = sb_queues r" by (rule ext)
  then show ?thesis using inv ok e ev by (auto simp: sb_exec_spec_def sb_inv_def)
qed

lemma sb_exec_published:
  assumes inv: "sb_inv (Suc n) r" and ok: "sb_sound sh' p' (sb_cs r)"
    and q: "\<And>k c. sb_cs r k = Some c \<Longrightarrow> sb_pending sh' c = sb_pending (sb_sh r) c @ [x]"
    and e: "gs_mask sh' = gs_mask (sb_sh r)"
    "unat (gs_write_cursor sh') = unat (gs_write_cursor (sb_sh r)) + need"
    and need: "need < capacity_of (gs_mask (sb_sh r))"
  shows "sb_exec_spec n (Published x) r (r\<lparr>sb_sh := sh', sb_p := p'\<rparr>)"
proof -
  have "sb_queues (r\<lparr>sb_sh := sh', sb_p := p'\<rparr>) k = map_option (\<lambda>xs. xs @ [x]) (sb_queues r k)" for k
    using q by (cases "sb_cs r k") (simp_all add: sb_queues_def)
  then have "sb_queues (r\<lparr>sb_sh := sh', sb_p := p'\<rparr>) = (\<lambda>k. map_option (\<lambda>xs. xs @ [x]) (sb_queues r k))" by (rule ext)
  moreover have "unat (gs_write_cursor sh') + (n + 2) * capacity_of (gs_mask sh') < word_span"
    using inv need by (simp add: sb_inv_def e)
  ultimately show ?thesis using inv ok e(1) by (simp add: sb_exec_spec_def sb_inv_def)
qed

text \<open>A step of consumer \<open>k\<close> that receives \<open>vs\<close>.\<close>

lemma sb_exec_consumer:
  assumes inv: "sb_inv (Suc n) r" and c: "sb_cs r k = Some c"
    and st: "gate_cstep (sb_sh r) c sh' c'" and v: "bytes_ok (sb_view (sb_sh r) c')"
    and q: "sb_pending (sb_sh r) c = vs @ sb_pending (sb_sh r) c'"
    and ev: "ev = Received k vs \<or> vs = [] \<and> (ev = Quiet \<or> sb_pending (sb_sh r) c = [] \<and> ev \<in> {Empty k, Closed_seen k})"
  shows "sb_exec_spec n ev r (r\<lparr>sb_sh := sh', sb_cs := (sb_cs r)(k \<mapsto> c')\<rparr>)"
proof -
  let ?r' = "r\<lparr>sb_sh := sh', sb_cs := (sb_cs r)(k \<mapsto> c')\<rparr>"
  have ok: "sb_sound (sb_sh r) (sb_p r) (sb_cs r)" and nx: "\<forall>k. sb_next r \<le> k \<longrightarrow> sb_cs r k = None"
    and sp: "unat (gs_write_cursor (sb_sh r)) + (Suc n + 2) * capacity_of (gs_mask (sb_sh r)) < word_span"
    using inv by (simp_all add: sb_inv_def)
  note W = gate_cstep_words [OF st]
  have S: "sb_sound sh' (sb_p r) ((sb_cs r)(k \<mapsto> c'))" by (rule sb_cstep_ok [OF ok c st v])
  have pend: "sb_pending sh' = sb_pending (sb_sh r)" by (rule ext) (simp add: sb_pending_def W(6))
  have k: "k < sb_next r" using nx c by (metis not_le option.distinct(1))
  have i: "sb_inv n ?r'" using S W(1,2) nx k sp by (auto simp: sb_inv_def)
  have qs: "sb_queues ?r' = (sb_queues r)(k \<mapsto> sb_pending (sb_sh r) c')"
    by (rule ext) (simp add: sb_queues_def pend)
  have qk: "sb_queues r k = Some (vs @ sb_pending (sb_sh r) c')" using c q by (simp add: sb_queues_def)
  have "mc_spec ev (sb_queues r) (sb_queues ?r')"
    using ev qk q unfolding qs by (auto simp: fun_upd_idem)
  then show ?thesis using i W(1) ev by (auto simp: sb_exec_spec_def)
qed

text \<open>What the producer reserves for a legal message.\<close>

lemma sb_reserve:
  assumes inv: "sb_inv (Suc n) r" and legal: "sb_legal r x"
  obtains pad need free s p1 where "sb_frame (of_nat (length x)) (sb_p r) = Inr (pad, need)"
    and "sb_has_space need (sb_sh r) (sb_p r) = Inr (free, (sb_sh r)\<lparr>sbs_starving := s\<rparr>, p1)"
    and "sb_sound ((sb_sh r)\<lparr>sbs_starving := s\<rparr>) p1 (sb_cs r)"
    and "sb_frame (of_nat (length x)) p1 = Inr (pad, need)" and "gp_next_seq p1 = gp_next_seq (sb_p r)"
    and "free \<Longrightarrow> cdist (gp_cached_min p1) (gp_next_seq p1) + unat need
           \<le> capacity_of (gs_mask ((sb_sh r)\<lparr>sbs_starving := s\<rparr>))"
    and "unat (gp_next_seq p1) + unat need + 2 * capacity_of (gs_mask ((sb_sh r)\<lparr>sbs_starving := s\<rparr>)) < word_span"
    and "unat need < capacity_of (gs_mask (sb_sh r))"
    and "length x \<le> unat (max_message_len (gs_mask ((sb_sh r)\<lparr>sbs_starving := s\<rparr>) + 1))"
    and "sb_exec_spec n Quiet r (r\<lparr>sb_sh := (sb_sh r)\<lparr>sbs_starving := s\<rparr>, sb_p := p1\<rparr>)"
    and "\<And>c. sb_pending ((sb_sh r)\<lparr>sbs_starving := s\<rparr>) c = sb_pending (sb_sh r) c"
    and "free \<longleftrightarrow> \<not> gate_blocked (sb_p r) (capacity_of (gs_mask (sb_sh r))) (unat need) (sb_cs r)"
    and "\<not> free \<Longrightarrow> s = need" and "need \<le> max_record_span (gs_mask (sb_sh r) + 1)"
    and "0 < need"
proof -
  let ?sh = "sb_sh r" and ?cs = "sb_cs r" and ?len = "of_nat (length x) :: usize"
  have ok: "sb_sound ?sh (sb_p r) ?cs" using inv by (simp add: sb_inv_def)
  note S = sb_soundD [OF ok]
  have lg: "length x \<le> unat (max_message_len (gs_mask ?sh + 1))" using legal by (simp add: sb_legal_def)
  have "unat (max_message_len (gs_mask ?sh + 1)) < word_span" by simp
  then have ul: "unat ?len = length x" using lg unat_of_nat_span le_less_trans by blast
  have leg: "unat ?len \<le> unat (max_message_len (gs_mask ?sh + 1))" using ul lg by simp
  obtain pad need where F: "sb_frame ?len (sb_p r) = Inr (pad, need)" "0 < need"
    "unat need < capacity_of (gs_mask ?sh)" "need \<le> max_record_span (gs_mask ?sh + 1)"
    using sb_frame_ok [OF ok leg] by metis
  obtain free s p1 where H: "sb_has_space need ?sh (sb_p r) = Inr (free, ?sh\<lparr>sbs_starving := s\<rparr>, p1)"
    "sb_sound (?sh\<lparr>sbs_starving := s\<rparr>) p1 ?cs" "gp_next_seq p1 = gp_next_seq (sb_p r)"
    "gp_mask p1 = gp_mask (sb_p r)"
    "free \<longleftrightarrow> \<not> gate_blocked (sb_p r) (capacity_of (gs_mask ?sh)) (unat need) ?cs"
    "free \<Longrightarrow> cdist (gp_cached_min p1) (gp_next_seq (sb_p r)) + unat need \<le> capacity_of (gs_mask ?sh)"
    "\<not> free \<Longrightarrow> s = need"
    by (rule sb_has_space_ok [OF ok F(2-4)]) blast
  have f1: "sb_frame ?len p1 = Inr (pad, need)" using F(1) unfolding sb_frame_def H(3,4) .
  have sp: "unat (gs_write_cursor ?sh) + (Suc n + 2) * capacity_of (gs_mask ?sh) < word_span"
    using inv by (simp add: sb_inv_def)
  have span: "unat (gp_next_seq p1) + unat need + 2 * capacity_of (gs_mask (?sh\<lparr>sbs_starving := s\<rparr>)) < word_span"
    using sp F(3) H(3) S(10) by simp
  have pend: "sb_pending (?sh\<lparr>sbs_starving := s\<rparr>) c = sb_pending ?sh c" for c
    unfolding sb_pending_def by (rule arg_cong [where f = bytes_contents], rule sb_view_cong) simp_all
  have Q: "sb_exec_spec n Quiet r (r\<lparr>sb_sh := ?sh\<lparr>sbs_starving := s\<rparr>, sb_p := p1\<rparr>)"
    by (rule sb_exec_same [OF inv H(2) pend]) simp_all
  show ?thesis
    by (rule that [OF F(1) H(1,2) f1 H(3) _ span F(3) _ Q pend H(5,7) F(4,2)]) (use H(3,6) lg in simp_all)
qed

text \<open>Every call does what the contract says.\<close>

lemma sb_exec_push:
  assumes inv: "sb_inv (Suc n) r"
  shows "\<exists>ev r'. sb_exec (Sb_push m) r = Inr (ev, r') \<and> sb_exec_spec n ev r r'"
proof -
  let ?sh = "sb_sh r" and ?cs = "sb_cs r"
  have ok: "sb_sound ?sh (sb_p r) ?cs" and nx: "\<forall>k. sb_next r \<le> k \<longrightarrow> ?cs k = None"
    and sp: "unat (gs_write_cursor ?sh) + (Suc n + 2) * capacity_of (gs_mask ?sh) < word_span"
    using inv by (simp_all add: sb_inv_def)
  note quiet = sb_exec_quiet [OF inv]
  show ?thesis
  proof (cases "gs_closed ?sh \<noteq> 0 \<or> \<not> sb_legal r m")
    case True
    then show ?thesis using quiet by auto
  next
    case False
    then have legal: "sb_legal r m" by simp
    obtain pad need free s p1 where R: "sb_frame (of_nat (length m)) (sb_p r) = Inr (pad, need)"
      "sb_has_space need ?sh (sb_p r) = Inr (free, ?sh\<lparr>sbs_starving := s\<rparr>, p1)"
      "sb_sound (?sh\<lparr>sbs_starving := s\<rparr>) p1 ?cs" "sb_frame (of_nat (length m)) p1 = Inr (pad, need)"
      "free \<Longrightarrow> cdist (gp_cached_min p1) (gp_next_seq p1) + unat need
         \<le> capacity_of (gs_mask (?sh\<lparr>sbs_starving := s\<rparr>))"
      "unat (gp_next_seq p1) + unat need + 2 * capacity_of (gs_mask (?sh\<lparr>sbs_starving := s\<rparr>)) < word_span"
      "unat need < capacity_of (gs_mask ?sh)"
      "length m \<le> unat (max_message_len (gs_mask (?sh\<lparr>sbs_starving := s\<rparr>) + 1))"
      "sb_exec_spec n Quiet r (r\<lparr>sb_sh := ?sh\<lparr>sbs_starving := s\<rparr>, sb_p := p1\<rparr>)"
      "\<And>c. sb_pending (?sh\<lparr>sbs_starving := s\<rparr>) c = sb_pending ?sh c"
      by (rule sb_reserve [OF inv legal]) blast
    show ?thesis
    proof (cases free)
      case f: False
      then show ?thesis using False R(1,2,9) by (simp add: sb_try_push_def)
    next
      case f: True
      obtain sh' p' where W: "sb_write_frame pad (of_nat (length m)) (Some m) (?sh\<lparr>sbs_starving := s\<rparr>) p1 = Inr (sh', p')"
        "sb_sound sh' p' ?cs" "\<And>k c. ?cs k = Some c \<Longrightarrow> sb_pending sh' c = sb_pending (?sh\<lparr>sbs_starving := s\<rparr>) c @ [m]"
        "gs_mask sh' = gs_mask (?sh\<lparr>sbs_starving := s\<rparr>)"
        "unat (gs_write_cursor sh') = unat (gs_write_cursor (?sh\<lparr>sbs_starving := s\<rparr>)) + unat need"
        using sb_write_ok [OF R(3,8,4) R(5) [OF f] R(6), of "Some m"] by metis
      have "sb_exec_spec n (Published m) r (r\<lparr>sb_sh := sh', sb_p := p'\<rparr>)"
        by (rule sb_exec_published [OF inv W(2) _ _ _ R(7)]) (use W(3-5) R(10) in simp_all)
      then show ?thesis using False f R(1,2) W(1) by (simp add: sb_try_push_def)
    qed
  qed
qed

lemma sb_exec_claim:
  assumes inv: "sb_inv (Suc n) r"
  shows "\<exists>ev r'. sb_exec (Sb_claim m keep) r = Inr (ev, r') \<and> sb_exec_spec n ev r r'"
proof -
  let ?sh = "sb_sh r" and ?cs = "sb_cs r"
  have ok: "sb_sound ?sh (sb_p r) ?cs" and nx: "\<forall>k. sb_next r \<le> k \<longrightarrow> ?cs k = None"
    and sp: "unat (gs_write_cursor ?sh) + (Suc n + 2) * capacity_of (gs_mask ?sh) < word_span"
    using inv by (simp_all add: sb_inv_def)
  note quiet = sb_exec_quiet [OF inv]
  show ?thesis
  proof (cases "gs_closed ?sh \<noteq> 0 \<or> \<not> sb_legal r m")
    case True
    then show ?thesis using quiet by auto
  next
    case False
    then have legal: "sb_legal r m" by simp
    obtain pad need free s p1 where R: "sb_frame (of_nat (length m)) (sb_p r) = Inr (pad, need)"
      "sb_has_space need ?sh (sb_p r) = Inr (free, ?sh\<lparr>sbs_starving := s\<rparr>, p1)"
      "sb_sound (?sh\<lparr>sbs_starving := s\<rparr>) p1 ?cs" "sb_frame (of_nat (length m)) p1 = Inr (pad, need)"
      "free \<Longrightarrow> cdist (gp_cached_min p1) (gp_next_seq p1) + unat need
         \<le> capacity_of (gs_mask (?sh\<lparr>sbs_starving := s\<rparr>))"
      "unat (gp_next_seq p1) + unat need + 2 * capacity_of (gs_mask (?sh\<lparr>sbs_starving := s\<rparr>)) < word_span"
      "unat need < capacity_of (gs_mask ?sh)"
      "length m \<le> unat (max_message_len (gs_mask (?sh\<lparr>sbs_starving := s\<rparr>) + 1))"
      "sb_exec_spec n Quiet r (r\<lparr>sb_sh := ?sh\<lparr>sbs_starving := s\<rparr>, sb_p := p1\<rparr>)"
      "\<And>c. sb_pending (?sh\<lparr>sbs_starving := s\<rparr>) c = sb_pending ?sh c"
      by (rule sb_reserve [OF inv legal]) blast
    let ?sh1 = "?sh\<lparr>sbs_starving := s\<rparr>"
    show ?thesis
    proof (cases free)
      case f: False
      then show ?thesis using False R(1,2,9) by (simp add: sb_try_claim_def)
    next
      case f: True
      obtain buf' where B: "store (sb_payload_ptr pad p1) m (sbs_buffer ?sh1) = Inr buf'"
        "read_bytes (sb_payload_ptr pad p1) (length m) buf' = m"
        "sb_sound (?sh1\<lparr>sbs_buffer := buf'\<rparr>) p1 ?cs"
        "\<And>k c. ?cs k = Some c \<Longrightarrow> sb_pending (?sh1\<lparr>sbs_buffer := buf'\<rparr>) c = sb_pending ?sh1 c"
        using sb_fill_ok [OF R(3,8,4) R(5) [OF f]] by metis
      let ?sh2 = "?sh1\<lparr>sbs_buffer := buf'\<rparr>"
      have st: "sb_slot_deref_mut (\<lambda>_. m) \<lparr>ws_payload = sb_payload_ptr pad p1, ws_pad = pad, ws_len = of_nat (length m)\<rparr> ?sh1
          = Inr ?sh2" using B(1) by (simp add: sb_slot_deref_mut_def)
      have same: "sb_exec_spec n Quiet r (r\<lparr>sb_sh := ?sh2, sb_p := p1\<rparr>)"
        by (rule sb_exec_same [OF inv B(3)]) (use B(4) R(10) in simp_all)
      have lg2: "length m \<le> unat (max_message_len (gs_mask ?sh2 + 1))" using R(8) by simp
      have fit2: "cdist (gp_cached_min p1) (gp_next_seq p1) + unat need \<le> capacity_of (gs_mask ?sh2)"
        using R(5) [OF f] by simp
      have span2: "unat (gp_next_seq p1) + unat need + 2 * capacity_of (gs_mask ?sh2) < word_span"
        using R(6) by simp
      have rb: "read_bytes (sb_payload_ptr pad p1) (length m) (sbs_buffer ?sh2) = m" using B(2) by simp
      obtain sh' p' where W: "sb_write_frame pad (of_nat (length m)) None ?sh2 p1 = Inr (sh', p')"
        "sb_sound sh' p' ?cs" "\<And>k c. ?cs k = Some c \<Longrightarrow> sb_pending sh' c = sb_pending ?sh2 c @ [m]"
        "gs_mask sh' = gs_mask ?sh2"
        "unat (gs_write_cursor sh') = unat (gs_write_cursor ?sh2) + unat need"
        using sb_write_ok [OF B(3) lg2 R(4) fit2 span2, of None] rb by metis
      have "sb_exec_spec n (Published m) r (r\<lparr>sb_sh := sh', sb_p := p'\<rparr>)"
        by (rule sb_exec_published [OF inv W(2) _ _ _ R(7)]) (use W(3-5) B(4) R(10) in simp_all)
      then show ?thesis
        using False f R(1,2) st same W(1) by (cases keep) (simp_all add: sb_try_claim_def sb_commit_def)
    qed
  qed
qed

lemma sb_exec_subscribe:
  assumes inv: "sb_inv (Suc n) r"
  shows "\<exists>ev r'. sb_exec Sb_subscribe r = Inr (ev, r') \<and> sb_exec_spec n ev r r'"
proof -
  let ?sh = "sb_sh r" and ?cs = "sb_cs r"
  have ok: "sb_sound ?sh (sb_p r) ?cs" and nx: "\<forall>k. sb_next r \<le> k \<longrightarrow> ?cs k = None"
    and sp: "unat (gs_write_cursor ?sh) + (Suc n + 2) * capacity_of (gs_mask ?sh) < word_span"
    using inv by (simp_all add: sb_inv_def)
  note quiet = sb_exec_quiet [OF inv]
  obtain res sh' where g: "sb_subscribe ?sh = (res, sh')" by (rule prod.exhaust)
  show ?thesis
  proof (cases res)
    case (Inl e)
    then show ?thesis using g quiet by simp
  next
    case (Inr c)
    have k: "?cs (sb_next r) = None" using nx by simp
    note S = sb_subscribe_ok [OF ok k g [unfolded Inr]]
    let ?r' = "r\<lparr>sb_sh := sh', sb_cs := ?cs(sb_next r \<mapsto> c), sb_next := Suc (sb_next r)\<rparr>"
    have pend: "sb_pending sh' = sb_pending ?sh" using S(2) by (rule ext)
    have q: "sb_queues ?r' = (sb_queues r)(sb_next r \<mapsto> [])"
      using S(3) unfolding pend by (intro ext) (simp add: sb_queues_def pend)
    have "sb_exec_spec n (Joined (sb_next r)) r ?r'"
      using S(1,4-6) q nx sp k by (auto simp: sb_exec_spec_def sb_inv_def sb_queues_def)
    then show ?thesis using g Inr by simp
  qed
qed

lemma sb_exec_pop:
  assumes inv: "sb_inv (Suc n) r"
  shows "\<exists>ev r'. sb_exec (Sb_pop k keep) r = Inr (ev, r') \<and> sb_exec_spec n ev r r'"
proof -
  let ?sh = "sb_sh r" and ?cs = "sb_cs r"
  have ok: "sb_sound ?sh (sb_p r) ?cs" and nx: "\<forall>k. sb_next r \<le> k \<longrightarrow> ?cs k = None"
    and sp: "unat (gs_write_cursor ?sh) + (Suc n + 2) * capacity_of (gs_mask ?sh) < word_span"
    using inv by (simp_all add: sb_inv_def)
  note quiet = sb_exec_quiet [OF inv]
  show ?thesis
  proof (cases "?cs k")
    case None
    then show ?thesis using quiet by simp
  next
    case (Some c)
    obtain res c1 where T: "sb_try_pop (\<lambda>s. s) ?sh c = Inr (res, ?sh, c1)" "gate_cstep ?sh c ?sh c1"
      "bytes_ok (sb_view ?sh c1)" "sb_pending ?sh c1 = sb_pending ?sh c" "sb_pop_spec ?sh c c1 res"
      by (rule sb_try_pop_ok [OF ok Some]) blast
    have p0: "sb_pending ?sh c = [] @ sb_pending ?sh c1" using T(4) by simp
    note E = sb_exec_consumer [OF inv Some T(2,3) p0]
    show ?thesis
    proof (cases res)
      case (Popped g)
      obtain rest where P: "sb_pending ?sh c = sb_msg_deref g ?sh # rest"
        "\<And>sh' c2. sb_msg_drop g ?sh c1 = (sh', c2) \<Longrightarrow>
           gate_cstep ?sh c sh' c2 \<and> bytes_ok (sb_view ?sh c2) \<and> sb_pending ?sh c2 = rest"
        using T(5) Popped by (auto simp: sb_pop_spec_def)
      obtain sh' c2 where D: "sb_msg_drop g ?sh c1 = (sh', c2)" by (rule prod.exhaust)
      have G: "gate_cstep ?sh c sh' c2" "bytes_ok (sb_view ?sh c2)"
        and pr: "sb_pending ?sh c = [sb_msg_deref g ?sh] @ sb_pending ?sh c2" using P D by auto
      have "sb_exec_spec n (Received k [sb_msg_deref g ?sh]) r (r\<lparr>sb_sh := sh', sb_cs := ?cs(k \<mapsto> c2)\<rparr>)"
        by (rule sb_exec_consumer [OF inv Some G pr]) simp
      then show ?thesis using T(1) Popped D E [of Quiet] Some by (cases keep) simp_all
    next
      case Pop_empty
      then have "sb_pending ?sh c = []" using T(5) by (simp add: sb_pop_spec_def)
      then show ?thesis using T(1) Pop_empty E [of "Empty k"] Some by simp
    next
      case Pop_closed
      then have "sb_pending ?sh c = []" using T(5) by (simp add: sb_pop_spec_def)
      then show ?thesis using T(1) Pop_closed E [of "Closed_seen k"] Some by simp
    next
      case Pop_unwound
      then show ?thesis using T(5) by (simp add: sb_pop_spec_def)
    qed
  qed
qed

lemma sb_exec_drain:
  assumes inv: "sb_inv (Suc n) r"
  shows "\<exists>ev r'. sb_exec (Sb_drain k unwinds) r = Inr (ev, r') \<and> sb_exec_spec n ev r r'"
proof -
  let ?sh = "sb_sh r" and ?cs = "sb_cs r"
  have ok: "sb_sound ?sh (sb_p r) ?cs" and nx: "\<forall>k. sb_next r \<le> k \<longrightarrow> ?cs k = None"
    and sp: "unat (gs_write_cursor ?sh) + (Suc n + 2) * capacity_of (gs_mask ?sh) < word_span"
    using inv by (simp_all add: sb_inv_def)
  note quiet = sb_exec_quiet [OF inv]
  show ?thesis
  proof (cases "?cs k")
    case None
    then show ?thesis using quiet by simp
  next
    case (Some c)
    obtain ys sh' c' where T: "sb_drain (length (sbs_buffer ?sh)) unwinds ?sh c = Some (Inr (ys, sh', c'))"
      "gate_cstep ?sh c sh' c'" "bytes_ok (sb_view ?sh c')" "sb_pending ?sh c = ys @ sb_pending ?sh c'"
      using sb_drain_ok [OF ok Some order_refl] by metis
    have "sb_exec_spec n (Received k ys) r (r\<lparr>sb_sh := sh', sb_cs := ?cs(k \<mapsto> c')\<rparr>)"
      by (rule sb_exec_consumer [OF inv Some T(2-4)]) simp
    then show ?thesis using T(1) Some by simp
  qed
qed

lemma sb_exec_leave:
  assumes inv: "sb_inv (Suc n) r"
  shows "\<exists>ev r'. sb_exec (Sb_leave k) r = Inr (ev, r') \<and> sb_exec_spec n ev r r'"
proof -
  let ?sh = "sb_sh r" and ?cs = "sb_cs r"
  have ok: "sb_sound ?sh (sb_p r) ?cs" and nx: "\<forall>k. sb_next r \<le> k \<longrightarrow> ?cs k = None"
    and sp: "unat (gs_write_cursor ?sh) + (Suc n + 2) * capacity_of (gs_mask ?sh) < word_span"
    using inv by (simp_all add: sb_inv_def)
  note quiet = sb_exec_quiet [OF inv]
  show ?thesis
  proof (cases "?cs k")
    case None
    then show ?thesis using quiet by simp
  next
    case (Some c)
    note L = sb_leave_ok [OF ok Some]
    let ?r' = "r\<lparr>sb_sh := sb_consumer_drop ?sh c, sb_cs := ?cs(k := None)\<rparr>"
    have pend: "sb_pending (sb_consumer_drop ?sh c) = sb_pending ?sh" using L(2) by (rule ext)
    have q: "sb_queues ?r' = (sb_queues r)(k := None)" by (intro ext) (simp add: sb_queues_def pend)
    have "sb_queues r k \<noteq> None" using Some by (simp add: sb_queues_def)
    then have "sb_exec_spec n (Left k) r ?r'"
      using L(1,3-5) q nx sp by (auto simp: sb_exec_spec_def sb_inv_def)
    then show ?thesis using Some by simp
  qed
qed

lemma sb_exec_close:
  assumes inv: "sb_inv (Suc n) r"
  shows "\<exists>ev r'. sb_exec Sb_close r = Inr (ev, r') \<and> sb_exec_spec n ev r r'"
proof -
  let ?sh = "sb_sh r" and ?cs = "sb_cs r"
  have ok: "sb_sound ?sh (sb_p r) ?cs" and nx: "\<forall>k. sb_next r \<le> k \<longrightarrow> ?cs k = None"
    and sp: "unat (gs_write_cursor ?sh) + (Suc n + 2) * capacity_of (gs_mask ?sh) < word_span"
    using inv by (simp_all add: sb_inv_def)
  note quiet = sb_exec_quiet [OF inv]
  note C = sb_close_ok [OF ok]
  have "sb_exec_spec n Shut r (r\<lparr>sb_sh := sb_producer_drop ?sh, sb_p := sb_p r\<rparr>)"
    by (rule sb_exec_same [OF inv C(1) C(2) C(3,4)]) simp
  then show ?thesis by simp
qed

lemma sb_exec_ok:
  assumes "sb_inv (Suc n) r"
  shows "\<exists>ev r'. sb_exec x r = Inr (ev, r') \<and> sb_exec_spec n ev r r'"
  using sb_exec_push [OF assms] sb_exec_claim [OF assms] sb_exec_subscribe [OF assms] sb_exec_pop [OF assms]
    sb_exec_drain [OF assms] sb_exec_leave [OF assms] sb_exec_close [OF assms]
  by (cases x) blast+

interpretation spmcb_mc: numbered_multicast sb_inv sb_queues sb_exec sb_next
proof unfold_locales
  fix n r x assume inv: "sb_inv (Suc n) r"
  show "\<exists>ev r'. sb_exec x r = Inr (ev, r') \<and> sb_inv n r' \<and> mc_spec ev (sb_queues r) (sb_queues r')"
    using sb_exec_ok [OF inv, of x] unfolding sb_exec_spec_def by blast
next
  fix n r x ev r' assume inv: "sb_inv (Suc n) r" and e: "sb_exec x r = Inr (ev, r')"
  show "(\<forall>k. ev = Joined k \<longrightarrow> k = sb_next r) \<and> sb_next r' = (case ev of Joined k \<Rightarrow> Suc k | _ \<Rightarrow> sb_next r)"
    using sb_exec_ok [OF inv, of x] e unfolding sb_exec_spec_def by auto
qed

lemma sb_new_ok:
  assumes new: "sb_new n = Inr r" and m: "(m + 2) * capacity_of (gs_mask (sb_sh r)) < word_span"
  shows "sb_inv m r" and "sb_queues r = [0 \<mapsto> []]" and "sb_next r = 1"
    and "gs_write_cursor (sb_sh r) = 0" and "gs_closed (sb_sh r) = 0"
proof -
  obtain capacity where rc: "round_capacity n MIN_CAPACITY = Inr capacity"
    using new by (auto simp: sb_new_def split: sum.splits)
  have "MIN_CAPACITY = 2 ^ 3" "(3 :: nat) < 64" by (simp_all add: MIN_CAPACITY_def)
  note R = round_capacity_pow2 [OF rc this]
  have cap: "capacity_of (capacity - 1) = unat capacity" by (simp add: capacity_of_def)
  have eight: "8 \<le> capacity_of (capacity - 1)"
    using R(2) unfolding cap by (simp add: word_le_nat_alt MIN_CAPACITY_def)
  have dv: "8 dvd capacity_of (capacity - 1)" by (rule capacity_dvd_8 [OF R(1) eight])
  have len: "8 * unat (capacity div 8) = capacity_of (capacity - 1)"
    using dv unfolding cap by (simp add: unat_div)
  define sh :: spmcb_shared where "sh = \<lparr>gs_mask = capacity - 1, gs_write_cursor = 0, gs_closed = 0,
      gs_registry = [chunk_new], gs_producer_notified = 0, gs_consumer_notified = 0,
      sbs_buffer = replicate (8 * unat (capacity div 8)) 0, sbs_starving = 0\<rparr>"
  define p :: spmcb_producer where "p = \<lparr>gp_mask = capacity - 1, gp_next_seq = 0, gp_cached_min = 0,
      gp_cached_cursors = [], sbp_raised_starving = False\<rparr>"
  obtain res sh1 where g: "sb_subscribe sh = (res, sh1)" by (rule prod.exhaust)
  obtain c where c: "res = Inr c"
    using g by (auto simp: sb_subscribe_def gate_subscribe_def sh_def split: prod.splits)
  have r: "r = \<lparr>sb_sh = sh1, sb_p = p, sb_cs = Map.empty(0 \<mapsto> c), sb_next = 1\<rparr>"
    using new rc g c by (simp add: sb_new_def sh_def p_def Let_def)
  have mk: "gs_mask sh1 = capacity - 1"
    using g c by (auto simp: sb_subscribe_def gate_subscribe_def sh_def split: prod.splits)
  have small: "(m + 2) * capacity_of (capacity - 1) < word_span" using m mk by (simp add: r)
  have two: "2 * capacity_of (capacity - 1) < word_span"
    using small by (simp add: algebra_simps)
  have s0: "sb_sound sh p Map.empty"
  proof (rule sb_soundI)
    show "gate_ok sh p Map.empty"
      using R(1) eight two by (intro gate_ok_fresh) (simp_all add: sh_def p_def)
  qed (use eight len in \<open>simp_all add: sh_def slot_ix_def\<close>)
  note S = sb_subscribe_ok [where k = 0, OF s0 _ g [unfolded c], simplified]
  have w: "gs_write_cursor sh1 = 0" "gs_closed sh1 = 0" using S(5,6) by (simp_all add: sh_def)
  show "sb_inv m r" using S(1) w mk small by (simp add: sb_inv_def r)
  show "sb_queues r = [0 \<mapsto> []]" using S(3) by (auto simp: sb_queues_def r fun_eq_iff)
  show "sb_next r = 1" "gs_write_cursor (sb_sh r) = 0" "gs_closed (sb_sh r) = 0" using w by (simp_all add: r)
qed

section \<open>Properties\<close>

text \<open>
  (C22) Lossless multicast of byte messages. In any run of calls on a new ring no
  call faults or leaves the buffer, and every consumer, the first one and each
  one that subscribes, receives, byte for byte, in order and without a gap or a
  repetition, exactly the messages published while it is attached; what it has
  not received is what its handle still has pending. This holds with padding at
  the end of the buffer, claims that are abandoned after being filled, forgotten
  guards, callbacks of \<open>drain\<close> that panic, departures and the close.
\<close>

theorem sb_multicast:
  assumes new: "sb_new n = Inr r0"
    and short: "(length ops + 2) * capacity_of (gs_mask (sb_sh r0)) < 2 ^ 64"
  shows "\<exists>evs r. mc_run sb_exec ops r0 = Inr (evs, r)
    \<and> (\<exists>rest. mc_audible 0 evs = mc_received 0 evs @ rest
          \<and> (\<forall>q. sb_queues r 0 = Some q \<longrightarrow> rest = q))
    \<and> (\<forall>evs1 k evs2. evs = evs1 @ Joined k # evs2 \<longrightarrow>
          (\<exists>rest. mc_audible k evs2 = mc_received k evs2 @ rest
             \<and> (\<forall>q. sb_queues r k = Some q \<longrightarrow> rest = q)))"
proof -
  note N = sb_new_ok [OF new short [folded word_span_def]]
  obtain evs r where R: "mc_run sb_exec ops r0 = Inr (evs, r)"
    "\<forall>k q. k < sb_next r0 \<longrightarrow> sb_queues r0 k = Some q \<longrightarrow>
       (\<exists>rest. q @ mc_audible k evs = mc_received k evs @ rest
          \<and> (\<forall>q'. sb_queues r k = Some q' \<longrightarrow> rest = q'))"
    "\<forall>evs1 k evs2. evs = evs1 @ Joined k # evs2 \<longrightarrow>
       (\<exists>rest. mc_audible k evs2 = mc_received k evs2 @ rest
          \<and> (\<forall>q'. sb_queues r k = Some q' \<longrightarrow> rest = q'))"
    using spmcb_mc.run_everyone [OF N(1) order_refl] by blast
  have "0 < sb_next r0" "sb_queues r0 0 = Some []" using N(2,3) by simp_all
  then have "\<exists>rest. [] @ mc_audible 0 evs = mc_received 0 evs @ rest \<and> (\<forall>q'. sb_queues r 0 = Some q' \<longrightarrow> rest = q')"
    using R(2) by blast
  then show ?thesis using R(1,3) by auto
qed

definition sb16 :: spmcb where
  "sb16 = projr (sb_new 16)"

lemma sb16_new: "sb_new 16 = Inr sb16"
proof -
  have "\<not> isl (sb_new 16)" by code_simp
  then show ?thesis unfolding sb16_def by (rule sum.collapse(2) [symmetric])
qed

lemma sb16_capacity: "capacity_of (gs_mask (sb_sh sb16)) = 16"
  by code_simp

text \<open>A run over the wrap: records of 8 bytes, then one of 4 behind a forgotten guard.\<close>

definition sb_demo :: "spmcb_op list" where
  "sb_demo = [Sb_push [1, 2, 3], Sb_subscribe, Sb_push [4], Sb_pop 0 True, Sb_push [5, 6], Sb_drain 0 (\<lambda>_. False),
     Sb_pop 1 False, Sb_claim [7, 8, 9, 10] True, Sb_leave 0, Sb_close, Sb_pop 1 False, Sb_pop 1 False]"

theorem sb_multicast_witness:
  "\<exists>evs r. mc_run sb_exec sb_demo sb16 = Inr (evs, r)
    \<and> (\<exists>rest. mc_audible 0 evs = mc_received 0 evs @ rest)"
proof -
  have "(length sb_demo + 2) * capacity_of (gs_mask (sb_sh sb16)) < 2 ^ 64"
    by (simp add: sb16_capacity sb_demo_def)
  from sb_multicast [OF sb16_new this] show ?thesis by blast
qed

text \<open>
  The outcomes of a push. A message over the limit panics and nothing
  changes. Any other message is refused exactly when some attached consumer has
  not released enough for its record and padding; then the queues and every
  shared word are as before except that the starving word holds exactly the span
  asked for, which leaves \<open>capacity - span\<close> without underflow. Otherwise it is
  appended to the queue of every attached consumer. It is never refused when no
  consumer has anything pending.
\<close>

theorem sb_push_outcomes:
  assumes inv: "sb_inv (Suc n) r" and slice: "length x < 2 ^ 64"
  shows "(\<not> sb_legal r x \<longrightarrow> sb_try_push x (sb_sh r) (sb_p r) = Inl Panic)
    \<and> (sb_legal r x \<longrightarrow>
        (\<exists>pad need pushed sh p. sb_frame (of_nat (length x)) (sb_p r) = Inr (pad, need)
          \<and> sb_try_push x (sb_sh r) (sb_p r) = Inr (pushed, sh, p)
          \<and> unat need + 4 \<le> capacity_of (gs_mask (sb_sh r))
          \<and> (pushed \<longleftrightarrow> \<not> gate_blocked (sb_p r) (capacity_of (gs_mask (sb_sh r))) (unat need) (sb_cs r))
          \<and> (pushed \<longrightarrow> (\<forall>k. sb_queues (r\<lparr>sb_sh := sh, sb_p := p\<rparr>) k
                              = map_option (\<lambda>xs. xs @ [x]) (sb_queues r k)))
          \<and> (\<not> pushed \<longrightarrow> sh = (sb_sh r)\<lparr>sbs_starving := need\<rparr> \<and> need \<noteq> 0)
          \<and> ((\<forall>k c. sb_cs r k = Some c \<longrightarrow> sb_pending (sb_sh r) c = []) \<longrightarrow> pushed)))"
proof (intro conjI impI)
  assume "\<not> sb_legal r x"
  moreover have "unat (of_nat (length x) :: usize) = length x"
    by (rule unat_of_nat_span) (use slice in \<open>simp add: word_span_def\<close>)
  moreover have "gp_mask (sb_p r) = gs_mask (sb_sh r)"
    using sb_soundD(9) inv unfolding sb_inv_def by blast
  ultimately have "sb_frame (of_nat (length x)) (sb_p r) = Inl Panic"
    by (simp add: sb_frame_def sb_legal_def word_le_nat_alt)
  then show "sb_try_push x (sb_sh r) (sb_p r) = Inl Panic" by (simp add: sb_try_push_def)
next
  assume legal: "sb_legal r x"
  let ?sh = "sb_sh r" and ?cs = "sb_cs r" and ?cap = "capacity_of (gs_mask (sb_sh r))"
  have ok: "sb_sound ?sh (sb_p r) ?cs" using inv by (simp add: sb_inv_def)
  note S = sb_soundD [OF ok]
  obtain pad need free s p1 where R: "sb_frame (of_nat (length x)) (sb_p r) = Inr (pad, need)"
    "sb_has_space need ?sh (sb_p r) = Inr (free, ?sh\<lparr>sbs_starving := s\<rparr>, p1)"
    "sb_sound (?sh\<lparr>sbs_starving := s\<rparr>) p1 ?cs" "sb_frame (of_nat (length x)) p1 = Inr (pad, need)"
    "gp_next_seq p1 = gp_next_seq (sb_p r)"
    "free \<Longrightarrow> cdist (gp_cached_min p1) (gp_next_seq p1) + unat need
       \<le> capacity_of (gs_mask (?sh\<lparr>sbs_starving := s\<rparr>))"
    "unat (gp_next_seq p1) + unat need + 2 * capacity_of (gs_mask (?sh\<lparr>sbs_starving := s\<rparr>)) < word_span"
    "unat need < ?cap" "length x \<le> unat (max_message_len (gs_mask (?sh\<lparr>sbs_starving := s\<rparr>) + 1))"
    "\<And>c. sb_pending (?sh\<lparr>sbs_starving := s\<rparr>) c = sb_pending ?sh c"
    "free \<longleftrightarrow> \<not> gate_blocked (sb_p r) ?cap (unat need) ?cs" "\<not> free \<Longrightarrow> s = need"
    "need \<le> max_record_span (gs_mask ?sh + 1)" "0 < need"
    by (rule sb_reserve [OF inv legal]) blast
  have bound: "unat need + 4 \<le> ?cap"
    using R(13) max_record_span_nat(2) [OF S(8,3)] unfolding word_le_nat_alt by linarith
  have idle: "free" if a: "\<forall>k c. ?cs k = Some c \<longrightarrow> sb_pending ?sh c = []"
  proof -
    have "\<not> gate_blocked (sb_p r) ?cap (unat need) ?cs"
    proof
      assume "gate_blocked (sb_p r) ?cap (unat need) ?cs"
      then obtain k c where k: "?cs k = Some c"
        "?cap < unat (gp_next_seq (sb_p r)) - unat (gc_published c) + unat need"
        unfolding gate_blocked_def by blast
      note B = bytes_empty_caught_up [OF S(7) [OF k(1)]]
      have "gc_published c = gs_write_cursor ?sh"
        using B a k(1) by (auto simp: sb_pending_def queued_def deferred_def)
      then show False using k(2) R(8) S(10) by simp
    qed
    then show ?thesis using R(11) by simp
  qed
  show "\<exists>pad need pushed sh p. sb_frame (of_nat (length x)) (sb_p r) = Inr (pad, need)
      \<and> sb_try_push x ?sh (sb_p r) = Inr (pushed, sh, p) \<and> unat need + 4 \<le> ?cap
      \<and> (pushed \<longleftrightarrow> \<not> gate_blocked (sb_p r) ?cap (unat need) ?cs)
      \<and> (pushed \<longrightarrow> (\<forall>k. sb_queues (r\<lparr>sb_sh := sh, sb_p := p\<rparr>) k = map_option (\<lambda>xs. xs @ [x]) (sb_queues r k)))
      \<and> (\<not> pushed \<longrightarrow> sh = ?sh\<lparr>sbs_starving := need\<rparr> \<and> need \<noteq> 0)
      \<and> ((\<forall>k c. ?cs k = Some c \<longrightarrow> sb_pending ?sh c = []) \<longrightarrow> pushed)"
  proof (cases free)
    case True
    obtain sh' p' where W: "sb_write_frame pad (of_nat (length x)) (Some x) (?sh\<lparr>sbs_starving := s\<rparr>) p1 = Inr (sh', p')"
      "\<And>k c. ?cs k = Some c \<Longrightarrow> sb_pending sh' c = sb_pending (?sh\<lparr>sbs_starving := s\<rparr>) c @ [x]"
      using sb_write_ok [OF R(3,9,4) R(6) [OF True] R(7), of "Some x"] by metis
    have q: "sb_queues (r\<lparr>sb_sh := sh', sb_p := p'\<rparr>) k = map_option (\<lambda>xs. xs @ [x]) (sb_queues r k)" for k
      using W(2) R(10) by (cases "?cs k") (simp_all add: sb_queues_def)
    have "sb_try_push x ?sh (sb_p r) = Inr (True, sh', p')"
      using R(1,2) True W(1) by (simp add: sb_try_push_def)
    then show ?thesis using R(1,11) bound q True by blast
  next
    case False
    have "sb_try_push x ?sh (sb_p r) = Inr (False, ?sh\<lparr>sbs_starving := need\<rparr>, p1)"
      using R(1,2,12) False by (simp add: sb_try_push_def)
    moreover have "need \<noteq> 0" using R(14) by simp
    ultimately show ?thesis using R(1,11) bound False idle by blast
  qed
qed

text \<open>A full ring of two 8-byte records.\<close>

definition sb16_full :: spmcb where
  "sb16_full = (case mc_run sb_exec [Sb_push [1, 2, 3], Sb_push [4, 5, 6]] sb16 of Inr (evs, r) \<Rightarrow> r)"

lemma sb16_full_inv: "sb_inv 5 sb16_full"
proof -
  have "(7 + 2) * capacity_of (gs_mask (sb_sh sb16)) < word_span"
    by (simp add: sb16_capacity word_span_def)
  note N = sb_new_ok(1) [OF sb16_new this]
  obtain evs r where "mc_run sb_exec [Sb_push [1, 2, 3], Sb_push [4, 5, 6]] sb16 = Inr (evs, r)" "sb_inv 5 r"
    using spmcb_mc.run_total [OF N, of "[Sb_push [1, 2, 3], Sb_push [4, 5, 6]]"] by auto
  then show ?thesis by (simp add: sb16_full_def)
qed

theorem sb_push_outcomes_witness:
  "\<exists>p. sb_try_push [7] (sb_sh sb16_full) (sb_p sb16_full) = Inr (False, (sb_sh sb16_full)\<lparr>sbs_starving := 8\<rparr>, p)"
proof -
  have inv: "sb_inv (Suc 4) sb16_full" using sb16_full_inv by simp
  have l: "sb_legal sb16_full [7]" by code_simp
  have sl: "length [7 :: u8] < 2 ^ 64" by simp
  have f: "sb_frame (of_nat (length [7 :: u8])) (sb_p sb16_full) = Inr (0, 8)" by code_simp
  have b: "gate_blocked (sb_p sb16_full) (capacity_of (gs_mask (sb_sh sb16_full))) (unat (8 :: u64)) (sb_cs sb16_full)"
  proof -
    have "\<exists>c. sb_cs sb16_full 0 = Some c \<and> capacity_of (gs_mask (sb_sh sb16_full))
        < unat (gp_next_seq (sb_p sb16_full)) - unat (gc_published c) + unat (8 :: u64)"
    proof (rule exI [of _ "the (sb_cs sb16_full 0)"], intro conjI)
      have "sb_cs sb16_full 0 \<noteq> None" by code_simp
      then show "sb_cs sb16_full 0 = Some (the (sb_cs sb16_full 0))" by simp
      show "capacity_of (gs_mask (sb_sh sb16_full))
          < unat (gp_next_seq (sb_p sb16_full)) - unat (gc_published (the (sb_cs sb16_full 0))) + unat (8 :: u64)"
        by code_simp
    qed
    then show ?thesis unfolding gate_blocked_def by blast
  qed
  from sb_push_outcomes [OF inv sl] l f b show ?thesis by auto
qed

text \<open>
  The lag-filtered release. While a push of \<open>span\<close> bytes is blocked, a
  consumer whose view of the write cursor is current and that is in the way
  publishes its progress with its very next released message, so that the
  producer does not wait for a batch; a consumer that the filter lets through
  publishes only when it has caught up or a batch is due, and then changes no
  shared word. Released progress is never lost: the record's bytes are counted
  once, published or not.
\<close>

theorem sb_starving_release:
  assumes inv: "sb_inv n r" and c: "sb_cs r k = Some c" and span: "sbs_starving (sb_sh r) \<noteq> 0"
    and fresh: "gc_write_cache c = gs_write_cursor (sb_sh r)"
    and d: "sb_msg_drop g (sb_sh r) c = (sh', c')"
  shows "gc_read_cursor c' = gc_read_cursor c + record_len (msg_len g)
    \<and> (capacity_of (gs_mask (sb_sh r))
          < unat (gs_write_cursor (sb_sh r)) - unat (gc_published c) + unat (sbs_starving (sb_sh r)) \<longrightarrow>
        gc_published c' = gc_read_cursor c'
        \<and> slot_word (gs_registry sh') (gc_chunk c) (gc_slot c) = guard_sentinel (gc_read_cursor c'))
    \<and> (unat (gs_write_cursor (sb_sh r)) - unat (gc_published c) + unat (sbs_starving (sb_sh r))
          < capacity_of (gs_mask (sb_sh r))
        \<and> gc_read_cursor c' \<noteq> gs_write_cursor (sb_sh r)
        \<and> gc_read_cursor c' - gc_published c < publish_batch_bytes (gs_mask (sb_sh r) + 1) \<longrightarrow>
        sh' = sb_sh r \<and> gc_published c' = gc_published c)"
proof -
  let ?sh = "sb_sh r"
  have ok: "sb_sound ?sh (sb_p r) (sb_cs r)" using inv by (simp add: sb_inv_def)
  note S = sb_soundD [OF ok]
  note C = consumer_okD [OF gate_okD(3) [OF S(1) c]]
  let ?lag = "unat (gs_write_cursor ?sh) - unat (gc_published c)" and ?cap = "capacity_of (gs_mask ?sh)"
  let ?s = "sbs_starving ?sh"
  have le: "unat (gc_published c) \<le> unat (gs_write_cursor ?sh)" using C(6-8) S(10) by simp
  have lag: "unat (gc_write_cache c - gc_published c) = ?lag"
    unfolding fresh using cdist_unat [OF le] by (simp add: cdist_def)
  have sc: "unat ?s \<le> ?cap"
    using S(6) max_record_span_nat(2) [OF S(8,3)] unfolding word_le_nat_alt by linarith
  have "?s \<le> gs_mask ?sh + 1" using sc by (simp add: word_le_nat_alt mask_capacity)
  then have cs: "unat (gs_mask ?sh + 1 - ?s) = ?cap - unat ?s" by (simp add: unat_sub mask_capacity)
  have now: "?s \<noteq> 0 \<and> gc_write_cache c - gc_published c \<ge> gs_mask ?sh + 1 - ?s \<longleftrightarrow> ?cap \<le> ?lag + unat ?s"
    using span sc lag cs by (auto simp: word_le_nat_alt)
  define c1 where "c1 = c\<lparr>gc_read_cursor := gc_read_cursor c + record_len (msg_len g)\<rparr>"
  have D: "(sh', c') = (if ?cap \<le> ?lag + unat ?s \<or> gc_read_cursor c1 = gc_write_cache c1
      \<or> gc_read_cursor c1 - gc_published c1 \<ge> publish_batch_bytes (gs_mask ?sh + 1) then gate_flush ?sh c1 else (?sh, c1))"
    using d unfolding sb_msg_drop_def sb_advance_def Let_def c1_def [symmetric] C(1) unfolding now by (rule sym)
  have c1: "gc_read_cursor c1 = gc_read_cursor c + record_len (msg_len g)" "gc_write_cache c1 = gs_write_cursor ?sh"
    "gc_published c1 = gc_published c" "gc_chunk c1 = gc_chunk c" "gc_slot c1 = gc_slot c"
    by (simp_all add: c1_def fresh)
  have rd: "gc_read_cursor c' = gc_read_cursor c1" using D by (auto simp: gate_flush_def split: if_splits)
  have pub: "gc_published c' = gc_read_cursor c' \<and> slot_word (gs_registry sh') (gc_chunk c) (gc_slot c) = guard_sentinel (gc_read_cursor c')"
    if "?cap < ?lag + unat ?s"
  proof -
    have "(sh', c') = gate_flush ?sh c1" using D that by simp
    then show ?thesis
      using slot_word_store [OF owners_okD(1) [OF gate_okD(2) [OF S(1)]] C(2,3)] by (simp add: gate_flush_def c1)
  qed
  have keep: "sh' = ?sh \<and> gc_published c' = gc_published c"
    if a: "?lag + unat ?s < ?cap" "gc_read_cursor c' \<noteq> gs_write_cursor ?sh"
      "gc_read_cursor c' - gc_published c < publish_batch_bytes (gs_mask ?sh + 1)"
  proof -
    have "\<not> publish_batch_bytes (gs_mask ?sh + 1) \<le> gc_read_cursor c1 - gc_published c1"
      using a(3) rd c1(3) by (simp add: not_le)
    then have "(sh', c') = (?sh, c1)" using D a(1,2) rd c1(2) by simp
    then show ?thesis using c1(3) by simp
  qed
  have "gc_read_cursor c' = gc_read_cursor c + record_len (msg_len g)" using rd c1(1) by simp
  moreover have "?lag + unat ?s < ?cap \<and> gc_read_cursor c' \<noteq> gs_write_cursor ?sh
      \<and> gc_read_cursor c' - gc_published c < publish_batch_bytes (gs_mask ?sh + 1) \<longrightarrow>
      sh' = ?sh \<and> gc_published c' = gc_published c"
    by (rule impI, elim conjE) (rule keep)
  ultimately show ?thesis using pub by (intro conjI impI) iprover+
qed

text \<open>The blocked push of one byte into the full ring, and the consumer's first release after it.\<close>

definition sb16_starved :: spmcb where
  "sb16_starved = (case mc_run sb_exec [Sb_push [7], Sb_pop 0 True] sb16_full of Inr (evs, r) \<Rightarrow> r)"

lemma sb16_starved_inv: "sb_inv 3 sb16_starved"
proof -
  obtain evs r where "mc_run sb_exec [Sb_push [7], Sb_pop 0 True] sb16_full = Inr (evs, r)" "sb_inv 3 r"
    using spmcb_mc.run_total [OF sb16_full_inv, of "[Sb_push [7], Sb_pop 0 True]"] by auto
  then show ?thesis by (simp add: sb16_starved_def)
qed

theorem sb_starving_release_witness:
  "gc_published (snd (sb_msg_drop \<lparr>msg_payload = 4, msg_len = 3\<rparr> (sb_sh sb16_starved) (the (sb_cs sb16_starved 0)))) = 8"
proof -
  have n: "sb_cs sb16_starved 0 \<noteq> None" by code_simp
  have c: "sb_cs sb16_starved 0 = Some (the (sb_cs sb16_starved 0))" using n by simp
  have span: "sbs_starving (sb_sh sb16_starved) \<noteq> 0" by code_simp
  have fresh: "gc_write_cache (the (sb_cs sb16_starved 0)) = gs_write_cursor (sb_sh sb16_starved)" by code_simp
  obtain sh' c' where d: "sb_msg_drop \<lparr>msg_payload = 4, msg_len = 3\<rparr> (sb_sh sb16_starved) (the (sb_cs sb16_starved 0))
      = (sh', c')" by (rule prod.exhaust)
  have way: "capacity_of (gs_mask (sb_sh sb16_starved))
      < unat (gs_write_cursor (sb_sh sb16_starved)) - unat (gc_published (the (sb_cs sb16_starved 0)))
        + unat (sbs_starving (sb_sh sb16_starved))" by code_simp
  have rd: "gc_read_cursor (the (sb_cs sb16_starved 0)) + record_len 3 = 8" by code_simp
  from sb_starving_release [OF sb16_starved_inv c span fresh d] way rd show ?thesis unfolding d by simp
qed

end
