(* ===== verification/Shm_Table.thy ===== *)
theory Shm_Table
  imports Lease Gate
begin

text \<open>
  The consumer table of a gating shared-memory ring (\<open>src/src/shm.rs\<close>): one
  control word, cursor word and lease word per slot; the claim of a slot, the
  graceful and the forced detach, the table reset of a recovery, the attach
  functions over a validated region, and the producer's walk over the table
  (\<open>src/src/registry.rs\<close>). The anchor table of the anchored rings is the same
  table behind the same functions.

  Other processes run between the atomic accesses of a function: \<open>env\<close> is the
  list of what they do, one entry taken at every point where they may, and
  nothing more once it is used up.
\<close>

section \<open>Control words\<close>

definition STATE_FREE :: u32 where "STATE_FREE = 0"
definition STATE_ACTIVE :: u32 where "STATE_ACTIVE = 1"
definition STATE_RETIRED :: u32 where "STATE_RETIRED = 2"

definition control_word :: "u32 \<Rightarrow> u32 \<Rightarrow> u64" where
  "control_word epoch state = push_bit 32 (ucast epoch) OR ucast state"

definition control_epoch :: "u64 \<Rightarrow> u32" where
  "control_epoch control = ucast (drop_bit 32 control)"

definition control_state :: "u64 \<Rightarrow> u32" where
  "control_state control = ucast control"

definition control_is_active :: "u64 \<Rightarrow> bool" where
  "control_is_active control \<longleftrightarrow> control_state control = STATE_ACTIVE"

definition slot_guard :: "u64 \<Rightarrow> u64" where
  "slot_guard cursor = (if cursor = DETACHED then cursor - 1 else cursor)"

lemma control_epoch_word [simp]: "control_epoch (control_word e s) = e"
  unfolding control_epoch_def control_word_def
  by (rule bit_word_eqI) (auto simp: bit_simps dest: bit_imp_le_length)

lemma control_state_word [simp]: "control_state (control_word e s) = s"
  unfolding control_state_def control_word_def
  by (rule bit_word_eqI) (auto simp: bit_simps)

lemma control_word_collapse [simp]: "control_word (control_epoch c) (control_state c) = c"
  unfolding control_epoch_def control_word_def control_state_def
  by (rule bit_word_eqI) (auto simp: bit_simps not_less dest: bit_imp_le_length)

lemma control_word_inject [simp]: "control_word e s = control_word e' s' \<longleftrightarrow> e = e' \<and> s = s'"
  by (metis control_epoch_word control_state_word)

lemma control_states_distinct [simp]:
  "STATE_FREE \<noteq> STATE_ACTIVE" "STATE_ACTIVE \<noteq> STATE_FREE" "STATE_FREE \<noteq> STATE_RETIRED"
  "STATE_RETIRED \<noteq> STATE_FREE" "STATE_ACTIVE \<noteq> STATE_RETIRED" "STATE_RETIRED \<noteq> STATE_ACTIVE"
  by (simp_all add: STATE_FREE_def STATE_ACTIVE_def STATE_RETIRED_def)

section \<open>The region\<close>

record table_slot =
  ts_lease :: u64
  ts_control :: u64
  ts_cursor :: u64

text \<open>
  The words of a mapped region these functions use: role leases and generation,
  the producer's published cursor, the closed word and the slots of the table.
\<close>

record table_region =
  tr_header :: region
  tr_tail :: u64
  tr_closed :: u64
  tr_slots :: "table_slot list"

definition set_control :: "nat \<Rightarrow> u64 \<Rightarrow> table_region \<Rightarrow> table_region" where
  "set_control slot w r = r\<lparr>tr_slots := (tr_slots r)[slot := (tr_slots r ! slot)\<lparr>ts_control := w\<rparr>]\<rparr>"

definition set_cursor :: "nat \<Rightarrow> u64 \<Rightarrow> table_region \<Rightarrow> table_region" where
  "set_cursor slot w r = r\<lparr>tr_slots := (tr_slots r)[slot := (tr_slots r ! slot)\<lparr>ts_cursor := w\<rparr>]\<rparr>"

definition set_lease :: "nat \<Rightarrow> u64 \<Rightarrow> table_region \<Rightarrow> table_region" where
  "set_lease slot w r = r\<lparr>tr_slots := (tr_slots r)[slot := (tr_slots r ! slot)\<lparr>ts_lease := w\<rparr>]\<rparr>"

definition tr_generation :: "table_region \<Rightarrow> u64" where
  "tr_generation r = generation (tr_header r)"

definition set_generation :: "u64 \<Rightarrow> table_region \<Rightarrow> table_region" where
  "set_generation g r = r\<lparr>tr_header := (tr_header r)\<lparr>generation := g\<rparr>\<rparr>"

type_synonym table_env = "(table_region \<Rightarrow> table_region) list"

fun interfere :: "table_env \<Rightarrow> table_region \<Rightarrow> table_region \<times> table_env" where
  "interfere [] r = (r, [])"
| "interfere (e # env) r = (e r, env)"

lemma interfere_length: "interfere env r = (r', env') \<Longrightarrow> length env' = length env - 1"
  by (cases env) auto

section \<open>Claiming a slot\<close>

record slot_claim =
  sc_slot :: nat
  sc_epoch :: u32
  sc_token :: u64
  sc_joined :: u64

text \<open>
  The compare-exchange on one control word: \<open>FREE@e\<close> to \<open>ACTIVE@e+1\<close>. The loop
  around it re-examines the slot with the word it lost against; it ends because
  a lost exchange needs another process to move first.
\<close>

definition claim_exchange :: "u64 \<Rightarrow> u64 \<Rightarrow> bool \<times> u64" where
  "claim_exchange current control =
     compare_exchange current (control_word (control_epoch current + 1) STATE_ACTIVE) control"

function claim_slot_loop ::
  "nat \<Rightarrow> u64 \<Rightarrow> table_env \<Rightarrow> table_region \<Rightarrow> u32 option \<times> table_env \<times> table_region" where
  "claim_slot_loop slot current env r =
     (if control_state current \<noteq> STATE_FREE then (None, env, r)
      else (case interfere env r of
              (r1, env1) \<Rightarrow>
                (case claim_exchange current (ts_control (tr_slots r1 ! slot)) of
                   (True, w) \<Rightarrow> (Some (control_epoch current + 1), env1, set_control slot w r1)
                 | (False, fresh) \<Rightarrow> claim_slot_loop slot fresh env1 r1)))"
  by pat_completeness auto
termination
proof (relation "measure (\<lambda>(slot, current, env, r).
    2 * length env + (if current = ts_control (tr_slots r ! slot) then 0 else 1))", goal_cases)
  case 1
  then show ?case by simp
next
  case (2 slot current env r r1 env1 ok fresh)
  then have f: "fresh = ts_control (tr_slots r1 ! slot)" "current \<noteq> fresh"
    by (auto simp: claim_exchange_def compare_exchange_def split: if_splits)
  have i: "interfere env r = (r1, env1)" using 2 by simp
  show ?case
  proof (cases env)
    case Nil
    then have "r1 = r" "env1 = []" using i by simp_all
    then show ?thesis using f Nil by simp
  next
    case (Cons e es)
    then have "length env = Suc (length env1)" using i by simp
    then show ?thesis using f by simp
  qed
qed

declare claim_slot_loop.simps [simp del]

text \<open>After the exchange: provisional cursor, fence, re-read, final cursor, lease.\<close>

definition finish_claim ::
  "u64 \<Rightarrow> nat \<Rightarrow> u32 \<Rightarrow> table_env \<Rightarrow> table_region \<Rightarrow> slot_claim \<times> table_env \<times> table_region" where
  "finish_claim token slot epoch env r =
     (case interfere env r of (r1, env1) \<Rightarrow>
      (let provisional = slot_guard (tr_tail r1) in
       case interfere env1 r1 of (r2, env2) \<Rightarrow>
       case interfere env2 (set_cursor slot provisional r2) of (r3, env3) \<Rightarrow>
       (let joined = tr_tail r3 in
        case interfere env3 r3 of (r4, env4) \<Rightarrow>
        case interfere env4 (set_cursor slot (slot_guard joined) r4) of (r5, env5) \<Rightarrow>
          (\<lparr>sc_slot = slot, sc_epoch = epoch, sc_token = token, sc_joined = joined\<rparr>,
           env5, set_lease slot token r5))))"

fun claim_slots ::
  "u64 \<Rightarrow> nat list \<Rightarrow> table_env \<Rightarrow> table_region \<Rightarrow> slot_claim option \<times> table_env \<times> table_region" where
  "claim_slots token [] env r = (None, env, r)"
| "claim_slots token (slot # slots) env r =
     (case interfere env r of (r1, env1) \<Rightarrow>
      case claim_slot_loop slot (ts_control (tr_slots r1 ! slot)) env1 r1 of
        (None, env2, r2) \<Rightarrow> claim_slots token slots env2 r2
      | (Some epoch, env2, r2) \<Rightarrow>
          (case finish_claim token slot epoch env2 r2 of
             (claim, env3, r3) \<Rightarrow> (Some claim, env3, r3)))"

definition claim_table_slot ::
  "u64 \<Rightarrow> nat \<Rightarrow> table_env \<Rightarrow> table_region \<Rightarrow> slot_claim option \<times> table_env \<times> table_region" where
  "claim_table_slot token max_slots env r = claim_slots token [0..<max_slots] env r"

section \<open>Giving a slot back\<close>

definition exchange_control :: "nat \<Rightarrow> u64 \<Rightarrow> u64 \<Rightarrow> table_region \<Rightarrow> bool \<times> table_region" where
  "exchange_control slot expected new r =
     (case compare_exchange expected new (ts_control (tr_slots r ! slot)) of
        (ok, w) \<Rightarrow> (ok, set_control slot w r))"

definition exchange_lease :: "nat \<Rightarrow> u64 \<Rightarrow> u64 \<Rightarrow> table_region \<Rightarrow> table_region" where
  "exchange_lease slot expected new r =
     set_lease slot (snd (compare_exchange expected new (ts_lease (tr_slots r ! slot)))) r"

definition release_table_claim :: "slot_claim \<Rightarrow> u64 \<Rightarrow> table_region \<Rightarrow> table_region" where
  "release_table_claim claim gen r =
     (if tr_generation r \<noteq> gen then r
      else (let r1 = set_cursor (sc_slot claim) DETACHED r;
                r2 = snd (exchange_control (sc_slot claim) (control_word (sc_epoch claim) STATE_ACTIVE)
                       (control_word (sc_epoch claim) STATE_FREE) r1)
            in exchange_lease (sc_slot claim) (sc_token claim) 0 r2))"

datatype io_error = IO_BrokenPipe | IO_AddrInUse | IO_InvalidInput

definition force_detach_table_slot ::
  "nat \<Rightarrow> u32 \<Rightarrow> table_region \<Rightarrow> (io_error + unit) \<times> table_region" where
  "force_detach_table_slot slot epoch r =
     (case exchange_control slot (control_word epoch STATE_ACTIVE)
             (control_word (epoch + 1) STATE_RETIRED) r of
        (True, r1) \<Rightarrow> (Inr (), r1)
      | (False, r1) \<Rightarrow> (Inl IO_InvalidInput, r1))"

section \<open>Recovery\<close>

text \<open>The largest plausible lag of a registered cursor.\<close>

fun reset_lag :: "nat list \<Rightarrow> u64 \<Rightarrow> u64 \<Rightarrow> u64 \<Rightarrow> table_env \<Rightarrow> table_region
    \<Rightarrow> u64 \<times> table_env \<times> table_region" where
  "reset_lag [] tail capacity max_lag env r = (max_lag, env, r)"
| "reset_lag (slot # slots) tail capacity max_lag env r =
     (case interfere env r of (r1, env1) \<Rightarrow>
      if control_state (ts_control (tr_slots r1 ! slot)) = STATE_FREE
      then reset_lag slots tail capacity max_lag env1 r1
      else (case interfere env1 r1 of (r2, env2) \<Rightarrow>
            let cursor = ts_cursor (tr_slots r2 ! slot);
                lag = tail - cursor
            in if cursor = DETACHED then reset_lag slots tail capacity max_lag env2 r2
               else reset_lag slots tail capacity
                      (if lag \<le> capacity \<and> max_lag < lag then lag else max_lag) env2 r2))"

fun reset_slots :: "nat list \<Rightarrow> table_env \<Rightarrow> table_region \<Rightarrow> table_env \<times> table_region" where
  "reset_slots [] env r = (env, r)"
| "reset_slots (slot # slots) env r =
     (case interfere env r of (r1, env1) \<Rightarrow>
      case interfere env1 (set_cursor slot DETACHED r1) of (r2, env2) \<Rightarrow>
      case interfere env2 (set_lease slot 0 r2) of (r3, env3) \<Rightarrow>
      (let current = ts_control (tr_slots r3 ! slot) in
       case interfere env3 r3 of (r4, env4) \<Rightarrow>
         reset_slots slots env4 (set_control slot (control_word (control_epoch current + 1) STATE_FREE) r4)))"

definition reset_gate_table ::
  "nat \<Rightarrow> u64 \<Rightarrow> table_env \<Rightarrow> table_region \<Rightarrow> u64 \<times> table_env \<times> table_region" where
  "reset_gate_table max_slots capacity env r =
     (let g = tr_generation r in
      case interfere env (set_generation (g OR 1) r) of (r1, env1) \<Rightarrow>
      (let tail = tr_tail r1 in
       case reset_lag [0..<max_slots] tail capacity 0 env1 r1 of (max_lag, env2, r2) \<Rightarrow>
       case reset_slots [0..<max_slots] env2 r2 of (env3, r3) \<Rightarrow>
       case interfere env3 r3 of (r4, env4) \<Rightarrow>
         (tail - max_lag, env4, set_generation ((g OR 1) + 1) r4)))"

definition RECOVER_CLAIM_ATTEMPTS :: nat where "RECOVER_CLAIM_ATTEMPTS = 16"

fun recover_retry :: "nat \<Rightarrow> u64 \<Rightarrow> nat \<Rightarrow> u64 \<Rightarrow> u64 \<Rightarrow> table_env \<Rightarrow> table_region
    \<Rightarrow> (io_error + u64 \<times> slot_claim) \<times> table_env \<times> table_region" where
  "recover_retry 0 token max_slots capacity resume env r = (Inl IO_AddrInUse, env, r)"
| "recover_retry (Suc attempts) token max_slots capacity resume env r =
     (case claim_table_slot token max_slots env r of
        (Some claim, env1, r1) \<Rightarrow> (Inr (resume, claim), env1, r1)
      | (None, env1, r1) \<Rightarrow>
          (case reset_gate_table max_slots capacity env1 r1 of
             (_, env2, r2) \<Rightarrow> recover_retry attempts token max_slots capacity resume env2 r2))"

definition reset_and_claim_gate_table ::
  "u64 \<Rightarrow> nat \<Rightarrow> u64 \<Rightarrow> table_env \<Rightarrow> table_region
     \<Rightarrow> (io_error + u64 \<times> slot_claim) \<times> table_env \<times> table_region" where
  "reset_and_claim_gate_table token max_slots capacity env r =
     (case reset_gate_table max_slots capacity env r of
        (resume, env1, r1) \<Rightarrow>
          recover_retry RECOVER_CLAIM_ATTEMPTS token max_slots capacity resume env1 r1)"

section \<open>The handles' backings\<close>

record gate_shm_producer =
  gsp_token :: u64
  gsp_owner_pid :: int
  gsp_max_slots :: nat

record gate_shm_consumer =
  gsc_slot :: nat
  gsc_epoch :: u32
  gsc_token :: u64
  gsc_owner_pid :: int
  gsc_max_slots :: nat

definition gate_shm_consumer_new :: "int \<Rightarrow> slot_claim \<Rightarrow> nat \<Rightarrow> gate_shm_consumer" where
  "gate_shm_consumer_new getpid claim max_slots =
     \<lparr>gsc_slot = sc_slot claim, gsc_epoch = sc_epoch claim, gsc_token = sc_token claim,
      gsc_owner_pid = getpid, gsc_max_slots = max_slots\<rparr>"

definition table_active_count :: "nat \<Rightarrow> table_region \<Rightarrow> nat" where
  "table_active_count max_slots r =
     length (filter (\<lambda>slot. control_is_active (ts_control (tr_slots r ! slot))) [0..<max_slots])"

definition owns_slot :: "table_region \<Rightarrow> gate_shm_consumer \<Rightarrow> bool" where
  "owns_slot r a \<longleftrightarrow> ts_lease (tr_slots r ! gsc_slot a) = gsc_token a"

definition gate_shm_detach :: "gate_shm_consumer \<Rightarrow> table_region \<Rightarrow> table_region" where
  "gate_shm_detach a r =
     exchange_lease (gsc_slot a) (gsc_token a) 0
       (snd (exchange_control (gsc_slot a) (control_word (gsc_epoch a) STATE_ACTIVE)
               (control_word (gsc_epoch a) STATE_FREE) r))"

definition gate_shm_producer_drop :: "int \<Rightarrow> gate_shm_producer \<Rightarrow> table_region \<Rightarrow> table_region" where
  "gate_shm_producer_drop getpid a r =
     r\<lparr>tr_header := anchor_drop getpid (tr_header r) (Shm RoleProducer (gsp_token a) (gsp_owner_pid a))\<rparr>"

section \<open>Attaching\<close>

text \<open>What opening and validating the region yields; the region itself is passed separately.\<close>

record gate_opened =
  go_capacity :: u64
  go_max_slots :: nat
  go_generation :: u64

definition spmc_attach_producer_anchor ::
  "u64 \<Rightarrow> int \<Rightarrow> bool \<Rightarrow> (region \<Rightarrow> region) \<Rightarrow> gate_opened \<Rightarrow> table_region
     \<Rightarrow> (io_error + gate_shm_producer) \<times> table_region" where
  "spmc_attach_producer_anchor token getpid force race opened r =
     (case (if force then (case force_claim_lease token RoleProducer (tr_header r) of (t, h) \<Rightarrow> (Inr t, h))
            else claim_lease token RoleProducer (go_generation opened) race (tr_header r)) of
        (Inl _, h) \<Rightarrow> (Inl IO_AddrInUse, r\<lparr>tr_header := h\<rparr>)
      | (Inr t, h) \<Rightarrow>
          (Inr \<lparr>gsp_token = t, gsp_owner_pid = getpid, gsp_max_slots = go_max_slots opened\<rparr>,
           r\<lparr>tr_header := h, tr_closed := 0\<rparr>))"

definition spmc_attach_consumer_anchor ::
  "u64 \<Rightarrow> int \<Rightarrow> gate_opened \<Rightarrow> table_env \<Rightarrow> table_region
     \<Rightarrow> (io_error + gate_shm_consumer \<times> u64) \<times> table_env \<times> table_region" where
  "spmc_attach_consumer_anchor token getpid opened env r =
     (if tr_closed r \<noteq> 0 then (Inl IO_BrokenPipe, env, r)
      else (case interfere env r of (r0, env0) \<Rightarrow>
            case claim_table_slot token (go_max_slots opened) env0 r0 of
              (None, env1, r1) \<Rightarrow> (Inl IO_AddrInUse, env1, r1)
            | (Some claim, env1, r1) \<Rightarrow>
                (case interfere env1 r1 of (r2, env2) \<Rightarrow>
                 if tr_generation r2 \<noteq> go_generation opened
                 then (case interfere env2 r2 of (r3, env3) \<Rightarrow>
                       (Inl IO_AddrInUse, env3, release_table_claim claim (go_generation opened) r3))
                 else (Inr (gate_shm_consumer_new getpid claim (go_max_slots opened), sc_joined claim),
                       env2, r2))))"

definition force_detach_consumer ::
  "gate_opened \<Rightarrow> nat \<Rightarrow> u32 \<Rightarrow> table_region \<Rightarrow> (io_error + unit) \<times> table_region" where
  "force_detach_consumer opened slot epoch r =
     (if slot \<ge> go_max_slots opened then (Inl IO_InvalidInput, r)
      else force_detach_table_slot slot epoch r)"

text \<open>\<open>shm_subscribe\<close> (\<open>src/src/spmc.rs\<close>): the attach from a live handle.\<close>

definition shm_subscribe ::
  "u64 \<Rightarrow> int \<Rightarrow> nat \<Rightarrow> table_env \<Rightarrow> table_region
     \<Rightarrow> (subscribe_error + gate_shm_consumer \<times> u64) \<times> table_env \<times> table_region" where
  "shm_subscribe token getpid max_consumers env r =
     (let gen = tr_generation r in
      if gen AND 1 = 1 then (Inl Closed_err, env, r)
      else (case interfere env r of (r1, env1) \<Rightarrow>
            if tr_closed r1 \<noteq> 0 then (Inl Closed_err, env1, r1)
            else (case interfere env1 r1 of (r2, env2) \<Rightarrow>
                  case claim_table_slot token max_consumers env2 r2 of
                    (None, env3, r3) \<Rightarrow> (Inl Full_err, env3, r3)
                  | (Some claim, env3, r3) \<Rightarrow>
                      (case interfere env3 r3 of (r4, env4) \<Rightarrow>
                       if tr_generation r4 \<noteq> gen
                       then (case interfere env4 r4 of (r5, env5) \<Rightarrow>
                             (Inl Closed_err, env5, release_table_claim claim gen r5))
                       else (Inr (gate_shm_consumer_new getpid claim max_consumers, sc_joined claim),
                             env4, r4)))))"

section \<open>The producer's walk over the table\<close>

text \<open>
  One iteration: the cache block is seeded when first needed; \<open>control\<close> and
  \<open>fresh\<close> are the words the two loads of the slot return.
\<close>

definition table_visit ::
  "u64 \<Rightarrow> u64 \<Rightarrow> u64 \<Rightarrow> nat \<Rightarrow> u64 \<Rightarrow> u64 \<Rightarrow> u64 list list \<times> bool \<times> u64
     \<Rightarrow> u64 list list \<times> bool \<times> u64" where
  "table_visit next_seq needed capacity slot control fresh acc =
     (case acc of
        (cached, any_active, max_lag) \<Rightarrow>
          (let ci = slot div CHUNK_SLOTS;
               idx = slot mod CHUNK_SLOTS;
               cached = (if length cached = ci
                         then cached @ [replicate CHUNK_SLOTS (next_seq - capacity)] else cached)
           in if \<not> control_is_active control then (cached, any_active, max_lag)
              else (let cursor = cached ! ci ! idx
                    in if gate_lacks_space next_seq needed cursor capacity
                       then (if fresh = DETACHED then (cached, any_active, max_lag)
                             else (cached[ci := (cached ! ci)[idx := fresh]], True,
                                   max max_lag (next_seq - fresh)))
                       else (cached, True, max max_lag (next_seq - cursor)))))"

text \<open>\<open>seen slot\<close>: the control and the cursor word the walk loads for a slot.\<close>

definition scan_shm_table ::
  "(nat \<Rightarrow> u64 \<times> u64) \<Rightarrow> nat \<Rightarrow> u64 list list \<Rightarrow> u64 \<Rightarrow> u64 \<Rightarrow> u64
     \<Rightarrow> (bool \<times> u64) \<times> u64 list list" where
  "scan_shm_table seen max_slots cached next_seq needed capacity =
     (case fold (\<lambda>slot. table_visit next_seq needed capacity slot (fst (seen slot)) (snd (seen slot)))
             [0..<max_slots] (cached, False, 0) of
        (cached', any_active, max_lag) \<Rightarrow> ((any_active, max_lag), cached'))"

definition table_words :: "table_slot list \<Rightarrow> nat \<Rightarrow> u64 \<times> u64" where
  "table_words slots slot = (ts_control (slots ! slot), ts_cursor (slots ! slot))"

definition table_rescan ::
  "u64 \<Rightarrow> (nat \<Rightarrow> u64 \<times> u64) \<Rightarrow> nat \<Rightarrow> 'p gate_producer_scheme \<Rightarrow> bool \<times> 'p gate_producer_scheme" where
  "table_rescan needed seen max_slots p =
     (let capacity = gp_mask p + 1
      in case scan_shm_table seen max_slots (gp_cached_cursors p) (gp_next_seq p) needed capacity of
           (walked, cached) \<Rightarrow>
             (case rescan_gate (gp_next_seq p) needed capacity walked of
                (ok, m) \<Rightarrow> (ok, p\<lparr>gp_cached_min := m, gp_cached_cursors := cached\<rparr>)))"

section \<open>Handles over the region\<close>

definition table_producer_from_shm ::
  "nat \<Rightarrow> u64 \<Rightarrow> table_region \<Rightarrow> gate_producer" where
  "table_producer_from_shm max_slots capacity r =
     (let next_seq = tr_tail r;
          p = \<lparr>gp_mask = capacity - 1, gp_next_seq = next_seq, gp_cached_min = next_seq - capacity,
               gp_cached_cursors = []\<rparr>
      in snd (table_rescan 1 (table_words (tr_slots r)) max_slots p))"

record table_consumer =
  tc_anchor :: gate_shm_consumer
  tc_mask :: u64
  tc_read_cursor :: u64
  tc_published :: u64
  tc_write_cache :: u64

definition table_consumer_from_shm :: "gate_shm_consumer \<Rightarrow> u64 \<Rightarrow> u64 \<Rightarrow> table_consumer" where
  "table_consumer_from_shm a capacity read_cursor =
     \<lparr>tc_anchor = a, tc_mask = capacity - 1, tc_read_cursor = read_cursor,
      tc_published = guard_sentinel read_cursor, tc_write_cache = read_cursor\<rparr>"

definition table_flush :: "table_region \<Rightarrow> table_consumer \<Rightarrow> table_region \<times> table_consumer" where
  "table_flush r c =
     (if \<not> owns_slot r (tc_anchor c) then (r, c\<lparr>tc_published := tc_read_cursor c\<rparr>)
      else (set_cursor (gsc_slot (tc_anchor c)) (guard_sentinel (tc_read_cursor c)) r,
            c\<lparr>tc_published := tc_read_cursor c\<rparr>))"

definition table_consumer_drop :: "int \<Rightarrow> table_region \<Rightarrow> table_consumer \<Rightarrow> table_region" where
  "table_consumer_drop getpid r c =
     (if \<not> (getpid = gsc_owner_pid (tc_anchor c) \<and> owns_slot r (tc_anchor c)) then r
      else (let r1 = (if tc_read_cursor c \<noteq> tc_published c then fst (table_flush r c) else r)
            in gate_shm_detach (tc_anchor c) (set_cursor (gsc_slot (tc_anchor c)) DETACHED r1)))"

text \<open>
  \<open>recover_shm_with\<close> over an opened region: the producer role is taken by force,
  the table is reset, and the recoverer's own slot is moved back to the resume
  point.
\<close>

definition recover_shm_with ::
  "u64 \<Rightarrow> u64 \<Rightarrow> int \<Rightarrow> gate_opened \<Rightarrow> table_env \<Rightarrow> table_region
     \<Rightarrow> (io_error + gate_shm_producer \<times> gate_producer \<times> table_consumer) \<times> table_env \<times> table_region" where
  "recover_shm_with ptoken ctoken getpid opened env r =
     (case spmc_attach_producer_anchor ptoken getpid True (\<lambda>h. h) opened r of
        (Inl e, r1) \<Rightarrow> (Inl e, env, r1)
      | (Inr producer_anchor, r1) \<Rightarrow>
          (case reset_and_claim_gate_table ctoken (go_max_slots opened) (go_capacity opened) env r1 of
             (Inl e, env2, r2) \<Rightarrow>
               (Inl e, env2, gate_shm_producer_drop getpid producer_anchor r2)
           | (Inr (resume, claim), env2, r2) \<Rightarrow>
               (let r3 = set_cursor (sc_slot claim) (slot_guard resume) r2
                in (Inr (producer_anchor,
                         table_producer_from_shm (go_max_slots opened) (go_capacity opened) r3,
                         table_consumer_from_shm
                           (gate_shm_consumer_new getpid claim (go_max_slots opened))
                           (go_capacity opened) resume),
                    env2, r3))))"

end
