(* ===== verification/Shm_Table_Walk.thy ===== *)
theory Shm_Table_Walk
  imports Shm_Table
begin

text \<open>
  The walk over the consumer table keeps the promises a rescan needs: the
  interface \<open>gate_walk\<close> of the gating registry is interpreted on it, so the
  theorems about \<open>rescan_gate\<close> hold of a shared-memory ring's rescan as they do
  of a heap ring's.
\<close>

section \<open>The producer's cache by slot number\<close>

definition cache_entry :: "u64 list list \<Rightarrow> nat \<Rightarrow> u64" where
  "cache_entry cached i = cached ! (i div CHUNK_SLOTS) ! (i mod CHUNK_SLOTS)"

definition cache_put :: "u64 list list \<Rightarrow> nat \<Rightarrow> u64 \<Rightarrow> u64 list list" where
  "cache_put cached i w =
     cached[i div CHUNK_SLOTS := (cached ! (i div CHUNK_SLOTS))[i mod CHUNK_SLOTS := w]]"

definition cache_seed :: "u64 \<Rightarrow> nat \<Rightarrow> u64 list list \<Rightarrow> u64 list list" where
  "cache_seed w i cached =
     (if length cached = i div CHUNK_SLOTS then cached @ [replicate CHUNK_SLOTS w] else cached)"

definition rows_full :: "u64 list list \<Rightarrow> bool" where
  "rows_full cached \<longleftrightarrow> (\<forall>row\<in>set cached. length row = CHUNK_SLOTS)"

definition covers :: "u64 list list \<Rightarrow> nat \<Rightarrow> bool" where
  "covers cached i \<longleftrightarrow> i div CHUNK_SLOTS < length cached"

lemma chunk_slots_pos [simp]: "0 < CHUNK_SLOTS" "CHUNK_SLOTS \<noteq> 0"
  by (simp_all add: CHUNK_SLOTS_def)

lemma row_length: "rows_full cached \<Longrightarrow> covers cached i \<Longrightarrow> length (cached ! (i div CHUNK_SLOTS)) = CHUNK_SLOTS"
  by (simp add: rows_full_def covers_def)

lemma cache_put_same:
  "rows_full cached \<Longrightarrow> covers cached i \<Longrightarrow> cache_entry (cache_put cached i w) i = w"
  by (simp add: cache_entry_def cache_put_def covers_def row_length)

lemma cache_put_other: "i \<noteq> j \<Longrightarrow> cache_entry (cache_put cached i w) j = cache_entry cached j"
proof (cases "i div CHUNK_SLOTS = j div CHUNK_SLOTS")
  case True
  assume "i \<noteq> j"
  then have "i mod CHUNK_SLOTS \<noteq> j mod CHUNK_SLOTS"
    using True by (metis div_mult_mod_eq)
  then show ?thesis
    using True by (cases "i div CHUNK_SLOTS < length cached") (simp_all add: cache_entry_def cache_put_def list_update_beyond not_less)
qed (simp add: cache_entry_def cache_put_def)

lemma cache_put_covers [simp]: "covers (cache_put cached i w) j = covers cached j"
  by (simp add: covers_def cache_put_def)

lemma cache_put_rows [simp]: "rows_full cached \<Longrightarrow> covers cached i \<Longrightarrow> rows_full (cache_put cached i w)"
  by (auto simp: rows_full_def covers_def cache_put_def dest!: set_update_subset_insert [THEN subsetD])

lemma cache_seed_rows [simp]: "rows_full cached \<Longrightarrow> rows_full (cache_seed w i cached)"
  by (simp add: rows_full_def cache_seed_def)

lemma cache_seed_covers:
  "i div CHUNK_SLOTS \<le> length cached \<Longrightarrow> covers (cache_seed w i cached) i"
  "covers cached j \<Longrightarrow> covers (cache_seed w i cached) j"
  by (auto simp: covers_def cache_seed_def)

lemma cache_seed_entry:
  assumes "covers (cache_seed w i cached) j"
  shows "cache_entry (cache_seed w i cached) j = (if covers cached j then cache_entry cached j else w)"
proof (cases "covers cached j")
  case False
  then have "j div CHUNK_SLOTS = length cached" "length cached = i div CHUNK_SLOTS"
    using assms by (auto simp: covers_def cache_seed_def split: if_splits)
  then show ?thesis using False by (simp add: cache_entry_def cache_seed_def nth_append)
qed (simp add: cache_entry_def cache_seed_def covers_def nth_append)

lemma covers_next: "covers cached i \<Longrightarrow> Suc i div CHUNK_SLOTS \<le> length cached"
  by (simp add: covers_def div_Suc)

lemma covers_mono: "covers cached i \<Longrightarrow> j \<le> i \<Longrightarrow> covers cached j"
  unfolding covers_def using div_le_mono [of j i CHUNK_SLOTS] by linarith

lemma table_visit_cases:
  assumes "table_visit nx needed cap i ctl fresh (cached, a, lag) = (c', a', lag')"
  defines "c1 \<equiv> cache_seed (nx - cap) i cached"
  obtains (idle) "\<not> control_is_active ctl" "c' = c1" "a' = a" "lag' = lag"
  | (gone) "control_is_active ctl" "gate_lacks_space nx needed (cache_entry c1 i) cap"
      "fresh = DETACHED" "c' = c1" "a' = a" "lag' = lag"
  | (reload) "control_is_active ctl" "gate_lacks_space nx needed (cache_entry c1 i) cap"
      "fresh \<noteq> DETACHED" "c' = cache_put c1 i fresh" "a'" "lag' = max lag (nx - fresh)"
  | (cached) "control_is_active ctl" "\<not> gate_lacks_space nx needed (cache_entry c1 i) cap"
      "c' = c1" "a'" "lag' = max lag (nx - cache_entry c1 i)"
  using assms
  by (auto simp: table_visit_def Let_def cache_seed_def cache_entry_def cache_put_def split: if_splits)

section \<open>A walk over unmoving words\<close>

definition slot_gates :: "table_slot \<Rightarrow> bool" where
  "slot_gates s \<longleftrightarrow> control_is_active (ts_control s) \<and> ts_cursor s \<noteq> DETACHED"

definition table_cursors :: "table_slot list \<Rightarrow> u64 set" where
  "table_cursors slots = ts_cursor ` {s \<in> set slots. slot_gates s}"

text \<open>
  The cache: full rows, no entry far enough behind to wrap, none ahead of the
  cursor it stands for.
\<close>

definition entries_sane :: "u64 \<Rightarrow> u64 \<Rightarrow> u64 list list \<Rightarrow> bool" where
  "entries_sane nx cap cached \<longleftrightarrow> rows_full cached
     \<and> (\<forall>j. covers cached j \<longrightarrow> cdist (cache_entry cached j) nx + unat cap < word_span)"

definition table_cache_ok :: "table_slot list \<Rightarrow> u64 list list \<Rightarrow> u64 \<Rightarrow> u64 \<Rightarrow> bool" where
  "table_cache_ok slots cached nx cap \<longleftrightarrow> entries_sane nx cap cached
     \<and> unat cap + unat cap < word_span
     \<and> (\<forall>s\<in>table_cursors slots. cdist s nx + unat cap < word_span)
     \<and> (\<forall>j<length slots. slot_gates (slots ! j) \<longrightarrow> covers cached j \<longrightarrow>
          cdist (ts_cursor (slots ! j)) nx \<le> cdist (cache_entry cached j) nx)"

definition slot_ready :: "u64 \<Rightarrow> u64 \<Rightarrow> u64 \<Rightarrow> table_slot \<Rightarrow> u64 \<Rightarrow> bool" where
  "slot_ready nx needed cap s v \<longleftrightarrow> slot_gates s \<longrightarrow>
     cdist (ts_cursor s) nx \<le> cdist v nx \<or> unat cap < cdist v nx + unat needed"

definition slot_cursor_set :: "table_slot \<Rightarrow> u64 set" where
  "slot_cursor_set s = (if slot_gates s then {ts_cursor s} else {})"

lemma table_visit_ok:
  assumes v: "table_visit nx needed cap i (ts_control s) (ts_cursor s) (cached, a, lag) = (c', a', lag')"
    and sane: "entries_sane nx cap cached" and at: "i div CHUNK_SLOTS \<le> length cached"
    and small: "unat lag + unat cap < word_span" "unat cap + unat cap < word_span"
    and n: "0 < needed" "needed \<le> cap"
    and near: "slot_gates s \<Longrightarrow> cdist (ts_cursor s) nx + unat cap < word_span"
    and ready: "covers cached i \<Longrightarrow> slot_ready nx needed cap s (cache_entry cached i)"
  shows "scan_result nx needed cap (slot_cursor_set s) (a, lag) (a', lag')"
    and "entries_sane nx cap c'" and "covers c' i"
    and "slot_gates s \<Longrightarrow> cdist (ts_cursor s) nx \<le> cdist (cache_entry c' i) nx"
    and "\<And>j. j \<noteq> i \<Longrightarrow> covers c' j \<Longrightarrow>
           cache_entry c' j = (if covers cached j then cache_entry cached j else nx - cap)"
proof -
  define c1 where "c1 = cache_seed (nx - cap) i cached"
  have pos: "0 < unat needed" and le: "unat needed \<le> unat cap"
    using n by (simp_all add: word_less_nat_alt word_le_nat_alt)
  have cov: "covers c1 i" using at by (simp add: c1_def cache_seed_covers(1))
  have rows: "rows_full c1" using sane by (simp add: c1_def entries_sane_def)
  have ent: "cache_entry c1 j = (if covers cached j then cache_entry cached j else nx - cap)"
    if "covers c1 j" for j
    using that cache_seed_entry unfolding c1_def by blast
  have bnd: "cdist (cache_entry c1 j) nx + unat cap < word_span" if "covers c1 j" for j
    using that ent [OF that] sane small(2) by (simp add: entries_sane_def)
  have sane1: "entries_sane nx cap c1" using rows bnd by (simp add: entries_sane_def)
  have ready1: "slot_ready nx needed cap s (cache_entry c1 i)"
    using ready ent [OF cov] pos by (auto simp: slot_ready_def)
  have L: "gate_lacks_space nx needed (cache_entry c1 i) cap
      \<longleftrightarrow> unat cap < cdist (cache_entry c1 i) nx + unat needed"
    by (rule gate_lacks_iff) (use bnd [OF cov] le in simp)
  have mx: "unat (max x y) = max (unat x) (unat y)" for x y :: u64
    by (simp add: max_def word_le_nat_alt)
  have cd: "unat (nx - c) = cdist c nx" for c by (simp add: cdist_def)
  from v have "scan_result nx needed cap (slot_cursor_set s) (a, lag) (a', lag')
     \<and> entries_sane nx cap c' \<and> covers c' i
     \<and> (slot_gates s \<longrightarrow> cdist (ts_cursor s) nx \<le> cdist (cache_entry c' i) nx)
     \<and> (\<forall>j. j \<noteq> i \<longrightarrow> covers c' j \<longrightarrow> cache_entry c' j = cache_entry c1 j \<and> covers c1 j)"
  proof (cases rule: table_visit_cases [case_names idle gone reload cached])
    case idle
    then show ?thesis
      using small sane1 cov
      by (simp add: c1_def [symmetric] slot_gates_def slot_cursor_set_def scan_result_refl)
  next
    case gone
    then show ?thesis
      using small sane1 cov
      by (simp add: c1_def [symmetric] slot_gates_def slot_cursor_set_def scan_result_refl)
  next
    case reload
    note r = reload [folded c1_def]
    have g: "slot_gates s" using r by (simp add: slot_gates_def)
    have "scan_result nx needed cap {ts_cursor s} (a, lag) (a', lag')"
      using r(5,6) near [OF g] small by (auto simp: scan_result_def mx cd max_def word_le_nat_alt)
    moreover have "entries_sane nx cap c'"
      unfolding entries_sane_def
    proof (intro conjI allI impI)
      show "rows_full c'" using r(4) rows cov by simp
      show "cdist (cache_entry c' j) nx + unat cap < word_span" if "covers c' j" for j
        using that r(4) rows cov near [OF g] bnd
        by (cases "j = i") (simp_all add: cache_put_same cache_put_other)
    qed
    ultimately show ?thesis
      using g r(4) rows cov by (simp add: slot_cursor_set_def cache_put_same cache_put_other)
  next
    case cached
    note r = cached [folded c1_def]
    have fits: "cdist (cache_entry c1 i) nx + unat needed \<le> unat cap" using r(2) L by simp
    have b: "slot_gates s \<longrightarrow> cdist (ts_cursor s) nx \<le> cdist (cache_entry c1 i) nx"
      using ready1 fits by (auto simp: slot_ready_def)
    have "scan_result nx needed cap (slot_cursor_set s) (a, lag) (a', lag')"
      using r(4,5) bnd [OF cov] small fits b
      by (auto simp: scan_result_def mx cd max_def word_le_nat_alt slot_cursor_set_def)
    then show ?thesis using r sane1 cov b by simp
  qed
  then show "scan_result nx needed cap (slot_cursor_set s) (a, lag) (a', lag')"
    and "entries_sane nx cap c'" and "covers c' i"
    and "slot_gates s \<Longrightarrow> cdist (ts_cursor s) nx \<le> cdist (cache_entry c' i) nx"
    and "\<And>j. j \<noteq> i \<Longrightarrow> covers c' j \<Longrightarrow>
           cache_entry c' j = (if covers cached j then cache_entry cached j else nx - cap)"
    using ent by simp_all
qed

lemma slot_cursor_sets: "\<Union> (slot_cursor_set ` set slots) = table_cursors slots"
  by (auto simp: slot_cursor_set_def table_cursors_def)

lemma table_scan_ok:
  assumes ca: "table_cache_ok slots cached nx cap" and n: "0 < needed" "needed \<le> cap"
    and m: "m \<le> length slots"
  shows "\<exists>c' a' lag'.
      fold (\<lambda>i. table_visit nx needed cap i (ts_control (slots ! i)) (ts_cursor (slots ! i)))
        [0..<m] (cached, False, 0) = (c', a', lag')
      \<and> scan_result nx needed cap (\<Union> (slot_cursor_set ` set (take m slots))) (False, 0) (a', lag')
      \<and> entries_sane nx cap c' \<and> m div CHUNK_SLOTS \<le> length c' \<and> (\<forall>j<m. covers c' j)
      \<and> (\<forall>j<m. slot_gates (slots ! j) \<longrightarrow> cdist (ts_cursor (slots ! j)) nx \<le> cdist (cache_entry c' j) nx)
      \<and> (\<forall>j. m \<le> j \<longrightarrow> j < length slots \<longrightarrow> covers c' j \<longrightarrow>
            slot_ready nx needed cap (slots ! j) (cache_entry c' j))"
  using m
proof (induction m)
  case 0
  have "unat cap < word_span" by simp
  then have "scan_result nx needed cap {} (False, 0) (False, 0)" by (simp add: scan_result_refl)
  then show ?case using ca by (auto simp: table_cache_ok_def slot_ready_def)
next
  case (Suc m)
  let ?s = "slots ! m"
  obtain c a lag where f: "fold (\<lambda>i. table_visit nx needed cap i (ts_control (slots ! i)) (ts_cursor (slots ! i)))
        [0..<m] (cached, False, 0) = (c, a, lag)"
    and sr: "scan_result nx needed cap (\<Union> (slot_cursor_set ` set (take m slots))) (False, 0) (a, lag)"
    and sane: "entries_sane nx cap c" and at: "m div CHUNK_SLOTS \<le> length c"
    and covm: "\<forall>j<m. covers c j"
    and below: "\<forall>j<m. slot_gates (slots ! j) \<longrightarrow> cdist (ts_cursor (slots ! j)) nx \<le> cdist (cache_entry c j) nx"
    and above: "\<forall>j. m \<le> j \<longrightarrow> j < length slots \<longrightarrow> covers c j \<longrightarrow>
            slot_ready nx needed cap (slots ! j) (cache_entry c j)"
    using Suc by auto
  obtain c' a' lag' where v: "table_visit nx needed cap m (ts_control ?s) (ts_cursor ?s) (c, a, lag)
      = (c', a', lag')" by (metis prod_cases3)
  have ml: "m < length slots" using Suc.prems by simp
  have small: "unat lag + unat cap < word_span" using sr by (simp add: scan_result_def)
  have cap2: "unat cap + unat cap < word_span" using ca by (simp add: table_cache_ok_def)
  have near: "slot_gates ?s \<Longrightarrow> cdist (ts_cursor ?s) nx + unat cap < word_span"
    using ca ml by (auto simp: table_cache_ok_def table_cursors_def)
  have rdy: "covers c m \<Longrightarrow> slot_ready nx needed cap ?s (cache_entry c m)" using above ml by simp
  note V = table_visit_ok [OF v sane at small cap2 n near rdy, simplified]
  have pos: "0 < unat needed" using n by (simp add: word_less_nat_alt)
  have b': "\<forall>j<Suc m. slot_gates (slots ! j) \<longrightarrow> cdist (ts_cursor (slots ! j)) nx \<le> cdist (cache_entry c' j) nx"
  proof (intro allI impI)
    fix j assume j: "j < Suc m" "slot_gates (slots ! j)"
    show "cdist (ts_cursor (slots ! j)) nx \<le> cdist (cache_entry c' j) nx"
    proof (cases "j = m")
      case False
      then have jm: "j < m" using j(1) by simp
      have "covers c' j" using V(3) covers_mono jm by (metis less_imp_le)
      then show ?thesis using V(5) False below jm j(2) covm by simp
    qed (use V(4) j in simp)
  qed
  have a'': "\<forall>j. Suc m \<le> j \<longrightarrow> j < length slots \<longrightarrow> covers c' j \<longrightarrow>
            slot_ready nx needed cap (slots ! j) (cache_entry c' j)"
    using V(5) above pos by (auto simp: slot_ready_def)
  have "set (take (Suc m) slots) = insert ?s (set (take m slots))"
    using ml by (simp add: take_Suc_conv_app_nth)
  then have u: "\<Union> (slot_cursor_set ` set (take (Suc m) slots))
      = \<Union> (slot_cursor_set ` set (take m slots)) \<union> slot_cursor_set ?s" by auto
  have "scan_result nx needed cap (\<Union> (slot_cursor_set ` set (take (Suc m) slots))) (False, 0) (a', lag')"
    unfolding u by (rule scan_result_trans [OF sr V(1)])
  then show ?case
    using f v V(2) covers_next [OF V(3)] b' a'' covers_mono [OF V(3)] by simp
qed

section \<open>The walk as a registry\<close>

definition table_walk ::
  "table_slot list \<Rightarrow> u64 list list \<Rightarrow> u64 \<Rightarrow> u64 \<Rightarrow> u64 \<Rightarrow> (bool \<times> u64) \<times> u64 list list" where
  "table_walk slots cached nx needed cap =
     scan_shm_table (table_words slots) (length slots) cached nx needed cap"

lemma table_walk_ok:
  assumes ca: "table_cache_ok r ca nx cap" and n: "0 < needed" "needed \<le> cap"
    and w: "table_walk r ca nx needed cap = ((any_active, lag), ca')"
  shows "scan_result nx needed cap (table_cursors r) (False, 0) (any_active, lag)"
    and "table_cache_ok r ca' nx cap"
proof -
  let ?f = "\<lambda>i. table_visit nx needed cap i (ts_control (r ! i)) (ts_cursor (r ! i))"
  from table_scan_ok [OF ca n order_refl] obtain c' a' lag' where
    f: "fold ?f [0..<length r] (ca, False, 0) = (c', a', lag')"
    and sr: "scan_result nx needed cap (\<Union> (slot_cursor_set ` set (take (length r) r))) (False, 0) (a', lag')"
    and sane: "entries_sane nx cap c'"
    and le: "\<forall>j<length r. slot_gates (r ! j) \<longrightarrow> cdist (ts_cursor (r ! j)) nx \<le> cdist (cache_entry c' j) nx"
    by blast
  have "((a', lag'), c') = ((any_active, lag), ca')"
    using w f by (simp add: table_walk_def scan_shm_table_def table_words_def)
  then have e: "a' = any_active" "lag' = lag" "c' = ca'" by simp_all
  show "scan_result nx needed cap (table_cursors r) (False, 0) (any_active, lag)"
    using sr by (simp add: e slot_cursor_sets)
  show "table_cache_ok r ca' nx cap"
    using ca sane le by (simp add: table_cache_ok_def e)
qed

interpretation table_gate: gate_walk table_walk table_cursors table_cache_ok
proof unfold_locales
  fix r ca nx cap needed any_active lag ca' s
  assume a: "table_cache_ok r ca nx cap" "0 < needed" "needed \<le> cap"
    "table_walk r ca nx needed cap = ((any_active, lag), ca')"
  note W = table_walk_ok [OF a]
  show "s \<in> table_cursors r \<Longrightarrow> any_active \<and> cdist s nx \<le> unat lag"
    using W(1) by (simp add: scan_result_def)
  show "unat lag + unat cap < word_span \<and> Suc (unat cap) < word_span"
    using W(1) a doubled_capacity by (simp add: scan_result_def table_cache_ok_def)
  show "\<exists>s\<in>table_cursors r. cdist s nx = unat lag"
    if "any_active" "unat cap < unat lag + unat needed"
    using W(1) that a(3) by (auto simp: scan_result_def word_le_nat_alt)
next
  fix r ca nx cap needed res ca'
  assume a: "table_cache_ok r ca nx cap" "0 < needed" "needed \<le> cap"
    "table_walk r ca nx needed cap = (res, ca')"
  then show "table_cache_ok r ca' nx cap" using table_walk_ok(2) by (metis surj_pair)
qed

end
