(* ===== verification/Shm_Table_Trace.thy ===== *)
theory Shm_Table_Trace
  imports Shm_Table_Walk
begin

text \<open>
  A gating ring over a consumer table at the granularity of its atomic accesses:
  consumers claim a slot, join, read, publish and leave, holders are retired by
  force, and the producer walks the table slot by slot, with any interleaving.
  The invariants say who holds which slot and that no consumer that finished its
  join is ever lapped.
\<close>

section \<open>Steps\<close>

text \<open>
  How far a handle is: its exchange took the slot; it loaded the provisional
  cursor, stored it, re-read the tail; it reads at a cursor; its drop stored the
  sentinel; it is gone.
\<close>

datatype join_phase = Registered | Loaded u64 | Provisional | Rejoined u64 | Reading u64
  | Leaving | Gone

record table_handle =
  th_slot :: nat
  th_epoch :: u32
  th_token :: u64
  th_phase :: join_phase
  th_retired :: bool

record table_scan =
  sn_needed :: u64
  sn_slot :: nat
  sn_control :: "u64 option"
  sn_any :: bool
  sn_lag :: u64

record table_sys =
  y_region :: table_region
  y_producer :: gate_producer
  y_scan :: "table_scan option"
  y_handles :: "table_handle list"
  y_published :: nat

abbreviation y_slots :: "table_sys \<Rightarrow> table_slot list" where
  "y_slots s \<equiv> tr_slots (y_region s)"

abbreviation y_capacity :: "table_sys \<Rightarrow> u64" where
  "y_capacity s \<equiv> gp_mask (y_producer s) + 1"

definition set_phase :: "nat \<Rightarrow> join_phase \<Rightarrow> table_handle list \<Rightarrow> table_handle list" where
  "set_phase k ph hs = hs[k := (hs ! k)\<lparr>th_phase := ph\<rparr>]"

definition set_tail :: "u64 \<Rightarrow> table_region \<Rightarrow> table_region" where
  "set_tail w r = r\<lparr>tr_tail := w\<rparr>"

definition fresh_gate :: "u64 \<Rightarrow> u64 \<Rightarrow> gate_producer" where
  "fresh_gate msk next_seq = \<lparr>gp_mask = msk, gp_next_seq = next_seq,
     gp_cached_min = next_seq - (msk + 1), gp_cached_cursors = []\<rparr>"

definition retire_holders :: "nat \<Rightarrow> table_handle list \<Rightarrow> table_handle list" where
  "retire_holders slot hs =
     map (\<lambda>h. if th_slot h = slot \<and> th_phase h \<noteq> Gone then h\<lparr>th_retired := True\<rparr> else h) hs"

inductive table_step :: "table_sys \<Rightarrow> table_sys \<Rightarrow> bool" where
  scan_start: "y_scan s = None \<Longrightarrow> 0 < needed \<Longrightarrow> needed \<le> y_capacity s \<Longrightarrow>
     table_step s (s\<lparr>y_scan := Some \<lparr>sn_needed = needed, sn_slot = 0, sn_control = None,
                                    sn_any = False, sn_lag = 0\<rparr>\<rparr>)"
| scan_control: "y_scan s = Some sc \<Longrightarrow> sn_control sc = None \<Longrightarrow> sn_slot sc < length (y_slots s) \<Longrightarrow>
     table_step s (s\<lparr>y_scan := Some (sc\<lparr>sn_control := Some (ts_control (y_slots s ! sn_slot sc))\<rparr>)\<rparr>)"
| scan_cursor: "y_scan s = Some sc \<Longrightarrow> sn_control sc = Some ctl \<Longrightarrow>
     table_visit (gp_next_seq (y_producer s)) (sn_needed sc) (y_capacity s) (sn_slot sc) ctl
       (ts_cursor (y_slots s ! sn_slot sc))
       (gp_cached_cursors (y_producer s), sn_any sc, sn_lag sc) = (cached, any_active, lag) \<Longrightarrow>
     table_step s (s\<lparr>y_scan := Some (sc\<lparr>sn_slot := Suc (sn_slot sc), sn_control := None,
                                       sn_any := any_active, sn_lag := lag\<rparr>),
                    y_producer := (y_producer s)\<lparr>gp_cached_cursors := cached\<rparr>\<rparr>)"
| scan_end: "y_scan s = Some sc \<Longrightarrow> sn_control sc = None \<Longrightarrow> sn_slot sc = length (y_slots s) \<Longrightarrow>
     rescan_gate (gp_next_seq (y_producer s)) (sn_needed sc) (y_capacity s)
       (sn_any sc, sn_lag sc) = (ok, m) \<Longrightarrow>
     table_step s (s\<lparr>y_scan := None, y_producer := (y_producer s)\<lparr>gp_cached_min := m\<rparr>\<rparr>)"
| publish: "y_scan s = None \<Longrightarrow> amount \<le> y_capacity s \<Longrightarrow>
     \<not> gate_lacks_space (gp_next_seq (y_producer s)) amount (gp_cached_min (y_producer s)) (y_capacity s) \<Longrightarrow>
     next_seq = gp_next_seq (y_producer s) + amount \<Longrightarrow>
     table_step s (s\<lparr>y_producer := (y_producer s)\<lparr>gp_next_seq := next_seq\<rparr>,
                    y_region := set_tail next_seq (y_region s),
                    y_published := y_published s + unat amount\<rparr>)"
| reattach: "table_step s (s\<lparr>y_scan := None,
     y_producer := fresh_gate (gp_mask (y_producer s)) (tr_tail (y_region s))\<rparr>)"
| claim: "slot < length (y_slots s) \<Longrightarrow> control_state current = STATE_FREE \<Longrightarrow>
     claim_exchange current (ts_control (y_slots s ! slot)) = (True, w) \<Longrightarrow>
     table_step s (s\<lparr>y_region := set_control slot w (y_region s),
       y_handles := y_handles s @ [\<lparr>th_slot = slot, th_epoch = control_epoch current + 1,
         th_token = token, th_phase = Registered, th_retired = False\<rparr>]\<rparr>)"
| load: "k < length (y_handles s) \<Longrightarrow> th_phase (y_handles s ! k) = Registered \<Longrightarrow>
     table_step s (s\<lparr>y_handles := set_phase k (Loaded (slot_guard (tr_tail (y_region s)))) (y_handles s)\<rparr>)"
| provisional: "k < length (y_handles s) \<Longrightarrow> th_phase (y_handles s ! k) = Loaded p \<Longrightarrow>
     table_step s (s\<lparr>y_region := set_cursor (th_slot (y_handles s ! k)) p (y_region s),
                    y_handles := set_phase k Provisional (y_handles s)\<rparr>)"
| reread: "k < length (y_handles s) \<Longrightarrow> th_phase (y_handles s ! k) = Provisional \<Longrightarrow>
     table_step s (s\<lparr>y_handles := set_phase k (Rejoined (tr_tail (y_region s))) (y_handles s)\<rparr>)"
| join: "k < length (y_handles s) \<Longrightarrow> th_phase (y_handles s ! k) = Rejoined j \<Longrightarrow>
     slot = th_slot (y_handles s ! k) \<Longrightarrow>
     table_step s (s\<lparr>y_region := set_lease slot (th_token (y_handles s ! k))
                                   (set_cursor slot (slot_guard j) (y_region s)),
                    y_handles := set_phase k (Reading j) (y_handles s)\<rparr>)"
| read: "k < length (y_handles s) \<Longrightarrow> th_phase (y_handles s ! k) = Reading r \<Longrightarrow>
     r \<noteq> tr_tail (y_region s) \<Longrightarrow>
     table_step s (s\<lparr>y_handles := set_phase k (Reading (r + 1)) (y_handles s)\<rparr>)"
| flush: "k < length (y_handles s) \<Longrightarrow> th_phase (y_handles s ! k) = Reading r \<Longrightarrow>
     slot = th_slot (y_handles s ! k) \<Longrightarrow>
     ts_lease (y_slots s ! slot) = th_token (y_handles s ! k) \<Longrightarrow>
     table_step s (s\<lparr>y_region := set_cursor slot (guard_sentinel r) (y_region s)\<rparr>)"
| sentinel: "k < length (y_handles s) \<Longrightarrow> th_phase (y_handles s ! k) = Reading r \<Longrightarrow>
     slot = th_slot (y_handles s ! k) \<Longrightarrow>
     ts_lease (y_slots s ! slot) = th_token (y_handles s ! k) \<Longrightarrow>
     table_step s (s\<lparr>y_region := set_cursor slot DETACHED (y_region s),
                    y_handles := set_phase k Leaving (y_handles s)\<rparr>)"
| detach: "k < length (y_handles s) \<Longrightarrow> th_phase (y_handles s ! k) = Leaving \<Longrightarrow>
     a = \<lparr>gsc_slot = th_slot (y_handles s ! k), gsc_epoch = th_epoch (y_handles s ! k),
          gsc_token = th_token (y_handles s ! k), gsc_owner_pid = pid,
          gsc_max_slots = length (y_slots s)\<rparr> \<Longrightarrow>
     table_step s (s\<lparr>y_region := gate_shm_detach a (y_region s),
                    y_handles := set_phase k Gone (y_handles s)\<rparr>)"
| force: "slot < length (y_slots s) \<Longrightarrow>
     force_detach_table_slot slot epoch (y_region s) = (Inr (), r') \<Longrightarrow>
     table_step s (s\<lparr>y_region := r', y_handles := retire_holders slot (y_handles s)\<rparr>)"

text \<open>A ring starts with a free table and no handle.\<close>

definition table_start :: "table_sys \<Rightarrow> bool" where
  "table_start s \<longleftrightarrow> valid_mask (gp_mask (y_producer s))
     \<and> y_producer s = fresh_gate (gp_mask (y_producer s)) (tr_tail (y_region s))
     \<and> (\<forall>t\<in>set (y_slots s). control_state (ts_control t) = STATE_FREE \<and> ts_cursor t = DETACHED)
     \<and> y_scan s = None \<and> y_handles s = [] \<and> y_published s = 0"

inductive table_reach :: "table_sys \<Rightarrow> table_sys \<Rightarrow> bool" for s0 where
  start: "table_start s0 \<Longrightarrow> table_reach s0 s0"
| step: "table_reach s0 s \<Longrightarrow> table_step s s' \<Longrightarrow> table_reach s0 s'"

inductive_cases table_stepE: "table_step s s'"

section \<open>The words of a slot\<close>

lemma set_words [simp]:
  "length (tr_slots (set_control i w r)) = length (tr_slots r)"
  "length (tr_slots (set_cursor i w r)) = length (tr_slots r)"
  "length (tr_slots (set_lease i w r)) = length (tr_slots r)"
  "tr_tail (set_control i w r) = tr_tail r"
  "tr_tail (set_cursor i w r) = tr_tail r"
  "tr_tail (set_lease i w r) = tr_tail r"
  "tr_header (set_control i w r) = tr_header r"
  "tr_header (set_cursor i w r) = tr_header r"
  "tr_header (set_lease i w r) = tr_header r"
  "tr_closed (set_control i w r) = tr_closed r"
  "tr_closed (set_cursor i w r) = tr_closed r"
  "tr_closed (set_lease i w r) = tr_closed r"
  by (simp_all add: set_control_def set_cursor_def set_lease_def)

lemma set_words_slot:
  "i < length (tr_slots r) \<Longrightarrow> tr_slots (set_control i w r) ! j
     = (if j = i then (tr_slots r ! i)\<lparr>ts_control := w\<rparr> else tr_slots r ! j)"
  "i < length (tr_slots r) \<Longrightarrow> tr_slots (set_cursor i w r) ! j
     = (if j = i then (tr_slots r ! i)\<lparr>ts_cursor := w\<rparr> else tr_slots r ! j)"
  "i < length (tr_slots r) \<Longrightarrow> tr_slots (set_lease i w r) ! j
     = (if j = i then (tr_slots r ! i)\<lparr>ts_lease := w\<rparr> else tr_slots r ! j)"
  by (simp_all add: set_control_def set_cursor_def set_lease_def nth_list_update)

lemma set_tail_simps [simp]:
  "tr_tail (set_tail w r) = w" "tr_slots (set_tail w r) = tr_slots r"
  by (simp_all add: set_tail_def)

lemma set_phase_simps [simp]:
  "length (set_phase k ph hs) = length hs"
  "k < length hs \<Longrightarrow> set_phase k ph hs ! k' =
     (if k' = k then (hs ! k)\<lparr>th_phase := ph\<rparr> else hs ! k')"
  by (simp_all add: set_phase_def nth_list_update)

lemma retire_holders_simps [simp]:
  "length (retire_holders i hs) = length hs"
  "k < length hs \<Longrightarrow> retire_holders i hs ! k =
     (if th_slot (hs ! k) = i \<and> th_phase (hs ! k) \<noteq> Gone then (hs ! k)\<lparr>th_retired := True\<rparr> else hs ! k)"
  by (simp_all add: retire_holders_def)

lemma slot_guard_ne [simp]: "slot_guard w \<noteq> DETACHED" "guard_sentinel w \<noteq> DETACHED"
  by (simp_all add: slot_guard_def guard_sentinel_def)

lemma slot_guard_same: "slot_guard w = guard_sentinel w"
  by (simp add: slot_guard_def guard_sentinel_def)

text \<open>What the two detaching operations do to a slot.\<close>

lemma gate_shm_detach_slot:
  assumes "gsc_slot a < length (tr_slots r)"
  defines "t \<equiv> tr_slots r ! gsc_slot a"
  shows "length (tr_slots (gate_shm_detach a r)) = length (tr_slots r)"
    and "tr_tail (gate_shm_detach a r) = tr_tail r"
    and "j \<noteq> gsc_slot a \<Longrightarrow> tr_slots (gate_shm_detach a r) ! j = tr_slots r ! j"
    and "ts_control (tr_slots (gate_shm_detach a r) ! gsc_slot a) =
      (if ts_control t = control_word (gsc_epoch a) STATE_ACTIVE
       then control_word (gsc_epoch a) STATE_FREE else ts_control t)"
    and "ts_cursor (tr_slots (gate_shm_detach a r) ! gsc_slot a) = ts_cursor t"
  using assms(1) unfolding t_def
  by (simp_all add: gate_shm_detach_def exchange_control_def exchange_lease_def compare_exchange_def
      set_words_slot)

lemma force_detach_ok:
  assumes "force_detach_table_slot i e r = (Inr (), r')" and "i < length (tr_slots r)"
  shows "ts_control (tr_slots r ! i) = control_word e STATE_ACTIVE"
    and "r' = set_control i (control_word (e + 1) STATE_RETIRED) r"
  using assms
  by (auto simp: force_detach_table_slot_def exchange_control_def compare_exchange_def
      split: if_splits)

end
