(* ===== verification/Shm_Table_Invariant.thy ===== *)
theory Shm_Table_Invariant
  imports Shm_Table_Trace
begin

text \<open>
  The invariants of the consumer table under every interleaving: who occupies
  which slot and at which epoch, and where every word the producer gates on
  stands relative to the consumers it protects.
\<close>

section \<open>Occupancy\<close>

definition th_live :: "table_handle \<Rightarrow> bool" where
  "th_live h \<longleftrightarrow> th_phase h \<noteq> Gone \<and> \<not> th_retired h"

definition occ_ok :: "u64 list \<Rightarrow> table_handle list \<Rightarrow> bool" where
  "occ_ok cs hs \<longleftrightarrow>
     (\<forall>k<length hs. th_slot (hs ! k) < length cs
        \<and> (th_retired (hs ! k) \<longrightarrow> control_state (cs ! th_slot (hs ! k)) = STATE_RETIRED)
        \<and> (th_live (hs ! k) \<longrightarrow> cs ! th_slot (hs ! k) = control_word (th_epoch (hs ! k)) STATE_ACTIVE))
     \<and> (\<forall>k<length hs. \<forall>k'<length hs. k \<noteq> k' \<longrightarrow> th_phase (hs ! k) \<noteq> Gone \<longrightarrow> th_phase (hs ! k') \<noteq> Gone \<longrightarrow>
          th_slot (hs ! k) \<noteq> th_slot (hs ! k'))
     \<and> (\<forall>i<length cs. control_state (cs ! i) = STATE_ACTIVE \<longrightarrow>
          (\<exists>k<length hs. th_slot (hs ! k) = i \<and> th_live (hs ! k)))"

lemma occ_okD:
  assumes "occ_ok cs hs"
  shows "k < length hs \<Longrightarrow> th_slot (hs ! k) < length cs"
    and "k < length hs \<Longrightarrow> th_retired (hs ! k) \<Longrightarrow> control_state (cs ! th_slot (hs ! k)) = STATE_RETIRED"
    and "k < length hs \<Longrightarrow> th_live (hs ! k) \<Longrightarrow>
       cs ! th_slot (hs ! k) = control_word (th_epoch (hs ! k)) STATE_ACTIVE"
    and "k < length hs \<Longrightarrow> k' < length hs \<Longrightarrow> th_phase (hs ! k) \<noteq> Gone \<Longrightarrow> th_phase (hs ! k') \<noteq> Gone \<Longrightarrow>
       th_slot (hs ! k) = th_slot (hs ! k') \<Longrightarrow> k = k'"
    and "i < length cs \<Longrightarrow> control_state (cs ! i) = STATE_ACTIVE \<Longrightarrow>
       \<exists>k<length hs. th_slot (hs ! k) = i \<and> th_live (hs ! k)"
  using assms unfolding occ_ok_def by blast+

text \<open>A free slot has no holder, not even a retired one.\<close>

lemma occ_free:
  assumes "occ_ok cs hs" and "k < length hs" and "control_state (cs ! th_slot (hs ! k)) = STATE_FREE"
  shows "th_phase (hs ! k) = Gone"
proof (rule ccontr)
  assume "th_phase (hs ! k) \<noteq> Gone"
  moreover have "\<not> th_retired (hs ! k)" using occ_okD(2) [OF assms(1,2)] assms(3) by auto
  ultimately have "cs ! th_slot (hs ! k) = control_word (th_epoch (hs ! k)) STATE_ACTIVE"
    using occ_okD(3) [OF assms(1,2)] by (simp add: th_live_def)
  then show False using assms(3) by simp
qed

lemma occ_phase:
  assumes occ: "occ_ok cs hs" and k: "k < length hs" and ne: "th_phase (hs ! k) \<noteq> Gone" "ph \<noteq> Gone"
  shows "occ_ok cs (set_phase k ph hs)"
proof -
  have [simp]: "th_slot (set_phase k ph hs ! j) = th_slot (hs ! j)"
    "th_retired (set_phase k ph hs ! j) = th_retired (hs ! j)"
    "th_epoch (set_phase k ph hs ! j) = th_epoch (hs ! j)"
    "(th_phase (set_phase k ph hs ! j) = Gone) = (th_phase (hs ! j) = Gone)"
    "th_live (set_phase k ph hs ! j) = th_live (hs ! j)" for j
    using k ne by (auto simp: th_live_def)
  show ?thesis using occ unfolding occ_ok_def by simp
qed

lemma occ_claim:
  assumes occ: "occ_ok cs hs" and i: "i < length cs" and free: "control_state (cs ! i) = STATE_FREE"
    and h: "th_slot h = i" "th_epoch h = e" "th_live h"
  shows "occ_ok (cs[i := control_word e STATE_ACTIVE]) (hs @ [h])"
proof -
  have gone: "th_phase (hs ! k) = Gone" if "k < length hs" "th_slot (hs ! k) = i" for k
    using occ_free [OF occ that(1)] free that(2) by simp
  have ret: "\<not> th_retired (hs ! k)" if "k < length hs" "th_slot (hs ! k) = i" for k
    using occ_okD(2) [OF occ that(1)] free that(2) by auto
  show ?thesis
    unfolding occ_ok_def
  proof (intro conjI allI impI)
    fix j assume j: "j < length (cs[i := control_word e STATE_ACTIVE])"
      "control_state (cs[i := control_word e STATE_ACTIVE] ! j) = STATE_ACTIVE"
    show "\<exists>k<length (hs @ [h]). th_slot ((hs @ [h]) ! k) = j \<and> th_live ((hs @ [h]) ! k)"
    proof (cases "j = i")
      case True
      then show ?thesis using h by (intro exI [of _ "length hs"]) simp
    next
      case False
      then obtain k where "k < length hs" "th_slot (hs ! k) = j" "th_live (hs ! k)"
        using occ_okD(5) [OF occ, of j] j by auto
      then show ?thesis by (intro exI [of _ k]) (simp add: nth_append)
    qed
  qed (use occ gone ret h i in \<open>auto simp: nth_append nth_list_update less_Suc_eq th_live_def
        dest: occ_okD split: if_splits\<close>)
qed

lemma occ_detach:
  assumes occ: "occ_ok cs hs" and k: "k < length hs" and ne: "th_phase (hs ! k) \<noteq> Gone"
  defines "i \<equiv> th_slot (hs ! k)" and "e \<equiv> th_epoch (hs ! k)"
  shows "occ_ok (cs[i := if cs ! i = control_word e STATE_ACTIVE then control_word e STATE_FREE else cs ! i])
           (set_phase k Gone hs)"
proof -
  have others: "th_slot (hs ! k') \<noteq> i" if "k' < length hs" "k' \<noteq> k" "th_phase (hs ! k') \<noteq> Gone" for k'
    using occ_okD(4) [OF occ, of k k'] that k ne by (auto simp: i_def)
  have noret: "cs ! i = control_word e STATE_ACTIVE \<Longrightarrow> k' < length hs \<Longrightarrow> th_slot (hs ! k') = i \<Longrightarrow>
      \<not> th_retired (hs ! k')" for k'
    using occ_okD(2) [OF occ, of k'] by auto
  have ret: "th_retired (hs ! k)" if "cs ! i \<noteq> control_word e STATE_ACTIVE"
    using occ_okD(3) [OF occ k] that ne by (auto simp: i_def e_def th_live_def)
  have act: "control_state (cs ! i) \<noteq> STATE_ACTIVE" if "cs ! i \<noteq> control_word e STATE_ACTIVE"
    using occ_okD(2) [OF occ k ret [OF that]] by (simp add: i_def)
  have i: "i < length cs" using occ_okD(1) [OF occ k] by (simp add: i_def)
  show ?thesis
    unfolding occ_ok_def
  proof (intro conjI allI impI)
    fix j assume j: "j < length (cs[i := if cs ! i = control_word e STATE_ACTIVE
          then control_word e STATE_FREE else cs ! i])"
      "control_state (cs[i := if cs ! i = control_word e STATE_ACTIVE
          then control_word e STATE_FREE else cs ! i] ! j) = STATE_ACTIVE"
    then have ji: "j \<noteq> i" using act i by (auto split: if_splits)
    then obtain k' where k': "k' < length hs" "th_slot (hs ! k') = j" "th_live (hs ! k')"
      using occ_okD(5) [OF occ, of j] j by auto
    then have "k' \<noteq> k" using ji by (auto simp: i_def)
    then show "\<exists>k'<length (set_phase k Gone hs). th_slot (set_phase k Gone hs ! k') = j
        \<and> th_live (set_phase k Gone hs ! k')"
      using k' k by (intro exI [of _ k']) simp
  next
    fix k' assume k': "k' < length (set_phase k Gone hs)" "th_live (set_phase k Gone hs ! k')"
    then have "k' \<noteq> k" using k by (auto simp: th_live_def)
    then show "cs[i := if cs ! i = control_word e STATE_ACTIVE
          then control_word e STATE_FREE else cs ! i] ! th_slot (set_phase k Gone hs ! k')
        = control_word (th_epoch (set_phase k Gone hs ! k')) STATE_ACTIVE"
      using k' k others [of k'] occ_okD(3) [OF occ, of k'] by (simp add: th_live_def)
  next
    fix k' assume k': "k' < length (set_phase k Gone hs)" "th_retired (set_phase k Gone hs ! k')"
    then have r: "k' < length hs" "th_retired (hs ! k')" using k by (auto split: if_splits)
    have s: "th_slot (set_phase k Gone hs ! k') = th_slot (hs ! k')" using k by simp
    show "control_state (cs[i := if cs ! i = control_word e STATE_ACTIVE
          then control_word e STATE_FREE else cs ! i] ! th_slot (set_phase k Gone hs ! k')) = STATE_RETIRED"
      using occ_okD(2) [OF occ r] noret [OF _ r(1)] r i unfolding s
      by (cases "th_slot (hs ! k') = i") (auto simp: nth_list_update)
  qed (use occ k in \<open>auto simp: i_def split: if_splits dest: occ_okD\<close>)
qed

lemma occ_force:
  assumes occ: "occ_ok cs hs" and i: "i < length cs" and act: "cs ! i = control_word e STATE_ACTIVE"
  shows "occ_ok (cs[i := control_word e' STATE_RETIRED]) (retire_holders i hs)"
    and "\<exists>k<length hs. th_slot (hs ! k) = i \<and> th_live (hs ! k) \<and> th_epoch (hs ! k) = e"
proof -
  show "\<exists>k<length hs. th_slot (hs ! k) = i \<and> th_live (hs ! k) \<and> th_epoch (hs ! k) = e"
    using occ_okD(5) [OF occ i] occ_okD(3) [OF occ] act by fastforce
  have [simp]: "th_slot (retire_holders i hs ! k) = th_slot (hs ! k)"
    "th_phase (retire_holders i hs ! k) = th_phase (hs ! k)"
    "th_epoch (retire_holders i hs ! k) = th_epoch (hs ! k)" if "k < length hs" for k
    using that by simp_all
  have live: "th_live (retire_holders i hs ! k) \<longleftrightarrow> th_live (hs ! k) \<and> th_slot (hs ! k) \<noteq> i"
    if "k < length hs" for k using that by (auto simp: th_live_def)
  have ret: "th_retired (retire_holders i hs ! k) \<longrightarrow> th_retired (hs ! k) \<or> th_slot (hs ! k) = i"
    if "k < length hs" for k using that by auto
  show "occ_ok (cs[i := control_word e' STATE_RETIRED]) (retire_holders i hs)"
    unfolding occ_ok_def
  proof (intro conjI allI impI)
    fix j assume j: "j < length (cs[i := control_word e' STATE_RETIRED])"
      "control_state (cs[i := control_word e' STATE_RETIRED] ! j) = STATE_ACTIVE"
    then have "j \<noteq> i" using i by auto
    then show "\<exists>k<length (retire_holders i hs). th_slot (retire_holders i hs ! k) = j
        \<and> th_live (retire_holders i hs ! k)"
      using occ_okD(5) [OF occ, of j] j live by (auto simp del: retire_holders_simps(2))
  qed (use occ i live ret in \<open>auto simp: nth_list_update simp del: retire_holders_simps(2)
      dest: occ_okD\<close>)
qed

section \<open>Epochs\<close>

definition claims_of :: "nat \<Rightarrow> table_handle list \<Rightarrow> nat" where
  "claims_of i hs = length (filter (\<lambda>h. th_slot h = i) hs)"

text \<open>A slot's epoch counts the claims of the slot, and its retirement.\<close>

definition epochs_ok :: "(nat \<Rightarrow> u32) \<Rightarrow> u64 list \<Rightarrow> table_handle list \<Rightarrow> bool" where
  "epochs_ok e0 cs hs \<longleftrightarrow>
     (\<forall>i<length cs. control_epoch (cs ! i) = e0 i + of_nat (claims_of i hs)
        + (if control_state (cs ! i) = STATE_RETIRED then 1 else 0))
     \<and> (\<forall>k<length hs. th_epoch (hs ! k) =
          e0 (th_slot (hs ! k)) + of_nat (claims_of (th_slot (hs ! k)) (take (Suc k) hs)))"

lemma claims_of_map:
  assumes "map th_slot hs' = map th_slot hs"
  shows "claims_of i hs' = claims_of i hs" and "claims_of i (take k hs') = claims_of i (take k hs)"
proof -
  have c: "claims_of i xs = length (filter (\<lambda>j. j = i) (map th_slot xs))" for xs
    by (simp add: claims_of_def filter_map comp_def)
  show "claims_of i hs' = claims_of i hs" by (simp add: c assms)
  show "claims_of i (take k hs') = claims_of i (take k hs)"
    by (simp only: c take_map [symmetric] assms)
qed

lemma epochs_handles:
  assumes ep: "epochs_ok e0 cs hs" and s: "map th_slot hs' = map th_slot hs"
    and e: "map th_epoch hs' = map th_epoch hs"
  shows "epochs_ok e0 cs hs'"
proof -
  have len: "length hs' = length hs" using s by (metis length_map)
  have nth: "th_slot (hs' ! k) = th_slot (hs ! k)" "th_epoch (hs' ! k) = th_epoch (hs ! k)"
    if "k < length hs" for k
    using that len s e by (metis nth_map)+
  show ?thesis using ep nth len unfolding epochs_ok_def claims_of_map [OF s] by simp
qed

lemma set_phase_maps [simp]:
  "map th_slot (set_phase k ph hs) = map th_slot hs"
  "map th_epoch (set_phase k ph hs) = map th_epoch hs"
  "map th_slot (retire_holders i hs) = map th_slot hs"
  "map th_epoch (retire_holders i hs) = map th_epoch hs"
     apply (cases "k < length hs"; simp add: set_phase_def map_update list_update_same_conv list_update_beyond)
    apply (cases "k < length hs"; simp add: set_phase_def map_update list_update_same_conv list_update_beyond)
  by (simp_all add: retire_holders_def)

lemma epochs_claim:
  assumes ep: "epochs_ok e0 cs hs" and i: "i < length cs" and free: "control_state (cs ! i) = STATE_FREE"
    and h: "th_slot h = i" "th_epoch h = control_epoch (cs ! i) + 1"
  shows "epochs_ok e0 (cs[i := control_word (control_epoch (cs ! i) + 1) STATE_ACTIVE]) (hs @ [h])"
proof -
  have c: "control_epoch (cs ! i) = e0 i + of_nat (claims_of i hs)"
    using ep i free by (simp add: epochs_ok_def)
  have "th_epoch ((hs @ [h]) ! k) = e0 (th_slot ((hs @ [h]) ! k))
      + of_nat (claims_of (th_slot ((hs @ [h]) ! k)) (take (Suc k) (hs @ [h])))"
    if "k < Suc (length hs)" for k
  proof (cases "k = length hs")
    case True
    then show ?thesis using h c by (simp add: claims_of_def)
  next
    case False
    then show ?thesis using that ep by (simp add: epochs_ok_def nth_append)
  qed
  then show ?thesis
    using ep i h c by (auto simp: epochs_ok_def nth_list_update claims_of_def)
qed

lemma epochs_control:
  assumes ep: "epochs_ok e0 cs hs" and i: "i < length cs"
    and w: "control_epoch w - (if control_state w = STATE_RETIRED then 1 else 0)
       = control_epoch (cs ! i) - (if control_state (cs ! i) = STATE_RETIRED then 1 else 0)"
  shows "epochs_ok e0 (cs[i := w]) hs"
proof -
  have "control_epoch w = e0 i + of_nat (claims_of i hs) + (if control_state w = STATE_RETIRED then 1 else 0)"
    using ep i w by (simp add: epochs_ok_def algebra_simps split: if_splits)
  then show ?thesis using ep i by (simp add: epochs_ok_def nth_list_update)
qed

end
