(* ===== verification/Shm_Table_Gating.thy ===== *)
theory Shm_Table_Gating
  imports Shm_Table_Invariant
begin

text \<open>
  Why a consumer that finished its join is never lapped: positions of the words
  the producer gates on, counted from a cursor \<open>B\<close> one capacity below the first
  published one. \<open>T\<close> is the position of the published cursor.
\<close>

section \<open>Positions\<close>

text \<open>
  A cached cursor is good for a slot at position \<open>x\<close> when it is not ahead of it,
  or so far behind that the next visit reloads it anyway.
\<close>

definition trusted :: "u64 \<Rightarrow> nat \<Rightarrow> nat \<Rightarrow> u64 \<Rightarrow> nat \<Rightarrow> bool" where
  "trusted B T cap c x \<longleftrightarrow> cdist B c \<le> x \<or> cdist B c + cap \<le> T"

definition slot_ok :: "u64 \<Rightarrow> nat \<Rightarrow> table_slot \<Rightarrow> bool" where
  "slot_ok B T t \<longleftrightarrow> (ts_cursor t \<noteq> DETACHED \<longrightarrow> cdist B (ts_cursor t) \<le> T)
     \<and> (control_state (ts_control t) = STATE_FREE \<longrightarrow> ts_cursor t = DETACHED)"

definition entry_ok :: "u64 \<Rightarrow> nat \<Rightarrow> nat \<Rightarrow> table_slot \<Rightarrow> u64 \<Rightarrow> bool" where
  "entry_ok B T cap t c \<longleftrightarrow> cdist B c \<le> T \<and> (c = DETACHED \<longrightarrow> cdist B c + cap \<le> T)
     \<and> (ts_cursor t \<noteq> DETACHED \<longrightarrow> trusted B T cap c (cdist B (ts_cursor t)))"

definition at_read :: "u64 \<Rightarrow> nat \<Rightarrow> table_slot \<Rightarrow> u64 \<Rightarrow> bool" where
  "at_read B T t r \<longleftrightarrow> ts_cursor t \<noteq> DETACHED \<and> cdist B (ts_cursor t) \<le> cdist B r
     \<and> 0 < cdist B r \<and> cdist B r \<le> T"

fun phase_ok :: "u64 \<Rightarrow> nat \<Rightarrow> table_slot \<Rightarrow> u64 \<Rightarrow> join_phase \<Rightarrow> bool" where
  "phase_ok B T t token Registered \<longleftrightarrow> ts_cursor t = DETACHED"
| "phase_ok B T t token (Loaded p) \<longleftrightarrow> ts_cursor t = DETACHED \<and> p \<noteq> DETACHED \<and> cdist B p \<le> T"
| "phase_ok B T t token Provisional \<longleftrightarrow> ts_cursor t \<noteq> DETACHED"
| "phase_ok B T t token (Rejoined j) \<longleftrightarrow> at_read B T t j"
| "phase_ok B T t token (Reading r) \<longleftrightarrow> at_read B T t r \<and> ts_lease t = token"
| "phase_ok B T t token Leaving \<longleftrightarrow> ts_cursor t = DETACHED"
| "phase_ok B T t token Gone \<longleftrightarrow> True"

fun th_reads :: "join_phase \<Rightarrow> u64 option" where
  "th_reads (Rejoined j) = Some j"
| "th_reads (Reading r) = Some r"
| "th_reads _ = None"

definition reads_at :: "table_handle \<Rightarrow> u64 \<Rightarrow> bool" where
  "reads_at h r \<longleftrightarrow> \<not> th_retired h \<and> th_reads (th_phase h) = Some r"

definition handle_ok :: "u64 \<Rightarrow> nat \<Rightarrow> nat \<Rightarrow> u64 \<Rightarrow> u64 list list \<Rightarrow> table_slot \<Rightarrow> table_handle \<Rightarrow> bool" where
  "handle_ok B T cap m cached t h \<longleftrightarrow> phase_ok B T t (th_token h) (th_phase h)
     \<and> (\<forall>r. reads_at h r \<longrightarrow> cdist B m \<le> cdist B r \<and> T \<le> cdist B r + cap)
     \<and> (\<forall>p. th_phase h = Loaded p \<longrightarrow> covers cached (th_slot h) \<longrightarrow>
          trusted B T cap (cache_entry cached (th_slot h)) (cdist B p))"

text \<open>
  During a walk: every protected reader in a slot already visited, or found
  inactive, is no further behind than the lag collected so far.
\<close>

definition visited :: "table_scan \<Rightarrow> nat \<Rightarrow> bool" where
  "visited sc i \<longleftrightarrow> i < sn_slot sc"

definition found_idle :: "table_scan \<Rightarrow> nat \<Rightarrow> bool" where
  "found_idle sc i \<longleftrightarrow> i = sn_slot sc \<and> (\<exists>ctl. sn_control sc = Some ctl \<and> \<not> control_is_active ctl)"

definition sn_behind :: "table_scan \<Rightarrow> nat" where
  "sn_behind sc = (if sn_any sc then unat (sn_lag sc) else 0)"

definition scan_ok :: "u64 \<Rightarrow> nat \<Rightarrow> nat \<Rightarrow> table_handle list \<Rightarrow> u64 list list \<Rightarrow> nat \<Rightarrow> table_scan \<Rightarrow> bool" where
  "scan_ok B T cap hs cached n sc \<longleftrightarrow> 0 < unat (sn_needed sc) \<and> unat (sn_needed sc) \<le> cap
     \<and> sn_slot sc \<le> n \<and> (sn_control sc \<noteq> None \<longrightarrow> sn_slot sc < n)
     \<and> sn_slot sc div CHUNK_SLOTS \<le> length cached \<and> unat (sn_lag sc) \<le> T
     \<and> (\<forall>h\<in>set hs. \<forall>r. reads_at h r \<longrightarrow> visited sc (th_slot h) \<longrightarrow> T \<le> cdist B r + sn_behind sc)
     \<and> (\<forall>h\<in>set hs. \<forall>r. reads_at h r \<longrightarrow> found_idle sc (th_slot h) \<longrightarrow> T \<le> cdist B r)"

definition y_cap :: "table_sys \<Rightarrow> nat" where
  "y_cap s = capacity_of (gp_mask (y_producer s))"

definition y_pos :: "table_sys \<Rightarrow> nat" where
  "y_pos s = y_cap s + y_published s"

definition gating_ok :: "u64 \<Rightarrow> table_sys \<Rightarrow> bool" where
  "gating_ok B s \<longleftrightarrow>
     valid_mask (gp_mask (y_producer s))
     \<and> gp_next_seq (y_producer s) = tr_tail (y_region s) \<and> cdist B (tr_tail (y_region s)) = y_pos s
     \<and> cdist B (gp_cached_min (y_producer s)) \<le> y_pos s
     \<and> rows_full (gp_cached_cursors (y_producer s))
     \<and> (\<forall>t\<in>set (y_slots s). slot_ok B (y_pos s) t)
     \<and> (\<forall>i<length (y_slots s). covers (gp_cached_cursors (y_producer s)) i \<longrightarrow>
          entry_ok B (y_pos s) (y_cap s) (y_slots s ! i) (cache_entry (gp_cached_cursors (y_producer s)) i))
     \<and> (\<forall>h\<in>set (y_handles s). handle_ok B (y_pos s) (y_cap s) (gp_cached_min (y_producer s))
          (gp_cached_cursors (y_producer s)) (y_slots s ! th_slot h) h)
     \<and> (\<forall>sc. y_scan s = Some sc \<longrightarrow>
          scan_ok B (y_pos s) (y_cap s) (y_handles s) (gp_cached_cursors (y_producer s))
            (length (y_slots s)) sc)"

lemma gating_okD:
  assumes "gating_ok B s"
  shows "valid_mask (gp_mask (y_producer s))" and "gp_next_seq (y_producer s) = tr_tail (y_region s)"
    and "cdist B (tr_tail (y_region s)) = y_pos s"
    and "cdist B (gp_cached_min (y_producer s)) \<le> y_pos s"
    and "rows_full (gp_cached_cursors (y_producer s))"
    and "t \<in> set (y_slots s) \<Longrightarrow> slot_ok B (y_pos s) t"
    and "i < length (y_slots s) \<Longrightarrow> covers (gp_cached_cursors (y_producer s)) i \<Longrightarrow>
          entry_ok B (y_pos s) (y_cap s) (y_slots s ! i) (cache_entry (gp_cached_cursors (y_producer s)) i)"
    and "h \<in> set (y_handles s) \<Longrightarrow> handle_ok B (y_pos s) (y_cap s) (gp_cached_min (y_producer s))
          (gp_cached_cursors (y_producer s)) (y_slots s ! th_slot h) h"
    and "y_scan s = Some sc \<Longrightarrow> scan_ok B (y_pos s) (y_cap s) (y_handles s)
          (gp_cached_cursors (y_producer s)) (length (y_slots s)) sc"
  using assms unfolding gating_ok_def by blast+

lemma cdist_inject: "cdist B x = cdist B y \<longleftrightarrow> x = y"
  by (metis add_cdist)

lemma cdist_between: "cdist B x \<le> cdist B y \<Longrightarrow> cdist x y = cdist B y - cdist B x"
  by (rule cdist_rebase)

text \<open>The guarded cursor is behind the cursor and ahead of every word that is not the sentinel.\<close>

lemma slot_guard_position:
  assumes "0 < cdist B r"
  shows "cdist B (slot_guard r) \<le> cdist B r"
    and "x \<noteq> DETACHED \<Longrightarrow> cdist B x \<le> cdist B r \<Longrightarrow> cdist B x \<le> cdist B (slot_guard r)"
proof -
  have one: "cdist B (r - 1) = cdist B r - 1"
  proof -
    have "unat (r - 1 - B) = unat ((r - B) - 1)" by (rule arg_cong) simp
    also have "\<dots> = unat (r - B) - unat (1 :: u64)"
      using assms by (intro unat_sub) (simp add: cdist_def word_le_nat_alt)
    finally show ?thesis unfolding cdist_def by simp
  qed
  show "cdist B (slot_guard r) \<le> cdist B r"
    using one by (cases "r = DETACHED") (auto simp: slot_guard_def)
  show "cdist B x \<le> cdist B (slot_guard r)" if "x \<noteq> DETACHED" "cdist B x \<le> cdist B r"
  proof (cases "r = DETACHED")
    case True
    then have "cdist B x \<noteq> cdist B r" using that(1) by (simp add: cdist_inject)
    then show ?thesis using that True one by (simp add: slot_guard_def)
  qed (use that in \<open>simp add: slot_guard_def\<close>)
qed

lemma trusted_mono:
  "trusted B T cap c x \<Longrightarrow> x \<le> y \<Longrightarrow> T \<le> T' \<Longrightarrow> trusted B T' cap c y"
  by (auto simp: trusted_def)

lemma at_read_mono: "at_read B T t r \<Longrightarrow> T \<le> T' \<Longrightarrow> at_read B T' t r"
  by (auto simp: at_read_def)

lemma phase_ok_mono: "phase_ok B T t token ph \<Longrightarrow> T \<le> T' \<Longrightarrow> phase_ok B T' t token ph"
  by (cases ph) (auto intro: at_read_mono)

lemma entry_ok_mono: "entry_ok B T cap t c \<Longrightarrow> T \<le> T' \<Longrightarrow> entry_ok B T' cap t c"
  by (auto simp: entry_ok_def intro: trusted_mono)

lemma slot_ok_mono: "slot_ok B T t \<Longrightarrow> T \<le> T' \<Longrightarrow> slot_ok B T' t"
  by (auto simp: slot_ok_def)

section \<open>Steps of a consumer\<close>

lemma reads_live: "reads_at h r \<Longrightarrow> th_live h"
  by (cases "th_phase h") (auto simp: reads_at_def th_live_def)

lemma gone_handle_ok: "th_phase h = Gone \<Longrightarrow> handle_ok B T cap m cached t h"
  by (simp add: handle_ok_def reads_at_def)

text \<open>A walk in progress only cares how far the protected readers are.\<close>

lemma scan_ok_readers:
  assumes "scan_ok B T cap hs cached n sc"
    and "\<And>h r. h \<in> set hs' \<Longrightarrow> reads_at h r \<Longrightarrow>
       T \<le> cdist B r \<or> (\<exists>h0\<in>set hs. \<exists>r0. reads_at h0 r0 \<and> th_slot h0 = th_slot h \<and> cdist B r0 \<le> cdist B r)"
  shows "scan_ok B T cap hs' cached n sc"
proof -
  have "T \<le> cdist B r + sn_behind sc" if "h \<in> set hs'" "reads_at h r" "visited sc (th_slot h)" for h r
    using assms(2) [OF that(1,2)] assms(1) that(3) unfolding scan_ok_def by fastforce
  moreover have "T \<le> cdist B r" if "h \<in> set hs'" "reads_at h r" "found_idle sc (th_slot h)" for h r
    using assms(2) [OF that(1,2)] assms(1) that(3) unfolding scan_ok_def by fastforce
  ultimately show ?thesis using assms(1) unfolding scan_ok_def by blast
qed

lemma gating_consumer:
  assumes g: "gating_ok B s"
    and same: "y_producer s' = y_producer s" "tr_tail (y_region s') = tr_tail (y_region s)"
      "y_published s' = y_published s" "y_scan s' = y_scan s" "length (y_slots s') = length (y_slots s)"
    and slots: "\<And>t. t \<in> set (y_slots s') \<Longrightarrow> slot_ok B (y_pos s) t"
    and entries: "\<And>i. i < length (y_slots s) \<Longrightarrow> covers (gp_cached_cursors (y_producer s)) i \<Longrightarrow>
      entry_ok B (y_pos s) (y_cap s) (y_slots s' ! i) (cache_entry (gp_cached_cursors (y_producer s)) i)"
    and handles: "\<And>h. h \<in> set (y_handles s') \<Longrightarrow> handle_ok B (y_pos s) (y_cap s)
      (gp_cached_min (y_producer s)) (gp_cached_cursors (y_producer s)) (y_slots s' ! th_slot h) h"
    and readers: "\<And>h r. h \<in> set (y_handles s') \<Longrightarrow> reads_at h r \<Longrightarrow> y_pos s \<le> cdist B r
      \<or> (\<exists>h0\<in>set (y_handles s). \<exists>r0. reads_at h0 r0 \<and> th_slot h0 = th_slot h \<and> cdist B r0 \<le> cdist B r)"
  shows "gating_ok B s'"
proof -
  have pos: "y_pos s' = y_pos s" "y_cap s' = y_cap s" by (simp_all add: y_pos_def y_cap_def same)
  have "scan_ok B (y_pos s) (y_cap s) (y_handles s') (gp_cached_cursors (y_producer s))
      (length (y_slots s)) sc" if "y_scan s = Some sc" for sc
    by (rule scan_ok_readers [OF gating_okD(9) [OF g that] readers])
  then show ?thesis
    using gating_okD(1-5) [OF g] slots entries handles
    unfolding gating_ok_def pos same by simp
qed

lemma nth_members: "x \<in> set xs \<Longrightarrow> (\<And>k. k < length xs \<Longrightarrow> P (xs ! k)) \<Longrightarrow> P x"
  by (metis in_set_conv_nth)

lemma gating_handle_step:
  assumes g: "gating_ok B s" and occ: "occ_ok (map ts_control (y_slots s)) (y_handles s)"
    and k: "k < length (y_handles s)" and ne: "th_phase (y_handles s ! k) \<noteq> Gone"
    and i: "i = th_slot (y_handles s ! k)"
    and same: "y_producer s' = y_producer s" "tr_tail (y_region s') = tr_tail (y_region s)"
      "y_published s' = y_published s" "y_scan s' = y_scan s"
    and sl: "y_slots s' = (y_slots s)[i := t]" and hs: "y_handles s' = set_phase k ph (y_handles s)"
    and t: "slot_ok B (y_pos s) t"
    and e: "covers (gp_cached_cursors (y_producer s)) i \<Longrightarrow>
      entry_ok B (y_pos s) (y_cap s) t (cache_entry (gp_cached_cursors (y_producer s)) i)"
    and h: "handle_ok B (y_pos s) (y_cap s) (gp_cached_min (y_producer s))
      (gp_cached_cursors (y_producer s)) t ((y_handles s ! k)\<lparr>th_phase := ph\<rparr>)"
    and r: "\<And>r. reads_at ((y_handles s ! k)\<lparr>th_phase := ph\<rparr>) r \<Longrightarrow> y_pos s \<le> cdist B r
      \<or> (\<exists>r0. reads_at (y_handles s ! k) r0 \<and> cdist B r0 \<le> cdist B r)"
  shows "gating_ok B s'"
proof (rule gating_consumer [OF g same])
  have il: "i < length (y_slots s)" using occ_okD(1) [OF occ k] by (simp add: i)
  show "length (y_slots s') = length (y_slots s)" by (simp add: sl)
  show "slot_ok B (y_pos s) t'" if "t' \<in> set (y_slots s')" for t'
    using that t gating_okD(6) [OF g] set_update_subset_insert [of "y_slots s" i t]
    by (auto simp: sl)
  show "entry_ok B (y_pos s) (y_cap s) (y_slots s' ! j) (cache_entry (gp_cached_cursors (y_producer s)) j)"
    if "j < length (y_slots s)" "covers (gp_cached_cursors (y_producer s)) j" for j
    using that e gating_okD(7) [OF g that] il by (cases "j = i") (simp_all add: sl)
  show "handle_ok B (y_pos s) (y_cap s) (gp_cached_min (y_producer s))
      (gp_cached_cursors (y_producer s)) (y_slots s' ! th_slot h') h'" if "h' \<in> set (y_handles s')" for h'
    using that
  proof (rule nth_members)
    fix k' assume k': "k' < length (y_handles s')"
    show "handle_ok B (y_pos s) (y_cap s) (gp_cached_min (y_producer s)) (gp_cached_cursors (y_producer s))
        (y_slots s' ! th_slot (y_handles s' ! k')) (y_handles s' ! k')"
    proof (cases "k' = k")
      case True
      then show ?thesis using h k il by (simp add: hs sl i)
    next
      case False
      then have e: "y_handles s' ! k' = y_handles s ! k'" using k by (simp add: hs)
      show ?thesis
      proof (cases "th_phase (y_handles s ! k') = Gone")
        case True
        then show ?thesis unfolding e by (rule gone_handle_ok)
      next
        case ne': False
        have kl: "k' < length (y_handles s)" using k' by (simp add: hs)
        then have "th_slot (y_handles s ! k') \<noteq> i" using occ_okD(4) [OF occ kl k ne' ne] False i by blast
        then show ?thesis unfolding e using gating_okD(8) [OF g, of "y_handles s ! k'"] kl by (simp add: sl)
      qed
    qed
  qed
  show "y_pos s \<le> cdist B r \<or> (\<exists>h0\<in>set (y_handles s). \<exists>r0. reads_at h0 r0 \<and> th_slot h0 = th_slot h'
      \<and> cdist B r0 \<le> cdist B r)" if "h' \<in> set (y_handles s')" "reads_at h' r" for h' r
  proof -
    from that(1) obtain k' where "k' < length (y_handles s')" and e': "h' = y_handles s' ! k'"
      by (metis in_set_conv_nth)
    then have k': "k' < length (y_handles s)" by (simp add: hs)
    show ?thesis
    proof (cases "k' = k")
      case True
      then have e: "h' = (y_handles s ! k)\<lparr>th_phase := ph\<rparr>" using k k' by (simp add: hs e')
      show ?thesis using r [of r] that(2) k unfolding e by fastforce
    next
      case False
      then have "h' = y_handles s ! k'" using k k' by (simp add: hs e')
      then show ?thesis using that(2) k' by auto
    qed
  qed
qed

text \<open>The stores and loads of one handle, in the order of its life.\<close>

lemma handle_at:
  assumes "gating_ok B s" and "occ_ok (map ts_control (y_slots s)) (y_handles s)"
    and "k < length (y_handles s)"
  shows "th_slot (y_handles s ! k) < length (y_slots s)"
    and "y_slots s ! th_slot (y_handles s ! k) \<in> set (y_slots s)"
    and "slot_ok B (y_pos s) (y_slots s ! th_slot (y_handles s ! k))"
    and "handle_ok B (y_pos s) (y_cap s) (gp_cached_min (y_producer s))
      (gp_cached_cursors (y_producer s)) (y_slots s ! th_slot (y_handles s ! k)) (y_handles s ! k)"
    and "phase_ok B (y_pos s) (y_slots s ! th_slot (y_handles s ! k)) (th_token (y_handles s ! k))
      (th_phase (y_handles s ! k))"
    and "covers (gp_cached_cursors (y_producer s)) (th_slot (y_handles s ! k)) \<Longrightarrow>
      entry_ok B (y_pos s) (y_cap s) (y_slots s ! th_slot (y_handles s ! k))
        (cache_entry (gp_cached_cursors (y_producer s)) (th_slot (y_handles s ! k)))"
proof -
  show l: "th_slot (y_handles s ! k) < length (y_slots s)"
    using occ_okD(1) [OF assms(2,3)] by simp
  then show m: "y_slots s ! th_slot (y_handles s ! k) \<in> set (y_slots s)" by simp
  show "slot_ok B (y_pos s) (y_slots s ! th_slot (y_handles s ! k))"
    by (rule gating_okD(6) [OF assms(1) m])
  show h: "handle_ok B (y_pos s) (y_cap s) (gp_cached_min (y_producer s))
      (gp_cached_cursors (y_producer s)) (y_slots s ! th_slot (y_handles s ! k)) (y_handles s ! k)"
    using gating_okD(8) [OF assms(1)] assms(3) by simp
  then show "phase_ok B (y_pos s) (y_slots s ! th_slot (y_handles s ! k)) (th_token (y_handles s ! k))
      (th_phase (y_handles s ! k))" by (simp add: handle_ok_def)
  show "covers (gp_cached_cursors (y_producer s)) (th_slot (y_handles s ! k)) \<Longrightarrow>
      entry_ok B (y_pos s) (y_cap s) (y_slots s ! th_slot (y_handles s ! k))
        (cache_entry (gp_cached_cursors (y_producer s)) (th_slot (y_handles s ! k)))"
    using gating_okD(7) [OF assms(1) l] .
qed

lemma cap_positive: "gating_ok B s \<Longrightarrow> 0 < y_cap s \<and> 0 < y_pos s"
  using capacity_pos [OF gating_okD(1)] by (simp add: y_cap_def y_pos_def)

lemma gating_load:
  assumes g: "gating_ok B s" and occ: "occ_ok (map ts_control (y_slots s)) (y_handles s)"
    and k: "k < length (y_handles s)" and ph: "th_phase (y_handles s ! k) = Registered"
  shows "gating_ok B (s\<lparr>y_handles := set_phase k (Loaded (slot_guard (tr_tail (y_region s)))) (y_handles s)\<rparr>)"
proof -
  note H = handle_at [OF g occ k]
  let ?p = "slot_guard (tr_tail (y_region s))"
  have T: "cdist B (tr_tail (y_region s)) = y_pos s" by (rule gating_okD(3) [OF g])
  have pos: "0 < cdist B (tr_tail (y_region s))" using cap_positive [OF g] T by simp
  have tr: "trusted B (y_pos s) (y_cap s) c (cdist B ?p)"
    if "entry_ok B (y_pos s) (y_cap s) (y_slots s ! th_slot (y_handles s ! k)) c" for c
    using slot_guard_position(2) [OF pos, of c] that T by (auto simp: entry_ok_def trusted_def)
  show ?thesis
  proof (rule gating_handle_step [OF g occ k _ refl, where t = "y_slots s ! th_slot (y_handles s ! k)"])
    show "handle_ok B (y_pos s) (y_cap s) (gp_cached_min (y_producer s)) (gp_cached_cursors (y_producer s))
      (y_slots s ! th_slot (y_handles s ! k)) ((y_handles s ! k)\<lparr>th_phase := Loaded ?p\<rparr>)"
      using H(5,6) slot_guard_position(1) [OF pos] T tr ph by (simp add: handle_ok_def reads_at_def)
  qed (use H ph in \<open>simp_all add: reads_at_def\<close>)
qed

lemma gating_provisional:
  assumes g: "gating_ok B s" and occ: "occ_ok (map ts_control (y_slots s)) (y_handles s)"
    and k: "k < length (y_handles s)" and ph: "th_phase (y_handles s ! k) = Loaded p"
  shows "gating_ok B (s\<lparr>y_region := set_cursor (th_slot (y_handles s ! k)) p (y_region s),
                    y_handles := set_phase k Provisional (y_handles s)\<rparr>)"
proof -
  note H = handle_at [OF g occ k]
  have p: "p \<noteq> DETACHED" "cdist B p \<le> y_pos s" using H(5) ph by simp_all
  have tr: "trusted B (y_pos s) (y_cap s) (cache_entry (gp_cached_cursors (y_producer s))
      (th_slot (y_handles s ! k))) (cdist B p)"
    if "covers (gp_cached_cursors (y_producer s)) (th_slot (y_handles s ! k))"
    using H(4) ph that by (simp add: handle_ok_def)
  have nf: "control_state (ts_control (y_slots s ! th_slot (y_handles s ! k))) \<noteq> STATE_FREE"
    using occ_free [OF occ k] H(1) ph by auto
  show ?thesis
  proof (rule gating_handle_step [OF g occ k _ refl,
        where t = "(y_slots s ! th_slot (y_handles s ! k))\<lparr>ts_cursor := p\<rparr>" and ph = Provisional])
    show "entry_ok B (y_pos s) (y_cap s) ((y_slots s ! th_slot (y_handles s ! k))\<lparr>ts_cursor := p\<rparr>)
        (cache_entry (gp_cached_cursors (y_producer s)) (th_slot (y_handles s ! k)))"
      if "covers (gp_cached_cursors (y_producer s)) (th_slot (y_handles s ! k))"
      using H(6) [OF that] tr [OF that] by (simp add: entry_ok_def)
  qed (use H p nf ph in \<open>simp_all add: handle_ok_def reads_at_def slot_ok_def set_cursor_def\<close>)
qed

lemma gating_reread:
  assumes g: "gating_ok B s" and occ: "occ_ok (map ts_control (y_slots s)) (y_handles s)"
    and k: "k < length (y_handles s)" and ph: "th_phase (y_handles s ! k) = Provisional"
  shows "gating_ok B (s\<lparr>y_handles := set_phase k (Rejoined (tr_tail (y_region s))) (y_handles s)\<rparr>)"
proof -
  note H = handle_at [OF g occ k]
  have T: "cdist B (tr_tail (y_region s)) = y_pos s" by (rule gating_okD(3) [OF g])
  have w: "ts_cursor (y_slots s ! th_slot (y_handles s ! k)) \<noteq> DETACHED" using H(5) ph by simp
  then have le: "cdist B (ts_cursor (y_slots s ! th_slot (y_handles s ! k))) \<le> y_pos s"
    using H(3) by (simp add: slot_ok_def)
  show ?thesis
  proof (rule gating_handle_step [OF g occ k _ refl, where t = "y_slots s ! th_slot (y_handles s ! k)"])
    show "handle_ok B (y_pos s) (y_cap s) (gp_cached_min (y_producer s)) (gp_cached_cursors (y_producer s))
      (y_slots s ! th_slot (y_handles s ! k))
      ((y_handles s ! k)\<lparr>th_phase := Rejoined (tr_tail (y_region s))\<rparr>)"
      using w le cap_positive [OF g] T gating_okD(4) [OF g]
      by (simp add: handle_ok_def reads_at_def at_read_def)
  qed (use H ph T in \<open>simp_all add: reads_at_def\<close>)
qed

text \<open>Both cursor publishes of a reader: it never moves its word back, nor ahead of itself.\<close>

lemma gating_store_cursor:
  assumes g: "gating_ok B s" and occ: "occ_ok (map ts_control (y_slots s)) (y_handles s)"
    and k: "k < length (y_handles s)" and rd: "th_reads (th_phase (y_handles s ! k)) = Some r"
    and i: "i = th_slot (y_handles s ! k)"
    and t: "t = (y_slots s ! i)\<lparr>ts_cursor := slot_guard r, ts_lease := th_token (y_handles s ! k)\<rparr>"
    and same: "y_producer s' = y_producer s" "tr_tail (y_region s') = tr_tail (y_region s)"
      "y_published s' = y_published s" "y_scan s' = y_scan s"
    and sl: "y_slots s' = (y_slots s)[i := t]"
    and hs: "y_handles s' = set_phase k (Reading r) (y_handles s)"
  shows "gating_ok B s'"
proof -
  note H = handle_at [OF g occ k, folded i]
  have a: "at_read B (y_pos s) (y_slots s ! i) r"
    using H(5) rd by (cases "th_phase (y_handles s ! k)") simp_all
  then have pos: "0 < cdist B r" and w: "ts_cursor (y_slots s ! i) \<noteq> DETACHED"
    and le: "cdist B (ts_cursor (y_slots s ! i)) \<le> cdist B r" "cdist B r \<le> y_pos s"
    by (simp_all add: at_read_def)
  note G = slot_guard_position(1) [OF pos] slot_guard_position(2) [OF pos w le(1)]
  have ne: "th_phase (y_handles s ! k) \<noteq> Gone" using rd by auto
  have nf: "control_state (ts_control (y_slots s ! i)) \<noteq> STATE_FREE"
    using occ_free [OF occ k] H(1) ne by (auto simp: i)
  show ?thesis
  proof (rule gating_handle_step [OF g occ k ne i same sl hs])
    show "slot_ok B (y_pos s) t" using G(1) le nf by (simp add: t slot_ok_def)
    show "entry_ok B (y_pos s) (y_cap s) t (cache_entry (gp_cached_cursors (y_producer s)) i)"
      if "covers (gp_cached_cursors (y_producer s)) i"
      using H(6) [OF that] G(2) w by (auto simp: entry_ok_def t intro: trusted_mono)
    show "handle_ok B (y_pos s) (y_cap s) (gp_cached_min (y_producer s)) (gp_cached_cursors (y_producer s)) t
        ((y_handles s ! k)\<lparr>th_phase := Reading r\<rparr>)"
      using H(4) rd a G(1) by (auto simp: handle_ok_def reads_at_def at_read_def t)
  qed (use rd in \<open>auto simp: reads_at_def\<close>)
qed

lemma gating_read:
  assumes g: "gating_ok B s" and occ: "occ_ok (map ts_control (y_slots s)) (y_handles s)"
    and k: "k < length (y_handles s)" and ph: "th_phase (y_handles s ! k) = Reading r"
    and r: "r \<noteq> tr_tail (y_region s)" and small: "y_pos s < word_span"
  shows "gating_ok B (s\<lparr>y_handles := set_phase k (Reading (r + 1)) (y_handles s)\<rparr>)"
proof -
  note H = handle_at [OF g occ k]
  have a: "at_read B (y_pos s) (y_slots s ! th_slot (y_handles s ! k)) r"
    and l: "ts_lease (y_slots s ! th_slot (y_handles s ! k)) = th_token (y_handles s ! k)"
    using H(5) ph by simp_all
  have "cdist B r \<noteq> y_pos s" using r gating_okD(3) [OF g] by (metis cdist_inject)
  then have lt: "cdist B r < y_pos s" using a by (simp add: at_read_def)
  then have S: "cdist B (r + 1) = Suc (cdist B r)" using cdist_Suc [OF lt small] by simp
  have a': "at_read B (y_pos s) (y_slots s ! th_slot (y_handles s ! k)) (r + 1)"
    using a lt S by (simp add: at_read_def)
  have old: "\<not> th_retired (y_handles s ! k) \<Longrightarrow> cdist B (gp_cached_min (y_producer s)) \<le> cdist B r
      \<and> y_pos s \<le> cdist B r + y_cap s"
    using H(4) ph by (simp add: handle_ok_def reads_at_def)
  show ?thesis
  proof (rule gating_handle_step [OF g occ k _ refl, where t = "y_slots s ! th_slot (y_handles s ! k)"])
    show "handle_ok B (y_pos s) (y_cap s) (gp_cached_min (y_producer s)) (gp_cached_cursors (y_producer s))
      (y_slots s ! th_slot (y_handles s ! k)) ((y_handles s ! k)\<lparr>th_phase := Reading (r + 1)\<rparr>)"
      using a' l old S by (auto simp: handle_ok_def reads_at_def)
  qed (use H ph S in \<open>simp_all add: reads_at_def\<close>)
qed

lemma gating_leave:
  assumes g: "gating_ok B s" and occ: "occ_ok (map ts_control (y_slots s)) (y_handles s)"
    and k: "k < length (y_handles s)" and ne: "th_phase (y_handles s ! k) \<noteq> Gone"
    and i: "i = th_slot (y_handles s ! k)" and ph: "ph = Leaving \<or> ph = Gone"
    and same: "y_producer s' = y_producer s" "tr_tail (y_region s') = tr_tail (y_region s)"
      "y_published s' = y_published s" "y_scan s' = y_scan s"
    and sl: "y_slots s' = (y_slots s)[i := t]" and t: "ts_cursor t = DETACHED"
    and hs: "y_handles s' = set_phase k ph (y_handles s)"
  shows "gating_ok B s'"
proof (rule gating_handle_step [OF g occ k ne i same sl hs])
  note H = handle_at [OF g occ k, folded i]
  show "slot_ok B (y_pos s) t" using t by (simp add: slot_ok_def)
  show "entry_ok B (y_pos s) (y_cap s) t (cache_entry (gp_cached_cursors (y_producer s)) i)"
    if "covers (gp_cached_cursors (y_producer s)) i"
    using H(6) [OF that] t by (simp add: entry_ok_def)
  show "handle_ok B (y_pos s) (y_cap s) (gp_cached_min (y_producer s)) (gp_cached_cursors (y_producer s)) t
        ((y_handles s ! k)\<lparr>th_phase := ph\<rparr>)"
    using ph t by (auto simp: handle_ok_def reads_at_def)
qed (use ph in \<open>auto simp: reads_at_def\<close>)

lemma gating_claim:
  assumes g: "gating_ok B s" and occ: "occ_ok (map ts_control (y_slots s)) (y_handles s)"
    and i: "i < length (y_slots s)" and free: "control_state (ts_control (y_slots s ! i)) = STATE_FREE"
    and w: "control_state w = STATE_ACTIVE" and h: "th_slot h = i" "th_phase h = Registered"
  shows "gating_ok B (s\<lparr>y_region := set_control i w (y_region s), y_handles := y_handles s @ [h]\<rparr>)"
proof (rule gating_consumer [OF g])
  let ?t = "(y_slots s ! i)\<lparr>ts_control := w\<rparr>"
  have sl: "y_slots (s\<lparr>y_region := set_control i w (y_region s), y_handles := y_handles s @ [h]\<rparr>)
      = (y_slots s)[i := ?t]" by (simp add: set_control_def)
  have cur: "ts_cursor (y_slots s ! i) = DETACHED"
    using gating_okD(6) [OF g, of "y_slots s ! i"] i free by (simp add: slot_ok_def)
  show "slot_ok B (y_pos s) t"
    if "t \<in> set (y_slots (s\<lparr>y_region := set_control i w (y_region s), y_handles := y_handles s @ [h]\<rparr>))" for t
    using that gating_okD(6) [OF g] set_update_subset_insert [of "y_slots s" i ?t] cur w
    unfolding sl by (auto simp: slot_ok_def)
  show "entry_ok B (y_pos s) (y_cap s)
      (y_slots (s\<lparr>y_region := set_control i w (y_region s), y_handles := y_handles s @ [h]\<rparr>) ! j)
      (cache_entry (gp_cached_cursors (y_producer s)) j)"
    if "j < length (y_slots s)" "covers (gp_cached_cursors (y_producer s)) j" for j
    using gating_okD(7) [OF g that] i unfolding sl by (cases "j = i") (simp_all add: entry_ok_def)
  show "handle_ok B (y_pos s) (y_cap s) (gp_cached_min (y_producer s)) (gp_cached_cursors (y_producer s))
      (y_slots (s\<lparr>y_region := set_control i w (y_region s), y_handles := y_handles s @ [h]\<rparr>) ! th_slot h') h'"
    if h': "h' \<in> set (y_handles (s\<lparr>y_region := set_control i w (y_region s), y_handles := y_handles s @ [h]\<rparr>))" for h'
  proof (cases "h' = h")
    case True
    then show ?thesis using h i cur by (simp add: handle_ok_def reads_at_def set_words_slot)
  next
    case False
    then obtain k where k: "k < length (y_handles s)" "h' = y_handles s ! k"
      using h' by (auto simp: in_set_conv_nth)
    show ?thesis
    proof (cases "th_slot h' = i")
      case True
      then have "th_phase h' = Gone" using occ_free [OF occ k(1)] i free k by simp
      then show ?thesis by (rule gone_handle_ok)
    next
      case False
      then show ?thesis using gating_okD(8) [OF g, of h'] k i unfolding sl by simp
    qed
  qed
  show "y_pos s \<le> cdist B r \<or> (\<exists>h0\<in>set (y_handles s). \<exists>r0. reads_at h0 r0 \<and> th_slot h0 = th_slot h'
      \<and> cdist B r0 \<le> cdist B r)"
    if "h' \<in> set (y_handles (s\<lparr>y_region := set_control i w (y_region s), y_handles := y_handles s @ [h]\<rparr>))"
      "reads_at h' r" for h' r
    using that h(2) by (auto simp: reads_at_def)
qed simp_all

lemma gating_force:
  assumes g: "gating_ok B s" and i: "i < length (y_slots s)" and w: "control_state w = STATE_RETIRED"
  shows "gating_ok B (s\<lparr>y_region := set_control i w (y_region s),
      y_handles := retire_holders i (y_handles s)\<rparr>)"
proof (rule gating_consumer [OF g])
  let ?t = "(y_slots s ! i)\<lparr>ts_control := w\<rparr>"
  let ?s = "s\<lparr>y_region := set_control i w (y_region s), y_handles := retire_holders i (y_handles s)\<rparr>"
  have sl: "y_slots ?s = (y_slots s)[i := ?t]" by (simp add: set_control_def)
  have old: "\<exists>h\<in>set (y_handles s). th_slot h' = th_slot h \<and> th_phase h' = th_phase h
      \<and> th_token h' = th_token h \<and> (th_retired h \<longrightarrow> th_retired h')"
    if "h' \<in> set (y_handles ?s)" for h'
    using that by (auto simp: retire_holders_def)
  show "slot_ok B (y_pos s) t" if "t \<in> set (y_slots ?s)" for t
    using that gating_okD(6) [OF g] gating_okD(6) [OF g, of "y_slots s ! i"] i w
      set_update_subset_insert [of "y_slots s" i ?t]
    unfolding sl by (auto simp: slot_ok_def)
  show "entry_ok B (y_pos s) (y_cap s) (y_slots ?s ! j) (cache_entry (gp_cached_cursors (y_producer s)) j)"
    if "j < length (y_slots s)" "covers (gp_cached_cursors (y_producer s)) j" for j
    using gating_okD(7) [OF g that] i unfolding sl by (cases "j = i") (simp_all add: entry_ok_def)
  show "handle_ok B (y_pos s) (y_cap s) (gp_cached_min (y_producer s)) (gp_cached_cursors (y_producer s))
      (y_slots ?s ! th_slot h') h'" if h': "h' \<in> set (y_handles ?s)" for h'
  proof -
    obtain h where h: "h \<in> set (y_handles s)" "th_slot h' = th_slot h" "th_phase h' = th_phase h"
      "th_token h' = th_token h" "th_retired h \<longrightarrow> th_retired h'"
      using old [OF h'] by blast
    have "phase_ok B (y_pos s) (y_slots ?s ! th_slot h) (th_token h) (th_phase h)
        = phase_ok B (y_pos s) (y_slots s ! th_slot h) (th_token h) (th_phase h)"
      using i unfolding sl
      by (cases "th_slot h = i"; cases "th_phase h") (simp_all add: at_read_def)
    then show ?thesis
      using gating_okD(8) [OF g h(1)] h(2-5) by (auto simp: handle_ok_def reads_at_def)
  qed
  show "y_pos s \<le> cdist B r \<or> (\<exists>h0\<in>set (y_handles s). \<exists>r0. reads_at h0 r0 \<and> th_slot h0 = th_slot h'
      \<and> cdist B r0 \<le> cdist B r)" if "h' \<in> set (y_handles ?s)" "reads_at h' r" for h' r
    using old [OF that(1)] that(2) unfolding reads_at_def by (metis le_refl)
qed simp_all

section \<open>Steps of the producer\<close>

lemma y_capacity_nat: "unat (y_capacity s) = y_cap s"
  by (simp add: y_cap_def)

lemma gating_scan_start:
  assumes g: "gating_ok B s" and n: "0 < needed" "needed \<le> y_capacity s"
  shows "gating_ok B (s\<lparr>y_scan := Some \<lparr>sn_needed = needed, sn_slot = 0, sn_control = None,
                                    sn_any = False, sn_lag = 0\<rparr>\<rparr>)"
proof -
  have "0 < unat needed" "unat needed \<le> y_cap s"
    using n y_capacity_nat [of s] by (simp_all add: word_less_nat_alt word_le_nat_alt)
  then show ?thesis
    using g unfolding gating_ok_def
    by (simp add: scan_ok_def visited_def found_idle_def y_pos_def y_cap_def)
qed

lemma gating_scan_control:
  assumes g: "gating_ok B s" and occ: "occ_ok (map ts_control (y_slots s)) (y_handles s)"
    and sc: "y_scan s = Some sc" and c: "sn_control sc = None" and i: "sn_slot sc < length (y_slots s)"
  shows "gating_ok B (s\<lparr>y_scan := Some (sc\<lparr>sn_control := Some (ts_control (y_slots s ! sn_slot sc))\<rparr>)\<rparr>)"
proof -
  have act: "control_is_active (ts_control (y_slots s ! th_slot h))"
    if "h \<in> set (y_handles s)" "reads_at h r" for h r
  proof -
    from that(1) obtain k where k: "k < length (y_handles s)" "h = y_handles s ! k"
      by (metis in_set_conv_nth)
    then have "map ts_control (y_slots s) ! th_slot h = control_word (th_epoch h) STATE_ACTIVE"
      using occ_okD(3) [OF occ k(1)] reads_live [OF that(2)] by simp
    moreover have "th_slot h < length (y_slots s)" using occ_okD(1) [OF occ k(1)] k by simp
    ultimately show ?thesis by (simp add: control_is_active_def)
  qed
  have "scan_ok B (y_pos s) (y_cap s) (y_handles s) (gp_cached_cursors (y_producer s)) (length (y_slots s))
     (sc\<lparr>sn_control := Some (ts_control (y_slots s ! sn_slot sc))\<rparr>)"
    using gating_okD(9) [OF g sc] act i
    unfolding scan_ok_def visited_def found_idle_def sn_behind_def by fastforce
  then show ?thesis using g unfolding gating_ok_def by (simp add: y_pos_def y_cap_def)
qed

lemma gating_scan_end:
  assumes g: "gating_ok B s" and occ: "occ_ok (map ts_control (y_slots s)) (y_handles s)"
    and sc: "y_scan s = Some sc" and c: "sn_control sc = None" and i: "sn_slot sc = length (y_slots s)"
    and r: "rescan_gate (gp_next_seq (y_producer s)) (sn_needed sc) (y_capacity s)
       (sn_any sc, sn_lag sc) = (ok, m)"
    and small: "y_pos s < word_span"
  shows "gating_ok B (s\<lparr>y_scan := None, y_producer := (y_producer s)\<lparr>gp_cached_min := m\<rparr>\<rparr>)"
proof -
  let ?nx = "tr_tail (y_region s)"
  have T: "cdist B ?nx = y_pos s" by (rule gating_okD(3) [OF g])
  note S = gating_okD(9) [OF g sc]
  define d where "d = (if sn_any sc then sn_lag sc else 1)"
  have m: "m = ?nx - d"
    using r gating_okD(2) [OF g] by (auto simp: rescan_gate_def Let_def d_def)
  have d: "unat d \<le> y_pos s" "sn_behind sc \<le> unat d"
    using S cap_positive [OF g] by (auto simp: scan_ok_def d_def sn_behind_def)
  have pm: "cdist B m = y_pos s - unat d"
  proof -
    have "unat (?nx - d - B) = unat ((?nx - B) - d)" by (rule arg_cong) simp
    also have "\<dots> = unat (?nx - B) - unat d"
      using d(1) T by (intro unat_sub) (simp add: cdist_def word_le_nat_alt)
    finally show ?thesis using T by (simp add: m cdist_def)
  qed
  have rd: "cdist B m \<le> cdist B r" if "h \<in> set (y_handles s)" "reads_at h r" for h r
  proof -
    from that(1) obtain k where k: "k < length (y_handles s)" "h = y_handles s ! k"
      by (metis in_set_conv_nth)
    have "visited sc (th_slot h)" using occ_okD(1) [OF occ k(1)] k i by (simp add: visited_def)
    then have "y_pos s \<le> cdist B r + sn_behind sc" using S that unfolding scan_ok_def by blast
    then show ?thesis using pm d by simp
  qed
  have "handle_ok B (y_pos s) (y_cap s) m (gp_cached_cursors (y_producer s)) (y_slots s ! th_slot h) h"
    if "h \<in> set (y_handles s)" for h
    using gating_okD(8) [OF g that] rd [OF that] by (simp add: handle_ok_def)
  then show ?thesis
    using g pm unfolding gating_ok_def by (simp add: y_pos_def y_cap_def)
qed

lemma gating_publish:
  assumes g: "gating_ok B s" and sc: "y_scan s = None" and a: "amount \<le> y_capacity s"
    and ok: "\<not> gate_lacks_space (gp_next_seq (y_producer s)) amount (gp_cached_min (y_producer s)) (y_capacity s)"
    and small: "y_pos s + y_cap s < word_span"
  shows "gating_ok B (s\<lparr>y_producer := (y_producer s)\<lparr>gp_next_seq := gp_next_seq (y_producer s) + amount\<rparr>,
                    y_region := set_tail (gp_next_seq (y_producer s) + amount) (y_region s),
                    y_published := y_published s + unat amount\<rparr>)"
proof -
  let ?nx = "tr_tail (y_region s)" and ?m = "gp_cached_min (y_producer s)"
  have T: "cdist B ?nx = y_pos s" by (rule gating_okD(3) [OF g])
  have nx: "gp_next_seq (y_producer s) = ?nx" by (rule gating_okD(2) [OF g])
  have al: "unat amount \<le> y_cap s" using a y_capacity_nat [of s] by (simp add: word_le_nat_alt)
  have ml: "cdist B ?m \<le> y_pos s" by (rule gating_okD(4) [OF g])
  have md: "cdist ?m ?nx = y_pos s - cdist B ?m" using cdist_between [of B ?m ?nx] ml T by simp
  then have "cdist ?m ?nx + unat amount < word_span" using al small by simp
  then have fit: "y_pos s + unat amount \<le> cdist B ?m + y_cap s"
    using ok gate_lacks_iff [of ?m ?nx amount "y_capacity s"] md ml y_capacity_nat [of s] nx by simp
  have T': "cdist B (?nx + amount) = y_pos s + unat amount"
    using cdist_add [of B ?nx amount] T al small by simp
  have h: "handle_ok B (y_pos s + unat amount) (y_cap s) ?m (gp_cached_cursors (y_producer s))
      (y_slots s ! th_slot h) h" if "h \<in> set (y_handles s)" for h
    using gating_okD(8) [OF g that] fit
    by (auto simp: handle_ok_def intro: phase_ok_mono trusted_mono)
  have e: "entry_ok B (y_pos s + unat amount) (y_cap s) (y_slots s ! i)
      (cache_entry (gp_cached_cursors (y_producer s)) i)"
    if "i < length (y_slots s)" "covers (gp_cached_cursors (y_producer s)) i" for i
    using gating_okD(7) [OF g that] by (rule entry_ok_mono) simp
  have t: "slot_ok B (y_pos s + unat amount) t" if "t \<in> set (y_slots s)" for t
    using gating_okD(6) [OF g that] by (rule slot_ok_mono) simp
  have p: "y_pos (s\<lparr>y_producer := (y_producer s)\<lparr>gp_next_seq := gp_next_seq (y_producer s) + amount\<rparr>,
                    y_region := set_tail (gp_next_seq (y_producer s) + amount) (y_region s),
                    y_published := y_published s + unat amount\<rparr>) = y_pos s + unat amount"
    by (simp add: y_pos_def y_cap_def)
  have cp: "y_cap (s\<lparr>y_producer := (y_producer s)\<lparr>gp_next_seq := gp_next_seq (y_producer s) + amount\<rparr>,
                    y_region := set_tail (gp_next_seq (y_producer s) + amount) (y_region s),
                    y_published := y_published s + unat amount\<rparr>) = y_cap s"
    by (simp add: y_cap_def)
  show ?thesis
    unfolding gating_ok_def p cp
    using gating_okD(1,5) [OF g] ml T' h e t sc by (simp add: nx)
qed

lemma gating_reattach:
  assumes g: "gating_ok B s"
  shows "gating_ok B (s\<lparr>y_scan := None,
     y_producer := fresh_gate (gp_mask (y_producer s)) (tr_tail (y_region s))\<rparr>)"
proof -
  let ?nx = "tr_tail (y_region s)" and ?c = "y_capacity s"
  have T: "cdist B ?nx = y_pos s" by (rule gating_okD(3) [OF g])
  have pm: "cdist B (?nx - ?c) = y_published s"
  proof -
    have "unat (?nx - ?c - B) = unat ((?nx - B) - ?c)" by (rule arg_cong) simp
    also have "\<dots> = unat (?nx - B) - unat ?c"
      using T y_capacity_nat [of s] by (intro unat_sub) (simp add: cdist_def word_le_nat_alt y_pos_def)
    finally show ?thesis using T y_capacity_nat [of s] by (simp add: cdist_def y_pos_def)
  qed
  have "handle_ok B (y_pos s) (y_cap s) (?nx - ?c) [] (y_slots s ! th_slot h) h"
    if "h \<in> set (y_handles s)" for h
    using gating_okD(8) [OF g that] pm by (auto simp: handle_ok_def covers_def y_pos_def)
  then show ?thesis
    using g T pm unfolding gating_ok_def
    by (simp add: y_pos_def y_cap_def fresh_gate_def rows_full_def covers_def)
qed

text \<open>One visited slot: what the lag then covers, and a cache as sound as before.\<close>

lemma position_lag:
  assumes "cdist B c \<le> T" and "cdist B nx = T"
  shows "unat (nx - c) = T - cdist B c"
  using cdist_between [of B c nx] assms by (simp add: cdist_def)

lemma visit_entries:
  assumes v: "table_visit nx needed cap i ctl (ts_cursor (ts ! i)) (cached, a, lag) = (c', a', lag')"
    and T: "cdist B nx = T" "unat cap \<le> T" "T < word_span" and i: "i < length ts"
    and at: "i div CHUNK_SLOTS \<le> length cached" and rows: "rows_full cached"
    and slots: "slot_ok B T (ts ! i)"
    and entries: "\<forall>j<length ts. covers cached j \<longrightarrow> entry_ok B T (unat cap) (ts ! j) (cache_entry cached j)"
  shows "rows_full c'" and "covers c' i"
    and "\<And>j. j < length ts \<Longrightarrow> covers c' j \<Longrightarrow> entry_ok B T (unat cap) (ts ! j) (cache_entry c' j)"
    and "\<And>j x. covers c' j \<Longrightarrow> (j = i \<Longrightarrow> ts_cursor (ts ! i) = DETACHED) \<Longrightarrow>
       (covers cached j \<Longrightarrow> trusted B T (unat cap) (cache_entry cached j) x) \<Longrightarrow>
       trusted B T (unat cap) (cache_entry c' j) x"
proof -
  define c1 where "c1 = cache_seed (nx - cap) i cached"
  have cov: "covers c1 i" using at by (simp add: c1_def cache_seed_covers(1))
  have rows1: "rows_full c1" using rows by (simp add: c1_def)
  have ent: "cache_entry c1 j = (if covers cached j then cache_entry cached j else nx - cap)"
    if "covers c1 j" for j
    using that cache_seed_entry unfolding c1_def by blast
  have seed: "cdist B (nx - cap) + unat cap = T"
  proof -
    have "unat (nx - cap - B) = unat ((nx - B) - cap)" by (rule arg_cong) simp
    also have "\<dots> = unat (nx - B) - unat cap"
      using T by (intro unat_sub) (simp add: cdist_def word_le_nat_alt)
    finally show ?thesis using T by (simp add: cdist_def)
  qed
  have e1: "entry_ok B T (unat cap) (ts ! j) (cache_entry c1 j)" if "j < length ts" "covers c1 j" for j
    using ent [OF that(2)] entries that(1) seed
    by (cases "covers cached j") (auto simp: entry_ok_def trusted_def)
  have t1: "trusted B T (unat cap) (cache_entry c1 j) x"
    if "covers c1 j" "covers cached j \<Longrightarrow> trusted B T (unat cap) (cache_entry cached j) x" for j x
    using ent [OF that(1)] that(2) seed by (simp add: trusted_def)
  have put: "entry_ok B T (unat cap) (ts ! j) (cache_entry (cache_put c1 i (ts_cursor (ts ! i))) j)"
    if "ts_cursor (ts ! i) \<noteq> DETACHED" "j < length ts" "covers c1 j" for j
    using that e1 rows1 cov slots
    by (cases "j = i") (simp_all add: cache_put_same cache_put_other entry_ok_def slot_ok_def trusted_def)
  from v have "rows_full c' \<and> covers c' i
     \<and> (\<forall>j<length ts. covers c' j \<longrightarrow> entry_ok B T (unat cap) (ts ! j) (cache_entry c' j))
     \<and> (\<forall>j. covers c' j \<longrightarrow> covers c1 j \<and> (j \<noteq> i \<or> ts_cursor (ts ! i) = DETACHED \<longrightarrow>
           cache_entry c' j = cache_entry c1 j))"
  proof (cases rule: table_visit_cases [case_names idle gone reload cached])
    case reload
    then show ?thesis using put rows1 cov by (simp add: c1_def [symmetric] cache_put_other)
  qed (use rows1 cov e1 in \<open>simp_all add: c1_def [symmetric]\<close>)
  note F = this
  show "rows_full c'" and "covers c' i"
    and "\<And>j. j < length ts \<Longrightarrow> covers c' j \<Longrightarrow> entry_ok B T (unat cap) (ts ! j) (cache_entry c' j)"
    using F by blast+
  show "trusted B T (unat cap) (cache_entry c' j) x"
    if "covers c' j" "j = i \<Longrightarrow> ts_cursor (ts ! i) = DETACHED"
      "covers cached j \<Longrightarrow> trusted B T (unat cap) (cache_entry cached j) x" for j x
  proof -
    have "covers c1 j" "cache_entry c' j = cache_entry c1 j" using F that(1,2) by blast+
    then show ?thesis using t1 that(3) by simp
  qed
qed

text \<open>The lag after the visit covers what it covered before, and the slot's own cursor.\<close>

lemma visit_lag:
  assumes v: "table_visit nx needed cap i ctl w (cached, a, lag) = (c', a', lag')"
    and T: "cdist B nx = T" "T + unat cap < word_span" "unat cap \<le> T"
    and n: "0 < unat needed" "unat needed \<le> unat cap"
    and at: "i div CHUNK_SLOTS \<le> length cached"
    and w: "w \<noteq> DETACHED \<longrightarrow> cdist B w \<le> T" and lag: "unat lag \<le> T"
    and e: "covers cached i \<longrightarrow> cdist B (cache_entry cached i) \<le> T
       \<and> (w \<noteq> DETACHED \<longrightarrow> trusted B T (unat cap) (cache_entry cached i) (cdist B w))"
  shows "unat lag' \<le> T" and "a \<Longrightarrow> a'" and "unat lag \<le> unat lag'"
    and "control_is_active ctl \<Longrightarrow> w \<noteq> DETACHED \<Longrightarrow> a' \<and> T \<le> cdist B w + unat lag'"
proof -
  define c1 where "c1 = cache_seed (nx - cap) i cached"
  have cov: "covers c1 i" using at by (simp add: c1_def cache_seed_covers(1))
  have ent: "cache_entry c1 i = (if covers cached i then cache_entry cached i else nx - cap)"
    using cov cache_seed_entry unfolding c1_def by blast
  have seed: "cdist B (nx - cap) + unat cap = T"
  proof -
    have "unat (nx - cap - B) = unat ((nx - B) - cap)" by (rule arg_cong) simp
    also have "\<dots> = unat (nx - B) - unat cap"
      using T by (intro unat_sub) (simp add: cdist_def word_le_nat_alt)
    finally show ?thesis using T by (simp add: cdist_def)
  qed
  have e1: "cdist B (cache_entry c1 i) \<le> T"
    "w \<noteq> DETACHED \<Longrightarrow> trusted B T (unat cap) (cache_entry c1 i) (cdist B w)"
    using ent e seed by (auto simp: trusted_def split: if_splits)
  have mx: "unat (max x y) = max (unat x) (unat y)" for x y :: u64
    by (simp add: max_def word_le_nat_alt)
  have pl: "unat (nx - cache_entry c1 i) = T - cdist B (cache_entry c1 i)"
    by (rule position_lag [OF e1(1) T(1)])
  have pw: "w \<noteq> DETACHED \<Longrightarrow> unat (nx - w) = T - cdist B w"
    using position_lag [OF _ T(1)] w by blast
  have near: "cdist (cache_entry c1 i) nx + unat needed < word_span"
    using pl T n by (simp add: cdist_def)
  have L: "gate_lacks_space nx needed (cache_entry c1 i) cap
      \<longleftrightarrow> unat cap < T - cdist B (cache_entry c1 i) + unat needed"
    using gate_lacks_iff [OF near] pl by (simp add: cdist_def)
  from v have "unat lag' \<le> T \<and> (a \<longrightarrow> a') \<and> unat lag \<le> unat lag'
      \<and> (control_is_active ctl \<longrightarrow> w \<noteq> DETACHED \<longrightarrow> a' \<and> T \<le> cdist B w + unat lag')"
  proof (cases rule: table_visit_cases [case_names idle gone reload cached])
    case reload
    then show ?thesis using lag pw by (simp add: mx)
  next
    case cached
    note r = cached [folded c1_def]
    have fits: "T - cdist B (cache_entry c1 i) + unat needed \<le> unat cap" using r(2) L by simp
    have "T \<le> cdist B w + unat lag'" if "w \<noteq> DETACHED"
    proof -
      have "\<not> cdist B (cache_entry c1 i) + unat cap \<le> T" using fits n(1) by linarith
      then have "cdist B (cache_entry c1 i) \<le> cdist B w" using e1(2) [OF that] by (simp add: trusted_def)
      then show ?thesis using r(5) pl by (simp add: mx)
    qed
    then show ?thesis using r(4,5) lag pl by (simp add: mx)
  qed (use lag in simp_all)
  then show "unat lag' \<le> T" and "a \<Longrightarrow> a'" and "unat lag \<le> unat lag'"
    and "control_is_active ctl \<Longrightarrow> w \<noteq> DETACHED \<Longrightarrow> a' \<and> T \<le> cdist B w + unat lag'" by blast+
qed

lemma gating_scan_cursor:
  assumes g: "gating_ok B s"
    and sc: "y_scan s = Some sc" and c: "sn_control sc = Some ctl"
    and v: "table_visit (gp_next_seq (y_producer s)) (sn_needed sc) (y_capacity s) (sn_slot sc) ctl
       (ts_cursor (y_slots s ! sn_slot sc))
       (gp_cached_cursors (y_producer s), sn_any sc, sn_lag sc) = (cached, any_active, lag)"
    and small: "y_pos s + y_cap s < word_span"
  shows "gating_ok B (s\<lparr>y_scan := Some (sc\<lparr>sn_slot := Suc (sn_slot sc), sn_control := None,
                                       sn_any := any_active, sn_lag := lag\<rparr>),
                    y_producer := (y_producer s)\<lparr>gp_cached_cursors := cached\<rparr>\<rparr>)"
    (is "gating_ok B ?s'")
proof -
  let ?i = "sn_slot sc" and ?nx = "tr_tail (y_region s)" and ?old = "gp_cached_cursors (y_producer s)"
  let ?t = "y_slots s ! ?i"
  note S = gating_okD(9) [OF g sc]
  have i: "?i < length (y_slots s)" using S c by (simp add: scan_ok_def)
  have at: "?i div CHUNK_SLOTS \<le> length ?old" using S by (simp add: scan_ok_def)
  have n: "0 < unat (sn_needed sc)" "unat (sn_needed sc) \<le> unat (y_capacity s)"
    using S y_capacity_nat [of s] by (simp_all add: scan_ok_def)
  have T: "cdist B ?nx = y_pos s" by (rule gating_okD(3) [OF g])
  have capT: "unat (y_capacity s) \<le> y_pos s" using y_capacity_nat [of s] by (simp add: y_pos_def)
  have small': "y_pos s + unat (y_capacity s) < word_span" using small y_capacity_nat [of s] by simp
  have lagT: "unat (sn_lag sc) \<le> y_pos s" using S by (simp add: scan_ok_def)
  have slot: "slot_ok B (y_pos s) ?t" by (rule gating_okD(6) [OF g]) (use i in simp)
  have ent: "\<forall>j<length (y_slots s). covers ?old j \<longrightarrow>
      entry_ok B (y_pos s) (unat (y_capacity s)) (y_slots s ! j) (cache_entry ?old j)"
    using gating_okD(7) [OF g] y_capacity_nat [of s] by simp
  have ei: "covers ?old ?i \<longrightarrow> cdist B (cache_entry ?old ?i) \<le> y_pos s
     \<and> (ts_cursor ?t \<noteq> DETACHED \<longrightarrow> trusted B (y_pos s) (unat (y_capacity s)) (cache_entry ?old ?i) (cdist B (ts_cursor ?t)))"
    using ent i by (simp add: entry_ok_def)
  have w: "ts_cursor ?t \<noteq> DETACHED \<longrightarrow> cdist B (ts_cursor ?t) \<le> y_pos s" using slot by (simp add: slot_ok_def)
  note v' = v [unfolded gating_okD(2) [OF g]]
  have "y_pos s < word_span" using small by simp
  note E = visit_entries [OF v' T capT this i at gating_okD(5) [OF g] slot ent]
  note L = visit_lag [OF v' T small' capT n at w lagT ei]
  have hk: "handle_ok B (y_pos s) (y_cap s) (gp_cached_min (y_producer s)) cached (y_slots s ! th_slot h) h"
    if "h \<in> set (y_handles s)" for h
  proof -
    note H = gating_okD(8) [OF g that]
    have "trusted B (y_pos s) (y_cap s) (cache_entry cached (th_slot h)) (cdist B p)"
      if "th_phase h = Loaded p" "covers cached (th_slot h)" for p
    proof -
      have "ts_cursor (y_slots s ! th_slot h) = DETACHED" using H that(1) by (simp add: handle_ok_def)
      moreover have "covers ?old (th_slot h) \<Longrightarrow>
          trusted B (y_pos s) (unat (y_capacity s)) (cache_entry ?old (th_slot h)) (cdist B p)"
        using H that(1) y_capacity_nat [of s] by (simp add: handle_ok_def)
      ultimately show ?thesis using E(4) [OF that(2)] y_capacity_nat [of s] by metis
    qed
    then show ?thesis using H by (simp add: handle_ok_def)
  qed
  have rd: "y_pos s \<le> cdist B r + (if any_active then unat lag else 0)"
    if h: "h \<in> set (y_handles s)" and r: "reads_at h r" and vis: "th_slot h < Suc ?i" for h r
  proof (cases "th_slot h = ?i")
    case False
    then have "visited sc (th_slot h)" using vis by (simp add: visited_def)
    then have "y_pos s \<le> cdist B r + sn_behind sc" using S h r unfolding scan_ok_def by blast
    then show ?thesis using L(2,3) by (auto simp: sn_behind_def split: if_splits)
  next
    case True
    show ?thesis
    proof (cases "control_is_active ctl")
      case False
      then have "found_idle sc (th_slot h)" using True c by (simp add: found_idle_def)
      then have "y_pos s \<le> cdist B r" using S h r unfolding scan_ok_def by blast
      then show ?thesis by simp
    next
      case act: True
      have "at_read B (y_pos s) ?t r"
        using gating_okD(8) [OF g h] r True by (cases "th_phase h") (auto simp: handle_ok_def reads_at_def)
      then have "ts_cursor ?t \<noteq> DETACHED" "cdist B (ts_cursor ?t) \<le> cdist B r" by (simp_all add: at_read_def)
      then show ?thesis using L(4) [OF act] by simp
    qed
  qed
  have "scan_ok B (y_pos s) (y_cap s) (y_handles s) cached (length (y_slots s))
     (sc\<lparr>sn_slot := Suc ?i, sn_control := None, sn_any := any_active, sn_lag := lag\<rparr>)"
    using S i covers_next [OF E(2)] L(1) rd
    by (cases any_active) (simp_all add: scan_ok_def visited_def found_idle_def sn_behind_def)
  then show ?thesis
    using gating_okD(1-4,6) [OF g] E(1,3) hk y_capacity_nat [of s]
    unfolding gating_ok_def by (simp add: y_pos_def y_cap_def)
qed

section \<open>Every step\<close>

definition y_controls :: "table_sys \<Rightarrow> u64 list" where
  "y_controls s = map ts_control (y_slots s)"

lemma controls_same:
  "map ts_control (tr_slots (set_cursor i w r)) = map ts_control (tr_slots r)"
  "map ts_control (tr_slots (set_lease i w r)) = map ts_control (tr_slots r)"
  by (cases "i < length (tr_slots r)";
      simp add: set_cursor_def set_lease_def map_update list_update_same_conv list_update_beyond)+

lemma controls_set:
  "map ts_control (tr_slots (set_control i w r)) = (map ts_control (tr_slots r))[i := w]"
  by (simp add: set_control_def map_update)

lemma detach_slots:
  assumes "gsc_slot a < length (tr_slots r)"
  defines "t \<equiv> tr_slots r ! gsc_slot a"
  obtains t' where "tr_slots (gate_shm_detach a r) = (tr_slots r)[gsc_slot a := t']"
    and "ts_cursor t' = ts_cursor t"
    and "ts_control t' = (if ts_control t = control_word (gsc_epoch a) STATE_ACTIVE
       then control_word (gsc_epoch a) STATE_FREE else ts_control t)"
proof -
  let ?i = "gsc_slot a" and ?r' = "gate_shm_detach a r"
  have "tr_slots ?r' = (tr_slots r)[?i := tr_slots ?r' ! ?i]"
  proof (rule nth_equalityI)
    show "tr_slots ?r' ! j = (tr_slots r)[?i := tr_slots ?r' ! ?i] ! j" if "j < length (tr_slots ?r')" for j
      using that assms(1) gate_shm_detach_slot(3) [OF assms(1)] by (cases "j = ?i") simp_all
  qed (simp add: gate_shm_detach_slot(1) [OF assms(1)])
  then show ?thesis
    using that gate_shm_detach_slot(4,5) [OF assms(1)] unfolding t_def by blast
qed

lemma step_occupancy:
  assumes st: "table_step s s'" and occ: "occ_ok (y_controls s) (y_handles s)"
    and ep: "epochs_ok e0 (y_controls s) (y_handles s)"
  shows "occ_ok (y_controls s') (y_handles s') \<and> epochs_ok e0 (y_controls s') (y_handles s')"
  using st
proof cases
  case (claim slot current w token)
  let ?c = "ts_control (y_slots s ! slot)"
  have e: "current = ?c" "w = control_word (control_epoch ?c + 1) STATE_ACTIVE"
    using claim(4) by (auto simp: claim_exchange_def compare_exchange_def split: if_splits)
  have i: "slot < length (y_controls s)" and c: "y_controls s ! slot = ?c"
    using claim(2) by (simp_all add: y_controls_def)
  have cs: "y_controls s' = (y_controls s)[slot := control_word (control_epoch (y_controls s ! slot) + 1) STATE_ACTIVE]"
    using claim(1) e c by (simp add: y_controls_def controls_set)
  have f: "control_state (y_controls s ! slot) = STATE_FREE" using claim(3) e c by simp
  let ?h = "\<lparr>th_slot = slot, th_epoch = control_epoch current + 1, th_token = token,
      th_phase = Registered, th_retired = False\<rparr>"
  have hs: "y_handles s' = y_handles s @ [?h]" using claim(1) by simp
  show ?thesis
    unfolding cs hs
    using occ_claim [OF occ i f, of ?h] epochs_claim [OF ep i f, of ?h] e c by (simp add: th_live_def)
next
  case (detach k a pid)
  have k: "k < length (y_handles s)" "th_phase (y_handles s ! k) \<noteq> Gone" using detach by simp_all
  have il: "gsc_slot a < length (y_slots s)"
    using occ_okD(1) [OF occ k(1)] detach(4) by (simp add: y_controls_def)
  obtain t where t: "tr_slots (gate_shm_detach a (y_region s)) = (y_slots s)[gsc_slot a := t]"
    "ts_control t = (if ts_control (y_slots s ! gsc_slot a) = control_word (gsc_epoch a) STATE_ACTIVE
       then control_word (gsc_epoch a) STATE_FREE else ts_control (y_slots s ! gsc_slot a))"
    using detach_slots [OF il] by metis
  have cs: "y_controls s' = (y_controls s)[th_slot (y_handles s ! k) :=
      if y_controls s ! th_slot (y_handles s ! k) = control_word (th_epoch (y_handles s ! k)) STATE_ACTIVE
      then control_word (th_epoch (y_handles s ! k)) STATE_FREE else y_controls s ! th_slot (y_handles s ! k)]"
    using detach(1,4) t il by (simp add: y_controls_def map_update)
  have hs: "y_handles s' = set_phase k Gone (y_handles s)" using detach(1) by simp
  show ?thesis
    unfolding cs hs
  proof (intro conjI)
    show "epochs_ok e0 ((y_controls s)[th_slot (y_handles s ! k) :=
      if y_controls s ! th_slot (y_handles s ! k) = control_word (th_epoch (y_handles s ! k)) STATE_ACTIVE
      then control_word (th_epoch (y_handles s ! k)) STATE_FREE else y_controls s ! th_slot (y_handles s ! k)])
      (set_phase k Gone (y_handles s))"
      by (rule epochs_handles [OF epochs_control [OF ep]]) (use occ_okD(1) [OF occ k(1)] in simp_all)
  qed (rule occ_detach [OF occ k])
next
  case (force slot epoch r')
  note F = force_detach_ok [OF force(3) force(2)]
  have i: "slot < length (y_controls s)" and c: "y_controls s ! slot = control_word epoch STATE_ACTIVE"
    using force(2) F(1) by (simp_all add: y_controls_def)
  have cs: "y_controls s' = (y_controls s)[slot := control_word (epoch + 1) STATE_RETIRED]"
    using force(1) F(2) by (simp add: y_controls_def controls_set)
  have hs: "y_handles s' = retire_holders slot (y_handles s)" using force(1) by simp
  show ?thesis
    unfolding cs hs
    using occ_force(1) [OF occ i c] epochs_handles [OF epochs_control [OF ep i]] c by simp
next
  case (load k)
  then show ?thesis using occ_phase [OF occ load(2)] epochs_handles [OF ep] by (simp add: y_controls_def)
next
  case (provisional k p)
  then show ?thesis using occ_phase [OF occ provisional(2)] epochs_handles [OF ep]
    by (simp add: y_controls_def controls_same)
next
  case (reread k)
  then show ?thesis using occ_phase [OF occ reread(2)] epochs_handles [OF ep] by (simp add: y_controls_def)
next
  case (join k j slot)
  then show ?thesis using occ_phase [OF occ join(2)] epochs_handles [OF ep]
    by (simp add: y_controls_def controls_same)
next
  case (read k r)
  then show ?thesis using occ_phase [OF occ read(2)] epochs_handles [OF ep] by (simp add: y_controls_def)
next
  case (sentinel k r slot)
  then show ?thesis using occ_phase [OF occ sentinel(2)] epochs_handles [OF ep]
    by (simp add: y_controls_def controls_same)
qed (use occ ep in \<open>simp_all add: y_controls_def controls_same set_tail_def\<close>)

lemma set_phase_same: "th_phase (hs ! k) = ph \<Longrightarrow> set_phase k ph hs = hs"
  by (cases "k < length hs") (auto simp: set_phase_def list_update_beyond intro: list_update_same_conv [THEN iffD2])

lemma same_lease: "ts_lease t = w \<Longrightarrow> t\<lparr>ts_cursor := c, ts_lease := w\<rparr> = t\<lparr>ts_cursor := c\<rparr>"
  by (cases t) simp

lemma step_gating:
  assumes st: "table_step s s'" and occ: "occ_ok (y_controls s) (y_handles s)" and g: "gating_ok B s"
    and small: "y_pos s + y_cap s < word_span"
  shows "gating_ok B s'"
  using st
proof cases
  case (scan_start needed)
  then show ?thesis using gating_scan_start [OF g] by simp
next
  case (scan_control sc)
  then show ?thesis using gating_scan_control [OF g occ [unfolded y_controls_def]] by simp
next
  case (scan_cursor sc ctl cached any_active lag)
  then show ?thesis using gating_scan_cursor [OF g _ _ _ small] by simp
next
  case (scan_end sc ok m)
  then show ?thesis using gating_scan_end [OF g occ [unfolded y_controls_def]] small by simp
next
  case (publish amount next_seq)
  then show ?thesis using gating_publish [OF g _ _ _ small] by simp
next
  case reattach
  then show ?thesis using gating_reattach [OF g] by simp
next
  case (claim slot current w token)
  have "control_state (ts_control (y_slots s ! slot)) = STATE_FREE" "control_state w = STATE_ACTIVE"
    using claim(3,4) by (auto simp: claim_exchange_def compare_exchange_def split: if_splits)
  then show ?thesis using gating_claim [OF g occ [unfolded y_controls_def] claim(2)] claim(1) by simp
next
  case (load k)
  then show ?thesis using gating_load [OF g occ [unfolded y_controls_def]] by simp
next
  case (provisional k p)
  then show ?thesis using gating_provisional [OF g occ [unfolded y_controls_def]] by simp
next
  case (reread k)
  then show ?thesis using gating_reread [OF g occ [unfolded y_controls_def]] by simp
next
  case (join k j slot)
  have il: "slot < length (y_slots s)" using occ_okD(1) [OF occ join(2)] join(4) by (simp add: y_controls_def)
  show ?thesis
    by (rule gating_store_cursor [OF g occ [unfolded y_controls_def] join(2) _ join(4) refl])
      (use join il in \<open>simp_all add: set_lease_def set_cursor_def\<close>)
next
  case (read k r)
  then show ?thesis using gating_read [OF g occ [unfolded y_controls_def]] small by simp
next
  case (flush k r slot)
  have il: "slot < length (y_slots s)" using occ_okD(1) [OF occ flush(2)] flush(4) by (simp add: y_controls_def)
  have hs: "y_handles s' = set_phase k (Reading r) (y_handles s)"
    using flush(1) set_phase_same [OF flush(3)] by simp
  show ?thesis
    by (rule gating_store_cursor [OF g occ [unfolded y_controls_def] flush(2) _ flush(4) refl _ _ _ _ _ hs])
      (use flush il in \<open>simp_all add: set_cursor_def slot_guard_same same_lease\<close>)
next
  case (sentinel k r slot)
  show ?thesis
    by (rule gating_leave [OF g occ [unfolded y_controls_def] sentinel(2) _ sentinel(4)])
      (use sentinel in \<open>auto simp: set_cursor_def\<close>)
next
  case (detach k a pid)
  have il: "gsc_slot a < length (y_slots s)"
    using occ_okD(1) [OF occ detach(2)] detach(4) by (simp add: y_controls_def)
  obtain t where t: "tr_slots (gate_shm_detach a (y_region s)) = (y_slots s)[gsc_slot a := t]"
    "ts_cursor t = ts_cursor (y_slots s ! gsc_slot a)"
    using detach_slots [OF il] by metis
  have "ts_cursor (y_slots s ! gsc_slot a) = DETACHED"
    using handle_at(5) [OF g occ [unfolded y_controls_def] detach(2)] detach(3,4) by simp
  then show ?thesis
    using t il detach gate_shm_detach_slot(2) [OF il]
    by (intro gating_leave [OF g occ [unfolded y_controls_def] detach(2) _ refl, where t = t and ph = Gone]) simp_all
next
  case (force slot epoch r')
  then show ?thesis
    using gating_force [OF g force(2)] force_detach_ok(2) [OF force(3) force(2)] by simp
qed

end
