(* ===== verification/Shm_Table_Properties.thy ===== *)
theory Shm_Table_Properties
  imports Shm_Table_Gating
begin

text \<open>
  The properties of the consumer table: exclusive occupancies told apart by
  their epochs, forced detach of exactly the diagnosed one, no lapped consumer
  under any interleaving, the rescan against a full scan, subscription and
  recovery.
\<close>

section \<open>Reachable tables\<close>

definition y_base :: "table_sys \<Rightarrow> u64" where
  "y_base s0 = tr_tail (y_region s0) - y_capacity s0"

lemma start_ok:
  assumes "table_start s"
  shows "occ_ok (y_controls s) (y_handles s)"
    and "epochs_ok (\<lambda>i. control_epoch (y_controls s ! i)) (y_controls s) (y_handles s)"
    and "gating_ok (y_base s) s"
proof -
  note st = assms [unfolded table_start_def]
  have free: "control_state (y_controls s ! i) = STATE_FREE" if "i < length (y_slots s)" for i
    using st that by (simp add: y_controls_def)
  show "occ_ok (y_controls s) (y_handles s)"
    using st free by (simp add: occ_ok_def y_controls_def)
  show "epochs_ok (\<lambda>i. control_epoch (y_controls s ! i)) (y_controls s) (y_handles s)"
    using st free by (simp add: epochs_ok_def claims_of_def y_controls_def)
  have p: "gp_next_seq (y_producer s) = tr_tail (y_region s)"
    "gp_cached_min (y_producer s) = y_base s" "gp_cached_cursors (y_producer s) = []"
    using st by (metis fresh_gate_def gate_producer.select_convs y_base_def)+
  have "cdist (y_base s) (tr_tail (y_region s)) = unat (y_capacity s)"
    unfolding y_base_def by (rule cdist_sub)
  then show "gating_ok (y_base s) s"
    using st p unfolding gating_ok_def
    by (simp add: y_pos_def y_cap_def rows_full_def covers_def slot_ok_def)
qed

lemma step_published:
  assumes "table_step s s'"
  shows "y_published s \<le> y_published s'" and "y_cap s' = y_cap s"
    and "length (y_slots s') = length (y_slots s)"
  using assms
  by (cases rule: table_step.cases;
      fastforce simp: y_cap_def fresh_gate_def set_tail_def force_detach_table_slot_def exchange_control_def
        gate_shm_detach_def exchange_lease_def split: prod.splits bool.splits)+

lemma reach_occupancy:
  assumes "table_reach s0 s"
  shows "occ_ok (y_controls s) (y_handles s)
    \<and> epochs_ok (\<lambda>i. control_epoch (y_controls s0 ! i)) (y_controls s) (y_handles s)"
  using assms
proof induction
  case start
  then show ?case using start_ok by blast
next
  case (step s s')
  then show ?case using step_occupancy by blast
qed

lemma reach_gating:
  assumes "table_reach s0 s" and "y_pos s + y_cap s < word_span"
  shows "gating_ok (y_base s0) s"
  using assms
proof induction
  case start
  then show ?case using start_ok(3) by blast
next
  case (step s s')
  have "y_pos s + y_cap s < word_span"
    using step_published [OF step.hyps(2)] step.prems by (simp add: y_pos_def)
  then show ?case
    using step_gating [OF step.hyps(2)] reach_occupancy [OF step.hyps(1)] step.IH by blast
qed

section \<open>Gating\<close>

text \<open>
  (C23) No consumer of a shared-memory ring that finished its join is ever lapped,
  whatever the interleaving of the producer's walk over the table with claims,
  joins, publishes, departures, forced detaches and a producer re-attaching: the
  published cursor is at most one capacity ahead of its read cursor.
\<close>

theorem table_never_lapped:
  assumes "table_reach s0 s" and "y_pos s + y_cap s < word_span"
    and "h \<in> set (y_handles s)" and "\<not> th_retired h"
    and "th_phase h = Reading r \<or> th_phase h = Rejoined r"
  shows "cdist r (tr_tail (y_region s)) \<le> y_cap s
    \<and> cdist r (tr_tail (y_region s)) = cdist (y_base s0) (tr_tail (y_region s)) - cdist (y_base s0) r"
proof -
  note g = reach_gating [OF assms(1,2)]
  have rd: "reads_at h r" using assms(4,5) by (auto simp: reads_at_def)
  note H = gating_okD(8) [OF g assms(3)]
  have T: "cdist (y_base s0) (tr_tail (y_region s)) = y_pos s" by (rule gating_okD(3) [OF g])
  have "cdist (y_base s0) r \<le> y_pos s"
    using H assms(5) by (auto simp: handle_ok_def at_read_def)
  moreover have "y_pos s \<le> cdist (y_base s0) r + y_cap s" using H rd by (simp add: handle_ok_def)
  ultimately show ?thesis
    using cdist_between [of "y_base s0" r "tr_tail (y_region s)"] T by simp
qed

section \<open>Occupancies\<close>

lemma claims_of_epochs:
  assumes ep: "\<forall>k<length hs. th_epoch (hs ! k) =
      e0 (th_slot (hs ! k)) + of_nat (claims_of (th_slot (hs ! k)) (take (Suc k) hs))"
  shows "map th_epoch (filter (\<lambda>h. th_slot h = i) hs) = map (\<lambda>j. e0 i + of_nat (Suc j)) [0..<claims_of i hs]"
  using ep
proof (induction hs rule: rev_induct)
  case Nil
  then show ?case by (simp add: claims_of_def)
next
  case (snoc h hs)
  have "\<forall>k<length hs. th_epoch (hs ! k) =
      e0 (th_slot (hs ! k)) + of_nat (claims_of (th_slot (hs ! k)) (take (Suc k) hs))"
  proof (intro allI impI)
    fix k assume "k < length hs"
    then show "th_epoch (hs ! k) = e0 (th_slot (hs ! k)) + of_nat (claims_of (th_slot (hs ! k)) (take (Suc k) hs))"
      using snoc.prems [rule_format, of k] by (simp add: nth_append)
  qed
  then have IH: "map th_epoch (filter (\<lambda>h. th_slot h = i) hs)
      = map (\<lambda>j. e0 i + of_nat (Suc j)) [0..<claims_of i hs]" by (rule snoc.IH)
  show ?case
  proof (cases "th_slot h = i")
    case True
    have "th_epoch h = e0 i + of_nat (claims_of i (hs @ [h]))"
      using snoc.prems [rule_format, of "length hs"] True by simp
    then show ?thesis using IH True by (simp add: claims_of_def)
  next
    case False
    then show ?thesis using IH by (simp add: claims_of_def)
  qed
qed

lemma distinct_offsets:
  assumes "n < 2 ^ 32"
  shows "distinct (map (\<lambda>j. e + of_nat (Suc j) :: u32) [0..<n])"
proof -
  have "inj_on (\<lambda>j. e + of_nat (Suc j) :: u32) {0..<n}"
  proof (rule inj_onI)
    fix x y assume a: "x \<in> {0..<n}" "y \<in> {0..<n}" "e + of_nat (Suc x) = e + (of_nat (Suc y) :: u32)"
    then have "(of_nat (Suc x) :: u32) = of_nat (Suc y)" by simp
    then have "unat (of_nat (Suc x) :: u32) = unat (of_nat (Suc y) :: u32)" by (rule arg_cong)
    then have "Suc x mod 2 ^ 32 = Suc y mod 2 ^ 32" by (simp only: unat_of_nat len_num0 len_num1 len_bit0) simp
    then show "x = y" using a(1,2) assms by simp
  qed
  then show ?thesis by (simp add: distinct_map)
qed

text \<open>
  (C24) The occupancies of a consumer table are exclusive and told apart by their
  epochs. In every reachable state a slot is ACTIVE exactly when one live handle
  holds it, at the epoch of its control word; the slot of a retired holder stays
  RETIRED; and two claims of a slot never carry the same epoch, short of
  \<open>2 ^ 32\<close> claims of that slot.
\<close>

theorem table_occupancy:
  assumes "table_reach s0 s"
  shows "(\<forall>i<length (y_slots s). control_is_active (ts_control (y_slots s ! i)) \<longrightarrow>
        (\<exists>!k. k < length (y_handles s) \<and> th_slot (y_handles s ! k) = i \<and> th_live (y_handles s ! k)))
    \<and> (\<forall>h\<in>set (y_handles s). th_slot h < length (y_slots s)
        \<and> (th_live h \<longrightarrow> ts_control (y_slots s ! th_slot h) = control_word (th_epoch h) STATE_ACTIVE)
        \<and> (th_retired h \<longrightarrow> control_state (ts_control (y_slots s ! th_slot h)) = STATE_RETIRED))
    \<and> (\<forall>i. claims_of i (y_handles s) < 2 ^ 32 \<longrightarrow>
        distinct (map th_epoch (filter (\<lambda>h. th_slot h = i) (y_handles s))))"
proof -
  have occ: "occ_ok (y_controls s) (y_handles s)"
    and ep: "epochs_ok (\<lambda>i. control_epoch (y_controls s0 ! i)) (y_controls s) (y_handles s)"
    using reach_occupancy [OF assms] by blast+
  have 1: "\<exists>!k. k < length (y_handles s) \<and> th_slot (y_handles s ! k) = i \<and> th_live (y_handles s ! k)"
    if "i < length (y_slots s)" "control_is_active (ts_control (y_slots s ! i))" for i
  proof -
    have "control_state (y_controls s ! i) = STATE_ACTIVE" "i < length (y_controls s)"
      using that by (simp_all add: y_controls_def control_is_active_def)
    from occ_okD(5) [OF occ this(2,1)] obtain k where
      k: "k < length (y_handles s)" "th_slot (y_handles s ! k) = i" "th_live (y_handles s ! k)" by blast
    moreover have "k' = k" if "k' < length (y_handles s)" "th_slot (y_handles s ! k') = i"
      "th_live (y_handles s ! k')" for k'
      using occ_okD(4) [OF occ that(1) k(1)] that k by (simp add: th_live_def)
    ultimately show ?thesis by blast
  qed
  have 2: "th_slot h < length (y_slots s)
        \<and> (th_live h \<longrightarrow> ts_control (y_slots s ! th_slot h) = control_word (th_epoch h) STATE_ACTIVE)
        \<and> (th_retired h \<longrightarrow> control_state (ts_control (y_slots s ! th_slot h)) = STATE_RETIRED)"
    if h: "h \<in> set (y_handles s)" for h
  proof -
    from h obtain k where k: "k < length (y_handles s)" "h = y_handles s ! k" by (metis in_set_conv_nth)
    then show ?thesis using occ_okD(1-3) [OF occ k(1)] by (simp add: y_controls_def)
  qed
  have 3: "distinct (map th_epoch (filter (\<lambda>h. th_slot h = i) (y_handles s)))"
    if "claims_of i (y_handles s) < 2 ^ 32" for i
    using claims_of_epochs [of "y_handles s" "\<lambda>i. control_epoch (y_controls s0 ! i)" i] ep
      distinct_offsets [OF that] by (simp add: epochs_ok_def)
  show ?thesis using 1 2 3 by blast
qed

text \<open>A run: one consumer joins an empty table of one slot, and the ring is filled.\<close>

definition demo_table :: table_sys where
  "demo_table = \<lparr>y_region = \<lparr>tr_header = \<lparr>producer_lease = 1, consumer_lease = 0, generation = 2\<rparr>,
       tr_tail = 10, tr_closed = 0,
       tr_slots = [\<lparr>ts_lease = 0, ts_control = 0, ts_cursor = DETACHED\<rparr>]\<rparr>,
     y_producer = fresh_gate 3 10, y_scan = None, y_handles = [], y_published = 0\<rparr>"

definition demo_handle :: "join_phase \<Rightarrow> table_handle" where
  "demo_handle ph = \<lparr>th_slot = 0, th_epoch = 1, th_token = 7, th_phase = ph, th_retired = False\<rparr>"

definition demo_at :: "u64 \<Rightarrow> u64 \<Rightarrow> join_phase \<Rightarrow> table_sys" where
  "demo_at lease cursor ph = demo_table
     \<lparr>y_region := (y_region demo_table)\<lparr>tr_slots :=
         [\<lparr>ts_lease = lease, ts_control = control_word 1 STATE_ACTIVE, ts_cursor = cursor\<rparr>]\<rparr>,
      y_handles := [demo_handle ph]\<rparr>"

lemmas demo_defs = demo_table_def demo_at_def demo_handle_def set_cursor_def set_lease_def
  set_control_def set_phase_def

lemma demo_zero: "control_epoch 0 = 0" "control_state 0 = STATE_FREE"
  by (simp_all add: control_epoch_def control_state_def STATE_FREE_def)

lemma demo_guard: "slot_guard 10 = 10"
  by (simp add: slot_guard_def DETACHED_def)

lemma demo_start: "table_start demo_table"
  using valid_maskI [of 2 3]
  by (simp add: table_start_def demo_table_def demo_zero fresh_gate_def mask_eq_exp_minus_1)

lemma demo_claim: "table_step demo_table (demo_at 0 DETACHED Registered)"
  using table_step.claim [of 0 demo_table 0 "control_word 1 STATE_ACTIVE" 7]
  by (simp add: demo_defs demo_zero claim_exchange_def compare_exchange_def)

lemma demo_load: "table_step (demo_at 0 DETACHED Registered) (demo_at 0 DETACHED (Loaded 10))"
  using table_step.load [of 0 "demo_at 0 DETACHED Registered"]
  by (simp add: demo_defs demo_guard)

lemma demo_provisional: "table_step (demo_at 0 DETACHED (Loaded 10)) (demo_at 0 10 Provisional)"
  using table_step.provisional [of 0 "demo_at 0 DETACHED (Loaded 10)" 10]
  by (simp add: demo_defs)

lemma demo_reread: "table_step (demo_at 0 10 Provisional) (demo_at 0 10 (Rejoined 10))"
  using table_step.reread [of 0 "demo_at 0 10 Provisional"]
  by (simp add: demo_defs)

lemma demo_join: "table_step (demo_at 0 10 (Rejoined 10)) (demo_at 7 10 (Reading 10))"
  using table_step.join [of 0 "demo_at 0 10 (Rejoined 10)" 10 0]
  by (simp add: demo_defs demo_guard)

definition demo_scan :: "nat \<Rightarrow> u64 option \<Rightarrow> bool \<Rightarrow> u64 \<Rightarrow> u64 list list \<Rightarrow> table_sys" where
  "demo_scan i ctl any_active lag cached = (demo_at 7 10 (Reading 10))
     \<lparr>y_scan := Some \<lparr>sn_needed = 4, sn_slot = i, sn_control = ctl, sn_any = any_active, sn_lag = lag\<rparr>,
      y_producer := (fresh_gate 3 10)\<lparr>gp_cached_cursors := cached\<rparr>\<rparr>"

definition demo_full :: table_sys where
  "demo_full = (demo_at 7 10 (Reading 10))
     \<lparr>y_producer := \<lparr>gp_mask = 3, gp_next_seq = 14, gp_cached_min = 10,
         gp_cached_cursors = [(replicate 64 6)[0 := 10]]\<rparr>,
      y_region := (y_region (demo_at 7 10 (Reading 10)))\<lparr>tr_tail := 14\<rparr>, y_published := 4\<rparr>"

lemma demo_scan_run:
  "table_reach demo_table (demo_scan 1 None True 0 [(replicate 64 6)[0 := 10]])"
proof -
  have a: "table_step (demo_at 7 10 (Reading 10)) (demo_scan 0 None False 0 [])"
    using table_step.scan_start [of "demo_at 7 10 (Reading 10)" 4]
    by (simp add: demo_defs demo_scan_def fresh_gate_def)
  have b: "table_step (demo_scan 0 None False 0 []) (demo_scan 0 (Some (control_word 1 STATE_ACTIVE)) False 0 [])"
    using table_step.scan_control [of "demo_scan 0 None False 0 []"]
    by (simp add: demo_defs demo_scan_def)
  have "table_visit 10 4 4 0 (control_word 1 STATE_ACTIVE) 10 ([], False, 0)
      = ([(replicate 64 6)[0 := 10]], True, 0)"
    by (simp add: table_visit_def Let_def control_is_active_def gate_lacks_space_def CHUNK_SLOTS_def DETACHED_def)
  then have c: "table_step (demo_scan 0 (Some (control_word 1 STATE_ACTIVE)) False 0 [])
      (demo_scan 1 None True 0 [(replicate 64 6)[0 := 10]])"
    using table_step.scan_cursor [of "demo_scan 0 (Some (control_word 1 STATE_ACTIVE)) False 0 []"
        "\<lparr>sn_needed = 4, sn_slot = 0, sn_control = Some (control_word 1 STATE_ACTIVE), sn_any = False,
           sn_lag = 0\<rparr>" "control_word 1 STATE_ACTIVE" "[(replicate 64 6)[0 := 10]]" True 0]
    by (simp add: demo_defs demo_scan_def fresh_gate_def)
  note joined = table_reach.start [OF demo_start, THEN table_reach.step [OF _ demo_claim],
      THEN table_reach.step [OF _ demo_load], THEN table_reach.step [OF _ demo_provisional],
      THEN table_reach.step [OF _ demo_reread], THEN table_reach.step [OF _ demo_join]]
  show ?thesis
    by (rule joined [THEN table_reach.step [OF _ a], THEN table_reach.step [OF _ b],
          THEN table_reach.step [OF _ c]])
qed

lemma demo_reach: "table_reach demo_table demo_full"
proof -
  let ?m = "(demo_at 7 10 (Reading 10))
     \<lparr>y_producer := \<lparr>gp_mask = 3, gp_next_seq = 10, gp_cached_min = 10,
         gp_cached_cursors = [(replicate 64 6)[0 := 10]]\<rparr>\<rparr>"
  have d: "table_step (demo_scan 1 None True 0 [(replicate 64 6)[0 := 10]]) ?m"
    using table_step.scan_end [of "demo_scan 1 None True 0 [(replicate 64 6)[0 := 10]]"
        "\<lparr>sn_needed = 4, sn_slot = 1, sn_control = None, sn_any = True, sn_lag = 0\<rparr>" True 10]
    by (simp add: demo_defs demo_scan_def fresh_gate_def rescan_gate_def Let_def gate_lacks_space_def)
  have e: "table_step ?m demo_full"
    using table_step.publish [of ?m 4]
    by (simp add: demo_defs demo_full_def gate_lacks_space_def set_tail_def)
  show ?thesis by (rule demo_scan_run [THEN table_reach.step [OF _ d], THEN table_reach.step [OF _ e]])
qed

theorem table_never_lapped_witness:
  "cdist 10 (tr_tail (y_region demo_full)) \<le> 4 \<and> tr_tail (y_region demo_full) = 14"
proof -
  have c: "y_cap demo_full = 4" "y_pos demo_full = 8"
    by (simp_all add: y_cap_def y_pos_def capacity_of_def demo_full_def demo_defs)
  have "demo_handle (Reading 10) \<in> set (y_handles demo_full)" by (simp add: demo_full_def demo_defs)
  from table_never_lapped [OF demo_reach _ this, of 10] c show ?thesis
    by (simp add: demo_handle_def demo_full_def demo_at_def demo_table_def word_span_def)
qed

theorem table_occupancy_witness:
  "(\<exists>!k. k < length (y_handles demo_full) \<and> th_slot (y_handles demo_full ! k) = 0
       \<and> th_live (y_handles demo_full ! k))
   \<and> control_is_active (ts_control (y_slots demo_full ! 0))"
proof -
  have a: "control_is_active (ts_control (y_slots demo_full ! 0))" "0 < length (y_slots demo_full)"
    by (simp_all add: demo_full_def demo_defs control_is_active_def)
  then show ?thesis using table_occupancy [OF demo_reach] by blast
qed

section \<open>Forced detach\<close>

lemma claim_exchange_retired:
  "control_state control \<noteq> STATE_FREE \<Longrightarrow> control_state current = STATE_FREE \<Longrightarrow>
   \<not> fst (claim_exchange current control)"
  by (auto simp: claim_exchange_def compare_exchange_def)

text \<open>
  (C25) A forced detach retires exactly the occupancy the caller names. In every
  reachable state it succeeds if and only if a live handle holds that slot at
  that epoch, and then changes nothing but that slot's control word, on which no
  claim's exchange can succeed any more and which the holder's own detach leaves
  alone; otherwise it is refused and changes nothing. A slot outside the table
  is refused.
\<close>

theorem force_detach_exact:
  assumes "table_reach s0 s" and n: "go_max_slots opened = length (y_slots s)"
  shows "case force_detach_consumer opened slot epoch (y_region s) of
      (Inl e, r') \<Rightarrow> e = IO_InvalidInput \<and> r' = y_region s
        \<and> \<not> (\<exists>h\<in>set (y_handles s). th_slot h = slot \<and> th_epoch h = epoch \<and> th_live h)
    | (Inr u, r') \<Rightarrow>
        (\<exists>h\<in>set (y_handles s). th_slot h = slot \<and> th_epoch h = epoch \<and> th_live h)
        \<and> r' = set_control slot (control_word (epoch + 1) STATE_RETIRED) (y_region s)
        \<and> (\<forall>current. control_state current = STATE_FREE \<longrightarrow>
             \<not> fst (claim_exchange current (ts_control (tr_slots r' ! slot))))
        \<and> (\<forall>a. gsc_slot a = slot \<longrightarrow>
             ts_control (tr_slots (gate_shm_detach a r') ! slot) = ts_control (tr_slots r' ! slot))"
proof (cases "slot < length (y_slots s)")
  case False
  have "\<not> (\<exists>h\<in>set (y_handles s). th_slot h = slot \<and> th_epoch h = epoch \<and> th_live h)"
    using occ_okD(1) [OF reach_occupancy [OF assms(1), THEN conjunct1]] False
    by (auto simp: in_set_conv_nth y_controls_def)
  then show ?thesis using False n by (simp add: force_detach_consumer_def)
next
  case True
  have occ: "occ_ok (y_controls s) (y_handles s)" using reach_occupancy [OF assms(1)] by blast
  let ?c = "ts_control (y_slots s ! slot)"
  have i: "slot < length (y_controls s)" "y_controls s ! slot = ?c" using True by (simp_all add: y_controls_def)
  show ?thesis
  proof (cases "?c = control_word epoch STATE_ACTIVE")
    case act: True
    have "\<exists>k<length (y_handles s). th_slot (y_handles s ! k) = slot \<and> th_live (y_handles s ! k)
        \<and> th_epoch (y_handles s ! k) = epoch"
      by (rule occ_force(2) [OF occ i(1)]) (simp add: i(2) act)
    then have h: "\<exists>h\<in>set (y_handles s). th_slot h = slot \<and> th_epoch h = epoch \<and> th_live h"
      using nth_mem by blast
    have res: "force_detach_consumer opened slot epoch (y_region s)
        = (Inr (), set_control slot (control_word (epoch + 1) STATE_RETIRED) (y_region s))"
      using True n act
      by (simp add: force_detach_consumer_def force_detach_table_slot_def exchange_control_def compare_exchange_def)
    have w: "ts_control (tr_slots (set_control slot (control_word (epoch + 1) STATE_RETIRED) (y_region s)) ! slot)
        = control_word (epoch + 1) STATE_RETIRED"
      using True by (simp add: set_words_slot)
    have d: "ts_control (tr_slots (gate_shm_detach a
          (set_control slot (control_word (epoch + 1) STATE_RETIRED) (y_region s))) ! slot)
        = control_word (epoch + 1) STATE_RETIRED" if "gsc_slot a = slot" for a
      using gate_shm_detach_slot(4) [of a "set_control slot (control_word (epoch + 1) STATE_RETIRED) (y_region s)"]
        that w True by simp
    show ?thesis
      unfolding res using h w d by (simp add: claim_exchange_retired)
  next
    case inact: False
    have same: "set_control slot ?c (y_region s) = y_region s"
      by (simp add: set_control_def list_update_same_conv)
    have res: "force_detach_consumer opened slot epoch (y_region s) = (Inl IO_InvalidInput, y_region s)"
      using True n inact same
      by (simp add: force_detach_consumer_def force_detach_table_slot_def exchange_control_def compare_exchange_def)
    have "\<not> (\<exists>h\<in>set (y_handles s). th_slot h = slot \<and> th_epoch h = epoch \<and> th_live h)"
      using occ_okD(3) [OF occ] inact i by (auto simp: in_set_conv_nth)
    then show ?thesis unfolding res by simp
  qed
qed

theorem force_detach_exact_witness:
  "fst (force_detach_consumer \<lparr>go_capacity = 4, go_max_slots = 1, go_generation = 2\<rparr> 0 1 (y_region demo_full)) = Inr ()
   \<and> (\<exists>h\<in>set (y_handles demo_full). th_slot h = 0 \<and> th_epoch h = 1 \<and> th_live h)"
proof -
  let ?o = "\<lparr>go_capacity = 4, go_max_slots = 1, go_generation = 2\<rparr>"
  have "go_max_slots ?o = length (y_slots demo_full)" by (simp add: demo_full_def demo_defs)
  from force_detach_exact [OF demo_reach this, of 0 1]
  have f: "case force_detach_consumer ?o 0 1 (y_region demo_full) of
      (Inl e, r') \<Rightarrow> True
    | (Inr u, r') \<Rightarrow> \<exists>h\<in>set (y_handles demo_full). th_slot h = 0 \<and> th_epoch h = 1 \<and> th_live h"
    by (auto split: prod.splits sum.splits)
  have "fst (force_detach_consumer ?o 0 1 (y_region demo_full)) = Inr ()"
    by (simp add: force_detach_consumer_def force_detach_table_slot_def exchange_control_def
        compare_exchange_def demo_full_def demo_defs)
  then show ?thesis using f by (auto split: prod.splits)
qed

section \<open>The rescan\<close>

text \<open>
  (C26) The selective refresh over the table is equivalent to a full scan of it:
  whatever sound cache the producer starts from, its rescan opens the gate
  exactly when no ACTIVE slot with a cursor is in the way, and leaves a sound cache.
\<close>

theorem table_rescan_exact:
  assumes ca: "table_cache_ok slots (gp_cached_cursors p) (gp_next_seq p) (gp_mask p + 1)"
    and n: "0 < needed" "needed < gp_mask p + 1"
  shows "(case table_rescan needed (table_words slots) (length slots) p of
      (ok, p') \<Rightarrow>
        (ok \<longleftrightarrow> (\<forall>t\<in>set slots. control_is_active (ts_control t) \<longrightarrow> ts_cursor t \<noteq> DETACHED \<longrightarrow>
           \<not> gate_lacks_space (gp_next_seq p) needed (ts_cursor t) (gp_mask p + 1)))
        \<and> table_cache_ok slots (gp_cached_cursors p') (gp_next_seq p') (gp_mask p' + 1))"
proof -
  let ?c = "gp_mask p + 1"
  have n': "needed \<le> ?c" using n(2) by simp
  obtain walked cached where w: "table_walk slots (gp_cached_cursors p) (gp_next_seq p) needed ?c = (walked, cached)"
    by (rule prod.exhaust)
  obtain ok m where r: "rescan_gate (gp_next_seq p) needed ?c walked = (ok, m)" by (rule prod.exhaust)
  have near: "\<And>x. x \<in> table_cursors slots \<Longrightarrow> cdist x (gp_next_seq p) + unat ?c < word_span"
    using ca by (simp add: table_cache_ok_def)
  have "ok \<longleftrightarrow> (\<forall>x\<in>table_cursors slots. \<not> gate_lacks_space (gp_next_seq p) needed x ?c)"
    using table_gate.gate_exact [OF ca n near w] r by simp
  then show ?thesis
    using table_gate.walk_cache [OF ca n(1) n' w] w r
    by (auto simp: table_rescan_def table_walk_def table_cursors_def slot_gates_def)
qed

definition sample_table :: "table_slot list" where
  "sample_table = [\<lparr>ts_lease = 3, ts_control = control_word 1 STATE_ACTIVE, ts_cursor = 5\<rparr>,
     \<lparr>ts_lease = 0, ts_control = control_word 1 STATE_FREE, ts_cursor = 2\<rparr>,
     \<lparr>ts_lease = 4, ts_control = control_word 2 STATE_ACTIVE, ts_cursor = 6\<rparr>]"

theorem table_rescan_exact_witness:
  "fst (table_rescan 3 (table_words sample_table) 3 (fresh_gate 3 6)) = True
   \<and> fst (table_rescan 3 (table_words (sample_table[0 := (sample_table ! 0)\<lparr>ts_cursor := 3\<rparr>])) 3
        (fresh_gate 3 6)) = False"
proof -
  let ?t = "sample_table[0 := (sample_table ! 0)\<lparr>ts_cursor := 3\<rparr>]"
  have ca: "table_cache_ok sample_table (gp_cached_cursors (fresh_gate 3 6)) (gp_next_seq (fresh_gate 3 6))
      (gp_mask (fresh_gate 3 6) + 1)"
    by (auto simp: table_cache_ok_def entries_sane_def rows_full_def covers_def fresh_gate_def
        table_cursors_def sample_table_def word_span_def cdist_def slot_gates_def control_is_active_def)
  have ca': "table_cache_ok ?t (gp_cached_cursors (fresh_gate 3 6)) (gp_next_seq (fresh_gate 3 6))
      (gp_mask (fresh_gate 3 6) + 1)"
    by (auto simp: table_cache_ok_def entries_sane_def rows_full_def covers_def fresh_gate_def
        table_cursors_def sample_table_def word_span_def cdist_def slot_gates_def control_is_active_def)
  have n: "(0 :: u64) < 3" "(3 :: u64) < gp_mask (fresh_gate 3 6) + 1" by (simp_all add: fresh_gate_def)
  have "fst (table_rescan 3 (table_words sample_table) (length sample_table) (fresh_gate 3 6))"
    using table_rescan_exact [OF ca n]
    by (auto simp: sample_table_def fresh_gate_def gate_lacks_space_def control_is_active_def split: prod.splits)
  moreover have "\<not> fst (table_rescan 3 (table_words ?t) (length ?t) (fresh_gate 3 6))"
    using table_rescan_exact [OF ca' n]
    by (auto simp: sample_table_def fresh_gate_def gate_lacks_space_def control_is_active_def DETACHED_def
        split: prod.splits)
  moreover have "length sample_table = 3" by (simp add: sample_table_def)
  ultimately show ?thesis by simp
qed

section \<open>Subscribing\<close>

lemma claim_slot_loop_quiet:
  "claim_slot_loop slot (ts_control (tr_slots r ! slot)) [] r =
     (if control_state (ts_control (tr_slots r ! slot)) = STATE_FREE
      then (Some (control_epoch (ts_control (tr_slots r ! slot)) + 1), [],
            set_control slot (control_word (control_epoch (ts_control (tr_slots r ! slot)) + 1) STATE_ACTIVE) r)
      else (None, [], r))"
  by (subst claim_slot_loop.simps) (simp add: claim_exchange_def compare_exchange_def)

definition claimed_slot :: "u64 \<Rightarrow> table_region \<Rightarrow> nat \<Rightarrow> table_slot" where
  "claimed_slot token r i = \<lparr>ts_lease = token,
     ts_control = control_word (control_epoch (ts_control (tr_slots r ! i)) + 1) STATE_ACTIVE,
     ts_cursor = slot_guard (tr_tail r)\<rparr>"

definition claim_of :: "u64 \<Rightarrow> table_region \<Rightarrow> nat \<Rightarrow> slot_claim" where
  "claim_of token r i = \<lparr>sc_slot = i, sc_epoch = control_epoch (ts_control (tr_slots r ! i)) + 1,
     sc_token = token, sc_joined = tr_tail r\<rparr>"

definition put_slot :: "nat \<Rightarrow> table_slot \<Rightarrow> table_region \<Rightarrow> table_region" where
  "put_slot i t r = r\<lparr>tr_slots := (tr_slots r)[i := t]\<rparr>"

lemma table_slot_all:
  "t\<lparr>ts_control := c, ts_cursor := w, ts_lease := l\<rparr> = \<lparr>ts_lease = l, ts_control = c, ts_cursor = w\<rparr>"
  by (cases t) simp

lemma table_slot_order:
  "t\<lparr>ts_cursor := w, ts_lease := l, ts_control := c\<rparr> = \<lparr>ts_lease = l, ts_control = c, ts_cursor = w\<rparr>"
  by (cases t) simp

lemma finish_claim_quiet:
  assumes "i < length (tr_slots r)"
  shows "finish_claim token i e [] (set_control i (control_word e STATE_ACTIVE) r) =
     (\<lparr>sc_slot = i, sc_epoch = e, sc_token = token, sc_joined = tr_tail r\<rparr>, [],
      put_slot i \<lparr>ts_lease = token, ts_control = control_word e STATE_ACTIVE,
                  ts_cursor = slot_guard (tr_tail r)\<rparr> r)"
  using assms
  by (simp add: finish_claim_def Let_def put_slot_def set_lease_def set_cursor_def set_control_def table_slot_all)

lemma claim_slots_quiet:
  assumes "\<forall>i\<in>set slots. i < length (tr_slots r)"
  shows "claim_slots token slots [] r =
     (case find (\<lambda>i. control_state (ts_control (tr_slots r ! i)) = STATE_FREE) slots of
        None \<Rightarrow> (None, [], r)
      | Some i \<Rightarrow> (Some (claim_of token r i), [], put_slot i (claimed_slot token r i) r))"
  using assms
proof (induction slots)
  case (Cons i slots)
  then show ?case
    by (simp add: claim_slot_loop_quiet finish_claim_quiet claim_of_def claimed_slot_def)
qed simp

lemma claim_table_slot_quiet:
  assumes "n \<le> length (tr_slots r)"
  shows "claim_table_slot token n [] r =
     (case find (\<lambda>i. control_state (ts_control (tr_slots r ! i)) = STATE_FREE) [0..<n] of
        None \<Rightarrow> (None, [], r)
      | Some i \<Rightarrow> (Some (claim_of token r i), [], put_slot i (claimed_slot token r i) r))"
  unfolding claim_table_slot_def by (rule claim_slots_quiet) (use assms in auto)

lemma find_upt:
  "find P [0..<n] = Some i \<longleftrightarrow> i < n \<and> P i \<and> (\<forall>j<i. \<not> P j)"
proof -
  have "find P [0..<n] = Some i \<longleftrightarrow> (\<exists>k<n. P ([0..<n] ! k) \<and> i = [0..<n] ! k \<and> (\<forall>j<k. \<not> P ([0..<n] ! j)))"
    by (simp add: find_Some_iff)
  then show ?thesis by auto
qed

lemma find_upt_None: "find P [0..<n] = None \<longleftrightarrow> (\<forall>i<n. \<not> P i)"
  by (simp add: find_None_iff)

text \<open>
  Subscribing from a live handle is refused as closed when the ring is being
  re-initialised or is closed, and as full exactly when no slot is free; a
  refusal changes nothing. Otherwise it takes the lowest free slot at the next
  epoch, its lease and cursor are set to the token and the published cursor, no
  other word of the region changes, and the consumer starts at the published
  cursor: it sees every later message.
\<close>

theorem shm_subscribe_outcomes:
  assumes "n = length (tr_slots r)"
  shows "case shm_subscribe token pid n [] r of
      (Inl Closed_err, env, r') \<Rightarrow> r' = r \<and> (tr_generation r AND 1 = 1 \<or> tr_closed r \<noteq> 0)
    | (Inl Full_err, env, r') \<Rightarrow> r' = r \<and> tr_generation r AND 1 \<noteq> 1 \<and> tr_closed r = 0
        \<and> (\<forall>i<n. control_state (ts_control (tr_slots r ! i)) \<noteq> STATE_FREE)
    | (Inr (a, joined), env, r') \<Rightarrow> tr_generation r AND 1 \<noteq> 1 \<and> tr_closed r = 0
        \<and> gsc_slot a < n \<and> control_state (ts_control (tr_slots r ! gsc_slot a)) = STATE_FREE
        \<and> (\<forall>i<gsc_slot a. control_state (ts_control (tr_slots r ! i)) \<noteq> STATE_FREE)
        \<and> gsc_epoch a = control_epoch (ts_control (tr_slots r ! gsc_slot a)) + 1
        \<and> r' = put_slot (gsc_slot a) (claimed_slot token r (gsc_slot a)) r
        \<and> owns_slot r' a \<and> joined = tr_tail r
        \<and> tc_read_cursor (table_consumer_from_shm a capacity joined) = tr_tail r
        \<and> tc_published (table_consumer_from_shm a capacity joined) = ts_cursor (tr_slots r' ! gsc_slot a)"
proof (cases "tr_generation r AND 1 = 1 \<or> tr_closed r \<noteq> 0")
  case True
  then show ?thesis by (auto simp: shm_subscribe_def Let_def)
next
  case False
  let ?P = "\<lambda>i. control_state (ts_control (tr_slots r ! i)) = STATE_FREE"
  note Q = claim_table_slot_quiet [of n r token, OF eq_imp_le, OF assms]
  have gen: "tr_generation (put_slot i t r) = tr_generation r" for i t
    by (simp add: put_slot_def tr_generation_def)
  show ?thesis
  proof (cases "find ?P [0..<n]")
    case None
    then have "shm_subscribe token pid n [] r = (Inl Full_err, [], r)"
      using False Q by (simp add: shm_subscribe_def Let_def)
    then show ?thesis using False None by (simp add: find_upt_None)
  next
    case (Some i)
    then have i: "i < n" "?P i" "\<forall>j<i. \<not> ?P j" unfolding find_upt by blast+
    have res: "shm_subscribe token pid n [] r =
        (Inr (gate_shm_consumer_new pid (claim_of token r i) n, tr_tail r), [],
         put_slot i (claimed_slot token r i) r)"
      using False Q Some gen by (simp add: shm_subscribe_def Let_def claim_of_def)
    show ?thesis
      unfolding res using False i assms
      by (simp add: gate_shm_consumer_new_def claim_of_def put_slot_def claimed_slot_def owns_slot_def
          table_consumer_from_shm_def slot_guard_same)
  qed
qed

theorem shm_subscribe_outcomes_witness:
  "\<exists>a. fst (shm_subscribe 9 1 1 [] (y_region demo_table)) = Inr (a, 10) \<and> gsc_epoch a = 1"
proof -
  have r: "shm_subscribe 9 1 1 [] (y_region demo_table) = (Inr (gate_shm_consumer_new 1
      (claim_of 9 (y_region demo_table) 0) 1, 10), [],
      put_slot 0 (claimed_slot 9 (y_region demo_table) 0) (y_region demo_table))"
    by (simp add: shm_subscribe_def Let_def claim_table_slot_quiet demo_table_def demo_zero
        tr_generation_def put_slot_def claim_of_def)
  have "1 = length (tr_slots (y_region demo_table))" by (simp add: demo_table_def)
  from shm_subscribe_outcomes [OF this, of 9 4 1]
  have "gsc_slot (gate_shm_consumer_new 1 (claim_of 9 (y_region demo_table) 0) 1) < 1
      \<and> gsc_epoch (gate_shm_consumer_new 1 (claim_of 9 (y_region demo_table) 0) 1)
        = control_epoch (ts_control (y_slots demo_table !
            gsc_slot (gate_shm_consumer_new 1 (claim_of 9 (y_region demo_table) 0) 1))) + 1"
    unfolding r by simp
  then show ?thesis using r by (simp add: demo_table_def demo_zero)
qed

section \<open>Recovery\<close>

text \<open>A cursor the reset takes for a registered consumer's: plausible, within one capacity.\<close>

definition plausible :: "u64 \<Rightarrow> u64 \<Rightarrow> table_slot \<Rightarrow> bool" where
  "plausible tail capacity t \<longleftrightarrow> control_state (ts_control t) \<noteq> STATE_FREE \<and> ts_cursor t \<noteq> DETACHED
     \<and> tail - ts_cursor t \<le> capacity"

lemma reset_lag_quiet:
  assumes "m \<le> capacity"
  shows "\<exists>m'. reset_lag slots tail capacity m [] r = (m', [], r) \<and> m \<le> m' \<and> m' \<le> capacity
    \<and> (\<forall>i\<in>set slots. plausible tail capacity (tr_slots r ! i) \<longrightarrow> tail - ts_cursor (tr_slots r ! i) \<le> m')
    \<and> (m' = m \<or> (\<exists>i\<in>set slots. plausible tail capacity (tr_slots r ! i)
          \<and> m' = tail - ts_cursor (tr_slots r ! i)))"
  using assms
proof (induction slots arbitrary: m)
  case (Cons i slots)
  let ?t = "tr_slots r ! i"
  define m1 where "m1 = (if plausible tail capacity ?t \<and> m < tail - ts_cursor ?t then tail - ts_cursor ?t else m)"
  have step: "reset_lag (i # slots) tail capacity m [] r = reset_lag slots tail capacity m1 [] r"
    by (auto simp: m1_def plausible_def Let_def)
  have m1: "m \<le> m1" "m1 \<le> capacity" "plausible tail capacity ?t \<longrightarrow> tail - ts_cursor ?t \<le> m1"
    "m1 = m \<or> plausible tail capacity ?t \<and> m1 = tail - ts_cursor ?t"
    using Cons.prems by (auto simp: m1_def plausible_def not_less)
  from Cons.IH [OF m1(2)] obtain m' where
    "reset_lag slots tail capacity m1 [] r = (m', [], r)" "m1 \<le> m'" "m' \<le> capacity"
    "\<forall>i\<in>set slots. plausible tail capacity (tr_slots r ! i) \<longrightarrow> tail - ts_cursor (tr_slots r ! i) \<le> m'"
    "m' = m1 \<or> (\<exists>i\<in>set slots. plausible tail capacity (tr_slots r ! i)
          \<and> m' = tail - ts_cursor (tr_slots r ! i))" by blast
  then show ?case using step m1 by (intro exI [of _ m']) auto
qed simp

definition freed_slot :: "table_slot \<Rightarrow> table_slot" where
  "freed_slot t = \<lparr>ts_lease = 0, ts_control = control_word (control_epoch (ts_control t) + 1) STATE_FREE,
     ts_cursor = DETACHED\<rparr>"

lemma reset_slots_quiet:
  assumes "m \<le> length (tr_slots r)"
  shows "reset_slots [m..<length (tr_slots r)] [] r =
    ([], r\<lparr>tr_slots := take m (tr_slots r) @ map freed_slot (drop m (tr_slots r))\<rparr>)"
  using assms
proof (induction "length (tr_slots r) - m" arbitrary: m r)
  case 0
  then show ?case by simp
next
  case (Suc d)
  then have m: "m < length (tr_slots r)" by simp
  let ?r = "put_slot m (freed_slot (tr_slots r ! m)) r"
  have "reset_slots [m..<length (tr_slots r)] [] r = reset_slots [Suc m..<length (tr_slots ?r)] [] ?r"
    using m by (simp add: upt_conv_Cons Let_def set_cursor_def set_lease_def set_control_def put_slot_def
        freed_slot_def table_slot_order)
  also have "\<dots> = ([], ?r\<lparr>tr_slots := take (Suc m) (tr_slots ?r) @ map freed_slot (drop (Suc m) (tr_slots ?r))\<rparr>)"
    by (rule Suc.hyps(1)) (use Suc.hyps(2) m in \<open>simp_all add: put_slot_def\<close>)
  also have "\<dots> = ([], r\<lparr>tr_slots := take m (tr_slots r) @ map freed_slot (drop m (tr_slots r))\<rparr>)"
    using m by (simp add: put_slot_def take_Suc_conv_app_nth Cons_nth_drop_Suc [symmetric])
  finally show ?case .
qed

lemma reset_gate_quiet:
  assumes "n = length (tr_slots r)"
  obtains lag where "reset_gate_table n capacity [] r = (tr_tail r - lag, [],
      set_generation ((tr_generation r OR 1) + 1) (r\<lparr>tr_slots := map freed_slot (tr_slots r)\<rparr>))"
    and "lag \<le> capacity"
    and "\<forall>t\<in>set (tr_slots r). plausible (tr_tail r) capacity t \<longrightarrow> tr_tail r - ts_cursor t \<le> lag"
    and "lag = 0 \<or> (\<exists>t\<in>set (tr_slots r). plausible (tr_tail r) capacity t \<and> lag = tr_tail r - ts_cursor t)"
proof -
  let ?r = "set_generation (tr_generation r OR 1) r"
  have s: "tr_slots ?r = tr_slots r" "tr_tail ?r = tr_tail r" by (simp_all add: set_generation_def)
  obtain lag where L: "reset_lag [0..<n] (tr_tail r) capacity 0 [] ?r = (lag, [], ?r)" "lag \<le> capacity"
    "\<forall>i\<in>set [0..<n]. plausible (tr_tail r) capacity (tr_slots r ! i) \<longrightarrow> tr_tail r - ts_cursor (tr_slots r ! i) \<le> lag"
    "lag = 0 \<or> (\<exists>i\<in>set [0..<n]. plausible (tr_tail r) capacity (tr_slots r ! i)
        \<and> lag = tr_tail r - ts_cursor (tr_slots r ! i))"
    using reset_lag_quiet [of 0 capacity "[0..<n]" "tr_tail r" ?r] unfolding s by auto
  have R: "reset_slots [0..<n] [] ?r = ([], ?r\<lparr>tr_slots := map freed_slot (tr_slots r)\<rparr>)"
    using reset_slots_quiet [of 0 ?r] assms s by simp
  have g: "set_generation ((tr_generation r OR 1) + 1) (?r\<lparr>tr_slots := ts\<rparr>)
      = set_generation ((tr_generation r OR 1) + 1) (r\<lparr>tr_slots := ts\<rparr>)" for ts
    by (simp add: set_generation_def)
  show thesis
  proof (rule that [OF _ L(2)])
    show "reset_gate_table n capacity [] r = (tr_tail r - lag, [],
      set_generation ((tr_generation r OR 1) + 1) (r\<lparr>tr_slots := map freed_slot (tr_slots r)\<rparr>))"
      using L(1) R g s by (simp add: reset_gate_table_def Let_def)
    show "\<forall>t\<in>set (tr_slots r). plausible (tr_tail r) capacity t \<longrightarrow> tr_tail r - ts_cursor t \<le> lag"
      using L(3) assms by (auto simp: in_set_conv_nth)
    show "lag = 0 \<or> (\<exists>t\<in>set (tr_slots r). plausible (tr_tail r) capacity t \<and> lag = tr_tail r - ts_cursor t)"
      using L(4) assms by auto
  qed
qed

lemma single_gating_slot:
  assumes "t0 = \<lparr>ts_lease = l, ts_control = control_word e STATE_ACTIVE, ts_cursor = w\<rparr>" and "w \<noteq> DETACHED"
  shows "table_cursors (t0 # map freed_slot ts) = {w}"
proof -
  have "{s \<in> set (t0 # map freed_slot ts). slot_gates s} = {t0}"
    using assms by (auto simp: slot_gates_def freed_slot_def control_is_active_def)
  then show ?thesis using assms by (simp add: table_cursors_def)
qed

text \<open>
  Recovery on a region no other process touches. It always succeeds. The
  recovered consumer resumes at the slowest plausible registered cursor, or at
  the published cursor when there was none; every slot is freed at a new epoch,
  except the first, which the recoverer owns; the generation is closed, the ring
  is open, the producer role is the recoverer's, and its new producer sees no
  more space than the resumed consumer leaves.
\<close>

lemma recover_quiet:
  assumes n: "go_max_slots opened = length (tr_slots r)" "0 < length (tr_slots r)"
    and cap: "0 < go_capacity opened" "Suc (2 * unat (go_capacity opened)) < word_span"
  shows "case recover_shm_with ptoken ctoken pid opened [] r of
      (Inl e, env, r') \<Rightarrow> False
    | (Inr (pa, p, c), env, r') \<Rightarrow>
        tr_tail r - tc_read_cursor c \<le> go_capacity opened
        \<and> (\<forall>t\<in>set (tr_slots r). plausible (tr_tail r) (go_capacity opened) t \<longrightarrow>
             cdist (ts_cursor t) (tr_tail r) \<le> cdist (tc_read_cursor c) (tr_tail r))
        \<and> (tc_read_cursor c = tr_tail r \<or> (\<exists>t\<in>set (tr_slots r).
             plausible (tr_tail r) (go_capacity opened) t \<and> tc_read_cursor c = ts_cursor t))
        \<and> tr_tail r' = tr_tail r \<and> tr_closed r' = 0 \<and> producer_lease (tr_header r') = ptoken
        \<and> tr_generation r' = (tr_generation r OR 1) + 1
        \<and> owns_slot r' (tc_anchor c) \<and> gsc_slot (tc_anchor c) = 0
        \<and> (\<exists>t0. tr_slots r' = t0 # map freed_slot (tl (tr_slots r))
             \<and> ts_control t0 = control_word (gsc_epoch (tc_anchor c)) STATE_ACTIVE
             \<and> gsc_epoch (tc_anchor c) = control_epoch (ts_control (hd (tr_slots r))) + 2
             \<and> ts_cursor t0 = tc_published c
             \<and> cdist (ts_cursor t0) (tr_tail r) \<le> cdist (gp_cached_min p) (tr_tail r))
        \<and> gp_next_seq p = tr_tail r"
proof -
  let ?c = "go_capacity opened" and ?T = "tr_tail r"
  define r1 where "r1 = r\<lparr>tr_header := set_lease_word RoleProducer ptoken (tr_header r), tr_closed := 0\<rparr>"
  have s1: "tr_slots r1 = tr_slots r" "tr_tail r1 = ?T" "tr_generation r1 = tr_generation r"
    by (simp_all add: r1_def tr_generation_def)
  obtain t ts where sl: "tr_slots r = t # ts" using n(2) by (cases "tr_slots r") auto
  have n1: "go_max_slots opened = length (tr_slots r1)" using n s1 by simp
  obtain lag where R: "reset_gate_table (go_max_slots opened) ?c [] r1 = (tr_tail r1 - lag, [],
      set_generation ((tr_generation r1 OR 1) + 1) (r1\<lparr>tr_slots := map freed_slot (tr_slots r1)\<rparr>))"
    and le: "lag \<le> ?c"
    and cov: "\<forall>t\<in>set (tr_slots r1). plausible (tr_tail r1) ?c t \<longrightarrow> tr_tail r1 - ts_cursor t \<le> lag"
    and ex: "lag = 0 \<or> (\<exists>t\<in>set (tr_slots r1). plausible (tr_tail r1) ?c t \<and> lag = tr_tail r1 - ts_cursor t)"
    by (rule reset_gate_quiet [OF n1, of ?c])
  define resume where "resume = ?T - lag"
  define r2 where "r2 = set_generation ((tr_generation r1 OR 1) + 1) (r1\<lparr>tr_slots := map freed_slot (tr_slots r1)\<rparr>)"
  have s2: "tr_slots r2 = freed_slot t # map freed_slot ts" "tr_tail r2 = ?T" "tr_closed r2 = 0"
    "producer_lease (tr_header r2) = ptoken" "tr_generation r2 = (tr_generation r OR 1) + 1"
    by (simp_all add: r2_def set_generation_def s1 sl tr_generation_def) (simp_all add: r1_def)
  have len2: "go_max_slots opened \<le> length (tr_slots r2)" unfolding s2(1) using n sl by simp
  have f0: "find (\<lambda>i. control_state (ts_control (tr_slots r2 ! i)) = STATE_FREE) [0..<go_max_slots opened] = Some 0"
    unfolding s2(1) using n by (simp add: find_upt freed_slot_def)
  have C: "claim_table_slot ctoken (go_max_slots opened) [] r2
      = (Some (claim_of ctoken r2 0), [], put_slot 0 (claimed_slot ctoken r2 0) r2)"
    using claim_table_slot_quiet [OF len2, of ctoken] unfolding f0 by simp
  have RC: "reset_and_claim_gate_table ctoken (go_max_slots opened) ?c [] r1
      = (Inr (resume, claim_of ctoken r2 0), [], put_slot 0 (claimed_slot ctoken r2 0) r2)"
    unfolding reset_and_claim_gate_table_def R [folded r2_def] RECOVER_CLAIM_ATTEMPTS_def
    by (simp add: numeral_eq_Suc C resume_def s1)
  let ?t0 = "\<lparr>ts_lease = ctoken, ts_control = control_word (control_epoch (ts_control t) + 2) STATE_ACTIVE,
      ts_cursor = slot_guard resume\<rparr>"
  let ?r3 = "r2\<lparr>tr_slots := ?t0 # map freed_slot ts\<rparr>"
  have r3: "set_cursor (sc_slot (claim_of ctoken r2 0)) (slot_guard resume)
      (put_slot 0 (claimed_slot ctoken r2 0) r2) = ?r3"
    by (simp add: set_cursor_def put_slot_def claimed_slot_def claim_of_def s2 freed_slot_def)
  let ?p = "table_producer_from_shm (go_max_slots opened) ?c ?r3"
  let ?co = "table_consumer_from_shm (gate_shm_consumer_new pid (claim_of ctoken r2 0) (go_max_slots opened)) ?c resume"
  have A: "spmc_attach_producer_anchor ptoken pid True (\<lambda>h. h) opened r
      = (Inr \<lparr>gsp_token = ptoken, gsp_owner_pid = pid, gsp_max_slots = go_max_slots opened\<rparr>, r1)"
    by (simp add: spmc_attach_producer_anchor_def force_claim_lease_def r1_def)
  have res: "recover_shm_with ptoken ctoken pid opened [] r
      = (Inr (\<lparr>gsp_token = ptoken, gsp_owner_pid = pid, gsp_max_slots = go_max_slots opened\<rparr>, ?p, ?co), [], ?r3)"
    using RC r3 by (simp add: recover_shm_with_def A Let_def)
  have pos: "cdist resume ?T = unat lag" by (simp add: resume_def)
  have lagc: "unat lag \<le> unat ?c" using le by (simp add: word_le_nat_alt)
  have guard: "cdist (slot_guard resume) ?T \<le> Suc (unat ?c)"
  proof (cases "resume = DETACHED")
    case True
    have "cdist (resume - 1) ?T = unat (lag + 1)"
      by (simp add: cdist_def resume_def)
    also have "\<dots> = Suc (unat lag)" using unat_add_span [of lag 1] lagc cap(2) by simp
    finally show ?thesis using True lagc by (simp add: slot_guard_def)
  next
    case False
    then have "slot_guard resume = resume" by (simp add: slot_guard_def)
    then show ?thesis using pos lagc by simp
  qed
  have cur: "table_cursors (tr_slots ?r3) = {slot_guard resume}"
    using single_gating_slot [OF refl slot_guard_ne(1)] by simp
  have ca: "table_cache_ok (tr_slots ?r3) [] ?T ?c"
    using cur guard cap(2) by (simp add: table_cache_ok_def entries_sane_def rows_full_def covers_def)
  obtain walked cached where w: "table_walk (tr_slots ?r3) [] ?T 1 ?c = (walked, cached)" by (rule prod.exhaust)
  obtain ok m where g: "rescan_gate ?T 1 ?c walked = (ok, m)" by (rule prod.exhaust)
  have one: "(0 :: u64) < 1" "1 \<le> ?c" using cap(1) by (simp_all add: word_le_nat_alt word_less_nat_alt)
  have low: "cdist (slot_guard resume) ?T \<le> cdist m ?T"
    by (rule table_gate.gate_lower_bound [OF ca one w g]) (use cur in simp)
  have p: "gp_next_seq ?p = ?T" "gp_cached_min ?p = m"
    using w g n sl
    by (simp_all add: table_producer_from_shm_def table_rescan_def table_walk_def Let_def s2)
  have cov': "\<forall>t\<in>set (tr_slots r). plausible ?T ?c t \<longrightarrow> cdist (ts_cursor t) ?T \<le> cdist resume ?T"
    using cov pos by (simp add: cdist_def word_le_nat_alt s1)
  have ex': "resume = ?T \<or> (\<exists>t\<in>set (tr_slots r). plausible ?T ?c t \<and> resume = ts_cursor t)"
    using ex by (auto simp: resume_def s1)
  have "?T - resume = lag" by (simp add: resume_def)
  then show ?thesis
    unfolding res using le cov' ex' p low s2 sl
    by (simp add: table_consumer_from_shm_def gate_shm_consumer_new_def claim_of_def owns_slot_def
        freed_slot_def slot_guard_same tr_generation_def)
qed

text \<open>
  The table a creation publishes is open to every attach. On a table of one slot, a
  claim that another process completes first leaves the creator without a slot.
\<close>

lemma fresh_table_claim_can_fail:
  assumes "ts_control s = control_word 0 STATE_FREE" and "tr_slots r = [s]"
  shows "fst (claim_table_slot token 1 [\<lambda>r. snd (snd (claim_table_slot other 1 [] r))] r) = None"
  using assms
  by (simp add: claim_table_slot_def claim_slot_loop.simps finish_claim_def claim_exchange_def
      compare_exchange_def set_control_def set_cursor_def set_lease_def Let_def)

end
