(* ===== verification/Shm_Recovery.thy ===== *)
theory Shm_Recovery
  imports Shm_Table_Properties
begin

text \<open>
  Recovery of a gating shared-memory ring while other processes keep attaching
  (\<open>reset_and_claim_gate_table\<close> and \<open>recover_shm_with\<close> of \<open>src/src/shm.rs\<close>): how
  many slots the others must grab before a claim of the recoverer is lost, and
  where the recovered consumer resumes.
\<close>

section \<open>Interference\<close>

text \<open>
  The table of a mapped region has a fixed number of slots. A step of another
  process is a grab when it can take a slot that is free.
\<close>

definition env_fixed :: "table_env \<Rightarrow> bool" where
  "env_fixed env \<longleftrightarrow> (\<forall>e\<in>set env. \<forall>s. length (tr_slots (e s)) = length (tr_slots s))"

definition slot_free :: "table_region \<Rightarrow> nat \<Rightarrow> bool" where
  "slot_free r i \<longleftrightarrow> control_state (ts_control (tr_slots r ! i)) = STATE_FREE"

definition grab :: "(table_region \<Rightarrow> table_region) \<Rightarrow> bool" where
  "grab e \<longleftrightarrow> (\<exists>s i. i < length (tr_slots s) \<and> slot_free s i \<and> \<not> slot_free (e s) i)"

definition grabs :: "table_env \<Rightarrow> nat" where
  "grabs env = length (filter grab env)"

text \<open>
  What a stretch of the recoverer's code keeps: the table, and a free first slot
  unless another process grabbed one meanwhile.
\<close>

definition calm :: "table_env \<Rightarrow> table_region \<Rightarrow> table_env \<Rightarrow> table_region \<Rightarrow> bool" where
  "calm env r env' r' \<longleftrightarrow> (env_fixed env \<and> 0 < length (tr_slots r) \<longrightarrow>
     env_fixed env' \<and> length (tr_slots r') = length (tr_slots r) \<and> grabs env' \<le> grabs env
     \<and> (slot_free r 0 \<and> grabs env' = grabs env \<longrightarrow> slot_free r' 0))"

lemma calm_refl [simp]: "calm env r env r"
  by (simp add: calm_def)

lemma calm_trans: "calm env r env1 r1 \<Longrightarrow> calm env1 r1 env2 r2 \<Longrightarrow> calm env r env2 r2"
  unfolding calm_def by (smt (verit) le_antisym le_trans)

lemma calm_interfere: "interfere env r = (r1, env1) \<Longrightarrow> calm env r env1 r1"
  by (cases env) (auto simp: calm_def env_fixed_def grabs_def grab_def)

lemma first_update: "xs \<noteq> [] \<Longrightarrow> xs[i := y] ! 0 = (if i = 0 then y else xs ! 0)"
  by (cases xs; cases i) simp_all

lemma calm_stores [simp]:
  "calm env r env (set_cursor i w r)" "calm env r env (set_lease i w r)" "calm env r env (set_generation g r)"
  by (auto simp: calm_def set_cursor_def set_lease_def set_generation_def slot_free_def first_update)

lemma calm_free: "control_state w = STATE_FREE \<Longrightarrow> calm env r env (set_control i w r)"
  by (auto simp: calm_def set_control_def slot_free_def first_update)

lemma slot_free_set: "control_state w = STATE_FREE \<Longrightarrow> 0 < length (tr_slots r) \<Longrightarrow> slot_free (set_control 0 w r) 0"
  by (simp add: set_control_def slot_free_def)

lemma calmD:
  assumes "calm env r env' r'" and "env_fixed env" and "0 < length (tr_slots r)"
  shows "env_fixed env'" and "length (tr_slots r') = length (tr_slots r)" and "grabs env' \<le> grabs env"
    and "slot_free r 0 \<Longrightarrow> grabs env' = grabs env \<Longrightarrow> slot_free r' 0"
  using assms by (simp_all add: calm_def)

section \<open>A claim is lost only to a grab\<close>

lemma claim_slot_loop_lost:
  assumes "claim_slot_loop slot cur env r = (None, env1, r1)"
  shows "calm env r env1 r1
    \<and> (slot = 0 \<and> env_fixed env \<and> 0 < length (tr_slots r) \<and> slot_free r 0 \<and> control_state cur = STATE_FREE
         \<longrightarrow> grabs env1 < grabs env)"
  using assms
proof (induction slot cur env r arbitrary: env1 r1 rule: claim_slot_loop.induct)
  case (1 slot cur env r)
  show ?case
  proof (cases "control_state cur = STATE_FREE")
    case False
    then show ?thesis using "1.prems" by (simp add: claim_slot_loop.simps [of slot cur])
  next
    case True
    obtain r2 env2 where i: "interfere env r = (r2, env2)" by (rule prod.exhaust)
    obtain won w where x: "claim_exchange cur (ts_control (tr_slots r2 ! slot)) = (won, w)" by (rule prod.exhaust)
    have won: "\<not> won" using "1.prems" True i x by (cases won) (auto simp: claim_slot_loop.simps [of slot cur])
    then have rest: "claim_slot_loop slot w env2 r2 = (None, env1, r1)"
      using "1.prems" True i x by (simp add: claim_slot_loop.simps [of slot cur])
    have w: "w = ts_control (tr_slots r2 ! slot)"
      using x won by (auto simp: claim_exchange_def compare_exchange_def split: if_splits)
    have IH: "calm env2 r2 env1 r1 \<and> (slot = 0 \<and> env_fixed env2 \<and> 0 < length (tr_slots r2) \<and> slot_free r2 0
        \<and> control_state w = STATE_FREE \<longrightarrow> grabs env1 < grabs env2)"
      using "1.IH" True i x won rest by auto
    note c = calm_interfere [OF i]
    have "grabs env1 < grabs env" if h: "slot = 0" "env_fixed env" "0 < length (tr_slots r)" "slot_free r 0"
    proof -
      note D = calmD [OF c h(2,3)]
      have "grabs env1 \<le> grabs env2" using IH D(1,2) h(3) by (simp add: calm_def)
      moreover have "grabs env2 < grabs env \<or> slot_free r2 0" using D(3,4) h(4) by linarith
      moreover have "grabs env1 < grabs env2" if "slot_free r2 0"
        using IH that D(1,2) h w by (simp add: slot_free_def)
      ultimately show ?thesis using D(3) by linarith
    qed
    then show ?thesis using calm_trans [OF c] IH by blast
  qed
qed

lemma claim_slots_lost:
  assumes "claim_slots token slots env r = (None, env1, r1)"
  shows "calm env r env1 r1
    \<and> (0 \<in> set slots \<and> env_fixed env \<and> 0 < length (tr_slots r) \<and> slot_free r 0 \<longrightarrow> grabs env1 < grabs env)"
  using assms
proof (induction slots arbitrary: env r)
  case Nil
  then show ?case by simp
next
  case (Cons slot slots)
  obtain r2 env2 where i: "interfere env r = (r2, env2)" by (rule prod.exhaust)
  obtain got env3 r3 where l: "claim_slot_loop slot (ts_control (tr_slots r2 ! slot)) env2 r2 = (got, env3, r3)"
    by (rule prod_cases3)
  have got: "got = None" using Cons.prems i l by (cases got) (auto split: prod.splits)
  have rest: "claim_slots token slots env3 r3 = (None, env1, r1)" using Cons.prems i l got by simp
  note L = claim_slot_loop_lost [OF l [unfolded got]]
  note IH = Cons.IH [OF rest]
  note c = calm_interfere [OF i]
  have c3: "calm env r env3 r3" by (rule calm_trans [OF c]) (use L in blast)
  have "grabs env1 < grabs env"
    if h: "0 \<in> set (slot # slots)" "env_fixed env" "0 < length (tr_slots r)" "slot_free r 0"
  proof -
    note D = calmD [OF c h(2,3)] and D3 = calmD [OF c3 h(2,3)]
    have le: "grabs env1 \<le> grabs env3" using IH D3(1,2) h(3) by (simp add: calm_def)
    show ?thesis
    proof (cases "slot = 0")
      case True
      have "grabs env3 < grabs env2" if "slot_free r2 0"
        using L that True D(1,2) h(3) by (simp add: slot_free_def)
      then show ?thesis using D(3,4) h(4) le D3(3) calmD(3) [of env2 r2 env3 r3] L D(1,2) h(3)
        by (metis le_antisym le_neq_implies_less le_trans less_le_trans le_less_trans)
    next
      case False
      then have "0 \<in> set slots" using h(1) by simp
      then have "slot_free r3 0 \<Longrightarrow> grabs env1 < grabs env3" using IH D3(1,2) h(3) by simp
      then show ?thesis using D3(3,4) h(4) le by linarith
    qed
  qed
  then show ?case using calm_trans [OF c3] IH by blast
qed

lemma reset_lag_calm:
  "reset_lag slots tail capacity m env r = (m', env1, r1) \<Longrightarrow> calm env r env1 r1"
proof (induction slots arbitrary: m env r)
  case (Cons slot slots)
  obtain r2 env2 where i: "interfere env r = (r2, env2)" by (rule prod.exhaust)
  obtain r3 env3 where j: "interfere env2 r2 = (r3, env3)" by (rule prod.exhaust)
  have c: "calm env r env3 r3" by (rule calm_trans [OF calm_interfere [OF i] calm_interfere [OF j]])
  show ?case
  proof (cases "control_state (ts_control (tr_slots r2 ! slot)) = STATE_FREE")
    case True
    then have "reset_lag slots tail capacity m env2 r2 = (m', env1, r1)" using Cons.prems i by simp
    then show ?thesis using calm_trans [OF calm_interfere [OF i]] Cons.IH by blast
  next
    case False
    then obtain m2 where "reset_lag slots tail capacity m2 env3 r3 = (m', env1, r1)"
      using Cons.prems i j by (simp add: Let_def split: if_splits)
    then show ?thesis using calm_trans [OF c] Cons.IH by blast
  qed
qed simp

lemma reset_slots_calm:
  assumes "reset_slots slots env r = (env1, r1)"
  shows "calm env r env1 r1
    \<and> (0 \<in> set slots \<and> env_fixed env \<and> 0 < length (tr_slots r) \<and> grabs env1 = grabs env \<longrightarrow> slot_free r1 0)"
  using assms
proof (induction slots arbitrary: env r)
  case Nil
  then show ?case by simp
next
  case (Cons slot slots)
  obtain r2 env2 where i: "interfere env r = (r2, env2)" by (rule prod.exhaust)
  obtain r3 env3 where j: "interfere env2 (set_cursor slot DETACHED r2) = (r3, env3)" by (rule prod.exhaust)
  obtain r4 env4 where k: "interfere env3 (set_lease slot 0 r3) = (r4, env4)" by (rule prod.exhaust)
  obtain r5 env5 where l: "interfere env4 r4 = (r5, env5)" by (rule prod.exhaust)
  define w where "w = control_word (control_epoch (ts_control (tr_slots r4 ! slot)) + 1) STATE_FREE"
  define r6 where "r6 = set_control slot w r5"
  have rest: "reset_slots slots env5 r6 = (env1, r1)"
    using Cons.prems i j k l by (simp add: r6_def w_def Let_def)
  have wf: "control_state w = STATE_FREE" by (simp add: w_def)
  have c5: "calm env r env5 r5"
    using calm_trans [OF calm_interfere [OF i] calm_trans [OF calm_stores(1) calm_trans [OF calm_interfere [OF j]
      calm_trans [OF calm_stores(2) calm_trans [OF calm_interfere [OF k] calm_interfere [OF l]]]]]] .
  have c6: "calm env r env5 r6" unfolding r6_def by (rule calm_trans [OF c5 calm_free [OF wf]])
  note IH = Cons.IH [OF rest]
  have "slot_free r1 0"
    if h: "0 \<in> set (slot # slots)" "env_fixed env" "0 < length (tr_slots r)" "grabs env1 = grabs env"
  proof -
    note D = calmD [OF c6 h(2,3)]
    have fx: "env_fixed env5" "0 < length (tr_slots r6)" using D h by simp_all
    have le: "grabs env1 \<le> grabs env5" using calmD(3) [of env5 r6 env1 r1] IH fx by blast
    then have eq: "grabs env5 = grabs env" "grabs env1 = grabs env5" using D(3) h(4) by linarith+
    show ?thesis
    proof (cases "slot = 0")
      case True
      have "0 < length (tr_slots r5)" using calmD(2) [OF c5 h(2,3)] h(3) by simp
      then have "slot_free r6 0" unfolding r6_def True by (rule slot_free_set [OF wf])
      then show ?thesis using calmD(4) [of env5 r6 env1 r1] IH fx eq by blast
    next
      case False
      then show ?thesis using IH h(1) fx eq by simp
    qed
  qed
  then show ?case using calm_trans [OF c6] IH by blast
qed

text \<open>A reset frees the first slot, or somebody grabbed a slot meanwhile.\<close>

lemma reset_gate_calm:
  assumes "reset_gate_table n capacity env r = (resume, env1, r1)"
  shows "calm env r env1 r1
    \<and> (0 < n \<and> env_fixed env \<and> 0 < length (tr_slots r) \<and> grabs env1 = grabs env \<longrightarrow> slot_free r1 0)"
proof -
  define g where "g = tr_generation r OR 1"
  obtain r2 env2 where i: "interfere env (set_generation g r) = (r2, env2)" by (rule prod.exhaust)
  obtain lag env3 r3 where l: "reset_lag [0..<n] (tr_tail r2) capacity 0 env2 r2 = (lag, env3, r3)" by (rule prod_cases3)
  obtain env4 r4 where s: "reset_slots [0..<n] env3 r3 = (env4, r4)" by (rule prod.exhaust)
  obtain r5 env5 where j: "interfere env4 r4 = (r5, env5)" by (rule prod.exhaust)
  have res: "env1 = env5" "r1 = set_generation (g + 1) r5"
    using assms i l s j by (simp_all add: reset_gate_table_def Let_def g_def)
  note S = reset_slots_calm [OF s]
  have c3: "calm env r env3 r3"
    using calm_trans [OF calm_stores(3) calm_trans [OF calm_interfere [OF i] reset_lag_calm [OF l]]] .
  have c5: "calm env4 r4 env1 r1"
    unfolding res by (rule calm_trans [OF calm_interfere [OF j] calm_stores(3)])
  have "slot_free r1 0"
    if h: "0 < n" "env_fixed env" "0 < length (tr_slots r)" "grabs env1 = grabs env"
  proof -
    note D3 = calmD [OF c3 h(2,3)]
    have f3: "env_fixed env3" "0 < length (tr_slots r3)" using D3 h by simp_all
    note D4 = calmD [OF conjunct1 [OF S] f3]
    have f4: "env_fixed env4" "0 < length (tr_slots r4)" using D4 f3 by simp_all
    note D5 = calmD [OF c5 f4]
    have eq: "grabs env4 = grabs env3" "grabs env1 = grabs env4" using D3(3) D4(3) D5(3) h(4) by linarith+
    then have "slot_free r4 0" using S f3 h(1) by simp
    then show ?thesis using D5(4) eq by blast
  qed
  then show ?thesis using calm_trans [OF c3 calm_trans [OF conjunct1 [OF S] c5]] by blast
qed

text \<open>
  With \<open>attempts\<close> claims to make, fewer grabs than that leave one of them a slot;
  and the resume point is handed through unchanged, however often the table is
  reset on the way.
\<close>

lemma interfere_fixed:
  "interfere env r = (r1, env1) \<Longrightarrow> env_fixed env \<Longrightarrow> length (tr_slots r1) = length (tr_slots r) \<and> env_fixed env1"
  by (cases env) (auto simp: env_fixed_def)

lemma claim_slot_loop_fixed:
  assumes "claim_slot_loop slot cur env r = (got, env1, r1)" and "env_fixed env"
  shows "length (tr_slots r1) = length (tr_slots r) \<and> env_fixed env1"
  using assms
proof (induction slot cur env r arbitrary: env1 r1 rule: claim_slot_loop.induct)
  case (1 slot cur env r)
  obtain r2 env2 where i: "interfere env r = (r2, env2)" by (rule prod.exhaust)
  obtain won w where x: "claim_exchange cur (ts_control (tr_slots r2 ! slot)) = (won, w)" by (rule prod.exhaust)
  note F = interfere_fixed [OF i "1.prems"(2)]
  show ?case
  proof (cases "control_state cur = STATE_FREE \<and> \<not> won")
    case True
    then have "claim_slot_loop slot w env2 r2 = (got, env1, r1)"
      using "1.prems"(1) i x by (simp add: claim_slot_loop.simps [of slot cur])
    then show ?thesis using "1.IH" True i x F by auto
  next
    case False
    then show ?thesis
      using "1.prems" i x F by (auto simp: claim_slot_loop.simps [of slot cur] set_control_def split: if_splits)
  qed
qed

lemma claim_slots_fixed:
  assumes "claim_slots token slots env r = (Some claim, env1, r1)" and "env_fixed env"
  shows "length (tr_slots r1) = length (tr_slots r) \<and> sc_slot claim \<in> set slots"
  using assms
proof (induction slots arbitrary: env r)
  case (Cons slot slots)
  obtain r2 env2 where i: "interfere env r = (r2, env2)" by (rule prod.exhaust)
  obtain got env3 r3 where l: "claim_slot_loop slot (ts_control (tr_slots r2 ! slot)) env2 r2 = (got, env3, r3)"
    by (rule prod_cases3)
  have L3: "length (tr_slots r3) = length (tr_slots r)" "env_fixed env3"
    using interfere_fixed [OF i Cons.prems(2)] claim_slot_loop_fixed [OF l] by simp_all
  show ?case
  proof (cases got)
    case None
    then show ?thesis using Cons.IH [OF _ L3(2)] Cons.prems(1) i l L3(1) by simp
  next
    case (Some epoch)
    then have f: "finish_claim token slot epoch env3 r3 = (claim, env1, r1)"
      using Cons.prems(1) i l by (auto split: prod.splits)
    have "length (tr_slots r1) = length (tr_slots r3) \<and> sc_slot claim = slot"
      using f L3(2) by (auto simp: finish_claim_def Let_def set_cursor_def set_lease_def split: prod.splits
          dest!: interfere_fixed)
    then show ?thesis using L3(1) by simp
  qed
qed simp

lemma retry_outcome:
  assumes "recover_retry attempts token n capacity resume env r = (res, env', r')"
    and "env_fixed env" and "0 < n" and "n = length (tr_slots r)"
  shows "case res of
      Inl e \<Rightarrow> e = IO_AddrInUse \<and> attempts \<le> grabs env + (if slot_free r 0 then 0 else 1)
    | Inr (resume', claim) \<Rightarrow> resume' = resume \<and> sc_slot claim < n \<and> length (tr_slots r') = n"
  using assms
proof (induction attempts arbitrary: env r)
  case 0
  then show ?case by auto
next
  case (Suc attempts)
  obtain got env1 r1 where c: "claim_table_slot token n env r = (got, env1, r1)" by (rule prod_cases3)
  note c' = c [unfolded claim_table_slot_def]
  show ?case
  proof (cases got)
    case (Some claim)
    then show ?thesis
      using Suc.prems c claim_slots_fixed [OF c' [unfolded Some] Suc.prems(2)] by auto
  next
    case None
    obtain late env2 r2 where g: "reset_gate_table n capacity env1 r1 = (late, env2, r2)" by (rule prod_cases3)
    have rest: "recover_retry attempts token n capacity resume env2 r2 = (res, env', r')"
      using Suc.prems(1) c None g by simp
    note C = claim_slots_lost [OF c' [unfolded None]]
    have len: "0 < length (tr_slots r)" using Suc.prems by simp
    note D1 = calmD [OF conjunct1 [OF C] Suc.prems(2) len]
    note G = reset_gate_calm [OF g]
    have len1: "0 < length (tr_slots r1)" using D1(2) len by simp
    note D2 = calmD [OF conjunct1 [OF G] D1(1) len1]
    have lost: "grabs env1 + 1 \<le> grabs env + (if slot_free r 0 then 0 else 1)"
      using C Suc.prems(2,3) len D1(3) by auto
    have again: "grabs env2 + (if slot_free r2 0 then 0 else 1) \<le> grabs env1"
      using G Suc.prems(3) D1(1) len1 D2(3) by auto
    have n2: "n = length (tr_slots r2)" using D1(2) D2(2) Suc.prems(4) by simp
    show ?thesis
      using Suc.IH [OF rest D2(1) Suc.prems(3) n2] lost again by (auto split: sum.splits)
  qed
qed

section \<open>The resume point\<close>

text \<open>
  The interference that falls before and into the first reset's scan for the
  slowest cursor; \<open>leaves i\<close> says that a step leaves the published cursor and
  slot \<open>i\<close> alone, as everybody does with the slot of a dead consumer.
\<close>

definition scan_env :: "nat \<Rightarrow> u64 \<Rightarrow> table_env \<Rightarrow> table_region \<Rightarrow> table_env" where
  "scan_env n capacity env r =
     (case interfere env (set_generation (tr_generation r OR 1) r) of (r1, env1) \<Rightarrow>
      case reset_lag [0..<n] (tr_tail r1) capacity 0 env1 r1 of (_, env2, _) \<Rightarrow>
        take (length env - length env2) env)"

definition leaves :: "nat \<Rightarrow> (table_region \<Rightarrow> table_region) \<Rightarrow> bool" where
  "leaves i e \<longleftrightarrow> (\<forall>s. tr_tail (e s) = tr_tail s \<and> tr_slots (e s) ! i = tr_slots s ! i)"

lemma interfere_used:
  "interfere env r = (r1, env1) \<Longrightarrow> \<exists>used. env = used @ env1
     \<and> (\<forall>i. (\<forall>e\<in>set used. leaves i e) \<longrightarrow> tr_tail r1 = tr_tail r \<and> tr_slots r1 ! i = tr_slots r ! i)
     \<and> ((\<forall>e\<in>set used. \<forall>s. tr_tail (e s) = tr_tail s) \<longrightarrow> tr_tail r1 = tr_tail r)"
  by (cases env) (auto simp: leaves_def)

lemma reset_lag_used:
  assumes "reset_lag slots tail capacity m env r = (m', env', r')" and "m \<le> capacity"
  shows "m \<le> m' \<and> m' \<le> capacity \<and> (\<exists>used. env = used @ env'
    \<and> (\<forall>i\<in>set slots. (\<forall>e\<in>set used. leaves i e) \<and> plausible tail capacity (tr_slots r ! i)
          \<longrightarrow> tail - ts_cursor (tr_slots r ! i) \<le> m'))"
  using assms
proof (induction slots arbitrary: m env r)
  case Nil
  then show ?case by simp
next
  case (Cons slot slots)
  obtain r2 env2 where i: "interfere env r = (r2, env2)" by (rule prod.exhaust)
  obtain r3 env3 where j: "interfere env2 r2 = (r3, env3)" by (rule prod.exhaust)
  obtain u1 where u1: "env = u1 @ env2"
    "\<And>i. \<forall>e\<in>set u1. leaves i e \<Longrightarrow> tr_slots r2 ! i = tr_slots r ! i" using interfere_used [OF i] by blast
  obtain u2 where u2: "env2 = u2 @ env3"
    "\<And>i. \<forall>e\<in>set u2. leaves i e \<Longrightarrow> tr_slots r3 ! i = tr_slots r2 ! i" using interfere_used [OF j] by blast
  show ?case
  proof (cases "control_state (ts_control (tr_slots r2 ! slot)) = STATE_FREE")
    case True
    then have rest: "reset_lag slots tail capacity m env2 r2 = (m', env', r')" using Cons.prems(1) i by simp
    obtain u where u: "m \<le> m'" "m' \<le> capacity" "env2 = u @ env'"
      "\<forall>i\<in>set slots. (\<forall>e\<in>set u. leaves i e) \<and> plausible tail capacity (tr_slots r2 ! i)
          \<longrightarrow> tail - ts_cursor (tr_slots r2 ! i) \<le> m'"
      using Cons.IH [OF rest Cons.prems(2)] by blast
    have "tail - ts_cursor (tr_slots r ! i) \<le> m'"
      if "i \<in> set (slot # slots)" "\<forall>e\<in>set (u1 @ u). leaves i e" "plausible tail capacity (tr_slots r ! i)" for i
      using that u(4) u1(2) [of i] True by (auto simp: plausible_def)
    then show ?thesis using u(1,2) u1(1) u(3) by (intro conjI exI [of _ "u1 @ u"]) auto
  next
    case False
    let ?w = "ts_cursor (tr_slots r3 ! slot)"
    define m1 where "m1 = (if ?w \<noteq> DETACHED \<and> tail - ?w \<le> capacity \<and> m < tail - ?w then tail - ?w else m)"
    have rest: "reset_lag slots tail capacity m1 env3 r3 = (m', env', r')"
      using Cons.prems(1) i j False by (auto simp: m1_def Let_def split: if_splits)
    have m1: "m \<le> m1" "m1 \<le> capacity" "?w \<noteq> DETACHED \<and> tail - ?w \<le> capacity \<longrightarrow> tail - ?w \<le> m1"
      using Cons.prems(2) by (auto simp: m1_def)
    obtain u where u: "m1 \<le> m'" "m' \<le> capacity" "env3 = u @ env'"
      "\<forall>i\<in>set slots. (\<forall>e\<in>set u. leaves i e) \<and> plausible tail capacity (tr_slots r3 ! i)
          \<longrightarrow> tail - ts_cursor (tr_slots r3 ! i) \<le> m'"
      using Cons.IH [OF rest m1(2)] by blast
    have "tail - ts_cursor (tr_slots r ! i) \<le> m'"
      if h: "i \<in> set (slot # slots)" "\<forall>e\<in>set (u1 @ u2 @ u). leaves i e" "plausible tail capacity (tr_slots r ! i)" for i
    proof -
      have "tr_slots r3 ! i = tr_slots r ! i" using u1(2) [of i] u2(2) [of i] h(2) by simp
      then show ?thesis
        using h u(1,4) m1(3) by (auto simp: plausible_def intro: order_trans)
    qed
    then show ?thesis
      using u(1,2) m1(1) u1(1) u2(1) u(3) by (intro conjI exI [of _ "u1 @ u2 @ u"]) auto
  qed
qed

lemma reset_gate_resume:
  assumes g: "reset_gate_table n capacity env r = (resume, env', r')"
  shows "i < n \<Longrightarrow> \<forall>e\<in>set (scan_env n capacity env r). leaves i e \<Longrightarrow>
      plausible (tr_tail r) capacity (tr_slots r ! i) \<Longrightarrow>
      cdist (ts_cursor (tr_slots r ! i)) (tr_tail r) \<le> cdist resume (tr_tail r)"
    and "\<forall>e\<in>set (scan_env n capacity env r). \<forall>s. tr_tail (e s) = tr_tail s \<Longrightarrow> tr_tail r - resume \<le> capacity"
proof -
  let ?r0 = "set_generation (tr_generation r OR 1) r"
  have s0: "tr_tail ?r0 = tr_tail r" "tr_slots ?r0 = tr_slots r" by (simp_all add: set_generation_def)
  obtain r1 env1 where i: "interfere env ?r0 = (r1, env1)" by (rule prod.exhaust)
  obtain lag env2 r2 where l: "reset_lag [0..<n] (tr_tail r1) capacity 0 env1 r1 = (lag, env2, r2)"
    by (rule prod_cases3)
  have res: "resume = tr_tail r1 - lag"
    using g i l by (auto simp: reset_gate_table_def Let_def split: prod.splits)
  obtain u1 where u1: "env = u1 @ env1"
    "\<And>i. \<forall>e\<in>set u1. leaves i e \<Longrightarrow> tr_tail r1 = tr_tail r \<and> tr_slots r1 ! i = tr_slots r ! i"
    "\<forall>e\<in>set u1. \<forall>s. tr_tail (e s) = tr_tail s \<Longrightarrow> tr_tail r1 = tr_tail r"
    using interfere_used [OF i] unfolding s0 by blast
  obtain u2 where u2: "lag \<le> capacity" "env1 = u2 @ env2"
    "\<forall>i\<in>set [0..<n]. (\<forall>e\<in>set u2. leaves i e) \<and> plausible (tr_tail r1) capacity (tr_slots r1 ! i)
          \<longrightarrow> tr_tail r1 - ts_cursor (tr_slots r1 ! i) \<le> lag"
    using reset_lag_used [OF l] by auto
  have scan: "scan_env n capacity env r = u1 @ u2"
    using i l by (simp add: scan_env_def u1(1) u2(2))
  show "cdist (ts_cursor (tr_slots r ! i)) (tr_tail r) \<le> cdist resume (tr_tail r)"
    if h: "i < n" "\<forall>e\<in>set (scan_env n capacity env r). leaves i e" "plausible (tr_tail r) capacity (tr_slots r ! i)" for i
  proof -
    have e: "tr_tail r1 = tr_tail r" "tr_slots r1 ! i = tr_slots r ! i" using u1(2) [of i] h(2) by (simp_all add: scan)
    moreover have "(\<forall>e\<in>set u2. leaves i e) \<and> plausible (tr_tail r1) capacity (tr_slots r1 ! i)
        \<longrightarrow> tr_tail r1 - ts_cursor (tr_slots r1 ! i) \<le> lag"
      using u2(3) h(1) by simp
    ultimately have "tr_tail r - ts_cursor (tr_slots r ! i) \<le> lag" using h by (simp add: scan)
    then show ?thesis by (simp add: cdist_def word_le_nat_alt res e)
  qed
  show "tr_tail r - resume \<le> capacity"
    if h: "\<forall>e\<in>set (scan_env n capacity env r). \<forall>s. tr_tail (e s) = tr_tail s"
    using u1(3) h u2(1) by (simp add: scan res)
qed

section \<open>Recovery\<close>

text \<open>The region once the recoverer has taken the producer role.\<close>

definition taken :: "u64 \<Rightarrow> table_region \<Rightarrow> table_region" where
  "taken token r = r\<lparr>tr_header := set_lease_word RoleProducer token (tr_header r), tr_closed := 0\<rparr>"

lemma taken_facts:
  "tr_tail (taken token r) = tr_tail r" "tr_slots (taken token r) = tr_slots r"
  by (simp_all add: taken_def)

lemma recover_outcome:
  assumes n: "go_max_slots opened = length (tr_slots r)" "0 < length (tr_slots r)" and fixed: "env_fixed env"
  shows "case recover_shm_with ptoken ctoken pid opened env r of
      (Inl e, env', r') \<Rightarrow> e = IO_AddrInUse \<and> 16 \<le> grabs env
        \<and> (ptoken \<noteq> 0 \<longrightarrow> producer_lease (tr_header r') \<noteq> ptoken)
    | (Inr (pa, p, c), env', r') \<Rightarrow>
        tc_read_cursor c = fst (reset_gate_table (go_max_slots opened) (go_capacity opened) env (taken ptoken r))
        \<and> gsc_slot (tc_anchor c) < length (tr_slots r')
        \<and> ts_cursor (tr_slots r' ! gsc_slot (tc_anchor c)) = tc_published c"
proof -
  let ?n = "go_max_slots opened" and ?c = "go_capacity opened"
  let ?pa = "\<lparr>gsp_token = ptoken, gsp_owner_pid = pid, gsp_max_slots = ?n\<rparr>"
  have A: "spmc_attach_producer_anchor ptoken pid True (\<lambda>h. h) opened r = (Inr ?pa, taken ptoken r)"
    by (simp add: spmc_attach_producer_anchor_def force_claim_lease_def taken_def)
  obtain resume env1 r1 where g: "reset_gate_table ?n ?c env (taken ptoken r) = (resume, env1, r1)" by (rule prod_cases3)
  obtain res env2 r2 where t: "recover_retry RECOVER_CLAIM_ATTEMPTS ctoken ?n ?c resume env1 r1 = (res, env2, r2)"
    by (rule prod_cases3)
  note G = reset_gate_calm [OF g]
  have len: "0 < length (tr_slots (taken ptoken r))" using n by (simp add: taken_facts)
  note D = calmD [OF conjunct1 [OF G] fixed len]
  have n1: "?n = length (tr_slots r1)" using D(2) n(1) by (simp add: taken_facts)
  have pos: "0 < ?n" using n by simp
  note O = retry_outcome [OF t D(1) pos n1]
  have first: "grabs env1 + (if slot_free r1 0 then 0 else 1) \<le> grabs env"
    using G pos fixed len D(3) by auto
  have RC: "reset_and_claim_gate_table ctoken ?n ?c env (taken ptoken r) = (res, env2, r2)"
    using g t by (simp add: reset_and_claim_gate_table_def)
  show ?thesis
  proof (cases res)
    case (Inl e)
    have run: "recover_shm_with ptoken ctoken pid opened env r = (Inl e, env2, gate_shm_producer_drop pid ?pa r2)"
      using RC Inl by (simp add: recover_shm_with_def A)
    have "e = IO_AddrInUse" "16 \<le> grabs env"
      using O first Inl by (auto simp: RECOVER_CLAIM_ATTEMPTS_def)
    moreover have "producer_lease (tr_header (gate_shm_producer_drop pid ?pa r2)) \<noteq> ptoken" if "ptoken \<noteq> 0"
      using that by (auto simp: gate_shm_producer_drop_def compare_exchange_def)
    ultimately show ?thesis unfolding run by simp
  next
    case (Inr rc)
    then obtain claim where rc: "res = Inr (resume, claim)" "sc_slot claim < ?n" "length (tr_slots r2) = ?n"
      using O by (cases rc) auto
    show ?thesis
      using RC rc g
      by (simp add: recover_shm_with_def A Let_def table_consumer_from_shm_def gate_shm_consumer_new_def
          set_cursor_def slot_guard_same)
  qed
qed

text \<open>
  (C27) Recovery is at least once, whatever other processes do meanwhile
  (\<open>env\<close>, in particular attaches that grab the slots the reset frees). Where it
  succeeds the consumer resumes at the cursor the \<open>first\<close> reset computed, however
  many more resets were needed: no later than any plausible registered cursor
  that its holder, being dead, leaves alone during that reset's scan, at most one
  capacity behind the published cursor, and the recoverer's slot publishes it.
  It fails only as \<open>AddrInUse\<close>, only if the others grabbed a free slot at least
  16 times, and then it gives the producer role back. On a region nobody else
  touches it always succeeds: the resume point is exactly the slowest plausible
  cursor, or the published cursor when there was none; every slot is freed at a
  new epoch, except the first, which the recoverer owns; the generation is
  closed, the ring is open, the producer role is the recoverer's, and its new
  producer sees no more space than the resumed consumer leaves.
\<close>

theorem recover_at_least_once:
  assumes n: "go_max_slots opened = length (tr_slots r)" "0 < length (tr_slots r)"
    and cap: "0 < go_capacity opened" "Suc (2 * unat (go_capacity opened)) < word_span"
    and fixed: "env_fixed env"
  shows "case recover_shm_with ptoken ctoken pid opened env r of
      (Inl e, env', r') \<Rightarrow> e = IO_AddrInUse \<and> 16 \<le> grabs env
        \<and> (ptoken \<noteq> 0 \<longrightarrow> producer_lease (tr_header r') \<noteq> ptoken)
    | (Inr (pa, p, c), env', r') \<Rightarrow>
        tc_read_cursor c = fst (reset_gate_table (go_max_slots opened) (go_capacity opened) env (taken ptoken r))
        \<and> (\<forall>i<go_max_slots opened.
             (\<forall>e\<in>set (scan_env (go_max_slots opened) (go_capacity opened) env (taken ptoken r)). leaves i e)
             \<and> plausible (tr_tail r) (go_capacity opened) (tr_slots r ! i) \<longrightarrow>
               cdist (ts_cursor (tr_slots r ! i)) (tr_tail r) \<le> cdist (tc_read_cursor c) (tr_tail r))
        \<and> ((\<forall>e\<in>set (scan_env (go_max_slots opened) (go_capacity opened) env (taken ptoken r)).
               \<forall>s. tr_tail (e s) = tr_tail s) \<longrightarrow> tr_tail r - tc_read_cursor c \<le> go_capacity opened)
        \<and> gsc_slot (tc_anchor c) < length (tr_slots r')
        \<and> ts_cursor (tr_slots r' ! gsc_slot (tc_anchor c)) = tc_published c
        \<and> (env = [] \<longrightarrow>
        tr_tail r - tc_read_cursor c \<le> go_capacity opened
          \<and> (\<forall>t\<in>set (tr_slots r). plausible (tr_tail r) (go_capacity opened) t \<longrightarrow>
               cdist (ts_cursor t) (tr_tail r) \<le> cdist (tc_read_cursor c) (tr_tail r))
          \<and> (tc_read_cursor c = tr_tail r \<or> (\<exists>t\<in>set (tr_slots r).
               plausible (tr_tail r) (go_capacity opened) t \<and> tc_read_cursor c = ts_cursor t))
          \<and> tr_tail r' = tr_tail r \<and> tr_closed r' = 0 \<and> producer_lease (tr_header r') = ptoken
          \<and> tr_generation r' = (tr_generation r OR 1) + 1
          \<and> owns_slot r' (tc_anchor c) \<and> gsc_slot (tc_anchor c) = 0
          \<and> (\<exists>t0. tr_slots r' = t0 # map freed_slot (tl (tr_slots r))
               \<and> ts_control t0 = control_word (gsc_epoch (tc_anchor c)) STATE_ACTIVE
               \<and> gsc_epoch (tc_anchor c) = control_epoch (ts_control (hd (tr_slots r))) + 2
               \<and> ts_cursor t0 = tc_published c
               \<and> cdist (ts_cursor t0) (tr_tail r) \<le> cdist (gp_cached_min p) (tr_tail r))
          \<and> gp_next_seq p = tr_tail r)"
proof -
  obtain res env' r' where run: "recover_shm_with ptoken ctoken pid opened env r = (res, env', r')" by (rule prod_cases3)
  obtain resume env1 r1 where g: "reset_gate_table (go_max_slots opened) (go_capacity opened) env (taken ptoken r)
      = (resume, env1, r1)" by (rule prod_cases3)
  note O = recover_outcome [OF n fixed, of ptoken ctoken pid, unfolded run g]
  note R = reset_gate_resume [OF g, unfolded taken_facts]
  note Q = recover_quiet [OF n cap, of ptoken ctoken pid]
  show ?thesis
  proof (cases res)
    case (Inl e)
    then show ?thesis using O unfolding run by simp
  next
    case (Inr x)
    obtain pa p c where x: "x = (pa, p, c)" by (rule prod_cases3)
    have c: "tc_read_cursor c = resume" using O Inr x by simp
    show ?thesis
      unfolding run Inr x g prod.case sum.case fst_conv
    proof (intro conjI impI allI)
      assume "env = []"
      then show "tr_closed r' = 0" using Q run Inr x by simp
    qed (use O Inr x R c Q run in \<open>simp_all\<close>)
  qed
qed

text \<open>
  The race the retry is for, on a table of one slot whose holder died at 10 with
  the ring full at 14: another process claims the slot between the reset and the
  recoverer's claim, the table is reset once more, and the recovered consumer
  still resumes at 10.
\<close>

definition racing_attach :: "table_region \<Rightarrow> table_region" where
  "racing_attach s = put_slot 0 (claimed_slot 77 s 0) s"

definition race_env :: table_env where
  "race_env = replicate 8 (\<lambda>s. s) @ [racing_attach]"

definition race_opened :: gate_opened where
  "race_opened = \<lparr>go_capacity = 4, go_max_slots = 1, go_generation = 2\<rparr>"

lemma race_env_fixed: "env_fixed race_env"
  by (simp add: env_fixed_def race_env_def racing_attach_def put_slot_def)

lemma race_scan_env: "scan_env 1 4 race_env (taken 8 (y_region demo_full)) = replicate 3 (\<lambda>s. s)"
  by (simp add: scan_env_def race_env_def taken_def demo_full_def demo_defs set_generation_def
      tr_generation_def numeral_eq_Suc)

theorem recover_at_least_once_witness:
  "\<exists>pa p c env' r'. recover_shm_with 8 9 1 race_opened race_env (y_region demo_full) = (Inr (pa, p, c), env', r')
     \<and> tr_generation r' = 6 \<and> tc_read_cursor c = 10"
proof -
  let ?r = "y_region demo_full"
  have o: "go_max_slots race_opened = 1" "go_capacity race_opened = 4" by (simp_all add: race_opened_def)
  have l: "go_max_slots race_opened = length (tr_slots ?r)" "0 < length (tr_slots ?r)"
    by (simp_all add: o demo_full_def demo_defs)
  have c: "0 < go_capacity race_opened" "Suc (2 * unat (go_capacity race_opened)) < word_span"
    by (simp_all add: o word_span_def)
  obtain res env' r' where e: "recover_shm_with 8 9 1 race_opened race_env ?r = (res, env', r')" by (metis prod_cases3)
  note R = recover_at_least_once [OF l c race_env_fixed, of 8 9 1, unfolded e o]
  have "grabs race_env \<le> length race_env" unfolding grabs_def by (rule length_filter_le)
  then have few: "grabs race_env < 16" by (simp add: race_env_def)
  obtain pa p c where i: "res = Inr (pa, p, c)" using R few by (cases res) auto
  have t: "tr_tail ?r = 14" by (simp add: demo_full_def)
  have quiet: "\<forall>e\<in>set (scan_env 1 4 race_env (taken 8 ?r)). leaves 0 e"
    "\<forall>e\<in>set (scan_env 1 4 race_env (taken 8 ?r)). \<forall>s. tr_tail (e s) = tr_tail s"
    unfolding race_scan_env by (simp_all add: leaves_def)
  have "plausible 14 4 (tr_slots ?r ! 0)" "ts_cursor (tr_slots ?r ! 0) = 10"
    by (simp_all add: demo_full_def demo_defs plausible_def DETACHED_def)
  then have "cdist 10 14 \<le> cdist (tc_read_cursor c) 14" "14 - tc_read_cursor c \<le> 4"
    using R i t quiet by auto
  then have "cdist (tc_read_cursor c) 14 = cdist 10 14" by (simp add: cdist_def word_le_nat_alt)
  then have "cdist (tc_read_cursor c) 14 = 4" by (simp add: cdist_def)
  then have "tc_read_cursor c + 4 = 14" using add_cdist [of "tc_read_cursor c" 14] by simp
  then have "tc_read_cursor c = 14 - 4" by (simp only: eq_diff_eq)
  moreover have "tr_generation (snd (snd (recover_shm_with 8 9 1 race_opened race_env ?r))) = 6" by code_simp
  ultimately show ?thesis using e i by auto
qed

end
