(* ===== verification/Region_Header.thy ===== *)
theory Region_Header
  imports Shm_Table
begin

text \<open>
  The header of a mapped region (\<open>src/src/shm.rs\<close>): its words by byte offset, the
  region lengths, the creation of each kind of ring as the list of stores it
  performs in order, and the validation every attach runs, as the loads it
  performs in order. A header is a map from offsets to words; 32-bit fields are
  kept in the low half of theirs.
\<close>

section \<open>Layout\<close>

definition MAGIC :: u64 where "MAGIC = 0x3162725F74737572"
definition VERSION :: u32 where "VERSION = 1"
definition KIND_BYTES :: u32 where "KIND_BYTES = 1"
definition KIND_ELEMS :: u32 where "KIND_ELEMS = 2"
definition KIND_SPMC_BYTES :: u32 where "KIND_SPMC_BYTES = 3"
definition KIND_SPMC_ELEMS :: u32 where "KIND_SPMC_ELEMS = 4"
definition KIND_BCAST_ELEMS :: u32 where "KIND_BCAST_ELEMS = 5"
definition KIND_BCAST_BYTES :: u32 where "KIND_BCAST_BYTES = 6"
definition KIND_ANCH_ELEMS :: u32 where "KIND_ANCH_ELEMS = 9"
definition KIND_ANCH_BYTES :: u32 where "KIND_ANCH_BYTES = 10"

definition OFF_MAGIC :: nat where "OFF_MAGIC = 0"
definition OFF_VERSION :: nat where "OFF_VERSION = 8"
definition OFF_KIND :: nat where "OFF_KIND = 12"
definition OFF_CAPACITY :: nat where "OFF_CAPACITY = 16"
definition OFF_UNIT_SIZE :: nat where "OFF_UNIT_SIZE = 24"
definition OFF_ARCH_BITS :: nat where "OFF_ARCH_BITS = 32"
definition OFF_MAX_CONSUMERS :: nat where "OFF_MAX_CONSUMERS = 36"
definition OFF_PRODUCER_LEASE :: nat where "OFF_PRODUCER_LEASE = 40"
definition OFF_CONSUMER_LEASE :: nat where "OFF_CONSUMER_LEASE = 48"
definition OFF_GENERATION :: nat where "OFF_GENERATION = 56"
definition OFF_WRITE_CURSOR :: nat where "OFF_WRITE_CURSOR = 128"
definition OFF_SPMC_CLOSED :: nat where "OFF_SPMC_CLOSED = OFF_WRITE_CURSOR + 8"
definition OFF_SPMC_AUX :: nat where "OFF_SPMC_AUX = OFF_WRITE_CURSOR + 16"
definition OFF_READ_CURSOR :: nat where "OFF_READ_CURSOR = 256"
definition OFF_STARVING :: nat where "OFF_STARVING = OFF_READ_CURSOR + 8"
definition BUFFER_OFFSET :: nat where "BUFFER_OFFSET = 384"
definition OFF_BCAST_TAIL :: nat where "OFF_BCAST_TAIL = OFF_WRITE_CURSOR"
definition OFF_BCAST_SLACK :: nat where "OFF_BCAST_SLACK = OFF_WRITE_CURSOR + 16"
definition OFF_BCAST_STRIDE :: nat where "OFF_BCAST_STRIDE = OFF_WRITE_CURSOR + 24"
definition SPMC_TABLE_OFFSET :: nat where "SPMC_TABLE_OFFSET = BUFFER_OFFSET"
definition SPMC_SLOT_STRIDE :: nat where "SPMC_SLOT_STRIDE = 128"
definition SLOT_CURSOR :: nat where "SLOT_CURSOR = 16"
definition USIZE_BITS :: u32 where "USIZE_BITS = 64"
definition OFF_T_MAX :: nat where "OFF_T_MAX = 2 ^ 63 - 1"
definition U32_MAX :: nat where "U32_MAX = 2 ^ 32 - 1"

lemmas header_offsets = OFF_MAGIC_def OFF_VERSION_def OFF_KIND_def OFF_CAPACITY_def OFF_UNIT_SIZE_def
  OFF_ARCH_BITS_def OFF_MAX_CONSUMERS_def OFF_PRODUCER_LEASE_def OFF_CONSUMER_LEASE_def OFF_GENERATION_def
  OFF_WRITE_CURSOR_def OFF_SPMC_CLOSED_def OFF_SPMC_AUX_def OFF_READ_CURSOR_def OFF_STARVING_def
  BUFFER_OFFSET_def OFF_BCAST_TAIL_def OFF_BCAST_SLACK_def OFF_BCAST_STRIDE_def SPMC_TABLE_OFFSET_def
  SPMC_SLOT_STRIDE_def SLOT_CURSOR_def

section \<open>Region lengths\<close>

definition checked_mul :: "usize \<Rightarrow> usize \<Rightarrow> usize option" where
  "checked_mul a b = (if unat a * unat b < word_span then Some (a * b) else None)"

definition checked_add :: "usize \<Rightarrow> usize \<Rightarrow> usize option" where
  "checked_add a b = (if unat a + unat b < word_span then Some (a + b) else None)"

definition clamp_off_t :: "usize option \<Rightarrow> io_error + usize" where
  "clamp_off_t l =
     (case l of
        None \<Rightarrow> Inl IO_InvalidInput
      | Some len \<Rightarrow> if unat len > OFF_T_MAX then Inl IO_InvalidInput else Inr len)"

definition region_len :: "usize \<Rightarrow> usize \<Rightarrow> io_error + usize" where
  "region_len capacity unit_size =
     clamp_off_t (Option.bind (checked_mul capacity unit_size)
       (\<lambda>b. checked_add b (of_nat BUFFER_OFFSET)))"

definition table_region_len :: "usize \<Rightarrow> usize \<Rightarrow> usize \<Rightarrow> usize \<Rightarrow> io_error + usize" where
  "table_region_len capacity unit_size offset max_slots =
     (case checked_mul max_slots (of_nat SPMC_SLOT_STRIDE) of
        None \<Rightarrow> Inl IO_InvalidInput
      | Some table \<Rightarrow>
          clamp_off_t (Option.bind (Option.bind (checked_mul capacity unit_size)
            (\<lambda>b. checked_add b offset)) (\<lambda>b. checked_add b table)))"

definition spmc_region_len :: "usize \<Rightarrow> usize \<Rightarrow> usize \<Rightarrow> io_error + usize" where
  "spmc_region_len capacity unit_size max_consumers =
     table_region_len capacity unit_size (of_nat SPMC_TABLE_OFFSET) max_consumers"

definition bcast_region_len :: "usize \<Rightarrow> usize \<Rightarrow> usize \<Rightarrow> io_error + usize" where
  "bcast_region_len capacity stride buffer_offset =
     clamp_off_t (Option.bind (checked_mul capacity stride) (\<lambda>b. checked_add b buffer_offset))"

definition anch_region_len :: "usize \<Rightarrow> usize \<Rightarrow> usize \<Rightarrow> usize \<Rightarrow> io_error + usize" where
  "anch_region_len capacity stride table_offset max_anchors =
     table_region_len capacity stride table_offset max_anchors"

section \<open>Creation\<close>

type_synonym header_mem = "nat \<Rightarrow> u64"

datatype hstore = HStore nat u64 | HZero nat

fun apply_hstore :: "hstore \<Rightarrow> header_mem \<Rightarrow> header_mem" where
  "apply_hstore (HStore off w) m = m(off := w)"
| "apply_hstore (HZero off) m = (\<lambda>o'. if off \<le> o' then 0 else m o')"

definition apply_hstores :: "hstore list \<Rightarrow> header_mem \<Rightarrow> header_mem" where
  "apply_hstores ss m = fold apply_hstore ss m"

definition header_open :: "u64 \<Rightarrow> hstore list" where
  "header_open g = [HStore OFF_GENERATION (g OR 1), HStore OFF_MAGIC 0]"

definition header_close :: "u64 \<Rightarrow> hstore list" where
  "header_close g = [HStore OFF_MAGIC MAGIC, HStore OFF_GENERATION ((g OR 1) + 1)]"

definition header_fields :: "u32 \<Rightarrow> usize \<Rightarrow> usize \<Rightarrow> u32 \<Rightarrow> u64 \<Rightarrow> u64 \<Rightarrow> hstore list" where
  "header_fields kind capacity unit_size max_slots pt ct =
     [HStore OFF_VERSION (ucast VERSION), HStore OFF_KIND (ucast kind),
      HStore OFF_CAPACITY capacity, HStore OFF_UNIT_SIZE unit_size,
      HStore OFF_ARCH_BITS (ucast USIZE_BITS), HStore OFF_MAX_CONSUMERS (ucast max_slots),
      HStore OFF_PRODUCER_LEASE pt, HStore OFF_CONSUMER_LEASE ct]"

text \<open>
  Each creation yields the length the file is set to and the stores, in order;
  \<open>g\<close> is the generation it loads first. The zeroing of a span is one entry.
\<close>

definition create_region ::
  "u32 \<Rightarrow> usize \<Rightarrow> usize \<Rightarrow> u64 \<Rightarrow> u64 \<Rightarrow> u64 \<Rightarrow> io_error + usize \<times> hstore list" where
  "create_region kind capacity unit_size pt ct g =
     (case region_len capacity unit_size of
        Inl e \<Rightarrow> Inl e
      | Inr len \<Rightarrow> Inr (len,
          header_open g @ header_fields kind capacity unit_size 0 pt ct
          @ [HStore OFF_WRITE_CURSOR 0, HStore OFF_READ_CURSOR 0, HStore OFF_STARVING 0,
             HStore OFF_BCAST_STRIDE 0]
          @ header_close g @ [HZero BUFFER_OFFSET]))"

definition create_spmc_region ::
  "u32 \<Rightarrow> usize \<Rightarrow> usize \<Rightarrow> usize \<Rightarrow> u64 \<Rightarrow> u64 \<Rightarrow> io_error + usize \<times> hstore list" where
  "create_spmc_region kind capacity unit_size max_consumers pt g =
     (if max_consumers = 0 then Inl IO_InvalidInput
      else if unat max_consumers > U32_MAX then Inl IO_InvalidInput
      else (case spmc_region_len capacity unit_size max_consumers of
              Inl e \<Rightarrow> Inl e
            | Inr len \<Rightarrow> Inr (len,
                header_open g @ header_fields kind capacity unit_size (ucast max_consumers) pt 0
                @ [HStore OFF_WRITE_CURSOR 0, HStore OFF_SPMC_CLOSED 0, HStore OFF_SPMC_AUX 0,
                   HStore OFF_BCAST_STRIDE 0, HZero SPMC_TABLE_OFFSET]
                @ map (\<lambda>slot. HStore (SPMC_TABLE_OFFSET + slot * SPMC_SLOT_STRIDE + SLOT_CURSOR) DETACHED)
                    [0..<unat max_consumers]
                @ header_close g)))"

definition create_bcast_region ::
  "u32 \<Rightarrow> usize \<Rightarrow> usize \<Rightarrow> usize \<Rightarrow> usize \<Rightarrow> u64 \<Rightarrow> u64 \<Rightarrow> u64 \<Rightarrow> io_error + usize \<times> hstore list" where
  "create_bcast_region kind capacity unit_size stride buffer_offset slack pt g =
     (case bcast_region_len capacity stride buffer_offset of
        Inl e \<Rightarrow> Inl e
      | Inr len \<Rightarrow> Inr (len,
          header_open g @ header_fields kind capacity unit_size 0 pt 0
          @ [HZero OFF_WRITE_CURSOR, HStore OFF_BCAST_SLACK slack, HStore OFF_BCAST_STRIDE stride]
          @ header_close g))"

definition create_anch_region ::
  "u32 \<Rightarrow> usize \<Rightarrow> usize \<Rightarrow> usize \<Rightarrow> usize \<Rightarrow> usize \<Rightarrow> u64 \<Rightarrow> u64 \<Rightarrow> u64
     \<Rightarrow> io_error + usize \<times> hstore list" where
  "create_anch_region kind capacity unit_size stride table_offset max_anchors slack pt g =
     (if max_anchors = 0 then Inl IO_InvalidInput
      else if unat max_anchors > U32_MAX then Inl IO_InvalidInput
      else (case anch_region_len capacity stride table_offset max_anchors of
              Inl e \<Rightarrow> Inl e
            | Inr len \<Rightarrow> Inr (len,
                header_open g @ header_fields kind capacity unit_size (ucast max_anchors) pt 0
                @ [HZero OFF_WRITE_CURSOR, HStore OFF_BCAST_SLACK slack, HStore OFF_BCAST_STRIDE stride]
                @ map (\<lambda>slot. HStore (unat table_offset + slot * SPMC_SLOT_STRIDE + SLOT_CURSOR) DETACHED)
                    [0..<unat max_anchors]
                @ header_close g)))"

section \<open>Validation\<close>

datatype open_error = Too_small | Being_initialized | Bad_magic | Bad_version | Kind_mismatch
  | Zero_sized | Unit_mismatch | Arch_mismatch | Corrupt_capacity | Corrupt_slots | Corrupt_slack
  | Stride_mismatch | Length_overflow | Shorter_than_declared | Misaligned | Corrupt_occupancy
  | Reinitialized

definition is_power_of_two :: "usize \<Rightarrow> bool" where
  "is_power_of_two c \<longleftrightarrow> c \<noteq> 0 \<and> c AND (c - 1) = 0"

text \<open>
  The checks the four opens share: generation, magic, version, kind, unit size,
  word size and capacity, one load each. \<open>seen n\<close> is the memory at the \<open>n\<close>-th load.
\<close>

definition probe_header ::
  "(nat \<Rightarrow> header_mem) \<Rightarrow> u32 \<Rightarrow> usize \<Rightarrow> usize \<Rightarrow> usize \<Rightarrow> open_error + u64 \<times> usize" where
  "probe_header seen kind unit_size min_capacity file_len =
     (if unat file_len < BUFFER_OFFSET then Inl Too_small
      else (let gen = seen 0 OFF_GENERATION in
        if gen AND 1 = 1 then Inl Being_initialized
        else if seen 1 OFF_MAGIC \<noteq> MAGIC then Inl Bad_magic
        else if ucast (seen 2 OFF_VERSION) \<noteq> VERSION then Inl Bad_version
        else if ucast (seen 3 OFF_KIND) \<noteq> kind then Inl Kind_mismatch
        else if unit_size = 0 then Inl Zero_sized
        else if seen 4 OFF_UNIT_SIZE \<noteq> unit_size then Inl Unit_mismatch
        else if ucast (seen 5 OFF_ARCH_BITS) \<noteq> USIZE_BITS then Inl Arch_mismatch
        else (let capacity = seen 6 OFF_CAPACITY in
          if capacity = 0 \<or> \<not> is_power_of_two capacity \<or> capacity < min_capacity
          then Inl Corrupt_capacity
          else Inr (gen, capacity))))"

text \<open>The retry for a stable pair of cursors: at most 64 rounds of three loads.\<close>

fun stable_cursors ::
  "nat \<Rightarrow> (nat \<Rightarrow> header_mem) \<Rightarrow> nat \<Rightarrow> usize
     \<Rightarrow> (open_error + (usize \<times> usize) option) \<times> nat" where
  "stable_cursors 0 seen n align_to = (Inr None, n)"
| "stable_cursors (Suc rounds) seen n align_to =
     (let w1 = seen n OFF_WRITE_CURSOR;
          r = seen (n + 1) OFF_READ_CURSOR;
          w2 = seen (n + 2) OFF_WRITE_CURSOR
      in if w1 mod align_to \<noteq> 0 \<or> r mod align_to \<noteq> 0 then (Inl Misaligned, n + 3)
         else if w1 = w2 then (Inr (Some (w1, r)), n + 3)
         else stable_cursors rounds seen (n + 3) align_to)"

definition open_region ::
  "(nat \<Rightarrow> header_mem) \<Rightarrow> u32 \<Rightarrow> usize \<Rightarrow> usize \<Rightarrow> usize \<Rightarrow> usize
     \<Rightarrow> open_error + usize \<times> u64" where
  "open_region seen kind unit_size min_capacity cursor_align file_len =
     (case probe_header seen kind unit_size min_capacity file_len of
        Inl e \<Rightarrow> Inl e
      | Inr (gen, capacity) \<Rightarrow>
          (case region_len capacity unit_size of
             Inl _ \<Rightarrow> Inl Length_overflow
           | Inr len \<Rightarrow>
               if file_len < len then Inl Shorter_than_declared
               else (case stable_cursors 64 seen 7 cursor_align of
                       (Inl e, n) \<Rightarrow> Inl e
                     | (Inr pair, n) \<Rightarrow>
                         if (case pair of None \<Rightarrow> False | Some (w, r) \<Rightarrow> w - r > capacity)
                         then Inl Corrupt_occupancy
                         else if seen n OFF_GENERATION \<noteq> gen then Inl Reinitialized
                         else Inr (capacity, gen))))"

definition open_spmc_region ::
  "(nat \<Rightarrow> header_mem) \<Rightarrow> u32 \<Rightarrow> usize \<Rightarrow> usize \<Rightarrow> usize \<Rightarrow> usize
     \<Rightarrow> open_error + gate_opened" where
  "open_spmc_region seen kind unit_size min_capacity cursor_align file_len =
     (case probe_header seen kind unit_size min_capacity file_len of
        Inl e \<Rightarrow> Inl e
      | Inr (gen, capacity) \<Rightarrow>
          (let max_consumers = ucast (ucast (seen 7 OFF_MAX_CONSUMERS) :: u32) :: usize in
           if max_consumers = 0 then Inl Corrupt_slots
           else (case spmc_region_len capacity unit_size max_consumers of
                   Inl _ \<Rightarrow> Inl Length_overflow
                 | Inr len \<Rightarrow>
                     if file_len < len then Inl Shorter_than_declared
                     else if seen 8 OFF_WRITE_CURSOR mod cursor_align \<noteq> 0 then Inl Misaligned
                     else if seen 9 OFF_GENERATION \<noteq> gen then Inl Reinitialized
                     else Inr \<lparr>go_capacity = capacity, go_max_slots = unat max_consumers,
                               go_generation = gen\<rparr>)))"

record bcast_opened =
  bo_capacity :: usize
  bo_generation :: u64
  bo_slack :: u64

definition open_bcast_region ::
  "(nat \<Rightarrow> header_mem) \<Rightarrow> u32 \<Rightarrow> usize \<Rightarrow> usize \<Rightarrow> usize \<Rightarrow> usize \<Rightarrow> u64 \<Rightarrow> usize
     \<Rightarrow> open_error + bcast_opened" where
  "open_bcast_region seen kind unit_size stride buffer_offset min_capacity tail_align file_len =
     (case probe_header seen kind unit_size min_capacity file_len of
        Inl e \<Rightarrow> Inl e
      | Inr (gen, capacity) \<Rightarrow>
          (let slack = seen 7 OFF_BCAST_SLACK in
           if slack \<ge> capacity then Inl Corrupt_slack
           else if seen 8 OFF_BCAST_STRIDE \<noteq> stride then Inl Stride_mismatch
           else (case bcast_region_len capacity stride buffer_offset of
                   Inl _ \<Rightarrow> Inl Length_overflow
                 | Inr len \<Rightarrow>
                     if file_len < len then Inl Shorter_than_declared
                     else if seen 9 OFF_BCAST_TAIL mod tail_align \<noteq> 0 then Inl Misaligned
                     else if seen 10 OFF_GENERATION \<noteq> gen then Inl Reinitialized
                     else Inr \<lparr>bo_capacity = capacity, bo_generation = gen, bo_slack = slack\<rparr>)))"

record anch_opened =
  ao_capacity :: usize
  ao_max_anchors :: nat
  ao_generation :: u64
  ao_slack :: u64

definition open_anch_region ::
  "(nat \<Rightarrow> header_mem) \<Rightarrow> u32 \<Rightarrow> usize \<Rightarrow> usize \<Rightarrow> usize \<Rightarrow> usize \<Rightarrow> u64 \<Rightarrow> usize
     \<Rightarrow> open_error + anch_opened" where
  "open_anch_region seen kind unit_size stride table_offset min_capacity tail_align file_len =
     (case probe_header seen kind unit_size min_capacity file_len of
        Inl e \<Rightarrow> Inl e
      | Inr (gen, capacity) \<Rightarrow>
          (let max_anchors = ucast (ucast (seen 7 OFF_MAX_CONSUMERS) :: u32) :: usize in
           if max_anchors = 0 then Inl Corrupt_slots
           else (let slack = (if kind = KIND_ANCH_ELEMS then seen 8 OFF_BCAST_SLACK else 0) in
             if kind = KIND_ANCH_ELEMS \<and> slack \<ge> capacity then Inl Corrupt_slack
             else if seen 9 OFF_BCAST_STRIDE \<noteq> stride then Inl Stride_mismatch
             else (case anch_region_len capacity stride table_offset max_anchors of
                     Inl _ \<Rightarrow> Inl Length_overflow
                   | Inr len \<Rightarrow>
                       if file_len < len then Inl Shorter_than_declared
                       else if seen 10 OFF_BCAST_TAIL mod tail_align \<noteq> 0 then Inl Misaligned
                       else if seen 11 OFF_GENERATION \<noteq> gen then Inl Reinitialized
                       else Inr \<lparr>ao_capacity = capacity, ao_max_anchors = unat max_anchors,
                                 ao_generation = gen, ao_slack = slack\<rparr>))))"

text \<open>The element types every element ring accepts, by size and alignment.\<close>

definition check_elem_type :: "nat \<Rightarrow> nat \<Rightarrow> io_error + unit" where
  "check_elem_type size_of align_of =
     (if size_of = 0 then Inl IO_InvalidInput
      else if align_of > 128 then Inl IO_InvalidInput else Inr ())"

end
