(* ===== verification/Region_Properties.thy ===== *)
theory Region_Properties
  imports Region_Header
begin

text \<open>
  Creation and validation of a mapped region fit: a finished creation is
  accepted with exactly its parameters, and an accepted validation read one
  finished header, whatever ran between its loads.
\<close>

section \<open>Round trip\<close>

lemma ucast_u32_id [simp]: "ucast (ucast (x :: u32) :: u64) = x"
  by (rule bit_word_eqI) (auto simp: bit_simps dest: bit_imp_le_length)

lemma unat_u32_widen: "unat (ucast (x :: u32) :: u64) = unat x"
proof -
  have "unat x < 2 ^ 64"
    using unsigned_less [of x, where 'a = nat] by simp
  then show ?thesis by (simp add: unsigned_ucast_eq take_bit_nat_eq_self_iff)
qed

lemma ucast_u64_small:
  assumes "unat (x :: u64) \<le> U32_MAX"
  shows "ucast (ucast x :: u32) = x"
proof -
  have "unat x < 4294967296" using assms by (simp add: U32_MAX_def)
  then have "unat (take_bit 32 x) = unat x"
    by (simp add: unsigned_take_bit_eq take_bit_nat_eq_self_iff)
  then have "take_bit 32 x = x" by (simp only: word_unat_eq_iff)
  moreover have "ucast (ucast x :: u32) = take_bit 32 x"
    by (rule bit_word_eqI) (auto simp: bit_simps)
  ultimately show ?thesis by simp
qed

lemma apply_hstores_simps [simp]:
  "apply_hstores [] m = m"
  "apply_hstores (s # ss) m = apply_hstores ss (apply_hstore s m)"
  "apply_hstores (ss @ ts) m = apply_hstores ts (apply_hstores ss m)"
  by (simp_all add: apply_hstores_def)

text \<open>The sentinel stores of a table leave every word below it alone.\<close>

lemma sentinel_stores:
  "off < base \<Longrightarrow>
   apply_hstores (map (\<lambda>slot. HStore (base + slot * SPMC_SLOT_STRIDE + SLOT_CURSOR) w) slots) m off = m off"
  by (induction slots arbitrary: m) auto

lemma clamp_off_t_less: "clamp_off_t l = Inr len \<Longrightarrow> l = Some len \<and> unat len \<le> OFF_T_MAX"
  by (auto simp: clamp_off_t_def split: option.splits if_splits)

lemma checked_add_ge: "checked_add a b = Some c \<Longrightarrow> unat b \<le> unat c \<and> unat a \<le> unat c"
  using unat_add_span [of a b] by (auto simp: checked_add_def split: if_splits)

lemma region_len_ge: "region_len capacity unit_size = Inr len \<Longrightarrow> BUFFER_OFFSET \<le> unat len"
  using checked_add_ge [of _ "of_nat BUFFER_OFFSET" len]
  by (auto simp: region_len_def dest!: clamp_off_t_less split: bind_splits)
    (simp add: BUFFER_OFFSET_def)

lemma bcast_region_len_ge:
  "bcast_region_len capacity stride off = Inr len \<Longrightarrow> unat off \<le> unat len"
  using checked_add_ge [of _ off len]
  by (auto simp: bcast_region_len_def dest!: clamp_off_t_less split: bind_splits)

lemma table_region_len_ge:
  assumes "table_region_len capacity unit_size off n = Inr len"
  shows "unat off \<le> unat len"
proof -
  from assms obtain table where "Option.bind (Option.bind (checked_mul capacity unit_size)
      (\<lambda>b. checked_add b off)) (\<lambda>b. checked_add b table) = Some len"
    by (auto simp: table_region_len_def dest!: clamp_off_t_less split: option.splits)
  then obtain b c where c: "checked_add b off = Some c" and l: "checked_add c table = Some len"
    by (auto split: bind_splits)
  show ?thesis using checked_add_ge [OF c] checked_add_ge [OF l] by simp
qed

lemma odd_close: "((g OR 1) + 1 :: u64) AND 1 = 0"
proof -
  have "bit (g OR 1) 0" by (simp add: bit_simps)
  then have "odd (g OR 1)" by (simp add: bit_0)
  then have "even ((g OR 1) + 1)" by simp
  then show ?thesis by (simp add: and_one_eq mod_2_eq_odd)
qed

lemma odd_open: "(g OR 1 :: u64) AND 1 = 1"
  by (rule bit_word_eqI) (auto simp: bit_simps)

text \<open>What a static header must hold to pass the shared checks.\<close>

definition header_accepts :: "header_mem \<Rightarrow> u32 \<Rightarrow> usize \<Rightarrow> u64 \<Rightarrow> usize \<Rightarrow> bool" where
  "header_accepts m kind unit_size gen capacity \<longleftrightarrow>
     m OFF_GENERATION = gen \<and> gen AND 1 = 0 \<and> m OFF_MAGIC = MAGIC \<and> ucast (m OFF_VERSION) = VERSION
     \<and> ucast (m OFF_KIND) = kind \<and> m OFF_UNIT_SIZE = unit_size \<and> ucast (m OFF_ARCH_BITS) = USIZE_BITS
     \<and> m OFF_CAPACITY = capacity"

lemma probe_static:
  assumes "header_accepts m kind unit_size gen capacity" and "unit_size \<noteq> 0"
    and "is_power_of_two capacity" and "min_capacity \<le> capacity" and "BUFFER_OFFSET \<le> unat len"
  shows "probe_header (\<lambda>_. m) kind unit_size min_capacity len = Inr (gen, capacity)"
  using assms
  by (auto simp: probe_header_def header_accepts_def Let_def is_power_of_two_def)

text \<open>The words a finished creation leaves in the header.\<close>

definition creation ::
  "u64 \<Rightarrow> u32 \<Rightarrow> usize \<Rightarrow> usize \<Rightarrow> u32 \<Rightarrow> u64 \<Rightarrow> u64 \<Rightarrow> hstore list \<Rightarrow> hstore list" where
  "creation g kind capacity unit_size max_slots pt ct body =
     header_open g @ header_fields kind capacity unit_size max_slots pt ct @ body @ header_close g"

lemma created_header:
  assumes body: "\<And>m off. off < 128 \<Longrightarrow> apply_hstores body m off = m off"
    and ss: "ss = creation g kind capacity unit_size max_slots pt ct body"
  shows "header_accepts (apply_hstores ss m) kind unit_size ((g OR 1) + 1) capacity"
    and "apply_hstores ss m OFF_MAX_CONSUMERS = ucast max_slots"
    and "128 \<le> off \<Longrightarrow> apply_hstores ss m off = apply_hstores body (apply_hstores (header_open g
       @ header_fields kind capacity unit_size max_slots pt ct) m) off"
  using odd_close [of g]
  by (simp_all add: ss creation_def header_accepts_def header_open_def header_fields_def header_close_def
      header_offsets body)

lemma spsc_roundtrip:
  assumes c: "is_power_of_two capacity" "min_capacity \<le> capacity" and u: "unit_size \<noteq> 0"
    and cr: "create_region kind capacity unit_size pt ct g = Inr (len, ss)"
  shows "open_region (\<lambda>_. apply_hstores ss m) kind unit_size min_capacity align_to len
        = Inr (capacity, (g OR 1) + 1)"
proof -
  have rl: "region_len capacity unit_size = Inr len"
    and ss: "ss = creation g kind capacity unit_size 0 pt ct
           [HStore OFF_WRITE_CURSOR 0, HStore OFF_READ_CURSOR 0, HStore OFF_STARVING 0,
             HStore OFF_BCAST_STRIDE 0] @ [HZero BUFFER_OFFSET]"
    using cr by (auto simp: create_region_def creation_def split: sum.splits)
  let ?b = "[HStore OFF_WRITE_CURSOR 0, HStore OFF_READ_CURSOR 0, HStore OFF_STARVING 0, HStore OFF_BCAST_STRIDE 0]"
  have b: "off < 128 \<Longrightarrow> apply_hstores ?b m off = m off" for m off by (simp add: header_offsets)
  let ?m = "apply_hstores (creation g kind capacity unit_size 0 pt ct ?b) m"
  have low: "apply_hstores ss m off = ?m off" if "off < 384" for off
    unfolding ss using that by (simp add: BUFFER_OFFSET_def)
  have acc: "header_accepts (apply_hstores ss m) kind unit_size ((g OR 1) + 1) capacity"
    using created_header(1) [OF b refl, of g kind capacity unit_size 0 pt ct m]
    by (simp add: header_accepts_def low header_offsets)
  have cur: "apply_hstores ss m OFF_WRITE_CURSOR = 0" "apply_hstores ss m OFF_READ_CURSOR = 0"
    using low created_header(3) [OF b refl, of _ g kind capacity unit_size 0 pt ct m]
    by (simp_all add: header_offsets)
  have st: "stable_cursors 64 (\<lambda>_. apply_hstores ss m) 7 align_to = (Inr (Some (0, 0)), 10)"
    by (simp add: numeral_eq_Suc cur Let_def)
  show ?thesis
    using acc
    by (simp add: open_region_def probe_static [OF acc u c region_len_ge [OF rl]] rl st header_accepts_def)
qed

lemma spmc_roundtrip:
  assumes c: "is_power_of_two capacity" "min_capacity \<le> capacity" and u: "unit_size \<noteq> 0"
    and cr: "create_spmc_region kind capacity unit_size n pt g = Inr (len, ss)"
  shows "open_spmc_region (\<lambda>_. apply_hstores ss m) kind unit_size min_capacity align_to len
        = Inr \<lparr>go_capacity = capacity, go_max_slots = unat n, go_generation = (g OR 1) + 1\<rparr>"
proof -
  let ?b = "[HStore OFF_WRITE_CURSOR 0, HStore OFF_SPMC_CLOSED 0, HStore OFF_SPMC_AUX 0,
                   HStore OFF_BCAST_STRIDE 0, HZero SPMC_TABLE_OFFSET]
                @ map (\<lambda>slot. HStore (SPMC_TABLE_OFFSET + slot * SPMC_SLOT_STRIDE + SLOT_CURSOR) DETACHED)
                    [0..<unat n]"
  have rl: "spmc_region_len capacity unit_size n = Inr len" and n: "n \<noteq> 0" "unat n \<le> U32_MAX"
    and ss: "ss = creation g kind capacity unit_size (ucast n) pt 0 ?b"
    using cr by (auto simp: create_spmc_region_def creation_def split: sum.splits if_splits)
  have b: "off < 128 \<Longrightarrow> apply_hstores ?b m off = m off" for m off
    by (simp add: sentinel_stores header_offsets(20) BUFFER_OFFSET_def) (simp add: header_offsets)
  note H = created_header [OF b ss]
  have cur: "apply_hstores ss m OFF_WRITE_CURSOR = 0"
    using H(3) [where off = OFF_WRITE_CURSOR and m = m]
      sentinel_stores [of OFF_WRITE_CURSOR SPMC_TABLE_OFFSET]
    by simp (simp add: header_offsets)
  have slots: "ucast (ucast (apply_hstores ss m OFF_MAX_CONSUMERS) :: u32) = n"
    using H(2) ucast_u64_small [OF n(2)] by simp
  have ge: "BUFFER_OFFSET \<le> unat len"
    using table_region_len_ge [of capacity unit_size "of_nat SPMC_TABLE_OFFSET" n len] rl
    by (simp add: spmc_region_len_def SPMC_TABLE_OFFSET_def BUFFER_OFFSET_def)
  show ?thesis
    using H(1) n(1)
    by (simp add: open_spmc_region_def probe_static [OF H(1) u c ge] slots rl cur header_accepts_def Let_def)
qed

lemma bcast_roundtrip:
  assumes c: "is_power_of_two capacity" "min_capacity \<le> capacity" and u: "unit_size \<noteq> 0"
    and off: "BUFFER_OFFSET \<le> unat off" and sl: "slack < capacity"
    and cr: "create_bcast_region kind capacity unit_size stride off slack pt g = Inr (len, ss)"
  shows "open_bcast_region (\<lambda>_. apply_hstores ss m) kind unit_size stride off min_capacity align_to len
        = Inr \<lparr>bo_capacity = capacity, bo_generation = (g OR 1) + 1, bo_slack = slack\<rparr>"
proof -
  let ?b = "[HZero OFF_WRITE_CURSOR, HStore OFF_BCAST_SLACK slack, HStore OFF_BCAST_STRIDE stride]"
  have rl: "bcast_region_len capacity stride off = Inr len"
    and ss: "ss = creation g kind capacity unit_size 0 pt 0 ?b"
    using cr by (auto simp: create_bcast_region_def creation_def split: sum.splits)
  have b: "off < 128 \<Longrightarrow> apply_hstores ?b m off = m off" for m off by (simp add: header_offsets)
  note H = created_header [OF b ss]
  have w: "apply_hstores ss m OFF_BCAST_TAIL = 0" "apply_hstores ss m OFF_BCAST_SLACK = slack"
    "apply_hstores ss m OFF_BCAST_STRIDE = stride"
    using H(3) by (simp_all add: header_offsets)
  have ge: "BUFFER_OFFSET \<le> unat len" using bcast_region_len_ge [OF rl] off by simp
  show ?thesis
    using H(1) sl
    by (simp add: open_bcast_region_def probe_static [OF H(1) u c ge] rl w header_accepts_def Let_def)
qed

lemma anch_roundtrip:
  assumes c: "is_power_of_two capacity" "min_capacity \<le> capacity" and u: "unit_size \<noteq> 0"
    and off: "BUFFER_OFFSET \<le> unat off" and sl: "slack < capacity" "kind \<noteq> KIND_ANCH_ELEMS \<Longrightarrow> slack = 0"
    and cr: "create_anch_region kind capacity unit_size stride off n slack pt g = Inr (len, ss)"
  shows "open_anch_region (\<lambda>_. apply_hstores ss m) kind unit_size stride off min_capacity align_to len
        = Inr \<lparr>ao_capacity = capacity, ao_max_anchors = unat n, ao_generation = (g OR 1) + 1,
               ao_slack = slack\<rparr>"
proof -
  let ?b = "[HZero OFF_WRITE_CURSOR, HStore OFF_BCAST_SLACK slack, HStore OFF_BCAST_STRIDE stride]
                @ map (\<lambda>slot. HStore (unat off + slot * SPMC_SLOT_STRIDE + SLOT_CURSOR) DETACHED)
                    [0..<unat n]"
  have rl: "anch_region_len capacity stride off n = Inr len" and n: "n \<noteq> 0" "unat n \<le> U32_MAX"
    and ss: "ss = creation g kind capacity unit_size (ucast n) pt 0 ?b"
    using cr by (auto simp: create_anch_region_def creation_def split: sum.splits if_splits)
  have big: "384 \<le> unat off" using off by (simp add: BUFFER_OFFSET_def)
  have b: "o' < 128 \<Longrightarrow> apply_hstores ?b m o' = m o'" for m o'
    using big by (simp add: sentinel_stores) (simp add: header_offsets)
  have below: "OFF_BCAST_TAIL < unat off" "OFF_BCAST_SLACK < unat off" "OFF_BCAST_STRIDE < unat off"
    using big by (simp_all add: header_offsets)
  note H = created_header [OF b ss]
  have w: "apply_hstores ss m OFF_BCAST_TAIL = 0" "apply_hstores ss m OFF_BCAST_SLACK = slack"
    "apply_hstores ss m OFF_BCAST_STRIDE = stride"
    using H(3) [where m = m and off = OFF_BCAST_TAIL] H(3) [where m = m and off = OFF_BCAST_SLACK]
      H(3) [where m = m and off = OFF_BCAST_STRIDE] below
    by (simp_all add: sentinel_stores) (simp_all add: header_offsets)
  have slots: "ucast (ucast (apply_hstores ss m OFF_MAX_CONSUMERS) :: u32) = n"
    using H(2) ucast_u64_small [OF n(2)] by simp
  have ge: "BUFFER_OFFSET \<le> unat len"
    using table_region_len_ge [of capacity stride off n len] rl off by (simp add: anch_region_len_def)
  show ?thesis
    using H(1) n(1) sl
    by (auto simp: open_anch_region_def probe_static [OF H(1) u c ge] slots rl w header_accepts_def Let_def)
qed

text \<open>
  (C28) Creating and opening a region round-trip for every kind of ring. When a
  creation succeeds with a power-of-two capacity, an open that expects the same
  kind, unit size and stride accepts the region and reports exactly the capacity,
  table size and slack it was created with, under a new even generation, whatever
  the memory held before.
\<close>

theorem header_roundtrip:
  assumes "is_power_of_two capacity" and "min_capacity \<le> capacity" and "unit_size \<noteq> 0"
    and "BUFFER_OFFSET \<le> unat off" and "slack < capacity" and "kind \<noteq> KIND_ANCH_ELEMS \<longrightarrow> anch_slack = 0"
    and "anch_slack < capacity"
  shows "(\<forall>len ss. create_region kind capacity unit_size pt ct g = Inr (len, ss) \<longrightarrow>
        open_region (\<lambda>_. apply_hstores ss m) kind unit_size min_capacity align_to len
          = Inr (capacity, (g OR 1) + 1))
    \<and> (\<forall>len ss. create_spmc_region kind capacity unit_size n pt g = Inr (len, ss) \<longrightarrow>
        open_spmc_region (\<lambda>_. apply_hstores ss m) kind unit_size min_capacity align_to len
          = Inr \<lparr>go_capacity = capacity, go_max_slots = unat n, go_generation = (g OR 1) + 1\<rparr>)
    \<and> (\<forall>len ss. create_bcast_region kind capacity unit_size stride off slack pt g = Inr (len, ss) \<longrightarrow>
        open_bcast_region (\<lambda>_. apply_hstores ss m) kind unit_size stride off min_capacity align_to len
          = Inr \<lparr>bo_capacity = capacity, bo_generation = (g OR 1) + 1, bo_slack = slack\<rparr>)
    \<and> (\<forall>len ss. create_anch_region kind capacity unit_size stride off n anch_slack pt g = Inr (len, ss) \<longrightarrow>
        open_anch_region (\<lambda>_. apply_hstores ss m) kind unit_size stride off min_capacity align_to len
          = Inr \<lparr>ao_capacity = capacity, ao_max_anchors = unat n, ao_generation = (g OR 1) + 1,
                 ao_slack = anch_slack\<rparr>)"
proof (intro conjI allI impI)
  fix len ss
  show "create_region kind capacity unit_size pt ct g = Inr (len, ss) \<Longrightarrow>
      open_region (\<lambda>_. apply_hstores ss m) kind unit_size min_capacity align_to len = Inr (capacity, (g OR 1) + 1)"
    by (rule spsc_roundtrip [OF assms(1-3)])
  show "create_spmc_region kind capacity unit_size n pt g = Inr (len, ss) \<Longrightarrow>
      open_spmc_region (\<lambda>_. apply_hstores ss m) kind unit_size min_capacity align_to len
        = Inr \<lparr>go_capacity = capacity, go_max_slots = unat n, go_generation = (g OR 1) + 1\<rparr>"
    by (rule spmc_roundtrip [OF assms(1-3)])
  show "create_bcast_region kind capacity unit_size stride off slack pt g = Inr (len, ss) \<Longrightarrow>
      open_bcast_region (\<lambda>_. apply_hstores ss m) kind unit_size stride off min_capacity align_to len
        = Inr \<lparr>bo_capacity = capacity, bo_generation = (g OR 1) + 1, bo_slack = slack\<rparr>"
    by (rule bcast_roundtrip [OF assms(1-5)])
  show "create_anch_region kind capacity unit_size stride off n anch_slack pt g = Inr (len, ss) \<Longrightarrow>
      open_anch_region (\<lambda>_. apply_hstores ss m) kind unit_size stride off min_capacity align_to len
        = Inr \<lparr>ao_capacity = capacity, ao_max_anchors = unat n, ao_generation = (g OR 1) + 1,
               ao_slack = anch_slack\<rparr>"
    using anch_roundtrip [OF assms(1-4,7)] assms(6) by blast
qed

theorem header_roundtrip_witness:
  "open_spmc_region (\<lambda>_. apply_hstores (snd (projr (create_spmc_region KIND_SPMC_ELEMS 8 4 3 5 2))) (\<lambda>_. 7))
     KIND_SPMC_ELEMS 4 2 1 800 = Inr \<lparr>go_capacity = 8, go_max_slots = 3, go_generation = 4\<rparr>"
proof -
  have c: "create_spmc_region KIND_SPMC_ELEMS 8 4 3 5 2
      = Inr (800, snd (projr (create_spmc_region KIND_SPMC_ELEMS 8 4 3 5 2)))"
    by (simp add: create_spmc_region_def spmc_region_len_def table_region_len_def clamp_off_t_def
        checked_mul_def checked_add_def word_span_def OFF_T_MAX_def U32_MAX_def header_offsets)
  have p: "is_power_of_two 8" "(2 :: usize) \<le> 8" "(4 :: usize) \<noteq> 0" "BUFFER_OFFSET \<le> unat (384 :: usize)"
    "(0 :: u64) < 8" "KIND_SPMC_ELEMS \<noteq> KIND_ANCH_ELEMS \<longrightarrow> (0 :: u64) = 0"
    by (simp_all add: is_power_of_two_def BUFFER_OFFSET_def)
  have g: "((2 :: u64) OR 1) + 1 = 4" "unat (3 :: usize) = 3" by simp_all
  show ?thesis
    using header_roundtrip [OF p(1-5) p(6) p(5), THEN conjunct2, THEN conjunct1, rule_format, OF c,
        of "\<lambda>_. 7" 1]
    unfolding g .
qed

section \<open>Attaching while the header is rewritten\<close>

text \<open>
  The memories a header goes through, newest first, with the stores a creation in
  progress has still to perform. Any kind of ring may be created over any other; a
  creation may stop anywhere (its process died); in between, rings store to every
  word that is not configuration. Creations over one file do not overlap.
\<close>

definition slack_kind :: "u32 \<Rightarrow> bool" where
  "slack_kind kind \<longleftrightarrow> kind = KIND_BCAST_ELEMS \<or> kind = KIND_ANCH_ELEMS"

definition config_word :: "header_mem \<Rightarrow> nat \<Rightarrow> bool" where
  "config_word m off \<longleftrightarrow>
     off \<in> {OFF_MAGIC, OFF_VERSION, OFF_KIND, OFF_CAPACITY, OFF_UNIT_SIZE, OFF_ARCH_BITS, OFF_MAX_CONSUMERS,
            OFF_BCAST_STRIDE}
     \<or> off = OFF_BCAST_SLACK \<and> slack_kind (ucast (m OFF_KIND))"

inductive header_trace :: "header_mem list \<Rightarrow> hstore list \<Rightarrow> bool" where
  ht_start: "header_trace [m] []"
| ht_create: "header_trace (m # ms) []
     \<Longrightarrow> create_region kind capacity unit_size pt ct (m OFF_GENERATION) = Inr (len, ss)
     \<Longrightarrow> header_trace (m # ms) ss"
| ht_create_spmc: "header_trace (m # ms) []
     \<Longrightarrow> create_spmc_region kind capacity unit_size n pt (m OFF_GENERATION) = Inr (len, ss)
     \<Longrightarrow> header_trace (m # ms) ss"
| ht_create_bcast: "header_trace (m # ms) []
     \<Longrightarrow> create_bcast_region kind capacity unit_size stride off slack pt (m OFF_GENERATION) = Inr (len, ss)
     \<Longrightarrow> header_trace (m # ms) ss"
| ht_create_anch: "header_trace (m # ms) [] \<Longrightarrow> BUFFER_OFFSET \<le> unat off
     \<Longrightarrow> create_anch_region kind capacity unit_size stride off n slack pt (m OFF_GENERATION) = Inr (len, ss)
     \<Longrightarrow> header_trace (m # ms) ss"
| ht_write: "header_trace (m # ms) (s # ss) \<Longrightarrow> header_trace (apply_hstore s m # m # ms) ss"
| ht_run: "header_trace (m # ms) ss \<Longrightarrow> \<not> config_word m off \<Longrightarrow> off \<noteq> OFF_GENERATION
     \<Longrightarrow> header_trace (m(off := w) # m # ms) ss"
| ht_crash: "header_trace ms ss \<Longrightarrow> header_trace ms []"

text \<open>
  What the remaining stores of a creation may do under generation \<open>g\<close>: open it,
  touch the configuration only while it is odd, close it by one.
\<close>

fun pending_ok :: "u64 \<Rightarrow> hstore list \<Rightarrow> bool" where
  "pending_ok g [] \<longleftrightarrow> True"
| "pending_ok g (HStore off w # ss) \<longleftrightarrow>
     (if off = OFF_GENERATION then (w = g OR 1 \<or> odd g \<and> w = g + 1) \<and> pending_ok w ss
      else (odd g \<or> 384 \<le> off) \<and> pending_ok g ss)"
| "pending_ok g (HZero off # ss) \<longleftrightarrow> OFF_GENERATION < off \<and> (odd g \<or> 384 \<le> off) \<and> pending_ok g ss"

fun quiet_store :: "hstore \<Rightarrow> bool" where
  "quiet_store (HStore off w) \<longleftrightarrow> off \<noteq> OFF_GENERATION"
| "quiet_store (HZero off) \<longleftrightarrow> OFF_GENERATION < off"

lemma pending_quiet:
  "odd g \<Longrightarrow> \<forall>s\<in>set body. quiet_store s \<Longrightarrow> pending_ok g rest \<Longrightarrow> pending_ok g (body @ rest)"
proof (induction body)
  case (Cons s body)
  then show ?case by (cases s) auto
qed simp

lemma odd_or_1: "odd (g OR 1 :: u64)"
  by (simp add: even_or_iff)

lemma pending_creation:
  assumes "\<forall>s\<in>set body. quiet_store s" and "pending_ok ((g OR 1) + 1) rest"
  shows "pending_ok g (creation g kind capacity unit_size max_slots pt ct body @ rest)"
proof -
  have q: "\<forall>s\<in>set (HStore OFF_MAGIC 0 # header_fields kind capacity unit_size max_slots pt ct @ body
      @ [HStore OFF_MAGIC MAGIC]). quiet_store s"
    using assms(1) by (auto simp: header_fields_def header_offsets)
  have "pending_ok (g OR 1) ((HStore OFF_MAGIC 0 # header_fields kind capacity unit_size max_slots pt ct @ body
      @ [HStore OFF_MAGIC MAGIC]) @ HStore OFF_GENERATION ((g OR 1) + 1) # rest)"
    by (rule pending_quiet [OF odd_or_1 q]) (simp add: odd_or_1 assms(2))
  then show ?thesis by (simp add: creation_def header_open_def header_close_def)
qed

lemma pending_spsc: "create_region kind capacity unit_size pt ct g = Inr (len, ss) \<Longrightarrow> pending_ok g ss"
proof -
  assume "create_region kind capacity unit_size pt ct g = Inr (len, ss)"
  then have "ss = creation g kind capacity unit_size 0 pt ct
           [HStore OFF_WRITE_CURSOR 0, HStore OFF_READ_CURSOR 0, HStore OFF_STARVING 0,
             HStore OFF_BCAST_STRIDE 0] @ [HZero BUFFER_OFFSET]"
    by (auto simp: create_region_def creation_def split: sum.splits)
  then show ?thesis
    using pending_creation [of "[HStore OFF_WRITE_CURSOR 0, HStore OFF_READ_CURSOR 0, HStore OFF_STARVING 0,
             HStore OFF_BCAST_STRIDE 0]" g "[HZero BUFFER_OFFSET]"] by (simp add: header_offsets)
qed

lemma pending_spmc: "create_spmc_region kind capacity unit_size n pt g = Inr (len, ss) \<Longrightarrow> pending_ok g ss"
proof -
  let ?b = "[HStore OFF_WRITE_CURSOR 0, HStore OFF_SPMC_CLOSED 0, HStore OFF_SPMC_AUX 0,
                   HStore OFF_BCAST_STRIDE 0, HZero SPMC_TABLE_OFFSET]
                @ map (\<lambda>slot. HStore (SPMC_TABLE_OFFSET + slot * SPMC_SLOT_STRIDE + SLOT_CURSOR) DETACHED)
                    [0..<unat n]"
  assume "create_spmc_region kind capacity unit_size n pt g = Inr (len, ss)"
  then have "ss = creation g kind capacity unit_size (ucast n) pt 0 ?b"
    by (auto simp: create_spmc_region_def creation_def split: sum.splits if_splits)
  moreover have "\<forall>s\<in>set ?b. quiet_store s" by (auto simp: header_offsets)
  ultimately show ?thesis using pending_creation [of ?b g "[]"] by simp
qed

lemma pending_bcast:
  "create_bcast_region kind capacity unit_size stride off slack pt g = Inr (len, ss) \<Longrightarrow> pending_ok g ss"
proof -
  let ?b = "[HZero OFF_WRITE_CURSOR, HStore OFF_BCAST_SLACK slack, HStore OFF_BCAST_STRIDE stride]"
  assume "create_bcast_region kind capacity unit_size stride off slack pt g = Inr (len, ss)"
  then have "ss = creation g kind capacity unit_size 0 pt 0 ?b"
    by (auto simp: create_bcast_region_def creation_def split: sum.splits if_splits)
  moreover have "\<forall>s\<in>set ?b. quiet_store s" by (auto simp: header_offsets)
  ultimately show ?thesis using pending_creation [of ?b g "[]"] by simp
qed

lemma pending_anch:
  assumes "create_anch_region kind capacity unit_size stride off n slack pt g = Inr (len, ss)"
    and "BUFFER_OFFSET \<le> unat off"
  shows "pending_ok g ss"
proof -
  let ?b = "[HZero OFF_WRITE_CURSOR, HStore OFF_BCAST_SLACK slack, HStore OFF_BCAST_STRIDE stride]
                @ map (\<lambda>slot. HStore (unat off + slot * SPMC_SLOT_STRIDE + SLOT_CURSOR) DETACHED)
                    [0..<unat n]"
  have "ss = creation g kind capacity unit_size (ucast n) pt 0 ?b"
    using assms(1) by (auto simp: create_anch_region_def creation_def split: sum.splits if_splits)
  moreover have "\<forall>s\<in>set ?b. quiet_store s" using assms(2) by (auto simp: header_offsets)
  ultimately show ?thesis using pending_creation [of ?b g "[]"] by simp
qed

text \<open>
  The order on the memories: generations only grow, and one even generation has
  one configuration.
\<close>

definition config_order :: "header_mem \<Rightarrow> header_mem \<Rightarrow> bool" where
  "config_order m' m \<longleftrightarrow> unat (m OFF_GENERATION) \<le> unat (m' OFF_GENERATION)
     \<and> (m' OFF_GENERATION = m OFF_GENERATION \<longrightarrow> even (m OFF_GENERATION)
         \<longrightarrow> (\<forall>off. config_word m off \<longrightarrow> m' off = m off))"

lemma config_word_eq:
  "m' OFF_KIND = m OFF_KIND \<Longrightarrow> config_word m' off \<longleftrightarrow> config_word m off"
  by (simp add: config_word_def)

lemma config_kind: "config_word m OFF_KIND"
  by (simp add: config_word_def)

lemma config_order_gen: "config_order m' m \<Longrightarrow> unat (m OFF_GENERATION) \<le> unat (m' OFF_GENERATION)"
  unfolding config_order_def by (rule conjunct1)

lemma config_order_same:
  "config_order m' m \<Longrightarrow> m' OFF_GENERATION = m OFF_GENERATION \<Longrightarrow> even (m OFF_GENERATION)
     \<Longrightarrow> config_word m off \<Longrightarrow> m' off = m off"
  unfolding config_order_def by blast

lemma config_order_refl: "config_order m m"
  by (simp add: config_order_def)

lemma config_order_trans:
  assumes ab: "config_order c b" and bc: "config_order b a"
  shows "config_order c a"
proof -
  have le: "unat (a OFF_GENERATION) \<le> unat (b OFF_GENERATION)" "unat (b OFF_GENERATION) \<le> unat (c OFF_GENERATION)"
    using ab bc by (simp_all add: config_order_def)
  have "c off = a off"
    if eq: "c OFF_GENERATION = a OFF_GENERATION" and ev: "even (a OFF_GENERATION)" and cw: "config_word a off"
    for off
  proof -
    have g: "b OFF_GENERATION = a OFF_GENERATION"
      using le eq by (simp add: word_unat_eq_iff)
    have ba: "\<And>o'. config_word a o' \<Longrightarrow> b o' = a o'" using bc g ev by (simp add: config_order_def)
    have "config_word b off" using config_word_eq [of b a off] ba [OF config_kind] cw by simp
    then have "c off = b off" using ab g eq ev by (simp add: config_order_def)
    then show ?thesis using ba [OF cw] by simp
  qed
  then show ?thesis using le by (auto simp: config_order_def)
qed

lemma config_below:
  "config_word m off \<Longrightarrow> off < 384" "config_word m off \<Longrightarrow> off \<noteq> OFF_GENERATION"
  by (auto simp: config_word_def header_offsets)

lemma unat_or_1: "unat (g :: u64) \<le> unat (g OR 1)"
proof -
  have "uint g \<le> uint g OR uint (1 :: u64)" by (rule or_greater_eq) simp
  then have "uint g \<le> uint (g OR 1)" by (simp add: unsigned_or_eq)
  then show ?thesis by (simp only: word_le_nat_alt [symmetric] word_le_def)
qed

lemma config_order_write:
  assumes ok: "pending_ok (m OFF_GENERATION) (s # ss)" and lim: "unat (m OFF_GENERATION) < word_span - 1"
  shows "config_order (apply_hstore s m) m \<and> pending_ok (apply_hstore s m OFF_GENERATION) ss"
proof (cases s)
  case (HStore off w)
  show ?thesis
  proof (cases "off = OFF_GENERATION")
    case True
    have w: "w = m OFF_GENERATION OR 1 \<or> odd (m OFF_GENERATION) \<and> w = m OFF_GENERATION + 1"
      using ok HStore True by simp
    have grow: "unat (m OFF_GENERATION) \<le> unat w"
      using w unat_or_1 [of "m OFF_GENERATION"] unat_add_span [of "m OFF_GENERATION" 1] lim by auto
    have "even (m OFF_GENERATION) \<Longrightarrow> w \<noteq> m OFF_GENERATION" using w odd_or_1 by metis
    then show ?thesis using ok grow HStore True by (auto simp: config_order_def)
  next
    case False
    have "even (m OFF_GENERATION) \<Longrightarrow> config_word m o' \<Longrightarrow> o' \<noteq> off" for o'
      using ok HStore False config_below(1) [of m o'] by auto
    then show ?thesis using ok HStore False by (auto simp: config_order_def)
  qed
next
  case (HZero off)
  have "even (m OFF_GENERATION) \<Longrightarrow> config_word m o' \<Longrightarrow> \<not> off \<le> o'" for o'
    using ok HZero config_below(1) [of m o'] by auto
  then show ?thesis using ok HZero by (auto simp: config_order_def)
qed

lemma config_order_run:
  "\<not> config_word m off \<Longrightarrow> off \<noteq> OFF_GENERATION \<Longrightarrow> config_order (m(off := w)) m"
  by (auto simp: config_order_def)

lemma config_order_step:
  assumes "sorted_wrt config_order (m # ms)" and "config_order m' m"
  shows "sorted_wrt config_order (m' # m # ms)"
  using assms config_order_trans [OF assms(2)] by auto

lemma trace_ordered:
  assumes "header_trace ms ss" and "\<forall>m\<in>set ms. unat (m OFF_GENERATION) < word_span - 1"
  shows "sorted_wrt config_order ms \<and> pending_ok (hd ms OFF_GENERATION) ss"
  using assms
proof (induction rule: header_trace.induct)
  case (ht_write m ms s ss)
  have ih: "sorted_wrt config_order (m # ms)" "pending_ok (m OFF_GENERATION) (s # ss)"
    using ht_write.IH ht_write.prems by auto
  have w: "config_order (apply_hstore s m) m \<and> pending_ok (apply_hstore s m OFF_GENERATION) ss"
    using config_order_write [of m s ss] ih(2) ht_write.prems by simp
  show ?case using config_order_step [OF ih(1) conjunct1 [OF w]] conjunct2 [OF w]
    by (simp del: sorted_wrt.simps)
next
  case (ht_run m ms ss off w)
  have ih: "sorted_wrt config_order (m # ms)" "pending_ok (m OFF_GENERATION) ss"
    using ht_run.IH ht_run.prems by auto
  show ?case
    using config_order_step [OF ih(1) config_order_run [OF ht_run.hyps(2,3)]] ih(2) ht_run.hyps(3)
    by (simp del: sorted_wrt.simps)
qed (auto intro: pending_spsc pending_spmc pending_bcast pending_anch)

text \<open>
  A reader that saw one even generation first and last read every configuration
  word in between from the memory of its first load.
\<close>

lemma stable_read:
  fixes k :: "nat \<Rightarrow> nat"
  assumes tr: "header_trace ms ss" and lim: "\<forall>m\<in>set ms. unat (m OFF_GENERATION) < word_span - 1"
    and mono: "\<forall>i j. i \<le> j \<longrightarrow> k j \<le> k i" and rng: "k 0 < length ms"
    and gen: "(ms ! k 0) OFF_GENERATION = (ms ! k n) OFF_GENERATION" "even ((ms ! k 0) OFF_GENERATION)"
    and i: "i \<le> n" and cw: "config_word (ms ! k 0) off"
  shows "(ms ! k i) off = (ms ! k 0) off"
proof -
  have srt: "sorted_wrt config_order ms" using trace_ordered [OF tr lim] by simp
  have ord: "config_order (ms ! k b) (ms ! k a)" if "a \<le> b" for a b
  proof (cases "k b = k a")
    case False
    have "k b \<le> k a" by (rule mono [rule_format, OF that])
    moreover have "k a \<le> k 0" by (rule mono [rule_format]) simp
    ultimately have "k b < k a" "k a < length ms" using False rng by linarith+
    then show ?thesis by (rule sorted_wrt_nth_less [OF srt])
  qed (simp add: config_order_refl)
  have "unat ((ms ! k 0) OFF_GENERATION) \<le> unat ((ms ! k i) OFF_GENERATION)"
    "unat ((ms ! k i) OFF_GENERATION) \<le> unat ((ms ! k n) OFF_GENERATION)"
    by (rule config_order_gen [OF ord], simp, rule config_order_gen [OF ord [OF i]])
  then have "unat ((ms ! k i) OFF_GENERATION) = unat ((ms ! k 0) OFF_GENERATION)"
    unfolding gen(1) by (rule order_antisym [rotated])
  then have "(ms ! k i) OFF_GENERATION = (ms ! k 0) OFF_GENERATION"
    by (rule word_unat_eq_iff [THEN iffD2])
  then show ?thesis by (rule config_order_same [OF ord _ gen(2) cw, rotated]) simp
qed

lemma probe_facts:
  assumes "probe_header seen kind unit_size min_capacity len = Inr (gen, capacity)"
  shows "seen 0 OFF_GENERATION = gen" and "gen AND 1 \<noteq> 1" and "seen 1 OFF_MAGIC = MAGIC"
    and "ucast (seen 2 OFF_VERSION) = VERSION" and "ucast (seen 3 OFF_KIND) = kind"
    and "seen 4 OFF_UNIT_SIZE = unit_size" and "ucast (seen 5 OFF_ARCH_BITS) = USIZE_BITS"
    and "seen 6 OFF_CAPACITY = capacity"
  using assms by (auto simp only: probe_header_def Let_def sum.simps prod.simps not_not simp_thms split: if_splits)

lemma probe_even:
  assumes "probe_header seen kind unit_size min_capacity len = Inr (gen, capacity)"
  shows "even gen" and "gen AND 1 = 0"
  using probe_facts(2) [OF assms] by (simp_all add: and_one_eq mod_2_eq_odd split: if_splits)

lemma probe_reads:
  assumes p: "probe_header seen kind unit_size min_capacity len = Inr (gen, capacity)"
    and same: "\<And>i off. i \<le> 6 \<Longrightarrow> config_word (seen 0) off \<Longrightarrow> seen i off = seen 0 off"
  shows "header_accepts (seen 0) kind unit_size gen capacity"
proof -
  have "seen 1 OFF_MAGIC = seen 0 OFF_MAGIC" "seen 2 OFF_VERSION = seen 0 OFF_VERSION"
    "seen 3 OFF_KIND = seen 0 OFF_KIND" "seen 4 OFF_UNIT_SIZE = seen 0 OFF_UNIT_SIZE"
    "seen 5 OFF_ARCH_BITS = seen 0 OFF_ARCH_BITS" "seen 6 OFF_CAPACITY = seen 0 OFF_CAPACITY"
    by (rule same; simp add: config_word_def)+
  then show ?thesis using probe_facts [OF p] probe_even(2) [OF p] by (simp add: header_accepts_def)
qed

lemma stable_cursors_later: "n \<le> snd (stable_cursors rounds seen n align_to)"
proof (induction rounds arbitrary: n)
  case (Suc rounds)
  show ?case using Suc.IH [of "n + 3"] by (simp add: Let_def)
qed simp

text \<open>What the opens rely on of their loads, and what each then returns.\<close>

definition stable_reads :: "(nat \<Rightarrow> header_mem) \<Rightarrow> bool" where
  "stable_reads seen \<longleftrightarrow> (\<forall>n i off. seen n OFF_GENERATION = seen 0 OFF_GENERATION
     \<longrightarrow> even (seen 0 OFF_GENERATION) \<longrightarrow> i \<le> n \<longrightarrow> config_word (seen 0) off \<longrightarrow> seen i off = seen 0 off)"

lemma opened_at_once:
  assumes sr: "stable_reads seen"
    and p: "probe_header seen kind unit_size min_capacity len = Inr (gen, capacity)"
    and g: "seen n OFF_GENERATION = gen" and n: "6 \<le> n"
  shows "header_accepts (seen 0) kind unit_size gen capacity"
    and "i \<le> n \<Longrightarrow> config_word (seen 0) off \<Longrightarrow> seen i off = seen 0 off"
proof -
  have all: "seen i off = seen 0 off" if "i \<le> n" "config_word (seen 0) off" for i off
    using sr probe_facts(1) [OF p] probe_even(1) [OF p] g that unfolding stable_reads_def by metis
  show "header_accepts (seen 0) kind unit_size gen capacity"
  proof (rule probe_reads [OF p])
    fix i :: nat and off
    assume "i \<le> 6" and c: "config_word (seen 0) off"
    then have "i \<le> n" using n by linarith
    then show "seen i off = seen 0 off" using c by (rule all)
  qed
  show "i \<le> n \<Longrightarrow> config_word (seen 0) off \<Longrightarrow> seen i off = seen 0 off" by (rule all)
qed

lemma open_region_reads:
  assumes sr: "stable_reads seen"
    and o: "open_region seen kind unit_size min_capacity align_to len = Inr (capacity, gen)"
  shows "header_accepts (seen 0) kind unit_size gen capacity"
proof -
  obtain pair n where c: "stable_cursors 64 seen 7 align_to = (pair, n)" by fastforce
  from o have p: "probe_header seen kind unit_size min_capacity len = Inr (gen, capacity)"
    and g: "seen n OFF_GENERATION = gen"
    by (auto simp: open_region_def c split: sum.splits if_splits)
  have "6 \<le> n" using stable_cursors_later [of 7 64 seen align_to] unfolding c by simp
  then show ?thesis using opened_at_once(1) [OF sr p g] by blast
qed

lemma open_spmc_region_reads:
  assumes sr: "stable_reads seen"
    and o: "open_spmc_region seen kind unit_size min_capacity align_to len = Inr r"
  shows "header_accepts (seen 0) kind unit_size (go_generation r) (go_capacity r)
    \<and> go_max_slots r = unat (ucast (seen 0 OFF_MAX_CONSUMERS) :: u32)"
proof -
  from o have p: "probe_header seen kind unit_size min_capacity len = Inr (go_generation r, go_capacity r)"
    and g: "seen 9 OFF_GENERATION = go_generation r"
    and m: "go_max_slots r = unat (ucast (seen 7 OFF_MAX_CONSUMERS) :: u32)"
    by (auto simp: open_spmc_region_def Let_def unat_u32_widen split: sum.splits if_splits)
  show ?thesis
    using opened_at_once(1) [OF sr p g] opened_at_once(2) [OF sr p g, of 7 OFF_MAX_CONSUMERS] m
    by (simp add: config_word_def)
qed

lemma open_bcast_region_reads:
  assumes sr: "stable_reads seen"
    and o: "open_bcast_region seen kind unit_size stride off min_capacity align_to len = Inr r"
  shows "header_accepts (seen 0) kind unit_size (bo_generation r) (bo_capacity r)
    \<and> seen 0 OFF_BCAST_STRIDE = stride \<and> (slack_kind kind \<longrightarrow> seen 0 OFF_BCAST_SLACK = bo_slack r)"
proof -
  from o have p: "probe_header seen kind unit_size min_capacity len = Inr (bo_generation r, bo_capacity r)"
    and g: "seen 10 OFF_GENERATION = bo_generation r"
    and m: "seen 8 OFF_BCAST_STRIDE = stride" "seen 7 OFF_BCAST_SLACK = bo_slack r"
    by (auto simp: open_bcast_region_def Let_def split: sum.splits if_splits)
  have acc: "header_accepts (seen 0) kind unit_size (bo_generation r) (bo_capacity r)"
    using opened_at_once(1) [OF sr p g] by simp
  have "config_word (seen 0) OFF_BCAST_SLACK" if "slack_kind kind"
    using acc that by (simp add: config_word_def header_accepts_def)
  moreover have "config_word (seen 0) OFF_BCAST_STRIDE" by (simp add: config_word_def)
  ultimately show ?thesis
    using acc opened_at_once(2) [OF sr p g, of 7 OFF_BCAST_SLACK]
      opened_at_once(2) [OF sr p g, of 8 OFF_BCAST_STRIDE] m by simp
qed

lemma open_anch_region_reads:
  assumes sr: "stable_reads seen"
    and o: "open_anch_region seen kind unit_size stride off min_capacity align_to len = Inr r"
  shows "header_accepts (seen 0) kind unit_size (ao_generation r) (ao_capacity r)
    \<and> ao_max_anchors r = unat (ucast (seen 0 OFF_MAX_CONSUMERS) :: u32)
    \<and> seen 0 OFF_BCAST_STRIDE = stride \<and> (kind = KIND_ANCH_ELEMS \<longrightarrow> seen 0 OFF_BCAST_SLACK = ao_slack r)"
proof -
  from o have p: "probe_header seen kind unit_size min_capacity len = Inr (ao_generation r, ao_capacity r)"
    and g: "seen 11 OFF_GENERATION = ao_generation r"
    and m: "ao_max_anchors r = unat (ucast (seen 7 OFF_MAX_CONSUMERS) :: u32)"
      "seen 9 OFF_BCAST_STRIDE = stride" "kind = KIND_ANCH_ELEMS \<longrightarrow> seen 8 OFF_BCAST_SLACK = ao_slack r"
    by (auto simp: open_anch_region_def Let_def unat_u32_widen split: sum.splits if_splits)
  have acc: "header_accepts (seen 0) kind unit_size (ao_generation r) (ao_capacity r)"
    using opened_at_once(1) [OF sr p g] by simp
  have "config_word (seen 0) OFF_BCAST_SLACK" if "kind = KIND_ANCH_ELEMS"
    using acc that by (simp add: config_word_def header_accepts_def slack_kind_def)
  moreover have "config_word (seen 0) OFF_BCAST_STRIDE" "config_word (seen 0) OFF_MAX_CONSUMERS"
    by (simp_all add: config_word_def)
  ultimately show ?thesis
    using acc opened_at_once(2) [OF sr p g, of 8 OFF_BCAST_SLACK]
      opened_at_once(2) [OF sr p g, of 9 OFF_BCAST_STRIDE]
      opened_at_once(2) [OF sr p g, of 7 OFF_MAX_CONSUMERS] m by simp
qed

text \<open>
  (C29) An attach never trusts a chimera of two headers. Let the header be created
  over and over, by any kind of ring, each creation stopping wherever its process
  dies, with the words of running rings changing in between, and let an attach
  perform its loads anywhere along that history. If it succeeds, the capacity,
  unit size, kind, table size, slack and stride it took all stand together, with
  the even generation it returns, in the one header it saw at its first load.
\<close>

theorem open_no_chimera:
  assumes "header_trace ms ss" and "\<forall>m\<in>set ms. unat (m OFF_GENERATION) < word_span - 1"
    and "\<forall>i j. i \<le> j \<longrightarrow> k j \<le> k i" and "k 0 < length ms"
  shows "(\<forall>capacity gen.
        open_region (\<lambda>i. ms ! k i) kind unit_size min_capacity align_to len = Inr (capacity, gen) \<longrightarrow>
        header_accepts (ms ! k 0) kind unit_size gen capacity)
    \<and> (\<forall>r. open_spmc_region (\<lambda>i. ms ! k i) kind unit_size min_capacity align_to len = Inr r \<longrightarrow>
        header_accepts (ms ! k 0) kind unit_size (go_generation r) (go_capacity r)
        \<and> go_max_slots r = unat (ucast ((ms ! k 0) OFF_MAX_CONSUMERS) :: u32))
    \<and> (\<forall>r. open_bcast_region (\<lambda>i. ms ! k i) kind unit_size stride off min_capacity align_to len = Inr r \<longrightarrow>
        header_accepts (ms ! k 0) kind unit_size (bo_generation r) (bo_capacity r)
        \<and> (ms ! k 0) OFF_BCAST_STRIDE = stride
        \<and> (slack_kind kind \<longrightarrow> (ms ! k 0) OFF_BCAST_SLACK = bo_slack r))
    \<and> (\<forall>r. open_anch_region (\<lambda>i. ms ! k i) kind unit_size stride off min_capacity align_to len = Inr r \<longrightarrow>
        header_accepts (ms ! k 0) kind unit_size (ao_generation r) (ao_capacity r)
        \<and> ao_max_anchors r = unat (ucast ((ms ! k 0) OFF_MAX_CONSUMERS) :: u32)
        \<and> (ms ! k 0) OFF_BCAST_STRIDE = stride
        \<and> (kind = KIND_ANCH_ELEMS \<longrightarrow> (ms ! k 0) OFF_BCAST_SLACK = ao_slack r))"
proof -
  define seen where "seen = (\<lambda>i. ms ! k i)"
  have sr: "stable_reads seen"
    unfolding stable_reads_def seen_def
  proof (intro allI impI)
    fix n i off
    assume "(ms ! k n) OFF_GENERATION = (ms ! k 0) OFF_GENERATION" and e: "even ((ms ! k 0) OFF_GENERATION)"
      and i: "i \<le> n" and c: "config_word (ms ! k 0) off"
    from this(1) show "(ms ! k i) off = (ms ! k 0) off" by (intro stable_read [OF assms _ e i c]) simp
  qed
  have 0: "ms ! k 0 = seen 0" by (simp add: seen_def)
  show ?thesis
    unfolding 0 seen_def [symmetric]
    by (intro conjI allI impI; (drule open_region_reads [OF sr] open_spmc_region_reads [OF sr]
        open_bcast_region_reads [OF sr] open_anch_region_reads [OF sr])?; simp)
qed

text \<open>A push lands between the fifth and the sixth load of an attach to a ring of eight 4-byte elements.\<close>

definition sample_header :: header_mem where
  "sample_header = (\<lambda>_. 0)(OFF_GENERATION := 2, OFF_MAGIC := MAGIC, OFF_VERSION := 1, OFF_KIND := 2,
     OFF_CAPACITY := 8, OFF_UNIT_SIZE := 4, OFF_ARCH_BITS := 64)"

theorem open_no_chimera_witness:
  "header_accepts sample_header KIND_ELEMS 4 2 8"
proof -
  let ?ms = "[sample_header(OFF_WRITE_CURSOR := 1), sample_header]"
  let ?k = "\<lambda>i :: nat. if i < 5 then 1 else 0 :: nat"
  have "\<not> config_word sample_header OFF_WRITE_CURSOR"
    by (simp add: config_word_def header_offsets)
  then have t: "header_trace ?ms []"
    by (rule ht_run [OF ht_start]) (simp add: header_offsets)
  have lim: "\<forall>m\<in>set ?ms. unat (m OFF_GENERATION) < word_span - 1"
    by (simp add: sample_header_def header_offsets word_span_def)
  have mono: "\<forall>i j. i \<le> j \<longrightarrow> ?k j \<le> ?k i" and rng: "?k 0 < length ?ms" by auto
  have p: "is_power_of_two 8" by (simp add: is_power_of_two_def)
  have acc: "probe_header (\<lambda>i. ?ms ! ?k i) KIND_ELEMS 4 1 416 = Inr (2, 8)"
    using p by (simp add: probe_header_def Let_def sample_header_def header_offsets VERSION_def
        KIND_ELEMS_def USIZE_BITS_def MAGIC_def)
  have len: "region_len 8 4 = Inr 416"
    by (simp add: region_len_def clamp_off_t_def checked_mul_def checked_add_def word_span_def
        OFF_T_MAX_def BUFFER_OFFSET_def)
  have cur: "stable_cursors 64 (\<lambda>i. ?ms ! ?k i) 7 1 = (Inr (Some (1, 0)), 10)"
    by (simp add: numeral_eq_Suc Let_def sample_header_def header_offsets)
  have "open_region (\<lambda>i. ?ms ! ?k i) KIND_ELEMS 4 1 1 416 = Inr (8, 2)"
    by (simp add: open_region_def acc len cur)
      (simp add: sample_header_def header_offsets)
  then have "header_accepts (?ms ! ?k 0) KIND_ELEMS 4 2 8"
    using open_no_chimera [OF t lim mono rng, THEN conjunct1] by blast
  then show ?thesis by simp
qed

end
