(* ===== verification/Broadcast_Bytes.thy ===== *)
theory Broadcast_Bytes
  imports Broadcast Framing
begin

text \<open>
  The lossy broadcast ring of byte messages (\<open>src/src/broadcast_bytes.rs\<close>): the
  frame format with 8-byte records, the producer as the sequence of atomic stores
  it issues (intent, lanes, latest, tail), and the consumer as a pure reader that
  validates its copy against the declared intent. \<open>seen n\<close> is the shared memory at
  the consumer's \<open>n\<close>-th load. The healing of a producer that died in the middle of
  a push (\<open>src/src/shm.rs\<close>) is at the end.
\<close>

section \<open>Sizes\<close>

definition BB_HEADER :: usize where "BB_HEADER = 4"
definition BB_ALIGN :: usize where "BB_ALIGN = 8"
definition BB_PADDING :: u32 where "BB_PADDING = - 1"
definition BB_MIN_CAPACITY :: usize where "BB_MIN_CAPACITY = 8"

definition bb_align_up :: "usize \<Rightarrow> usize" where
  "bb_align_up n = (n + (BB_ALIGN - 1)) AND NOT (BB_ALIGN - 1)"

definition bb_record_len :: "usize \<Rightarrow> usize" where
  "bb_record_len len = bb_align_up (BB_HEADER + len)"

definition bb_max_message_len :: "usize \<Rightarrow> usize" where
  "bb_max_message_len capacity =
     (let cap = capacity div 8;
          header_space = ucast (BB_PADDING - 1)
      in if cap < header_space then cap else header_space)"

definition bb_round_capacity :: "usize \<Rightarrow> fault + usize" where
  "bb_round_capacity min_capacity = round_capacity min_capacity BB_MIN_CAPACITY"

datatype bytes_pop_error = Bb_lagged u64 | Bb_closed

section \<open>Shared state\<close>

record bbytes_shared =
  bb_buf :: "u8 list"
  bb_mask :: u64
  bb_intent :: u64
  bb_latest :: u64
  bb_tail :: u64
  bb_closed :: u64

record bb_producer =
  bbp_mask :: u64
  bbp_next :: u64
  bbp_intent_floor :: u64

record bb_consumer =
  bbc_mask :: u64
  bbc_pos :: u64
  bbc_tail_cache :: u64

text \<open>A lane access off the 4-byte grid is the \<open>debug_assert!\<close>, one off the buffer a fault.\<close>

definition load_lane :: "nat \<Rightarrow> u8 list \<Rightarrow> fault + u32" where
  "load_lane off buf =
     (if off mod 4 \<noteq> 0 then Inl Panic
      else if off + 4 \<le> length buf then Inr (u32_of_bytes (get off 4 buf)) else Inl OutOfBounds)"

definition bb_subscribe_from :: "bbytes_shared \<Rightarrow> bb_consumer" where
  "bb_subscribe_from sh =
     (let pos = bb_tail sh in \<lparr>bbc_mask = bb_mask sh, bbc_pos = pos, bbc_tail_cache = pos\<rparr>)"

definition bb_with_wait_strategies ::
  "usize \<Rightarrow> fault + bbytes_shared \<times> bb_producer \<times> bb_consumer" where
  "bb_with_wait_strategies min_capacity =
     (case bb_round_capacity min_capacity of
        Inl f \<Rightarrow> Inl f
      | Inr capacity \<Rightarrow>
          (let sh = \<lparr>bb_buf = replicate (unat (capacity div BB_ALIGN) * 8) 0, bb_mask = capacity - 1,
                     bb_intent = 0, bb_latest = 0, bb_tail = 0, bb_closed = 0\<rparr>
           in Inr (sh, \<lparr>bbp_mask = bb_mask sh, bbp_next = 0, bbp_intent_floor = 0\<rparr>,
                   bb_subscribe_from sh)))"

section \<open>The producer\<close>

datatype bb_store = BSt_intent u64 | BSt_lane nat "u8 list" | BSt_latest u64 | BSt_tail u64
  | BSt_closed u64

fun bb_apply :: "bb_store \<Rightarrow> bbytes_shared \<Rightarrow> bbytes_shared" where
  "bb_apply (BSt_intent v) sh = sh\<lparr>bb_intent := v\<rparr>"
| "bb_apply (BSt_lane off bs) sh = sh\<lparr>bb_buf := put off bs (bb_buf sh)\<rparr>"
| "bb_apply (BSt_latest v) sh = sh\<lparr>bb_latest := v\<rparr>"
| "bb_apply (BSt_tail v) sh = sh\<lparr>bb_tail := v\<rparr>"
| "bb_apply (BSt_closed v) sh = sh\<lparr>bb_closed := v\<rparr>"

text \<open>The framing of a push: the padding, its total and the record's length.\<close>

definition bb_frame :: "u64 \<Rightarrow> u64 \<Rightarrow> u64 \<Rightarrow> u64 \<times> u64" where
  "bb_frame mask' next' len =
     (let capacity = mask' + 1;
          record = bb_record_len len;
          off = next' AND mask';
          to_end = capacity - off
      in if record \<le> to_end then (0, record) else (to_end, to_end + record))"

definition bb_push :: "u8 list \<Rightarrow> bb_producer \<Rightarrow> fault + bb_store list \<times> bb_producer" where
  "bb_push msg p =
     (let capacity = bbp_mask p + 1
      in if unat (bb_max_message_len capacity) < length msg then Inl Panic
         else (case bb_frame (bbp_mask p) (bbp_next p) (of_nat (length msg)) of
                 (pad, total') \<Rightarrow>
           (let off = bbp_next p AND bbp_mask p;
                new_tail = bbp_next p + total';
                declared = max new_tail (bbp_intent_floor p);
                rec_off = unat ((bbp_next p + pad) AND bbp_mask p)
            in Inr (BSt_intent declared
                    # (if pad > 0 then [BSt_lane (unat off) (bytes_of_u32 BB_PADDING)] else [])
                    @ BSt_lane rec_off (bytes_of_u32 (of_nat (length msg)))
                    # map (\<lambda>(o', bs). BSt_lane (rec_off + unat BB_HEADER + o') bs) (copy_in_lanes msg)
                    @ [BSt_latest (bbp_next p + pad), BSt_tail new_tail],
                    p\<lparr>bbp_next := new_tail\<rparr>))))"

text \<open>The heap ring's teardown: \<open>teardown_allowed\<close> is true.\<close>

definition bb_producer_drop :: "bb_producer \<Rightarrow> bb_store list" where
  "bb_producer_drop p = [BSt_closed 1]"

definition bb_producer_tail :: "bb_producer \<Rightarrow> u64" where
  "bb_producer_tail p = bbp_next p"

section \<open>The consumer\<close>

definition bb_available :: "bb_consumer \<Rightarrow> bool" where
  "bb_available c \<longleftrightarrow> bbc_tail_cache c > bbc_pos c"

definition bb_refresh ::
  "(nat \<Rightarrow> bbytes_shared) \<Rightarrow> nat \<Rightarrow> bb_consumer \<Rightarrow> u64 \<times> nat \<times> bb_consumer" where
  "bb_refresh seen n c = (bb_tail (seen n), Suc n, c\<lparr>bbc_tail_cache := bb_tail (seen n)\<rparr>)"

definition bb_has_item ::
  "(nat \<Rightarrow> bbytes_shared) \<Rightarrow> nat \<Rightarrow> bb_consumer \<Rightarrow> bool \<times> nat \<times> bb_consumer" where
  "bb_has_item seen n c =
     (if \<not> bb_available c
      then (case bb_refresh seen n c of (_, n1, c1) \<Rightarrow> (bb_available c1, n1, c1))
      else (True, n, c))"

text \<open>\<open>True\<close> is \<open>Err(Closed)\<close>.\<close>

definition bb_check_closed ::
  "(nat \<Rightarrow> bbytes_shared) \<Rightarrow> nat \<Rightarrow> bb_consumer \<Rightarrow> bool \<times> nat \<times> bb_consumer" where
  "bb_check_closed seen n c =
     (if bb_closed (seen n) \<noteq> 0
      then (case bb_refresh seen (Suc n) c of
              (_, n1, c1) \<Rightarrow> (bbc_tail_cache c1 \<le> bbc_pos c1, n1, c1))
      else (False, Suc n, c))"

text \<open>\<open>wait n\<close> is the number of loads issued once the strategy, entered after \<open>n\<close>, comes back.\<close>

partial_function (option) bb_wait_for_item ::
  "(nat \<Rightarrow> nat) \<Rightarrow> (nat \<Rightarrow> bbytes_shared) \<Rightarrow> nat \<Rightarrow> bb_consumer
     \<Rightarrow> (bool \<times> nat \<times> bb_consumer) option" where
  "bb_wait_for_item wait seen n c =
     (case bb_has_item seen n c of (item, n1, c1) \<Rightarrow>
        if item then Some (True, n1, c1)
        else (case bb_check_closed seen n1 c1 of (closed, n2, c2) \<Rightarrow>
          if closed then Some (False, n2, c2)
          else if bb_available c2 then Some (True, n2, c2)
          else bb_wait_for_item wait seen (wait n2) c2))"

definition bb_reposition ::
  "(nat \<Rightarrow> bbytes_shared) \<Rightarrow> nat \<Rightarrow> bb_consumer \<Rightarrow> u64 \<times> nat \<times> bb_consumer" where
  "bb_reposition seen n c =
     (case bb_refresh seen n c of (_, n1, c1) \<Rightarrow>
        (let latest = bb_latest (seen n1);
             new_pos = max latest (bbc_pos c1);
             missed_bytes = new_pos - bbc_pos c1
         in (missed_bytes, Suc n1, c1\<lparr>bbc_pos := new_pos\<rparr>)))"

text \<open>
  A call's result: the popped bytes or the error, the contents of \<open>out\<close>, the loads
  issued and the consumer.
\<close>

type_synonym bb_result = "(bytes_pop_error + unit) \<times> u8 list \<times> nat \<times> bb_consumer"

definition bb_lag_result ::
  "(nat \<Rightarrow> bbytes_shared) \<Rightarrow> u8 list \<Rightarrow> nat \<Rightarrow> bb_consumer \<Rightarrow> bb_result" where
  "bb_lag_result seen out n c =
     (case bb_reposition seen n c of (m, n1, c1) \<Rightarrow> (Inl (Bb_lagged m), out, n1, c1))"

text \<open>
  The loop of \<open>read_record\<close>, once per frame part: \<open>pos\<close> is the frame anchor and
  \<open>cursor\<close> moves past a padding record. The \<open>k\<close>-th lane of the payload is loaded at
  \<open>n + 2 + k\<close>.
\<close>

definition bb_read_payload ::
  "(nat \<Rightarrow> bbytes_shared) \<Rightarrow> u64 \<Rightarrow> u64 \<Rightarrow> nat \<Rightarrow> u64 \<Rightarrow> u8 list \<Rightarrow> nat \<Rightarrow> bb_consumer
     \<Rightarrow> fault + bb_result" where
  "bb_read_payload seen pos cursor off len out n c =
     (let capacity = bbc_mask c + 1;
          record = bb_record_len len
      in if len > bb_max_message_len capacity then Inr (bb_lag_result seen out n c)
         else if record > capacity - of_nat off then Inr (bb_lag_result seen out n c)
         else if off + unat record > length (bb_buf (seen n)) then Inl OutOfBounds
         else (case copy_out_lanes (\<lambda>k. drop (off + unat BB_HEADER) (bb_buf (seen (n + k)))) (unat len) of
                 (bytes, m) \<Rightarrow>
                   if bb_intent (seen (n + m)) - pos > capacity
                   then Inr (bb_lag_result seen [] (n + m + 1) c)
                   else Inr (Inr (), bytes, n + m + 1, c\<lparr>bbc_pos := cursor + record\<rparr>)))"

partial_function (option) bb_read_loop ::
  "(nat \<Rightarrow> bbytes_shared) \<Rightarrow> u64 \<Rightarrow> u64 \<Rightarrow> u8 list \<Rightarrow> nat \<Rightarrow> bb_consumer
     \<Rightarrow> (fault + bb_result) option" where
  "bb_read_loop seen pos cursor out n c =
     (let capacity = bbc_mask c + 1
      in if bb_intent (seen n) - pos > capacity then Some (Inr (bb_lag_result seen out (n + 1) c))
         else (let off = unat (cursor AND bbc_mask c)
               in case load_lane off (bb_buf (seen (n + 1))) of
                    Inl f \<Rightarrow> Some (Inl f)
                  | Inr header \<Rightarrow>
                      if header = BB_PADDING
                      then (if bb_intent (seen (n + 2)) - pos > capacity
                            then Some (Inr (bb_lag_result seen out (n + 3) c))
                            else bb_read_loop seen pos (cursor + (capacity - of_nat off)) out (n + 3) c)
                      else Some (bb_read_payload seen pos cursor off (ucast header) out (n + 2) c)))"

declare bb_read_loop.simps [code]

text \<open>The two \<open>debug_assert!\<close>s at the start are the fault \<open>Panic\<close>.\<close>

definition bb_read_record ::
  "(nat \<Rightarrow> bbytes_shared) \<Rightarrow> u8 list \<Rightarrow> nat \<Rightarrow> bb_consumer \<Rightarrow> (fault + bb_result) option" where
  "bb_read_record seen out n c =
     (if \<not> bbc_tail_cache c > bbc_pos c \<or> bbc_pos c mod BB_ALIGN \<noteq> 0 then Some (Inl Panic)
      else bb_read_loop seen (bbc_pos c) (bbc_pos c) out n c)"

definition bb_pop_into ::
  "(nat \<Rightarrow> nat) \<Rightarrow> (nat \<Rightarrow> bbytes_shared) \<Rightarrow> u8 list \<Rightarrow> nat \<Rightarrow> bb_consumer
     \<Rightarrow> (fault + bb_result) option" where
  "bb_pop_into wait seen out n c =
     Option.bind (bb_wait_for_item wait seen n c) (\<lambda>(item, n1, c1).
       if item then bb_read_record seen [] n1 c1 else Some (Inr (Inl Bb_closed, [], n1, c1)))"

definition bb_pop ::
  "(nat \<Rightarrow> nat) \<Rightarrow> (nat \<Rightarrow> bbytes_shared) \<Rightarrow> nat \<Rightarrow> bb_consumer
     \<Rightarrow> (fault + (bytes_pop_error + u8 list) \<times> nat \<times> bb_consumer) option" where
  "bb_pop wait seen n c =
     map_option (map_sum id (\<lambda>(r, out, n1, c1). (map_sum id (\<lambda>_. out) r, n1, c1)))
       (bb_pop_into wait seen [] n c)"

definition bb_try_pop_into ::
  "(nat \<Rightarrow> bbytes_shared) \<Rightarrow> u8 list \<Rightarrow> nat \<Rightarrow> bb_consumer
     \<Rightarrow> (fault + (bytes_pop_error + bool) \<times> u8 list \<times> nat \<times> bb_consumer) option" where
  "bb_try_pop_into seen out n c =
     (case bb_has_item seen n c of (item, n1, c1) \<Rightarrow>
        if item
        then map_option (map_sum id (\<lambda>(r, x). (map_sum id (\<lambda>_. True) r, x))) (bb_read_record seen out n1 c1)
        else (case bb_check_closed seen n1 c1 of (closed, n2, c2) \<Rightarrow>
          if closed then Some (Inr (Inl Bb_closed, out, n2, c2))
          else if bb_available c2
          then map_option (map_sum id (\<lambda>(r, x). (map_sum id (\<lambda>_. True) r, x))) (bb_read_record seen out n2 c2)
          else Some (Inr (Inr False, out, n2, c2))))"

definition bb_try_pop ::
  "(nat \<Rightarrow> bbytes_shared) \<Rightarrow> nat \<Rightarrow> bb_consumer
     \<Rightarrow> (fault + (bytes_pop_error + u8 list option) \<times> nat \<times> bb_consumer) option" where
  "bb_try_pop seen n c =
     map_option (map_sum id (\<lambda>(r, out, n1, c1).
         (map_sum id (\<lambda>filled. if filled then Some out else None) r, n1, c1)))
       (bb_try_pop_into seen [] n c)"

definition bb_skip_to_latest ::
  "(nat \<Rightarrow> bbytes_shared) \<Rightarrow> nat \<Rightarrow> bb_consumer \<Rightarrow> u64 \<times> nat \<times> bb_consumer" where
  "bb_skip_to_latest seen n c =
     (case bb_refresh seen n c of (tail, n1, c1) \<Rightarrow>
        (saturating_sub tail (bbc_pos c1), n1, c1\<lparr>bbc_pos := max (bbc_pos c1) tail\<rparr>))"

definition bb_lag :: "(nat \<Rightarrow> bbytes_shared) \<Rightarrow> nat \<Rightarrow> bb_consumer \<Rightarrow> u64 \<times> nat" where
  "bb_lag seen n c = (saturating_sub (bb_tail (seen n)) (bbc_pos c), Suc n)"

definition bb_subscribe :: "(nat \<Rightarrow> bbytes_shared) \<Rightarrow> nat \<Rightarrow> bb_consumer \<times> nat" where
  "bb_subscribe seen n = (bb_subscribe_from (seen n), Suc n)"

section \<open>Producer sessions\<close>

text \<open>
  Attaching a producer to a region whose last one is gone, gracefully or in the
  middle of a push: the closed word is reset, \<open>latest\<close> is repaired, and the floor
  keeps declared intents monotonic.
\<close>

definition bytes_heal_on_attach :: "bbytes_shared \<Rightarrow> bb_store list \<times> u64" where
  "bytes_heal_on_attach sh =
     (if bb_intent sh \<noteq> bb_tail sh then [BSt_latest (bb_tail sh)] else [],
      max (bb_intent sh) (bb_tail sh))"

definition bb_producer_from_shm :: "u64 \<Rightarrow> u64 \<Rightarrow> bbytes_shared \<Rightarrow> bb_producer" where
  "bb_producer_from_shm capacity intent_floor sh =
     \<lparr>bbp_mask = capacity - 1, bbp_next = bb_tail sh, bbp_intent_floor = intent_floor\<rparr>"

definition bb_consumer_from_shm :: "u64 \<Rightarrow> bbytes_shared \<Rightarrow> bb_consumer" where
  "bb_consumer_from_shm capacity sh =
     (let pos = bb_tail sh in \<lparr>bbc_mask = capacity - 1, bbc_pos = pos, bbc_tail_cache = pos\<rparr>)"

definition bb_attach :: "bbytes_shared \<Rightarrow> bb_store list \<times> bb_producer" where
  "bb_attach sh =
     (case bytes_heal_on_attach sh of (heal, floor') \<Rightarrow>
        (BSt_closed 0 # heal, bb_producer_from_shm (bb_mask sh + 1) floor' sh))"

datatype bb_call = BCall_push "u8 list" | BCall_drop

text \<open>
  The stores of a session. A push whose \<open>assert!\<close> fails stores nothing. The
  producer is gone after its drop.
\<close>

fun bb_program :: "bb_call list \<Rightarrow> bb_producer \<Rightarrow> bb_store list" where
  "bb_program [] p = []"
| "bb_program (BCall_push v # calls) p =
     (case bb_push v p of Inl _ \<Rightarrow> bb_program calls p | Inr (sts, p1) \<Rightarrow> sts @ bb_program calls p1)"
| "bb_program (BCall_drop # calls) p = bb_producer_drop p"

text \<open>Sessions that die after \<open>died\<close> stores; each next one attaches to what they left.\<close>

fun bb_sessions :: "(bb_call list \<times> nat) list \<Rightarrow> bbytes_shared \<Rightarrow> bb_producer \<Rightarrow> bb_store list" where
  "bb_sessions [] sh p = []"
| "bb_sessions ((calls, died) # rest) sh p =
     (let sts = take died (bb_program calls p);
          sh1 = fold bb_apply sts sh
      in if rest = [] then sts
         else (case bb_attach sh1 of (heal, p2) \<Rightarrow>
                 sts @ heal @ bb_sessions rest (fold bb_apply heal sh1) p2))"

definition bb_memory :: "bbytes_shared \<Rightarrow> bb_store list \<Rightarrow> nat \<Rightarrow> bbytes_shared" where
  "bb_memory sh sts t = fold bb_apply (take t sts) sh"

end
