(* ===== verification/Byte_Frames.thy ===== *)
theory Byte_Frames
  imports Broadcast_Bytes
begin

text \<open>
  The stream of a lossy byte ring on natural numbers: where the frame of every
  message begins and ends, where its record starts, which lanes it writes, and
  which positions a reader can stand at.
\<close>

section \<open>Positions\<close>

definition rlen8 :: "nat \<Rightarrow> nat" where
  "rlen8 n = (n + 11) div 8 * 8"

definition next_frame :: "nat \<Rightarrow> nat \<Rightarrow> nat \<Rightarrow> nat \<times> nat" where
  "next_frame cap pos len =
     (let to_end = cap - pos mod cap
      in if rlen8 len \<le> to_end then (pos, pos + rlen8 len) else (pos + to_end, pos + to_end + rlen8 len))"

primrec frame_at :: "nat \<Rightarrow> u8 list list \<Rightarrow> nat \<Rightarrow> nat" where
  "frame_at cap ms 0 = 0"
| "frame_at cap ms (Suc k) = snd (next_frame cap (frame_at cap ms k) (length (ms ! k)))"

definition rec_at :: "nat \<Rightarrow> u8 list list \<Rightarrow> nat \<Rightarrow> nat" where
  "rec_at cap ms k = fst (next_frame cap (frame_at cap ms k) (length (ms ! k)))"

definition stream_end :: "nat \<Rightarrow> u8 list list \<Rightarrow> nat" where
  "stream_end cap ms = frame_at cap ms (length ms)"

definition next_lap :: "nat \<Rightarrow> nat \<Rightarrow> nat" where
  "next_lap cap pos = (if pos mod cap = 0 then pos else pos + (cap - pos mod cap))"

definition boundary :: "nat \<Rightarrow> u8 list list \<Rightarrow> nat \<Rightarrow> bool" where
  "boundary cap ms pos \<longleftrightarrow>
     (\<exists>k<length ms. pos = frame_at cap ms k \<or> pos = rec_at cap ms k)
     \<or> pos = stream_end cap ms \<or> pos = next_lap cap (stream_end cap ms)"

lemma rlen8_bounds: "n + 4 \<le> rlen8 n" "rlen8 n \<le> n + 11" "8 dvd rlen8 n" "8 \<le> rlen8 n"
  unfolding rlen8_def by presburger+

lemma frame_at_Suc: "frame_at cap ms (Suc k) = rec_at cap ms k + rlen8 (length (ms ! k))"
  by (simp add: rec_at_def next_frame_def Let_def)

declare frame_at.simps(2) [simp del]

lemma rec_at_cases:
  obtains (plain) "rec_at cap ms k = frame_at cap ms k"
      and "rlen8 (length (ms ! k)) \<le> cap - frame_at cap ms k mod cap"
  | (padded) "rec_at cap ms k = frame_at cap ms k + (cap - frame_at cap ms k mod cap)"
      and "cap - frame_at cap ms k mod cap < rlen8 (length (ms ! k))"
  by (cases "rlen8 (length (ms ! k)) \<le> cap - frame_at cap ms k mod cap")
    (simp_all add: rec_at_def next_frame_def Let_def)

lemma rec_at_ge: "frame_at cap ms k \<le> rec_at cap ms k"
  by (rule rec_at_cases [of cap ms k]) simp_all

lemma rec_at_less: "rec_at cap ms k + 8 \<le> frame_at cap ms (Suc k)"
  using rlen8_bounds(4) [of "length (ms ! k)"] by (simp add: frame_at_Suc)

lemma frame_at_step: "frame_at cap ms k + 8 \<le> frame_at cap ms (Suc k)"
  using rec_at_ge [of cap ms k] rec_at_less [of cap ms k] by linarith

lemma frame_at_mono: "j \<le> k \<Longrightarrow> frame_at cap ms j \<le> frame_at cap ms k"
proof (rule lift_Suc_mono_le [of "frame_at cap ms"])
  show "frame_at cap ms i \<le> frame_at cap ms (Suc i)" for i
    using frame_at_step [of cap ms i] by linarith
qed

lemma frame_at_strict: "j < k \<Longrightarrow> frame_at cap ms j < frame_at cap ms k"
  using frame_at_mono [of "Suc j" k cap ms] frame_at_step [of cap ms j] by linarith

lemma pad_lap:
  assumes "0 < cap"
  shows "pos + (cap - pos mod cap) = Suc (pos div cap) * cap"
proof -
  have "pos mod cap \<le> cap" using assms by (simp add: less_imp_le)
  then show ?thesis using div_mult_mod_eq [of pos cap] by (simp only: mult_Suc)
qed

lemma frame_aligned:
  assumes "8 dvd cap" and "0 < cap"
  shows "8 dvd frame_at cap ms k" and "8 dvd rec_at cap ms k"
proof -
  have all: "8 dvd frame_at cap ms k \<and> 8 dvd rec_at cap ms k" for k
  proof (induction k)
    case 0
    show ?case
      by (rule rec_at_cases [of cap ms 0]) (use assms in simp_all)
  next
    case (Suc k)
    then have f: "8 dvd frame_at cap ms (Suc k)"
      unfolding frame_at_Suc using rlen8_bounds(3) by (metis dvd_add)
    have "8 dvd rec_at cap ms (Suc k)"
    proof (rule rec_at_cases [of cap ms "Suc k"])
      assume "rec_at cap ms (Suc k) = frame_at cap ms (Suc k) + (cap - frame_at cap ms (Suc k) mod cap)"
      then show ?thesis unfolding pad_lap [OF assms(2)] using assms(1) by simp
    qed (use f in simp)
    then show ?case using f by blast
  qed
  show "8 dvd frame_at cap ms k" "8 dvd rec_at cap ms k" using all by blast+
qed

lemma rec_fits:
  assumes "0 < cap" and "rlen8 (length (ms ! k)) \<le> cap"
  shows "rec_at cap ms k mod cap + rlen8 (length (ms ! k)) \<le> cap"
proof (rule rec_at_cases [of cap ms k])
  assume "rec_at cap ms k = frame_at cap ms k" "rlen8 (length (ms ! k)) \<le> cap - frame_at cap ms k mod cap"
  moreover have "frame_at cap ms k mod cap \<le> cap" using assms(1) by (simp add: less_imp_le)
  ultimately show ?thesis by simp
next
  assume "rec_at cap ms k = frame_at cap ms k + (cap - frame_at cap ms k mod cap)"
  then show ?thesis unfolding pad_lap [OF assms(1)] using assms(2) by simp
qed

lemma next_lap_here: "pos mod cap = 0 \<Longrightarrow> next_lap cap pos = pos"
  by (simp add: next_lap_def)

lemma next_lap_ge: "pos \<le> next_lap cap pos"
  by (simp add: next_lap_def)

text \<open>A lap that lies ahead stays the next one until a frame reaches it.\<close>

lemma next_lap_step:
  assumes "0 < cap" and "rlen8 (length (ms ! k)) \<le> cap" and ahead: "frame_at cap ms k mod cap \<noteq> 0"
  shows "rec_at cap ms k = next_lap cap (frame_at cap ms k)
    \<or> next_lap cap (frame_at cap ms (Suc k)) = next_lap cap (frame_at cap ms k)"
proof (rule rec_at_cases [of cap ms k])
  let ?f = "frame_at cap ms k" and ?r = "rlen8 (length (ms ! k))"
  assume rec: "rec_at cap ms k = ?f" and fit: "?r \<le> cap - ?f mod cap"
  define q where "q = ?f mod cap"
  have f: "?f = ?f div cap * cap + q" using div_mult_mod_eq [of ?f cap] by (simp add: q_def)
  have q: "q < cap" "q \<noteq> 0" using assms(1) ahead by (simp_all add: q_def)
  have s: "frame_at cap ms (Suc k) = ?f div cap * cap + (q + ?r)" using f rec by (simp add: frame_at_Suc)
  have "next_lap cap (frame_at cap ms (Suc k)) = ?f div cap * cap + cap"
  proof (cases "q + ?r = cap")
    case True
    then show ?thesis unfolding s by (simp add: next_lap_def)
  next
    case False
    then have "q + ?r < cap" using fit q by (simp add: q_def)
    moreover have "q + ?r \<noteq> 0" using q by simp
    ultimately show ?thesis unfolding s by (simp add: next_lap_def)
  qed
  moreover have "next_lap cap ?f = ?f + (cap - q)" using q by (simp add: next_lap_def q_def)
  then have "next_lap cap ?f = ?f div cap * cap + cap" using f q(1) by linarith
  ultimately show ?thesis by simp
next
  assume "rec_at cap ms k = frame_at cap ms k + (cap - frame_at cap ms k mod cap)"
  then show ?thesis using ahead by (simp add: next_lap_def)
qed

section \<open>Longer streams\<close>

lemma frame_at_append: "k \<le> length ms \<Longrightarrow> frame_at cap (ms @ later) k = frame_at cap ms k"
  by (induction k) (simp_all add: frame_at_Suc rec_at_def nth_append)

lemma rec_at_append: "k < length ms \<Longrightarrow> rec_at cap (ms @ later) k = rec_at cap ms k"
  by (simp add: rec_at_def frame_at_append nth_append)

lemma stream_end_snoc: "stream_end cap (ms @ [v]) = frame_at cap (ms @ [v]) (Suc (length ms))"
  by (simp add: stream_end_def)

lemma boundary_snoc:
  assumes "0 < cap" and "rlen8 (length v) \<le> cap" and "boundary cap ms pos"
  shows "boundary cap (ms @ [v]) pos"
proof -
  let ?ms = "ms @ [v]" and ?n = "length ms"
  have e: "stream_end cap ms = frame_at cap ?ms ?n" by (simp add: stream_end_def frame_at_append)
  consider k where "k < ?n" "pos = frame_at cap ms k \<or> pos = rec_at cap ms k"
    | "pos = frame_at cap ?ms ?n" | "pos = next_lap cap (frame_at cap ?ms ?n)" "frame_at cap ?ms ?n mod cap \<noteq> 0"
    using assms(3) next_lap_here unfolding boundary_def e by metis
  then show ?thesis
  proof cases
    case (1 k)
    then have "k < length ?ms" "pos = frame_at cap ?ms k \<or> pos = rec_at cap ?ms k"
      by (simp_all add: frame_at_append rec_at_append)
    then show ?thesis unfolding boundary_def by blast
  next
    case 2
    moreover have "?n < length ?ms" by simp
    ultimately show ?thesis unfolding boundary_def by blast
  next
    case 3
    then have "pos = rec_at cap ?ms ?n \<or> pos = next_lap cap (stream_end cap ?ms)"
      using next_lap_step [OF assms(1), of ?ms ?n] assms(2) by (auto simp: stream_end_snoc)
    moreover have "?n < length ?ms" by simp
    ultimately show ?thesis unfolding boundary_def by blast
  qed
qed

lemma boundary_append:
  assumes "0 < cap" and "\<forall>v\<in>set later. rlen8 (length v) \<le> cap" and "boundary cap ms pos"
  shows "boundary cap (ms @ later) pos"
  using assms(2)
proof (induction later rule: rev_induct)
  case (snoc v later)
  then show ?case using boundary_snoc [OF assms(1), of v "ms @ later" pos] by simp
qed (use assms(3) in simp)

lemma boundary_aligned:
  assumes "8 dvd cap" and "0 < cap" and "boundary cap ms pos"
  shows "8 dvd pos"
proof -
  have e: "8 dvd stream_end cap ms" using frame_aligned(1) [OF assms(1,2)] by (simp add: stream_end_def)
  have "8 dvd next_lap cap (stream_end cap ms)"
    unfolding next_lap_def pad_lap [OF assms(2)] using e assms(1) by simp
  then show ?thesis using assms(3) e frame_aligned [OF assms(1,2)] by (auto simp: boundary_def)
qed

text \<open>A reader that has a message before it stands at the start of its frame or of its record.\<close>

lemma boundary_before:
  assumes "boundary cap ms pos" and "pos < frame_at cap ms j" and "j \<le> length ms"
  obtains k where "k < j" and "pos = frame_at cap ms k \<or> pos = rec_at cap ms k"
proof -
  have far: "frame_at cap ms j \<le> stream_end cap ms"
    unfolding stream_end_def by (rule frame_at_mono [OF assms(3)])
  obtain k where k: "k < length ms" "pos = frame_at cap ms k \<or> pos = rec_at cap ms k"
    using assms(1,2) far next_lap_ge [of "stream_end cap ms" cap] unfolding boundary_def by force
  have "k < j"
  proof (rule ccontr)
    assume "\<not> k < j"
    then have "frame_at cap ms j \<le> frame_at cap ms k" by (intro frame_at_mono) simp
    then show False using k(2) rec_at_ge [of cap ms k] assms(2) by linarith
  qed
  then show ?thesis using that k(2) by blast
qed

section \<open>The lanes of a frame\<close>

definition frame_lanes :: "nat \<Rightarrow> u8 list list \<Rightarrow> nat \<Rightarrow> (nat \<times> u8 list) list" where
  "frame_lanes cap ms k =
     (if rec_at cap ms k \<noteq> frame_at cap ms k then [(frame_at cap ms k, bytes_of_u32 BB_PADDING)] else [])
     @ (rec_at cap ms k, bytes_of_u32 (of_nat (length (ms ! k))))
     # map (\<lambda>(o', bs). (rec_at cap ms k + 4 + o', bs)) (copy_in_lanes (ms ! k))"

lemma in_lanes_grid:
  "(o', bs) \<in> set (in_lanes src off) \<Longrightarrow>
   length bs = 4 \<and> off \<le> o' \<and> o' < length src \<and> (o' - off) mod 4 = 0"
proof (induction src off rule: in_lanes.induct)
  case (1 src off)
  consider "off + 4 \<le> length src" | "\<not> off + 4 \<le> length src" "off < length src" | "\<not> off < length src"
    by linarith
  then show ?case
  proof cases
    case 1
    then have "(o', bs) = (off, get off 4 src) \<or> (o', bs) \<in> set (in_lanes src (off + 4))"
      using "1.prems" in_lanes.simps [of src off] by simp
    then show ?thesis
    proof
      assume "(o', bs) \<in> set (in_lanes src (off + 4))"
      then have h: "length bs = 4" "off + 4 \<le> o'" "o' < length src" "(o' - (off + 4)) mod 4 = 0"
        using "1.IH" [OF 1] by blast+
      then have "o' - off = (o' - (off + 4)) + 4" by linarith
      then have "(o' - off) mod 4 = (o' - (off + 4)) mod 4" by (metis mod_add_self2)
      then show ?thesis using h by linarith
    qed (use 1 in \<open>simp add: length_get\<close>)
  next
    case 2
    then show ?thesis
      using "1.prems" in_lanes.simps [of src off] by (auto simp: put_def get_def)
  next
    case 3
    then show ?thesis using "1.prems" in_lanes.simps [of src off] by simp
  qed
qed

lemma lane_room: "(4 :: nat) dvd r \<Longrightarrow> 4 dvd o' \<Longrightarrow> o' < n \<Longrightarrow> n + 4 \<le> r \<Longrightarrow> o' + 8 \<le> r"
  by presburger

lemma frame_lane_grid:
  assumes "8 dvd cap" and "0 < cap" and "(q, bs) \<in> set (frame_lanes cap ms k)"
  shows "length bs = 4" and "4 dvd q" and "frame_at cap ms k \<le> q" and "q + 4 \<le> frame_at cap ms (Suc k)"
proof -
  note al = frame_aligned [OF assms(1,2), of ms k]
  have four: "(4 :: nat) dvd x" if "8 dvd x" for x
    using dvd_trans [OF _ that, of 4] by simp
  have all: "length bs = 4 \<and> 4 dvd q \<and> frame_at cap ms k \<le> q \<and> q + 4 \<le> frame_at cap ms (Suc k)"
  proof -
    consider "q = frame_at cap ms k" "bs = bytes_of_u32 BB_PADDING" "rec_at cap ms k \<noteq> frame_at cap ms k"
      | "q = rec_at cap ms k" "length bs = 4"
      | o' where "q = rec_at cap ms k + 4 + o'" "(o', bs) \<in> set (in_lanes (ms ! k) 0)"
      using assms(3) by (auto simp: frame_lanes_def copy_in_lanes_def split: if_splits)
    then show ?thesis
    proof cases
      case 1
      then show ?thesis using four [OF al(1)] frame_at_step [of cap ms k] by simp
    next
      case 2
      then show ?thesis using four [OF al(2)] rec_at_ge [of cap ms k] rec_at_less [of cap ms k] by simp
    next
      case (3 o')
      have o: "length bs = 4" "o' < length (ms ! k)" "4 dvd o'"
        using in_lanes_grid [OF 3(2)] by (auto simp: dvd_eq_mod_eq_0)
      have "4 dvd rlen8 (length (ms ! k))" using four [OF rlen8_bounds(3)] .
      then have "o' + 8 \<le> rlen8 (length (ms ! k))"
        by (rule lane_room [OF _ o(3,2) rlen8_bounds(1)])
      moreover have "4 dvd q" using 3(1) o(3) four [OF al(2)] by simp
      ultimately show ?thesis using o(1) 3(1) rec_at_ge [of cap ms k] by (simp add: frame_at_Suc)
    qed
  qed
  then show "length bs = 4" "4 dvd q" "frame_at cap ms k \<le> q" "q + 4 \<le> frame_at cap ms (Suc k)" by blast+
qed

lemma frame_lanes_append: "k < length ms \<Longrightarrow> frame_lanes cap (ms @ later) k = frame_lanes cap ms k"
  by (simp add: frame_lanes_def frame_at_append rec_at_append nth_append)

text \<open>The lanes of a payload, present at every load of a copy, give back the payload.\<close>

definition lane_loads :: "nat \<Rightarrow> nat" where
  "lane_loads len = (len + 3) div 4"

lemma lane_loads_step:
  assumes "off + 4 \<le> len"
  shows "lane_loads (len - off) = Suc (lane_loads (len - (off + 4)))"
proof -
  define x where "x = len - (off + 4) + 3"
  have e: "len - off + 3 = x + 4" using assms by (simp add: x_def)
  have "(x + 4) div 4 = Suc (x div 4)" by simp
  then show ?thesis unfolding lane_loads_def e x_def [symmetric] .
qed

lemma lane_loads_count: "snd (out_lanes seen len k off) = k + lane_loads (len - off)"
proof (induction seen len k off rule: out_lanes.induct)
  case (1 seen len k off)
  show ?case
  proof (cases "off + 4 \<le> len")
    case True
    then have "lane_loads (len - off) = Suc (lane_loads (len - (off + 4)))"
      by (rule lane_loads_step)
    moreover obtain tl' n where r: "out_lanes seen len (Suc k) (off + 4) = (tl', n)" by fastforce
    have "n = Suc k + lane_loads (len - (off + 4))" using 1 [OF True] unfolding r by simp
    moreover have "snd (out_lanes seen len k off) = n"
      using True r out_lanes.simps [of seen len k off] by simp
    ultimately show ?thesis by linarith
  next
    case False
    moreover have "lane_loads (len - off) = (if off < len then 1 else 0)"
      using False unfolding lane_loads_def by auto
    ultimately show ?thesis using out_lanes.simps [of seen len k off] by simp
  qed
qed

lemma out_lanes_present:
  assumes "\<And>j o' bs. k \<le> j \<Longrightarrow> j < k + lane_loads (length src - off) \<Longrightarrow> (o', bs) \<in> set (in_lanes src off)
      \<Longrightarrow> get o' 4 (seen j) = bs"
  shows "fst (out_lanes seen (length src) k off) = drop off src"
  using assms
proof (induction seen "length src" k off rule: out_lanes.induct)
  case (1 seen k off)
  show ?case
  proof (cases "off + 4 \<le> length src")
    case True
    have n: "lane_loads (length src - off) = Suc (lane_loads (length src - (off + 4)))"
      using True by (rule lane_loads_step)
    have lanes: "in_lanes src off = (off, get off 4 src) # in_lanes src (off + 4)"
      using True in_lanes.simps [of src off] by simp
    have "get off 4 (seen k) = get off 4 src"
      by (rule "1.prems" [of k]) (simp_all add: n lanes)
    moreover have "fst (out_lanes seen (length src) (Suc k) (off + 4)) = drop (off + 4) src"
      by (rule "1.hyps" [OF True]) (rule "1.prems"; simp add: n lanes)
    moreover have "drop off src = get off 4 src @ drop (off + 4) src"
      by (metis append_take_drop_id drop_drop get_def add.commute)
    ultimately show ?thesis
      using True out_lanes.simps [of seen "length src" k off] by (auto split: prod.splits)
  next
    case False
    show ?thesis
    proof (cases "off < length src")
      case True
      let ?b = "get off (length src - off) src"
      have "get off 4 (seen k) = put 0 ?b (replicate 4 0)"
        using False True in_lanes.simps [of src off]
        by (intro "1.prems" [of k]) (simp_all add: lane_loads_def)
      moreover have "length ?b = length src - off" by (simp add: get_def)
      ultimately have "take (length src - off) (get off 4 (seen k)) = ?b" by (simp add: put_def)
      moreover have "?b = drop off src" by (simp add: get_def)
      ultimately show ?thesis
        using True False out_lanes.simps [of seen "length src" k off] by simp
    next
      case False
      then show ?thesis using out_lanes.simps [of seen "length src" k off] by simp
    qed
  qed
qed

end
