(* ===== verification/Byte_History.thy ===== *)
theory Byte_History
  imports Byte_Frames Lossy_History
begin

text \<open>
  The contract between the producer of a lossy byte ring and its readers, as a
  locale over histories: \<open>mem r t\<close> is the shared memory of run \<open>r\<close> after \<open>t\<close> atomic
  stores. The laws are the three-counter protocol: a frame that is committed stays
  in the buffer until the declared intent passes it by a capacity. Every fact about
  the reader is proved here once, for any interleaving of its loads with the stores.
\<close>

section \<open>Words\<close>

lemma unat_BB_HEADER: "unat BB_HEADER = 4"
  by (simp add: BB_HEADER_def)

definition legal_length :: "nat \<Rightarrow> nat \<Rightarrow> bool" where
  "legal_length cap len \<longleftrightarrow> len \<le> min (cap div 8) (2 ^ 32 - 2)"

lemma unat_bb_record_len:
  assumes "unat len + 11 < word_span"
  shows "unat (bb_record_len len) = rlen8 (unat len)"
proof -
  have a: "BB_ALIGN - 1 = mask 3" by (simp add: BB_ALIGN_def mask_eq_decr_exp)
  have "unat (11 :: usize) = 11" by (rule unat_numeral_span) (simp add: word_span_def)
  then have "unat (11 + len) = unat len + 11"
    using unat_add_span [of 11 len] assms by (simp add: add.commute)
  moreover have "BB_HEADER + len + mask 3 = 11 + len"
    by (simp add: BB_HEADER_def mask_eq_decr_exp)
  ultimately show ?thesis
    by (simp only: bb_record_len_def bb_align_up_def a unat_and_not_mask rlen8_def) simp
qed

lemma unat_bb_max: "unat (bb_max_message_len capacity) = min (unat capacity div 8) (2 ^ 32 - 2)"
proof -
  have "(ucast (BB_PADDING - 1) :: usize) = 4294967294" by (simp add: BB_PADDING_def)
  moreover have "unat (4294967294 :: usize) = 4294967294"
    by (rule unat_numeral_span) (simp add: word_span_def)
  ultimately have h: "unat (ucast (BB_PADDING - 1) :: usize) = 2 ^ 32 - 2" by simp
  have c: "unat (capacity div 8) = unat capacity div 8" by (simp add: unat_div)
  have lt: "capacity div 8 < ucast (BB_PADDING - 1) \<longleftrightarrow> unat capacity div 8 < 2 ^ 32 - 2"
    unfolding word_less_nat_alt h c ..
  show ?thesis
  proof (cases "unat capacity div 8 < 2 ^ 32 - 2")
    case True
    then show ?thesis unfolding bb_max_message_len_def Let_def lt by (simp only: if_True c min_def less_imp_le)
  next
    case False
    then show ?thesis unfolding bb_max_message_len_def Let_def lt by (simp only: if_False h)
  qed
qed

lemma legal_bb_max: "legal_length (capacity_of m) len \<longleftrightarrow> len \<le> unat (bb_max_message_len (m + 1))"
  unfolding legal_length_def unat_bb_max capacity_of_def ..

lemma legal_fits:
  assumes "8 dvd cap" and "0 < cap" and "legal_length cap len"
  shows "rlen8 len \<le> cap"
proof -
  obtain c where c: "cap = 8 * c" "1 \<le> c" using assms(1,2) by (elim dvdE) auto
  then have "len \<le> c" using assms(3) by (simp add: legal_length_def)
  moreover have "(c + 1) * 8 = 8 * c + 8" by simp
  ultimately have "len + 11 < (c + 1) * 8" using c(2) by linarith
  then have "(len + 11) div 8 < c + 1" by (rule less_mult_imp_div_less)
  then show ?thesis unfolding rlen8_def c(1) by simp
qed

lemma legal_span:
  assumes "valid_mask m" and "legal_length (capacity_of m) len"
  shows "unat (of_nat len :: u64) = len" and "unat (bb_record_len (of_nat len)) = rlen8 len"
proof -
  have "len \<le> 2 ^ 32 - 2" using assms(2) by (simp add: legal_length_def)
  then have l: "len + 11 < word_span" by (simp add: word_span_def)
  then show a: "unat (of_nat len :: u64) = len" by (intro unat_of_nat_span) linarith
  show "unat (bb_record_len (of_nat len)) = rlen8 len"
    using unat_bb_record_len [of "of_nat len"] l unfolding a by blast
qed

lemma header_word:
  assumes "len \<le> 2 ^ 32 - 2"
  shows "(of_nat len :: u32) \<noteq> BB_PADDING" and "(ucast (of_nat len :: u32) :: u64) = of_nat len"
proof -
  have l: "len < 2 ^ 32" using assms by simp
  then have u: "unat (of_nat len :: u32) = len" by (simp add: unat_of_nat)
  have "unat BB_PADDING = 2 ^ 32 - 1"
    by (simp add: BB_PADDING_def unsigned_minus_1_eq_mask mask_eq_exp_minus_1)
  then show "(of_nat len :: u32) \<noteq> BB_PADDING" using u assms by auto
  have "unat (ucast (of_nat len :: u32) :: u64) = unat (of_nat len :: u32)"
    using l by (simp add: unsigned_ucast_eq u take_bit_nat_eq_self_iff)
  moreover have "unat (of_nat len :: u64) = len"
    using l by (intro unat_of_nat_span) (simp add: word_span_def)
  ultimately show "(ucast (of_nat len :: u32) :: u64) = of_nat len" using u by (simp add: word_unat_eq_iff)
qed

text \<open>The window check of a reader at \<open>pos\<close>.\<close>

lemma lap_word:
  assumes "pos \<le> intent"
  shows "intent - pos > m + 1 \<longleftrightarrow> unat pos + capacity_of m < unat intent"
proof -
  have "unat (intent - pos) = unat intent - unat pos" using assms by (rule unat_sub)
  then show ?thesis
    using assms unfolding word_less_nat_alt word_le_nat_alt capacity_of_def by linarith
qed

lemma to_end_unat:
  assumes "valid_mask m" and "off < capacity_of m"
  shows "unat (m + 1 - of_nat off :: u64) = capacity_of m - off"
proof -
  have u: "unat (of_nat off :: u64) = off"
    using assms(2) capacity_less [OF assms(1)] by (intro unat_of_nat_span) linarith
  have "unat (of_nat off :: u64) \<le> unat (m + 1)"
    unfolding u capacity_of_def [symmetric] using assms(2) by (rule less_imp_le)
  then have "(of_nat off :: u64) \<le> m + 1" by (simp only: word_le_nat_alt)
  then have "unat (m + 1 - of_nat off :: u64) = unat (m + 1) - unat (of_nat off :: u64)" by (rule unat_sub)
  then show ?thesis unfolding u capacity_of_def [symmetric] .
qed

section \<open>The abstract reader\<close>

text \<open>
  \<open>byte_replay cap ms e pos evs\<close> follows the reports of a reader that stands at
  position \<open>pos\<close> of the stream \<open>ms\<close>; no close happens before position \<open>e\<close>. \<open>None\<close> when a
  report is false of it.
\<close>

definition frame_index :: "nat \<Rightarrow> u8 list list \<Rightarrow> nat \<Rightarrow> nat option" where
  "frame_index cap ms pos =
     find (\<lambda>k. pos = frame_at cap ms k \<or> pos = rec_at cap ms k) [0..<length ms]"

fun byte_replay :: "nat \<Rightarrow> u8 list list \<Rightarrow> nat \<Rightarrow> nat \<Rightarrow> u8 list lossy_event list \<Rightarrow> nat option" where
  "byte_replay cap ms e pos [] = Some pos"
| "byte_replay cap ms e pos (Got v # evs) =
     (case frame_index cap ms pos of
        None \<Rightarrow> None
      | Some k \<Rightarrow> if ms ! k = v then byte_replay cap ms e (frame_at cap ms (Suc k)) evs else None)"
| "byte_replay cap ms e pos (Missed m # evs) =
     (if boundary cap ms (pos + m) then byte_replay cap ms e (pos + m) evs else None)"
| "byte_replay cap ms e pos (Skipped m # evs) =
     (if boundary cap ms (pos + m) then byte_replay cap ms e (pos + m) evs else None)"
| "byte_replay cap ms e pos (Nothing # evs) = byte_replay cap ms e pos evs"
| "byte_replay cap ms e pos (Ended # evs) = (if e \<le> pos then byte_replay cap ms e pos evs else None)"

lemma frame_index_at:
  assumes "k < length ms" and "pos = frame_at cap ms k \<or> pos = rec_at cap ms k"
  shows "frame_index cap ms pos = Some k"
proof -
  have uniq: "j = k" if "pos = frame_at cap ms j \<or> pos = rec_at cap ms j" for j
  proof (rule ccontr)
    have in_frame: "frame_at cap ms i \<le> pos \<and> pos < frame_at cap ms (Suc i)"
      if "pos = frame_at cap ms i \<or> pos = rec_at cap ms i" for i
      using that rec_at_ge [of cap ms i] rec_at_less [of cap ms i] by auto
    assume "j \<noteq> k"
    then have "Suc j \<le> k \<or> Suc k \<le> j" by linarith
    then have "frame_at cap ms (Suc j) \<le> frame_at cap ms k \<or> frame_at cap ms (Suc k) \<le> frame_at cap ms j"
      using frame_at_mono by blast
    then show False using in_frame [OF that] in_frame [OF assms(2)] by linarith
  qed
  have "\<forall>j<k. \<not> (pos = frame_at cap ms j \<or> pos = rec_at cap ms j)" using uniq by blast
  then show ?thesis
    unfolding frame_index_def find_Some_iff
    by (intro exI [of _ k] conjI) (use assms in simp_all)
qed

lemma in_frame:
  assumes "pos = frame_at cap ms i \<or> pos = rec_at cap ms i"
  shows "frame_at cap ms i \<le> pos" and "pos < frame_at cap ms (Suc i)"
  using assms rec_at_ge [of cap ms i] rec_at_less [of cap ms i] by auto

lemma frame_indexD:
  assumes "frame_index cap ms pos = Some j"
  shows "j < length ms" and "pos = frame_at cap ms j \<or> pos = rec_at cap ms j"
proof -
  have "j \<in> set [0..<length ms] \<and> (pos = frame_at cap ms j \<or> pos = rec_at cap ms j)"
    using assms unfolding frame_index_def find_Some_iff by (metis nth_mem)
  then show "j < length ms" "pos = frame_at cap ms j \<or> pos = rec_at cap ms j" by simp_all
qed

text \<open>What a reader gets is a subsequence of the stream, and a segment of it when nothing was lost.\<close>

lemma byte_replay_subseq:
  "byte_replay cap ms e pos evs = Some pos' \<Longrightarrow> frame_at cap ms k \<le> pos \<Longrightarrow> subseq (got evs) (drop k ms)"
proof (induction cap ms e pos evs arbitrary: k rule: byte_replay.induct)
  case (2 cap ms e pos v evs)
  obtain j where j: "frame_index cap ms pos = Some j" "ms ! j = v"
    "byte_replay cap ms e (frame_at cap ms (Suc j)) evs = Some pos'"
    using 2(2) by (auto split: option.splits if_splits)
  note J = frame_indexD [OF j(1)]
  have "k \<le> j"
  proof (rule ccontr)
    assume "\<not> k \<le> j"
    then have "frame_at cap ms (Suc j) \<le> frame_at cap ms k" by (intro frame_at_mono) simp
    then show False using 2(3) in_frame(2) [OF J(2)] by linarith
  qed
  have "subseq (got evs) (drop (Suc j) ms)" by (rule 2(1) [OF j(1,2,3) order_refl])
  then have "subseq (v # got evs) (drop j ms)"
    unfolding Cons_nth_drop_Suc [OF J(1), symmetric] j(2) by simp
  moreover have "drop j ms = drop (j - k) (drop k ms)" using \<open>k \<le> j\<close> by simp
  ultimately have "subseq (v # got evs) (drop k ms)"
    using list_emb_append2 [of "(=)" "v # got evs" "drop (j - k) (drop k ms)" "take (j - k) (drop k ms)"]
    by (simp only: append_take_drop_id)
  then show ?case by simp
qed (auto split: if_splits)

lemma byte_replay_segment:
  "byte_replay cap ms e pos evs = Some pos' \<Longrightarrow> lost evs = 0
   \<Longrightarrow> pos = frame_at cap ms k \<or> (k < length ms \<and> pos = rec_at cap ms k)
   \<Longrightarrow> got evs = take (length (got evs)) (drop k ms)"
proof (induction cap ms e pos evs arbitrary: k rule: byte_replay.induct)
  case (2 cap ms e pos v evs)
  obtain j where j: "frame_index cap ms pos = Some j" "ms ! j = v"
    "byte_replay cap ms e (frame_at cap ms (Suc j)) evs = Some pos'"
    using 2(2) by (auto split: option.splits if_splits)
  note J = frame_indexD [OF j(1)]
  have at: "pos = frame_at cap ms k \<or> pos = rec_at cap ms k" using 2(4) by blast
  have "j = k"
  proof (rule ccontr)
    assume "j \<noteq> k"
    then have "Suc j \<le> k \<or> Suc k \<le> j" by linarith
    then have "frame_at cap ms (Suc j) \<le> frame_at cap ms k \<or> frame_at cap ms (Suc k) \<le> frame_at cap ms j"
      using frame_at_mono by blast
    then show False using in_frame [OF J(2)] in_frame [OF at] by linarith
  qed
  have "got evs = take (length (got evs)) (drop (Suc j) ms)"
    by (rule 2(1) [OF j(1,2,3)]) (use 2(3) in simp_all)
  moreover have "drop k ms = v # drop (Suc j) ms"
    using Cons_nth_drop_Suc [OF J(1)] j(2) unfolding \<open>j = k\<close> by simp
  ultimately show ?case by simp
qed (auto split: if_splits)

datatype byte_op = Byte_try_pop | Byte_skip | Byte_lag

fun byte_exec ::
  "(nat \<Rightarrow> bbytes_shared) \<Rightarrow> byte_op \<Rightarrow> nat \<Rightarrow> bb_consumer
     \<Rightarrow> (fault + u8 list lossy_event \<times> nat \<times> bb_consumer) option" where
  "byte_exec seen Byte_try_pop n c =
     map_option (map_sum id (\<lambda>(r, n1, c1).
        ((case r of
            Inl (Bb_lagged m) \<Rightarrow> Missed (unat m)
          | Inl Bb_closed \<Rightarrow> Ended
          | Inr None \<Rightarrow> Nothing
          | Inr (Some v) \<Rightarrow> Got v), n1, c1)))
       (bb_try_pop seen n c)"
| "byte_exec seen Byte_skip n c =
     (case bb_skip_to_latest seen n c of (m, n1, c1) \<Rightarrow> Some (Inr (Skipped (unat m), n1, c1)))"
| "byte_exec seen Byte_lag n c = (case bb_lag seen n c of (_, n1) \<Rightarrow> Some (Inr (Nothing, n1, c)))"

fun byte_run ::
  "(nat \<Rightarrow> bbytes_shared) \<Rightarrow> byte_op list \<Rightarrow> nat \<Rightarrow> bb_consumer
     \<Rightarrow> (fault + u8 list lossy_event list \<times> nat \<times> bb_consumer) option" where
  "byte_run seen [] n c = Some (Inr ([], n, c))"
| "byte_run seen (x # ops) n c =
     Option.bind (byte_exec seen x n c) (\<lambda>res. case res of
        Inl f \<Rightarrow> Some (Inl f)
      | Inr (ev, n1, c1) \<Rightarrow>
          map_option (map_sum id (\<lambda>(evs, n2, c2). (ev # evs, n2, c2))) (byte_run seen ops n1 c1))"

lemma byte_run_skips:
  "byte_run seen ops n c = Some (Inr (evs, n1, c1)) \<Longrightarrow> Byte_skip \<notin> set ops \<Longrightarrow> \<forall>m. Skipped m \<notin> set evs"
proof (induction ops arbitrary: n c evs)
  case (Cons x ops)
  obtain res where res: "byte_exec seen x n c = Some res" using Cons.prems(1) by (auto simp: bind_eq_Some_conv)
  obtain ev n2 c2 where r1: "res = Inr (ev, n2, c2)" using Cons.prems(1) res by (cases res) auto
  obtain rest where rest: "byte_run seen ops n2 c2 = Some rest" using Cons.prems(1) res r1 by auto
  obtain evs' n3 c3 where r2: "rest = Inr (evs', n3, c3)" using Cons.prems(1) res r1 rest by (cases rest) auto
  have 1: "byte_exec seen x n c = Some (Inr (ev, n2, c2))"
    "byte_run seen ops n2 c2 = Some (Inr (evs', n1, c1))" "evs = ev # evs'"
    using Cons.prems(1) res r1 rest r2 by auto
  have "ev \<noteq> Skipped m" for m
  proof (cases x)
    case Byte_try_pop
    then obtain z where "bb_try_pop seen n c = Some z" using 1(1) by auto
    then show ?thesis
      using 1(1) Byte_try_pop by (cases z) (auto split: sum.splits option.splits bytes_pop_error.splits)
  qed (use 1(1) Cons.prems(2) in \<open>auto simp: bb_lag_def\<close>)
  then show ?case using Cons.IH [OF 1(2)] 1(3) Cons.prems(2) by auto
qed simp

lemma nothing_lost: "\<forall>m. Missed m \<notin> set evs \<Longrightarrow> \<forall>m. Skipped m \<notin> set evs \<Longrightarrow> lost evs = 0"
  by (induction evs rule: lost.induct) auto

section \<open>The contract\<close>

locale byte_history =
  fixes ok :: "'r \<Rightarrow> bool"
    and mk :: "'r \<Rightarrow> u64"
    and msgs :: "'r \<Rightarrow> u8 list list"
    and mem :: "'r \<Rightarrow> nat \<Rightarrow> bbytes_shared"
    and ends :: "'r \<Rightarrow> nat"
  assumes mask: "ok r \<Longrightarrow> valid_mask (mk r)"
    and capacity_aligned: "ok r \<Longrightarrow> 8 dvd capacity_of (mk r)"
    and legal: "ok r \<Longrightarrow> v \<in> set (msgs r) \<Longrightarrow> legal_length (capacity_of (mk r)) (length v)"
    and span: "ok r \<Longrightarrow> stream_end (capacity_of (mk r)) (msgs r) + capacity_of (mk r) < word_span"
    and buffer: "ok r \<Longrightarrow> length (bb_buf (mem r t)) = capacity_of (mk r)"
    and tail_mono: "ok r \<Longrightarrow> t \<le> t' \<Longrightarrow> bb_tail (mem r t) \<le> bb_tail (mem r t')"
    and intent_mono: "ok r \<Longrightarrow> t \<le> t' \<Longrightarrow> bb_intent (mem r t) \<le> bb_intent (mem r t')"
    and tail_intent: "ok r \<Longrightarrow> bb_tail (mem r t) \<le> bb_intent (mem r t)"
    and tail_frame: "ok r \<Longrightarrow>
      \<exists>j\<le>length (msgs r). unat (bb_tail (mem r t)) = frame_at (capacity_of (mk r)) (msgs r) j"
    and latest_start: "ok r \<Longrightarrow>
      boundary (capacity_of (mk r)) (msgs r) (unat (bb_latest (mem r t)))"
    and kept: "ok r \<Longrightarrow> k < length (msgs r) \<Longrightarrow>
      frame_at (capacity_of (mk r)) (msgs r) (Suc k) \<le> unat (bb_tail (mem r t)) \<Longrightarrow>
      (q, bs) \<in> set (frame_lanes (capacity_of (mk r)) (msgs r) k) \<Longrightarrow>
      unat (bb_intent (mem r t)) \<le> q + capacity_of (mk r) \<Longrightarrow>
      get (q mod capacity_of (mk r)) 4 (bb_buf (mem r t)) = bs"
    and ended: "ok r \<Longrightarrow> bb_closed (mem r t) \<noteq> 0 \<Longrightarrow> ends r \<le> unat (bb_tail (mem r t))"
begin

definition reader_ok where
  "reader_ok r t c \<longleftrightarrow> bbc_mask c = mk r \<and> bbc_tail_cache c \<le> bb_tail (mem r t)
     \<and> boundary (capacity_of (mk r)) (msgs r) (unat (bbc_pos c))"

definition seen_at where
  "seen_at r clk k = mem r (clk k)"

text \<open>The declared intent has not passed the reader by a capacity at its \<open>n\<close>-th load.\<close>

definition intact where
  "intact r clk pos n \<longleftrightarrow> unat (bb_intent (mem r (clk n))) \<le> pos + capacity_of (mk r)"

lemma cap_pos: "ok r \<Longrightarrow> 0 < capacity_of (mk r)"
  using mask capacity_pos by blast

lemma intact_before: "ok r \<Longrightarrow> mono clk \<Longrightarrow> i \<le> n \<Longrightarrow> intact r clk pos n \<Longrightarrow> intact r clk pos i"
  using intent_mono [of r "clk i" "clk n"] monoD [of clk i n]
  unfolding intact_def word_le_nat_alt by (meson order_trans)

lemma reader_later: "ok r \<Longrightarrow> reader_ok r t c \<Longrightarrow> t \<le> t' \<Longrightarrow> reader_ok r t' c"
  using tail_mono [of r t t'] unfolding reader_ok_def by fastforce

lemma tail_boundary:
  assumes "ok r"
  shows "boundary (capacity_of (mk r)) (msgs r) (unat (bb_tail (mem r t)))"
proof -
  obtain j where "j \<le> length (msgs r)" "unat (bb_tail (mem r t)) = frame_at (capacity_of (mk r)) (msgs r) j"
    using tail_frame [OF assms] by blast
  then show ?thesis unfolding boundary_def stream_end_def using le_neq_implies_less by blast
qed

lemma subscribed:
  assumes "ok r" and "bb_mask (mem r t) = mk r"
  shows "reader_ok r t (bb_subscribe_from (mem r t))"
  using assms tail_boundary [OF assms(1)] by (simp add: reader_ok_def bb_subscribe_from_def Let_def)

lemma refreshed:
  assumes "ok r" and "mono clk" and "reader_ok r (clk n) c"
    and "bb_refresh (seen_at r clk) n c = (tv, n1, c1)"
  shows "n1 = Suc n" and "tv = bb_tail (mem r (clk n))" and "c1 = c\<lparr>bbc_tail_cache := tv\<rparr>"
    and "reader_ok r (clk n1) c1"
proof -
  have eq: "tv = bb_tail (mem r (clk n))" "n1 = Suc n" "c1 = c\<lparr>bbc_tail_cache := tv\<rparr>"
    using assms(4) by (auto simp: bb_refresh_def seen_at_def)
  have "reader_ok r (clk n) c1" using assms(3) by (simp add: reader_ok_def eq)
  moreover have "clk n \<le> clk (Suc n)" using assms(2) by (simp add: monoD)
  ultimately show "reader_ok r (clk n1) c1" using reader_later [OF assms(1)] eq by blast
  show "n1 = Suc n" "tv = bb_tail (mem r (clk n))" "c1 = c\<lparr>bbc_tail_cache := tv\<rparr>" using eq by simp_all
qed

text \<open>The exact loss of a reposition.\<close>

lemma repositioned:
  assumes "ok r" and "mono clk" and "reader_ok r (clk n) c"
    and "bb_reposition (seen_at r clk) n c = (m, n1, c1)"
  shows "n1 = n + 2" and "reader_ok r (clk n1) c1"
    and "unat (bbc_pos c1) = unat (bbc_pos c) + unat m"
    and "bbc_pos c1 = max (bb_latest (mem r (clk (n + 1)))) (bbc_pos c)"
proof -
  obtain tv n2 c2 where ref: "bb_refresh (seen_at r clk) n c = (tv, n2, c2)" by (metis prod_cases3)
  note R = refreshed [OF assms(1-3) ref]
  define p where "p = max (bb_latest (mem r (clk n2))) (bbc_pos c)"
  have eq: "m = p - bbc_pos c" "n1 = Suc n2" "c1 = c2\<lparr>bbc_pos := p\<rparr>"
    using assms(4) ref R(3) by (auto simp: bb_reposition_def p_def Let_def seen_at_def)
  have bp: "boundary (capacity_of (mk r)) (msgs r) (unat p)"
    using latest_start [OF assms(1), of "clk n2"] assms(3) by (auto simp: p_def max_def reader_ok_def)
  have "clk n2 \<le> clk n1" using assms(2) eq(2) by (simp add: monoD)
  then show "reader_ok r (clk n1) c1"
    using reader_later [OF assms(1) R(4)] bp eq(3) by (simp add: reader_ok_def)
  show "n1 = n + 2" using eq(2) R(1) by simp
  have "bbc_pos c \<le> p" by (simp add: p_def)
  then show "unat (bbc_pos c1) = unat (bbc_pos c) + unat m"
    using eq by (simp add: unat_sub word_le_nat_alt)
  show "bbc_pos c1 = max (bb_latest (mem r (clk (n + 1)))) (bbc_pos c)"
    using eq(3) R(1) by (simp add: p_def)
qed

section \<open>Reading a record\<close>

text \<open>
  \<open>facing r clk k n0 c\<close>: the reader stands at frame \<open>k\<close>, committed when it makes its
  load \<open>n0\<close>.
\<close>

definition facing where
  "facing r clk k n0 c \<longleftrightarrow> reader_ok r (clk n0) c \<and> k < length (msgs r)
     \<and> frame_at (capacity_of (mk r)) (msgs r) (Suc k) \<le> unat (bb_tail (mem r (clk n0)))
     \<and> (unat (bbc_pos c) = frame_at (capacity_of (mk r)) (msgs r) k
         \<or> unat (bbc_pos c) = rec_at (capacity_of (mk r)) (msgs r) k)"

definition read_outcome where
  "read_outcome r clk k n c res \<longleftrightarrow> (\<exists>n1 c1. n < n1 \<and> reader_ok r (clk n1) c1
     \<and> (res = Inr (Inr (), msgs r ! k, n1, c1)
          \<and> unat (bbc_pos c1) = frame_at (capacity_of (mk r)) (msgs r) (Suc k)
        \<or> (\<exists>m out. res = Inr (Inl (Bb_lagged m), out, n1, c1)
            \<and> unat (bbc_pos c1) = unat (bbc_pos c) + unat m
            \<and> bbc_pos c1 = max (bb_latest (mem r (clk (n1 - 1)))) (bbc_pos c)
            \<and> \<not> intact r clk (unat (bbc_pos c)) n1)))"

lemma facing_later: "ok r \<Longrightarrow> mono clk \<Longrightarrow> n0 \<le> n \<Longrightarrow> facing r clk k n0 c \<Longrightarrow> facing r clk k n c"
  using reader_later [of r "clk n0" c "clk n"] tail_mono [of r "clk n0" "clk n"] monoD [of clk n0 n]
  unfolding facing_def word_le_nat_alt by (meson order_trans)

lemma facing_bounds:
  assumes "ok r" and "facing r clk k n c"
  shows "rec_at (capacity_of (mk r)) (msgs r) k < word_span"
    and "frame_at (capacity_of (mk r)) (msgs r) (Suc k) < word_span"
    and "bbc_pos c < bb_tail (mem r (clk n))" and "bbc_pos c \<le> bb_intent (mem r (clk n))"
    and "legal_length (capacity_of (mk r)) (length (msgs r ! k))"
    and "unat (bbc_pos c) \<le> rec_at (capacity_of (mk r)) (msgs r) k"
    and "8 dvd unat (bbc_pos c)"
proof -
  let ?f = "frame_at (capacity_of (mk r)) (msgs r)" and ?rec = "rec_at (capacity_of (mk r)) (msgs r) k"
  have k: "k < length (msgs r)" using assms(2) by (simp add: facing_def)
  have "?f (Suc k) \<le> stream_end (capacity_of (mk r)) (msgs r)"
    unfolding stream_end_def by (rule frame_at_mono) (use k in simp)
  then show f: "?f (Suc k) < word_span" using span [OF assms(1)] by linarith
  have rl: "?rec < ?f (Suc k)" using rec_at_less [of "capacity_of (mk r)" "msgs r" k] by linarith
  then show "?rec < word_span" using f by linarith
  show le: "unat (bbc_pos c) \<le> ?rec"
    using assms(2) rec_at_ge [of "capacity_of (mk r)" "msgs r" k] by (auto simp: facing_def)
  have "unat (bbc_pos c) < unat (bb_tail (mem r (clk n)))"
    using le rl assms(2) unfolding facing_def by linarith
  then show tl: "bbc_pos c < bb_tail (mem r (clk n))" by (simp add: word_less_nat_alt)
  then show "bbc_pos c \<le> bb_intent (mem r (clk n))" using tail_intent [OF assms(1), of "clk n"] by simp
  show "legal_length (capacity_of (mk r)) (length (msgs r ! k))" using legal [OF assms(1)] k by simp
  show "8 dvd unat (bbc_pos c)"
    using frame_aligned [OF capacity_aligned [OF assms(1)] cap_pos [OF assms(1)], of "msgs r" k] assms(2)
    by (auto simp: facing_def)
qed

lemma window_check:
  assumes "ok r" and "facing r clk k n c"
  shows "bb_intent (seen_at r clk n) - bbc_pos c > mk r + 1 \<longleftrightarrow> \<not> intact r clk (unat (bbc_pos c)) n"
  using lap_word [OF facing_bounds(4) [OF assms], of "mk r"] by (simp add: seen_at_def intact_def not_le)

lemma lane_here:
  assumes "ok r" and "facing r clk k n c" and "intact r clk (unat (bbc_pos c)) n"
    and "(q, bs) \<in> set (frame_lanes (capacity_of (mk r)) (msgs r) k)" and "unat (bbc_pos c) \<le> q"
  shows "get (q mod capacity_of (mk r)) 4 (bb_buf (seen_at r clk n)) = bs"
  unfolding seen_at_def
  by (rule kept [OF assms(1) _ _ assms(4)]) (use assms(2,3,5) in \<open>auto simp: facing_def intact_def\<close>)

lemma lane_in_buffer:
  assumes "ok r" and "4 dvd off" and "off < capacity_of (mk r)"
  shows "load_lane off (bb_buf (seen_at r clk n)) = Inr (u32_of_bytes (get off 4 (bb_buf (seen_at r clk n))))"
proof -
  have "4 dvd capacity_of (mk r)" using dvd_trans [OF _ capacity_aligned [OF assms(1)], of 4] by simp
  then have "off + 4 \<le> capacity_of (mk r)" using assms(2,3) by (elim dvdE) auto
  moreover have "off mod 4 = 0" using assms(2) by (rule dvd_imp_mod_0)
  ultimately show ?thesis by (simp add: load_lane_def seen_at_def buffer [OF assms(1)])
qed

lemma lagged:
  assumes "ok r" and "mono clk" and "facing r clk k n c" and "\<not> intact r clk (unat (bbc_pos c)) i"
    and "i \<le> n + 2" and "n0 \<le> n"
  shows "read_outcome r clk k n0 c (Inr (bb_lag_result (seen_at r clk) out n c))"
proof -
  obtain m n1 c1 where rp: "bb_reposition (seen_at r clk) n c = (m, n1, c1)" by (metis prod_cases3)
  have ro: "reader_ok r (clk n) c" using assms(3) by (simp add: facing_def)
  note R = repositioned [OF assms(1,2) ro rp]
  have "\<not> intact r clk (unat (bbc_pos c)) n1"
    using intact_before [OF assms(1,2), of i n1] assms(4,5) R(1) by blast
  moreover have "n1 - 1 = n + 1" using R(1) by simp
  ultimately show ?thesis
    unfolding read_outcome_def bb_lag_result_def rp
    by (intro exI [of _ n1] exI [of _ c1]) (use R assms(6) in simp)
qed

text \<open>A header that is not to be trusted leads to a reposition, and never off the buffer.\<close>

lemma torn_payload:
  assumes "ok r" and "mono clk" and "facing r clk k n c" and "\<not> intact r clk (unat (bbc_pos c)) n"
    and "off < capacity_of (mk r)" and "n0 \<le> n"
  shows "\<exists>res. bb_read_payload (seen_at r clk) (bbc_pos c) cursor off len out n c = res
    \<and> read_outcome r clk k n0 c res"
proof -
  have mk: "bbc_mask c = mk r" using assms(3) by (simp add: facing_def reader_ok_def)
  have lag: "read_outcome r clk k n0 c (Inr (bb_lag_result (seen_at r clk) out' j c))" if "n \<le> j" for out' j
    by (rule lagged [OF assms(1,2) facing_later [OF assms(1,2) that assms(3)] assms(4)])
      (use that assms(6) in simp_all)
  define bm where "bm = copy_out_lanes (\<lambda>k'. drop (off + unat BB_HEADER) (bb_buf (seen_at r clk (n + k')))) (unat len)"
  obtain bytes m where bm': "bm = (bytes, m)" by fastforce
  have late: "mk r + 1 < bb_intent (seen_at r clk (n + m)) - bbc_pos c"
    using window_check [OF assms(1) facing_later [OF assms(1,2) _ assms(3)], of "n + m"]
      intact_before [OF assms(1,2), of n "n + m"] assms(4) by fastforce
  have room: "off + unat (bb_record_len len) \<le> length (bb_buf (seen_at r clk n))"
    if "\<not> bb_record_len len > mk r + 1 - of_nat off"
  proof -
    have "unat (mk r + 1 - of_nat off) = capacity_of (mk r) - off"
      by (rule to_end_unat [OF mask [OF assms(1)] assms(5)])
    then have "unat (bb_record_len len) \<le> capacity_of (mk r) - off"
      using that by (simp add: word_le_nat_alt not_less)
    then show ?thesis using assms(5) buffer [OF assms(1)] by (simp add: seen_at_def)
  qed
  show ?thesis
    unfolding bb_read_payload_def Let_def bm_def [symmetric] bm' mk
    using lag [of n] lag [of "n + m + 1"] late room by auto
qed

lemma frame_boundary:
  assumes "k < length (msgs r)"
  shows "boundary (capacity_of (mk r)) (msgs r) (frame_at (capacity_of (mk r)) (msgs r) (Suc k))"
proof (cases "Suc k = length (msgs r)")
  case True
  then show ?thesis by (simp add: boundary_def stream_end_def)
next
  case False
  then have "Suc k < length (msgs r)" using assms by simp
  then show ?thesis unfolding boundary_def by blast
qed

lemma genuine_payload:
  assumes "ok r" and "mono clk" and "facing r clk k n c" and "n0 \<le> n"
    and cursor: "unat cursor = rec_at (capacity_of (mk r)) (msgs r) k"
    and off: "off = rec_at (capacity_of (mk r)) (msgs r) k mod capacity_of (mk r)"
  shows "\<exists>res. bb_read_payload (seen_at r clk) (bbc_pos c) cursor off (of_nat (length (msgs r ! k))) out n c = res
    \<and> read_outcome r clk k n0 c res"
proof -
  let ?C = "capacity_of (mk r)" and ?v = "msgs r ! k" and ?len = "of_nat (length (msgs r ! k)) :: u64"
  note B = facing_bounds [OF assms(1,3)]
  note L = legal_span [OF mask [OF assms(1)] B(5)]
  have mk: "bbc_mask c = mk r" using assms(3) by (simp add: facing_def reader_ok_def)
  have fits: "off + rlen8 (length ?v) \<le> ?C"
    unfolding off by (rule rec_fits [OF cap_pos [OF assms(1)]
        legal_fits [OF capacity_aligned [OF assms(1)] cap_pos [OF assms(1)] B(5)]])
  have offl: "off < ?C" using cap_pos [OF assms(1)] by (simp add: off)
  have "unat (mk r + 1 - of_nat off) = ?C - off" by (rule to_end_unat [OF mask [OF assms(1)] offl])
  then have room: "\<not> bb_record_len ?len > mk r + 1 - of_nat off"
    using fits L(2) by (simp add: word_less_nat_alt)
  have short: "\<not> ?len > bb_max_message_len (mk r + 1)"
    using B(5) L(1) legal_bb_max by (simp add: word_less_nat_alt not_less)
  have inb: "\<not> off + unat (bb_record_len ?len) > length (bb_buf (seen_at r clk n))"
    using fits L(2) buffer [OF assms(1)] by (simp add: seen_at_def)
  define bm where "bm = copy_out_lanes (\<lambda>k'. drop (off + unat BB_HEADER) (bb_buf (seen_at r clk (n + k')))) (unat ?len)"
  obtain bytes m where bm': "bm = (bytes, m)" by fastforce
  have m: "m = lane_loads (length ?v)"
    using lane_loads_count [of _ "length ?v" 0 0] bm' unfolding bm_def copy_out_lanes_def L(1)
    by (metis add_0 diff_zero snd_conv)
  have later: "facing r clk k (n + i) c" for i by (rule facing_later [OF assms(1,2) _ assms(3)]) simp
  have run: "bb_read_payload (seen_at r clk) (bbc_pos c) cursor off ?len out n c
    = (if bb_intent (seen_at r clk (n + m)) - bbc_pos c > mk r + 1
       then Inr (bb_lag_result (seen_at r clk) [] (n + m + 1) c)
       else Inr (Inr (), bytes, n + m + 1, c\<lparr>bbc_pos := cursor + bb_record_len ?len\<rparr>))"
    unfolding bb_read_payload_def Let_def bm_def [symmetric] bm' mk using short room inb by simp
  show ?thesis
  proof (cases "intact r clk (unat (bbc_pos c)) (n + m)")
    case False
    have "read_outcome r clk k n0 c (Inr (bb_lag_result (seen_at r clk) [] (n + m + 1) c))"
      by (rule lagged [OF assms(1,2) later [of "m + 1", unfolded add.assoc [symmetric]] False])
        (use assms(4) in linarith)+
    then show ?thesis unfolding run window_check [OF assms(1) later] using False by simp
  next
    case True
    have present: "get o' 4 (drop (off + unat BB_HEADER) (bb_buf (seen_at r clk (n + j)))) = bs"
      if j: "j < lane_loads (length ?v)" and lane: "(o', bs) \<in> set (in_lanes ?v 0)" for j o' bs
    proof -
      have q: "(rec_at ?C (msgs r) k + 4 + o', bs) \<in> set (frame_lanes ?C (msgs r) k)"
        using lane by (force simp: frame_lanes_def copy_in_lanes_def)
      have "intact r clk (unat (bbc_pos c)) (n + j)"
        by (rule intact_before [OF assms(1,2) _ True]) (use j m in simp)
      then have g: "get ((rec_at ?C (msgs r) k + 4 + o') mod ?C) 4 (bb_buf (seen_at r clk (n + j))) = bs"
        using lane_here [OF assms(1) later _ q] B(6) by simp
      have "o' < length ?v" using in_lanes_grid [OF lane] by simp
      then have lt: "off + (4 + o') < ?C" using fits rlen8_bounds(1) [of "length ?v"] by linarith
      have "(rec_at ?C (msgs r) k + 4 + o') mod ?C = (off + (4 + o')) mod ?C"
        unfolding off by (simp add: mod_add_left_eq add.assoc)
      then have "(rec_at ?C (msgs r) k + 4 + o') mod ?C = off + (4 + o')" using lt by simp
      then show ?thesis using g by (simp add: get_def unat_BB_HEADER add.commute add.left_commute)
    qed
    have "bytes = ?v"
    proof -
      have "fst (out_lanes (\<lambda>k'. drop (off + unat BB_HEADER) (bb_buf (seen_at r clk (n + k')))) (length ?v) 0 0)
          = drop 0 ?v"
        by (rule out_lanes_present) (use present in simp)
      then show ?thesis using bm' unfolding bm_def copy_out_lanes_def L(1) by (metis drop0 fst_conv)
    qed
    have np: "unat (cursor + bb_record_len ?len) = frame_at ?C (msgs r) (Suc k)"
      using B(2) unat_add_span [of cursor "bb_record_len ?len"] cursor L(2) by (simp add: frame_at_Suc)
    have "boundary ?C (msgs r) (frame_at ?C (msgs r) (Suc k))"
      by (rule frame_boundary) (use assms(3) in \<open>simp add: facing_def\<close>)
    moreover have "reader_ok r (clk (n + m + 1)) c"
      using later [of "m + 1"] by (simp add: facing_def add.assoc)
    ultimately have ro: "reader_ok r (clk (n + m + 1)) (c\<lparr>bbc_pos := cursor + bb_record_len ?len\<rparr>)"
      using np by (simp add: reader_ok_def)
    have "read_outcome r clk k n0 c (Inr (Inr (), ?v, n + m + 1, c\<lparr>bbc_pos := cursor + bb_record_len ?len\<rparr>))"
      unfolding read_outcome_def
      by (intro exI [of _ "n + m + 1"] exI [of _ "c\<lparr>bbc_pos := cursor + bb_record_len ?len\<rparr>"])
        (use ro np assms(4) in simp)
    then show ?thesis
      unfolding run window_check [OF assms(1) later] using True \<open>bytes = ?v\<close> by simp
  qed
qed

text \<open>The loop at the record, and at a padding record before it.\<close>

lemma at_record:
  assumes "ok r" and "mono clk" and "facing r clk k n c" and "n0 \<le> n"
    and cursor: "unat cursor = rec_at (capacity_of (mk r)) (msgs r) k"
  shows "\<exists>res. bb_read_loop (seen_at r clk) (bbc_pos c) cursor out n c = Some res
    \<and> read_outcome r clk k n0 c res"
proof (cases "intact r clk (unat (bbc_pos c)) n")
  case False
  have "read_outcome r clk k n0 c (Inr (bb_lag_result (seen_at r clk) out (n + 1) c))"
    by (rule lagged [OF assms(1,2) facing_later [OF assms(1,2) _ assms(3)] False]) (use assms(4) in linarith)+
  then show ?thesis
    by (subst bb_read_loop.simps)
      (use assms(3) window_check [OF assms(1,3)] False in \<open>simp add: facing_def reader_ok_def Let_def\<close>)
next
  case True
  let ?C = "capacity_of (mk r)" and ?rec = "rec_at (capacity_of (mk r)) (msgs r) k"
  let ?pos = "unat (bbc_pos c)" and ?off = "?rec mod ?C"
  note B = facing_bounds [OF assms(1,3)]
  have later: "facing r clk k (n + i) c" for i by (rule facing_later [OF assms(1,2) _ assms(3)]) simp
  have mk: "bbc_mask c = mk r" using assms(3) by (simp add: facing_def reader_ok_def)
  have off: "unat (cursor AND mk r) = ?off"
    using slot_ix_mod [OF mask [OF assms(1)], of cursor] by (simp add: slot_ix_def cursor)
  have offl: "?off < ?C" using cap_pos [OF assms(1)] by simp
  have "8 dvd ?rec" using frame_aligned(2) [OF capacity_aligned [OF assms(1)] cap_pos [OF assms(1)]] .
  then have "8 dvd ?off" using capacity_aligned [OF assms(1)] by (simp add: dvd_mod)
  then have off4: "4 dvd ?off" using dvd_trans [of 4 8 ?off] by simp
  define h where "h = u32_of_bytes (get ?off 4 (bb_buf (seen_at r clk (n + 1))))"
  have ld: "load_lane ?off (bb_buf (seen_at r clk (n + 1))) = Inr h"
    unfolding h_def by (rule lane_in_buffer [OF assms(1) off4 offl])
  have run: "bb_read_loop (seen_at r clk) (bbc_pos c) cursor out n c =
      (if h = BB_PADDING
       then (if bb_intent (seen_at r clk (n + 2)) - bbc_pos c > mk r + 1
             then Some (Inr (bb_lag_result (seen_at r clk) out (n + 3) c))
             else bb_read_loop (seen_at r clk) (bbc_pos c) (cursor + (mk r + 1 - of_nat ?off)) out (n + 3) c)
       else Some (bb_read_payload (seen_at r clk) (bbc_pos c) cursor ?off (ucast h) out (n + 2) c))"
    by (subst bb_read_loop.simps)
      (use window_check [OF assms(1,3)] True ld in \<open>simp add: mk off Let_def\<close>)
  show ?thesis
  proof (cases "intact r clk ?pos (n + 1)")
    case True
    have "(?rec, bytes_of_u32 (of_nat (length (msgs r ! k)))) \<in> set (frame_lanes ?C (msgs r) k)"
      by (simp add: frame_lanes_def)
    then have "h = of_nat (length (msgs r ! k))"
      using lane_here [OF assms(1) later [of 1] True _ B(6)] by (simp add: h_def)
    then have "h \<noteq> BB_PADDING" "ucast h = (of_nat (length (msgs r ! k)) :: u64)"
      using header_word [of "length (msgs r ! k)"] B(5) by (simp_all add: legal_length_def)
    then show ?thesis
      unfolding run
      using genuine_payload [OF assms(1,2) later [of 2] _ cursor refl, of n0 out] assms(4) by simp
  next
    case False
    then have late: "\<not> intact r clk ?pos (n + 2)" using intact_before [OF assms(1,2), of "n + 1" "n + 2"] by auto
    have lag: "read_outcome r clk k n0 c (Inr (bb_lag_result (seen_at r clk) out (n + 3) c))"
      by (rule lagged [OF assms(1,2) later [of 3] late]) (use assms(4) in linarith)+
    have "\<exists>res. bb_read_payload (seen_at r clk) (bbc_pos c) cursor ?off (ucast h) out (n + 2) c = res
        \<and> read_outcome r clk k n0 c res"
      by (rule torn_payload [OF assms(1,2) later [of 2] late offl]) (use assms(4) in linarith)
    then show ?thesis
      unfolding run using lag window_check [OF assms(1) later [of 2]] late by auto
  qed
qed

lemma at_padding:
  assumes "ok r" and "mono clk" and "facing r clk k n c"
    and pos: "unat (bbc_pos c) = frame_at (capacity_of (mk r)) (msgs r) k"
    and pad: "rec_at (capacity_of (mk r)) (msgs r) k \<noteq> frame_at (capacity_of (mk r)) (msgs r) k"
  shows "\<exists>res. bb_read_loop (seen_at r clk) (bbc_pos c) (bbc_pos c) out n c = Some res
    \<and> read_outcome r clk k n c res"
proof (cases "intact r clk (unat (bbc_pos c)) n")
  case False
  have "read_outcome r clk k n c (Inr (bb_lag_result (seen_at r clk) out (n + 1) c))"
    by (rule lagged [OF assms(1,2) facing_later [OF assms(1,2) _ assms(3)] False]) linarith+
  then show ?thesis
    by (subst bb_read_loop.simps)
      (use assms(3) window_check [OF assms(1,3)] False in \<open>simp add: facing_def reader_ok_def Let_def\<close>)
next
  case True
  let ?C = "capacity_of (mk r)" and ?pos = "unat (bbc_pos c)"
  let ?off = "?pos mod ?C"
  note B = facing_bounds [OF assms(1,3)]
  have later: "facing r clk k (n + i) c" for i by (rule facing_later [OF assms(1,2) _ assms(3)]) simp
  have mk: "bbc_mask c = mk r" using assms(3) by (simp add: facing_def reader_ok_def)
  have off: "unat (bbc_pos c AND mk r) = ?off"
    using slot_ix_mod [OF mask [OF assms(1)], of "bbc_pos c"] by (simp add: slot_ix_def)
  have offl: "?off < ?C" using cap_pos [OF assms(1)] by simp
  have "8 dvd ?off" using B(7) capacity_aligned [OF assms(1)] by (simp add: dvd_mod)
  then have off4: "4 dvd ?off" using dvd_trans [of 4 8 ?off] by simp
  define h where "h = u32_of_bytes (get ?off 4 (bb_buf (seen_at r clk (n + 1))))"
  have ld: "load_lane ?off (bb_buf (seen_at r clk (n + 1))) = Inr h"
    unfolding h_def by (rule lane_in_buffer [OF assms(1) off4 offl])
  define skip where "skip = bbc_pos c + (mk r + 1 - of_nat ?off)"
  have run: "bb_read_loop (seen_at r clk) (bbc_pos c) (bbc_pos c) out n c =
      (if h = BB_PADDING
       then (if bb_intent (seen_at r clk (n + 2)) - bbc_pos c > mk r + 1
             then Some (Inr (bb_lag_result (seen_at r clk) out (n + 3) c))
             else bb_read_loop (seen_at r clk) (bbc_pos c) skip out (n + 3) c)
       else Some (bb_read_payload (seen_at r clk) (bbc_pos c) (bbc_pos c) ?off (ucast h) out (n + 2) c))"
    by (subst bb_read_loop.simps)
      (use window_check [OF assms(1,3)] True ld in \<open>simp add: mk off Let_def skip_def\<close>)
  have lag: "read_outcome r clk k n c (Inr (bb_lag_result (seen_at r clk) out (n + 3) c))"
    if "\<not> intact r clk ?pos (n + 2)"
    by (rule lagged [OF assms(1,2) later [of 3] that]) linarith+
  show ?thesis
  proof (cases "intact r clk ?pos (n + 1)")
    case True
    have "(?pos, bytes_of_u32 BB_PADDING) \<in> set (frame_lanes ?C (msgs r) k)"
      using pos pad by (simp add: frame_lanes_def)
    then have h: "h = BB_PADDING"
      using lane_here [OF assms(1) later [of 1] True, of ?pos] by (simp add: h_def)
    have "unat (mk r + 1 - of_nat ?off) = ?C - ?off" by (rule to_end_unat [OF mask [OF assms(1)] offl])
    moreover have rec: "rec_at ?C (msgs r) k = ?pos + (?C - ?off)"
      using rec_at_cases [of ?C "msgs r" k] pad unfolding pos by metis
    ultimately have skip: "unat skip = rec_at ?C (msgs r) k"
      unfolding skip_def using unat_add_span [of "bbc_pos c"] B(1) by simp
    show ?thesis
      unfolding run using h lag window_check [OF assms(1) later [of 2]]
        at_record [OF assms(1,2) later [of 3] _ skip, of n out] by auto
  next
    case False
    then have late: "\<not> intact r clk ?pos (n + 2)" using intact_before [OF assms(1,2), of "n + 1" "n + 2"] by auto
    have "\<exists>res. bb_read_payload (seen_at r clk) (bbc_pos c) (bbc_pos c) ?off (ucast h) out (n + 2) c = res
        \<and> read_outcome r clk k n c res"
      by (rule torn_payload [OF assms(1,2) later [of 2] late offl]) linarith
    then show ?thesis
      unfolding run using lag [OF late] window_check [OF assms(1) later [of 2]] late by auto
  qed
qed

section \<open>The calls\<close>

lemma record_read:
  assumes "ok r" and "mono clk" and "reader_ok r (clk n) c" and "bb_available c"
  shows "\<exists>k res. facing r clk k n c \<and> bb_read_record (seen_at r clk) out n c = Some res
    \<and> read_outcome r clk k n c res"
proof -
  let ?C = "capacity_of (mk r)"
  obtain j where j: "j \<le> length (msgs r)" "unat (bb_tail (mem r (clk n))) = frame_at ?C (msgs r) j"
    using tail_frame [OF assms(1)] by blast
  have "bbc_pos c < bb_tail (mem r (clk n))"
    using assms(3,4) by (auto simp: reader_ok_def bb_available_def)
  then have "unat (bbc_pos c) < frame_at ?C (msgs r) j" using j(2) by (simp add: word_less_nat_alt)
  then obtain k where k: "k < j" "unat (bbc_pos c) = frame_at ?C (msgs r) k \<or> unat (bbc_pos c) = rec_at ?C (msgs r) k"
    using boundary_before [OF _ _ j(1)] assms(3) unfolding reader_ok_def by blast
  have "frame_at ?C (msgs r) (Suc k) \<le> frame_at ?C (msgs r) j" by (rule frame_at_mono) (use k(1) in simp)
  then have f: "facing r clk k n c" using assms(3) k j by (simp add: facing_def)
  have "unat (bbc_pos c mod BB_ALIGN) = unat (bbc_pos c) mod 8" by (simp add: unat_mod BB_ALIGN_def)
  then have al: "bbc_pos c mod BB_ALIGN = 0"
    using facing_bounds(7) [OF assms(1) f] by (simp add: unat_eq_0 [symmetric] dvd_eq_mod_eq_0)
  have start: "bb_read_record (seen_at r clk) out n c
      = bb_read_loop (seen_at r clk) (bbc_pos c) (bbc_pos c) out n c"
    using al assms(4) by (simp add: bb_read_record_def bb_available_def)
  have "\<exists>res. bb_read_loop (seen_at r clk) (bbc_pos c) (bbc_pos c) out n c = Some res
      \<and> read_outcome r clk k n c res"
  proof (cases "unat (bbc_pos c) = rec_at ?C (msgs r) k")
    case True
    then show ?thesis using at_record [OF assms(1,2) f order_refl] by blast
  next
    case False
    then show ?thesis using at_padding [OF assms(1,2) f] k(2) by metis
  qed
  then show ?thesis using f unfolding start by blast
qed

lemma item_checked:
  assumes "ok r" and "mono clk" and "reader_ok r (clk n) c"
    and "bb_has_item (seen_at r clk) n c = (b, n1, c1)"
  shows "reader_ok r (clk n1) c1" and "bbc_pos c1 = bbc_pos c" and "b = bb_available c1" and "n \<le> n1"
    and "b \<or> bb_tail (mem r (clk n)) \<le> bbc_pos c \<and> n1 = Suc n"
proof -
  have all: "reader_ok r (clk n1) c1 \<and> bbc_pos c1 = bbc_pos c \<and> b = bb_available c1 \<and> n \<le> n1
    \<and> (b \<or> bb_tail (mem r (clk n)) \<le> bbc_pos c \<and> n1 = Suc n)"
  proof (cases "bb_available c")
    case True
    then show ?thesis using assms(3,4) by (simp add: bb_has_item_def)
  next
    case False
    obtain tv n2 c2 where ref: "bb_refresh (seen_at r clk) n c = (tv, n2, c2)" by (metis prod_cases3)
    note R = refreshed [OF assms(1-3) ref]
    have eq: "b = bb_available c2" "n1 = n2" "c1 = c2" using assms(4) False ref by (auto simp: bb_has_item_def)
    then show ?thesis using R by (auto simp: bb_available_def not_less)
  qed
  then show "reader_ok r (clk n1) c1" "bbc_pos c1 = bbc_pos c" "b = bb_available c1" "n \<le> n1"
    "b \<or> bb_tail (mem r (clk n)) \<le> bbc_pos c \<and> n1 = Suc n" by blast+
qed

lemma close_checked:
  assumes "ok r" and "mono clk" and "reader_ok r (clk n) c"
    and "bb_check_closed (seen_at r clk) n c = (b, n1, c1)"
  shows "reader_ok r (clk n1) c1" and "bbc_pos c1 = bbc_pos c" and "n < n1"
    and "b \<Longrightarrow> ends r \<le> unat (bbc_pos c)"
    and "bb_closed (mem r (clk n)) \<noteq> 0 \<Longrightarrow> b \<or> bb_available c1"
proof -
  have later: "reader_ok r (clk (Suc n)) c"
    using reader_later [OF assms(1,3)] monoD [OF assms(2), of n "Suc n"] by simp
  have all: "reader_ok r (clk n1) c1 \<and> bbc_pos c1 = bbc_pos c \<and> n < n1
    \<and> (b \<longrightarrow> ends r \<le> unat (bbc_pos c)) \<and> (bb_closed (mem r (clk n)) \<noteq> 0 \<longrightarrow> b \<or> bb_available c1)"
  proof (cases "bb_closed (mem r (clk n)) = 0")
    case True
    then show ?thesis using assms(4) later by (auto simp: bb_check_closed_def seen_at_def)
  next
    case False
    obtain tv n2 c2 where ref: "bb_refresh (seen_at r clk) (Suc n) c = (tv, n2, c2)" by (metis prod_cases3)
    note R = refreshed [OF assms(1,2) later ref]
    have eq: "b \<longleftrightarrow> bbc_tail_cache c2 \<le> bbc_pos c2" "n1 = n2" "c1 = c2"
      using assms(4) False ref by (auto simp: bb_check_closed_def seen_at_def)
    have "ends r \<le> unat (bb_tail (mem r (clk n)))" using ended [OF assms(1) False] .
    also have "\<dots> \<le> unat tv"
      using tail_mono [OF assms(1), of "clk n" "clk (Suc n)"] monoD [OF assms(2), of n "Suc n"] R(2)
      by (simp add: word_le_nat_alt)
    finally have "b \<longrightarrow> ends r \<le> unat (bbc_pos c)"
      using eq(1) R(3) by (auto simp: word_le_nat_alt)
    then show ?thesis using R eq by (auto simp: bb_available_def)
  qed
  then show "reader_ok r (clk n1) c1" "bbc_pos c1 = bbc_pos c" "n < n1"
    "b \<Longrightarrow> ends r \<le> unat (bbc_pos c)"
    "bb_closed (mem r (clk n)) \<noteq> 0 \<Longrightarrow> b \<or> bb_available c1" by blast+
qed

text \<open>What a call may report, and where it leaves the reader.\<close>

definition pop_outcome where
  "pop_outcome r clk pos n res n1 c1 \<longleftrightarrow> n < n1 \<and> reader_ok r (clk n1) c1 \<and>
     (case res of
        Inr (Some v) \<Rightarrow> \<exists>k<length (msgs r). v = msgs r ! k
            \<and> (pos = frame_at (capacity_of (mk r)) (msgs r) k \<or> pos = rec_at (capacity_of (mk r)) (msgs r) k)
            \<and> unat (bbc_pos c1) = frame_at (capacity_of (mk r)) (msgs r) (Suc k)
      | Inr None \<Rightarrow> unat (bbc_pos c1) = pos
      | Inl Bb_closed \<Rightarrow> unat (bbc_pos c1) = pos \<and> ends r \<le> pos
      | Inl (Bb_lagged m) \<Rightarrow> unat (bbc_pos c1) = pos + unat m \<and> \<not> intact r clk pos n1
            \<and> unat (bbc_pos c1) = max (unat (bb_latest (mem r (clk (n1 - 1))))) pos)"

lemma popped:
  assumes "ok r" and "mono clk" and "reader_ok r (clk n) c" and "bb_available c" and "n0 \<le> n"
  shows "\<exists>x out' n1 c1. bb_read_record (seen_at r clk) out n c = Some (Inr (x, out', n1, c1))
    \<and> pop_outcome r clk (unat (bbc_pos c)) n0 (map_sum id (\<lambda>_. Some out') x) n1 c1"
proof -
  obtain k res where f: "facing r clk k n c" and rr: "bb_read_record (seen_at r clk) out n c = Some res"
    and ro: "read_outcome r clk k n c res"
    using record_read [OF assms(1-4)] by blast
  obtain n1 c1 where n1: "n < n1" "reader_ok r (clk n1) c1"
    and cases': "res = Inr (Inr (), msgs r ! k, n1, c1)
          \<and> unat (bbc_pos c1) = frame_at (capacity_of (mk r)) (msgs r) (Suc k)
        \<or> (\<exists>m out. res = Inr (Inl (Bb_lagged m), out, n1, c1)
            \<and> unat (bbc_pos c1) = unat (bbc_pos c) + unat m
            \<and> bbc_pos c1 = max (bb_latest (mem r (clk (n1 - 1)))) (bbc_pos c)
            \<and> \<not> intact r clk (unat (bbc_pos c)) n1)"
    using ro unfolding read_outcome_def by blast
  from cases' show ?thesis
  proof
    assume a: "res = Inr (Inr (), msgs r ! k, n1, c1)
          \<and> unat (bbc_pos c1) = frame_at (capacity_of (mk r)) (msgs r) (Suc k)"
    then have "pop_outcome r clk (unat (bbc_pos c)) n0 (Inr (Some (msgs r ! k))) n1 c1"
      unfolding pop_outcome_def using n1 assms(5) f by (auto simp: facing_def)
    then show ?thesis using a rr by fastforce
  next
    assume "\<exists>m out. res = Inr (Inl (Bb_lagged m), out, n1, c1)
            \<and> unat (bbc_pos c1) = unat (bbc_pos c) + unat m
            \<and> bbc_pos c1 = max (bb_latest (mem r (clk (n1 - 1)))) (bbc_pos c)
            \<and> \<not> intact r clk (unat (bbc_pos c)) n1"
    then obtain m out' where a: "res = Inr (Inl (Bb_lagged m), out', n1, c1)"
      "unat (bbc_pos c1) = unat (bbc_pos c) + unat m"
      "bbc_pos c1 = max (bb_latest (mem r (clk (n1 - 1)))) (bbc_pos c)"
      "\<not> intact r clk (unat (bbc_pos c)) n1" by blast
    then have "pop_outcome r clk (unat (bbc_pos c)) n0 (Inl (Bb_lagged m)) n1 c1"
      unfolding pop_outcome_def using n1 assms(5) by (simp add: unat_max [symmetric])
    then show ?thesis using a(1) rr by fastforce
  qed
qed

lemma try_popped:
  assumes "ok r" and "mono clk" and "reader_ok r (clk n) c"
  shows "\<exists>res n1 c1. bb_try_pop (seen_at r clk) n c = Some (Inr (res, n1, c1))
    \<and> pop_outcome r clk (unat (bbc_pos c)) n res n1 c1"
proof -
  obtain b n1 c1 where hi: "bb_has_item (seen_at r clk) n c = (b, n1, c1)" by (metis prod_cases3)
  note H = item_checked [OF assms hi]
  have rd: "\<exists>res n3 c3. map_option (map_sum id (\<lambda>(r, out, n1, c1).
         (map_sum id (\<lambda>filled. if filled then Some out else None) r, n1, c1)))
       (map_option (map_sum id (\<lambda>(r, x). (map_sum id (\<lambda>_. True) r, x))) (bb_read_record (seen_at r clk) [] n2 c2))
       = Some (Inr (res, n3, c3)) \<and> pop_outcome r clk (unat (bbc_pos c2)) n res n3 c3"
    if "reader_ok r (clk n2) c2" "bb_available c2" "n \<le> n2" for n2 c2
    using popped [OF assms(1,2) that, of "[]"]
    by (auto simp: sum.map_comp comp_def id_def split: sum.splits)
  show ?thesis
  proof (cases b)
    case True
    then show ?thesis
      using rd [of n1 c1] H by (simp add: bb_try_pop_def bb_try_pop_into_def hi)
  next
    case False
    obtain cl n2 c2 where cc: "bb_check_closed (seen_at r clk) n1 c1 = (cl, n2, c2)" by (metis prod_cases3)
    note C = close_checked [OF assms(1,2) H(1) cc]
    show ?thesis
    proof (cases cl)
      case True
      then have "pop_outcome r clk (unat (bbc_pos c)) n (Inl Bb_closed) n2 c2"
        using C H by (simp add: pop_outcome_def)
      then show ?thesis using True False by (simp add: bb_try_pop_def bb_try_pop_into_def hi cc)
    next
      case cl: False
      show ?thesis
      proof (cases "bb_available c2")
        case True
        then have "\<exists>res n3 c3. bb_try_pop (seen_at r clk) n c = Some (Inr (res, n3, c3))
            \<and> pop_outcome r clk (unat (bbc_pos c2)) n res n3 c3"
          unfolding bb_try_pop_def bb_try_pop_into_def hi cc prod.case
          using rd [OF C(1)] H(4) C(3) cl False by simp
        then show ?thesis using H(2) C(2) by simp
      next
        case na: False
        then have "pop_outcome r clk (unat (bbc_pos c)) n (Inr None) n2 c2"
          using C H by (simp add: pop_outcome_def)
        then show ?thesis using na cl False by (simp add: bb_try_pop_def bb_try_pop_into_def hi cc)
      qed
    qed
  qed
qed

lemma executed:
  assumes "ok r" and "mono clk" and "reader_ok r (clk n) c"
  shows "\<exists>ev n1 c1. byte_exec (seen_at r clk) x n c = Some (Inr (ev, n1, c1)) \<and> n < n1
    \<and> reader_ok r (clk n1) c1
    \<and> byte_replay (capacity_of (mk r)) (msgs r) (ends r) (unat (bbc_pos c)) [ev] = Some (unat (bbc_pos c1))
    \<and> (\<forall>m. ev = Missed m \<longrightarrow> \<not> intact r clk (unat (bbc_pos c)) n1)"
proof (cases x)
  case Byte_try_pop
  obtain res n1 c1 where tp: "bb_try_pop (seen_at r clk) n c = Some (Inr (res, n1, c1))"
    and po: "pop_outcome r clk (unat (bbc_pos c)) n res n1 c1"
    using try_popped [OF assms] by blast
  have n1: "n < n1" "reader_ok r (clk n1) c1" using po by (simp_all add: pop_outcome_def)
  have b: "boundary (capacity_of (mk r)) (msgs r) (unat (bbc_pos c1))" using n1(2) by (simp add: reader_ok_def)
  consider v where "res = Inr (Some v)" | "res = Inr None" | "res = Inl Bb_closed" | m where "res = Inl (Bb_lagged m)"
    by (cases res) (auto intro: bytes_pop_error.exhaust simp: not_None_eq [symmetric])
  then show ?thesis
  proof cases
    case (1 v)
    then obtain k where k: "k < length (msgs r)" "v = msgs r ! k"
      "unat (bbc_pos c) = frame_at (capacity_of (mk r)) (msgs r) k
        \<or> unat (bbc_pos c) = rec_at (capacity_of (mk r)) (msgs r) k"
      "unat (bbc_pos c1) = frame_at (capacity_of (mk r)) (msgs r) (Suc k)"
      using po by (auto simp: pop_outcome_def)
    then show ?thesis using 1 Byte_try_pop tp n1 frame_index_at [OF k(1,3)] by simp
  next
    case 2
    then show ?thesis using Byte_try_pop tp n1 po by (simp add: pop_outcome_def)
  next
    case 3
    then show ?thesis using Byte_try_pop tp n1 po by (simp add: pop_outcome_def)
  next
    case (4 m)
    then show ?thesis using Byte_try_pop tp n1 po b by (simp add: pop_outcome_def)
  qed
next
  case Byte_skip
  obtain tv n1 c1 where ref: "bb_refresh (seen_at r clk) n c = (tv, n1, c1)" by (metis prod_cases3)
  note R = refreshed [OF assms ref]
  define p where "p = max (bbc_pos c1) tv"
  have pc: "bbc_pos c1 = bbc_pos c" using R(3) by simp
  have p: "unat p = unat (bbc_pos c) + unat (saturating_sub tv (bbc_pos c1))"
    unfolding p_def pc unat_max saturating_sub_unat by linarith
  have bp: "boundary (capacity_of (mk r)) (msgs r) (unat p)"
    using tail_boundary [OF assms(1), of "clk n"] R(2) assms(3) by (auto simp: p_def pc max_def reader_ok_def)
  then have "reader_ok r (clk n1) (c1\<lparr>bbc_pos := p\<rparr>)" using R(4) by (simp add: reader_ok_def)
  then show ?thesis
    using Byte_skip ref p R(1) bp by (simp add: bb_skip_to_latest_def p_def [symmetric])
next
  case Byte_lag
  have "reader_ok r (clk (Suc n)) c"
    using reader_later [OF assms(1,3)] monoD [OF assms(2), of n "Suc n"] by simp
  then show ?thesis using Byte_lag by (simp add: bb_lag_def)
qed

lemma replay_Cons:
  "byte_replay C ms e p [ev] = Some p1 \<Longrightarrow> byte_replay C ms e p (ev # evs) = byte_replay C ms e p1 evs"
  by (cases ev) (auto split: if_splits option.splits)

text \<open>No run of calls faults or hangs, and its reports are true of the stream of messages.\<close>

lemma ran:
  assumes "ok r" and "mono clk" and "reader_ok r (clk n) c"
  shows "\<exists>evs n1 c1. byte_run (seen_at r clk) ops n c = Some (Inr (evs, n1, c1)) \<and> n \<le> n1
    \<and> reader_ok r (clk n1) c1
    \<and> byte_replay (capacity_of (mk r)) (msgs r) (ends r) (unat (bbc_pos c)) evs = Some (unat (bbc_pos c1))"
  using assms(3)
proof (induction ops arbitrary: n c)
  case (Cons x ops)
  obtain ev n1 c1 where 1: "byte_exec (seen_at r clk) x n c = Some (Inr (ev, n1, c1))" "n < n1"
    "reader_ok r (clk n1) c1"
    "byte_replay (capacity_of (mk r)) (msgs r) (ends r) (unat (bbc_pos c)) [ev] = Some (unat (bbc_pos c1))"
    using executed [OF assms(1,2) Cons.prems] by blast
  obtain evs n2 c2 where 2: "byte_run (seen_at r clk) ops n1 c1 = Some (Inr (evs, n2, c2))"
    "n1 \<le> n2" "reader_ok r (clk n2) c2"
    "byte_replay (capacity_of (mk r)) (msgs r) (ends r) (unat (bbc_pos c1)) evs = Some (unat (bbc_pos c2))"
    using Cons.IH [OF 1(3)] by blast
  have "byte_run (seen_at r clk) (x # ops) n c = Some (Inr (ev # evs, n2, c2))"
    using 1(1) 2(1) by simp
  moreover have "byte_replay (capacity_of (mk r)) (msgs r) (ends r) (unat (bbc_pos c)) (ev # evs)
      = Some (unat (bbc_pos c2))"
    using replay_Cons [OF 1(4)] 2(4) by simp
  ultimately show ?case using 1(2) 2(2,3) by fastforce
qed simp

text \<open>A reader the declared intent never passes by a capacity loses nothing.\<close>

lemma ran_lossless:
  assumes "ok r" and "mono clk" and "reader_ok r (clk n) c"
    and near: "\<And>k. unat (bb_intent (mem r (clk k))) \<le> unat (bbc_pos c) + capacity_of (mk r)"
    and run: "byte_run (seen_at r clk) ops n c = Some (Inr (evs, n1, c1))"
  shows "\<forall>m. Missed m \<notin> set evs"
  using assms(3) near run
proof (induction ops arbitrary: n c evs n1 c1)
  case (Cons x ops)
  obtain ev n2 c2 where 1: "byte_exec (seen_at r clk) x n c = Some (Inr (ev, n2, c2))"
    "reader_ok r (clk n2) c2"
    "byte_replay (capacity_of (mk r)) (msgs r) (ends r) (unat (bbc_pos c)) [ev] = Some (unat (bbc_pos c2))"
    "\<forall>m. ev = Missed m \<longrightarrow> \<not> intact r clk (unat (bbc_pos c)) n2"
    using executed [OF assms(1,2) Cons.prems(1)] by blast
  have nm: "\<forall>m. ev \<noteq> Missed m" using 1(4) Cons.prems(2) by (auto simp: intact_def)
  have "unat (bbc_pos c) \<le> unat (bbc_pos c2)"
  proof (cases ev)
    case (Got v)
    then obtain k where k: "frame_index (capacity_of (mk r)) (msgs r) (unat (bbc_pos c)) = Some k"
      "unat (bbc_pos c2) = frame_at (capacity_of (mk r)) (msgs r) (Suc k)"
      using 1(3) by (auto split: option.splits if_splits)
    then have "unat (bbc_pos c) = frame_at (capacity_of (mk r)) (msgs r) k
        \<or> unat (bbc_pos c) = rec_at (capacity_of (mk r)) (msgs r) k"
      by (auto simp: frame_index_def find_Some_iff)
    then show ?thesis
      using k(2) rec_at_ge [of "capacity_of (mk r)" "msgs r" k] rec_at_less [of "capacity_of (mk r)" "msgs r" k]
      by auto
  qed (use 1(3) nm in \<open>auto split: if_splits\<close>)
  then have near2: "\<And>k. unat (bb_intent (mem r (clk k))) \<le> unat (bbc_pos c2) + capacity_of (mk r)"
    using Cons.prems(2) by (meson add_le_mono1 order_trans)
  obtain evs' where "byte_run (seen_at r clk) ops n2 c2 = Some (Inr (evs', n1, c1))" "evs = ev # evs'"
    using Cons.prems(3) 1(1) by (auto simp: map_option_case split: option.splits sum.splits prod.splits)
      (case_tac x2, auto)
  then show ?case using Cons.IH [OF 1(2) near2] nm by auto
qed simp

text \<open>
  \<open>pop\<close> returns once the reader sees a message beyond its position, or the close,
  from some load on.
\<close>

lemma wait_sees:
  assumes "ok r" and "mono clk" and "reader_ok r (clk n) c" and "bbc_pos c < bb_tail (mem r (clk n))"
  shows "\<exists>n1 c1. bb_wait_for_item wait (seen_at r clk) n c = Some (True, n1, c1) \<and> n \<le> n1
    \<and> reader_ok r (clk n1) c1 \<and> bbc_pos c1 = bbc_pos c \<and> bb_available c1"
proof -
  obtain b n1 c1 where item: "bb_has_item (seen_at r clk) n c = (b, n1, c1)" by (metis prod_cases3)
  note H = item_checked [OF assms(1-3) item]
  have b using H(5) assms(4) by auto
  then show ?thesis using item H by (subst bb_wait_for_item.simps) simp
qed

lemma waited:
  assumes "ok r" and "mono clk" and "reader_ok r (clk n) c" and wait: "\<And>k. k \<le> wait k"
    and "\<And>k. n + d \<le> k \<Longrightarrow> bbc_pos c < bb_tail (mem r (clk k)) \<or> bb_closed (mem r (clk k)) \<noteq> 0"
  shows "\<exists>b n1 c1. bb_wait_for_item wait (seen_at r clk) n c = Some (b, n1, c1) \<and> n \<le> n1
    \<and> reader_ok r (clk n1) c1 \<and> bbc_pos c1 = bbc_pos c
    \<and> (if b then bb_available c1 else n < n1 \<and> ends r \<le> unat (bbc_pos c))"
  using assms(3,5)
proof (induction d arbitrary: n c)
  case (0 n c)
  show ?case
  proof (cases "bbc_pos c < bb_tail (mem r (clk n))")
    case True
    then show ?thesis using wait_sees [OF assms(1,2) 0(1) True, of wait] by fastforce
  next
    case False
    obtain b n1 c1 where item: "bb_has_item (seen_at r clk) n c = (b, n1, c1)" by (metis prod_cases3)
    note H = item_checked [OF assms(1,2) 0(1) item]
    obtain b2 n2 c2 where chk: "bb_check_closed (seen_at r clk) n1 c1 = (b2, n2, c2)" by (metis prod_cases3)
    note C = close_checked [OF assms(1,2) H(1) chk]
    have step: "bb_wait_for_item wait (seen_at r clk) n c =
        (if b then Some (True, n1, c1) else if b2 then Some (False, n2, c2)
         else if bb_available c2 then Some (True, n2, c2)
         else bb_wait_for_item wait (seen_at r clk) (wait n2) c2)"
      using item chk by (subst bb_wait_for_item.simps) simp
    consider (now) "b \<or> b2 \<or> bb_available c2" | (again) "\<not> b" "\<not> b2" "\<not> bb_available c2" by blast
    then show ?thesis
    proof cases
      case now
      then show ?thesis unfolding step using H C by (auto intro: less_imp_le)
    next
      case again
      then have "bbc_pos c < bb_tail (mem r (clk n1))" using 0(2) [of n1] C(5) H(4) by auto
      then have seen: "bbc_pos c2 < bb_tail (mem r (clk (wait n2)))"
        using tail_mono [OF assms(1) monoD [OF assms(2), of n1 "wait n2"]] C(2,3) H(2) wait [of n2]
        by simp
      have "reader_ok r (clk (wait n2)) c2"
        using reader_later [OF assms(1) C(1)] monoD [OF assms(2)] wait by blast
      from wait_sees [OF assms(1,2) this seen, of wait] show ?thesis
        unfolding step using again C(2,3) H(2,4) wait [of n2] by fastforce
    qed
  qed
next
  case (Suc d n c)
  obtain b n1 c1 where item: "bb_has_item (seen_at r clk) n c = (b, n1, c1)" by (metis prod_cases3)
  note H = item_checked [OF assms(1,2) Suc.prems(1) item]
  obtain b2 n2 c2 where chk: "bb_check_closed (seen_at r clk) n1 c1 = (b2, n2, c2)" by (metis prod_cases3)
  note C = close_checked [OF assms(1,2) H(1) chk]
  have step: "bb_wait_for_item wait (seen_at r clk) n c =
      (if b then Some (True, n1, c1) else if b2 then Some (False, n2, c2)
       else if bb_available c2 then Some (True, n2, c2)
       else bb_wait_for_item wait (seen_at r clk) (wait n2) c2)"
    using item chk by (subst bb_wait_for_item.simps) simp
  consider (now) "b \<or> b2 \<or> bb_available c2" | (again) "\<not> b" "\<not> b2" "\<not> bb_available c2" by blast
  then show ?case
  proof cases
    case now
    then show ?thesis unfolding step using H C by (auto intro: less_imp_le)
  next
    case again
    have r2: "reader_ok r (clk (wait n2)) c2"
      using reader_later [OF assms(1) C(1)] monoD [OF assms(2)] wait by blast
    have far: "n + Suc d \<le> k" if "wait n2 + d \<le> k" for k
      using that wait [of n2] C(3) H(4) by linarith
    have "\<exists>b n3 c3. bb_wait_for_item wait (seen_at r clk) (wait n2) c2 = Some (b, n3, c3) \<and> wait n2 \<le> n3
      \<and> reader_ok r (clk n3) c3 \<and> bbc_pos c3 = bbc_pos c2
      \<and> (if b then bb_available c3 else wait n2 < n3 \<and> ends r \<le> unat (bbc_pos c2))"
      by (rule Suc.IH [OF r2]) (use Suc.prems(2) far C(2) H(2) in simp)
    then show ?thesis
      unfolding step using again C(2,3) H(2,4) wait [of n2] by fastforce
  qed
qed

lemma pop_returned:
  assumes "ok r" and "mono clk" and "reader_ok r (clk n) c" and "\<And>k. k \<le> wait k"
    and "\<And>k. n + d \<le> k \<Longrightarrow> bbc_pos c < bb_tail (mem r (clk k)) \<or> bb_closed (mem r (clk k)) \<noteq> 0"
  shows "\<exists>res n1 c1. bb_pop wait (seen_at r clk) n c = Some (Inr (res, n1, c1))
    \<and> pop_outcome r clk (unat (bbc_pos c)) n (map_sum id Some res) n1 c1"
proof -
  obtain b n1 c1 where w: "bb_wait_for_item wait (seen_at r clk) n c = Some (b, n1, c1)" "n \<le> n1"
    "reader_ok r (clk n1) c1" "bbc_pos c1 = bbc_pos c"
    "if b then bb_available c1 else n < n1 \<and> ends r \<le> unat (bbc_pos c)"
    using waited [OF assms] by blast
  show ?thesis
  proof (cases b)
    case True
    then have av: "bb_available c1" using w(5) by simp
    obtain x out' n2 c2 where p: "bb_read_record (seen_at r clk) [] n1 c1 = Some (Inr (x, out', n2, c2))"
      "pop_outcome r clk (unat (bbc_pos c1)) n (map_sum id (\<lambda>_. Some out') x) n2 c2"
      using popped [OF assms(1,2) w(3) av w(2), of "[]"] by blast
    then show ?thesis
      using True w(1,4) by (simp add: bb_pop_def bb_pop_into_def sum.map_comp comp_def id_def)
  next
    case False
    then have "pop_outcome r clk (unat (bbc_pos c)) n (Inl Bb_closed) n1 c1"
      using w by (simp add: pop_outcome_def)
    then show ?thesis using False w(1) by (simp add: bb_pop_def bb_pop_into_def)
  qed
qed

section \<open>Whole runs of a reader\<close>

text \<open>
  A reader that subscribes at time \<open>t\<close>: what a run of its calls delivers, with the
  position of every message and of every reported loss accounted for.
\<close>

lemma accounted:
  assumes "ok r" and "mono clk" and "t \<le> clk 0" and "bb_mask (mem r t) = mk r"
  shows "\<exists>evs n c1 k. byte_run (\<lambda>i. mem r (clk i)) ops 0 (bb_subscribe_from (mem r t)) = Some (Inr (evs, n, c1))
    \<and> byte_replay (capacity_of (mk r)) (msgs r) (ends r) (unat (bbc_pos (bb_subscribe_from (mem r t)))) evs
        = Some (unat (bbc_pos c1))
    \<and> k \<le> length (msgs r) \<and> unat (bb_tail (mem r t)) = frame_at (capacity_of (mk r)) (msgs r) k
    \<and> subseq (got evs) (drop k (msgs r))
    \<and> (lost evs = 0 \<longrightarrow> got evs = take (length (got evs)) (drop k (msgs r)))"
proof -
  let ?c = "bb_subscribe_from (mem r t)" and ?C = "capacity_of (mk r)"
  have c: "reader_ok r (clk 0) ?c" by (rule reader_later [OF assms(1) subscribed [OF assms(1,4)] assms(3)])
  obtain evs n c1 where run: "byte_run (seen_at r clk) ops 0 ?c = Some (Inr (evs, n, c1))"
    and replay: "byte_replay ?C (msgs r) (ends r) (unat (bbc_pos ?c)) evs = Some (unat (bbc_pos c1))"
    using ran [OF assms(1,2) c] by blast
  obtain k where k: "k \<le> length (msgs r)" "unat (bb_tail (mem r t)) = frame_at ?C (msgs r) k"
    using tail_frame [OF assms(1), of t] by blast
  have pos: "unat (bbc_pos ?c) = frame_at ?C (msgs r) k" using k(2) by (simp add: bb_subscribe_from_def Let_def)
  have seen: "(\<lambda>i. mem r (clk i)) = seen_at r clk" by (rule ext) (simp add: seen_at_def)
  have "subseq (got evs) (drop k (msgs r))" by (rule byte_replay_subseq [OF replay]) (simp add: pos)
  moreover have "lost evs = 0 \<longrightarrow> got evs = take (length (got evs)) (drop k (msgs r))"
    using byte_replay_segment [OF replay _ disjI1 [OF pos]] by blast
  ultimately show ?thesis unfolding seen by (intro exI conjI) (rule run replay k | assumption)+
qed

text \<open>A reader that the declared intent never passes by more than a capacity loses nothing.\<close>

lemma unharmed:
  assumes "ok r" and "mono clk" and "reader_ok r (clk n) c" and "Byte_skip \<notin> set ops"
    and "unat (bbc_pos c) = frame_at (capacity_of (mk r)) (msgs r) k"
    and "\<And>i. unat (bb_intent (mem r (clk i))) \<le> unat (bbc_pos c) + capacity_of (mk r)"
  shows "\<exists>evs n1 c1. byte_run (\<lambda>i. mem r (clk i)) ops n c = Some (Inr (evs, n1, c1))
    \<and> (\<forall>m. Missed m \<notin> set evs) \<and> got evs = take (length (got evs)) (drop k (msgs r))"
proof -
  obtain evs n1 c1 where run: "byte_run (seen_at r clk) ops n c = Some (Inr (evs, n1, c1))"
    and replay: "byte_replay (capacity_of (mk r)) (msgs r) (ends r) (unat (bbc_pos c)) evs = Some (unat (bbc_pos c1))"
    using ran [OF assms(1-3)] by blast
  have seen: "(\<lambda>i. mem r (clk i)) = seen_at r clk" by (rule ext) (simp add: seen_at_def)
  have missed: "\<forall>m. Missed m \<notin> set evs" by (rule ran_lossless [OF assms(1-3,6) run])
  have "lost evs = 0" by (rule nothing_lost [OF missed byte_run_skips [OF run assms(4)]])
  then have "got evs = take (length (got evs)) (drop k (msgs r))"
    by (rule byte_replay_segment [OF replay _ disjI1 [OF assms(5)]])
  then show ?thesis unfolding seen using run missed by blast
qed

end

end
