(* ===== verification/Byte_Trace.thy ===== *)
theory Byte_Trace
  imports Byte_History
begin

text \<open>
  The producer's side of the byte history: what holds of the shared memory of a
  lossy byte ring after every atomic store of every run of sessions, also when a
  producer dies between two stores and the next one heals the counters.
\<close>

section \<open>Lanes in the buffer\<close>

lemma get_put_same:
  assumes "off + length bs \<le> length mem"
  shows "get off (length bs) (put off bs mem) = bs"
  using assms by (simp add: get_def put_def)

lemma get_put_other:
  assumes "4 dvd a" and "4 dvd b" and "a \<noteq> b" and "length bs = 4" and "b + 4 \<le> length mem"
  shows "get a 4 (put b bs mem) = get a 4 mem"
proof -
  have apart: "a + 4 \<le> b \<or> b + 4 \<le> a" using assms(1-3) by (elim dvdE) auto
  have len: "length (put b bs mem) = length mem" using assms(4,5) by (simp add: length_put)
  show ?thesis
  proof (rule nth_equalityI)
    show "length (get a 4 (put b bs mem)) = length (get a 4 mem)" using len by (simp add: get_def)
  next
    fix i assume "i < length (get a 4 (put b bs mem))"
    then have i: "i < 4" "a + i < length mem" using len by (auto simp: get_def)
    have "put b bs mem ! (a + i) = mem ! (a + i)"
      using apart i assms(4,5) by (auto simp: put_def nth_append)
    then show "get a 4 (put b bs mem) ! i = get a 4 mem ! i" using i len by (simp add: get_def)
  qed
qed

definition lane_stores :: "nat \<Rightarrow> (nat \<times> u8 list) list \<Rightarrow> bb_store list" where
  "lane_stores cap lanes = map (\<lambda>(q, bs). BSt_lane (q mod cap) bs) lanes"

text \<open>A lane of the window \<open>[b, b + cap)\<close>.\<close>

definition lane_ok :: "nat \<Rightarrow> nat \<Rightarrow> nat \<Rightarrow> nat \<times> u8 list \<Rightarrow> bool" where
  "lane_ok cap b e lane \<longleftrightarrow> 4 dvd fst lane \<and> length (snd lane) = 4 \<and> b \<le> fst lane \<and> fst lane + 4 \<le> e"

lemma lane_room_mod:
  fixes cap :: nat
  assumes "8 dvd cap" and "0 < cap" and "4 dvd q"
  shows "q mod cap + 4 \<le> cap" and "4 dvd q mod cap"
proof -
  have c: "4 dvd cap" using dvd_trans [OF _ assms(1), of 4] by simp
  show d: "4 dvd q mod cap" using assms(3) c by (simp add: dvd_mod)
  have "q mod cap < cap" using assms(2) by simp
  then show "q mod cap + 4 \<le> cap" using c d by (elim dvdE) auto
qed

lemma mod_apart:
  fixes cap :: nat
  assumes "q mod cap = q' mod cap" and "q < q'"
  shows "q + cap \<le> q'"
proof -
  have "cap dvd q' - q" using mod_eq_dvd_iff_nat [of q q' cap] assms by fastforce
  then show ?thesis using assms(2) dvd_imp_le [of cap "q' - q"] by linarith
qed

text \<open>Lanes of one window, in ascending order, are all there after their stores.\<close>

lemma lanes_present:
  assumes "8 dvd cap" and "0 < cap" and "sorted_wrt (\<lambda>x y. fst x < fst y) lanes"
    and "\<forall>l\<in>set lanes. lane_ok cap b e l" and "e \<le> b + cap" and "length (bb_buf sh) = cap"
    and "(q, bs) \<in> set lanes"
  shows "get (q mod cap) 4 (bb_buf (fold bb_apply (lane_stores cap lanes) sh)) = bs"
  using assms(3,4,6,7)
proof (induction lanes arbitrary: sh rule: rev_induct)
  case (snoc l lanes)
  obtain q' bs' where l: "l = (q', bs')" by (cases l)
  define sh1 where "sh1 = fold bb_apply (lane_stores cap lanes) sh"
  have keep: "length (bb_buf (fold bb_apply (lane_stores cap ls) s)) = cap"
    if "\<forall>l\<in>set ls. lane_ok cap b e l" "length (bb_buf s) = cap" for ls s
    using that
  proof (induction ls arbitrary: s)
    case (Cons x ls)
    obtain a w where x: "x = (a, w)" by (cases x)
    have "4 dvd a" "length w = 4" using Cons.prems(1) x by (simp_all add: lane_ok_def)
    then have "length (bb_buf (bb_apply (BSt_lane (a mod cap) w) s)) = cap"
      using lane_room_mod [OF assms(1,2)] Cons.prems(2) by (simp add: length_put)
    then show ?case using Cons x by (simp add: lane_stores_def)
  qed (simp add: lane_stores_def)
  have sh1: "length (bb_buf sh1) = cap" unfolding sh1_def by (rule keep) (use snoc.prems in simp_all)
  have l4: "4 dvd q'" "length bs' = 4" "b \<le> q'" "q' + 4 \<le> e"
    using snoc.prems(2) l by (simp_all add: lane_ok_def)
  have fin: "fold bb_apply (lane_stores cap (lanes @ [l])) sh = bb_apply (BSt_lane (q' mod cap) bs') sh1"
    by (simp add: lane_stores_def l sh1_def)
  show ?case
  proof (cases "(q, bs) = l")
    case True
    then show ?thesis
      using get_put_same [of "q' mod cap" bs' "bb_buf sh1"] lane_room_mod(1) [OF assms(1,2) l4(1)] sh1 l4(2) l
      unfolding fin by simp
  next
    case False
    then have mem: "(q, bs) \<in> set lanes" using snoc.prems(4) by auto
    then have lt: "q < q'" using snoc.prems(1) l by (auto simp: sorted_wrt_append)
    have q: "4 dvd q" "b \<le> q" using snoc.prems(2) mem by (auto simp: lane_ok_def)
    have "q mod cap \<noteq> q' mod cap" using mod_apart [OF _ lt, of cap] q(2) l4(4) assms(5) by auto
    then have "get (q mod cap) 4 (bb_buf (bb_apply (BSt_lane (q' mod cap) bs') sh1)) = get (q mod cap) 4 (bb_buf sh1)"
      using get_put_other [of "q mod cap" "q' mod cap" bs' "bb_buf sh1"] lane_room_mod [OF assms(1,2) q(1)]
        lane_room_mod [OF assms(1,2) l4(1)] l4(2) sh1 by simp
    moreover have "get (q mod cap) 4 (bb_buf sh1) = bs"
      unfolding sh1_def by (rule snoc.IH) (use snoc.prems mem in \<open>auto simp: sorted_wrt_append\<close>)
    ultimately show ?thesis unfolding fin by simp
  qed
qed simp

section \<open>The invariant\<close>

text \<open>\<open>bytes_at m cs sh\<close>: the messages \<open>cs\<close> are committed, and every one the intent has not passed is intact.\<close>

definition bytes_at :: "u64 \<Rightarrow> u8 list list \<Rightarrow> bbytes_shared \<Rightarrow> bool" where
  "bytes_at m cs sh \<longleftrightarrow> bb_mask sh = m \<and> length (bb_buf sh) = capacity_of m
     \<and> unat (bb_tail sh) = stream_end (capacity_of m) cs \<and> bb_tail sh \<le> bb_intent sh
     \<and> boundary (capacity_of m) cs (unat (bb_latest sh))
     \<and> (\<forall>k q bs. k < length cs \<longrightarrow> (q, bs) \<in> set (frame_lanes (capacity_of m) cs k) \<longrightarrow>
          unat (bb_intent sh) \<le> q + capacity_of m \<longrightarrow> get (q mod capacity_of m) 4 (bb_buf sh) = bs)"

lemma bytes_atD:
  assumes "bytes_at m cs sh"
  shows "bb_mask sh = m" and "length (bb_buf sh) = capacity_of m"
    and "unat (bb_tail sh) = stream_end (capacity_of m) cs" and "bb_tail sh \<le> bb_intent sh"
    and "boundary (capacity_of m) cs (unat (bb_latest sh))"
    and "k < length cs \<Longrightarrow> (q, bs) \<in> set (frame_lanes (capacity_of m) cs k) \<Longrightarrow>
      unat (bb_intent sh) \<le> q + capacity_of m \<Longrightarrow> get (q mod capacity_of m) 4 (bb_buf sh) = bs"
  using assms unfolding bytes_at_def by blast+

lemma bytes_atI:
  assumes "bb_mask sh = m" and "length (bb_buf sh) = capacity_of m"
    and "unat (bb_tail sh) = stream_end (capacity_of m) cs" and "bb_tail sh \<le> bb_intent sh"
    and "boundary (capacity_of m) cs (unat (bb_latest sh))"
    and "\<And>k q bs. k < length cs \<Longrightarrow> (q, bs) \<in> set (frame_lanes (capacity_of m) cs k) \<Longrightarrow>
      unat (bb_intent sh) \<le> q + capacity_of m \<Longrightarrow> get (q mod capacity_of m) 4 (bb_buf sh) = bs"
  shows "bytes_at m cs sh"
  using assms unfolding bytes_at_def by blast

text \<open>The counters only grow.\<close>

fun counters_grow :: "bbytes_shared \<Rightarrow> bb_store list \<Rightarrow> bool" where
  "counters_grow sh [] \<longleftrightarrow> True"
| "counters_grow sh (s # sts) \<longleftrightarrow> bb_tail sh \<le> bb_tail (bb_apply s sh)
     \<and> bb_intent sh \<le> bb_intent (bb_apply s sh) \<and> counters_grow (bb_apply s sh) sts"

lemma counters_grow_append:
  "counters_grow sh (a @ b) \<longleftrightarrow> counters_grow sh a \<and> counters_grow (fold bb_apply a sh) b"
  by (induction a arbitrary: sh) auto

lemma counters_grow_take: "counters_grow sh sts \<Longrightarrow> counters_grow sh (take i sts)"
  by (metis append_take_drop_id counters_grow_append)

lemma counters_grow_lanes: "counters_grow sh (lane_stores cap lanes)"
  by (induction lanes arbitrary: sh) (auto simp: lane_stores_def)

lemma lanes_keep_counters:
  "bb_tail (fold bb_apply (lane_stores cap lanes) sh) = bb_tail sh"
  "bb_intent (fold bb_apply (lane_stores cap lanes) sh) = bb_intent sh"
  "bb_latest (fold bb_apply (lane_stores cap lanes) sh) = bb_latest sh"
  by (induction lanes arbitrary: sh) (auto simp: lane_stores_def)

lemma bytes_at_intent:
  assumes "bytes_at m cs sh" and "bb_intent sh \<le> w"
  shows "bytes_at m cs (bb_apply (BSt_intent w) sh)"
proof -
  have le: "unat (bb_intent sh) \<le> unat w" using assms(2) by (simp add: word_le_nat_alt)
  note B = bytes_atD [OF assms(1)]
  show ?thesis
  proof (rule bytes_atI)
    fix k q bs
    assume k: "k < length cs" "(q, bs) \<in> set (frame_lanes (capacity_of m) cs k)"
      and i: "unat (bb_intent (bb_apply (BSt_intent w) sh)) \<le> q + capacity_of m"
    have "unat (bb_intent sh) \<le> q + capacity_of m" using i le by simp
    then show "get (q mod capacity_of m) 4 (bb_buf (bb_apply (BSt_intent w) sh)) = bs"
      using B(6) [OF k] by simp
  qed (use B assms(2) in simp_all)
qed

text \<open>A lane beyond the tail and below the intent touches no message that is still readable.\<close>

lemma bytes_at_lane:
  assumes at: "bytes_at m cs sh" and m: "8 dvd capacity_of m" "0 < capacity_of m"
    and lane: "lane_ok (capacity_of m) (stream_end (capacity_of m) cs) (unat (bb_intent sh)) (q', bs')"
  shows "bytes_at m cs (bb_apply (BSt_lane (q' mod capacity_of m) bs') sh)"
proof -
  let ?C = "capacity_of m"
  have l: "4 dvd q'" "length bs' = 4" "stream_end ?C cs \<le> q'" "q' + 4 \<le> unat (bb_intent sh)"
    using lane by (simp_all add: lane_ok_def)
  note B = bytes_atD [OF at]
  note R' = lane_room_mod [OF m l(1)]
  have "get (q mod ?C) 4 (put (q' mod ?C) bs' (bb_buf sh)) = bs"
    if k: "k < length cs" and lk: "(q, bs) \<in> set (frame_lanes ?C cs k)"
      and i: "unat (bb_intent sh) \<le> q + ?C" for k q bs
  proof -
    note G = frame_lane_grid [OF m lk]
    have "frame_at ?C cs (Suc k) \<le> stream_end ?C cs"
      unfolding stream_end_def by (rule frame_at_mono) (use k in simp)
    then have lt: "q < q'" using G(4) l(3) by linarith
    have "q mod ?C \<noteq> q' mod ?C" using mod_apart [OF _ lt, of ?C] i l(4) by auto
    then show ?thesis
      using get_put_other [of "q mod ?C" "q' mod ?C" bs' "bb_buf sh"] lane_room_mod(2) [OF m G(2)] R' l(2) B(2)
        B(6) [OF k lk i] by simp
  qed
  moreover have "length (put (q' mod ?C) bs' (bb_buf sh)) = ?C" using R' l(2) B(2) by (simp add: length_put)
  ultimately show ?thesis by (intro bytes_atI) (use B(1,3,4,5) in simp_all)
qed

lemma bytes_at_lanes:
  assumes "bytes_at m cs sh" and "8 dvd capacity_of m" "0 < capacity_of m"
    and "\<forall>l\<in>set lanes. lane_ok (capacity_of m) (stream_end (capacity_of m) cs) (unat (bb_intent sh)) l"
  shows "bytes_at m cs (fold bb_apply (lane_stores (capacity_of m) lanes) sh)"
  using assms(1,4)
proof (induction lanes arbitrary: sh)
  case (Cons l lanes)
  obtain q bs where l: "l = (q, bs)" by (cases l)
  have "bytes_at m cs (bb_apply (BSt_lane (q mod capacity_of m) bs) sh)"
    by (rule bytes_at_lane [OF Cons.prems(1) assms(2,3)]) (use Cons.prems(2) l in simp)
  then show ?case using Cons l by (simp add: lane_stores_def)
qed (simp add: lane_stores_def)

lemma bytes_at_latest:
  "bytes_at m cs sh \<Longrightarrow> boundary (capacity_of m) cs (unat w) \<Longrightarrow> bytes_at m cs (bb_apply (BSt_latest w) sh)"
  unfolding bytes_at_def by simp

lemma bytes_at_closed: "bytes_at m cs sh \<Longrightarrow> bytes_at m cs (bb_apply (BSt_closed w) sh)"
  unfolding bytes_at_def by simp

lemma bytes_at_tail:
  assumes at: "bytes_at m cs sh" and m: "0 < capacity_of m" and fits: "rlen8 (length v) \<le> capacity_of m"
    and w: "unat w = stream_end (capacity_of m) (cs @ [v])" "w \<le> bb_intent sh"
    and here: "\<forall>(q, bs)\<in>set (frame_lanes (capacity_of m) (cs @ [v]) (length cs)).
      get (q mod capacity_of m) 4 (bb_buf sh) = bs"
  shows "bytes_at m (cs @ [v]) (bb_apply (BSt_tail w) sh)"
proof -
  let ?C = "capacity_of m"
  note B = bytes_atD [OF at]
  have "get (q mod ?C) 4 (bb_buf sh) = bs"
    if k: "k < length (cs @ [v])" and lk: "(q, bs) \<in> set (frame_lanes ?C (cs @ [v]) k)"
      and i: "unat (bb_intent sh) \<le> q + ?C" for k q bs
  proof (cases "k = length cs")
    case True
    then show ?thesis using bspec [OF here, of "(q, bs)"] lk by simp
  next
    case False
    then have "k < length cs" using k by simp
    then show ?thesis using B(6) [OF _ _ i] lk by (simp add: frame_lanes_append)
  qed
  then show ?thesis
    by (intro bytes_atI) (use B(1,2) w boundary_snoc [OF m fits B(5)] in simp_all)
qed

section \<open>A push\<close>

lemma in_lanes_sorted: "sorted_wrt (\<lambda>x y. fst x < fst y) (in_lanes src off)"
proof (induction src off rule: in_lanes.induct)
  case (1 src off)
  show ?case
  proof (cases "off + 4 \<le> length src")
    case True
    have "\<forall>y\<in>set (in_lanes src (off + 4)). off < fst y"
    proof
      fix y assume "y \<in> set (in_lanes src (off + 4))"
      then have "(fst y, snd y) \<in> set (in_lanes src (off + 4))" by simp
      from in_lanes_grid [OF this] show "off < fst y" by simp
    qed
    then show ?thesis using 1 [OF True] True in_lanes.simps [of src off] by simp
  next
    case False
    then show ?thesis using in_lanes.simps [of src off] by simp
  qed
qed

lemma frame_lanes_sorted: "sorted_wrt (\<lambda>x y. fst x < fst y) (frame_lanes cap ms k)"
proof -
  have "sorted_wrt (\<lambda>x y. fst x < fst y) (map (\<lambda>(o', bs). (rec_at cap ms k + 4 + o', bs)) (in_lanes (ms ! k) 0))"
    using in_lanes_sorted [of "ms ! k" 0] by (auto simp: sorted_wrt_map case_prod_beta)
  then show ?thesis
    using rec_at_ge [of cap ms k] by (auto simp: frame_lanes_def copy_in_lanes_def)
qed

lemma frame_lanes_ok:
  assumes "8 dvd cap" and "0 < cap"
  shows "\<forall>l\<in>set (frame_lanes cap ms k). lane_ok cap (frame_at cap ms k) (frame_at cap ms (Suc k)) l"
proof
  fix l assume "l \<in> set (frame_lanes cap ms k)"
  then have "(fst l, snd l) \<in> set (frame_lanes cap ms k)" by simp
  from frame_lane_grid [OF assms this] show "lane_ok cap (frame_at cap ms k) (frame_at cap ms (Suc k)) l"
    by (simp add: lane_ok_def)
qed

text \<open>A frame is no longer than the buffer.\<close>

lemma frame_short:
  assumes "valid_mask m" and "8 dvd capacity_of m" and "legal_length (capacity_of m) (length (ms ! k))"
  shows "frame_at (capacity_of m) ms (Suc k) \<le> frame_at (capacity_of m) ms k + capacity_of m"
proof -
  let ?C = "capacity_of m" and ?f = "frame_at (capacity_of m) ms k" and ?r = "rlen8 (length (ms ! k))"
  have c: "0 < ?C" using assms(1) by (rule capacity_pos)
  have al: "8 dvd ?f mod ?C" using frame_aligned(1) [OF assms(2) c] assms(2) by (simp add: dvd_mod)
  have fits: "?r \<le> ?C" by (rule legal_fits [OF assms(2) c assms(3)])
  show ?thesis
  proof (rule rec_at_cases [of ?C ms k])
    assume "rec_at ?C ms k = ?f + (?C - ?f mod ?C)" and pad: "?C - ?f mod ?C < ?r"
    moreover have "?C - ?f mod ?C + ?r \<le> ?C"
    proof -
      obtain c' where c': "?C = 8 * c'" using assms(2) by (elim dvdE)
      obtain j where "?C = 2 ^ j" using assms(1) by (rule valid_maskE)
      have len: "length (ms ! k) \<le> c'" using assms(3) c' by (simp add: legal_length_def)
      have "?f mod ?C < ?C" using c by simp
      then have "8 \<le> ?C - ?f mod ?C" using al assms(2) by (elim dvdE) auto
      then have big: "16 \<le> ?r" using pad rlen8_bounds(3) [of "length (ms ! k)"] by (elim dvdE) auto
      then have "5 \<le> length (ms ! k)" unfolding rlen8_def by presburger
      then have c5: "5 \<le> c'" using len by linarith
      have two: "2 * ?r \<le> ?C + 7"
      proof -
        have "?r \<le> c' + 11" using rlen8_bounds(2) [of "length (ms ! k)"] len by linarith
        then show ?thesis using c' c5 by linarith
      qed
      have "8 dvd ?C - ?f mod ?C" using al assms(2) by simp
      then have "?C - ?f mod ?C + 8 \<le> ?r" using pad rlen8_bounds(3) [of "length (ms ! k)"] by (elim dvdE) auto
      then show ?thesis using two by linarith
    qed
    ultimately show ?thesis by (simp add: frame_at_Suc)
  next
    assume "rec_at ?C ms k = ?f"
    then show ?thesis using fits by (simp add: frame_at_Suc)
  qed
qed

text \<open>The stores of a push, as the lanes of its frame.\<close>

definition bb_producer_at :: "u64 \<Rightarrow> bb_producer \<Rightarrow> bbytes_shared \<Rightarrow> bool" where
  "bb_producer_at m p sh \<longleftrightarrow> bbp_mask p = m \<and> bbp_next p = bb_tail sh
     \<and> bb_intent sh \<le> max (bbp_next p) (bbp_intent_floor p)"

lemma bb_frame_next:
  assumes m: "valid_mask m" and al: "8 dvd capacity_of m" and lg: "legal_length (capacity_of m) len"
  shows "bb_frame m nx (of_nat len)
    = (let (r, e) = next_frame (capacity_of m) (unat nx) len in (of_nat (r - unat nx), of_nat (e - unat nx)))"
proof -
  let ?C = "capacity_of m"
  note L = legal_span [OF m lg]
  have off: "unat (nx AND m) = unat nx mod ?C"
    using slot_ix_mod [OF m, of nx] by (simp add: slot_ix_def)
  have lt: "unat nx mod ?C < ?C" using capacity_pos [OF m] by simp
  have te: "unat (m + 1 - (nx AND m)) = ?C - unat nx mod ?C"
    using to_end_unat [OF m lt] by (simp add: off [symmetric])
  have le: "bb_record_len (of_nat len) \<le> m + 1 - (nx AND m) \<longleftrightarrow> rlen8 len \<le> ?C - unat nx mod ?C"
    unfolding word_le_nat_alt te L(2) ..
  have rw: "bb_record_len (of_nat len) = of_nat (rlen8 len)" using L(2) by (metis of_nat_unat ucast_id)
  have tw: "m + 1 - (nx AND m) = of_nat (?C - unat nx mod ?C)" using te by (metis of_nat_unat ucast_id)
  show ?thesis
    unfolding bb_frame_def next_frame_def Let_def le
    by (simp add: rw tw)
qed

definition frame_stores :: "nat \<Rightarrow> u8 list list \<Rightarrow> u8 list \<Rightarrow> u64 \<Rightarrow> bb_store list" where
  "frame_stores cap cs v declared =
     (let ms = cs @ [v]; n = length cs
      in BSt_intent declared # lane_stores cap (frame_lanes cap ms n)
         @ [BSt_latest (of_nat (rec_at cap ms n)), BSt_tail (of_nat (frame_at cap ms (Suc n)))])"

lemma push_stores:
  assumes m: "valid_mask m" and al: "8 dvd capacity_of m" and lg: "legal_length (capacity_of m) (length v)"
    and at: "bytes_at m cs sh" and pr: "bb_producer_at m p sh"
    and sp: "stream_end (capacity_of m) cs + 2 * capacity_of m < word_span"
  defines "e \<equiv> of_nat (frame_at (capacity_of m) (cs @ [v]) (Suc (length cs)))"
  shows "bb_push v p = Inr (frame_stores (capacity_of m) cs v (max e (bbp_intent_floor p)),
      p\<lparr>bbp_next := e\<rparr>)"
proof -
  let ?C = "capacity_of m" and ?ms = "cs @ [v]" and ?n = "length cs"
  let ?f = "frame_at ?C ?ms ?n" and ?rec = "rec_at ?C ?ms ?n" and ?e = "frame_at ?C ?ms (Suc ?n)"
  have c: "0 < ?C" by (rule capacity_pos [OF m])
  have lv: "legal_length ?C (length (?ms ! ?n))" using lg by simp
  have f: "?f = stream_end ?C cs" by (simp add: stream_end_def frame_at_append)
  have pm: "bbp_mask p = m" and nx: "unat (bbp_next p) = ?f"
    using pr bytes_atD(3) [OF at] by (simp_all add: bb_producer_at_def f)
  have nf: "next_frame ?C ?f (length v) = (?rec, ?e)"
    by (simp add: rec_at_def prod_eq_iff frame_at.simps(2))
  have ord: "?f \<le> ?rec" "?rec < ?e" using rec_at_ge [of ?C ?ms ?n] rec_at_less [of ?C ?ms ?n] by simp_all
  have es: "?e < word_span" using frame_short [OF m al lv] sp f by linarith
  have nw: "bbp_next p = of_nat ?f" using nx by (metis of_nat_unat ucast_id)
  have add: "bbp_next p + of_nat (x - ?f) = of_nat x" if "?f \<le> x" for x
    unfolding nw using that by (simp flip: of_nat_add)
  have frm: "bb_frame m (bbp_next p) (of_nat (length v)) = (of_nat (?rec - ?f), of_nat (?e - ?f))"
    unfolding bb_frame_next [OF m al lg] nx nf by simp
  have pad: "(of_nat (?rec - ?f) :: u64) > 0 \<longleftrightarrow> ?rec \<noteq> ?f"
  proof -
    have "unat (of_nat (?rec - ?f) :: u64) = ?rec - ?f" by (rule unat_of_nat_span) (use es ord in linarith)
    then show ?thesis using ord(1) by (auto simp: word_less_nat_alt)
  qed
  have o1: "unat (bbp_next p AND m) = ?f mod ?C"
    using slot_ix_mod [OF m, of "bbp_next p"] by (simp add: slot_ix_def nx)
  have ur: "unat (of_nat ?rec :: u64) = ?rec" by (rule unat_of_nat_span) (use es ord in linarith)
  have o2: "unat (of_nat ?rec AND m) = ?rec mod ?C"
    using slot_ix_mod [OF m, of "of_nat ?rec"] ur by (simp add: slot_ix_def)
  have pay: "map (\<lambda>(o', bs). BSt_lane (?rec mod ?C + 4 + o') bs) (copy_in_lanes v)
      = map (\<lambda>(o', bs). BSt_lane ((?rec + 4 + o') mod ?C) bs) (copy_in_lanes v)"
  proof (rule map_cong [OF refl])
    fix l assume l: "l \<in> set (copy_in_lanes v)"
    obtain o' bs where lb: "l = (o', bs)" by (cases l)
    then have "(o', bs) \<in> set (copy_in_lanes v)" using l by simp
    then have "o' < length v" using in_lanes_grid by (auto simp: copy_in_lanes_def)
    then have "?rec mod ?C + (4 + o') < ?C"
      using rec_fits [OF c, of ?ms ?n] legal_fits [OF al c lg] rlen8_bounds(1) [of "length v"] by simp
    moreover have "(?rec + 4 + o') mod ?C = (?rec mod ?C + (4 + o')) mod ?C"
      by (simp add: mod_add_left_eq add.assoc)
    ultimately show "(case l of (o', bs) \<Rightarrow> BSt_lane (?rec mod ?C + 4 + o') bs)
        = (case l of (o', bs) \<Rightarrow> BSt_lane ((?rec + 4 + o') mod ?C) bs)" unfolding lb by simp
  qed
  have short: "\<not> unat (bb_max_message_len (m + 1)) < length v" using lg legal_bb_max by simp
  have lanes: "lane_stores ?C (frame_lanes ?C ?ms ?n)
      = (if ?rec \<noteq> ?f then [BSt_lane (?f mod ?C) (bytes_of_u32 BB_PADDING)] else [])
        @ BSt_lane (?rec mod ?C) (bytes_of_u32 (of_nat (length v)))
        # map (\<lambda>(o', bs). BSt_lane ((?rec + 4 + o') mod ?C) bs) (copy_in_lanes v)"
    by (simp add: lane_stores_def frame_lanes_def case_prod_beta)
  show ?thesis
    unfolding bb_push_def Let_def pm frm prod.case frame_stores_def lanes e_def
    using short add [of ?rec] add [of ?e] ord
    by (simp only: if_False pad o1 o2 pay unat_BB_HEADER order_less_imp_le le_trans
        order_trans [OF ord(1) less_imp_le [OF ord(2)]]) simp
qed

lemma record_boundary:
  assumes "0 < cap" and "rlen8 (length v) \<le> cap"
  shows "boundary cap cs (rec_at cap (cs @ [v]) (length cs))"
proof (rule rec_at_cases [of cap "cs @ [v]" "length cs"])
  have f: "frame_at cap (cs @ [v]) (length cs) = stream_end cap cs"
    by (simp add: stream_end_def frame_at_append)
  {
    assume "rec_at cap (cs @ [v]) (length cs) = frame_at cap (cs @ [v]) (length cs)"
    then show ?thesis by (simp add: boundary_def f)
  }
  assume r: "rec_at cap (cs @ [v]) (length cs) = frame_at cap (cs @ [v]) (length cs)
      + (cap - frame_at cap (cs @ [v]) (length cs) mod cap)"
    and l: "cap - frame_at cap (cs @ [v]) (length cs) mod cap < rlen8 (length ((cs @ [v]) ! length cs))"
  then have "stream_end cap cs mod cap \<noteq> 0" using assms(2) by (auto simp: f)
  then show ?thesis using r by (simp add: boundary_def f next_lap_def)
qed

lemma take_lane_stores: "take j (lane_stores cap lanes) = lane_stores cap (take j lanes)"
  by (simp add: lane_stores_def take_map)

lemma push_steps:
  assumes m: "valid_mask m" and al: "8 dvd capacity_of m" and lg: "legal_length (capacity_of m) (length v)"
    and at: "bytes_at m cs sh" and sp: "stream_end (capacity_of m) cs + 2 * capacity_of m < word_span"
    and d: "bb_intent sh \<le> d" "of_nat (frame_at (capacity_of m) (cs @ [v]) (Suc (length cs))) \<le> d"
  defines "sts \<equiv> frame_stores (capacity_of m) cs v d"
  shows "i < length sts \<Longrightarrow> bytes_at m cs (fold bb_apply (take i sts) sh)"
    and "bytes_at m (cs @ [v]) (fold bb_apply sts sh)"
    and "counters_grow sh sts"
    and "bb_tail (fold bb_apply sts sh) = of_nat (frame_at (capacity_of m) (cs @ [v]) (Suc (length cs)))"
    and "bb_intent (fold bb_apply sts sh) = d"
proof -
  let ?C = "capacity_of m" and ?ms = "cs @ [v]" and ?n = "length cs"
  let ?rec = "rec_at ?C ?ms ?n" and ?e = "frame_at ?C ?ms (Suc ?n)"
  define lanes where "lanes = frame_lanes ?C ?ms ?n"
  define sh0 where "sh0 = bb_apply (BSt_intent d) sh"
  define L where "L = lane_stores ?C lanes"
  define sh1 where "sh1 = fold bb_apply L sh0"
  define sh2 where "sh2 = bb_apply (BSt_latest (of_nat ?rec)) sh1"
  have sts: "sts = BSt_intent d # L @ [BSt_latest (of_nat ?rec), BSt_tail (of_nat ?e)]"
    by (simp add: sts_def frame_stores_def L_def lanes_def Let_def)
  have c: "0 < ?C" by (rule capacity_pos [OF m])
  have fits: "rlen8 (length v) \<le> ?C" by (rule legal_fits [OF al c lg])
  have f: "frame_at ?C ?ms ?n = stream_end ?C cs" by (simp add: stream_end_def frame_at_append)
  have es: "?e < word_span" "?e \<le> stream_end ?C cs + ?C"
    using frame_short [OF m al, of ?ms ?n] lg sp f by simp_all
  have ue: "unat (of_nat ?e :: u64) = ?e" by (rule unat_of_nat_span [OF es(1)])
  have ur: "unat (of_nat ?rec :: u64) = ?rec"
    by (rule unat_of_nat_span) (use es(1) rec_at_less [of ?C ?ms ?n] in linarith)
  have ed: "?e \<le> unat d" using d(2) ue by (simp add: word_le_nat_alt)
  have at0: "bytes_at m cs sh0" unfolding sh0_def by (rule bytes_at_intent [OF at d(1)])
  have i0: "bb_intent sh0 = d" "bb_tail sh0 = bb_tail sh" by (simp_all add: sh0_def)
  have oks: "\<forall>l\<in>set lanes. lane_ok ?C (stream_end ?C cs) ?e l"
    using frame_lanes_ok [OF al c, of ?ms ?n] unfolding lanes_def f .
  have oks': "\<forall>l\<in>set lanes. lane_ok ?C (stream_end ?C cs) (unat (bb_intent sh0)) l"
    using oks ed unfolding i0 lane_ok_def by (meson order_trans)
  have atl: "bytes_at m cs (fold bb_apply (lane_stores ?C (take j lanes)) sh0)" for j
    by (rule bytes_at_lanes [OF at0 al c]) (use oks' in \<open>auto dest: in_set_takeD\<close>)
  have at1: "bytes_at m cs sh1" using atl [of "length lanes"] by (simp add: sh1_def L_def)
  have at2: "bytes_at m cs sh2"
    unfolding sh2_def by (rule bytes_at_latest [OF at1]) (simp add: ur record_boundary [OF c fits])
  have i2: "bb_intent sh2 = d" "bb_tail sh2 = bb_tail sh"
    by (simp_all add: sh2_def sh1_def L_def lanes_keep_counters i0)
  have fin: "fold bb_apply sts sh = bb_apply (BSt_tail (of_nat ?e)) sh2"
    by (simp add: sts sh2_def sh1_def sh0_def)
  show "bytes_at m (cs @ [v]) (fold bb_apply sts sh)"
    unfolding fin
  proof (rule bytes_at_tail [OF at2 c fits])
    show "unat (of_nat ?e :: u64) = stream_end ?C (cs @ [v])" by (simp add: ue stream_end_def)
    show "of_nat ?e \<le> bb_intent sh2" using d(2) i2 by simp
    have buf: "length (bb_buf sh0) = ?C" by (rule bytes_atD(2) [OF at0])
    have "get (fst l mod ?C) 4 (bb_buf sh1) = snd l" if "l \<in> set lanes" for l
      unfolding sh1_def L_def
      by (rule lanes_present [OF al c _ oks es(2) buf])
        (use that frame_lanes_sorted in \<open>auto simp: lanes_def\<close>)
    then show "\<forall>(q, bs)\<in>set (frame_lanes ?C (cs @ [v]) (length cs)). get (q mod ?C) 4 (bb_buf sh2) = bs"
      by (auto simp: lanes_def sh2_def)
  qed
  show "counters_grow sh sts"
    unfolding sts
  proof (simp only: counters_grow.simps counters_grow_append append_Cons append_Nil
      sh0_def [symmetric] L_def [symmetric] sh1_def [symmetric] sh2_def [symmetric], intro conjI)
    show "bb_tail sh2 \<le> bb_tail (bb_apply (BSt_tail (of_nat ?e)) sh2)"
    proof -
      have "stream_end ?C cs \<le> ?e" unfolding f [symmetric] using frame_at_step [of ?C ?ms ?n] by linarith
      then show ?thesis using bytes_atD(3) [OF at] i2(2) ue by (simp add: word_le_nat_alt)
    qed
  qed (use d(1) counters_grow_lanes in \<open>simp_all add: sh0_def sh2_def L_def\<close>)
  show "bb_tail (fold bb_apply sts sh) = of_nat ?e" "bb_intent (fold bb_apply sts sh) = d"
    unfolding fin using i2 by simp_all
  show "bytes_at m cs (fold bb_apply (take i sts) sh)" if "i < length sts"
  proof (cases i)
    case (Suc j)
    have "Suc j < Suc (length L + 2)" using that Suc by (simp add: sts)
    then consider "j \<le> length L" | "j = Suc (length L)" by linarith
    then show ?thesis
    proof cases
      case 1
      then have "take i sts = BSt_intent d # lane_stores ?C (take j lanes)"
        by (simp add: Suc sts L_def take_lane_stores [symmetric])
      then show ?thesis using atl [of j] by (simp add: sh0_def)
    next
      case 2
      then have "fold bb_apply (take i sts) sh = sh2" by (simp add: Suc sts sh2_def sh1_def sh0_def)
      then show ?thesis using at2 by simp
    qed
  qed (use at in simp)
qed

section \<open>Runs of stores\<close>

text \<open>
  \<open>along m cs ms sh sts\<close>: after every prefix of the stores the ring holds the messages
  \<open>cs\<close> and a prefix of \<open>ms\<close>, at the end all of them, and no counter goes back.
\<close>

definition along :: "u64 \<Rightarrow> u8 list list \<Rightarrow> u8 list list \<Rightarrow> bbytes_shared \<Rightarrow> bb_store list \<Rightarrow> bool" where
  "along m cs ms sh sts \<longleftrightarrow> counters_grow sh sts \<and> bytes_at m (cs @ ms) (fold bb_apply sts sh)
     \<and> (\<forall>i. \<exists>j\<le>length ms. bytes_at m (cs @ take j ms) (fold bb_apply (take i sts) sh))"

lemma alongI:
  assumes "counters_grow sh sts" and "bytes_at m (cs @ ms) (fold bb_apply sts sh)"
    and "\<And>i. i < length sts \<Longrightarrow> \<exists>j\<le>length ms. bytes_at m (cs @ take j ms) (fold bb_apply (take i sts) sh)"
  shows "along m cs ms sh sts"
proof -
  have "\<exists>j\<le>length ms. bytes_at m (cs @ take j ms) (fold bb_apply (take i sts) sh)" for i
  proof (cases "i < length sts")
    case False
    then show ?thesis using assms(2) by (intro exI [of _ "length ms"]) simp
  qed (rule assms(3))
  then show ?thesis using assms(1,2) by (simp add: along_def)
qed

lemma along_end: "along m cs ms sh sts \<Longrightarrow> bytes_at m (cs @ ms) (fold bb_apply sts sh)"
  by (simp add: along_def)

lemma along_Nil: "bytes_at m cs sh \<Longrightarrow> along m cs [] sh []"
  by (simp add: along_def)

lemma along_append:
  assumes "along m cs ms sh sts" and "along m (cs @ ms) ms' (fold bb_apply sts sh) sts'"
  shows "along m cs (ms @ ms') sh (sts @ sts')"
proof (rule alongI)
  show "counters_grow sh (sts @ sts')" using assms by (simp add: along_def counters_grow_append)
  show "bytes_at m (cs @ ms @ ms') (fold bb_apply (sts @ sts') sh)" using assms(2) by (simp add: along_def)
  fix i
  show "\<exists>j\<le>length (ms @ ms'). bytes_at m (cs @ take j (ms @ ms')) (fold bb_apply (take i (sts @ sts')) sh)"
  proof (cases "i \<le> length sts")
    case True
    obtain j where "j \<le> length ms" "bytes_at m (cs @ take j ms) (fold bb_apply (take i sts) sh)"
      using assms(1) unfolding along_def by blast
    then show ?thesis using True by (intro exI [of _ j]) simp
  next
    case False
    obtain j where "j \<le> length ms'"
      "bytes_at m ((cs @ ms) @ take j ms') (fold bb_apply (take (i - length sts) sts') (fold bb_apply sts sh))"
      using assms(2) unfolding along_def by blast
    then show ?thesis using False by (intro exI [of _ "length ms + j"]) simp
  qed
qed

text \<open>The messages that the first \<open>n\<close> stores of a session commit.\<close>

fun bb_committed :: "bb_call list \<Rightarrow> bb_producer \<Rightarrow> nat \<Rightarrow> u8 list list" where
  "bb_committed [] p n = []"
| "bb_committed (BCall_push v # calls) p n =
     (case bb_push v p of
        Inl _ \<Rightarrow> bb_committed calls p n
      | Inr (sts, p1) \<Rightarrow>
          if length sts \<le> n then v # bb_committed calls p1 (n - length sts) else [])"
| "bb_committed (BCall_drop # calls) p n = []"

lemma stream_end_prefix: "stream_end cap cs \<le> stream_end cap (cs @ ms)"
proof -
  have "stream_end cap cs = frame_at cap (cs @ ms) (length cs)" by (simp add: stream_end_def frame_at_append)
  then show ?thesis unfolding stream_end_def by (simp add: frame_at_mono)
qed

lemma push_illegal:
  assumes "bbp_mask p = m"
  shows "\<not> legal_length (capacity_of m) (length v) \<longleftrightarrow> bb_push v p = Inl Panic"
  using assms by (auto simp: bb_push_def legal_bb_max Let_def split: prod.splits)

lemma push_along:
  assumes m: "valid_mask m" and al: "8 dvd capacity_of m" and lg: "legal_length (capacity_of m) (length v)"
    and at: "bytes_at m cs sh" and pr: "bb_producer_at m p sh"
    and sp: "stream_end (capacity_of m) cs + 2 * capacity_of m < word_span"
  obtains sts p1 where "bb_push v p = Inr (sts, p1)" and "along m cs [v] sh sts"
    and "\<And>n. n < length sts \<Longrightarrow> along m cs [] sh (take n sts)"
    and "bb_producer_at m p1 (fold bb_apply sts sh)"
proof -
  let ?C = "capacity_of m"
  define e :: u64 where "e = of_nat (frame_at ?C (cs @ [v]) (Suc (length cs)))"
  define d where "d = max e (bbp_intent_floor p)"
  define sts where "sts = frame_stores ?C cs v d"
  have push: "bb_push v p = Inr (sts, p\<lparr>bbp_next := e\<rparr>)"
    unfolding sts_def d_def e_def by (rule push_stores [OF m al lg at pr sp])
  have f: "frame_at ?C (cs @ [v]) (length cs) = stream_end ?C cs" by (simp add: stream_end_def frame_at_append)
  have "frame_at ?C (cs @ [v]) (Suc (length cs)) < word_span"
    using frame_short [OF m al, of "cs @ [v]" "length cs"] lg sp f by simp
  then have ue: "unat e = frame_at ?C (cs @ [v]) (Suc (length cs))" unfolding e_def by (rule unat_of_nat_span)
  have "bbp_next p \<le> e"
    using frame_at_step [of ?C "cs @ [v]" "length cs"] pr bytes_atD(3) [OF at] ue f
    by (simp add: bb_producer_at_def word_le_nat_alt)
  then have id: "bb_intent sh \<le> d" using pr by (auto simp: bb_producer_at_def d_def le_max_iff_disj)
  have ed: "of_nat (frame_at ?C (cs @ [v]) (Suc (length cs))) \<le> d" by (simp add: d_def e_def)
  note S = push_steps [OF m al lg at sp id ed, folded sts_def]
  show ?thesis
  proof (rule that [OF push])
    show "along m cs [v] sh sts"
      by (rule alongI) (use S in \<open>auto intro: exI [of _ 0]\<close>)
    show "along m cs [] sh (take n sts)" if "n < length sts" for n
      by (rule alongI) (use S counters_grow_take that in auto)
    show "bb_producer_at m (p\<lparr>bbp_next := e\<rparr>) (fold bb_apply sts sh)"
      using pr S(4,5) by (simp add: bb_producer_at_def d_def e_def)
  qed
qed

lemma program_along:
  assumes m: "valid_mask m" and al: "8 dvd capacity_of m"
    and "bytes_at m cs sh" and "bb_producer_at m p sh"
    and "stream_end (capacity_of m) (cs @ bb_committed calls p n) + 2 * capacity_of m < word_span"
  shows "along m cs (bb_committed calls p n) sh (take n (bb_program calls p))"
  using assms(3-5)
proof (induction calls p n arbitrary: cs sh rule: bb_committed.induct)
  case (2 v calls p n)
  have pm: "bbp_mask p = m" using 2(4) by (simp add: bb_producer_at_def)
  show ?case
  proof (cases "legal_length (capacity_of m) (length v)")
    case False
    then have "bb_push v p = Inl Panic" using push_illegal [OF pm] by simp
    then show ?thesis using 2 by simp
  next
    case True
    have "stream_end (capacity_of m) cs + 2 * capacity_of m < word_span"
      using stream_end_prefix 2(5) by (meson add_le_mono1 order_le_less_trans)
    from push_along [OF m al True 2(3,4) this]
    obtain sts p1 where P: "bb_push v p = Inr (sts, p1)" "along m cs [v] sh sts"
      "\<And>n. n < length sts \<Longrightarrow> along m cs [] sh (take n sts)" "bb_producer_at m p1 (fold bb_apply sts sh)" by blast
    show ?thesis
    proof (cases "length sts \<le> n")
      case True
      have "along m (cs @ [v]) (bb_committed calls p1 (n - length sts)) (fold bb_apply sts sh)
          (take (n - length sts) (bb_program calls p1))"
        by (rule "2.IH"(2) [OF P(1) refl True along_end [OF P(2)] P(4)]) (use 2(5) P(1) True in simp)
      from along_append [OF P(2) this] show ?thesis using P(1) True by simp
    next
      case False
      then show ?thesis using P(1) P(3) [of n] by simp
    qed
  qed
next
  case (3 calls p n)
  then have "bytes_at m cs sh" "bytes_at m cs (bb_apply (BSt_closed 1) sh)"
    by (simp_all only: bytes_at_closed)
  then show ?case
    by (cases n) (auto simp: bb_producer_drop_def along_Nil less_Suc_eq intro!: alongI)
qed (simp add: along_Nil)

lemma attach_along:
  assumes "bytes_at m cs sh" and "bb_attach sh = (heal, p)" and "0 < capacity_of m"
  shows "along m cs [] sh heal" and "bb_producer_at m p (fold bb_apply heal sh)"
proof -
  note B = bytes_atD [OF assms(1)]
  define fix' where "fix' = (if bb_intent sh \<noteq> bb_tail sh then [BSt_latest (bb_tail sh)] else [])"
  have heal: "heal = BSt_closed 0 # fix'"
    and p: "p = \<lparr>bbp_mask = m, bbp_next = bb_tail sh, bbp_intent_floor = max (bb_intent sh) (bb_tail sh)\<rparr>"
    using assms(2) B(1) by (auto simp: bb_attach_def bytes_heal_on_attach_def bb_producer_from_shm_def fix'_def)
  define sh1 where "sh1 = bb_apply (BSt_closed 0) sh"
  have at1: "bytes_at m cs sh1" unfolding sh1_def by (rule bytes_at_closed [OF assms(1)])
  have "boundary (capacity_of m) cs (unat (bb_tail sh))" by (simp add: B(3) boundary_def)
  then have at2: "bytes_at m cs (fold bb_apply fix' sh1)"
    using at1 bytes_at_latest by (simp add: fix'_def)
  have "bytes_at m cs (fold bb_apply (take i heal) sh)" for i
  proof (cases i)
    case (Suc j)
    then have "fold bb_apply (take i heal) sh = fold bb_apply (take j fix') sh1" by (simp add: heal sh1_def)
    then show ?thesis using at1 at2 by (cases j) (auto simp: fix'_def)
  qed (use assms(1) in simp)
  then show "along m cs [] sh heal"
    unfolding along_def using at2 by (auto simp: heal sh1_def fix'_def)
  show "bb_producer_at m p (fold bb_apply heal sh)"
    by (auto simp: bb_producer_at_def p heal fix'_def)
qed

text \<open>The messages of a run of sessions.\<close>

fun bb_stream :: "(bb_call list \<times> nat) list \<Rightarrow> bbytes_shared \<Rightarrow> bb_producer \<Rightarrow> u8 list list" where
  "bb_stream [] sh p = []"
| "bb_stream ((calls, died) # rest) sh p =
     (let sh1 = fold bb_apply (take died (bb_program calls p)) sh
      in case bb_attach sh1 of (heal, p2) \<Rightarrow>
           bb_committed calls p died @ bb_stream rest (fold bb_apply heal sh1) p2)"

lemma sessions_along:
  assumes m: "valid_mask m" and al: "8 dvd capacity_of m"
    and "bytes_at m cs sh" and "bb_producer_at m p sh"
    and "stream_end (capacity_of m) (cs @ bb_stream ss sh p) + 2 * capacity_of m < word_span"
  shows "along m cs (bb_stream ss sh p) sh (bb_sessions ss sh p)"
  using assms(3-5)
proof (induction ss sh p arbitrary: cs rule: bb_stream.induct)
  case (2 calls died rest sh p)
  define new where "new = bb_committed calls p died"
  define sts where "sts = take died (bb_program calls p)"
  define sh1 where "sh1 = fold bb_apply sts sh"
  obtain heal p2 where at: "bb_attach sh1 = (heal, p2)" by fastforce
  define sh2 where "sh2 = fold bb_apply heal sh1"
  have st: "bb_stream ((calls, died) # rest) sh p = new @ bb_stream rest sh2 p2"
    and se: "bb_sessions ((calls, died) # rest) sh p
      = (if rest = [] then sts else sts @ heal @ bb_sessions rest sh2 p2)"
    using at by (simp_all add: new_def sts_def sh1_def sh2_def Let_def)
  have "stream_end (capacity_of m) (cs @ new) + 2 * capacity_of m < word_span"
    using stream_end_prefix [of "capacity_of m" "cs @ new" "bb_stream rest sh2 p2"] 2(4) st by simp
  then have a1: "along m cs new sh sts"
    unfolding new_def sts_def by (intro program_along [OF m al 2(2,3)])
  note A = attach_along [OF along_end [OF a1, folded sh1_def] at capacity_pos [OF m], folded sh2_def]
  have "along m (cs @ new) (bb_stream rest sh2 p2) sh2 (bb_sessions rest sh2 p2)"
    using "2.IH" [OF refl at [unfolded sh1_def sts_def, symmetric], of "cs @ new"]
      A(2) along_end [OF A(1)] 2(4) st by (simp add: sts_def sh1_def sh2_def)
  then have "along m (cs @ new) ([] @ bb_stream rest sh2 p2) sh1 (heal @ bb_sessions rest sh2 p2)"
    by (intro along_append [OF A(1)]) (simp add: sh2_def)
  then show ?case unfolding st se using along_append [OF a1] a1 by (auto simp: sh1_def)
qed (simp add: along_Nil)

lemma committed_legal:
  "bbp_mask p = m \<Longrightarrow> v \<in> set (bb_committed calls p n) \<Longrightarrow> legal_length (capacity_of m) (length v)"
proof (induction calls p n rule: bb_committed.induct)
  case (2 w calls p n)
  show ?case
  proof (cases "bb_push w p")
    case (Inl f)
    then show ?thesis using 2 by simp
  next
    case (Inr s)
    obtain sts p1 where s: "bb_push w p = Inr (sts, p1)" using Inr by (cases s) simp
    have "legal_length (capacity_of m) (length w)" using push_illegal [OF 2(3), of w] s by auto
    moreover have "bbp_mask p1 = m" using s 2(3) by (auto simp: bb_push_def Let_def split: if_splits prod.splits)
    ultimately show ?thesis using 2(2) [OF s refl] 2(4) s by (auto split: if_splits)
  qed
qed simp_all

lemma apply_mask: "bb_mask (fold bb_apply sts sh) = bb_mask sh"
proof (induction sts arbitrary: sh)
  case (Cons s sts)
  then show ?case by (cases s) simp_all
qed simp

lemma stream_legal:
  "bbp_mask p = m \<Longrightarrow> bb_mask sh = m \<Longrightarrow> v \<in> set (bb_stream ss sh p)
   \<Longrightarrow> legal_length (capacity_of m) (length v)"
proof (induction ss sh p rule: bb_stream.induct)
  case (2 calls died rest sh p)
  define sh1 where "sh1 = fold bb_apply (take died (bb_program calls p)) sh"
  obtain heal p2 where at: "bb_attach sh1 = (heal, p2)" by fastforce
  have "bb_mask sh1 = m" "bb_mask (fold bb_apply heal sh1) = m"
    unfolding sh1_def using 2(3) by (simp_all add: apply_mask)
  moreover have "bbp_mask p2 = bb_mask sh1"
    using at by (auto simp: bb_attach_def bb_producer_from_shm_def split: prod.splits)
  moreover have "v \<in> set (bb_committed calls p died) \<or> v \<in> set (bb_stream rest (fold bb_apply heal sh1) p2)"
    using 2(4) at by (simp add: sh1_def)
  ultimately show ?case
    using committed_legal [OF 2(2)] 2(1) [OF refl at [unfolded sh1_def, symmetric]] by (auto simp: sh1_def)
qed simp

section \<open>The laws of a byte history\<close>

lemma grow_prefix:
  assumes "counters_grow sh sts" and "t \<le> t'"
  shows "bb_tail (fold bb_apply (take t sts) sh) \<le> bb_tail (fold bb_apply (take t' sts) sh)
    \<and> bb_intent (fold bb_apply (take t sts) sh) \<le> bb_intent (fold bb_apply (take t' sts) sh)"
  using assms
proof (induction sts arbitrary: sh t t')
  case (Cons s sts)
  have ge: "bb_tail (bb_apply s sh) \<le> bb_tail (fold bb_apply (take j sts) (bb_apply s sh))
    \<and> bb_intent (bb_apply s sh) \<le> bb_intent (fold bb_apply (take j sts) (bb_apply s sh))" for j
    using Cons.IH [of "bb_apply s sh" 0 j] Cons.prems(1) by simp
  show ?case
  proof (cases t)
    case 0
    then show ?thesis using Cons.prems(1) ge [of "t' - 1"] by (cases t') auto
  next
    case (Suc i)
    then obtain i' where "t' = Suc i'" "i \<le> i'" using Cons.prems(2) by (cases t') auto
    then show ?thesis using Cons.IH [of "bb_apply s sh" i i'] Cons.prems(1) Suc by simp
  qed
qed simp

lemma along_grow:
  assumes "along m cs ms sh sts" and "t \<le> t'"
  shows "bb_tail (bb_memory sh sts t) \<le> bb_tail (bb_memory sh sts t')"
    and "bb_intent (bb_memory sh sts t) \<le> bb_intent (bb_memory sh sts t')"
  using grow_prefix [OF _ assms(2)] assms(1) unfolding bb_memory_def along_def by blast+

text \<open>The position of the tail when a drop first sets the closed word.\<close>

definition close_position :: "bbytes_shared \<Rightarrow> bb_store list \<Rightarrow> nat \<Rightarrow> nat" where
  "close_position sh sts e =
     (case find (\<lambda>t. bb_closed (bb_memory sh sts t) \<noteq> 0) [0..<Suc (length sts)] of
        None \<Rightarrow> e
      | Some t \<Rightarrow> unat (bb_tail (bb_memory sh sts t)))"

lemma closed_behind:
  assumes "along m cs ms sh sts" and "bb_closed (bb_memory sh sts t) \<noteq> 0"
  shows "close_position sh sts e \<le> unat (bb_tail (bb_memory sh sts t))"
proof -
  define L where "L = length sts"
  define P where "P t \<longleftrightarrow> bb_closed (bb_memory sh sts t) \<noteq> 0" for t
  have last: "bb_memory sh sts t = bb_memory sh sts (min t L)"
    by (cases "t \<le> L") (simp_all add: bb_memory_def L_def min_def)
  then have here: "min t L \<in> set [0..<Suc L]" "P (min t L)" using assms(2) by (auto simp: P_def)
  then have "find P [0..<Suc L] \<noteq> None" by (auto simp: find_None_iff)
  then obtain t0 where t0: "find P [0..<Suc L] = Some t0" by blast
  have "t0 \<le> min t L"
  proof (rule ccontr)
    assume "\<not> t0 \<le> min t L"
    moreover obtain i where "i < length [0..<Suc L]" "t0 = [0..<Suc L] ! i" "\<forall>j<i. \<not> P ([0..<Suc L] ! j)"
      using t0 unfolding find_Some_iff by blast
    moreover have "[0..<Suc L] ! i = i" if "i < Suc L" for i using that by (simp add: nth_append)
    ultimately show False using here(2) by auto
  qed
  then have "bb_tail (bb_memory sh sts t0) \<le> bb_tail (bb_memory sh sts t)"
    using along_grow(1) [OF assms(1)] last by metis
  moreover have "close_position sh sts e = unat (bb_tail (bb_memory sh sts t0))"
    using t0 unfolding close_position_def L_def P_def by simp
  ultimately show ?thesis by (simp add: word_le_nat_alt)
qed

lemma frame_at_take:
  assumes "j \<le> length ms"
  shows "stream_end cap (take j ms) = frame_at cap ms j"
proof -
  have len: "length (take j ms) = j" using assms by simp
  have "frame_at cap (take j ms @ drop j ms) j = frame_at cap (take j ms) j"
    by (rule frame_at_append) (simp only: len)
  then show ?thesis by (simp only: append_take_drop_id stream_end_def len)
qed

lemma frame_lanes_take:
  "k < j \<Longrightarrow> j \<le> length ms \<Longrightarrow> frame_lanes cap (take j ms) k = frame_lanes cap ms k"
  using frame_lanes_append [of k "take j ms" cap "drop j ms"] by simp

text \<open>Every instant of a run obeys the laws, over the final list of messages.\<close>

lemma along_history:
  assumes m: "valid_mask m" and al: "8 dvd capacity_of m" and run: "along m [] ms sh sts"
    and lg: "\<forall>v\<in>set ms. legal_length (capacity_of m) (length v)"
  shows "length (bb_buf (bb_memory sh sts t)) = capacity_of m"
    and "bb_tail (bb_memory sh sts t) \<le> bb_intent (bb_memory sh sts t)"
    and "\<exists>j\<le>length ms. unat (bb_tail (bb_memory sh sts t)) = frame_at (capacity_of m) ms j"
    and "boundary (capacity_of m) ms (unat (bb_latest (bb_memory sh sts t)))"
    and "bb_closed (bb_memory sh sts t) \<noteq> 0 \<Longrightarrow>
      close_position sh sts e \<le> unat (bb_tail (bb_memory sh sts t))"
    and "k < length ms \<Longrightarrow> frame_at (capacity_of m) ms (Suc k) \<le> unat (bb_tail (bb_memory sh sts t))
      \<Longrightarrow> (q, bs) \<in> set (frame_lanes (capacity_of m) ms k)
      \<Longrightarrow> unat (bb_intent (bb_memory sh sts t)) \<le> q + capacity_of m
      \<Longrightarrow> get (q mod capacity_of m) 4 (bb_buf (bb_memory sh sts t)) = bs"
proof -
  let ?C = "capacity_of m" and ?mem = "bb_memory sh sts t"
  have c: "0 < ?C" by (rule capacity_pos [OF m])
  obtain j where j: "j \<le> length ms" "bytes_at m (take j ms) ?mem"
    using run unfolding along_def bb_memory_def by auto
  note B = bytes_atD [OF j(2)]
  have tail: "unat (bb_tail ?mem) = frame_at ?C ms j" using B(3) frame_at_take [OF j(1)] by simp
  show "length (bb_buf ?mem) = ?C" "bb_tail ?mem \<le> bb_intent ?mem" by (rule B)+
  show "\<exists>j\<le>length ms. unat (bb_tail ?mem) = frame_at ?C ms j" using j(1) tail by blast
  show "bb_closed ?mem \<noteq> 0 \<Longrightarrow> close_position sh sts e \<le> unat (bb_tail ?mem)"
    by (rule closed_behind [OF run])
  have "rlen8 (length v) \<le> ?C" if "v \<in> set (drop j ms)" for v
    using legal_fits [OF al c] lg in_set_dropD [OF that] by blast
  then have "boundary ?C (take j ms @ drop j ms) (unat (bb_latest ?mem))"
    by (intro boundary_append [OF c _ B(5)]) blast
  then show "boundary ?C ms (unat (bb_latest ?mem))" by simp
  assume k: "k < length ms" "frame_at ?C ms (Suc k) \<le> unat (bb_tail ?mem)"
    and lane: "(q, bs) \<in> set (frame_lanes ?C ms k)" and win: "unat (bb_intent ?mem) \<le> q + ?C"
  have "k < j"
    using k(2) tail frame_at_mono [of j k ?C ms] frame_at_step [of ?C ms k] by linarith
  then show "get (q mod ?C) 4 (bb_buf ?mem) = bs"
    using B(6) [OF _ _ win, of k bs] lane frame_lanes_take [OF _ j(1)] j(1) by simp
qed

end
