(* ===== verification/Broadcast_Bytes_Properties.thy ===== *)
theory Broadcast_Bytes_Properties
  imports Byte_Trace
begin

text \<open>
  The properties of the lossy byte ring: the contract of \<open>Byte_History\<close> holds of every
  run of producer sessions on a new ring, also of sessions that die between two
  stores, and with it every fact about the readers.
\<close>

section \<open>Runs of a new ring\<close>

text \<open>
  The requested capacity and the sessions of the producer role: what each calls, and
  after how many stores it dies.
\<close>

record bbytes_run =
  bbr_min :: usize
  bbr_sessions :: "(bb_call list \<times> nat) list"

definition bbr_handles :: "bbytes_run \<Rightarrow> bbytes_shared \<times> bb_producer \<times> bb_consumer" where
  "bbr_handles r = projr (bb_with_wait_strategies (bbr_min r))"

definition bbr_mask :: "bbytes_run \<Rightarrow> u64" where
  "bbr_mask r = bb_mask (fst (bbr_handles r))"

definition bbr_stores :: "bbytes_run \<Rightarrow> bb_store list" where
  "bbr_stores r = bb_sessions (bbr_sessions r) (fst (bbr_handles r)) (fst (snd (bbr_handles r)))"

definition bbr_messages :: "bbytes_run \<Rightarrow> u8 list list" where
  "bbr_messages r = bb_stream (bbr_sessions r) (fst (bbr_handles r)) (fst (snd (bbr_handles r)))"

definition bbr_memory :: "bbytes_run \<Rightarrow> nat \<Rightarrow> bbytes_shared" where
  "bbr_memory r t = bb_memory (fst (bbr_handles r)) (bbr_stores r) t"

text \<open>The construction succeeds, and the stream does not wrap the 64-bit counters.\<close>

definition bbr_ok :: "bbytes_run \<Rightarrow> bool" where
  "bbr_ok r \<longleftrightarrow> (case bb_round_capacity (bbr_min r) of Inl _ \<Rightarrow> False | Inr _ \<Rightarrow> True)
     \<and> stream_end (capacity_of (bbr_mask r)) (bbr_messages r) + 2 * capacity_of (bbr_mask r) < word_span"

definition bbr_ends :: "bbytes_run \<Rightarrow> nat" where
  "bbr_ends r = close_position (fst (bbr_handles r)) (bbr_stores r)
     (stream_end (capacity_of (bbr_mask r)) (bbr_messages r))"

lemma bbr_new:
  assumes "bbr_ok r"
  shows "valid_mask (bbr_mask r)" and "8 dvd capacity_of (bbr_mask r)"
    and "bytes_at (bbr_mask r) [] (fst (bbr_handles r))"
    and "bb_producer_at (bbr_mask r) (fst (snd (bbr_handles r))) (fst (bbr_handles r))"
proof -
  obtain capacity where rc: "bb_round_capacity (bbr_min r) = Inr capacity"
    using assms by (auto simp: bbr_ok_def split: sum.splits)
  have "BB_MIN_CAPACITY = 2 ^ 3" "(3 :: nat) < 64" by (simp_all add: BB_MIN_CAPACITY_def)
  note R = round_capacity_pow2 [OF rc [unfolded bb_round_capacity_def] this]
  define sh where "sh = fst (bbr_handles r)"
  define p where "p = fst (snd (bbr_handles r))"
  have sh: "sh = \<lparr>bb_buf = replicate (unat (capacity div BB_ALIGN) * 8) 0, bb_mask = capacity - 1,
      bb_intent = 0, bb_latest = 0, bb_tail = 0, bb_closed = 0\<rparr>"
    and p: "p = \<lparr>bbp_mask = capacity - 1, bbp_next = 0, bbp_intent_floor = 0\<rparr>"
    by (simp_all add: sh_def p_def bbr_handles_def bb_with_wait_strategies_def rc Let_def)
  have m: "bbr_mask r = capacity - 1" using sh by (simp add: bbr_mask_def sh_def)
  show vm: "valid_mask (bbr_mask r)" unfolding m by (rule R)
  have cap: "capacity_of (bbr_mask r) = unat capacity" by (simp add: m capacity_of_def)
  obtain k where k: "capacity_of (bbr_mask r) = 2 ^ k" using vm by (rule valid_maskE)
  have "8 \<le> unat capacity" using R by (simp add: BB_MIN_CAPACITY_def word_le_nat_alt)
  then have "(2 :: nat) ^ 3 \<le> 2 ^ k" using k cap by simp
  then have "3 \<le> k" by (rule power_le_imp_le_exp [rotated]) simp
  then have "(2 :: nat) ^ 3 dvd 2 ^ k" by (rule le_imp_power_dvd)
  then show al: "8 dvd capacity_of (bbr_mask r)" unfolding k by simp
  have "unat (capacity div BB_ALIGN) = unat capacity div 8" by (simp add: BB_ALIGN_def unat_div)
  then have len: "unat (capacity div BB_ALIGN) * 8 = capacity_of (bbr_mask r)" using al cap by simp
  show "bytes_at (bbr_mask r) [] (fst (bbr_handles r))"
    unfolding sh_def [symmetric] sh bytes_at_def
    by (simp add: len m [symmetric]) (simp add: stream_end_def boundary_def)
  show "bb_producer_at (bbr_mask r) (fst (snd (bbr_handles r))) (fst (bbr_handles r))"
    unfolding sh_def [symmetric] p_def [symmetric] by (simp add: sh p m bb_producer_at_def)
qed

lemma bbr_along:
  assumes "bbr_ok r"
  shows "along (bbr_mask r) [] (bbr_messages r) (fst (bbr_handles r)) (bbr_stores r)"
  unfolding bbr_messages_def bbr_stores_def
  by (rule sessions_along [OF bbr_new [OF assms]])
    (use assms in \<open>simp add: bbr_ok_def bbr_messages_def\<close>)

lemma bbr_legal:
  assumes "bbr_ok r" and "v \<in> set (bbr_messages r)"
  shows "legal_length (capacity_of (bbr_mask r)) (length v)"
proof (rule stream_legal [OF _ _ assms(2) [unfolded bbr_messages_def]])
  show "bbp_mask (fst (snd (bbr_handles r))) = bbr_mask r"
    using bbr_new(4) [OF assms(1)] unfolding bb_producer_at_def by blast
qed (simp only: bbr_mask_def)

lemma bbr_holds:
  assumes "bbr_ok r"
  shows "valid_mask (bbr_mask r)" and "8 dvd capacity_of (bbr_mask r)"
    and "along (bbr_mask r) [] (bbr_messages r) (fst (bbr_handles r)) (bbr_stores r)"
    and "\<forall>v\<in>set (bbr_messages r). legal_length (capacity_of (bbr_mask r)) (length v)"
  using bbr_new(1,2) [OF assms] bbr_along [OF assms] bbr_legal [OF assms] by blast+

lemma bbr_grow:
  assumes "bbr_ok r" and "t \<le> t'"
  shows "bb_tail (bbr_memory r t) \<le> bb_tail (bbr_memory r t')"
    and "bb_intent (bbr_memory r t) \<le> bb_intent (bbr_memory r t')"
  unfolding bbr_memory_def using along_grow [OF bbr_holds(3) [OF assms(1)] assms(2)] by blast+

interpretation bytes_hist: byte_history bbr_ok bbr_mask bbr_messages bbr_memory bbr_ends
proof
  fix r t assume ok: "bbr_ok r"
  note H = along_history [where t = t, OF bbr_holds [OF ok], folded bbr_memory_def]
  show "length (bb_buf (bbr_memory r t)) = capacity_of (bbr_mask r)" by (rule H(1))
  show "bb_tail (bbr_memory r t) \<le> bb_intent (bbr_memory r t)" by (rule H(2))
  show "\<exists>j\<le>length (bbr_messages r).
      unat (bb_tail (bbr_memory r t)) = frame_at (capacity_of (bbr_mask r)) (bbr_messages r) j"
    by (rule H(3))
  show "boundary (capacity_of (bbr_mask r)) (bbr_messages r) (unat (bb_latest (bbr_memory r t)))"
    by (rule H(4))
  show "bb_closed (bbr_memory r t) \<noteq> 0 \<Longrightarrow> bbr_ends r \<le> unat (bb_tail (bbr_memory r t))"
    unfolding bbr_ends_def by (rule H(5))
  show "get (q mod capacity_of (bbr_mask r)) 4 (bb_buf (bbr_memory r t)) = bs"
    if "k < length (bbr_messages r)"
      "frame_at (capacity_of (bbr_mask r)) (bbr_messages r) (Suc k) \<le> unat (bb_tail (bbr_memory r t))"
      "(q, bs) \<in> set (frame_lanes (capacity_of (bbr_mask r)) (bbr_messages r) k)"
      "unat (bb_intent (bbr_memory r t)) \<le> q + capacity_of (bbr_mask r)" for k q bs
    by (rule H(6) [OF that])
  show "stream_end (capacity_of (bbr_mask r)) (bbr_messages r) + capacity_of (bbr_mask r) < word_span"
    using ok unfolding bbr_ok_def by linarith
  show "valid_mask (bbr_mask r)" "8 dvd capacity_of (bbr_mask r)" by (rule bbr_holds [OF ok])+
  show "legal_length (capacity_of (bbr_mask r)) (length v)" if "v \<in> set (bbr_messages r)" for v
    by (rule bbr_legal [OF ok that])
  show "bb_tail (bbr_memory r t) \<le> bb_tail (bbr_memory r t')"
    "bb_intent (bbr_memory r t) \<le> bb_intent (bbr_memory r t')" if "t \<le> t'" for t'
    by (rule bbr_grow [OF ok that])+
qed

text \<open>A reader whose next load is its \<open>n\<close>-th, at time \<open>clk n\<close>.\<close>

definition bbr_reader :: "bbytes_run \<Rightarrow> (nat \<Rightarrow> nat) \<Rightarrow> nat \<Rightarrow> bb_consumer \<Rightarrow> bool" where
  "bbr_reader r clk n c \<longleftrightarrow> bbc_mask c = bbr_mask r \<and> bbc_tail_cache c \<le> bb_tail (bbr_memory r (clk n))
     \<and> boundary (capacity_of (bbr_mask r)) (bbr_messages r) (unat (bbc_pos c))"

lemma bbr_reader_eq: "bbr_reader r clk n c = bytes_hist.reader_ok r (clk n) c"
  by (simp add: bbr_reader_def bytes_hist.reader_ok_def)

lemma bytes_seen_eq: "(\<lambda>k. bbr_memory r (clk k)) = bytes_hist.seen_at r clk"
  by (rule ext) (simp add: bytes_hist.seen_at_def)

section \<open>The properties\<close>

text \<open>
  The run of the witnesses, on 64 bytes: a session that dies in the middle of its
  fifth push, having declared it and begun to write it, and one that heals it.
\<close>

definition bbw_run :: bbytes_run where
  "bbw_run = \<lparr>bbr_min = 50, bbr_sessions =
     [([BCall_push [1, 2, 3, 4, 5, 6, 7, 8], BCall_push [9], BCall_push [2, 3, 4, 5, 6],
        BCall_push [8, 7, 6, 5, 4, 3, 2, 1], BCall_push [5, 5, 5, 5, 5, 5]], 25),
      ([BCall_push [7], BCall_push [10, 11, 12, 13, 14], BCall_drop], 20)]\<rparr>"

definition bbw_clk :: "nat \<Rightarrow> nat" where
  "bbw_clk k = 4 * k"

definition bbw_reader :: "u64 \<Rightarrow> bb_consumer" where
  "bbw_reader pos = \<lparr>bbc_mask = 63, bbc_pos = pos, bbc_tail_cache = pos\<rparr>"

lemma bbw_shape: "bbr_mask bbw_run = 63" "capacity_of 63 = 64" "length (bbr_stores bbw_run) = 39"
  "bbr_messages bbw_run = [[1, 2, 3, 4, 5, 6, 7, 8], [9], [2, 3, 4, 5, 6], [8, 7, 6, 5, 4, 3, 2, 1], [7],
     [10, 11, 12, 13, 14]]"
  by code_simp+

lemma bbw_ok: "bbr_ok bbw_run"
proof -
  have "(case bb_round_capacity (bbr_min bbw_run) of Inl _ \<Rightarrow> False | Inr _ \<Rightarrow> True)" by code_simp
  moreover have "stream_end 64 (bbr_messages bbw_run) = 80" by code_simp
  ultimately show ?thesis by (simp add: bbr_ok_def bbw_shape(1,2) word_span_def)
qed

lemma bbw_mono: "mono bbw_clk" "mono (\<lambda>k. 30 + k :: nat)"
  by (simp_all add: mono_def bbw_clk_def)

text \<open>
  (C30) Exact accounting of a lossy byte reader. Whatever the sessions push, wherever a
  producer dies and wherever the reader's loads fall among the stores: no call of the
  reader faults or hangs, every message it gets is the one framed at its position,
  every loss or skip moves it by exactly the reported bytes, the end is reported only
  behind everything pushed before the first close, and what it got is a subsequence
  of what was committed after it subscribed, gap-free when nothing was reported lost.
\<close>

theorem bb_accounting:
  assumes "bbr_ok r" and "mono clk" and "t \<le> clk 0"
  defines "c \<equiv> bb_subscribe_from (bbr_memory r t)" and "cap \<equiv> capacity_of (bbr_mask r)"
  shows "\<exists>evs n c1 k. byte_run (\<lambda>i. bbr_memory r (clk i)) ops 0 c = Some (Inr (evs, n, c1))
    \<and> byte_replay cap (bbr_messages r) (bbr_ends r) (unat (bbc_pos c)) evs = Some (unat (bbc_pos c1))
    \<and> k \<le> length (bbr_messages r) \<and> unat (bb_tail (bbr_memory r t)) = frame_at cap (bbr_messages r) k
    \<and> subseq (got evs) (drop k (bbr_messages r))
    \<and> (lost evs = 0 \<longrightarrow> got evs = take (length (got evs)) (drop k (bbr_messages r)))"
proof -
  have "bb_mask (bbr_memory r t) = bbr_mask r" by (simp add: bbr_memory_def bb_memory_def apply_mask bbr_mask_def)
  from bytes_hist.accounted [OF assms(1-3) this] show ?thesis unfolding c_def cap_def .
qed

theorem bb_accounting_witness:
  "\<exists>n c1. byte_run (\<lambda>k. bbr_memory bbw_run (bbw_clk k))
        [Byte_try_pop, Byte_try_pop, Byte_try_pop, Byte_lag, Byte_try_pop, Byte_try_pop] 0 (bbw_reader 0)
      = Some (Inr ([Nothing, Missed 56, Got [7], Nothing, Got [10, 11, 12, 13, 14], Ended], n, c1))
    \<and> subseq [[7], [10, 11, 12, 13, 14]] (bbr_messages bbw_run)"
proof -
  let ?ops = "[Byte_try_pop, Byte_try_pop, Byte_try_pop, Byte_lag, Byte_try_pop, Byte_try_pop]"
  let ?evs = "[Nothing, Missed 56, Got [7], Nothing, Got [10, 11, 12, 13, 14], Ended]
    :: u8 list lossy_event list"
  have sub: "bb_subscribe_from (bbr_memory bbw_run 0) = bbw_reader 0" by code_simp
  obtain evs n c1 k where run: "byte_run (\<lambda>k. bbr_memory bbw_run (bbw_clk k)) ?ops 0 (bbw_reader 0)
        = Some (Inr (evs, n, c1))"
    and got: "subseq (got evs) (drop k (bbr_messages bbw_run))"
    using bb_accounting [OF bbw_ok bbw_mono(1) le0, of ?ops] unfolding sub by (elim exE conjE) (rule that)
  have "map_option (map_sum id fst) (byte_run (\<lambda>k. bbr_memory bbw_run (bbw_clk k)) ?ops 0 (bbw_reader 0))
      = Some (Inr ?evs)" by code_simp
  then have evs: "evs = ?evs" unfolding run by simp
  have "subseq (got evs) (bbr_messages bbw_run)"
    using got by (rule subseq_order.trans) (rule suffix_imp_subseq [OF suffix_drop])
  then show ?thesis using run unfolding evs by simp
qed

text \<open>
  (C31) Never torn. A call of a reader that stands at a frame or record start, with the
  producer storing between any two of its loads, delivers exactly the message framed
  there and moves to the next frame; or it reports nothing or the end without moving;
  or it reports a loss, and then the producer has declared bytes more than one
  capacity beyond the reader, which moves by exactly the reported count.
\<close>

theorem bb_never_torn:
  assumes "bbr_ok r" and "mono clk" and "bbr_reader r clk n c"
  defines "cap \<equiv> capacity_of (bbr_mask r)"
  shows "\<exists>res n1 c1. bb_try_pop (\<lambda>k. bbr_memory r (clk k)) n c = Some (Inr (res, n1, c1))
    \<and> bbr_reader r clk n1 c1
    \<and> (case res of
         Inr (Some v) \<Rightarrow> \<exists>k<length (bbr_messages r). v = bbr_messages r ! k
           \<and> (unat (bbc_pos c) = frame_at cap (bbr_messages r) k \<or> unat (bbc_pos c) = rec_at cap (bbr_messages r) k)
           \<and> unat (bbc_pos c1) = frame_at cap (bbr_messages r) (Suc k)
       | Inr None \<Rightarrow> bbc_pos c1 = bbc_pos c
       | Inl Bb_closed \<Rightarrow> bbc_pos c1 = bbc_pos c \<and> bbr_ends r \<le> unat (bbc_pos c)
       | Inl (Bb_lagged m) \<Rightarrow> unat (bbc_pos c1) = unat (bbc_pos c) + unat m
           \<and> unat (bbc_pos c) + cap < unat (bb_intent (bbr_memory r (clk n1))))"
proof -
  have c: "bytes_hist.reader_ok r (clk n) c" using assms(3) by (simp only: bbr_reader_eq)
  obtain res n1 c1 where tp: "bb_try_pop (bytes_hist.seen_at r clk) n c = Some (Inr (res, n1, c1))"
    and out: "bytes_hist.pop_outcome r clk (unat (bbc_pos c)) n res n1 c1"
    using bytes_hist.try_popped [OF assms(1,2) c] by blast
  show ?thesis
    unfolding bytes_seen_eq [of r clk] bbr_reader_eq cap_def
    by (intro exI conjI, rule tp)
      (use out in \<open>auto simp: bytes_hist.pop_outcome_def bytes_hist.intact_def word_unat_eq_iff
        split: sum.splits option.splits bytes_pop_error.splits\<close>)
qed

theorem bb_never_torn_witness:
  "\<exists>n1 c1. bb_try_pop (\<lambda>k. bbr_memory bbw_run (30 + k)) 0 (bbw_reader 16) = Some (Inr (Inr (Some [9]), n1, c1))"
proof -
  have reader: "bbr_reader bbw_run (\<lambda>k. 30 + k) 0 (bbw_reader 16)" by code_simp
  have "map_option (map_sum id fst) (bb_try_pop (\<lambda>k. bbr_memory bbw_run (30 + k)) 0 (bbw_reader 16))
      = Some (Inr (Inr (Some [9])))" by code_simp
  then show ?thesis using bb_never_torn [OF bbw_ok bbw_mono(2) reader] by fastforce
qed

text \<open>
  No loss within a capacity. A reader that the declared intent never passes by more
  than the capacity loses nothing: its polls deliver the messages from its
  position on, in order and without a gap.
\<close>

theorem bb_lossless:
  assumes "bbr_ok r" and "mono clk" and "bbr_reader r clk n c" and "Byte_skip \<notin> set ops"
    and "unat (bbc_pos c) = frame_at (capacity_of (bbr_mask r)) (bbr_messages r) k"
    and "\<And>i. unat (bb_intent (bbr_memory r (clk i))) \<le> unat (bbc_pos c) + capacity_of (bbr_mask r)"
  shows "\<exists>evs n1 c1. byte_run (\<lambda>i. bbr_memory r (clk i)) ops n c = Some (Inr (evs, n1, c1))
    \<and> (\<forall>m. Missed m \<notin> set evs) \<and> got evs = take (length (got evs)) (drop k (bbr_messages r))"
  by (rule bytes_hist.unharmed [OF assms(1,2) assms(3) [unfolded bbr_reader_eq] assms(4-6)])

theorem bb_lossless_witness:
  "\<exists>evs n1 c1. byte_run (\<lambda>i. bbr_memory bbw_run (30 + i)) [Byte_try_pop, Byte_lag, Byte_try_pop] 0 (bbw_reader 16)
      = Some (Inr (evs, n1, c1)) \<and> got evs = take (length (got evs)) (drop 1 (bbr_messages bbw_run))"
proof -
  have reader: "bbr_reader bbw_run (\<lambda>k. 30 + k) 0 (bbw_reader 16)" by code_simp
  have pos: "unat (bbc_pos (bbw_reader 16)) = 16" by (simp add: bbw_reader_def)
  have "frame_at 64 (bbr_messages bbw_run) 1 = 16" by code_simp
  moreover have "unat (bb_intent (bbr_memory bbw_run (30 + i))) \<le> 80" for i
  proof -
    have "bb_intent (bbr_memory bbw_run (30 + i)) \<le> bb_intent (bbr_memory bbw_run (39 + i))"
      using bbr_grow [OF bbw_ok] by simp
    moreover have "bbr_memory bbw_run (39 + i) = bbr_memory bbw_run 39"
      by (simp add: bbr_memory_def bb_memory_def bbw_shape(3))
    moreover have "bb_intent (bbr_memory bbw_run 39) = 80" by code_simp
    ultimately show ?thesis by (simp add: word_le_nat_alt)
  qed
  ultimately show ?thesis
    using bb_lossless [OF bbw_ok bbw_mono(2) reader, of "[Byte_try_pop, Byte_lag, Byte_try_pop]" 1]
    unfolding bbw_shape pos by auto
qed

text \<open>
  \<open>pop\<close> returns, with any wait strategy, once from some load on the reader sees a
  message beyond its position or the close; it never hangs in a padding record, and
  what it returns is the message framed at its position, an exact loss, or the end.
\<close>

theorem bb_pop_returns:
  assumes "bbr_ok r" and "mono clk" and "bbr_reader r clk n c" and "\<And>k. k \<le> wait k"
    and "\<And>k. n + d \<le> k \<Longrightarrow>
      bbc_pos c < bb_tail (bbr_memory r (clk k)) \<or> bb_closed (bbr_memory r (clk k)) \<noteq> 0"
  defines "cap \<equiv> capacity_of (bbr_mask r)"
  shows "\<exists>res n1 c1. bb_pop wait (\<lambda>k. bbr_memory r (clk k)) n c = Some (Inr (res, n1, c1))
    \<and> (case res of
         Inr v \<Rightarrow> \<exists>k<length (bbr_messages r). v = bbr_messages r ! k
           \<and> (unat (bbc_pos c) = frame_at cap (bbr_messages r) k \<or> unat (bbc_pos c) = rec_at cap (bbr_messages r) k)
           \<and> unat (bbc_pos c1) = frame_at cap (bbr_messages r) (Suc k)
       | Inl (Bb_lagged m) \<Rightarrow> unat (bbc_pos c1) = unat (bbc_pos c) + unat m
       | Inl Bb_closed \<Rightarrow> bbc_pos c1 = bbc_pos c \<and> bbr_ends r \<le> unat (bbc_pos c))"
proof -
  have c: "bytes_hist.reader_ok r (clk n) c" using assms(3) by (simp only: bbr_reader_eq)
  obtain res n1 c1 where p: "bb_pop wait (bytes_hist.seen_at r clk) n c = Some (Inr (res, n1, c1))"
    and out: "bytes_hist.pop_outcome r clk (unat (bbc_pos c)) n (map_sum id Some res) n1 c1"
    using bytes_hist.pop_returned [OF assms(1,2) c assms(4,5)] by blast
  show ?thesis
    unfolding bytes_seen_eq [of r clk] cap_def
    by (intro exI conjI, rule p)
      (use out in \<open>auto simp: bytes_hist.pop_outcome_def word_unat_eq_iff
        split: sum.splits bytes_pop_error.splits\<close>)
qed

theorem bb_pop_returns_witness:
  "\<exists>res n1 c1. bb_pop Suc (\<lambda>k. bbr_memory bbw_run (30 + k)) 0 (bbw_reader 56) = Some (Inr (res, n1, c1))"
proof -
  have reader: "bbr_reader bbw_run (\<lambda>k. 30 + k) 0 (bbw_reader 56)" by code_simp
  have "bb_closed (bbr_memory bbw_run (30 + k)) \<noteq> 0" if "0 + 9 \<le> k" for k
  proof -
    have "bbr_memory bbw_run (30 + k) = bbr_memory bbw_run 39"
      using that by (simp add: bbr_memory_def bb_memory_def bbw_shape(3))
    moreover have "bb_closed (bbr_memory bbw_run 39) \<noteq> 0" by code_simp
    ultimately show ?thesis by simp
  qed
  then show ?thesis using bb_pop_returns [OF bbw_ok bbw_mono(2) reader, of Suc 9] by auto
qed

text \<open>
  (C32) The counters survive crashes. After every single store of every run of sessions,
  also when producers die between two stores and the next one heals the ring: the
  buffer keeps its size, the tail is the end of a committed frame and never beyond
  the declared intent, \<open>latest\<close> is a position where a frame or record starts (a reader can
  be repositioned there), neither tail nor intent ever moves back, and every lane of a
  committed message that the intent has not passed by a capacity is in the buffer.
\<close>

theorem bb_counters_sound:
  assumes "bbr_ok r" and "t \<le> t'"
  defines "cap \<equiv> capacity_of (bbr_mask r)"
  shows "length (bb_buf (bbr_memory r t)) = cap
    \<and> (\<exists>j\<le>length (bbr_messages r). unat (bb_tail (bbr_memory r t)) = frame_at cap (bbr_messages r) j)
    \<and> bb_tail (bbr_memory r t) \<le> bb_intent (bbr_memory r t)
    \<and> boundary cap (bbr_messages r) (unat (bb_latest (bbr_memory r t)))
    \<and> bb_tail (bbr_memory r t) \<le> bb_tail (bbr_memory r t')
    \<and> bb_intent (bbr_memory r t) \<le> bb_intent (bbr_memory r t')
    \<and> (\<forall>k<length (bbr_messages r). frame_at cap (bbr_messages r) (Suc k) \<le> unat (bb_tail (bbr_memory r t)) \<longrightarrow>
        (\<forall>(q, bs)\<in>set (frame_lanes cap (bbr_messages r) k). unat (bb_intent (bbr_memory r t)) \<le> q + cap \<longrightarrow>
          get (q mod cap) 4 (bb_buf (bbr_memory r t)) = bs))"
  unfolding cap_def
  using bytes_hist.buffer [OF assms(1), of t] bytes_hist.tail_frame [OF assms(1), of t]
    bytes_hist.tail_intent [OF assms(1), of t] bytes_hist.latest_start [OF assms(1), of t]
    bbr_grow [OF assms(1,2)] bytes_hist.kept [OF assms(1), of _ t]
  by (intro conjI) auto

theorem bb_counters_sound_witness:
  "bb_tail (bbr_memory bbw_run 24) = 56 \<and> bb_intent (bbr_memory bbw_run 24) = 80
    \<and> bb_tail (bbr_memory bbw_run 24) \<le> bb_tail (bbr_memory bbw_run 33)"
proof -
  have "bb_tail (bbr_memory bbw_run 24) = 56" "bb_intent (bbr_memory bbw_run 24) = 80" by code_simp+
  then show ?thesis using bb_counters_sound [OF bbw_ok, of 24 33] by simp
qed

end
