(* ===== verification/Anchored_Bytes.thy ===== *)
theory Anchored_Bytes
  imports Gate_Properties Spmc_Bytes Broadcast_Bytes
begin

text \<open>
  The composed byte ring (\<open>src/src/anchored_bytes.rs\<close>): required anchors, which gate
  the producer, and lossy observers, which do not. The gate, the anchors' checks,
  their flush and their membership are the gating engine of \<open>Gate\<close> on the unified
  cursor; the frames are those of \<open>Broadcast_Bytes\<close>, and a push is the sequence of
  atomic stores that the observers see. An observer is the consumer of
  \<open>Broadcast_Bytes\<close>, whose text the source repeats, on the counters of this ring
  (\<open>ab_view\<close>).
\<close>

section \<open>State\<close>

definition AB_MIN_CAPACITY :: usize where "AB_MIN_CAPACITY = 16"

definition ab_max_record_span :: "usize \<Rightarrow> usize" where
  "ab_max_record_span capacity = 2 * bb_record_len (bb_max_message_len capacity) - BB_ALIGN"

record ab_shared = gate_shared +
  ab_buf :: "u8 list"
  ab_intent :: u64
  ab_latest :: u64
  ab_starving :: u64

record ab_producer = gate_producer +
  abp_raised_starving :: bool
  abp_intent_floor :: u64

text \<open>What an observer reads of the ring: its buffer and the words it loads.\<close>

definition ab_view :: "ab_shared \<Rightarrow> bbytes_shared" where
  "ab_view sh = \<lparr>bb_buf = ab_buf sh, bb_mask = gs_mask sh, bb_intent = ab_intent sh,
     bb_latest = ab_latest sh, bb_tail = gs_write_cursor sh, bb_closed = gs_closed sh\<rparr>"

text \<open>The effect of one atomic store of the producer.\<close>

fun ab_apply :: "bb_store \<Rightarrow> ab_shared \<Rightarrow> ab_shared" where
  "ab_apply (BSt_intent v) sh = sh\<lparr>ab_intent := v\<rparr>"
| "ab_apply (BSt_lane off bs) sh = sh\<lparr>ab_buf := put off bs (ab_buf sh)\<rparr>"
| "ab_apply (BSt_latest v) sh = sh\<lparr>ab_latest := v\<rparr>"
| "ab_apply (BSt_tail v) sh = sh\<lparr>gs_write_cursor := v\<rparr>"
| "ab_apply (BSt_closed v) sh = sh\<lparr>gs_closed := v\<rparr>"

definition ab_subscribe_anchor :: "ab_shared \<Rightarrow> (subscribe_error + gate_consumer) \<times> ab_shared" where
  "ab_subscribe_anchor sh = gate_subscribe sh"

definition ab_observe_from :: "ab_shared \<Rightarrow> bb_consumer" where
  "ab_observe_from sh =
     (let pos = gs_write_cursor sh in \<lparr>bbc_mask = gs_mask sh, bbc_pos = pos, bbc_tail_cache = pos\<rparr>)"

definition ab_with_wait_strategies ::
  "usize \<Rightarrow> fault + ab_shared \<times> ab_producer \<times> gate_consumer" where
  "ab_with_wait_strategies min_capacity =
     (case round_capacity min_capacity AB_MIN_CAPACITY of
        Inl f \<Rightarrow> Inl f
      | Inr capacity \<Rightarrow>
          (let sh = \<lparr>gs_mask = capacity - 1, gs_write_cursor = 0, gs_closed = 0,
                     gs_registry = [chunk_new], gs_producer_notified = 0, gs_consumer_notified = 0,
                     ab_buf = replicate (unat (capacity div BB_ALIGN) * 8) 0, ab_intent = 0,
                     ab_latest = 0, ab_starving = 0\<rparr>
           in case ab_subscribe_anchor sh of
                (Inl e, sh1) \<Rightarrow> Inl Panic
              | (Inr c, sh1) \<Rightarrow>
                  Inr (sh1, \<lparr>gp_mask = capacity - 1, gp_next_seq = 0, gp_cached_min = 0,
                             gp_cached_cursors = [], abp_raised_starving = False,
                             abp_intent_floor = 0\<rparr>, c)))"

section \<open>The producer\<close>

text \<open>The debug assertion on the span of a blocked push is the panic.\<close>

definition ab_has_space ::
  "u64 \<Rightarrow> ab_shared \<Rightarrow> ab_producer \<Rightarrow> fault + bool \<times> ab_shared \<times> ab_producer" where
  "ab_has_space needed sh p =
     (if gate_lacks_space (gp_next_seq p) needed (gp_cached_min p) (gp_mask p + 1)
      then (case gate_rescan needed sh p of
              (True, p1) \<Rightarrow> Inr (True, sh, p1)
            | (False, p1) \<Rightarrow>
                (if needed \<le> ab_max_record_span (gp_mask p1 + 1)
                 then Inr (False,
                           (if ab_starving sh \<noteq> needed then sh\<lparr>ab_starving := needed\<rparr> else sh),
                           p1\<lparr>abp_raised_starving := True\<rparr>)
                 else Inl Panic))
      else if abp_raised_starving p
           then Inr (True, sh\<lparr>ab_starving := 0\<rparr>, p\<lparr>abp_raised_starving := False\<rparr>)
           else Inr (True, sh, p))"

partial_function (option) ab_space_loop ::
  "u64 \<Rightarrow> (ab_shared \<Rightarrow> ab_shared) list \<Rightarrow> ab_shared \<Rightarrow> ab_producer
     \<Rightarrow> (fault + ab_shared \<times> ab_producer) option" where
  "ab_space_loop needed env sh p =
     (case ab_has_space needed sh p of
        Inl f \<Rightarrow> Some (Inl f)
      | Inr (free, sh', p') \<Rightarrow>
          if free then Some (Inr (sh', p'))
          else (case gate_poll_rescan needed env sh' p' of
                  None \<Rightarrow> None
                | Some (sh1, p1, env1) \<Rightarrow> ab_space_loop needed env1 sh1 p1))"

declare ab_space_loop.simps [code]

definition ab_wait_for_space ::
  "u64 \<Rightarrow> (ab_shared \<Rightarrow> ab_shared) list \<Rightarrow> ab_shared \<Rightarrow> ab_producer
     \<Rightarrow> (fault + ab_shared \<times> ab_producer) option" where
  "ab_wait_for_space needed env sh p =
     (case ab_has_space needed sh p of
        Inl f \<Rightarrow> Some (Inl f)
      | Inr (True, sh', p') \<Rightarrow> Some (Inr (sh', p'))
      | Inr (False, sh', p') \<Rightarrow> ab_space_loop needed env sh' p')"

definition ab_frame :: "usize \<Rightarrow> ab_producer \<Rightarrow> fault + u64 \<times> u64" where
  "ab_frame len p =
     (let capacity = gp_mask p + 1
      in if len \<le> bb_max_message_len capacity
         then (let record = bb_record_len len;
                   to_end = capacity - (gp_next_seq p AND gp_mask p)
               in Inr (if record \<le> to_end then (0, record) else (to_end, to_end + record)))
         else Inl Panic)"

text \<open>Steps (2) to (5) of the write order: intent, lanes, latest, tail.\<close>

definition ab_write_frame :: "u64 \<Rightarrow> u8 list \<Rightarrow> ab_producer \<Rightarrow> bb_store list \<times> ab_producer" where
  "ab_write_frame pad msg p =
     (let len = of_nat (length msg);
          record = bb_record_len len;
          new_tail = gp_next_seq p + pad + record;
          declared = max new_tail (abp_intent_floor p);
          off = gp_next_seq p AND gp_mask p;
          rec_off = unat ((gp_next_seq p + pad) AND gp_mask p)
      in (BSt_intent declared
          # (if pad > 0 then [BSt_lane (unat off) (bytes_of_u32 BB_PADDING)] else [])
          @ BSt_lane rec_off (bytes_of_u32 (of_nat (length msg)))
          # map (\<lambda>(o', bs). BSt_lane (rec_off + unat BB_HEADER + o') bs) (copy_in_lanes msg)
          @ [BSt_latest (gp_next_seq p + pad), BSt_tail new_tail],
          p\<lparr>gp_next_seq := new_tail\<rparr>))"

text \<open>The frame's stores applied to the ring, and the wake-up of the anchors.\<close>

definition ab_publish ::
  "u64 \<Rightarrow> u8 list \<Rightarrow> ab_shared \<Rightarrow> ab_producer \<Rightarrow> bb_store list \<times> ab_shared \<times> ab_producer" where
  "ab_publish pad msg sh p =
     (case ab_write_frame pad msg p of
        (sts, p') \<Rightarrow>
          (let sh' = fold ab_apply sts sh
           in (sts, sh'\<lparr>gs_consumer_notified := Suc (gs_consumer_notified sh')\<rparr>, p')))"

text \<open>A call's result holds the stores that it issued.\<close>

definition ab_try_push ::
  "u8 list \<Rightarrow> ab_shared \<Rightarrow> ab_producer \<Rightarrow> fault + bool \<times> bb_store list \<times> ab_shared \<times> ab_producer" where
  "ab_try_push msg sh p =
     (case ab_frame (of_nat (length msg)) p of
        Inl f \<Rightarrow> Inl f
      | Inr (pad, need) \<Rightarrow>
          (case ab_has_space need sh p of
             Inl f \<Rightarrow> Inl f
           | Inr (False, sh', p') \<Rightarrow> Inr (False, [], sh', p')
           | Inr (True, sh', p') \<Rightarrow> Inr (True, ab_publish pad msg sh' p')))"

definition ab_push ::
  "(ab_shared \<Rightarrow> ab_shared) list \<Rightarrow> u8 list \<Rightarrow> ab_shared \<Rightarrow> ab_producer
     \<Rightarrow> (fault + bb_store list \<times> ab_shared \<times> ab_producer) option" where
  "ab_push env msg sh p =
     (case ab_frame (of_nat (length msg)) p of
        Inl f \<Rightarrow> Some (Inl f)
      | Inr (pad, need) \<Rightarrow>
          (case ab_wait_for_space need env sh p of
             None \<Rightarrow> None
           | Some (Inl f) \<Rightarrow> Some (Inl f)
           | Some (Inr (sh', p')) \<Rightarrow> Some (Inr (ab_publish pad msg sh' p'))))"

text \<open>The commit-only slot.\<close>

record ab_slot =
  abw_pad :: u64
  abw_len :: usize

definition ab_try_claim ::
  "usize \<Rightarrow> ab_shared \<Rightarrow> ab_producer \<Rightarrow> fault + ab_slot option \<times> ab_shared \<times> ab_producer" where
  "ab_try_claim len sh p =
     (case ab_frame len p of
        Inl f \<Rightarrow> Inl f
      | Inr (pad, need) \<Rightarrow>
          (case ab_has_space need sh p of
             Inl f \<Rightarrow> Inl f
           | Inr (False, sh', p') \<Rightarrow> Inr (None, sh', p')
           | Inr (True, sh', p') \<Rightarrow> Inr (Some \<lparr>abw_pad = pad, abw_len = len\<rparr>, sh', p')))"

definition ab_claim ::
  "(ab_shared \<Rightarrow> ab_shared) list \<Rightarrow> usize \<Rightarrow> ab_shared \<Rightarrow> ab_producer
     \<Rightarrow> (fault + ab_slot \<times> ab_shared \<times> ab_producer) option" where
  "ab_claim env len sh p =
     (case ab_frame len p of
        Inl f \<Rightarrow> Some (Inl f)
      | Inr (pad, need) \<Rightarrow>
          (case ab_wait_for_space need env sh p of
             None \<Rightarrow> None
           | Some (Inl f) \<Rightarrow> Some (Inl f)
           | Some (Inr (sh', p')) \<Rightarrow> Some (Inr (\<lparr>abw_pad = pad, abw_len = len\<rparr>, sh', p'))))"

definition ab_commit ::
  "ab_slot \<Rightarrow> u8 list \<Rightarrow> ab_shared \<Rightarrow> ab_producer
     \<Rightarrow> fault + bb_store list \<times> ab_shared \<times> ab_producer" where
  "ab_commit ws msg sh p =
     (if of_nat (length msg) = abw_len ws then Inr (ab_publish (abw_pad ws) msg sh p) else Inl Panic)"

definition ab_producer_is_empty :: "ab_producer \<Rightarrow> bool" where
  "ab_producer_is_empty p \<longleftrightarrow> gp_next_seq p - gp_cached_min p = 0"

definition ab_producer_tail :: "ab_producer \<Rightarrow> u64" where
  "ab_producer_tail p = gp_next_seq p"

definition ab_anchor_count :: "ab_shared \<Rightarrow> nat" where
  "ab_anchor_count sh = gate_consumer_count sh"

definition ab_producer_drop :: "ab_shared \<Rightarrow> bb_store list \<times> ab_shared" where
  "ab_producer_drop sh =
     (let sh' = ab_apply (BSt_closed 1) sh
      in ([BSt_closed 1], sh'\<lparr>gs_consumer_notified := Suc (gs_consumer_notified sh')\<rparr>))"

section \<open>The anchors\<close>

definition ab_next_msg :: "ab_shared \<Rightarrow> gate_consumer \<Rightarrow> fault + msg_guard \<times> gate_consumer" where
  "ab_next_msg sh c =
     (case decode_record (ab_buf sh) (gc_mask c) (gc_read_cursor c) of
        Inl f \<Rightarrow> Inl f
      | Inr (cur, len, payload) \<Rightarrow>
          Inr (\<lparr>msg_payload = payload, msg_len = len\<rparr>, c\<lparr>gc_read_cursor := cur\<rparr>))"

definition ab_try_pop ::
  "(ab_shared \<Rightarrow> ab_shared) \<Rightarrow> ab_shared \<Rightarrow> gate_consumer
     \<Rightarrow> fault + msg_guard pop_result \<times> ab_shared \<times> gate_consumer" where
  "ab_try_pop between sh c =
     (case gate_has_item sh c of
        (True, c1) \<Rightarrow> map_sum id (\<lambda>(g, c2). (Popped g, sh, c2)) (ab_next_msg sh c1)
      | (False, c1) \<Rightarrow>
          (let sh1 = between sh
           in case gate_check_closed sh1 c1 of
                (True, c2) \<Rightarrow> Inr (Pop_closed, sh1, c2)
              | (False, c2) \<Rightarrow>
                  if gate_available_cached c2 \<noteq> 0
                  then map_sum id (\<lambda>(g, c3). (Popped g, sh1, c3)) (ab_next_msg sh1 c2)
                  else Inr (Pop_empty, sh1, c2)))"

definition ab_pop ::
  "(ab_shared \<Rightarrow> ab_shared) list \<Rightarrow> ab_shared \<Rightarrow> gate_consumer
     \<Rightarrow> (fault + msg_guard pop_result \<times> ab_shared \<times> gate_consumer) option" where
  "ab_pop env sh c =
     (case gate_wait_for_item env sh c of
        None \<Rightarrow> None
      | Some (False, sh1, c1) \<Rightarrow> Some (Inr (Pop_closed, sh1, c1))
      | Some (True, sh1, c1) \<Rightarrow>
          Some (map_sum id (\<lambda>(g, c2). (Popped g, sh1, c2)) (ab_next_msg sh1 c1)))"

definition ab_msg_deref :: "msg_guard \<Rightarrow> ab_shared \<Rightarrow> u8 list" where
  "ab_msg_deref g sh = read_bytes (msg_payload g) (unat (msg_len g)) (ab_buf sh)"

text \<open>The adaptive publish with the lag-filtered starving release.\<close>

definition ab_advance :: "u64 \<Rightarrow> ab_shared \<Rightarrow> gate_consumer \<Rightarrow> ab_shared \<times> gate_consumer" where
  "ab_advance amount sh c =
     (let capacity = gc_mask c + 1;
          span = ab_starving sh;
          publish_now = (span \<noteq> 0 \<and> gc_write_cache c - gc_published c \<ge> capacity - span);
          c1 = c\<lparr>gc_read_cursor := gc_read_cursor c + amount\<rparr>
      in if publish_now \<or> gc_read_cursor c1 = gc_write_cache c1
            \<or> gc_read_cursor c1 - gc_published c1 \<ge> publish_batch_bytes capacity
         then gate_flush sh c1 else (sh, c1))"

definition ab_msg_drop :: "msg_guard \<Rightarrow> ab_shared \<Rightarrow> gate_consumer \<Rightarrow> ab_shared \<times> gate_consumer" where
  "ab_msg_drop g sh c = ab_advance (bb_record_len (msg_len g)) sh c"

text \<open>\<open>unwinds n\<close> says that the callback panics on its \<open>n\<close>th call; \<open>None\<close> is "out of fuel".\<close>

fun ab_drain_loop ::
  "nat \<Rightarrow> (nat \<Rightarrow> bool) \<Rightarrow> nat \<Rightarrow> u8 list \<Rightarrow> u64 \<Rightarrow> u64 \<Rightarrow> u64 \<Rightarrow> u64 \<Rightarrow> u64
     \<Rightarrow> (fault + u8 list list \<times> u64) option" where
  "ab_drain_loop fuel unwinds count buf m batch start end_cur rd =
     (if \<not> (end_cur - rd \<noteq> 0 \<and> rd - start < batch) then Some (Inr ([], rd))
      else (case fuel of
              0 \<Rightarrow> None
            | Suc k \<Rightarrow>
                (case decode_record buf m rd of
                   Inl f \<Rightarrow> Some (Inl f)
                 | Inr (cur, len, payload) \<Rightarrow>
                     (let rd' = cur + bb_record_len len;
                          x = read_bytes payload (unat len) buf
                      in if unwinds count then Some (Inr ([x], rd'))
                         else (case ab_drain_loop k unwinds (Suc count) buf m batch start end_cur rd' of
                                 Some (Inr (xs, rd'')) \<Rightarrow> Some (Inr (x # xs, rd''))
                               | other \<Rightarrow> other)))))"

declare ab_drain_loop.simps [simp del]

definition ab_drain ::
  "nat \<Rightarrow> (nat \<Rightarrow> bool) \<Rightarrow> ab_shared \<Rightarrow> gate_consumer
     \<Rightarrow> (fault + u8 list list \<times> ab_shared \<times> gate_consumer) option" where
  "ab_drain fuel unwinds sh c =
     (case gate_refresh sh c of
        (end_cur, c1) \<Rightarrow>
          (if end_cur - gc_read_cursor c1 = 0 then Some (Inr ([], sh, c1))
           else (case ab_drain_loop fuel unwinds 0 (ab_buf sh) (gc_mask c1)
                        (publish_batch_bytes (gc_mask c1 + 1)) (gc_read_cursor c1) end_cur
                        (gc_read_cursor c1) of
                   None \<Rightarrow> None
                 | Some (Inl f) \<Rightarrow> Some (Inl f)
                 | Some (Inr (xs, rd)) \<Rightarrow>
                     (case gate_flush_pending sh (c1\<lparr>gc_read_cursor := rd\<rparr>) of
                        (sh', c') \<Rightarrow> Some (Inr (xs, sh', c'))))))"

definition ab_anchor_is_empty :: "ab_shared \<Rightarrow> gate_consumer \<Rightarrow> bool" where
  "ab_anchor_is_empty sh c \<longleftrightarrow> gs_write_cursor sh - gc_read_cursor c = 0"

definition ab_anchor_drop :: "ab_shared \<Rightarrow> gate_consumer \<Rightarrow> ab_shared" where
  "ab_anchor_drop sh c = gate_consumer_drop sh c"

end
