(* ===== verification/Anchored_Bytes_Invariant.thy ===== *)
theory Anchored_Bytes_Invariant
  imports Anchored_Bytes Byte_Trace
begin

text \<open>
  The invariant of the composed byte ring: the gating engine's for the anchors, the
  three-counter invariant of \<open>Byte_Trace\<close> on what the observers see, and the
  positions of the anchors on the frames of the stream. \<open>ms\<close> is the list of the
  messages committed so far.
\<close>

section \<open>The observers' view\<close>

lemma ab_view_simps [simp]:
  "bb_buf (ab_view sh) = ab_buf sh" "bb_mask (ab_view sh) = gs_mask sh"
  "bb_intent (ab_view sh) = ab_intent sh" "bb_latest (ab_view sh) = ab_latest sh"
  "bb_tail (ab_view sh) = gs_write_cursor sh" "bb_closed (ab_view sh) = gs_closed sh"
  by (simp_all add: ab_view_def)

lemma ab_view_apply: "ab_view (ab_apply s sh) = bb_apply s (ab_view sh)"
  by (cases s) (simp_all add: ab_view_def)

lemma ab_view_fold: "ab_view (fold ab_apply sts sh) = fold bb_apply sts (ab_view sh)"
  by (induction sts arbitrary: sh) (simp_all add: ab_view_apply)

lemma ab_fold_words:
  "gs_mask (fold ab_apply sts sh) = gs_mask sh" "gs_registry (fold ab_apply sts sh) = gs_registry sh"
  "ab_starving (fold ab_apply sts sh) = ab_starving sh"
proof -
  have "gs_mask (ab_apply s x) = gs_mask x \<and> gs_registry (ab_apply s x) = gs_registry x
    \<and> ab_starving (ab_apply s x) = ab_starving x" for s x by (cases s) simp_all
  then have "gs_mask (fold ab_apply sts sh) = gs_mask sh \<and> gs_registry (fold ab_apply sts sh) = gs_registry sh
    \<and> ab_starving (fold ab_apply sts sh) = ab_starving sh"
    by (induction sts arbitrary: sh) simp_all
  then show "gs_mask (fold ab_apply sts sh) = gs_mask sh"
    "gs_registry (fold ab_apply sts sh) = gs_registry sh"
    "ab_starving (fold ab_apply sts sh) = ab_starving sh" by blast+
qed

text \<open>The producer that a lossy byte ring would have.\<close>

definition ab_lossy :: "ab_producer \<Rightarrow> bb_producer" where
  "ab_lossy p = \<lparr>bbp_mask = gp_mask p, bbp_next = gp_next_seq p, bbp_intent_floor = abp_intent_floor p\<rparr>"

text \<open>Behind the gate, a push issues exactly the stores of a lossy push.\<close>

lemma ab_write_lossy:
  assumes "ab_frame (of_nat (length v)) p = Inr (pad, need)" and "length v < word_span"
  shows "bb_push v (ab_lossy p) = Inr (fst (ab_write_frame pad v p), ab_lossy (snd (ab_write_frame pad v p)))"
    and "need = pad + bb_record_len (of_nat (length v))"
proof -
  have ul: "unat (of_nat (length v) :: u64) = length v" by (rule unat_of_nat_span [OF assms(2)])
  have short: "\<not> unat (bb_max_message_len (gp_mask p + 1)) < length v"
    using assms(1) ul by (auto simp: ab_frame_def Let_def word_le_nat_alt split: if_splits)
  have fr: "bb_frame (gp_mask p) (gp_next_seq p) (of_nat (length v)) = (pad, need)"
    using assms(1) by (auto simp: ab_frame_def bb_frame_def Let_def split: if_splits)
  show n: "need = pad + bb_record_len (of_nat (length v))"
    using assms(1) by (auto simp: ab_frame_def Let_def split: if_splits)
  show "bb_push v (ab_lossy p) = Inr (fst (ab_write_frame pad v p), ab_lossy (snd (ab_write_frame pad v p)))"
    using short fr n by (simp add: bb_push_def ab_lossy_def ab_write_frame_def Let_def add.assoc)
qed

section \<open>Decoding in place\<close>

text \<open>A frame whose lanes are in the buffer, read plainly.\<close>

definition frame_here :: "nat \<Rightarrow> u8 list list \<Rightarrow> nat \<Rightarrow> u8 list \<Rightarrow> nat \<Rightarrow> bool" where
  "frame_here cap ms k buf pos \<longleftrightarrow> (\<forall>q bs. (q, bs) \<in> set (frame_lanes cap ms k) \<longrightarrow> pos \<le> q \<longrightarrow>
     get (q mod cap) 4 buf = bs)"

lemma read_bytes_get: "read_bytes off n buf = get off n buf"
  by (simp add: read_bytes_def get_def)

lemma out_lanes_still:
  "fst (out_lanes (\<lambda>_. b) len k off) = take (len - off) (drop off b)"
proof (induction "\<lambda>_ :: nat. b" len k off rule: out_lanes.induct)
  case (1 len k off)
  show ?case
  proof (cases "off + 4 \<le> len")
    case True
    obtain bs n where r: "out_lanes (\<lambda>_. b) len (Suc k) (off + 4) = (bs, n)" by fastforce
    then have bs: "bs = take (len - (off + 4)) (drop (off + 4) b)" using 1 [OF True] by simp
    have "take (len - off) (drop off b) = get off 4 b @ take (len - (off + 4)) (drop (off + 4) b)"
    proof -
      have "len - off = 4 + (len - (off + 4))" using True by simp
      then show ?thesis by (simp only: take_add get_def drop_drop add.commute [of off])
    qed
    then show ?thesis using True r bs by (subst out_lanes.simps) simp
  next
    case False
    then show ?thesis by (subst out_lanes.simps) (auto simp: get_def min_def)
  qed
qed

lemma payload_here:
  assumes al: "8 dvd cap" and c: "0 < cap" and lg: "legal_length cap (length (ms ! k))"
    and buf: "length buf = cap" and here: "frame_here cap ms k buf pos" and pos: "pos \<le> rec_at cap ms k"
  defines "off \<equiv> rec_at cap ms k mod cap"
  shows "read_bytes (off + 4) (length (ms ! k)) buf = ms ! k"
    and "read_bytes off 4 buf = bytes_of_u32 (of_nat (length (ms ! k)))"
    and "off + 4 + length (ms ! k) \<le> cap"
proof -
  let ?v = "ms ! k" and ?rec = "rec_at cap ms k"
  have fits: "off + rlen8 (length ?v) \<le> cap"
    unfolding off_def by (rule rec_fits [OF c legal_fits [OF al c lg]])
  then show room: "off + 4 + length ?v \<le> cap" using rlen8_bounds(1) [of "length ?v"] by linarith
  have "(?rec, bytes_of_u32 (of_nat (length ?v))) \<in> set (frame_lanes cap ms k)"
    by (simp add: frame_lanes_def)
  then show "read_bytes off 4 buf = bytes_of_u32 (of_nat (length ?v))"
    using here pos unfolding frame_here_def read_bytes_get off_def by blast
  have "fst (out_lanes (\<lambda>k'. drop (off + 4) buf) (length ?v) 0 0) = drop 0 ?v"
  proof (rule out_lanes_present)
    fix j o' bs assume lane: "(o', bs) \<in> set (in_lanes ?v 0)"
    have "(?rec + 4 + o', bs) \<in> set (frame_lanes cap ms k)"
      using lane by (force simp: frame_lanes_def copy_in_lanes_def)
    then have g: "get ((?rec + 4 + o') mod cap) 4 buf = bs"
      using here pos unfolding frame_here_def by (meson le_add1 order_trans)
    have "o' < length ?v" using in_lanes_grid [OF lane] by simp
    then have "off + (4 + o') < cap" using room by linarith
    moreover have "(?rec + 4 + o') mod cap = (off + (4 + o')) mod cap"
      unfolding off_def by (simp add: mod_add_left_eq add.assoc)
    ultimately have "(?rec + 4 + o') mod cap = off + (4 + o')" by simp
    then show "get o' 4 (drop (off + 4) buf) = bs"
      using g by (simp add: get_def add.commute add.left_commute)
  qed
  moreover have "fst (out_lanes (\<lambda>k'. drop (off + 4) buf) (length ?v) 0 0)
      = take (length ?v - 0) (drop 0 (drop (off + 4) buf))"
    by (rule out_lanes_still)
  ultimately show "read_bytes (off + 4) (length ?v) buf = ?v" by (simp add: read_bytes_def)
qed

lemma decode_frame:
  assumes m: "valid_mask m" and al: "8 dvd capacity_of m"
    and lg: "legal_length (capacity_of m) (length (ms ! k))" and buf: "length buf = capacity_of m"
    and here: "frame_here (capacity_of m) ms k buf (unat cur)"
    and cur: "unat cur = frame_at (capacity_of m) ms k \<or> unat cur = rec_at (capacity_of m) ms k"
    and sp: "frame_at (capacity_of m) ms (Suc k) < word_span"
  shows "decode_record buf m cur = Inr (of_nat (rec_at (capacity_of m) ms k), of_nat (length (ms ! k)),
      rec_at (capacity_of m) ms k mod capacity_of m + 4)"
proof -
  let ?C = "capacity_of m" and ?v = "ms ! k" and ?rec = "rec_at (capacity_of m) ms k"
  have c: "0 < ?C" by (rule capacity_pos [OF m])
  have le: "unat cur \<le> ?rec" using cur rec_at_ge [of ?C ms k] by auto
  have rs: "?rec < word_span" using sp rec_at_less [of ?C ms k] by linarith
  note P = payload_here [OF al c lg buf here le]
  have lim: "length ?v \<le> 2 ^ 32 - 2" using lg by (simp add: legal_length_def)
  note hw = header_word [OF lim]
  have pad: "PADDING = BB_PADDING" by (simp add: PADDING_def BB_PADDING_def)
  have u32: "unat (of_nat (length ?v) :: u32) = length ?v" using lim by (simp add: unat_of_nat)
  have head: "read_header (?rec mod ?C) buf = Inr (of_nat (length ?v))"
    using P(2,3) buf by (simp add: read_header_def)
  have pay: "payload_at buf w (?rec mod ?C) (of_nat (length ?v)) = Inr (w, of_nat (length ?v), ?rec mod ?C + 4)" for w
    using P(3) buf u32 hw(2) by (simp add: payload_at_def)
  have off: "unat (cur AND m) = unat cur mod ?C"
    using slot_ix_mod [OF m, of cur] by (simp add: slot_ix_def)
  show ?thesis
  proof (cases "unat cur = ?rec")
    case True
    then have "cur = of_nat ?rec" by (metis of_nat_unat ucast_id)
    then show ?thesis using head pay hw(1) True off by (simp add: decode_record_def Let_def pad)
  next
    case False
    then have f: "unat cur = frame_at ?C ms k" "?rec \<noteq> frame_at ?C ms k" using cur by auto
    have "(unat cur, bytes_of_u32 BB_PADDING) \<in> set (frame_lanes ?C ms k)"
      using f by (simp add: frame_lanes_def)
    then have "read_bytes (unat cur mod ?C) 4 buf = bytes_of_u32 BB_PADDING"
      using here unfolding frame_here_def read_bytes_get by blast
    moreover have "unat cur mod ?C + 4 \<le> ?C"
    proof -
      have "4 dvd unat cur" using dvd_trans [OF _ frame_aligned(1) [OF al c, of ms k], of 4] f(1) by simp
      then show ?thesis by (rule lane_room_mod(1) [OF al c])
    qed
    ultimately have h1: "read_header (unat cur mod ?C) buf = Inr BB_PADDING"
      using buf by (simp add: read_header_def)
    have rec: "?rec = unat cur + (?C - unat cur mod ?C)"
      using rec_at_cases [of ?C ms k] f by metis
    have z: "?rec mod ?C = 0" unfolding rec pad_lap [OF c] by simp
    have "cur AND m = of_nat (unat cur mod ?C)" using off by (metis of_nat_unat ucast_id)
    then have "unat (m + 1 - (cur AND m)) = ?C - unat cur mod ?C"
      using to_end_unat [OF m, of "unat cur mod ?C"] c by simp
    then have "unat (cur + (m + 1 - (cur AND m))) = ?rec"
      using unat_add_span [of cur "m + 1 - (cur AND m)"] rs rec by simp
    then have w: "cur + (m + 1 - (cur AND m)) = of_nat ?rec" by (metis of_nat_unat ucast_id)
    show ?thesis
      using h1 head pay [of "of_nat ?rec"] hw(1) by (simp add: decode_record_def Let_def pad off z w)
  qed
qed

section \<open>The invariant\<close>

text \<open>
  An anchor stands at a frame or, while it holds a message behind padding, at its
  record; the cached tail is a frame end.
\<close>

definition anchor_at :: "nat \<Rightarrow> u8 list list \<Rightarrow> gate_consumer \<Rightarrow> bool" where
  "anchor_at cap ms c \<longleftrightarrow>
     (\<exists>k\<le>length ms. unat (gc_read_cursor c) = frame_at cap ms k
        \<or> k < length ms \<and> unat (gc_read_cursor c) = rec_at cap ms k)
     \<and> (\<exists>j\<le>length ms. unat (gc_write_cache c) = frame_at cap ms j)"

definition ab_pending :: "nat \<Rightarrow> u8 list list \<Rightarrow> gate_consumer \<Rightarrow> u8 list list" where
  "ab_pending cap ms c =
     (case frame_index cap ms (unat (gc_read_cursor c)) of None \<Rightarrow> [] | Some k \<Rightarrow> drop k ms)"

definition ab_sound ::
  "u8 list list \<Rightarrow> ab_shared \<Rightarrow> ab_producer \<Rightarrow> (nat \<Rightarrow> gate_consumer option) \<Rightarrow> bool" where
  "ab_sound ms sh p cs \<longleftrightarrow> gate_ok sh p cs
     \<and> 8 dvd capacity_of (gs_mask sh) \<and> 16 \<le> capacity_of (gs_mask sh)
     \<and> bytes_at (gs_mask sh) ms (ab_view sh) \<and> ab_intent sh = gs_write_cursor sh
     \<and> abp_intent_floor p \<le> gp_next_seq p
     \<and> (\<forall>v\<in>set ms. legal_length (capacity_of (gs_mask sh)) (length v))
     \<and> (ab_starving sh \<noteq> 0 \<longrightarrow> abp_raised_starving p)
     \<and> ab_starving sh \<le> ab_max_record_span (gs_mask sh + 1)
     \<and> (\<forall>k c. cs k = Some c \<longrightarrow> anchor_at (capacity_of (gs_mask sh)) ms c)"

lemma ab_soundI:
  assumes "gate_ok sh p cs" and "8 dvd capacity_of (gs_mask sh)" and "16 \<le> capacity_of (gs_mask sh)"
    and "bytes_at (gs_mask sh) ms (ab_view sh)" and "ab_intent sh = gs_write_cursor sh"
    and "abp_intent_floor p \<le> gp_next_seq p"
    and "\<forall>v\<in>set ms. legal_length (capacity_of (gs_mask sh)) (length v)"
    and "ab_starving sh \<noteq> 0 \<longrightarrow> abp_raised_starving p"
    and "ab_starving sh \<le> ab_max_record_span (gs_mask sh + 1)"
    and "\<And>k c. cs k = Some c \<Longrightarrow> anchor_at (capacity_of (gs_mask sh)) ms c"
  shows "ab_sound ms sh p cs"
  using assms unfolding ab_sound_def by blast

lemma ab_soundD:
  assumes "ab_sound ms sh p cs"
  shows "gate_ok sh p cs" and "8 dvd capacity_of (gs_mask sh)" and "16 \<le> capacity_of (gs_mask sh)"
    and "bytes_at (gs_mask sh) ms (ab_view sh)" and "ab_intent sh = gs_write_cursor sh"
    and "abp_intent_floor p \<le> gp_next_seq p"
    and "\<forall>v\<in>set ms. legal_length (capacity_of (gs_mask sh)) (length v)"
    and "ab_starving sh \<noteq> 0 \<longrightarrow> abp_raised_starving p"
    and "ab_starving sh \<le> ab_max_record_span (gs_mask sh + 1)"
    and "cs k = Some c \<Longrightarrow> anchor_at (capacity_of (gs_mask sh)) ms c"
    and "valid_mask (gs_mask sh)" and "gp_mask p = gs_mask sh" and "gs_write_cursor sh = gp_next_seq p"
  using assms producer_okD [OF gate_okD(1), of sh p cs] unfolding ab_sound_def by blast+

lemma ab_tail:
  assumes "ab_sound ms sh p cs"
  shows "unat (gs_write_cursor sh) = stream_end (capacity_of (gs_mask sh)) ms"
    and "unat (gp_next_seq p) = frame_at (capacity_of (gs_mask sh)) ms (length ms)"
    and "bb_producer_at (gs_mask sh) (ab_lossy p) (ab_view sh)"
proof -
  note S = ab_soundD [OF assms]
  show t: "unat (gs_write_cursor sh) = stream_end (capacity_of (gs_mask sh)) ms"
    using bytes_atD(3) [OF S(4)] by simp
  then show "unat (gp_next_seq p) = frame_at (capacity_of (gs_mask sh)) ms (length ms)"
    using S(13) by (simp add: stream_end_def)
  show "bb_producer_at (gs_mask sh) (ab_lossy p) (ab_view sh)"
    using S(5,12,13) by (simp add: bb_producer_at_def ab_lossy_def)
qed

lemma frame_index_end: "frame_index cap ms (stream_end cap ms) = None"
proof -
  have "\<not> (stream_end cap ms = frame_at cap ms k \<or> stream_end cap ms = rec_at cap ms k)" if "k < length ms" for k
  proof
    assume "stream_end cap ms = frame_at cap ms k \<or> stream_end cap ms = rec_at cap ms k"
    from in_frame(2) [OF this] have "stream_end cap ms < frame_at cap ms (Suc k)" .
    moreover have "frame_at cap ms (Suc k) \<le> stream_end cap ms"
      unfolding stream_end_def by (rule frame_at_mono) (use that in simp)
    ultimately show False by simp
  qed
  then show ?thesis unfolding frame_index_def find_None_iff by auto
qed

text \<open>The frame of an anchor, and what it has pending.\<close>

lemma pending_at:
  assumes "k \<le> length ms"
    and "unat (gc_read_cursor c) = frame_at cap ms k \<or> k < length ms \<and> unat (gc_read_cursor c) = rec_at cap ms k"
  shows "ab_pending cap ms c = drop k ms"
proof (cases "k < length ms")
  case True
  then show ?thesis
    using frame_index_at [OF True, of "unat (gc_read_cursor c)" cap] assms(2) by (auto simp: ab_pending_def)
next
  case False
  then have "unat (gc_read_cursor c) = stream_end cap ms" "k = length ms"
    using assms by (simp_all add: stream_end_def)
  then show ?thesis by (simp add: ab_pending_def frame_index_end)
qed

lemma anchor_frame:
  assumes "anchor_at cap ms c"
  obtains k where "k \<le> length ms" and "ab_pending cap ms c = drop k ms"
    and "unat (gc_read_cursor c) = frame_at cap ms k \<or> k < length ms \<and> unat (gc_read_cursor c) = rec_at cap ms k"
  using assms pending_at unfolding anchor_at_def by blast

lemma anchor_move:
  assumes "anchor_at cap ms c" and "gc_write_cache c' = gc_write_cache c" and "k \<le> length ms"
    and "unat (gc_read_cursor c') = frame_at cap ms k \<or> k < length ms \<and> unat (gc_read_cursor c') = rec_at cap ms k"
  shows "anchor_at cap ms c'"
  using assms unfolding anchor_at_def by metis

text \<open>Nothing an anchor has yet to read was passed by the declared intent.\<close>

lemma ab_window:
  assumes ok: "ab_sound ms sh p cs" and c: "cs k = Some c"
  shows "unat (ab_intent sh) \<le> unat (gc_published c) + capacity_of (gs_mask sh)"
proof -
  note S = ab_soundD [OF ok]
  note P = producer_okD [OF gate_okD(1) [OF S(1)]] and C = consumer_okD [OF gate_okD(3) [OF S(1) c]]
  show ?thesis using C(9) P(6) S(5,13) by simp
qed

lemma ab_frame_here:
  assumes ok: "ab_sound ms sh p cs" and c: "cs i = Some c" and k: "k < length ms"
    and rd: "unat (gc_published c) \<le> pos"
  shows "frame_here (capacity_of (gs_mask sh)) ms k (ab_buf sh) pos"
  unfolding frame_here_def
proof (intro allI impI)
  fix q bs assume q: "(q, bs) \<in> set (frame_lanes (capacity_of (gs_mask sh)) ms k)" "pos \<le> q"
  have "unat (bb_intent (ab_view sh)) \<le> q + capacity_of (gs_mask sh)"
    using ab_window [OF ok c] q(2) rd by simp
  from bytes_atD(6) [OF ab_soundD(4) [OF ok] k q(1) this]
  show "get (q mod capacity_of (gs_mask sh)) 4 (ab_buf sh) = bs" by simp
qed

section \<open>Taking a message\<close>

lemma ab_advance_step:
  assumes ok: "gate_ok sh p cs" and c: "cs k = Some c" and st: "gate_cstep sh c sh1 c1"
    and n: "unat (gc_read_cursor c1) + unat n \<le> unat (gc_write_cache c1)"
    and a: "ab_advance n sh1 c1 = (sh', c')"
  shows "gate_cstep sh c sh' c'" and "unat (gc_read_cursor c') = unat (gc_read_cursor c1) + unat n"
    and "gc_write_cache c' = gc_write_cache c1"
proof -
  let ?c1 = "c1\<lparr>gc_read_cursor := gc_read_cursor c1 + n\<rparr>"
  note R = gate_read_step [OF ok c st n]
  obtain sh4 c4 where f: "gate_flush sh1 ?c1 = (sh4, c4)" by (rule prod.exhaust)
  note F = gate_flush_step [OF ok c R(1) f]
  have "(sh', c') = (sh4, c4) \<or> (sh', c') = (sh1, ?c1)"
    using a f by (auto simp: ab_advance_def Let_def split: if_splits)
  then show "gate_cstep sh c sh' c'" "unat (gc_read_cursor c') = unat (gc_read_cursor c1) + unat n"
    "gc_write_cache c' = gc_write_cache c1"
    using R F by auto
qed

text \<open>A frame that a reader of cursor \<open>c1\<close> faces.\<close>

lemma anchor_faces:
  assumes "anchor_at cap ms c1" and "unat (gc_read_cursor c1) < unat (gc_write_cache c1)"
  obtains k where "k < length ms" and "ab_pending cap ms c1 = ms ! k # drop (Suc k) ms"
    and "unat (gc_read_cursor c1) = frame_at cap ms k \<or> unat (gc_read_cursor c1) = rec_at cap ms k"
    and "frame_at cap ms (Suc k) \<le> unat (gc_write_cache c1)"
proof -
  obtain j where j: "j \<le> length ms" "unat (gc_write_cache c1) = frame_at cap ms j"
    using assms(1) unfolding anchor_at_def by blast
  obtain k where k: "k \<le> length ms" "ab_pending cap ms c1 = drop k ms"
    "unat (gc_read_cursor c1) = frame_at cap ms k \<or> k < length ms \<and> unat (gc_read_cursor c1) = rec_at cap ms k"
    by (rule anchor_frame [OF assms(1)])
  have "frame_at cap ms k \<le> unat (gc_read_cursor c1)" using k(3) rec_at_ge [of cap ms k] by auto
  then have "k < j" using assms(2) j(2) frame_at_mono [of j k cap ms] by (metis leD leI le_trans)
  then have "frame_at cap ms (Suc k) \<le> unat (gc_write_cache c1)"
    unfolding j(2) by (intro frame_at_mono) simp
  moreover have "drop k ms = ms ! k # drop (Suc k) ms"
    by (rule Cons_nth_drop_Suc [symmetric]) (use \<open>k < j\<close> j(1) in simp)
  ultimately show ?thesis using that [of k] \<open>k < j\<close> j(1) k by auto
qed

lemma ab_take:
  assumes ok: "ab_sound ms sh p cs" and c: "cs i = Some c" and st: "gate_cstep sh c sh c1"
    and at: "anchor_at (capacity_of (gs_mask sh)) ms c1"
    and item: "unat (gc_read_cursor c1) < unat (gc_write_cache c1)"
  obtains k g c2 where "k < length ms"
    and "ab_pending (capacity_of (gs_mask sh)) ms c1 = ms ! k # drop (Suc k) ms"
    and "ab_next_msg sh c1 = Inr (g, c2)" and "ab_msg_deref g sh = ms ! k"
    and "gate_cstep sh c sh c2" and "anchor_at (capacity_of (gs_mask sh)) ms c2"
    and "ab_pending (capacity_of (gs_mask sh)) ms c2 = ab_pending (capacity_of (gs_mask sh)) ms c1"
    and "\<And>sh' c3. ab_msg_drop g sh c2 = (sh', c3) \<Longrightarrow> gate_cstep sh c sh' c3
      \<and> anchor_at (capacity_of (gs_mask sh)) ms c3
      \<and> ab_pending (capacity_of (gs_mask sh)) ms c3 = drop (Suc k) ms"
proof -
  let ?C = "capacity_of (gs_mask sh)"
  note S = ab_soundD [OF ok]
  obtain k where k: "k < length ms" "ab_pending ?C ms c1 = ms ! k # drop (Suc k) ms"
    "unat (gc_read_cursor c1) = frame_at ?C ms k \<or> unat (gc_read_cursor c1) = rec_at ?C ms k"
    "frame_at ?C ms (Suc k) \<le> unat (gc_write_cache c1)"
    by (rule anchor_faces [OF at item])
  let ?v = "ms ! k" and ?rec = "rec_at ?C ms k"
  have c: "0 < ?C" by (rule capacity_pos [OF S(11)])
  have lg: "legal_length ?C (length ?v)" using S(7) k(1) by simp
  note L = legal_span [OF S(11) lg]
  have fs: "frame_at ?C ms (Suc k) < word_span"
    using k(4) unat_less_span [of "gc_write_cache c1"] by linarith
  have rs: "?rec < word_span" using fs rec_at_less [of ?C ms k] by linarith
  have ur: "unat (of_nat ?rec :: u64) = ?rec" by (rule unat_of_nat_span [OF rs])
  have rd: "unat (gc_published c) \<le> unat (gc_read_cursor c1)"
    and mk: "gc_mask c1 = gs_mask sh" and le: "unat (gc_read_cursor c1) \<le> ?rec"
    using st consumer_okD(1,6) [OF gate_okD(3) [OF S(1) assms(2)]] k(3) rec_at_ge [of ?C ms k]
    by (auto simp: gate_cstep_def)
  have buf: "length (ab_buf sh) = ?C" using bytes_atD(2) [OF S(4)] by simp
  note here = ab_frame_here [OF ok assms(2) k(1) rd]
  note D = decode_frame [OF S(11,2) lg buf here k(3) fs]
  note PH = payload_here [OF S(2) c lg buf here le]
  define g where "g = \<lparr>msg_payload = ?rec mod ?C + 4, msg_len = of_nat (length ?v) :: usize\<rparr>"
  define c2 where "c2 = c1\<lparr>gc_read_cursor := of_nat ?rec\<rparr>"
  have nx: "ab_next_msg sh c1 = Inr (g, c2)" by (simp add: ab_next_msg_def mk D g_def c2_def)
  have dr: "ab_msg_deref g sh = ?v" using PH(1) L(1) by (simp add: ab_msg_deref_def g_def)
  have sum: "gc_read_cursor c1 + of_nat (?rec - unat (gc_read_cursor c1)) = of_nat ?rec"
    using le by (metis le_add_diff_inverse of_nat_add of_nat_unat ucast_id)
  have ud: "unat (of_nat (?rec - unat (gc_read_cursor c1)) :: u64) = ?rec - unat (gc_read_cursor c1)"
    by (rule unat_of_nat_span) (use rs in linarith)
  have rl: "?rec + rlen8 (length ?v) = frame_at ?C ms (Suc k)" by (simp add: frame_at_Suc)
  have "unat (gc_read_cursor c1) + unat (of_nat (?rec - unat (gc_read_cursor c1)) :: u64) \<le> unat (gc_write_cache c1)"
    unfolding ud using le k(4) rl by linarith
  from gate_read_step(1) [OF S(1) assms(2) st this]
  have st2: "gate_cstep sh c sh c2" unfolding c2_def sum .
  have at2: "anchor_at ?C ms c2" by (rule anchor_move [OF at, of _ k]) (use k(1) ur in \<open>simp_all add: c2_def\<close>)
  have p2: "ab_pending ?C ms c2 = ab_pending ?C ms c1"
    using pending_at [of k ms c2 ?C] k(1,2) ur by (simp add: c2_def Cons_nth_drop_Suc)
  have drop: "gate_cstep sh c sh' c3 \<and> anchor_at ?C ms c3 \<and> ab_pending ?C ms c3 = drop (Suc k) ms"
    if d: "ab_msg_drop g sh c2 = (sh', c3)" for sh' c3
  proof -
    have amount: "unat (bb_record_len (msg_len g)) = rlen8 (length ?v)" using L(2) by (simp add: g_def)
    have "unat (gc_read_cursor c2) + unat (bb_record_len (msg_len g)) \<le> unat (gc_write_cache c2)"
      unfolding amount using k(4) rl ur by (simp add: c2_def)
    note A = ab_advance_step [OF S(1) assms(2) st2 this d [unfolded ab_msg_drop_def]]
    have r3: "unat (gc_read_cursor c3) = frame_at ?C ms (Suc k)" using A(2) amount rl ur by (simp add: c2_def)
    have k1: "Suc k \<le> length ms" using k(1) by simp
    have "anchor_at ?C ms c3" by (rule anchor_move [OF at2 A(3) k1 disjI1 [OF r3]])
    then show ?thesis using A(1) pending_at [OF k1 disjI1 [OF r3]] by blast
  qed
  show ?thesis by (rule that [OF k(1,2) nx dr st2 at2 p2 drop])
qed

section \<open>Drain\<close>

lemma frame_here_later: "frame_here cap ms k buf pos \<Longrightarrow> pos \<le> pos' \<Longrightarrow> frame_here cap ms k buf pos'"
  unfolding frame_here_def by (meson order_trans)

lemma ab_drain_loop_ok:
  assumes m: "valid_mask m" and al: "8 dvd capacity_of m" and buf: "length buf = capacity_of m"
    and lg: "\<forall>v\<in>set ms. legal_length (capacity_of m) (length v)"
    and j: "j \<le> length ms" "unat e = frame_at (capacity_of m) ms j"
    and "k \<le> j" and "unat rd = frame_at (capacity_of m) ms k \<or> k < j \<and> unat rd = rec_at (capacity_of m) ms k"
    and "\<forall>i. k \<le> i \<longrightarrow> i < j \<longrightarrow> frame_here (capacity_of m) ms i buf (unat rd)"
    and "j - k \<le> fuel"
  shows "\<exists>i rd'. k \<le> i \<and> i \<le> j
    \<and> ab_drain_loop fuel unwinds count buf m batch start e rd = Some (Inr (drop k (take i ms), rd'))
    \<and> (if i = k then rd' = rd else unat rd' = frame_at (capacity_of m) ms i)
    \<and> (rd - start < batch \<and> k < j \<longrightarrow> k < i)"
  using assms(7-10)
proof (induction fuel arbitrary: k rd count)
  case 0
  then have "unat rd = unat e" using j(2) by auto
  then have "rd = e" by (simp only: word_unat_eq_iff)
  then have "ab_drain_loop 0 unwinds count buf m batch start e rd = Some (Inr (drop k (take k ms), rd))"
    by (simp add: ab_drain_loop.simps [of 0])
  then show ?case using 0 by (intro exI [of _ k] exI [of _ rd]) simp
next
  case (Suc fuel)
  let ?C = "capacity_of m"
  show ?case
  proof (cases "e - rd \<noteq> 0 \<and> rd - start < batch")
    case False
    then have "ab_drain_loop (Suc fuel) unwinds count buf m batch start e rd
        = Some (Inr (drop k (take k ms), rd))"
      by (auto simp: ab_drain_loop.simps [of "Suc fuel"])
    moreover have "\<not> (rd - start < batch \<and> k < j)"
    proof
      assume "rd - start < batch \<and> k < j"
      then have "e = rd" "k < j" using False by auto
      then have "frame_at ?C ms j < frame_at ?C ms (Suc k)"
        using Suc.prems(2) j(2) in_frame(2) [of "unat rd" ?C ms k] by auto
      then show False using frame_at_mono [of "Suc k" j ?C ms] \<open>k < j\<close> by simp
    qed
    ultimately show ?thesis using Suc.prems(1) by (intro exI [of _ k] exI [of _ rd]) simp
  next
    case True
    have kj: "k < j"
    proof (rule ccontr)
      assume "\<not> k < j"
      then have "unat rd = unat e" using Suc.prems(1,2) j(2) by auto
      then have "rd = e" by (simp only: word_unat_eq_iff)
      then show False using True by simp
    qed
    then have kl: "k < length ms" using j(1) by simp
    let ?v = "ms ! k" and ?rec = "rec_at ?C ms k"
    have lgk: "legal_length ?C (length ?v)" using lg kl by simp
    note L = legal_span [OF m lgk]
    have rd: "unat rd = frame_at ?C ms k \<or> unat rd = ?rec" using Suc.prems(2) by blast
    have le: "unat rd \<le> ?rec" using rd rec_at_ge [of ?C ms k] by auto
    have here: "frame_here ?C ms k buf (unat rd)" using Suc.prems(3) kj by simp
    have fs: "frame_at ?C ms (Suc k) < word_span"
      using frame_at_mono [of "Suc k" j ?C ms] kj j(2) unat_less_span [of e] by simp
    note D = decode_frame [OF m al lgk buf here rd fs]
    note PH = payload_here [OF al capacity_pos [OF m] lgk buf here le]
    define rd' where "rd' = of_nat ?rec + bb_record_len (of_nat (length ?v))"
    have ur: "unat (of_nat ?rec :: u64) = ?rec"
      by (rule unat_of_nat_span) (use fs rec_at_less [of ?C ms k] in linarith)
    have urd': "unat rd' = frame_at ?C ms (Suc k)"
      using unat_add_span [of "of_nat ?rec" "bb_record_len (of_nat (length ?v))"] fs ur L(2)
      by (simp add: rd'_def frame_at_Suc)
    have x: "read_bytes (?rec mod ?C + 4) (unat (of_nat (length ?v) :: u64)) buf = ?v"
      using PH(1) L(1) by simp
    have unfold: "ab_drain_loop (Suc fuel) unwinds count buf m batch start e rd
        = (if unwinds count then Some (Inr ([?v], rd'))
           else (case ab_drain_loop fuel unwinds (Suc count) buf m batch start e rd' of
                   Some (Inr (xs, rd'')) \<Rightarrow> Some (Inr (?v # xs, rd''))
                 | other \<Rightarrow> other))"
      using True D x by (simp add: ab_drain_loop.simps [of "Suc fuel"] Let_def rd'_def
          split: option.split sum.split)
    show ?thesis
    proof (cases "unwinds count")
      case True
      have "drop k (take (Suc k) ms) = [?v]" using kl by (simp add: take_Suc_conv_app_nth)
      then show ?thesis
        using unfold True urd' kj by (intro exI [of _ "Suc k"] exI [of _ rd']) simp
    next
      case False
      have later: "\<forall>i. Suc k \<le> i \<longrightarrow> i < j \<longrightarrow> frame_here ?C ms i buf (unat rd')"
        using Suc.prems(3) frame_here_later [of ?C ms _ buf "unat rd" "unat rd'"] le rec_at_less [of ?C ms k]
        unfolding urd' by (meson Suc_leD le_trans add_leD1)
      have "Suc k \<le> j" "j - Suc k \<le> fuel" using kj Suc.prems(4) by simp_all
      from Suc.IH [OF this(1) disjI1 [OF urd'] later this(2), of "Suc count"]
      obtain i rd'' where I: "Suc k \<le> i" "i \<le> j"
        "ab_drain_loop fuel unwinds (Suc count) buf m batch start e rd' = Some (Inr (drop (Suc k) (take i ms), rd''))"
        "if i = Suc k then rd'' = rd' else unat rd'' = frame_at ?C ms i" by blast
      have "drop k (take i ms) = ?v # drop (Suc k) (take i ms)"
        using Cons_nth_drop_Suc [of k "take i ms"] I(1,2) kl by simp
      moreover have "unat rd'' = frame_at ?C ms i" using I(4) urd' by (cases "i = Suc k") simp_all
      ultimately show ?thesis
        using unfold False I(1-3) by (intro exI [of _ i] exI [of _ rd'']) simp
    qed
  qed
qed

lemma frames_apart: "k \<le> j \<Longrightarrow> frame_at cap ms k + 8 * (j - k) \<le> frame_at cap ms j"
proof (induction j)
  case (Suc j)
  then show ?case
    using frame_at_step [of cap ms j] by (cases "k = Suc j") (simp_all add: Suc_diff_le)
qed simp

text \<open>A drain delivers a prefix of what is pending; the number of buffer bytes is enough fuel.\<close>

lemma ab_drain_ok:
  assumes ok: "ab_sound ms sh p cs" and c: "cs i = Some c" and fuel: "length (ab_buf sh) \<le> fuel"
  obtains ys sh' c' where "ab_drain fuel unwinds sh c = Some (Inr (ys, sh', c'))"
    and "gate_cstep sh c sh' c'" and "anchor_at (capacity_of (gs_mask sh)) ms c'"
    and "ab_pending (capacity_of (gs_mask sh)) ms c = ys @ ab_pending (capacity_of (gs_mask sh)) ms c'"
    and "ab_pending (capacity_of (gs_mask sh)) ms c \<noteq> [] \<Longrightarrow> ys \<noteq> []"
proof -
  let ?m = "gs_mask sh" and ?C = "capacity_of (gs_mask sh)" and ?w = "gs_write_cursor sh" and ?rd = "gc_read_cursor c"
  let ?c1 = "c\<lparr>gc_write_cache := ?w\<rparr>" and ?n = "length ms"
  note S = ab_soundD [OF ok] and T = ab_tail [OF ok]
  note CO = consumer_okD [OF gate_okD(3) [OF S(1) c]]
  note st1 = gate_refresh_step [OF S(1) c]
  have w: "unat ?w = frame_at ?C ms ?n" using T(1) by (simp add: stream_end_def)
  obtain k where k: "k \<le> ?n" "ab_pending ?C ms c = drop k ms"
    "unat ?rd = frame_at ?C ms k \<or> k < ?n \<and> unat ?rd = rec_at ?C ms k"
    by (rule anchor_frame [OF S(10) [OF c]])
  have at1: "anchor_at ?C ms ?c1" using k(1,3) w unfolding anchor_at_def by auto
  have p1: "ab_pending ?C ms ?c1 = drop k ms" using k(2) by (simp add: ab_pending_def)
  show ?thesis
  proof (cases "?w - ?rd = 0")
    case True
    then have "unat ?rd = stream_end ?C ms" using T(1) by (simp add: word_diff_0)
    then have "ab_pending ?C ms c = []" by (simp add: ab_pending_def frame_index_end)
    moreover have "ab_drain fuel unwinds sh c = Some (Inr ([], sh, ?c1))"
      using True by (simp add: ab_drain_def gate_refresh_def)
    ultimately show ?thesis using that [of "[]" sh ?c1] st1 at1 p1 k(2) by simp
  next
    case False
    let ?batch = "publish_batch_bytes (?m + 1)"
    have kn: "k < ?n"
    proof (rule ccontr)
      assume "\<not> k < ?n"
      then have "unat ?rd = unat ?w" using k w by auto
      then have "?rd = ?w" by (simp only: word_unat_eq_iff)
      then show False using False by simp
    qed
    have buf: "length (ab_buf sh) = ?C" using bytes_atD(2) [OF S(4)] by simp
    have here: "\<forall>i. k \<le> i \<longrightarrow> i < ?n \<longrightarrow> frame_here ?C ms i (ab_buf sh) (unat ?rd)"
      using ab_frame_here [OF ok c] CO(6) by blast
    have lag: "unat ?w \<le> unat ?rd + ?C" using ab_window [OF ok c] S(5) CO(6) by simp
    have fl: "?n - k \<le> fuel"
    proof -
      have "unat ?rd + 8 * (?n - k) \<le> unat ?w"
      proof -
        have "unat ?rd \<le> rec_at ?C ms k" using k(3) rec_at_ge [of ?C ms k] by auto
        then have "unat ?rd + 8 \<le> frame_at ?C ms (Suc k)" using rec_at_less [of ?C ms k] by linarith
        then show ?thesis using frames_apart [of "Suc k" ?n ?C ms] kn w by (simp add: Suc_diff_Suc [symmetric])
      qed
      then show ?thesis using lag fuel buf by linarith
    qed
    have rd: "unat ?rd = frame_at ?C ms k \<or> k < ?n \<and> unat ?rd = rec_at ?C ms k" by (rule k(3))
    have bpos: "0 < ?batch" using publish_batch_bounds(1) [of MAX_PUBLISH_BATCH_BYTES]
      by (simp add: publish_batch_bytes_def MAX_PUBLISH_BATCH_BYTES_def)
    obtain i' rd' where L: "k \<le> i'" "i' \<le> ?n"
      "ab_drain_loop fuel unwinds 0 (ab_buf sh) ?m ?batch ?rd ?w ?rd = Some (Inr (drop k (take i' ms), rd'))"
      "if i' = k then rd' = ?rd else unat rd' = frame_at ?C ms i'" "k < i'"
      using ab_drain_loop_ok [OF S(11,2) buf S(7) order_refl w k(1) rd here fl, of unwinds 0 ?batch ?rd]
        kn bpos by auto
    have urd': "unat rd' = frame_at ?C ms i'" using L(4,5) by simp
    define n where "n = rd' - ?rd"
    have ge: "unat ?rd \<le> unat rd'"
    proof -
      have "unat ?rd < frame_at ?C ms (Suc k)" using in_frame(2) [of "unat ?rd" ?C ms k] rd by blast
      also have "\<dots> \<le> unat rd'" unfolding urd' by (rule frame_at_mono) (use L(5) in simp)
      finally show ?thesis by simp
    qed
    then have un: "unat n = unat rd' - unat ?rd" unfolding n_def by (intro unat_sub) (simp add: word_le_nat_alt)
    have "unat rd' \<le> unat ?w" unfolding urd' w by (rule frame_at_mono [OF L(2)])
    then have "unat (gc_read_cursor ?c1) + unat n \<le> unat (gc_write_cache ?c1)" using un ge by simp
    note RS = gate_read_step(1) [OF S(1) c st1 this]
    define c2 where "c2 = ?c1\<lparr>gc_read_cursor := rd'\<rparr>"
    have RS': "gate_cstep sh c sh c2" using RS by (simp add: n_def c2_def)
    obtain sh' c' where f: "gate_flush_pending sh c2 = (sh', c')" by (rule prod.exhaust)
    note FP = gate_flush_pending_step [OF S(1) c RS' f]
    have run: "ab_drain fuel unwinds sh c = Some (Inr (drop k (take i' ms), sh', c'))"
      using False L(3) f CO(1) by (simp add: ab_drain_def gate_refresh_def c2_def)
    have r': "unat (gc_read_cursor c') = frame_at ?C ms i'" using FP(2) urd' by (simp add: c2_def)
    have at': "anchor_at ?C ms c'"
      by (rule anchor_move [OF at1 _ L(2) disjI1 [OF r']]) (use FP(4) in \<open>simp add: c2_def\<close>)
    have p': "ab_pending ?C ms c' = drop i' ms" by (rule pending_at [OF L(2) disjI1 [OF r']])
    have "drop k ms = drop k (take i' ms) @ drop i' ms"
      using drop_append [of k "take i' ms" "drop i' ms"] append_take_drop_id [of i' ms] L(1,2) by simp
    then show ?thesis using that [OF run FP(1) at'] k(2) p' L(5) kn L(2) by simp
  qed
qed

end
