(* ===== verification/Anchored_Bytes_Producer.thy ===== *)
theory Anchored_Bytes_Producer
  imports Anchored_Bytes_Invariant
begin

text \<open>
  The producer of the composed byte ring against the invariant: what a message
  reserves, the anchors' gate, and the frame's stores, each of which the observers may
  see on its own.
\<close>

section \<open>Spans\<close>

lemma rlen8_mono: "a \<le> b \<Longrightarrow> rlen8 a \<le> rlen8 b"
  by (simp add: rlen8_def div_le_mono)

definition legal_max :: "nat \<Rightarrow> nat" where
  "legal_max cap = min (cap div 8) (2 ^ 32 - 2)"

lemma legal_max: "legal_length cap n \<longleftrightarrow> n \<le> legal_max cap"
  by (simp add: legal_length_def legal_max_def)

lemma ab_max_record_span_nat:
  assumes m: "valid_mask m"
  shows "unat (ab_max_record_span (m + 1)) = 2 * rlen8 (legal_max (capacity_of m)) - 8"
proof -
  let ?c = "capacity_of m" and ?x = "bb_max_message_len (m + 1)" and ?l = "legal_max (capacity_of m)"
  have u: "unat ?x = ?l" unfolding unat_bb_max legal_max_def capacity_of_def ..
  have lg: "legal_length ?c ?l" by (simp add: legal_max)
  have x: "?x = of_nat ?l" using u by (metis of_nat_unat ucast_id)
  have r: "unat (bb_record_len ?x) = rlen8 ?l" unfolding x by (rule legal_span(2) [OF m lg])
  have "rlen8 ?l \<le> 2 ^ 32 + 11" using rlen8_bounds(2) [of ?l] by (simp add: legal_max_def)
  then have small: "2 * rlen8 ?l < word_span" by (simp add: word_span_def)
  have "unat (bb_record_len ?x + bb_record_len ?x) = 2 * rlen8 ?l"
    using unat_add_span [of "bb_record_len ?x" "bb_record_len ?x"] r small by simp
  then have d: "unat (2 * bb_record_len ?x) = 2 * rlen8 ?l" by (simp only: mult_2)
  have a: "unat BB_ALIGN = 8" by (simp add: BB_ALIGN_def)
  have "BB_ALIGN \<le> 2 * bb_record_len ?x"
    unfolding word_le_nat_alt a d using rlen8_bounds(4) [of ?l] by linarith
  then show ?thesis unfolding ab_max_record_span_def using a d by (simp add: unat_sub)
qed

lemma legal_max_room:
  assumes "8 dvd cap" and "16 \<le> cap"
  shows "2 * rlen8 (legal_max cap) \<le> cap"
proof -
  obtain q where q: "cap = 8 * q" using assms(1) by (elim dvdE)
  have "rlen8 (legal_max cap) \<le> rlen8 q" by (rule rlen8_mono) (simp add: legal_max_def q)
  moreover have "2 * rlen8 q \<le> 8 * q"
  proof (cases "q < 8")
    case True
    then have "q \<in> {2, 3, 4, 5, 6, 7}" using assms(2) q by auto
    then show ?thesis by (auto simp: rlen8_def)
  next
    case False
    then show ?thesis using rlen8_bounds(2) [of q] by linarith
  qed
  ultimately show ?thesis using q by linarith
qed

text \<open>The frame of a message in the positions of the stream.\<close>

definition ab_span :: "nat \<Rightarrow> u8 list list \<Rightarrow> u8 list \<Rightarrow> nat" where
  "ab_span cap ms v = stream_end cap (ms @ [v]) - stream_end cap ms"

lemma stream_end_both:
  "stream_end cap (ms @ [v]) = frame_at cap (ms @ [v]) (Suc (length ms))"
  "stream_end cap ms = frame_at cap (ms @ [v]) (length ms)"
  by (simp_all add: stream_end_def frame_at_append)

lemma ab_span_bounds:
  assumes m: "valid_mask m" and al: "8 dvd capacity_of m" and c16: "16 \<le> capacity_of m"
    and lg: "legal_length (capacity_of m) (length v)"
  shows "8 \<le> ab_span (capacity_of m) ms v" and "ab_span (capacity_of m) ms v + 8 \<le> capacity_of m"
    and "ab_span (capacity_of m) ms v \<le> unat (ab_max_record_span (m + 1))"
    and "stream_end (capacity_of m) (ms @ [v]) = stream_end (capacity_of m) ms + ab_span (capacity_of m) ms v"
proof -
  let ?C = "capacity_of m" and ?ms = "ms @ [v]" and ?n = "length ms"
  let ?f = "frame_at ?C ?ms ?n" and ?r = "rlen8 (length v)"
  note E = stream_end_both [of ?C ms v]
  show e: "8 \<le> ab_span ?C ms v" "stream_end ?C ?ms = stream_end ?C ms + ab_span ?C ms v"
    using frame_at_step [of ?C ?ms ?n] by (simp_all add: ab_span_def E)
  have rm: "?r \<le> rlen8 (legal_max ?C)" by (rule rlen8_mono) (use lg legal_max in simp)
  have "ab_span ?C ms v \<le> 2 * ?r - 8"
  proof (rule rec_at_cases [of ?C ?ms ?n])
    assume "rec_at ?C ?ms ?n = ?f"
    then show ?thesis using rlen8_bounds(4) [of "length v"] by (simp add: ab_span_def E frame_at_Suc)
  next
    assume r: "rec_at ?C ?ms ?n = ?f + (?C - ?f mod ?C)" and pad: "?C - ?f mod ?C < rlen8 (length (?ms ! ?n))"
    have "8 dvd ?f mod ?C" using frame_aligned(1) [OF al capacity_pos [OF m]] al by (simp add: dvd_mod)
    then have "8 dvd ?C - ?f mod ?C" using al by simp
    then have "?C - ?f mod ?C + 8 \<le> ?r" using pad rlen8_bounds(3) [of "length v"] by (elim dvdE) auto
    then show ?thesis using r by (simp add: ab_span_def E frame_at_Suc)
  qed
  then have "ab_span ?C ms v \<le> 2 * rlen8 (legal_max ?C) - 8" using rm by linarith
  then show "ab_span ?C ms v \<le> unat (ab_max_record_span (m + 1))" "ab_span ?C ms v + 8 \<le> ?C"
    using ab_max_record_span_nat [OF m] legal_max_room [OF al c16] rlen8_bounds(4) [of "legal_max ?C"] by linarith+
qed

lemma ab_frame_ok:
  assumes ok: "ab_sound ms sh p cs" and lg: "legal_length (capacity_of (gs_mask sh)) (length v)"
    and sp: "stream_end (capacity_of (gs_mask sh)) ms + 2 * capacity_of (gs_mask sh) < word_span"
  obtains pad need where "ab_frame (of_nat (length v)) p = Inr (pad, need)"
    and "unat need = ab_span (capacity_of (gs_mask sh)) ms v"
    and "0 < need" and "unat need < capacity_of (gs_mask sh)" and "need \<le> ab_max_record_span (gs_mask sh + 1)"
proof -
  let ?m = "gs_mask sh" and ?C = "capacity_of (gs_mask sh)" and ?len = "of_nat (length v) :: usize"
  let ?ms = "ms @ [v]" and ?n = "length ms"
  note S = ab_soundD [OF ok]
  note B = ab_span_bounds [OF S(11,2,3) lg, of ms]
  have le: "?len \<le> bb_max_message_len (?m + 1)"
    using lg legal_span(1) [OF S(11) lg] by (simp add: legal_bb_max word_le_nat_alt)
  obtain pad need where fr: "bb_frame ?m (gp_next_seq p) ?len = (pad, need)" by fastforce
  have "ab_frame ?len p = Inr (bb_frame ?m (gp_next_seq p) ?len)"
    using le S(12) by (simp add: ab_frame_def bb_frame_def Let_def)
  then have f: "ab_frame ?len p = Inr (pad, need)" by (simp only: fr)
  have nx: "unat (gp_next_seq p) = frame_at ?C ?ms ?n" using ab_tail(2) [OF ok] by (simp add: frame_at_append)
  have nf: "next_frame ?C (unat (gp_next_seq p)) (length v) = (rec_at ?C ?ms ?n, frame_at ?C ?ms (Suc ?n))"
    unfolding nx by (simp add: rec_at_def prod_eq_iff frame_at.simps(2))
  have need: "need = of_nat (ab_span ?C ms v)"
    using bb_frame_next [OF S(11,2) lg, of "gp_next_seq p"] fr nf nx
    by (simp add: ab_span_def stream_end_both [of ?C ms v])
  have "ab_span ?C ms v < word_span" using B(2) sp by linarith
  then have un: "unat need = ab_span ?C ms v" unfolding need by (rule unat_of_nat_span)
  show ?thesis
    by (rule that [OF f un]) (use un B in \<open>simp_all add: word_less_nat_alt word_le_nat_alt\<close>)
qed

lemma ab_frame_illegal:
  assumes "gp_mask p = gs_mask sh" and "\<not> legal_length (capacity_of (gs_mask sh)) (length v)"
    and "length v < word_span"
  shows "ab_frame (of_nat (length v)) p = Inl Panic"
proof -
  have "unat (of_nat (length v) :: u64) = length v" by (rule unat_of_nat_span [OF assms(3)])
  then show ?thesis
    using assms(1,2) by (simp add: ab_frame_def legal_bb_max word_le_nat_alt Let_def)
qed

section \<open>The gate\<close>

lemma ab_sound_words:
  assumes ok: "ab_sound ms sh p cs" and g: "gate_ok sh p' cs"
    and fl: "abp_intent_floor p' = abp_intent_floor p" and nx: "gp_next_seq p' = gp_next_seq p"
    and st: "s \<noteq> 0 \<longrightarrow> b" and sp: "s \<le> ab_max_record_span (gs_mask sh + 1)"
  shows "ab_sound ms (sh\<lparr>ab_starving := s\<rparr>) (p'\<lparr>abp_raised_starving := b\<rparr>) cs"
proof (rule ab_soundI)
  show "gate_ok (sh\<lparr>ab_starving := s\<rparr>) (p'\<lparr>abp_raised_starving := b\<rparr>) cs"
    by (rule gate_ok_cong [OF g]) simp_all
  show "bytes_at (gs_mask (sh\<lparr>ab_starving := s\<rparr>)) ms (ab_view (sh\<lparr>ab_starving := s\<rparr>))"
    using ab_soundD(4) [OF ok] by (simp add: ab_view_def)
qed (use ab_soundD [OF ok] st sp fl nx in simp_all)

lemma ab_has_space_ok:
  assumes ok: "ab_sound ms sh p cs" and n: "0 < needed" "unat needed < capacity_of (gs_mask sh)"
    and sp: "needed \<le> ab_max_record_span (gs_mask sh + 1)"
  obtains free s p' where "ab_has_space needed sh p = Inr (free, sh\<lparr>ab_starving := s\<rparr>, p')"
    and "ab_sound ms (sh\<lparr>ab_starving := s\<rparr>) p' cs"
    and "gp_next_seq p' = gp_next_seq p" and "gp_mask p' = gp_mask p"
    and "free \<longleftrightarrow> \<not> gate_blocked p (capacity_of (gs_mask sh)) (unat needed) cs"
    and "free \<Longrightarrow> cdist (gp_cached_min p') (gp_next_seq p) + unat needed \<le> capacity_of (gs_mask sh)"
    and "\<not> free \<Longrightarrow> s = needed"
proof -
  note S = ab_soundD [OF ok]
  show ?thesis
  proof (cases "gate_lacks_space (gp_next_seq p) needed (gp_cached_min p) (gp_mask p + 1)")
    case False
    then have h: "gate_has_space needed sh p = (True, p)" by (simp add: gate_has_space_def)
    note H = gate_has_space_ok [OF S(1) n h]
    have nb: "\<not> gate_blocked p (capacity_of (gs_mask sh)) (unat needed) cs"
      using gate_has_space_iff [OF S(1) n h] by simp
    define s where "s = (if abp_raised_starving p then 0 else ab_starving sh)"
    have "ab_has_space needed sh p = Inr (True, sh\<lparr>ab_starving := s\<rparr>, p\<lparr>abp_raised_starving := False\<rparr>)"
      using False by (simp add: ab_has_space_def s_def)
    moreover have "ab_sound ms (sh\<lparr>ab_starving := s\<rparr>) (p\<lparr>abp_raised_starving := False\<rparr>) cs"
      by (rule ab_sound_words [OF ok S(1)]) (use S(8,9) in \<open>auto simp: s_def\<close>)
    ultimately show ?thesis using that [of True s "p\<lparr>abp_raised_starving := False\<rparr>"] nb H(4) by simp
  next
    case True
    obtain free p1 where r: "gate_rescan needed sh p = (free, p1)" by (rule prod.exhaust)
    note R = gate_rescan_ok [OF S(1) n r]
    have bl: "free \<longleftrightarrow> \<not> gate_blocked p (capacity_of (gs_mask sh)) (unat needed) cs"
      by (rule gate_rescan_iff [OF S(1) n r])
    have same: "abp_raised_starving p1 = abp_raised_starving p" "abp_intent_floor p1 = abp_intent_floor p"
      using R(6) by (cases p1, cases p, simp)+
    have m1: "gp_mask p1 = gs_mask sh" using R(3) S(12) by simp
    note W = ab_sound_words [OF ok R(1) same(2) R(2)]
    show ?thesis
    proof (cases free)
      case f: True
      have "ab_has_space needed sh p = Inr (True, sh\<lparr>ab_starving := ab_starving sh\<rparr>, p1)"
        using True r f by (simp add: ab_has_space_def)
      moreover have "ab_sound ms (sh\<lparr>ab_starving := ab_starving sh\<rparr>)
          (p1\<lparr>abp_raised_starving := abp_raised_starving p1\<rparr>) cs"
        by (rule W) (use S(8,9) same in simp_all)
      ultimately show ?thesis using that [of True "ab_starving sh" p1] R(2-4) bl f by simp
    next
      case f: False
      have "ab_has_space needed sh p
          = Inr (False, sh\<lparr>ab_starving := needed\<rparr>, p1\<lparr>abp_raised_starving := True\<rparr>)"
        using True r f m1 sp by (auto simp: ab_has_space_def)
      moreover have "ab_sound ms (sh\<lparr>ab_starving := needed\<rparr>) (p1\<lparr>abp_raised_starving := True\<rparr>) cs"
        by (rule W) (use sp in simp_all)
      ultimately show ?thesis
        using that [of False needed "p1\<lparr>abp_raised_starving := True\<rparr>"] R(2,3) bl f by simp
    qed
  qed
qed

section \<open>The stores of a frame\<close>

text \<open>Frame ends and record starts of the messages so far stay where they are.\<close>

lemma frame_before_snoc:
  "k \<le> length ms \<Longrightarrow> frame_at cap (ms @ [v]) k = frame_at cap ms k"
  "k < length ms \<Longrightarrow> rec_at cap (ms @ [v]) k = rec_at cap ms k"
  by (simp_all add: frame_at_append rec_at_def nth_append)

lemma anchor_snoc:
  assumes "anchor_at cap ms c"
  shows "anchor_at cap (ms @ [v]) c" and "ab_pending cap (ms @ [v]) c = ab_pending cap ms c @ [v]"
proof -
  obtain k where k: "k \<le> length ms" "ab_pending cap ms c = drop k ms"
    "unat (gc_read_cursor c) = frame_at cap ms k \<or> k < length ms \<and> unat (gc_read_cursor c) = rec_at cap ms k"
    using assms by (rule anchor_frame)
  have k': "k \<le> length (ms @ [v])" "unat (gc_read_cursor c) = frame_at cap (ms @ [v]) k
      \<or> k < length (ms @ [v]) \<and> unat (gc_read_cursor c) = rec_at cap (ms @ [v]) k"
    using k(1,3) frame_before_snoc [of k ms cap v] by auto
  show "ab_pending cap (ms @ [v]) c = ab_pending cap ms c @ [v]"
    using pending_at [OF k'] k(1,2) by simp
  obtain j where "j \<le> length ms" "unat (gc_write_cache c) = frame_at cap ms j"
    using assms unfolding anchor_at_def by blast
  then have "j \<le> length (ms @ [v])" "unat (gc_write_cache c) = frame_at cap (ms @ [v]) j"
    using frame_before_snoc(1) [of j ms cap v] by simp_all
  then show "anchor_at cap (ms @ [v]) c" using k' unfolding anchor_at_def by blast
qed

lemma ab_publish_ok:
  assumes ok: "ab_sound ms sh p cs" and lg: "legal_length (capacity_of (gs_mask sh)) (length v)"
    and fr: "ab_frame (of_nat (length v)) p = Inr (pad, need)"
    and fit: "cdist (gp_cached_min p) (gp_next_seq p) + unat need \<le> capacity_of (gs_mask sh)"
    and span: "stream_end (capacity_of (gs_mask sh)) ms + 3 * capacity_of (gs_mask sh) < word_span"
    and pb: "ab_publish pad v sh p = (sts, sh', p')"
  shows "ab_sound (ms @ [v]) sh' p' cs" and "along (gs_mask sh) ms [v] (ab_view sh) sts"
    and "ab_view sh' = fold bb_apply sts (ab_view sh)"
    and "gs_mask sh' = gs_mask sh"
proof -
  let ?m = "gs_mask sh" and ?C = "capacity_of (gs_mask sh)" and ?nx = "gp_next_seq p"
  note S = ab_soundD [OF ok] and T = ab_tail [OF ok]
  have sp2: "stream_end ?C ms + 2 * ?C < word_span" using span by linarith
  obtain need' where F: "ab_frame (of_nat (length v)) p = Inr (pad, need')"
    "unat need' = ab_span ?C ms v" "unat need' < ?C"
    using ab_frame_ok [OF ok lg sp2] fr by (metis Inr_inject prod.inject)
  then have un: "unat need = ab_span ?C ms v" "unat need < ?C" using fr by simp_all
  have lv: "length v < word_span" using lg by (simp add: legal_length_def word_span_def)
  note W = ab_write_lossy [OF fr lv]
  obtain sts0 p0 where w0: "ab_write_frame pad v p = (sts0, p0)" by (rule prod.exhaust)
  define sh0 where "sh0 = fold ab_apply sts0 sh"
  have eqs: "sts = sts0" "p' = p0" "sh' = sh0\<lparr>gs_consumer_notified := Suc (gs_consumer_notified sh0)\<rparr>"
    using pb unfolding sh0_def by (auto simp: ab_publish_def w0 Let_def)
  obtain sts2 p2 where P: "bb_push v (ab_lossy p) = Inr (sts2, p2)" "along ?m ms [v] (ab_view sh) sts2"
    "bb_producer_at ?m p2 (fold bb_apply sts2 (ab_view sh))"
    by (rule push_along [OF S(11,2) lg S(4) T(3) sp2]) blast
  have s2: "sts2 = sts" "p2 = ab_lossy p'" using P(1) W(1) w0 eqs by simp_all
  show al: "along ?m ms [v] (ab_view sh) sts" using P(2) s2 by simp
  show view: "ab_view sh' = fold bb_apply sts (ab_view sh)"
    unfolding eqs(1,3) sh0_def ab_view_fold [symmetric] by (simp add: ab_view_def)
  note at = along_end [OF al, folded view]
  have words: "gs_mask sh' = gs_mask sh" "gs_registry sh' = gs_registry sh" "ab_starving sh' = ab_starving sh"
    unfolding eqs(3) sh0_def by (simp_all add: ab_fold_words)
  show "gs_mask sh' = gs_mask sh" by (rule words(1))
  have p': "p' = p\<lparr>gp_next_seq := ?nx + need\<rparr>"
    using w0 W(2) by (simp add: eqs(2) ab_write_frame_def Let_def add.assoc)
  have tail: "gs_write_cursor sh' = gp_next_seq p'"
    and intent: "ab_intent sh' \<le> max (gp_next_seq p') (abp_intent_floor p')"
    using P(3) unfolding s2 view [symmetric] by (auto simp: bb_producer_at_def ab_lossy_def)
  obtain shg pg where g: "gate_publish need sh p = (shg, pg)" by (rule prod.exhaust)
  have fitsp: "unat ?nx + unat need + 2 * ?C < word_span"
    using un(2) span T(1) S(13) by simp
  note G = gate_publish_ok [OF S(1) fit fitsp g]
  have g': "pg = p'" "gs_write_cursor shg = gs_write_cursor sh'" "gs_mask shg = gs_mask sh'"
    "gs_registry shg = gs_registry sh'"
    using g words tail by (auto simp: gate_publish_def Let_def p')
  have grow: "gp_next_seq p \<le> gp_next_seq p'" using G(2) g'(1) by (simp add: word_le_nat_alt)
  have "abp_intent_floor p' \<le> gp_next_seq p'" using S(6) grow by (simp add: p')
  then have ie: "ab_intent sh' = gs_write_cursor sh'"
    using intent bytes_atD(4) [OF at] tail by (simp add: max_def)
  show "ab_sound (ms @ [v]) sh' p' cs"
  proof (rule ab_soundI)
    show "gate_ok sh' p' cs" by (rule gate_ok_cong [OF G(1)]) (simp_all add: g')
    show "bytes_at (gs_mask sh') (ms @ [v]) (ab_view sh')" using at words(1) by simp
    show "ab_intent sh' = gs_write_cursor sh'" by (rule ie)
    show "abp_intent_floor p' \<le> gp_next_seq p'" by fact
    show "\<forall>w\<in>set (ms @ [v]). legal_length (capacity_of (gs_mask sh')) (length w)"
      using S(7) lg words(1) by simp
    show "anchor_at (capacity_of (gs_mask sh')) (ms @ [v]) c" if "cs k = Some c" for k c
      unfolding words(1) by (rule anchor_snoc(1) [OF S(10) [OF that]])
  qed (use S(2,3,8,9) words in \<open>simp_all add: p'\<close>)
qed

end
