(* ===== verification/Anchored_Bytes_Anchors.thy ===== *)
theory Anchored_Bytes_Anchors
  imports Anchored_Bytes_Producer
begin

text \<open>
  The anchors of the composed byte ring against the invariant: the checks, the pop and
  its guard, membership, and the close. None of them is seen by the observers.
\<close>

section \<open>Steps of an anchor\<close>

lemma more_abs:
  fixes sh sh' :: ab_shared
  assumes "gate_shared.more sh' = gate_shared.more sh"
  shows "ab_buf sh' = ab_buf sh" and "ab_intent sh' = ab_intent sh" and "ab_latest sh' = ab_latest sh"
    and "ab_starving sh' = ab_starving sh"
  using assms by (cases sh, cases sh', simp)+

lemma ab_view_cong:
  fixes sh sh' :: ab_shared
  assumes "gs_mask sh' = gs_mask sh" and "gs_write_cursor sh' = gs_write_cursor sh"
    and "gs_closed sh' = gs_closed sh" and "gate_shared.more sh' = gate_shared.more sh"
  shows "ab_view sh' = ab_view sh"
  using assms more_abs [of sh' sh] by (simp add: ab_view_def)

lemma ab_cstep_words:
  fixes sh sh' :: ab_shared
  assumes "gate_cstep sh c sh' c'"
  shows "gs_mask sh' = gs_mask sh" and "gs_write_cursor sh' = gs_write_cursor sh"
    and "gs_closed sh' = gs_closed sh" and "ab_starving sh' = ab_starving sh" and "ab_view sh' = ab_view sh"
proof -
  show e: "gs_mask sh' = gs_mask sh" "gs_write_cursor sh' = gs_write_cursor sh"
    "gs_closed sh' = gs_closed sh" and "ab_starving sh' = ab_starving sh"
    using assms more_abs [of sh' sh] by (simp_all add: gate_cstep_def)
  show "ab_view sh' = ab_view sh" by (rule ab_view_cong) (use assms in \<open>simp_all add: gate_cstep_def\<close>)
qed

text \<open>A change of the gate that the observers do not see.\<close>

lemma ab_sound_gate:
  assumes ok: "ab_sound ms sh p cs" and g: "gate_ok sh' p cs'" and v: "ab_view sh' = ab_view sh"
    and st: "ab_starving sh' = ab_starving sh"
    and at: "\<And>k c. cs' k = Some c \<Longrightarrow> anchor_at (capacity_of (gs_mask sh)) ms c"
  shows "ab_sound ms sh' p cs'"
proof -
  have e: "gs_mask sh' = gs_mask sh" "gs_write_cursor sh' = gs_write_cursor sh" "ab_intent sh' = ab_intent sh"
    using arg_cong [OF v, of bb_mask] arg_cong [OF v, of bb_tail] arg_cong [OF v, of bb_intent] by simp_all
  show ?thesis
    by (rule ab_soundI [OF g]) (use ab_soundD [OF ok] v st e at in simp_all)
qed

lemma ab_cstep_ok:
  assumes ok: "ab_sound ms sh p cs" and c: "cs k = Some c" and st: "gate_cstep sh c sh' c'"
    and at: "anchor_at (capacity_of (gs_mask sh)) ms c'"
  shows "ab_sound ms sh' p (cs(k \<mapsto> c'))"
proof (rule ab_sound_gate [OF ok gate_cstep_ok [OF ab_soundD(1) [OF ok] c st]])
  show "ab_view sh' = ab_view sh" "ab_starving sh' = ab_starving sh" by (rule ab_cstep_words [OF st])+
  fix j d assume "(cs(k \<mapsto> c')) j = Some d"
  then show "anchor_at (capacity_of (gs_mask sh)) ms d"
    using at ab_soundD(10) [OF ok] by (cases "j = k") auto
qed

lemma ab_pending_cursor:
  "gc_read_cursor c' = gc_read_cursor c \<Longrightarrow> ab_pending cap ms c' = ab_pending cap ms c"
  by (simp add: ab_pending_def)

lemma anchor_refresh:
  assumes "anchor_at cap ms c" and "unat w = stream_end cap ms"
  shows "anchor_at cap ms (c\<lparr>gc_write_cache := w\<rparr>)"
  using assms unfolding anchor_at_def stream_end_def by auto

lemma ab_pending_nil:
  assumes ok: "ab_sound ms sh p cs" and at: "anchor_at (capacity_of (gs_mask sh)) ms c"
  shows "ab_pending (capacity_of (gs_mask sh)) ms c = [] \<longleftrightarrow> gc_read_cursor c = gs_write_cursor sh"
proof -
  let ?C = "capacity_of (gs_mask sh)" and ?w = "gs_write_cursor sh" and ?rd = "gc_read_cursor c"
  note T = ab_tail(1) [OF ok]
  obtain k where k: "k \<le> length ms" "ab_pending ?C ms c = drop k ms"
    "unat ?rd = frame_at ?C ms k \<or> k < length ms \<and> unat ?rd = rec_at ?C ms k"
    by (rule anchor_frame [OF at])
  show ?thesis
  proof
    assume "ab_pending ?C ms c = []"
    then have "k = length ms" using k(1,2) by simp
    then have "unat ?rd = unat ?w" using k(3) T by (simp add: stream_end_def)
    then show "?rd = ?w" by (simp only: word_unat_eq_iff)
  next
    assume "?rd = ?w"
    then have "unat ?rd = stream_end ?C ms" using T by simp
    then show "ab_pending ?C ms c = []" by (simp add: ab_pending_def frame_index_end)
  qed
qed

section \<open>The pop\<close>

lemma ab_has_item_ok:
  assumes ok: "ab_sound ms sh p cs" and c: "cs k = Some c" and h: "gate_has_item sh c = (b, c1)"
  shows "gate_cstep sh c sh c1" and "anchor_at (capacity_of (gs_mask sh)) ms c1"
    and "gc_read_cursor c1 = gc_read_cursor c"
    and "b \<longleftrightarrow> ab_pending (capacity_of (gs_mask sh)) ms c \<noteq> []"
    and "b \<Longrightarrow> unat (gc_read_cursor c1) < unat (gc_write_cache c1)"
    and "\<not> b \<Longrightarrow> gate_available_cached c1 = 0"
proof -
  note S = ab_soundD [OF ok]
  note at = S(10) [OF c] and G = gate_has_item_spec [OF S(1) c h]
  show "gate_cstep sh c sh c1" "gc_read_cursor c1 = gc_read_cursor c" by (rule G(1), rule G(2))
  show "b \<longleftrightarrow> ab_pending (capacity_of (gs_mask sh)) ms c \<noteq> []" using G(4) ab_pending_nil [OF ok at] by simp
  show "b \<Longrightarrow> unat (gc_read_cursor c1) < unat (gc_write_cache c1)" by (rule G(5))
  show "\<not> b \<Longrightarrow> gate_available_cached c1 = 0" using G(6) by (simp add: gate_available_cached_def)
  have "c1 = c \<or> c1 = c\<lparr>gc_write_cache := gs_write_cursor sh\<rparr>"
    using h by (auto simp: gate_has_item_def gate_refresh_def Let_def split: if_splits)
  then show "anchor_at (capacity_of (gs_mask sh)) ms c1"
    using at anchor_refresh [OF at ab_tail(1) [OF ok]] by auto
qed

lemma ab_check_closed_ok:
  assumes ok: "ab_sound ms sh p cs" and c: "cs k = Some c" and h: "gate_check_closed sh c = (b, c1)"
    and nil: "ab_pending (capacity_of (gs_mask sh)) ms c = []"
  shows "gate_cstep sh c sh c1" and "anchor_at (capacity_of (gs_mask sh)) ms c1"
    and "gc_read_cursor c1 = gc_read_cursor c" and "b \<longleftrightarrow> gs_closed sh \<noteq> 0" and "\<not> b \<Longrightarrow> c1 = c"
proof -
  note S = ab_soundD [OF ok]
  note at = S(10) [OF c] and G = gate_check_closed_spec [OF S(1) c h]
  show "gate_cstep sh c sh c1" "gc_read_cursor c1 = gc_read_cursor c" by (rule G(1), rule G(2))
  show b: "b \<longleftrightarrow> gs_closed sh \<noteq> 0" using G(3) nil ab_pending_nil [OF ok at] by simp
  then show "\<not> b \<Longrightarrow> c1 = c" using G(4) by simp
  have "c1 = c \<or> c1 = c\<lparr>gc_write_cache := gs_write_cursor sh\<rparr>"
    using h by (auto simp: gate_check_closed_def gate_refresh_def Let_def split: if_splits)
  then show "anchor_at (capacity_of (gs_mask sh)) ms c1"
    using at anchor_refresh [OF at ab_tail(1) [OF ok]] by auto
qed

definition ab_pop_spec ::
  "u8 list list \<Rightarrow> ab_shared \<Rightarrow> gate_consumer \<Rightarrow> gate_consumer \<Rightarrow> msg_guard pop_result \<Rightarrow> bool" where
  "ab_pop_spec ms sh c c1 res \<longleftrightarrow>
     (case res of
        Popped g \<Rightarrow> (\<exists>rest. ab_pending (capacity_of (gs_mask sh)) ms c = ab_msg_deref g sh # rest
          \<and> (\<forall>sh' c2. ab_msg_drop g sh c1 = (sh', c2) \<longrightarrow>
               gate_cstep sh c sh' c2 \<and> anchor_at (capacity_of (gs_mask sh)) ms c2
               \<and> ab_pending (capacity_of (gs_mask sh)) ms c2 = rest))
      | Pop_empty \<Rightarrow> ab_pending (capacity_of (gs_mask sh)) ms c = [] \<and> gs_closed sh = 0
      | Pop_closed \<Rightarrow> ab_pending (capacity_of (gs_mask sh)) ms c = [] \<and> gs_closed sh \<noteq> 0
      | Pop_unwound \<Rightarrow> False)"

lemma ab_try_pop_ok:
  assumes ok: "ab_sound ms sh p cs" and c: "cs k = Some c"
  obtains res c1 where "ab_try_pop (\<lambda>s. s) sh c = Inr (res, sh, c1)" and "gate_cstep sh c sh c1"
    and "anchor_at (capacity_of (gs_mask sh)) ms c1"
    and "ab_pending (capacity_of (gs_mask sh)) ms c1 = ab_pending (capacity_of (gs_mask sh)) ms c"
    and "ab_pop_spec ms sh c c1 res"
proof -
  let ?C = "capacity_of (gs_mask sh)"
  obtain b c1 where h: "gate_has_item sh c = (b, c1)" by (rule prod.exhaust)
  note H = ab_has_item_ok [OF ok c h]
  have pend1: "ab_pending ?C ms c1 = ab_pending ?C ms c" by (rule ab_pending_cursor [OF H(3)])
  show ?thesis
  proof (cases b)
    case True
    obtain i g c2 where T: "ab_pending ?C ms c1 = ms ! i # drop (Suc i) ms" "ab_next_msg sh c1 = Inr (g, c2)"
      "ab_msg_deref g sh = ms ! i" "gate_cstep sh c sh c2" "anchor_at ?C ms c2"
      "ab_pending ?C ms c2 = ab_pending ?C ms c1"
      "\<And>sh' c3. ab_msg_drop g sh c2 = (sh', c3) \<Longrightarrow>
         gate_cstep sh c sh' c3 \<and> anchor_at ?C ms c3 \<and> ab_pending ?C ms c3 = drop (Suc i) ms"
      by (rule ab_take [OF ok c H(1,2) H(5) [OF True]]) blast
    have "ab_try_pop (\<lambda>s. s) sh c = Inr (Popped g, sh, c2)" using h True T(2) by (simp add: ab_try_pop_def)
    moreover have "ab_pop_spec ms sh c c2 (Popped g)" using T(1,3,7) pend1 by (simp add: ab_pop_spec_def)
    ultimately show ?thesis using that T(4-6) pend1 by simp
  next
    case False
    have nil: "ab_pending ?C ms c1 = []" using H(4) False pend1 by simp
    note ok1 = ab_cstep_ok [OF ok c H(1,2)]
    have k1: "(cs(k \<mapsto> c1)) k = Some c1" by simp
    obtain b2 c2 where h2: "gate_check_closed sh c1 = (b2, c2)" by (rule prod.exhaust)
    note K = ab_check_closed_ok [OF ok1 k1 h2 nil]
    have st: "gate_cstep sh c sh c2" by (rule gate_cstep_trans [OF H(1) K(1)])
    have pend: "ab_pending ?C ms c2 = ab_pending ?C ms c" using ab_pending_cursor [OF K(3)] pend1 by simp
    define res :: "msg_guard pop_result" where "res = (if b2 then Pop_closed else Pop_empty)"
    have "ab_try_pop (\<lambda>s. s) sh c = Inr (res, sh, c2)"
      using h False h2 K(5) H(6) by (simp add: ab_try_pop_def res_def)
    moreover have "ab_pop_spec ms sh c c2 res" using K(4) nil pend1 by (simp add: ab_pop_spec_def res_def)
    ultimately show ?thesis using that st K(2) pend by blast
  qed
qed

section \<open>Membership and the close\<close>

lemma ab_subscribe_ok:
  assumes ok: "ab_sound ms sh p cs" and k: "cs k = None" and s: "ab_subscribe_anchor sh = (Inr c, sh')"
  shows "ab_sound ms sh' p (cs(k \<mapsto> c))" and "ab_pending (capacity_of (gs_mask sh)) ms c = []"
    and "ab_view sh' = ab_view sh"
proof -
  let ?C = "capacity_of (gs_mask sh)"
  note G = gate_subscribe_ok [OF ab_soundD(1) [OF ok] k s [unfolded ab_subscribe_anchor_def]]
  note T = ab_tail(1) [OF ok]
  show v: "ab_view sh' = ab_view sh" by (rule ab_view_cong) (rule G(6-9))+
  have at: "anchor_at ?C ms c" using G(2,4) T unfolding anchor_at_def stream_end_def by auto
  show "ab_pending ?C ms c = []" using ab_pending_nil [OF ok at] G(2) by simp
  show "ab_sound ms sh' p (cs(k \<mapsto> c))"
  proof (rule ab_sound_gate [OF ok G(1) v more_abs(4) [OF G(9)]])
    fix j d assume "(cs(k \<mapsto> c)) j = Some d"
    then show "anchor_at ?C ms d" using at ab_soundD(10) [OF ok] by (cases "j = k") auto
  qed
qed

lemma ab_leave_ok:
  assumes ok: "ab_sound ms sh p cs" and c: "cs k = Some c"
  shows "ab_sound ms (ab_anchor_drop sh c) p (cs(k := None))" and "ab_view (ab_anchor_drop sh c) = ab_view sh"
proof -
  note G = gate_consumer_drop_ok [OF ab_soundD(1) [OF ok] c, folded ab_anchor_drop_def]
  show v: "ab_view (ab_anchor_drop sh c) = ab_view sh" by (rule ab_view_cong) (rule G(2-5))+
  show "ab_sound ms (ab_anchor_drop sh c) p (cs(k := None))"
  proof (rule ab_sound_gate [OF ok G(1) v more_abs(4) [OF G(5)]])
    fix j d assume "(cs(k := None)) j = Some d"
    then show "anchor_at (capacity_of (gs_mask sh)) ms d"
      using ab_soundD(10) [OF ok] by (cases "j = k") auto
  qed
qed

lemma ab_close_ok:
  assumes ok: "ab_sound ms sh p cs" and d: "ab_producer_drop sh = (sts, sh')"
  shows "ab_sound ms sh' p cs" and "ab_view sh' = fold bb_apply sts (ab_view sh)"
    and "along (gs_mask sh) ms [] (ab_view sh) sts" and "gs_mask sh' = gs_mask sh"
proof -
  note S = ab_soundD [OF ok]
  have e: "sts = [BSt_closed 1]"
    "sh' = sh\<lparr>gs_closed := 1, gs_consumer_notified := Suc (gs_consumer_notified sh)\<rparr>"
    using d by (auto simp: ab_producer_drop_def Let_def)
  show v: "ab_view sh' = fold bb_apply sts (ab_view sh)" "gs_mask sh' = gs_mask sh" by (simp_all add: e ab_view_def)
  have at: "bytes_at (gs_mask sh) ms (fold bb_apply sts (ab_view sh))"
    using bytes_at_closed [OF S(4)] by (simp add: e)
  show "along (gs_mask sh) ms [] (ab_view sh) sts"
    by (rule alongI) (use S(4) at in \<open>simp_all add: e less_Suc_eq\<close>)
  show "ab_sound ms sh' p cs"
  proof (rule ab_soundI)
    show "gate_ok sh' p cs" by (rule gate_ok_cong [OF S(1)]) (simp_all add: e)
    show "bytes_at (gs_mask sh') ms (ab_view sh')" unfolding v by (rule at)
  qed (use S in \<open>simp_all add: e\<close>)
qed

section \<open>A new ring\<close>

lemma ab_new_ok:
  assumes new: "ab_with_wait_strategies n = Inr (sh, p, c)" and two: "2 * capacity_of (gs_mask sh) < word_span"
  shows "ab_sound [] sh p (Map.empty(0 \<mapsto> c))" and "ab_pending (capacity_of (gs_mask sh)) [] c = []"
    and "gs_write_cursor sh = 0" and "gs_closed sh = 0"
proof -
  obtain capacity where rc: "round_capacity n AB_MIN_CAPACITY = Inr capacity"
    using new by (auto simp: ab_with_wait_strategies_def split: sum.splits)
  have "AB_MIN_CAPACITY = 2 ^ 4" "(4 :: nat) < 64" by (simp_all add: AB_MIN_CAPACITY_def)
  note R = round_capacity_pow2 [OF rc this]
  have cap: "capacity_of (capacity - 1) = unat capacity" by (simp add: capacity_of_def)
  have c16: "16 \<le> capacity_of (capacity - 1)"
    using R(2) unfolding cap by (simp add: word_le_nat_alt AB_MIN_CAPACITY_def)
  have dv: "8 dvd capacity_of (capacity - 1)" by (rule capacity_dvd_8 [OF R(1)]) (use c16 in simp)
  have len: "unat (capacity div BB_ALIGN) * 8 = capacity_of (capacity - 1)"
    using dv unfolding cap by (simp add: unat_div BB_ALIGN_def)
  define sh0 :: ab_shared where "sh0 = \<lparr>gs_mask = capacity - 1, gs_write_cursor = 0, gs_closed = 0,
      gs_registry = [chunk_new], gs_producer_notified = 0, gs_consumer_notified = 0,
      ab_buf = replicate (unat (capacity div BB_ALIGN) * 8) 0, ab_intent = 0, ab_latest = 0, ab_starving = 0\<rparr>"
  have p: "p = \<lparr>gp_mask = capacity - 1, gp_next_seq = 0, gp_cached_min = 0,
      gp_cached_cursors = [], abp_raised_starving = False, abp_intent_floor = 0\<rparr>"
    and g: "ab_subscribe_anchor sh0 = (Inr c, sh)"
    using new rc by (auto simp: ab_with_wait_strategies_def Let_def sh0_def split: prod.splits sum.splits)
  have mk: "gs_mask sh = capacity - 1"
    using g by (auto simp: ab_subscribe_anchor_def gate_subscribe_def sh0_def split: prod.splits)
  have s0: "ab_sound [] sh0 p Map.empty"
  proof (rule ab_soundI)
    show "gate_ok sh0 p Map.empty"
      using R(1) c16 two mk by (intro gate_ok_fresh) (simp_all add: sh0_def p)
    show "bytes_at (gs_mask sh0) [] (ab_view sh0)"
      by (rule bytes_atI) (simp_all add: sh0_def len stream_end_def boundary_def)
  qed (use c16 dv in \<open>simp_all add: sh0_def p\<close>)
  note S = ab_subscribe_ok [where k = 0, OF s0 _ g]
  show "ab_sound [] sh p (Map.empty(0 \<mapsto> c))" by (rule S(1)) simp
  have v: "ab_view sh = ab_view sh0" by (rule S(3)) simp
  show "gs_write_cursor sh = 0" "gs_closed sh = 0"
    using arg_cong [OF v, of bb_tail] arg_cong [OF v, of bb_closed] by (simp_all add: sh0_def)
  show "ab_pending (capacity_of (gs_mask sh)) [] c = []" using S(2) mk by (simp add: sh0_def)
qed

end
