(* ===== verification/Anchored_Bytes_Runs.thy ===== *)
theory Anchored_Bytes_Runs
  imports Anchored_Bytes_Anchors
begin

text \<open>
  Whole runs of a composed byte ring: an instance of the multicast contract for the
  anchors and of the byte history for the observers. A run keeps, beside the handles,
  the messages committed so far and every atomic store issued, in order.
\<close>

section \<open>Runs\<close>

record ab_ring =
  ab_sh :: ab_shared
  ab_p :: ab_producer
  ab_cs :: "nat \<Rightarrow> gate_consumer option"
  ab_next :: nat
  ab_start :: bbytes_shared
  ab_log :: "u8 list list"
  ab_hist :: "bb_store list"

definition ab_new :: "usize \<Rightarrow> fault + ab_ring" where
  "ab_new min_capacity =
     map_sum id (\<lambda>(sh, p, c). \<lparr>ab_sh = sh, ab_p = p, ab_cs = Map.empty(0 \<mapsto> c), ab_next = 1,
         ab_start = ab_view sh, ab_log = [], ab_hist = []\<rparr>)
       (ab_with_wait_strategies min_capacity)"

datatype ab_op =
    Ab_push "u8 list"
  | Ab_claim "u8 list" bool
  | Ab_subscribe
  | Ab_pop nat bool
  | Ab_drain nat "nat \<Rightarrow> bool"
  | Ab_leave nat
  | Ab_close

definition ab_legal :: "ab_ring \<Rightarrow> u8 list \<Rightarrow> bool" where
  "ab_legal r x \<longleftrightarrow> length x \<le> unat (bb_max_message_len (gs_mask (ab_sh r) + 1))"

text \<open>
  One call on a ring. A call on a handle that no longer exists is \<open>Quiet\<close>, and so
  is a message over the limit, which panics before anything changes. A slot is
  committed or abandoned, a guard read and then dropped or forgotten. A drain that
  runs out of fuel counts as a fault; the bytes of the buffer are enough (\<open>ab_drain_ok\<close>).
\<close>

fun ab_exec :: "ab_op \<Rightarrow> ab_ring \<Rightarrow> fault + u8 list mc_event \<times> ab_ring" where
  "ab_exec (Ab_push x) r =
     (if gs_closed (ab_sh r) \<noteq> 0 \<or> \<not> ab_legal r x then Inr (Quiet, r)
      else (case ab_try_push x (ab_sh r) (ab_p r) of
              Inl f \<Rightarrow> Inl f
            | Inr (b, sts, sh, p) \<Rightarrow>
                Inr (if b then Published x else Quiet,
                     r\<lparr>ab_sh := sh, ab_p := p, ab_log := ab_log r @ (if b then [x] else []),
                       ab_hist := ab_hist r @ sts\<rparr>)))"
| "ab_exec (Ab_claim x keep) r =
     (if gs_closed (ab_sh r) \<noteq> 0 \<or> \<not> ab_legal r x then Inr (Quiet, r)
      else (case ab_try_claim (of_nat (length x)) (ab_sh r) (ab_p r) of
              Inl f \<Rightarrow> Inl f
            | Inr (None, sh, p) \<Rightarrow> Inr (Quiet, r\<lparr>ab_sh := sh, ab_p := p\<rparr>)
            | Inr (Some ws, sh, p) \<Rightarrow>
                (if keep
                 then (case ab_commit ws x sh p of
                         Inl f \<Rightarrow> Inl f
                       | Inr (sts, sh2, p2) \<Rightarrow>
                           Inr (Published x, r\<lparr>ab_sh := sh2, ab_p := p2, ab_log := ab_log r @ [x],
                                               ab_hist := ab_hist r @ sts\<rparr>))
                 else Inr (Quiet, r\<lparr>ab_sh := sh, ab_p := p\<rparr>))))"
| "ab_exec Ab_subscribe r =
     (case ab_subscribe_anchor (ab_sh r) of
        (Inl e, sh) \<Rightarrow> Inr (Quiet, r)
      | (Inr c, sh) \<Rightarrow>
          Inr (Joined (ab_next r),
               r\<lparr>ab_sh := sh, ab_cs := (ab_cs r)(ab_next r \<mapsto> c), ab_next := Suc (ab_next r)\<rparr>))"
| "ab_exec (Ab_pop k keep) r =
     (case ab_cs r k of
        None \<Rightarrow> Inr (Quiet, r)
      | Some c \<Rightarrow>
          (case ab_try_pop (\<lambda>s. s) (ab_sh r) c of
             Inl f \<Rightarrow> Inl f
           | Inr (res, sh, c1) \<Rightarrow>
               (case res of
                  Popped g \<Rightarrow>
                    (if keep then Inr (Quiet, r\<lparr>ab_sh := sh, ab_cs := (ab_cs r)(k \<mapsto> c1)\<rparr>)
                     else (case ab_msg_drop g sh c1 of
                             (sh2, c2) \<Rightarrow>
                               Inr (Received k [ab_msg_deref g sh],
                                    r\<lparr>ab_sh := sh2, ab_cs := (ab_cs r)(k \<mapsto> c2)\<rparr>)))
                | Pop_closed \<Rightarrow> Inr (Closed_seen k, r\<lparr>ab_sh := sh, ab_cs := (ab_cs r)(k \<mapsto> c1)\<rparr>)
                | _ \<Rightarrow> Inr (Empty k, r\<lparr>ab_sh := sh, ab_cs := (ab_cs r)(k \<mapsto> c1)\<rparr>))))"
| "ab_exec (Ab_drain k unwinds) r =
     (case ab_cs r k of
        None \<Rightarrow> Inr (Quiet, r)
      | Some c \<Rightarrow>
          (case ab_drain (length (ab_buf (ab_sh r))) unwinds (ab_sh r) c of
             None \<Rightarrow> Inl Panic
           | Some (Inl f) \<Rightarrow> Inl f
           | Some (Inr (xs, sh, c')) \<Rightarrow>
               Inr (Received k xs, r\<lparr>ab_sh := sh, ab_cs := (ab_cs r)(k \<mapsto> c')\<rparr>)))"
| "ab_exec (Ab_leave k) r =
     (case ab_cs r k of
        None \<Rightarrow> Inr (Quiet, r)
      | Some c \<Rightarrow>
          Inr (Left k, r\<lparr>ab_sh := ab_anchor_drop (ab_sh r) c, ab_cs := (ab_cs r)(k := None)\<rparr>))"
| "ab_exec Ab_close r =
     (case ab_producer_drop (ab_sh r) of
        (sts, sh) \<Rightarrow> Inr (Shut, r\<lparr>ab_sh := sh, ab_hist := ab_hist r @ sts\<rparr>))"

definition ab_mask :: "ab_ring \<Rightarrow> u64" where
  "ab_mask r = bb_mask (ab_start r)"

definition ab_queues :: "ab_ring \<Rightarrow> nat \<Rightarrow> u8 list list option" where
  "ab_queues r k = map_option (ab_pending (capacity_of (ab_mask r)) (ab_log r)) (ab_cs r k)"

text \<open>The memory that an observer may load from after \<open>t\<close> of the stores so far.\<close>

definition ab_memory :: "ab_ring \<Rightarrow> nat \<Rightarrow> bbytes_shared" where
  "ab_memory r t = bb_memory (ab_start r) (ab_hist r) t"

text \<open>The state is sound and \<open>n\<close> more messages stay within the range of the cursors.\<close>

definition ab_inv :: "nat \<Rightarrow> ab_ring \<Rightarrow> bool" where
  "ab_inv n r \<longleftrightarrow> ab_sound (ab_log r) (ab_sh r) (ab_p r) (ab_cs r) \<and> (\<forall>k. ab_next r \<le> k \<longrightarrow> ab_cs r k = None)
     \<and> ab_view (ab_sh r) = fold bb_apply (ab_hist r) (ab_start r)
     \<and> along (ab_mask r) [] (ab_log r) (ab_start r) (ab_hist r)
     \<and> stream_end (capacity_of (ab_mask r)) (ab_log r) + (n + 2) * capacity_of (ab_mask r) < word_span"

lemma ab_invD:
  assumes "ab_inv n r"
  shows "ab_sound (ab_log r) (ab_sh r) (ab_p r) (ab_cs r)" and "ab_next r \<le> k \<Longrightarrow> ab_cs r k = None"
    and "ab_view (ab_sh r) = fold bb_apply (ab_hist r) (ab_start r)"
    and "along (ab_mask r) [] (ab_log r) (ab_start r) (ab_hist r)"
    and "stream_end (capacity_of (ab_mask r)) (ab_log r) + (n + 2) * capacity_of (ab_mask r) < word_span"
    and "gs_mask (ab_sh r) = ab_mask r"
proof -
  have v: "ab_view (ab_sh r) = fold bb_apply (ab_hist r) (ab_start r)" using assms by (simp add: ab_inv_def)
  show "gs_mask (ab_sh r) = ab_mask r"
    using arg_cong [OF v, of bb_mask] by (simp add: apply_mask ab_mask_def)
qed (use assms in \<open>auto simp: ab_inv_def\<close>)

definition ab_exec_spec :: "nat \<Rightarrow> u8 list mc_event \<Rightarrow> ab_ring \<Rightarrow> ab_ring \<Rightarrow> bool" where
  "ab_exec_spec n ev r r' \<longleftrightarrow> ab_inv n r' \<and> mc_spec ev (ab_queues r) (ab_queues r')
     \<and> ab_start r' = ab_start r \<and> ab_log r' = ab_log r @ mc_published [ev]
     \<and> (\<exists>sts. ab_hist r' = ab_hist r @ sts)
     \<and> (\<forall>k. ev = Joined k \<longrightarrow> k = ab_next r)
     \<and> ab_next r' = (case ev of Joined k \<Rightarrow> Suc k | _ \<Rightarrow> ab_next r)"

lemma ab_span_less: "(s :: nat) + (Suc n + 2) * c < w \<Longrightarrow> s + (n + 2) * c < w"
  by simp

lemma ab_exec_quiet: "ab_inv (Suc n) r \<Longrightarrow> ab_exec_spec n Quiet r r"
  by (auto simp: ab_exec_spec_def ab_inv_def)

text \<open>A step of the producer that leaves every anchor's queue as it is, and one that publishes.\<close>

lemma ab_exec_same:
  assumes inv: "ab_inv (Suc n) r" and ok: "ab_sound (ab_log r) sh' p' (ab_cs r)"
    and v: "ab_view sh' = fold bb_apply sts (ab_view (ab_sh r))"
    and al: "along (ab_mask r) (ab_log r) [] (ab_view (ab_sh r)) sts" and ev: "ev = Quiet \<or> ev = Shut"
  shows "ab_exec_spec n ev r (r\<lparr>ab_sh := sh', ab_p := p', ab_hist := ab_hist r @ sts\<rparr>)"
proof -
  let ?r' = "r\<lparr>ab_sh := sh', ab_p := p', ab_hist := ab_hist r @ sts\<rparr>"
  note I = ab_invD [OF inv]
  have "along (ab_mask r) [] (ab_log r @ []) (ab_start r) (ab_hist r @ sts)"
    by (rule along_append [OF I(4)]) (use al I(3) in simp)
  moreover have "ab_view sh' = fold bb_apply (ab_hist r @ sts) (ab_start r)" using v I(3) by simp
  ultimately have "ab_inv n ?r'"
    using ok I(2) ab_span_less [OF I(5)] by (simp add: ab_inv_def ab_mask_def)
  moreover have "ab_queues ?r' = ab_queues r" by (rule ext) (simp add: ab_queues_def ab_mask_def)
  ultimately show ?thesis using ev by (auto simp: ab_exec_spec_def)
qed

lemma ab_exec_published:
  assumes inv: "ab_inv (Suc n) r" and ok: "ab_sound (ab_log r @ [x]) sh' p' (ab_cs r)"
    and lg: "legal_length (capacity_of (ab_mask r)) (length x)"
    and v: "ab_view sh' = fold bb_apply sts (ab_view (ab_sh r))"
    and al: "along (ab_mask r) (ab_log r) [x] (ab_view (ab_sh r)) sts"
  shows "ab_exec_spec n (Published x) r
    (r\<lparr>ab_sh := sh', ab_p := p', ab_log := ab_log r @ [x], ab_hist := ab_hist r @ sts\<rparr>)"
proof -
  let ?r' = "r\<lparr>ab_sh := sh', ab_p := p', ab_log := ab_log r @ [x], ab_hist := ab_hist r @ sts\<rparr>"
  let ?C = "capacity_of (ab_mask r)"
  note I = ab_invD [OF inv]
  note S = ab_soundD [OF I(1), unfolded I(6)]
  have "along (ab_mask r) [] (ab_log r @ [x]) (ab_start r) (ab_hist r @ sts)"
    by (rule along_append [OF I(4)]) (use al I(3) in simp)
  moreover have "ab_view sh' = fold bb_apply (ab_hist r @ sts) (ab_start r)" using v I(3) by simp
  moreover have "stream_end ?C (ab_log r @ [x]) + (n + 2) * ?C < word_span"
    using ab_span_bounds(2,4) [OF S(11,2,3) lg, of "ab_log r"] I(5) by simp
  ultimately have "ab_inv n ?r'" using ok I(2) by (simp add: ab_inv_def ab_mask_def)
  moreover have "ab_queues ?r' k = map_option (\<lambda>xs. xs @ [x]) (ab_queues r k)" for k
    using anchor_snoc(2) [OF S(10)] by (cases "ab_cs r k") (simp_all add: ab_queues_def ab_mask_def)
  then have "ab_queues ?r' = (\<lambda>k. map_option (\<lambda>xs. xs @ [x]) (ab_queues r k))" by (rule ext)
  ultimately show ?thesis by (simp add: ab_exec_spec_def)
qed

text \<open>A step of anchor \<open>k\<close> that receives \<open>vs\<close>.\<close>

lemma ab_exec_consumer:
  assumes inv: "ab_inv (Suc n) r" and c: "ab_cs r k = Some c" and st: "gate_cstep (ab_sh r) c sh' c'"
    and at: "anchor_at (capacity_of (gs_mask (ab_sh r))) (ab_log r) c'"
    and q: "ab_pending (capacity_of (gs_mask (ab_sh r))) (ab_log r) c
      = vs @ ab_pending (capacity_of (gs_mask (ab_sh r))) (ab_log r) c'"
    and ev: "ev = Received k vs \<or> vs = [] \<and> (ev = Quiet
      \<or> ab_pending (capacity_of (gs_mask (ab_sh r))) (ab_log r) c = [] \<and> ev \<in> {Empty k, Closed_seen k})"
  shows "ab_exec_spec n ev r (r\<lparr>ab_sh := sh', ab_cs := (ab_cs r)(k \<mapsto> c')\<rparr>)"
proof -
  let ?r' = "r\<lparr>ab_sh := sh', ab_cs := (ab_cs r)(k \<mapsto> c')\<rparr>" and ?pend = "ab_pending (capacity_of (ab_mask r)) (ab_log r)"
  note I = ab_invD [OF inv]
  have k: "k < ab_next r" using I(2) [of k] c by (metis not_le option.distinct(1))
  have "ab_inv n ?r'"
    using ab_cstep_ok [OF I(1) c st at] ab_cstep_words(5) [OF st] I(2-4) ab_span_less [OF I(5)] k
    by (simp add: ab_inv_def ab_mask_def)
  moreover have qs: "ab_queues ?r' = (ab_queues r)(k \<mapsto> ?pend c')" by (rule ext) (simp add: ab_queues_def ab_mask_def)
  have qk: "ab_queues r k = Some (vs @ ?pend c')" using c q I(6) by (simp add: ab_queues_def)
  have "mc_spec ev (ab_queues r) (ab_queues ?r')"
    using ev qk q unfolding qs I(6) by (auto simp: fun_upd_idem)
  ultimately show ?thesis using ev by (auto simp: ab_exec_spec_def)
qed

section \<open>Every call does what the contract says\<close>

lemma ab_legal_eq: "gs_mask (ab_sh r) = ab_mask r \<Longrightarrow> ab_legal r x \<longleftrightarrow> legal_length (capacity_of (ab_mask r)) (length x)"
  by (simp add: ab_legal_def legal_bb_max)

text \<open>What the producer reserves for a legal message.\<close>

lemma ab_reserve:
  assumes inv: "ab_inv (Suc n) r" and legal: "ab_legal r x"
  obtains pad need free s p1 where "ab_frame (of_nat (length x)) (ab_p r) = Inr (pad, need)"
    and "ab_has_space need (ab_sh r) (ab_p r) = Inr (free, (ab_sh r)\<lparr>ab_starving := s\<rparr>, p1)"
    and "ab_exec_spec n Quiet r (r\<lparr>ab_sh := (ab_sh r)\<lparr>ab_starving := s\<rparr>, ab_p := p1\<rparr>)"
    and "\<And>sts sh' p'. free \<Longrightarrow> ab_publish pad x ((ab_sh r)\<lparr>ab_starving := s\<rparr>) p1 = (sts, sh', p') \<Longrightarrow>
      ab_exec_spec n (Published x) r
        (r\<lparr>ab_sh := sh', ab_p := p', ab_log := ab_log r @ [x], ab_hist := ab_hist r @ sts\<rparr>)"
    and "free \<longleftrightarrow> \<not> gate_blocked (ab_p r) (capacity_of (ab_mask r)) (unat need) (ab_cs r)"
    and "\<not> free \<Longrightarrow> s = need" and "0 < need" and "unat need < capacity_of (ab_mask r)"
    and "unat need = ab_span (capacity_of (ab_mask r)) (ab_log r) x"
proof -
  let ?sh = "ab_sh r" and ?C = "capacity_of (gs_mask (ab_sh r))"
  note I = ab_invD [OF inv]
  have lg: "legal_length ?C (length x)" using legal by (simp add: ab_legal_eq [OF I(6)] I(6))
  have "3 * ?C \<le> (Suc n + 2) * ?C" by simp
  then have sp3: "stream_end ?C (ab_log r) + 3 * ?C < word_span" using I(5) unfolding I(6) by linarith
  then have sp2: "stream_end ?C (ab_log r) + 2 * ?C < word_span" by linarith
  obtain pad need where F: "ab_frame (of_nat (length x)) (ab_p r) = Inr (pad, need)"
    "0 < need" "unat need < ?C" "need \<le> ab_max_record_span (gs_mask ?sh + 1)"
    "unat need = ab_span ?C (ab_log r) x"
    by (rule ab_frame_ok [OF I(1) lg sp2]) blast
  obtain free s p1 where H: "ab_has_space need ?sh (ab_p r) = Inr (free, ?sh\<lparr>ab_starving := s\<rparr>, p1)"
    "ab_sound (ab_log r) (?sh\<lparr>ab_starving := s\<rparr>) p1 (ab_cs r)"
    "gp_next_seq p1 = gp_next_seq (ab_p r)" "gp_mask p1 = gp_mask (ab_p r)"
    "free \<longleftrightarrow> \<not> gate_blocked (ab_p r) ?C (unat need) (ab_cs r)"
    "free \<Longrightarrow> cdist (gp_cached_min p1) (gp_next_seq (ab_p r)) + unat need \<le> ?C" "\<not> free \<Longrightarrow> s = need"
    by (rule ab_has_space_ok [OF I(1) F(2-4)]) blast
  let ?sh1 = "?sh\<lparr>ab_starving := s\<rparr>"
  have v: "ab_view ?sh1 = ab_view ?sh" by (simp add: ab_view_def)
  have quiet: "ab_exec_spec n Quiet r (r\<lparr>ab_sh := ?sh1, ab_p := p1\<rparr>)"
    using ab_exec_same [OF inv H(2), of "[]" Quiet] v along_Nil ab_soundD(4) [OF I(1)] I(6) by simp
  have f1: "ab_frame (of_nat (length x)) p1 = Inr (pad, need)" using F(1) unfolding ab_frame_def H(3,4) .
  have publish: "ab_exec_spec n (Published x) r
      (r\<lparr>ab_sh := sh', ab_p := p', ab_log := ab_log r @ [x], ab_hist := ab_hist r @ sts\<rparr>)"
    if free and pb: "ab_publish pad x ?sh1 p1 = (sts, sh', p')" for sts sh' p'
  proof -
    have "cdist (gp_cached_min p1) (gp_next_seq p1) + unat need \<le> capacity_of (gs_mask ?sh1)"
      using H(3) H(6) [OF that(1)] by simp
    note P = ab_publish_ok [OF H(2) _ f1 this _ pb, simplified, OF lg sp3]
    have "legal_length (capacity_of (ab_mask r)) (length x)" using lg I(6) by simp
    then show ?thesis using ab_exec_published [OF inv P(1)] P(2,3) unfolding v I(6) by blast
  qed
  show ?thesis by (rule that [OF F(1) H(1) quiet publish]) (use H(5,7) F(2,3,5) I(6) in simp_all)
qed

lemma ab_exec_push:
  assumes inv: "ab_inv (Suc n) r"
  shows "\<exists>ev r'. ab_exec (Ab_push m) r = Inr (ev, r') \<and> ab_exec_spec n ev r r'"
proof (cases "gs_closed (ab_sh r) \<noteq> 0 \<or> \<not> ab_legal r m")
  case True
  then show ?thesis using ab_exec_quiet [OF inv] by auto
next
  case False
  then have legal: "ab_legal r m" by simp
  obtain pad need free s p1 where R: "ab_frame (of_nat (length m)) (ab_p r) = Inr (pad, need)"
    "ab_has_space need (ab_sh r) (ab_p r) = Inr (free, (ab_sh r)\<lparr>ab_starving := s\<rparr>, p1)"
    "ab_exec_spec n Quiet r (r\<lparr>ab_sh := (ab_sh r)\<lparr>ab_starving := s\<rparr>, ab_p := p1\<rparr>)"
    "\<And>sts sh' p'. free \<Longrightarrow> ab_publish pad m ((ab_sh r)\<lparr>ab_starving := s\<rparr>) p1 = (sts, sh', p') \<Longrightarrow>
      ab_exec_spec n (Published m) r
        (r\<lparr>ab_sh := sh', ab_p := p', ab_log := ab_log r @ [m], ab_hist := ab_hist r @ sts\<rparr>)"
    by (rule ab_reserve [OF inv legal]) blast
  obtain sts sh' p' where P: "ab_publish pad m ((ab_sh r)\<lparr>ab_starving := s\<rparr>) p1 = (sts, sh', p')"
    by (rule prod_cases3)
  show ?thesis using False R(1-3) R(4) [OF _ P] P by (cases free) (simp_all add: ab_try_push_def)
qed

lemma ab_exec_claim:
  assumes inv: "ab_inv (Suc n) r"
  shows "\<exists>ev r'. ab_exec (Ab_claim m keep) r = Inr (ev, r') \<and> ab_exec_spec n ev r r'"
proof (cases "gs_closed (ab_sh r) \<noteq> 0 \<or> \<not> ab_legal r m")
  case True
  then show ?thesis using ab_exec_quiet [OF inv] by auto
next
  case False
  then have legal: "ab_legal r m" by simp
  obtain pad need free s p1 where R: "ab_frame (of_nat (length m)) (ab_p r) = Inr (pad, need)"
    "ab_has_space need (ab_sh r) (ab_p r) = Inr (free, (ab_sh r)\<lparr>ab_starving := s\<rparr>, p1)"
    "ab_exec_spec n Quiet r (r\<lparr>ab_sh := (ab_sh r)\<lparr>ab_starving := s\<rparr>, ab_p := p1\<rparr>)"
    "\<And>sts sh' p'. free \<Longrightarrow> ab_publish pad m ((ab_sh r)\<lparr>ab_starving := s\<rparr>) p1 = (sts, sh', p') \<Longrightarrow>
      ab_exec_spec n (Published m) r
        (r\<lparr>ab_sh := sh', ab_p := p', ab_log := ab_log r @ [m], ab_hist := ab_hist r @ sts\<rparr>)"
    by (rule ab_reserve [OF inv legal]) blast
  obtain sts sh' p' where P: "ab_publish pad m ((ab_sh r)\<lparr>ab_starving := s\<rparr>) p1 = (sts, sh', p')"
    by (rule prod_cases3)
  show ?thesis
    using False R(1-3) R(4) [OF _ P] P
    by (cases free; cases keep) (simp_all add: ab_try_claim_def ab_commit_def)
qed

lemma ab_exec_subscribe:
  assumes inv: "ab_inv (Suc n) r"
  shows "\<exists>ev r'. ab_exec Ab_subscribe r = Inr (ev, r') \<and> ab_exec_spec n ev r r'"
proof -
  note I = ab_invD [OF inv]
  obtain res sh' where g: "ab_subscribe_anchor (ab_sh r) = (res, sh')" by (rule prod.exhaust)
  show ?thesis
  proof (cases res)
    case (Inl e)
    then show ?thesis using g ab_exec_quiet [OF inv] by simp
  next
    case (Inr c)
    have k: "ab_cs r (ab_next r) = None" by (rule I(2)) simp
    note S = ab_subscribe_ok [OF I(1) k g [unfolded Inr], unfolded I(6)]
    let ?r' = "r\<lparr>ab_sh := sh', ab_cs := (ab_cs r)(ab_next r \<mapsto> c), ab_next := Suc (ab_next r)\<rparr>"
    have q: "ab_queues ?r' = (ab_queues r)(ab_next r \<mapsto> [])"
      by (rule ext) (simp add: ab_queues_def ab_mask_def S(2) [unfolded ab_mask_def])
    have "ab_inv n ?r'" using S(1,3) I(2-4) ab_span_less [OF I(5)] by (simp add: ab_inv_def ab_mask_def)
    then have "ab_exec_spec n (Joined (ab_next r)) r ?r'"
      using q k by (simp add: ab_exec_spec_def ab_queues_def)
    then show ?thesis using g Inr by simp
  qed
qed

lemma ab_exec_pop:
  assumes inv: "ab_inv (Suc n) r"
  shows "\<exists>ev r'. ab_exec (Ab_pop k keep) r = Inr (ev, r') \<and> ab_exec_spec n ev r r'"
proof (cases "ab_cs r k")
  case None
  then show ?thesis using ab_exec_quiet [OF inv] by simp
next
  case (Some c)
  let ?sh = "ab_sh r" and ?C = "capacity_of (gs_mask (ab_sh r))" and ?ms = "ab_log r"
  note ok = ab_invD(1) [OF inv]
  obtain res c1 where T: "ab_try_pop (\<lambda>s. s) ?sh c = Inr (res, ?sh, c1)" "gate_cstep ?sh c ?sh c1"
    "anchor_at ?C ?ms c1" "ab_pending ?C ?ms c1 = ab_pending ?C ?ms c" "ab_pop_spec ?ms ?sh c c1 res"
    by (rule ab_try_pop_ok [OF ok Some]) blast
  have p0: "ab_pending ?C ?ms c = [] @ ab_pending ?C ?ms c1" using T(4) by simp
  note E = ab_exec_consumer [OF inv Some T(2,3) p0]
  show ?thesis
  proof (cases res)
    case (Popped g)
    obtain rest where P: "ab_pending ?C ?ms c = ab_msg_deref g ?sh # rest"
      "\<And>sh' c2. ab_msg_drop g ?sh c1 = (sh', c2) \<Longrightarrow>
         gate_cstep ?sh c sh' c2 \<and> anchor_at ?C ?ms c2 \<and> ab_pending ?C ?ms c2 = rest"
      using T(5) Popped by (auto simp: ab_pop_spec_def)
    obtain sh' c2 where D: "ab_msg_drop g ?sh c1 = (sh', c2)" by (rule prod.exhaust)
    have G: "gate_cstep ?sh c sh' c2" "anchor_at ?C ?ms c2"
      and pr: "ab_pending ?C ?ms c = [ab_msg_deref g ?sh] @ ab_pending ?C ?ms c2" using P D by auto
    have "ab_exec_spec n (Received k [ab_msg_deref g ?sh]) r (r\<lparr>ab_sh := sh', ab_cs := (ab_cs r)(k \<mapsto> c2)\<rparr>)"
      by (rule ab_exec_consumer [OF inv Some G pr]) simp
    then show ?thesis using T(1) Popped D E [of Quiet] Some by (cases keep) simp_all
  next
    case Pop_empty
    then have "ab_pending ?C ?ms c = []" using T(5) by (simp add: ab_pop_spec_def)
    then show ?thesis using T(1) Pop_empty E [of "Empty k"] Some by simp
  next
    case Pop_closed
    then have "ab_pending ?C ?ms c = []" using T(5) by (simp add: ab_pop_spec_def)
    then show ?thesis using T(1) Pop_closed E [of "Closed_seen k"] Some by simp
  next
    case Pop_unwound
    then show ?thesis using T(5) by (simp add: ab_pop_spec_def)
  qed
qed

lemma ab_exec_drain:
  assumes inv: "ab_inv (Suc n) r"
  shows "\<exists>ev r'. ab_exec (Ab_drain k unwinds) r = Inr (ev, r') \<and> ab_exec_spec n ev r r'"
proof (cases "ab_cs r k")
  case None
  then show ?thesis using ab_exec_quiet [OF inv] by simp
next
  case (Some c)
  let ?sh = "ab_sh r" and ?C = "capacity_of (gs_mask (ab_sh r))" and ?ms = "ab_log r"
  obtain ys sh' c' where T: "ab_drain (length (ab_buf ?sh)) unwinds ?sh c = Some (Inr (ys, sh', c'))"
    "gate_cstep ?sh c sh' c'" "anchor_at ?C ?ms c'" "ab_pending ?C ?ms c = ys @ ab_pending ?C ?ms c'"
    by (rule ab_drain_ok [OF ab_invD(1) [OF inv] Some order_refl]) blast
  have "ab_exec_spec n (Received k ys) r (r\<lparr>ab_sh := sh', ab_cs := (ab_cs r)(k \<mapsto> c')\<rparr>)"
    by (rule ab_exec_consumer [OF inv Some T(2-4)]) simp
  then show ?thesis using T(1) Some by simp
qed

lemma ab_exec_leave:
  assumes inv: "ab_inv (Suc n) r"
  shows "\<exists>ev r'. ab_exec (Ab_leave k) r = Inr (ev, r') \<and> ab_exec_spec n ev r r'"
proof (cases "ab_cs r k")
  case None
  then show ?thesis using ab_exec_quiet [OF inv] by simp
next
  case (Some c)
  note I = ab_invD [OF inv] and L = ab_leave_ok [OF ab_invD(1) [OF inv] Some]
  let ?r' = "r\<lparr>ab_sh := ab_anchor_drop (ab_sh r) c, ab_cs := (ab_cs r)(k := None)\<rparr>"
  have q: "ab_queues ?r' = (ab_queues r)(k := None)" by (rule ext) (simp add: ab_queues_def ab_mask_def)
  have "ab_inv n ?r'" using L I(2-4) ab_span_less [OF I(5)] by (simp add: ab_inv_def ab_mask_def)
  then have "ab_exec_spec n (Left k) r ?r'" using q Some by (simp add: ab_exec_spec_def ab_queues_def)
  then show ?thesis using Some by simp
qed

lemma ab_exec_close:
  assumes inv: "ab_inv (Suc n) r"
  shows "\<exists>ev r'. ab_exec Ab_close r = Inr (ev, r') \<and> ab_exec_spec n ev r r'"
proof -
  note I = ab_invD [OF inv]
  obtain sts sh' where d: "ab_producer_drop (ab_sh r) = (sts, sh')" by (rule prod.exhaust)
  note C = ab_close_ok [OF I(1) d]
  have "ab_exec_spec n Shut r (r\<lparr>ab_sh := sh', ab_p := ab_p r, ab_hist := ab_hist r @ sts\<rparr>)"
    by (rule ab_exec_same [OF inv C(1,2)]) (use C(3) I(6) in simp_all)
  then show ?thesis using d by simp
qed

lemma ab_exec_ok:
  assumes "ab_inv (Suc n) r"
  shows "\<exists>ev r'. ab_exec x r = Inr (ev, r') \<and> ab_exec_spec n ev r r'"
  using ab_exec_push [OF assms] ab_exec_claim [OF assms] ab_exec_subscribe [OF assms] ab_exec_pop [OF assms]
    ab_exec_drain [OF assms] ab_exec_leave [OF assms] ab_exec_close [OF assms]
  by (cases x) blast+

interpretation ab_mc: numbered_multicast ab_inv ab_queues ab_exec ab_next
proof unfold_locales
  fix n r x assume inv: "ab_inv (Suc n) r"
  show "\<exists>ev r'. ab_exec x r = Inr (ev, r') \<and> ab_inv n r' \<and> mc_spec ev (ab_queues r) (ab_queues r')"
    using ab_exec_ok [OF inv, of x] unfolding ab_exec_spec_def by blast
next
  fix n r x ev r' assume inv: "ab_inv (Suc n) r" and e: "ab_exec x r = Inr (ev, r')"
  show "(\<forall>k. ev = Joined k \<longrightarrow> k = ab_next r) \<and> ab_next r' = (case ev of Joined k \<Rightarrow> Suc k | _ \<Rightarrow> ab_next r)"
    using ab_exec_ok [OF inv, of x] e unfolding ab_exec_spec_def by auto
qed

end
