(* ===== verification/Anchored_Bytes_Properties.thy ===== *)
theory Anchored_Bytes_Properties
  imports Anchored_Bytes_Runs
begin

text \<open>
  The properties of the composed byte ring: lossless multicast to the anchors, exact
  accounting for the observers, the pin that an anchor puts on every observer that
  is not behind it, and the outcomes of a push.
\<close>

section \<open>Reachable rings\<close>

lemma ab_new_inv:
  assumes new: "ab_new n = Inr r" and m: "(m + 2) * capacity_of (ab_mask r) < word_span"
  shows "ab_inv m r" and "ab_queues r = [0 \<mapsto> []]" and "ab_next r = 1" and "ab_log r = []" and "ab_hist r = []"
proof -
  obtain sh p c where w: "ab_with_wait_strategies n = Inr (sh, p, c)"
    using new by (cases "ab_with_wait_strategies n") (auto simp: ab_new_def)
  have r: "r = \<lparr>ab_sh = sh, ab_p = p, ab_cs = Map.empty(0 \<mapsto> c), ab_next = 1,
      ab_start = ab_view sh, ab_log = [], ab_hist = []\<rparr>"
    using new w by (simp add: ab_new_def)
  have mk: "ab_mask r = gs_mask sh" by (simp add: ab_mask_def r)
  have "2 * capacity_of (gs_mask sh) \<le> (m + 2) * capacity_of (gs_mask sh)" by simp
  then have two: "2 * capacity_of (gs_mask sh) < word_span" using m unfolding mk by linarith
  note N = ab_new_ok [OF w two]
  show "ab_inv m r"
    using N(1) along_Nil [OF ab_soundD(4) [OF N(1)]] m mk
    by (auto simp: ab_inv_def r ab_mask_def stream_end_def)
  show "ab_queues r = [0 \<mapsto> []]" using N(2) by (auto simp: ab_queues_def ab_mask_def r fun_eq_iff)
  show "ab_next r = 1" "ab_log r = []" "ab_hist r = []" by (simp_all add: r)
qed

lemma ab_run:
  assumes "ab_inv n r" and "length ops \<le> n" and "mc_run ab_exec ops r = Inr (evs, r')"
  shows "ab_inv (n - length ops) r' \<and> ab_log r' = ab_log r @ mc_published evs \<and> ab_start r' = ab_start r"
  using assms
proof (induction ops arbitrary: n r evs)
  case (Cons x ops)
  obtain m where m: "n = Suc m" using Cons.prems(2) by (cases n) auto
  obtain ev r1 where 1: "ab_exec x r = Inr (ev, r1)" "ab_exec_spec m ev r r1"
    using ab_exec_ok [OF Cons.prems(1) [unfolded m]] by blast
  obtain evs1 where run: "mc_run ab_exec ops r1 = Inr (evs1, r')" and evs: "evs = ev # evs1"
    using Cons.prems(3) 1(1) by (auto split: sum.splits)
  have "mc_published (ev # evs1) = mc_published [ev] @ mc_published evs1" by (cases ev) simp_all
  then show ?case
    using Cons.IH [OF _ _ run, of m] 1(2) Cons.prems(2) m evs by (simp add: ab_exec_spec_def)
qed simp

lemma ab_new_run:
  assumes "ab_new n = Inr r0" and "(length ops + 2) * capacity_of (ab_mask r0) < word_span"
    and "mc_run ab_exec ops r0 = Inr (evs, r)"
  shows "ab_inv 0 r" and "ab_log r = mc_published evs" and "ab_mask r = ab_mask r0"
  using ab_run [OF ab_new_inv(1) [OF assms(1,2)] order_refl assms(3)] ab_new_inv(4) [OF assms(1,2)]
  by (simp_all add: ab_mask_def)

section \<open>The observers' history\<close>

definition ab_ends :: "ab_ring \<Rightarrow> nat" where
  "ab_ends r = close_position (ab_start r) (ab_hist r) (stream_end (capacity_of (ab_mask r)) (ab_log r))"

lemma ab_holds:
  assumes "ab_inv 0 r"
  shows "valid_mask (ab_mask r)" and "8 dvd capacity_of (ab_mask r)"
    and "along (ab_mask r) [] (ab_log r) (ab_start r) (ab_hist r)"
    and "\<forall>v\<in>set (ab_log r). legal_length (capacity_of (ab_mask r)) (length v)"
  using ab_soundD(2,7,11) [OF ab_invD(1) [OF assms]] ab_invD(4,6) [OF assms] by simp_all

lemma ab_grow:
  assumes "ab_inv 0 r" and "t \<le> t'"
  shows "bb_tail (ab_memory r t) \<le> bb_tail (ab_memory r t')"
    and "bb_intent (ab_memory r t) \<le> bb_intent (ab_memory r t')"
  unfolding ab_memory_def using along_grow [OF ab_holds(3) [OF assms(1)] assms(2)] by blast+

interpretation ab_hist: byte_history "ab_inv 0" ab_mask ab_log ab_memory ab_ends
proof
  fix r t assume ok: "ab_inv 0 r"
  note H = along_history [where t = t, OF ab_holds [OF ok], folded ab_memory_def]
  show "length (bb_buf (ab_memory r t)) = capacity_of (ab_mask r)" by (rule H(1))
  show "bb_tail (ab_memory r t) \<le> bb_intent (ab_memory r t)" by (rule H(2))
  show "\<exists>j\<le>length (ab_log r). unat (bb_tail (ab_memory r t)) = frame_at (capacity_of (ab_mask r)) (ab_log r) j"
    by (rule H(3))
  show "boundary (capacity_of (ab_mask r)) (ab_log r) (unat (bb_latest (ab_memory r t)))" by (rule H(4))
  show "bb_closed (ab_memory r t) \<noteq> 0 \<Longrightarrow> ab_ends r \<le> unat (bb_tail (ab_memory r t))"
    unfolding ab_ends_def by (rule H(5))
  show "get (q mod capacity_of (ab_mask r)) 4 (bb_buf (ab_memory r t)) = bs"
    if "k < length (ab_log r)"
      "frame_at (capacity_of (ab_mask r)) (ab_log r) (Suc k) \<le> unat (bb_tail (ab_memory r t))"
      "(q, bs) \<in> set (frame_lanes (capacity_of (ab_mask r)) (ab_log r) k)"
      "unat (bb_intent (ab_memory r t)) \<le> q + capacity_of (ab_mask r)" for k q bs
    by (rule H(6) [OF that])
  show "stream_end (capacity_of (ab_mask r)) (ab_log r) + capacity_of (ab_mask r) < word_span"
    using ab_invD(5) [OF ok] by simp
  show "valid_mask (ab_mask r)" "8 dvd capacity_of (ab_mask r)" by (rule ab_holds [OF ok])+
  show "legal_length (capacity_of (ab_mask r)) (length v)" if "v \<in> set (ab_log r)" for v
    using ab_holds(4) [OF ok] that by blast
  show "bb_tail (ab_memory r t) \<le> bb_tail (ab_memory r t')"
    "bb_intent (ab_memory r t) \<le> bb_intent (ab_memory r t')" if "t \<le> t'" for t'
    by (rule ab_grow [OF ok that])+
qed

lemma ab_memory_mask: "bb_mask (ab_memory r t) = ab_mask r"
  by (simp add: ab_memory_def bb_memory_def apply_mask ab_mask_def)

text \<open>Subscribing now is subscribing at the last store so far.\<close>

lemma ab_observe_now:
  assumes "ab_inv n r"
  shows "ab_observe_from (ab_sh r) = bb_subscribe_from (ab_memory r (length (ab_hist r)))"
proof -
  have "ab_memory r (length (ab_hist r)) = ab_view (ab_sh r)"
    using ab_invD(3) [OF assms] by (simp add: ab_memory_def bb_memory_def)
  then show ?thesis by (simp add: ab_observe_from_def bb_subscribe_from_def Let_def)
qed

text \<open>Every store so far declared at most a capacity beyond what an attached anchor has released.\<close>

lemma ab_pinned:
  assumes inv: "ab_inv n r" and a: "ab_cs r k = Some a"
  shows "unat (bb_intent (ab_memory r t)) \<le> unat (gc_published a) + capacity_of (ab_mask r)"
proof -
  note I = ab_invD [OF inv]
  have "bb_intent (ab_memory r t) \<le> bb_intent (ab_memory r (max t (length (ab_hist r))))"
    unfolding ab_memory_def by (rule along_grow(2) [OF I(4)]) simp
  also have "ab_memory r (max t (length (ab_hist r))) = ab_view (ab_sh r)"
    using I(3) by (simp add: ab_memory_def bb_memory_def)
  finally have "unat (bb_intent (ab_memory r t)) \<le> unat (ab_intent (ab_sh r))" by (simp add: word_le_nat_alt)
  then show ?thesis using ab_window [OF I(1) a] I(6) by simp
qed

text \<open>A push seen store by store: the gate bounds the intent after each of them.\<close>

lemma ab_published_gated:
  fixes sts :: "bb_store list"
  assumes inv: "ab_inv m r"
    and sp: "ab_exec_spec n (Published x) r
      (r\<lparr>ab_sh := sh', ab_p := p', ab_log := ab_log r @ [x], ab_hist := ab_hist r @ sts\<rparr>)"
  shows "ab_view sh' = fold bb_apply sts (ab_view (ab_sh r))"
    and "ab_cs r k = Some a \<Longrightarrow>
      unat (bb_intent (fold bb_apply (take i sts) (ab_view (ab_sh r)))) \<le> unat (gc_published a) + capacity_of (ab_mask r)"
proof -
  let ?r' = "r\<lparr>ab_sh := sh', ab_p := p', ab_log := ab_log r @ [x], ab_hist := ab_hist r @ sts\<rparr>"
  have inv': "ab_inv n ?r'" using sp by (simp add: ab_exec_spec_def)
  note v = ab_invD(3) [OF inv] and v' = ab_invD(3) [OF inv']
  show "ab_view sh' = fold bb_apply sts (ab_view (ab_sh r))" using v v' by simp
  assume a: "ab_cs r k = Some a"
  have mem: "ab_memory ?r' (length (ab_hist r) + i) = fold bb_apply (take i sts) (ab_view (ab_sh r))"
    by (simp add: ab_memory_def bb_memory_def v)
  have a': "ab_cs ?r' k = Some a" using a by simp
  show "unat (bb_intent (fold bb_apply (take i sts) (ab_view (ab_sh r)))) \<le> unat (gc_published a) + capacity_of (ab_mask r)"
    using ab_pinned [OF inv' a', of "length (ab_hist r) + i"] unfolding mem by (simp add: ab_mask_def)
qed

text \<open>An observer whose next load is its \<open>n\<close>-th, at time \<open>clk n\<close>.\<close>

definition ab_reader :: "ab_ring \<Rightarrow> (nat \<Rightarrow> nat) \<Rightarrow> nat \<Rightarrow> bb_consumer \<Rightarrow> bool" where
  "ab_reader r clk n c \<longleftrightarrow> bbc_mask c = ab_mask r \<and> bbc_tail_cache c \<le> bb_tail (ab_memory r (clk n))
     \<and> boundary (capacity_of (ab_mask r)) (ab_log r) (unat (bbc_pos c))"

lemma ab_reader_eq: "ab_reader r clk n c = ab_hist.reader_ok r (clk n) c"
  by (simp add: ab_reader_def ab_hist.reader_ok_def)

section \<open>Properties\<close>

text \<open>
  (C33) Lossless multicast to the anchors. In any run of calls on a new composed ring
  no call faults or leaves the buffer, and every anchor, the first one and each one
  that subscribes, receives, byte for byte, in order and without a gap or a repetition,
  exactly the messages published while it is attached; what it has not received is
  what its handle still has pending. This holds with padding, abandoned claims,
  forgotten guards, callbacks of \<open>drain\<close> that panic, departures and the close.
\<close>

theorem ab_multicast:
  assumes new: "ab_new n = Inr r0" and short: "(length ops + 2) * capacity_of (ab_mask r0) < 2 ^ 64"
  shows "\<exists>evs r. mc_run ab_exec ops r0 = Inr (evs, r)
    \<and> (\<exists>rest. mc_audible 0 evs = mc_received 0 evs @ rest
          \<and> (\<forall>q. ab_queues r 0 = Some q \<longrightarrow> rest = q))
    \<and> (\<forall>evs1 k evs2. evs = evs1 @ Joined k # evs2 \<longrightarrow>
          (\<exists>rest. mc_audible k evs2 = mc_received k evs2 @ rest
             \<and> (\<forall>q. ab_queues r k = Some q \<longrightarrow> rest = q)))"
proof -
  note N = ab_new_inv [OF new short [folded word_span_def]]
  obtain evs r where R: "mc_run ab_exec ops r0 = Inr (evs, r)"
    "\<forall>k q. k < ab_next r0 \<longrightarrow> ab_queues r0 k = Some q \<longrightarrow>
       (\<exists>rest. q @ mc_audible k evs = mc_received k evs @ rest
          \<and> (\<forall>q'. ab_queues r k = Some q' \<longrightarrow> rest = q'))"
    "\<forall>evs1 k evs2. evs = evs1 @ Joined k # evs2 \<longrightarrow>
       (\<exists>rest. mc_audible k evs2 = mc_received k evs2 @ rest
          \<and> (\<forall>q'. ab_queues r k = Some q' \<longrightarrow> rest = q'))"
    using ab_mc.run_everyone [OF N(1) order_refl] by blast
  have "0 < ab_next r0" "ab_queues r0 0 = Some []" using N(2,3) by simp_all
  then have "\<exists>rest. [] @ mc_audible 0 evs = mc_received 0 evs @ rest \<and> (\<forall>q'. ab_queues r 0 = Some q' \<longrightarrow> rest = q')"
    using R(2) by blast
  then show ?thesis using R(1,3) by auto
qed

text \<open>A ring of 64 bytes, and a run on it with padding at the end of the buffer.\<close>

definition ab64 :: ab_ring where
  "ab64 = projr (ab_new 50)"

lemma ab64_new: "ab_new 50 = Inr ab64"
proof -
  have "\<not> isl (ab_new 50)" by code_simp
  then show ?thesis unfolding ab64_def by (rule sum.collapse(2) [symmetric])
qed

lemma ab64_mask: "ab_mask ab64 = 63" "capacity_of 63 = 64"
  by code_simp+

definition ab_demo :: "ab_op list" where
  "ab_demo = [Ab_push [1, 2, 3, 4, 5, 6], Ab_push [7], Ab_subscribe, Ab_push [1, 2, 3, 4, 5, 6, 7], Ab_pop 0 True,
     Ab_push [8, 9], Ab_drain 0 (\<lambda>_. False), Ab_push [5, 5], Ab_pop 1 False, Ab_push [6, 5, 4, 3, 2, 1],
     Ab_push [4], Ab_drain 1 (\<lambda>_. False), Ab_drain 0 (\<lambda>_. False), Ab_claim [3] True, Ab_pop 0 False,
     Ab_leave 1, Ab_close]"

definition ab_demo_end :: "u8 list mc_event list \<times> ab_ring" where
  "ab_demo_end = projr (mc_run ab_exec ab_demo ab64)"

lemma ab_demo_short: "(length ab_demo + 2) * capacity_of (ab_mask ab64) < 2 ^ 64"
  by (simp add: ab64_mask ab_demo_def)

theorem ab_multicast_witness:
  "\<exists>evs r. mc_run ab_exec ab_demo ab64 = Inr (evs, r)
    \<and> (\<exists>rest. mc_audible 0 evs = mc_received 0 evs @ rest)"
  using ab_multicast [OF ab64_new ab_demo_short] by blast

lemma ab_demo_run: "mc_run ab_exec ab_demo ab64 = Inr ab_demo_end"
proof -
  have "\<not> isl (mc_run ab_exec ab_demo ab64)" by code_simp
  then show ?thesis unfolding ab_demo_end_def by (rule sum.collapse(2) [symmetric])
qed

lemma ab_demo_inv: "ab_inv 0 (snd ab_demo_end)"
proof -
  have "mc_run ab_exec ab_demo ab64 = Inr (fst ab_demo_end, snd ab_demo_end)" using ab_demo_run by simp
  from ab_new_run(1) [OF ab64_new ab_demo_short [folded word_span_def] this] show ?thesis .
qed

lemma ab_demo_shape:
  "ab_mask (snd ab_demo_end) = 63" "length (ab_hist (snd ab_demo_end)) = 40"
  "mc_published (fst ab_demo_end)
     = [[1, 2, 3, 4, 5, 6], [7], [1, 2, 3, 4, 5, 6, 7], [8, 9], [5, 5], [6, 5, 4, 3, 2, 1], [3]]"
  by code_simp+

text \<open>
  (C34) Exact accounting of an observer. Whatever is called on the ring and wherever the
  observer's loads fall among the producer's stores, no call of the observer faults or
  hangs; every message it gets is the one framed at its position, every loss moves it
  by exactly the reported bytes, the end is reported only behind everything published,
  and what it got is a subsequence of what was published after it subscribed, gap-free
  when nothing was reported lost. Subscribing now is subscribing at the last store.
\<close>

theorem ab_observer_accounting:
  assumes "ab_new n = Inr r0" and "(length ops + 2) * capacity_of (ab_mask r0) < 2 ^ 64"
    and "mc_run ab_exec ops r0 = Inr (evs, r)" and "mono clk" and "t \<le> clk 0"
  defines "c \<equiv> bb_subscribe_from (ab_memory r t)" and "cap \<equiv> capacity_of (ab_mask r0)"
  shows "ab_observe_from (ab_sh r) = bb_subscribe_from (ab_memory r (length (ab_hist r)))
    \<and> (\<exists>seen n c1 k. byte_run (\<lambda>i. ab_memory r (clk i)) polls 0 c = Some (Inr (seen, n, c1))
        \<and> byte_replay cap (mc_published evs) (ab_ends r) (unat (bbc_pos c)) seen = Some (unat (bbc_pos c1))
        \<and> k \<le> length (mc_published evs) \<and> unat (bb_tail (ab_memory r t)) = frame_at cap (mc_published evs) k
        \<and> subseq (got seen) (drop k (mc_published evs))
        \<and> (lost seen = 0 \<longrightarrow> got seen = take (length (got seen)) (drop k (mc_published evs))))"
proof -
  note R = ab_new_run [OF assms(1) assms(2) [folded word_span_def] assms(3)]
  from ab_hist.accounted [OF R(1) assms(4,5) ab_memory_mask, of polls] ab_observe_now [OF R(1)]
  show ?thesis unfolding R(2,3) c_def cap_def by (rule conjI [rotated])
qed

lemma ab_mono: "mono (\<lambda>k. 3 * k :: nat)" "mono (\<lambda>k. 22 + k :: nat)"
  by (simp_all add: mono_def)

theorem ab_observer_accounting_witness:
  "\<exists>n c1. byte_run (\<lambda>k. ab_memory (snd ab_demo_end) (3 * k))
        [Byte_try_pop, Byte_try_pop, Byte_try_pop, Byte_lag, Byte_try_pop, Byte_try_pop] 0
        (bb_subscribe_from (ab_memory (snd ab_demo_end) 0))
      = Some (Inr ([Nothing, Got [1, 2, 3, 4, 5, 6], Missed 64, Nothing, Got [3], Ended], n, c1))
    \<and> subseq [[1, 2, 3, 4, 5, 6], [3]] (mc_published (fst ab_demo_end))"
proof -
  let ?r = "snd ab_demo_end" and ?ops = "[Byte_try_pop, Byte_try_pop, Byte_try_pop, Byte_lag, Byte_try_pop, Byte_try_pop]"
  let ?evs = "[Nothing, Got [1, 2, 3, 4, 5, 6], Missed 64, Nothing, Got [3], Ended] :: u8 list lossy_event list"
  have run: "mc_run ab_exec ab_demo ab64 = Inr (fst ab_demo_end, ?r)" using ab_demo_run by simp
  obtain seen n c1 k where b: "byte_run (\<lambda>k. ab_memory ?r (3 * k)) ?ops 0 (bb_subscribe_from (ab_memory ?r 0))
        = Some (Inr (seen, n, c1))" and got: "subseq (got seen) (drop k (mc_published (fst ab_demo_end)))"
    using ab_observer_accounting [OF ab64_new ab_demo_short run ab_mono(1) le0, of ?ops]
    by (elim exE conjE) (rule that)
  have "map_option (map_sum id fst) (byte_run (\<lambda>k. ab_memory ?r (3 * k)) ?ops 0 (bb_subscribe_from (ab_memory ?r 0)))
      = Some (Inr ?evs)" by code_simp
  then have evs: "seen = ?evs" unfolding b by simp
  have "subseq (got seen) (mc_published (fst ab_demo_end))"
    using got by (rule subseq_order.trans) (rule suffix_imp_subseq [OF suffix_drop])
  then show ?thesis using b unfolding evs by simp
qed

text \<open>
  (C35) An attached anchor pins every observer that is not behind it. As long as some
  attached anchor's released position is not beyond the observer's position, the observer
  loses nothing of what has been published, however its loads fall among the stores:
  no poll reports a loss, and it gets the messages from its position on without a gap.
\<close>

theorem ab_observer_pinned:
  assumes "ab_new n = Inr r0" and "(length ops + 2) * capacity_of (ab_mask r0) < 2 ^ 64"
    and "mc_run ab_exec ops r0 = Inr (evs, r)" and "mono clk" and "ab_cs r j = Some a"
    and "ab_reader r clk i c" and "gc_published a \<le> bbc_pos c" and "Byte_skip \<notin> set polls"
    and "unat (bbc_pos c) = frame_at (capacity_of (ab_mask r0)) (mc_published evs) k"
  shows "\<exists>seen i1 c1. byte_run (\<lambda>i. ab_memory r (clk i)) polls i c = Some (Inr (seen, i1, c1))
    \<and> (\<forall>m. Missed m \<notin> set seen) \<and> got seen = take (length (got seen)) (drop k (mc_published evs))"
proof -
  note R = ab_new_run [OF assms(1) assms(2) [folded word_span_def] assms(3)]
  have "unat (bb_intent (ab_memory r (clk l))) \<le> unat (bbc_pos c) + capacity_of (ab_mask r)" for l
    using ab_pinned [OF R(1) assms(5), of "clk l"] assms(7) by (simp add: word_le_nat_alt)
  from ab_hist.unharmed [OF R(1) assms(4) assms(6) [unfolded ab_reader_eq] assms(8) _ this, of k] show ?thesis
    using assms(9) unfolding R(2,3) by blast
qed

text \<open>At the end of the run the first anchor has released 40 bytes; an observer there reads on to the end.\<close>

theorem ab_observer_pinned_witness:
  "\<exists>seen i1 c1. byte_run (\<lambda>k. ab_memory (snd ab_demo_end) (22 + k)) [Byte_try_pop, Byte_lag, Byte_try_pop] 0
        \<lparr>bbc_mask = 63, bbc_pos = 40, bbc_tail_cache = 40\<rparr> = Some (Inr (seen, i1, c1))
    \<and> (\<forall>m. Missed m \<notin> set seen) \<and> got seen = take (length (got seen)) (drop 3 (mc_published (fst ab_demo_end)))"
proof -
  let ?r = "snd ab_demo_end" and ?c = "\<lparr>bbc_mask = 63, bbc_pos = 40, bbc_tail_cache = 40\<rparr> :: bb_consumer"
  have run: "mc_run ab_exec ab_demo ab64 = Inr (fst ab_demo_end, ?r)" using ab_demo_run by simp
  have "ab_cs ?r 0 \<noteq> None" by code_simp
  then have a: "ab_cs ?r 0 = Some (the (ab_cs ?r 0))" by simp
  have reader: "ab_reader ?r (\<lambda>k. 22 + k) 0 ?c" by code_simp
  have le: "gc_published (the (ab_cs ?r 0)) \<le> bbc_pos ?c" by code_simp
  have "frame_at (capacity_of (ab_mask ab64)) (mc_published (fst ab_demo_end)) 3 = 40" by code_simp
  then have pos: "unat (bbc_pos ?c) = frame_at (capacity_of (ab_mask ab64)) (mc_published (fst ab_demo_end)) 3" by simp
  have skip: "Byte_skip \<notin> set [Byte_try_pop, Byte_lag, Byte_try_pop]" by simp
  show ?thesis
    by (rule ab_observer_pinned [OF ab64_new ab_demo_short run ab_mono(2) a reader le skip pos])
qed

text \<open>
  (C36) The outcomes of a push. A message over the limit panics and nothing changes. Any
  other message is refused exactly when some attached anchor has not released enough
  for its record and padding; then no store reaches an observer, and the shared words
  are as before except the starving word, which holds exactly the span asked for.
  Otherwise it is appended to the queue of every attached anchor, and after each single
  store of the push the declared intent is at most a capacity beyond the released
  position of every attached anchor: the gate comes before the first store.
\<close>

theorem ab_push_gated:
  assumes inv: "ab_inv (Suc n) r" and slice: "length x < 2 ^ 64"
  defines "cap \<equiv> capacity_of (ab_mask r)"
  shows "(\<not> ab_legal r x \<longrightarrow> ab_try_push x (ab_sh r) (ab_p r) = Inl Panic)
    \<and> (ab_legal r x \<longrightarrow>
        (\<exists>need pushed sts sh p. ab_try_push x (ab_sh r) (ab_p r) = Inr (pushed, sts, sh, p)
          \<and> stream_end cap (ab_log r @ [x]) = stream_end cap (ab_log r) + unat need
          \<and> (pushed \<longleftrightarrow> \<not> gate_blocked (ab_p r) cap (unat need) (ab_cs r))
          \<and> (\<not> pushed \<longrightarrow> sts = [] \<and> sh = (ab_sh r)\<lparr>ab_starving := need\<rparr> \<and> need \<noteq> 0)
          \<and> (pushed \<longrightarrow>
              (\<forall>k c. ab_cs r k = Some c \<longrightarrow> ab_pending cap (ab_log r @ [x]) c = ab_pending cap (ab_log r) c @ [x])
              \<and> ab_view sh = fold bb_apply sts (ab_view (ab_sh r))
              \<and> (\<forall>i k c. ab_cs r k = Some c \<longrightarrow>
                    unat (bb_intent (fold bb_apply (take i sts) (ab_view (ab_sh r)))) \<le> unat (gc_published c) + cap))))"
proof (intro conjI impI)
  note I = ab_invD [OF inv]
  show "ab_try_push x (ab_sh r) (ab_p r) = Inl Panic" if "\<not> ab_legal r x"
  proof -
    have "\<not> legal_length (capacity_of (gs_mask (ab_sh r))) (length x)"
      using that by (simp add: ab_legal_eq [OF I(6)] I(6))
    from ab_frame_illegal [OF ab_soundD(12) [OF I(1)] this slice [folded word_span_def]] show ?thesis
      by (simp add: ab_try_push_def)
  qed
  assume legal: "ab_legal r x"
  obtain pad need free s p1 where R: "ab_frame (of_nat (length x)) (ab_p r) = Inr (pad, need)"
    "ab_has_space need (ab_sh r) (ab_p r) = Inr (free, (ab_sh r)\<lparr>ab_starving := s\<rparr>, p1)"
    "\<And>sts sh' p'. free \<Longrightarrow> ab_publish pad x ((ab_sh r)\<lparr>ab_starving := s\<rparr>) p1 = (sts, sh', p') \<Longrightarrow>
      ab_exec_spec n (Published x) r
        (r\<lparr>ab_sh := sh', ab_p := p', ab_log := ab_log r @ [x], ab_hist := ab_hist r @ sts\<rparr>)"
    "free \<longleftrightarrow> \<not> gate_blocked (ab_p r) cap (unat need) (ab_cs r)"
    "\<not> free \<Longrightarrow> s = need" "0 < need" "unat need = ab_span cap (ab_log r) x"
    unfolding cap_def by (rule ab_reserve [OF inv legal]) blast
  have span: "stream_end cap (ab_log r @ [x]) = stream_end cap (ab_log r) + unat need"
    using frame_at_step [of cap "ab_log r @ [x]" "length (ab_log r)"] stream_end_both [of cap "ab_log r" x]
    unfolding R(7) ab_span_def by simp
  show "\<exists>need pushed sts sh p. ab_try_push x (ab_sh r) (ab_p r) = Inr (pushed, sts, sh, p)
      \<and> stream_end cap (ab_log r @ [x]) = stream_end cap (ab_log r) + unat need
      \<and> (pushed \<longleftrightarrow> \<not> gate_blocked (ab_p r) cap (unat need) (ab_cs r))
      \<and> (\<not> pushed \<longrightarrow> sts = [] \<and> sh = (ab_sh r)\<lparr>ab_starving := need\<rparr> \<and> need \<noteq> 0)
      \<and> (pushed \<longrightarrow>
          (\<forall>k c. ab_cs r k = Some c \<longrightarrow> ab_pending cap (ab_log r @ [x]) c = ab_pending cap (ab_log r) c @ [x])
          \<and> ab_view sh = fold bb_apply sts (ab_view (ab_sh r))
          \<and> (\<forall>i k c. ab_cs r k = Some c \<longrightarrow>
                unat (bb_intent (fold bb_apply (take i sts) (ab_view (ab_sh r)))) \<le> unat (gc_published c) + cap))"
  proof (cases free)
    case False
    then have "ab_try_push x (ab_sh r) (ab_p r) = Inr (False, [], (ab_sh r)\<lparr>ab_starving := need\<rparr>, p1)"
      using R(1,2,5) by (simp add: ab_try_push_def)
    moreover have "need \<noteq> 0" using R(6) by simp
    ultimately show ?thesis using span R(4) False by blast
  next
    case True
    obtain sts sh' p' where P: "ab_publish pad x ((ab_sh r)\<lparr>ab_starving := s\<rparr>) p1 = (sts, sh', p')"
      by (rule prod_cases3)
    have push: "ab_try_push x (ab_sh r) (ab_p r) = Inr (True, sts, sh', p')"
      using R(1,2) True P by (simp add: ab_try_push_def)
    have pend: "ab_pending cap (ab_log r @ [x]) c = ab_pending cap (ab_log r) c @ [x]" if "ab_cs r k = Some c" for k c
      using anchor_snoc(2) ab_soundD(10) [OF I(1) that] I(6) unfolding cap_def by simp
    note G = ab_published_gated [OF inv R(3) [OF True P]]
    show ?thesis
      using push span R(4) True pend G unfolding cap_def by blast
  qed
qed

text \<open>The ring filled with four records of 16 bytes that its anchor has not read.\<close>

definition ab64_full :: ab_ring where
  "ab64_full = snd (projr (mc_run ab_exec (replicate 4 (Ab_push [1, 2, 3, 4, 5, 6, 7])) ab64))"

lemma ab64_full_inv: "ab_inv 5 ab64_full"
proof -
  let ?ops = "replicate 4 (Ab_push [1, 2, 3, 4, 5, 6, 7])"
  have "(9 + 2) * capacity_of (ab_mask ab64) < word_span" by (simp add: ab64_mask word_span_def)
  note N = ab_new_inv(1) [OF ab64_new this]
  obtain evs r where R: "mc_run ab_exec ?ops ab64 = Inr (evs, r)" "ab_inv (9 - length ?ops) r"
    using ab_mc.run_total [OF N, of ?ops] by auto
  then show ?thesis by (simp add: ab64_full_def)
qed

lemma ab64_full_shape:
  "ab_mask ab64_full = 63" "gp_next_seq (ab_p ab64_full) = 64" "stream_end 64 (ab_log ab64_full) = 64"
  "stream_end 64 (ab_log ab64_full @ [[7]]) = 72" "ab_legal ab64_full [7]" "ab_cs ab64_full 0 \<noteq> None"
  "gc_published (the (ab_cs ab64_full 0)) = 0"
  by code_simp+

theorem ab_push_gated_witness:
  "\<exists>need sh p. ab_try_push [7] (ab_sh ab64_full) (ab_p ab64_full) = Inr (False, [], sh, p)
    \<and> sh = (ab_sh ab64_full)\<lparr>ab_starving := need\<rparr> \<and> unat need = 8"
proof -
  have inv: "ab_inv (Suc 4) ab64_full" using ab64_full_inv by simp
  have sl: "length [7 :: u8] < 2 ^ 64" by simp
  have cap: "capacity_of (ab_mask ab64_full) = 64" by (simp add: ab64_full_shape(1) ab64_mask(2))
  have a: "ab_cs ab64_full 0 = Some (the (ab_cs ab64_full 0))" using ab64_full_shape(6) by simp
  have "gate_blocked (ab_p ab64_full) 64 8 (ab_cs ab64_full)"
    unfolding gate_blocked_def using a ab64_full_shape(2,7)
    by (intro exI [of _ 0] exI [of _ "the (ab_cs ab64_full 0)"]) simp
  then show ?thesis
    using ab_push_gated [OF inv sl] ab64_full_shape(3-5) unfolding cap by auto
qed

section \<open>A blocked push\<close>

text \<open>While the anchors are in the way and nothing happens, the producer polls.\<close>

lemma gate_poll_stuck:
  assumes ok: "gate_ok sh p cs" and n: "0 < needed" "unat needed < capacity_of (gs_mask sh)"
    and bl: "gate_blocked p (capacity_of (gs_mask sh)) (unat needed) cs"
  shows "gate_poll_rescan needed (replicate j (\<lambda>s. s)) sh p = None"
  using ok bl
proof (induction j arbitrary: p)
  case 0
  obtain free p1 where r: "gate_rescan needed sh p = (free, p1)" by (rule prod.exhaust)
  have "\<not> free" using gate_rescan_iff [OF 0(1) n r] 0(2) by simp
  then show ?case using r by (simp add: gate_poll_rescan.simps [of needed "[]"])
next
  case (Suc j)
  obtain free p1 where r: "gate_rescan needed sh p = (free, p1)" by (rule prod.exhaust)
  note R = gate_rescan_ok [OF Suc.prems(1) n r]
  have "\<not> free" using gate_rescan_iff [OF Suc.prems(1) n r] Suc.prems(2) by simp
  then show ?case
    using r Suc.IH [OF R(1)] Suc.prems(2)
    by (simp add: gate_poll_rescan.simps [of needed "(\<lambda>s. s) # _"] gate_blocked_next [OF R(2)])
qed

text \<open>The producer before its loop: blocked twice, it raises the starving word and polls.\<close>

lemma ab_blocked_twice:
  assumes ok: "ab_sound ms sh p cs" and n: "0 < needed" "unat needed < capacity_of (gs_mask sh)"
    and sp: "needed \<le> ab_max_record_span (gs_mask sh + 1)"
    and bl: "gate_blocked p (capacity_of (gs_mask sh)) (unat needed) cs"
  obtains p1 where "ab_sound ms (sh\<lparr>ab_starving := needed\<rparr>) p1 cs" and "gp_next_seq p1 = gp_next_seq p"
    and "gp_mask p1 = gp_mask p"
    and "\<forall>env. ab_wait_for_space needed env sh p
      = (case gate_poll_rescan needed env (sh\<lparr>ab_starving := needed\<rparr>) p1 of
           None \<Rightarrow> None | Some (sh1, p2, env1) \<Rightarrow> ab_space_loop needed env1 sh1 p2)"
proof -
  obtain free s p0 where H: "ab_has_space needed sh p = Inr (free, sh\<lparr>ab_starving := s\<rparr>, p0)"
    "ab_sound ms (sh\<lparr>ab_starving := s\<rparr>) p0 cs" "gp_next_seq p0 = gp_next_seq p" "gp_mask p0 = gp_mask p"
    "free \<longleftrightarrow> \<not> gate_blocked p (capacity_of (gs_mask sh)) (unat needed) cs" "\<not> free \<Longrightarrow> s = needed"
    by (rule ab_has_space_ok [OF ok n sp]) blast
  let ?sh = "sh\<lparr>ab_starving := needed\<rparr>"
  have s: "\<not> free" "s = needed" using H(5,6) bl by simp_all
  have n1: "unat needed < capacity_of (gs_mask ?sh)" "needed \<le> ab_max_record_span (gs_mask ?sh + 1)"
    using n sp by simp_all
  obtain free1 s1 p1 where K: "ab_has_space needed ?sh p0 = Inr (free1, ?sh\<lparr>ab_starving := s1\<rparr>, p1)"
    "ab_sound ms (?sh\<lparr>ab_starving := s1\<rparr>) p1 cs" "gp_next_seq p1 = gp_next_seq p0" "gp_mask p1 = gp_mask p0"
    "free1 \<longleftrightarrow> \<not> gate_blocked p0 (capacity_of (gs_mask ?sh)) (unat needed) cs" "\<not> free1 \<Longrightarrow> s1 = needed"
    by (rule ab_has_space_ok [OF H(2) [unfolded s(2)] n(1) n1]) blast
  have s1: "\<not> free1" "s1 = needed" using K(5,6) bl by (simp_all add: gate_blocked_next [OF H(3)])
  show ?thesis
    by (rule that [of p1])
      (use H(1,3,4) K(1-4) s s1 in \<open>simp_all add: ab_wait_for_space_def ab_space_loop.simps [of needed _ ?sh]\<close>)
qed

text \<open>With no anchor in the way the check opens, from the cache or from a rescan.\<close>

lemma ab_unblocked:
  assumes ok: "gate_ok sh p cs" and n: "0 < needed" "unat needed < capacity_of (gs_mask sh)"
    and un: "\<not> gate_blocked p (capacity_of (gs_mask sh)) (unat needed) cs"
  shows "\<exists>sh' p'. ab_has_space needed sh p = Inr (True, sh', p') \<and> gp_next_seq p' = gp_next_seq p"
proof (cases "gate_lacks_space (gp_next_seq p) needed (gp_cached_min p) (gp_mask p + 1)")
  case True
  obtain free p1 where r: "gate_rescan needed sh p = (free, p1)" by (rule prod.exhaust)
  then show ?thesis
    using True gate_rescan_iff [OF ok n r] un gate_rescan_ok(2) [OF ok n r] by (simp add: ab_has_space_def)
qed (simp add: ab_has_space_def)

lemma ab_publish_tail:
  assumes "ab_publish pad v sh p = (sts, sh', p')"
  shows "gs_write_cursor sh' = gp_next_seq p + pad + bb_record_len (of_nat (length v))"
  using assms by (auto simp: ab_publish_def ab_write_frame_def Let_def)

text \<open>
  (C37) A blocked push is released. While some anchor is in the way and nothing
  happens, a push does not return, however often it polls; it returns at the first poll
  after a step of the rest of the program that leaves no attached anchor in the way
  (they released, left, or both), and has then stored its frame: the tail is the end
  of the stream with the message appended.
\<close>

theorem ab_push_released:
  assumes inv: "ab_inv (Suc n) r" and legal: "ab_legal r x"
    and bl: "gate_blocked (ab_p r) (capacity_of (ab_mask r)) (ab_span (capacity_of (ab_mask r)) (ab_log r) x) (ab_cs r)"
    and e: "\<And>s (q :: ab_producer). gate_ok ((ab_sh r)\<lparr>ab_starving := s\<rparr>) q (ab_cs r)
      \<Longrightarrow> gate_ok (e ((ab_sh r)\<lparr>ab_starving := s\<rparr>)) q cs'"
    and m: "\<And>s. gs_mask (e ((ab_sh r)\<lparr>ab_starving := s\<rparr>)) = ab_mask r"
    and un: "\<not> gate_blocked (ab_p r) (capacity_of (ab_mask r)) (ab_span (capacity_of (ab_mask r)) (ab_log r) x) cs'"
  shows "ab_push (replicate j (\<lambda>s. s)) x (ab_sh r) (ab_p r) = None
    \<and> (\<exists>sts sh p. ab_push (replicate j (\<lambda>s. s) @ e # es) x (ab_sh r) (ab_p r) = Some (Inr (sts, sh, p))
        \<and> unat (gs_write_cursor sh) = stream_end (capacity_of (ab_mask r)) (ab_log r @ [x]))"
proof -
  let ?sh = "ab_sh r" and ?C = "capacity_of (ab_mask r)" and ?p = "ab_p r"
  note I = ab_invD [OF inv]
  note S = ab_soundD [OF I(1)] and T = ab_tail [OF I(1), unfolded I(6)]
  have lg: "legal_length (capacity_of (gs_mask ?sh)) (length x)" using legal by (simp add: ab_legal_eq [OF I(6)] I(6))
  have "2 * ?C \<le> (Suc n + 2) * ?C" by simp
  then have sp: "stream_end (capacity_of (gs_mask ?sh)) (ab_log r) + 2 * capacity_of (gs_mask ?sh) < word_span"
    using I(5) unfolding I(6) by linarith
  obtain pad need where F: "ab_frame (of_nat (length x)) ?p = Inr (pad, need)"
    "unat need = ab_span (capacity_of (gs_mask ?sh)) (ab_log r) x" "0 < need"
    "unat need < capacity_of (gs_mask ?sh)" "need \<le> ab_max_record_span (gs_mask ?sh + 1)"
    by (rule ab_frame_ok [OF I(1) lg sp])
  let ?sh1 = "?sh\<lparr>ab_starving := need\<rparr>"
  have bl': "gate_blocked ?p (capacity_of (gs_mask ?sh)) (unat need) (ab_cs r)" using bl F(2) I(6) by simp
  obtain p1 where W: "ab_sound (ab_log r) ?sh1 p1 (ab_cs r)" "gp_next_seq p1 = gp_next_seq ?p" "gp_mask p1 = gp_mask ?p"
    "\<forall>env. ab_wait_for_space need env ?sh ?p
      = (case gate_poll_rescan need env ?sh1 p1 of
           None \<Rightarrow> None | Some (sh1, p2, env1) \<Rightarrow> ab_space_loop need env1 sh1 p2)"
    by (rule ab_blocked_twice [OF I(1) F(3-5) bl'])
  note G = ab_soundD(1) [OF W(1)]
  have n1: "unat need < capacity_of (gs_mask ?sh1)" using F(4) by simp
  have bl1: "gate_blocked p1 (capacity_of (gs_mask ?sh1)) (unat need) (ab_cs r)"
    using bl' by (simp add: gate_blocked_next [OF W(2)])
  have m1: "gs_mask (e ?sh1) = gs_mask ?sh1" using m I(6) by simp
  have un1: "\<not> gate_blocked p1 (capacity_of (gs_mask ?sh1)) (unat need) cs'"
    using un F(2) I(6) by (simp add: gate_blocked_next [OF W(2)])
  have stuck: "ab_push (replicate j (\<lambda>s. s)) x ?sh ?p = None"
    using F(1) W(4) gate_poll_stuck [OF G F(3) n1 bl1] by (simp add: ab_push_def)
  obtain p2 where P: "gate_poll_rescan need (replicate j (\<lambda>s. s) @ e # es) ?sh1 p1 = Some (e ?sh1, p2, es)"
    "gate_ok (e ?sh1) p2 cs'" "gp_next_seq p2 = gp_next_seq p1"
    using gate_poll_released [where e = e, OF G F(3) n1 bl1 e m1 un1] by blast
  have un2: "\<not> gate_blocked p2 (capacity_of (gs_mask (e ?sh1))) (unat need) cs'"
    using un1 m1 by (simp add: gate_blocked_next [OF P(3)])
  obtain sh3 p3 where H: "ab_has_space need (e ?sh1) p2 = Inr (True, sh3, p3)" "gp_next_seq p3 = gp_next_seq p2"
    using ab_unblocked [OF P(2) F(3) _ un2] n1 m1 by auto
  obtain sts sh4 p4 where B: "ab_publish pad x sh3 p3 = (sts, sh4, p4)" by (rule prod_cases3)
  have push: "ab_push (replicate j (\<lambda>s. s) @ e # es) x ?sh ?p = Some (Inr (sts, sh4, p4))"
    using F(1) W(4) P(1) H(1) B by (simp add: ab_push_def ab_space_loop.simps [of need es])
  have "length x < word_span" using lg by (simp add: legal_length_def word_span_def)
  note need = ab_write_lossy(2) [OF F(1) this]
  have "unat (gs_write_cursor sh4) = unat (gp_next_seq ?p + need)"
    unfolding ab_publish_tail [OF B] H(2) P(3) W(2) need by (simp add: add.assoc)
  also have "\<dots> = stream_end ?C (ab_log r) + ab_span ?C (ab_log r) x"
    using unat_add_span [of "gp_next_seq ?p" need] T(1) S(13) F(2,4) sp I(6) by simp
  also have "\<dots> = stream_end ?C (ab_log r @ [x])"
    using ab_span_bounds(4) [OF S(11,2,3) lg, of "ab_log r"] I(6) by simp
  finally show ?thesis using stuck push by blast
qed

theorem ab_push_released_witness:
  "ab_push (replicate 3 (\<lambda>s. s)) [7] (ab_sh ab64_full) (ab_p ab64_full) = None
    \<and> (\<exists>sts sh p. ab_push (replicate 3 (\<lambda>s. s) @ [\<lambda>s. ab_anchor_drop s (the (ab_cs ab64_full 0))]) [7]
          (ab_sh ab64_full) (ab_p ab64_full) = Some (Inr (sts, sh, p)) \<and> unat (gs_write_cursor sh) = 72)"
proof -
  let ?a = "the (ab_cs ab64_full 0)" and ?cs = "ab_cs ab64_full" and ?e = "\<lambda>s. ab_anchor_drop s (the (ab_cs ab64_full 0))"
  have inv: "ab_inv (Suc 4) ab64_full" using ab64_full_inv by simp
  have mk: "gs_mask (ab_sh ab64_full) = ab_mask ab64_full" by (rule ab_invD(6) [OF inv])
  have cap: "capacity_of (ab_mask ab64_full) = 64" by (simp add: ab64_full_shape(1) ab64_mask(2))
  have a: "?cs 0 = Some ?a" using ab64_full_shape(6) by simp
  have span: "ab_span 64 (ab_log ab64_full) [7] = 8" using ab64_full_shape(3,4) by (simp add: ab_span_def)
  have bl: "gate_blocked (ab_p ab64_full) (capacity_of (ab_mask ab64_full))
      (ab_span (capacity_of (ab_mask ab64_full)) (ab_log ab64_full) [7]) ?cs"
    unfolding gate_blocked_def cap span using a ab64_full_shape(2,7) by (intro exI [of _ 0] exI [of _ ?a]) simp
  have e: "gate_ok (?e ((ab_sh ab64_full)\<lparr>ab_starving := s\<rparr>)) q (?cs(0 := None))"
    if "gate_ok ((ab_sh ab64_full)\<lparr>ab_starving := s\<rparr>) q ?cs" for s and q :: ab_producer
    unfolding ab_anchor_drop_def by (rule gate_consumer_drop_ok(1) [OF that a])
  have m: "gs_mask (?e ((ab_sh ab64_full)\<lparr>ab_starving := s\<rparr>)) = ab_mask ab64_full" for s
    unfolding mk [symmetric] ab_anchor_drop_def
    by (simp add: gate_consumer_drop_def gate_flush_pending_def gate_flush_def
        gate_detach_def Let_def split: prod.splits)
  have "ab_next ab64_full = 1" by code_simp
  then have "?cs k = None" if "0 < k" for k using ab_invD(2) [OF inv, of k] that by simp
  then have un: "\<not> gate_blocked (ab_p ab64_full) (capacity_of (ab_mask ab64_full))
      (ab_span (capacity_of (ab_mask ab64_full)) (ab_log ab64_full) [7]) (?cs(0 := None))"
    by (fastforce simp: gate_blocked_def split: if_splits)
  show ?thesis
    using ab_push_released [where e = ?e and es = "[]" and j = 3, OF inv ab64_full_shape(5) bl e m un]
      ab64_full_shape(4) unfolding cap by simp
qed

end
