(* ===== verification/Anchored.thy ===== *)
theory Anchored
  imports Gate_Properties Spmc Broadcast_Properties
begin

text \<open>
  The composed element ring (\<open>src/src/anchored.rs\<close>): required anchors, which gate the
  producer, and lossy observers, which do not. The gate, the anchors' checks, their
  adaptive flush and their membership are the gating engine of \<open>Gate\<close> on the unified
  cursor; a push is the write bracket of \<open>Broadcast\<close> as the sequence of atomic stores
  that the observers see. An observer is the consumer of \<open>Broadcast\<close>, whose text the
  source repeats, on the words of this ring (\<open>ae_view\<close>).
\<close>

section \<open>State\<close>

record ae_shared = gate_shared +
  ae_slots :: "seq_slot list"
  ae_slack :: u64

text \<open>What an observer reads of the ring.\<close>

definition ae_view :: "ae_shared \<Rightarrow> bcast_shared" where
  "ae_view sh = \<lparr>bs_slots = ae_slots sh, bs_mask = gs_mask sh, bs_slack = ae_slack sh,
     bs_tail = gs_write_cursor sh, bs_closed = gs_closed sh\<rparr>"

text \<open>The effect of one atomic store of the producer.\<close>

fun ae_apply :: "bc_store \<Rightarrow> ae_shared \<Rightarrow> ae_shared" where
  "ae_apply (St_seq i v) sh = sh\<lparr>ae_slots := (ae_slots sh)[i := (ae_slots sh ! i)\<lparr>sl_seq := v\<rparr>]\<rparr>"
| "ae_apply (St_data i off bs) sh =
     sh\<lparr>ae_slots := (ae_slots sh)[i := (ae_slots sh ! i)
          \<lparr>sl_data := put off (map Some bs) (sl_data (ae_slots sh ! i))\<rparr>]\<rparr>"
| "ae_apply (St_tail v) sh = sh\<lparr>gs_write_cursor := v\<rparr>"
| "ae_apply (St_closed v) sh = sh\<lparr>gs_closed := v\<rparr>"

section \<open>Construction and subscription\<close>

definition ae_subscribe_from :: "ae_shared \<Rightarrow> (subscribe_error + gate_consumer) \<times> ae_shared" where
  "ae_subscribe_from sh = gate_subscribe sh"

definition ae_observe_from :: "ae_shared \<Rightarrow> bcast_consumer" where
  "ae_observe_from sh =
     (let pos = gs_write_cursor sh
      in \<lparr>bc_mask = gs_mask sh, bc_slack = ae_slack sh, bc_pos = pos, bc_tail_cache = pos\<rparr>)"

text \<open>\<open>esize\<close> is \<open>size_of::<T>()\<close>.\<close>

definition ae_build ::
  "nat \<Rightarrow> usize \<Rightarrow> usize \<Rightarrow> fault + ae_shared \<times> gate_producer \<times> gate_consumer" where
  "ae_build esize capacity slack =
     (if esize = 0 then Inl Panic
      else (let sh = \<lparr>gs_mask = capacity - 1, gs_write_cursor = 0, gs_closed = 0,
                      gs_registry = [chunk_new], gs_producer_notified = 0, gs_consumer_notified = 0,
                      ae_slots = replicate (unat capacity) \<lparr>sl_seq = 0, sl_data = replicate esize None\<rparr>,
                      ae_slack = slack\<rparr>
            in case ae_subscribe_from sh of
                 (Inl e, sh1) \<Rightarrow> Inl Panic
               | (Inr c, sh1) \<Rightarrow>
                   Inr (sh1, \<lparr>gp_mask = gs_mask sh1, gp_next_seq = 0, gp_cached_min = 0,
                              gp_cached_cursors = []\<rparr>, c)))"

definition ae_with_wait_strategies ::
  "nat \<Rightarrow> usize \<Rightarrow> fault + ae_shared \<times> gate_producer \<times> gate_consumer" where
  "ae_with_wait_strategies esize min_capacity =
     (case round_capacity min_capacity 2 of
        Inl f \<Rightarrow> Inl f
      | Inr capacity \<Rightarrow> ae_build esize capacity (default_slack capacity))"

definition ae_with_slack ::
  "nat \<Rightarrow> usize \<Rightarrow> usize \<Rightarrow> fault + ae_shared \<times> gate_producer \<times> gate_consumer" where
  "ae_with_slack esize min_capacity slack =
     (case round_capacity min_capacity 2 of
        Inl f \<Rightarrow> Inl f
      | Inr capacity \<Rightarrow> if slack < capacity then ae_build esize capacity slack else Inl Panic)"

section \<open>The producer\<close>

definition ae_slot :: "gate_producer \<Rightarrow> u64 \<Rightarrow> nat" where
  "ae_slot p s = slot_ix (gp_mask p) s"

text \<open>
  The write bracket, then the unified cursor, then the wake-up of the anchors. The
  stores are returned in the order in which they are issued.
\<close>

definition ae_write ::
  "u8 list \<Rightarrow> ae_shared \<Rightarrow> gate_producer \<Rightarrow> bc_store list \<times> ae_shared \<times> gate_producer" where
  "ae_write v sh p =
     (let s = gp_next_seq p;
          i = ae_slot p s;
          p' = p\<lparr>gp_next_seq := s + 1\<rparr>;
          sts = St_seq i (2 * s + 1) # write_payload i v @ [St_seq i (2 * s + 2), St_tail (gp_next_seq p')];
          sh' = fold ae_apply sts sh
      in (sts, sh'\<lparr>gs_consumer_notified := Suc (gs_consumer_notified sh')\<rparr>, p'))"

definition ae_try_push ::
  "u8 list \<Rightarrow> ae_shared \<Rightarrow> gate_producer
     \<Rightarrow> u8 list push_result \<times> bc_store list \<times> ae_shared \<times> gate_producer" where
  "ae_try_push v sh p =
     (case gate_has_space 1 sh p of
        (False, p') \<Rightarrow> (Push_refused v, [], sh, p')
      | (True, p') \<Rightarrow> (Pushed, ae_write v sh p'))"

text \<open>The blocking form; \<open>None\<close> is "still blocked when \<open>env\<close> ends".\<close>

definition ae_push ::
  "(ae_shared \<Rightarrow> ae_shared) list \<Rightarrow> u8 list \<Rightarrow> ae_shared \<Rightarrow> gate_producer
     \<Rightarrow> (bc_store list \<times> ae_shared \<times> gate_producer) option" where
  "ae_push env v sh p =
     map_option (\<lambda>(sh1, p1, env1). ae_write v sh1 p1) (gate_wait_for_space 1 env sh p)"

text \<open>A claim borrows the producer and has no state of its own.\<close>

definition ae_try_claim :: "ae_shared \<Rightarrow> gate_producer \<Rightarrow> bool \<times> gate_producer" where
  "ae_try_claim sh p = gate_has_space 1 sh p"

definition ae_claim ::
  "(ae_shared \<Rightarrow> ae_shared) list \<Rightarrow> ae_shared \<Rightarrow> gate_producer \<Rightarrow> (ae_shared \<times> gate_producer) option" where
  "ae_claim env sh p = map_option (\<lambda>(sh1, p1, env1). (sh1, p1)) (gate_wait_for_space 1 env sh p)"

definition ae_commit ::
  "u8 list \<Rightarrow> ae_shared \<Rightarrow> gate_producer \<Rightarrow> bc_store list \<times> ae_shared \<times> gate_producer" where
  "ae_commit v sh p = ae_write v sh p"

definition ae_producer_len :: "gate_producer \<Rightarrow> u64" where
  "ae_producer_len p = gp_next_seq p - gp_cached_min p"

definition ae_producer_is_full :: "gate_producer \<Rightarrow> bool" where
  "ae_producer_is_full p \<longleftrightarrow> gate_lacks_space (gp_next_seq p) 1 (gp_cached_min p) (gp_mask p + 1)"

definition ae_anchor_count :: "ae_shared \<Rightarrow> nat" where
  "ae_anchor_count sh = active_count (gs_registry sh)"

definition ae_producer_drop :: "ae_shared \<Rightarrow> bc_store list \<times> ae_shared" where
  "ae_producer_drop sh =
     (let sh' = ae_apply (St_closed 1) sh
      in ([St_closed 1], sh'\<lparr>gs_consumer_notified := Suc (gs_consumer_notified sh')\<rparr>))"

section \<open>The anchors\<close>

text \<open>The plain read of the slot at the read cursor: \<open>assume_init\<close> needs every byte.\<close>

definition ae_deref :: "ae_shared \<Rightarrow> gate_consumer \<Rightarrow> fault + u8 list" where
  "ae_deref sh c =
     (let d = sl_data (ae_slots sh ! slot_ix (gc_mask c) (gc_read_cursor c))
      in if None \<in> set d then Inl UninitRead else Inr (map the d))"

definition ae_advance_one :: "ae_shared \<Rightarrow> gate_consumer \<Rightarrow> ae_shared \<times> gate_consumer" where
  "ae_advance_one sh c =
     (let capacity = gc_mask c + 1;
          was_full = gc_write_cache c - gc_read_cursor c > capacity - 1;
          c1 = c\<lparr>gc_read_cursor := gc_read_cursor c + 1\<rparr>
      in if was_full \<or> gc_read_cursor c1 = gc_write_cache c1
            \<or> gc_read_cursor c1 - gc_published c1 \<ge> publish_batch_elems capacity
         then gate_flush sh c1 else (sh, c1))"

definition ae_read :: "ae_shared \<Rightarrow> gate_consumer \<Rightarrow> fault + u8 list pop_result \<times> ae_shared \<times> gate_consumer" where
  "ae_read sh c = map_sum id (\<lambda>v. (Popped v, ae_advance_one sh c)) (ae_deref sh c)"

text \<open>\<open>between\<close> is what other threads do before the check of the closed flag.\<close>

definition ae_try_pop ::
  "(ae_shared \<Rightarrow> ae_shared) \<Rightarrow> ae_shared \<Rightarrow> gate_consumer
     \<Rightarrow> fault + u8 list pop_result \<times> ae_shared \<times> gate_consumer" where
  "ae_try_pop between sh c =
     (case gate_has_item sh c of
        (True, c1) \<Rightarrow> ae_read sh c1
      | (False, c1) \<Rightarrow>
          (let sh1 = between sh
           in case gate_check_closed sh1 c1 of
                (True, c2) \<Rightarrow> Inr (Pop_closed, sh1, c2)
              | (False, c2) \<Rightarrow> if gate_available_cached c2 \<noteq> 0 then ae_read sh1 c2
                               else Inr (Pop_empty, sh1, c2)))"

definition ae_pop ::
  "(ae_shared \<Rightarrow> ae_shared) list \<Rightarrow> ae_shared \<Rightarrow> gate_consumer
     \<Rightarrow> (fault + u8 list pop_result \<times> ae_shared \<times> gate_consumer) option" where
  "ae_pop env sh c =
     map_option (\<lambda>(b, sh1, c1). if b then ae_read sh1 c1 else Inr (Pop_closed, sh1, c1))
       (gate_wait_for_item env sh c)"

text \<open>A guard borrows the anchor: \<open>ae_deref\<close> reads through it, its drop advances.\<close>

definition ae_try_pop_ref ::
  "(ae_shared \<Rightarrow> ae_shared) \<Rightarrow> ae_shared \<Rightarrow> gate_consumer
     \<Rightarrow> unit pop_result \<times> ae_shared \<times> gate_consumer" where
  "ae_try_pop_ref between sh c =
     (case gate_has_item sh c of
        (True, c1) \<Rightarrow> (Popped (), sh, c1)
      | (False, c1) \<Rightarrow>
          (let sh1 = between sh
           in case gate_check_closed sh1 c1 of
                (True, c2) \<Rightarrow> (Pop_closed, sh1, c2)
              | (False, c2) \<Rightarrow> (if gate_available_cached c2 \<noteq> 0 then Popped () else Pop_empty, sh1, c2)))"

definition ae_pop_ref ::
  "(ae_shared \<Rightarrow> ae_shared) list \<Rightarrow> ae_shared \<Rightarrow> gate_consumer
     \<Rightarrow> (unit pop_result \<times> ae_shared \<times> gate_consumer) option" where
  "ae_pop_ref env sh c =
     map_option (\<lambda>(b, sh1, c1). (if b then Popped () else Pop_closed, sh1, c1))
       (gate_wait_for_item env sh c)"

definition ae_popref_drop :: "ae_shared \<Rightarrow> gate_consumer \<Rightarrow> ae_shared \<times> gate_consumer" where
  "ae_popref_drop sh c = ae_advance_one sh c"

text \<open>\<open>unwinds n\<close> says that the callback panics when it has been called \<open>n\<close> times before.\<close>

fun ae_drain_loop ::
  "nat \<Rightarrow> (nat \<Rightarrow> bool) \<Rightarrow> nat \<Rightarrow> ae_shared \<Rightarrow> gate_consumer \<Rightarrow> fault + u8 list list \<times> gate_consumer" where
  "ae_drain_loop 0 unwinds n sh c = Inr ([], c)"
| "ae_drain_loop (Suc count) unwinds n sh c =
     (let c1 = c\<lparr>gc_read_cursor := gc_read_cursor c + 1\<rparr>
      in case ae_deref sh c of
           Inl f \<Rightarrow> Inl f
         | Inr v \<Rightarrow>
             if unwinds n then Inr ([v], c1)
             else map_sum id (\<lambda>(vs, c2). (v # vs, c2)) (ae_drain_loop count unwinds (Suc n) sh c1))"

text \<open>The result lists what the callback was given; the progress is published on every exit.\<close>

definition ae_drain ::
  "(nat \<Rightarrow> bool) \<Rightarrow> ae_shared \<Rightarrow> gate_consumer \<Rightarrow> fault + u8 list list \<times> ae_shared \<times> gate_consumer" where
  "ae_drain unwinds sh c =
     (case gate_refresh sh c of
        (end_cur, c1) \<Rightarrow>
          (let available = end_cur - gc_read_cursor c1
           in if available = 0 then Inr ([], sh, c1)
              else (let count = min available (publish_batch_elems (gc_mask c1 + 1))
                    in map_sum id (\<lambda>(vs, c2). (vs, gate_flush_pending sh c2))
                         (ae_drain_loop (unat count) unwinds 0 sh c1))))"

definition ae_anchor_len :: "ae_shared \<Rightarrow> gate_consumer \<Rightarrow> u64" where
  "ae_anchor_len sh c = gs_write_cursor sh - gc_read_cursor c"

text \<open>The heap teardown: flush, sentinel, de-register, wake the producer.\<close>

definition ae_anchor_drop :: "ae_shared \<Rightarrow> gate_consumer \<Rightarrow> ae_shared" where
  "ae_anchor_drop sh c =
     (case gate_flush_pending sh c of
        (sh1, c1) \<Rightarrow>
          gate_detach (sh1\<lparr>gs_registry := store_slot (gc_chunk c1) (gc_slot c1) DETACHED
                                            (gs_registry sh1)\<rparr>) c1)"

lemma ae_gate:
  "ae_advance_one sh c = gate_advance_one sh c" "ae_anchor_drop sh c = gate_consumer_drop sh c"
  by (simp_all add: ae_advance_one_def gate_advance_one_def ae_anchor_drop_def gate_consumer_drop_def)

end
