(* ===== verification/Anchored_Invariant.thy ===== *)
theory Anchored_Invariant
  imports Anchored
begin

text \<open>
  The invariant of the composed element ring, and its anchors against it: the gating
  engine's invariant and, on what the observers see, the seqlock ring of
  \<open>Broadcast_Trace\<close> with no write in progress. \<open>ms\<close> is the list of the values
  published so far, \<open>e\<close> the size of one. No step of an anchor is seen by an observer.
\<close>

section \<open>The observers' view\<close>

lemma ae_view_simps [simp]:
  "bs_slots (ae_view sh) = ae_slots sh" "bs_mask (ae_view sh) = gs_mask sh"
  "bs_slack (ae_view sh) = ae_slack sh" "bs_tail (ae_view sh) = gs_write_cursor sh"
  "bs_closed (ae_view sh) = gs_closed sh"
  by (simp_all add: ae_view_def)

lemma ae_view_apply: "ae_view (ae_apply s sh) = bc_apply s (ae_view sh)"
  by (cases s) (simp_all add: ae_view_def)

lemma ae_view_fold: "ae_view (fold ae_apply sts sh) = fold bc_apply sts (ae_view sh)"
  by (induction sts arbitrary: sh) (simp_all add: ae_view_apply)

lemma ae_fold_registry: "gs_registry (fold ae_apply sts sh) = gs_registry sh"
proof (induction sts arbitrary: sh)
  case (Cons s sts)
  have "gs_registry (ae_apply s sh) = gs_registry sh" by (cases s) simp_all
  then show ?case using Cons by simp
qed simp

lemma ae_view_cong:
  fixes sh sh' :: ae_shared
  assumes "gs_mask sh' = gs_mask sh" and "gs_write_cursor sh' = gs_write_cursor sh"
    and "gs_closed sh' = gs_closed sh" and "gate_shared.more sh' = gate_shared.more sh"
  shows "ae_view sh' = ae_view sh"
proof -
  have "ae_slots sh' = ae_slots sh" "ae_slack sh' = ae_slack sh"
    using assms(4) by (cases sh, cases sh', simp)+
  then show ?thesis using assms by (simp add: ae_view_def)
qed

lemma ae_cstep_view:
  fixes sh sh' :: ae_shared
  assumes "gate_cstep sh c sh' c'"
  shows "ae_view sh' = ae_view sh"
  by (rule ae_view_cong) (use assms in \<open>simp_all add: gate_cstep_def\<close>)

section \<open>The invariant\<close>

definition ae_sound ::
  "nat \<Rightarrow> u8 list list \<Rightarrow> ae_shared \<Rightarrow> gate_producer \<Rightarrow> (nat \<Rightarrow> gate_consumer option) \<Rightarrow> bool" where
  "ae_sound e ms sh p cs \<longleftrightarrow> gate_ok sh p cs \<and> unat (gs_write_cursor sh) = length ms
     \<and> ring_at (gs_mask sh) (ae_slack sh) e ms (length ms) False (ae_view sh)"

lemma ae_soundI:
  assumes "gate_ok sh p cs" and "unat (gs_write_cursor sh) = length ms"
    and "ring_at (gs_mask sh) (ae_slack sh) e ms (length ms) False (ae_view sh)"
  shows "ae_sound e ms sh p cs"
  using assms by (simp add: ae_sound_def)

lemma ae_soundD:
  assumes "ae_sound e ms sh p cs"
  shows "gate_ok sh p cs" and "unat (gs_write_cursor sh) = length ms"
    and "ring_at (gs_mask sh) (ae_slack sh) e ms (length ms) False (ae_view sh)"
    and "valid_mask (gs_mask sh)" and "gp_mask p = gs_mask sh" and "2 \<le> capacity_of (gs_mask sh)"
    and "gs_write_cursor sh = gp_next_seq p"
  using assms producer_okD [OF gate_okD(1), of sh p cs] unfolding ae_sound_def by blast+

text \<open>What an anchor has not received yet.\<close>

definition ae_pending :: "u8 list list \<Rightarrow> gate_consumer \<Rightarrow> u8 list list" where
  "ae_pending ms c = drop (unat (gc_read_cursor c)) ms"

lemma ae_pending_cursor: "gc_read_cursor c' = gc_read_cursor c \<Longrightarrow> ae_pending ms c' = ae_pending ms c"
  by (simp add: ae_pending_def)

lemma ae_pending_next:
  assumes "unat (gc_read_cursor c) < length ms" and "unat (gc_read_cursor c') = Suc (unat (gc_read_cursor c))"
  shows "ae_pending ms c = ms ! unat (gc_read_cursor c) # ae_pending ms c'"
  using assms by (simp add: ae_pending_def Cons_nth_drop_Suc)

lemma ae_read_le:
  assumes ok: "ae_sound e ms sh p cs" and c: "cs k = Some c"
  shows "unat (gc_read_cursor c) \<le> length ms"
  using consumer_okD(7,8) [OF gate_okD(3) [OF ae_soundD(1) [OF ok] c]] ae_soundD(2,7) [OF ok] by simp

lemma ae_pending_nil:
  assumes ok: "ae_sound e ms sh p cs" and c: "cs k = Some c"
  shows "ae_pending ms c = [] \<longleftrightarrow> gc_read_cursor c = gs_write_cursor sh"
  using ae_read_le [OF ok c] ae_soundD(2) [OF ok] by (auto simp: ae_pending_def word_unat_eq_iff)

text \<open>Nothing an attached anchor has yet to release is overwritten.\<close>

lemma ae_window:
  assumes ok: "ae_sound e ms sh p cs" and c: "cs k = Some c"
  shows "length ms \<le> unat (gc_published c) + capacity_of (gs_mask sh)"
proof -
  note S = ae_soundD [OF ok]
  note P = producer_okD [OF gate_okD(1) [OF S(1)]] and C = consumer_okD [OF gate_okD(3) [OF S(1) c]]
  show ?thesis using C(9) P(6) S(2,7) by simp
qed

lemma ae_sound_gate:
  assumes ok: "ae_sound e ms sh p cs" and g: "gate_ok sh' p' cs'" and v: "ae_view sh' = ae_view sh"
  shows "ae_sound e ms sh' p' cs'"
proof -
  have "gs_mask sh' = gs_mask sh" "gs_write_cursor sh' = gs_write_cursor sh" "ae_slack sh' = ae_slack sh"
    using arg_cong [OF v, of bs_mask] arg_cong [OF v, of bs_tail] arg_cong [OF v, of bs_slack] by simp_all
  then show ?thesis using ae_soundD(2,3) [OF ok] g v by (intro ae_soundI) simp_all
qed

lemma ae_cstep_ok:
  assumes ok: "ae_sound e ms sh p cs" and c: "cs k = Some c" and st: "gate_cstep sh c sh' c'"
  shows "ae_sound e ms sh' p (cs(k \<mapsto> c'))"
  by (rule ae_sound_gate [OF ok gate_cstep_ok [OF ae_soundD(1) [OF ok] c st] ae_cstep_view [OF st]])

section \<open>Reading in place\<close>

lemma ae_deref_ok:
  assumes ok: "ae_sound e ms sh p cs" and c: "cs k = Some c" and st: "gate_cstep sh c sh c1"
    and lt: "unat (gc_read_cursor c1) < length ms"
  shows "ae_deref sh c1 = Inr (ms ! unat (gc_read_cursor c1))"
proof -
  note S = ae_soundD [OF ok] and C = consumer_okD [OF gate_okD(3) [OF ae_soundD(1) [OF ok] c]]
  have m: "gc_mask c1 = gs_mask sh" and ge: "unat (gc_published c) \<le> unat (gc_read_cursor c1)"
    using st C(1,6) by (simp_all add: gate_cstep_def)
  have "length ms + of_bool False \<le> unat (gc_read_cursor c1) + capacity_of (gs_mask sh)"
    using ae_window [OF ok c] ge by simp
  from ring_atD(9) [OF S(3) lt this] show ?thesis by (simp add: ae_deref_def m o_def)
qed

lemma ae_cache_le:
  assumes ok: "ae_sound e ms sh p cs" and st: "gate_cstep sh c sh c1"
  shows "unat (gc_write_cache c1) \<le> length ms"
  using st ae_soundD(2) [OF ok] by (simp add: gate_cstep_def)

text \<open>One step over an element: what \<open>read\<close> and the drop of a guard do.\<close>

lemma ae_advance_ok:
  assumes ok: "ae_sound e ms sh p cs" and c: "cs k = Some c" and st: "gate_cstep sh c sh c1"
    and lt: "unat (gc_read_cursor c1) < unat (gc_write_cache c1)"
    and a: "ae_advance_one sh c1 = (sh', c')"
  shows "gate_cstep sh c sh' c'" and "ae_pending ms c1 = ms ! unat (gc_read_cursor c1) # ae_pending ms c'"
proof -
  note A = gate_advance_one_step [OF ae_soundD(1) [OF ok] c st lt a [unfolded ae_gate]]
  show "gate_cstep sh c sh' c'" by (rule A(1))
  show "ae_pending ms c1 = ms ! unat (gc_read_cursor c1) # ae_pending ms c'"
    by (rule ae_pending_next [OF _ A(2)]) (use lt ae_cache_le [OF ok st] in simp)
qed

lemma ae_read_ok:
  assumes ok: "ae_sound e ms sh p cs" and c: "cs k = Some c" and st: "gate_cstep sh c sh c1"
    and lt: "unat (gc_read_cursor c1) < unat (gc_write_cache c1)"
  obtains v sh' c' where "ae_deref sh c1 = Inr v" and "ae_advance_one sh c1 = (sh', c')"
    and "ae_read sh c1 = Inr (Popped v, sh', c')" and "gate_cstep sh c sh' c'"
    and "ae_pending ms c1 = v # ae_pending ms c'"
proof -
  obtain sh' c' where a: "ae_advance_one sh c1 = (sh', c')" by (rule prod.exhaust)
  have lt': "unat (gc_read_cursor c1) < length ms" using lt ae_cache_le [OF ok st] by simp
  note d = ae_deref_ok [OF ok c st lt'] and A = ae_advance_ok [OF ok c st lt a]
  show ?thesis by (rule that [OF d a _ A]) (simp add: ae_read_def d a)
qed

section \<open>The pops\<close>

text \<open>The checks of \<open>try_pop\<close> and \<open>try_pop_ref\<close> with nothing in between.\<close>

lemma ae_checks_ok:
  assumes ok: "ae_sound e ms sh p cs" and c: "cs k = Some c"
  obtains (item) c1 where "gate_has_item sh c = (True, c1)" and "gate_cstep sh c sh c1"
      and "ae_pending ms c1 = ae_pending ms c" and "unat (gc_read_cursor c1) < unat (gc_write_cache c1)"
  | (closed) c1 c2 where "gate_has_item sh c = (False, c1)" and "gate_check_closed sh c1 = (True, c2)"
      and "gate_cstep sh c sh c2" and "ae_pending ms c2 = ae_pending ms c" and "ae_pending ms c = []"
      and "gs_closed sh \<noteq> 0"
  | (idle) c1 where "gate_has_item sh c = (False, c1)" and "gate_check_closed sh c1 = (False, c1)"
      and "gate_available_cached c1 = 0" and "gate_cstep sh c sh c1"
      and "ae_pending ms c1 = ae_pending ms c" and "ae_pending ms c = []" and "gs_closed sh = 0"
proof -
  note g = ae_soundD(1) [OF ok]
  obtain b c1 where h: "gate_has_item sh c = (b, c1)" by (rule prod.exhaust)
  note H = gate_has_item_spec [OF g c h]
  have p1: "ae_pending ms c1 = ae_pending ms c" by (rule ae_pending_cursor [OF H(2)])
  show ?thesis
  proof (cases b)
    case True
    then show ?thesis using item [of c1] h H(1,5) p1 by simp
  next
    case False
    then have nil: "ae_pending ms c = []" using H(4) ae_pending_nil [OF ok c] by simp
    have at: "gc_read_cursor c1 = gs_write_cursor sh" using H(2,4) False by simp
    note g1 = gate_cstep_ok [OF g c H(1)]
    have k1: "(cs(k \<mapsto> c1)) k = Some c1" by simp
    obtain b2 c2 where h2: "gate_check_closed sh c1 = (b2, c2)" by (rule prod.exhaust)
    note K = gate_check_closed_spec [OF g1 k1 h2]
    show ?thesis
    proof (cases b2)
      case True
      have "ae_pending ms c2 = ae_pending ms c" using ae_pending_cursor [OF K(2)] p1 by simp
      then show ?thesis
        using closed [of c1 c2] h False h2 True K(3) nil gate_cstep_trans [OF H(1) K(1)] by simp
    next
      case b2: False
      then have z: "gs_closed sh = 0" using K(3) at by simp
      have "gate_available_cached c1 = 0" using H(6) False by (simp add: gate_available_cached_def)
      then show ?thesis using idle [of c1] h False h2 b2 K(4) [OF z] H(1) p1 nil z by simp
    qed
  qed
qed

definition ae_pop_spec ::
  "u8 list list \<Rightarrow> ae_shared \<Rightarrow> gate_consumer \<Rightarrow> u8 list pop_result \<Rightarrow> ae_shared \<Rightarrow> gate_consumer \<Rightarrow> bool" where
  "ae_pop_spec ms sh c res sh' c' \<longleftrightarrow> gate_cstep sh c sh' c'
     \<and> (case res of
          Popped v \<Rightarrow> ae_pending ms c = v # ae_pending ms c'
        | Pop_empty \<Rightarrow> ae_pending ms c = [] \<and> ae_pending ms c' = [] \<and> gs_closed sh = 0
        | Pop_closed \<Rightarrow> ae_pending ms c = [] \<and> ae_pending ms c' = [] \<and> gs_closed sh \<noteq> 0
        | Pop_unwound \<Rightarrow> False)"

lemma ae_try_pop_ok:
  assumes ok: "ae_sound e ms sh p cs" and c: "cs k = Some c"
  shows "\<exists>res sh' c'. ae_try_pop (\<lambda>s. s) sh c = Inr (res, sh', c') \<and> ae_pop_spec ms sh c res sh' c'"
proof (rule ae_checks_ok [OF ok c])
  fix c1 assume h: "gate_has_item sh c = (True, c1)" and st: "gate_cstep sh c sh c1"
    and p: "ae_pending ms c1 = ae_pending ms c" and lt: "unat (gc_read_cursor c1) < unat (gc_write_cache c1)"
  obtain v sh' c' where R: "ae_read sh c1 = Inr (Popped v, sh', c')" "gate_cstep sh c sh' c'"
    "ae_pending ms c1 = v # ae_pending ms c'"
    by (rule ae_read_ok [OF ok c st lt]) blast
  then show ?thesis using h p by (simp add: ae_try_pop_def ae_pop_spec_def)
qed (simp_all add: ae_try_pop_def ae_pop_spec_def)

text \<open>A guard, with what its two uses do.\<close>

definition ae_ref_spec ::
  "u8 list list \<Rightarrow> ae_shared \<Rightarrow> gate_consumer \<Rightarrow> unit pop_result \<Rightarrow> gate_consumer \<Rightarrow> bool" where
  "ae_ref_spec ms sh c res c1 \<longleftrightarrow> gate_cstep sh c sh c1 \<and> ae_pending ms c1 = ae_pending ms c
     \<and> (case res of
          Popped _ \<Rightarrow> (\<exists>v. ae_deref sh c1 = Inr v \<and> (\<exists>rest. ae_pending ms c = v # rest
             \<and> (\<forall>sh' c'. ae_popref_drop sh c1 = (sh', c') \<longrightarrow>
                  gate_cstep sh c sh' c' \<and> ae_pending ms c' = rest)))
        | Pop_empty \<Rightarrow> ae_pending ms c = [] \<and> gs_closed sh = 0
        | Pop_closed \<Rightarrow> ae_pending ms c = [] \<and> gs_closed sh \<noteq> 0
        | Pop_unwound \<Rightarrow> False)"

lemma ae_try_pop_ref_ok:
  assumes ok: "ae_sound e ms sh p cs" and c: "cs k = Some c"
  shows "\<exists>res c1. ae_try_pop_ref (\<lambda>s. s) sh c = (res, sh, c1) \<and> ae_ref_spec ms sh c res c1"
proof (rule ae_checks_ok [OF ok c])
  fix c1 assume h: "gate_has_item sh c = (True, c1)" and st: "gate_cstep sh c sh c1"
    and p: "ae_pending ms c1 = ae_pending ms c" and lt: "unat (gc_read_cursor c1) < unat (gc_write_cache c1)"
  obtain v sh' c' where R: "ae_deref sh c1 = Inr v" "ae_advance_one sh c1 = (sh', c')"
    "gate_cstep sh c sh' c'" "ae_pending ms c1 = v # ae_pending ms c'"
    by (rule ae_read_ok [OF ok c st lt]) blast
  then show ?thesis using h st p by (simp add: ae_try_pop_ref_def ae_ref_spec_def ae_popref_drop_def)
qed (simp_all add: ae_try_pop_ref_def ae_ref_spec_def)

section \<open>Drain\<close>

lemma ae_drain_loop_ok:
  assumes ok: "ae_sound e ms sh p cs" and c: "cs k = Some c" and st: "gate_cstep sh c sh c1"
    and n: "unat (gc_read_cursor c1) + count \<le> unat (gc_write_cache c1)"
  shows "\<exists>vs c2. ae_drain_loop count unwinds i sh c1 = Inr (vs, c2) \<and> gate_cstep sh c sh c2
    \<and> ae_pending ms c1 = vs @ ae_pending ms c2 \<and> (0 < count \<longrightarrow> vs \<noteq> []) \<and> length vs \<le> count"
  using st n
proof (induction count arbitrary: c1 i)
  case (Suc count)
  let ?c2 = "c1\<lparr>gc_read_cursor := gc_read_cursor c1 + 1\<rparr>"
  have lt: "unat (gc_read_cursor c1) < unat (gc_write_cache c1)" using Suc.prems(2) by simp
  then have lt': "unat (gc_read_cursor c1) < length ms" using ae_cache_le [OF ok Suc.prems(1)] by simp
  note R = gate_read_step [OF ae_soundD(1) [OF ok] c Suc.prems(1), of 1]
  have st2: "gate_cstep sh c sh ?c2" and rd: "unat (gc_read_cursor ?c2) = Suc (unat (gc_read_cursor c1))"
    using R lt by simp_all
  note d = ae_deref_ok [OF ok c Suc.prems(1) lt'] and p = ae_pending_next [OF lt' rd]
  have n2: "unat (gc_read_cursor ?c2) + count \<le> unat (gc_write_cache ?c2)" using Suc.prems(2) rd by simp
  obtain vs c3 where I: "ae_drain_loop count unwinds (Suc i) sh ?c2 = Inr (vs, c3)" "gate_cstep sh c sh c3"
    "ae_pending ms ?c2 = vs @ ae_pending ms c3" "length vs \<le> count"
    using Suc.IH [OF st2 n2] by blast
  show ?case
    using I d p st2 by (cases "unwinds i") (simp_all add: Let_def)
qed simp

text \<open>A drain delivers a prefix of what is pending, at most one batch, and publishes its progress.\<close>

lemma ae_drain_ok:
  assumes ok: "ae_sound e ms sh p cs" and c: "cs k = Some c"
  shows "\<exists>vs sh' c'. ae_drain unwinds sh c = Inr (vs, sh', c') \<and> gate_cstep sh c sh' c'
    \<and> ae_pending ms c = vs @ ae_pending ms c' \<and> (ae_pending ms c \<noteq> [] \<longrightarrow> vs \<noteq> [])
    \<and> length vs \<le> unat (publish_batch_elems (gs_mask sh + 1))
    \<and> (vs \<noteq> [] \<longrightarrow> gc_published c' = gc_read_cursor c')"
proof -
  note S = ae_soundD [OF ok] and C = consumer_okD [OF gate_okD(3) [OF ae_soundD(1) [OF ok] c]]
  let ?w = "gs_write_cursor sh" and ?rd = "gc_read_cursor c" and ?b = "publish_batch_elems (gs_mask sh + 1)"
  define c1 where "c1 = c\<lparr>gc_write_cache := ?w\<rparr>"
  have st1: "gate_cstep sh c sh c1" unfolding c1_def by (rule gate_refresh_step [OF S(1) c])
  have p1: "ae_pending ms c1 = ae_pending ms c" by (rule ae_pending_cursor) (simp add: c1_def)
  have ref: "gate_refresh sh c = (?w, c1)" by (simp add: gate_refresh_def c1_def)
  show ?thesis
  proof (cases "?w = ?rd")
    case True
    then have "ae_pending ms c = []" using ae_pending_nil [OF ok c] by simp
    then show ?thesis using True st1 p1 ref by (simp add: ae_drain_def c1_def)
  next
    case False
    define count where "count = min (?w - ?rd) ?b"
    have le: "?rd \<le> ?w" using C(7,8) S(7) by (simp add: word_le_nat_alt)
    then have sub: "unat (?w - ?rd) = unat ?w - unat ?rd" by (rule unat_sub)
    have "unat count \<le> unat (?w - ?rd)" by (simp add: count_def unat_min)
    then have n: "unat (gc_read_cursor c1) + unat count \<le> unat (gc_write_cache c1)"
      using sub le by (simp add: c1_def word_le_nat_alt)
    have "0 < ?b"
      using publish_batch_bounds(1) [of MAX_PUBLISH_BATCH_ELEMS]
      by (simp add: publish_batch_elems_def MAX_PUBLISH_BATCH_ELEMS_def)
    moreover have "0 < ?w - ?rd" using False by (simp add: word_neq_0_conv [symmetric])
    ultimately have "0 < count" by (simp add: count_def)
    then have pos: "0 < unat count" by (simp add: word_less_nat_alt)
    obtain vs c2 where L: "ae_drain_loop (unat count) unwinds 0 sh c1 = Inr (vs, c2)" "gate_cstep sh c sh c2"
      "ae_pending ms c1 = vs @ ae_pending ms c2" "vs \<noteq> []" "length vs \<le> unat count"
      using ae_drain_loop_ok [OF ok c st1 n, of unwinds 0] pos by blast
    obtain sh' c' where f: "gate_flush_pending sh c2 = (sh', c')" by (rule prod.exhaust)
    note F = gate_flush_pending_step [OF S(1) c L(2) f]
    have "ae_drain unwinds sh c = Inr (vs, sh', c')"
      using False ref L(1) f C(1) by (simp add: ae_drain_def c1_def count_def Let_def)
    moreover have "unat count \<le> unat ?b" by (simp add: count_def unat_min)
    ultimately show ?thesis
      using F L(3-5) p1 ae_pending_cursor [OF F(2), of ms] by auto
  qed
qed

section \<open>Membership\<close>

lemma ae_subscribe_ok:
  assumes ok: "ae_sound e ms sh p cs" and k: "cs k = None" and s: "ae_subscribe_from sh = (Inr c, sh')"
  shows "ae_sound e ms sh' p (cs(k \<mapsto> c))" and "ae_pending ms c = []" and "ae_view sh' = ae_view sh"
proof -
  note G = gate_subscribe_ok [OF ae_soundD(1) [OF ok] k s [unfolded ae_subscribe_from_def]]
  show v: "ae_view sh' = ae_view sh" by (rule ae_view_cong) (rule G(6-9))+
  show "ae_sound e ms sh' p (cs(k \<mapsto> c))" by (rule ae_sound_gate [OF ok G(1) v])
  show "ae_pending ms c = []" using G(2) ae_soundD(2) [OF ok] by (simp add: ae_pending_def)
qed

lemma ae_leave_ok:
  assumes ok: "ae_sound e ms sh p cs" and c: "cs k = Some c"
  shows "ae_sound e ms (ae_anchor_drop sh c) p (cs(k := None))" and "ae_view (ae_anchor_drop sh c) = ae_view sh"
proof -
  note G = gate_consumer_drop_ok [OF ae_soundD(1) [OF ok] c, folded ae_gate]
  show v: "ae_view (ae_anchor_drop sh c) = ae_view sh" by (rule ae_view_cong) (rule G(2-5))+
  show "ae_sound e ms (ae_anchor_drop sh c) p (cs(k := None))" by (rule ae_sound_gate [OF ok G(1) v])
qed

section \<open>The gate\<close>

lemma ae_one: "2 \<le> capacity_of m \<Longrightarrow> 0 < (1 :: u64) \<and> unat (1 :: u64) < capacity_of m"
  by simp

lemma ae_has_space_ok:
  assumes ok: "ae_sound e ms sh p cs" and h: "gate_has_space 1 sh p = (free, p')"
  shows "ae_sound e ms sh p' cs" and "gp_next_seq p' = gp_next_seq p"
    and "free \<longleftrightarrow> \<not> gate_blocked p (capacity_of (gs_mask sh)) 1 cs"
    and "free \<Longrightarrow> Suc (cdist (gp_cached_min p') (gp_next_seq p')) \<le> capacity_of (gs_mask sh)"
proof -
  note S = ae_soundD [OF ok]
  have n: "0 < (1 :: u64)" "unat (1 :: u64) < capacity_of (gs_mask sh)" using ae_one [OF S(6)] by blast+
  note H = gate_has_space_ok [OF S(1) n h]
  show "ae_sound e ms sh p' cs" by (rule ae_sound_gate [OF ok H(1) refl])
  show "gp_next_seq p' = gp_next_seq p" by (rule H(2))
  show "free \<longleftrightarrow> \<not> gate_blocked p (capacity_of (gs_mask sh)) 1 cs"
    using gate_has_space_iff [OF S(1) n h] by simp
  show "free \<Longrightarrow> Suc (cdist (gp_cached_min p') (gp_next_seq p')) \<le> capacity_of (gs_mask sh)"
    using H(2,4) by simp
qed

end
