(* ===== verification/Anchored_Runs.thy ===== *)
theory Anchored_Runs
  imports Anchored_Invariant
begin

text \<open>
  Whole runs of a composed element ring. A run keeps, beside the handles, the values
  published so far and every atomic store issued, in order. For the anchors it is an
  instance of the multicast contract; for the observers it is abstracted to a run of
  the lossy ring of \<open>Broadcast\<close> (\<open>ae_lossy\<close>) that pushes the same values: behind the
  gate the producer issues exactly the stores of a lossy producer, so every fact about
  the readers of a lossy ring carries over.
\<close>

section \<open>Runs\<close>

record ae_ring =
  ae_sh :: ae_shared
  ae_p :: gate_producer
  ae_cs :: "nat \<Rightarrow> gate_consumer option"
  ae_next :: nat
  ae_esize :: nat
  ae_start :: bcast_shared
  ae_log :: "u8 list list"
  ae_hist :: "bc_store list"

text \<open>Both constructors: an explicit slack, or the default one.\<close>

definition ae_new :: "nat \<Rightarrow> usize \<Rightarrow> usize option \<Rightarrow> fault + ae_ring" where
  "ae_new esize min_capacity slack =
     map_sum id (\<lambda>(sh, p, c). \<lparr>ae_sh = sh, ae_p = p, ae_cs = Map.empty(0 \<mapsto> c), ae_next = 1,
         ae_esize = esize, ae_start = ae_view sh, ae_log = [], ae_hist = []\<rparr>)
       (case slack of
          None \<Rightarrow> ae_with_wait_strategies esize min_capacity
        | Some s \<Rightarrow> ae_with_slack esize min_capacity s)"

datatype ae_op =
    Ae_push "u8 list"
  | Ae_claim "u8 list" bool
  | Ae_subscribe
  | Ae_pop nat
  | Ae_pop_ref nat bool
  | Ae_drain nat "nat \<Rightarrow> bool"
  | Ae_leave nat
  | Ae_close

text \<open>
  One call on a ring. A call on a handle that no longer exists is \<open>Quiet\<close>, and so is a
  byte list that is no value of the element type. A claim is committed or abandoned, a
  guard read and then dropped, or forgotten.
\<close>

fun ae_exec :: "ae_op \<Rightarrow> ae_ring \<Rightarrow> fault + u8 list mc_event \<times> ae_ring" where
  "ae_exec (Ae_push x) r =
     (if gs_closed (ae_sh r) \<noteq> 0 \<or> length x \<noteq> ae_esize r then Inr (Quiet, r)
      else (case ae_try_push x (ae_sh r) (ae_p r) of
              (Pushed, sts, sh, p) \<Rightarrow>
                Inr (Published x, r\<lparr>ae_sh := sh, ae_p := p, ae_log := ae_log r @ [x], ae_hist := ae_hist r @ sts\<rparr>)
            | (_, sts, sh, p) \<Rightarrow> Inr (Quiet, r\<lparr>ae_sh := sh, ae_p := p, ae_hist := ae_hist r @ sts\<rparr>)))"
| "ae_exec (Ae_claim x keep) r =
     (if gs_closed (ae_sh r) \<noteq> 0 \<or> length x \<noteq> ae_esize r then Inr (Quiet, r)
      else (case ae_try_claim (ae_sh r) (ae_p r) of
              (claimed, p) \<Rightarrow>
                (if claimed \<and> keep
                 then (case ae_commit x (ae_sh r) p of
                         (sts, sh2, p2) \<Rightarrow>
                           Inr (Published x, r\<lparr>ae_sh := sh2, ae_p := p2, ae_log := ae_log r @ [x],
                                               ae_hist := ae_hist r @ sts\<rparr>))
                 else Inr (Quiet, r\<lparr>ae_p := p\<rparr>))))"
| "ae_exec Ae_subscribe r =
     (case ae_subscribe_from (ae_sh r) of
        (Inl e, sh) \<Rightarrow> Inr (Quiet, r)
      | (Inr c, sh) \<Rightarrow>
          Inr (Joined (ae_next r),
               r\<lparr>ae_sh := sh, ae_cs := (ae_cs r)(ae_next r \<mapsto> c), ae_next := Suc (ae_next r)\<rparr>))"
| "ae_exec (Ae_pop k) r =
     (case ae_cs r k of
        None \<Rightarrow> Inr (Quiet, r)
      | Some c \<Rightarrow>
          (case ae_try_pop (\<lambda>s. s) (ae_sh r) c of
             Inl f \<Rightarrow> Inl f
           | Inr (res, sh, c1) \<Rightarrow>
               Inr (case res of Popped v \<Rightarrow> Received k [v] | Pop_closed \<Rightarrow> Closed_seen k | _ \<Rightarrow> Empty k,
                    r\<lparr>ae_sh := sh, ae_cs := (ae_cs r)(k \<mapsto> c1)\<rparr>)))"
| "ae_exec (Ae_pop_ref k keep) r =
     (case ae_cs r k of
        None \<Rightarrow> Inr (Quiet, r)
      | Some c \<Rightarrow>
          (case ae_try_pop_ref (\<lambda>s. s) (ae_sh r) c of
             (Popped _, sh, c1) \<Rightarrow>
               (case ae_deref sh c1 of
                  Inl f \<Rightarrow> Inl f
                | Inr v \<Rightarrow>
                    (if keep then Inr (Quiet, r\<lparr>ae_sh := sh, ae_cs := (ae_cs r)(k \<mapsto> c1)\<rparr>)
                     else (case ae_popref_drop sh c1 of
                             (sh2, c2) \<Rightarrow>
                               Inr (Received k [v], r\<lparr>ae_sh := sh2, ae_cs := (ae_cs r)(k \<mapsto> c2)\<rparr>))))
           | (res, sh, c1) \<Rightarrow>
               Inr (if res = Pop_closed then Closed_seen k else Empty k,
                    r\<lparr>ae_sh := sh, ae_cs := (ae_cs r)(k \<mapsto> c1)\<rparr>)))"
| "ae_exec (Ae_drain k unwinds) r =
     (case ae_cs r k of
        None \<Rightarrow> Inr (Quiet, r)
      | Some c \<Rightarrow>
          map_sum id (\<lambda>(xs, sh, c'). (Received k xs, r\<lparr>ae_sh := sh, ae_cs := (ae_cs r)(k \<mapsto> c')\<rparr>))
            (ae_drain unwinds (ae_sh r) c))"
| "ae_exec (Ae_leave k) r =
     (case ae_cs r k of
        None \<Rightarrow> Inr (Quiet, r)
      | Some c \<Rightarrow>
          Inr (Left k, r\<lparr>ae_sh := ae_anchor_drop (ae_sh r) c, ae_cs := (ae_cs r)(k := None)\<rparr>))"
| "ae_exec Ae_close r =
     (if gs_closed (ae_sh r) \<noteq> 0 then Inr (Quiet, r)
      else (case ae_producer_drop (ae_sh r) of
              (sts, sh) \<Rightarrow> Inr (Shut, r\<lparr>ae_sh := sh, ae_hist := ae_hist r @ sts\<rparr>)))"

definition ae_mask :: "ae_ring \<Rightarrow> u64" where
  "ae_mask r = bs_mask (ae_start r)"

definition ae_queues :: "ae_ring \<Rightarrow> nat \<Rightarrow> u8 list list option" where
  "ae_queues r k = map_option (ae_pending (ae_log r)) (ae_cs r k)"

text \<open>The memory that an observer may load from after \<open>t\<close> of the stores so far.\<close>

definition ae_memory :: "ae_ring \<Rightarrow> nat \<Rightarrow> bcast_shared" where
  "ae_memory r t = bc_memory (ae_start r) (ae_hist r) t"

text \<open>The lossy run that an observer cannot tell apart from this one.\<close>

definition ae_lossy :: "ae_ring \<Rightarrow> bcast_run" where
  "ae_lossy r = \<lparr>br_mask = ae_mask r, br_slack = bs_slack (ae_start r), br_esize = ae_esize r,
     br_calls = map Call_push (ae_log r) @ (if gs_closed (ae_sh r) = 0 then [] else [Call_drop])\<rparr>"

section \<open>Lossy pushes\<close>

lemma apply_geometry:
  "bs_mask (fold bc_apply sts sh) = bs_mask sh" "bs_slack (fold bc_apply sts sh) = bs_slack sh"
proof -
  have one: "bs_mask (bc_apply s x) = bs_mask x \<and> bs_slack (bc_apply s x) = bs_slack x" for s x
    by (cases s) simp_all
  have "bs_mask (fold bc_apply sts sh) = bs_mask sh \<and> bs_slack (fold bc_apply sts sh) = bs_slack sh"
    by (induction sts arbitrary: sh) (simp_all add: one)
  then show "bs_mask (fold bc_apply sts sh) = bs_mask sh" "bs_slack (fold bc_apply sts sh) = bs_slack sh"
    by blast+
qed

text \<open>The stores of one push that publishes at once.\<close>

definition push_stores :: "u64 \<Rightarrow> u64 \<Rightarrow> u8 list \<Rightarrow> bc_store list" where
  "push_stores m s v = St_seq (slot_ix m s) (2 * s + 1) # write_payload (slot_ix m s) v
     @ [St_seq (slot_ix m s) (2 * s + 2), St_tail (s + 1)]"

lemma bc_push_single:
  assumes "bp_tail_batch p = 1" and "bp_unpublished p = 0"
  shows "bc_push v p = (push_stores (bp_mask p) (bp_next_seq p) v, p\<lparr>bp_next_seq := bp_next_seq p + 1\<rparr>)"
  using assms by (cases p) (simp add: bc_push_def bc_publish_tail_def bp_slot_def push_stores_def Let_def)

lemma program_pushes:
  assumes "bp_tail_batch p = 1" and "bp_unpublished p = 0"
  shows "bc_program (map Call_push vs @ calls) p = bc_program (map Call_push vs) p
    @ bc_program calls (p\<lparr>bp_next_seq := bp_next_seq p + of_nat (length vs)\<rparr>)"
  using assms
proof (induction vs arbitrary: p)
  case (Cons v vs)
  then show ?case
    using Cons.IH [of "p\<lparr>bp_next_seq := bp_next_seq p + 1\<rparr>"]
    by (simp add: bc_push_single add.assoc)
qed simp

lemma pushed_all: "bc_pushed (map Call_push vs @ calls) = vs @ bc_pushed calls"
  by (induction vs) simp_all

text \<open>A ring of values of \<open>e\<close> bytes before anything was pushed.\<close>

definition fresh_ring :: "u64 \<Rightarrow> u64 \<Rightarrow> nat \<Rightarrow> bcast_shared" where
  "fresh_ring m sl e = \<lparr>bs_slots = replicate (capacity_of m) \<lparr>sl_seq = 0, sl_data = replicate e None\<rparr>,
     bs_mask = m, bs_slack = sl, bs_tail = 0, bs_closed = 0\<rparr>"

lemma br_handles_fresh:
  assumes "0 < br_esize b"
  shows "fst (br_handles b) = fresh_ring (br_mask b) (br_slack b) (br_esize b)"
    and "fst (snd (br_handles b)) = \<lparr>bp_mask = br_mask b, bp_slack = br_slack b, bp_next_seq = 0,
      bp_tail_batch = 1, bp_unpublished = 0\<rparr>"
  unfolding br_handles_def bc_build_def fresh_ring_def Let_def if_not_P [OF not_sym [OF less_imp_neq [OF assms]]]
    add_diff_cancel_right' capacity_of_def by (simp_all only: sum.sel fst_conv snd_conv bcast_shared.simps)

text \<open>What a lossy run of pushes stores, push by push and at the close.\<close>

lemma br_stores_snoc:
  assumes e: "0 < br_esize b" and c: "br_calls b = map Call_push vs"
  shows "br_stores (b\<lparr>br_calls := map Call_push (vs @ [v])\<rparr>)
      = br_stores b @ push_stores (br_mask b) (of_nat (length vs)) v"
    and "br_stores (b\<lparr>br_calls := map Call_push vs @ [Call_drop]\<rparr>) = br_stores b @ [St_closed 1]"
proof -
  define p where "p = fst (snd (br_handles b))"
  have p: "bp_tail_batch p = 1" "bp_unpublished p = 0" "bp_mask p = br_mask b" "bp_next_seq p = 0"
    unfolding p_def br_handles_fresh(2) [OF e] by simp_all
  have h: "br_handles (b\<lparr>br_calls := calls\<rparr>) = br_handles b" for calls by (simp add: br_handles_def)
  note P = program_pushes [OF p(1,2), of vs]
  show "br_stores (b\<lparr>br_calls := map Call_push (vs @ [v])\<rparr>)
      = br_stores b @ push_stores (br_mask b) (of_nat (length vs)) v"
    using P [of "[Call_push v]"] p by (simp add: br_stores_def h c p_def [symmetric] bc_push_single)
  show "br_stores (b\<lparr>br_calls := map Call_push vs @ [Call_drop]\<rparr>) = br_stores b @ [St_closed 1]"
    using P [of "[Call_drop]"] p by (simp add: br_stores_def h c p_def [symmetric] bc_producer_drop_def bc_flush_def)
qed

text \<open>Once everything is published no write is in progress.\<close>

lemma br_settled:
  assumes "br_ok b" and "unat (bs_tail (br_memory b t)) = length (br_messages b)"
  shows "ring_at (br_mask b) (br_slack b) (br_esize b) (br_messages b) (length (br_messages b)) False (br_memory b t)"
proof -
  obtain n w where R: "ring_at (br_mask b) (br_slack b) (br_esize b) (br_messages b) n w (br_memory b t)"
    using br_instant [OF assms(1)] by blast
  then have "n = length (br_messages b)" "\<not> w"
    using ring_atD(5,6) [OF R] assms(2) by (cases w; simp)+
  then show ?thesis using R by simp
qed

section \<open>The invariant of a run\<close>

text \<open>The state is sound and \<open>n\<close> more values stay within the range of the cursors.\<close>

definition ae_inv :: "nat \<Rightarrow> ae_ring \<Rightarrow> bool" where
  "ae_inv n r \<longleftrightarrow> ae_sound (ae_esize r) (ae_log r) (ae_sh r) (ae_p r) (ae_cs r)
     \<and> (\<forall>k. ae_next r \<le> k \<longrightarrow> ae_cs r k = None)
     \<and> br_ok (ae_lossy r) \<and> ae_start r = fst (br_handles (ae_lossy r)) \<and> ae_hist r = br_stores (ae_lossy r)
     \<and> ae_view (ae_sh r) = fold bc_apply (ae_hist r) (ae_start r)
     \<and> length (ae_log r) + n < seq_span \<and> length (ae_log r) + n + 2 * capacity_of (ae_mask r) < word_span"

lemma ae_invD:
  assumes "ae_inv n r"
  shows "ae_sound (ae_esize r) (ae_log r) (ae_sh r) (ae_p r) (ae_cs r)" and "ae_next r \<le> k \<Longrightarrow> ae_cs r k = None"
    and "br_ok (ae_lossy r)" and "ae_start r = fst (br_handles (ae_lossy r))"
    and "ae_hist r = br_stores (ae_lossy r)" and "ae_view (ae_sh r) = fold bc_apply (ae_hist r) (ae_start r)"
    and "length (ae_log r) + n < seq_span" and "length (ae_log r) + n + 2 * capacity_of (ae_mask r) < word_span"
    and "gs_mask (ae_sh r) = ae_mask r"
proof -
  have v: "ae_view (ae_sh r) = fold bc_apply (ae_hist r) (ae_start r)" using assms by (simp add: ae_inv_def)
  show "gs_mask (ae_sh r) = ae_mask r"
    using arg_cong [OF v, of bs_mask] by (simp add: apply_geometry ae_mask_def)
qed (use assms in \<open>auto simp: ae_inv_def\<close>)

lemma ae_lossy_messages: "br_messages (ae_lossy r) = ae_log r"
  by (simp add: br_messages_def ae_lossy_def pushed_all)

lemma ae_lossy_sel:
  "br_mask (ae_lossy r) = ae_mask r" "br_slack (ae_lossy r) = bs_slack (ae_start r)"
  "br_esize (ae_lossy r) = ae_esize r"
  by (simp_all add: ae_lossy_def)

lemma ae_lossy_open: "gs_closed (ae_sh r) = 0 \<Longrightarrow> br_calls (ae_lossy r) = map Call_push (ae_log r)"
  by (simp add: ae_lossy_def)

text \<open>The observers' memory is that of the lossy run.\<close>

lemma ae_memory_lossy: "ae_inv n r \<Longrightarrow> ae_memory r t = br_memory (ae_lossy r) t"
  using ae_invD(4,5) by (simp add: ae_memory_def br_memory_def)

definition ae_exec_spec :: "nat \<Rightarrow> u8 list mc_event \<Rightarrow> ae_ring \<Rightarrow> ae_ring \<Rightarrow> bool" where
  "ae_exec_spec n ev r r' \<longleftrightarrow> ae_inv n r' \<and> mc_spec ev (ae_queues r) (ae_queues r')
     \<and> ae_start r' = ae_start r \<and> ae_esize r' = ae_esize r \<and> ae_log r' = ae_log r @ mc_published [ev]
     \<and> (\<forall>k. ev = Joined k \<longrightarrow> k = ae_next r)
     \<and> ae_next r' = (case ev of Joined k \<Rightarrow> Suc k | _ \<Rightarrow> ae_next r)"

lemma ae_exec_quiet: "ae_inv (Suc n) r \<Longrightarrow> ae_exec_spec n Quiet r r"
  by (auto simp: ae_exec_spec_def ae_inv_def)

text \<open>A step that the observers do not see keeps the run.\<close>

lemma ae_inv_unseen:
  assumes inv: "ae_inv (Suc n) r" and ok: "ae_sound (ae_esize r) (ae_log r) sh' p' cs'"
    and v: "ae_view sh' = ae_view (ae_sh r)" and k: "\<And>k. next' \<le> k \<Longrightarrow> cs' k = None"
  shows "ae_inv n (r\<lparr>ae_sh := sh', ae_p := p', ae_cs := cs', ae_next := next'\<rparr>)" (is "ae_inv n ?r")
proof -
  note I = ae_invD [OF inv]
  have "gs_closed sh' = gs_closed (ae_sh r)" using arg_cong [OF v, of bs_closed] by simp
  then have "ae_lossy ?r = ae_lossy r" by (simp add: ae_lossy_def ae_mask_def)
  then show ?thesis using ok v k I(3-8) by (simp add: ae_inv_def ae_mask_def)
qed

section \<open>The producer's steps\<close>

lemma ae_write_eq:
  assumes "ae_write v sh p = (sts, sh', p')" and "gp_mask p = gs_mask sh"
  shows "sts = push_stores (gs_mask sh) (gp_next_seq p) v" and "p' = p\<lparr>gp_next_seq := gp_next_seq p + 1\<rparr>"
    and "ae_view sh' = fold bc_apply sts (ae_view sh)" and "gs_registry sh' = gs_registry sh"
proof -
  define ws where "ws = push_stores (gs_mask sh) (gp_next_seq p) v"
  have e: "sts = ws" "p' = p\<lparr>gp_next_seq := gp_next_seq p + 1\<rparr>"
    "sh' = (fold ae_apply ws sh)\<lparr>gs_consumer_notified := Suc (gs_consumer_notified (fold ae_apply ws sh))\<rparr>"
    using assms unfolding ws_def by (auto simp: ae_write_def ae_slot_def push_stores_def Let_def)
  show "sts = push_stores (gs_mask sh) (gp_next_seq p) v" "p' = p\<lparr>gp_next_seq := gp_next_seq p + 1\<rparr>"
    using e(1,2) ws_def by simp_all
  show "ae_view sh' = fold bc_apply sts (ae_view sh)"
    unfolding e(1,3) ae_view_fold [symmetric] by (simp add: ae_view_def)
  show "gs_registry sh' = gs_registry sh" unfolding e(3) by (simp add: ae_fold_registry)
qed

lemma payload_words:
  "bs_tail (fold bc_apply (write_payload i v) sh) = bs_tail sh"
  "bs_closed (fold bc_apply (write_payload i v) sh) = bs_closed sh"
proof -
  have "bs_tail (fold bc_apply (map (\<lambda>(off, bs). St_data i off bs) ds) sh) = bs_tail sh
    \<and> bs_closed (fold bc_apply (map (\<lambda>(off, bs). St_data i off bs) ds) sh) = bs_closed sh" for ds
    by (induction ds arbitrary: sh) auto
  then show "bs_tail (fold bc_apply (write_payload i v) sh) = bs_tail sh"
    "bs_closed (fold bc_apply (write_payload i v) sh) = bs_closed sh"
    by (simp_all add: write_payload_def)
qed

lemma push_words:
  "bs_tail (fold bc_apply (push_stores m s v) sh) = s + 1"
  "bs_closed (fold bc_apply (push_stores m s v) sh) = bs_closed sh"
  by (simp_all add: push_stores_def payload_words)

lemma ae_published:
  assumes inv: "ae_inv (Suc n) r" and op: "gs_closed (ae_sh r) = 0" and len: "length v = ae_esize r"
    and ok: "ae_sound (ae_esize r) (ae_log r) (ae_sh r) p (ae_cs r)"
    and fit: "Suc (cdist (gp_cached_min p) (gp_next_seq p)) \<le> capacity_of (gs_mask (ae_sh r))"
    and w: "ae_write v (ae_sh r) p = (sts, sh', p')"
  shows "ae_exec_spec n (Published v) r
    (r\<lparr>ae_sh := sh', ae_p := p', ae_log := ae_log r @ [v], ae_hist := ae_hist r @ sts\<rparr>)"
proof -
  let ?sh = "ae_sh r" and ?ms = "ae_log r" and ?nx = "gp_next_seq p"
  define r' where "r' = r\<lparr>ae_sh := sh', ae_p := p', ae_log := ae_log r @ [v], ae_hist := ae_hist r @ sts\<rparr>"
  define b where "b = ae_lossy r"
  note I = ae_invD [OF inv] and S = ae_soundD [OF ok]
  note W = ae_write_eq [OF w S(5)]
  have e: "0 < ae_esize r" using I(3) by (simp add: br_ok_def ae_lossy_sel)
  have nx: "unat ?nx = length ?ms" using S(2,7) by simp
  have nxw: "?nx = of_nat (length ?ms)" using nx by (metis of_nat_unat ucast_id)
  have geo: "gs_mask sh' = gs_mask ?sh" "ae_slack sh' = ae_slack ?sh" "gs_closed sh' = 0"
    "gs_write_cursor sh' = ?nx + 1"
    using arg_cong [OF W(3), of bs_mask] arg_cong [OF W(3), of bs_slack] arg_cong [OF W(3), of bs_closed]
      arg_cong [OF W(3), of bs_tail] op by (simp_all add: apply_geometry W(1) push_words)
  have lossy: "ae_lossy r' = b\<lparr>br_calls := map Call_push (?ms @ [v])\<rparr>"
    using op geo(3) by (simp add: r'_def b_def ae_lossy_def ae_mask_def)
  have hist: "ae_hist r' = br_stores (ae_lossy r')"
    using br_stores_snoc(1) [of b ?ms v] e ae_lossy_open [OF op] I(5,9) W(1) nxw
    unfolding lossy by (simp add: r'_def b_def ae_lossy_sel)
  have start: "ae_start r' = fst (br_handles (ae_lossy r'))"
    using I(4) unfolding lossy by (simp add: r'_def b_def br_handles_def)
  have bok: "br_ok (ae_lossy r')"
    using I(3,7) len pushed_all [of "?ms @ [v]" "[]"] ae_lossy_messages [of r, unfolded br_messages_def]
    unfolding lossy b_def by (simp add: br_ok_def ae_lossy_sel del: map_append)
  have view: "ae_view sh' = fold bc_apply (ae_hist r') (ae_start r')"
    using W(3) I(6) by (simp add: r'_def)
  have tail: "unat (gs_write_cursor sh') = Suc (length ?ms)"
    using unat_add_span [of ?nx 1] nx I(8) geo(4) by simp
  have mem: "br_memory (ae_lossy r') (length (ae_hist r')) = ae_view sh'"
    using view start hist by (simp add: br_memory_def bc_memory_def)
  have "ring_at (gs_mask sh') (ae_slack sh') (ae_esize r) (?ms @ [v]) (length (?ms @ [v])) False (ae_view sh')"
  proof -
    have msgs: "br_messages (ae_lossy r') = ?ms @ [v]" by (simp add: ae_lossy_messages r'_def)
    have sl: "ae_slack sh' = bs_slack (ae_start r)"
      using arg_cong [OF view, of bs_slack] by (simp add: apply_geometry r'_def)
    show ?thesis
      using br_settled [OF bok, of "length (ae_hist r')"] tail geo(1) I(9) sl
      unfolding mem msgs by (simp add: ae_lossy_sel r'_def ae_mask_def)
  qed
  moreover have "gate_ok sh' p' (ae_cs r)"
  proof -
    obtain shg pg where g: "gate_publish 1 ?sh p = (shg, pg)" by (rule prod.exhaust)
    have "gate_ok shg pg (ae_cs r)"
      by (rule gate_publish_ok(1) [OF S(1) _ _ g]) (use fit nx I(8,9) in simp_all)
    then show ?thesis
      by (rule gate_ok_cong) (use g W(2,4) geo in \<open>auto simp: gate_publish_def Let_def\<close>)
  qed
  ultimately have ok': "ae_sound (ae_esize r) (?ms @ [v]) sh' p' (ae_cs r)"
    using tail by (intro ae_soundI) simp_all
  have "ae_inv n r'"
    unfolding ae_inv_def using ok' I(2,7,8) bok start hist view by (simp add: r'_def ae_mask_def)
  moreover have "ae_queues r' k = map_option (\<lambda>xs. xs @ [v]) (ae_queues r k)" for k
    using ae_read_le [OF I(1), of k] by (cases "ae_cs r k") (simp_all add: ae_queues_def r'_def ae_pending_def)
  then have "ae_queues r' = (\<lambda>k. map_option (\<lambda>xs. xs @ [v]) (ae_queues r k))" by (rule ext)
  ultimately show ?thesis unfolding r'_def [symmetric] by (simp add: ae_exec_spec_def) (simp add: r'_def)
qed

lemma ae_unpublished:
  assumes inv: "ae_inv (Suc n) r" and ok: "ae_sound (ae_esize r) (ae_log r) (ae_sh r) p (ae_cs r)"
  shows "ae_exec_spec n Quiet r (r\<lparr>ae_p := p\<rparr>)"
proof -
  have "ae_inv n (r\<lparr>ae_sh := ae_sh r, ae_p := p, ae_cs := ae_cs r, ae_next := ae_next r\<rparr>)"
    by (rule ae_inv_unseen [OF inv ok refl ae_invD(2) [OF inv]])
  then show ?thesis by (simp add: ae_exec_spec_def ae_queues_def fun_eq_iff)
qed

lemma ae_exec_push:
  assumes inv: "ae_inv (Suc n) r"
  shows "\<exists>ev r'. ae_exec (Ae_push x) r = Inr (ev, r') \<and> ae_exec_spec n ev r r'"
proof (cases "gs_closed (ae_sh r) \<noteq> 0 \<or> length x \<noteq> ae_esize r")
  case True
  then show ?thesis using ae_exec_quiet [OF inv] by auto
next
  case False
  obtain free p where h: "gate_has_space 1 (ae_sh r) (ae_p r) = (free, p)" by (rule prod.exhaust)
  note H = ae_has_space_ok [OF ae_invD(1) [OF inv] h]
  obtain sts sh' p' where w: "ae_write x (ae_sh r) p = (sts, sh', p')" by (rule prod_cases3)
  show ?thesis
    using False h w ae_published [OF inv _ _ H(1) _ w] H(4) ae_unpublished [OF inv H(1)]
    by (cases free) (simp_all add: ae_try_push_def)
qed

lemma ae_exec_claim:
  assumes inv: "ae_inv (Suc n) r"
  shows "\<exists>ev r'. ae_exec (Ae_claim x keep) r = Inr (ev, r') \<and> ae_exec_spec n ev r r'"
proof (cases "gs_closed (ae_sh r) \<noteq> 0 \<or> length x \<noteq> ae_esize r")
  case True
  then show ?thesis using ae_exec_quiet [OF inv] by auto
next
  case False
  obtain free p where h: "gate_has_space 1 (ae_sh r) (ae_p r) = (free, p)" by (rule prod.exhaust)
  note H = ae_has_space_ok [OF ae_invD(1) [OF inv] h]
  obtain sts sh' p' where w: "ae_write x (ae_sh r) p = (sts, sh', p')" by (rule prod_cases3)
  show ?thesis
    using False h w ae_published [OF inv _ _ H(1) _ w] H(4) ae_unpublished [OF inv H(1)]
    by (cases "free \<and> keep") (auto simp: ae_try_claim_def ae_commit_def)
qed

lemma ae_exec_close:
  assumes inv: "ae_inv (Suc n) r"
  shows "\<exists>ev r'. ae_exec Ae_close r = Inr (ev, r') \<and> ae_exec_spec n ev r r'"
proof (cases "gs_closed (ae_sh r) = 0")
  case False
  then show ?thesis using ae_exec_quiet [OF inv] by simp
next
  case op: True
  note I = ae_invD [OF inv] and S = ae_soundD [OF ae_invD(1) [OF inv]]
  define sh' where "sh' = (ae_sh r)\<lparr>gs_closed := 1, gs_consumer_notified := Suc (gs_consumer_notified (ae_sh r))\<rparr>"
  define r' where "r' = r\<lparr>ae_sh := sh', ae_hist := ae_hist r @ [St_closed 1]\<rparr>"
  define b where "b = ae_lossy r"
  have run: "ae_exec Ae_close r = Inr (Shut, r')"
    using op by (simp add: ae_producer_drop_def Let_def sh'_def r'_def)
  have e: "0 < ae_esize r" using I(3) by (simp add: br_ok_def ae_lossy_sel)
  have view: "ae_view sh' = bc_apply (St_closed 1) (ae_view (ae_sh r))" by (simp add: sh'_def ae_view_def)
  have lossy: "ae_lossy r' = b\<lparr>br_calls := map Call_push (ae_log r) @ [Call_drop]\<rparr>"
    by (simp add: r'_def b_def ae_lossy_def ae_mask_def sh'_def)
  have "ae_sound (ae_esize r) (ae_log r) sh' (ae_p r) (ae_cs r)"
  proof (rule ae_soundI)
    show "gate_ok sh' (ae_p r) (ae_cs r)" by (rule gate_ok_cong [OF S(1)]) (simp_all add: sh'_def)
    show "unat (gs_write_cursor sh') = length (ae_log r)" using S(2) by (simp add: sh'_def)
    show "ring_at (gs_mask sh') (ae_slack sh') (ae_esize r) (ae_log r) (length (ae_log r)) False (ae_view sh')"
      using ring_shut [OF S(3)] S(2) unfolding view by (simp add: sh'_def)
  qed
  moreover have "br_ok (ae_lossy r')"
    using I(3) op pushed_all [of "ae_log r" "[]"] unfolding lossy b_def
    by (simp add: br_ok_def ae_lossy_def pushed_all)
  moreover have "ae_hist r' = br_stores (ae_lossy r')"
    using br_stores_snoc(2) [of b "ae_log r"] e ae_lossy_open [OF op] I(5)
    unfolding lossy by (simp add: r'_def b_def ae_lossy_sel)
  moreover have "ae_start r' = fst (br_handles (ae_lossy r'))"
    using I(4) unfolding lossy by (simp add: r'_def b_def br_handles_def)
  moreover have "ae_view sh' = fold bc_apply (ae_hist r') (ae_start r')"
    using I(6) view by (simp add: r'_def)
  ultimately have "ae_inv n r'" using I(2,7,8) by (simp add: ae_inv_def r'_def ae_mask_def)
  moreover have "ae_queues r' = ae_queues r" by (simp add: ae_queues_def r'_def fun_eq_iff)
  ultimately have "ae_exec_spec n Shut r r'" by (simp add: ae_exec_spec_def) (simp add: r'_def)
  then show ?thesis using run by blast
qed

section \<open>The anchors' steps\<close>

text \<open>A step of anchor \<open>k\<close> that receives \<open>vs\<close>.\<close>

lemma ae_exec_consumer:
  assumes inv: "ae_inv (Suc n) r" and c: "ae_cs r k = Some c" and st: "gate_cstep (ae_sh r) c sh' c'"
    and q: "ae_pending (ae_log r) c = vs @ ae_pending (ae_log r) c'"
    and ev: "ev = Received k vs \<or> vs = [] \<and> (ev = Quiet
      \<or> ae_pending (ae_log r) c = [] \<and> ev \<in> {Empty k, Closed_seen k})"
  shows "ae_exec_spec n ev r (r\<lparr>ae_sh := sh', ae_cs := (ae_cs r)(k \<mapsto> c')\<rparr>)"
proof -
  let ?r' = "r\<lparr>ae_sh := sh', ae_cs := (ae_cs r)(k \<mapsto> c')\<rparr>"
  note I = ae_invD [OF inv]
  have k: "k < ae_next r" using I(2) [of k] c by (metis not_le option.distinct(1))
  have "ae_inv n (r\<lparr>ae_sh := sh', ae_p := ae_p r, ae_cs := (ae_cs r)(k \<mapsto> c'), ae_next := ae_next r\<rparr>)"
    by (rule ae_inv_unseen [OF inv ae_cstep_ok [OF I(1) c st] ae_cstep_view [OF st]]) (use I(2) k in simp)
  then have "ae_inv n ?r'" by simp
  moreover have qs: "ae_queues ?r' = (ae_queues r)(k \<mapsto> ae_pending (ae_log r) c')"
    by (rule ext) (simp add: ae_queues_def)
  have qk: "ae_queues r k = Some (vs @ ae_pending (ae_log r) c')" using c q by (simp add: ae_queues_def)
  have "mc_spec ev (ae_queues r) (ae_queues ?r')"
    using ev qk q unfolding qs by (auto simp: fun_upd_idem)
  ultimately show ?thesis using ev by (auto simp: ae_exec_spec_def)
qed

lemma ae_exec_pop:
  assumes inv: "ae_inv (Suc n) r"
  shows "\<exists>ev r'. ae_exec (Ae_pop k) r = Inr (ev, r') \<and> ae_exec_spec n ev r r'"
proof (cases "ae_cs r k")
  case None
  then show ?thesis using ae_exec_quiet [OF inv] by simp
next
  case (Some c)
  obtain res sh' c' where T: "ae_try_pop (\<lambda>s. s) (ae_sh r) c = Inr (res, sh', c')"
    "ae_pop_spec (ae_log r) (ae_sh r) c res sh' c'"
    using ae_try_pop_ok [OF ae_invD(1) [OF inv] Some] by blast
  then have st: "gate_cstep (ae_sh r) c sh' c'" by (simp add: ae_pop_spec_def)
  note E = ae_exec_consumer [OF inv Some st]
  show ?thesis
  proof (cases res)
    case (Popped v)
    have "ae_exec_spec n (Received k [v]) r (r\<lparr>ae_sh := sh', ae_cs := (ae_cs r)(k \<mapsto> c')\<rparr>)"
      by (rule E [of "[v]"]) (use T(2) Popped in \<open>simp_all add: ae_pop_spec_def\<close>)
    then show ?thesis using T(1) Popped Some by simp
  qed (use T E [of "[]"] Some in \<open>simp_all add: ae_pop_spec_def\<close>)
qed

lemma ae_exec_pop_ref:
  assumes inv: "ae_inv (Suc n) r"
  shows "\<exists>ev r'. ae_exec (Ae_pop_ref k keep) r = Inr (ev, r') \<and> ae_exec_spec n ev r r'"
proof (cases "ae_cs r k")
  case None
  then show ?thesis using ae_exec_quiet [OF inv] by simp
next
  case (Some c)
  let ?sh = "ae_sh r" and ?ms = "ae_log r"
  obtain res c1 where T: "ae_try_pop_ref (\<lambda>s. s) ?sh c = (res, ?sh, c1)" "ae_ref_spec ?ms ?sh c res c1"
    using ae_try_pop_ref_ok [OF ae_invD(1) [OF inv] Some] by blast
  have st: "gate_cstep ?sh c ?sh c1" and p: "ae_pending ?ms c = [] @ ae_pending ?ms c1"
    using T(2) by (simp_all add: ae_ref_spec_def)
  note E = ae_exec_consumer [OF inv Some st p]
  show ?thesis
  proof (cases res)
    case (Popped g)
    obtain v rest where P: "ae_deref ?sh c1 = Inr v" "ae_pending ?ms c = v # rest"
      "\<And>sh' c'. ae_popref_drop ?sh c1 = (sh', c') \<Longrightarrow> gate_cstep ?sh c sh' c' \<and> ae_pending ?ms c' = rest"
      using T(2) Popped by (auto simp: ae_ref_spec_def)
    obtain sh' c' where D: "ae_popref_drop ?sh c1 = (sh', c')" by (rule prod.exhaust)
    have "ae_exec_spec n (Received k [v]) r (r\<lparr>ae_sh := sh', ae_cs := (ae_cs r)(k \<mapsto> c')\<rparr>)"
      by (rule ae_exec_consumer [OF inv Some, of _ _ "[v]"]) (use P(2) P(3) [OF D] in simp_all)
    then show ?thesis using T(1) Popped P(1) D E [of Quiet] Some by (cases keep) simp_all
  qed (use T E Some in \<open>simp_all add: ae_ref_spec_def\<close>)
qed

lemma ae_exec_drain:
  assumes inv: "ae_inv (Suc n) r"
  shows "\<exists>ev r'. ae_exec (Ae_drain k unwinds) r = Inr (ev, r') \<and> ae_exec_spec n ev r r'"
proof (cases "ae_cs r k")
  case None
  then show ?thesis using ae_exec_quiet [OF inv] by simp
next
  case (Some c)
  obtain vs sh' c' where T: "ae_drain unwinds (ae_sh r) c = Inr (vs, sh', c')" "gate_cstep (ae_sh r) c sh' c'"
    "ae_pending (ae_log r) c = vs @ ae_pending (ae_log r) c'"
    using ae_drain_ok [OF ae_invD(1) [OF inv] Some, of unwinds] by blast
  have "ae_exec_spec n (Received k vs) r (r\<lparr>ae_sh := sh', ae_cs := (ae_cs r)(k \<mapsto> c')\<rparr>)"
    by (rule ae_exec_consumer [OF inv Some T(2,3)]) simp
  then show ?thesis using T(1) Some by simp
qed

section \<open>Membership\<close>

lemma ae_exec_subscribe:
  assumes inv: "ae_inv (Suc n) r"
  shows "\<exists>ev r'. ae_exec Ae_subscribe r = Inr (ev, r') \<and> ae_exec_spec n ev r r'"
proof -
  note I = ae_invD [OF inv]
  obtain res sh' where g: "ae_subscribe_from (ae_sh r) = (res, sh')" by (rule prod.exhaust)
  show ?thesis
  proof (cases res)
    case (Inl e)
    then show ?thesis using g ae_exec_quiet [OF inv] by simp
  next
    case (Inr c)
    have k: "ae_cs r (ae_next r) = None" by (rule I(2)) simp
    note S = ae_subscribe_ok [OF I(1) k g [unfolded Inr]]
    let ?r' = "r\<lparr>ae_sh := sh', ae_cs := (ae_cs r)(ae_next r \<mapsto> c), ae_next := Suc (ae_next r)\<rparr>"
    have "ae_inv n (r\<lparr>ae_sh := sh', ae_p := ae_p r, ae_cs := (ae_cs r)(ae_next r \<mapsto> c), ae_next := Suc (ae_next r)\<rparr>)"
      by (rule ae_inv_unseen [OF inv S(1,3)]) (use I(2) in simp)
    moreover have "ae_queues ?r' = (ae_queues r)(ae_next r \<mapsto> [])"
      by (rule ext) (simp add: ae_queues_def S(2))
    ultimately have "ae_exec_spec n (Joined (ae_next r)) r ?r'"
      using k by (simp add: ae_exec_spec_def ae_queues_def)
    then show ?thesis using g Inr by simp
  qed
qed

lemma ae_exec_leave:
  assumes inv: "ae_inv (Suc n) r"
  shows "\<exists>ev r'. ae_exec (Ae_leave k) r = Inr (ev, r') \<and> ae_exec_spec n ev r r'"
proof (cases "ae_cs r k")
  case None
  then show ?thesis using ae_exec_quiet [OF inv] by simp
next
  case (Some c)
  note L = ae_leave_ok [OF ae_invD(1) [OF inv] Some]
  let ?r' = "r\<lparr>ae_sh := ae_anchor_drop (ae_sh r) c, ae_cs := (ae_cs r)(k := None)\<rparr>"
  have "ae_inv n (r\<lparr>ae_sh := ae_anchor_drop (ae_sh r) c, ae_p := ae_p r, ae_cs := (ae_cs r)(k := None),
      ae_next := ae_next r\<rparr>)"
    by (rule ae_inv_unseen [OF inv L]) (use ae_invD(2) [OF inv] in simp)
  moreover have "ae_queues ?r' = (ae_queues r)(k := None)" by (rule ext) (simp add: ae_queues_def)
  ultimately have "ae_exec_spec n (Left k) r ?r'" using Some by (simp add: ae_exec_spec_def ae_queues_def)
  then show ?thesis using Some by simp
qed

section \<open>Every call does what the contract says\<close>

lemma ae_exec_ok:
  assumes "ae_inv (Suc n) r"
  shows "\<exists>ev r'. ae_exec x r = Inr (ev, r') \<and> ae_exec_spec n ev r r'"
  using ae_exec_push [OF assms] ae_exec_claim [OF assms] ae_exec_subscribe [OF assms] ae_exec_pop [OF assms]
    ae_exec_pop_ref [OF assms] ae_exec_drain [OF assms] ae_exec_leave [OF assms] ae_exec_close [OF assms]
  by (cases x) blast+

interpretation ae_mc: numbered_multicast ae_inv ae_queues ae_exec ae_next
proof unfold_locales
  fix n r x assume inv: "ae_inv (Suc n) r"
  show "\<exists>ev r'. ae_exec x r = Inr (ev, r') \<and> ae_inv n r' \<and> mc_spec ev (ae_queues r) (ae_queues r')"
    using ae_exec_ok [OF inv, of x] unfolding ae_exec_spec_def by blast
next
  fix n r x ev r' assume inv: "ae_inv (Suc n) r" and e: "ae_exec x r = Inr (ev, r')"
  show "(\<forall>k. ev = Joined k \<longrightarrow> k = ae_next r) \<and> ae_next r' = (case ev of Joined k \<Rightarrow> Suc k | _ \<Rightarrow> ae_next r)"
    using ae_exec_ok [OF inv, of x] e unfolding ae_exec_spec_def by auto
qed

end
