(* ===== verification/Anchored_Properties.thy ===== *)
theory Anchored_Properties
  imports Anchored_Runs
begin

text \<open>
  The properties of the composed element ring: lossless multicast to the anchors, the
  observers' ring is a lossy ring, and the outcomes of a push.
\<close>

section \<open>Reachable rings\<close>

lemma default_slack_less: "2 \<le> capacity \<Longrightarrow> default_slack capacity < capacity"
  by (auto simp: default_slack_def Let_def word_less_nat_alt word_le_nat_alt unat_div)

text \<open>Both constructors build a ring of a power of two and a slack below it.\<close>

lemma ae_new_build:
  assumes "ae_new e n sl = Inr r"
  obtains capacity slack sh p c where "ae_build e capacity slack = Inr (sh, p, c)"
    and "valid_mask (capacity - 1)" and "2 \<le> capacity" and "slack < capacity"
    and "r = \<lparr>ae_sh = sh, ae_p = p, ae_cs = Map.empty(0 \<mapsto> c), ae_next = 1,
      ae_esize = e, ae_start = ae_view sh, ae_log = [], ae_hist = []\<rparr>"
proof -
  have pow: "(2 :: usize) = 2 ^ 1" "(1 :: nat) < 64" by simp_all
  obtain capacity where rc: "round_capacity n 2 = Inr capacity"
    using assms by (auto simp: ae_new_def ae_with_wait_strategies_def ae_with_slack_def split: sum.splits option.splits)
  note R = round_capacity_pow2 [OF rc pow]
  define slack where "slack = (case sl of None \<Rightarrow> default_slack capacity | Some s \<Rightarrow> s)"
  have lt: "slack < capacity"
    using assms rc default_slack_less [OF R(2)]
    by (auto simp: slack_def ae_new_def ae_with_slack_def split: option.splits if_splits)
  have b: "map_sum id (\<lambda>(sh, p, c). \<lparr>ae_sh = sh, ae_p = p, ae_cs = Map.empty(0 \<mapsto> c), ae_next = 1,
      ae_esize = e, ae_start = ae_view sh, ae_log = [], ae_hist = []\<rparr>) (ae_build e capacity slack) = Inr r"
    using assms rc lt
    by (auto simp: slack_def ae_new_def ae_with_slack_def ae_with_wait_strategies_def split: option.splits)
  then obtain sh p c where "ae_build e capacity slack = Inr (sh, p, c)"
    by (cases "ae_build e capacity slack") auto
  then show ?thesis using that [OF _ R(1,2) lt] b by simp
qed

lemma ae_new_inv:
  assumes new: "ae_new e n sl = Inr r" and few: "m < seq_span" "m + 2 * capacity_of (ae_mask r) < word_span"
  shows "ae_inv m r" and "ae_queues r = [0 \<mapsto> []]" and "ae_next r = 1" and "ae_log r = []" and "ae_esize r = e"
proof -
  obtain capacity slack sh p c where B: "ae_build e capacity slack = Inr (sh, p, c)"
    and V: "valid_mask (capacity - 1)" "2 \<le> capacity" "slack < capacity"
    and r: "r = \<lparr>ae_sh = sh, ae_p = p, ae_cs = Map.empty(0 \<mapsto> c), ae_next = 1,
      ae_esize = e, ae_start = ae_view sh, ae_log = [], ae_hist = []\<rparr>"
    by (rule ae_new_build [OF new]) blast
  define sh0 :: ae_shared where "sh0 = \<lparr>gs_mask = capacity - 1, gs_write_cursor = 0, gs_closed = 0,
      gs_registry = [chunk_new], gs_producer_notified = 0, gs_consumer_notified = 0,
      ae_slots = replicate (unat capacity) \<lparr>sl_seq = 0, sl_data = replicate e None\<rparr>, ae_slack = slack\<rparr>"
  have cap: "capacity_of (capacity - 1) = unat capacity" by (simp add: capacity_of_def)
  have two: "2 \<le> unat capacity" using V(2) by (simp add: word_le_nat_alt)
  have e0: "0 < e" and g: "ae_subscribe_from sh0 = (Inr c, sh)"
    using B by (auto simp: ae_build_def Let_def sh0_def split: if_splits prod.splits sum.splits)
  have p: "p = \<lparr>gp_mask = gs_mask sh, gp_next_seq = 0, gp_cached_min = 0, gp_cached_cursors = []\<rparr>"
    using B g by (auto simp: ae_build_def Let_def sh0_def split: if_splits prod.splits sum.splits)
  have v0: "ae_view sh0 = fresh_ring (capacity - 1) slack e"
    by (simp add: sh0_def ae_view_def fresh_ring_def cap)
  have mk: "gs_mask sh = capacity - 1"
    using g by (auto simp: ae_subscribe_from_def gate_subscribe_def sh0_def split: prod.splits)
  have am: "ae_mask r = capacity - 1" by (simp add: ae_mask_def r mk)
  have s0: "ae_sound e [] sh0 p Map.empty"
  proof (rule ae_soundI)
    show "gate_ok sh0 p Map.empty"
      using V(1) two few(2) cap mk unfolding am by (intro gate_ok_fresh) (simp_all add: sh0_def p)
    show "ring_at (gs_mask sh0) (ae_slack sh0) e [] (length []) False (ae_view sh0)"
      unfolding v0 by (simp add: ring_at_def fresh_ring_def sh0_def)
  qed (simp add: sh0_def)
  note S = ae_subscribe_ok [where k = 0, OF s0 _ g, simplified]
  have start: "ae_view sh = fresh_ring (capacity - 1) slack e" using S(3) v0 by simp
  have cl: "gs_closed sh = 0" using arg_cong [OF start, of bs_closed] by (simp add: fresh_ring_def)
  have L: "ae_lossy r = \<lparr>br_mask = capacity - 1, br_slack = slack, br_esize = e, br_calls = []\<rparr>"
    using arg_cong [OF start, of bs_slack] cl am by (simp add: ae_lossy_def r fresh_ring_def ae_mask_def)
  have "br_ok (ae_lossy r)" using V(1,3) e0 by (simp add: L br_ok_def seq_span_def)
  moreover have "ae_start r = fst (br_handles (ae_lossy r))"
    unfolding L using br_handles_fresh(1) [of "\<lparr>br_mask = capacity - 1, br_slack = slack, br_esize = e, br_calls = []\<rparr>"]
      e0 start by (simp add: r)
  moreover have "ae_hist r = br_stores (ae_lossy r)" unfolding L by (simp add: r br_stores_def)
  ultimately show "ae_inv m r"
    using S(1) few by (simp add: ae_inv_def r ae_mask_def)
  show "ae_queues r = [0 \<mapsto> []]" using S(2) by (auto simp: ae_queues_def r fun_eq_iff)
  show "ae_next r = 1" "ae_log r = []" "ae_esize r = e" by (simp_all add: r)
qed

lemma ae_run:
  assumes "ae_inv n r" and "length ops \<le> n" and "mc_run ae_exec ops r = Inr (evs, r')"
  shows "ae_inv (n - length ops) r' \<and> ae_log r' = ae_log r @ mc_published evs
    \<and> ae_start r' = ae_start r \<and> ae_esize r' = ae_esize r"
  using assms
proof (induction ops arbitrary: n r evs)
  case (Cons x ops)
  obtain m where m: "n = Suc m" using Cons.prems(2) by (cases n) auto
  obtain ev r1 where 1: "ae_exec x r = Inr (ev, r1)" "ae_exec_spec m ev r r1"
    using ae_exec_ok [OF Cons.prems(1) [unfolded m]] by blast
  obtain evs1 where run: "mc_run ae_exec ops r1 = Inr (evs1, r')" and evs: "evs = ev # evs1"
    using Cons.prems(3) 1(1) by (auto split: sum.splits)
  have "mc_published (ev # evs1) = mc_published [ev] @ mc_published evs1" by (cases ev) simp_all
  then show ?case
    using Cons.IH [OF _ _ run, of m] 1(2) Cons.prems(2) m evs by (simp add: ae_exec_spec_def)
qed simp

lemma ae_new_run:
  assumes "ae_new e n sl = Inr r0" and "k + length ops < seq_span"
    and "k + length ops + 2 * capacity_of (ae_mask r0) < word_span"
    and "mc_run ae_exec ops r0 = Inr (evs, r)"
  shows "ae_inv k r" and "ae_log r = mc_published evs" and "ae_mask r = ae_mask r0" and "ae_esize r = e"
  using ae_run [OF ae_new_inv(1) [OF assms(1-3)] _ assms(4)] ae_new_inv(4,5) [OF assms(1-3)]
  by (simp_all add: ae_mask_def)

section \<open>Where the stores of a push go\<close>

lemma fold_other_slot:
  assumes "\<And>st. st \<in> set sts \<Longrightarrow> case st of St_seq i _ \<Rightarrow> i \<noteq> j | St_data i _ _ \<Rightarrow> i \<noteq> j | _ \<Rightarrow> True"
  shows "bs_slots (fold bc_apply sts sh) ! j = bs_slots sh ! j"
  using assms
proof (induction sts arbitrary: sh)
  case (Cons st sts)
  have "bs_slots (bc_apply st sh) ! j = bs_slots sh ! j"
    using Cons.prems [of st] by (cases st) simp_all
  then show ?case using Cons.IH [of "bc_apply st sh"] Cons.prems by simp
qed simp

lemma push_other_slot:
  assumes "slot_ix m s \<noteq> j"
  shows "bs_slots (fold bc_apply (take i (push_stores m s v)) sh) ! j = bs_slots sh ! j"
proof (rule fold_other_slot)
  fix st assume "st \<in> set (take i (push_stores m s v))"
  then have "st \<in> set (push_stores m s v)" by (rule in_set_takeD)
  then show "case st of St_seq i _ \<Rightarrow> i \<noteq> j | St_data i _ _ \<Rightarrow> i \<noteq> j | _ \<Rightarrow> True"
    using assms by (auto simp: push_stores_def write_payload_def)
qed

section \<open>Properties\<close>

text \<open>
  (C38) Lossless multicast to the anchors. In any run of calls on a new ring, with either
  constructor, no call faults or reads a byte that was never written, and every anchor,
  the first one and each one that subscribes, receives, byte for byte, in order and
  without a gap or a repetition, exactly the values published while it is attached;
  what it has not received is what it still has pending. This holds for copies, guards
  (dropped or forgotten), abandoned claims, callbacks of \<open>drain\<close> that panic, departures
  and the close.
\<close>

theorem ae_multicast:
  assumes new: "ae_new e n sl = Inr r0" and few: "length ops < 2 ^ 62"
    and short: "length ops + 2 * capacity_of (ae_mask r0) < 2 ^ 64"
  shows "\<exists>evs r. mc_run ae_exec ops r0 = Inr (evs, r)
    \<and> (\<exists>rest. mc_audible 0 evs = mc_received 0 evs @ rest
          \<and> (\<forall>q. ae_queues r 0 = Some q \<longrightarrow> rest = q))
    \<and> (\<forall>evs1 k evs2. evs = evs1 @ Joined k # evs2 \<longrightarrow>
          (\<exists>rest. mc_audible k evs2 = mc_received k evs2 @ rest
             \<and> (\<forall>q. ae_queues r k = Some q \<longrightarrow> rest = q)))"
proof -
  note N = ae_new_inv [OF new few [folded seq_span_def] short [folded word_span_def]]
  obtain evs r where R: "mc_run ae_exec ops r0 = Inr (evs, r)"
    "\<forall>k q. k < ae_next r0 \<longrightarrow> ae_queues r0 k = Some q \<longrightarrow>
       (\<exists>rest. q @ mc_audible k evs = mc_received k evs @ rest
          \<and> (\<forall>q'. ae_queues r k = Some q' \<longrightarrow> rest = q'))"
    "\<forall>evs1 k evs2. evs = evs1 @ Joined k # evs2 \<longrightarrow>
       (\<exists>rest. mc_audible k evs2 = mc_received k evs2 @ rest
          \<and> (\<forall>q'. ae_queues r k = Some q' \<longrightarrow> rest = q'))"
    using ae_mc.run_everyone [OF N(1) order_refl] by blast
  have "0 < ae_next r0" "ae_queues r0 0 = Some []" using N(2,3) by simp_all
  then have "\<exists>rest. [] @ mc_audible 0 evs = mc_received 0 evs @ rest \<and> (\<forall>q'. ae_queues r 0 = Some q' \<longrightarrow> rest = q')"
    using R(2) by blast
  then show ?thesis using R(1,3) by auto
qed

text \<open>A ring of four values of two bytes with slack 1, and a run on it past the first lap.\<close>

definition ae4 :: ae_ring where
  "ae4 = projr (ae_new 2 3 (Some 1))"

lemma ae4_new: "ae_new 2 3 (Some 1) = Inr ae4"
proof -
  have "\<not> isl (ae_new 2 3 (Some 1))" by code_simp
  then show ?thesis unfolding ae4_def by (rule sum.collapse(2) [symmetric])
qed

lemma ae4_mask: "ae_mask ae4 = 3" "capacity_of 3 = 4"
  by code_simp+

definition ae_demo :: "ae_op list" where
  "ae_demo = [Ae_push [1, 1], Ae_subscribe, Ae_push [2, 2], Ae_pop 0, Ae_pop_ref 1 True, Ae_claim [3, 3] True,
     Ae_push [4, 4], Ae_drain 1 (\<lambda>_. False), Ae_pop_ref 0 False, Ae_drain 1 (\<lambda>_. True), Ae_drain 1 (\<lambda>_. False),
     Ae_push [5, 5], Ae_push [6, 6], Ae_push [7, 7], Ae_leave 1]"

definition ae_demo_end :: "u8 list mc_event list \<times> ae_ring" where
  "ae_demo_end = projr (mc_run ae_exec ae_demo ae4)"

lemma ae_demo_short:
  "length ae_demo < 2 ^ 62" "length ae_demo + 2 * capacity_of (ae_mask ae4) < 2 ^ 64"
  "3 + length ae_demo < 2 ^ 62" "3 + length ae_demo + 2 * capacity_of (ae_mask ae4) < 2 ^ 64"
  by (simp_all add: ae4_mask ae_demo_def)

theorem ae_multicast_witness:
  "\<exists>evs r. mc_run ae_exec ae_demo ae4 = Inr (evs, r)
    \<and> (\<exists>rest. mc_audible 0 evs = mc_received 0 evs @ rest)"
  using ae_multicast [OF ae4_new ae_demo_short(1,2)] by blast

lemma ae_demo_run: "mc_run ae_exec ae_demo ae4 = Inr (fst ae_demo_end, snd ae_demo_end)"
proof -
  have "\<not> isl (mc_run ae_exec ae_demo ae4)" by code_simp
  then show ?thesis unfolding ae_demo_end_def by simp
qed

lemma ae_demo_shape:
  "mc_published (fst ae_demo_end) = [[1, 1], [2, 2], [3, 3], [4, 4], [5, 5], [6, 6]]"
  "length (ae_hist (snd ae_demo_end)) = 30"
  by code_simp+

text \<open>
  (C39) Behind the gate the ring is a lossy ring. After any run of calls, whatever the
  anchors did, the stores issued so far are exactly those of a lossy broadcast producer
  that pushes the same values, closed or not, so that every memory an observer can load
  from is one of that run; hence, wherever its loads fall, no call of an observer
  faults, every value it gets is the one at its position, every loss has the exact
  count, the end is reported only behind everything published, and what it got is a
  subsequence of what was published after it subscribed, gap-free when nothing was
  reported lost. Subscribing now is subscribing at the last store.
\<close>

theorem ae_observers_lossy:
  assumes "ae_new e n sl = Inr r0" and "length ops < 2 ^ 62"
    and "length ops + 2 * capacity_of (ae_mask r0) < 2 ^ 64"
    and "mc_run ae_exec ops r0 = Inr (evs, r)" and "mono clk" and "t \<le> clk 0"
  defines "c \<equiv> bc_subscribe_from (ae_memory r t)" and "ms \<equiv> mc_published evs"
  shows "br_ok (ae_lossy r) \<and> br_messages (ae_lossy r) = ms
    \<and> (\<forall>i. ae_memory r i = br_memory (ae_lossy r) i)
    \<and> ae_observe_from (ae_sh r) = bc_subscribe_from (ae_memory r (length (ae_hist r)))
    \<and> (\<exists>seen i c1. lossy_run e (\<lambda>k. ae_memory r (clk k)) polls 0 c = Inr (seen, i, c1)
      \<and> replay ms (unat (bc_pos c)) seen = Some (unat (bc_pos c1))
      \<and> subseq (got seen) (drop (unat (bc_pos c)) ms)
      \<and> (lost seen = 0 \<longrightarrow> got seen = take (length (got seen)) (drop (unat (bc_pos c)) ms)))"
proof -
  let ?b = "ae_lossy r"
  note R = ae_new_run [where k = 0, OF assms(1) _ _ assms(4)]
  have inv: "ae_inv 0 r" and log: "ae_log r = ms" and es: "br_esize ?b = e"
    using R assms(2,3) by (simp_all add: seq_span_def word_span_def ms_def ae_lossy_sel)
  note I = ae_invD [OF inv]
  have mem: "ae_memory r i = br_memory ?b i" for i by (rule ae_memory_lossy [OF inv])
  have msgs: "br_messages ?b = ms" using ae_lossy_messages log by simp
  have c: "bcast.reader_ok ?b (clk 0) c" unfolding c_def mem by (rule br_subscribed [OF I(3) assms(5,6)])
  obtain seen i c1 where run: "lossy_run e (bcast.seen_at ?b clk) polls 0 c = Inr (seen, i, c1)"
    "replay ms (unat (bc_pos c)) seen = Some (unat (bc_pos c1))"
    using bcast.run_ok [OF I(3) assms(5) c, of polls] unfolding es msgs by blast
  have "lost seen = 0 \<Longrightarrow> got seen = take (length (got seen)) (drop (unat (bc_pos c)) ms)"
    using replay_lossless [OF run(2)] replay_account [OF run(2)] by simp
  moreover have "(\<lambda>k. ae_memory r (clk k)) = bcast.seen_at ?b clk"
    using seen_eq [of ?b clk] by (simp add: mem)
  moreover have now: "ae_memory r (length (ae_hist r)) = ae_view (ae_sh r)"
    using I(6) by (simp add: ae_memory_def bc_memory_def)
  have "ae_observe_from (ae_sh r) = bc_subscribe_from (ae_memory r (length (ae_hist r)))"
    unfolding now by (simp add: ae_observe_from_def bc_subscribe_from_def Let_def)
  ultimately show ?thesis using I(3) msgs mem run replay_subseq [OF run(2)] by auto
qed

text \<open>An observer from the start, loading every sixth store: it is lapped once.\<close>

theorem ae_observers_lossy_witness:
  "\<exists>i c1. lossy_run 2 (\<lambda>k. ae_memory (snd ae_demo_end) (6 * k))
        [Op_try_pop, Op_try_pop, Op_try_pop, Op_lag] 0 (bc_subscribe_from (ae_memory (snd ae_demo_end) 0))
      = Inr ([Nothing, Missed 3, Got [4, 4], Nothing], i, c1)
    \<and> subseq [[4, 4]] (mc_published (fst ae_demo_end))"
proof -
  let ?r = "snd ae_demo_end" and ?ops = "[Op_try_pop, Op_try_pop, Op_try_pop, Op_lag]"
  let ?c = "bc_subscribe_from (ae_memory ?r 0)" and ?evs = "[Nothing, Missed 3, Got [4, 4], Nothing]"
  have mono: "mono (\<lambda>k. 6 * k :: nat)" by (simp add: mono_def)
  obtain seen i c1 where b: "lossy_run 2 (\<lambda>k. ae_memory ?r (6 * k)) ?ops 0 ?c = Inr (seen, i, c1)"
    and got: "subseq (got seen) (drop (unat (bc_pos ?c)) (mc_published (fst ae_demo_end)))"
    using ae_observers_lossy [OF ae4_new ae_demo_short(1,2) ae_demo_run mono le0, of ?ops]
    by (elim exE conjE) (rule that)
  have "map_sum id fst (lossy_run 2 (\<lambda>k. ae_memory ?r (6 * k)) ?ops 0 ?c) = Inr ?evs" by code_simp
  then have evs: "seen = ?evs" unfolding b by simp
  have "subseq (got seen) (mc_published (fst ae_demo_end))"
    using got by (rule subseq_order.trans) (rule suffix_imp_subseq [OF suffix_drop])
  then show ?thesis using b unfolding evs by simp
qed

text \<open>
  (C40) The outcomes of a push. A push is refused exactly when some attached anchor's
  released position is a whole capacity behind; it then hands its value back, issues no
  store and changes no shared word, and a claim is refused in the same states. Otherwise
  the value is appended to the queue of every attached anchor, and after each single
  store of the push every slot that holds a value some anchor has not released is as it
  was: what a guard borrows does not change under it.
\<close>

theorem ae_push_gated:
  assumes "ae_new e n sl = Inr r0" and "Suc (length ops) < 2 ^ 62"
    and "Suc (length ops) + 2 * capacity_of (ae_mask r0) < 2 ^ 64"
    and "mc_run ae_exec ops r0 = Inr (evs, r)" and "gs_closed (ae_sh r) = 0" and "length v = e"
  defines "cap \<equiv> capacity_of (ae_mask r0)" and "ms \<equiv> mc_published evs"
    and "blocked \<equiv> \<exists>k a. ae_cs r k = Some a \<and> unat (gc_published a) + capacity_of (ae_mask r0) \<le> length (mc_published evs)"
  shows "\<exists>res sts sh' p'. ae_try_push v (ae_sh r) (ae_p r) = (res, sts, sh', p')
    \<and> (blocked \<longrightarrow> res = Push_refused v \<and> sts = [] \<and> sh' = ae_sh r)
    \<and> (fst (ae_try_claim (ae_sh r) (ae_p r)) \<longleftrightarrow> \<not> blocked)
    \<and> (\<not> blocked \<longrightarrow> res = Pushed \<and> ae_view sh' = fold bc_apply sts (ae_view (ae_sh r))
        \<and> (\<forall>k a. ae_cs r k = Some a \<longrightarrow> ae_pending (ms @ [v]) a = ae_pending ms a @ [v]
           \<and> (\<forall>x i. gc_published a \<le> x \<longrightarrow> unat x < length ms \<longrightarrow>
                bs_slots (fold bc_apply (take i sts) (ae_view (ae_sh r))) ! slot_ix (ae_mask r0) x
                  = bs_slots (ae_view (ae_sh r)) ! slot_ix (ae_mask r0) x)))"
proof -
  have bounds: "Suc 0 + length ops < seq_span" "Suc 0 + length ops + 2 * cap < word_span"
    using assms(2,3) by (simp_all add: seq_span_def word_span_def cap_def)
  note R = ae_new_run [OF assms(1) bounds [unfolded cap_def] assms(4)]
  note I = ae_invD [OF R(1)] and S = ae_soundD [OF ae_invD(1) [OF R(1)]]
  have m: "gs_mask (ae_sh r) = ae_mask r0" and log: "ae_log r = ms" using I(9) R(2,3) by (simp_all add: ms_def)
  have nx: "unat (gp_next_seq (ae_p r)) = length ms" using S(2,7) log by simp
  obtain free p1 where h: "gate_has_space 1 (ae_sh r) (ae_p r) = (free, p1)" by (rule prod.exhaust)
  note H = ae_has_space_ok [OF I(1) h]
  have pub: "unat (gc_published a) \<le> length ms" if "ae_cs r k = Some a" for k a
    using consumer_okD(6) [OF gate_okD(3) [OF S(1) that]] ae_read_le [OF I(1) that] log by simp
  have two: "2 \<le> cap" using S(6) m by (simp add: cap_def)
  have "gate_blocked (ae_p r) cap 1 (ae_cs r) \<longleftrightarrow> blocked"
    using pub two unfolding gate_blocked_def blocked_def nx cap_def [symmetric] ms_def [symmetric]
    by (metis (no_types, opaque_lifting) Suc_eq_plus1 le_diff_conv2 less_Suc_eq_le add.commute)
  then have fr: "free \<longleftrightarrow> \<not> blocked" using H(3) m by (simp add: cap_def)
  show ?thesis
  proof (cases free)
    case False
    then show ?thesis using h fr by (simp add: ae_try_push_def ae_try_claim_def)
  next
    case True
    obtain sts sh' p' where w: "ae_write v (ae_sh r) p1 = (sts, sh', p')" by (rule prod_cases3)
    have P: "gp_mask p1 = gs_mask (ae_sh r)" by (rule ae_soundD(5) [OF H(1)])
    note W = ae_write_eq [OF w P]
    have keep: "bs_slots (fold bc_apply (take i sts) sh) ! slot_ix (ae_mask r0) x = bs_slots sh ! slot_ix (ae_mask r0) x"
      if a: "ae_cs r k = Some a" and x: "gc_published a \<le> x" "unat x < length ms" for k a x i sh
    proof -
      have "length ms < unat (gc_published a) + cap"
        using True fr a unfolding blocked_def cap_def ms_def by (meson not_le)
      then have lt: "length ms < unat x + cap" using x(1) by (simp add: word_le_nat_alt)
      have "slot_ix (ae_mask r0) x \<noteq> slot_ix (ae_mask r0) (of_nat (length ms))"
        by (rule write_slot(3)) (use S(4) m I(7) log x(2) lt in \<open>simp_all add: cap_def\<close>)
      moreover have "gp_next_seq p1 = of_nat (length ms)" using H(2) nx by (metis of_nat_unat ucast_id)
      ultimately show ?thesis unfolding W(1) m by (intro push_other_slot) simp
    qed
    have "ae_pending (ms @ [v]) a = ae_pending ms a @ [v]" if "ae_cs r k = Some a" for k a
      using ae_read_le [OF I(1) that] log by (simp add: ae_pending_def)
    then show ?thesis
      using h fr True w W(3) keep by (simp add: ae_try_push_def ae_try_claim_def)
  qed
qed

text \<open>At the end of the run the first anchor has released two values of six, so the ring is full.\<close>

theorem ae_push_gated_witness:
  "\<exists>p'. ae_try_push [8, 8] (ae_sh (snd ae_demo_end)) (ae_p (snd ae_demo_end))
    = (Push_refused [8, 8], [], ae_sh (snd ae_demo_end), p')"
proof -
  let ?r = "snd ae_demo_end"
  have b: "Suc (length ae_demo) < 2 ^ 62" "Suc (length ae_demo) + 2 * capacity_of (ae_mask ae4) < 2 ^ 64"
    using ae_demo_short(3,4) by simp_all
  have op: "gs_closed (ae_sh ?r) = 0" by code_simp
  have "ae_cs ?r 0 \<noteq> None" "unat (gc_published (the (ae_cs ?r 0))) + capacity_of (ae_mask ae4)
      \<le> length (mc_published (fst ae_demo_end))" by code_simp+
  then have bl: "\<exists>k a. ae_cs ?r k = Some a
      \<and> unat (gc_published a) + capacity_of (ae_mask ae4) \<le> length (mc_published (fst ae_demo_end))"
    by (metis option.collapse)
  show ?thesis
    using ae_push_gated [OF ae4_new b ae_demo_run op, of "[8, 8]"] bl by auto
qed

end
