(* ===== verification/Spec2Isabelle.thy ===== *)
theory Spec2Isabelle
  imports Spsc_Properties Spsc_Bytes_Properties Gate_Properties Spmc_Properties
    Broadcast_Properties Spmc_Bytes_Properties Shm_Table_Properties Shm_Recovery Region_Properties
    Broadcast_Bytes_Properties Anchored_Bytes_Properties Anchored_Properties
begin

text \<open>
  A verification development for the ring-buffer crate \<open>rust-rb\<close>: bounded and
  lossy message queues between threads and, over a mapped file, processes.

  \<^bold>\<open>Parts.\<close> The crate has lossless rings, whose producer waits for the slowest
  reader, and lossy ones, whose producer overwrites and whose readers detect it.
  \<^item> Single consumer: \<open>spsc.rs\<close> (values of one type) and \<open>spsc_bytes.rs\<close> (framed
    messages of any length), both over the cursor engine \<open>cursor.rs\<close>.
  \<^item> Many consumers, lossless (gating): \<open>spmc.rs\<close> and \<open>spmc_bytes.rs\<close>, over the
    registry of consumer cursors \<open>registry.rs\<close>.
  \<^item> Many consumers, lossy: \<open>broadcast.rs\<close>, over the per-slot seqlock \<open>seqlock.rs\<close>,
    and \<open>broadcast_bytes.rs\<close>, over three counters (declared intent, latest record,
    committed tail), both with the racing copies \<open>atomic_copy.rs\<close>.
  \<^item> Both at once: \<open>anchored.rs\<close> and \<open>anchored_bytes.rs\<close>, rings of elements and of
    bytes whose producer waits for its anchors only, while observers read along like
    readers of a lossy ring.
  \<^item> Shared memory: \<open>shm.rs\<close> puts each ring into a mapped file behind a header, a
    lease per role and, for the gating rings, a table of consumer slots.

  \<^bold>\<open>Theories and sources.\<close>
  \<^item> \<open>Ring_Prelude\<close>: the machine types, faults, arithmetic of wrapping cursors and
    the window of a buffer between two cursors.
  \<^item> \<open>Fifo_Interface\<close>, \<open>Multicast_Interface\<close>, \<open>Lossy_History\<close>: the contracts, as
    locales: a bounded FIFO ring, a lossless multicast ring, and the history of a
    lossy ring with its readers. Each ring interprets one on its own operations.
  \<^item> \<open>Lease\<close> (the role leases of \<open>shm.rs\<close>), \<open>Cursor\<close> (\<open>cursor.rs\<close>), \<open>Spsc\<close>
    (\<open>spsc.rs\<close>), \<open>Framing\<close> and \<open>Spsc_Bytes\<close> (\<open>spsc_bytes.rs\<close>).
  \<^item> \<open>Registry\<close> (the chunk list and the rescan of \<open>registry.rs\<close>; the locale
    \<open>gate_walk\<close> is what a rescan needs of one visited slot), \<open>Gate\<close> (the producer
    and consumer state shared by the gating rings), \<open>Spmc\<close> (\<open>spmc.rs\<close>) and
    \<open>Spmc_Bytes\<close> (\<open>spmc_bytes.rs\<close>); \<open>Gate_Invariant\<close> and \<open>Spmc_Bytes_Invariant\<close>
    hold their invariants.
  \<^item> \<open>Atomic_Copy\<close>, \<open>Seqlock\<close>, \<open>Broadcast\<close> with the trace of its atomic stores in
    \<open>Broadcast_Trace\<close>.
  \<^item> \<open>Broadcast_Bytes\<close> (\<open>broadcast_bytes.rs\<close> and the healing attach of \<open>shm.rs\<close>), with
    the positions of its frames in \<open>Byte_Frames\<close>, the contract of its readers, a
    locale over histories of memories, in \<open>Byte_History\<close>, and what holds after each
    store of a producer, crashes included, in \<open>Byte_Trace\<close>.
  \<^item> \<open>Anchored_Bytes\<close> (\<open>anchored_bytes.rs\<close>, over \<open>Gate\<close> and \<open>Broadcast_Bytes\<close>), its
    invariant and the anchors' reads in \<open>Anchored_Bytes_Invariant\<close>, the gate and the
    stores of a frame in \<open>Anchored_Bytes_Producer\<close>, pops and membership in
    \<open>Anchored_Bytes_Anchors\<close>, and in \<open>Anchored_Bytes_Runs\<close> whole runs, as an instance of
    the multicast contract; \<open>Anchored_Bytes_Properties\<close> interprets the byte history
    on the same runs.
  \<^item> \<open>Anchored\<close> (\<open>anchored.rs\<close>, over \<open>Gate\<close> and the stores of \<open>Broadcast\<close>), its
    invariant and the anchors' operations in \<open>Anchored_Invariant\<close>, and in
    \<open>Anchored_Runs\<close> whole runs: an instance of the multicast contract, and by the
    abstraction \<open>ae_lossy\<close> a run of the lossy ring, whose interpretation of
    \<open>Lossy_History\<close> serves the observers.
  \<^item> \<open>Shm_Table\<close> (the consumer table of \<open>shm.rs\<close> and the shared-memory branches of
    \<open>spmc.rs\<close> and \<open>registry.rs\<close>), with the second interpretation of \<open>gate_walk\<close> in
    \<open>Shm_Table_Walk\<close>, the interleavings in \<open>Shm_Table_Trace\<close> and their invariants
    in \<open>Shm_Table_Invariant\<close> and \<open>Shm_Table_Gating\<close>; \<open>Shm_Recovery\<close> has the recovery
    that other processes race with.
  \<^item> \<open>Region_Header\<close>: creation and validation of a mapped region (\<open>shm.rs\<close>).
  \<^item> The properties stand in the theories \<open>*_Properties\<close>, \<open>Lease\<close> and \<open>Shm_Recovery\<close>, each after a comment with
    its number.

  \<^bold>\<open>How state and operations correspond.\<close> Every struct is a record with the source's
  fields; atomics are the words they hold; a handle's method is a function from the
  shared record and the handle to both, new. Cursors, sequence numbers, leases and
  control words keep their width (\<open>u64\<close>, \<open>u32\<close>), so wrap-around is the hardware's.
  A panic or an access to an uninitialised slot is a value of \<open>fault\<close>; a refused
  push hands its value back, as in the source. A slot is an \<open>option\<close>: None is
  uninitialised memory, so reading it is a fault and not an arbitrary value.

  \<^bold>\<open>Other threads.\<close> Between two atomic accesses anybody may run. Where a function
  loads more than once, what it sees is an argument: a list of interferences (the
  wait loops), a function of the load's index (\<open>seen\<close>), or a history of
  memories read with growing indices (\<open>Lossy_History\<close>, \<open>Byte_History\<close>,
  \<open>Region_Properties\<close>). The
  table protocol is an inductive relation over single atomic steps: there a rescan of
  the shared-memory table goes slot by slot, anybody running in between, and only the
  two exchanges of a graceful detach are one step. The rescan of the heap registry
  (\<open>heap_walk\<close>) instead reads one snapshot of the chunk list. The role leases are a
  relation too, a claim being its compare-exchange; what races with the look at the
  generation after it is covered by \<open>claim_lease_split\<close>. The theorems
  hold for all sequentially consistent interleavings of those accesses; weaker
  orderings of the hardware, which the source's Acquire and Release annotations and
  fences rule out, are not modelled. Time does not exist: a wait ends when the list
  of what happened meanwhile satisfies its check.

  \<^bold>\<open>What the lemma groups show.\<close>
  \<^item> SPSC rings: every run refines a queue; nothing is lost, duplicated or dropped
    twice, padding and wrap-around included; a stale handle cannot write.
  \<^item> Gating rings: every consumer receives exactly what is published while it is
    attached; the selective rescan decides like a full scan; a blocked producer is
    released; values overwritten or left at teardown are destroyed once.
  \<^item> Lossy rings: no torn message, exact loss counts, the end exactly at the end; for
    the byte ring also that a push its producer died in cannot hurt a reader once the
    next producer has attached.
  \<^item> Anchored byte ring: lossless multicast to the anchors, the lossy contract for the
    observers of the same run, no loss for an observer that some anchor is not ahead
    of, and that a push declares nothing before its gate is open.
  \<^item> Anchored element ring: lossless multicast to the anchors; the stores of any run
    are those of a lossy producer, so the observers' facts are the lossy ring's; no
    store of an admitted push touches what an anchor may still read.
  \<^item> Consumer table: a consumer that joined is never lapped whatever the
    interleaving; occupancies are exclusive; recovery loses nothing registered,
    also when other processes keep grabbing the slots it frees. A role lease is
    ended by its holder or taken over, never by a superseded or forked handle.
  \<^item> Header: creation and validation round-trip, and no attach mixes two headers.

  \<^bold>\<open>Bounds and fuel.\<close> A run of a gating ring of elements stays below \<open>2 ^ 64\<close>
  messages with two capacities to spare (the source's own assumption of a cursor
  that never wraps); of bytes, anchored or not,
  \<open>(operations + 2) * capacity < 2 ^ 64\<close>. The element rings with seqlocks, lossy or anchored, are followed for fewer than \<open>2 ^ 62\<close> messages, where generations \<open>2 * seq + 1\<close>
  are exact, the lossy byte ring while the end of its stream and two capacities stay
  below \<open>2 ^ 64\<close>. The SPSC rings have no bound: their cursors wrap. A slot of the table
  is claimed fewer than \<open>2 ^ 32\<close> times, where epochs are distinct. A region is
  created fewer than \<open>2 ^ 63\<close> times. Fuel appears in \<open>drain\<close> only: the number of
  bytes of the buffer, and a record has at least four, so it never runs out (the
  drain theorems state that everything was delivered). Loops that may wait for ever
  are partial functions whose theorems state when they return. Waits take the list of
  interferences, and their theorems state when they return.

  \<^bold>\<open>Not modelled.\<close> The attach of the anchored rings to a shared region, whose parts
  (the gating engine, the lossy readers, the consumer table) are modelled for the other
  rings. The observers of \<open>anchored.rs\<close> and \<open>anchored_bytes.rs\<close> have no definitions of
  their own: their text is that of \<open>broadcast.rs\<close> and \<open>broadcast_bytes.rs\<close>.
  \<open>wait.rs\<close>: strategies are timing and system calls (futex,
  yield). The public constructors of \<open>shm.rs\<close> compose modelled functions with mmap,
  ftruncate and fstat, whose results enter as parameters (file length, memory). \<open>cache_padded.rs\<close>,
  \<open>padded.rs\<close>: layout without behaviour. \<open>lib.rs\<close>, \<open>guide.rs\<close>, benches and examples.
\<close>

end
